(* ===== verification/Vernis_Prelude.thy ===== *)
theory Vernis_Prelude
  imports Main "HOL-Library.Word"
begin

text \<open>
  The shared vocabulary of the development: names for the machine integers of the C sources, C strings
  in fixed \<open>char\<close> arrays, little-endian and big-endian integers in byte arrays, the linear
  scan \<open>for (i = 0; i < MAX; i++) if (...) return i;\<close> that every slot table of the kernel uses,
  and three theorem collections that carry the component proofs.

  Arrays are lists of the array's length. A pointer that the code compares with \<open>NULL\<close> is an
  \<open>option\<close>. Array indices and bounded counters are \<open>nat\<close>: each component proves an
  invariant that keeps them below the array's length, hence far from the limits of the C type;
  everything that can wrap around (sequence numbers, statistics, addresses, ports, checksums) is a word.
\<close>

unbundle bit_operations_syntax

type_synonym u8 = "8 word"
type_synonym u16 = "16 word"
type_synonym u32 = "32 word"
type_synonym u64 = "64 word"
type_synonym cstring = "char list"
type_synonym bytes = "8 word list"

named_theorems slot_simps \<open>facts on linear scans of slot tables\<close>
named_theorems ring_simps \<open>facts on ring buffers\<close>
named_theorems byte_simps \<open>facts on byte encodings\<close>

section \<open>Linear scans of slot tables\<close>

fun find_slot_from :: "nat \<Rightarrow> ('a \<Rightarrow> bool) \<Rightarrow> 'a list \<Rightarrow> nat option" where
  "find_slot_from i P [] = None"
| "find_slot_from i P (x # xs) = (if P x then Some i else find_slot_from (Suc i) P xs)"

definition find_slot :: "('a \<Rightarrow> bool) \<Rightarrow> 'a list \<Rightarrow> nat option" where
  "find_slot P xs = find_slot_from 0 P xs"

lemma find_slot_from_None: "find_slot_from n P xs = None \<longleftrightarrow> (\<forall>x\<in>set xs. \<not> P x)"
  by (induction xs arbitrary: n) auto

lemma find_slot_from_Some:
  "find_slot_from n P xs = Some i \<longleftrightarrow>
     n \<le> i \<and> i - n < length xs \<and> P (xs ! (i - n)) \<and> (\<forall>j < i - n. \<not> P (xs ! j))"
proof (induction xs arbitrary: n)
  case Nil
  then show ?case by simp
next
  case (Cons x xs)
  show ?case
  proof (cases "P x")
    case True
    then show ?thesis by (cases "i - n") (auto intro: gr0I)
  next
    case False
    have "(Suc n \<le> i \<and> i - Suc n < length xs \<and> P (xs ! (i - Suc n)) \<and> (\<forall>j < i - Suc n. \<not> P (xs ! j)))
        \<longleftrightarrow> (n \<le> i \<and> i - n < length (x # xs) \<and> P ((x # xs) ! (i - n)) \<and> (\<forall>j < i - n. \<not> P ((x # xs) ! j)))"
      (is "?l \<longleftrightarrow> ?r")
    proof
      assume ?l
      then obtain k where k: "i - n = Suc k" by (cases "i - n") auto
      then have "i - Suc n = k" by simp
      with \<open>?l\<close> k False show ?r by (auto simp: less_Suc_eq_0_disj)
    next
      assume r: ?r
      with False obtain k where k: "i - n = Suc k" by (cases "i - n") auto
      then have "i - Suc n = k" "Suc n \<le> i" by simp_all
      with r k show ?l by auto
    qed
    with False Cons.IH [of "Suc n"] show ?thesis by simp
  qed
qed

lemma find_slot_Some_iff [slot_simps]:
  "find_slot P xs = Some i \<longleftrightarrow> i < length xs \<and> P (xs ! i) \<and> (\<forall>j < i. \<not> P (xs ! j))"
  by (simp add: find_slot_def find_slot_from_Some)

lemma find_slot_None_iff [slot_simps]: "find_slot P xs = None \<longleftrightarrow> (\<forall>x\<in>set xs. \<not> P x)"
  by (simp add: find_slot_def find_slot_from_None)

lemma find_slot_SomeD:
  assumes "find_slot P xs = Some i"
  shows "i < length xs" "P (xs ! i)"
  using assms by (simp_all add: find_slot_Some_iff)

lemma find_slot_NoneD: "find_slot P xs = None \<Longrightarrow> i < length xs \<Longrightarrow> \<not> P (xs ! i)"
  by (auto simp: find_slot_None_iff)

text \<open>When at most one slot satisfies the predicate, the scan finds exactly that slot.\<close>

lemma find_slot_unique:
  assumes i: "i < length xs" "P (xs ! i)"
    and uniq: "\<And>j. j < length xs \<Longrightarrow> P (xs ! j) \<Longrightarrow> j = i"
  shows "find_slot P xs = Some i"
proof -
  have "\<not> P (xs ! j)" if "j < i" for j
    using uniq [of j] that i(1) by (metis less_irrefl order.strict_trans)
  with i show ?thesis by (simp add: find_slot_Some_iff)
qed

lemma list_all_update:
  "list_all P xs \<Longrightarrow> P y \<Longrightarrow> list_all P (xs[i := y])"
  by (auto simp: list_all_iff dest!: set_update_subset_insert [THEN subsetD])

lemma list_all_nthD: "list_all P xs \<Longrightarrow> i < length xs \<Longrightarrow> P (xs ! i)"
  by (simp add: list_all_length)

lemma nth_update_eq: "i < length xs \<Longrightarrow> xs[i := y] ! j = (if j = i then y else xs ! j)"
  by simp

lemma nth_update_if: "xs[i := y] ! j = (if j = i \<and> i < length xs then y else xs ! j)"
  by (cases "i < length xs") (auto simp: list_update_beyond)

lemma card_slots_update:
  assumes "i < length xs"
  shows "card {j. j < length xs \<and> P (xs[i := y] ! j)} =
    card {j. j < length xs \<and> P (xs ! j)} - (if P (xs ! i) then 1 else 0) + (if P y then 1 else 0)"
proof -
  let ?A = "{j. j < length xs \<and> j \<noteq> i \<and> P (xs ! j)}"
  have fin: "finite ?A" by simp
  have "{j. j < length xs \<and> P (xs[i := y] ! j)} = (if P y then insert i ?A else ?A)"
    using assms by (auto simp: nth_update_eq)
  moreover have "{j. j < length xs \<and> P (xs ! j)} = (if P (xs ! i) then insert i ?A else ?A)"
    using assms by auto
  ultimately show ?thesis using fin by simp
qed

section \<open>C strings in char arrays\<close>

text \<open>
  A \<open>char\<close> array holds a string up to its first NUL. \<open>cstr\<close> reads it; \<open>c_strcmp\<close> is the
  byte-wise comparison loop that the kernel repeats in every file, on arrays or string literals
  (the end of the list stands for the terminator of a literal).
\<close>

abbreviation NUL :: char where "NUL \<equiv> CHR 0x00"

definition cstr :: "char list \<Rightarrow> cstring" where
  "cstr a = takeWhile (\<lambda>c. c \<noteq> NUL) a"

fun c_strcmp :: "char list \<Rightarrow> char list \<Rightarrow> int" where
  "c_strcmp [] [] = 0"
| "c_strcmp [] (y # ys) = - int (of_char y)"
| "c_strcmp (x # xs) [] = int (of_char x)"
| "c_strcmp (x # xs) (y # ys) =
     (if x \<noteq> NUL \<and> y \<noteq> NUL \<and> x = y then c_strcmp xs ys
      else int (of_char x) - int (of_char y))"

lemma of_char_eq_0_iff: "(of_char c :: nat) = 0 \<longleftrightarrow> c = NUL"
  using of_char_eq_iff [of c NUL, where ?'a = nat] by simp

lemma c_strcmp_eq_0: "c_strcmp a b = 0 \<longleftrightarrow> cstr a = cstr b"
  by (induction a b rule: c_strcmp.induct) (auto simp: cstr_def of_char_eq_0_iff)

lemma cstr_append_NUL: "NUL \<notin> set xs \<Longrightarrow> cstr (xs @ NUL # ys) = xs"
  unfolding cstr_def by (induction xs) auto

lemma cstr_no_NUL: "NUL \<notin> set (cstr a)"
  by (auto simp: cstr_def dest: set_takeWhileD)

lemma cstr_id: "NUL \<notin> set s \<Longrightarrow> cstr s = s"
  by (auto simp: cstr_def takeWhile_eq_all_conv)

lemma cstr_idem [simp]: "cstr (cstr a) = cstr a"
  by (simp add: cstr_id cstr_no_NUL)

lemma length_cstr_le: "length (cstr a) \<le> length a"
  by (simp add: cstr_def length_takeWhile_le)

lemma NUL_terminated_length: "NUL \<in> set a \<Longrightarrow> length (cstr a) < length a"
  unfolding cstr_def by (metis (mono_tags, lifting) length_takeWhile_le le_neq_implies_less
      set_takeWhileD takeWhile_eq_take take_all)

text \<open>
  The bounded copy \<open>while (src[i] && i < max - 1) dst[i] = src[i]; dst[i] = 0\<close>: what lies behind the
  terminator in \<open>dst\<close> stays. \<open>c_strncpy0\<close> is the variant that clears the rest of the array.
\<close>

definition c_strlcpy :: "char list \<Rightarrow> char list \<Rightarrow> nat \<Rightarrow> char list" where
  "c_strlcpy dst src mx =
     (if mx = 0 then dst
      else let s = take (mx - 1) (cstr src) in s @ [NUL] @ drop (Suc (length s)) dst)"

definition c_strncpy0 :: "char list \<Rightarrow> nat \<Rightarrow> char list" where
  "c_strncpy0 src n = (let s = take (n - 1) (cstr src) in s @ replicate (n - length s) NUL)"

lemma length_c_strlcpy [simp]:
  "0 < mx \<Longrightarrow> mx \<le> length dst \<Longrightarrow> length (c_strlcpy dst src mx) = length dst"
  by (auto simp: c_strlcpy_def Let_def)

lemma no_NUL_take_cstr: "NUL \<notin> set (take n (cstr a))"
  using cstr_no_NUL [of a] by (auto dest: in_set_takeD)

lemma cstr_c_strlcpy [simp]: "0 < mx \<Longrightarrow> cstr (c_strlcpy dst src mx) = take (mx - 1) (cstr src)"
  by (simp add: c_strlcpy_def Let_def cstr_append_NUL no_NUL_take_cstr)

lemma NUL_in_c_strlcpy [simp]: "0 < mx \<Longrightarrow> NUL \<in> set (c_strlcpy dst src mx)"
  by (simp add: c_strlcpy_def Let_def)

lemma length_c_strncpy0 [simp]: "0 < n \<Longrightarrow> length (c_strncpy0 src n) = n"
  by (auto simp: c_strncpy0_def Let_def)

lemma c_strncpy0_NUL: "0 < n \<Longrightarrow> \<exists>k. c_strncpy0 src n = take (n - 1) (cstr src) @ NUL # replicate k NUL"
proof -
  assume "0 < n"
  then have "n - length (take (n - 1) (cstr src)) = Suc (n - length (take (n - 1) (cstr src)) - 1)" by auto
  then show ?thesis unfolding c_strncpy0_def Let_def by (metis replicate_Suc)
qed

lemma cstr_c_strncpy0 [simp]: "0 < n \<Longrightarrow> cstr (c_strncpy0 src n) = take (n - 1) (cstr src)"
  using c_strncpy0_NUL [of n src] by (auto simp: cstr_append_NUL no_NUL_take_cstr)

lemma NUL_in_c_strncpy0 [simp]: "0 < n \<Longrightarrow> NUL \<in> set (c_strncpy0 src n)"
  using c_strncpy0_NUL [of n src] by auto

section \<open>Integers in byte arrays\<close>

definition le16_bytes :: "u16 \<Rightarrow> bytes" where
  "le16_bytes w = [ucast w, ucast (drop_bit 8 w)]"

definition le16_of :: "bytes \<Rightarrow> u16" where
  "le16_of b = ucast (b ! 0) OR push_bit 8 (ucast (b ! 1))"

definition le32_bytes :: "u32 \<Rightarrow> bytes" where
  "le32_bytes w = [ucast w, ucast (drop_bit 8 w), ucast (drop_bit 16 w), ucast (drop_bit 24 w)]"

definition le32_of :: "bytes \<Rightarrow> u32" where
  "le32_of b = ucast (b ! 0) OR push_bit 8 (ucast (b ! 1)) OR push_bit 16 (ucast (b ! 2))
     OR push_bit 24 (ucast (b ! 3))"

definition be16_bytes :: "u16 \<Rightarrow> bytes" where
  "be16_bytes w = [ucast (drop_bit 8 w), ucast w]"

definition be16_of :: "bytes \<Rightarrow> u16" where
  "be16_of b = push_bit 8 (ucast (b ! 0)) OR ucast (b ! 1)"

definition be32_bytes :: "u32 \<Rightarrow> bytes" where
  "be32_bytes w = [ucast (drop_bit 24 w), ucast (drop_bit 16 w), ucast (drop_bit 8 w), ucast w]"

definition be32_of :: "bytes \<Rightarrow> u32" where
  "be32_of b = push_bit 24 (ucast (b ! 0)) OR push_bit 16 (ucast (b ! 1)) OR push_bit 8 (ucast (b ! 2))
     OR ucast (b ! 3)"

lemma bit_drop_bit_add: "m \<le> n \<Longrightarrow> bit w (m + (n - m)) = bit w n"
  by simp

lemma le32_of_bytes_raw:
  "ucast (ucast w :: u8) OR push_bit 8 (ucast (ucast (drop_bit 8 w) :: u8))
     OR push_bit 16 (ucast (ucast (drop_bit 16 w) :: u8))
     OR push_bit 24 (ucast (ucast (drop_bit 24 w) :: u8)) = (w :: u32)"
proof (rule bit_word_eqI)
  fix n assume "n < LENGTH(32)"
  then consider "n < 8" | "8 \<le> n" "n < 16" | "16 \<le> n" "n < 24" | "24 \<le> n" "n < 32" by force
  then show "bit (ucast (ucast w :: u8) OR push_bit 8 (ucast (ucast (drop_bit 8 w) :: u8))
     OR push_bit 16 (ucast (ucast (drop_bit 16 w) :: u8))
     OR push_bit 24 (ucast (ucast (drop_bit 24 w) :: u8)) :: u32) n = bit w n"
    by cases (auto simp: bit_simps)
qed

lemma le16_of_bytes_raw:
  "ucast (ucast w :: u8) OR push_bit 8 (ucast (ucast (drop_bit 8 w) :: u8)) = (w :: u16)"
proof (rule bit_word_eqI)
  fix n assume "n < LENGTH(16)"
  then consider "n < 8" | "8 \<le> n" "n < 16" by force
  then show "bit (ucast (ucast w :: u8) OR push_bit 8 (ucast (ucast (drop_bit 8 w) :: u8)) :: u16) n
      = bit w n"
    by cases (auto simp: bit_simps)
qed

lemma le16_of_append [byte_simps]: "le16_of (le16_bytes w @ bs) = w"
  by (simp add: le16_of_def le16_bytes_def le16_of_bytes_raw)

lemma le32_of_append [byte_simps]: "le32_of (le32_bytes w @ bs) = w"
  by (simp add: le32_of_def le32_bytes_def le32_of_bytes_raw)

lemma be16_of_append [byte_simps]: "be16_of (be16_bytes w @ bs) = w"
  using le16_of_bytes_raw [of w] by (simp add: be16_of_def be16_bytes_def or.commute)

lemma be32_of_append [byte_simps]: "be32_of (be32_bytes w @ bs) = w"
  using le32_of_bytes_raw [of w] by (simp add: be32_of_def be32_bytes_def or.assoc or.commute or.left_commute)

lemmas encode_decode = le16_of_append [where bs = "[]", simplified]
  le32_of_append [where bs = "[]", simplified] be16_of_append [where bs = "[]", simplified]
  be32_of_append [where bs = "[]", simplified]

lemma length_encodings [simp]:
  "length (le16_bytes w) = 2" "length (le32_bytes v) = 4" "length (be16_bytes w) = 2"
  "length (be32_bytes v) = 4"
  by (simp_all add: le16_bytes_def le32_bytes_def be16_bytes_def be32_bytes_def)

lemma sint_len: "n < 2 ^ 31 \<Longrightarrow> sint (of_nat n :: u32) = int n"
  by (simp add: signed_of_nat signed_take_bit_int_eq_self)

lemma sint_small: "unat (w :: u32) < 2 ^ 31 \<Longrightarrow> sint w = int (unat w)"
  using sint_len [of "unat w"] by simp

text \<open>Characters and bytes.\<close>

definition byte_of :: "char \<Rightarrow> u8" where "byte_of c = of_nat (of_char c)"

definition char_of_byte :: "u8 \<Rightarrow> char" where "char_of_byte b = char_of (unat b)"

lemma unat_byte_of: "unat (byte_of c) = of_char c"
proof -
  have "(of_char c :: nat) mod 256 < 256" by simp
  then have "(of_char c :: nat) < 256" by simp
  then show ?thesis by (simp add: byte_of_def unat_of_nat)
qed

lemma char_of_byte_of [simp]: "char_of_byte (byte_of c) = c"
  by (simp add: char_of_byte_def unat_byte_of)

lemma byte_of_char_of_byte [simp]: "byte_of (char_of_byte b) = b"
proof -
  have "unat b < 256" using unsigned_less [of b, where ?'a = nat] by simp
  then have "unat (byte_of (char_of_byte b)) = unat b"
    by (simp add: unat_byte_of char_of_byte_def)
  then show ?thesis by (simp add: word_unat_eq_iff)
qed

section \<open>Decimal numbers\<close>

text \<open>
  The loop \<open>while (v && n < room) { tmp[n++] = '0' + v % 10; v /= 10; }\<close> that every printer of
  numbers in the kernel has: the digits it stores, least significant first. \<open>dec_value\<close> reads a
  number back, most significant digit first.
\<close>

fun u64_digits :: "nat \<Rightarrow> nat \<Rightarrow> cstring" where
  "u64_digits 0 v = []"
| "u64_digits (Suc room) v = (if v > 0 then char_of (48 + v mod 10 :: nat) # u64_digits room (v div 10) else [])"

definition is_digit :: "char \<Rightarrow> bool" where
  "is_digit c \<longleftrightarrow> (48 :: nat) \<le> of_char c \<and> of_char c \<le> (57 :: nat)"

definition dec_value :: "cstring \<Rightarrow> nat" where
  "dec_value s = foldl (\<lambda>n c. 10 * n + (of_char c - 48)) 0 s"

lemma dec_value_snoc: "dec_value (s @ [c]) = 10 * dec_value s + (of_char c - 48)"
  by (simp add: dec_value_def)

lemma of_char_digit: "(of_char (char_of (48 + v mod 10 :: nat)) :: nat) = 48 + v mod 10"
proof -
  have "v mod 10 < 10" by simp
  then have "48 + v mod 10 < (256 :: nat)" by linarith
  then show ?thesis by simp
qed

lemma dec_value_digits: "v < 10 ^ room \<Longrightarrow> dec_value (rev (u64_digits room v)) = v"
proof (induction room v rule: u64_digits.induct)
  case (2 room v)
  then have "v div 10 < 10 ^ room" by (simp add: less_mult_imp_div_less mult.commute)
  with 2 show ?case by (simp add: dec_value_snoc of_char_digit) (simp add: dec_value_def)
qed (simp add: dec_value_def)

lemma length_u64_digits: "v < 10 ^ n \<Longrightarrow> length (u64_digits room v) \<le> n"
proof (induction n arbitrary: room v)
  case 0
  then show ?case by (cases room) auto
next
  case (Suc n)
  then have "v div 10 < 10 ^ n" by (simp add: less_mult_imp_div_less mult.commute)
  with Suc.IH show ?case by (cases room) auto
qed

lemma u64_digits_room: "length (u64_digits room v) \<le> room"
  by (induction room v rule: u64_digits.induct) auto

section \<open>User memory\<close>

text \<open>
  Memory that the system calls reach through 32-bit user pointers: a byte per address, addresses
  wrap around.
\<close>

type_synonym memory = "32 word \<Rightarrow> 8 word"

definition load_bytes :: "memory \<Rightarrow> u32 \<Rightarrow> nat \<Rightarrow> bytes" where
  "load_bytes mem a n = map (\<lambda>i. mem (a + of_nat i)) [0..<n]"

definition store_bytes :: "memory \<Rightarrow> u32 \<Rightarrow> bytes \<Rightarrow> memory" where
  "store_bytes mem a bs = (\<lambda>x. if unat (x - a) < length bs then bs ! unat (x - a) else mem x)"

lemma length_load_bytes [simp]: "length (load_bytes mem a n) = n"
  by (simp add: load_bytes_def)

lemma load_store_bytes [byte_simps]:
  "length bs \<le> 2 ^ 32 \<Longrightarrow> load_bytes (store_bytes mem a bs) a (length bs) = bs"
  by (rule nth_equalityI) (auto simp: load_bytes_def store_bytes_def unat_of_nat)

lemma load_bytes_take: "m \<le> n \<Longrightarrow> take m (load_bytes mem a n) = load_bytes mem a m"
  by (simp add: load_bytes_def take_map)

end
