(* ===== verification/Paging.thy ===== *)
theory Paging
  imports Vernis_Prelude
begin

text \<open>
  Physical frames and page tables (\<open>kernel/arch/x86_64/kernel_x64.c\<close>, phases 16 and 69): the frame allocator with its
  reference counts, the four-level tables, address spaces of processes and copy-on-write. Memory is a function
  from addresses to 64-bit words; the code of this part reads and writes whole words at multiples of eight and
  whole frames. Flushing the translation buffer has no effect on this state.
\<close>

unbundle bit_operations_syntax

section \<open>Frames\<close>

abbreviation PAGE_SIZE :: u64 where "PAGE_SIZE \<equiv> 4096"
abbreviation PAGE_PRESENT :: u64 where "PAGE_PRESENT \<equiv> 0x01"
abbreviation PAGE_WRITABLE :: u64 where "PAGE_WRITABLE \<equiv> 0x02"
abbreviation PAGE_USER :: u64 where "PAGE_USER \<equiv> 0x04"
abbreviation PAGE_PS :: u64 where "PAGE_PS \<equiv> 0x80"
abbreviation PAGE_COW :: u64 where "PAGE_COW \<equiv> 0x200"
abbreviation PAGE_ADDR_MASK :: u64 where "PAGE_ADDR_MASK \<equiv> 0xFFFFFFFFF000"
abbreviation FRAME_FREELIST_MAX :: nat where "FRAME_FREELIST_MAX \<equiv> 2048"
abbreviation FRAME_POOL_MAX_FRAMES :: nat where "FRAME_POOL_MAX_FRAMES \<equiv> 1024"

text \<open>The free list is a stack: its head is the entry the next allocation takes.\<close>

record paging =
  pg_mem :: "u64 \<Rightarrow> u64"
  phys_next_free :: u64
  phys_alloc_end :: u64
  phys_pool_base :: u64
  phys_frames_used :: u64
  frame_freelist :: "u64 list"
  frame_refcount :: "u8 list"
  kernel_pml4 :: u64

definition frame_of :: "u64 \<Rightarrow> u64" where
  "frame_of a = a AND NOT 0xFFF"

definition frame_ref_idx :: "u64 \<Rightarrow> paging \<Rightarrow> nat option" where
  "frame_ref_idx frame s =
     (if frame < phys_pool_base s then None
      else let i = drop_bit 12 (frame - phys_pool_base s)
        in if i < of_nat FRAME_POOL_MAX_FRAMES then Some (unat i) else None)"

definition frame_ref_inc :: "u64 \<Rightarrow> paging \<Rightarrow> paging" where
  "frame_ref_inc frame s =
     (case frame_ref_idx frame s of
        None \<Rightarrow> s
      | Some i \<Rightarrow> if frame_refcount s ! i < 255 then s\<lparr>frame_refcount := (frame_refcount s)[i := frame_refcount s ! i + 1]\<rparr> else s)"

definition frame_ref_get :: "u64 \<Rightarrow> paging \<Rightarrow> u8" where
  "frame_ref_get frame s = (case frame_ref_idx frame s of None \<Rightarrow> 1 | Some i \<Rightarrow> frame_refcount s ! i)"

definition freelist_push :: "u64 \<Rightarrow> paging \<Rightarrow> paging" where
  "freelist_push frame s =
     (if length (frame_freelist s) < FRAME_FREELIST_MAX then s\<lparr>frame_freelist := frame # frame_freelist s\<rparr> else s)"

definition frame_free :: "u64 \<Rightarrow> paging \<Rightarrow> paging" where
  "frame_free frame s =
     (if frame = 0 then s
      else case frame_ref_idx frame s of
        None \<Rightarrow> freelist_push frame s
      | Some i \<Rightarrow>
          if frame_refcount s ! i > 1 then s\<lparr>frame_refcount := (frame_refcount s)[i := frame_refcount s ! i - 1]\<rparr>
          else freelist_push frame (s\<lparr>frame_refcount := (frame_refcount s)[i := 0]\<rparr>))"

definition zero_frame :: "u64 \<Rightarrow> (u64 \<Rightarrow> u64) \<Rightarrow> u64 \<Rightarrow> u64" where
  "zero_frame f m = (\<lambda>a. if frame_of a = f then 0 else m a)"

definition frame_claim :: "u64 \<Rightarrow> paging \<Rightarrow> u64 \<times> paging" where
  "frame_claim frame s =
     (let s1 = (case frame_ref_idx frame s of None \<Rightarrow> s | Some i \<Rightarrow> s\<lparr>frame_refcount := (frame_refcount s)[i := 1]\<rparr>)
      in (frame, s1\<lparr>pg_mem := zero_frame frame (pg_mem s1)\<rparr>))"

definition frame_alloc :: "paging \<Rightarrow> u64 \<times> paging" where
  "frame_alloc s =
     (case frame_freelist s of
        frame # rest \<Rightarrow> frame_claim frame (s\<lparr>frame_freelist := rest\<rparr>)
      | [] \<Rightarrow>
          if phys_next_free s \<ge> phys_alloc_end s then (0, s)
          else frame_claim (phys_next_free s)
            (s\<lparr>phys_next_free := phys_next_free s + PAGE_SIZE, phys_frames_used := phys_frames_used s + 1\<rparr>))"

section \<open>Tables\<close>

definition ent :: "u64 \<Rightarrow> nat \<Rightarrow> u64" where
  "ent table i = table + 8 * of_nat i"

definition put_word :: "u64 \<Rightarrow> u64 \<Rightarrow> paging \<Rightarrow> paging" where
  "put_word a v s = s\<lparr>pg_mem := (pg_mem s)(a := v)\<rparr>"

definition paging_next_level :: "u64 \<Rightarrow> nat \<Rightarrow> u64 \<Rightarrow> paging \<Rightarrow> u64 \<times> paging" where
  "paging_next_level table index flags s =
     (let e = pg_mem s (ent table index) in
      if e AND PAGE_PRESENT = 0 then
        (case frame_alloc s of (frame, s1) \<Rightarrow>
           if frame = 0 then (0, s1)
           else let e1 = frame OR PAGE_PRESENT OR PAGE_WRITABLE OR (flags AND PAGE_USER)
             in (e1 AND 0x000FFFFFFFFFF000, put_word (ent table index) e1 s1))
      else let e1 = e OR (flags AND PAGE_USER) in (e1 AND 0x000FFFFFFFFFF000, put_word (ent table index) e1 s))"

definition vidx :: "nat \<Rightarrow> u64 \<Rightarrow> nat" where
  "vidx sh va = unat (drop_bit sh va AND 0x1FF)"

definition paging_map_2m :: "u64 \<Rightarrow> u64 \<Rightarrow> u64 \<Rightarrow> u64 \<Rightarrow> paging \<Rightarrow> paging" where
  "paging_map_2m pml4 virt phys flags s =
     (case paging_next_level pml4 (vidx 39 virt) flags s of (pdpt, s1) \<Rightarrow>
        if pdpt = 0 then s1
        else case paging_next_level pdpt (vidx 30 virt) flags s1 of (pd, s2) \<Rightarrow>
          if pd = 0 then s2
          else put_word (ent pd (vidx 21 virt)) ((phys AND 0xFFFFFFFFFFE00000) OR flags OR PAGE_PS) s2)"

definition paging_map_4k :: "u64 \<Rightarrow> u64 \<Rightarrow> u64 \<Rightarrow> u64 \<Rightarrow> paging \<Rightarrow> paging" where
  "paging_map_4k pml4 virt phys flags s =
     (case paging_next_level pml4 (vidx 39 virt) flags s of (pdpt, s1) \<Rightarrow>
        if pdpt = 0 then s1
        else case paging_next_level pdpt (vidx 30 virt) flags s1 of (pd, s2) \<Rightarrow>
          if pd = 0 then s2
          else case paging_next_level pd (vidx 21 virt) flags s2 of (pt, s3) \<Rightarrow>
            if pt = 0 then s3
            else put_word (ent pt (vidx 12 virt)) ((phys AND PAGE_ADDR_MASK) OR flags) s3)"

text \<open>The loop that copies the entries of a table into another one.\<close>

definition copy_table :: "u64 \<Rightarrow> u64 \<Rightarrow> (nat \<Rightarrow> bool) \<Rightarrow> paging \<Rightarrow> paging" where
  "copy_table dst src keep s =
     fold (\<lambda>i s. put_word (ent dst i) (if keep i then pg_mem s (ent src i) else 0) s) [0..<512] s"

definition paging_create_address_space :: "u64 \<Rightarrow> paging \<Rightarrow> u64 \<times> paging" where
  "paging_create_address_space src_pml4 s =
     (case frame_alloc s of (new_pml4, s1) \<Rightarrow>
        if new_pml4 = 0 then (0, s1)
        else let s2 = copy_table new_pml4 src_pml4 (\<lambda>_. True) s1; src_pdpt = pg_mem s2 (ent src_pml4 0) AND PAGE_ADDR_MASK in
          case frame_alloc s2 of (new_pdpt, s3) \<Rightarrow>
            if new_pdpt = 0 then (0, frame_free new_pml4 s3)
            else let s4 = copy_table new_pdpt src_pdpt (\<lambda>_. True) s3;
                     s5 = put_word (ent new_pml4 0) (new_pdpt OR PAGE_PRESENT OR PAGE_WRITABLE OR PAGE_USER) s4;
                     src_pd = pg_mem s5 (ent src_pdpt 0) AND PAGE_ADDR_MASK in
              case frame_alloc s5 of (new_pd, s6) \<Rightarrow>
                if new_pd = 0 then (0, frame_free new_pml4 (frame_free new_pdpt s6))
                else let s7 = copy_table new_pd src_pd (\<lambda>i. i < 64) s6
                  in (new_pml4, put_word (ent new_pdpt 0) (new_pd OR PAGE_PRESENT OR PAGE_WRITABLE OR PAGE_USER) s7))"

definition user_pd :: "u64 \<Rightarrow> paging \<Rightarrow> u64" where
  "user_pd pml4 s = pg_mem s (ent (pg_mem s (ent pml4 0) AND PAGE_ADDR_MASK) 0) AND PAGE_ADDR_MASK"

definition is_table :: "u64 \<Rightarrow> bool" where
  "is_table e \<longleftrightarrow> \<not> (e AND PAGE_PRESENT = 0 \<or> e AND PAGE_PS \<noteq> 0)"

definition paging_free_user_space :: "u64 \<Rightarrow> paging \<Rightarrow> paging" where
  "paging_free_user_space pml4 s =
     (if pml4 = 0 \<or> pml4 = kernel_pml4 s then s
      else let pdpt = pg_mem s (ent pml4 0) AND PAGE_ADDR_MASK; pd = user_pd pml4 s;
               s1 = fold (\<lambda>i s. let e = pg_mem s (ent pd i) in
                     if \<not> is_table e then s
                     else let pt = e AND PAGE_ADDR_MASK;
                              s1 = fold (\<lambda>j s. let p = pg_mem s (ent pt j) in
                                    if p AND PAGE_PRESENT \<noteq> 0 then frame_free (p AND PAGE_ADDR_MASK) s else s) [0..<512] s
                       in frame_free pt s1) [64..<512] s
        in frame_free pml4 (frame_free pdpt (frame_free pd s1)))"

section \<open>Copy on write\<close>

definition cow_entry :: "u64 \<Rightarrow> u64" where
  "cow_entry e = (if e AND PAGE_WRITABLE \<noteq> 0 then (e AND NOT PAGE_WRITABLE) OR PAGE_COW else e)"

definition clone_page :: "u64 \<Rightarrow> u64 \<Rightarrow> nat \<Rightarrow> nat \<Rightarrow> paging \<Rightarrow> paging" where
  "clone_page dst_pml4 pt i j s =
     (let e = pg_mem s (ent pt j) in
      if e AND PAGE_PRESENT = 0 then s
      else let e1 = cow_entry e; s1 = put_word (ent pt j) e1 s;
               frame = e1 AND PAGE_ADDR_MASK; flags = e1 AND 0xFFF;
               va = push_bit 21 (of_nat i) OR push_bit 12 (of_nat j)
        in frame_ref_inc frame (paging_map_4k dst_pml4 va frame flags s1))"

definition clone_table :: "u64 \<Rightarrow> u64 \<Rightarrow> nat \<Rightarrow> paging \<Rightarrow> paging" where
  "clone_table dst_pml4 pd i s =
     (let e = pg_mem s (ent pd i) in
      if \<not> is_table e then s else fold (clone_page dst_pml4 (e AND PAGE_ADDR_MASK) i) [0..<512] s)"

definition paging_clone_user_pages :: "u64 \<Rightarrow> u64 \<Rightarrow> paging \<Rightarrow> int \<times> paging" where
  "paging_clone_user_pages dst_pml4 src_pml4 s = (0, fold (clone_table dst_pml4 (user_pd src_pml4 s)) [64..<512] s)"

text \<open>The address of the entry for a page; \<open>None\<close> is the null pointer.\<close>

definition paging_get_pte :: "u64 \<Rightarrow> u64 \<Rightarrow> paging \<Rightarrow> u64 option" where
  "paging_get_pte pml4 va s =
     (if pml4 = 0 then None
      else let e4 = pg_mem s (ent pml4 (vidx 39 va)) in
        if e4 AND PAGE_PRESENT = 0 then None
        else let e3 = pg_mem s (ent (e4 AND PAGE_ADDR_MASK) (vidx 30 va)) in
          if e3 AND PAGE_PRESENT = 0 \<or> e3 AND PAGE_PS \<noteq> 0 then None
          else let e2 = pg_mem s (ent (e3 AND PAGE_ADDR_MASK) (vidx 21 va)) in
            if e2 AND PAGE_PRESENT = 0 \<or> e2 AND PAGE_PS \<noteq> 0 then None
            else Some (ent (e2 AND PAGE_ADDR_MASK) (vidx 12 va)))"

definition copy_frame :: "u64 \<Rightarrow> u64 \<Rightarrow> (u64 \<Rightarrow> u64) \<Rightarrow> u64 \<Rightarrow> u64" where
  "copy_frame dst src m = (\<lambda>a. if frame_of a = dst then m (src + (a - dst)) else m a)"

definition paging_handle_cow_fault :: "u64 \<Rightarrow> u64 \<Rightarrow> paging \<Rightarrow> int \<times> paging" where
  "paging_handle_cow_fault pml4 fault_addr s =
     (case paging_get_pte (if pml4 \<noteq> 0 then pml4 else kernel_pml4 s) fault_addr s of
        None \<Rightarrow> (-1, s)
      | Some pte \<Rightarrow>
          let e = pg_mem s pte in
          if e AND PAGE_PRESENT = 0 \<or> e AND PAGE_COW = 0 then (-1, s)
          else let old_frame = e AND PAGE_ADDR_MASK in
            if frame_ref_get old_frame s = 1 then (0, put_word pte ((e OR PAGE_WRITABLE) AND NOT PAGE_COW) s)
            else case frame_alloc s of (nf, s1) \<Rightarrow>
              if nf = 0 then (-1, s1)
              else let s2 = s1\<lparr>pg_mem := copy_frame nf old_frame (pg_mem s1)\<rparr>;
                       s3 = put_word pte (nf OR (((pg_mem s2 pte AND 0xFFF) OR PAGE_WRITABLE) AND NOT PAGE_COW)) s2
                in (0, frame_free old_frame s3))"

record boot_info =
  bi_magic :: u32
  bi_fb_addr :: u32
  bi_fb_addr_high :: u32
  bi_fb_width :: u32
  bi_fb_height :: u32
  bi_fb_pitch :: u32
  bi_fb_bpp :: u32
  bi_fb_type :: u32

text \<open>The pages of the frame buffer: multiples of 2 MB from its first to its last byte.\<close>

definition fb_pages :: "boot_info \<Rightarrow> u64 list" where
  "fb_pages bi =
     (if bi_magic bi = 0x56424549 \<and> bi_fb_type bi = 1 then
        let fb_phys = ucast (bi_fb_addr bi) OR push_bit 32 (ucast (bi_fb_addr_high bi));
            fb_size = ucast (bi_fb_pitch bi) * ucast (bi_fb_height bi);
            fb_base = fb_phys AND 0xFFFFFFFFFFE00000;
            fb_end = (fb_phys + fb_size + 0x1FFFFF) AND 0xFFFFFFFFFFE00000
        in if fb_base < fb_end then map (\<lambda>k. fb_base + of_nat k * 0x200000) [0..<unat (fb_end - fb_base) div 0x200000] else []
      else [])"

definition paging_init :: "u64 \<Rightarrow> boot_info \<Rightarrow> paging \<Rightarrow> paging" where
  "paging_init kernel_end bi s =
     (let base = (kernel_end + PAGE_SIZE - 1) AND NOT (PAGE_SIZE - 1);
          s1 = s\<lparr>phys_next_free := base, phys_alloc_end := base + 4 * 1024 * 1024, phys_pool_base := base, phys_frames_used := 0\<rparr>
      in case frame_alloc s1 of (pml4, s2) \<Rightarrow>
        let s3 = s2\<lparr>kernel_pml4 := pml4\<rparr> in
        if pml4 = 0 then s3
        else fold (\<lambda>a s. paging_map_2m pml4 a a (PAGE_PRESENT OR PAGE_WRITABLE) s)
          (map (\<lambda>k. of_nat k * (2 * 1024 * 1024)) [0..<64] @ fb_pages bi) s3)"


section \<open>Frames and addresses\<close>

lemma frame_of_drop: "frame_of a = push_bit 12 (drop_bit 12 a)"
proof (rule bit_word_eqI)
  fix n
  have m: "(0xFFF :: u64) = mask 12" by (simp add: mask_numeral)
  show "n < LENGTH(64) \<Longrightarrow> bit (frame_of a) n = bit (push_bit 12 (drop_bit 12 a)) n"
    unfolding frame_of_def m by (auto simp: bit_simps)
qed

lemma unat_frame_of: "unat (frame_of a) = unat a div 4096 * 4096"
proof -
  have a: "unat a < 2 ^ 64" using unsigned_less [of a, where ?'a = nat] by simp
  have "unat a div 4096 * 4096 \<le> unat a" by simp
  with a have "unat a div 4096 * 4096 < 2 ^ 64" by linarith
  then show ?thesis by (simp add: frame_of_drop push_bit_eq_mult drop_bit_eq_div unat_word_ariths unat_div_distrib)
qed

definition aligned :: "u64 \<Rightarrow> bool" where
  "aligned f \<longleftrightarrow> unat f mod 4096 = 0"

lemma aligned_frame_of: "aligned f \<Longrightarrow> frame_of f = f"
  by (rule word_unat_eq_iff [THEN iffD2]) (auto simp: unat_frame_of aligned_def)

lemma unat_ent:
  assumes "aligned f" "i < 512"
  shows "unat (ent f i) = unat f + 8 * i"
proof -
  have f: "unat f < 2 ^ 64" using unsigned_less [of f, where ?'a = nat] by simp
  obtain q where q: "unat f = 4096 * q" using assms(1) by (auto simp: aligned_def)
  with f have "q < 2 ^ 52" by simp
  then have "unat f + 8 * i < 2 ^ 64" using q assms(2) by simp
  moreover have "unat (of_nat i :: u64) = i" using assms(2) by (simp add: unat_of_nat take_bit_nat_eq_self_iff)
  ultimately show ?thesis using assms(2) by (simp add: ent_def unat_word_ariths)
qed

lemma frame_of_ent: "aligned f \<Longrightarrow> i < 512 \<Longrightarrow> frame_of (ent f i) = f"
  by (rule word_unat_eq_iff [THEN iffD2]) (auto simp: unat_frame_of unat_ent aligned_def)

lemma ent_inj: "aligned f \<Longrightarrow> aligned g \<Longrightarrow> i < 512 \<Longrightarrow> j < 512 \<Longrightarrow> ent f i = ent g j \<longleftrightarrow> f = g \<and> i = j"
proof
  assume a: "aligned f" "aligned g" "i < 512" "j < 512" and e: "ent f i = ent g j"
  have fg: "frame_of (ent f i) = frame_of (ent g j)" "unat (ent f i) = unat (ent g j)" using e by (rule arg_cong)+
  from fg(1) have "f = g" unfolding frame_of_ent [OF a(1,3)] frame_of_ent [OF a(2,4)] .
  moreover from this fg(2) have "i = j" unfolding unat_ent [OF a(1,3)] unat_ent [OF a(2,4)] by simp
  ultimately show "f = g \<and> i = j" by simp
qed simp

lemma zero_frame_ent: "aligned f \<Longrightarrow> i < 512 \<Longrightarrow> zero_frame g m (ent f i) = (if f = g then 0 else m (ent f i))"
  by (simp add: zero_frame_def frame_of_ent)

section \<open>The allocator\<close>

definition fr :: "paging \<Rightarrow> nat \<Rightarrow> u64" where
  "fr s k = phys_pool_base s + 4096 * of_nat k"

definition base_ok :: "paging \<Rightarrow> bool" where
  "base_ok s \<longleftrightarrow> 0 < unat (phys_pool_base s) \<and> aligned (phys_pool_base s) \<and> unat (phys_pool_base s) + 4096 * 1024 \<le> 2 ^ 48"

definition frames_inv :: "paging \<Rightarrow> bool" where
  "frames_inv s \<longleftrightarrow> base_ok s \<and> phys_alloc_end s = fr s FRAME_POOL_MAX_FRAMES \<and> length (frame_refcount s) = FRAME_POOL_MAX_FRAMES
     \<and> distinct (frame_freelist s)
     \<and> (\<exists>n \<le> FRAME_POOL_MAX_FRAMES. phys_next_free s = fr s n
         \<and> set (frame_freelist s) = fr s ` {k. k < n \<and> frame_refcount s ! k = 0}
         \<and> (\<forall>k. n \<le> k \<and> k < FRAME_POOL_MAX_FRAMES \<longrightarrow> frame_refcount s ! k = 0))"

lemma unat_fr:
  assumes "base_ok s" "k \<le> 1024"
  shows "unat (fr s k) = unat (phys_pool_base s) + 4096 * k"
proof -
  have "unat (of_nat k :: u64) = k" using assms(2) by (simp add: unat_of_nat take_bit_nat_eq_self_iff)
  moreover have "unat (phys_pool_base s) + 4096 * k < 2 ^ 64" using assms by (simp add: base_ok_def)
  ultimately show ?thesis using assms(2) by (simp add: fr_def unat_word_ariths)
qed

lemma fr_inj: "base_ok s \<Longrightarrow> k \<le> 1024 \<Longrightarrow> l \<le> 1024 \<Longrightarrow> fr s k = fr s l \<longleftrightarrow> k = l"
  by (metis unat_fr add_left_cancel mult_left_cancel zero_neq_numeral)

lemma fr_aligned: "base_ok s \<Longrightarrow> k \<le> 1024 \<Longrightarrow> aligned (fr s k)"
  by (simp add: aligned_def unat_fr) (simp add: base_ok_def aligned_def)

lemma fr_nonzero: "base_ok s \<Longrightarrow> k \<le> 1024 \<Longrightarrow> fr s k \<noteq> 0"
  by (metis unat_fr unat_0 add_is_0 base_ok_def less_irrefl)

lemma fr_bound: "base_ok s \<Longrightarrow> k < 1024 \<Longrightarrow> unat (fr s k) < 2 ^ 48"
  by (simp add: unat_fr) (simp add: base_ok_def)

lemma ref_idx_fr:
  assumes "base_ok s" "k < 1024"
  shows "frame_ref_idx (fr s k) s = Some k"
proof -
  have "unat (fr s k - phys_pool_base s) = 4096 * k"
    using unat_fr [OF assms(1), of k] assms(2) by (subst unat_sub) (simp_all add: word_le_nat_alt)
  then have "unat (drop_bit 12 (fr s k - phys_pool_base s)) = k" by (simp add: drop_bit_eq_div unat_div_distrib)
  moreover have "\<not> fr s k < phys_pool_base s" using unat_fr [OF assms(1), of k] assms(2) by (simp add: word_less_nat_alt)
  ultimately show ?thesis using assms(2) by (simp add: frame_ref_idx_def Let_def word_less_nat_alt)
qed

lemma fr_cong: "phys_pool_base t = phys_pool_base s \<Longrightarrow> fr t k = fr s k" "phys_pool_base t = phys_pool_base s \<Longrightarrow> base_ok t = base_ok s"
  by (simp_all add: fr_def base_ok_def)

lemma ref_idx_cong: "phys_pool_base t = phys_pool_base s \<Longrightarrow> frame_ref_idx f t = frame_ref_idx f s"
  by (simp add: frame_ref_idx_def)

definition ref :: "paging \<Rightarrow> nat \<Rightarrow> nat" where
  "ref s k = unat (frame_refcount s ! k)"

text \<open>What an allocation does: it returns a frame that no one holds, cleared, with one reference; or the pool is used up.\<close>

lemma frame_alloc_spec:
  assumes "frames_inv s" "frame_alloc s = (f, s')"
  shows "(f = 0 \<and> s' = s \<and> (\<forall>k < 1024. 0 < ref s k))
    \<or> (\<exists>k < 1024. f = fr s k \<and> f \<noteq> 0 \<and> ref s k = 0 \<and> frame_refcount s' = (frame_refcount s)[k := 1] \<and> phys_pool_base s' = phys_pool_base s
         \<and> kernel_pml4 s' = kernel_pml4 s \<and> pg_mem s' = zero_frame f (pg_mem s) \<and> frames_inv s')"
proof -
  obtain n where n: "n \<le> 1024" "phys_next_free s = fr s n" "set (frame_freelist s) = fr s ` {k. k < n \<and> frame_refcount s ! k = 0}"
    "\<forall>k. n \<le> k \<and> k < 1024 \<longrightarrow> frame_refcount s ! k = 0"
    and b: "base_ok s" "phys_alloc_end s = fr s 1024" "length (frame_refcount s) = 1024" "distinct (frame_freelist s)"
    using assms(1) unfolding frames_inv_def by auto
  show ?thesis
  proof (cases "frame_freelist s")
    case (Cons g rest)
    then obtain k where k: "g = fr s k" "k < n" "frame_refcount s ! k = 0" using n(3) list.set_intros(1) [of g rest] unfolding Cons by blast
    have k1: "k < 1024" using k(2) n(1) by simp
    let ?s1 = "s\<lparr>frame_freelist := rest\<rparr>"
    have idx: "frame_ref_idx g ?s1 = Some k" using ref_idx_fr [OF b(1) k1] k(1) ref_idx_cong [of ?s1 s] by simp
    have s': "f = g" "s' = s\<lparr>frame_freelist := rest, frame_refcount := (frame_refcount s)[k := 1], pg_mem := zero_frame g (pg_mem s)\<rparr>"
      using assms(2) Cons idx by (auto simp: frame_alloc_def frame_claim_def Let_def)
    have "set rest = set (frame_freelist s) - {fr s k}" using Cons b(4) k(1) by auto
    also have "\<dots> = fr s ` {l. l < n \<and> (frame_refcount s)[k := 1] ! l = 0}"
      using n(1) k1 fr_inj [OF b(1)] b(3) by (auto simp: n(3) nth_list_update)
    finally have "frames_inv s'" using b n k(2) unfolding frames_inv_def
      by (auto simp: s' fr_def base_ok_def nth_list_update Cons intro!: exI [of _ n])
    then show ?thesis using k k1 fr_nonzero [OF b(1), of k] by (auto simp: s' ref_def)
  next
    case Nil
    have free: "ref s k > 0" if "k < n" for k using n(3) Nil that by (auto simp: ref_def unat_gt_0)
    show ?thesis
    proof (cases "n = 1024")
      case True
      then show ?thesis using assms(2) Nil free b(2) n(2) by (simp add: frame_alloc_def)
    next
      case False
      then have n1: "n < 1024" using n(1) by simp
      have lt: "\<not> phys_next_free s \<ge> phys_alloc_end s"
        using unat_fr [OF b(1), of n] unat_fr [OF b(1), of 1024] n1 n(2) b(2) by (simp add: word_le_nat_alt)
      let ?s1 = "s\<lparr>phys_next_free := phys_next_free s + 4096, phys_frames_used := phys_frames_used s + 1\<rparr>"
      have idx: "frame_ref_idx (fr s n) ?s1 = Some n" using ref_idx_fr [OF b(1) n1] ref_idx_cong [of ?s1 s] by simp
      have s': "f = fr s n" "s' = ?s1\<lparr>frame_refcount := (frame_refcount s)[n := 1], pg_mem := zero_frame (fr s n) (pg_mem s)\<rparr>"
        using assms(2) Nil lt idx n(2) by (auto simp: frame_alloc_def frame_claim_def Let_def)
      have nx: "fr s n + 4096 = fr s (Suc n)" by (simp add: fr_def algebra_simps)
      have "frames_inv s'" using b n n1 free nx unfolding frames_inv_def
        by (auto simp: s' fr_def base_ok_def nth_list_update Nil ref_def less_Suc_eq intro!: exI [of _ "Suc n"])
      then show ?thesis using n1 n(4) fr_nonzero [OF b(1), of n] by (auto simp: s' ref_def)
    qed
  qed
qed


lemma frames_inv_live:
  assumes "frames_inv s" "k < 1024" "0 < ref s k"
  obtains n where "n \<le> 1024" "k < n" "phys_next_free s = fr s n" "set (frame_freelist s) = fr s ` {k. k < n \<and> frame_refcount s ! k = 0}"
    "\<forall>k. n \<le> k \<and> k < 1024 \<longrightarrow> frame_refcount s ! k = 0"
proof -
  obtain n where n: "n \<le> 1024" "phys_next_free s = fr s n" "set (frame_freelist s) = fr s ` {k. k < n \<and> frame_refcount s ! k = 0}"
    "\<forall>k. n \<le> k \<and> k < 1024 \<longrightarrow> frame_refcount s ! k = 0" using assms(1) unfolding frames_inv_def by auto
  have "k < n"
  proof (rule ccontr)
    assume "\<not> k < n"
    with n(4) assms(2) have "frame_refcount s ! k = 0" by simp
    with assms(3) show False by (simp add: ref_def)
  qed
  with n that show thesis by blast
qed

lemma frames_inv_updI:
  assumes "base_ok s" "phys_alloc_end s = fr s 1024" "length rc = 1024" "distinct fl" "n \<le> 1024" "phys_next_free s = fr s n"
    "set fl = fr s ` {k. k < n \<and> rc ! k = 0}" "\<forall>k. n \<le> k \<and> k < 1024 \<longrightarrow> rc ! k = 0"
  shows "frames_inv (s\<lparr>frame_refcount := rc, frame_freelist := fl\<rparr>)"
proof -
  have "fr (s\<lparr>frame_refcount := rc, frame_freelist := fl\<rparr>) = fr s" "base_ok (s\<lparr>frame_refcount := rc, frame_freelist := fl\<rparr>) = base_ok s"
    by (simp_all add: fun_eq_iff fr_def base_ok_def)
  then show ?thesis using assms unfolding frames_inv_def by auto
qed

lemma freelist_room:
  assumes "frames_inv s"
  shows "length (frame_freelist s) < FRAME_FREELIST_MAX"
proof -
  have "set (frame_freelist s) \<subseteq> fr s ` {k. k < 1024}" using assms unfolding frames_inv_def by auto
  then have "card (set (frame_freelist s)) \<le> card {k :: nat. k < 1024}" by (rule surj_card_le [rotated]) simp
  then show ?thesis using assms by (simp add: frames_inv_def distinct_card)
qed

lemma frame_free_spec:
  assumes "frames_inv s" "k < 1024" "0 < ref s k"
  shows "frames_inv (frame_free (fr s k) s) \<and> frame_refcount (frame_free (fr s k) s) = (frame_refcount s)[k := frame_refcount s ! k - 1]
    \<and> pg_mem (frame_free (fr s k) s) = pg_mem s \<and> phys_pool_base (frame_free (fr s k) s) = phys_pool_base s \<and> kernel_pml4 (frame_free (fr s k) s) = kernel_pml4 s"
proof -
  obtain n where n: "n \<le> 1024" "k < n" "phys_next_free s = fr s n" "set (frame_freelist s) = fr s ` {k. k < n \<and> frame_refcount s ! k = 0}"
    "\<forall>k. n \<le> k \<and> k < 1024 \<longrightarrow> frame_refcount s ! k = 0" using frames_inv_live [OF assms] by blast
  have b: "base_ok s" "phys_alloc_end s = fr s 1024" "length (frame_refcount s) = 1024" "distinct (frame_freelist s)"
    using assms(1) by (simp_all add: frames_inv_def)
  let ?c = "frame_refcount s ! k" and ?s = "frame_free (fr s k) s"
  have idx: "frame_ref_idx (fr s k) s = Some k" "fr s k \<noteq> 0" using ref_idx_fr [OF b(1) assms(2)] fr_nonzero [OF b(1)] assms(2) by simp_all
  have keep: "{l. l < n \<and> (frame_refcount s)[k := v] ! l = 0} = {l. l < n \<and> frame_refcount s ! l = 0} - {k} \<union> (if v = 0 then {k} else {})" for v
    using b(3) n(1,2) by (auto simp: nth_list_update)
  have high: "\<forall>l. n \<le> l \<and> l < 1024 \<longrightarrow> (frame_refcount s)[k := v] ! l = 0" for v using n(2,5) by (auto simp: nth_list_update)
  have notin: "fr s k \<notin> set (frame_freelist s)" "k \<notin> {l. l < n \<and> frame_refcount s ! l = 0}"
    using assms(3) fr_inj [OF b(1)] assms(2) n(1) by (auto simp: n(4) ref_def)
  show ?thesis
  proof (cases "?c > 1")
    case True
    then have ne: "?c - 1 \<noteq> 0" by auto
    have eq: "?s = s\<lparr>frame_refcount := (frame_refcount s)[k := ?c - 1], frame_freelist := frame_freelist s\<rparr>" using idx True by (simp add: frame_free_def)
    have "set (frame_freelist s) = fr s ` {l. l < n \<and> (frame_refcount s)[k := ?c - 1] ! l = 0}" unfolding keep using ne notin(2) n(4) by simp
    with b n(1,3) high have "frames_inv ?s" unfolding eq by (intro frames_inv_updI) simp_all
    then show ?thesis unfolding eq by simp
  next
    case False
    moreover have "?c \<noteq> 0" using assms(3) by (auto simp: ref_def)
    ultimately have one: "?c = 1" by (metis word_less_1 linorder_neqE)
    have eq: "?s = s\<lparr>frame_refcount := (frame_refcount s)[k := 0], frame_freelist := fr s k # frame_freelist s\<rparr>"
      using idx False freelist_room [OF assms(1)] by (simp add: frame_free_def freelist_push_def)
    have "set (fr s k # frame_freelist s) = fr s ` {l. l < n \<and> (frame_refcount s)[k := 0] ! l = 0}" unfolding keep using notin(2) n(4) by auto
    with b n(1,3) high notin(1) have "frames_inv ?s" unfolding eq by (intro frames_inv_updI) simp_all
    then show ?thesis unfolding eq one by simp
  qed
qed

lemma frame_ref_inc_spec:
  assumes "frames_inv s" "k < 1024" "0 < ref s k" "ref s k < 255"
  shows "frames_inv (frame_ref_inc (fr s k) s)" "frame_ref_inc (fr s k) s = s\<lparr>frame_refcount := (frame_refcount s)[k := frame_refcount s ! k + 1]\<rparr>"
proof -
  obtain n where n: "n \<le> 1024" "k < n" "phys_next_free s = fr s n" "set (frame_freelist s) = fr s ` {k. k < n \<and> frame_refcount s ! k = 0}"
    "\<forall>k. n \<le> k \<and> k < 1024 \<longrightarrow> frame_refcount s ! k = 0" using frames_inv_live [OF assms(1-3)] by blast
  have b: "base_ok s" "phys_alloc_end s = fr s 1024" "length (frame_refcount s) = 1024" "distinct (frame_freelist s)"
    using assms(1) by (simp_all add: frames_inv_def)
  let ?rc = "(frame_refcount s)[k := frame_refcount s ! k + 1]"
  have "frame_refcount s ! k < 255" using assms(4) by (simp add: ref_def word_less_nat_alt)
  then show eq: "frame_ref_inc (fr s k) s = s\<lparr>frame_refcount := ?rc\<rparr>"
    using ref_idx_fr [OF b(1) assms(2)] by (simp add: frame_ref_inc_def)
  have "unat (frame_refcount s ! k + 1) = ref s k + 1" using assms(4) by (simp add: ref_def unat_word_ariths)
  then have "frame_refcount s ! k + 1 \<noteq> 0" by auto
  moreover have "frame_refcount s ! k \<noteq> 0" using assms(3) by (auto simp: ref_def)
  ultimately have set: "{l. l < n \<and> ?rc ! l = 0} = {l. l < n \<and> frame_refcount s ! l = 0}" using b(3) n(1,2) by (auto simp: nth_list_update)
  have "frames_inv (s\<lparr>frame_refcount := ?rc, frame_freelist := frame_freelist s\<rparr>)"
    by (rule frames_inv_updI [of s _ _ n]) (use b n set in \<open>auto simp: nth_list_update\<close>)
  then show "frames_inv (frame_ref_inc (fr s k) s)" unfolding eq by simp
qed


text \<open>What the kernel does with frames: it allocates, shares a frame it holds and gives back a frame it holds.\<close>

inductive frame_step :: "paging \<Rightarrow> paging \<Rightarrow> bool" where
  alloc: "frame_step s (snd (frame_alloc s))"
| share: "k < FRAME_POOL_MAX_FRAMES \<Longrightarrow> 0 < ref s k \<Longrightarrow> ref s k < 255 \<Longrightarrow> frame_step s (frame_ref_inc (fr s k) s)"
| release: "k < FRAME_POOL_MAX_FRAMES \<Longrightarrow> 0 < ref s k \<Longrightarrow> frame_step s (frame_free (fr s k) s)"

lemma frame_step_inv: "frame_step s t \<Longrightarrow> frames_inv s \<Longrightarrow> frames_inv t"
proof (induction rule: frame_step.induct)
  case (alloc s)
  then show ?case using frame_alloc_spec [of s "fst (frame_alloc s)" "snd (frame_alloc s)"] by auto
next
  case (share k s)
  then show ?case using frame_ref_inc_spec(1) by blast
next
  case (release k s)
  then show ?case using frame_free_spec by blast
qed

lemma frame_steps_inv: "frame_step\<^sup>*\<^sup>* s t \<Longrightarrow> frames_inv s \<Longrightarrow> frames_inv t"
  by (induction rule: rtranclp_induct) (auto simp: frame_step_inv)

text \<open>
  Property C24: no frame is handed out twice. Whatever sequence of allocations, sharings and releases came before, an
  allocation returns a cleared frame of the pool that nobody holds, with one reference, and leaves the counts
  of all other frames alone; it fails only when every one of the 1024 frames is held, so that no frame is lost.
\<close>

theorem frame_alloc_exclusive:
  assumes "frame_step\<^sup>*\<^sup>* s0 s" "frames_inv s0" "frame_alloc s = (f, s')"
  shows "(f = 0 \<and> (\<forall>k < FRAME_POOL_MAX_FRAMES. 0 < ref s k))
    \<or> (\<exists>k < FRAME_POOL_MAX_FRAMES. f = fr s k \<and> f \<noteq> 0 \<and> ref s k = 0 \<and> ref s' k = 1
        \<and> (\<forall>l < FRAME_POOL_MAX_FRAMES. l \<noteq> k \<longrightarrow> ref s' l = ref s l) \<and> (\<forall>i < 512. pg_mem s' (ent f i) = 0))"
proof -
  have inv: "frames_inv s" using assms(1,2) by (rule frame_steps_inv)
  then have len: "length (frame_refcount s) = 1024" "base_ok s" by (simp_all add: frames_inv_def)
  from frame_alloc_spec [OF inv assms(3)] show ?thesis
  proof
    assume "\<exists>k < 1024. f = fr s k \<and> f \<noteq> 0 \<and> ref s k = 0 \<and> frame_refcount s' = (frame_refcount s)[k := 1] \<and> phys_pool_base s' = phys_pool_base s
         \<and> kernel_pml4 s' = kernel_pml4 s \<and> pg_mem s' = zero_frame f (pg_mem s) \<and> frames_inv s'"
    then obtain k where k: "k < 1024" "f = fr s k" "f \<noteq> 0" "ref s k = 0" "frame_refcount s' = (frame_refcount s)[k := 1]" "pg_mem s' = zero_frame f (pg_mem s)" by blast
    have "aligned f" using k(1,2) len(2) by (simp add: fr_aligned)
    then have "\<forall>i < 512. pg_mem s' (ent f i) = 0" by (simp add: k(6) zero_frame_ent)
    then show ?thesis using k len(1) by (intro disjI2 exI [of _ k]) (simp add: ref_def nth_list_update)
  qed simp
qed

definition demo_paging :: paging where
  "demo_paging = \<lparr>pg_mem = \<lambda>_. 7, phys_next_free = 0x200000, phys_alloc_end = 0x600000, phys_pool_base = 0x200000, phys_frames_used = 0,
     frame_freelist = [], frame_refcount = replicate FRAME_POOL_MAX_FRAMES 0, kernel_pml4 = 0\<rparr>"

lemma demo_paging_inv: "frames_inv demo_paging"
proof -
  have b: "base_ok demo_paging" by (simp add: base_ok_def demo_paging_def aligned_def)
  have "demo_paging = demo_paging\<lparr>frame_refcount := replicate 1024 0, frame_freelist := []\<rparr>" by (simp add: demo_paging_def)
  also have "frames_inv \<dots>" by (rule frames_inv_updI [OF b, of _ _ 0]) (simp_all add: demo_paging_def fr_def)
  finally show ?thesis .
qed

theorem frame_alloc_exclusive_witness:
  "let s = frame_free 0x200000 (snd (frame_alloc demo_paging)) in
   \<exists>k < FRAME_POOL_MAX_FRAMES. fst (frame_alloc s) = fr s k \<and> ref s k = 0 \<and> ref (snd (frame_alloc s)) k = 1 \<and> (\<forall>i < 512. pg_mem (snd (frame_alloc s)) (ent (fst (frame_alloc s)) i) = 0)"
proof -
  let ?s1 = "snd (frame_alloc demo_paging)" and ?s = "frame_free 0x200000 (snd (frame_alloc demo_paging))"
  have a: "frame_refcount ?s1 = (replicate 1024 0)[0 := 1]" "phys_pool_base ?s1 = 0x200000"
    by (simp_all add: demo_paging_def frame_alloc_def frame_claim_def frame_ref_idx_def Let_def)
  have r1: "0 < ref ?s1 0" "fr ?s1 0 = 0x200000" using a by (simp_all add: ref_def fr_def)
  have "frame_step ?s1 ?s" using frame_step.release [of 0 ?s1] r1 by simp
  with frame_step.alloc [of demo_paging] have steps: "frame_step\<^sup>*\<^sup>* demo_paging ?s" by (meson converse_rtranclp_into_rtranclp rtranclp.rtrancl_refl)
  have "frames_inv ?s1" using frame_step_inv [OF frame_step.alloc demo_paging_inv] .
  from frame_free_spec [OF this, of 0] r1 a(1) have "ref ?s 0 = 0" by (simp add: ref_def)
  then have "\<not> (\<forall>k < 1024. 0 < ref ?s k)" by (metis less_irrefl zero_less_numeral)
  with frame_alloc_exclusive [OF steps demo_paging_inv, of "fst (frame_alloc ?s)" "snd (frame_alloc ?s)"]
  show ?thesis unfolding Let_def by auto
qed

section \<open>Entries\<close>

lemma frame_bits:
  assumes "aligned f" "unat f < 2 ^ 48" "bit f n"
  shows "12 \<le> n" "n < 48"
proof -
  have "f = push_bit 12 (drop_bit 12 f)" using aligned_frame_of [OF assms(1)] by (simp add: frame_of_drop)
  with assms(3) show "12 \<le> n" by (metis bit_push_bit_iff)
  have "unat (take_bit 48 f) = unat f" using assms(2) by (simp add: unsigned_take_bit_eq take_bit_nat_eq_self)
  then have "take_bit 48 f = f" by (simp add: word_unat_eq_iff)
  with assms(3) show "n < 48" by (metis bit_take_bit_iff)
qed

lemma bit_masks:
  "bit (0xFFFFFFFFF000 :: u64) n \<longleftrightarrow> 12 \<le> n \<and> n < 48" "bit (0x000FFFFFFFFFF000 :: u64) n \<longleftrightarrow> 12 \<le> n \<and> n < 52" "bit (0xFFF :: u64) n \<longleftrightarrow> n < 12"
proof -
  have m: "(0xFFFFFFFFF000 :: u64) = push_bit 12 (mask 36)" "(0x000FFFFFFFFFF000 :: u64) = push_bit 12 (mask 40)" "(0xFFF :: u64) = mask 12"
    by (simp_all add: mask_numeral push_bit_eq_mult)
  show "bit (0xFFFFFFFFF000 :: u64) n \<longleftrightarrow> 12 \<le> n \<and> n < 48" unfolding m(1) by (auto simp: bit_push_bit_iff bit_mask_iff)
  show "bit (0x000FFFFFFFFFF000 :: u64) n \<longleftrightarrow> 12 \<le> n \<and> n < 52" unfolding m(2) by (auto simp: bit_push_bit_iff bit_mask_iff)
  show "bit (0xFFF :: u64) n \<longleftrightarrow> n < 12" unfolding m(3) by (auto simp: bit_mask_iff)
qed

lemma entry_frame:
  assumes "aligned f" "unat f < 2 ^ 48" "take_bit 12 x = x"
  shows "(f OR x) AND PAGE_ADDR_MASK = f" "(f OR x) AND 0x000FFFFFFFFFF000 = f" "(f OR x) AND 0xFFF = x"
proof -
  have x: "n < 12" if "bit x n" for n using that assms(3) by (metis bit_take_bit_iff)
  have f: "12 \<le> n \<and> n < 48" if "bit f n" for n using frame_bits [OF assms(1,2) that] by simp
  have b: "bit ((f OR x) AND PAGE_ADDR_MASK) n = bit f n" "bit ((f OR x) AND 0x000FFFFFFFFFF000) n = bit f n" "bit ((f OR x) AND 0xFFF) n = bit x n" for n
    using f [of n] x [of n] unfolding bit_and_iff bit_or_iff bit_masks by auto
  show "(f OR x) AND PAGE_ADDR_MASK = f" "(f OR x) AND 0x000FFFFFFFFFF000 = f" "(f OR x) AND 0xFFF = x"
    by (simp_all add: bit_eq_iff b)
qed


lemma page_flag_bits:
  "(e :: u64) AND 1 = 0 \<longleftrightarrow> \<not> bit e 0" "e AND 2 = 0 \<longleftrightarrow> \<not> bit e 1" "e AND 4 = 0 \<longleftrightarrow> \<not> bit e 2" "e AND 0x80 = 0 \<longleftrightarrow> \<not> bit e 7" "e AND 0x200 = 0 \<longleftrightarrow> \<not> bit e 9"
proof -
  have p: "(1 :: u64) = push_bit 0 1" "(2 :: u64) = push_bit 1 1" "(4 :: u64) = push_bit 2 1" "(0x80 :: u64) = push_bit 7 1" "(0x200 :: u64) = push_bit 9 1"
    by (simp_all add: push_bit_eq_mult)
  show "e AND 1 = 0 \<longleftrightarrow> \<not> bit e 0" using bit_iff_and_push_bit_not_eq_0 [of e 0] by simp
  show "e AND 2 = 0 \<longleftrightarrow> \<not> bit e 1" unfolding p(2) using bit_iff_and_push_bit_not_eq_0 [of e 1] by blast
  show "e AND 4 = 0 \<longleftrightarrow> \<not> bit e 2" unfolding p(3) using bit_iff_and_push_bit_not_eq_0 [of e 2] by blast
  show "e AND 0x80 = 0 \<longleftrightarrow> \<not> bit e 7" unfolding p(4) using bit_iff_and_push_bit_not_eq_0 [of e 7] by blast
  show "e AND 0x200 = 0 \<longleftrightarrow> \<not> bit e 9" unfolding p(5) using bit_iff_and_push_bit_not_eq_0 [of e 9] by blast
qed

lemma bit_flags:
  "bit (2 :: u64) n \<longleftrightarrow> n = 1" "bit (0x200 :: u64) n \<longleftrightarrow> n = 9"
proof -
  have p: "(2 :: u64) = push_bit 1 1" "(0x200 :: u64) = push_bit 9 1" by (simp_all add: push_bit_eq_mult)
  show "bit (2 :: u64) n \<longleftrightarrow> n = 1" unfolding p(1) bit_push_bit_iff bit_1_iff by auto
  show "bit (0x200 :: u64) n \<longleftrightarrow> n = 9" unfolding p(2) bit_push_bit_iff bit_1_iff by auto
qed

definition writable_flags :: "u64 \<Rightarrow> u64" where
  "writable_flags e = ((e AND 0xFFF) OR PAGE_WRITABLE) AND NOT PAGE_COW"

lemma bit_writable_flags: "bit (writable_flags e) n \<longleftrightarrow> n < 12 \<and> n \<noteq> 9 \<and> (bit e n \<or> n = 1)"
proof -
  have "n < 64" if "bit e n" using that bit_imp_le_length by fastforce
  then show ?thesis unfolding writable_flags_def bit_and_iff bit_or_iff bit_not_iff bit_flags bit_masks by auto
qed

lemma take_bit_writable_flags: "take_bit 12 (writable_flags e) = writable_flags e"
  unfolding bit_eq_iff bit_take_bit_iff bit_writable_flags by auto

lemma entry_flags:
  assumes "aligned f" "unat f < 2 ^ 48" "n < 12"
  shows "bit (f OR x) n = bit x n"
  using frame_bits(1) [OF assms(1,2), of n] assms(3) unfolding bit_or_iff by auto

section \<open>A write to a shared page\<close>

lemma copy_frame_ent:
  "aligned f \<Longrightarrow> aligned d \<Longrightarrow> i < 512 \<Longrightarrow> copy_frame d src m (ent f i) = (if f = d then m (ent src i) else m (ent f i))"
  by (simp add: copy_frame_def frame_of_ent) (simp add: ent_def)

lemma frame_alloc_free:
  assumes "frames_inv s" "j < 1024" "ref s j = 0"
  obtains k s' where "frame_alloc s = (fr s k, s')" "k < 1024" "fr s k \<noteq> 0" "ref s k = 0" "frame_refcount s' = (frame_refcount s)[k := 1]"
    "phys_pool_base s' = phys_pool_base s" "kernel_pml4 s' = kernel_pml4 s" "pg_mem s' = zero_frame (fr s k) (pg_mem s)" "frames_inv s'"
proof -
  obtain f s' where fs: "frame_alloc s = (f, s')" by fastforce
  from frame_alloc_spec [OF assms(1) fs] assms(2,3) fs that show thesis by auto
qed

text \<open>A page of an address space that is marked copy on write: entry \<open>p\<close> in table \<open>t\<close>, page in frame \<open>k\<close>.\<close>

definition cow_page :: "paging \<Rightarrow> u64 \<Rightarrow> u64 \<Rightarrow> u64 \<Rightarrow> nat \<Rightarrow> nat \<Rightarrow> bool" where
  "cow_page s pml4 va p k t \<longleftrightarrow> pml4 \<noteq> 0 \<and> paging_get_pte pml4 va s = Some p
     \<and> pg_mem s p AND PAGE_PRESENT \<noteq> 0 \<and> pg_mem s p AND PAGE_COW \<noteq> 0 \<and> pg_mem s p AND PAGE_ADDR_MASK = fr s k
     \<and> k < FRAME_POOL_MAX_FRAMES \<and> 0 < ref s k \<and> frame_of p = fr s t \<and> t < FRAME_POOL_MAX_FRAMES \<and> 0 < ref s t \<and> t \<noteq> k"

definition writable_page :: "paging \<Rightarrow> u64 \<Rightarrow> u64 \<Rightarrow> bool" where
  "writable_page s p f \<longleftrightarrow> pg_mem s p AND PAGE_ADDR_MASK = f \<and> pg_mem s p AND PAGE_PRESENT \<noteq> 0
     \<and> pg_mem s p AND PAGE_WRITABLE \<noteq> 0 \<and> pg_mem s p AND PAGE_COW = 0"

lemma cow_pageD:
  assumes "frames_inv s" "cow_page s pml4 va p k t"
  shows "bit (pg_mem s p) 0" "bit (pg_mem s p) 9" "frame_ref_get (fr s k) s = frame_refcount s ! k"
    "l < 1024 \<Longrightarrow> l \<noteq> t \<Longrightarrow> i < 512 \<Longrightarrow> p \<noteq> ent (fr s l) i"
proof -
  have b: "base_ok s" using assms(1) by (simp add: frames_inv_def)
  show "bit (pg_mem s p) 0" "bit (pg_mem s p) 9" using assms(2) by (simp_all add: cow_page_def page_flag_bits)
  show "frame_ref_get (fr s k) s = frame_refcount s ! k" using ref_idx_fr [OF b] assms(2) by (simp add: frame_ref_get_def cow_page_def)
  show "p \<noteq> ent (fr s l) i" if "l < 1024" "l \<noteq> t" "i < 512"
    using frame_of_ent [OF fr_aligned [OF b], of l i] fr_inj [OF b, of l t] assms(2) that by (auto simp: cow_page_def)
qed

lemma cow_sole_owner:
  assumes inv: "frames_inv s" and c: "cow_page s pml4 va p k t" and one: "ref s k = 1"
  obtains s' where "paging_handle_cow_fault pml4 va s = (0, s')" "writable_page s' p (fr s k)"
    "\<And>a. a \<noteq> p \<Longrightarrow> pg_mem s' a = pg_mem s a" "frame_refcount s' = frame_refcount s" "frames_inv s'" "phys_pool_base s' = phys_pool_base s"
proof -
  let ?e = "(pg_mem s p OR PAGE_WRITABLE) AND NOT PAGE_COW"
  note flags = cow_pageD(1,2) [OF inv c]
  have be: "bit ?e n \<longleftrightarrow> n < 64 \<and> n \<noteq> 9 \<and> (bit (pg_mem s p) n \<or> n = 1)" for n
  proof -
    have "n < 64" if "bit (pg_mem s p) n" using that bit_imp_le_length by fastforce
    then show ?thesis unfolding bit_and_iff bit_or_iff bit_not_iff bit_flags by auto
  qed
  let ?s' = "put_word p ?e s"
  have "frame_ref_get (fr s k) s = 1" using one cow_pageD(3) [OF inv c] by (simp add: ref_def word_unat_eq_iff)
  then have h: "paging_handle_cow_fault pml4 va s = (0, ?s')" using c by (simp add: paging_handle_cow_fault_def Let_def cow_page_def)
  have m: "pg_mem ?s' p = ?e" "\<And>a. a \<noteq> p \<Longrightarrow> pg_mem ?s' a = pg_mem s a" by (simp_all add: put_word_def)
  have "?e AND PAGE_ADDR_MASK = pg_mem s p AND PAGE_ADDR_MASK" by (rule bit_word_eqI) (auto simp only: bit_and_iff [of _ PAGE_ADDR_MASK] be bit_masks)
  then have "pg_mem ?s' p AND PAGE_ADDR_MASK = fr s k" unfolding m(1) using c by (simp add: cow_page_def)
  moreover have "pg_mem ?s' p AND 1 \<noteq> 0" "pg_mem ?s' p AND 2 \<noteq> 0" "pg_mem ?s' p AND 0x200 = 0" unfolding page_flag_bits m(1) be using flags by simp_all
  ultimately have w: "writable_page ?s' p (fr s k)" by (simp add: writable_page_def)
  have "frames_inv ?s'" "frame_refcount ?s' = frame_refcount s" "phys_pool_base ?s' = phys_pool_base s"
    using inv by (simp_all add: frames_inv_def base_ok_def fr_def put_word_def)
  with that [OF h w m(2)] show thesis by simp
qed

lemma cow_copy:
  assumes inv: "frames_inv s" and c: "cow_page s pml4 va p k t" and shared: "ref s k \<noteq> 1" and free: "j < 1024" "ref s j = 0"
  obtains s' n where "paging_handle_cow_fault pml4 va s = (0, s')" "n < 1024" "ref s n = 0" "writable_page s' p (fr s n)"
    "\<forall>i < 512. pg_mem s' (ent (fr s n) i) = pg_mem s (ent (fr s k) i)" "\<And>a. a \<noteq> p \<Longrightarrow> frame_of a \<noteq> fr s n \<Longrightarrow> pg_mem s' a = pg_mem s a"
    "ref s' n = 1" "ref s' k = ref s k - 1" "frames_inv s'" "\<And>l. l < 1024 \<Longrightarrow> l \<noteq> n \<Longrightarrow> l \<noteq> k \<Longrightarrow> ref s' l = ref s l" "phys_pool_base s' = phys_pool_base s"
proof -
  have b: "base_ok s" "length (frame_refcount s) = 1024" using inv by (simp_all add: frames_inv_def)
  have cp: "pml4 \<noteq> 0" "paging_get_pte pml4 va s = Some p" "pg_mem s p AND PAGE_PRESENT \<noteq> 0" "pg_mem s p AND PAGE_COW \<noteq> 0"
    "pg_mem s p AND PAGE_ADDR_MASK = fr s k" "k < 1024" "0 < ref s k" "frame_of p = fr s t" "t < 1024" "0 < ref s t" "t \<noteq> k"
    using c by (simp_all add: cow_page_def)
  have al: "aligned (fr s l)" "unat (fr s l) < 2 ^ 48" if "l < 1024" for l using that fr_aligned [OF b(1), of l] fr_bound [OF b(1), of l] by simp_all
  obtain n s1 where n: "frame_alloc s = (fr s n, s1)" "n < 1024" "fr s n \<noteq> 0" "ref s n = 0" "frame_refcount s1 = (frame_refcount s)[n := 1]"
    "phys_pool_base s1 = phys_pool_base s" "pg_mem s1 = zero_frame (fr s n) (pg_mem s)" "frames_inv s1"
    using frame_alloc_free [OF inv free] by metis
  have nk: "n \<noteq> k" "n \<noteq> t" using n(4) cp(7,10) by auto
  have not1: "frame_ref_get (fr s k) s \<noteq> 1" using shared cow_pageD(3) [OF inv c] by (simp add: ref_def word_unat_eq_iff)
  let ?m2 = "copy_frame (fr s n) (fr s k) (pg_mem s1)" and ?v = "fr s n OR writable_flags (pg_mem s p)"
  let ?s3 = "put_word p ?v (s1\<lparr>pg_mem := ?m2\<rparr>)"
  have "?m2 p = pg_mem s p" using cp(8,9) nk(2) n(2) fr_inj [OF b(1), of t n] by (simp add: copy_frame_def n(7) zero_frame_def)
  then have h: "paging_handle_cow_fault pml4 va s = (0, frame_free (fr s k) ?s3)"
    using cp(1-5) not1 n(1,3) by (simp add: paging_handle_cow_fault_def Let_def writable_flags_def)
  have c3: "fr ?s3 = fr s" "frame_refcount ?s3 = (frame_refcount s)[n := 1]" "frames_inv ?s3"
    using n(5,6,8) by (simp_all add: fr_def put_word_def fun_eq_iff frames_inv_def base_ok_def)
  have "0 < ref ?s3 k" using c3(2) nk(1) cp(7) by (simp add: ref_def)
  from frame_free_spec [OF c3(3) cp(6) this, unfolded c3(1)] obtain s' where s': "s' = frame_free (fr s k) ?s3" "frames_inv s'"
    "frame_refcount s' = (frame_refcount ?s3)[k := frame_refcount ?s3 ! k - 1]" "pg_mem s' = pg_mem ?s3" "phys_pool_base s' = phys_pool_base ?s3" by blast
  have p3: "pg_mem s' p = ?v" using s'(4) by (simp add: put_word_def)
  have "pg_mem s' p AND 1 \<noteq> 0" "pg_mem s' p AND 2 \<noteq> 0" "pg_mem s' p AND 0x200 = 0"
    unfolding page_flag_bits p3 using entry_flags [OF al [OF n(2)], of _ "writable_flags (pg_mem s p)"] cow_pageD(1) [OF inv c] by (simp_all add: bit_writable_flags)
  moreover have "pg_mem s' p AND PAGE_ADDR_MASK = fr s n" unfolding p3 using entry_frame(1) [OF al [OF n(2)] take_bit_writable_flags] .
  ultimately have w: "writable_page s' p (fr s n)" by (simp add: writable_page_def)
  have words: "\<forall>i < 512. pg_mem s' (ent (fr s n) i) = pg_mem s (ent (fr s k) i)"
    using cow_pageD(4) [OF inv c n(2) nk(2)] fr_inj [OF b(1), of k n] cp(6) n(2) nk(1)
    by (auto simp: s'(4) put_word_def copy_frame_ent al n(7) zero_frame_ent)
  have rest: "pg_mem s' a = pg_mem s a" if "a \<noteq> p" "frame_of a \<noteq> fr s n" for a
    using that by (simp add: s'(4) put_word_def copy_frame_def n(7) zero_frame_def)
  have "unat (frame_refcount s ! k - 1) = ref s k - 1" using cp(7) by (subst unat_sub) (simp_all add: ref_def word_le_nat_alt)
  then have "ref s' n = 1" "ref s' k = ref s k - 1"
    using b(2) n(2) cp(6) nk(1) by (simp_all add: s'(3) c3(2) ref_def nth_list_update)
  moreover have "ref s' l = ref s l" if "l \<noteq> n" "l \<noteq> k" for l using that by (simp add: s'(3) c3(2) ref_def)
  moreover have "phys_pool_base s' = phys_pool_base s" using s'(5) n(6) by (simp add: put_word_def)
  ultimately show thesis using that [OF h [folded s'(1)] n(2,4) w words rest _ _ s'(2)] by blast
qed

text \<open>
  Property: a write to a shared page gets a private copy. When the page of the faulting address is marked copy on
  write and a frame is free (or the page has no other user), the handler returns 0; the entry is then present, writable
  and no longer marked, its frame holds the same words and has one reference, and nothing else changes: every word
  outside the entry and a new frame, the shared frame included, is as before, and the shared frame has one
  reference less.
\<close>

theorem cow_fault_private:
  assumes inv: "frames_inv s" and c: "cow_page s pml4 va p k t" and room: "ref s k = 1 \<or> (\<exists>j < FRAME_POOL_MAX_FRAMES. ref s j = 0)"
  shows "\<exists>s' n. paging_handle_cow_fault pml4 va s = (0, s') \<and> n < FRAME_POOL_MAX_FRAMES \<and> writable_page s' p (fr s n)
    \<and> (\<forall>i < 512. pg_mem s' (ent (fr s n) i) = pg_mem s (ent (fr s k) i)) \<and> ref s' n = 1
    \<and> (\<forall>a. a \<noteq> p \<and> (frame_of a \<noteq> fr s n \<or> n = k) \<longrightarrow> pg_mem s' a = pg_mem s a)
    \<and> (n = k \<longleftrightarrow> ref s k = 1) \<and> (n \<noteq> k \<longrightarrow> ref s n = 0 \<and> ref s' k = ref s k - 1) \<and> frames_inv s'"
proof (cases "ref s k = 1")
  case True
  obtain s' where s': "paging_handle_cow_fault pml4 va s = (0, s')" "writable_page s' p (fr s k)"
    "\<And>a. a \<noteq> p \<Longrightarrow> pg_mem s' a = pg_mem s a" "frame_refcount s' = frame_refcount s" "frames_inv s'"
    using cow_sole_owner [OF inv c True] by blast
  have "k < 1024" "k \<noteq> t" using c by (simp_all add: cow_page_def)
  then have "\<forall>i < 512. pg_mem s' (ent (fr s k) i) = pg_mem s (ent (fr s k) i)" using s'(3) cow_pageD(4) [OF inv c] by metis
  then show ?thesis using s' True \<open>k < 1024\<close> by (intro exI [of _ s'] exI [of _ k]) (simp add: ref_def)
next
  case False
  then obtain j where j: "j < 1024" "ref s j = 0" using room by blast
  obtain s' n where s': "paging_handle_cow_fault pml4 va s = (0, s')" "n < 1024" "ref s n = 0" "writable_page s' p (fr s n)"
    "\<forall>i < 512. pg_mem s' (ent (fr s n) i) = pg_mem s (ent (fr s k) i)" "\<And>a. a \<noteq> p \<Longrightarrow> frame_of a \<noteq> fr s n \<Longrightarrow> pg_mem s' a = pg_mem s a"
    "ref s' n = 1" "ref s' k = ref s k - 1" "frames_inv s'"
    by (rule cow_copy [OF inv c False j]) blast
  have "n \<noteq> k" using s'(3) c by (auto simp: cow_page_def)
  then show ?thesis using s' False by (intro exI [of _ s'] exI [of _ n]) simp
qed

text \<open>An address space whose page at \<open>0x8000000\<close> is shared copy on write with another one.\<close>

definition demo_shared :: paging where
  "demo_shared = \<lparr>pg_mem = (\<lambda>_. 0)(0x200000 := 0x201007, 0x201000 := 0x202007, 0x202200 := 0x203007, 0x203000 := 0x204205, 0x204008 := 42),
     phys_next_free = 0x205000, phys_alloc_end = 0x600000, phys_pool_base = 0x200000, phys_frames_used = 5,
     frame_freelist = [], frame_refcount = [1, 1, 1, 1, 2] @ replicate 1019 0, kernel_pml4 = 0\<rparr>"

lemma demo_shared_inv: "frames_inv demo_shared"
proof -
  have b: "base_ok demo_shared" by (simp add: base_ok_def demo_shared_def aligned_def)
  have none: "{k. k < 5 \<and> frame_refcount demo_shared ! k = 0} = {}"
  proof -
    have "k = 0 \<or> k = 1 \<or> k = 2 \<or> k = 3 \<or> k = 4" if "k < 5" for k :: nat using that by linarith
    moreover have "frame_refcount demo_shared ! k \<noteq> 0" if "k \<in> {0, 1, 2, 3, 4}" for k using that by (auto simp: demo_shared_def)
    ultimately show ?thesis by blast
  qed
  have "demo_shared = demo_shared\<lparr>frame_refcount := frame_refcount demo_shared, frame_freelist := []\<rparr>" by (simp add: demo_shared_def)
  also have "frames_inv \<dots>" by (rule frames_inv_updI [OF b, of _ _ 5]) (use none in \<open>auto simp: demo_shared_def fr_def nth_Cons'\<close>)
  finally show ?thesis .
qed

theorem cow_fault_private_witness:
  "\<exists>s' n. paging_handle_cow_fault 0x200000 0x8000008 demo_shared = (0, s') \<and> n \<noteq> 4 \<and> writable_page s' 0x203000 (fr demo_shared n)
    \<and> pg_mem s' (ent (fr demo_shared n) 1) = 42 \<and> pg_mem s' 0x204008 = 42"
proof -
  have pte: "paging_get_pte 0x200000 0x8000008 demo_shared = Some 0x203000" by (simp add: paging_get_pte_def demo_shared_def vidx_def ent_def)
  have e: "pg_mem demo_shared 0x203000 = 0x204205" by (simp add: demo_shared_def)
  have refs: "ref demo_shared 4 = 2" "ref demo_shared 3 = 1" "ref demo_shared 5 = 0" by (simp_all add: demo_shared_def ref_def nth_append)
  have f: "fr demo_shared 4 = 0x204000" "fr demo_shared 3 = 0x203000" by (simp_all add: fr_def demo_shared_def)
  have "frame_of (0x203000 :: u64) = 0x203000" by (simp add: frame_of_def)
  then have c: "cow_page demo_shared 0x200000 0x8000008 0x203000 4 3" using pte e refs f by (simp add: cow_page_def)
  have "\<exists>j < FRAME_POOL_MAX_FRAMES. ref demo_shared j = 0" using refs(3) by (intro exI [of _ 5]) simp
  then obtain s' n where s': "paging_handle_cow_fault 0x200000 0x8000008 demo_shared = (0, s')" "writable_page s' 0x203000 (fr demo_shared n)"
    "\<forall>i < 512. pg_mem s' (ent (fr demo_shared n) i) = pg_mem demo_shared (ent (fr demo_shared 4) i)" "n \<noteq> 4"
    "\<forall>a. a \<noteq> 0x203000 \<and> (frame_of a \<noteq> fr demo_shared n \<or> n = 4) \<longrightarrow> pg_mem s' a = pg_mem demo_shared a" "n < 1024"
    using cow_fault_private [OF demo_shared_inv c] refs(1) by auto
  have "base_ok demo_shared" using demo_shared_inv by (simp add: frames_inv_def)
  then have "fr demo_shared n \<noteq> 0x204000" using fr_inj [of demo_shared 4 n] s'(4,6) f(1) by auto
  moreover have "frame_of (0x204008 :: u64) = 0x204000" by (simp add: frame_of_def)
  ultimately have "pg_mem s' 0x204008 = 42" using s'(5) by (simp add: demo_shared_def)
  moreover have "pg_mem demo_shared (ent (fr demo_shared 4) 1) = 42" unfolding f(1) by (simp add: ent_def demo_shared_def)
  ultimately show ?thesis using s'(1-4) by auto
qed


section \<open>Mapping a page\<close>

definition live :: "paging \<Rightarrow> u64 \<Rightarrow> bool" where
  "live s f \<longleftrightarrow> (\<exists>k < FRAME_POOL_MAX_FRAMES. f = fr s k \<and> 0 < ref s k)"

text \<open>A present entry of a table that leads to the frame of another table.\<close>

definition points_to :: "u64 \<Rightarrow> u64 \<Rightarrow> bool" where
  "points_to e f \<longleftrightarrow> aligned f \<and> unat f < 2 ^ 48 \<and> f \<noteq> 0 \<and> (\<exists>x. take_bit 12 x = x \<and> bit x 0 \<and> \<not> bit x 7 \<and> e = f OR x)"

lemma live_frame:
  assumes "frames_inv s" "live s f"
  shows "aligned f" "unat f < 2 ^ 48" "f \<noteq> 0"
proof -
  have b: "base_ok s" using assms(1) by (simp add: frames_inv_def)
  obtain k where k: "k < 1024" "f = fr s k" using assms(2) by (auto simp: live_def)
  show "aligned f" "unat f < 2 ^ 48" "f \<noteq> 0" using k fr_aligned [OF b, of k] fr_bound [OF b, of k] fr_nonzero [OF b, of k] by simp_all
qed

lemma points_toD:
  assumes "points_to e f"
  shows "e AND PAGE_PRESENT \<noteq> 0" "is_table e" "e AND PAGE_ADDR_MASK = f" "e AND 0x000FFFFFFFFFF000 = f" "points_to (e OR (flags AND PAGE_USER)) f"
proof -
  obtain x where x: "aligned f" "unat f < 2 ^ 48" "f \<noteq> 0" "take_bit 12 x = x" "bit x 0" "\<not> bit x 7" "e = f OR x" using assms by (auto simp: points_to_def)
  show "e AND PAGE_ADDR_MASK = f" "e AND 0x000FFFFFFFFFF000 = f" using entry_frame [OF x(1,2,4)] x(7) by simp_all
  have "bit e 0" "\<not> bit e 7" using entry_flags [OF x(1,2), of _ x] x(5-7) by simp_all
  then show "e AND 1 \<noteq> 0" "is_table e" by (simp_all add: is_table_def page_flag_bits)
  let ?y = "x OR (flags AND 4)"
  have four: "bit (4 :: u64) n \<longleftrightarrow> n = 2" for n
  proof -
    have "(4 :: u64) = push_bit 2 1" by (simp add: push_bit_eq_mult)
    then show ?thesis by (simp only: bit_push_bit_iff bit_1_iff) auto
  qed
  have x12: "n < 12" if "bit x n" for n using that x(4) by (metis bit_take_bit_iff)
  have "take_bit 12 ?y = ?y"
  proof (rule bit_word_eqI)
    fix n
    show "bit (take_bit 12 ?y) n = bit ?y n" unfolding bit_take_bit_iff bit_or_iff bit_and_iff four using x12 [of n] by auto
  qed
  moreover have "bit ?y 0" "\<not> bit ?y 7" using x(5,6) unfolding bit_or_iff bit_and_iff four by auto
  ultimately show "points_to (e OR (flags AND 4)) f" using x(1-3,7) unfolding points_to_def by (metis or.assoc)
qed

lemma points_to_new:
  assumes "aligned f" "unat f < 2 ^ 48" "f \<noteq> 0"
  shows "points_to (f OR PAGE_PRESENT OR PAGE_WRITABLE OR (flags AND PAGE_USER)) f"
proof -
  have "take_bit 12 (3 :: u64) = 3" "bit (3 :: u64) 0" "\<not> bit (3 :: u64) 7" by simp_all
  moreover have "f OR 1 OR 2 = f OR 3" by (simp add: or.assoc)
  ultimately have "points_to (f OR 1 OR 2) f" unfolding points_to_def using assms by metis
  from points_toD(5) [OF this, of flags] show ?thesis by (simp only: or.assoc)
qed

lemma next_level_present:
  assumes "points_to (pg_mem s (ent tab i)) f"
  obtains e where "paging_next_level tab i flags s = (f, put_word (ent tab i) e s)" "points_to e f"
proof -
  let ?e = "pg_mem s (ent tab i) OR (flags AND PAGE_USER)"
  have p: "points_to ?e f" using points_toD(5) [OF assms] .
  show thesis using that [OF _ p] points_toD(1) [OF assms] points_toD(4) [OF p] by (simp add: paging_next_level_def Let_def)
qed

lemma next_level_absent:
  assumes "frames_inv s" "\<not> bit (pg_mem s (ent tab i)) 0" "j < 1024" "ref s j = 0"
  obtains k e s1 where "paging_next_level tab i flags s = (fr s k, put_word (ent tab i) e s1)" "points_to e (fr s k)" "k < 1024" "ref s k = 0"
    "frame_refcount s1 = (frame_refcount s)[k := 1]" "phys_pool_base s1 = phys_pool_base s" "pg_mem s1 = zero_frame (fr s k) (pg_mem s)" "frames_inv s1"
proof -
  obtain k s1 where k: "frame_alloc s = (fr s k, s1)" "k < 1024" "fr s k \<noteq> 0" "ref s k = 0" "frame_refcount s1 = (frame_refcount s)[k := 1]"
    "phys_pool_base s1 = phys_pool_base s" "pg_mem s1 = zero_frame (fr s k) (pg_mem s)" "frames_inv s1"
    using frame_alloc_free [OF assms(1,3,4)] by metis
  have b: "base_ok s" using assms(1) by (simp add: frames_inv_def)
  let ?e = "fr s k OR PAGE_PRESENT OR PAGE_WRITABLE OR (flags AND PAGE_USER)"
  have p: "points_to ?e (fr s k)" using points_to_new k(2,3) fr_aligned [OF b, of k] fr_bound [OF b k(2)] by simp
  have "paging_next_level tab i flags s = (fr s k, put_word (ent tab i) ?e s1)"
    using assms(2) k(1,3) points_toD(4) [OF p] by (simp add: paging_next_level_def Let_def page_flag_bits)
  with that [OF _ p] k show thesis by blast
qed

lemma put_word_simps [simp]:
  "pg_mem (put_word a v s) x = (if x = a then v else pg_mem s x)" "frame_refcount (put_word a v s) = frame_refcount s"
  "phys_pool_base (put_word a v s) = phys_pool_base s" "frames_inv (put_word a v s) = frames_inv s" "fr (put_word a v s) k = fr s k" "ref (put_word a v s) k = ref s k"
  by (simp_all add: put_word_def frames_inv_def base_ok_def fr_def ref_def)

definition page_va :: "nat \<Rightarrow> nat \<Rightarrow> u64" where
  "page_va i j = push_bit 21 (of_nat i) OR push_bit 12 (of_nat j)"

lemma vidx_page:
  assumes "i < 512" "j < 512"
  shows "vidx 39 (page_va i j) = 0" "vidx 30 (page_va i j) = 0" "vidx 21 (page_va i j) = i" "vidx 12 (page_va i j) = j"
proof -
  have small: "n < 9" if "bit (of_nat k :: u64) n" "k < 512" for k n
  proof -
    have "take_bit 9 (of_nat k :: u64) = of_nat k" using that(2) by (simp add: take_bit_of_nat take_bit_nat_eq_self)
    with that(1) show ?thesis by (metis bit_take_bit_iff)
  qed
  have m: "(0x1FF :: u64) = mask 9" by (simp add: mask_numeral)
  have va: "bit (page_va i j) n \<longleftrightarrow> 21 \<le> n \<and> n < 64 \<and> bit (of_nat i :: u64) (n - 21) \<or> 12 \<le> n \<and> n < 64 \<and> bit (of_nat j :: u64) (n - 12)" for n
    by (auto simp: page_va_def bit_or_iff bit_push_bit_iff)
  have shift: "bit (drop_bit sh (page_va i j) AND 0x1FF) n \<longleftrightarrow> n < 9 \<and> bit (page_va i j) (sh + n)" for sh n
    unfolding bit_and_iff m bit_mask_iff bit_drop_bit_eq by auto
  have hi: "drop_bit sh (page_va i j) AND 0x1FF = 0" if "30 \<le> sh" for sh
  proof (rule bit_word_eqI)
    fix n show "bit (drop_bit sh (page_va i j) AND 0x1FF) n = bit (0 :: u64) n"
      unfolding shift va using small [of i "sh + n - 21"] small [of j "sh + n - 12"] assms that by auto
  qed
  moreover have "drop_bit 21 (page_va i j) AND 0x1FF = of_nat i"
  proof (rule bit_word_eqI)
    fix n show "bit (drop_bit 21 (page_va i j) AND 0x1FF) n = bit (of_nat i :: u64) n"
      unfolding shift va using small [of i n] small [of j "21 + n - 12"] assms by auto
  qed
  moreover have "drop_bit 12 (page_va i j) AND 0x1FF = of_nat j"
  proof (rule bit_word_eqI)
    fix n show "bit (drop_bit 12 (page_va i j) AND 0x1FF) n = bit (of_nat j :: u64) n"
      unfolding shift va using small [of j n] assms by auto
  qed
  ultimately show "vidx 39 (page_va i j) = 0" "vidx 30 (page_va i j) = 0" "vidx 21 (page_va i j) = i" "vidx 12 (page_va i j) = j"
    using assms by (simp_all add: vidx_def unat_of_nat take_bit_nat_eq_self_iff)
qed


text \<open>The upper two levels of an address space: the three tables \<open>d\<close>, \<open>p\<close> and \<open>q\<close>.\<close>

definition upper :: "paging \<Rightarrow> u64 \<Rightarrow> u64 \<Rightarrow> u64 \<Rightarrow> bool" where
  "upper s d p q \<longleftrightarrow> aligned d \<and> aligned p \<and> aligned q \<and> d \<noteq> p \<and> d \<noteq> q \<and> p \<noteq> q
     \<and> points_to (pg_mem s (ent d 0)) p \<and> points_to (pg_mem s (ent p 0)) q"

lemma map_4k_levels:
  assumes up: "upper s d p q" and ij: "i < 512" "j < 512"
  obtains s2 where "paging_map_4k d (page_va i j) phys flags s =
      (case paging_next_level q i flags s2 of (pt, s3) \<Rightarrow> if pt = 0 then s3 else put_word (ent pt j) ((phys AND PAGE_ADDR_MASK) OR flags) s3)"
    "upper s2 d p q" "\<And>a. a \<noteq> ent d 0 \<Longrightarrow> a \<noteq> ent p 0 \<Longrightarrow> pg_mem s2 a = pg_mem s a" "frame_refcount s2 = frame_refcount s"
    "phys_pool_base s2 = phys_pool_base s" "frames_inv s2 = frames_inv s"
proof -
  have al: "aligned d" "aligned p" "aligned q" "d \<noteq> p" "d \<noteq> q" "p \<noteq> q" "points_to (pg_mem s (ent d 0)) p" "points_to (pg_mem s (ent p 0)) q"
    using up by (simp_all add: upper_def)
  have ne: "p \<noteq> 0" "q \<noteq> 0" using al(7,8) by (simp_all add: points_to_def)
  have dp: "ent d 0 \<noteq> ent p 0" using ent_inj [OF al(1,2)] al(4) by simp
  obtain e1 where e1: "paging_next_level d 0 flags s = (p, put_word (ent d 0) e1 s)" "points_to e1 p" using next_level_present [OF al(7)] by blast
  let ?s1 = "put_word (ent d 0) e1 s"
  have "points_to (pg_mem ?s1 (ent p 0)) q" using al(8) dp by simp
  then obtain e2 where e2: "paging_next_level p 0 flags ?s1 = (q, put_word (ent p 0) e2 ?s1)" "points_to e2 q" using next_level_present by blast
  let ?s2 = "put_word (ent p 0) e2 ?s1"
  have "paging_map_4k d (page_va i j) phys flags s =
      (case paging_next_level q i flags ?s2 of (pt, s3) \<Rightarrow> if pt = 0 then s3 else put_word (ent pt j) ((phys AND PAGE_ADDR_MASK) OR flags) s3)"
    unfolding paging_map_4k_def vidx_page [OF ij] using e1(1) e2(1) ne by simp
  moreover have "upper ?s2 d p q" using al e1(2) e2(2) dp by (simp add: upper_def)
  ultimately show thesis using that [of ?s2] by simp
qed

lemma map_4k_present:
  assumes up: "upper s d p q" and ij: "i < 512" "j < 512" and pt: "points_to (pg_mem s (ent q i)) f" "f \<notin> {d, p, q}"
  obtains s' where "paging_map_4k d (page_va i j) phys flags s = s'" "upper s' d p q" "points_to (pg_mem s' (ent q i)) f"
    "pg_mem s' (ent f j) = (phys AND PAGE_ADDR_MASK) OR flags" "\<And>a. a \<notin> {ent d 0, ent p 0, ent q i, ent f j} \<Longrightarrow> pg_mem s' a = pg_mem s a"
    "frame_refcount s' = frame_refcount s" "phys_pool_base s' = phys_pool_base s" "frames_inv s' = frames_inv s"
proof -
  have al: "aligned d" "aligned p" "aligned q" "d \<noteq> q" "p \<noteq> q" "aligned f" "f \<noteq> 0" using up pt(1) by (simp_all add: upper_def points_to_def)
  have ne: "ent q i \<noteq> ent d 0" "ent q i \<noteq> ent p 0" "ent f j \<noteq> ent d 0" "ent f j \<noteq> ent p 0" "ent f j \<noteq> ent q i"
    using ent_inj [OF al(3,1) ij(1)] ent_inj [OF al(3,2) ij(1)] ent_inj [OF al(6,1) ij(2)] ent_inj [OF al(6,2) ij(2)] ent_inj [OF al(6,3) ij(2) ij(1)] al(4,5) pt(2) by auto
  obtain s2 where s2: "paging_map_4k d (page_va i j) phys flags s =
      (case paging_next_level q i flags s2 of (pt, s3) \<Rightarrow> if pt = 0 then s3 else put_word (ent pt j) ((phys AND PAGE_ADDR_MASK) OR flags) s3)"
    "upper s2 d p q" "\<And>a. a \<noteq> ent d 0 \<Longrightarrow> a \<noteq> ent p 0 \<Longrightarrow> pg_mem s2 a = pg_mem s a" "frame_refcount s2 = frame_refcount s"
    "phys_pool_base s2 = phys_pool_base s" "frames_inv s2 = frames_inv s" using map_4k_levels [OF up ij] by blast
  have "points_to (pg_mem s2 (ent q i)) f" using s2(3) ne(1,2) pt(1) by simp
  then obtain e where e: "paging_next_level q i flags s2 = (f, put_word (ent q i) e s2)" "points_to e f" using next_level_present by blast
  let ?s' = "put_word (ent f j) ((phys AND PAGE_ADDR_MASK) OR flags) (put_word (ent q i) e s2)"
  have eq: "paging_map_4k d (page_va i j) phys flags s = ?s'" using s2(1) e(1) al(7) by simp
  have up': "upper ?s' d p q" using s2(2) ne by (simp add: upper_def)
  show thesis by (rule that [of ?s']) (use eq up' e(2) ne s2(3-6) in auto)
qed

lemma map_4k_absent:
  assumes inv: "frames_inv s" and up: "upper s d p q" and l: "live s d" "live s p" "live s q" and ij: "i < 512" "j < 512"
    and pt: "\<not> bit (pg_mem s (ent q i)) 0" "n < 1024" "ref s n = 0"
  obtains s' k where "paging_map_4k d (page_va i j) phys flags s = s'" "upper s' d p q" "points_to (pg_mem s' (ent q i)) (fr s k)" "k < 1024" "ref s k = 0"
    "pg_mem s' (ent (fr s k) j) = (phys AND PAGE_ADDR_MASK) OR flags" "\<And>m. m < 512 \<Longrightarrow> m \<noteq> j \<Longrightarrow> pg_mem s' (ent (fr s k) m) = 0"
    "\<And>a. a \<notin> {ent d 0, ent p 0, ent q i} \<Longrightarrow> frame_of a \<noteq> fr s k \<Longrightarrow> pg_mem s' a = pg_mem s a"
    "frame_refcount s' = (frame_refcount s)[k := 1]" "phys_pool_base s' = phys_pool_base s" "frames_inv s'"
proof -
  have al: "aligned d" "aligned p" "aligned q" "d \<noteq> q" "p \<noteq> q" using up by (simp_all add: upper_def)
  have ne: "ent q i \<noteq> ent d 0" "ent q i \<noteq> ent p 0" using ent_inj [OF al(3,1) ij(1)] ent_inj [OF al(3,2) ij(1)] al(4,5) by auto
  obtain s2 where s2: "paging_map_4k d (page_va i j) phys flags s =
      (case paging_next_level q i flags s2 of (pt, s3) \<Rightarrow> if pt = 0 then s3 else put_word (ent pt j) ((phys AND PAGE_ADDR_MASK) OR flags) s3)"
    "upper s2 d p q" "\<And>a. a \<noteq> ent d 0 \<Longrightarrow> a \<noteq> ent p 0 \<Longrightarrow> pg_mem s2 a = pg_mem s a" "frame_refcount s2 = frame_refcount s"
    "phys_pool_base s2 = phys_pool_base s" "frames_inv s2 = frames_inv s" using map_4k_levels [OF up ij] by blast
  have same: "fr s2 = fr s" "ref s2 = ref s" using s2(4,5) by (simp_all add: fun_eq_iff fr_def ref_def)
  have "frames_inv s2" "\<not> bit (pg_mem s2 (ent q i)) 0" "ref s2 n = 0" using inv s2(3,6) ne pt(1,3) same by simp_all
  then obtain k e s3 where k: "paging_next_level q i flags s2 = (fr s k, put_word (ent q i) e s3)" "points_to e (fr s k)" "k < 1024" "ref s k = 0"
    "frame_refcount s3 = (frame_refcount s2)[k := 1]" "phys_pool_base s3 = phys_pool_base s2" "pg_mem s3 = zero_frame (fr s k) (pg_mem s2)" "frames_inv s3"
    using next_level_absent [of s2 q i n flags] pt(2) same by (metis same)
  have b: "base_ok s" using inv by (simp add: frames_inv_def)
  have alf: "aligned (fr s k)" "fr s k \<noteq> 0" using k(2) by (simp_all add: points_to_def)
  have other: "fr s k \<noteq> d" "fr s k \<noteq> p" "fr s k \<noteq> q" using l k(3,4) fr_inj [OF b, of k] unfolding live_def by (metis less_imp_le less_irrefl)+
  have ef: "ent (fr s k) m \<noteq> ent d 0" "ent (fr s k) m \<noteq> ent p 0" "ent (fr s k) m \<noteq> ent q i" if "m < 512" for m
    using ent_inj [OF alf(1) al(1) that] ent_inj [OF alf(1) al(2) that] ent_inj [OF alf(1) al(3) that ij(1)] other by auto
  let ?v = "(phys AND PAGE_ADDR_MASK) OR flags"
  let ?s' = "put_word (ent (fr s k) j) ?v (put_word (ent q i) e s3)"
  have eq: "paging_map_4k d (page_va i j) phys flags s = ?s'" using s2(1) k(1) alf(2) by simp
  have fo: "frame_of (ent d 0) = d" "frame_of (ent p 0) = p" using frame_of_ent [OF al(1)] frame_of_ent [OF al(2)] by simp_all
  have up': "upper ?s' d p q" using s2(2) ne ef [OF ij(2)] fo other by (simp add: upper_def k(7) zero_frame_def)
  have zero: "pg_mem ?s' (ent (fr s k) m) = 0" if "m < 512" "m \<noteq> j" for m
    using that ef [OF that(1)] ent_inj [OF alf(1) alf(1) that(1) ij(2)] by (simp add: k(7) zero_frame_ent [OF alf(1)])
  have pq: "points_to (pg_mem ?s' (ent q i)) (fr s k)" using k(2) ef [OF ij(2)] by simp
  have rest: "pg_mem ?s' a = pg_mem s a" if "a \<notin> {ent d 0, ent p 0, ent q i}" "frame_of a \<noteq> fr s k" for a
    using that s2(3) frame_of_ent [OF alf(1) ij(2)] by (auto simp: k(7) zero_frame_def)
  show thesis by (rule that [OF eq up' pq k(3,4)]) (use zero rest k(5,6,8) s2(4,5) in auto)
qed

end
