(* ===== verification/Address_Space.thy ===== *)
theory Address_Space
  imports Paging
begin

text \<open>
  Address spaces as a whole: what a well-formed set of page tables is, which entry a page of the user range has, how
  mapping a page changes it, and that sharing the pages of a process with its child keeps both apart: they
  see the same memory, and a write of one is not seen by the other.
\<close>

unbundle bit_operations_syntax

section \<open>The tables of a process\<close>

text \<open>The three upper tables and the table of each 2 MB of the user range, where there is one.\<close>

record space =
  sp_d :: u64
  sp_p :: u64
  sp_q :: u64
  sp_t :: "nat \<Rightarrow> u64 option"

definition user_slot :: "nat \<Rightarrow> bool" where
  "user_slot i \<longleftrightarrow> 64 \<le> i \<and> i < 512"

definition tables :: "space \<Rightarrow> u64 set" where
  "tables A = {sp_d A, sp_p A, sp_q A} \<union> {t. \<exists>i. user_slot i \<and> sp_t A i = Some t}"

definition slot_ok :: "paging \<Rightarrow> space \<Rightarrow> nat \<Rightarrow> bool" where
  "slot_ok s A i \<longleftrightarrow> (case sp_t A i of
     None \<Rightarrow> \<not> bit (pg_mem s (ent (sp_q A) i)) 0
   | Some t \<Rightarrow> points_to (pg_mem s (ent (sp_q A) i)) t \<and> t \<notin> {sp_d A, sp_p A, sp_q A})"

definition space_ok :: "paging \<Rightarrow> space \<Rightarrow> bool" where
  "space_ok s A \<longleftrightarrow> upper s (sp_d A) (sp_p A) (sp_q A) \<and> (\<forall>f \<in> tables A. live s f) \<and> (\<forall>i. user_slot i \<longrightarrow> slot_ok s A i)
     \<and> (\<forall>i j t. user_slot i \<longrightarrow> user_slot j \<longrightarrow> sp_t A i = Some t \<longrightarrow> sp_t A j = Some t \<longrightarrow> i = j)"

text \<open>The entry of a page; without a table there is none.\<close>

definition pte :: "paging \<Rightarrow> space \<Rightarrow> nat \<Rightarrow> nat \<Rightarrow> u64" where
  "pte s A i j = (case sp_t A i of None \<Rightarrow> 0 | Some t \<Rightarrow> pg_mem s (ent t j))"

lemma space_okD:
  assumes "space_ok s A"
  shows "upper s (sp_d A) (sp_p A) (sp_q A)" "f \<in> tables A \<Longrightarrow> live s f" "user_slot i \<Longrightarrow> slot_ok s A i"
    "user_slot i \<Longrightarrow> user_slot j \<Longrightarrow> sp_t A i = Some t \<Longrightarrow> sp_t A j = Some t \<Longrightarrow> i = j"
    "sp_d A \<in> tables A" "sp_p A \<in> tables A" "sp_q A \<in> tables A" "user_slot i \<Longrightarrow> sp_t A i = Some t \<Longrightarrow> t \<in> tables A"
  using assms unfolding space_ok_def tables_def by blast+

lemma space_cong:
  assumes "space_ok s A" "\<And>f. f \<in> tables A \<Longrightarrow> live s' f" "\<And>f i. f \<in> tables A \<Longrightarrow> i < 512 \<Longrightarrow> pg_mem s' (ent f i) = pg_mem s (ent f i)"
  shows "space_ok s' A" "user_slot i \<Longrightarrow> j < 512 \<Longrightarrow> pte s' A i j = pte s A i j"
proof -
  note d = space_okD [OF assms(1)]
  have "slot_ok s' A i" if "user_slot i" for i
    using d(3) [OF that] assms(3) [OF d(7), of i] that by (auto simp: slot_ok_def user_slot_def split: option.splits)
  moreover have "upper s' (sp_d A) (sp_p A) (sp_q A)" using d(1) assms(3) [OF d(5)] assms(3) [OF d(6)] by (simp add: upper_def)
  ultimately show "space_ok s' A" using assms(2) d(4) by (auto simp: space_ok_def)
  show "pte s' A i j = pte s A i j" if "user_slot i" "j < 512" using d(8) [OF that(1)] assms(3) that(2) by (auto simp: pte_def split: option.splits)
qed

lemma live_ref_cong: "phys_pool_base s' = phys_pool_base s \<Longrightarrow> (\<And>k. k < 1024 \<Longrightarrow> 0 < ref s k \<Longrightarrow> 0 < ref s' k) \<Longrightarrow> live s f \<Longrightarrow> live s' f"
  by (auto simp: live_def fr_def)

lemma slot_table_frame:
  assumes "frames_inv s" "space_ok s A" "f \<in> tables A"
  shows "aligned f" "f \<noteq> 0" "i < 512 \<Longrightarrow> frame_of (ent f i) = f"
proof -
  have l: "live s f" using space_okD(2) [OF assms(2,3)] .
  show "aligned f" "f \<noteq> 0" using live_frame [OF assms(1) l] by simp_all
  then show "frame_of (ent f i) = f" if "i < 512" using frame_of_ent that by simp
qed

lemma live_fr: "frames_inv s \<Longrightarrow> k < 1024 \<Longrightarrow> live s (fr s k) \<longleftrightarrow> 0 < ref s k"
  unfolding live_def frames_inv_def by (metis fr_inj less_imp_le)

section \<open>Mapping a page\<close>

text \<open>What mapping a page of the user range does: it sets the entry of the page, in a new table if there was none.\<close>

definition page_mapped :: "paging \<Rightarrow> space \<Rightarrow> nat \<Rightarrow> nat \<Rightarrow> u64 \<Rightarrow> paging \<Rightarrow> space \<Rightarrow> u64 \<Rightarrow> bool" where
  "page_mapped s A i j v s' A' t \<longleftrightarrow> A' = A\<lparr>sp_t := (sp_t A)(i := Some t)\<rparr> \<and> space_ok s' A' \<and> frames_inv s' \<and> phys_pool_base s' = phys_pool_base s
     \<and> pte s' A' i j = v \<and> (\<forall>l m. user_slot l \<and> m < 512 \<and> (l, m) \<noteq> (i, j) \<longrightarrow> pte s' A' l m = pte s A l m)
     \<and> (\<forall>a. frame_of a \<notin> tables A \<and> frame_of a \<noteq> t \<longrightarrow> pg_mem s' a = pg_mem s a)
     \<and> (sp_t A i = Some t \<and> frame_refcount s' = frame_refcount s
        \<or> sp_t A i = None \<and> (\<exists>k < 1024. t = fr s k \<and> ref s k = 0 \<and> frame_refcount s' = (frame_refcount s)[k := 1]))"

lemma map_4k_in_table:
  assumes inv: "frames_inv s" and ok: "space_ok s A" and ij: "user_slot i" "j < 512" and t: "sp_t A i = Some t"
  shows "page_mapped s A i j ((phys AND PAGE_ADDR_MASK) OR flags) (paging_map_4k (sp_d A) (page_va i j) phys flags s) A t"
proof -
  note d = space_okD [OF ok]
  let ?q = "sp_q A" and ?d = "sp_d A" and ?p = "sp_p A"
  have i: "i < 512" using ij(1) by (simp add: user_slot_def)
  have al: "aligned ?d" "aligned ?p" "aligned ?q" using slot_table_frame(1) [OF inv ok] d(5-7) by blast+
  have A: "A = A\<lparr>sp_t := (sp_t A)(i := Some t)\<rparr>" using t by (simp add: fun_upd_idem)
  have pt: "points_to (pg_mem s (ent ?q i)) t" "t \<notin> {?d, ?p, ?q}" using d(3) [OF ij(1)] t by (simp_all add: slot_ok_def)
  obtain s' where s': "paging_map_4k ?d (page_va i j) phys flags s = s'" "upper s' ?d ?p ?q" "points_to (pg_mem s' (ent ?q i)) t"
    "pg_mem s' (ent t j) = (phys AND PAGE_ADDR_MASK) OR flags" "\<And>a. a \<notin> {ent ?d 0, ent ?p 0, ent ?q i, ent t j} \<Longrightarrow> pg_mem s' a = pg_mem s a"
    "frame_refcount s' = frame_refcount s" "phys_pool_base s' = phys_pool_base s" "frames_inv s' = frames_inv s"
    by (rule map_4k_present [OF d(1) i ij(2) pt]) blast
  have tt: "t \<in> tables A" "aligned t" using d(8) [OF ij(1) t] slot_table_frame(1) [OF inv ok] by blast+
  have same: "pg_mem s' (ent f m) = pg_mem s (ent f m)" if "aligned f" "m < 512" "f \<notin> {?d, ?p}" "(f, m) \<noteq> (?q, i)" "(f, m) \<noteq> (t, j)" for f m
    using s'(5) [of "ent f m"] that ent_inj [OF that(1) al(1) that(2)] ent_inj [OF that(1) al(2) that(2)]
      ent_inj [OF that(1) al(3) that(2) i] ent_inj [OF that(1) tt(2) that(2) ij(2)] by auto
  have live: "live s' f" if "f \<in> tables A" for f using d(2) [OF that] s'(6,7) by (simp add: live_def fr_def ref_def)
  have slot: "slot_ok s' A l" if "user_slot l" for l
  proof (cases "l = i")
    case False
    then have "pg_mem s' (ent ?q l) = pg_mem s (ent ?q l)" using same [OF al(3), of l] that d(1) pt(2) by (auto simp: user_slot_def upper_def)
    then show ?thesis using d(3) [OF that] by (simp add: slot_ok_def split: option.splits)
  qed (use t s'(3) pt(2) in \<open>simp add: slot_ok_def\<close>)
  have ok': "space_ok s' A" using s'(2) live slot d(4) unfolding space_ok_def by blast
  have other: "pte s' A l m = pte s A l m" if "user_slot l" "m < 512" "(l, m) \<noteq> (i, j)" for l m
  proof (cases "sp_t A l")
    case (Some u)
    have "u \<notin> {?d, ?p, ?q}" using d(3) [OF that(1)] Some by (simp add: slot_ok_def)
    moreover have "(u, m) \<noteq> (t, j)" using that(3) d(4) [OF that(1) ij(1) Some] t by auto
    moreover have "aligned u" using slot_table_frame(1) [OF inv ok d(8) [OF that(1) Some]] .
    ultimately show ?thesis using same [of u m] that(2) Some by (auto simp: pte_def)
  qed (simp add: pte_def)
  have rest: "pg_mem s' a = pg_mem s a" if "frame_of a \<notin> tables A" for a
    using s'(5) [of a] that d(5-7) tt(1) slot_table_frame(3) [OF inv ok] i ij(2) by (metis insertE singletonD zero_less_numeral)
  have v: "pte s' A i j = (phys AND PAGE_ADDR_MASK) OR flags" using s'(4) t by (simp add: pte_def)
  show ?thesis unfolding s'(1) page_mapped_def using A ok' s'(6-8) inv v other rest t by blast
qed

lemma map_4k_new_table:
  assumes inv: "frames_inv s" and ok: "space_ok s A" and ij: "user_slot i" "j < 512" and t: "sp_t A i = None" and n: "n < 1024" "ref s n = 0"
  obtains t where "page_mapped s A i j ((phys AND PAGE_ADDR_MASK) OR flags) (paging_map_4k (sp_d A) (page_va i j) phys flags s) (A\<lparr>sp_t := (sp_t A)(i := Some t)\<rparr>) t"
proof -
  note d = space_okD [OF ok]
  let ?q = "sp_q A" and ?d = "sp_d A" and ?p = "sp_p A"
  have i: "i < 512" using ij(1) by (simp add: user_slot_def)
  have al: "aligned ?d" "aligned ?p" "aligned ?q" using slot_table_frame(1) [OF inv ok] d(5-7) by blast+
  have nb: "\<not> bit (pg_mem s (ent ?q i)) 0" using d(3) [OF ij(1)] t by (simp add: slot_ok_def)
  obtain s' k where s': "paging_map_4k ?d (page_va i j) phys flags s = s'" "upper s' ?d ?p ?q" "points_to (pg_mem s' (ent ?q i)) (fr s k)" "k < 1024" "ref s k = 0"
    "pg_mem s' (ent (fr s k) j) = (phys AND PAGE_ADDR_MASK) OR flags" "\<And>m. m < 512 \<Longrightarrow> m \<noteq> j \<Longrightarrow> pg_mem s' (ent (fr s k) m) = 0"
    "\<And>a. a \<notin> {ent ?d 0, ent ?p 0, ent ?q i} \<Longrightarrow> frame_of a \<noteq> fr s k \<Longrightarrow> pg_mem s' a = pg_mem s a"
    "frame_refcount s' = (frame_refcount s)[k := 1]" "phys_pool_base s' = phys_pool_base s" "frames_inv s'"
    by (rule map_4k_absent [OF inv d(1) d(2) [OF d(5)] d(2) [OF d(6)] d(2) [OF d(7)] i ij(2) nb n]) blast
  let ?t = "fr s k" and ?A = "A\<lparr>sp_t := (sp_t A)(i := Some (fr s k))\<rparr>"
  have len: "length (frame_refcount s) = 1024" using inv by (simp add: frames_inv_def)
  have new: "?t \<notin> tables A" using d(2) [of ?t] live_fr [OF inv s'(4)] s'(5) by auto
  have lk: "live s' ?t" using s'(4,9,10) len unfolding live_def by (intro exI [of _ k]) (simp add: fr_def ref_def)
  have live: "live s' f" if "f \<in> tables ?A" for f
  proof (cases "f = ?t")
    case False
    then have "live s f" using that d(2) by (auto simp: tables_def split: if_splits)
    then show ?thesis by (rule live_ref_cong [OF s'(10), rotated]) (use s'(4,9) len in \<open>auto simp: ref_def nth_list_update\<close>)
  qed (use lk in simp)
  have same: "pg_mem s' (ent f m) = pg_mem s (ent f m)" if "f \<in> tables A" "m < 512" "f \<notin> {?d, ?p}" "(f, m) \<noteq> (?q, i)" for f m
  proof -
    have f: "aligned f" "frame_of (ent f m) = f" using slot_table_frame [OF inv ok that(1)] that(2) by simp_all
    have "f \<noteq> ?t" using that(1) new by blast
    moreover have "ent f m \<notin> {ent ?d 0, ent ?p 0, ent ?q i}"
      using that ent_inj [OF f(1) al(1) that(2)] ent_inj [OF f(1) al(2) that(2)] ent_inj [OF f(1) al(3) that(2) i] by auto
    ultimately show ?thesis using s'(8) [of "ent f m"] f(2) by simp
  qed
  have slot: "slot_ok s' ?A l" if "user_slot l" for l
  proof (cases "l = i")
    case False
    then have "pg_mem s' (ent ?q l) = pg_mem s (ent ?q l)" using same [OF d(7), of l] that d(1) by (auto simp: user_slot_def upper_def)
    then show ?thesis using d(3) [OF that] False by (simp add: slot_ok_def split: option.splits)
  qed (use s'(3) new d(5-7) in \<open>auto simp: slot_ok_def\<close>)
  have inj: "l = m" if "user_slot l" "user_slot m" "sp_t ?A l = Some u" "sp_t ?A m = Some u" for l m u
    using that d(4) [OF that(1,2), of u] d(8) [OF that(1), of u] d(8) [OF that(2), of u] new by (auto split: if_splits)
  have ok': "space_ok s' ?A" using s'(2) live slot inj unfolding space_ok_def by auto
  have other: "pte s' ?A l m = pte s A l m" if "user_slot l" "m < 512" "(l, m) \<noteq> (i, j)" for l m
  proof (cases "l = i")
    case False
    have "pg_mem s' (ent u m) = pg_mem s (ent u m)" if "sp_t A l = Some u" for u
      using same [OF d(8) [OF \<open>user_slot l\<close> that] \<open>m < 512\<close>] d(3) [OF \<open>user_slot l\<close>] that by (auto simp: slot_ok_def)
    then show ?thesis using False by (simp add: pte_def split: option.splits)
  qed (use s'(7) [of m] that t in \<open>simp add: pte_def\<close>)
  have rest: "pg_mem s' a = pg_mem s a" if "frame_of a \<notin> tables A" "frame_of a \<noteq> ?t" for a
    using s'(8) [of a] that d(5-7) slot_table_frame(3) [OF inv ok] i by (metis insertE singletonD zero_less_numeral)
  have v: "pte s' ?A i j = (phys AND PAGE_ADDR_MASK) OR flags" using s'(6) by (simp add: pte_def)
  show thesis by (rule that [of ?t]) (use s'(4,5,9-11) ok' v other rest t in \<open>auto simp: s'(1) page_mapped_def\<close>)
qed

lemma map_4k_space:
  assumes inv: "frames_inv s" and ok: "space_ok s A" and ij: "user_slot i" "j < 512" and room: "sp_t A i = None \<Longrightarrow> \<exists>n < 1024. ref s n = 0"
  obtains A' t where "page_mapped s A i j ((phys AND PAGE_ADDR_MASK) OR flags) (paging_map_4k (sp_d A) (page_va i j) phys flags s) A' t"
proof (cases "sp_t A i")
  case None
  obtain n where n: "n < 1024" "ref s n = 0" using room [OF None] by blast
  show thesis by (rule map_4k_new_table [OF inv ok ij None n]) (rule that)
next
  case (Some t)
  show thesis by (rule that [OF map_4k_in_table [OF inv ok ij Some]])
qed

text \<open>Setting an entry of a table of pages.\<close>

lemma put_entry_space:
  assumes inv: "frames_inv s" and ok: "space_ok s A" and ij: "user_slot i" "j < 512" and t: "sp_t A i = Some t"
  shows "space_ok (put_word (ent t j) v s) A"
    "user_slot l \<Longrightarrow> m < 512 \<Longrightarrow> pte (put_word (ent t j) v s) A l m = (if l = i \<and> m = j then v else pte s A l m)"
proof -
  note d = space_okD [OF ok]
  let ?s = "put_word (ent t j) v s"
  have tt: "t \<in> tables A" "t \<notin> {sp_d A, sp_p A, sp_q A}" using d(8) [OF ij(1) t] d(3) [OF ij(1)] t by (simp_all add: slot_ok_def)
  have al: "aligned f" if "f \<in> tables A" for f using slot_table_frame(1) [OF inv ok that] .
  have same: "pg_mem ?s (ent f m) = pg_mem s (ent f m)" if "f \<in> tables A" "m < 512" "(f, m) \<noteq> (t, j)" for f m
    using ent_inj [OF al [OF that(1)] al [OF tt(1)] that(2) ij(2)] that(3) by auto
  have "slot_ok ?s A l" if "user_slot l" for l
    using d(3) [OF that] same [OF d(7), of l] that tt(2) by (auto simp: slot_ok_def user_slot_def split: option.splits)
  moreover have "upper ?s (sp_d A) (sp_p A) (sp_q A)" using d(1) same [OF d(5), of 0] same [OF d(6), of 0] tt(2) by (auto simp: upper_def)
  moreover have "live ?s f" if "f \<in> tables A" for f using d(2) [OF that] by (simp add: live_def)
  ultimately show "space_ok ?s A" using d(4) unfolding space_ok_def by blast
  show "pte ?s A l m = (if l = i \<and> m = j then v else pte s A l m)" if "user_slot l" "m < 512"
  proof (cases "sp_t A l")
    case (Some u)
    have "(u, m) = (t, j) \<longleftrightarrow> l = i \<and> m = j" using d(4) [OF that(1) ij(1) Some] t Some by auto
    then show ?thesis using same [OF d(8) [OF that(1) Some] that(2)] Some t by (auto simp: pte_def)
  qed (use t in \<open>auto simp: pte_def\<close>)
qed

section \<open>Sharing pages\<close>

definition present :: "u64 \<Rightarrow> bool" where
  "present e \<longleftrightarrow> e AND PAGE_PRESENT \<noteq> 0"

definition page_frame :: "u64 \<Rightarrow> u64" where
  "page_frame e = e AND PAGE_ADDR_MASK"

text \<open>The entry of the child for a page that the parent had under entry \<open>e\<close>.\<close>

definition child_entry :: "u64 \<Rightarrow> u64" where
  "child_entry e = page_frame (cow_entry e) OR (cow_entry e AND 0xFFF)"

lemma bit_cow_entry: "bit (cow_entry e) n \<longleftrightarrow> (if bit e 1 then (bit e n \<and> n \<noteq> 1) \<or> n = 9 else bit e n)"
proof -
  have "n < 64" if "bit e n" using that bit_imp_le_length by fastforce
  moreover have "bit ((e AND NOT PAGE_WRITABLE) OR PAGE_COW) n \<longleftrightarrow> bit e n \<and> n < 64 \<and> n \<noteq> 1 \<or> n = 9"
    unfolding bit_and_iff bit_or_iff bit_not_iff bit_flags by auto
  ultimately show ?thesis unfolding cow_entry_def page_flag_bits by auto
qed

lemma cow_entry_facts: "page_frame (cow_entry e) = page_frame e" "present (cow_entry e) \<longleftrightarrow> present e"
proof -
  show "page_frame (cow_entry e) = page_frame e"
    unfolding page_frame_def by (rule bit_word_eqI) (auto simp only: bit_and_iff bit_masks bit_cow_entry split: if_splits)
  show "present (cow_entry e) \<longleftrightarrow> present e" unfolding present_def page_flag_bits bit_cow_entry by simp
qed

text \<open>
  When pages can be shared: parent and child have tables of their own, the child has no pages yet, the pages of the
  parent are different frames that are not tables, and there is a free frame for every table of the parent.
\<close>

definition user_pages :: "paging \<Rightarrow> space \<Rightarrow> (nat \<times> nat) set" where
  "user_pages s A = {(i, j). user_slot i \<and> j < 512 \<and> present (pte s A i j)}"

definition frame_at :: "paging \<Rightarrow> space \<Rightarrow> nat \<times> nat \<Rightarrow> u64" where
  "frame_at s A x = page_frame (pte s A (fst x) (snd x))"

definition free_frames :: "paging \<Rightarrow> nat set" where
  "free_frames s = {k. k < 1024 \<and> ref s k = 0}"

definition used_slots :: "space \<Rightarrow> nat set" where
  "used_slots A = {i. user_slot i \<and> sp_t A i \<noteq> None}"

definition fork_ok :: "paging \<Rightarrow> space \<Rightarrow> space \<Rightarrow> bool" where
  "fork_ok s A B \<longleftrightarrow> frames_inv s \<and> space_ok s A \<and> space_ok s B \<and> tables A \<inter> tables B = {} \<and> used_slots B = {}
     \<and> (\<forall>x \<in> user_pages s A. frame_at s A x \<notin> tables A \<union> tables B \<and> (\<exists>k < 1024. frame_at s A x = fr s k \<and> 0 < ref s k \<and> ref s k < 255))
     \<and> inj_on (frame_at s A) (user_pages s A) \<and> card (used_slots A) \<le> card (free_frames s)"

text \<open>The state after the pages in \<open>X\<close> were shared.\<close>

definition forked :: "paging \<Rightarrow> space \<Rightarrow> space \<Rightarrow> (nat \<times> nat) set \<Rightarrow> paging \<Rightarrow> space \<Rightarrow> bool" where
  "forked s A B X s' B' \<longleftrightarrow> frames_inv s' \<and> phys_pool_base s' = phys_pool_base s \<and> space_ok s' A \<and> space_ok s' B' \<and> tables A \<inter> tables B' = {}
     \<and> sp_d B' = sp_d B \<and> tables B \<subseteq> tables B' \<and> (\<forall>f \<in> tables B' - tables B. \<exists>k < 1024. f = fr s k \<and> ref s k = 0)
     \<and> (\<forall>i j. user_slot i \<and> j < 512 \<longrightarrow> pte s' A i j = (if (i, j) \<in> X \<and> present (pte s A i j) then cow_entry (pte s A i j) else pte s A i j))
     \<and> (\<forall>i j. user_slot i \<and> j < 512 \<longrightarrow> pte s' B' i j = (if (i, j) \<in> X \<and> present (pte s A i j) then child_entry (pte s A i j) else 0))
     \<and> (\<forall>a. frame_of a \<notin> tables A \<union> tables B' \<longrightarrow> pg_mem s' a = pg_mem s a)
     \<and> (\<forall>k < 1024. fr s k \<notin> tables B' - tables B \<longrightarrow> ref s' k = ref s k + (if fr s k \<in> frame_at s A ` (user_pages s A \<inter> X) then 1 else 0))
     \<and> used_slots B' \<subseteq> used_slots A \<and> card (free_frames s) \<le> card (free_frames s') + card (used_slots B')
     \<and> (\<forall>k < 1024. fr s k \<in> tables B' - tables B \<longrightarrow> ref s' k = 1)"

lemma fork_okD:
  assumes "fork_ok s A B"
  shows "frames_inv s" "space_ok s A" "space_ok s B" "tables A \<inter> tables B = {}" "used_slots B = {}"
    "x \<in> user_pages s A \<Longrightarrow> frame_at s A x \<notin> tables A \<union> tables B"
    "x \<in> user_pages s A \<Longrightarrow> \<exists>k < 1024. frame_at s A x = fr s k \<and> 0 < ref s k \<and> ref s k < 255"
    "inj_on (frame_at s A) (user_pages s A)" "card (used_slots A) \<le> card (free_frames s)"
  using assms unfolding fork_ok_def by blast+

lemma forkedD:
  assumes "forked s A B X s' B'"
  shows "frames_inv s'" "phys_pool_base s' = phys_pool_base s" "space_ok s' A" "space_ok s' B'" "tables A \<inter> tables B' = {}"
    "sp_d B' = sp_d B" "tables B \<subseteq> tables B'" "f \<in> tables B' - tables B \<Longrightarrow> \<exists>k < 1024. f = fr s k \<and> ref s k = 0"
    "user_slot i \<Longrightarrow> j < 512 \<Longrightarrow> pte s' A i j = (if (i, j) \<in> X \<and> present (pte s A i j) then cow_entry (pte s A i j) else pte s A i j)"
    "user_slot i \<Longrightarrow> j < 512 \<Longrightarrow> pte s' B' i j = (if (i, j) \<in> X \<and> present (pte s A i j) then child_entry (pte s A i j) else 0)"
    "frame_of a \<notin> tables A \<union> tables B' \<Longrightarrow> pg_mem s' a = pg_mem s a"
    "k < 1024 \<Longrightarrow> fr s k \<notin> tables B' - tables B \<Longrightarrow> ref s' k = ref s k + (if fr s k \<in> frame_at s A ` (user_pages s A \<inter> X) then 1 else 0)"
    "used_slots B' \<subseteq> used_slots A" "card (free_frames s) \<le> card (free_frames s') + card (used_slots B')"
    "k < 1024 \<Longrightarrow> fr s k \<in> tables B' - tables B \<Longrightarrow> ref s' k = 1"
  using assms unfolding forked_def by blast+

lemma forked_start:
  assumes "fork_ok s A B"
  shows "forked s A B {} s B"
proof -
  have "pte s B i j = 0" if "user_slot i" for i j using fork_okD(5) [OF assms] that by (auto simp: pte_def used_slots_def split: option.splits)
  then show ?thesis using fork_okD [OF assms] by (simp add: forked_def)
qed

lemma forked_same:
  assumes "forked s A B X s' B'" "user_pages s A \<inter> Y = user_pages s A \<inter> X"
  shows "forked s A B Y s' B'"
proof -
  have "(i, j) \<in> Y \<and> present (pte s A i j) \<longleftrightarrow> (i, j) \<in> X \<and> present (pte s A i j)" if "user_slot i" "j < 512" for i j
    using assms(2) that by (auto simp: user_pages_def)
  then show ?thesis using assms unfolding forked_def by auto
qed

lemma finite_sets: "finite (free_frames s)" "finite (used_slots A)"
  unfolding free_frames_def used_slots_def user_slot_def by simp_all

lemma forked_room:
  assumes "fork_ok s A B" "forked s A B X s' B'" "user_slot i" "sp_t A i \<noteq> None" "sp_t B' i = None"
  shows "\<exists>n < 1024. ref s' n = 0"
proof -
  have "insert i (used_slots B') \<subseteq> used_slots A" "i \<notin> used_slots B'" using forkedD(13) [OF assms(2)] assms(3-5) by (auto simp: used_slots_def)
  then have "card (used_slots B') < card (used_slots A)" using finite_sets(2) by (metis card_insert_disjoint card_mono Suc_le_lessD)
  then have "free_frames s' \<noteq> {}" using forkedD(14) [OF assms(2)] fork_okD(9) [OF assms(1)] by auto
  then show ?thesis by (auto simp: free_frames_def)
qed

lemma page_mappedD:
  assumes "page_mapped s A i j v s' A' t"
  shows "A' = A\<lparr>sp_t := (sp_t A)(i := Some t)\<rparr>" "space_ok s' A'" "frames_inv s'" "phys_pool_base s' = phys_pool_base s" "pte s' A' i j = v"
    "user_slot l \<Longrightarrow> m < 512 \<Longrightarrow> (l, m) \<noteq> (i, j) \<Longrightarrow> pte s' A' l m = pte s A l m"
    "frame_of a \<notin> tables A \<Longrightarrow> frame_of a \<noteq> t \<Longrightarrow> pg_mem s' a = pg_mem s a"
  using assms unfolding page_mapped_def by blast+

text \<open>The bookkeeping of a mapped page: the table is an old one, or a frame that was free.\<close>

lemma page_mapped_frames:
  assumes inv: "frames_inv s" and pm: "page_mapped s A i j v s' A' t" and i: "user_slot i"
  shows "k < 1024 \<Longrightarrow> ref s' k = (if sp_t A i = None \<and> t = fr s k then 1 else ref s k)"
    "sp_t A i = None \<Longrightarrow> \<exists>k < 1024. t = fr s k \<and> ref s k = 0" "live s f \<Longrightarrow> live s' f" "sp_t A i = None \<Longrightarrow> \<not> live s t" "tables A' = insert t (tables A)"
    "free_frames s' = free_frames s - (if sp_t A i = None then {k. t = fr s k} else {})" "used_slots A' = insert i (used_slots A)"
proof -
  have len: "length (frame_refcount s) = 1024" "base_ok s" using inv by (simp_all add: frames_inv_def)
  have c: "sp_t A i = Some t \<and> frame_refcount s' = frame_refcount s
      \<or> sp_t A i = None \<and> (\<exists>k < 1024. t = fr s k \<and> ref s k = 0 \<and> frame_refcount s' = (frame_refcount s)[k := 1])"
    using pm by (simp add: page_mapped_def)
  show refs: "ref s' k = (if sp_t A i = None \<and> t = fr s k then 1 else ref s k)" if "k < 1024" for k
    using c that len(1) fr_inj [OF len(2), of _ k] by (auto simp: ref_def nth_list_update)
  show new: "\<exists>k < 1024. t = fr s k \<and> ref s k = 0" if "sp_t A i = None" using c that by auto
  show "\<not> live s t" if "sp_t A i = None" using new [OF that] live_fr [OF inv] by auto
  show "live s' f" if "live s f"
    using that by (rule live_ref_cong [OF page_mappedD(4) [OF pm], rotated]) (auto simp: refs)
  show "tables A' = insert t (tables A)"
  proof (cases "sp_t A i")
    case None
    then have "(\<exists>l. user_slot l \<and> sp_t A' l = Some g) \<longleftrightarrow> g = t \<or> (\<exists>l. user_slot l \<and> sp_t A l = Some g)" for g
      using i unfolding page_mappedD(1) [OF pm] by (auto split: if_splits) (metis option.distinct(1))
    then show ?thesis unfolding tables_def by (auto simp: page_mappedD(1) [OF pm])
  next
    case (Some u)
    then have "u = t" "t \<in> tables A" using c i by (auto simp: tables_def)
    with Some show ?thesis unfolding page_mappedD(1) [OF pm] by (simp add: fun_upd_idem insert_absorb)
  qed
  show "free_frames s' = free_frames s - (if sp_t A i = None then {k. t = fr s k} else {})" using refs by (auto simp: free_frames_def split: if_splits)
  show "used_slots A' = insert i (used_slots A)" using i unfolding page_mappedD(1) [OF pm] by (auto simp: used_slots_def)
qed

lemma clone_page_present:
  assumes "present (pg_mem s (ent t j))"
  shows "clone_page d t i j s = frame_ref_inc (page_frame (pg_mem s (ent t j)))
    (paging_map_4k d (page_va i j) (page_frame (pg_mem s (ent t j))) (cow_entry (pg_mem s (ent t j)) AND 0xFFF) (put_word (ent t j) (cow_entry (pg_mem s (ent t j))) s))"
  using assms cow_entry_facts(1) by (simp add: clone_page_def Let_def present_def page_va_def page_frame_def)

text \<open>The middle of a step: the entry of the parent is protected, the child has an entry.\<close>

lemma forked_step_tables:
  assumes ok: "fork_ok s A B" and f: "forked s A B X s' B'" and ij: "user_slot i" "j < 512" and t: "sp_t A i = Some t"
  obtains B2 u where "page_mapped (put_word (ent t j) e1 s') B' i j ((ph AND PAGE_ADDR_MASK) OR fl)
      (paging_map_4k (sp_d B) (page_va i j) ph fl (put_word (ent t j) e1 s')) B2 u"
    "space_ok (put_word (ent t j) e1 s') B'" "\<And>l m. user_slot l \<Longrightarrow> m < 512 \<Longrightarrow> pte (put_word (ent t j) e1 s') B' l m = pte s' B' l m"
    "u \<notin> tables A"
proof -
  note d = forkedD [OF f] and dA = space_okD [OF forkedD(3) [OF f]]
  let ?s1 = "put_word (ent t j) e1 s'"
  have tt: "t \<in> tables A" using dA(8) [OF ij(1) t] .
  have al: "aligned g" if "g \<in> tables A \<union> tables B'" for g using that slot_table_frame(1) [OF d(1) d(3)] slot_table_frame(1) [OF d(1) d(4)] by blast
  have same: "pg_mem ?s1 (ent g m) = pg_mem s' (ent g m)" if "g \<in> tables B'" "m < 512" for g m
    using ent_inj [OF al al, of g t m j] that tt ij(2) d(5) by auto
  have live: "live ?s1 g" if "g \<in> tables B'" for g using space_okD(2) [OF d(4) that] by (simp add: live_def)
  have B1: "space_ok ?s1 B'" "\<And>l m. user_slot l \<Longrightarrow> m < 512 \<Longrightarrow> pte ?s1 B' l m = pte s' B' l m" using space_cong [OF d(4) live same] by blast+
  have inv: "frames_inv ?s1" using d(1) by simp
  have room: "\<exists>n < 1024. ref ?s1 n = 0" if "sp_t B' i = None" using forked_room [OF ok f ij(1) _ that] t by simp
  obtain B2 u where pm: "page_mapped ?s1 B' i j ((ph AND PAGE_ADDR_MASK) OR fl) (paging_map_4k (sp_d B) (page_va i j) ph fl ?s1) B2 u"
    using map_4k_space [OF inv B1(1) ij room, of ph fl] d(6) by metis
  have "u \<notin> tables A"
  proof (cases "sp_t B' i = None")
    case True
    then have "\<not> live s' u" using page_mapped_frames(4) [OF inv pm ij(1)] by (simp add: live_def)
    then show ?thesis using dA(2) by blast
  next
    case False
    then have "u \<in> tables B'" using pm ij(1) by (auto simp: page_mapped_def tables_def)
    then show ?thesis using d(5) by blast
  qed
  then show thesis using that [OF pm B1] by blast
qed

text \<open>The frame of a page that is not shared yet: its count is as at the start, and it is no table.\<close>

lemma forked_frame:
  assumes ok: "fork_ok s A B" and f: "forked s A B X s' B'" and x: "x \<in> user_pages s A" "x \<notin> X"
  obtains k where "k < 1024" "frame_at s A x = fr s k" "ref s' k = ref s k" "0 < ref s k" "ref s k < 255" "fr s k \<notin> tables A \<union> tables B'"
    "fr s k \<notin> frame_at s A ` (user_pages s A \<inter> X)"
proof -
  obtain k where k: "k < 1024" "frame_at s A x = fr s k" "0 < ref s k" "ref s k < 255" using fork_okD(7) [OF ok x(1)] by blast
  have nt: "fr s k \<notin> tables A \<union> tables B" using fork_okD(6) [OF ok x(1)] k(2) by simp
  have b: "base_ok s" using fork_okD(1) [OF ok] by (simp add: frames_inv_def)
  have nB: "fr s k \<notin> tables B' - tables B" using forkedD(8) [OF f, of "fr s k"] k(1,3) fr_inj [OF b] by (metis less_imp_le less_irrefl)
  have img: "fr s k \<notin> frame_at s A ` (user_pages s A \<inter> X)" using fork_okD(8) [OF ok] x k(2) by (auto simp: inj_on_def)
  then have "ref s' k = ref s k" using forkedD(12) [OF f k(1) nB] by simp
  then show thesis using that k nt nB img by blast
qed

lemma fr_base: "phys_pool_base s' = phys_pool_base s \<Longrightarrow> fr s' = fr s"
  by (simp add: fr_def fun_eq_iff)

text \<open>One page, as far as the two spaces and the counts are concerned.\<close>

definition page_shared :: "paging \<Rightarrow> space \<Rightarrow> space \<Rightarrow> nat \<Rightarrow> nat \<Rightarrow> u64 \<Rightarrow> nat \<Rightarrow> paging \<Rightarrow> paging \<Rightarrow> space \<Rightarrow> u64 \<Rightarrow> bool" where
  "page_shared s A B' i j e k s' s3 B2 u \<longleftrightarrow> frames_inv s3 \<and> phys_pool_base s3 = phys_pool_base s \<and> space_ok s3 A \<and> space_ok s3 B2
     \<and> sp_d B2 = sp_d B' \<and> tables B2 = insert u (tables B') \<and> u \<notin> tables A \<and> used_slots B2 = insert i (used_slots B')
     \<and> (\<forall>l m. user_slot l \<and> m < 512 \<longrightarrow> pte s3 A l m = (if l = i \<and> m = j then cow_entry e else pte s' A l m))
     \<and> (\<forall>l m. user_slot l \<and> m < 512 \<longrightarrow> pte s3 B2 l m = (if l = i \<and> m = j then child_entry e else pte s' B' l m))
     \<and> (\<forall>a. frame_of a \<notin> tables A \<union> tables B2 \<longrightarrow> pg_mem s3 a = pg_mem s' a)
     \<and> (\<forall>l < 1024. ref s3 l = (if sp_t B' i = None \<and> u = fr s l then 1 else ref s' l) + (if l = k then 1 else 0))
     \<and> (sp_t B' i = None \<longrightarrow> (\<exists>k' < 1024. u = fr s k' \<and> ref s' k' = 0)) \<and> (sp_t B' i \<noteq> None \<longrightarrow> u \<in> tables B')"

lemma clone_page_step:
  assumes ok: "fork_ok s A B" and f: "forked s A B X s' B'" and ij: "user_slot i" "j < 512" and t: "sp_t A i = Some t"
    and e: "pte s' A i j = e" "present e" and k: "k < 1024" "page_frame e = fr s k" "0 < ref s' k" "ref s' k < 255"
  shows "\<exists>B2 u. page_shared s A B' i j e k s' (clone_page (sp_d B) t i j s') B2 u"
proof -
  note d = forkedD [OF f]
  let ?s1 = "put_word (ent t j) (cow_entry e) s'" and ?fl = "cow_entry e AND 0xFFF"
  have m: "pg_mem s' (ent t j) = e" using e(1) t by (simp add: pte_def)
  obtain s2 B2 u where s2: "paging_map_4k (sp_d B) (page_va i j) (fr s k) ?fl ?s1 = s2" "page_mapped ?s1 B' i j ((fr s k AND PAGE_ADDR_MASK) OR ?fl) s2 B2 u"
    "\<And>l m. user_slot l \<Longrightarrow> m < 512 \<Longrightarrow> pte ?s1 B' l m = pte s' B' l m" "u \<notin> tables A"
    by (rule forked_step_tables [OF ok f ij t]) blast
  have inv1: "frames_inv ?s1" using d(1) by simp
  note pm = page_mappedD [OF s2(2)] and pf = page_mapped_frames [OF inv1 s2(2) ij(1)]
  have base2: "phys_pool_base s2 = phys_pool_base s" "phys_pool_base ?s1 = phys_pool_base s" using pm(4) d(2) by simp_all
  have fr: "fr s' = fr s" "fr s2 = fr s" "fr ?s1 = fr s" using fr_base [OF d(2)] fr_base [OF base2(1)] fr_base [OF base2(2)] by simp_all
  have unew: "\<exists>k' < 1024. u = fr s k' \<and> ref s' k' = 0" if "sp_t B' i = None" using pf(2) [OF that] fr(3) by (simp del: put_word_simps(5))
  have uk: "\<not> (sp_t B' i = None \<and> u = fr s k)" using pf(4) k(1,3) live_fr [OF inv1, of k] fr(3) by (auto simp del: put_word_simps(5))
  have rs2: "ref s2 l = (if sp_t B' i = None \<and> u = fr s l then 1 else ref s' l)" if "l < 1024" for l
    using pf(1) [OF that] fr(3) by (simp del: put_word_simps(5))
  let ?s3 = "frame_ref_inc (fr s k) s2"
  have "0 < ref s2 k" "ref s2 k < 255" using rs2 [OF k(1)] uk k(3,4) by (simp_all split: if_splits)
  then have s3: "frames_inv ?s3" "?s3 = s2\<lparr>frame_refcount := (frame_refcount s2)[k := frame_refcount s2 ! k + 1]\<rparr>" and up: "unat (frame_refcount s2 ! k + 1) = ref s2 k + 1"
    using frame_ref_inc_spec [OF pm(3) k(1)] unfolding fr(2) by (simp_all add: ref_def unat_word_ariths)
  have "length (frame_refcount s2) = 1024" using pm(3) by (simp add: frames_inv_def)
  then have ref3: "ref ?s3 l = ref s2 l + (if l = k then 1 else 0)" if "l < 1024" for l using that up by (simp add: s3(2) ref_def nth_list_update)
  have m3: "pg_mem ?s3 = pg_mem s2" "phys_pool_base ?s3 = phys_pool_base s" "phys_pool_base ?s3 = phys_pool_base s2" using s3(2) base2(1) by simp_all
  have live3: "live ?s3 g" if "live s2 g" for g using that by (rule live_ref_cong [OF m3(3), rotated]) (simp add: ref3)
  have B3: "space_ok ?s3 B2" "\<And>l m. user_slot l \<Longrightarrow> m < 512 \<Longrightarrow> pte ?s3 B2 l m = pte s2 B2 l m"
    using space_cong [OF pm(2), of ?s3] live3 space_okD(2) [OF pm(2)] m3(1) by metis+
  have A1: "space_ok ?s1 A" "\<And>l m. user_slot l \<Longrightarrow> m < 512 \<Longrightarrow> pte ?s1 A l m = (if l = i \<and> m = j then cow_entry e else pte s' A l m)"
    using put_entry_space [OF d(1) d(3) ij t] by blast+
  have mA: "pg_mem ?s3 (ent g m) = pg_mem ?s1 (ent g m)" if "g \<in> tables A" "m < 512" for g m
  proof -
    have "frame_of (ent g m) \<notin> tables B'" "frame_of (ent g m) \<noteq> u" using slot_table_frame(3) [OF d(1) d(3) that] that(1) d(5) s2(4) by auto
    then show ?thesis using pm(7) m3(1) by metis
  qed
  have lA: "live ?s3 g" if "g \<in> tables A" for g using live3 pf(3) space_okD(2) [OF A1(1) that] by blast
  have A3: "space_ok ?s3 A" "\<And>l m. user_slot l \<Longrightarrow> m < 512 \<Longrightarrow> pte ?s3 A l m = pte ?s1 A l m" using space_cong [OF A1(1) lA mA] by blast+
  have "fr s k = page_frame (cow_entry e)" using k(2) cow_entry_facts(1) by simp
  then have ce: "(fr s k AND PAGE_ADDR_MASK) OR ?fl = child_entry e" by (simp add: child_entry_def page_frame_def and.assoc)
  have rest: "pg_mem ?s3 a = pg_mem s' a" if "frame_of a \<notin> tables A \<union> tables B2" for a
  proof -
    have "t \<in> tables A" using space_okD(8) [OF d(3) ij(1) t] .
    then have "a \<noteq> ent t j" using that slot_table_frame(3) [OF d(1) d(3) _ ij(2)] by auto
    then show ?thesis using pm(7) [of a] that m3(1) pf(5) by auto
  qed
  have ub: "u \<in> tables B'" if "sp_t B' i \<noteq> None" using that s2(2) ij(1) by (auto simp: page_mapped_def tables_def)
  have cp: "clone_page (sp_d B) t i j s' = ?s3" using clone_page_present [of s' t j "sp_d B" i] e(2) m k(2) s2(1) by simp
  have "pte ?s3 B2 l m = (if l = i \<and> m = j then child_entry e else pte s' B' l m)" if "user_slot l" "m < 512" for l m
    using B3(2) [OF that] pm(5) pm(6) [OF that] s2(3) [OF that] ce by auto
  then have "page_shared s A B' i j e k s' ?s3 B2 u"
    unfolding page_shared_def using s3(1) m3(2) A3 A1(2) B3(1) pm(1) pf(5,7) s2(4) rest ref3 rs2 unew ub by simp
  then show ?thesis unfolding cp by blast
qed

lemma page_sharedD:
  assumes "page_shared s A B' i j e k s' s3 B2 u"
  shows "frames_inv s3" "phys_pool_base s3 = phys_pool_base s" "space_ok s3 A" "space_ok s3 B2" "sp_d B2 = sp_d B'"
    "tables B2 = insert u (tables B')" "u \<notin> tables A" "used_slots B2 = insert i (used_slots B')"
    "user_slot l \<Longrightarrow> m < 512 \<Longrightarrow> pte s3 A l m = (if l = i \<and> m = j then cow_entry e else pte s' A l m)"
    "user_slot l \<Longrightarrow> m < 512 \<Longrightarrow> pte s3 B2 l m = (if l = i \<and> m = j then child_entry e else pte s' B' l m)"
    "frame_of a \<notin> tables A \<union> tables B2 \<Longrightarrow> pg_mem s3 a = pg_mem s' a"
    "n < 1024 \<Longrightarrow> ref s3 n = (if sp_t B' i = None \<and> u = fr s n then 1 else ref s' n) + (if n = k then 1 else 0)"
    "sp_t B' i = None \<Longrightarrow> \<exists>k' < 1024. u = fr s k' \<and> ref s' k' = 0" "sp_t B' i \<noteq> None \<Longrightarrow> u \<in> tables B'"
  using assms unfolding page_shared_def by blast+

lemma page_shared_free:
  assumes inv: "frames_inv s" and ps: "page_shared s A B' i j e k s' s3 B2 u" and i: "user_slot i" and k: "0 < ref s' k"
  shows "card (free_frames s') + card (used_slots B') \<le> card (free_frames s3) + card (used_slots B2)"
proof (cases "sp_t B' i = None")
  case True
  obtain k' where k': "k' < 1024" "u = fr s k'" "ref s' k' = 0" using page_sharedD(13) [OF ps True] by blast
  have inj: "fr s l = fr s k' \<longleftrightarrow> l = k'" if "l < 1024" for l using inv fr_inj [of s l k'] that k'(1) by (simp add: frames_inv_def)
  have "free_frames s' \<subseteq> insert k' (free_frames s3)"
  proof
    fix l assume l: "l \<in> free_frames s'"
    show "l \<in> insert k' (free_frames s3)" using l page_sharedD(12) [OF ps, of l] inj [of l] k'(2) k by (cases "l = k'") (auto simp: free_frames_def)
  qed
  then have "card (free_frames s') \<le> card (insert k' (free_frames s3))" by (rule card_mono [rotated]) (simp add: finite_sets)
  then have "card (free_frames s') \<le> Suc (card (free_frames s3))" using finite_sets(1) [of s3] by (simp add: card_insert_if split: if_splits)
  moreover have "card (used_slots B2) = Suc (card (used_slots B'))" using page_sharedD(8) [OF ps] True finite_sets(2) by (simp add: used_slots_def)
  ultimately show ?thesis by simp
next
  case False
  then have "free_frames s' \<subseteq> free_frames s3" "used_slots B2 = used_slots B'" using page_sharedD(8,12) [OF ps] k i by (auto simp: free_frames_def used_slots_def)
  then have "card (free_frames s') \<le> card (free_frames s3)" "used_slots B2 = used_slots B'" by (auto intro: card_mono finite_sets(1))
  then show ?thesis by simp
qed

lemma page_shared_fresh:
  assumes f: "forked s A B X s' B'" and ps: "page_shared s A B' i j e k s' s3 B2 u" and none: "sp_t B' i = None"
  shows "u \<notin> tables B'" "\<exists>k' < 1024. u = fr s k' \<and> ref s k' = 0"
proof -
  note d = forkedD [OF f]
  obtain k' where k': "k' < 1024" "u = fr s k'" "ref s' k' = 0" using page_sharedD(13) [OF ps none] by blast
  then have "\<not> live s' u" using live_fr [OF d(1) k'(1)] fr_base [OF d(2)] by simp
  then show "u \<notin> tables B'" using space_okD(2) [OF d(4)] by blast
  then show "\<exists>k' < 1024. u = fr s k' \<and> ref s k' = 0" using k' d(12) [OF k'(1)] by auto
qed

lemma forked_page:
  assumes ok: "fork_ok s A B" and f: "forked s A B X s' B'" and ij: "user_slot i" "j < 512" and t: "sp_t A i = Some t" and x: "(i, j) \<notin> X"
  shows "\<exists>B2. forked s A B (insert (i, j) X) (clone_page (sp_d B) t i j s') B2"
proof (cases "present (pte s A i j)")
  case False
  have "pte s' A i j = pte s A i j" using forkedD(9) [OF f ij] x by simp
  then have "clone_page (sp_d B) t i j s' = s'" using False t by (simp add: clone_page_def present_def pte_def)
  then show ?thesis using forked_same [OF f, of "insert (i, j) X"] False by (auto simp: user_pages_def)
next
  case True
  note d = forkedD [OF f]
  have e: "pte s' A i j = pte s A i j" using d(9) [OF ij] x by simp
  have up: "(i, j) \<in> user_pages s A" using True ij by (simp add: user_pages_def)
  obtain k where k: "k < 1024" "frame_at s A (i, j) = fr s k" "ref s' k = ref s k" "0 < ref s k" "ref s k < 255" "fr s k \<notin> tables A \<union> tables B'"
    "fr s k \<notin> frame_at s A ` (user_pages s A \<inter> X)" by (rule forked_frame [OF ok f up x])
  have k': "page_frame (pte s A i j) = fr s k" "0 < ref s' k" "ref s' k < 255" using k(2-5) by (simp_all add: frame_at_def)
  obtain s3 B2 u where s3: "clone_page (sp_d B) t i j s' = s3" and ps: "page_shared s A B' i j (pte s A i j) k s' s3 B2 u"
    using clone_page_step [OF ok f ij t e True k(1) k'] by blast
  note st = page_sharedD [OF ps] and fresh = page_shared_fresh [OF f ps]
  have inj: "fr s l = fr s m \<longleftrightarrow> l = m" if "l < 1024" "m < 1024" for l m using fork_okD(1) [OF ok] fr_inj [of s l m] that by (simp add: frames_inv_def)
  have img: "frame_at s A ` (user_pages s A \<inter> insert (i, j) X) = insert (fr s k) (frame_at s A ` (user_pages s A \<inter> X))" using up k(2) by auto
  have refs: "ref s3 l = ref s l + (if fr s l \<in> frame_at s A ` (user_pages s A \<inter> insert (i, j) X) then 1 else 0)"
    if l: "l < 1024" "fr s l \<notin> tables B2 - tables B" for l
  proof -
    have "\<not> (sp_t B' i = None \<and> u = fr s l)" "fr s l \<notin> tables B' - tables B" using l(2) st(6) fresh(1) d(7) by auto
    then show ?thesis using d(12) [OF l(1)] st(12) [OF l(1)] k(7) inj [OF l(1) k(1)] unfolding img by auto
  qed
  have new: "ref s3 l = 1" if l: "l < 1024" "fr s l \<in> tables B2 - tables B" for l
  proof (cases "sp_t B' i = None \<and> u = fr s l")
    case True
    then have "ref s' l = 0" using st(13) inj [OF _ l(1)] by metis
    then show ?thesis using True st(12) [OF l(1)] k'(2) by auto
  next
    case False
    then have "fr s l \<in> tables B' - tables B" using l(2) st(6,14) by auto
    then show ?thesis using False d(15) [OF l(1)] st(12) [OF l(1)] k(6) by auto
  qed
  have free: "card (free_frames s) \<le> card (free_frames s3) + card (used_slots B2)" using page_shared_free [OF fork_okD(1) [OF ok] ps ij(1) k'(2)] d(14) by simp
  have "forked s A B (insert (i, j) X) s3 B2"
    unfolding forked_def
  proof (intro conjI allI impI ballI)
    show "\<exists>k < 1024. f = fr s k \<and> ref s k = 0" if "f \<in> tables B2 - tables B" for f using that st(6,14) d(8) [of f] fresh by auto
    show "pte s3 A l m = (if (l, m) \<in> insert (i, j) X \<and> present (pte s A l m) then cow_entry (pte s A l m) else pte s A l m)"
      if "user_slot l \<and> m < 512" for l m using st(9) [of l m] d(9) [of l m] that True by auto
    show "pte s3 B2 l m = (if (l, m) \<in> insert (i, j) X \<and> present (pte s A l m) then child_entry (pte s A l m) else 0)"
      if "user_slot l \<and> m < 512" for l m using st(10) [of l m] d(10) [of l m] that True by auto
    show "pg_mem s3 a = pg_mem s a" if "frame_of a \<notin> tables A \<union> tables B2" for a using st(6) st(11) [of a] d(11) [of a] that by auto
    show "tables A \<inter> tables B2 = {}" "tables B \<subseteq> tables B2" using st(6,7) d(5,7) by auto
    show "used_slots B2 \<subseteq> used_slots A" using st(8) d(13) ij(1) t by (auto simp: used_slots_def)
    show "sp_d B2 = sp_d B" using st(5) d(6) by simp
  qed (use st(1-4) refs free new in blast)+
  then show ?thesis unfolding s3 by blast
qed

text \<open>The pages before slot \<open>i\<close>, and in slot \<open>i\<close> those before page \<open>j\<close>.\<close>

definition pages_before :: "nat \<Rightarrow> nat \<Rightarrow> (nat \<times> nat) set" where
  "pages_before i j = {(l, m). 64 \<le> l \<and> m < 512 \<and> (l < i \<or> l = i \<and> m < j)}"

lemma fold_upt_inv:
  assumes "P a s" "\<And>k s. a \<le> k \<Longrightarrow> k < b \<Longrightarrow> P k s \<Longrightarrow> P (Suc k) (f k s)" "a \<le> b"
  shows "P b (fold f [a..<b] s)"
  using assms(3,1,2)
proof (induction b rule: dec_induct)
  case (step n)
  then show ?case by (simp add: step.hyps)
qed simp

lemma forked_table:
  assumes ok: "fork_ok s A B" and f: "forked s A B (pages_before i 0) s' B'" and i: "user_slot i"
  shows "\<exists>B2. forked s A B (pages_before (Suc i) 0) (clone_table (sp_d B) (sp_q A) i s') B2"
proof -
  note d = forkedD [OF f]
  have full: "pages_before (Suc i) 0 = pages_before i 512" using i by (auto simp: pages_before_def user_slot_def)
  have sl: "slot_ok s' A i" using space_okD(3) [OF d(3) i] .
  show ?thesis
  proof (cases "sp_t A i")
    case None
    then have "clone_table (sp_d B) (sp_q A) i s' = s'" using sl by (simp add: clone_table_def is_table_def slot_ok_def page_flag_bits)
    moreover have "(i, m) \<notin> user_pages s A" for m using None by (simp add: user_pages_def pte_def present_def)
    then have "user_pages s A \<inter> pages_before (Suc i) 0 = user_pages s A \<inter> pages_before i 0"
      by (auto simp: pages_before_def less_Suc_eq)
    ultimately show ?thesis using forked_same [OF f] by metis
  next
    case (Some t)
    then have pt: "points_to (pg_mem s' (ent (sp_q A) i)) t" using sl by (simp add: slot_ok_def)
    have "\<exists>B2. forked s A B (pages_before i 512) (fold (clone_page (sp_d B) t i) [0..<512] s') B2"
    proof (rule fold_upt_inv [where P = "\<lambda>j u. \<exists>B2. forked s A B (pages_before i j) u B2"])
      show "\<exists>B2. forked s A B (pages_before i (Suc j)) (clone_page (sp_d B) t i j u) B2" if j: "0 \<le> j" "j < 512" and h: "\<exists>B2. forked s A B (pages_before i j) u B2" for j u
      proof -
        have "pages_before i (Suc j) = insert (i, j) (pages_before i j)" "(i, j) \<notin> pages_before i j" using i j by (auto simp: pages_before_def user_slot_def)
        then show ?thesis using h forked_page [OF ok _ i j(2) Some] by metis
      qed
    qed (use f in auto)
    moreover have "clone_table (sp_d B) (sp_q A) i s' = fold (clone_page (sp_d B) t i) [0..<512] s'"
      using points_toD(2,3) [OF pt] by (simp add: clone_table_def Let_def)
    ultimately show ?thesis unfolding full by simp
  qed
qed

lemma user_pd_space: "space_ok s A \<Longrightarrow> user_pd (sp_d A) s = sp_q A"
  using points_toD(3) [of "pg_mem s (ent (sp_d A) 0)" "sp_p A"] points_toD(3) [of "pg_mem s (ent (sp_p A) 0)" "sp_q A"]
  by (simp add: user_pd_def space_ok_def upper_def)

lemma fork_all_pages:
  assumes ok: "fork_ok s A B"
  obtains s' B' where "paging_clone_user_pages (sp_d B) (sp_d A) s = (0, s')" "forked s A B (user_pages s A) s' B'"
proof -
  have "\<exists>B2. forked s A B (pages_before 512 0) (fold (clone_table (sp_d B) (sp_q A)) [64..<512] s) B2"
  proof (rule fold_upt_inv [where P = "\<lambda>i u. \<exists>B2. forked s A B (pages_before i 0) u B2"])
    have "pages_before 64 0 = {}" by (auto simp: pages_before_def)
    then show "\<exists>B2. forked s A B (pages_before 64 0) s B2" using forked_start [OF ok] by auto
    show "\<exists>B2. forked s A B (pages_before (Suc i) 0) (clone_table (sp_d B) (sp_q A) i u) B2"
      if "64 \<le> i" "i < 512" "\<exists>B2. forked s A B (pages_before i 0) u B2" for i u
      using that forked_table [OF ok] by (auto simp: user_slot_def)
  qed simp
  then obtain B2 where f: "forked s A B (pages_before 512 0) (fold (clone_table (sp_d B) (sp_q A)) [64..<512] s) B2" by blast
  have "user_pages s A \<inter> user_pages s A = user_pages s A \<inter> pages_before 512 0" by (auto simp: user_pages_def pages_before_def user_slot_def)
  from forked_same [OF f this] that show thesis
    using user_pd_space [OF fork_okD(2) [OF ok]] by (simp add: paging_clone_user_pages_def)
qed

end
