(* ===== verification/Isolation.thy ===== *)
theory Isolation
  imports Address_Space
begin

text \<open>
  Parent and child after a fork behave as two processes with memories of their own. The processor's view of an
  address space is a partial function on user addresses; a write goes through the fault handler of the kernel when
  the page is shared. Two spaces stay apart under any sequence of writes of either process.
\<close>

unbundle bit_operations_syntax

section \<open>The view of a process\<close>

definition user_va :: "u64 \<Rightarrow> bool" where
  "user_va va \<longleftrightarrow> 0x8000000 \<le> va \<and> va < 0x40000000 \<and> unat va mod 8 = 0"

definition vslot :: "u64 \<Rightarrow> nat" where
  "vslot va = unat va div 2097152"

definition vpage :: "u64 \<Rightarrow> nat" where
  "vpage va = unat va div 4096 mod 512"

definition voff :: "u64 \<Rightarrow> nat" where
  "voff va = unat va mod 4096 div 8"

text \<open>The word at an address; \<open>None\<close> when the page is not present.\<close>

definition view :: "paging \<Rightarrow> u64 \<Rightarrow> u64 \<Rightarrow> u64 option" where
  "view s pml4 va = (case paging_get_pte pml4 va s of
     None \<Rightarrow> None
   | Some p \<Rightarrow> if present (pg_mem s p) then Some (pg_mem s (ent (page_frame (pg_mem s p)) (voff va))) else None)"

text \<open>A store: when the page is not writable the fault handler is tried first; \<open>None\<close> when it gives up.\<close>

definition user_write :: "u64 \<Rightarrow> u64 \<Rightarrow> u64 \<Rightarrow> paging \<Rightarrow> paging option" where
  "user_write pml4 va w s = (case paging_get_pte pml4 va s of
     None \<Rightarrow> None
   | Some p \<Rightarrow>
       if present (pg_mem s p) \<and> pg_mem s p AND PAGE_WRITABLE \<noteq> 0 then Some (put_word (ent (page_frame (pg_mem s p)) (voff va)) w s)
       else case paging_handle_cow_fault pml4 va s of (r, s1) \<Rightarrow>
         if r = 0 then Some (put_word (ent (page_frame (pg_mem s1 p)) (voff va)) w s1) else None)"

lemma vidx_nat: "vidx sh va = unat va div 2 ^ sh mod 512"
proof -
  have m: "(0x1FF :: u64) = mask 9" by (simp add: mask_numeral)
  show ?thesis unfolding vidx_def m by (simp add: take_bit_eq_mask [symmetric] unsigned_take_bit_eq take_bit_nat_def unat_drop_bit_eq drop_bit_nat_def)
qed

lemma user_vaD:
  assumes "user_va va"
  shows "user_slot (vslot va)" "vpage va < 512" "voff va < 512" "vidx 39 va = 0" "vidx 30 va = 0" "vidx 21 va = vslot va" "vidx 12 va = vpage va"
proof -
  have b: "134217728 \<le> unat va" "unat va < 1073741824" using assms by (simp_all add: user_va_def word_le_nat_alt word_less_nat_alt)
  show "user_slot (vslot va)" "vpage va < 512" "voff va < 512" using b by (auto simp: user_slot_def vslot_def vpage_def voff_def)
  show "vidx 39 va = 0" "vidx 30 va = 0" "vidx 21 va = vslot va" "vidx 12 va = vpage va" using b by (simp_all add: vidx_nat vslot_def vpage_def)
qed

lemma user_va_inj:
  assumes "user_va a" "user_va b" "vslot a = vslot b" "vpage a = vpage b" "voff a = voff b"
  shows "a = b"
proof -
  have "unat a = unat a div 2097152 * 2097152 + unat a div 4096 mod 512 * 4096 + unat a mod 4096 div 8 * 8" if "user_va a" for a
  proof -
    have "unat a mod 4096 mod 8 = 0" using that by (simp add: user_va_def mod_mod_cancel)
    then have "unat a mod 4096 = unat a mod 4096 div 8 * 8" using div_mult_mod_eq [of "unat a mod 4096" 8] by linarith
    moreover have "unat a div 4096 = unat a div 2097152 * 512 + unat a div 4096 mod 512"
      using div_mult_mod_eq [of "unat a div 4096" 512] by (simp add: div_mult2_eq [symmetric])
    moreover have "unat a = unat a div 4096 * 4096 + unat a mod 4096" by simp
    ultimately show ?thesis by linarith
  qed
  then have "unat a = unat b" using assms unfolding vslot_def vpage_def voff_def by metis
  then show ?thesis by (rule word_unat_eq_iff [THEN iffD2])
qed

lemma get_pte_space:
  assumes inv: "frames_inv s" and ok: "space_ok s A" and va: "user_va va"
  shows "paging_get_pte (sp_d A) va s = map_option (\<lambda>t. ent t (vpage va)) (sp_t A (vslot va))"
proof -
  note d = space_okD [OF ok] and v = user_vaD [OF va]
  have up: "points_to (pg_mem s (ent (sp_d A) 0)) (sp_p A)" "points_to (pg_mem s (ent (sp_p A) 0)) (sp_q A)" using d(1) by (simp_all add: upper_def)
  have nz: "sp_d A \<noteq> 0" using slot_table_frame(2) [OF inv ok d(5)] .
  have t2: "\<not> (pg_mem s (ent (sp_p A) 0) AND PAGE_PRESENT = 0 \<or> pg_mem s (ent (sp_p A) 0) AND PAGE_PS \<noteq> 0)" using points_toD(2) [OF up(2)] unfolding is_table_def .
  let ?e = "pg_mem s (ent (sp_q A) (vslot va))"
  have "paging_get_pte (sp_d A) va s = (if ?e AND PAGE_PRESENT = 0 \<or> ?e AND PAGE_PS \<noteq> 0 then None else Some (ent (?e AND PAGE_ADDR_MASK) (vpage va)))"
    unfolding paging_get_pte_def v(4-7) Let_def points_toD(3) [OF up(1)] points_toD(3) [OF up(2)] using nz points_toD(1) [OF up(1)] t2 by simp
  also have "\<dots> = map_option (\<lambda>t. ent t (vpage va)) (sp_t A (vslot va))"
  proof (cases "sp_t A (vslot va)")
    case None
    then show ?thesis using d(3) [OF v(1)] by (simp add: slot_ok_def page_flag_bits)
  next
    case (Some t)
    then have "points_to ?e t" using d(3) [OF v(1)] by (simp add: slot_ok_def)
    then show ?thesis using points_toD(2,3) [of ?e t] Some by (simp add: is_table_def)
  qed
  finally show ?thesis .
qed

lemma view_space:
  assumes "frames_inv s" "space_ok s A" "user_va va"
  shows "view s (sp_d A) va = (let e = pte s A (vslot va) (vpage va) in if present e then Some (pg_mem s (ent (page_frame e) (voff va))) else None)"
  unfolding view_def get_pte_space [OF assms] by (simp add: pte_def present_def split: option.splits)

section \<open>Two spaces that are apart\<close>

definition writable_at :: "paging \<Rightarrow> space \<Rightarrow> nat \<times> nat \<Rightarrow> bool" where
  "writable_at s A x \<longleftrightarrow> pte s A (fst x) (snd x) AND PAGE_WRITABLE \<noteq> 0"

text \<open>Every page of the space has a frame of its own, which is in use and no table.\<close>

definition own_pages :: "paging \<Rightarrow> space \<Rightarrow> u64 set \<Rightarrow> bool" where
  "own_pages s A T \<longleftrightarrow> (\<forall>x \<in> user_pages s A. frame_at s A x \<notin> T \<and> (\<exists>k < 1024. frame_at s A x = fr s k \<and> 0 < ref s k)) \<and> inj_on (frame_at s A) (user_pages s A)"

text \<open>A page of both spaces is writable in neither, and its frame is counted at least twice.\<close>

definition shared_ok :: "paging \<Rightarrow> space \<Rightarrow> space \<Rightarrow> bool" where
  "shared_ok s A B \<longleftrightarrow> (\<forall>x \<in> user_pages s A. \<forall>y \<in> user_pages s B. frame_at s A x = frame_at s B y
     \<longrightarrow> \<not> writable_at s A x \<and> \<not> writable_at s B y \<and> (\<exists>k < 1024. frame_at s A x = fr s k \<and> 2 \<le> ref s k))"

definition apart :: "paging \<Rightarrow> space \<Rightarrow> space \<Rightarrow> bool" where
  "apart s A B \<longleftrightarrow> frames_inv s \<and> space_ok s A \<and> space_ok s B \<and> tables A \<inter> tables B = {}
     \<and> own_pages s A (tables A \<union> tables B) \<and> own_pages s B (tables A \<union> tables B) \<and> shared_ok s A B"

lemma apart_sym: "apart s A B \<Longrightarrow> apart s B A"
  unfolding apart_def shared_ok_def by (metis Int_commute Un_commute)

lemma apartD:
  assumes "apart s A B"
  shows "frames_inv s" "space_ok s A" "space_ok s B" "tables A \<inter> tables B = {}"
    "x \<in> user_pages s A \<Longrightarrow> frame_at s A x \<notin> tables A \<union> tables B" "x \<in> user_pages s A \<Longrightarrow> \<exists>k < 1024. frame_at s A x = fr s k \<and> 0 < ref s k"
    "x \<in> user_pages s A \<Longrightarrow> y \<in> user_pages s A \<Longrightarrow> frame_at s A x = frame_at s A y \<Longrightarrow> x = y"
    "x \<in> user_pages s A \<Longrightarrow> y \<in> user_pages s B \<Longrightarrow> frame_at s A x = frame_at s B y \<Longrightarrow> \<not> writable_at s A x"
    "x \<in> user_pages s A \<Longrightarrow> y \<in> user_pages s B \<Longrightarrow> frame_at s A x = frame_at s B y \<Longrightarrow> \<exists>k < 1024. frame_at s A x = fr s k \<and> 2 \<le> ref s k"
  using assms unfolding apart_def own_pages_def shared_ok_def inj_on_def by blast+

text \<open>When the entries of two spaces, their tables and the counts of frames in use are the same, so is everything else.\<close>

lemma apart_cong:
  assumes "apart s A B" "frames_inv s'" "space_ok s' A" "space_ok s' B" "phys_pool_base s' = phys_pool_base s" "frame_refcount s' = frame_refcount s"
    and "\<And>i j. user_slot i \<Longrightarrow> j < 512 \<Longrightarrow> pte s' A i j = pte s A i j" "\<And>i j. user_slot i \<Longrightarrow> j < 512 \<Longrightarrow> pte s' B i j = pte s B i j"
  shows "apart s' A B"
proof -
  have p: "user_pages s' A = user_pages s A" "user_pages s' B = user_pages s B" using assms(7,8) by (auto simp: user_pages_def)
  have f: "\<And>x. x \<in> user_pages s A \<Longrightarrow> frame_at s' A x = frame_at s A x \<and> writable_at s' A x = writable_at s A x"
    "\<And>x. x \<in> user_pages s B \<Longrightarrow> frame_at s' B x = frame_at s B x \<and> writable_at s' B x = writable_at s B x"
    using assms(7,8) by (auto simp: frame_at_def writable_at_def user_pages_def)
  have r: "fr s' = fr s" "ref s' = ref s" using fr_base [OF assms(5)] assms(6) by (simp_all add: ref_def fun_eq_iff)
  have "own_pages s' A T = own_pages s A T" "own_pages s' B T = own_pages s B T" for T using f unfolding own_pages_def p r by (auto simp: inj_on_def)
  moreover have "shared_ok s' A B = shared_ok s A B" using f unfolding shared_ok_def p r by auto
  ultimately show ?thesis using assms(1-4) unfolding apart_def by simp
qed

text \<open>A store into a writable page of the first space.\<close>

lemma store_apart:
  assumes ap: "apart s A B" and va: "user_va va" and e: "present (pte s A (vslot va) (vpage va))" "pte s A (vslot va) (vpage va) AND PAGE_WRITABLE \<noteq> 0"
    and s'_def: "s' = put_word (ent (page_frame (pte s A (vslot va) (vpage va))) (voff va)) w s"
  shows "apart s' A B" "user_va a \<Longrightarrow> view s' (sp_d B) a = view s (sp_d B) a" "user_va a \<Longrightarrow> view s' (sp_d A) a = (if a = va then Some w else view s (sp_d A) a)"
    "user_slot i \<Longrightarrow> j < 512 \<Longrightarrow> pte s' A i j = pte s A i j" "user_slot i \<Longrightarrow> j < 512 \<Longrightarrow> pte s' B i j = pte s B i j"
proof -
  note d = apartD [OF ap] and dB = apartD [OF apart_sym [OF ap]] and v = user_vaD [OF va]
  let ?x = "(vslot va, vpage va)"
  have x: "?x \<in> user_pages s A" using v(1,2) e(1) by (simp add: user_pages_def)
  obtain f where f: "f = frame_at s A ?x" by simp
  have s': "s' = put_word (ent f (voff va)) w s" unfolding s'_def f by (simp add: frame_at_def)
  have fr: "live s f" "f \<notin> tables A \<union> tables B" using d(5,6) [OF x] by (auto simp: f live_def)
  have al: "aligned f" using live_frame(1) [OF d(1) fr(1)] .
  have keep: "pg_mem s' (ent g m) = pg_mem s (ent g m)" if "aligned g" "m < 512" "(g, m) \<noteq> (f, voff va)" for g m
    using that ent_inj [OF that(1) al that(2) v(3)] by (auto simp: s')
  have tab: "pg_mem s' (ent g m) = pg_mem s (ent g m)" if "g \<in> tables A \<union> tables B" "m < 512" for g m
    using that fr(2) keep slot_table_frame(1) [OF d(1) d(2)] slot_table_frame(1) [OF d(1) d(3)] by fastforce
  have l: "live s' g" if "live s g" for g using that by (simp add: s' live_def)
  have A: "space_ok s' A" "\<And>i j. user_slot i \<Longrightarrow> j < 512 \<Longrightarrow> pte s' A i j = pte s A i j"
    using space_cong [OF d(2), of s'] l space_okD(2) [OF d(2)] tab by (metis UnI1)+
  have B: "space_ok s' B" "\<And>i j. user_slot i \<Longrightarrow> j < 512 \<Longrightarrow> pte s' B i j = pte s B i j"
    using space_cong [OF d(3), of s'] l space_okD(2) [OF d(3)] tab by (metis UnI2)+
  have inv': "frames_inv s'" using d(1) by (simp add: s')
  show "user_slot i \<Longrightarrow> j < 512 \<Longrightarrow> pte s' A i j = pte s A i j" "user_slot i \<Longrightarrow> j < 512 \<Longrightarrow> pte s' B i j = pte s B i j" by (rule A(2), assumption+) (rule B(2))
  show "apart s' A B" by (rule apart_cong [OF ap inv' A(1) B(1)]) (simp_all add: s' A(2) [unfolded s'] B(2) [unfolded s'])
  show "view s' (sp_d B) a = view s (sp_d B) a" if a: "user_va a"
  proof -
    let ?y = "(vslot a, vpage a)"
    have "pg_mem s' (ent (frame_at s B ?y) (voff a)) = pg_mem s (ent (frame_at s B ?y) (voff a))" if y: "?y \<in> user_pages s B"
    proof (rule keep)
      show "aligned (frame_at s B ?y)" using dB(6) [OF y] live_frame(1) [OF d(1)] by (auto simp: live_def)
      have "frame_at s B ?y \<noteq> f" using d(8) [OF x y] e(2) by (auto simp: f writable_at_def)
      then show "(frame_at s B ?y, voff a) \<noteq> (f, voff va)" by simp
    qed (use user_vaD(3) [OF a] in simp)
    then show ?thesis using view_space [OF inv' B(1) a] view_space [OF d(1) d(3) a] B(2) user_vaD(1,2) [OF a]
      by (simp add: Let_def user_pages_def frame_at_def)
  qed
  show "view s' (sp_d A) a = (if a = va then Some w else view s (sp_d A) a)" if a: "user_va a"
  proof (cases "a = va")
    case True
    then show ?thesis using view_space [OF inv' A(1) va] A(2) [OF v(1,2)] e(1) f by (simp add: Let_def frame_at_def s')
  next
    case False
    let ?y = "(vslot a, vpage a)"
    have "pg_mem s' (ent (frame_at s A ?y) (voff a)) = pg_mem s (ent (frame_at s A ?y) (voff a))" if y: "?y \<in> user_pages s A"
    proof (rule keep)
      show "aligned (frame_at s A ?y)" using d(6) [OF y] live_frame(1) [OF d(1)] by (auto simp: live_def)
      show "(frame_at s A ?y, voff a) \<noteq> (f, voff va)" using d(7) [OF y x] user_va_inj [OF a va] False by (auto simp: f)
    qed (use user_vaD(3) [OF a] in simp)
    then show ?thesis using False view_space [OF inv' A(1) a] view_space [OF d(1) d(2) a] A(2) user_vaD(1,2) [OF a]
      by (simp add: Let_def user_pages_def frame_at_def)
  qed
qed

section \<open>Faults\<close>

text \<open>What a resolved fault leaves behind: the page is writable, in its old frame \<open>k\<close> if nobody shared it, else in a new frame \<open>n\<close>.\<close>

definition cow_resolved :: "paging \<Rightarrow> u64 \<Rightarrow> nat \<Rightarrow> nat \<Rightarrow> paging \<Rightarrow> bool" where
  "cow_resolved s p k n s1 \<longleftrightarrow> n < 1024 \<and> writable_page s1 p (fr s n) \<and> frames_inv s1 \<and> phys_pool_base s1 = phys_pool_base s
     \<and> (\<forall>i < 512. pg_mem s1 (ent (fr s n) i) = pg_mem s (ent (fr s k) i))
     \<and> (\<forall>a. a \<noteq> p \<and> (frame_of a \<noteq> fr s n \<or> n = k) \<longrightarrow> pg_mem s1 a = pg_mem s a)
     \<and> (\<forall>l < 1024. l \<noteq> k \<and> l \<noteq> n \<longrightarrow> ref s1 l = ref s l) \<and> 0 < ref s1 n
     \<and> (if n = k then ref s k = 1 \<and> ref s1 k = 1 else ref s n = 0 \<and> 2 \<le> ref s k \<and> ref s1 k = ref s k - 1 \<and> ref s1 n = 1)"

lemma no_free_frame: "frames_inv s \<Longrightarrow> \<forall>k < 1024. 0 < ref s k \<Longrightarrow> frame_alloc s = (0, s)"
  using frame_alloc_spec [of s "fst (frame_alloc s)" "snd (frame_alloc s)"] by (cases "frame_alloc s") auto

lemma cow_fault_resolves:
  assumes inv: "frames_inv s" and c: "cow_page s pml4 va p k t" and h: "paging_handle_cow_fault pml4 va s = (0, s1)"
  shows "\<exists>n. cow_resolved s p k n s1"
proof (cases "ref s k = 1")
  case True
  obtain s' where s': "paging_handle_cow_fault pml4 va s = (0, s')" "writable_page s' p (fr s k)"
    "\<And>a. a \<noteq> p \<Longrightarrow> pg_mem s' a = pg_mem s a" "frame_refcount s' = frame_refcount s" "frames_inv s'" "phys_pool_base s' = phys_pool_base s"
    by (rule cow_sole_owner [OF inv c True]) blast
  have "k < 1024" "k \<noteq> t" using c by (simp_all add: cow_page_def)
  then have "\<forall>i < 512. pg_mem s' (ent (fr s k) i) = pg_mem s (ent (fr s k) i)" using s'(3) cow_pageD(4) [OF inv c] by metis
  then have "cow_resolved s p k k s'" using s' True \<open>k < 1024\<close> by (simp add: cow_resolved_def ref_def)
  then show ?thesis using h s'(1) by auto
next
  case False
  have k: "0 < ref s k" "pg_mem s p AND PAGE_ADDR_MASK = fr s k" "k < 1024" using c by (simp_all add: cow_page_def)
  have "\<exists>j < 1024. ref s j = 0"
  proof (rule ccontr)
    assume "\<not> (\<exists>j < 1024. ref s j = 0)"
    then have "frame_alloc s = (0, s)" using no_free_frame [OF inv] by auto
    moreover have "frame_ref_get (fr s k) s \<noteq> 1" using False cow_pageD(3) [OF inv c] by (simp add: ref_def word_unat_eq_iff)
    ultimately show False using h c by (simp add: paging_handle_cow_fault_def cow_page_def Let_def)
  qed
  then obtain j where j: "j < 1024" "ref s j = 0" by blast
  obtain s' n where s': "paging_handle_cow_fault pml4 va s = (0, s')" "n < 1024" "ref s n = 0" "writable_page s' p (fr s n)"
    "\<forall>i < 512. pg_mem s' (ent (fr s n) i) = pg_mem s (ent (fr s k) i)" "\<And>a. a \<noteq> p \<Longrightarrow> frame_of a \<noteq> fr s n \<Longrightarrow> pg_mem s' a = pg_mem s a"
    "ref s' n = 1" "ref s' k = ref s k - 1" "frames_inv s'" "\<And>l. l < 1024 \<Longrightarrow> l \<noteq> n \<Longrightarrow> l \<noteq> k \<Longrightarrow> ref s' l = ref s l" "phys_pool_base s' = phys_pool_base s"
    by (rule cow_copy [OF inv c False j]) blast
  then have "n \<noteq> k" using k(1) by auto
  then have "cow_resolved s p k n s'" using s' False k(1) by (simp add: cow_resolved_def)
  then show ?thesis using h s'(1) by auto
qed

text \<open>A page of the space that is marked copy on write, and the page of a fault that the handler accepts.\<close>

lemma cow_page_space:
  assumes ap: "apart s A B" and va: "user_va va" and t: "sp_t A (vslot va) = Some t"
    and e: "present (pte s A (vslot va) (vpage va))" "pte s A (vslot va) (vpage va) AND PAGE_COW \<noteq> 0"
  obtains k m where "frame_at s A (vslot va, vpage va) = fr s k" "cow_page s (sp_d A) va (ent t (vpage va)) k m"
proof -
  note d = apartD [OF ap] and v = user_vaD [OF va]
  let ?p = "ent t (vpage va)"
  have nz: "sp_d A \<noteq> 0" using slot_table_frame(2) [OF d(1,2) space_okD(5) [OF d(2)]] .
  have g: "paging_get_pte (sp_d A) va s = Some ?p" "pg_mem s ?p = pte s A (vslot va) (vpage va)" using get_pte_space [OF d(1,2) va] t by (simp_all add: pte_def)
  have x: "(vslot va, vpage va) \<in> user_pages s A" using v(1,2) e(1) by (simp add: user_pages_def)
  obtain k where k: "k < 1024" "frame_at s A (vslot va, vpage va) = fr s k" "0 < ref s k" using d(6) [OF x] by blast
  have tt: "t \<in> tables A" using space_okD(8) [OF d(2) v(1) t] .
  obtain m where m: "m < 1024" "t = fr s m" "0 < ref s m" using space_okD(2) [OF d(2) tt] by (auto simp: live_def)
  have "m \<noteq> k" using d(5) [OF x] tt m(2) k(2) by auto
  moreover have "frame_of ?p = fr s m" using slot_table_frame(3) [OF d(1,2) tt v(2)] m(2) by simp
  moreover have "pg_mem s ?p AND PAGE_ADDR_MASK = fr s k" using k(2) g(2) by (simp add: frame_at_def page_frame_def)
  ultimately have "cow_page s (sp_d A) va ?p k m" using nz g e k(1,3) m(1,3) by (simp add: cow_page_def present_def)
  then show thesis using that k(2) by blast
qed

lemma cow_fault_page:
  assumes ap: "apart s A B" and va: "user_va va" and h: "paging_handle_cow_fault (sp_d A) va s = (0, s1)"
  obtains t k m where "sp_t A (vslot va) = Some t" "present (pte s A (vslot va) (vpage va))" "frame_at s A (vslot va, vpage va) = fr s k"
    "cow_page s (sp_d A) va (ent t (vpage va)) k m"
proof -
  note d = apartD [OF ap]
  have nz: "sp_d A \<noteq> 0" using slot_table_frame(2) [OF d(1,2) space_okD(5) [OF d(2)]] .
  obtain t where t: "sp_t A (vslot va) = Some t"
    using h nz get_pte_space [OF d(1,2) va] by (cases "sp_t A (vslot va)") (simp_all add: paging_handle_cow_fault_def)
  have e: "present (pte s A (vslot va) (vpage va))" "pte s A (vslot va) (vpage va) AND PAGE_COW \<noteq> 0"
    using h nz get_pte_space [OF d(1,2) va] t by (auto simp: paging_handle_cow_fault_def Let_def present_def pte_def split: if_splits)
  show thesis using cow_page_space [OF ap va t e] that [OF t e(1)] by blast
qed

lemma write_succeeds:
  assumes ap: "apart s A B" and va: "user_va va" and e: "present (pte s A (vslot va) (vpage va))" "pte s A (vslot va) (vpage va) AND PAGE_COW \<noteq> 0"
    and free: "j < 1024" "ref s j = 0"
  shows "user_write (sp_d A) va w s \<noteq> None"
proof -
  note d = apartD [OF ap]
  obtain t where t: "sp_t A (vslot va) = Some t" using e(1) by (cases "sp_t A (vslot va)") (simp_all add: pte_def present_def)
  obtain k m where c: "cow_page s (sp_d A) va (ent t (vpage va)) k m" using cow_page_space [OF ap va t e] by blast
  have "\<exists>s1. paging_handle_cow_fault (sp_d A) va s = (0, s1)"
  proof (cases "ref s k = 1")
    case True
    then show ?thesis using cow_sole_owner [OF d(1) c] by blast
  next
    case False
    show ?thesis by (rule cow_copy [OF d(1) c False free]) blast
  qed
  then show ?thesis using get_pte_space [OF d(1,2) va] t by (auto simp: user_write_def)
qed

text \<open>A resolved fault keeps both spaces apart and changes neither view.\<close>

lemma cow_resolved_tables:
  assumes ap: "apart s A B" and x: "user_slot i" "j < 512" "present (pte s A i j)" and t: "sp_t A i = Some t" and k: "frame_at s A (i, j) = fr s k" "k < 1024"
    and r: "cow_resolved s (ent t j) k n s1"
  shows "space_ok s1 A" "space_ok s1 B" "user_slot l \<Longrightarrow> m < 512 \<Longrightarrow> pte s1 A l m = (if l = i \<and> m = j then pg_mem s1 (ent t j) else pte s A l m)"
    "user_slot l \<Longrightarrow> m < 512 \<Longrightarrow> pte s1 B l m = pte s B l m"
proof -
  note d = apartD [OF ap]
  have n: "n < 1024" and rr: "\<And>a. a \<noteq> ent t j \<Longrightarrow> frame_of a \<noteq> fr s n \<or> n = k \<Longrightarrow> pg_mem s1 a = pg_mem s a" "\<And>l. l < 1024 \<Longrightarrow> l \<noteq> k \<Longrightarrow> l \<noteq> n \<Longrightarrow> ref s1 l = ref s l"
    "n \<noteq> k \<Longrightarrow> ref s n = 0" "phys_pool_base s1 = phys_pool_base s" using r unfolding cow_resolved_def by (auto split: if_splits)
  have tt: "t \<in> tables A" using space_okD(8) [OF d(2) x(1) t] .
  have nt: "fr s k \<notin> tables A \<union> tables B" using d(5) [of "(i, j)"] x k(1) by (simp add: user_pages_def)
  have ts: "f \<noteq> fr s n \<or> n = k" if "f \<in> tables A \<union> tables B" for f
    using that rr(3) live_fr [OF d(1) n] space_okD(2) [OF d(2)] space_okD(2) [OF d(3)] by (metis UnE less_irrefl)
  have live: "live s1 f" if f: "f \<in> tables A \<union> tables B" for f
  proof -
    have "live s f" using f space_okD(2) [OF d(2)] space_okD(2) [OF d(3)] by blast
    then obtain l where l: "l < 1024" "f = fr s l" "0 < ref s l" by (auto simp: live_def)
    have "l \<noteq> k" "l \<noteq> n" using f l(2,3) nt ts [OF f] by auto
    then show ?thesis using rr(2) [OF l(1)] l fr_base [OF rr(4)] unfolding live_def by (intro exI [of _ l]) simp
  qed
  have al: "aligned f" "m < 512 \<Longrightarrow> frame_of (ent f m) = f" if "f \<in> tables A \<union> tables B" for f m
    using that slot_table_frame [OF d(1,2)] slot_table_frame [OF d(1,3)] by blast+
  have mem: "pg_mem s1 (ent f m) = pg_mem s (ent f m)" if "f \<in> tables A \<union> tables B" "m < 512" "(f, m) \<noteq> (t, j)" for f m
    using rr(1) [of "ent f m"] ent_inj [OF al(1) [OF that(1)] al(1) [of t] that(2) x(2)] tt that(3) al(2) [OF that(1,2)] ts [OF that(1)] by auto
  show "space_ok s1 B" "user_slot l \<Longrightarrow> m < 512 \<Longrightarrow> pte s1 B l m = pte s B l m"
    using space_cong [OF d(3), of s1] live mem tt d(4) by (metis UnI2 disjoint_iff prod.inject)+
  let ?s = "put_word (ent t j) (pg_mem s1 (ent t j)) s"
  note p = put_entry_space [OF d(1,2) x(1,2) t, where v = "pg_mem s1 (ent t j)"]
  have "pg_mem s1 (ent f m) = pg_mem ?s (ent f m)" if "f \<in> tables A" "m < 512" for f m using mem [of f m] that by auto
  from space_cong [OF p(1) _ this] show "space_ok s1 A" "user_slot l \<Longrightarrow> m < 512 \<Longrightarrow> pte s1 A l m = (if l = i \<and> m = j then pg_mem s1 (ent t j) else pte s A l m)"
    using live p(2) by (metis UnI1)+
qed

lemma cow_resolvedD:
  assumes "cow_resolved s p k n s1"
  shows "n < 1024" "writable_page s1 p (fr s n)" "frames_inv s1" "phys_pool_base s1 = phys_pool_base s"
    "i < 512 \<Longrightarrow> pg_mem s1 (ent (fr s n) i) = pg_mem s (ent (fr s k) i)" "a \<noteq> p \<Longrightarrow> frame_of a \<noteq> fr s n \<or> n = k \<Longrightarrow> pg_mem s1 a = pg_mem s a"
    "l < 1024 \<Longrightarrow> l \<noteq> k \<Longrightarrow> l \<noteq> n \<Longrightarrow> ref s1 l = ref s l" "0 < ref s1 n" "n = k \<Longrightarrow> ref s k = 1"
    "n \<noteq> k \<Longrightarrow> ref s n = 0" "n \<noteq> k \<Longrightarrow> 2 \<le> ref s k" "n \<noteq> k \<Longrightarrow> 0 < ref s1 k"
    "n = k \<Longrightarrow> ref s1 k = 1" "n \<noteq> k \<Longrightarrow> ref s1 k = ref s k - 1" "n \<noteq> k \<Longrightarrow> ref s1 n = 1"
  using assms unfolding cow_resolved_def by (auto split: if_splits)

text \<open>The pages after the fault: those of before, one of them in another frame.\<close>

lemma cow_resolved_pages:
  assumes ap: "apart s A B" and x: "user_slot i" "j < 512" "present (pte s A i j)" and t: "sp_t A i = Some t" and k: "frame_at s A (i, j) = fr s k" "k < 1024"
    and r: "cow_resolved s (ent t j) k n s1"
  shows "user_pages s1 A = user_pages s A" "user_pages s1 B = user_pages s B" "frame_at s1 A (i, j) = fr s n" "writable_at s1 A (i, j)"
    "y \<in> user_pages s A \<Longrightarrow> y \<noteq> (i, j) \<Longrightarrow> frame_at s1 A y = frame_at s A y \<and> writable_at s1 A y = writable_at s A y"
    "y \<in> user_pages s B \<Longrightarrow> frame_at s1 B y = frame_at s B y \<and> writable_at s1 B y = writable_at s B y"
proof -
  note st = cow_resolved_tables [OF ap x t k r] and w = cow_resolvedD(2) [OF r]
  have e1: "pte s1 A i j = pg_mem s1 (ent t j)" using st(3) [OF x(1,2)] by simp
  have pe: "present (pte s1 A i j)" "page_frame (pte s1 A i j) = fr s n" using w e1 by (simp_all add: writable_page_def present_def page_frame_def)
  show "user_pages s1 A = user_pages s A" using st(3) pe(1) x(3) e1 by (auto simp: user_pages_def split: if_splits)
  show "user_pages s1 B = user_pages s B" using st(4) by (auto simp: user_pages_def)
  show "frame_at s1 A (i, j) = fr s n" "writable_at s1 A (i, j)" using pe(2) w e1 by (simp_all add: frame_at_def writable_page_def writable_at_def)
  show "y \<in> user_pages s A \<Longrightarrow> y \<noteq> (i, j) \<Longrightarrow> frame_at s1 A y = frame_at s A y \<and> writable_at s1 A y = writable_at s A y"
    using st(3) by (cases y) (auto simp: user_pages_def frame_at_def writable_at_def)
  show "y \<in> user_pages s B \<Longrightarrow> frame_at s1 B y = frame_at s B y \<and> writable_at s1 B y = writable_at s B y"
    using st(4) by (cases y) (auto simp: user_pages_def frame_at_def writable_at_def)
qed

text \<open>The frame of the page is now used by nothing else.\<close>

lemma cow_resolved_exclusive:
  assumes ap: "apart s A B" and x: "(i, j) \<in> user_pages s A" and k: "frame_at s A (i, j) = fr s k" "k < 1024" and r: "cow_resolved s p k n s1"
  shows "y \<in> user_pages s A \<Longrightarrow> y \<noteq> (i, j) \<Longrightarrow> frame_at s A y \<noteq> fr s k \<and> frame_at s A y \<noteq> fr s n" "z \<in> user_pages s B \<Longrightarrow> frame_at s B z \<noteq> fr s n"
    "fr s n \<notin> tables A \<union> tables B" "l < 1024 \<Longrightarrow> 0 < ref s l \<Longrightarrow> 0 < ref s1 l"
proof -
  note d = apartD [OF ap] and dB = apartD [OF apart_sym [OF ap]] and rD = cow_resolvedD [OF r]
  have inj: "fr s l = fr s m \<longleftrightarrow> l = m" if "l < 1024" "m < 1024" for l m using d(1) fr_inj [of s l m] that by (simp add: frames_inv_def)
  have used: "f \<noteq> fr s n \<or> n = k" if "\<exists>l < 1024. f = fr s l \<and> 0 < ref s l" for f using that inj rD(1,10) by (metis less_irrefl)
  show "frame_at s A y \<noteq> fr s k \<and> frame_at s A y \<noteq> fr s n" if y: "y \<in> user_pages s A" "y \<noteq> (i, j)"
    using d(7) [OF y(1) x] y(2) k(1) used [OF d(6) [OF y(1)]] by auto
  show "frame_at s B z \<noteq> fr s n" if z: "z \<in> user_pages s B"
  proof (cases "n = k")
    case True
    then show ?thesis using d(9) [OF x z] k inj rD(9) by (metis One_nat_def Suc_1 Suc_n_not_le_n)
  qed (use used [OF dB(6) [OF z]] in simp)
  show "fr s n \<notin> tables A \<union> tables B"
  proof (cases "n = k")
    case False
    then show ?thesis using rD(10) live_fr [OF d(1) rD(1)] space_okD(2) [OF d(2)] space_okD(2) [OF d(3)] by auto
  qed (use d(5) [OF x] k(1) in simp)
  show "0 < ref s1 l" if "l < 1024" "0 < ref s l" using rD(7) [of l] rD(8,10,12) that by (cases "l = k"; cases "l = n") auto
qed

lemma cow_resolved_apart:
  assumes ap: "apart s A B" and x: "user_slot i" "j < 512" "present (pte s A i j)" and t: "sp_t A i = Some t" and k: "frame_at s A (i, j) = fr s k" "k < 1024"
    and r: "cow_resolved s (ent t j) k n s1"
  shows "apart s1 A B"
proof -
  have xs: "(i, j) \<in> user_pages s A" using x by (simp add: user_pages_def)
  note d = apartD [OF ap] and dB = apartD [OF apart_sym [OF ap]] and st = cow_resolved_tables [OF ap x t k r]
    and pg = cow_resolved_pages [OF ap x t k r] and ex = cow_resolved_exclusive [OF ap xs k r] and rD = cow_resolvedD [OF r]
  have fr1: "fr s1 = fr s" using fr_base [OF rD(4)] .
  have ownA: "own_pages s1 A (tables A \<union> tables B)"
    unfolding own_pages_def pg(1) fr1
  proof (intro conjI ballI inj_onI)
    show "frame_at s1 A y \<notin> tables A \<union> tables B" if y: "y \<in> user_pages s A" for y using pg(3) pg(5) [OF y] ex(3) d(5) [OF y] by (cases "y = (i, j)") auto
    show "\<exists>k < 1024. frame_at s1 A y = fr s k \<and> 0 < ref s1 k" if y: "y \<in> user_pages s A" for y
      using pg(3) pg(5) [OF y] d(6) [OF y] ex(4) rD(1,8) by (cases "y = (i, j)") auto
    show "y = z" if "y \<in> user_pages s A" "z \<in> user_pages s A" "frame_at s1 A y = frame_at s1 A z" for y z
      using that pg(3) pg(5) [OF that(1)] pg(5) [OF that(2)] ex(1) [OF that(1)] ex(1) [OF that(2)] d(7) by metis
  qed
  have ownB: "own_pages s1 B (tables A \<union> tables B)"
    unfolding own_pages_def pg(2) fr1
  proof (intro conjI ballI inj_onI)
    show "frame_at s1 B y \<notin> tables A \<union> tables B" if y: "y \<in> user_pages s B" for y using pg(6) [OF y] dB(5) [OF y] by auto
    show "\<exists>k < 1024. frame_at s1 B y = fr s k \<and> 0 < ref s1 k" if y: "y \<in> user_pages s B" for y using pg(6) [OF y] dB(6) [OF y] ex(4) by auto
    show "y = z" if "y \<in> user_pages s B" "z \<in> user_pages s B" "frame_at s1 B y = frame_at s1 B z" for y z using that pg(6) dB(7) by metis
  qed
  have "shared_ok s1 A B"
    unfolding shared_ok_def pg(1,2) fr1
  proof (intro ballI impI)
    fix y z assume y: "y \<in> user_pages s A" and z: "z \<in> user_pages s B" and eq: "frame_at s1 A y = frame_at s1 B z"
    have ne: "y \<noteq> (i, j)" using eq pg(3) pg(6) [OF z] ex(2) [OF z] by auto
    then have eq': "frame_at s A y = frame_at s B z" using eq pg(5) [OF y ne] pg(6) [OF z] by simp
    obtain l where l: "l < 1024" "frame_at s A y = fr s l" "2 \<le> ref s l" using d(9) [OF y z eq'] by blast
    have "ref s1 l = ref s l" using rD(7) [OF l(1)] ex(1) [OF y ne] l(2) by auto
    then show "\<not> writable_at s1 A y \<and> \<not> writable_at s1 B z \<and> (\<exists>k < 1024. frame_at s1 A y = fr s k \<and> 2 \<le> ref s1 k)"
      using d(8) [OF y z eq'] dB(8) [OF z y eq' [symmetric]] pg(5) [OF y ne] pg(6) [OF z] l by auto
  qed
  then show ?thesis using rD(3) st(1,2) d(4) ownA ownB unfolding apart_def by blast
qed

lemma cow_resolved_view:
  assumes ap: "apart s A B" and x: "user_slot i" "j < 512" "present (pte s A i j)" and t: "sp_t A i = Some t" and k: "frame_at s A (i, j) = fr s k" "k < 1024"
    and r: "cow_resolved s (ent t j) k n s1" and a: "user_va a"
  shows "view s1 (sp_d A) a = view s (sp_d A) a" "view s1 (sp_d B) a = view s (sp_d B) a"
proof -
  have xs: "(i, j) \<in> user_pages s A" using x by (simp add: user_pages_def)
  note d = apartD [OF ap] and dB = apartD [OF apart_sym [OF ap]] and st = cow_resolved_tables [OF ap x t k r]
    and pg = cow_resolved_pages [OF ap x t k r] and ex = cow_resolved_exclusive [OF ap xs k r] and rD = cow_resolvedD [OF r] and v = user_vaD [OF a]
  let ?y = "(vslot a, vpage a)"
  have tt: "t \<in> tables A" "frame_of (ent t j) = t" using space_okD(8) [OF d(2) x(1) t] slot_table_frame(3) [OF d(1,2) _ x(2)] by blast+
  have keep: "pg_mem s1 (ent g (voff a)) = pg_mem s (ent g (voff a))" if g: "live s g" "g \<notin> tables A \<union> tables B" "g \<noteq> fr s n" for g
  proof -
    have "frame_of (ent g (voff a)) = g" using frame_of_ent [OF live_frame(1) [OF d(1) g(1)] v(3)] .
    then show ?thesis using rD(6) [of "ent g (voff a)"] g(2,3) tt by (metis UnI1)
  qed
  have "pg_mem s1 (ent (frame_at s1 B ?y) (voff a)) = pg_mem s (ent (frame_at s B ?y) (voff a))" if y: "?y \<in> user_pages s B"
    using keep [of "frame_at s B ?y"] dB(5,6) [OF y] ex(2) [OF y] pg(6) [OF y] by (auto simp: live_def)
  moreover have "present (pte s1 B (vslot a) (vpage a)) \<longleftrightarrow> ?y \<in> user_pages s B" using pg(2) v(1,2) by (auto simp: user_pages_def)
  ultimately show "view s1 (sp_d B) a = view s (sp_d B) a"
    using view_space [OF rD(3) st(2) a] view_space [OF d(1,3) a] st(4) [OF v(1,2)] by (auto simp: Let_def user_pages_def frame_at_def)
  have "pg_mem s1 (ent (frame_at s1 A ?y) (voff a)) = pg_mem s (ent (frame_at s A ?y) (voff a))" if y: "?y \<in> user_pages s A"
  proof (cases "?y = (i, j)")
    case True
    then show ?thesis using pg(3) k(1) rD(5) [OF v(3)] by simp
  next
    case False
    then show ?thesis using keep [of "frame_at s A ?y"] d(5,6) [OF y] ex(1) [OF y] pg(5) [OF y] by (auto simp: live_def)
  qed
  moreover have "present (pte s1 A (vslot a) (vpage a)) \<longleftrightarrow> ?y \<in> user_pages s A" "present (pte s A (vslot a) (vpage a)) \<longleftrightarrow> ?y \<in> user_pages s A"
    using pg(1) v(1,2) by (auto simp: user_pages_def)
  ultimately show "view s1 (sp_d A) a = view s (sp_d A) a"
    using view_space [OF rD(3) st(1) a] view_space [OF d(1,2) a] by (simp add: Let_def frame_at_def)
qed

text \<open>A write goes into a page that is writable, or into the page that the fault handler made writable.\<close>

lemma write_cases:
  assumes ap: "apart s A B" and va: "user_va va" and w: "user_write (sp_d A) va w s = Some s'"
  obtains (direct) "present (pte s A (vslot va) (vpage va))" "pte s A (vslot va) (vpage va) AND PAGE_WRITABLE \<noteq> 0"
      "s' = put_word (ent (page_frame (pte s A (vslot va) (vpage va))) (voff va)) w s"
  | (fault) t k n s1 where "present (pte s A (vslot va) (vpage va))" "sp_t A (vslot va) = Some t" "frame_at s A (vslot va, vpage va) = fr s k" "k < 1024"
      "cow_resolved s (ent t (vpage va)) k n s1" "present (pte s1 A (vslot va) (vpage va))" "pte s1 A (vslot va) (vpage va) AND PAGE_WRITABLE \<noteq> 0"
      "s' = put_word (ent (page_frame (pte s1 A (vslot va) (vpage va))) (voff va)) w s1"
proof -
  note d = apartD [OF ap]
  let ?i = "vslot va" and ?j = "vpage va"
  obtain t where t: "sp_t A ?i = Some t" using w get_pte_space [OF d(1,2) va] by (cases "sp_t A ?i") (simp_all add: user_write_def)
  have g: "paging_get_pte (sp_d A) va s = Some (ent t ?j)" "pg_mem s (ent t ?j) = pte s A ?i ?j" using get_pte_space [OF d(1,2) va] t by (simp_all add: pte_def)
  show thesis
  proof (cases "present (pte s A ?i ?j) \<and> pte s A ?i ?j AND PAGE_WRITABLE \<noteq> 0")
    case True
    then have "s' = put_word (ent (page_frame (pte s A ?i ?j)) (voff va)) w s" using w g by (simp add: user_write_def)
    then show thesis using True direct by blast
  next
    case False
    obtain r s1 where h: "paging_handle_cow_fault (sp_d A) va s = (r, s1)" by fastforce
    have r0: "r = 0" and s': "s' = put_word (ent (page_frame (pg_mem s1 (ent t ?j))) (voff va)) w s1"
      using w g False h by (auto simp: user_write_def split: if_splits)
    obtain t' k m where c: "sp_t A ?i = Some t'" "present (pte s A ?i ?j)" "frame_at s A (?i, ?j) = fr s k" "cow_page s (sp_d A) va (ent t' ?j) k m"
      using cow_fault_page [OF ap va h [unfolded r0]] by blast
    have k: "k < 1024" "t' = t" using c(1,4) t by (simp_all add: cow_page_def)
    obtain n where rs: "cow_resolved s (ent t ?j) k n s1" using cow_fault_resolves [OF d(1) c(4) h [unfolded r0]] k(2) by blast
    have e: "pte s1 A ?i ?j = pg_mem s1 (ent t ?j)" using t by (simp add: pte_def)
    have "present (pte s1 A ?i ?j)" "pte s1 A ?i ?j AND PAGE_WRITABLE \<noteq> 0" using cow_resolvedD(2) [OF rs] by (simp_all add: e writable_page_def present_def)
    then show thesis using fault [OF c(2) t c(3) k(1) rs _ _ s' [folded e]] by blast
  qed
qed

lemma write_effect:
  assumes ap: "apart s A B" and va: "user_va va" and w: "user_write (sp_d A) va w s = Some s'"
  shows "apart s' A B \<and> (user_va a \<longrightarrow> view s' (sp_d B) a = view s (sp_d B) a) \<and> (user_va a \<longrightarrow> view s' (sp_d A) a = (if a = va then Some w else view s (sp_d A) a))"
  using ap va w
proof (cases rule: write_cases)
  case direct
  show ?thesis using store_apart [OF ap va direct] by blast
next
  case (fault t k n s1)
  note v = user_vaD [OF va]
  note ap1 = cow_resolved_apart [OF ap v(1,2) fault(1-5)] and vw = cow_resolved_view [OF ap v(1,2) fault(1-5)]
  show ?thesis using store_apart [OF ap1 va fault(6-8)] vw by auto
qed

text \<open>One write of the first process: its own view changes at this address only, the other view does not change.\<close>

lemma write_apart:
  assumes "apart s A B" "user_va va" "user_write (sp_d A) va w s = Some s'"
  shows "apart s' A B" "user_va a \<Longrightarrow> view s' (sp_d B) a = view s (sp_d B) a" "user_va a \<Longrightarrow> view s' (sp_d A) a = (if a = va then Some w else view s (sp_d A) a)"
  using write_effect [OF assms] by blast+

section \<open>Fork\<close>

lemma bit_child_entry: "bit (child_entry e) n \<longleftrightarrow> n < 48 \<and> bit (cow_entry e) n"
  unfolding child_entry_def page_frame_def bit_or_iff bit_and_iff bit_masks by auto

lemma child_entry_facts: "page_frame (child_entry e) = page_frame e" "present (child_entry e) \<longleftrightarrow> present e" "child_entry e AND PAGE_WRITABLE = 0" "cow_entry e AND PAGE_WRITABLE = 0"
proof -
  note b = bit_child_entry
  show "page_frame (child_entry e) = page_frame e" unfolding cow_entry_facts(1) [symmetric, of e]
    unfolding page_frame_def by (rule bit_word_eqI) (auto simp only: bit_and_iff bit_masks b)
  show "present (child_entry e) \<longleftrightarrow> present e" unfolding cow_entry_facts(2) [symmetric, of e] unfolding present_def page_flag_bits b by simp
  show "child_entry e AND PAGE_WRITABLE = 0" "cow_entry e AND PAGE_WRITABLE = 0" unfolding page_flag_bits b bit_cow_entry by simp_all
qed

lemma forked_apart:
  assumes ok: "fork_ok s A B" and f: "forked s A B (user_pages s A) s' B'"
  shows "apart s' A B'"
proof -
  note o = fork_okD [OF ok] and d = forkedD [OF f]
  have pA: "present (pte s' A i j) \<longleftrightarrow> (i, j) \<in> user_pages s A" "(i, j) \<in> user_pages s A \<Longrightarrow> pte s' A i j = cow_entry (pte s A i j)" if "user_slot i" "j < 512" for i j
    using d(9) [OF that] that cow_entry_facts(2) by (auto simp: user_pages_def)
  have pB: "present (pte s' B' i j) \<longleftrightarrow> (i, j) \<in> user_pages s A" "(i, j) \<in> user_pages s A \<Longrightarrow> pte s' B' i j = child_entry (pte s A i j)" if "user_slot i" "j < 512" for i j
    using d(10) [OF that] that child_entry_facts(2) by (auto simp: user_pages_def present_def)
  have pages: "user_pages s' A = user_pages s A" "user_pages s' B' = user_pages s A" using pA(1) pB(1) by (auto simp: user_pages_def)
  have at: "frame_at s' A x = frame_at s A x" "frame_at s' B' x = frame_at s A x" "\<not> writable_at s' A x" "\<not> writable_at s' B' x" if "x \<in> user_pages s A" for x
    using that pA(2) [of "fst x" "snd x"] pB(2) [of "fst x" "snd x"] cow_entry_facts(1) child_entry_facts
    by (auto simp: user_pages_def frame_at_def writable_at_def)
  have fr1: "fr s' = fr s" using fr_base [OF d(2)] .
  have cnt: "\<exists>k < 1024. frame_at s A x = fr s k \<and> 2 \<le> ref s' k" "frame_at s A x \<notin> tables A \<union> tables B'" if x: "x \<in> user_pages s A" for x
  proof -
    obtain k where k: "k < 1024" "frame_at s A x = fr s k" "0 < ref s k" using o(7) [OF x] by blast
    have "fr s k \<notin> tables B' - tables B" using d(8) [of "fr s k"] k(1,3) live_fr [OF o(1)] by (metis less_irrefl)
    moreover have "fr s k \<in> frame_at s A ` (user_pages s A \<inter> user_pages s A)" using x k(2) by (metis Int_absorb imageI)
    ultimately have "2 \<le> ref s' k" using d(12) [OF k(1)] k(3) by simp
    then show "\<exists>k < 1024. frame_at s A x = fr s k \<and> 2 \<le> ref s' k" using k(1,2) by blast
    show "frame_at s A x \<notin> tables A \<union> tables B'" using \<open>fr s k \<notin> tables B' - tables B\<close> o(6) [OF x] k(2) by auto
  qed
  have cnt1: "\<exists>k < 1024. frame_at s A x = fr s k \<and> 0 < ref s' k" if "x \<in> user_pages s A" for x using cnt(1) [OF that] by (metis zero_less_numeral less_le_trans)
  have "own_pages s' A (tables A \<union> tables B')" "own_pages s' B' (tables A \<union> tables B')"
    unfolding own_pages_def pages fr1 using at cnt(2) cnt1 o(8) by (simp_all add: inj_on_def)
  moreover have "shared_ok s' A B'" unfolding shared_ok_def pages fr1 using at cnt(1) by simp
  ultimately show ?thesis using d(1,3,4,5) unfolding apart_def by blast
qed

text \<open>Writes of parent (\<open>True\<close>) and child (\<open>False\<close>) in some order, and what they would do to two separate memories.\<close>

fun write_all :: "u64 \<Rightarrow> u64 \<Rightarrow> (bool \<times> u64 \<times> u64) list \<Rightarrow> paging \<Rightarrow> paging option" where
  "write_all d e [] s = Some s"
| "write_all d e ((who, va, w) # ws) s = (case user_write (if who then d else e) va w s of None \<Rightarrow> None | Some s1 \<Rightarrow> write_all d e ws s1)"

fun two_memories :: "(bool \<times> u64 \<times> u64) list \<Rightarrow> (u64 \<Rightarrow> u64 option) \<times> (u64 \<Rightarrow> u64 option) \<Rightarrow> (u64 \<Rightarrow> u64 option) \<times> (u64 \<Rightarrow> u64 option)" where
  "two_memories [] mn = mn"
| "two_memories ((who, va, w) # ws) (m, n) = two_memories ws (if who then (m(va \<mapsto> w), n) else (m, n(va \<mapsto> w)))"

lemma writes_refine:
  assumes "apart s A B" "\<forall>x \<in> set ws. user_va (fst (snd x))" "write_all (sp_d A) (sp_d B) ws s = Some s'"
    and "\<And>a. user_va a \<Longrightarrow> view s (sp_d A) a = m a" "\<And>a. user_va a \<Longrightarrow> view s (sp_d B) a = n a"
  shows "\<forall>a. user_va a \<longrightarrow> view s' (sp_d A) a = fst (two_memories ws (m, n)) a \<and> view s' (sp_d B) a = snd (two_memories ws (m, n)) a"
  using assms
proof (induction ws arbitrary: s m n)
  case (Cons x ws)
  obtain who va w where x: "x = (who, va, w)" by (cases x) auto
  have va: "user_va va" using Cons.prems(2) x by simp
  show ?case
  proof (cases who)
    case True
    obtain s1 where s1: "user_write (sp_d A) va w s = Some s1" "write_all (sp_d A) (sp_d B) ws s1 = Some s'"
      using Cons.prems(3) True x by (auto split: option.splits)
    note st = write_apart [OF Cons.prems(1) va s1(1)]
    have "\<forall>a. user_va a \<longrightarrow> view s' (sp_d A) a = fst (two_memories ws (m(va \<mapsto> w), n)) a \<and> view s' (sp_d B) a = snd (two_memories ws (m(va \<mapsto> w), n)) a"
      by (rule Cons.IH [OF st(1) _ s1(2)]) (use Cons.prems(2,4,5) st(2,3) in auto)
    then show ?thesis using True x by simp
  next
    case False
    obtain s1 where s1: "user_write (sp_d B) va w s = Some s1" "write_all (sp_d A) (sp_d B) ws s1 = Some s'"
      using Cons.prems(3) False x by (auto split: option.splits)
    note st = write_apart [OF apart_sym [OF Cons.prems(1)] va s1(1)]
    have "\<forall>a. user_va a \<longrightarrow> view s' (sp_d A) a = fst (two_memories ws (m, n(va \<mapsto> w))) a \<and> view s' (sp_d B) a = snd (two_memories ws (m, n(va \<mapsto> w))) a"
      by (rule Cons.IH [OF apart_sym [OF st(1)] _ s1(2)]) (use Cons.prems(2,4,5) st(2,3) in auto)
    then show ?thesis using False x by simp
  qed
qed simp

lemma forked_views:
  assumes ok: "fork_ok s A B" and f: "forked s A B (user_pages s A) s' B'" and va: "user_va va"
  shows "view s' (sp_d A) va = view s (sp_d A) va" "view s' (sp_d B) va = view s (sp_d A) va"
proof -
  note o = fork_okD [OF ok] and d = forkedD [OF f] and v = user_vaD [OF va]
  let ?x = "(vslot va, vpage va)"
  have "pg_mem s' (ent (frame_at s A ?x) (voff va)) = pg_mem s (ent (frame_at s A ?x) (voff va))" if x: "?x \<in> user_pages s A"
  proof (rule d(11))
    obtain k where k: "k < 1024" "frame_at s A ?x = fr s k" "0 < ref s k" using o(7) [OF x] by blast
    have "frame_of (ent (frame_at s A ?x) (voff va)) = frame_at s A ?x"
      using frame_of_ent [OF _ v(3)] live_frame(1) [OF o(1), of "fr s k"] live_fr [OF o(1) k(1)] k(2,3) by simp
    moreover have "frame_at s A ?x \<notin> tables B' - tables B" using d(8) [of "fr s k"] k live_fr [OF o(1)] by (metis less_irrefl)
    ultimately show "frame_of (ent (frame_at s A ?x) (voff va)) \<notin> tables A \<union> tables B'" using o(6) [OF x] by auto
  qed
  then show "view s' (sp_d A) va = view s (sp_d A) va" "view s' (sp_d B) va = view s (sp_d A) va"
    using view_space [OF d(1,3) va] view_space [OF d(1,4) va] view_space [OF o(1,2) va] d(9) [OF v(1,2)] d(10) [OF v(1,2)] v(1,2) cow_entry_facts child_entry_facts d(6)
    by (auto simp: Let_def user_pages_def frame_at_def present_def)
qed

lemma forked_write_succeeds:
  assumes ok: "fork_ok s A B" and f: "forked s A B (user_pages s A) s' B'" and va: "user_va va" and x: "(vslot va, vpage va) \<in> user_pages s A"
    and w: "writable_at s A (vslot va, vpage va)" and free: "free_frames s' \<noteq> {}"
  shows "user_write (sp_d A) va w s' \<noteq> None \<and> user_write (sp_d B) va w s' \<noteq> None"
proof -
  note d = forkedD [OF f] and v = user_vaD [OF va] and ap = forked_apart [OF ok f]
  let ?e = "pte s A (vslot va) (vpage va)"
  obtain j where j: "j < 1024" "ref s' j = 0" using free by (auto simp: free_frames_def)
  have p: "present ?e" using x by (simp add: user_pages_def)
  have e: "pte s' A (vslot va) (vpage va) = cow_entry ?e" "pte s' B' (vslot va) (vpage va) = child_entry ?e" using d(9,10) [OF v(1,2)] x p by simp_all
  have "bit ?e 1" using w by (simp add: writable_at_def page_flag_bits)
  then have c: "cow_entry ?e AND PAGE_COW \<noteq> 0" "child_entry ?e AND PAGE_COW \<noteq> 0" by (simp_all add: page_flag_bits bit_cow_entry bit_child_entry)
  have "user_write (sp_d A) va w s' \<noteq> None" by (rule write_succeeds [OF ap va _ _ j]) (use e(1) p c(1) cow_entry_facts(2) in simp_all)
  moreover have "user_write (sp_d B') va w s' \<noteq> None" by (rule write_succeeds [OF apart_sym [OF ap] va _ _ j]) (use e(2) p c(2) child_entry_facts(2) in simp_all)
  ultimately show ?thesis using d(6) by simp
qed

text \<open>
  Property C2: fork gives the child a memory of its own. Sharing the pages of a process with a fresh address space returns 0;
  afterwards parent and child see at every user address what the parent saw before. Whatever writes either of them
  then does, in any order, each sees exactly its own writes: the two address spaces refine two separate memories,
  although they share frames until the first write. A first write to a page that the parent could write before the fork
  succeeds as long as a frame is free.
\<close>

theorem fork_isolates:
  assumes "fork_ok s A B"
  shows "\<exists>s'. paging_clone_user_pages (sp_d B) (sp_d A) s = (0, s')
    \<and> (\<forall>va. user_va va \<longrightarrow> view s' (sp_d A) va = view s (sp_d A) va \<and> view s' (sp_d B) va = view s (sp_d A) va)
    \<and> (\<forall>ws s''. (\<forall>x \<in> set ws. user_va (fst (snd x))) \<and> write_all (sp_d A) (sp_d B) ws s' = Some s'' \<longrightarrow>
        (\<forall>va. user_va va \<longrightarrow> view s'' (sp_d A) va = fst (two_memories ws (view s (sp_d A), view s (sp_d A))) va
                          \<and> view s'' (sp_d B) va = snd (two_memories ws (view s (sp_d A), view s (sp_d A))) va))
    \<and> (\<forall>va w. user_va va \<and> (vslot va, vpage va) \<in> user_pages s A \<and> writable_at s A (vslot va, vpage va) \<and> free_frames s' \<noteq> {}
        \<longrightarrow> user_write (sp_d A) va w s' \<noteq> None \<and> user_write (sp_d B) va w s' \<noteq> None)"
proof -
  obtain s' B' where f: "paging_clone_user_pages (sp_d B) (sp_d A) s = (0, s')" "forked s A B (user_pages s A) s' B'" by (rule fork_all_pages [OF assms])
  note vw = forked_views [OF assms f(2)] and d = forkedD(6) [OF f(2)]
  have "\<forall>va. user_va va \<longrightarrow> view s'' (sp_d A) va = fst (two_memories ws (view s (sp_d A), view s (sp_d A))) va
      \<and> view s'' (sp_d B) va = snd (two_memories ws (view s (sp_d A), view s (sp_d A))) va"
    if "\<forall>x \<in> set ws. user_va (fst (snd x))" "write_all (sp_d A) (sp_d B) ws s' = Some s''" for ws s''
    using writes_refine [OF forked_apart [OF assms f(2)], unfolded d, OF that vw] .
  moreover have "user_write (sp_d A) va w s' \<noteq> None \<and> user_write (sp_d B) va w s' \<noteq> None"
    if "user_va va \<and> (vslot va, vpage va) \<in> user_pages s A \<and> writable_at s A (vslot va, vpage va) \<and> free_frames s' \<noteq> {}" for va w
    using that forked_write_succeeds [OF assms f(2)] by blast
  ultimately show ?thesis using f(1) vw by blast
qed

section \<open>An example\<close>

text \<open>A parent with one writable page at \<open>0x8000000\<close>, and the empty address space of its child.\<close>

definition demo_fork :: paging where
  "demo_fork = \<lparr>pg_mem = (\<lambda>_. 0)(ent 0x200000 0 := 0x201007, ent 0x201000 0 := 0x202007, ent 0x202000 64 := 0x203007, ent 0x203000 0 := 0x204007,
       ent 0x204000 1 := 42, ent 0x205000 0 := 0x206007, ent 0x206000 0 := 0x207007),
     phys_next_free = 0x208000, phys_alloc_end = 0x600000, phys_pool_base = 0x200000, phys_frames_used = 8,
     frame_freelist = [], frame_refcount = replicate 8 1 @ replicate 1016 0, kernel_pml4 = 0\<rparr>"

definition demo_parent :: space where
  "demo_parent = \<lparr>sp_d = 0x200000, sp_p = 0x201000, sp_q = 0x202000, sp_t = [64 \<mapsto> 0x203000]\<rparr>"

definition demo_child :: space where
  "demo_child = \<lparr>sp_d = 0x205000, sp_p = 0x206000, sp_q = 0x207000, sp_t = Map.empty\<rparr>"

lemma demo_frames: "frames_inv demo_fork" "k < 8 \<Longrightarrow> ref demo_fork k = 1" "8 \<le> k \<Longrightarrow> k < 1024 \<Longrightarrow> ref demo_fork k = 0" "fr demo_fork k = 0x200000 + 4096 * of_nat k"
proof -
  have b: "base_ok demo_fork" by (simp add: base_ok_def demo_fork_def aligned_def)
  have nth: "frame_refcount demo_fork ! k = (if k < 8 then 1 else 0)" if "k < 1024" for k using that by (simp add: demo_fork_def nth_append)
  have none: "{k. k < 8 \<and> frame_refcount demo_fork ! k = 0} = {}" using nth by auto
  have "demo_fork = demo_fork\<lparr>frame_refcount := frame_refcount demo_fork, frame_freelist := []\<rparr>" by (simp add: demo_fork_def)
  also have "frames_inv \<dots>"
  proof (rule frames_inv_updI [OF b, of _ _ 8])
    show "\<forall>k. 8 \<le> k \<and> k < 1024 \<longrightarrow> frame_refcount demo_fork ! k = 0" using nth by simp
    show "set [] = fr demo_fork ` {k. k < 8 \<and> frame_refcount demo_fork ! k = 0}" using none by simp
  qed (simp_all add: demo_fork_def fr_def)
  finally show "frames_inv demo_fork" .
  show "k < 8 \<Longrightarrow> ref demo_fork k = 1" "8 \<le> k \<Longrightarrow> k < 1024 \<Longrightarrow> ref demo_fork k = 0" using nth [of k] by (simp_all add: ref_def)
  show "fr demo_fork k = 0x200000 + 4096 * of_nat k" by (simp add: fr_def demo_fork_def)
qed

lemma demo_live: "f \<in> {0x200000, 0x201000, 0x202000, 0x203000, 0x204000, 0x205000, 0x206000, 0x207000} \<Longrightarrow> live demo_fork f \<and> aligned f"
proof -
  have l: "live demo_fork (0x200000 + 4096 * of_nat k)" if "k < 8" for k using that live_fr [OF demo_frames(1), of k] demo_frames(2,4) [of k] by simp
  show "f \<in> {0x200000, 0x201000, 0x202000, 0x203000, 0x204000, 0x205000, 0x206000, 0x207000} \<Longrightarrow> live demo_fork f \<and> aligned f"
    using l [of 0] l [of 1] l [of 2] l [of 3] l [of 4] l [of 5] l [of 6] l [of 7] by (auto simp: aligned_def)
qed

lemma demo_mem:
  assumes "aligned f" "i < 512"
  shows "pg_mem demo_fork (ent f i) = (if f = 0x206000 \<and> i = 0 then 0x207007 else if f = 0x205000 \<and> i = 0 then 0x206007 else if f = 0x204000 \<and> i = 1 then 42
    else if f = 0x203000 \<and> i = 0 then 0x204007 else if f = 0x202000 \<and> i = 64 then 0x203007 else if f = 0x201000 \<and> i = 0 then 0x202007
    else if f = 0x200000 \<and> i = 0 then 0x201007 else 0)"
proof -
  have e: "ent f i = ent g j \<longleftrightarrow> f = g \<and> i = j" if "aligned g" "j < 512" for g j using ent_inj [OF assms(1) that(1) assms(2) that(2)] .
  have al: "aligned 0x200000" "aligned 0x201000" "aligned 0x202000" "aligned 0x203000" "aligned 0x204000" "aligned 0x205000" "aligned 0x206000" by (simp_all add: aligned_def)
  have n: "(0 :: nat) < 512" "(1 :: nat) < 512" "(64 :: nat) < 512" by simp_all
  show ?thesis unfolding demo_fork_def
    by (simp only: paging.simps fun_upd_apply e [OF al(1) n(1)] e [OF al(2) n(1)] e [OF al(3) n(3)] e [OF al(4) n(1)] e [OF al(5) n(2)] e [OF al(6) n(1)] e [OF al(7) n(1)])
qed

lemma demo_points: "f \<in> {0x201000, 0x202000, 0x203000, 0x206000, 0x207000} \<Longrightarrow> points_to (f + 7) f"
proof -
  assume f: "f \<in> {0x201000, 0x202000, 0x203000, 0x206000, 0x207000}"
  have "f + 7 = f OR 7" "aligned f" "unat f < 2 ^ 48" "f \<noteq> 0" using f by (auto simp: aligned_def)
  moreover have "take_bit 12 (7 :: u64) = 7" "bit (7 :: u64) 0" "\<not> bit (7 :: u64) 7" by simp_all
  ultimately show ?thesis unfolding points_to_def by metis
qed

lemma demo_pte: "j < 512 \<Longrightarrow> pte demo_fork demo_parent i j = (if i = 64 \<and> j = 0 then 0x204007 else 0)"
  using demo_live [of "0x203000"] by (simp add: pte_def demo_parent_def demo_mem)

lemma demo_parent_ok: "space_ok demo_fork demo_parent"
proof -
  have tabs: "tables demo_parent = {0x200000, 0x201000, 0x202000, 0x203000}" by (auto simp: tables_def demo_parent_def user_slot_def split: if_splits)
  note al = demo_live
  show ?thesis
    unfolding space_ok_def tabs
  proof (intro conjI allI impI)
    show "upper demo_fork (sp_d demo_parent) (sp_p demo_parent) (sp_q demo_parent)"
      using demo_points [of "0x201000"] demo_points [of "0x202000"] al by (simp add: upper_def demo_parent_def demo_mem)
    show "slot_ok demo_fork demo_parent i" if "user_slot i" for i
      using demo_points [of "0x203000"] al that by (auto simp: slot_ok_def demo_parent_def demo_mem user_slot_def)
    show "i = j" if "sp_t demo_parent i = Some t" "sp_t demo_parent j = Some t" for i j t using that by (auto simp: demo_parent_def split: if_splits)
  qed (use al in auto)
qed

lemma demo_fork_ok: "fork_ok demo_fork demo_parent demo_child"
proof -
  have tabs: "tables demo_parent = {0x200000, 0x201000, 0x202000, 0x203000}" "tables demo_child = {0x205000, 0x206000, 0x207000}"
    by (auto simp: tables_def demo_parent_def demo_child_def user_slot_def split: if_splits)
  have al: "aligned f" "live demo_fork f" if "f \<in> {0x200000, 0x201000, 0x202000, 0x203000, 0x204000, 0x205000, 0x206000, 0x207000}" for f using demo_live [OF that] by simp_all
  note A = demo_parent_ok
  have B: "space_ok demo_fork demo_child"
    unfolding space_ok_def tabs
  proof (intro conjI allI impI)
    show "upper demo_fork (sp_d demo_child) (sp_p demo_child) (sp_q demo_child)"
      using demo_points [of "0x206000"] demo_points [of "0x207000"] al by (simp add: upper_def demo_child_def demo_mem)
    show "slot_ok demo_fork demo_child i" if "user_slot i" for i using al that by (auto simp: slot_ok_def demo_child_def demo_mem user_slot_def)
  qed (use al in \<open>auto simp: demo_child_def\<close>)
  note pte = demo_pte
  have pages: "user_pages demo_fork demo_parent = {(64, 0)}" by (auto simp: user_pages_def pte user_slot_def present_def split: if_splits)
  have at: "frame_at demo_fork demo_parent (64, 0) = 0x204000" by (simp add: frame_at_def pte page_frame_def)
  have used: "used_slots demo_child = {}" "used_slots demo_parent = {64}" by (auto simp: used_slots_def demo_child_def demo_parent_def user_slot_def split: if_splits)
  have "8 \<in> free_frames demo_fork" using demo_frames(3) [of 8] by (simp add: free_frames_def)
  then have "card (used_slots demo_parent) \<le> card (free_frames demo_fork)" using finite_sets(1) [of demo_fork] used(2) by (auto simp: Suc_le_eq card_gt_0_iff)
  moreover have "\<exists>k < 1024. frame_at demo_fork demo_parent (64, 0) = fr demo_fork k \<and> 0 < ref demo_fork k \<and> ref demo_fork k < 255"
    using at demo_frames(2) [of 4] demo_frames(4) [of 4] by (intro exI [of _ 4]) simp
  ultimately show ?thesis using demo_frames(1) A B tabs used(1) pages at unfolding fork_ok_def by auto
qed

theorem fork_isolates_witness:
  "\<exists>s'. paging_clone_user_pages 0x205000 0x200000 demo_fork = (0, s') \<and> view s' 0x205000 0x8000008 = Some 42
    \<and> (\<forall>s''. write_all 0x200000 0x205000 [(True, 0x8000008, 5), (False, 0x8000008, 6)] s' = Some s'' \<longrightarrow> view s'' 0x200000 0x8000008 = Some 5)"
proof -
  have va: "user_va 0x8000008" by (simp add: user_va_def)
  have v: "view demo_fork (sp_d demo_parent) 0x8000008 = Some 42"
    using view_space [OF demo_frames(1) demo_parent_ok va] demo_live [of "0x204000"]
    by (simp add: vslot_def vpage_def voff_def demo_pte present_def page_frame_def demo_mem Let_def)
  let ?ws = "[(True, 0x8000008, 5), (False, 0x8000008, 6)] :: (bool \<times> u64 \<times> u64) list"
  have ws: "\<forall>x \<in> set ?ws. user_va (fst (snd x))" using va by simp
  have m: "fst (two_memories ?ws (g, g)) 0x8000008 = Some 5" for g by simp
  have sp: "sp_d demo_parent = 0x200000" "sp_d demo_child = 0x205000" by (simp_all add: demo_parent_def demo_child_def)
  obtain s' where s': "paging_clone_user_pages (sp_d demo_child) (sp_d demo_parent) demo_fork = (0, s')"
    "\<And>va. user_va va \<Longrightarrow> view s' (sp_d demo_child) va = view demo_fork (sp_d demo_parent) va"
    "\<And>ws s'' va. \<forall>x \<in> set ws. user_va (fst (snd x)) \<Longrightarrow> write_all (sp_d demo_parent) (sp_d demo_child) ws s' = Some s'' \<Longrightarrow> user_va va
       \<Longrightarrow> view s'' (sp_d demo_parent) va = fst (two_memories ws (view demo_fork (sp_d demo_parent), view demo_fork (sp_d demo_parent))) va"
    using fork_isolates [OF demo_fork_ok] by blast
  have "view s'' (sp_d demo_parent) 0x8000008 = Some 5" if "write_all (sp_d demo_parent) (sp_d demo_child) ?ws s' = Some s''" for s''
    using s'(3) [OF ws that va] m by simp
  then show ?thesis using s'(1) s'(2) [OF va] v unfolding sp by (intro exI [of _ s']) simp
qed

end
