(* ===== verification/Space_Lifecycle.thy ===== *)
theory Space_Lifecycle
  imports Isolation
begin

text \<open>
  The life of an address space: it is created with the kernel's entries and no pages, shares the pages of its parent, and
  gives every frame back at the end.
\<close>

unbundle bit_operations_syntax

section \<open>Creation\<close>

lemma kernel_pml4_put_word [simp]: "kernel_pml4 (put_word a v s) = kernel_pml4 s"
  by (simp add: put_word_def)

lemma copy_table_spec:
  assumes "aligned dst" "aligned src" "dst \<noteq> src"
  shows "i < 512 \<Longrightarrow> pg_mem (copy_table dst src keep s) (ent dst i) = (if keep i then pg_mem s (ent src i) else 0)"
    "frame_of a \<noteq> dst \<Longrightarrow> pg_mem (copy_table dst src keep s) a = pg_mem s a" "frame_refcount (copy_table dst src keep s) = frame_refcount s"
    "phys_pool_base (copy_table dst src keep s) = phys_pool_base s" "frames_inv (copy_table dst src keep s) = frames_inv s" "kernel_pml4 (copy_table dst src keep s) = kernel_pml4 s"
proof -
  define P where "P = (\<lambda>n u. (\<forall>i < 512. pg_mem u (ent dst i) = (if i < n then if keep i then pg_mem s (ent src i) else 0 else pg_mem s (ent dst i)))
    \<and> (\<forall>a. frame_of a \<noteq> dst \<longrightarrow> pg_mem u a = pg_mem s a) \<and> frame_refcount u = frame_refcount s \<and> phys_pool_base u = phys_pool_base s
    \<and> frames_inv u = frames_inv s \<and> kernel_pml4 u = kernel_pml4 s)"
  have "P 512 (copy_table dst src keep s)"
    unfolding copy_table_def
  proof (rule fold_upt_inv [of P])
    show "P 0 s" by (simp add: P_def)
    fix k u assume k: "k < 512" and P: "P k u"
    have "frame_of (ent src k) \<noteq> dst" "frame_of (ent dst k) = dst" using frame_of_ent assms k by auto
    then have src: "pg_mem u (ent src k) = pg_mem s (ent src k)" using P by (simp add: P_def)
    have "i < Suc k \<longleftrightarrow> i < k \<or> i = k" for i by auto
    then show "P (Suc k) (put_word (ent dst k) (if keep k then pg_mem u (ent src k) else 0) u)"
      using P src ent_inj [OF assms(1,1) _ k] \<open>frame_of (ent dst k) = dst\<close> unfolding P_def by auto
  qed simp
  then show "i < 512 \<Longrightarrow> pg_mem (copy_table dst src keep s) (ent dst i) = (if keep i then pg_mem s (ent src i) else 0)"
    "frame_of a \<noteq> dst \<Longrightarrow> pg_mem (copy_table dst src keep s) a = pg_mem s a" "frame_refcount (copy_table dst src keep s) = frame_refcount s"
    "phys_pool_base (copy_table dst src keep s) = phys_pool_base s" "frames_inv (copy_table dst src keep s) = frames_inv s" "kernel_pml4 (copy_table dst src keep s) = kernel_pml4 s"
    by (simp_all add: P_def)
qed

text \<open>A new table: a frame that was free, filled from a table that is in use.\<close>

definition new_table :: "paging \<Rightarrow> u64 \<Rightarrow> u64 \<Rightarrow> (nat \<Rightarrow> bool) \<Rightarrow> paging \<Rightarrow> bool" where
  "new_table s f src keep s' \<longleftrightarrow> frames_inv s' \<and> phys_pool_base s' = phys_pool_base s \<and> kernel_pml4 s' = kernel_pml4 s \<and> f \<noteq> 0
     \<and> (\<exists>k < 1024. f = fr s k \<and> ref s k = 0) \<and> (\<forall>k < 1024. ref s' k = (if fr s k = f then 1 else ref s k))
     \<and> (\<forall>i < 512. pg_mem s' (ent f i) = (if keep i then pg_mem s (ent src i) else 0)) \<and> (\<forall>a. frame_of a \<noteq> f \<longrightarrow> pg_mem s' a = pg_mem s a)"

lemma alloc_copy:
  assumes inv: "frames_inv s" and src: "live s src" and free: "free_frames s \<noteq> {}"
  obtains f s1 where "frame_alloc s = (f, s1)" "f \<noteq> 0" "new_table s f src keep (copy_table f src keep s1)" "\<And>a. frame_of a \<noteq> f \<Longrightarrow> pg_mem s1 a = pg_mem s a"
proof -
  obtain j where j: "j < 1024" "ref s j = 0" using free by (auto simp: free_frames_def)
  obtain k s1 where k: "frame_alloc s = (fr s k, s1)" "k < 1024" "fr s k \<noteq> 0" "ref s k = 0" "frame_refcount s1 = (frame_refcount s)[k := 1]"
    "phys_pool_base s1 = phys_pool_base s" "kernel_pml4 s1 = kernel_pml4 s" "pg_mem s1 = zero_frame (fr s k) (pg_mem s)" "frames_inv s1"
    using frame_alloc_free [OF inv j] by metis
  have ne: "fr s k \<noteq> src" using src live_fr [OF inv k(2)] k(4) by auto
  have al: "aligned (fr s k)" "aligned src" using fr_aligned [of s k] inv k(2) live_frame(1) [OF inv src] by (simp_all add: frames_inv_def)
  note c = copy_table_spec [OF al ne]
  have len: "length (frame_refcount s) = 1024" "base_ok s" using inv by (simp_all add: frames_inv_def)
  have inj: "fr s l = fr s k \<longleftrightarrow> l = k" if "l < 1024" for l using fr_inj [OF len(2), of l k] that k(2) by simp
  have m1: "pg_mem s1 a = pg_mem s a" if "frame_of a \<noteq> fr s k" for a using that by (simp add: k(8) zero_frame_def)
  have "pg_mem s1 (ent src i) = pg_mem s (ent src i)" if "i < 512" for i using m1 frame_of_ent [OF al(2) that] ne by simp
  moreover have "ref (copy_table (fr s k) src keep s1) l = (if fr s l = fr s k then 1 else ref s l)" if "l < 1024" for l
    using that inj len(1) k(2) by (simp add: ref_def c(3) k(5) nth_list_update)
  ultimately have "new_table s (fr s k) src keep (copy_table (fr s k) src keep s1)"
    using c k(2,3,4,6,7,9) m1 unfolding new_table_def by auto
  then show thesis using that [OF k(1,3) _ m1] by blast
qed

lemma new_tableD:
  assumes "new_table s f src keep s'"
  shows "frames_inv s'" "phys_pool_base s' = phys_pool_base s" "kernel_pml4 s' = kernel_pml4 s" "f \<noteq> 0" "\<exists>k < 1024. f = fr s k \<and> ref s k = 0"
    "k < 1024 \<Longrightarrow> ref s' k = (if fr s k = f then 1 else ref s k)" "i < 512 \<Longrightarrow> pg_mem s' (ent f i) = (if keep i then pg_mem s (ent src i) else 0)"
    "frame_of a \<noteq> f \<Longrightarrow> pg_mem s' a = pg_mem s a"
  using assms unfolding new_table_def by blast+

lemma new_table_frames:
  assumes inv: "frames_inv s" and nt: "new_table s f src keep s'"
  shows "live s' f" "\<not> live s f" "live s g \<Longrightarrow> live s' g" "aligned f" "unat f < 2 ^ 48" "fr s' = fr s" "card (free_frames s) = Suc (card (free_frames s'))"
proof -
  note n = new_tableD [OF nt]
  obtain k where k: "k < 1024" "f = fr s k" "ref s k = 0" using n(5) by blast
  show fr: "fr s' = fr s" using fr_base [OF n(2)] .
  have inj: "fr s l = f \<longleftrightarrow> l = k" if "l < 1024" for l using fr_inj [of s l k] inv that k(1,2) by (simp add: frames_inv_def)
  show l: "live s' f" using live_fr [OF n(1) k(1)] n(6) [OF k(1)] k(2) fr by simp
  show "\<not> live s f" using live_fr [OF inv k(1)] k by simp
  show "live s g \<Longrightarrow> live s' g" by (rule live_ref_cong [OF n(2)]) (use n(6) in auto)
  show "aligned f" "unat f < 2 ^ 48" using live_frame [OF n(1) l] by simp_all
  have "free_frames s' = free_frames s - {k}" using n(6) inj by (auto simp: free_frames_def split: if_splits)
  then show "card (free_frames s) = Suc (card (free_frames s'))" using k(1,3) card_Suc_Diff1 [OF finite_sets(1) [of s], of k] by (simp add: free_frames_def)
qed

text \<open>The tables of the kernel, from which every address space is made.\<close>

definition kernel_ok :: "paging \<Rightarrow> u64 \<Rightarrow> u64 \<Rightarrow> u64 \<Rightarrow> bool" where
  "kernel_ok s kd kp kq \<longleftrightarrow> upper s kd kp kq \<and> live s kd \<and> live s kp \<and> live s kq"

text \<open>A new space \<open>B\<close>: its three tables were free, it has no pages, and nothing else changed.\<close>

definition created :: "paging \<Rightarrow> space \<Rightarrow> paging \<Rightarrow> bool" where
  "created s B s' \<longleftrightarrow> frames_inv s' \<and> space_ok s' B \<and> used_slots B = {} \<and> sp_d B \<noteq> 0 \<and> phys_pool_base s' = phys_pool_base s \<and> kernel_pml4 s' = kernel_pml4 s
     \<and> (\<forall>f \<in> tables B. \<exists>k < 1024. f = fr s k \<and> ref s k = 0) \<and> (\<forall>k < 1024. ref s' k = (if fr s k \<in> tables B then 1 else ref s k))
     \<and> (\<forall>a. frame_of a \<notin> tables B \<longrightarrow> pg_mem s' a = pg_mem s a) \<and> card (free_frames s) = card (free_frames s') + 3"

lemma user_entry: "aligned f \<Longrightarrow> unat f < 2 ^ 48 \<Longrightarrow> f \<noteq> 0 \<Longrightarrow> points_to (f OR PAGE_PRESENT OR PAGE_WRITABLE OR PAGE_USER) f"
  using points_to_new [of f 4] by simp

lemma create_space:
  assumes inv: "frames_inv s" and ker: "kernel_ok s kd kp kq" and free: "3 \<le> card (free_frames s)"
  obtains B s' where "paging_create_address_space kd s = (sp_d B, s')" "created s B s'"
proof -
  have k: "upper s kd kp kq" "live s kd" "live s kp" "live s kq" using ker by (simp_all add: kernel_ok_def)
  have e: "pg_mem s (ent kd 0) AND PAGE_ADDR_MASK = kp" "pg_mem s (ent kp 0) AND PAGE_ADDR_MASK = kq"
    using k(1) points_toD(3) by (simp_all add: upper_def)
  have fe: "frame_of (ent g i) = g" if "live s g" "i < 512" for g i using frame_of_ent live_frame(1) [OF inv that(1)] that(2) by blast
  have ne: "free_frames s \<noteq> {}" using free by auto
  obtain d s1 where d: "frame_alloc s = (d, s1)" "d \<noteq> 0" "new_table s d kd (\<lambda>_. True) (copy_table d kd (\<lambda>_. True) s1)"
    by (rule alloc_copy [OF inv k(2) ne])
  define s2 where "s2 = copy_table d kd (\<lambda>_. True) s1"
  note n2 = new_tableD [OF d(3), folded s2_def] and f2 = new_table_frames [OF inv d(3), folded s2_def]
  have ne2: "free_frames s2 \<noteq> {}" using free f2(7) by auto
  obtain p s3 where p: "frame_alloc s2 = (p, s3)" "p \<noteq> 0" "new_table s2 p kp (\<lambda>_. True) (copy_table p kp (\<lambda>_. True) s3)"
    by (rule alloc_copy [OF n2(1) f2(3) [OF k(3)] ne2])
  define s4 where "s4 = copy_table p kp (\<lambda>_. True) s3"
  note n4 = new_tableD [OF p(3), folded s4_def] and f4 = new_table_frames [OF n2(1) p(3), folded s4_def]
  define s5 where "s5 = put_word (ent d 0) (p OR PAGE_PRESENT OR PAGE_WRITABLE OR PAGE_USER) s4"
  have i5: "frames_inv s5" "live s5 kq" using n4(1) f4(3) f2(3) k(4) by (simp_all add: s5_def live_def)
  have r5: "ref s5 = ref s4" "fr s5 = fr s" using f4(6) f2(6) by (simp_all add: s5_def fun_eq_iff)
  have ff5: "free_frames s5 = free_frames s4" by (simp add: free_frames_def r5)
  then have ne5: "free_frames s5 \<noteq> {}" using free f2(7) f4(7) by auto
  obtain q s6 where q: "frame_alloc s5 = (q, s6)" "q \<noteq> 0" "new_table s5 q kq (\<lambda>i. i < 64) (copy_table q kq (\<lambda>i. i < 64) s6)"
    by (rule alloc_copy [OF i5 ne5])
  define s7 where "s7 = copy_table q kq (\<lambda>i. i < 64) s6"
  note n7 = new_tableD [OF q(3), folded s7_def] and f7 = new_table_frames [OF i5(1) q(3), folded s7_def]
  define u where "u = put_word (ent p 0) (q OR PAGE_PRESENT OR PAGE_WRITABLE OR PAGE_USER) s7"
  let ?B = "\<lparr>sp_d = d, sp_p = p, sp_q = q, sp_t = Map.empty\<rparr> :: space"
  have l: "live s5 d" "live s5 p" using f4(1) f4(3) f2(1) by (simp_all add: s5_def live_def)
  have dist: "d \<noteq> p" "d \<noteq> q" "p \<noteq> q" using f2(1) f4(2) l f7(2) by auto
  have kdist: "kp \<noteq> d" "kd \<noteq> d" "kp \<noteq> p" "kd \<noteq> p" using k(2,3) f2(2,3) f4(2) by blast+
  have fd: "frame_of (ent d i) = d" "frame_of (ent p i) = p" "frame_of (ent q i) = q" if "i < 512" for i using frame_of_ent f2(4) f4(4) f7(4) that by simp_all
  have m5: "pg_mem s5 a = pg_mem s4 a" if "frame_of a \<noteq> d" for a using that fd(1) [of 0] by (auto simp: s5_def)
  have a: "pg_mem s2 (ent kd 0) AND PAGE_ADDR_MASK = kp" using n2(8) [of "ent kd 0"] fe [OF k(2), of 0] kdist(2) e(1) by simp
  have b: "pg_mem s5 (ent kp 0) AND PAGE_ADDR_MASK = kq"
    using m5 [of "ent kp 0"] n4(8) [of "ent kp 0"] n2(8) [of "ent kp 0"] fe [OF k(3), of 0] kdist e(2) by simp
  have eq: "paging_create_address_space kd s = (d, u)"
    by (simp only: paging_create_address_space_def Let_def prod.case if_False d(1,2) p(1,2) q(1,2) a b s2_def [symmetric] s4_def [symmetric] s5_def [symmetric] s7_def [symmetric] u_def [symmetric])
  have mem: "pg_mem u a = pg_mem s7 a" if "a \<noteq> ent p 0" for a using that by (simp add: u_def)
  have dp: "ent d 0 \<noteq> ent p 0" using ent_inj [OF f2(4) f4(4)] dist(1) by simp
  have "pg_mem u (ent d 0) = p OR PAGE_PRESENT OR PAGE_WRITABLE OR PAGE_USER"
    using mem [OF dp] n7(8) [of "ent d 0"] fd(1) [of 0] dist(2) by (simp add: s5_def)
  then have up: "upper u d p q" using dist f2(4) f4(4) f7(4) user_entry [OF f4(4,5) n4(4)] user_entry [OF f7(4,5) n7(4)] by (simp add: upper_def u_def)
  have live: "live u f" if "f \<in> {d, p, q}" for f using that f7(1) f7(3) l by (auto simp: u_def live_def)
  have slot: "slot_ok u ?B i" if "user_slot i" for i
  proof -
    have "i < 512" "\<not> i < 64" using that by (simp_all add: user_slot_def)
    moreover have "ent q i \<noteq> ent p 0" using ent_inj [OF f7(4) f4(4)] \<open>i < 512\<close> dist(3) by simp
    ultimately have "pg_mem u (ent q i) = 0" using mem n7(7) [of i] by simp
    then show ?thesis by (simp add: slot_ok_def)
  qed
  have tab: "tables ?B = {d, p, q}" by (simp add: tables_def)
  have ok: "space_ok u ?B" using up live slot unfolding space_ok_def tab by simp
  have fr: "fr s2 = fr s" "fr s4 = fr s" using f2(6) f4(6) by simp_all
  have ref4: "ref s4 i = (if fr s i = p then 1 else if fr s i = d then 1 else ref s i)" if "i < 1024" for i using n4(6) [OF that] n2(6) [OF that] fr by simp
  have ref: "ref u i = (if fr s i \<in> {d, p, q} then 1 else ref s i)" if "i < 1024" for i
    using n7(6) [OF that] ref4 [OF that] r5 by (simp add: u_def)
  have free: "\<exists>i < 1024. f = fr s i \<and> ref s i = 0" if "f \<in> {d, p, q}" for f
  proof -
    have "\<exists>i < 1024. p = fr s i \<and> ref s i = 0" using n4(5) n2(6) fr by (metis zero_neq_one)
    moreover have "\<exists>i < 1024. q = fr s i \<and> ref s i = 0" using n7(5) ref4 r5 by (metis zero_neq_one)
    ultimately show ?thesis using that n2(5) by blast
  qed
  have rest: "pg_mem u a = pg_mem s a" if "frame_of a \<notin> {d, p, q}" for a
    using mem [of a] n7(8) [of a] m5 [of a] n4(8) [of a] n2(8) [of a] that fd(2) [of 0] by auto
  have card: "card (free_frames s) = card (free_frames u) + 3" using f2(7) f4(7) f7(7) ff5 by (simp add: u_def free_frames_def)
  have "created s ?B u" unfolding created_def tab
    using ok ref free rest card n7(1-3) n4(2,3) n2(2,3,4) by (auto simp: u_def s5_def used_slots_def)
  then show thesis using that [of ?B u] eq by simp
qed

section \<open>Release\<close>

text \<open>One reference to each frame in \<open>F\<close> was given back, and nothing else changed.\<close>

definition released :: "paging \<Rightarrow> u64 set \<Rightarrow> paging \<Rightarrow> bool" where
  "released s F s' \<longleftrightarrow> frames_inv s' \<and> pg_mem s' = pg_mem s \<and> phys_pool_base s' = phys_pool_base s \<and> kernel_pml4 s' = kernel_pml4 s
     \<and> (\<forall>k < 1024. ref s' k = ref s k - (if fr s k \<in> F then 1 else 0))"

lemma releasedD:
  assumes "released s F s'"
  shows "frames_inv s'" "pg_mem s' = pg_mem s" "phys_pool_base s' = phys_pool_base s" "kernel_pml4 s' = kernel_pml4 s"
    "k < 1024 \<Longrightarrow> ref s' k = ref s k - (if fr s k \<in> F then 1 else 0)"
  using assms by (simp_all add: released_def)

lemma released_none: "frames_inv s \<Longrightarrow> released s {} s"
  by (simp add: released_def)

lemma released_one:
  assumes inv: "frames_inv s" and r: "released s F s'" and f: "live s f" "f \<notin> F"
  shows "released s (insert f F) (frame_free f s')"
proof -
  note d = releasedD [OF r]
  obtain k where k: "k < 1024" "f = fr s k" "0 < ref s k" using f(1) by (auto simp: live_def)
  have fr: "fr s' = fr s" using fr_base [OF d(3)] .
  have pos: "0 < ref s' k" using d(5) [OF k(1)] k f(2) by simp
  note e = frame_free_spec [OF d(1) k(1) pos, unfolded fr, folded k(2)]
  have len: "length (frame_refcount s') = 1024" "base_ok s" using d(1) inv by (simp_all add: frames_inv_def)
  have one: "unat (frame_refcount s' ! k - 1) = ref s' k - 1" using pos by (simp add: ref_def unat_gt_0 unat_minus_one)
  have "ref (frame_free f s') l = ref s l - (if fr s l \<in> insert f F then 1 else 0)" if "l < 1024" for l
  proof (cases "l = k")
    case True
    then show ?thesis using e one d(5) [OF k(1)] k f(2) len(1) by (simp add: ref_def)
  next
    case False
    then have "fr s l \<noteq> f" using fr_inj [OF len(2), of l k] that k(1,2) by simp
    then show ?thesis using e False d(5) [OF that] by (simp add: ref_def)
  qed
  then show ?thesis using e d(2-4) by (simp add: released_def)
qed

text \<open>A process that owns its memory: its pages are frames in use, all different, and none of them is a table.\<close>

definition owns :: "paging \<Rightarrow> space \<Rightarrow> bool" where
  "owns s A \<longleftrightarrow> frames_inv s \<and> space_ok s A \<and> inj_on (frame_at s A) (user_pages s A)
     \<and> (\<forall>x \<in> user_pages s A. frame_at s A x \<notin> tables A \<and> live s (frame_at s A x))"

definition all_frames :: "paging \<Rightarrow> space \<Rightarrow> u64 set" where
  "all_frames s A = tables A \<union> frame_at s A ` user_pages s A"

definition slot_tables :: "space \<Rightarrow> nat \<Rightarrow> u64 set" where
  "slot_tables A i = {t. \<exists>l < i. user_slot l \<and> sp_t A l = Some t}"

definition page_frames :: "paging \<Rightarrow> space \<Rightarrow> nat \<Rightarrow> nat \<Rightarrow> u64 set" where
  "page_frames s A i j = frame_at s A ` (user_pages s A \<inter> pages_before i j)"

lemma release_pages:
  assumes own: "owns s A" and i: "user_slot i" and t: "sp_t A i = Some t" and r: "released s (slot_tables A i \<union> page_frames s A i 0) s'"
  shows "released s (slot_tables A i \<union> page_frames s A i 512)
    (fold (\<lambda>j s. let p = pg_mem s (ent t j) in if p AND PAGE_PRESENT \<noteq> 0 then frame_free (p AND PAGE_ADDR_MASK) s else s) [0..<512] s')"
proof (rule fold_upt_inv [where P = "\<lambda>j u. released s (slot_tables A i \<union> page_frames s A i j) u"])
  show "released s (slot_tables A i \<union> page_frames s A i 0) s'" by (rule r)
  fix j u assume j: "0 \<le> j" "j < 512" and h: "released s (slot_tables A i \<union> page_frames s A i j) u"
  have o: "frames_inv s" "space_ok s A" "inj_on (frame_at s A) (user_pages s A)" "\<And>x. x \<in> user_pages s A \<Longrightarrow> frame_at s A x \<notin> tables A \<and> live s (frame_at s A x)"
    using own unfolding owns_def by blast+
  have e: "pg_mem u (ent t j) = pte s A i j" using releasedD(2) [OF h] t by (simp add: pte_def)
  have before: "pages_before i (Suc j) = insert (i, j) (pages_before i j)" "(i, j) \<notin> pages_before i j" using i j by (auto simp: pages_before_def user_slot_def)
  have st: "slot_tables A i \<subseteq> tables A" by (auto simp: slot_tables_def tables_def)
  show "released s (slot_tables A i \<union> page_frames s A i (Suc j)) (let p = pg_mem u (ent t j) in if p AND PAGE_PRESENT \<noteq> 0 then frame_free (p AND PAGE_ADDR_MASK) u else u)"
  proof (cases "present (pte s A i j)")
    case True
    then have x: "(i, j) \<in> user_pages s A" using i j by (simp add: user_pages_def)
    let ?f = "frame_at s A (i, j)"
    have "?f \<notin> page_frames s A i j" using o(3) x before(2) by (auto simp: page_frames_def dest: inj_onD)
    then have "?f \<notin> slot_tables A i \<union> page_frames s A i j" using o(4) [OF x] st by blast
    from released_one [OF o(1) h _ this] o(4) [OF x]
    have "released s (insert ?f (slot_tables A i \<union> page_frames s A i j)) (frame_free ?f u)" by blast
    moreover have "insert ?f (slot_tables A i \<union> page_frames s A i j) = slot_tables A i \<union> page_frames s A i (Suc j)" using x before(1) by (auto simp: page_frames_def)
    ultimately show ?thesis using True by (simp add: e present_def frame_at_def page_frame_def Let_def)
  next
    case False
    then have "page_frames s A i (Suc j) = page_frames s A i j" using before(1) by (auto simp: page_frames_def user_pages_def)
    then show ?thesis using h False by (simp add: e present_def)
  qed
qed simp

lemma release_slots:
  assumes own: "owns s A"
  shows "released s (slot_tables A 512 \<union> page_frames s A 512 0)
    (fold (\<lambda>i s. let e = pg_mem s (ent (sp_q A) i) in
       if \<not> is_table e then s
       else let pt = e AND PAGE_ADDR_MASK;
                s1 = fold (\<lambda>j s. let p = pg_mem s (ent pt j) in if p AND PAGE_PRESENT \<noteq> 0 then frame_free (p AND PAGE_ADDR_MASK) s else s) [0..<512] s
         in frame_free pt s1) [64..<512] s)"
proof (rule fold_upt_inv [where P = "\<lambda>i u. released s (slot_tables A i \<union> page_frames s A i 0) u"])
  have o: "frames_inv s" "space_ok s A" "\<And>x. x \<in> user_pages s A \<Longrightarrow> frame_at s A x \<notin> tables A" using own unfolding owns_def by blast+
  note d = space_okD [OF o(2)]
  have "slot_tables A 64 = {}" "page_frames s A 64 0 = {}" by (auto simp: slot_tables_def user_slot_def page_frames_def pages_before_def)
  then show "released s (slot_tables A 64 \<union> page_frames s A 64 0) s" using released_none [OF o(1)] by simp
  fix i u assume i: "64 \<le> i" "i < 512" and h: "released s (slot_tables A i \<union> page_frames s A i 0) u"
  then have us: "user_slot i" by (simp add: user_slot_def)
  have full: "page_frames s A (Suc i) 0 = page_frames s A i 512"
    using us by (auto simp: page_frames_def pages_before_def user_slot_def less_Suc_eq)
  let ?e = "pg_mem u (ent (sp_q A) i)"
  have e: "?e = pg_mem s (ent (sp_q A) i)" using releasedD(2) [OF h] by simp
  show "released s (slot_tables A (Suc i) \<union> page_frames s A (Suc i) 0)
    (let e = ?e in if \<not> is_table e then u
       else let pt = e AND PAGE_ADDR_MASK;
                s1 = fold (\<lambda>j s. let p = pg_mem s (ent pt j) in if p AND PAGE_PRESENT \<noteq> 0 then frame_free (p AND PAGE_ADDR_MASK) s else s) [0..<512] u
         in frame_free pt s1)"
  proof (cases "sp_t A i")
    case None
    then have "\<not> is_table ?e" using d(3) [OF us] by (simp add: e slot_ok_def is_table_def page_flag_bits)
    moreover have "slot_tables A (Suc i) = slot_tables A i" using None by (auto simp: slot_tables_def less_Suc_eq)
    moreover have "page_frames s A (Suc i) 0 = page_frames s A i 0"
      using None us by (auto simp: page_frames_def user_pages_def pages_before_def pte_def present_def less_Suc_eq)
    ultimately show ?thesis using h by simp
  next
    case (Some t)
    then have pt: "is_table ?e" "?e AND PAGE_ADDR_MASK = t" using d(3) [OF us] points_toD(2,3) by (auto simp: e slot_ok_def)
    have "t \<notin> slot_tables A i" using d(4) [OF us _ Some] by (auto simp: slot_tables_def)
    moreover have "t \<notin> page_frames s A i 512" using o(3) d(8) [OF us Some] by (auto simp: page_frames_def)
    ultimately have nt: "t \<notin> slot_tables A i \<union> page_frames s A i 512" by blast
    have "slot_tables A (Suc i) = insert t (slot_tables A i)" using Some us by (auto simp: slot_tables_def less_Suc_eq)
    with released_one [OF o(1) release_pages [OF own us Some h] d(2) [OF d(8) [OF us Some]] nt] show ?thesis using pt full by (simp add: Let_def)
  qed
qed simp

lemma release_space:
  assumes own: "owns s A" and k: "sp_d A \<noteq> kernel_pml4 s"
  shows "released s (all_frames s A) (paging_free_user_space (sp_d A) s)"
proof -
  have o: "frames_inv s" "space_ok s A" "\<And>x. x \<in> user_pages s A \<Longrightarrow> frame_at s A x \<notin> tables A" using own unfolding owns_def by blast+
  note d = space_okD [OF o(2)] and r = release_slots [OF own]
  let ?F = "slot_tables A 512 \<union> page_frames s A 512 0" and ?d = "sp_d A" and ?p = "sp_p A" and ?q = "sp_q A"
  have up: "?d \<noteq> ?p" "?d \<noteq> ?q" "?p \<noteq> ?q" "pg_mem s (ent ?d 0) AND PAGE_ADDR_MASK = ?p" using d(1) points_toD(3) by (auto simp: upper_def)
  have nz: "?d \<noteq> 0" using slot_table_frame(2) [OF o(1,2) d(5)] .
  have slots: "f \<notin> slot_tables A 512" if "f \<in> {?d, ?p, ?q}" for f
    using d(3) that by (fastforce simp: slot_tables_def slot_ok_def split: option.splits)
  have pages: "f \<notin> page_frames s A 512 0" if "f \<in> tables A" for f using o(3) that by (auto simp: page_frames_def)
  have out: "?q \<notin> ?F" "?p \<notin> insert ?q ?F" "?d \<notin> insert ?p (insert ?q ?F)" using slots pages d(5-7) up(1-3) by auto
  note r1 = released_one [OF o(1) r d(2) [OF d(7)] out(1)]
  note r2 = released_one [OF o(1) r1 d(2) [OF d(6)] out(2)]
  note r3 = released_one [OF o(1) r2 d(2) [OF d(5)] out(3)]
  have "user_pages s A \<inter> pages_before 512 0 = user_pages s A" by (auto simp: user_pages_def pages_before_def user_slot_def)
  then have "page_frames s A 512 0 = frame_at s A ` user_pages s A" by (simp add: page_frames_def)
  then have all: "insert ?d (insert ?p (insert ?q ?F)) = all_frames s A" by (auto simp: all_frames_def tables_def slot_tables_def user_slot_def)
  have "(?d = 0 \<or> ?d = kernel_pml4 s) = False" using nz k by simp
  then show ?thesis using r3 unfolding all paging_free_user_space_def Let_def user_pd_space [OF o(2)] up(4) by (simp only: if_False)
qed

section \<open>Accounts\<close>

text \<open>The root of the kernel's tables is never replaced.\<close>

lemma kernel_pml4_same [simp]:
  "kernel_pml4 (snd (frame_alloc s)) = kernel_pml4 s" "kernel_pml4 (frame_free f s) = kernel_pml4 s" "kernel_pml4 (frame_ref_inc f s) = kernel_pml4 s"
  by (simp_all add: frame_alloc_def frame_claim_def frame_free_def freelist_push_def frame_ref_inc_def Let_def split: list.split option.split)

lemma kernel_pml4_next_level [simp]: "kernel_pml4 (snd (paging_next_level t i f s)) = kernel_pml4 s"
  by (simp add: paging_next_level_def Let_def split_beta)

lemma kernel_pml4_map_4k [simp]: "kernel_pml4 (paging_map_4k d va ph f s) = kernel_pml4 s"
  by (simp add: paging_map_4k_def split_beta)

lemma kernel_pml4_cow [simp]: "kernel_pml4 (snd (paging_handle_cow_fault d va s)) = kernel_pml4 s"
  by (simp add: paging_handle_cow_fault_def Let_def split_beta split: option.split)

lemma kernel_pml4_fold: "(\<And>x s. kernel_pml4 (f x s) = kernel_pml4 s) \<Longrightarrow> kernel_pml4 (fold f xs s) = kernel_pml4 s"
  by (induction xs arbitrary: s) simp_all

lemma kernel_pml4_clone [simp]: "kernel_pml4 (snd (paging_clone_user_pages d e s)) = kernel_pml4 s"
proof -
  have "kernel_pml4 (clone_page a b i j u) = kernel_pml4 u" for a b i j u by (simp add: clone_page_def Let_def)
  then have "kernel_pml4 (clone_table a b i u) = kernel_pml4 u" for a b i u by (simp add: clone_table_def Let_def kernel_pml4_fold)
  then show ?thesis by (simp add: paging_clone_user_pages_def kernel_pml4_fold)
qed

lemma kernel_pml4_write: "user_write d va w s = Some s' \<Longrightarrow> kernel_pml4 s' = kernel_pml4 s"
  by (auto simp: user_write_def split_beta split: option.splits if_splits)

text \<open>Every reference to a frame is accounted for: by the two spaces, or by others, whose references are \<open>base\<close>.\<close>

definition uses :: "paging \<Rightarrow> space \<Rightarrow> nat \<Rightarrow> nat" where
  "uses s A k = (if fr s k \<in> all_frames s A then 1 else 0)"

definition accounted :: "paging \<Rightarrow> space \<Rightarrow> space \<Rightarrow> (nat \<Rightarrow> nat) \<Rightarrow> bool" where
  "accounted s A B base \<longleftrightarrow> (\<forall>k < 1024. ref s k = base k + uses s A k + uses s B k)"

lemma accounted_sym: "accounted s A B base = accounted s B A base"
  by (auto simp: accounted_def)

lemma all_frames_cong:
  assumes "\<And>i j. user_slot i \<Longrightarrow> j < 512 \<Longrightarrow> pte s' A i j = pte s A i j"
  shows "all_frames s' A = all_frames s A" "user_pages s' A = user_pages s A"
proof -
  show p: "user_pages s' A = user_pages s A" using assms by (auto simp: user_pages_def)
  have "frame_at s' A x = frame_at s A x" if "x \<in> user_pages s A" for x using that assms by (auto simp: frame_at_def user_pages_def)
  then show "all_frames s' A = all_frames s A" by (simp add: all_frames_def p)
qed

lemma fault_accounted:
  assumes ap: "apart s A B" and acc: "accounted s A B base" and x: "user_slot i" "j < 512" "present (pte s A i j)" and t: "sp_t A i = Some t"
    and k: "frame_at s A (i, j) = fr s k" "k < 1024" and r: "cow_resolved s (ent t j) k n s1"
  shows "accounted s1 A B base"
proof -
  have xs: "(i, j) \<in> user_pages s A" using x by (simp add: user_pages_def)
  note d = apartD [OF ap] and dB = apartD [OF apart_sym [OF ap]] and pg = cow_resolved_pages [OF ap x t k r] and ex = cow_resolved_exclusive [OF ap xs k r] and rD = cow_resolvedD [OF r]
  have fr1: "fr s1 = fr s" using fr_base [OF rD(4)] .
  have inj: "fr s l = fr s m \<longleftrightarrow> l = m" if "l < 1024" "m < 1024" for l m using d(1) fr_inj [of s l m] that by (simp add: frames_inv_def)
  have B: "all_frames s1 B = all_frames s B" using pg(2,6) by (simp add: all_frames_def)
  have "frame_at s1 A ` user_pages s A = insert (fr s n) (frame_at s A ` (user_pages s A - {(i, j)}))" using pg(3,5) xs by (auto simp: image_iff) (metis Diff_iff insertI1 singletonD)+
  moreover have "frame_at s A ` user_pages s A = insert (fr s k) (frame_at s A ` (user_pages s A - {(i, j)}))" using k(1) [symmetric] xs by (metis image_insert insert_Diff)
  moreover have "fr s k \<notin> frame_at s A ` (user_pages s A - {(i, j)})"
  proof
    assume "fr s k \<in> frame_at s A ` (user_pages s A - {(i, j)})"
    then obtain y where y: "y \<in> user_pages s A" "y \<noteq> (i, j)" "fr s k = frame_at s A y" by blast
    show False using ex(1) [OF y(1,2)] y(3) by simp
  qed
  moreover have kt: "fr s k \<notin> tables A \<union> tables B" using d(5) [OF xs] k(1) by simp
  ultimately have A: "all_frames s1 A = insert (fr s n) (all_frames s A - {fr s k})" "fr s k \<in> all_frames s A" by (auto simp: all_frames_def pg(1))
  have nB: "fr s n \<notin> all_frames s B" unfolding all_frames_def using ex(2,3) by (metis UnE UnI2 imageE)
  have "ref s1 l = base l + uses s1 A l + uses s1 B l" if l: "l < 1024" for l
  proof (cases "n = k")
    case True
    then have "ref s1 l = ref s l" using rD(7) [OF l] rD(9,13) by (cases "l = k") simp_all
    moreover have "all_frames s1 A = all_frames s A" using A True by auto
    ultimately show ?thesis using acc l B by (simp add: accounted_def uses_def fr1)
  next
    case False
    have a: "ref s l = base l + uses s A l + uses s B l" using acc l by (simp add: accounted_def)
    consider "l = k" | "l = n" | "l \<noteq> k" "l \<noteq> n" by blast
    then show ?thesis
    proof cases
      case 1
      then show ?thesis using a rD(14) [OF False] A B inj [OF k(2) rD(1)] False by (simp add: uses_def fr1)
    next
      case 2
      then show ?thesis using a rD(10,15) [OF False] A B nB by (simp add: uses_def fr1 split: if_splits)
    next
      case 3
      then show ?thesis using a rD(7) [OF l] A B inj [OF l k(2)] inj [OF l rD(1)] by (simp add: uses_def fr1)
    qed
  qed
  then show ?thesis by (simp add: accounted_def)
qed

lemma write_accounted:
  assumes ap: "apart s A B" and acc: "accounted s A B base" and va: "user_va va" and w: "user_write (sp_d A) va w s = Some s'"
  shows "accounted s' A B base"
proof -
  note v = user_vaD [OF va]
  have store: "accounted s' A B base" if "apart u A B" "accounted u A B base" "present (pte u A (vslot va) (vpage va))" "pte u A (vslot va) (vpage va) AND PAGE_WRITABLE \<noteq> 0"
      "s' = put_word (ent (page_frame (pte u A (vslot va) (vpage va))) (voff va)) w u" for u
  proof -
    note st = store_apart(4,5) [OF that(1) va that(3-5)]
    have "fr s' = fr u" "ref s' = ref u" by (simp_all add: that(5) fun_eq_iff)
    then show ?thesis using that(2) all_frames_cong(1) [of s' A u, OF st(1)] all_frames_cong(1) [of s' B u, OF st(2)] by (simp add: accounted_def uses_def)
  qed
  show ?thesis using ap va w
  proof (cases rule: write_cases)
    case direct
    then show ?thesis using store [OF ap acc] by blast
  next
    case (fault t k n s1)
    show ?thesis by (rule store [OF cow_resolved_apart [OF ap v(1,2) fault(1-5)] fault_accounted [OF ap acc v(1,2) fault(1-5)] fault(6-8)])
  qed
qed

lemma writes_accounted:
  assumes "apart s A B" "accounted s A B base" "\<forall>x \<in> set ws. user_va (fst (snd x))" "write_all (sp_d A) (sp_d B) ws s = Some s'"
  shows "apart s' A B" "accounted s' A B base" "kernel_pml4 s' = kernel_pml4 s"
proof -
  have "apart s' A B \<and> accounted s' A B base \<and> kernel_pml4 s' = kernel_pml4 s" using assms
  proof (induction ws arbitrary: s)
    case (Cons x ws)
    obtain who va w where x: "x = (who, va, w)" by (cases x) auto
    obtain s1 where s1: "user_write (if who then sp_d A else sp_d B) va w s = Some s1" "write_all (sp_d A) (sp_d B) ws s1 = Some s'"
      using Cons.prems(4) x by (auto split: option.splits)
    have va: "user_va va" using Cons.prems(3) x by simp
    have "apart s1 A B \<and> accounted s1 A B base"
    proof (cases who)
      case True
      then show ?thesis using write_apart(1) [OF Cons.prems(1) va] write_accounted [OF Cons.prems(1,2) va] s1(1) by simp
    next
      case False
      note ap = apart_sym [OF Cons.prems(1)]
      have acc: "accounted s B A base" using Cons.prems(2) accounted_sym by blast
      show ?thesis using write_apart(1) [OF ap va] write_accounted [OF ap acc va] s1(1) False apart_sym accounted_sym by (metis (full_types))
    qed
    then show ?case using Cons.IH [OF _ _ _ s1(2)] Cons.prems(3) kernel_pml4_write [OF s1(1)] by simp
  qed simp
  then show "apart s' A B" "accounted s' A B base" "kernel_pml4 s' = kernel_pml4 s" by blast+
qed

lemma forked_accounted:
  assumes ok: "fork_ok s A B" and f: "forked s A B (user_pages s A) s' B'" and acc: "accounted s A B base"
  shows "accounted s' A B' base"
proof -
  note o = fork_okD [OF ok] and d = forkedD [OF f]
  have pA: "pte s' A i j = (if present (pte s A i j) then cow_entry (pte s A i j) else pte s A i j)" "pte s' B' i j = (if present (pte s A i j) then child_entry (pte s A i j) else 0)"
    if "user_slot i" "j < 512" for i j using d(9,10) [OF that] that by (auto simp: user_pages_def)
  have pages: "user_pages s' A = user_pages s A" "user_pages s' B' = user_pages s A" using pA cow_entry_facts(2) child_entry_facts(2) by (auto simp: user_pages_def present_def)
  have at: "frame_at s' A x = frame_at s A x" "frame_at s' B' x = frame_at s A x" if "x \<in> user_pages s A" for x
    using that pA [of "fst x" "snd x"] cow_entry_facts(1) child_entry_facts(1) by (auto simp: user_pages_def frame_at_def)
  let ?P = "frame_at s A ` user_pages s A"
  have all: "all_frames s' A = tables A \<union> ?P" "all_frames s' B' = tables B' \<union> ?P" "all_frames s A = tables A \<union> ?P" using pages at by (simp_all add: all_frames_def)
  have "user_pages s B = {}" using o(5) by (auto simp: user_pages_def pte_def used_slots_def present_def split: option.splits)
  then have allB: "all_frames s B = tables B" by (simp add: all_frames_def)
  have fr1: "fr s' = fr s" using fr_base [OF d(2)] .
  have "ref s' k = base k + uses s' A k + uses s' B' k" if k: "k < 1024" for k
  proof -
    have a: "ref s k = base k + uses s A k + uses s B k" using acc k by (simp add: accounted_def)
    have nP: "fr s k \<notin> tables B" if "fr s k \<in> ?P" using that o(6) by auto
    show ?thesis
    proof (cases "fr s k \<in> tables B' - tables B")
      case True
      obtain l where l: "l < 1024" "fr s k = fr s l" "ref s l = 0" using d(8) [OF True] by blast
      then have z: "ref s k = 0" using fr_inj [of s k l] k o(1) by (simp add: frames_inv_def)
      then have "fr s k \<notin> all_frames s A" "base k = 0" using a by (auto simp: uses_def split: if_splits)
      then show ?thesis using d(15) [OF k True] all True by (simp add: uses_def fr1)
    next
      case False
      then show ?thesis using d(12) [OF k False] a nP d(7) all allB by (auto simp: uses_def fr1)
    qed
  qed
  then show ?thesis by (simp add: accounted_def)
qed

text \<open>A process may be forked: it owns its memory, the counts of its pages do not overflow, and there is room for the tables of the child.\<close>

definition may_fork :: "paging \<Rightarrow> space \<Rightarrow> bool" where
  "may_fork s A \<longleftrightarrow> owns s A \<and> (\<forall>k < 1024. fr s k \<in> all_frames s A \<longrightarrow> ref s k < 255) \<and> 3 + card (used_slots A) \<le> card (free_frames s)"

lemma created_fork_ok:
  assumes m: "may_fork s A" and c: "created s B s'"
  shows "fork_ok s' A B" "accounted s' A B (\<lambda>k. ref s k - uses s A k)" "\<And>va. user_va va \<Longrightarrow> view s' (sp_d A) va = view s (sp_d A) va"
proof -
  have o: "frames_inv s" "space_ok s A" "inj_on (frame_at s A) (user_pages s A)" "\<And>x. x \<in> user_pages s A \<Longrightarrow> frame_at s A x \<notin> tables A \<and> live s (frame_at s A x)"
    using m unfolding may_fork_def owns_def by blast+
  have c': "frames_inv s'" "space_ok s' B" "used_slots B = {}" "phys_pool_base s' = phys_pool_base s" "\<And>f. f \<in> tables B \<Longrightarrow> \<exists>k < 1024. f = fr s k \<and> ref s k = 0"
    "\<And>k. k < 1024 \<Longrightarrow> ref s' k = (if fr s k \<in> tables B then 1 else ref s k)" "\<And>a. frame_of a \<notin> tables B \<Longrightarrow> pg_mem s' a = pg_mem s a"
    "card (free_frames s) = card (free_frames s') + 3" using c unfolding created_def by blast+
  have dead: "\<not> live s f" if "f \<in> tables B" for f using c'(5) [OF that] live_fr [OF o(1)] by auto
  have fr1: "fr s' = fr s" using fr_base [OF c'(4)] .
  have keep: "live s' f" if "live s f" for f using that by (rule live_ref_cong [OF c'(4), rotated]) (use c'(6) in auto)
  have dis: "tables A \<inter> tables B = {}" using dead space_okD(2) [OF o(2)] by blast
  have mem: "pg_mem s' (ent f i) = pg_mem s (ent f i)" if "live s f" "i < 512" for f i
    using c'(7) [of "ent f i"] frame_of_ent [OF live_frame(1) [OF o(1) that(1)] that(2)] dead that(1) by auto
  have A: "space_ok s' A" "\<And>i j. user_slot i \<Longrightarrow> j < 512 \<Longrightarrow> pte s' A i j = pte s A i j"
    using space_cong [OF o(2), of s'] keep mem space_okD(2) [OF o(2)] by blast+
  have same: "all_frames s' A = all_frames s A" "user_pages s' A = user_pages s A" by (rule all_frames_cong, rule A(2), assumption+)+
  have at: "frame_at s' A x = frame_at s A x" if "x \<in> user_pages s A" for x using that A(2) by (auto simp: frame_at_def user_pages_def)
  have cnt: "\<exists>k < 1024. frame_at s A x = fr s k \<and> 0 < ref s' k \<and> ref s' k < 255" if x: "x \<in> user_pages s A" for x
  proof -
    obtain k where k: "k < 1024" "frame_at s A x = fr s k" "0 < ref s k" using o(4) [OF x] by (auto simp: live_def)
    moreover have "fr s k \<in> all_frames s A" using k(2) x by (metis UnI2 all_frames_def imageI)
    then have "ref s k < 255" using m k(1) by (simp add: may_fork_def)
    moreover have "fr s k \<notin> tables B" using dead o(4) [OF x] k(2) by auto
    ultimately show ?thesis using c'(6) [of k] by auto
  qed
  have nt: "frame_at s A x \<notin> tables A \<union> tables B" if "x \<in> user_pages s A" for x using dead o(4) [OF that] by blast
  have "card (used_slots A) \<le> card (free_frames s')" using m c'(8) by (simp add: may_fork_def)
  then show "fork_ok s' A B"
    unfolding fork_ok_def same(2) fr1 using c'(1-3) A(1) dis at o(3) nt cnt by (simp add: inj_on_def)
  have "user_pages s' B = {}" using c'(3) by (auto simp: user_pages_def pte_def used_slots_def present_def split: option.splits)
  then have allB: "all_frames s' B = tables B" by (simp add: all_frames_def)
  have liveA: "live s f" if "f \<in> all_frames s A" for f using that o(4) space_okD(2) [OF o(2)] by (auto simp: all_frames_def)
  show "accounted s' A B (\<lambda>k. ref s k - uses s A k)"
    unfolding accounted_def
  proof (intro allI impI)
    fix k assume k: "k < (1024 :: nat)"
    have "0 < ref s k" if "fr s k \<in> all_frames s A" using liveA [OF that] live_fr [OF o(1) k] by simp
    moreover have "ref s k = 0" "fr s k \<notin> all_frames s A" if "fr s k \<in> tables B" using dead [OF that] liveA live_fr [OF o(1) k] by auto
    ultimately show "ref s' k = ref s k - uses s A k + uses s' A k + uses s' B k" using c'(6) [OF k] by (auto simp: uses_def fr1 same(1) allB)
  qed
  show "view s' (sp_d A) va = view s (sp_d A) va" if va: "user_va va" for va
    using view_space [OF c'(1) A(1) va] view_space [OF o(1,2) va] A(2) [OF user_vaD(1,2) [OF va]] mem [of "frame_at s A (vslot va, vpage va)" "voff va"] o(4) [of "(vslot va, vpage va)"] user_vaD [OF va]
    by (auto simp: Let_def frame_at_def user_pages_def)
qed

text \<open>The end of the second of two spaces that are apart.\<close>

lemma exit_accounted:
  assumes ap: "apart s A B" and acc: "accounted s A B base" and k: "sp_d B \<noteq> kernel_pml4 s" and s': "s' = paging_free_user_space (sp_d B) s"
  shows "owns s' A" "k < 1024 \<Longrightarrow> ref s' k = base k + uses s' A k" "user_va va \<Longrightarrow> view s' (sp_d A) va = view s (sp_d A) va"
proof -
  note d = apartD [OF ap] and dB = apartD [OF apart_sym [OF ap]]
  have "owns s B" unfolding owns_def using d(1,3) dB(5,6,7) by (auto simp: inj_on_def live_def)
  from releasedD [OF release_space [OF this k, folded s']]
  have r: "frames_inv s'" "pg_mem s' = pg_mem s" "phys_pool_base s' = phys_pool_base s" "\<And>k. k < 1024 \<Longrightarrow> ref s' k = ref s k - uses s B k" by (simp_all add: uses_def)
  have fr1: "fr s' = fr s" using fr_base [OF r(3)] .
  have pte: "pte s' = pte s" by (simp add: pte_def r(2) fun_eq_iff split: option.split)
  have same: "user_pages s' A = user_pages s A" "frame_at s' A = frame_at s A" "all_frames s' A = all_frames s A" by (simp_all add: all_frames_def user_pages_def frame_at_def pte fun_eq_iff)
  show cnt: "ref s' k = base k + uses s' A k" if "k < 1024" for k using r(4) [OF that] acc that by (simp add: accounted_def uses_def same(3) fr1)
  have live: "live s' f" if "f \<in> all_frames s A" for f
  proof -
    have "live s f" using that d(6) space_okD(2) [OF d(2)] by (auto simp: all_frames_def live_def)
    then obtain l where l: "l < 1024" "f = fr s l" by (auto simp: live_def)
    then have "0 < ref s' l" using cnt [OF l(1)] that by (simp add: uses_def same(3) fr1)
    then show ?thesis using l fr1 by (auto simp: live_def)
  qed
  have ok: "space_ok s' A" by (rule space_cong [OF d(2)]) (use live r(2) in \<open>auto simp: all_frames_def\<close>)
  then show "owns s' A" unfolding owns_def same(1,2) using r(1) live d(5,7) by (auto simp: inj_on_def all_frames_def)
  show "view s' (sp_d A) va = view s (sp_d A) va" if "user_va va" using view_space [OF r(1) ok that] view_space [OF d(1,2) that] by (simp add: pte r(2) Let_def)
qed

text \<open>
  Property C4: a child comes and goes without a trace. Where there is room, \<open>fork\<close> can give a process a child with an address
  space of its own; parent and child may then write whatever they like, and when the child ends, the parent sees
  its own writes only, still owns its memory, and every frame has again exactly the references that others held before the fork and
  one for the parent where it uses the frame: no frame is lost, and none is given back too early.
\<close>

theorem fork_exit_balanced:
  assumes "may_fork s A" "kernel_ok s (kernel_pml4 s) kp kq"
  shows "\<exists>d s1 s2. paging_create_address_space (kernel_pml4 s) s = (d, s1) \<and> paging_clone_user_pages d (sp_d A) s1 = (0, s2)
    \<and> (\<forall>ws s3. (\<forall>x \<in> set ws. user_va (fst (snd x))) \<and> write_all (sp_d A) d ws s2 = Some s3 \<longrightarrow>
         (let s4 = paging_free_user_space d s3 in
            owns s4 A \<and> (\<forall>k < FRAME_POOL_MAX_FRAMES. ref s4 k = ref s k - uses s A k + uses s4 A k)
            \<and> (\<forall>va. user_va va \<longrightarrow> view s4 (sp_d A) va = fst (two_memories ws (view s (sp_d A), view s (sp_d A))) va)))"
proof -
  have inv: "frames_inv s" "3 \<le> card (free_frames s)" using assms(1) by (simp_all add: may_fork_def owns_def)
  obtain B s1 where B: "paging_create_address_space (kernel_pml4 s) s = (sp_d B, s1)" "created s B s1" by (rule create_space [OF inv(1) assms(2) inv(2)])
  note cf = created_fork_ok [OF assms(1) B(2)]
  obtain s2 B' where f: "paging_clone_user_pages (sp_d B) (sp_d A) s1 = (0, s2)" "forked s1 A B (user_pages s1 A) s2 B'" by (rule fork_all_pages [OF cf(1)])
  note ap = forked_apart [OF cf(1) f(2)] and acc = forked_accounted [OF cf(1) f(2) cf(2)] and vw = forked_views [OF cf(1) f(2)] and sp = forkedD(6) [OF f(2)]
  have k2: "kernel_pml4 s2 = kernel_pml4 s" using kernel_pml4_clone [of "sp_d B" "sp_d A" s1] f(1) B(2) by (simp add: created_def)
  have "\<not> live s (sp_d B)" using B(2) live_fr [OF inv(1)] by (auto simp: created_def tables_def)
  then have kd: "sp_d B \<noteq> kernel_pml4 s" using assms(2) by (auto simp: kernel_ok_def)
  have "let s4 = paging_free_user_space (sp_d B) s3 in
      owns s4 A \<and> (\<forall>k < FRAME_POOL_MAX_FRAMES. ref s4 k = ref s k - uses s A k + uses s4 A k)
      \<and> (\<forall>va. user_va va \<longrightarrow> view s4 (sp_d A) va = fst (two_memories ws (view s (sp_d A), view s (sp_d A))) va)"
    if ws: "\<forall>x \<in> set ws. user_va (fst (snd x))" "write_all (sp_d A) (sp_d B) ws s2 = Some s3" for ws s3
  proof -
    note w = writes_accounted [OF ap acc ws(1), unfolded sp, OF ws(2)]
    note e = exit_accounted [OF w(1,2), unfolded sp, OF _ refl]
    have "view s2 (sp_d A) a = view s (sp_d A) a" "view s2 (sp_d B) a = view s (sp_d A) a" if "user_va a" for a using vw [OF that] cf(3) [OF that] by simp_all
    from writes_refine [OF ap, unfolded sp, OF ws this]
    have "user_va va \<Longrightarrow> view s3 (sp_d A) va = fst (two_memories ws (view s (sp_d A), view s (sp_d A))) va" for va by blast
    then show ?thesis using e kd k2 w(3) by (simp add: Let_def)
  qed
  then show ?thesis using B(1) f(1) by blast
qed

text \<open>The parent of the example before, and its child's tables as those of the kernel.\<close>

definition demo_life :: paging where
  "demo_life = demo_fork\<lparr>kernel_pml4 := 0x205000\<rparr>"

lemma demo_life_same: "frames_inv demo_life" "space_ok demo_life A = space_ok demo_fork A" "pte demo_life A i j = pte demo_fork A i j" "fr demo_life = fr demo_fork" "ref demo_life = ref demo_fork"
  "user_pages demo_life A = user_pages demo_fork A" "frame_at demo_life A x = frame_at demo_fork A x" "live demo_life f = live demo_fork f" "free_frames demo_life = free_frames demo_fork"
proof -
  show e: "fr demo_life = fr demo_fork" "ref demo_life = ref demo_fork" "pte demo_life A i j = pte demo_fork A i j" for A i j
    by (simp_all add: demo_life_def fun_eq_iff fr_def ref_def pte_def split: option.split)
  have m: "pg_mem demo_life = pg_mem demo_fork" by (simp add: demo_life_def)
  show "frames_inv demo_life" using demo_frames(1) by (simp add: demo_life_def frames_inv_def base_ok_def fr_def)
  show l: "live demo_life f = live demo_fork f" for f by (simp add: live_def e)
  show "space_ok demo_life A = space_ok demo_fork A" unfolding space_ok_def upper_def slot_ok_def l m by (rule refl)
  show "user_pages demo_life A = user_pages demo_fork A" "frame_at demo_life A x = frame_at demo_fork A x" "free_frames demo_life = free_frames demo_fork"
    by (simp_all add: user_pages_def frame_at_def free_frames_def e)
qed

lemma demo_may_fork: "may_fork demo_life demo_parent" "kernel_ok demo_life (kernel_pml4 demo_life) 0x206000 0x207000"
proof -
  note o = fork_okD [OF demo_fork_ok]
  have "live demo_fork (frame_at demo_fork demo_parent x)" if "x \<in> user_pages demo_fork demo_parent" for x using o(7) [OF that] by (auto simp: live_def)
  then have own: "owns demo_life demo_parent" using o(2,6,8) demo_life_same(1) unfolding owns_def demo_life_same by (simp add: inj_on_def demo_life_same)
  have "ref demo_fork k < 255" if "k < 1024" for k using demo_frames(2,3) [of k] that by (cases "k < 8") auto
  moreover have "used_slots demo_parent = {64}" by (auto simp: used_slots_def demo_parent_def user_slot_def split: if_splits)
  moreover have "{8, 9, 10, 11} \<subseteq> free_frames demo_fork" using demo_frames(3) by (auto simp: free_frames_def)
  then have "card {8 :: nat, 9, 10, 11} \<le> card (free_frames demo_fork)" by (rule card_mono [OF finite_sets(1)])
  ultimately show "may_fork demo_life demo_parent" using own unfolding may_fork_def demo_life_same by simp
  have "upper demo_fork 0x205000 0x206000 0x207000" using space_okD(1) [OF o(3)] by (simp add: demo_child_def)
  then show "kernel_ok demo_life (kernel_pml4 demo_life) 0x206000 0x207000"
    using demo_live [of "0x205000"] demo_live [of "0x206000"] demo_live [of "0x207000"] unfolding kernel_ok_def demo_life_same by (simp add: demo_life_def upper_def)
qed

theorem fork_exit_balanced_witness:
  "\<exists>d s1 s2. paging_create_address_space 0x205000 demo_life = (d, s1) \<and> paging_clone_user_pages d 0x200000 s1 = (0, s2)
    \<and> (\<forall>s3. write_all 0x200000 d [(False, 0x8000008, 6)] s2 = Some s3 \<longrightarrow> view (paging_free_user_space d s3) 0x200000 0x8000008 = view demo_life 0x200000 0x8000008)"
proof -
  have va: "user_va 0x8000008" by (simp add: user_va_def)
  let ?ws = "[(False, 0x8000008, 6)] :: (bool \<times> u64 \<times> u64) list"
  have sp: "sp_d demo_parent = 0x200000" "kernel_pml4 demo_life = 0x205000" by (simp_all add: demo_parent_def demo_life_def)
  obtain d s1 s2 where s: "paging_create_address_space 0x205000 demo_life = (d, s1)" "paging_clone_user_pages d 0x200000 s1 = (0, s2)"
    "\<And>ws s3 va. \<forall>x \<in> set ws. user_va (fst (snd x)) \<Longrightarrow> write_all 0x200000 d ws s2 = Some s3 \<Longrightarrow> user_va va
       \<Longrightarrow> view (paging_free_user_space d s3) 0x200000 va = fst (two_memories ws (view demo_life 0x200000, view demo_life 0x200000)) va"
    using fork_exit_balanced [OF demo_may_fork, unfolded sp Let_def] by blast
  have "view (paging_free_user_space d s3) 0x200000 0x8000008 = view demo_life 0x200000 0x8000008" if "write_all 0x200000 d ?ws s2 = Some s3" for s3
    using s(3) [OF _ that va] va by simp
  then show ?thesis using s(1,2) by blast
qed

end
