(* ===== verification/Ring_Buffers.thy ===== *)
theory Ring_Buffers
  imports Vernis_Prelude
begin

text \<open>
  Ring buffers, which the kernel uses in six places: the IPC mailboxes and channels, the UDP receive
  queues and the TCP transmit buffer refuse to overwrite (\<open>bounded_fifo\<close>), the kernel log and the
  audit log overwrite their oldest entry (\<open>bounded_log\<close>). The first section computes what a
  position and a count in an array denote; the two locales are the interfaces the components are
  interpreted with.
\<close>

section \<open>Contents of a ring\<close>

definition ring_contents :: "nat \<Rightarrow> nat \<Rightarrow> 'a list \<Rightarrow> 'a list" where
  "ring_contents head count buf = map (\<lambda>i. buf ! ((head + i) mod length buf)) [0..<count]"

definition ring_newest :: "nat \<Rightarrow> nat \<Rightarrow> 'a list \<Rightarrow> 'a list" where
  "ring_newest head count buf =
     map (\<lambda>i. buf ! ((head + length buf - 1 - i) mod length buf)) [0..<count]"

lemma length_ring_contents [simp]: "length (ring_contents h c b) = c"
  by (simp add: ring_contents_def)

lemma length_ring_newest [simp]: "length (ring_newest h c b) = c"
  by (simp add: ring_newest_def)

lemma ring_contents_0 [simp]: "ring_contents h 0 b = []"
  by (simp add: ring_contents_def)

lemma ring_newest_0 [simp]: "ring_newest h 0 b = []"
  by (simp add: ring_newest_def)

lemma mod_below_twice: "a < 2 * n \<Longrightarrow> a mod n = (if a < n then a else a - (n :: nat))"
  by (simp add: le_mod_geq)

lemma mod_add_inj:
  assumes "(h + i) mod n = (h + j) mod (n :: nat)" "i < n" "j < n"
  shows "i = j"
proof -
  define r where "r = h mod n"
  have r: "r < n" using assms(2) by (simp add: r_def)
  have "(r + i) mod n = (r + j) mod n" using assms(1) by (simp add: r_def mod_add_left_eq)
  then show ?thesis using r assms(2,3) mod_below_twice [of "r + i" n] mod_below_twice [of "r + j" n]
    by (auto split: if_splits)
qed

lemma ring_contents_push [ring_simps]:
  assumes "c < length b"
  shows "ring_contents h (Suc c) (b[(h + c) mod length b := x]) = ring_contents h c b @ [x]"
proof -
  have pos: "b \<noteq> []" using assms by auto
  have "b[(h + c) mod length b := x] ! ((h + i) mod length b) = b ! ((h + i) mod length b)" if "i < c" for i
    using that assms mod_add_inj [of h c "length b" i] by (auto simp: nth_list_update pos)
  then show ?thesis using pos by (simp add: ring_contents_def)
qed

lemma ring_contents_head:
  assumes "0 < c" "h < length b"
  shows "b ! h = hd (ring_contents h c b)"
  using assms by (cases c) (simp_all add: ring_contents_def upt_conv_Cons del: upt_Suc)

lemma ring_contents_pop [ring_simps]:
  "ring_contents ((h + 1) mod length b) (c - 1) b = tl (ring_contents h c b)"
proof (cases c)
  case (Suc d)
  have "((h + 1) mod length b + i) mod length b = (h + Suc i) mod length b" for i
    by (simp add: mod_add_left_eq)
  with Suc show ?thesis
    by (simp add: ring_contents_def upt_conv_Cons map_Suc_upt [symmetric] comp_def
        del: upt_Suc map_Suc_upt)
qed (simp add: ring_contents_def)

lemma ring_contents_drop [ring_simps]:
  "n \<le> c \<Longrightarrow> ring_contents ((h + n) mod length b) (c - n) b = drop n (ring_contents h c b)"
  by (rule nth_equalityI) (auto simp: ring_contents_def mod_add_left_eq add.assoc)

lemma ring_tail_pop [ring_simps]: "0 < c \<Longrightarrow> (Suc h mod n + c - Suc 0) mod n = (h + c) mod n"
proof -
  assume "0 < c"
  then have "Suc h mod n + c - Suc 0 = Suc h mod n + (c - 1)" "Suc h + (c - 1) = h + c" by simp_all
  then show ?thesis by (metis mod_add_left_eq)
qed

lemma ring_newest_push [ring_simps]:
  assumes "h < length b" "c \<le> length b"
  shows "ring_newest ((h + 1) mod length b) (min (length b) (Suc c)) (b[h := x])
    = take (length b) (x # ring_newest h c b)"
proof (rule nth_equalityI)
  show "length (ring_newest ((h + 1) mod length b) (min (length b) (Suc c)) (b[h := x]))
    = length (take (length b) (x # ring_newest h c b))" by simp
next
  fix i assume "i < length (ring_newest ((h + 1) mod length b) (min (length b) (Suc c)) (b[h := x]))"
  then have i: "i < length b" "i < Suc c" by auto
  let ?n = "length b"
  have pos: "((h + 1) mod ?n + ?n - 1 - i) mod ?n = (h + ?n - i) mod ?n"
  proof (cases "h + 1 = ?n")
    case True
    with i have "(h + 1) mod ?n + ?n - 1 - i = h - i" "h + ?n - i = h - i + ?n" by auto
    then show ?thesis by simp
  next
    case False
    with assms(1) i show ?thesis by simp
  qed
  have old: "(h + ?n - i) mod ?n \<noteq> h" if "0 < i"
    using that i(1) assms(1) mod_below_twice [of "h + ?n - i" ?n] by (auto split: if_splits)
  show "ring_newest ((h + 1) mod ?n) (min ?n (Suc c)) (b[h := x]) ! i = take ?n (x # ring_newest h c b) ! i"
  proof (cases i)
    case 0
    then show ?thesis using i assms(1) pos by (simp add: ring_newest_def)
  next
    case (Suc k)
    then show ?thesis using i assms(1) pos old by (simp add: ring_newest_def)
  qed
qed

section \<open>The interface of a bounded queue\<close>

text \<open>
  What a client of a non-overwriting ring relies on. The lemmas are about the loops the
  components run over it: a producer that stops when the queue is full, a consumer that stops
  when it is empty.
\<close>

locale bounded_fifo =
  fixes cap :: nat
    and push :: "'a \<Rightarrow> 'q \<Rightarrow> 'q"
    and front :: "'q \<Rightarrow> 'a"
    and pop :: "'q \<Rightarrow> 'q"
    and contents :: "'q \<Rightarrow> 'a list"
    and invar :: "'q \<Rightarrow> bool"
  assumes contents_bounded: "invar q \<Longrightarrow> length (contents q) \<le> cap"
    and contents_push: "invar q \<Longrightarrow> length (contents q) < cap \<Longrightarrow> contents (push x q) = contents q @ [x]"
    and invar_push: "invar q \<Longrightarrow> length (contents q) < cap \<Longrightarrow> invar (push x q)"
    and front_contents: "invar q \<Longrightarrow> contents q \<noteq> [] \<Longrightarrow> front q = hd (contents q)"
    and contents_pop: "invar q \<Longrightarrow> contents q \<noteq> [] \<Longrightarrow> contents (pop q) = tl (contents q)"
    and invar_pop: "invar q \<Longrightarrow> contents q \<noteq> [] \<Longrightarrow> invar (pop q)"
begin

fun write_loop :: "'a list \<Rightarrow> 'q \<Rightarrow> nat \<times> 'q" where
  "write_loop [] q = (0, q)"
| "write_loop (x # xs) q =
     (if length (contents q) \<ge> cap then (0, q)
      else let (n, q') = write_loop xs (push x q) in (Suc n, q'))"

fun read_loop :: "nat \<Rightarrow> 'q \<Rightarrow> 'a list \<times> 'q" where
  "read_loop 0 q = ([], q)"
| "read_loop (Suc n) q =
     (if contents q = [] then ([], q)
      else let (xs, q') = read_loop n (pop q) in (front q # xs, q'))"

lemma write_loop_correct:
  assumes "invar q"
  shows "fst (write_loop xs q) = min (length xs) (cap - length (contents q))
    \<and> contents (snd (write_loop xs q)) = contents q @ take (cap - length (contents q)) xs
    \<and> invar (snd (write_loop xs q))"
  using assms
proof (induction xs arbitrary: q)
  case (Cons x xs)
  show ?case
  proof (cases "length (contents q) < cap")
    case True
    with Cons.prems have "invar (push x q)" "contents (push x q) = contents q @ [x]"
      by (simp_all add: invar_push contents_push)
    moreover obtain k where "cap - length (contents q) = Suc k" "cap - Suc (length (contents q)) = k"
      using True by (metis Suc_diff_Suc)
    ultimately show ?thesis using True Cons.IH [of "push x q"]
      by (auto simp: split_beta Let_def)
  next
    case False
    with Cons.prems show ?thesis by simp
  qed
qed simp

lemma read_loop_correct:
  assumes "invar q"
  shows "fst (read_loop n q) = take n (contents q)
    \<and> contents (snd (read_loop n q)) = drop n (contents q)
    \<and> invar (snd (read_loop n q))"
  using assms
proof (induction n arbitrary: q)
  case (Suc n)
  show ?case
  proof (cases "contents q")
    case Nil
    with Suc.prems show ?thesis by simp
  next
    case (Cons x xs)
    with Suc.prems have "invar (pop q)" "contents (pop q) = xs" "front q = x"
      by (simp_all add: invar_pop contents_pop front_contents)
    with Cons Suc.IH [of "pop q"] show ?thesis by (auto simp: split_beta Let_def)
  qed
qed simp

text \<open>First in, first out: what fits is delivered behind what was already queued, unchanged.\<close>

lemma write_then_read:
  assumes "invar q" and "length (contents q) + length xs \<le> cap"
  shows "fst (read_loop (length (contents q) + length xs) (snd (write_loop xs q))) = contents q @ xs"
  using assms write_loop_correct [OF assms(1), of xs]
    read_loop_correct [of "snd (write_loop xs q)" "length (contents q) + length xs"]
  by simp

end

section \<open>The interface of a bounded log\<close>

text \<open>
  A log records calls; \<open>shown\<close> is what a reader sees of a call, the strings cut to the size of their
  fields.
\<close>

locale bounded_log =
  fixes cap :: nat
    and record_entry :: "'c \<Rightarrow> 'l \<Rightarrow> 'l"
    and shown :: "'c \<Rightarrow> 'e"
    and newest :: "'l \<Rightarrow> 'e list"
    and invar :: "'l \<Rightarrow> bool"
  assumes newest_record: "invar l \<Longrightarrow> newest (record_entry e l) = take cap (shown e # newest l)"
    and invar_record: "invar l \<Longrightarrow> invar (record_entry e l)"
    and newest_bounded: "invar l \<Longrightarrow> length (newest l) \<le> cap"
begin

lemma invar_fold: "invar l \<Longrightarrow> invar (fold record_entry es l)"
  by (induction es arbitrary: l) (auto simp: invar_record)

text \<open>After any history the log holds exactly its last \<open>cap\<close> entries, newest first.\<close>

lemma newest_fold: "invar l \<Longrightarrow> newest (fold record_entry es l) = take cap (rev (map shown es) @ newest l)"
proof (induction es arbitrary: l)
  case Nil
  then show ?case by (simp add: newest_bounded)
next
  case (Cons e es)
  then have "newest (fold record_entry es (record_entry e l))
      = take cap (rev (map shown es) @ take cap (shown e # newest l))"
    by (simp add: invar_record newest_record)
  then show ?case by (simp add: min_def)
qed

lemma newest_from_empty: "invar l \<Longrightarrow> newest l = [] \<Longrightarrow> newest (fold record_entry es l) = take cap (rev (map shown es))"
  by (simp add: newest_fold)

end

end
