(* ===== verification/Tcp.thy ===== *)
theory Tcp
  imports Ring_Buffers
begin

text \<open>
  The TCP implementation, \<open>src/kernel/net/tcp.c\<close> with \<open>src/include/tcp.h\<close>: sixteen control blocks,
  the handshake and teardown state machine, a transmit ring with go-back-N retransmission, a linear
  receive buffer with one out-of-order segment, and the checksum. The IP layer's transmit callback is
  the list of segments handed to it (\<open>tcp_wire\<close>, oldest first); the callers ignore its result. The
  kernel tick that the functions read is their argument \<open>now\<close>. Incoming segments are byte lists.
\<close>

section \<open>Data\<close>

abbreviation TCP_MAX_SOCKETS :: nat where "TCP_MAX_SOCKETS \<equiv> 16"
abbreviation TCP_RX_BUF_SIZE :: nat where "TCP_RX_BUF_SIZE \<equiv> 1024"
abbreviation TCP_TX_BUF_SIZE :: nat where "TCP_TX_BUF_SIZE \<equiv> 2048"
abbreviation TCP_MAX_SEG :: nat where "TCP_MAX_SEG \<equiv> 1024"
abbreviation TCP_HEADER_SIZE :: nat where "TCP_HEADER_SIZE \<equiv> 20"

definition TCP_FLAG_FIN :: u8 where "TCP_FLAG_FIN = 0x01"
definition TCP_FLAG_SYN :: u8 where "TCP_FLAG_SYN = 0x02"
definition TCP_FLAG_RST :: u8 where "TCP_FLAG_RST = 0x04"
definition TCP_FLAG_PSH :: u8 where "TCP_FLAG_PSH = 0x08"
definition TCP_FLAG_ACK :: u8 where "TCP_FLAG_ACK = 0x10"

lemmas tcp_flags = TCP_FLAG_FIN_def TCP_FLAG_SYN_def TCP_FLAG_RST_def TCP_FLAG_PSH_def TCP_FLAG_ACK_def

datatype TcpState = TCP_CLOSED | TCP_LISTEN | TCP_SYN_SENT | TCP_SYN_RECEIVED | TCP_ESTABLISHED
  | TCP_FIN_WAIT_1 | TCP_FIN_WAIT_2 | TCP_CLOSE_WAIT | TCP_CLOSING | TCP_LAST_ACK | TCP_TIME_WAIT

record TcpControlBlock =
  tc_state :: TcpState
  local_ip :: u32
  local_port :: u16
  remote_ip :: u32
  remote_port :: u16
  seq_num :: u32
  ack_num :: u32
  window :: u16
  remote_window :: u16
  retransmit_count :: nat
  last_activity_tick :: u32
  from_listener :: bool
  accepted :: bool
  rx_buf :: bytes
  rx_len :: nat
  snd_una :: u32
  tx_start :: nat
  rto_tick :: u32
  tx_buf :: bytes
  ooo_valid :: bool
  ooo_seq :: u32
  ooo_len :: nat
  ooo_buf :: bytes

record TcpHeader =
  h_src_port :: u16
  h_dst_port :: u16
  h_seq_num :: u32
  h_ack_num :: u32
  h_data_offset :: u8
  h_flags :: u8
  h_window :: u16
  h_checksum :: u16
  h_urgent_ptr :: u16

record tcp_state =
  g_tcbs :: "TcpControlBlock list"
  g_ip_output :: bool
  g_local_ip :: u32
  g_next_ephemeral :: u16
  tcp_wire :: "(u32 \<times> bytes) list"

definition zero_tcb :: TcpControlBlock where
  "zero_tcb = \<lparr>tc_state = TCP_CLOSED, local_ip = 0, local_port = 0, remote_ip = 0, remote_port = 0, seq_num = 0,
     ack_num = 0, window = 0, remote_window = 0, retransmit_count = 0, last_activity_tick = 0, from_listener = False,
     accepted = False, rx_buf = replicate TCP_RX_BUF_SIZE 0, rx_len = 0, snd_una = 0, tx_start = 0, rto_tick = 0,
     tx_buf = replicate TCP_TX_BUF_SIZE 0, ooo_valid = False, ooo_seq = 0, ooo_len = 0,
     ooo_buf = replicate TCP_MAX_SEG 0\<rparr>"

section \<open>Byte order, header, checksum\<close>

definition t_htons :: "u16 \<Rightarrow> u16" where
  "t_htons h = drop_bit 8 h OR push_bit 8 h"

definition t_htonl :: "u32 \<Rightarrow> u32" where
  "t_htonl h = (drop_bit 24 h AND 0xFF) OR (drop_bit 8 h AND 0xFF00) OR (push_bit 8 h AND 0xFF0000) OR push_bit 24 h"

abbreviation t_ntohs :: "u16 \<Rightarrow> u16" where "t_ntohs \<equiv> t_htons"
abbreviation t_ntohl :: "u32 \<Rightarrow> u32" where "t_ntohl \<equiv> t_htonl"

text \<open>The packed header in memory: the machine is little-endian.\<close>

definition header_bytes :: "TcpHeader \<Rightarrow> bytes" where
  "header_bytes h = le16_bytes (h_src_port h) @ le16_bytes (h_dst_port h) @ le32_bytes (h_seq_num h)
     @ le32_bytes (h_ack_num h) @ [h_data_offset h, h_flags h] @ le16_bytes (h_window h)
     @ le16_bytes (h_checksum h) @ le16_bytes (h_urgent_ptr h)"

definition header_of :: "bytes \<Rightarrow> TcpHeader" where
  "header_of b = \<lparr>h_src_port = le16_of b, h_dst_port = le16_of (drop 2 b), h_seq_num = le32_of (drop 4 b),
     h_ack_num = le32_of (drop 8 b), h_data_offset = b ! 12, h_flags = b ! 13, h_window = le16_of (drop 14 b),
     h_checksum = le16_of (drop 16 b), h_urgent_ptr = le16_of (drop 18 b)\<rparr>"

fun checksum_loop :: "u32 \<Rightarrow> bytes \<Rightarrow> u32" where
  "checksum_loop sm [] = sm"
| "checksum_loop sm [x] = sm + push_bit 8 (ucast x)"
| "checksum_loop sm (x # y # p) = checksum_loop (sm + (push_bit 8 (ucast x) OR ucast y)) p"

lemma fold_carry_step: "unat ((s AND 0xFFFF) + drop_bit 16 s) = unat (s :: u32) mod 65536 + unat s div 65536"
proof -
  have d: "unat (drop_bit 16 s) = unat s div 65536" by (simp add: drop_bit_eq_div unat_div_distrib)
  have "s AND 0xFFFF = take_bit 16 s" by (simp add: take_bit_eq_mask mask_numeral)
  then have m: "unat (s AND 0xFFFF) = unat s mod 65536" by (simp add: take_bit_eq_mod unat_mod_distrib)
  have "unat s < 2 ^ 32" using unsigned_less [of s, where ?'a = nat] by simp
  then have "unat s div 65536 < 65536" by (simp add: less_mult_imp_div_less)
  moreover have "unat s mod 65536 < 65536" by simp
  ultimately have "unat s mod 65536 + unat s div 65536 < 2 ^ 32" by simp
  then show ?thesis by (simp add: unat_word_ariths d m)
qed

lemma drop_bit_16_eq_0: "drop_bit 16 (s :: u32) = 0 \<longleftrightarrow> unat s div 65536 = 0"
  by (simp add: unat_eq_0 [symmetric] drop_bit_eq_div unat_div_distrib)

lemma fold_carry_decreases:
  assumes "drop_bit 16 (s :: u32) \<noteq> 0"
  shows "unat ((s AND 0xFFFF) + drop_bit 16 s) < unat s"
proof -
  define q r where "q = unat s div 65536" "r = unat s mod 65536"
  then have "0 < q" "unat s = q * 65536 + r" using assms by (simp_all only: drop_bit_16_eq_0) simp_all
  then show ?thesis by (simp add: fold_carry_step q_r_def [symmetric])
qed

function fold_carry :: "u32 \<Rightarrow> u32" where
  "fold_carry s = (if drop_bit 16 s \<noteq> 0 then fold_carry ((s AND 0xFFFF) + drop_bit 16 s) else s)"
  by pat_completeness auto

termination
  by (relation "measure unat") (auto intro: fold_carry_decreases)

declare fold_carry.simps [simp del]

definition tcp_calc_checksum :: "bytes \<Rightarrow> u32 \<Rightarrow> u32 \<Rightarrow> u16" where
  "tcp_calc_checksum packet src_ip dst_ip =
     (let sm = (drop_bit 16 src_ip AND 0xFFFF) + (src_ip AND 0xFFFF) + (drop_bit 16 dst_ip AND 0xFFFF)
            + (dst_ip AND 0xFFFF) + 6 + of_nat (length packet)
      in t_htons (ucast (NOT (fold_carry (checksum_loop sm packet)))))"

section \<open>Output\<close>

definition upd_tcb :: "nat \<Rightarrow> (TcpControlBlock \<Rightarrow> TcpControlBlock) \<Rightarrow> tcp_state \<Rightarrow> tcp_state" where
  "upd_tcb i f s = s\<lparr>g_tcbs := (g_tcbs s)[i := f (g_tcbs s ! i)]\<rparr>"

definition build_segment :: "u32 \<Rightarrow> TcpControlBlock \<Rightarrow> u8 \<Rightarrow> bytes \<Rightarrow> u32 \<Rightarrow> bytes" where
  "build_segment my_ip tcb flags payload sq =
     (let h = \<lparr>h_src_port = t_htons (local_port tcb), h_dst_port = t_htons (remote_port tcb), h_seq_num = t_htonl sq,
            h_ack_num = (if flags AND TCP_FLAG_ACK \<noteq> 0 then t_htonl (ack_num tcb) else 0),
            h_data_offset = push_bit 4 5, h_flags = flags, h_window = t_htons (window tcb),
            h_checksum = 0, h_urgent_ptr = 0\<rparr>;
          c = tcp_calc_checksum (header_bytes h @ payload) my_ip (remote_ip tcb)
      in header_bytes (h\<lparr>h_checksum := c\<rparr>) @ payload)"

definition tcp_output_seq :: "nat \<Rightarrow> u8 \<Rightarrow> bytes \<Rightarrow> u32 \<Rightarrow> tcp_state \<Rightarrow> tcp_state" where
  "tcp_output_seq i flags payload sq s =
     (if \<not> g_ip_output s \<or> length payload > TCP_MAX_SEG then s
      else let s1 = upd_tcb i (\<lambda>tcb. tcb\<lparr>window := of_nat (TCP_RX_BUF_SIZE - rx_len tcb)\<rparr>) s;
               tcb = g_tcbs s1 ! i
        in s1\<lparr>tcp_wire := tcp_wire s1 @ [(remote_ip tcb, build_segment (g_local_ip s1) tcb flags payload sq)]\<rparr>)"

definition tcp_output :: "nat \<Rightarrow> u8 \<Rightarrow> bytes \<Rightarrow> tcp_state \<Rightarrow> tcp_state" where
  "tcp_output i flags payload s = tcp_output_seq i flags payload (seq_num (g_tcbs s ! i)) s"

definition tcp_retransmit_head :: "nat \<Rightarrow> tcp_state \<Rightarrow> tcp_state" where
  "tcp_retransmit_head i s =
     (let tcb = g_tcbs s ! i;
          inflight = seq_num tcb - snd_una tcb;
          n = (if inflight < of_nat TCP_MAX_SEG then unat inflight else TCP_MAX_SEG);
          lin = map (\<lambda>k. tx_buf tcb ! ((tx_start tcb + k) mod TCP_TX_BUF_SIZE)) [0..<n]
      in tcp_output_seq i (TCP_FLAG_PSH OR TCP_FLAG_ACK) lin (snd_una tcb) s)"

definition tcp_ack_advance :: "u32 \<Rightarrow> u32 \<Rightarrow> u16 \<Rightarrow> TcpControlBlock \<Rightarrow> TcpControlBlock" where
  "tcp_ack_advance now ack wnd tcb =
     (let newly = ack - snd_una tcb;
          inflight = seq_num tcb - snd_una tcb;
          tcb1 = (if newly > 0 \<and> newly \<le> inflight
            then tcb\<lparr>snd_una := ack, tx_start := (tx_start tcb + unat newly) mod TCP_TX_BUF_SIZE,
                   retransmit_count := 0, rto_tick := now\<rparr>
            else tcb)
      in tcb1\<lparr>remote_window := wnd\<rparr>)"

definition tcp_pick_isn :: "u32 \<Rightarrow> nat \<Rightarrow> u32" where
  "tcp_pick_isn now sock = push_bit 6 now + of_nat sock * 64 + 1"

definition tcp_send_syn :: "u32 \<Rightarrow> nat \<Rightarrow> tcp_state \<Rightarrow> tcp_state" where
  "tcp_send_syn now i s = upd_tcb i (\<lambda>t. t\<lparr>last_activity_tick := now\<rparr>) (tcp_output i TCP_FLAG_SYN [] s)"

definition tcp_send_synack :: "u32 \<Rightarrow> nat \<Rightarrow> tcp_state \<Rightarrow> tcp_state" where
  "tcp_send_synack now i s =
     upd_tcb i (\<lambda>t. t\<lparr>last_activity_tick := now\<rparr>) (tcp_output i (TCP_FLAG_SYN OR TCP_FLAG_ACK) [] s)"

definition tcp_send_ack :: "nat \<Rightarrow> tcp_state \<Rightarrow> tcp_state" where
  "tcp_send_ack i s = tcp_output i TCP_FLAG_ACK [] s"

section \<open>The socket interface\<close>

definition tcp_init :: "tcp_state \<Rightarrow> tcp_state" where
  "tcp_init s = s\<lparr>g_tcbs := replicate TCP_MAX_SOCKETS zero_tcb\<rparr>"

definition tcp_set_output :: "bool \<Rightarrow> u32 \<Rightarrow> tcp_state \<Rightarrow> tcp_state" where
  "tcp_set_output fn ip s = s\<lparr>g_ip_output := fn, g_local_ip := ip\<rparr>"

definition find_closed :: "tcp_state \<Rightarrow> nat option" where
  "find_closed s = find_slot (\<lambda>t. tc_state t = TCP_CLOSED) (g_tcbs s)"

definition tcp_listen :: "u16 \<Rightarrow> tcp_state \<Rightarrow> int \<times> tcp_state" where
  "tcp_listen port s =
     (case find_closed s of
        None \<Rightarrow> (-1, s)
      | Some i \<Rightarrow> (int i, upd_tcb i (\<lambda>_. zero_tcb\<lparr>tc_state := TCP_LISTEN, local_ip := g_local_ip s,
          local_port := port, window := of_nat TCP_RX_BUF_SIZE\<rparr>) s))"

definition tcp_connect :: "u32 \<Rightarrow> u32 \<Rightarrow> u16 \<Rightarrow> tcp_state \<Rightarrow> int \<times> tcp_state" where
  "tcp_connect now ip port s =
     (case find_closed s of
        None \<Rightarrow> (-1, s)
      | Some i \<Rightarrow>
          let next = g_next_ephemeral s + 1;
              s1 = upd_tcb i (\<lambda>_. zero_tcb\<lparr>tc_state := TCP_SYN_SENT, local_ip := g_local_ip s,
                  local_port := g_next_ephemeral s, remote_ip := ip, remote_port := port,
                  seq_num := tcp_pick_isn now i, window := of_nat TCP_RX_BUF_SIZE\<rparr>)
                (s\<lparr>g_next_ephemeral := (if next < 49152 then 49152 else next)\<rparr>)
          in (int i, tcp_send_syn now i s1))"

text \<open>The copy loop \<open>tx_buf[(w + i) % TCP_TX_BUF_SIZE] = s[i]\<close>.\<close>

fun ring_store :: "'a list \<Rightarrow> nat \<Rightarrow> 'a list \<Rightarrow> 'a list" where
  "ring_store buf w [] = buf"
| "ring_store buf w (x # xs) = ring_store (buf[w mod length buf := x]) (Suc w) xs"

text \<open>
  How much \<open>tcp_send\<close> accepts of \<open>len > 0\<close> bytes: nothing when the peer's window or the ring is full,
  otherwise \<open>len\<close> cut to the window, to the ring and to one segment.
\<close>

definition tcp_send_len :: "TcpControlBlock \<Rightarrow> int \<Rightarrow> int" where
  "tcp_send_len tcb len =
     (let fly = seq_num tcb - snd_una tcb;
          space = int TCP_TX_BUF_SIZE - sint fly;
          allow = int (unat (remote_window tcb)) - sint fly
      in if allow \<le> 0 \<or> space \<le> 0 then 0
         else let len1 = (if len > allow then allow else len);
                  len2 = (if len1 > space then space else len1)
           in if len2 > int TCP_MAX_SEG then int TCP_MAX_SEG else len2)"

definition tcp_send :: "u32 \<Rightarrow> int \<Rightarrow> bytes \<Rightarrow> int \<Rightarrow> tcp_state \<Rightarrow> int \<times> tcp_state" where
  "tcp_send now sock buf len s =
     (if sock < 0 \<or> sock \<ge> int TCP_MAX_SOCKETS then (-1, s)
      else let i = nat sock; tcb = g_tcbs s ! i in
        if tc_state tcb \<noteq> TCP_ESTABLISHED \<and> tc_state tcb \<noteq> TCP_CLOSE_WAIT then (-1, s)
        else if len \<le> 0 then (0, s)
        else let n = tcp_send_len tcb len in
          if n = 0 then (0, s)
          else let data = take (nat n) buf;
                   w = (tx_start tcb + unat (seq_num tcb - snd_una tcb)) mod TCP_TX_BUF_SIZE;
                   s1 = upd_tcb i (\<lambda>t. t\<lparr>tx_buf := ring_store (tx_buf t) w data\<rparr>) s;
                   s2 = tcp_output i (TCP_FLAG_PSH OR TCP_FLAG_ACK) data s1
            in (n, upd_tcb i (\<lambda>t. t\<lparr>seq_num := seq_num t + of_int n, rto_tick := now\<rparr>) s2))"

text \<open>\<open>tcp_recv\<close> also returns the bytes it stored through \<open>buf\<close>.\<close>

definition can_receive :: "TcpState \<Rightarrow> bool" where
  "can_receive st \<longleftrightarrow> st = TCP_ESTABLISHED \<or> st = TCP_FIN_WAIT_1 \<or> st = TCP_FIN_WAIT_2"

definition tcp_recv :: "int \<Rightarrow> int \<Rightarrow> tcp_state \<Rightarrow> (int \<times> bytes) \<times> tcp_state" where
  "tcp_recv sock maxlen s =
     (if sock < 0 \<or> sock \<ge> int TCP_MAX_SOCKETS \<or> maxlen < 0 then ((-1, []), s)
      else let i = nat sock; tcb = g_tcbs s ! i in
        if rx_len tcb = 0 then ((if can_receive (tc_state tcb) then 0 else -1, []), s)
        else let n = (if int (rx_len tcb) < maxlen then rx_len tcb else nat maxlen);
                 was_full = TCP_RX_BUF_SIZE - rx_len tcb < TCP_MAX_SEG;
                 out = take n (rx_buf tcb);
                 s1 = upd_tcb i (\<lambda>t. t\<lparr>rx_buf := take (rx_len t - n) (drop n (rx_buf t)) @ drop (rx_len t - n) (rx_buf t),
                        rx_len := rx_len t - n\<rparr>) s
          in ((int n, out), if was_full \<and> n > 0 \<and> can_receive (tc_state tcb) then tcp_send_ack i s1 else s1))"

definition tcp_close :: "u32 \<Rightarrow> int \<Rightarrow> tcp_state \<Rightarrow> int \<times> tcp_state" where
  "tcp_close now sock s =
     (if sock < 0 \<or> sock \<ge> int TCP_MAX_SOCKETS then (-1, s)
      else let i = nat sock; st = tc_state (g_tcbs s ! i) in
        (0, if st = TCP_ESTABLISHED \<or> st = TCP_SYN_RECEIVED
            then upd_tcb i (\<lambda>t. t\<lparr>tc_state := TCP_FIN_WAIT_1, last_activity_tick := now\<rparr>)
                   (tcp_output i (TCP_FLAG_FIN OR TCP_FLAG_ACK) [] s)
            else if st = TCP_CLOSE_WAIT
            then upd_tcb i (\<lambda>t. t\<lparr>tc_state := TCP_LAST_ACK, last_activity_tick := now\<rparr>)
                   (tcp_output i (TCP_FLAG_FIN OR TCP_FLAG_ACK) [] s)
            else upd_tcb i (\<lambda>t. t\<lparr>tc_state := TCP_CLOSED\<rparr>) s))"

definition tcp_tick_socket :: "u32 \<Rightarrow> nat \<Rightarrow> tcp_state \<Rightarrow> tcp_state" where
  "tcp_tick_socket now i s =
     (let tcb = g_tcbs s ! i; st = tc_state tcb in
      if st = TCP_SYN_SENT \<or> st = TCP_SYN_RECEIVED then
        (if now - last_activity_tick tcb > 120 then
           (if retransmit_count tcb < 5 then
              upd_tcb i (\<lambda>t. t\<lparr>retransmit_count := retransmit_count t + 1, last_activity_tick := now\<rparr>)
                (if st = TCP_SYN_SENT then tcp_send_syn now i s else tcp_send_synack now i s)
            else upd_tcb i (\<lambda>t. t\<lparr>tc_state := TCP_CLOSED\<rparr>) s)
         else s)
      else if st = TCP_ESTABLISHED \<or> st = TCP_CLOSE_WAIT then
        (if seq_num tcb - snd_una tcb > 0 then
           let shift = (if retransmit_count tcb < 4 then retransmit_count tcb else 4)
           in if now - rto_tick tcb > push_bit shift 120 then
                (if retransmit_count tcb < 8 then
                   upd_tcb i (\<lambda>t. t\<lparr>retransmit_count := retransmit_count t + 1, rto_tick := now\<rparr>)
                     (tcp_retransmit_head i s)
                 else upd_tcb i (\<lambda>t. t\<lparr>tc_state := TCP_CLOSED\<rparr>) s)
              else s
         else s)
      else if st = TCP_FIN_WAIT_1 \<or> st = TCP_FIN_WAIT_2 \<or> st = TCP_LAST_ACK \<or> st = TCP_CLOSING \<or> st = TCP_TIME_WAIT then
        (if now - last_activity_tick tcb > 1200 then upd_tcb i (\<lambda>t. t\<lparr>tc_state := TCP_CLOSED\<rparr>) s else s)
      else s)"

definition tcp_tick :: "u32 \<Rightarrow> tcp_state \<Rightarrow> tcp_state" where
  "tcp_tick now s = fold (tcp_tick_socket now) [0..<TCP_MAX_SOCKETS] s"

definition tcp_state_name :: "TcpState \<Rightarrow> string" where
  "tcp_state_name st = (case st of
      TCP_CLOSED \<Rightarrow> ''CLOSED'' | TCP_LISTEN \<Rightarrow> ''LISTEN'' | TCP_SYN_SENT \<Rightarrow> ''SYN_SENT''
    | TCP_SYN_RECEIVED \<Rightarrow> ''SYN_RECEIVED'' | TCP_ESTABLISHED \<Rightarrow> ''ESTABLISHED'' | TCP_FIN_WAIT_1 \<Rightarrow> ''FIN_WAIT_1''
    | TCP_FIN_WAIT_2 \<Rightarrow> ''FIN_WAIT_2'' | TCP_CLOSE_WAIT \<Rightarrow> ''CLOSE_WAIT'' | TCP_CLOSING \<Rightarrow> ''CLOSING''
    | TCP_LAST_ACK \<Rightarrow> ''LAST_ACK'' | TCP_TIME_WAIT \<Rightarrow> ''TIME_WAIT'')"

section \<open>Incoming segments\<close>

text \<open>Append to the receive buffer what fits; how much was stored moves \<open>ack_num\<close>.\<close>

definition rx_store :: "bytes \<Rightarrow> TcpControlBlock \<Rightarrow> TcpControlBlock" where
  "rx_store data tcb =
     (let space = TCP_RX_BUF_SIZE - rx_len tcb;
          store = (if length data < space then length data else space)
      in tcb\<lparr>rx_buf := take (rx_len tcb) (rx_buf tcb) @ take store data @ drop (rx_len tcb + store) (rx_buf tcb),
             rx_len := rx_len tcb + store, ack_num := ack_num tcb + of_nat store\<rparr>)"

definition rx_data :: "u32 \<Rightarrow> bytes \<Rightarrow> TcpControlBlock \<Rightarrow> TcpControlBlock" where
  "rx_data sq data tcb =
     (if sq = ack_num tcb then
        let tcb1 = rx_store data tcb
        in if ooo_valid tcb1 \<and> ooo_seq tcb1 = ack_num tcb1
           then (rx_store (take (ooo_len tcb1) (ooo_buf tcb1)) tcb1)\<lparr>ooo_valid := False\<rparr>
           else tcb1
      else if sq > ack_num tcb \<and> \<not> ooo_valid tcb then
        let store = (if length data < TCP_MAX_SEG then length data else TCP_MAX_SEG)
        in tcb\<lparr>ooo_buf := take store data @ drop store (ooo_buf tcb), ooo_seq := sq, ooo_len := store, ooo_valid := True\<rparr>
      else tcb)"

definition established_segment :: "u32 \<Rightarrow> nat \<Rightarrow> TcpHeader \<Rightarrow> bytes \<Rightarrow> tcp_state \<Rightarrow> tcp_state" where
  "established_segment now i hdr data s =
     (let sq = t_ntohl (h_seq_num hdr); ack = t_ntohl (h_ack_num hdr); flags = h_flags hdr;
          s1 = (if flags AND TCP_FLAG_ACK \<noteq> 0 then upd_tcb i (tcp_ack_advance now ack (t_ntohs (h_window hdr))) s else s);
          s2 = (if length data > 0 then tcp_send_ack i (upd_tcb i (rx_data sq data) s1) else s1)
      in if flags AND TCP_FLAG_FIN \<noteq> 0 \<and> sq + of_nat (length data) = ack_num (g_tcbs s2 ! i)
         then upd_tcb i (\<lambda>t. t\<lparr>tc_state := TCP_CLOSE_WAIT\<rparr>)
                (tcp_send_ack i (upd_tcb i (\<lambda>t. t\<lparr>ack_num := ack_num t + 1\<rparr>) s2))
         else s2)"

definition tcp_handle_segment :: "u32 \<Rightarrow> nat \<Rightarrow> TcpHeader \<Rightarrow> bytes \<Rightarrow> tcp_state \<Rightarrow> tcp_state" where
  "tcp_handle_segment now i hdr data s =
     (let tcb = g_tcbs s ! i; sq = t_ntohl (h_seq_num hdr); ack = t_ntohl (h_ack_num hdr); flags = h_flags hdr in
      if flags AND TCP_FLAG_RST \<noteq> 0 then upd_tcb i (\<lambda>t. t\<lparr>tc_state := TCP_CLOSED\<rparr>) s
      else case tc_state tcb of
        TCP_SYN_SENT \<Rightarrow>
          (if flags AND (TCP_FLAG_SYN OR TCP_FLAG_ACK) = TCP_FLAG_SYN OR TCP_FLAG_ACK \<and> ack = seq_num tcb + 1
           then tcp_send_ack i (upd_tcb i (\<lambda>t. t\<lparr>seq_num := seq_num t + 1, ack_num := sq + 1,
                  remote_window := t_ntohs (h_window hdr), snd_una := seq_num t + 1, tx_start := 0,
                  rto_tick := now, tc_state := TCP_ESTABLISHED\<rparr>) s)
           else s)
      | TCP_SYN_RECEIVED \<Rightarrow>
          (if flags AND TCP_FLAG_ACK \<noteq> 0 \<and> ack = seq_num tcb + 1
           then upd_tcb i (\<lambda>t. t\<lparr>seq_num := seq_num t + 1, remote_window := t_ntohs (h_window hdr),
                  snd_una := seq_num t + 1, tx_start := 0, rto_tick := now, tc_state := TCP_ESTABLISHED\<rparr>) s
           else s)
      | TCP_ESTABLISHED \<Rightarrow> established_segment now i hdr data s
      | TCP_CLOSE_WAIT \<Rightarrow>
          (if flags AND TCP_FLAG_ACK \<noteq> 0 then upd_tcb i (tcp_ack_advance now ack (t_ntohs (h_window hdr))) s else s)
      | TCP_FIN_WAIT_1 \<Rightarrow>
          (let s1 = (if flags AND TCP_FLAG_ACK \<noteq> 0 \<and> ack = seq_num tcb + 1
                 then upd_tcb i (\<lambda>t. t\<lparr>seq_num := seq_num t + 1, tc_state := TCP_FIN_WAIT_2\<rparr>) s else s)
           in if flags AND TCP_FLAG_FIN \<noteq> 0
              then upd_tcb i (\<lambda>t. t\<lparr>tc_state := (if tc_state t = TCP_FIN_WAIT_2 then TCP_CLOSED else TCP_CLOSING),
                       last_activity_tick := now\<rparr>)
                     (tcp_send_ack i (upd_tcb i (\<lambda>t. t\<lparr>ack_num := sq + 1\<rparr>) s1))
              else s1)
      | TCP_FIN_WAIT_2 \<Rightarrow>
          (if flags AND TCP_FLAG_FIN \<noteq> 0
           then upd_tcb i (\<lambda>t. t\<lparr>tc_state := TCP_CLOSED\<rparr>) (tcp_send_ack i (upd_tcb i (\<lambda>t. t\<lparr>ack_num := sq + 1\<rparr>) s))
           else s)
      | TCP_CLOSING \<Rightarrow> (if flags AND TCP_FLAG_ACK \<noteq> 0 then upd_tcb i (\<lambda>t. t\<lparr>tc_state := TCP_CLOSED\<rparr>) s else s)
      | TCP_LAST_ACK \<Rightarrow> (if flags AND TCP_FLAG_ACK \<noteq> 0 then upd_tcb i (\<lambda>t. t\<lparr>tc_state := TCP_CLOSED\<rparr>) s else s)
      | _ \<Rightarrow> s)"

definition tcp_passive_open :: "u32 \<Rightarrow> u32 \<Rightarrow> nat \<Rightarrow> TcpHeader \<Rightarrow> tcp_state \<Rightarrow> tcp_state" where
  "tcp_passive_open now src_ip l hdr s =
     (case find_closed s of
        None \<Rightarrow> s
      | Some c \<Rightarrow> tcp_send_synack now c
          (upd_tcb c (\<lambda>_. zero_tcb\<lparr>tc_state := TCP_SYN_RECEIVED, local_ip := local_ip (g_tcbs s ! l),
             local_port := t_ntohs (h_dst_port hdr), remote_ip := src_ip, remote_port := t_ntohs (h_src_port hdr),
             seq_num := tcp_pick_isn now c, ack_num := t_ntohl (h_seq_num hdr) + 1,
             remote_window := t_ntohs (h_window hdr), window := of_nat TCP_RX_BUF_SIZE, from_listener := True\<rparr>) s))"

definition tcp_receive_packet :: "u32 \<Rightarrow> u32 \<Rightarrow> bytes \<Rightarrow> tcp_state \<Rightarrow> tcp_state" where
  "tcp_receive_packet now src_ip packet s =
     (if length packet < TCP_HEADER_SIZE then s
      else let hdr = header_of packet; sport = t_ntohs (h_src_port hdr); dport = t_ntohs (h_dst_port hdr);
               hlen = unat (drop_bit 4 (h_data_offset hdr)) * 4
        in if hlen < TCP_HEADER_SIZE \<or> hlen > length packet then s
           else case find_slot (\<lambda>t. tc_state t \<noteq> TCP_CLOSED \<and> tc_state t \<noteq> TCP_LISTEN \<and> local_port t = dport
                   \<and> remote_port t = sport \<and> remote_ip t = src_ip) (g_tcbs s) of
             Some i \<Rightarrow> tcp_handle_segment now i hdr (drop hlen packet) s
           | None \<Rightarrow>
               (case find_slot (\<lambda>t. tc_state t = TCP_LISTEN \<and> local_port t = dport
                    \<and> h_flags hdr AND TCP_FLAG_SYN \<noteq> 0 \<and> h_flags hdr AND TCP_FLAG_ACK = 0) (g_tcbs s) of
                  None \<Rightarrow> s
                | Some l \<Rightarrow> tcp_passive_open now src_ip l hdr s))"

definition tcp_accept :: "int \<Rightarrow> tcp_state \<Rightarrow> int \<times> tcp_state" where
  "tcp_accept listen_sock s =
     (if listen_sock < 0 \<or> listen_sock \<ge> int TCP_MAX_SOCKETS then (-1, s)
      else let l = g_tcbs s ! nat listen_sock in
        if tc_state l \<noteq> TCP_LISTEN then (-1, s)
        else case find_slot (\<lambda>t. from_listener t \<and> \<not> accepted t \<and> local_port t = local_port l
               \<and> (tc_state t = TCP_ESTABLISHED \<or> tc_state t = TCP_CLOSE_WAIT)) (g_tcbs s) of
          None \<Rightarrow> (-1, s)
        | Some i \<Rightarrow> (int i, upd_tcb i (\<lambda>t. t\<lparr>accepted := True\<rparr>) s))"

section \<open>Headers on the wire\<close>

lemma htons_bytes: "le16_bytes (t_htons h) = be16_bytes h"
proof -
  have "ucast (t_htons h) = (ucast (drop_bit 8 h) :: u8)" "ucast (drop_bit 8 (t_htons h)) = (ucast h :: u8)"
    by (rule bit_word_eqI; auto simp: t_htons_def bit_simps)+
  then show ?thesis by (simp add: le16_bytes_def be16_bytes_def)
qed

lemma htonl_bytes: "le32_bytes (t_htonl h) = be32_bytes h"
proof -
  have m: "(0xFF :: u32) = mask 8" "(0xFF00 :: u32) = push_bit 8 (mask 8)" "(0xFF0000 :: u32) = push_bit 16 (mask 8)"
    by (simp_all add: mask_numeral)
  have "ucast (t_htonl h) = (ucast (drop_bit 24 h) :: u8)" "ucast (drop_bit 8 (t_htonl h)) = (ucast (drop_bit 16 h) :: u8)"
    "ucast (drop_bit 16 (t_htonl h)) = (ucast (drop_bit 8 h) :: u8)" "ucast (drop_bit 24 (t_htonl h)) = (ucast h :: u8)"
    by (rule bit_word_eqI; auto simp: t_htonl_def m bit_simps)+
  then show ?thesis by (simp add: le32_bytes_def be32_bytes_def)
qed

lemma htons_htons [simp]: "t_htons (t_htons h) = h"
proof (rule bit_word_eqI)
  fix n assume "n < LENGTH(16)"
  then consider "n < 8" | "8 \<le> n" "n < 16" by force
  then show "bit (t_htons (t_htons h)) n = bit h n" by cases (auto simp: t_htons_def bit_simps)
qed

lemma htonl_htonl [simp]: "t_htonl (t_htonl h) = h"
proof (rule bit_word_eqI)
  have m: "(0xFF :: u32) = mask 8" "(0xFF00 :: u32) = push_bit 8 (mask 8)" "(0xFF0000 :: u32) = push_bit 16 (mask 8)"
    by (simp_all add: mask_numeral)
  have b: "bit (t_htonl x) k = (if k < 8 then bit x (24 + k) else if k < 16 then bit x (8 + k)
      else if k < 24 then bit x (k - 8) else bit x (k - 24))" if "k < 32" for x k
    using that by (auto simp: t_htonl_def m bit_simps)
  fix n assume "n < LENGTH(32)"
  then consider "n < 8" | "8 \<le> n" "n < 16" | "16 \<le> n" "n < 24" | "24 \<le> n" "n < 32" by force
  then show "bit (t_htonl (t_htonl h)) n = bit h n" by cases (auto simp: b)
qed

lemma length_header_bytes [simp]: "length (header_bytes h) = 20"
  by (simp add: header_bytes_def)

lemma header_of_bytes: "header_of (header_bytes h @ bs) = h"
proof -
  define t where "t = [h_data_offset h, h_flags h] @ le16_bytes (h_window h) @ le16_bytes (h_checksum h) @ le16_bytes (h_urgent_ptr h) @ bs"
  have b: "header_bytes h @ bs = le16_bytes (h_src_port h) @ le16_bytes (h_dst_port h) @ le32_bytes (h_seq_num h) @ le32_bytes (h_ack_num h) @ t"
    by (simp add: header_bytes_def t_def)
  have d: "drop 2 (header_bytes h @ bs) = le16_bytes (h_dst_port h) @ le32_bytes (h_seq_num h) @ le32_bytes (h_ack_num h) @ t"
    "drop 4 (header_bytes h @ bs) = le32_bytes (h_seq_num h) @ le32_bytes (h_ack_num h) @ t"
    "drop 8 (header_bytes h @ bs) = le32_bytes (h_ack_num h) @ t" "drop 14 (header_bytes h @ bs) = drop 2 t"
    "drop 16 (header_bytes h @ bs) = drop 4 t" "drop 18 (header_bytes h @ bs) = drop 6 t"
    by (simp_all add: b)
  have n: "(header_bytes h @ bs) ! 12 = t ! 0" "(header_bytes h @ bs) ! 13 = t ! 1" by (simp_all add: b nth_append)
  have t: "drop 2 t = le16_bytes (h_window h) @ le16_bytes (h_checksum h) @ le16_bytes (h_urgent_ptr h) @ bs"
    "drop 4 t = le16_bytes (h_checksum h) @ le16_bytes (h_urgent_ptr h) @ bs" "drop 6 t = le16_bytes (h_urgent_ptr h) @ bs"
    "t ! 0 = h_data_offset h" "t ! 1 = h_flags h"
    by (simp_all add: t_def)
  have "le16_of (header_bytes h @ bs) = h_src_port h" by (simp add: b byte_simps)
  then show ?thesis unfolding header_of_def d n t by (simp add: byte_simps)
qed

section \<open>The checksum\<close>

text \<open>The ones' complement sum as a natural number.\<close>

fun word_sum :: "bytes \<Rightarrow> nat" where
  "word_sum [] = 0"
| "word_sum [x] = 256 * unat x"
| "word_sum (x # y # p) = 256 * unat x + unat y + word_sum p"

lemma byte_less: "unat (x :: u8) < 256"
  using unsigned_less [of x, where ?'a = nat] by simp

lemma unat_byte32: "unat (ucast (x :: u8) :: u32) = unat x"
  by (simp add: unsigned_ucast_eq take_bit_nat_eq_self less_trans [OF byte_less])

lemma unat_hi_byte: "unat (push_bit 8 (ucast (x :: u8)) :: u32) = 256 * unat x"
proof -
  have "unat (push_bit 8 (ucast x) :: u32) = unat x * 256 mod 2 ^ 32"
    by (simp add: push_bit_eq_mult unat_word_ariths unat_byte32)
  then show ?thesis using byte_less [of x] by simp
qed

lemma unat_byte_pair: "unat (push_bit 8 (ucast (x :: u8)) OR ucast (y :: u8) :: u32) = 256 * unat x + unat y"
proof -
  have "push_bit 8 (ucast x) OR ucast y = (push_bit 8 (ucast x) + ucast y :: u32)"
    by (rule disjunctive_add [symmetric]) (auto simp: bit_simps dest: bit_imp_le_length)
  then have "unat (push_bit 8 (ucast x) OR ucast y :: u32) = (256 * unat x + unat y) mod 2 ^ 32"
    by (simp add: unat_word_ariths unat_hi_byte unat_byte32)
  then show ?thesis using byte_less [of x] byte_less [of y] by simp
qed

lemma word_sum_bound: "word_sum p \<le> 65535 * ((length p + 1) div 2)"
proof (induction p rule: word_sum.induct)
  case (3 x y p)
  then show ?case using byte_less [of x] byte_less [of y] by simp
qed (use byte_less in \<open>auto simp: less_eq_Suc_le intro!: less_imp_le\<close>)

lemma checksum_loop_sum:
  "unat sm + word_sum p < 2 ^ 32 \<Longrightarrow> unat (checksum_loop sm p) = unat sm + word_sum p"
proof (induction sm p rule: checksum_loop.induct)
  case (2 sm x)
  then show ?case by (simp add: unat_word_ariths unat_hi_byte)
next
  case (3 sm x y p)
  have "unat (sm + (push_bit 8 (ucast x) OR ucast y)) = unat sm + (256 * unat x + unat y)"
    using 3(2) by (simp add: unat_word_ariths unat_byte_pair)
  with 3 show ?case by simp
qed simp

lemma fold_carry_correct:
  "unat (fold_carry s) < 65536 \<and> unat (fold_carry s) mod 65535 = unat s mod 65535 \<and> (unat (fold_carry s) = 0 \<longleftrightarrow> unat s = 0)"
proof (induction s rule: fold_carry.induct)
  case (1 s)
  define q r where "q = unat s div 65536" "r = unat s mod 65536"
  then have s: "unat s = q * 65536 + r" "r < 65536" by simp_all
  show ?case
  proof (cases "q = 0")
    case True
    then have "drop_bit 16 s = 0" by (simp only: drop_bit_16_eq_0 q_r_def)
    then have "fold_carry s = s" by (subst fold_carry.simps) simp
    with True s show ?thesis by simp
  next
    case False
    let ?t = "(s AND 0xFFFF) + drop_bit 16 s"
    have ne: "drop_bit 16 s \<noteq> 0" using False by (simp only: drop_bit_16_eq_0 q_r_def) simp
    have eq: "fold_carry s = fold_carry ?t" using ne by (subst fold_carry.simps) (rule if_P)
    have t: "unat ?t = q + r" by (simp add: fold_carry_step q_r_def)
    have "unat s = (q + r) + q * 65535" using s by simp
    then have "unat s mod 65535 = (q + r) mod 65535" by (metis mod_mult_self1)
    with 1 [OF ne] False t s(1) show ?thesis unfolding eq by simp
  qed
qed

text \<open>The initial sum of \<open>tcp_calc_checksum\<close>: the pseudo-header.\<close>

definition pseudo_sum :: "u32 \<Rightarrow> u32 \<Rightarrow> nat \<Rightarrow> nat" where
  "pseudo_sum src dst n = unat src div 65536 + unat src mod 65536 + unat dst div 65536 + unat dst mod 65536 + 6 + n"

lemma tcp_calc_checksum_eq:
  assumes "length p \<le> 65535"
  shows "\<exists>f. f < 65536 \<and> 0 < f \<and> f mod 65535 = (pseudo_sum src dst (length p) + word_sum p) mod 65535
    \<and> tcp_calc_checksum p src dst = t_htons (of_nat (65535 - f))"
proof -
  let ?sm = "(drop_bit 16 src AND 0xFFFF) + (src AND 0xFFFF) + (drop_bit 16 dst AND 0xFFFF) + (dst AND 0xFFFF) + 6 + (of_nat (length p) :: u32)"
  have ip: "unat (drop_bit 16 x AND 0xFFFF) = unat x div 65536" "unat (x AND 0xFFFF) = unat x mod 65536"
    "unat x div 65536 < 65536" "unat x mod 65536 < 65536" for x :: u32
  proof -
    have "x AND 0xFFFF = take_bit 16 x" for x :: u32 by (simp add: take_bit_eq_mask mask_numeral)
    then have m: "unat (x AND 0xFFFF) = unat x mod 65536" for x :: u32 by (simp add: take_bit_eq_mod unat_mod_distrib)
    have "unat x < 2 ^ 32" using unsigned_less [of x, where ?'a = nat] by simp
    then show d: "unat x div 65536 < 65536" by (simp add: less_mult_imp_div_less)
    show "unat (drop_bit 16 x AND 0xFFFF) = unat x div 65536" "unat (x AND 0xFFFF) = unat x mod 65536"
      using d by (simp_all add: m drop_bit_eq_div unat_div_distrib)
    show "unat x mod 65536 < 65536" by simp
  qed
  have dr: "unat (drop_bit 16 x) mod 65536 = unat x div 65536" for x :: u32
    using ip(3) [of x] by (simp add: drop_bit_eq_div unat_div_distrib)
  have small: "pseudo_sum src dst (length p) < 400000" using ip(3,4) [of src] ip(3,4) [of dst] assms by (simp add: pseudo_sum_def)
  have sm: "unat ?sm = pseudo_sum src dst (length p)"
    using small assms dr by (simp add: unat_word_ariths ip unat_of_nat pseudo_sum_def)
  have "(length p + 1) div 2 \<le> 32768" using assms by simp
  then have "word_sum p \<le> 65535 * 32768" using word_sum_bound [of p] mult_le_mono2 order_trans by blast
  then have "unat ?sm + word_sum p < 2 ^ 32" using sm small by simp
  then have loop: "unat (checksum_loop ?sm p) = pseudo_sum src dst (length p) + word_sum p"
    using checksum_loop_sum sm by simp
  define w where "w = fold_carry (checksum_loop ?sm p)"
  define f where "f = unat w"
  have f: "f < 65536" "f mod 65535 = (pseudo_sum src dst (length p) + word_sum p) mod 65535" "0 < f"
    using fold_carry_correct [of "checksum_loop ?sm p"] loop by (auto simp: f_def w_def pseudo_sum_def)
  have "ucast (NOT w) = (NOT (ucast w) :: u16)" by (rule bit_word_eqI) (auto simp: bit_simps)
  also have "\<dots> = - 1 - of_nat f" by (simp add: not_eq_complement f_def)
  also have "\<dots> = of_nat (65535 - f)" using f(1) by (simp add: of_nat_diff)
  finally have "tcp_calc_checksum p src dst = t_htons (of_nat (65535 - f))"
    by (simp add: tcp_calc_checksum_def w_def)
  with f show ?thesis by blast
qed

text \<open>
  A segment whose checksum field holds the checksum computed with the field cleared: the receiver's
  sum is zero.
\<close>

lemma word_sum_append: "even (length a) \<Longrightarrow> word_sum (a @ b) = word_sum a + word_sum b"
  by (induction a rule: word_sum.induct) auto

lemma word_sum_be16: "word_sum (be16_bytes w) = unat w"
proof -
  have "unat (ucast (drop_bit 8 w) :: u8) = unat w div 256" "unat (ucast w :: u8) = unat w mod 256"
  proof -
    have "unat w < 65536" using unsigned_less [of w, where ?'a = nat] by simp
    then have "unat w div 256 < 256" by (simp add: less_mult_imp_div_less)
    then show "unat (ucast (drop_bit 8 w) :: u8) = unat w div 256"
      by (simp add: unsigned_ucast_eq drop_bit_eq_div unat_div_distrib take_bit_nat_eq_self)
    show "unat (ucast w :: u8) = unat w mod 256" by (simp add: unsigned_ucast_eq take_bit_eq_mod)
  qed
  then show ?thesis by (simp add: be16_bytes_def)
qed

lemma checksum_verifies:
  assumes pre: "even (length pre)" and len: "length pre + 2 + length post \<le> 65535"
    and c: "c = tcp_calc_checksum (pre @ [0, 0] @ post) src dst"
  shows "tcp_calc_checksum (pre @ le16_bytes c @ post) src dst = 0"
proof -
  let ?n = "length pre + 2 + length post"
  obtain f where f: "f < 65536" "0 < f" "f mod 65535 = (pseudo_sum src dst ?n + word_sum (pre @ [0, 0] @ post)) mod 65535"
      "c = t_htons (of_nat (65535 - f))"
    using tcp_calc_checksum_eq [of "pre @ [0, 0] @ post" src dst] len c by auto
  have cb: "le16_bytes c = be16_bytes (of_nat (65535 - f))" by (simp add: f(4) htons_bytes)
  have ws: "word_sum (le16_bytes c) = 65535 - f" 
    unfolding cb word_sum_be16 unat_of_nat using f(1) by simp
  have z: "word_sum (pre @ [0, 0] @ post) = word_sum pre + word_sum post"
    using word_sum_append [OF pre, of "[0, 0] @ post"] by simp
  have s: "word_sum (pre @ le16_bytes c @ post) = word_sum pre + (65535 - f) + word_sum post"
    using word_sum_append [OF pre, of "le16_bytes c @ post"] word_sum_append [of "le16_bytes c" post] by (simp add: ws)
  obtain g where g: "g < 65536" "0 < g" "g mod 65535 = (pseudo_sum src dst ?n + word_sum (pre @ le16_bytes c @ post)) mod 65535"
      "tcp_calc_checksum (pre @ le16_bytes c @ post) src dst = t_htons (of_nat (65535 - g))"
    using tcp_calc_checksum_eq [of "pre @ le16_bytes c @ post" src dst] len by auto
  have "(pseudo_sum src dst ?n + word_sum (pre @ le16_bytes c @ post)) mod 65535
      = ((pseudo_sum src dst ?n + word_sum (pre @ [0, 0] @ post)) mod 65535 + (65535 - f)) mod 65535"
    unfolding s z mod_add_left_eq by (simp only: ac_simps)
  also have "\<dots> = (f mod 65535 + (65535 - f)) mod 65535" using f(3) by simp
  also have "\<dots> = 0" using f(1) by (cases "f = 65535") auto
  finally have "g mod 65535 = 0" using g(3) by simp
  then have "g = 65535" using g(1,2) by auto
  then show ?thesis by (simp add: g(4) t_htons_def)
qed

section \<open>Well-formed control blocks\<close>

definition sending :: "TcpState \<Rightarrow> bool" where
  "sending st \<longleftrightarrow> st = TCP_ESTABLISHED \<or> st = TCP_CLOSE_WAIT"

definition inflight :: "TcpControlBlock \<Rightarrow> nat" where
  "inflight t = unat (seq_num t - snd_una t)"

definition tcb_inv :: "TcpControlBlock \<Rightarrow> bool" where
  "tcb_inv t \<longleftrightarrow> length (rx_buf t) = TCP_RX_BUF_SIZE \<and> rx_len t \<le> TCP_RX_BUF_SIZE
     \<and> length (tx_buf t) = TCP_TX_BUF_SIZE \<and> tx_start t < TCP_TX_BUF_SIZE
     \<and> (sending (tc_state t) \<longrightarrow> inflight t \<le> TCP_TX_BUF_SIZE)
     \<and> length (ooo_buf t) = TCP_MAX_SEG \<and> ooo_len t \<le> TCP_MAX_SEG \<and> retransmit_count t \<le> 8"

definition tcp_inv :: "tcp_state \<Rightarrow> bool" where
  "tcp_inv s \<longleftrightarrow> length (g_tcbs s) = TCP_MAX_SOCKETS \<and> list_all tcb_inv (g_tcbs s)"

text \<open>The bytes that were sent and not yet acknowledged, oldest first; the bytes received and not yet read.\<close>

definition tx_pending :: "TcpControlBlock \<Rightarrow> bytes" where
  "tx_pending t = ring_contents (tx_start t) (inflight t) (tx_buf t)"

definition rx_pending :: "TcpControlBlock \<Rightarrow> bytes" where
  "rx_pending t = take (rx_len t) (rx_buf t)"

lemma tcp_invD: "tcp_inv s \<Longrightarrow> i < 16 \<Longrightarrow> tcb_inv (g_tcbs s ! i)" "tcp_inv s \<Longrightarrow> length (g_tcbs s) = 16"
  by (simp_all add: tcp_inv_def list_all_length)

lemma upd_tcb_nth [simp]:
  "i < length (g_tcbs s) \<Longrightarrow> g_tcbs (upd_tcb i f s) ! i = f (g_tcbs s ! i)"
  "j \<noteq> i \<Longrightarrow> g_tcbs (upd_tcb i f s) ! j = g_tcbs s ! j"
  "length (g_tcbs (upd_tcb i f s)) = length (g_tcbs s)"
  "tcp_wire (upd_tcb i f s) = tcp_wire s" "g_ip_output (upd_tcb i f s) = g_ip_output s"
  "g_local_ip (upd_tcb i f s) = g_local_ip s"
  by (simp_all add: upd_tcb_def)

lemma upd_tcb_inv: "tcp_inv s \<Longrightarrow> (i < 16 \<Longrightarrow> tcb_inv (g_tcbs s ! i) \<Longrightarrow> tcb_inv (f (g_tcbs s ! i))) \<Longrightarrow> tcp_inv (upd_tcb i f s)"
  by (auto simp: tcp_inv_def upd_tcb_def list_all_length nth_update_if)

text \<open>Output changes only the advertised window and the wire.\<close>

lemma tcp_output_seq_tcbs:
  "g_tcbs (tcp_output_seq i fl p sq s) = g_tcbs s \<or>
   g_tcbs (tcp_output_seq i fl p sq s) = (g_tcbs s)[i := (g_tcbs s ! i)\<lparr>window := of_nat (TCP_RX_BUF_SIZE - rx_len (g_tcbs s ! i))\<rparr>]"
  by (auto simp: tcp_output_seq_def upd_tcb_def Let_def)

lemma tcb_inv_cong:
  assumes "rx_buf t' = rx_buf t" "rx_len t' = rx_len t" "tx_buf t' = tx_buf t" "tx_start t' = tx_start t"
    "ooo_buf t' = ooo_buf t" "ooo_len t' = ooo_len t" "retransmit_count t' = retransmit_count t"
    "sending (tc_state t') \<Longrightarrow> inflight t' \<le> TCP_TX_BUF_SIZE"
  shows "tcb_inv t \<Longrightarrow> tcb_inv t'"
  using assms by (simp add: tcb_inv_def)

lemma tcb_inv_window [simp]: "tcb_inv (t\<lparr>window := w\<rparr>) = tcb_inv t"
  by (simp add: tcb_inv_def inflight_def)

lemma tcp_output_seq_inv: "tcp_inv s \<Longrightarrow> tcp_inv (tcp_output_seq i fl p sq s)"
  using tcp_output_seq_tcbs [of i fl p sq s]
  by (auto simp: tcp_inv_def list_all_length nth_update_if)

lemma tcp_output_same:
  assumes "i < length (g_tcbs s)"
  shows "P (g_tcbs s ! i) \<Longrightarrow> (\<And>t w. P t \<Longrightarrow> P (t\<lparr>window := w\<rparr>)) \<Longrightarrow> P (g_tcbs (tcp_output_seq i fl p sq s) ! i)"
    "j \<noteq> i \<Longrightarrow> g_tcbs (tcp_output_seq i fl p sq s) ! j = g_tcbs s ! j"
    "length (g_tcbs (tcp_output_seq i fl p sq s)) = length (g_tcbs s)"
  using tcp_output_seq_tcbs [of i fl p sq s] assms by auto

lemma output_fields [simp]:
  assumes "i < length (g_tcbs s)"
  shows "tc_state (g_tcbs (tcp_output_seq i fl p sq s) ! i) = tc_state (g_tcbs s ! i)"
    "seq_num (g_tcbs (tcp_output_seq i fl p sq s) ! i) = seq_num (g_tcbs s ! i)"
    "ack_num (g_tcbs (tcp_output_seq i fl p sq s) ! i) = ack_num (g_tcbs s ! i)"
    "snd_una (g_tcbs (tcp_output_seq i fl p sq s) ! i) = snd_una (g_tcbs s ! i)"
    "tx_start (g_tcbs (tcp_output_seq i fl p sq s) ! i) = tx_start (g_tcbs s ! i)"
    "tx_buf (g_tcbs (tcp_output_seq i fl p sq s) ! i) = tx_buf (g_tcbs s ! i)"
    "rx_len (g_tcbs (tcp_output_seq i fl p sq s) ! i) = rx_len (g_tcbs s ! i)"
    "rx_buf (g_tcbs (tcp_output_seq i fl p sq s) ! i) = rx_buf (g_tcbs s ! i)"
    "ooo_valid (g_tcbs (tcp_output_seq i fl p sq s) ! i) = ooo_valid (g_tcbs s ! i)"
    "ooo_seq (g_tcbs (tcp_output_seq i fl p sq s) ! i) = ooo_seq (g_tcbs s ! i)"
    "ooo_len (g_tcbs (tcp_output_seq i fl p sq s) ! i) = ooo_len (g_tcbs s ! i)"
    "ooo_buf (g_tcbs (tcp_output_seq i fl p sq s) ! i) = ooo_buf (g_tcbs s ! i)"
    "retransmit_count (g_tcbs (tcp_output_seq i fl p sq s) ! i) = retransmit_count (g_tcbs s ! i)"
    "local_port (g_tcbs (tcp_output_seq i fl p sq s) ! i) = local_port (g_tcbs s ! i)"
    "remote_port (g_tcbs (tcp_output_seq i fl p sq s) ! i) = remote_port (g_tcbs s ! i)"
    "remote_ip (g_tcbs (tcp_output_seq i fl p sq s) ! i) = remote_ip (g_tcbs s ! i)"
    "remote_window (g_tcbs (tcp_output_seq i fl p sq s) ! i) = remote_window (g_tcbs s ! i)"
  by (rule tcp_output_same(1) [OF assms]; simp)+

lemma output_frame [simp]:
  "length (g_tcbs (tcp_output_seq i fl p sq s)) = length (g_tcbs s)"
  "j \<noteq> i \<Longrightarrow> g_tcbs (tcp_output_seq i fl p sq s) ! j = g_tcbs s ! j"
  using tcp_output_seq_tcbs [of i fl p sq s] by auto

section \<open>The transmit ring\<close>

lemma length_ring_store [simp]: "length (ring_store buf w xs) = length buf"
  by (induction xs arbitrary: buf w) auto

lemma ring_store_contents:
  assumes "c + length xs \<le> length buf"
  shows "ring_contents h (c + length xs) (ring_store buf (h + c) xs) = ring_contents h c buf @ xs"
  using assms
proof (induction xs arbitrary: buf c)
  case (Cons x xs)
  have "ring_contents h (Suc c + length xs) (ring_store (buf[(h + c) mod length buf := x]) (h + Suc c) xs)
      = ring_contents h (Suc c) (buf[(h + c) mod length buf := x]) @ xs"
    using Cons.prems by (intro Cons.IH) simp
  then show ?case using Cons.prems by (simp add: ring_contents_push)
qed simp

lemma ring_store_mod: "ring_store buf (w mod length buf) xs = ring_store buf w xs"
proof (induction xs arbitrary: buf w)
  case (Cons x xs)
  have "ring_store (buf[w mod length buf := x]) (Suc (w mod length buf)) xs
      = ring_store (buf[w mod length buf := x]) (Suc w) xs"
    using Cons.IH [of "buf[w mod length buf := x]" "Suc (w mod length buf)"] Cons.IH [of "buf[w mod length buf := x]" "Suc w"]
    by (simp add: mod_Suc_eq)
  then show ?case by simp
qed simp

text \<open>How much \<open>tcp_send\<close> accepts: what the peer's window, the ring and one segment leave room for.\<close>

definition send_room :: "TcpControlBlock \<Rightarrow> nat" where
  "send_room t = min TCP_MAX_SEG (min (TCP_TX_BUF_SIZE - inflight t) (unat (remote_window t) - inflight t))"

lemma tcp_send_len_room:
  assumes "inflight t \<le> TCP_TX_BUF_SIZE" "0 < len"
  shows "tcp_send_len t len = int (min (nat len) (send_room t))"
proof -
  define fl rw where "fl = inflight t" "rw = unat (remote_window t)"
  have sfl: "sint (seq_num t - snd_una t) = int fl" using assms(1) by (simp add: sint_small inflight_def fl_rw_def)
  define a b where "a = int rw - int fl" "b = int 2048 - int fl"
  define l where "l = (let l1 = (if len > a then a else len); l2 = (if l1 > b then b else l1) in if l2 > int 1024 then int 1024 else l2)"
  define n where "n = min (nat len) (min 1024 (min (2048 - fl) (rw - fl)))"
  have code: "tcp_send_len t len = (if a \<le> 0 \<or> b \<le> 0 then 0 else l)"
    unfolding tcp_send_len_def sfl Let_def l_def a_b_def fl_rw_def by (rule refl)
  have m0: "min x y = 0 \<longleftrightarrow> x = 0 \<or> y = 0" for x y :: nat by (auto simp: min_def)
  have "n = 0 \<longleftrightarrow> 2048 - fl = 0 \<or> rw - fl = 0" unfolding n_def m0 using assms(2) by simp
  then have zero: "n = 0 \<longleftrightarrow> a \<le> 0 \<or> b \<le> 0" unfolding a_b_def by linarith
  have pos: "l = int n" if "n \<noteq> 0"
  proof -
    have le: "fl \<le> 2048" "fl \<le> rw" using that zero by (auto simp: a_b_def)
    have "l = min (min (min len a) b) 1024" unfolding l_def Let_def min_def by (auto simp: not_le)
    moreover have "int (2048 - fl) = b" "int (rw - fl) = a" "int (nat len) = len"
      using le assms(2) by (simp_all add: a_b_def of_nat_diff)
    then have "int n = min len (min 1024 (min b a))" unfolding n_def of_nat_min by simp
    ultimately show ?thesis by (simp only: min.assoc min.commute min.left_commute)
  qed
  have "min (nat len) (send_room t) = n" unfolding n_def send_room_def fl_rw_def by (rule refl)
  with code zero pos show ?thesis by auto
qed

lemma tcp_send_cases:
  assumes inv: "tcp_inv s" and i: "0 \<le> sock" "sock < 16" and st: "sending (tc_state (g_tcbs s ! nat sock))"
    and len: "0 < len" and n: "n = min (nat len) (send_room (g_tcbs s ! nat sock))"
  shows "tcp_send now sock buf len s = (if n = 0 then (0, s)
     else (int n, upd_tcb (nat sock) (\<lambda>t. t\<lparr>seq_num := seq_num t + of_nat n, rto_tick := now\<rparr>)
       (tcp_output (nat sock) (TCP_FLAG_PSH OR TCP_FLAG_ACK) (take n buf)
         (upd_tcb (nat sock) (\<lambda>t. t\<lparr>tx_buf := ring_store (tx_buf t) (tx_start t + inflight t) (take n buf)\<rparr>) s))))"
proof -
  let ?t = "g_tcbs s ! nat sock"
  have ti: "tcb_inv ?t" using tcp_invD(1) [OF inv, of "nat sock"] i by simp
  then have fl: "inflight ?t \<le> 2048" and tl: "length (tx_buf ?t) = 2048" using st by (simp_all add: tcb_inv_def)
  have "ring_store (tx_buf ?t) ((tx_start ?t + inflight ?t) mod 2048) (take n buf) = ring_store (tx_buf ?t) (tx_start ?t + inflight ?t) (take n buf)"
    using ring_store_mod [of "tx_buf ?t" "tx_start ?t + inflight ?t"] tl by simp
  then have "upd_tcb (nat sock) (\<lambda>u. u\<lparr>tx_buf := ring_store (tx_buf u) ((tx_start ?t + inflight ?t) mod 2048) (take n buf)\<rparr>) s
      = upd_tcb (nat sock) (\<lambda>u. u\<lparr>tx_buf := ring_store (tx_buf u) (tx_start u + inflight u) (take n buf)\<rparr>) s"
    by (simp add: upd_tcb_def)
  with i st len tcp_send_len_room [OF fl len] show ?thesis
    by (auto simp: tcp_send_def Let_def sending_def n [symmetric] inflight_def)
qed

lemma inflight_add:
  "inflight t + n < 2 ^ 32 \<Longrightarrow> inflight (t\<lparr>seq_num := seq_num t + of_nat n, rto_tick := now\<rparr>) = inflight t + n"
proof -
  assume "inflight t + n < 2 ^ 32"
  moreover have "seq_num t + (of_nat n :: u32) - snd_una t = of_nat (inflight t + n)" by (simp add: inflight_def)
  ultimately have "unat (seq_num t + of_nat n - snd_una t) = inflight t + n" by (simp only: unat_of_nat) simp
  then show ?thesis by (simp add: inflight_def)
qed

lemma tcp_send_effect:
  assumes inv: "tcp_inv s" and i: "0 \<le> sock" "sock < 16" and st: "sending (tc_state (g_tcbs s ! nat sock))"
    and len: "0 < len" "nat len \<le> length buf" and res: "tcp_send now sock buf len s = (r, s')"
  defines "n \<equiv> min (nat len) (send_room (g_tcbs s ! nat sock))"
  shows "r = int n" "tcp_inv s'" "tx_pending (g_tcbs s' ! nat sock) = tx_pending (g_tcbs s ! nat sock) @ take n buf"
    "snd_una (g_tcbs s' ! nat sock) = snd_una (g_tcbs s ! nat sock)"
proof -
  let ?i = "nat sock" and ?t = "g_tcbs s ! nat sock"
  note c = tcp_send_cases [OF inv i st len(1) n_def [THEN meta_eq_to_obj_eq], of now buf]
  have i16: "?i < 16" "?i < length (g_tcbs s)" using i tcp_invD(2) [OF inv] by simp_all
  have ti: "tcb_inv ?t" using tcp_invD(1) [OF inv i16(1)] .
  have "r = int n \<and> tcp_inv s' \<and> tx_pending (g_tcbs s' ! ?i) = tx_pending ?t @ take n buf
    \<and> snd_una (g_tcbs s' ! ?i) = snd_una ?t"
  proof (cases "n = 0")
    case True
    with c res inv show ?thesis by simp
  next
    case False
    define u where "u = ?t\<lparr>tx_buf := ring_store (tx_buf ?t) (tx_start ?t + inflight ?t) (take n buf)\<rparr>"
    define s1 where "s1 = upd_tcb ?i (\<lambda>t. t\<lparr>tx_buf := ring_store (tx_buf t) (tx_start t + inflight t) (take n buf)\<rparr>) s"
    define s2 where "s2 = tcp_output ?i (TCP_FLAG_PSH OR TCP_FLAG_ACK) (take n buf) s1"
    have s': "r = int n" "s' = upd_tcb ?i (\<lambda>t. t\<lparr>seq_num := seq_num t + of_nat n, rto_tick := now\<rparr>) s2"
      using c res False by (simp_all add: s1_def s2_def)
    have "n \<le> nat len" "n \<le> send_room ?t" unfolding n_def by simp_all
    moreover have "send_room ?t \<le> 2048 - inflight ?t" unfolding send_room_def by (intro min.coboundedI2 min.cobounded1)
    moreover have "inflight ?t \<le> 2048" using ti st by (simp add: tcb_inv_def)
    ultimately have ub: "n \<le> length buf" "inflight ?t + n \<le> 2048" using len(2) by linarith+
    have u1: "g_tcbs s1 ! ?i = u" using i16 by (simp add: s1_def u_def)
    have "tcb_inv u" using ti by (simp add: tcb_inv_def u_def inflight_def)
    then have inv1: "tcp_inv s1" unfolding s1_def using inv by (intro upd_tcb_inv) (simp_all add: u_def)
    have len1: "?i < length (g_tcbs s1)" using i16 by (simp add: s1_def)
    have inv2: "tcp_inv s2" unfolding s2_def tcp_output_def by (intro tcp_output_seq_inv inv1)
    have v: "seq_num (g_tcbs s2 ! ?i) = seq_num ?t" "snd_una (g_tcbs s2 ! ?i) = snd_una ?t"
      "tx_start (g_tcbs s2 ! ?i) = tx_start ?t" "tx_buf (g_tcbs s2 ! ?i) = tx_buf u" "tc_state (g_tcbs s2 ! ?i) = tc_state ?t"
      using len1 by (simp_all add: s2_def tcp_output_def u1) (simp_all add: u_def)
    then have fl: "inflight (g_tcbs s2 ! ?i) = inflight ?t" by (simp add: inflight_def)
    have nfl: "inflight (g_tcbs s' ! ?i) = inflight ?t + n"
      using ub i16 len1 inflight_add [of "g_tcbs s2 ! ?i" n now] by (simp add: s'(2) s2_def tcp_output_def fl [unfolded s2_def tcp_output_def])
    have "tcp_inv s'" unfolding s'(2)
    proof (rule upd_tcb_inv [OF inv2])
      assume "tcb_inv (g_tcbs s2 ! ?i)"
      then show "tcb_inv ((g_tcbs s2 ! ?i)\<lparr>seq_num := seq_num (g_tcbs s2 ! ?i) + of_nat n, rto_tick := now\<rparr>)"
        using inflight_add [of "g_tcbs s2 ! ?i" n now] fl ub by (simp add: tcb_inv_def)
    qed
    moreover have "tx_pending (g_tcbs s' ! ?i) = tx_pending ?t @ take n buf"
    proof -
      have l2: "?i < length (g_tcbs s2)" using len1 by (simp add: s2_def tcp_output_def)
      have "tx_start (g_tcbs s' ! ?i) = tx_start ?t" "tx_buf (g_tcbs s' ! ?i) = tx_buf u" using v l2 by (simp_all add: s'(2))
      moreover have "length (take n buf) = n" "inflight ?t + n \<le> length (tx_buf ?t)" using ub ti by (simp_all add: tcb_inv_def)
      ultimately show ?thesis using ring_store_contents [of "inflight ?t" "take n buf" "tx_buf ?t" "tx_start ?t"]
        by (simp add: tx_pending_def nfl u_def)
    qed
    moreover have "snd_una (g_tcbs s' ! ?i) = snd_una ?t"
      using v len1 by (simp add: s'(2) s2_def tcp_output_def)
    ultimately show ?thesis using s'(1) by simp
  qed
  then show "r = int n" "tcp_inv s'" "tx_pending (g_tcbs s' ! ?i) = tx_pending ?t @ take n buf"
    "snd_una (g_tcbs s' ! ?i) = snd_una ?t" by simp_all
qed

lemma ack_advance_effect:
  assumes ti: "tcb_inv t" and st: "sending (tc_state t)" and k: "k = unat (ack - snd_una t)"
  shows "tcb_inv (tcp_ack_advance now ack wnd t)"
    "tx_pending (tcp_ack_advance now ack wnd t) = (if k \<le> inflight t then drop k (tx_pending t) else tx_pending t)"
proof -
  have b: "inflight t \<le> 2048" "length (tx_buf t) = 2048" "tx_start t < 2048" using ti st by (simp_all add: tcb_inv_def)
  show "tx_pending (tcp_ack_advance now ack wnd t) = (if k \<le> inflight t then drop k (tx_pending t) else tx_pending t)"
  proof (cases "0 < k \<and> k \<le> inflight t")
    case True
    have "seq_num t - ack = (seq_num t - snd_una t) - (ack - snd_una t)" by simp
    moreover have "ack - snd_una t \<le> seq_num t - snd_una t" using True by (simp add: k inflight_def word_le_nat_alt)
    ultimately have "unat (seq_num t - ack) = inflight t - k" by (simp only: unat_sub k inflight_def)
    with True show ?thesis using ring_contents_drop [of k "inflight t" "tx_start t" "tx_buf t"] b
      by (simp add: tcp_ack_advance_def tx_pending_def inflight_def k word_less_nat_alt word_le_nat_alt)
  next
    case False
    then show ?thesis by (auto simp: tcp_ack_advance_def tx_pending_def inflight_def k word_less_nat_alt word_le_nat_alt)
  qed
  then have "inflight (tcp_ack_advance now ack wnd t) \<le> inflight t"
    by (metis length_drop length_ring_contents tx_pending_def diff_le_self order_refl)
  then show "tcb_inv (tcp_ack_advance now ack wnd t)"
    using ti b by (auto simp: tcb_inv_def tcp_ack_advance_def Let_def)
qed

lemma tcp_retransmit_segment:
  assumes inv: "tcp_inv s" and i: "i < 16" and st: "sending (tc_state (g_tcbs s ! i))"
  shows "tcp_retransmit_head i s = tcp_output_seq i (TCP_FLAG_PSH OR TCP_FLAG_ACK)
    (take TCP_MAX_SEG (tx_pending (g_tcbs s ! i))) (snd_una (g_tcbs s ! i)) s"
proof -
  let ?t = "g_tcbs s ! i"
  have b: "length (tx_buf ?t) = 2048" using tcp_invD(1) [OF inv i] by (simp add: tcb_inv_def)
  have "(if seq_num ?t - snd_una ?t < of_nat TCP_MAX_SEG then unat (seq_num ?t - snd_una ?t) else TCP_MAX_SEG) = min 1024 (inflight ?t)"
    by (auto simp: inflight_def word_less_nat_alt min_def)
  moreover have "map (\<lambda>k. tx_buf ?t ! ((tx_start ?t + k) mod 2048)) [0..<min 1024 (inflight ?t)] = take 1024 (tx_pending ?t)"
    by (simp add: tx_pending_def ring_contents_def b take_map min_def)
  ultimately show ?thesis by (simp add: tcp_retransmit_head_def Let_def)
qed

section \<open>The receive buffer\<close>

lemma rx_store_effect:
  assumes "tcb_inv t" and k: "k = min (length data) (TCP_RX_BUF_SIZE - rx_len t)"
  shows "tcb_inv (rx_store data t)" "rx_pending (rx_store data t) = rx_pending t @ take k data"
    "ack_num (rx_store data t) = ack_num t + of_nat k"
    "ooo_valid (rx_store data t) = ooo_valid t" "ooo_seq (rx_store data t) = ooo_seq t"
    "ooo_len (rx_store data t) = ooo_len t" "ooo_buf (rx_store data t) = ooo_buf t"
    "tc_state (rx_store data t) = tc_state t" "tx_pending (rx_store data t) = tx_pending t"
proof -
  have st: "(if length data < 1024 - rx_len t then length data else 1024 - rx_len t) = k" by (simp add: k min_def)
  have b: "length (rx_buf t) = 1024" "rx_len t \<le> 1024" using assms(1) by (simp_all add: tcb_inv_def)
  have eq: "rx_store data t = t\<lparr>rx_buf := take (rx_len t) (rx_buf t) @ take k data @ drop (rx_len t + k) (rx_buf t),
      rx_len := rx_len t + k, ack_num := ack_num t + of_nat k\<rparr>" by (simp add: rx_store_def Let_def st)
  have kb: "k \<le> length data" "rx_len t + k \<le> 1024" using b by (auto simp: k)
  show "rx_pending (rx_store data t) = rx_pending t @ take k data" using b kb by (simp add: eq rx_pending_def)
  show "tcb_inv (rx_store data t)" using assms(1) b kb by (simp add: eq tcb_inv_def inflight_def)
qed (simp_all add: rx_store_def Let_def tx_pending_def inflight_def k min_def)

lemma rx_data_inv:
  assumes "tcb_inv t"
  shows "tcb_inv (rx_data sq data t)" "tc_state (rx_data sq data t) = tc_state t"
proof -
  note e = rx_store_effect [OF assms refl, of data]
  note e2 = rx_store_effect [OF e(1) refl, of "take (ooo_len (rx_store data t)) (ooo_buf (rx_store data t))"]
  have "tcb_inv (u\<lparr>ooo_valid := v\<rparr>) = tcb_inv u" for u v by (simp add: tcb_inv_def inflight_def)
  moreover have "tcb_inv (t\<lparr>ooo_buf := take n data @ drop n (ooo_buf t), ooo_seq := sq, ooo_len := n, ooo_valid := True\<rparr>)"
    if "n \<le> length data" "n \<le> 1024" for n
    using that assms by (simp add: tcb_inv_def inflight_def)
  ultimately show "tcb_inv (rx_data sq data t)" using assms e(1) e2(1) by (simp add: rx_data_def Let_def)
  show "tc_state (rx_data sq data t) = tc_state t" using e e2 by (simp add: rx_data_def Let_def)
qed

section \<open>Every operation keeps the invariant\<close>

lemma zero_tcb_inv: "tcb_inv zero_tcb"
  by (simp add: tcb_inv_def zero_tcb_def sending_def)

lemma tcp_init_inv: "tcp_inv (tcp_init s)"
  by (simp add: tcp_inv_def tcp_init_def list_all_length zero_tcb_inv)

lemma tcp_output_inv: "tcp_inv s \<Longrightarrow> tcp_inv (tcp_output i fl p s)"
  by (simp add: tcp_output_def tcp_output_seq_inv)

text \<open>Updates that do not touch the buffers and end in a state that does not send, or in the same state.\<close>

lemma tcb_inv_state:
  "tcb_inv t \<Longrightarrow> \<not> sending st \<Longrightarrow> tcb_inv (t\<lparr>tc_state := st\<rparr>)"
  "tcb_inv t \<Longrightarrow> \<not> sending st \<Longrightarrow> tcb_inv (t\<lparr>tc_state := st, last_activity_tick := n\<rparr>)"
  "tcb_inv (t\<lparr>last_activity_tick := n\<rparr>) = tcb_inv t" "tcb_inv (t\<lparr>ack_num := a\<rparr>) = tcb_inv t"
  "tcb_inv (t\<lparr>accepted := b\<rparr>) = tcb_inv t"
  "tcb_inv t \<Longrightarrow> \<not> sending st \<Longrightarrow> tcb_inv (t\<lparr>seq_num := a, tc_state := st\<rparr>)"
  by (simp_all add: tcb_inv_def inflight_def)

lemma sending_simps [simp]:
  "sending TCP_ESTABLISHED" "sending TCP_CLOSE_WAIT" "\<not> sending TCP_CLOSED" "\<not> sending TCP_LISTEN" "\<not> sending TCP_SYN_SENT"
  "\<not> sending TCP_SYN_RECEIVED" "\<not> sending TCP_FIN_WAIT_1" "\<not> sending TCP_FIN_WAIT_2" "\<not> sending TCP_CLOSING"
  "\<not> sending TCP_LAST_ACK" "\<not> sending TCP_TIME_WAIT"
  by (simp_all add: sending_def)

lemma tcp_send_syn_inv: "tcp_inv s \<Longrightarrow> tcp_inv (tcp_send_syn now i s)" "tcp_inv s \<Longrightarrow> tcp_inv (tcp_send_synack now i s)"
  "tcp_inv s \<Longrightarrow> tcp_inv (tcp_send_ack i s)"
  by (auto simp: tcp_send_syn_def tcp_send_synack_def tcp_send_ack_def tcb_inv_state intro!: upd_tcb_inv tcp_output_inv)

lemma frame_state_inv [simp]:
  "tcp_inv (s\<lparr>g_next_ephemeral := e\<rparr>) = tcp_inv s" "tcp_inv (s\<lparr>tcp_wire := w\<rparr>) = tcp_inv s"
  "tcp_inv (tcp_set_output fn ip s) = tcp_inv s"
  by (simp_all add: tcp_inv_def tcp_set_output_def)

lemma tcp_listen_inv: "tcp_inv s \<Longrightarrow> tcp_inv (snd (tcp_listen port s))"
  using zero_tcb_inv
  by (auto simp: tcp_listen_def tcb_inv_def inflight_def intro!: upd_tcb_inv split: option.splits)

lemma tcp_connect_inv: "tcp_inv s \<Longrightarrow> tcp_inv (snd (tcp_connect now ip port s))"
  using zero_tcb_inv
  by (auto simp: tcp_connect_def Let_def tcb_inv_def inflight_def intro!: upd_tcb_inv tcp_send_syn_inv split: option.splits)

lemma tcp_passive_open_inv: "tcp_inv s \<Longrightarrow> tcp_inv (tcp_passive_open now ip l hdr s)"
  using zero_tcb_inv
  by (auto simp: tcp_passive_open_def tcb_inv_def inflight_def intro!: upd_tcb_inv tcp_send_syn_inv split: option.splits)

lemma tcp_send_inv:
  assumes inv: "tcp_inv s" and len: "nat len \<le> length buf"
  shows "tcp_inv (snd (tcp_send now sock buf len s))"
proof (cases "0 \<le> sock \<and> sock < 16 \<and> sending (tc_state (g_tcbs s ! nat sock)) \<and> 0 < len")
  case True
  then show ?thesis using tcp_send_effect(2) [OF inv _ _ _ _ len] by (cases "tcp_send now sock buf len s") auto
qed (use inv in \<open>auto simp: tcp_send_def sending_def Let_def\<close>)

lemma tcp_recv_inv: "tcp_inv s \<Longrightarrow> tcp_inv (snd (tcp_recv sock maxlen s))"
proof -
  assume inv: "tcp_inv s"
  have "tcb_inv (t\<lparr>rx_buf := take (rx_len t - n) (drop n (rx_buf t)) @ drop (rx_len t - n) (rx_buf t), rx_len := rx_len t - n\<rparr>)"
    if "tcb_inv t" "n \<le> rx_len t" for t n
    using that by (auto simp: tcb_inv_def inflight_def)
  then have "tcp_inv (upd_tcb i (\<lambda>t. t\<lparr>rx_buf := take (rx_len t - n) (drop n (rx_buf t)) @ drop (rx_len t - n) (rx_buf t),
      rx_len := rx_len t - n\<rparr>) s)" if "n \<le> rx_len (g_tcbs s ! i)" for i n
    using that inv by (intro upd_tcb_inv) auto
  with inv upd_tcb_inv [OF inv, of _ "\<lambda>t. t"] show ?thesis by (auto simp: tcp_recv_def Let_def intro!: tcp_send_syn_inv)
qed

lemma tcp_close_inv: "tcp_inv s \<Longrightarrow> tcp_inv (snd (tcp_close now sock s))"
  by (auto simp: tcp_close_def Let_def tcb_inv_state intro!: upd_tcb_inv tcp_output_inv)

lemma tcp_accept_inv: "tcp_inv s \<Longrightarrow> tcp_inv (snd (tcp_accept l s))"
  by (auto simp: tcp_accept_def Let_def tcb_inv_state intro!: upd_tcb_inv split: option.splits)

lemma tcp_tick_socket_inv:
  assumes inv: "tcp_inv s" and i: "i < 16"
  shows "tcp_inv (tcp_tick_socket now i s)"
proof -
  let ?t = "g_tcbs s ! i"
  have l: "i < length (g_tcbs s)" using tcp_invD(2) [OF inv] i by simp
  have syn: "tcp_inv (upd_tcb i (\<lambda>t. t\<lparr>retransmit_count := retransmit_count t + 1, last_activity_tick := now\<rparr>) s')"
    if "tcp_inv s'" "retransmit_count (g_tcbs s' ! i) < 8" for s'
    using that by (intro upd_tcb_inv) (auto simp: tcb_inv_def inflight_def)
  have rtx: "tcp_inv (upd_tcb i (\<lambda>t. t\<lparr>retransmit_count := retransmit_count t + 1, rto_tick := now\<rparr>) s')"
    if "tcp_inv s'" "retransmit_count (g_tcbs s' ! i) < 8" for s'
    using that by (intro upd_tcb_inv) (auto simp: tcb_inv_def inflight_def)
  have "retransmit_count (g_tcbs (tcp_send_syn now i s) ! i) = retransmit_count ?t"
    "retransmit_count (g_tcbs (tcp_send_synack now i s) ! i) = retransmit_count ?t"
    "retransmit_count (g_tcbs (tcp_retransmit_head i s) ! i) = retransmit_count ?t"
    using l by (simp_all add: tcp_send_syn_def tcp_send_synack_def tcp_output_def tcp_retransmit_head_def Let_def)
  moreover have "tcp_inv (tcp_retransmit_head i s)" using inv by (simp add: tcp_retransmit_head_def Let_def tcp_output_seq_inv)
  ultimately have resend: "retransmit_count ?t < 5 \<Longrightarrow>
      tcp_inv (upd_tcb i (\<lambda>t. t\<lparr>retransmit_count := retransmit_count t + 1, last_activity_tick := now\<rparr>) (tcp_send_syn now i s))"
    "retransmit_count ?t < 5 \<Longrightarrow>
      tcp_inv (upd_tcb i (\<lambda>t. t\<lparr>retransmit_count := retransmit_count t + 1, last_activity_tick := now\<rparr>) (tcp_send_synack now i s))"
    "retransmit_count ?t < 8 \<Longrightarrow>
      tcp_inv (upd_tcb i (\<lambda>t. t\<lparr>retransmit_count := retransmit_count t + 1, rto_tick := now\<rparr>) (tcp_retransmit_head i s))"
    using inv by - (rule syn rtx; simp add: tcp_send_syn_inv)+
  have close: "tcp_inv (upd_tcb i (\<lambda>t. t\<lparr>tc_state := TCP_CLOSED\<rparr>) s)"
    using inv by (intro upd_tcb_inv) (simp_all add: tcb_inv_state)
  show ?thesis unfolding tcp_tick_socket_def Let_def using inv close resend by simp
qed

lemma tcp_tick_inv: "tcp_inv s \<Longrightarrow> tcp_inv (tcp_tick now s)"
proof -
  have "tcp_inv (fold (tcp_tick_socket now) is s)" if "tcp_inv s" "\<forall>i\<in>set is. i < 16" for "is" s
    using that by (induction "is" arbitrary: s) (auto intro: tcp_tick_socket_inv)
  then show "tcp_inv s \<Longrightarrow> tcp_inv (tcp_tick now s)" by (simp add: tcp_tick_def)
qed

lemma tcb_inv_established:
  "tcb_inv t \<Longrightarrow> tcb_inv (t\<lparr>seq_num := a, ack_num := b, remote_window := w, snd_una := a, tx_start := 0, rto_tick := n, tc_state := st\<rparr>)"
  "tcb_inv t \<Longrightarrow> tcb_inv (t\<lparr>seq_num := a, remote_window := w, snd_una := a, tx_start := 0, rto_tick := n, tc_state := st\<rparr>)"
  by (simp_all add: tcb_inv_def inflight_def)

lemma ack_advance_inv:
  assumes "tcp_inv s" "sending (tc_state (g_tcbs s ! i))"
  shows "tcp_inv (upd_tcb i (tcp_ack_advance now ack wnd) s)"
  using assms by (intro upd_tcb_inv) (auto intro: ack_advance_effect(1))

lemma ack_advance_state [simp]: "tc_state (tcp_ack_advance now ack wnd t) = tc_state t"
  by (simp add: tcp_ack_advance_def Let_def)

lemma established_segment_inv:
  assumes inv: "tcp_inv s" and i: "i < 16" and st: "tc_state (g_tcbs s ! i) = TCP_ESTABLISHED"
  shows "tcp_inv (established_segment now i hdr data s)"
proof -
  let ?sq = "t_ntohl (h_seq_num hdr)"
  define s1 where "s1 = (if h_flags hdr AND TCP_FLAG_ACK \<noteq> 0
    then upd_tcb i (tcp_ack_advance now (t_ntohl (h_ack_num hdr)) (t_ntohs (h_window hdr))) s else s)"
  define s2 where "s2 = (if length data > 0 then tcp_send_ack i (upd_tcb i (rx_data ?sq data) s1) else s1)"
  have l: "i < length (g_tcbs s)" using tcp_invD(2) [OF inv] i by simp
  have 1: "tcp_inv s1" "tc_state (g_tcbs s1 ! i) = TCP_ESTABLISHED" "i < length (g_tcbs s1)"
    using inv st l by (simp_all add: s1_def ack_advance_inv)
  have rx: "tcp_inv (upd_tcb i (rx_data ?sq data) s1)" using 1(1) by (intro upd_tcb_inv) (simp_all add: rx_data_inv)
  have 2: "tcp_inv s2" "tc_state (g_tcbs s2 ! i) = TCP_ESTABLISHED" "i < length (g_tcbs s2)"
    using 1 rx rx_data_inv(2) [of "g_tcbs s1 ! i"] tcp_invD(1) [OF 1(1) i]
    by (simp_all add: s2_def tcp_send_ack_def tcp_output_def tcp_output_seq_inv)
  define s3 where "s3 = tcp_send_ack i (upd_tcb i (\<lambda>t. t\<lparr>ack_num := ack_num t + 1\<rparr>) s2)"
  have 3: "tcp_inv s3" "tc_state (g_tcbs s3 ! i) = TCP_ESTABLISHED"
    using 2 by (auto simp: s3_def tcb_inv_state tcp_send_ack_def tcp_output_def intro!: tcp_output_seq_inv upd_tcb_inv)
  have "tcb_inv (t\<lparr>tc_state := TCP_CLOSE_WAIT\<rparr>)" if "tcb_inv t" "tc_state t = TCP_ESTABLISHED" for t
    using that by (simp add: tcb_inv_def inflight_def)
  then have "tcp_inv (upd_tcb i (\<lambda>t. t\<lparr>tc_state := TCP_CLOSE_WAIT\<rparr>) s3)" using 3 by (intro upd_tcb_inv) simp_all
  with 2(1) show ?thesis
    unfolding established_segment_def Let_def s1_def [symmetric] s2_def [symmetric] s3_def [symmetric] by simp
qed

lemma tcp_handle_segment_inv:
  assumes inv: "tcp_inv s" and i: "i < 16"
  shows "tcp_inv (tcp_handle_segment now i hdr data s)"
proof -
  have close: "tcp_inv (upd_tcb i (\<lambda>t. t\<lparr>tc_state := TCP_CLOSED\<rparr>) s')" if "tcp_inv s'" for s'
    using that by (intro upd_tcb_inv) (simp_all add: tcb_inv_state)
  have ack: "tcp_inv (tcp_send_ack i (upd_tcb i (\<lambda>t. t\<lparr>ack_num := a\<rparr>) s'))" if "tcp_inv s'" for s' a
    using that by (intro tcp_send_syn_inv upd_tcb_inv) (simp_all add: tcb_inv_state)
  have fin: "tcp_inv (upd_tcb i (\<lambda>t. t\<lparr>tc_state := (if tc_state t = TCP_FIN_WAIT_2 then TCP_CLOSED else TCP_CLOSING),
      last_activity_tick := now\<rparr>) s')" if "tcp_inv s'" for s'
    using that by (intro upd_tcb_inv) (simp_all add: tcb_inv_state)
  have w2: "tcp_inv (upd_tcb i (\<lambda>t. t\<lparr>seq_num := seq_num t + 1, tc_state := TCP_FIN_WAIT_2\<rparr>) s)"
    using inv by (intro upd_tcb_inv) (simp_all add: tcb_inv_state)
  have est: "tcp_inv (upd_tcb i (\<lambda>t. t\<lparr>seq_num := seq_num t + 1, ack_num := a, remote_window := w, snd_una := seq_num t + 1,
      tx_start := 0, rto_tick := now, tc_state := TCP_ESTABLISHED\<rparr>) s)"
    "tcp_inv (upd_tcb i (\<lambda>t. t\<lparr>seq_num := seq_num t + 1, remote_window := w, snd_una := seq_num t + 1,
      tx_start := 0, rto_tick := now, tc_state := TCP_ESTABLISHED\<rparr>) s)" for a w
    using inv by (intro upd_tcb_inv; simp add: tcb_inv_established)+
  show ?thesis
  proof (cases "h_flags hdr AND TCP_FLAG_RST \<noteq> 0")
    case False
    with inv i est w2 fin ack close show ?thesis
      by (cases "tc_state (g_tcbs s ! i)")
        (simp_all add: tcp_handle_segment_def Let_def established_segment_inv ack_advance_inv tcp_send_syn_inv)
  qed (simp add: tcp_handle_segment_def Let_def close inv)
qed

lemma tcp_receive_packet_inv:
  assumes "tcp_inv s"
  shows "tcp_inv (tcp_receive_packet now ip p s)"
proof -
  have "i < 16" if "find_slot P (g_tcbs s) = Some i" for P i
    using find_slot_SomeD(1) [OF that] tcp_invD(2) [OF assms] by simp
  with assms show ?thesis
    by (auto simp: tcp_receive_packet_def Let_def intro!: tcp_handle_segment_inv tcp_passive_open_inv split: option.splits)
qed

section \<open>The subsystem as a transition system\<close>

inductive tcp_step :: "tcp_state \<Rightarrow> tcp_state \<Rightarrow> bool" where
  listen: "tcp_step s (snd (tcp_listen port s))"
| connect: "tcp_step s (snd (tcp_connect now ip port s))"
| send: "nat len \<le> length buf \<Longrightarrow> tcp_step s (snd (tcp_send now sock buf len s))"
| recv: "tcp_step s (snd (tcp_recv sock maxlen s))"
| close: "tcp_step s (snd (tcp_close now sock s))"
| accept: "tcp_step s (snd (tcp_accept sock s))"
| tick: "tcp_step s (tcp_tick now s)"
| receive: "tcp_step s (tcp_receive_packet now ip packet s)"
| set_output: "tcp_step s (tcp_set_output fn ip s)"

lemma tcp_step_inv: "tcp_step s s' \<Longrightarrow> tcp_inv s \<Longrightarrow> tcp_inv s'"
  by (induction rule: tcp_step.induct)
    (auto intro: tcp_listen_inv tcp_connect_inv tcp_send_inv tcp_recv_inv tcp_close_inv tcp_accept_inv
      tcp_tick_inv tcp_receive_packet_inv)

section \<open>Reassembly\<close>

text \<open>
  Honest segments: the peer sends the byte stream \<open>S\<close>, numbered from \<open>irs\<close>; a segment with sequence
  number \<open>sq\<close> carries the bytes of \<open>S\<close> at that position. Segments may be lost, repeated and reordered.
\<close>

definition honest :: "bytes \<Rightarrow> u32 \<Rightarrow> u32 \<Rightarrow> bytes \<Rightarrow> bool" where
  "honest S irs sq data \<longleftrightarrow> data = take (length data) (drop (unat (sq - irs)) S)"

text \<open>
  The receiver is consistent with the stream: what the application has read (\<open>d\<close> bytes) and what is
  buffered is a prefix of \<open>S\<close>, \<open>ack_num\<close> is its end, and a buffered out-of-order segment is honest.
\<close>

definition rx_consistent :: "bytes \<Rightarrow> u32 \<Rightarrow> nat \<Rightarrow> TcpControlBlock \<Rightarrow> bool" where
  "rx_consistent S irs d t \<longleftrightarrow> (\<exists>n. d \<le> n \<and> n \<le> length S \<and> ack_num t = irs + of_nat n \<and> rx_pending t = drop d (take n S)
     \<and> (ooo_valid t \<longrightarrow> honest S irs (ooo_seq t) (take (ooo_len t) (ooo_buf t))))"

lemma take_drop_extend:
  "n \<le> length S \<Longrightarrow> d \<le> n \<Longrightarrow> drop d (take n S) @ take k (drop n S) = drop d (take (n + k) S)"
  by (simp add: take_add drop_append)

lemma honest_prefix:
  assumes "honest S irs (irs + of_nat n) data" "n < 2 ^ 32" "k \<le> length data" "n \<le> length S"
  shows "take k data = take k (drop n S)" "n + k \<le> length S"
proof -
  have "unat (irs + of_nat n - irs) = n" using assms(2) by (simp add: unat_of_nat)
  then have d: "data = take (length data) (drop n S)" using assms(1) by (simp add: honest_def)
  then show "take k data = take k (drop n S)" using assms(3) by (metis min_def take_take)
  have "length data \<le> length S - n" using d by (metis length_drop length_take min.cobounded2 min.commute)
  then show "n + k \<le> length S" using assms(3,4) by simp
qed

lemma rx_store_consistent:
  assumes ti: "tcb_inv t" and c: "rx_consistent S irs d t" and S: "length S < 2 ^ 32"
    and h: "honest S irs (ack_num t) data"
  shows "rx_consistent S irs d (rx_store data t)"
proof -
  obtain n where n: "d \<le> n" "n \<le> length S" "ack_num t = irs + of_nat n" "rx_pending t = drop d (take n S)"
    and ooo: "ooo_valid t \<longrightarrow> honest S irs (ooo_seq t) (take (ooo_len t) (ooo_buf t))"
    using c by (auto simp: rx_consistent_def)
  define k where "k = min (length data) (1024 - rx_len t)"
  note e = rx_store_effect [OF ti k_def]
  have k: "take k data = take k (drop n S)" "n + k \<le> length S"
    using honest_prefix [of S irs n data k] h n S by (simp_all add: k_def)
  have "rx_pending (rx_store data t) = drop d (take (n + k) S)"
    using e(2) n k take_drop_extend [of n S d k] by simp
  with e n k ooo show ?thesis unfolding rx_consistent_def by (intro exI [of _ "n + k"]) simp
qed

lemma rx_data_consistent:
  assumes ti: "tcb_inv t" and c: "rx_consistent S irs d t" and S: "length S < 2 ^ 32" and h: "honest S irs sq data"
  shows "rx_consistent S irs d (rx_data sq data t)"
proof -
  have prefix: "honest S irs sq (take m data)" for m
    using h unfolding honest_def by (metis length_take min.commute take_take)
  have off: "rx_consistent S irs d (u\<lparr>ooo_valid := False\<rparr>)" if "rx_consistent S irs d u" for u
    using that by (auto simp: rx_consistent_def rx_pending_def)
  consider (inorder) "sq = ack_num t" | (ahead) "sq \<noteq> ack_num t" "sq > ack_num t" "\<not> ooo_valid t"
    | (other) "sq \<noteq> ack_num t" "\<not> (sq > ack_num t \<and> \<not> ooo_valid t)" by blast
  then show ?thesis
  proof cases
    case inorder
    let ?u = "rx_store data t"
    have u: "rx_consistent S irs d ?u" "tcb_inv ?u"
      using rx_store_consistent [OF ti c S] rx_store_effect(1) [OF ti refl] h inorder by simp_all
    have "rx_consistent S irs d (rx_store (take (ooo_len ?u) (ooo_buf ?u)) ?u)" if "ooo_valid ?u" "ooo_seq ?u = ack_num ?u"
      using rx_store_consistent [OF u(2,1) S] u(1) that by (auto simp: rx_consistent_def)
    with u off inorder show ?thesis by (simp add: rx_data_def Let_def)
  next
    case ahead
    define m where "m = (if length data < 1024 then length data else 1024)"
    have "m \<le> length data" by (simp add: m_def)
    then have "take m (take m data @ drop m (ooo_buf t)) = take m data" by simp
    with prefix [of m] c ahead show ?thesis
      by (auto simp: rx_data_def Let_def m_def [symmetric] rx_consistent_def rx_pending_def)
  next
    case other
    with c show ?thesis by (auto simp: rx_data_def)
  qed
qed

lemma rx_consistent_cong:
  assumes "ack_num t' = ack_num t" "rx_buf t' = rx_buf t" "rx_len t' = rx_len t" "ooo_valid t' = ooo_valid t"
    "ooo_seq t' = ooo_seq t" "ooo_len t' = ooo_len t" "ooo_buf t' = ooo_buf t"
  shows "rx_consistent S irs d t' = rx_consistent S irs d t"
  using assms by (simp add: rx_consistent_def rx_pending_def)

lemma rx_consistent_ack_advance [simp]: "rx_consistent S irs d (tcp_ack_advance now ack wnd t) = rx_consistent S irs d t"
  by (rule rx_consistent_cong) (simp_all add: tcp_ack_advance_def Let_def)

lemma rx_consistent_output [simp]:
  "i < length (g_tcbs s) \<Longrightarrow> rx_consistent S irs d (g_tcbs (tcp_output_seq i fl p sq s) ! i) = rx_consistent S irs d (g_tcbs s ! i)"
  by (rule rx_consistent_cong) simp_all

text \<open>A connection as the application sees it: segments of the peer's stream arrive, the application reads.\<close>

inductive rx_step :: "bytes \<Rightarrow> u32 \<Rightarrow> nat \<Rightarrow> tcp_state \<times> bytes \<Rightarrow> tcp_state \<times> bytes \<Rightarrow> bool"
  for S :: bytes and irs :: u32 and i :: nat where
  segment: "honest S irs (t_ntohl (h_seq_num hdr)) data \<Longrightarrow> h_flags hdr AND TCP_FLAG_RST = 0 \<Longrightarrow>
      h_flags hdr AND TCP_FLAG_FIN = 0 \<Longrightarrow>
      rx_step S irs i (s, out) (tcp_handle_segment now i hdr data s, out)"
| read: "tcp_recv (int i) maxlen s = ((r, bs), s') \<Longrightarrow> rx_step S irs i (s, out) (s', out @ bs)"

definition rx_good :: "bytes \<Rightarrow> u32 \<Rightarrow> nat \<Rightarrow> tcp_state \<Rightarrow> bytes \<Rightarrow> bool" where
  "rx_good S irs i s out \<longleftrightarrow> tcp_inv s \<and> i < TCP_MAX_SOCKETS \<and> tc_state (g_tcbs s ! i) = TCP_ESTABLISHED
     \<and> rx_consistent S irs (length out) (g_tcbs s ! i) \<and> out = take (length out) S"

lemma rx_segment_good:
  assumes g: "rx_good S irs i s out" and S: "length S < 2 ^ 32" and h: "honest S irs (t_ntohl (h_seq_num hdr)) data"
    and fl: "h_flags hdr AND TCP_FLAG_RST = 0" "h_flags hdr AND TCP_FLAG_FIN = 0"
  shows "rx_good S irs i (tcp_handle_segment now i hdr data s) out"
proof -
  let ?sq = "t_ntohl (h_seq_num hdr)"
  have inv: "tcp_inv s" and i: "i < 16" and st: "tc_state (g_tcbs s ! i) = TCP_ESTABLISHED"
    and c: "rx_consistent S irs (length out) (g_tcbs s ! i)" and o: "out = take (length out) S"
    using g by (simp_all add: rx_good_def)
  define s1 where "s1 = (if h_flags hdr AND TCP_FLAG_ACK \<noteq> 0
    then upd_tcb i (tcp_ack_advance now (t_ntohl (h_ack_num hdr)) (t_ntohs (h_window hdr))) s else s)"
  have l: "i < length (g_tcbs s)" using tcp_invD(2) [OF inv] i by simp
  have 1: "tcp_inv s1" "tc_state (g_tcbs s1 ! i) = TCP_ESTABLISHED" "i < length (g_tcbs s1)"
    "rx_consistent S irs (length out) (g_tcbs s1 ! i)"
    using inv st l c by (simp_all add: s1_def ack_advance_inv)
  note ti = tcp_invD(1) [OF 1(1) i]
  have s': "tcp_handle_segment now i hdr data s = (if length data > 0 then tcp_send_ack i (upd_tcb i (rx_data ?sq data) s1) else s1)"
    using fl st by (simp add: tcp_handle_segment_def established_segment_def Let_def s1_def)
  have "rx_consistent S irs (length out) (rx_data ?sq data (g_tcbs s1 ! i))" "tc_state (rx_data ?sq data (g_tcbs s1 ! i)) = TCP_ESTABLISHED"
    using rx_data_consistent [OF ti 1(4) S h] rx_data_inv(2) [OF ti] 1(2) by simp_all
  moreover have "tcp_inv (tcp_handle_segment now i hdr data s)" using tcp_handle_segment_inv [OF inv i] .
  ultimately show ?thesis using 1 i o by (simp add: rx_good_def s' tcp_send_ack_def tcp_output_def)
qed

lemma tcp_recv_effect:
  assumes inv: "tcp_inv s" and i: "i < 16" and r: "tcp_recv (int i) maxlen s = ((r, bs), s')"
  shows "\<exists>n. n \<le> rx_len (g_tcbs s ! i) \<and> bs = take n (rx_pending (g_tcbs s ! i)) \<and> rx_pending (g_tcbs s' ! i) = drop n (rx_pending (g_tcbs s ! i))
    \<and> ack_num (g_tcbs s' ! i) = ack_num (g_tcbs s ! i) \<and> tc_state (g_tcbs s' ! i) = tc_state (g_tcbs s ! i)
    \<and> ooo_valid (g_tcbs s' ! i) = ooo_valid (g_tcbs s ! i) \<and> ooo_seq (g_tcbs s' ! i) = ooo_seq (g_tcbs s ! i)
    \<and> ooo_len (g_tcbs s' ! i) = ooo_len (g_tcbs s ! i) \<and> ooo_buf (g_tcbs s' ! i) = ooo_buf (g_tcbs s ! i)"
proof -
  let ?t = "g_tcbs s ! i"
  have l: "i < length (g_tcbs s)" using tcp_invD(2) [OF inv] i by simp
  have b: "length (rx_buf ?t) = 1024" "rx_len ?t \<le> 1024" using tcp_invD(1) [OF inv i] by (simp_all add: tcb_inv_def)
  show ?thesis
  proof (cases "maxlen < 0 \<or> rx_len ?t = 0")
    case True
    with r i have "bs = []" "s' = s" by (auto simp: tcp_recv_def Let_def split: if_splits)
    then show ?thesis by (intro exI [of _ 0]) simp
  next
    case False
    define n where "n = (if int (rx_len ?t) < maxlen then rx_len ?t else nat maxlen)"
    have n: "n \<le> rx_len ?t" using False by (auto simp: n_def)
    define s1 where "s1 = upd_tcb i (\<lambda>t. t\<lparr>rx_buf := take (rx_len t - n) (drop n (rx_buf t)) @ drop (rx_len t - n) (rx_buf t),
                        rx_len := rx_len t - n\<rparr>) s"
    have res: "bs = take n (rx_buf ?t)" "s' = s1 \<or> s' = tcp_send_ack i s1"
      using r i False by (auto simp: tcp_recv_def Let_def n_def s1_def split: if_splits)
    have "take (rx_len ?t - n) (drop n (rx_buf ?t)) = drop n (rx_pending ?t)" by (simp add: rx_pending_def drop_take)
    moreover have "bs = take n (rx_pending ?t)" using res n by (simp add: rx_pending_def)
    ultimately show ?thesis using res(2) n l b
      by (intro exI [of _ n]) (auto simp: s1_def rx_pending_def tcp_send_ack_def tcp_output_def)
  qed
qed

lemma rx_step_good:
  assumes "rx_step S irs i (s, out) (s', out')" "rx_good S irs i s out" "length S < 2 ^ 32"
  shows "rx_good S irs i s' out'"
  using assms(1)
proof cases
  case (segment hdr data now)
  with assms rx_segment_good show ?thesis by blast
next
  case (read maxlen r bs)
  have g: "tcp_inv s" "i < 16" "tc_state (g_tcbs s ! i) = TCP_ESTABLISHED" "out = take (length out) S"
    and c: "rx_consistent S irs (length out) (g_tcbs s ! i)" using assms(2) by (simp_all add: rx_good_def)
  obtain n where e: "n \<le> rx_len (g_tcbs s ! i)" "bs = take n (rx_pending (g_tcbs s ! i))" "rx_pending (g_tcbs s' ! i) = drop n (rx_pending (g_tcbs s ! i))"
    "ack_num (g_tcbs s' ! i) = ack_num (g_tcbs s ! i)" "tc_state (g_tcbs s' ! i) = tc_state (g_tcbs s ! i)"
    "ooo_valid (g_tcbs s' ! i) = ooo_valid (g_tcbs s ! i)" "ooo_seq (g_tcbs s' ! i) = ooo_seq (g_tcbs s ! i)"
    "ooo_len (g_tcbs s' ! i) = ooo_len (g_tcbs s ! i)" "ooo_buf (g_tcbs s' ! i) = ooo_buf (g_tcbs s ! i)"
    using tcp_recv_effect [OF g(1,2) read(2)] by metis
  obtain m where m: "length out \<le> m" "m \<le> length S" "ack_num (g_tcbs s ! i) = irs + of_nat m"
      "rx_pending (g_tcbs s ! i) = drop (length out) (take m S)"
      "ooo_valid (g_tcbs s ! i) \<longrightarrow> honest S irs (ooo_seq (g_tcbs s ! i)) (take (ooo_len (g_tcbs s ! i)) (ooo_buf (g_tcbs s ! i)))"
    using c by (auto simp: rx_consistent_def)
  have "length (rx_pending (g_tcbs s ! i)) = rx_len (g_tcbs s ! i)"
    using tcp_invD(1) [OF g(1,2)] by (simp add: rx_pending_def tcb_inv_def)
  then have n: "length out + n \<le> m" "length bs = n" using e(1,2) m(1,2,4) by simp_all
  have "bs = take n (drop (length out) S)" using e(2) m(4) n(1) by (simp add: drop_take)
  then have "out @ bs = take (length out + n) S" using g(4) by (simp add: take_add)
  moreover have "rx_consistent S irs (length out + n) (g_tcbs s' ! i)"
    unfolding rx_consistent_def using e m n by (intro exI [of _ m]) (simp add: add.commute)
  moreover have "tcp_inv s'" using tcp_recv_inv [OF g(1), of "int i" maxlen] read(2) by simp
  ultimately show ?thesis using g e n read(1) m(2) by (simp add: rx_good_def)
qed

section \<open>Segments from one host to another\<close>

lemma build_segment_header:
  "header_of (build_segment ip t fl p sq) = \<lparr>h_src_port = t_htons (local_port t), h_dst_port = t_htons (remote_port t),
     h_seq_num = t_htonl sq, h_ack_num = (if fl AND TCP_FLAG_ACK \<noteq> 0 then t_htonl (ack_num t) else 0),
     h_data_offset = push_bit 4 5, h_flags = fl, h_window = t_htons (window t),
     h_checksum = h_checksum (header_of (build_segment ip t fl p sq)), h_urgent_ptr = 0\<rparr>"
  by (simp add: build_segment_def Let_def header_of_bytes)

lemma length_build_segment [simp]: "length (build_segment ip t fl p sq) = 20 + length p"
  by (simp add: build_segment_def Let_def)

lemma build_segment_payload: "drop 20 (build_segment ip t fl p sq) = p"
  by (simp add: build_segment_def Let_def)

lemma build_segment_checksum:
  assumes "length p \<le> TCP_MAX_SEG"
  shows "tcp_calc_checksum (build_segment ip t fl p sq) ip (remote_ip t) = 0"
proof -
  define h where "h = \<lparr>h_src_port = t_htons (local_port t), h_dst_port = t_htons (remote_port t), h_seq_num = t_htonl sq,
            h_ack_num = (if fl AND TCP_FLAG_ACK \<noteq> 0 then t_htonl (ack_num t) else 0),
            h_data_offset = push_bit 4 5, h_flags = fl, h_window = t_htons (window t), h_checksum = 0, h_urgent_ptr = 0\<rparr>"
  define pre where "pre = le16_bytes (h_src_port h) @ le16_bytes (h_dst_port h) @ le32_bytes (h_seq_num h)
     @ le32_bytes (h_ack_num h) @ [h_data_offset h, h_flags h] @ le16_bytes (h_window h)"
  define c where "c = tcp_calc_checksum (header_bytes h @ p) ip (remote_ip t)"
  have split: "header_bytes (h\<lparr>h_checksum := x\<rparr>) @ p = pre @ le16_bytes x @ le16_bytes (h_urgent_ptr h) @ p" for x
    by (simp add: header_bytes_def pre_def)
  have "header_bytes h = header_bytes (h\<lparr>h_checksum := 0\<rparr>)" by (simp add: h_def)
  moreover have "le16_bytes 0 = [0, 0]" by (simp add: le16_bytes_def)
  ultimately have c': "c = tcp_calc_checksum (pre @ [0, 0] @ le16_bytes (h_urgent_ptr h) @ p) ip (remote_ip t)"
    using split [of 0] by (simp add: c_def)
  have seg: "build_segment ip t fl p sq = pre @ le16_bytes c @ le16_bytes (h_urgent_ptr h) @ p"
    using split [of c] unfolding build_segment_def Let_def h_def [symmetric] c_def [symmetric] .
  have "length pre = 16" by (simp add: pre_def)
  with assms show ?thesis unfolding seg by (intro checksum_verifies [OF _ _ c']) simp_all
qed

lemma tcp_output_seq_wire:
  assumes "g_ip_output s" "length p \<le> TCP_MAX_SEG" "i < length (g_tcbs s)"
  shows "tcp_wire (tcp_output_seq i fl p sq s) = tcp_wire s @ [(remote_ip (g_tcbs s ! i),
    build_segment (g_local_ip s) ((g_tcbs s ! i)\<lparr>window := of_nat (TCP_RX_BUF_SIZE - rx_len (g_tcbs s ! i))\<rparr>) fl p sq)]"
  using assms by (simp add: tcp_output_seq_def Let_def not_less)

lemma output_config [simp]:
  "g_ip_output (tcp_output_seq i fl p sq s) = g_ip_output s" "g_local_ip (tcp_output_seq i fl p sq s) = g_local_ip s"
  by (simp_all add: tcp_output_seq_def Let_def)

definition conn_matches :: "u16 \<Rightarrow> u16 \<Rightarrow> u32 \<Rightarrow> TcpControlBlock \<Rightarrow> bool" where
  "conn_matches dport sport src_ip t \<longleftrightarrow> tc_state t \<noteq> TCP_CLOSED \<and> tc_state t \<noteq> TCP_LISTEN \<and> local_port t = dport
     \<and> remote_port t = sport \<and> remote_ip t = src_ip"

lemma receive_built_segment:
  "tcp_receive_packet now src (build_segment ip t fl p sq) s =
     (let hdr = header_of (build_segment ip t fl p sq) in
      case find_slot (conn_matches (remote_port t) (local_port t) src) (g_tcbs s) of
        Some i \<Rightarrow> tcp_handle_segment now i hdr p s
      | None \<Rightarrow> (case find_slot (\<lambda>u. tc_state u = TCP_LISTEN \<and> local_port u = remote_port t
                    \<and> fl AND TCP_FLAG_SYN \<noteq> 0 \<and> fl AND TCP_FLAG_ACK = 0) (g_tcbs s) of
                  None \<Rightarrow> s | Some l \<Rightarrow> tcp_passive_open now src l hdr s))"
proof -
  let ?h = "header_of (build_segment ip t fl p sq)"
  have f: "h_src_port ?h = t_htons (local_port t)" "h_dst_port ?h = t_htons (remote_port t)" "h_flags ?h = fl"
    "h_data_offset ?h = push_bit 4 5" by (subst build_segment_header, simp)+
  have "unat (drop_bit 4 (push_bit 4 5 :: u8)) * 4 = 20" by (simp add: drop_bit_eq_div push_bit_eq_mult)
  then show ?thesis
    by (simp add: tcp_receive_packet_def Let_def f build_segment_payload conn_matches_def [abs_def] cong: option.case_cong)
qed

text \<open>The three segments of the handshake, one lemma per hop.\<close>

lemma connect_syn:
  assumes inv: "tcp_inv a" and out: "g_ip_output a" and c: "tcp_connect now ip port a = (int i, a1)"
  shows "i < 16" "tcp_inv a1" "g_ip_output a1" "g_local_ip a1 = g_local_ip a"
    "\<exists>t. g_tcbs a1 = (g_tcbs a)[i := t] \<and> tc_state t = TCP_SYN_SENT \<and> local_port t = g_next_ephemeral a \<and> remote_port t = port
       \<and> remote_ip t = ip \<and> rx_len t = 0 \<and> tc_state (g_tcbs a ! i) = TCP_CLOSED
       \<and> snd (last (tcp_wire a1)) = build_segment (g_local_ip a) (t\<lparr>window := 1024\<rparr>) TCP_FLAG_SYN [] (seq_num t)"
proof -
  obtain k where k: "find_closed a = Some k" using c by (auto simp: tcp_connect_def split: option.splits)
  define nxt where "nxt = g_next_ephemeral a + 1"
  define t where "t = zero_tcb\<lparr>tc_state := TCP_SYN_SENT, local_ip := g_local_ip a,
                  local_port := g_next_ephemeral a, remote_ip := ip, remote_port := port,
                  seq_num := tcp_pick_isn now k, window := of_nat TCP_RX_BUF_SIZE\<rparr>"
  define s1 where "s1 = upd_tcb k (\<lambda>_. t) (a\<lparr>g_next_ephemeral := (if nxt < 49152 then 49152 else nxt)\<rparr>)"
  have a1: "i = k" "a1 = tcp_send_syn now k s1" using c k by (auto simp: tcp_connect_def Let_def s1_def t_def nxt_def)
  have kl: "k < length (g_tcbs a)" "tc_state (g_tcbs a ! k) = TCP_CLOSED" using find_slot_SomeD [OF k [unfolded find_closed_def]] by simp_all
  then have i16: "k < 16" using tcp_invD(2) [OF inv] by simp
  have s1: "g_tcbs s1 = (g_tcbs a)[k := t]" "g_ip_output s1" "g_local_ip s1 = g_local_ip a" using out by (simp_all add: s1_def upd_tcb_def)
  show "i < 16" "tcp_inv a1" using i16 a1(1) tcp_connect_inv [OF inv, of now ip port] c by simp_all
  show "g_ip_output a1" "g_local_ip a1 = g_local_ip a" using s1 by (simp_all add: a1(2) tcp_send_syn_def tcp_output_def)
  have w: "rx_len t = 0" "window t = 1024" by (simp_all add: t_def zero_tcb_def)
  have "g_tcbs a1 = (g_tcbs a)[k := t\<lparr>window := 1024, last_activity_tick := now\<rparr>]" using s1 kl w
    by (simp add: a1(2) tcp_send_syn_def tcp_output_def tcp_output_seq_def Let_def upd_tcb_def)
  moreover have "snd (last (tcp_wire a1)) = build_segment (g_local_ip a) (t\<lparr>window := 1024\<rparr>) TCP_FLAG_SYN [] (seq_num t)"
    using s1 kl w by (simp add: a1(2) tcp_send_syn_def tcp_output_def tcp_output_seq_wire)
  moreover have "build_segment x (u\<lparr>last_activity_tick := n, window := v\<rparr>) fl p q = build_segment x (u\<lparr>window := v\<rparr>) fl p q" for x u n v fl p q
    by (simp add: build_segment_def)
  ultimately show "\<exists>t. g_tcbs a1 = (g_tcbs a)[i := t] \<and> tc_state t = TCP_SYN_SENT \<and> local_port t = g_next_ephemeral a \<and> remote_port t = port
       \<and> remote_ip t = ip \<and> rx_len t = 0 \<and> tc_state (g_tcbs a ! i) = TCP_CLOSED
       \<and> snd (last (tcp_wire a1)) = build_segment (g_local_ip a) (t\<lparr>window := 1024\<rparr>) TCP_FLAG_SYN [] (seq_num t)"
    using kl(2) a1(1) w by (intro exI [of _ "t\<lparr>window := 1024, last_activity_tick := now\<rparr>"]) (simp add: t_def)
qed

lemma listen_synack:
  assumes inv: "tcp_inv b" and out: "g_ip_output b" and k: "find_closed b = Some k"
    and b1_def: "b1 = tcp_passive_open now ip l hdr b"
  shows "k < 16" "g_ip_output b1" "g_local_ip b1 = g_local_ip b"
    "\<exists>t. g_tcbs b1 = (g_tcbs b)[k := t] \<and> tc_state t = TCP_SYN_RECEIVED \<and> local_port t = t_ntohs (h_dst_port hdr)
       \<and> remote_port t = t_ntohs (h_src_port hdr) \<and> remote_ip t = ip \<and> ack_num t = t_ntohl (h_seq_num hdr) + 1 \<and> rx_len t = 0
       \<and> snd (last (tcp_wire b1)) = build_segment (g_local_ip b) (t\<lparr>window := 1024\<rparr>) (TCP_FLAG_SYN OR TCP_FLAG_ACK) [] (seq_num t)"
proof -
  define t where "t = zero_tcb\<lparr>tc_state := TCP_SYN_RECEIVED, local_ip := local_ip (g_tcbs b ! l),
             local_port := t_ntohs (h_dst_port hdr), remote_ip := ip, remote_port := t_ntohs (h_src_port hdr),
             seq_num := tcp_pick_isn now k, ack_num := t_ntohl (h_seq_num hdr) + 1,
             remote_window := t_ntohs (h_window hdr), window := of_nat TCP_RX_BUF_SIZE, from_listener := True\<rparr>"
  define s1 where "s1 = upd_tcb k (\<lambda>_. t) b"
  have b1: "b1 = tcp_send_synack now k s1" using k by (simp add: b1_def tcp_passive_open_def s1_def t_def)
  have kl: "k < length (g_tcbs b)" using find_slot_SomeD [OF k [unfolded find_closed_def]] by simp
  then show "k < 16" using tcp_invD(2) [OF inv] by simp
  have s1: "g_tcbs s1 = (g_tcbs b)[k := t]" "g_ip_output s1" "g_local_ip s1 = g_local_ip b" using out by (simp_all add: s1_def upd_tcb_def)
  then show "g_ip_output b1" "g_local_ip b1 = g_local_ip b" by (simp_all add: b1 tcp_send_synack_def tcp_output_def)
  have w: "rx_len t = 0" "window t = 1024" by (simp_all add: t_def zero_tcb_def)
  have "g_tcbs b1 = (g_tcbs b)[k := t\<lparr>window := 1024, last_activity_tick := now\<rparr>]" using s1 kl w
    by (simp add: b1 tcp_send_synack_def tcp_output_def tcp_output_seq_def Let_def upd_tcb_def)
  moreover have "snd (last (tcp_wire b1)) = build_segment (g_local_ip b) (t\<lparr>window := 1024\<rparr>) (TCP_FLAG_SYN OR TCP_FLAG_ACK) [] (seq_num t)"
    using s1 kl w by (simp add: b1 tcp_send_synack_def tcp_output_def tcp_output_seq_wire)
  moreover have "build_segment x (u\<lparr>last_activity_tick := n, window := v\<rparr>) fl p q = build_segment x (u\<lparr>window := v\<rparr>) fl p q" for x u n v fl p q
    by (simp add: build_segment_def)
  ultimately show "\<exists>t. g_tcbs b1 = (g_tcbs b)[k := t] \<and> tc_state t = TCP_SYN_RECEIVED \<and> local_port t = t_ntohs (h_dst_port hdr)
       \<and> remote_port t = t_ntohs (h_src_port hdr) \<and> remote_ip t = ip \<and> ack_num t = t_ntohl (h_seq_num hdr) + 1 \<and> rx_len t = 0
       \<and> snd (last (tcp_wire b1)) = build_segment (g_local_ip b) (t\<lparr>window := 1024\<rparr>) (TCP_FLAG_SYN OR TCP_FLAG_ACK) [] (seq_num t)"
    using w by (intro exI [of _ "t\<lparr>window := 1024, last_activity_tick := now\<rparr>"]) (simp add: t_def)
qed

lemma syn_flag_simps [simp]:
  "TCP_FLAG_SYN AND TCP_FLAG_SYN \<noteq> 0" "TCP_FLAG_SYN AND TCP_FLAG_ACK = 0" "TCP_FLAG_SYN AND TCP_FLAG_RST = 0"
  "(TCP_FLAG_SYN OR TCP_FLAG_ACK) AND TCP_FLAG_RST = 0" "(TCP_FLAG_SYN OR TCP_FLAG_ACK) AND TCP_FLAG_ACK \<noteq> 0"
  "TCP_FLAG_ACK AND TCP_FLAG_RST = 0" "TCP_FLAG_ACK AND TCP_FLAG_ACK \<noteq> 0" "TCP_FLAG_SYN \<noteq> 0" "TCP_FLAG_ACK \<noteq> 0"
  by (simp_all add: tcp_flags)

text \<open>A new control block is the only one that its own segments reach.\<close>

lemma find_new_connection:
  assumes "i < length ts" "\<not> list_ex (conn_matches dport sport ip) ts" "conn_matches dport sport ip t"
  shows "find_slot (conn_matches dport sport ip) (ts[i := t]) = Some i"
  using assms by (intro find_slot_unique) (auto simp: nth_update_if list_ex_length split: if_splits)

lemma syn_sent_segment:
  assumes st: "tc_state (g_tcbs s ! i) = TCP_SYN_SENT" and i: "i < length (g_tcbs s)" and out: "g_ip_output s"
    and h: "h_flags hdr = TCP_FLAG_SYN OR TCP_FLAG_ACK" "t_ntohl (h_ack_num hdr) = seq_num (g_tcbs s ! i) + 1"
    and s'_def: "s' = tcp_handle_segment now i hdr p s"
  shows "tc_state (g_tcbs s' ! i) = TCP_ESTABLISHED" "seq_num (g_tcbs s' ! i) = seq_num (g_tcbs s ! i) + 1"
    "snd_una (g_tcbs s' ! i) = seq_num (g_tcbs s ! i) + 1" "ack_num (g_tcbs s' ! i) = t_ntohl (h_seq_num hdr) + 1"
    "remote_window (g_tcbs s' ! i) = t_ntohs (h_window hdr)"
    "\<exists>t. local_port t = local_port (g_tcbs s ! i) \<and> remote_port t = remote_port (g_tcbs s ! i) \<and> ack_num t = t_ntohl (h_seq_num hdr) + 1
       \<and> window t = of_nat (TCP_RX_BUF_SIZE - rx_len (g_tcbs s ! i))
       \<and> snd (last (tcp_wire s')) = build_segment (g_local_ip s) t TCP_FLAG_ACK [] (seq_num (g_tcbs s ! i) + 1)"
proof -
  let ?f = "\<lambda>t. t\<lparr>seq_num := seq_num t + 1, ack_num := t_ntohl (h_seq_num hdr) + 1, remote_window := t_ntohs (h_window hdr),
      snd_una := seq_num t + 1, tx_start := 0, rto_tick := now, tc_state := TCP_ESTABLISHED\<rparr>"
  have s': "s' = tcp_output_seq i TCP_FLAG_ACK [] (seq_num (g_tcbs s ! i) + 1) (upd_tcb i ?f s)"
    using st h i by (simp add: s'_def tcp_handle_segment_def Let_def tcp_send_ack_def tcp_output_def)
  show "tc_state (g_tcbs s' ! i) = TCP_ESTABLISHED" "seq_num (g_tcbs s' ! i) = seq_num (g_tcbs s ! i) + 1"
    "snd_una (g_tcbs s' ! i) = seq_num (g_tcbs s ! i) + 1" "ack_num (g_tcbs s' ! i) = t_ntohl (h_seq_num hdr) + 1"
    "remote_window (g_tcbs s' ! i) = t_ntohs (h_window hdr)"
    using i by (simp_all add: s')
  show "\<exists>t. local_port t = local_port (g_tcbs s ! i) \<and> remote_port t = remote_port (g_tcbs s ! i) \<and> ack_num t = t_ntohl (h_seq_num hdr) + 1
       \<and> window t = of_nat (TCP_RX_BUF_SIZE - rx_len (g_tcbs s ! i))
       \<and> snd (last (tcp_wire s')) = build_segment (g_local_ip s) t TCP_FLAG_ACK [] (seq_num (g_tcbs s ! i) + 1)"
    using i out by (intro exI [of _ "(?f (g_tcbs s ! i))\<lparr>window := of_nat (TCP_RX_BUF_SIZE - rx_len (g_tcbs s ! i))\<rparr>"])
      (simp add: s' tcp_output_seq_wire)
qed

text \<open>Two hosts for the witnesses: one with an open connection, one with free sockets.\<close>

definition fresh_host :: "u32 \<Rightarrow> tcp_state" where
  "fresh_host ip = \<lparr>g_tcbs = replicate TCP_MAX_SOCKETS zero_tcb, g_ip_output = True, g_local_ip = ip, g_next_ephemeral = 49152, tcp_wire = []\<rparr>"

definition open_host :: "u32 \<Rightarrow> tcp_state" where
  "open_host sent = upd_tcb 0 (\<lambda>t. t\<lparr>tc_state := TCP_ESTABLISHED, remote_window := 100, seq_num := sent\<rparr>) (fresh_host 1)"

lemma fresh_host_inv: "tcp_inv (fresh_host ip)"
  by (simp add: tcp_inv_def fresh_host_def list_all_length zero_tcb_inv)

lemma open_host_inv: "sent \<le> 2048 \<Longrightarrow> tcp_inv (open_host sent)"
  using zero_tcb_inv unfolding open_host_def
  by (intro upd_tcb_inv [OF fresh_host_inv]) (simp add: tcb_inv_def inflight_def fresh_host_def zero_tcb_def word_le_nat_alt)

lemma open_host_socket: "g_tcbs (open_host sent) ! 0 = zero_tcb\<lparr>tc_state := TCP_ESTABLISHED, remote_window := 100, seq_num := sent\<rparr>"
  by (simp add: open_host_def fresh_host_def upd_tcb_def)

section \<open>Properties\<close>

text \<open>
  Property C11: whatever the network does to the segments of a peer's byte stream \<open>S\<close> (loss, repetition,
  reordering, any segmentation), what the application has read from the socket is a prefix of \<open>S\<close>: no
  byte is lost, repeated, or out of place, across the 1024-byte receive buffer, the out-of-order slot
  and sequence numbers that wrap around.
\<close>

theorem tcp_stream_in_order:
  assumes "tcp_inv s" "i < TCP_MAX_SOCKETS" "tc_state (g_tcbs s ! i) = TCP_ESTABLISHED" "rx_len (g_tcbs s ! i) = 0"
    "\<not> ooo_valid (g_tcbs s ! i)" "ack_num (g_tcbs s ! i) = irs" "length S < 2 ^ 32"
    "(rx_step S irs i)\<^sup>*\<^sup>* (s, []) (s', out)"
  shows "out = take (length out) S \<and> tcp_inv s' \<and> tc_state (g_tcbs s' ! i) = TCP_ESTABLISHED"
proof -
  have "rx_consistent S irs 0 (g_tcbs s ! i)"
    using assms(4-6) unfolding rx_consistent_def rx_pending_def by (intro exI [of _ 0]) simp
  then have "rx_good S irs i s []" using assms(1-3) by (simp add: rx_good_def)
  with assms(8) have "rx_good S irs i s' out"
    by (induction rule: rtranclp_induct2) (use rx_step_good assms(7) in blast)+
  then show ?thesis by (simp add: rx_good_def)
qed

theorem tcp_stream_in_order_witness:
  "\<exists>s' out. (rx_step [1, 2, 3] 0 0)\<^sup>*\<^sup>* (open_host 0, []) (s', out) \<and> out = [1, 2] \<and> out = take (length out) [1, 2, 3]
     \<and> tc_state (g_tcbs s' ! 0) = TCP_ESTABLISHED"
proof -
  let ?hdr = "header_of (build_segment 2 zero_tcb TCP_FLAG_PSH [1, 2] 0)"
  let ?s = "tcp_handle_segment 0 0 ?hdr [1, 2] (open_host 0)"
  have h: "t_ntohl (h_seq_num ?hdr) = 0" "h_flags ?hdr = TCP_FLAG_PSH" by (subst build_segment_header, simp)+
  have l: "0 < length (g_tcbs (open_host 0))" by (simp add: open_host_def fresh_host_def)
  have fl: "TCP_FLAG_PSH AND TCP_FLAG_RST = 0" "TCP_FLAG_PSH AND TCP_FLAG_ACK = 0" "TCP_FLAG_PSH AND TCP_FLAG_FIN = 0"
    by (simp_all add: tcp_flags)
  let ?t = "g_tcbs (open_host 0) ! 0"
  have t: "tc_state ?t = TCP_ESTABLISHED" "ack_num ?t = 0" "\<not> ooo_valid ?t" "rx_len ?t = 0" "rx_buf ?t = replicate 1024 0"
    by (simp_all add: open_host_socket zero_tcb_def)
  have "?s = tcp_send_ack 0 (upd_tcb 0 (rx_data 0 [1, 2]) (open_host 0))"
    using t(1) by (simp add: tcp_handle_segment_def established_segment_def Let_def h fl)
  moreover have "rx_data 0 [1, 2] ?t = rx_store [1, 2] ?t" using t by (simp add: rx_data_def rx_store_def Let_def)
  ultimately have "rx_len (g_tcbs ?s ! 0) = rx_len (rx_store [1, 2] ?t)" "rx_buf (g_tcbs ?s ! 0) = rx_buf (rx_store [1, 2] ?t)"
    using l by (simp_all add: tcp_send_ack_def tcp_output_def)
  then have rx: "rx_len (g_tcbs ?s ! 0) = 2" "take 2 (rx_buf (g_tcbs ?s ! 0)) = [1, 2]"
    using t(4,5) by (simp_all add: rx_store_def Let_def)
  have "rx_step [1, 2, 3] 0 0 (open_host 0, []) (?s, [])"
    by (intro rx_step.segment) (simp_all add: honest_def h fl)
  moreover obtain s2 where "tcp_recv (int 0) 5 ?s = ((2, [1, 2]), s2)" using rx by (simp add: tcp_recv_def Let_def)
  from rx_step.read [OF this, of "[1, 2, 3]" 0 "[]"] have "rx_step [1, 2, 3] 0 0 (?s, []) (s2, [1, 2])" by simp
  ultimately have "(rx_step [1, 2, 3] 0 0)\<^sup>*\<^sup>* (open_host 0, []) (s2, [1, 2])" by (meson converse_rtranclp_into_rtranclp rtranclp.rtrancl_refl)
  moreover note tcp_stream_in_order [OF open_host_inv, of 0 0 0 "[1, 2, 3]", OF _ _ _ _ _ _ _ this]
  ultimately show ?thesis by (auto simp: open_host_socket zero_tcb_def)
qed

text \<open>
  Property C26: every state that the operations, the timer and arbitrary incoming packets lead to from
  initialisation has sixteen well-formed control blocks: buffered lengths stay within the buffers, ring
  indices in range, and never more than the ring holds is unacknowledged.
\<close>

theorem tcp_reachable_well_formed:
  assumes "tcp_step\<^sup>*\<^sup>* (tcp_init s0) s"
  shows "tcp_inv s"
  using assms by (induction rule: rtranclp_induct) (auto intro: tcp_init_inv tcp_step_inv)

theorem tcp_reachable_well_formed_witness:
  "tcp_step\<^sup>*\<^sup>* (tcp_init (fresh_host 1)) (snd (tcp_listen 80 (tcp_init (fresh_host 1))))
     \<and> tcp_inv (snd (tcp_listen 80 (tcp_init (fresh_host 1))))"
  using tcp_reachable_well_formed [of "fresh_host 1"] tcp_step.listen [of "tcp_init (fresh_host 1)" 80] by blast

text \<open>
  Property C28: \<open>tcp_send\<close> on an open connection accepts as many bytes as the peer's window, the ring and
  one segment leave room for, appends exactly those to the unacknowledged bytes and returns how many.
\<close>

theorem tcp_send_appends:
  assumes "tcp_inv s" "0 \<le> sock" "sock < 16" "sending (tc_state (g_tcbs s ! nat sock))" "0 < len" "nat len \<le> length buf"
    "tcp_send now sock buf len s = (r, s')"
  shows "r = int (min (nat len) (send_room (g_tcbs s ! nat sock)))
    \<and> tx_pending (g_tcbs s' ! nat sock) = tx_pending (g_tcbs s ! nat sock) @ take (nat r) buf"
  using tcp_send_effect(1,3) [OF assms] by simp

theorem tcp_send_appends_witness:
  "\<exists>s'. tcp_send 5 0 [7, 8, 9] 3 (open_host 0) = (3, s') \<and> tx_pending (g_tcbs s' ! 0) = [7, 8, 9]"
proof -
  obtain r s' where s': "tcp_send 5 0 [7, 8, 9] 3 (open_host 0) = (r, s')" by (cases "tcp_send 5 0 [7, 8, 9] 3 (open_host 0)")
  have "send_room (g_tcbs (open_host 0) ! 0) = 100" by (simp add: open_host_socket send_room_def inflight_def zero_tcb_def)
  moreover have "tx_pending (g_tcbs (open_host 0) ! 0) = []"
    by (simp add: open_host_socket tx_pending_def inflight_def zero_tcb_def ring_contents_def)
  ultimately show ?thesis
    using tcp_send_appends [OF open_host_inv _ _ _ _ _ s'] s' by (simp add: open_host_socket)
qed

text \<open>
  Property C30: an acknowledgement inside the window drops exactly the acknowledged bytes, any other
  leaves the unacknowledged bytes alone; when the retransmission timer of a connection with
  unacknowledged bytes expires, the tick sends the oldest of them again, at most one segment, numbered
  with the first unacknowledged sequence number, and keeps them queued.
\<close>

theorem tcp_retransmission:
  assumes "tcp_inv s" "i < TCP_MAX_SOCKETS" "sending (tc_state (g_tcbs s ! i))"
  shows "tx_pending (tcp_ack_advance now ack wnd (g_tcbs s ! i)) =
      (if unat (ack - snd_una (g_tcbs s ! i)) \<le> inflight (g_tcbs s ! i)
       then drop (unat (ack - snd_una (g_tcbs s ! i))) (tx_pending (g_tcbs s ! i)) else tx_pending (g_tcbs s ! i))
    \<and> (g_ip_output s \<and> inflight (g_tcbs s ! i) > 0 \<and> retransmit_count (g_tcbs s ! i) < 8
        \<and> now - rto_tick (g_tcbs s ! i) > push_bit (min 4 (retransmit_count (g_tcbs s ! i))) 120 \<longrightarrow>
       (\<exists>t. tcp_wire (tcp_tick_socket now i s) = tcp_wire s @ [(remote_ip (g_tcbs s ! i),
          build_segment (g_local_ip s) t (TCP_FLAG_PSH OR TCP_FLAG_ACK) (take TCP_MAX_SEG (tx_pending (g_tcbs s ! i))) (snd_una (g_tcbs s ! i)))])
       \<and> tx_pending (g_tcbs (tcp_tick_socket now i s) ! i) = tx_pending (g_tcbs s ! i))"
proof (intro conjI impI)
  let ?t = "g_tcbs s ! i"
  show "tx_pending (tcp_ack_advance now ack wnd ?t) = (if unat (ack - snd_una ?t) \<le> inflight ?t
       then drop (unat (ack - snd_una ?t)) (tx_pending ?t) else tx_pending ?t)"
    using ack_advance_effect(2) [OF tcp_invD(1) [OF assms(1,2)] assms(3) refl] .
  have l: "i < length (g_tcbs s)" using tcp_invD(2) [OF assms(1)] assms(2) by simp
  assume a: "g_ip_output s \<and> inflight ?t > 0 \<and> retransmit_count ?t < 8
        \<and> now - rto_tick ?t > push_bit (min 4 (retransmit_count ?t)) 120"
  have "(if retransmit_count ?t < 4 then retransmit_count ?t else 4) = min 4 (retransmit_count ?t)" by simp
  moreover have "seq_num ?t - snd_una ?t > 0" using a by (simp add: inflight_def word_less_nat_alt)
  ultimately have tick: "tcp_tick_socket now i s
      = upd_tcb i (\<lambda>t. t\<lparr>retransmit_count := retransmit_count t + 1, rto_tick := now\<rparr>) (tcp_retransmit_head i s)"
    using assms(3) a by (auto simp: tcp_tick_socket_def Let_def sending_def)
  note seg = tcp_retransmit_segment [OF assms]
  have "length (take TCP_MAX_SEG (tx_pending ?t)) \<le> 1024" by simp
  then show "\<exists>t. tcp_wire (tcp_tick_socket now i s) = tcp_wire s @ [(remote_ip ?t,
          build_segment (g_local_ip s) t (TCP_FLAG_PSH OR TCP_FLAG_ACK) (take TCP_MAX_SEG (tx_pending ?t)) (snd_una ?t))]"
    using a l by (simp add: tick seg tcp_output_seq_wire) blast
  show "tx_pending (g_tcbs (tcp_tick_socket now i s) ! i) = tx_pending ?t"
    using l by (simp add: tick seg tx_pending_def inflight_def)
qed

theorem tcp_retransmission_witness:
  "\<exists>t. tcp_wire (tcp_tick_socket 200 0 (open_host 2)) =
     [(0, build_segment 1 t (TCP_FLAG_PSH OR TCP_FLAG_ACK) [0, 0] 0)]"
proof -
  have p: "tx_pending (g_tcbs (open_host 2) ! 0) = [0, 0]"
    by (simp add: open_host_socket tx_pending_def inflight_def zero_tcb_def ring_contents_def upt_rec)
  have w: "tcp_wire (open_host 2) = []" "g_ip_output (open_host 2)" "g_local_ip (open_host 2) = 1" by (simp_all add: open_host_def fresh_host_def)
  show ?thesis using tcp_retransmission [OF open_host_inv, of 2 0 200] p w
    by (simp add: open_host_socket zero_tcb_def inflight_def)
qed

text \<open>
  Property C32: every segment that the stack builds carries a checksum that the receiver's sum over the
  pseudo-header and the whole segment confirms, for payloads of even and odd length, and parses back to
  the ports, numbers, flags and window it was built from, with the payload behind the header.
\<close>

theorem tcp_segment_wellformed:
  assumes "length p \<le> TCP_MAX_SEG" "h = header_of (build_segment ip t fl p sq)"
  shows "tcp_calc_checksum (build_segment ip t fl p sq) ip (remote_ip t) = 0
    \<and> t_ntohs (h_src_port h) = local_port t \<and> t_ntohs (h_dst_port h) = remote_port t \<and> t_ntohl (h_seq_num h) = sq
    \<and> h_flags h = fl \<and> t_ntohs (h_window h) = window t \<and> (fl AND TCP_FLAG_ACK \<noteq> 0 \<longrightarrow> t_ntohl (h_ack_num h) = ack_num t)
    \<and> drop (unat (drop_bit 4 (h_data_offset h)) * 4) (build_segment ip t fl p sq) = p"
proof -
  have "unat (drop_bit 4 (push_bit 4 5 :: u8)) * 4 = 20" by (simp add: drop_bit_eq_div push_bit_eq_mult)
  moreover have "h_src_port h = t_htons (local_port t)" "h_dst_port h = t_htons (remote_port t)" "h_seq_num h = t_htonl sq"
    "h_flags h = fl" "h_window h = t_htons (window t)" "h_data_offset h = push_bit 4 5"
    "h_ack_num h = (if fl AND TCP_FLAG_ACK \<noteq> 0 then t_htonl (ack_num t) else 0)"
    unfolding assms(2) by (subst build_segment_header, simp)+
  ultimately show ?thesis using build_segment_checksum [OF assms(1)] by (simp add: build_segment_payload)
qed

theorem tcp_segment_wellformed_witness:
  "tcp_calc_checksum (build_segment 1 (zero_tcb\<lparr>remote_ip := 2\<rparr>) TCP_FLAG_ACK [1, 2, 3] 7) 1 2 = 0"
  using tcp_segment_wellformed [of "[1, 2, 3]" _ 1 "zero_tcb\<lparr>remote_ip := 2\<rparr>" TCP_FLAG_ACK 7, OF _ refl] by simp

text \<open>
  Property C13: the three-way handshake between two hosts that run this stack. When \<open>a\<close> connects to a
  port on which \<open>b\<close> listens, both have a free control block and no old connection between these ports,
  the SYN, the SYN-ACK and the ACK that the two send make both ends established, with each end's next
  sequence number being what the other end expects, and 1024 bytes of window granted by \<open>b\<close> to \<open>a\<close>.
\<close>

theorem tcp_handshake:
  assumes inv: "tcp_inv a" "tcp_inv b" and out: "g_ip_output a" "g_ip_output b"
    and con: "tcp_connect t0 (g_local_ip b) port a = (int i, a1)"
    and lis: "list_ex (\<lambda>t. tc_state t = TCP_LISTEN \<and> local_port t = port) (g_tcbs b)" and j: "find_closed b = Some j"
    and fresh: "\<not> list_ex (conn_matches (g_next_ephemeral a) port (g_local_ip b)) (g_tcbs a)"
      "\<not> list_ex (conn_matches port (g_next_ephemeral a) (g_local_ip a)) (g_tcbs b)"
    and b1: "b1 = tcp_receive_packet t1 (g_local_ip a) (snd (last (tcp_wire a1))) b"
    and a2: "a2 = tcp_receive_packet t2 (g_local_ip b) (snd (last (tcp_wire b1))) a1"
    and b2: "b2 = tcp_receive_packet t3 (g_local_ip a) (snd (last (tcp_wire a2))) b1"
  shows "tc_state (g_tcbs a2 ! i) = TCP_ESTABLISHED \<and> tc_state (g_tcbs b2 ! j) = TCP_ESTABLISHED
    \<and> seq_num (g_tcbs a2 ! i) = ack_num (g_tcbs b2 ! j) \<and> seq_num (g_tcbs b2 ! j) = ack_num (g_tcbs a2 ! i)
    \<and> inflight (g_tcbs a2 ! i) = 0 \<and> inflight (g_tcbs b2 ! j) = 0 \<and> remote_window (g_tcbs a2 ! i) = 1024"
proof -
  note A = connect_syn [OF inv(1) out(1) con]
  obtain ta where ta: "g_tcbs a1 = (g_tcbs a)[i := ta]" "tc_state ta = TCP_SYN_SENT" "local_port ta = g_next_ephemeral a"
      "remote_port ta = port" "remote_ip ta = g_local_ip b" "rx_len ta = 0"
      "snd (last (tcp_wire a1)) = build_segment (g_local_ip a) (ta\<lparr>window := 1024\<rparr>) TCP_FLAG_SYN [] (seq_num ta)" using A(5) by blast
  let ?h1 = "header_of (build_segment (g_local_ip a) (ta\<lparr>window := 1024\<rparr>) TCP_FLAG_SYN [] (seq_num ta))"
  have h1: "t_ntohs (h_dst_port ?h1) = port" "t_ntohs (h_src_port ?h1) = g_next_ephemeral a" "t_ntohl (h_seq_num ?h1) = seq_num ta"
    by (subst build_segment_header, simp add: ta)+
  have "find_slot (conn_matches port (g_next_ephemeral a) (g_local_ip a)) (g_tcbs b) = None"
    using fresh(2) by (auto simp: find_slot_None_iff list_ex_iff)
  moreover obtain l where "find_slot (\<lambda>u. tc_state u = TCP_LISTEN \<and> local_port u = port) (g_tcbs b) = Some l"
    using lis by (cases "find_slot (\<lambda>u. tc_state u = TCP_LISTEN \<and> local_port u = port) (g_tcbs b)") (auto simp: find_slot_None_iff list_ex_iff)
  ultimately have b1': "b1 = tcp_passive_open t1 (g_local_ip a) l ?h1 b"
    using b1 by (simp add: ta receive_built_segment Let_def)
  note B = listen_synack [OF inv(2) out(2) j b1']
  obtain tb where tb: "g_tcbs b1 = (g_tcbs b)[j := tb]" "tc_state tb = TCP_SYN_RECEIVED" "local_port tb = port"
      "remote_port tb = g_next_ephemeral a" "remote_ip tb = g_local_ip a" "ack_num tb = seq_num ta + 1" "rx_len tb = 0"
      "snd (last (tcp_wire b1)) = build_segment (g_local_ip b) (tb\<lparr>window := 1024\<rparr>) (TCP_FLAG_SYN OR TCP_FLAG_ACK) [] (seq_num tb)"
    using B(4) unfolding h1 by blast
  let ?h2 = "header_of (build_segment (g_local_ip b) (tb\<lparr>window := 1024\<rparr>) (TCP_FLAG_SYN OR TCP_FLAG_ACK) [] (seq_num tb))"
  have h2: "h_flags ?h2 = TCP_FLAG_SYN OR TCP_FLAG_ACK" "t_ntohl (h_seq_num ?h2) = seq_num tb" "t_ntohl (h_ack_num ?h2) = seq_num ta + 1"
    "t_ntohs (h_window ?h2) = 1024" by (subst build_segment_header, simp add: tb)+
  have il: "i < length (g_tcbs a)" "j < length (g_tcbs b)" using A(1) B(1) tcp_invD(2) [OF inv(1)] tcp_invD(2) [OF inv(2)] by simp_all
  have fa: "find_slot (conn_matches (g_next_ephemeral a) port (g_local_ip b)) (g_tcbs a1) = Some i"
    and fb: "find_slot (conn_matches port (g_next_ephemeral a) (g_local_ip a)) (g_tcbs b1) = Some j"
    using fresh il ta tb by (simp_all add: find_new_connection conn_matches_def [of _ _ _ ta] conn_matches_def [of _ _ _ tb])
  have a1i: "g_tcbs a1 ! i = ta" "i < length (g_tcbs a1)" "g_tcbs b1 ! j = tb" "j < length (g_tcbs b1)" using il ta tb by simp_all
  have a2': "a2 = tcp_handle_segment t2 i ?h2 [] a1" using a2 fa by (simp add: tb receive_built_segment Let_def)
  note C = syn_sent_segment [OF _ a1i(2) A(3) h2(1) _ a2', unfolded a1i(1), OF ta(2) h2(3)]
  obtain tc where tc: "local_port tc = g_next_ephemeral a" "remote_port tc = port" "ack_num tc = seq_num tb + 1"
      "snd (last (tcp_wire a2)) = build_segment (g_local_ip a) tc TCP_FLAG_ACK [] (seq_num ta + 1)"
    using C(6) unfolding ta h2 A(4) by blast
  let ?h3 = "header_of (build_segment (g_local_ip a) tc TCP_FLAG_ACK [] (seq_num ta + 1))"
  have h3: "h_flags ?h3 = TCP_FLAG_ACK" "t_ntohl (h_ack_num ?h3) = seq_num tb + 1" by (subst build_segment_header, simp add: tc)+
  have "b2 = tcp_handle_segment t3 j ?h3 [] b1" using b2 fb by (simp add: tc receive_built_segment Let_def)
  then show ?thesis using C(1-5) h2 h3 a1i(3,4) tb by (simp add: tcp_handle_segment_def Let_def inflight_def)
qed

theorem tcp_handshake_witness:
  "\<exists>a1 a2 b1 b2. tcp_connect 10 2 80 (fresh_host 1) = (0, a1)
     \<and> b1 = tcp_receive_packet 11 1 (snd (last (tcp_wire a1))) (snd (tcp_listen 80 (fresh_host 2)))
     \<and> a2 = tcp_receive_packet 12 2 (snd (last (tcp_wire b1))) a1 \<and> b2 = tcp_receive_packet 13 1 (snd (last (tcp_wire a2))) b1
     \<and> tc_state (g_tcbs a2 ! 0) = TCP_ESTABLISHED \<and> tc_state (g_tcbs b2 ! 1) = TCP_ESTABLISHED"
proof -
  let ?a = "fresh_host 1" and ?b = "snd (tcp_listen 80 (fresh_host 2))"
  have f: "find_closed (fresh_host ip) = Some 0" for ip
    by (simp add: find_closed_def find_slot_Some_iff fresh_host_def zero_tcb_def)
  obtain a1 where a1: "tcp_connect 10 2 80 ?a = (int 0, a1)" using f by (simp add: tcp_connect_def Let_def)
  have b: "g_tcbs ?b = (replicate 16 zero_tcb)[0 := zero_tcb\<lparr>tc_state := TCP_LISTEN, local_ip := 2, local_port := 80, window := 1024\<rparr>]"
    "g_ip_output ?b" "g_local_ip ?b = 2"
    using f by (simp_all add: tcp_listen_def upd_tcb_def fresh_host_def)
  have "find_closed ?b = Some 1" by (simp add: find_closed_def find_slot_Some_iff b(1) zero_tcb_def nth_update_if)
  moreover have "list_ex (\<lambda>t. tc_state t = TCP_LISTEN \<and> local_port t = 80) (g_tcbs ?b)" 
    by (auto simp: list_ex_length b(1) intro!: exI [of _ 0])
  moreover have "\<not> list_ex (conn_matches (g_next_ephemeral ?a) 80 2) (g_tcbs ?a)" "\<not> list_ex (conn_matches 80 (g_next_ephemeral ?a) 1) (g_tcbs ?b)"
    by (auto simp: list_ex_length b(1) conn_matches_def nth_update_if) (auto simp: fresh_host_def zero_tcb_def)
  moreover have "g_ip_output ?a" "g_local_ip ?a = 1" by (simp_all add: fresh_host_def)
  ultimately show ?thesis
    using tcp_handshake [of ?a ?b 10 80 0 a1 1, OF fresh_host_inv tcp_listen_inv [OF fresh_host_inv] _ _ _ _ _ _ _ refl refl refl] a1 b by auto
qed

end
