(* ===== verification/Udp.thy ===== *)
theory Udp
  imports Ring_Buffers
begin

text \<open>
  UDP sockets and the DHCP and DNS clients (\<open>kernel/net/udp.c\<close>). The transmit function of the IP layer is a
  value of the state, on a network \<open>'n\<close>. The clients wait for datagrams: a list of polls gives, for every
  reading of the timer, the segments that arrived before it and the ticks read; \<open>None\<close> means that the list
  ends first.
\<close>

section \<open>Data\<close>

abbreviation UDP_MAX_SOCKETS :: nat where "UDP_MAX_SOCKETS \<equiv> 8"
abbreviation UDP_RX_QUEUE :: nat where "UDP_RX_QUEUE \<equiv> 4"
abbreviation UDP_MAX_PAYLOAD :: nat where "UDP_MAX_PAYLOAD \<equiv> 1472"
abbreviation UDP_HEADER_SIZE :: nat where "UDP_HEADER_SIZE \<equiv> 8"

definition u_htons :: "u16 \<Rightarrow> u16" where
  "u_htons h = drop_bit 8 h OR push_bit 8 h"

abbreviation u_ntohs :: "u16 \<Rightarrow> u16" where "u_ntohs \<equiv> u_htons"

record UdpHeader =
  uh_src_port :: u16
  uh_dst_port :: u16
  uh_length :: u16
  uh_checksum :: u16

definition udp_header_bytes :: "UdpHeader \<Rightarrow> bytes" where
  "udp_header_bytes h = le16_bytes (uh_src_port h) @ le16_bytes (uh_dst_port h) @ le16_bytes (uh_length h) @ le16_bytes (uh_checksum h)"

definition udp_header_of :: "bytes \<Rightarrow> UdpHeader" where
  "udp_header_of b = \<lparr>uh_src_port = le16_of b, uh_dst_port = le16_of (drop 2 b), uh_length = le16_of (drop 4 b), uh_checksum = le16_of (drop 6 b)\<rparr>"

record UdpDatagram =
  ud_src_ip :: u32
  ud_src_port :: u16
  ud_len :: nat
  ud_data :: bytes

record UdpSocket =
  us_in_use :: bool
  us_port :: u16
  rx_head :: nat
  rx_count :: nat
  us_rx :: "UdpDatagram list"

type_synonym 'n ip_output = "u32 \<Rightarrow> u32 \<Rightarrow> bytes \<Rightarrow> 'n \<Rightarrow> int \<times> 'n"

record 'n udp =
  g_socks :: "UdpSocket list"
  g_ip_output :: "'n ip_output option"
  g_local_ip :: u32
  g_next_ephemeral :: u16
  g_dns_server :: u32
  udp_net :: 'n

definition zero_datagram :: UdpDatagram where
  "zero_datagram = \<lparr>ud_src_ip = 0, ud_src_port = 0, ud_len = 0, ud_data = replicate UDP_MAX_PAYLOAD 0\<rparr>"

definition zero_socket :: UdpSocket where
  "zero_socket = \<lparr>us_in_use = False, us_port = 0, rx_head = 0, rx_count = 0, us_rx = replicate UDP_RX_QUEUE zero_datagram\<rparr>"

section \<open>Sockets\<close>

definition udp_init :: "'n udp \<Rightarrow> 'n udp" where
  "udp_init s = s\<lparr>g_socks := replicate UDP_MAX_SOCKETS zero_socket\<rparr>"

definition udp_set_output :: "'n ip_output option \<Rightarrow> u32 \<Rightarrow> 'n udp \<Rightarrow> 'n udp" where
  "udp_set_output fn local_ip s = s\<lparr>g_ip_output := fn, g_local_ip := local_ip\<rparr>"

definition udp_set_local_ip :: "u32 \<Rightarrow> 'n udp \<Rightarrow> 'n udp" where
  "udp_set_local_ip ip s = s\<lparr>g_local_ip := ip\<rparr>"

definition upd_sock :: "nat \<Rightarrow> (UdpSocket \<Rightarrow> UdpSocket) \<Rightarrow> 'n udp \<Rightarrow> 'n udp" where
  "upd_sock i f s = s\<lparr>g_socks := (g_socks s)[i := f (g_socks s ! i)]\<rparr>"

definition udp_bind :: "u16 \<Rightarrow> 'n udp \<Rightarrow> int \<times> 'n udp" where
  "udp_bind port0 s =
     (let port = (if port0 = 0 then g_next_ephemeral s else port0);
          next1 = g_next_ephemeral s + 1;
          s1 = (if port0 = 0 then s\<lparr>g_next_ephemeral := (if next1 < 50000 then 50000 else next1)\<rparr> else s)
      in if find_slot (\<lambda>k. us_in_use k \<and> us_port k = port) (g_socks s1) \<noteq> None then (-1, s1)
         else case find_slot (\<lambda>k. \<not> us_in_use k) (g_socks s1) of
           None \<Rightarrow> (-1, s1)
         | Some i \<Rightarrow> (int i, upd_sock i (\<lambda>k. zero_socket\<lparr>us_in_use := True, us_port := port\<rparr>) s1))"

definition sock_valid :: "int \<Rightarrow> bool" where
  "sock_valid sock \<longleftrightarrow> 0 \<le> sock \<and> sock < int UDP_MAX_SOCKETS"

definition udp_close :: "int \<Rightarrow> 'n udp \<Rightarrow> int \<times> 'n udp" where
  "udp_close sock s = (if \<not> sock_valid sock then (-1, s) else (0, upd_sock (nat sock) (\<lambda>k. k\<lparr>us_in_use := False\<rparr>) s))"

definition udp_local_port :: "int \<Rightarrow> 'n udp \<Rightarrow> u16" where
  "udp_local_port sock s = (if \<not> sock_valid sock \<or> \<not> us_in_use (g_socks s ! nat sock) then 0 else us_port (g_socks s ! nat sock))"

definition udp_segment :: "u16 \<Rightarrow> u16 \<Rightarrow> bytes \<Rightarrow> bytes" where
  "udp_segment src dst payload = udp_header_bytes \<lparr>uh_src_port = u_htons src, uh_dst_port = u_htons dst,
     uh_length = u_htons (of_nat (UDP_HEADER_SIZE + length payload)), uh_checksum = 0\<rparr> @ payload"

definition udp_sendto :: "int \<Rightarrow> u32 \<Rightarrow> u16 \<Rightarrow> bytes \<Rightarrow> int \<Rightarrow> 'n udp \<Rightarrow> int \<times> 'n udp" where
  "udp_sendto sock dst_ip dst_port buf len s =
     (if \<not> sock_valid sock \<or> \<not> us_in_use (g_socks s ! nat sock) then (-1, s)
      else case g_ip_output s of
        None \<Rightarrow> (-1, s)
      | Some out \<Rightarrow>
          if len < 0 \<or> len > int UDP_MAX_PAYLOAD then (-1, s)
          else let k = g_socks s ! nat sock;
                   seg = udp_segment (us_port k) dst_port (take (nat len) buf);
                   src = (if dst_ip = 0xFFFFFFFF \<and> us_port k = 68 then 0 else g_local_ip s)
            in (case out src dst_ip seg (udp_net s) of (rc, n) \<Rightarrow> (rc, s\<lparr>udp_net := n\<rparr>)))"

definition sock_pop :: "UdpSocket \<Rightarrow> UdpSocket" where
  "sock_pop k = k\<lparr>rx_head := (rx_head k + 1) mod UDP_RX_QUEUE, rx_count := rx_count k - 1\<rparr>"

text \<open>The result, the bytes stored at the start of the buffer, and the sender.\<close>

definition udp_recvfrom :: "int \<Rightarrow> nat \<Rightarrow> 'n udp \<Rightarrow> (int \<times> bytes \<times> (u32 \<times> u16) option) \<times> 'n udp" where
  "udp_recvfrom sock maxlen s =
     (if \<not> sock_valid sock \<or> \<not> us_in_use (g_socks s ! nat sock) then ((-1, [], None), s)
      else let k = g_socks s ! nat sock in
        if rx_count k = 0 then ((0, [], None), s)
        else let d = us_rx k ! rx_head k;
                 n = (if ud_len d < maxlen then ud_len d else maxlen)
          in ((int n, take n (ud_data d), Some (ud_src_ip d, ud_src_port d)), upd_sock (nat sock) sock_pop s))"

definition sock_push :: "UdpDatagram \<Rightarrow> UdpSocket \<Rightarrow> UdpSocket" where
  "sock_push d k = k\<lparr>us_rx := (us_rx k)[(rx_head k + rx_count k) mod UDP_RX_QUEUE := d], rx_count := rx_count k + 1\<rparr>"

definition payload_len :: "bytes \<Rightarrow> nat" where
  "payload_len seg =
     (let plen0 = int (unat (u_ntohs (uh_length (udp_header_of seg)))) - int UDP_HEADER_SIZE;
          room = int (length seg) - int UDP_HEADER_SIZE;
          plen1 = (if plen0 < 0 \<or> plen0 > room then room else plen0)
      in nat (if plen1 > int UDP_MAX_PAYLOAD then int UDP_MAX_PAYLOAD else plen1))"

definition udp_receive_packet :: "u32 \<Rightarrow> u32 \<Rightarrow> bytes \<Rightarrow> 'n udp \<Rightarrow> 'n udp" where
  "udp_receive_packet src_ip dst_ip seg s =
     (if length seg < UDP_HEADER_SIZE then s
      else let h = udp_header_of seg; plen = payload_len seg in
        case find_slot (\<lambda>k. us_in_use k \<and> us_port k = u_ntohs (uh_dst_port h)) (g_socks s) of
          None \<Rightarrow> s
        | Some i \<Rightarrow>
            if rx_count (g_socks s ! i) \<ge> UDP_RX_QUEUE then s
            else let k = g_socks s ! i; old = us_rx k ! ((rx_head k + rx_count k) mod UDP_RX_QUEUE)
              in upd_sock i (sock_push \<lparr>ud_src_ip = src_ip, ud_src_port = u_ntohs (uh_src_port h), ud_len = plen,
                   ud_data = take plen (drop UDP_HEADER_SIZE seg) @ drop plen (ud_data old)\<rparr>) s)"

section \<open>DHCP\<close>

abbreviation DHCP_MAGIC :: u32 where "DHCP_MAGIC \<equiv> 0x63825363"

definition ip_option :: "u8 \<Rightarrow> u32 \<Rightarrow> bytes" where
  "ip_option code ip = (if ip \<noteq> 0 then [code, 4] @ be32_bytes ip else [])"

text \<open>The first 240 bytes are the BOOTP header with the magic number; the message is at least 300 bytes long.\<close>

definition dhcp_build :: "u32 \<Rightarrow> bytes \<Rightarrow> u8 \<Rightarrow> u32 \<Rightarrow> u32 \<Rightarrow> bytes" where
  "dhcp_build xid mac msg_type req_ip server_ip =
     (let head = [1, 1, 6, 0] @ be32_bytes xid @ [0, 0, 0x80] @ replicate 17 0 @ mac @ replicate 202 0 @ [0x63, 0x82, 0x53, 0x63];
          opts = [53, 1, msg_type] @ ip_option 50 req_ip @ ip_option 54 server_ip @ [55, 3, 1, 3, 6, 255]
      in head @ opts @ replicate (300 - length (head @ opts)) 0)"

definition rd_be32 :: "bytes \<Rightarrow> nat \<Rightarrow> u32" where
  "rd_be32 p o1 = be32_of (drop o1 p)"

record lease =
  l_ip :: u32
  l_mask :: u32
  l_gw :: u32
  l_dns :: u32
  l_server :: u32

definition dhcp_option :: "u8 \<Rightarrow> bytes \<Rightarrow> nat \<Rightarrow> u8 \<Rightarrow> u8 \<times> lease \<Rightarrow> u8 \<times> lease" where
  "dhcp_option opt pkt v olen r =
     (case r of (msg_type, l) \<Rightarrow>
        if opt = 53 then (if olen \<ge> 1 then pkt ! v else msg_type, l)
        else if opt = 1 then (msg_type, if olen \<ge> 4 then l\<lparr>l_mask := rd_be32 pkt v\<rparr> else l)
        else if opt = 3 then (msg_type, if olen \<ge> 4 then l\<lparr>l_gw := rd_be32 pkt v\<rparr> else l)
        else if opt = 6 then (msg_type, if olen \<ge> 4 then l\<lparr>l_dns := rd_be32 pkt v\<rparr> else l)
        else if opt = 54 then (msg_type, if olen \<ge> 4 then l\<lparr>l_server := rd_be32 pkt v\<rparr> else l)
        else r)"

function dhcp_options :: "bytes \<Rightarrow> nat \<Rightarrow> nat \<Rightarrow> u8 \<times> lease \<Rightarrow> u8 \<times> lease" where
  "dhcp_options pkt len o1 r =
     (if o1 + 1 < len then
        let opt = pkt ! o1 in
        if opt = 255 then r
        else if opt = 0 then dhcp_options pkt len (o1 + 1) r
        else let olen = pkt ! (o1 + 1) in
          if o1 + 2 + unat olen > len then r
          else dhcp_options pkt len (o1 + 2 + unat olen) (dhcp_option opt pkt (o1 + 2) olen r)
      else r)"
  by pat_completeness auto
termination
  by (relation "measure (\<lambda>(pkt, len, o1, r). len - o1)") auto

declare dhcp_options.simps [simp del]

definition dhcp_parse :: "bytes \<Rightarrow> nat \<Rightarrow> u32 \<Rightarrow> lease \<Rightarrow> u8 \<times> lease" where
  "dhcp_parse pkt len xid l =
     (if len < 244 \<or> pkt ! 0 \<noteq> 2 then (0, l)
      else if rd_be32 pkt 4 \<noteq> xid then (0, l)
      else if rd_be32 pkt 236 \<noteq> DHCP_MAGIC then (0, l)
      else dhcp_options pkt len 240 (0, l\<lparr>l_ip := rd_be32 pkt 16\<rparr>))"

type_synonym arrival = "u32 \<times> u32 \<times> bytes"
type_synonym poll = "u32 \<times> arrival list"

definition deliver :: "arrival list \<Rightarrow> 'n udp \<Rightarrow> 'n udp" where
  "deliver as s = fold (\<lambda>(sip, dip, seg). udp_receive_packet sip dip seg) as s"

text \<open>One reading of the timer.\<close>

definition get_kernel_tick :: "poll list \<Rightarrow> 'n udp \<Rightarrow> (u32 \<times> poll list \<times> 'n udp) option" where
  "get_kernel_tick ps s = (case ps of [] \<Rightarrow> None | (t, as) # ps' \<Rightarrow> Some (t, ps', deliver as s))"

text \<open>Waiting for an OFFER: the answer is whether it came.\<close>

fun dhcp_wait_offer :: "int \<Rightarrow> u32 \<Rightarrow> u32 \<Rightarrow> u32 \<Rightarrow> poll list \<Rightarrow> lease \<Rightarrow> 'n udp \<Rightarrow> (bool \<times> lease \<times> poll list \<times> 'n udp) option" where
  "dhcp_wait_offer sock xid start limit [] l s = None"
| "dhcp_wait_offer sock xid start limit ((t, as) # ps) l s =
     (let s1 = deliver as s in
      if \<not> t - start < limit then Some (False, l, ps, s1)
      else case udp_recvfrom sock UDP_MAX_PAYLOAD s1 of ((r, pkt, _), s2) \<Rightarrow>
        if r > 0 then
          (case dhcp_parse pkt (nat r) xid l of (ty, l1) \<Rightarrow>
             if ty = 2 then Some (True, l1, ps, s2) else dhcp_wait_offer sock xid start limit ps l1 s2)
        else dhcp_wait_offer sock xid start limit ps l s2)"

fun dhcp_wait_ack :: "int \<Rightarrow> u32 \<Rightarrow> u32 \<Rightarrow> u32 \<Rightarrow> poll list \<Rightarrow> lease \<Rightarrow> 'n udp \<Rightarrow> (bool \<times> lease \<times> poll list \<times> 'n udp) option" where
  "dhcp_wait_ack sock xid start limit [] l s = None"
| "dhcp_wait_ack sock xid start limit ((t, as) # ps) l s =
     (let s1 = deliver as s in
      if \<not> t - start < limit then Some (False, l, ps, s1)
      else case udp_recvfrom sock UDP_MAX_PAYLOAD s1 of ((r, pkt, _), s2) \<Rightarrow>
        if r > 0 then
          (case dhcp_parse pkt (nat r) xid l of (ty, l1) \<Rightarrow>
             if ty = 5 then Some (True, l1, ps, s2)
             else if ty = 6 then Some (False, l1, ps, s2)
             else dhcp_wait_ack sock xid start limit ps l1 s2)
        else dhcp_wait_ack sock xid start limit ps l s2)"

definition dhcp_send :: "int \<Rightarrow> bytes \<Rightarrow> 'n udp \<Rightarrow> 'n udp" where
  "dhcp_send sock msg s = snd (udp_sendto sock 0xFFFFFFFF 67 msg (int (length msg)) s)"

fun dhcp_attempts :: "nat \<Rightarrow> int \<Rightarrow> u32 \<Rightarrow> bytes \<Rightarrow> u32 \<Rightarrow> poll list \<Rightarrow> lease \<Rightarrow> 'n udp \<Rightarrow> (bool \<times> lease \<times> poll list \<times> 'n udp) option" where
  "dhcp_attempts 0 sock xid mac limit ps l s = Some (False, l, ps, s)"
| "dhcp_attempts (Suc n) sock xid mac limit ps l s =
     (case get_kernel_tick ps (dhcp_send sock (dhcp_build xid mac 1 0 0) s) of
        None \<Rightarrow> None
      | Some (start, ps1, s1) \<Rightarrow>
          (case dhcp_wait_offer sock xid start limit ps1 l s1 of
             None \<Rightarrow> None
           | Some (False, l1, ps2, s2) \<Rightarrow> dhcp_attempts n sock xid mac limit ps2 l1 s2
           | Some (True, l1, ps2, s2) \<Rightarrow>
               (case get_kernel_tick ps2 (dhcp_send sock (dhcp_build xid mac 3 (l_ip l1) (l_server l1)) s2) of
                  None \<Rightarrow> None
                | Some (start2, ps3, s3) \<Rightarrow>
                    (case dhcp_wait_ack sock xid start2 limit ps3 l1 s3 of
                       None \<Rightarrow> None
                     | Some (False, l2, ps4, s4) \<Rightarrow> dhcp_attempts n sock xid mac limit ps4 l2 s4
                     | Some (True, l2, ps4, s4) \<Rightarrow> Some (True, l2, ps4, s4)))))"

definition dhcp_run :: "bytes \<Rightarrow> u32 \<Rightarrow> poll list \<Rightarrow> 'n udp \<Rightarrow> ((int \<times> lease option) \<times> 'n udp) option" where
  "dhcp_run mac hz0 ps s =
     (let hz = (if hz0 = 0 then 240 else hz0) in
      case udp_bind 68 s of (sock, s1) \<Rightarrow>
        if sock < 0 then Some ((-1, None), s1)
        else case get_kernel_tick ps s1 of
          None \<Rightarrow> None
        | Some (t, ps1, s2) \<Rightarrow>
            let xid = push_bit 8 t XOR push_bit 4 (ucast (mac ! 5)) XOR ucast (mac ! 4);
                l0 = \<lparr>l_ip = 0, l_mask = 0, l_gw = 0, l_dns = 0, l_server = 0\<rparr>
            in (case dhcp_attempts 3 sock xid mac (hz * 2) ps1 l0 s2 of
                  None \<Rightarrow> None
                | Some (ok, l, ps2, s3) \<Rightarrow> Some (if ok then (0, Some l) else (-1, None), snd (udp_close sock s3))))"

section \<open>DNS\<close>

definition dns_set_server :: "u32 \<Rightarrow> 'n udp \<Rightarrow> 'n udp" where
  "dns_set_server ip s = s\<lparr>g_dns_server := ip\<rparr>"

definition dns_get_server :: "'n udp \<Rightarrow> u32" where
  "dns_get_server s = g_dns_server s"

text \<open>\<open>None\<close> is the result -1.\<close>

function dns_skip_name :: "bytes \<Rightarrow> nat \<Rightarrow> nat \<Rightarrow> nat option" where
  "dns_skip_name pkt len o1 =
     (if o1 < len then
        let l = pkt ! o1 in
        if l = 0 then Some (o1 + 1)
        else if l AND 0xC0 = 0xC0 then Some (o1 + 2)
        else dns_skip_name pkt len (o1 + 1 + unat l)
      else None)"
  by pat_completeness auto
termination
  by (relation "measure (\<lambda>(pkt, len, o1). len - o1)") auto

declare dns_skip_name.simps [simp del]

text \<open>
  The question's name: \<open>out\<close> is the packet up to the length byte of the label being read, \<open>cur\<close> the label.
\<close>

fun dns_qname :: "bytes \<Rightarrow> bytes \<Rightarrow> cstring \<Rightarrow> bytes option" where
  "dns_qname out cur [] =
     (if length cur = 0 \<or> length cur > 63 then None else Some (out @ of_nat (length cur) # cur))"
| "dns_qname out cur (c # cs) =
     (if c = CHR ''.'' then
        (if length cur = 0 \<or> length cur > 63 then None else dns_qname (out @ of_nat (length cur) # cur) [] cs)
      else if length out + 1 + length cur \<ge> 500 then None
      else dns_qname out (cur @ [byte_of c]) cs)"

definition dns_query :: "u16 \<Rightarrow> cstring \<Rightarrow> bytes option" where
  "dns_query qid name =
     map_option (\<lambda>pkt. pkt @ [0, 0, 1, 0, 1])
       (dns_qname (be16_bytes qid @ [1, 0, 0, 1, 0, 0, 0, 0, 0, 0]) [] (cstr name))"

fun dns_questions :: "bytes \<Rightarrow> nat \<Rightarrow> nat \<Rightarrow> nat option \<Rightarrow> nat option" where
  "dns_questions resp r 0 off = off"
| "dns_questions resp r (Suc q) off =
     (case off of
        None \<Rightarrow> None
      | Some o1 \<Rightarrow> dns_questions resp r q (map_option (\<lambda>o2. o2 + 4) (dns_skip_name resp r o1)))"

fun dns_answers :: "bytes \<Rightarrow> nat \<Rightarrow> nat \<Rightarrow> nat option \<Rightarrow> u32 option" where
  "dns_answers resp r 0 off = None"
| "dns_answers resp r (Suc a) off =
     (case off of
        None \<Rightarrow> None
      | Some o0 \<Rightarrow>
          if \<not> o0 + 10 \<le> r then None
          else case dns_skip_name resp r o0 of
            None \<Rightarrow> None
          | Some o1 \<Rightarrow>
              if o1 + 10 > r then None
              else let type = be16_of (drop o1 resp); rdlen = unat (be16_of (drop (o1 + 8) resp)); o2 = o1 + 10 in
                if type = 1 \<and> rdlen = 4 \<and> o2 + 4 \<le> r then Some (rd_be32 resp o2)
                else dns_answers resp r a (Some (o2 + rdlen)))"

definition dns_reply :: "bytes \<Rightarrow> nat \<Rightarrow> u32 option" where
  "dns_reply resp r =
     (let qd = unat (be16_of (drop 4 resp)); an = unat (be16_of (drop 6 resp))
      in dns_answers resp r an (dns_questions resp r qd (Some 12)))"

text \<open>\<open>Some\<close> of the result of the first matching reply, or nothing before the time is over.\<close>

fun dns_wait :: "int \<Rightarrow> u16 \<Rightarrow> u32 \<Rightarrow> u32 \<Rightarrow> poll list \<Rightarrow> 'n udp \<Rightarrow> (u32 option \<times> poll list \<times> 'n udp) option" where
  "dns_wait sock qid start limit [] s = None"
| "dns_wait sock qid start limit ((t, as) # ps) s =
     (let s1 = deliver as s in
      if \<not> t - start < limit then Some (None, ps, s1)
      else case udp_recvfrom sock UDP_MAX_PAYLOAD s1 of ((r, resp, _), s2) \<Rightarrow>
        if r > 12 \<and> take 2 resp = be16_bytes qid then Some (dns_reply resp (nat r), ps, s2)
        else dns_wait sock qid start limit ps s2)"

fun dns_attempts :: "nat \<Rightarrow> int \<Rightarrow> u16 \<Rightarrow> bytes \<Rightarrow> u32 \<Rightarrow> poll list \<Rightarrow> 'n udp \<Rightarrow> (u32 option \<times> poll list \<times> 'n udp) option" where
  "dns_attempts 0 sock qid pkt limit ps s = Some (None, ps, s)"
| "dns_attempts (Suc n) sock qid pkt limit ps s =
     (case get_kernel_tick ps (snd (udp_sendto sock (g_dns_server s) 53 pkt (int (length pkt)) s)) of
        None \<Rightarrow> None
      | Some (start, ps1, s1) \<Rightarrow>
          (case dns_wait sock qid start limit ps1 s1 of
             None \<Rightarrow> None
           | Some (None, ps2, s2) \<Rightarrow> dns_attempts n sock qid pkt limit ps2 s2
           | Some (Some ip, ps2, s2) \<Rightarrow> Some (Some ip, ps2, s2)))"

definition dns_resolve :: "cstring option \<Rightarrow> u32 \<Rightarrow> poll list \<Rightarrow> 'n udp \<Rightarrow> ((int \<times> u32 option) \<times> 'n udp) option" where
  "dns_resolve name hz0 ps s =
     (case name of
        None \<Rightarrow> Some ((-1, None), s)
      | Some nm \<Rightarrow>
          if cstr nm = [] \<or> g_dns_server s = 0 then Some ((-1, None), s)
          else let hz = (if hz0 = 0 then 240 else hz0) in
            case udp_bind 0 s of (sock, s1) \<Rightarrow>
              if sock < 0 then Some ((-1, None), s1)
              else case get_kernel_tick ps s1 of
                None \<Rightarrow> None
              | Some (t, ps1, s2) \<Rightarrow>
                  let qid = ucast (t XOR 0x517A) in
                  (case dns_query qid nm of
                     None \<Rightarrow> Some ((-1, None), snd (udp_close sock s2))
                   | Some pkt \<Rightarrow>
                       (case dns_attempts 2 sock qid pkt (hz * 2) ps1 s2 of
                          None \<Rightarrow> None
                        | Some (res, ps2, s3) \<Rightarrow>
                            Some (case res of Some ip \<Rightarrow> (0, Some ip) | None \<Rightarrow> (-1, None), snd (udp_close sock s3)))))"


section \<open>Receive queues\<close>

definition sock_inv :: "UdpSocket \<Rightarrow> bool" where
  "sock_inv k \<longleftrightarrow> length (us_rx k) = UDP_RX_QUEUE \<and> rx_head k < UDP_RX_QUEUE \<and> rx_count k \<le> UDP_RX_QUEUE"

definition sock_front :: "UdpSocket \<Rightarrow> UdpDatagram" where
  "sock_front k = us_rx k ! rx_head k"

definition sock_queue :: "UdpSocket \<Rightarrow> UdpDatagram list" where
  "sock_queue k = ring_contents (rx_head k) (rx_count k) (us_rx k)"

lemma length_sock_queue [simp]: "length (sock_queue k) = rx_count k"
  by (simp add: sock_queue_def)

lemma sock_queue_Nil: "sock_queue k = [] \<longleftrightarrow> rx_count k = 0"
  by (metis length_sock_queue length_0_conv)

interpretation usock: bounded_fifo UDP_RX_QUEUE sock_push sock_front sock_pop sock_queue sock_inv
proof unfold_locales
  fix k d
  assume inv: "sock_inv k"
  then have len: "length (us_rx k) = 4" and head: "rx_head k < 4" by (simp_all add: sock_inv_def)
  show "length (sock_queue k) \<le> 4" using inv by (simp add: sock_inv_def)
  {
    assume "length (sock_queue k) < 4"
    then show "sock_queue (sock_push d k) = sock_queue k @ [d]" "sock_inv (sock_push d k)"
      using inv ring_contents_push [of "rx_count k" "us_rx k" "rx_head k" d]
      by (auto simp: sock_queue_def sock_push_def sock_inv_def len)
  }
  assume "sock_queue k \<noteq> []"
  then have "0 < rx_count k" by (simp add: sock_queue_Nil)
  then show "sock_front k = hd (sock_queue k)" "sock_queue (sock_pop k) = tl (sock_queue k)"
    using ring_contents_head [of "rx_count k" "rx_head k" "us_rx k"] head
      ring_contents_pop [of "rx_head k" "us_rx k" "rx_count k"]
    by (simp_all add: sock_front_def sock_queue_def sock_pop_def len)
  show "sock_inv (sock_pop k)" using inv by (auto simp: sock_inv_def sock_pop_def)
qed

lemma sock_push_fields [simp]: "us_in_use (sock_push d k) = us_in_use k" "us_port (sock_push d k) = us_port k"
  by (simp_all add: sock_push_def)

lemma sock_pop_fields [simp]: "us_in_use (sock_pop k) = us_in_use k" "us_port (sock_pop k) = us_port k"
  by (simp_all add: sock_pop_def)

section \<open>Invariant of the socket table\<close>

definition ports_distinct :: "UdpSocket list \<Rightarrow> bool" where
  "ports_distinct ks \<longleftrightarrow> (\<forall>i < length ks. \<forall>j < length ks.
     us_in_use (ks ! i) \<and> us_in_use (ks ! j) \<and> us_port (ks ! i) = us_port (ks ! j) \<longrightarrow> i = j)"

definition dgram_ok :: "UdpDatagram \<Rightarrow> bool" where
  "dgram_ok d \<longleftrightarrow> ud_len d \<le> UDP_MAX_PAYLOAD \<and> length (ud_data d) = UDP_MAX_PAYLOAD"

definition sock_ok :: "UdpSocket \<Rightarrow> bool" where
  "sock_ok k \<longleftrightarrow> sock_inv k \<and> list_all dgram_ok (us_rx k)"

definition udp_inv :: "'n udp \<Rightarrow> bool" where
  "udp_inv s \<longleftrightarrow> length (g_socks s) = UDP_MAX_SOCKETS \<and> list_all sock_ok (g_socks s) \<and> ports_distinct (g_socks s)
     \<and> 50000 \<le> g_next_ephemeral s"

lemma udp_inv_cong:
  "g_socks t = g_socks s \<Longrightarrow> g_next_ephemeral t = g_next_ephemeral s \<Longrightarrow> udp_inv t = udp_inv s"
  by (simp add: udp_inv_def)

lemma udp_inv_sock: "udp_inv s \<Longrightarrow> i < UDP_MAX_SOCKETS \<Longrightarrow> sock_ok (g_socks s ! i)"
  by (simp add: udp_inv_def list_all_nthD)

lemma sock_ok_push: "sock_ok k \<Longrightarrow> rx_count k < UDP_RX_QUEUE \<Longrightarrow> dgram_ok d \<Longrightarrow> sock_ok (sock_push d k)"
  using usock.invar_push [of k d] by (simp add: sock_ok_def) (simp add: sock_push_def list_all_update)

lemma sock_ok_pop: "sock_ok k \<Longrightarrow> 0 < rx_count k \<Longrightarrow> sock_ok (sock_pop k)"
  using usock.invar_pop [of k] by (simp add: sock_ok_def sock_queue_Nil) (simp add: sock_pop_def)

lemma payload_len_bounds:
  assumes "UDP_HEADER_SIZE \<le> length seg"
  shows "payload_len seg \<le> UDP_MAX_PAYLOAD" "payload_len seg \<le> length seg - UDP_HEADER_SIZE"
  using assms by (auto simp: payload_len_def Let_def)

lemma ports_distinct_update:
  assumes "ports_distinct ks" "us_in_use k \<Longrightarrow> i < length ks \<Longrightarrow> \<forall>j < length ks. j \<noteq> i \<and> us_in_use (ks ! j) \<longrightarrow> us_port (ks ! j) \<noteq> us_port k"
  shows "ports_distinct (ks[i := k])"
  unfolding ports_distinct_def
proof (intro allI impI)
  fix a b assume ab: "a < length (ks[i := k])" "b < length (ks[i := k])"
    "us_in_use (ks[i := k] ! a) \<and> us_in_use (ks[i := k] ! b) \<and> us_port (ks[i := k] ! a) = us_port (ks[i := k] ! b)"
  consider "a = i" "b = i" | "a = i" "b \<noteq> i" | "a \<noteq> i" "b = i" | "a \<noteq> i" "b \<noteq> i" by blast
  then show "a = b"
  proof cases
    case 4
    with ab assms(1) show ?thesis unfolding ports_distinct_def by simp
  qed (use ab assms(2) in auto)
qed

lemma ports_distinct_keep:
  assumes "ports_distinct ks" "us_in_use k \<Longrightarrow> us_in_use (ks ! i)" "us_port k = us_port (ks ! i)"
  shows "ports_distinct (ks[i := k])"
  using assms by (intro ports_distinct_update) (auto simp: ports_distinct_def)

lemma udp_inv_update:
  assumes "udp_inv s" "i < UDP_MAX_SOCKETS \<Longrightarrow> sock_ok (f (g_socks s ! i))"
    "us_in_use (f (g_socks s ! i)) \<Longrightarrow> us_in_use (g_socks s ! i)" "us_port (f (g_socks s ! i)) = us_port (g_socks s ! i)"
  shows "udp_inv (upd_sock i f s)"
proof (cases "i < UDP_MAX_SOCKETS")
  case True
  with assms show ?thesis by (auto simp: udp_inv_def upd_sock_def list_all_update ports_distinct_keep)
next
  case False
  with assms(1) show ?thesis by (simp add: udp_inv_def upd_sock_def list_update_beyond)
qed

lemma udp_bind_inv:
  assumes "udp_inv s"
  shows "udp_inv (snd (udp_bind p s))"
proof -
  define q where "q = (if p = 0 then g_next_ephemeral s else p)"
  define n where "n = g_next_ephemeral s + 1"
  define s1 where "s1 = (if p = 0 then s\<lparr>g_next_ephemeral := (if n < 50000 then 50000 else n)\<rparr> else s)"
  have s1: "udp_inv s1" using assms by (auto simp: s1_def udp_inv_def not_less)
  have eq: "udp_bind p s = (if find_slot (\<lambda>k. us_in_use k \<and> us_port k = q) (g_socks s1) \<noteq> None then (-1, s1)
         else case find_slot (\<lambda>k. \<not> us_in_use k) (g_socks s1) of
           None \<Rightarrow> (-1, s1)
         | Some i \<Rightarrow> (int i, upd_sock i (\<lambda>k. zero_socket\<lparr>us_in_use := True, us_port := q\<rparr>) s1))"
    unfolding udp_bind_def Let_def q_def s1_def n_def ..
  show ?thesis
  proof (cases "find_slot (\<lambda>k. us_in_use k \<and> us_port k = q) (g_socks s1)")
    case None
    let ?k = "zero_socket\<lparr>us_in_use := True, us_port := q\<rparr>"
    have "sock_ok ?k" by (simp add: sock_ok_def sock_inv_def zero_socket_def dgram_ok_def zero_datagram_def list_all_length)
    moreover have "ports_distinct ((g_socks s1)[i := ?k])" for i
      using s1 None by (intro ports_distinct_update) (auto simp: udp_inv_def find_slot_None_iff)
    ultimately show ?thesis using None s1
      by (auto simp: eq upd_sock_def udp_inv_def list_all_update split: option.splits)
  qed (simp add: eq s1)
qed

lemma udp_close_inv:
  assumes "udp_inv s"
  shows "udp_inv (snd (udp_close i s))"
proof -
  have ok: "sock_ok (k\<lparr>us_in_use := False\<rparr>) = sock_ok k" for k by (simp add: sock_ok_def sock_inv_def)
  have "udp_inv (upd_sock j (\<lambda>k. k\<lparr>us_in_use := False\<rparr>) s)" for j
    by (rule udp_inv_update [OF assms]) (simp_all add: ok udp_inv_sock [OF assms])
  with assms show ?thesis by (simp add: udp_close_def)
qed

lemma udp_recvfrom_inv:
  assumes "udp_inv s"
  shows "udp_inv (snd (udp_recvfrom i mx s))"
proof -
  have "udp_inv (upd_sock j sock_pop s)" if "rx_count (g_socks s ! j) \<noteq> 0" for j
    by (rule udp_inv_update [OF assms]) (use that in \<open>simp_all add: sock_ok_pop udp_inv_sock [OF assms]\<close>)
  with assms show ?thesis by (simp add: udp_recvfrom_def Let_def)
qed

definition dgram_of :: "u32 \<Rightarrow> bytes \<Rightarrow> UdpSocket \<Rightarrow> UdpDatagram" where
  "dgram_of sip seg k = \<lparr>ud_src_ip = sip, ud_src_port = u_ntohs (uh_src_port (udp_header_of seg)), ud_len = payload_len seg,
     ud_data = take (payload_len seg) (drop UDP_HEADER_SIZE seg)
       @ drop (payload_len seg) (ud_data (us_rx k ! ((rx_head k + rx_count k) mod UDP_RX_QUEUE)))\<rparr>"

lemma udp_receive_cases:
  "udp_receive_packet sip dip seg s = s \<or> (\<exists>i < length (g_socks s). UDP_HEADER_SIZE \<le> length seg
     \<and> find_slot (\<lambda>k. us_in_use k \<and> us_port k = u_ntohs (uh_dst_port (udp_header_of seg))) (g_socks s) = Some i
     \<and> rx_count (g_socks s ! i) < UDP_RX_QUEUE
     \<and> udp_receive_packet sip dip seg s = upd_sock i (sock_push (dgram_of sip seg (g_socks s ! i))) s)"
  by (auto simp: udp_receive_packet_def Let_def dgram_of_def not_le not_less dest: find_slot_SomeD split: option.split)

lemma dgram_of_ok:
  assumes "sock_ok k" "UDP_HEADER_SIZE \<le> length seg"
  shows "dgram_ok (dgram_of sip seg k)"
proof -
  have "dgram_ok (us_rx k ! ((rx_head k + rx_count k) mod 4))" using assms(1)
    by (simp add: sock_ok_def sock_inv_def list_all_nthD)
  with payload_len_bounds [of seg] assms(2) show ?thesis by (simp add: dgram_ok_def dgram_of_def)
qed

lemma udp_receive_inv:
  assumes "udp_inv s"
  shows "udp_inv (udp_receive_packet sip dip seg s)"
  using udp_receive_cases [of sip dip seg s]
proof
  assume "\<exists>i < length (g_socks s). 8 \<le> length seg
     \<and> find_slot (\<lambda>k. us_in_use k \<and> us_port k = u_ntohs (uh_dst_port (udp_header_of seg))) (g_socks s) = Some i
     \<and> rx_count (g_socks s ! i) < 4
     \<and> udp_receive_packet sip dip seg s = upd_sock i (sock_push (dgram_of sip seg (g_socks s ! i))) s"
  then obtain i where i: "i < length (g_socks s)" "8 \<le> length seg" "rx_count (g_socks s ! i) < 4"
    "udp_receive_packet sip dip seg s = upd_sock i (sock_push (dgram_of sip seg (g_socks s ! i))) s" by blast
  have "sock_ok (g_socks s ! i)" using assms i(1) by (simp add: udp_inv_def list_all_nthD)
  with i(2,3) have "sock_ok (sock_push (dgram_of sip seg (g_socks s ! i)) (g_socks s ! i))" by (simp add: sock_ok_push dgram_of_ok)
  with assms show ?thesis unfolding i(4) by (intro udp_inv_update) simp_all
qed (simp add: assms)

lemma udp_sendto_socks: "g_socks (snd (udp_sendto i dip dp buf len s)) = g_socks s"
    "g_next_ephemeral (snd (udp_sendto i dip dp buf len s)) = g_next_ephemeral s"
  by (auto simp: udp_sendto_def Let_def split: option.splits prod.splits)

inductive udp_step :: "'n udp \<Rightarrow> 'n udp \<Rightarrow> bool" where
  bind: "udp_step s (snd (udp_bind p s))"
| close: "udp_step s (snd (udp_close i s))"
| send: "udp_step s (snd (udp_sendto i dip dp buf len s))"
| recv: "udp_step s (snd (udp_recvfrom i mx s))"
| arrive: "udp_step s (udp_receive_packet sip dip seg s)"
| local_ip: "udp_step s (udp_set_local_ip ip s)"
| set_out: "udp_step s (udp_set_output out ip s)"
| set_server: "udp_step s (dns_set_server ip s)"

lemma udp_step_same:
  "udp_inv (snd (udp_sendto i dip dp buf len s)) = udp_inv s" "udp_inv (udp_set_local_ip ip s) = udp_inv s"
  "udp_inv (udp_set_output out ip s) = udp_inv s" "udp_inv (dns_set_server ip s) = udp_inv s"
  by (rule udp_inv_cong; simp add: udp_sendto_socks udp_set_local_ip_def udp_set_output_def dns_set_server_def)+

lemma udp_step_inv: "udp_step s t \<Longrightarrow> udp_inv s \<Longrightarrow> udp_inv t"
  by (induction rule: udp_step.induct)
    (simp_all add: udp_bind_inv udp_close_inv udp_recvfrom_inv udp_receive_inv udp_step_same)

lemma udp_init_inv: "50000 \<le> g_next_ephemeral s \<Longrightarrow> udp_inv (udp_init s)"
  by (simp add: udp_inv_def udp_init_def zero_socket_def sock_ok_def sock_inv_def dgram_ok_def zero_datagram_def
      ports_distinct_def list_all_length)

lemma udp_reachable_inv: "udp_step\<^sup>*\<^sup>* (udp_init s0) s \<Longrightarrow> 50000 \<le> g_next_ephemeral s0 \<Longrightarrow> udp_inv s"
  by (induction rule: rtranclp_induct) (auto simp: udp_init_inv udp_step_inv)


section \<open>Delivery\<close>

lemma u_htons_htons [simp]: "u_htons (u_htons h) = h"
proof (rule bit_word_eqI)
  fix n assume "n < LENGTH(16)"
  then consider "n < 8" | "8 \<le> n" "n < 16" by force
  then show "bit (u_htons (u_htons h)) n = bit h n" by cases (auto simp: u_htons_def bit_simps)
qed

lemma udp_header_roundtrip [simp]: "udp_header_of (udp_header_bytes h @ bs) = h"
  by (cases h) (simp add: udp_header_of_def udp_header_bytes_def le16_of_append)

lemma length_udp_header [simp]: "length (udp_header_bytes h) = UDP_HEADER_SIZE"
  by (simp add: udp_header_bytes_def)

lemma udp_segment_parts:
  "udp_header_of (udp_segment sp dp pl) = \<lparr>uh_src_port = u_htons sp, uh_dst_port = u_htons dp,
     uh_length = u_htons (of_nat (UDP_HEADER_SIZE + length pl)), uh_checksum = 0\<rparr>"
  "drop UDP_HEADER_SIZE (udp_segment sp dp pl) = pl" "length (udp_segment sp dp pl) = UDP_HEADER_SIZE + length pl"
  by (simp_all add: udp_segment_def)

lemma payload_len_segment: "length pl \<le> UDP_MAX_PAYLOAD \<Longrightarrow> payload_len (udp_segment sp dp pl) = length pl"
  by (simp add: payload_len_def udp_segment_parts unat_of_nat take_bit_nat_eq_self_iff Let_def del: of_nat_add)

text \<open>What a receiver sees of a datagram, and of a socket's queue.\<close>

definition dgram_view :: "UdpDatagram \<Rightarrow> u32 \<times> u16 \<times> bytes" where
  "dgram_view d = (ud_src_ip d, ud_src_port d, take (ud_len d) (ud_data d))"

definition udp_queue :: "nat \<Rightarrow> 'n udp \<Rightarrow> (u32 \<times> u16 \<times> bytes) list" where
  "udp_queue i s = map dgram_view (sock_queue (g_socks s ! i))"

definition bound_to :: "nat \<Rightarrow> u16 \<Rightarrow> 'n udp \<Rightarrow> bool" where
  "bound_to i p s \<longleftrightarrow> i < UDP_MAX_SOCKETS \<and> us_in_use (g_socks s ! i) \<and> us_port (g_socks s ! i) = p"

lemma find_bound:
  assumes "udp_inv s" "bound_to i p s"
  shows "find_slot (\<lambda>k. us_in_use k \<and> us_port k = p) (g_socks s) = Some i"
  using assms by (intro find_slot_unique) (auto simp: udp_inv_def bound_to_def ports_distinct_def)

lemma receive_segment:
  assumes "udp_inv s" "bound_to i dp s" "length pl \<le> UDP_MAX_PAYLOAD"
  shows "udp_queue i (udp_receive_packet sip dip (udp_segment sp dp pl) s) = take UDP_RX_QUEUE (udp_queue i s @ [(sip, sp, pl)])"
    "j \<noteq> i \<Longrightarrow> g_socks (udp_receive_packet sip dip (udp_segment sp dp pl) s) ! j = g_socks s ! j"
    "bound_to i dp (udp_receive_packet sip dip (udp_segment sp dp pl) s)"
proof -
  let ?k = "g_socks s ! i" and ?seg = "udp_segment sp dp pl"
  have k: "sock_inv ?k" "i < length (g_socks s)" using assms(1,2) udp_inv_sock [of s i]
    by (simp_all add: bound_to_def sock_ok_def udp_inv_def)
  have eq: "udp_receive_packet sip dip ?seg s
      = (if rx_count ?k \<ge> 4 then s else upd_sock i (sock_push (dgram_of sip ?seg ?k)) s)"
    using find_bound [OF assms(1,2)] by (simp add: udp_receive_packet_def udp_segment_parts Let_def dgram_of_def)
  have view: "dgram_view (dgram_of sip ?seg ?k) = (sip, sp, pl)"
    using assms(3) by (simp add: dgram_view_def dgram_of_def payload_len_segment udp_segment_parts)
  show "udp_queue i (udp_receive_packet sip dip ?seg s) = take 4 (udp_queue i s @ [(sip, sp, pl)])"
    using k usock.contents_push [OF k(1), of "dgram_of sip ?seg ?k"] usock.contents_bounded [OF k(1)]
    by (auto simp: eq udp_queue_def upd_sock_def view not_le)
  show "j \<noteq> i \<Longrightarrow> g_socks (udp_receive_packet sip dip ?seg s) ! j = g_socks s ! j"
    by (simp add: eq upd_sock_def)
  show "bound_to i dp (udp_receive_packet sip dip ?seg s)"
    using assms(2) k(2) by (simp add: eq bound_to_def upd_sock_def)
qed

lemma take_take_append: "take n (take n xs @ ys) = take n (xs @ ys)"
  by (cases "length xs \<le> n") auto

lemma deliver_segments:
  assumes "udp_inv s" "bound_to i dp s" "\<forall>m \<in> set ms. length m \<le> UDP_MAX_PAYLOAD"
  shows "udp_queue i (deliver (map (\<lambda>m. (sip, dip, udp_segment sp dp m)) ms) s)
        = take UDP_RX_QUEUE (udp_queue i s @ map (\<lambda>m. (sip, sp, m)) ms)
    \<and> udp_inv (deliver (map (\<lambda>m. (sip, dip, udp_segment sp dp m)) ms) s)
    \<and> bound_to i dp (deliver (map (\<lambda>m. (sip, dip, udp_segment sp dp m)) ms) s)"
  using assms
proof (induction ms arbitrary: s)
  case Nil
  then have "sock_inv (g_socks s ! i)" using udp_inv_sock [of s i] by (simp add: bound_to_def sock_ok_def)
  from usock.contents_bounded [OF this] Nil show ?case by (simp add: deliver_def udp_queue_def)
next
  case (Cons m ms)
  let ?s1 = "udp_receive_packet sip dip (udp_segment sp dp m) s"
  have "udp_inv ?s1" "bound_to i dp ?s1" "udp_queue i ?s1 = take 4 (udp_queue i s @ [(sip, sp, m)])"
    using Cons.prems receive_segment(1,3) [where s = s and i = i and dp = dp and pl = m and sip = sip and dip = dip and sp = sp] udp_receive_inv by simp_all
  with Cons.IH [of ?s1] Cons.prems(3) take_take_append [of 4 "udp_queue i s @ [(sip, sp, m)]" "map (\<lambda>m. (sip, sp, m)) ms"]
  show ?case by (simp add: deliver_def del: take_append)
qed

lemma recvfrom_front:
  assumes "udp_inv s" "bound_to i p s" "udp_queue i s = (sip, sp, m) # q"
  shows "fst (udp_recvfrom (int i) mx s) = (int (length (take mx m)), take mx m, Some (sip, sp))"
    "udp_queue i (snd (udp_recvfrom (int i) mx s)) = q" "bound_to i p (snd (udp_recvfrom (int i) mx s))"
    "udp_inv (snd (udp_recvfrom (int i) mx s))"
proof -
  let ?k = "g_socks s ! i"
  have k: "sock_ok ?k" "i < 8" "us_in_use ?k" "i < length (g_socks s)"
    using assms(1,2) udp_inv_sock [of s i] by (simp_all add: bound_to_def udp_inv_def)
  then have inv: "sock_inv ?k" by (simp add: sock_ok_def)
  have ne: "sock_queue ?k \<noteq> []" using assms(3) by (auto simp: udp_queue_def)
  then have cnt: "rx_count ?k \<noteq> 0" by (simp add: sock_queue_Nil)
  have front: "dgram_view (us_rx ?k ! rx_head ?k) = (sip, sp, m)"
    using assms(3) usock.front_contents [OF inv ne] ne by (auto simp: udp_queue_def sock_front_def hd_map [symmetric])
  have ok: "dgram_ok (us_rx ?k ! rx_head ?k)" using k(1) by (simp add: sock_ok_def sock_inv_def list_all_nthD)
  have eq: "udp_recvfrom (int i) mx s = ((int (min mx (ud_len (us_rx ?k ! rx_head ?k))),
      take (min mx (ud_len (us_rx ?k ! rx_head ?k))) (ud_data (us_rx ?k ! rx_head ?k)), Some (sip, sp)), upd_sock i sock_pop s)"
    using k cnt front by (auto simp: udp_recvfrom_def sock_valid_def Let_def dgram_view_def min_def)
  show "fst (udp_recvfrom (int i) mx s) = (int (length (take mx m)), take mx m, Some (sip, sp))"
    using front ok unfolding eq by (auto simp: dgram_view_def dgram_ok_def min_def)
  show "udp_queue i (snd (udp_recvfrom (int i) mx s)) = q" "bound_to i p (snd (udp_recvfrom (int i) mx s))"
    using assms(2,3) k(4) usock.contents_pop [OF inv ne] ne by (auto simp: eq udp_queue_def upd_sock_def map_tl bound_to_def)
  show "udp_inv (snd (udp_recvfrom (int i) mx s))" using assms(1) by (rule udp_recvfrom_inv)
qed

fun recv_many :: "nat \<Rightarrow> int \<Rightarrow> nat \<Rightarrow> 'n udp \<Rightarrow> (int \<times> bytes \<times> (u32 \<times> u16) option) list" where
  "recv_many 0 sock mx s = []"
| "recv_many (Suc n) sock mx s = (case udp_recvfrom sock mx s of (r, s') \<Rightarrow> r # recv_many n sock mx s')"

fun send_many :: "int \<Rightarrow> u32 \<Rightarrow> u16 \<Rightarrow> bytes list \<Rightarrow> 'n udp \<Rightarrow> 'n udp" where
  "send_many sock dip dp [] s = s"
| "send_many sock dip dp (m # ms) s = send_many sock dip dp ms (snd (udp_sendto sock dip dp m (int (length m)) s))"

lemma recv_many_queue:
  assumes "udp_inv s" "bound_to i p s"
  shows "n \<le> length (udp_queue i s) \<Longrightarrow> recv_many n (int i) mx s
    = map (\<lambda>(sip, sp, m). (int (length (take mx m)), take mx m, Some (sip, sp))) (take n (udp_queue i s))"
  using assms
proof (induction n arbitrary: s)
  case (Suc n)
  then obtain sip sp m q where q: "udp_queue i s = (sip, sp, m) # q" by (cases "udp_queue i s") auto
  note r = recvfrom_front [OF Suc.prems(2,3) q, of mx]
  show ?case using Suc.IH [OF _ r(4,3)] r(1,2) Suc.prems(1) q by (simp add: split_beta)
qed simp

lemma send_many_wire:
  assumes "\<forall>src dst seg n. out src dst seg n = (0, n @ [(src, dst, seg)])"
  shows "g_ip_output s = Some out \<Longrightarrow> bound_to i p s \<Longrightarrow> \<not> (dip = 0xFFFFFFFF \<and> p = 68) \<Longrightarrow> \<forall>m \<in> set ms. length m \<le> UDP_MAX_PAYLOAD
    \<Longrightarrow> udp_net (send_many (int i) dip dp ms s) = udp_net s @ map (\<lambda>m. (g_local_ip s, dip, udp_segment p dp m)) ms"
proof (induction ms arbitrary: s)
  case (Cons m ms)
  then have step: "snd (udp_sendto (int i) dip dp m (int (length m)) s)
      = s\<lparr>udp_net := udp_net s @ [(g_local_ip s, dip, udp_segment p dp m)]\<rparr>"
    using assms by (auto simp: udp_sendto_def sock_valid_def bound_to_def Let_def)
  show ?case using Cons.prems Cons.IH [of "snd (udp_sendto (int i) dip dp m (int (length m)) s)"]
    by (simp add: step bound_to_def)
qed simp

section \<open>Properties of the sockets\<close>

text \<open>
  Property C38: whatever sequence of calls and arriving packets follows the initialisation, the socket table
  stays well formed: eight sockets with four places each, queue positions inside them, lengths inside the
  payload arrays, ephemeral ports from 50000 on, and no two open sockets on one port, so that a datagram has
  at most one receiver.
\<close>

theorem udp_reachable_wellformed:
  assumes "udp_step\<^sup>*\<^sup>* (udp_init s0) s" "50000 \<le> g_next_ephemeral s0"
  shows "udp_inv s"
  using assms by (rule udp_reachable_inv)

definition demo_udp :: "arrival list udp" where
  "demo_udp = \<lparr>g_socks = [], g_ip_output = Some (\<lambda>src dst seg n. (0, n @ [(src, dst, seg)])), g_local_ip = 7,
     g_next_ephemeral = 50000, g_dns_server = 0, udp_net = []\<rparr>"

theorem udp_reachable_wellformed_witness: "udp_inv (snd (udp_bind 9 (udp_init demo_udp)))"
proof (rule udp_reachable_wellformed)
  show "udp_step\<^sup>*\<^sup>* (udp_init demo_udp) (snd (udp_bind 9 (udp_init demo_udp)))" by (intro r_into_rtranclp udp_step.bind)
qed (simp add: demo_udp_def)

text \<open>
  Property C19: datagrams cross the network. What up to four calls of \<open>udp_sendto\<close> hand to the network is,
  delivered to a machine with an open socket on the destination port and an empty queue, what as many calls of
  \<open>udp_recvfrom\<close> return there: every payload whole and in order, with the sender's address and port, up to the
  largest payload; a fifth datagram would be dropped.
\<close>

theorem udp_end_to_end:
  assumes net: "\<forall>src dst seg n. out src dst seg n = (0, n @ [(src, dst, seg)])"
    and sender: "g_ip_output a = Some out" "bound_to i p a" "udp_net a = []" "\<not> (dip = 0xFFFFFFFF \<and> p = 68)"
    and receiver: "udp_inv b" "bound_to j dp b" "udp_queue j b = []"
    and msgs: "\<forall>m \<in> set ms. length m \<le> UDP_MAX_PAYLOAD"
  shows "recv_many (min UDP_RX_QUEUE (length ms)) (int j) UDP_MAX_PAYLOAD (deliver (udp_net (send_many (int i) dip dp ms a)) b)
    = map (\<lambda>m. (int (length m), m, Some (g_local_ip a, p))) (take UDP_RX_QUEUE ms)"
proof -
  let ?t = "deliver (udp_net (send_many (int i) dip dp ms a)) b"
  have wire: "udp_net (send_many (int i) dip dp ms a) = map (\<lambda>m. (g_local_ip a, dip, udp_segment p dp m)) ms"
    using send_many_wire [OF net sender(1,2,4) msgs] sender(3) by simp
  have t: "udp_queue j ?t = take 4 (map (\<lambda>m. (g_local_ip a, p, m)) ms)" "udp_inv ?t" "bound_to j dp ?t"
    using deliver_segments [OF receiver(1,2) msgs, of "g_local_ip a" dip p] receiver(3) by (simp_all add: wire)
  have "recv_many (min 4 (length ms)) (int j) 1472 ?t
      = map (\<lambda>(sip, sp, m). (int (length (take 1472 m)), take 1472 m, Some (sip, sp))) (udp_queue j ?t)"
    by (subst recv_many_queue [OF t(2,3)]) (simp_all add: t(1) take_map min_def)
  then show ?thesis using msgs by (auto simp: t(1) take_map dest!: in_set_takeD)
qed

theorem udp_end_to_end_witness:
  "let a = snd (udp_bind 1000 (udp_init demo_udp)); b = snd (udp_bind 53 (udp_init demo_udp))
   in recv_many (min UDP_RX_QUEUE (length [[1, 2], [3 :: u8]])) 0 UDP_MAX_PAYLOAD (deliver (udp_net (send_many 0 9 53 [[1, 2], [3]] a)) b)
     = [(2, [1, 2], Some (7, 1000)), (1, [3], Some (7, 1000))]"
proof -
  let ?a = "snd (udp_bind 1000 (udp_init demo_udp))" and ?b = "snd (udp_bind 53 (udp_init demo_udp))"
  have bind: "g_ip_output (snd (udp_bind q (udp_init demo_udp))) = Some (\<lambda>src dst seg n. (0, n @ [(src, dst, seg)]))"
    "bound_to 0 q (snd (udp_bind q (udp_init demo_udp)))" "udp_net (snd (udp_bind q (udp_init demo_udp))) = []"
    "udp_queue 0 (snd (udp_bind q (udp_init demo_udp))) = []" "g_local_ip (snd (udp_bind q (udp_init demo_udp))) = 7"
    if "q \<noteq> 0" for q
    using that by (simp_all add: udp_bind_def udp_init_def demo_udp_def find_slot_def upd_sock_def zero_socket_def bound_to_def
        udp_queue_def sock_queue_def eval_nat_numeral)
  have b: "udp_inv ?b" by (rule udp_bind_inv, rule udp_init_inv) (simp add: demo_udp_def)
  have msgs: "\<forall>m \<in> set [[1, 2], [3 :: u8]]. length m \<le> 1472" by simp
  from udp_end_to_end [OF _ bind(1-3) [of 1000] _ b bind(2) [of 53] bind(4) [of 53] msgs, of 9] bind(5) [of 1000]
  show ?thesis by (simp add: Let_def del: recv_many.simps send_many.simps)
qed


section \<open>Parsers stay inside the packet\<close>

definition same_prefix :: "nat \<Rightarrow> bytes \<Rightarrow> bytes \<Rightarrow> bool" where
  "same_prefix n p q \<longleftrightarrow> n \<le> length p \<and> n \<le> length q \<and> take n p = take n q"

lemma same_prefix_nth: "same_prefix n p q \<Longrightarrow> i < n \<Longrightarrow> p ! i = q ! i"
  unfolding same_prefix_def by (metis nth_take)

lemma same_prefix_drop: "same_prefix n p q \<Longrightarrow> o1 + i < n \<Longrightarrow> drop o1 p ! i = drop o1 q ! i"
  using same_prefix_nth [of n p q "o1 + i"] by (simp add: same_prefix_def)

lemma same_prefix_be:
  assumes "same_prefix n p q"
  shows "o1 + 2 \<le> n \<Longrightarrow> be16_of (drop o1 p) = be16_of (drop o1 q)" "o1 + 4 \<le> n \<Longrightarrow> rd_be32 p o1 = rd_be32 q o1"
  using same_prefix_drop [OF assms, of o1] by (simp_all add: be16_of_def rd_be32_def be32_of_def del: nth_drop)

lemma dhcp_option_prefix:
  assumes "same_prefix n p q" "v + unat olen \<le> n"
  shows "dhcp_option opt p v olen r = dhcp_option opt q v olen r"
  using assms same_prefix_be(2) [OF assms(1), of v] same_prefix_nth [OF assms(1), of v]
  by (auto simp: dhcp_option_def word_le_nat_alt split: prod.split)

lemma dhcp_options_prefix: "same_prefix n p q \<Longrightarrow> dhcp_options p n o1 r = dhcp_options q n o1 r"
proof (induction p n o1 r rule: dhcp_options.induct)
  case (1 p n o1 r)
  show ?case
  proof (cases "o1 + 1 < n")
    case True
    then have eq: "p ! o1 = q ! o1" "p ! Suc o1 = q ! Suc o1" using 1(3) by (auto intro: same_prefix_nth)
    show ?thesis
      unfolding dhcp_options.simps [of p n o1 r] dhcp_options.simps [of q n o1 r]
      using 1(1) [OF True refl _ _ 1(3)] 1(2) [OF True refl _ _ refl _ 1(3)] dhcp_option_prefix [OF 1(3), of "o1 + 2" "q ! Suc o1" "q ! o1" r]
      by (simp add: Let_def eq)
  qed (simp add: dhcp_options.simps [of _ n o1])
qed

lemma dns_skip_prefix: "same_prefix n p q \<Longrightarrow> dns_skip_name p n o1 = dns_skip_name q n o1"
proof (induction p n o1 rule: dns_skip_name.induct)
  case (1 p n o1)
  show ?case
  proof (cases "o1 < n")
    case True
    then have eq: "p ! o1 = q ! o1" using 1(2) by (auto intro: same_prefix_nth)
    show ?thesis
      unfolding dns_skip_name.simps [of p n o1] dns_skip_name.simps [of q n o1]
      using 1(1) [OF True refl _ _ 1(2)] by (simp add: Let_def eq)
  qed (simp add: dns_skip_name.simps [of _ n o1])
qed

lemma dns_questions_prefix: "same_prefix n p q \<Longrightarrow> dns_questions p n k off = dns_questions q n k off"
  by (induction k arbitrary: off) (auto simp: dns_skip_prefix split: option.split)

lemma dns_answers_prefix: "same_prefix n p q \<Longrightarrow> dns_answers p n k off = dns_answers q n k off"
proof (induction k arbitrary: off)
  case (Suc k)
  then show ?case using same_prefix_be [OF Suc.prems]
    by (auto simp: dns_skip_prefix [OF Suc.prems] Let_def not_less split: option.split)
qed simp

text \<open>
  Property C40: the DHCP and DNS parsers never look behind the packet. Two buffers that agree on the received
  bytes give the same lease, message type and address, whatever their lengths, option lengths, label lengths,
  counts and record lengths claim.
\<close>

theorem udp_parsers_in_bounds:
  assumes "len \<le> length p" "len \<le> length q" "take len p = take len q"
  shows "dhcp_parse p len xid l = dhcp_parse q len xid l \<and> (12 < len \<longrightarrow> dns_reply p len = dns_reply q len)"
proof -
  have s: "same_prefix len p q" using assms by (simp add: same_prefix_def)
  note be = same_prefix_be [OF s]
  show ?thesis using be(1) [of 4] be(1) [of 6] be(2) [of 4] be(2) [of 16] be(2) [of 236] same_prefix_nth [OF s, of 0]
    by (auto simp: dhcp_parse_def dns_reply_def Let_def dhcp_options_prefix [OF s] dns_questions_prefix [OF s] dns_answers_prefix [OF s])
qed

theorem udp_parsers_in_bounds_witness:
  "dns_reply (replicate 13 255 @ [1]) 13 = dns_reply (replicate 13 255 @ [2, 3]) 13"
  using udp_parsers_in_bounds [of 13 "replicate 13 255 @ [1]" "replicate 13 255 @ [2, 3]"] by simp

section \<open>Answers of a name server\<close>

text \<open>The format of a message: names are labels that end in a zero byte or a pointer.\<close>

definition label_ok :: "bytes \<Rightarrow> bool" where
  "label_ok l \<longleftrightarrow> 0 < length l \<and> length l \<le> 63"

type_synonym dns_name = "bytes list \<times> (u8 \<times> u8) option"

definition name_bytes :: "dns_name \<Rightarrow> bytes" where
  "name_bytes n = concat (map (\<lambda>l. of_nat (length l) # l) (fst n))
     @ (case snd n of None \<Rightarrow> [0] | Some (h, l) \<Rightarrow> [0xC0 OR h, l])"

record dns_record =
  rr_name :: dns_name
  rr_type :: u16
  rr_class_ttl :: bytes
  rr_data :: bytes

definition rr_ok :: "dns_record \<Rightarrow> bool" where
  "rr_ok r \<longleftrightarrow> list_all label_ok (fst (rr_name r)) \<and> length (rr_class_ttl r) = 6 \<and> length (rr_data r) < 2 ^ 16"

definition rr_bytes :: "dns_record \<Rightarrow> bytes" where
  "rr_bytes r = name_bytes (rr_name r) @ be16_bytes (rr_type r) @ rr_class_ttl r @ be16_bytes (of_nat (length (rr_data r))) @ rr_data r"

definition first_A :: "dns_record list \<Rightarrow> u32 option" where
  "first_A rs = map_option (\<lambda>r. be32_of (rr_data r)) (find (\<lambda>r. rr_type r = 1 \<and> length (rr_data r) = 4) rs)"

definition dns_message :: "u16 \<Rightarrow> u16 \<Rightarrow> (dns_name \<times> u32) list \<Rightarrow> dns_record list \<Rightarrow> bytes \<Rightarrow> bytes" where
  "dns_message qid flags qs rs extra = be16_bytes qid @ be16_bytes flags @ be16_bytes (of_nat (length qs)) @ be16_bytes (of_nat (length rs))
     @ take 4 extra @ concat (map (\<lambda>(n, c). name_bytes n @ be32_bytes c) qs) @ concat (map rr_bytes rs) @ drop 4 extra"

lemma small_label:
  assumes "n < 64"
  shows "(of_nat n :: u8) AND 0xC0 = 0" "unat (of_nat n :: u8) = n"
proof -
  have "(0xC0 :: u8) = push_bit 6 3" by (simp add: push_bit_eq_mult)
  moreover have "(of_nat n :: u8) = take_bit 6 (of_nat n)" using assms
    by (simp add: take_bit_of_nat take_bit_nat_eq_self)
  ultimately show "(of_nat n :: u8) AND 0xC0 = 0"
    by (metis (no_types, lifting) and_zero_eq bit_eqI bit_and_iff bit_push_bit_iff bit_take_bit_iff bit_0_eq bot_apply bot_bool_def not_le)
  show "unat (of_nat n :: u8) = n" using assms by (simp add: unat_of_nat take_bit_nat_eq_self_iff)
qed

lemma skip_name:
  assumes "list_all label_ok ls"
  shows "dns_skip_name (pre @ name_bytes (ls, e) @ post) (length (pre @ name_bytes (ls, e) @ post)) (length pre)
    = Some (length pre + length (name_bytes (ls, e)))"
  using assms
proof (induction ls arbitrary: pre)
  case Nil
  have "(0xC0 OR h) AND 0xC0 = 0xC0" "0xC0 OR h \<noteq> 0" for h :: u8
  proof -
    show "(0xC0 OR h) AND 0xC0 = 0xC0" by (auto simp: bit_eq_iff bit_simps)
    show "0xC0 OR h \<noteq> 0" by (simp add: or_eq_0_iff)
  qed
  then show ?case by (subst dns_skip_name.simps) (auto simp: name_bytes_def nth_append Let_def split: option.split)
next
  case (Cons l ls)
  have l: "length l < 64" "0 < length l" using Cons.prems by (auto simp: label_ok_def)
  let ?n = "name_bytes (l # ls, e)"
  have split: "?n = of_nat (length l) # l @ name_bytes (ls, e)" by (simp add: name_bytes_def)
  have "(of_nat (length l) :: u8) \<noteq> 0" using small_label(2) [OF l(1)] l(2) by (metis unat_0 less_irrefl)
  then show ?case using Cons.IH [of "pre @ of_nat (length l) # l"] Cons.prems small_label [OF l(1)]
    by (subst dns_skip_name.simps) (simp add: split nth_append Let_def add.assoc)
qed


lemma questions_skipped:
  assumes "list_all (\<lambda>(n, c). list_all label_ok (fst n)) qs"
  defines "qb \<equiv> concat (map (\<lambda>(n, c). name_bytes n @ be32_bytes c) qs)"
  shows "dns_questions (pre @ qb @ post) (length (pre @ qb @ post)) (length qs) (Some (length pre)) = Some (length (pre @ qb))"
  using assms(1) unfolding qb_def
proof (induction qs arbitrary: pre)
  case (Cons q qs)
  obtain ls e c where q: "q = ((ls, e), c)" by (cases q) auto
  let ?rest = "concat (map (\<lambda>(n, c). name_bytes n @ be32_bytes c) qs) @ post"
  have "dns_skip_name (pre @ name_bytes (ls, e) @ (be32_bytes c @ ?rest)) (length (pre @ name_bytes (ls, e) @ (be32_bytes c @ ?rest))) (length pre)
      = Some (length pre + length (name_bytes (ls, e)))"
    using Cons.prems by (intro skip_name) (simp add: q)
  then show ?case using Cons.IH [of "pre @ name_bytes (ls, e) @ be32_bytes c"] Cons.prems by (simp add: q add.assoc)
qed simp

lemma rr_fields:
  assumes "length (rr_class_ttl r) = 6"
  shows "drop (length pre + length (name_bytes (rr_name r))) (pre @ rr_bytes r @ post)
      = be16_bytes (rr_type r) @ rr_class_ttl r @ be16_bytes (of_nat (length (rr_data r))) @ rr_data r @ post"
    "drop (length pre + length (name_bytes (rr_name r)) + 8) (pre @ rr_bytes r @ post) = be16_bytes (of_nat (length (rr_data r))) @ rr_data r @ post"
    "drop (length pre + length (name_bytes (rr_name r)) + 10) (pre @ rr_bytes r @ post) = rr_data r @ post"
    "length (rr_bytes r) = length (name_bytes (rr_name r)) + 10 + length (rr_data r)"
  using assms by (simp_all add: rr_bytes_def)

lemma be32_of_prefix: "4 \<le> length d \<Longrightarrow> be32_of (d @ post) = be32_of d"
  by (auto simp: be32_of_def nth_append)

lemma name_bytes_pos: "0 < length (name_bytes n)"
  by (auto simp: name_bytes_def split: option.split)

lemma answers_found:
  assumes "list_all rr_ok rs"
  shows "dns_answers (pre @ concat (map rr_bytes rs) @ post) (length (pre @ concat (map rr_bytes rs) @ post)) (length rs) (Some (length pre)) = first_A rs"
  using assms
proof (induction rs arbitrary: pre)
  case (Cons r rs)
  let ?m = "pre @ rr_bytes r @ concat (map rr_bytes rs) @ post" and ?n = "name_bytes (rr_name r)"
  have r: "list_all label_ok (fst (rr_name r))" "length (rr_class_ttl r) = 6" "length (rr_data r) < 2 ^ 16" "list_all rr_ok rs"
    using Cons.prems rr_ok_def [of r] by simp_all
  note f = rr_fields(1-3) [OF r(2), of pre "concat (map rr_bytes rs) @ post"] rr_fields(4) [OF r(2)]
  have len: "unat (of_nat (length (rr_data r)) :: u16) = length (rr_data r)"
    using r(3) by (simp add: unat_of_nat take_bit_nat_eq_self_iff)
  have skip: "dns_skip_name ?m (length ?m) (length pre) = Some (length pre + length ?n)"
    using skip_name [of "fst (rr_name r)" pre "snd (rr_name r)" "be16_bytes (rr_type r) @ rr_class_ttl r @ be16_bytes (of_nat (length (rr_data r)))
      @ rr_data r @ concat (map rr_bytes rs) @ post"] r(1) by (simp add: rr_bytes_def add_ac)
  have lm: "length ?m = length pre + length ?n + 10 + length (rr_data r) + length (concat (map rr_bytes rs) @ post)"
    by (simp add: f(4) del: length_concat)
  have step: "dns_answers ?m (length ?m) (Suc (length rs)) (Some (length pre))
      = (if rr_type r = 1 \<and> length (rr_data r) = 4 then Some (be32_of (rr_data r))
         else dns_answers ?m (length ?m) (length rs) (Some (length pre + length (rr_bytes r))))"
    using f skip name_bytes_pos [of "rr_name r"]
    by (simp only: dns_answers.simps option.case Let_def) (simp add: lm be16_of_append len rd_be32_def be32_of_prefix add.assoc)
  show ?case using Cons.IH [of "pre @ rr_bytes r"] r(4) step by (auto simp: first_A_def)
qed (simp add: first_A_def)

definition message_ok :: "(dns_name \<times> u32) list \<Rightarrow> dns_record list \<Rightarrow> bytes \<Rightarrow> bool" where
  "message_ok qs rs extra \<longleftrightarrow> list_all (\<lambda>(n, c). list_all label_ok (fst n)) qs \<and> list_all rr_ok rs
     \<and> length qs < 2 ^ 16 \<and> length rs < 2 ^ 16 \<and> 4 \<le> length extra"

lemma dns_reply_message:
  assumes "message_ok qs rs extra"
  shows "dns_reply (dns_message qid flags qs rs extra) (length (dns_message qid flags qs rs extra)) = first_A rs"
proof -
  let ?h = "be16_bytes qid @ be16_bytes flags @ be16_bytes (of_nat (length qs)) @ be16_bytes (of_nat (length rs)) @ take 4 extra"
  let ?q = "concat (map (\<lambda>(n, c). name_bytes n @ be32_bytes c) qs)" and ?a = "concat (map rr_bytes rs)"
  have m: "dns_message qid flags qs rs extra = ?h @ ?q @ ?a @ drop 4 extra" by (simp add: dns_message_def)
  have h: "length ?h = 12" using assms by (simp add: message_ok_def)
  have counts: "unat (of_nat (length qs) :: u16) = length qs" "unat (of_nat (length rs) :: u16) = length rs"
    using assms by (simp_all add: message_ok_def unat_of_nat take_bit_nat_eq_self_iff)
  have hd: "be16_of (drop 4 (?h @ ?q @ ?a @ drop 4 extra)) = of_nat (length qs)" "be16_of (drop 6 (?h @ ?q @ ?a @ drop 4 extra)) = of_nat (length rs)"
    by (simp_all add: be16_of_append)
  have "dns_questions (?h @ ?q @ (?a @ drop 4 extra)) (length (?h @ ?q @ (?a @ drop 4 extra))) (length qs) (Some 12) = Some (length (?h @ ?q))"
    using questions_skipped [of qs ?h "?a @ drop 4 extra"] assms unfolding h by (simp add: message_ok_def)
  moreover have "dns_answers ((?h @ ?q) @ ?a @ drop 4 extra) (length ((?h @ ?q) @ ?a @ drop 4 extra)) (length rs) (Some (length (?h @ ?q))) = first_A rs"
    using assms by (intro answers_found) (simp add: message_ok_def)
  ultimately show ?thesis unfolding m dns_reply_def Let_def hd counts by simp
qed


section \<open>Resolving a name\<close>

lemma deliver_Nil [simp]: "deliver [] s = s"
  by (simp add: deliver_def)

lemma recvfrom_empty:
  "bound_to i p s \<Longrightarrow> udp_queue i s = [] \<Longrightarrow> udp_recvfrom (int i) mx s = ((0, [], None), s)"
  by (simp add: udp_recvfrom_def bound_to_def sock_valid_def udp_queue_def sock_queue_Nil Let_def)

lemma dns_wait_idle:
  assumes "bound_to i p s" "udp_queue i s = []" "\<forall>t \<in> set ts. t - start < limit"
  shows "dns_wait (int i) qid start limit (map (\<lambda>t. (t, [])) ts @ ps) s = dns_wait (int i) qid start limit ps s"
  using assms(3) by (induction ts) (simp_all add: recvfrom_empty [OF assms(1,2)] Let_def)

lemma bind_ephemeral:
  assumes "udp_inv s" "udp_bind 0 s = (int i, s1)"
  shows "bound_to i (g_next_ephemeral s) s1" "udp_queue i s1 = []" "udp_inv s1" "g_dns_server s1 = g_dns_server s"
proof -
  let ?p = "g_next_ephemeral s" and ?n = "g_next_ephemeral s + 1"
  let ?t = "s\<lparr>g_next_ephemeral := (if ?n < 50000 then 50000 else ?n)\<rparr>"
  have r: "find_slot (\<lambda>k. us_in_use k \<and> us_port k = ?p) (g_socks s) = None"
    "find_slot (\<lambda>k. \<not> us_in_use k) (g_socks s) = Some i"
    "s1 = upd_sock i (\<lambda>k. zero_socket\<lparr>us_in_use := True, us_port := ?p\<rparr>) ?t"
    using assms(2) by (auto simp: udp_bind_def Let_def split: if_splits option.splits)
  have i: "i < 8" "i < length (g_socks s)" using find_slot_SomeD(1) [OF r(2)] assms(1) by (simp_all add: udp_inv_def)
  then show "bound_to i ?p s1" "udp_queue i s1 = []"
    by (simp_all add: r(3) bound_to_def upd_sock_def udp_queue_def sock_queue_def zero_socket_def)
  show "udp_inv s1" using udp_bind_inv [OF assms(1), of 0] assms(2) by simp
  show "g_dns_server s1 = g_dns_server s" by (simp add: r(3) upd_sock_def)
qed

lemma sendto_keeps:
  "bound_to i p (snd (udp_sendto k dip dp buf len s)) = bound_to i p s"
  "udp_queue i (snd (udp_sendto k dip dp buf len s)) = udp_queue i s"
  by (simp_all add: bound_to_def udp_queue_def udp_sendto_socks)

lemma dns_wait_reply:
  assumes "udp_inv s" "bound_to i p s" "udp_queue i s = []" "t - start < limit" "message_ok qs rs extra"
    "length (dns_message qid flags qs rs extra) \<le> UDP_MAX_PAYLOAD" "rs \<noteq> []"
  shows "\<exists>s'. dns_wait (int i) qid start limit ((t, [(sip, dip, udp_segment sp p (dns_message qid flags qs rs extra))]) # ps) s
    = Some (first_A rs, ps, s')"
proof -
  let ?m = "dns_message qid flags qs rs extra"
  let ?s1 = "deliver [(sip, dip, udp_segment sp p ?m)] s"
  have q: "udp_queue i ?s1 = [(sip, sp, ?m)]" "udp_inv ?s1" "bound_to i p ?s1"
    using deliver_segments [OF assms(1,2), of "[?m]" sip dip sp] assms(3,6) by simp_all
  have long: "12 < length ?m"
    using assms(5,7) name_bytes_pos [of "rr_name (hd rs)"] by (cases rs) (auto simp: dns_message_def message_ok_def rr_bytes_def)
  have id: "take 2 ?m = be16_bytes qid" by (simp add: dns_message_def)
  obtain s2 where s2: "udp_recvfrom (int i) 1472 ?s1 = ((int (length ?m), ?m, Some (sip, sp)), s2)"
    using recvfrom_front(1) [OF q(2,3,1), of 1472] assms(6) by (cases "udp_recvfrom (int i) 1472 ?s1") auto
  show ?thesis using s2 long id assms(4) dns_reply_message [OF assms(5), of qid flags] by (simp add: Let_def)
qed

text \<open>
  Property C29: names resolve. When a socket is free, the name is a proper host name and an answer of the name server
  with the query's identifier reaches the socket before two seconds are over, \<open>dns_resolve\<close> returns 0 with
  the first address record of the answer, whatever aliases and other records stand before it, compressed
  names included; until the answer arrives the clock may be read any number of times.
\<close>

theorem dns_resolves:
  assumes "udp_inv s" "udp_bind 0 s = (int i, s1)" "g_dns_server s \<noteq> 0" "cstr nm \<noteq> []"
    and qid: "qid = ucast (t0 XOR 0x517A)" "dns_query qid nm = Some query"
    and time: "\<forall>t \<in> set ts. t - start < (if hz = 0 then 240 else hz) * 2" "t - start < (if hz = 0 then 240 else hz) * 2"
    and reply: "message_ok qs rs extra" "length (dns_message qid flags qs rs extra) \<le> UDP_MAX_PAYLOAD" "first_A rs = Some ip"
  shows "\<exists>s'. dns_resolve (Some nm) hz ([(t0, []), (start, [])] @ map (\<lambda>t. (t, [])) ts
      @ (t, [(sip, dip, udp_segment sp (g_next_ephemeral s) (dns_message qid flags qs rs extra))]) # ps) s = Some ((0, Some ip), s')"
proof -
  note b = bind_ephemeral [OF assms(1,2)]
  let ?s2 = "snd (udp_sendto (int i) (g_dns_server s1) 53 query (int (length query)) s1)"
  let ?lim = "(if hz = 0 then 240 else hz) * 2"
  let ?p = "(t, [(sip, dip, udp_segment sp (g_next_ephemeral s) (dns_message qid flags qs rs extra))])"
  have s2: "udp_inv ?s2" "bound_to i (g_next_ephemeral s) ?s2" "udp_queue i ?s2 = []"
    using b by (simp_all add: udp_step_same sendto_keeps)
  have "rs \<noteq> []" using reply(3) by (auto simp: first_A_def)
  then obtain s3 where "dns_wait (int i) qid start ?lim (?p # ps) ?s2 = Some (Some ip, ps, s3)"
    using dns_wait_reply [OF s2 time(2) reply(1,2), of sip dip sp ps] reply(3) by auto
  then have "dns_wait (int i) qid start ?lim (map (\<lambda>t. (t, [])) ts @ ?p # ps) ?s2 = Some (Some ip, ps, s3)"
    by (simp only: dns_wait_idle [OF s2(2,3) time(1)])
  then have "dns_attempts 2 (int i) qid query ?lim ((start, []) # map (\<lambda>t. (t, [])) ts @ ?p # ps) s1 = Some (Some ip, ps, s3)"
    by (simp add: numeral_2_eq_2 get_kernel_tick_def)
  then show ?thesis using assms(2-4) qid by (simp add: dns_resolve_def get_kernel_tick_def Let_def)
qed

definition demo_answer :: "dns_record list" where
  "demo_answer = [\<lparr>rr_name = ([], Some (0, 12)), rr_type = 5, rr_class_ttl = [0, 1, 0, 0, 0, 9], rr_data = [0xC0, 12]\<rparr>,
     \<lparr>rr_name = ([], Some (0, 12)), rr_type = 1, rr_class_ttl = [0, 1, 0, 0, 0, 9], rr_data = [10, 0, 2, 3]\<rparr>]"

definition demo_question :: "(dns_name \<times> u32) list" where
  "demo_question = [((map (map byte_of) [''os'', ''org''], None), 0x10001)]"

theorem dns_resolves_witness:
  "\<exists>s'. dns_resolve (Some ''os.org'') 100 [(5, []), (6, []), (7, []),
      (8, [(1, 7, udp_segment 53 50000 (dns_message 0x517F 0x8180 demo_question demo_answer [0, 0, 0, 0]))])]
      (udp_init (dns_set_server 1 demo_udp)) = Some ((0, Some 0x0A000203), s')"
proof -
  let ?s = "udp_init (dns_set_server 1 demo_udp)"
  have inv: "udp_inv ?s" by (rule udp_init_inv) (simp add: demo_udp_def dns_set_server_def)
  have bind: "udp_bind 0 ?s = (int 0, snd (udp_bind 0 ?s))" "g_dns_server ?s \<noteq> 0" "g_next_ephemeral ?s = 50000"
    by (simp_all add: udp_bind_def udp_init_def demo_udp_def dns_set_server_def find_slot_def zero_socket_def eval_nat_numeral)
  have nm: "cstr ''os.org'' \<noteq> []" by (simp add: cstr_def)
  have qid: "0x517F = (ucast (5 XOR 0x517A :: u32) :: u16)" by simp
  have q: "dns_query 0x517F ''os.org'' = Some (the (dns_query 0x517F ''os.org''))" by code_simp
  have ts: "\<forall>t \<in> set [7 :: u32]. t - 6 < (if (100 :: u32) = 0 then 240 else 100) * 2" "(8 :: u32) - 6 < (if (100 :: u32) = 0 then 240 else 100) * 2" by simp_all
  have ok: "message_ok demo_question demo_answer [0, 0, 0, 0]"
    by (simp add: message_ok_def demo_question_def demo_answer_def rr_ok_def label_ok_def)
  have len: "length (dns_message 0x517F 0x8180 demo_question demo_answer [0, 0, 0, 0]) \<le> 1472" by code_simp
  have ip: "first_A demo_answer = Some 0x0A000203" by code_simp
  from dns_resolves [OF inv bind(1,2) nm qid q ts ok len ip, of 1 7 53 "[]"] show ?thesis by (simp add: bind(3))
qed

end
