(* ===== verification/Net.thy ===== *)
theory Net
  imports Tcp Udp
begin

text \<open>
  The link between the protocols and the network card (\<open>kernel/arch/x86_64/kernel_x64.c\<close>, phases 22 and 49
  to 51): Ethernet, ARP, IPv4 and the echo request, and how they call TCP and UDP. The card is a parameter: a
  pair of functions on its state \<open>'d\<close>, as \<open>e1000_send\<close> and \<open>e1000_recv\<close>. The link is the network of the UDP
  model; the segments TCP leaves on its wire are sent when the call that produced them returns, which is the
  same, since TCP ignores the result of its transmit function.
\<close>

section \<open>Data\<close>

abbreviation TIMER_HZ :: u64 where "TIMER_HZ \<equiv> 240"
abbreviation NET_ARP_CACHE :: nat where "NET_ARP_CACHE \<equiv> 8"
abbreviation E1000_NUM_RX :: nat where "E1000_NUM_RX \<equiv> 32"
abbreviation E1000_PKT_SIZE :: nat where "E1000_PKT_SIZE \<equiv> 2048"

record 'd nic =
  nic_send :: "bytes \<Rightarrow> 'd \<Rightarrow> int \<times> 'd"
  nic_recv :: "nat \<Rightarrow> 'd \<Rightarrow> (int \<times> bytes) \<times> 'd"

record ArpEntry =
  ae_ip :: bytes
  ae_mac :: bytes
  ae_valid :: bool

record 'd link =
  e1000_up :: bool
  e1000_mac :: bytes
  net_ip :: bytes
  net_gw :: bytes
  arp_cache :: "ArpEntry list"
  g_icmp_echo_seq :: u16
  net_tick :: u64
  net_card :: 'd

record 'd net =
  nt_tcp :: tcp_state
  nt_udp :: "'d link udp"

definition net_bcast_mac :: bytes where
  "net_bcast_mac = replicate 6 0xFF"

definition htons :: "u16 \<Rightarrow> u16" where
  "htons h = drop_bit 8 h OR push_bit 8 h"

definition ip_checksum :: "bytes \<Rightarrow> u16" where
  "ip_checksum p = htons (ucast (NOT (fold_carry (checksum_loop 0 p))))"

text \<open>The packed headers, field by field as they stand in memory.\<close>

record EthHdr =
  eth_dst :: bytes
  eth_src :: bytes
  ethertype :: u16

definition eth_bytes :: "EthHdr \<Rightarrow> bytes" where
  "eth_bytes h = eth_dst h @ eth_src h @ le16_bytes (ethertype h)"

definition eth_of :: "bytes \<Rightarrow> EthHdr" where
  "eth_of b = \<lparr>eth_dst = take 6 b, eth_src = take 6 (drop 6 b), ethertype = le16_of (drop 12 b)\<rparr>"

record ArpPkt =
  ar_htype :: u16
  ar_ptype :: u16
  ar_hlen :: u8
  ar_plen :: u8
  ar_oper :: u16
  ar_sha :: bytes
  ar_spa :: bytes
  ar_tha :: bytes
  ar_tpa :: bytes

definition arp_bytes :: "ArpPkt \<Rightarrow> bytes" where
  "arp_bytes a = le16_bytes (ar_htype a) @ le16_bytes (ar_ptype a) @ [ar_hlen a, ar_plen a] @ le16_bytes (ar_oper a)
     @ ar_sha a @ ar_spa a @ ar_tha a @ ar_tpa a"

definition arp_of :: "bytes \<Rightarrow> ArpPkt" where
  "arp_of b = \<lparr>ar_htype = le16_of b, ar_ptype = le16_of (drop 2 b), ar_hlen = b ! 4, ar_plen = b ! 5, ar_oper = le16_of (drop 6 b),
     ar_sha = take 6 (drop 8 b), ar_spa = take 4 (drop 14 b), ar_tha = take 6 (drop 18 b), ar_tpa = take 4 (drop 24 b)\<rparr>"

record Ipv4Hdr =
  ip_ihl_ver :: u8
  ip_tos :: u8
  ip_total_len :: u16
  ip_ident :: u16
  ip_frag_off :: u16
  ip_ttl :: u8
  ip_protocol :: u8
  ip_check :: u16
  ip_src :: bytes
  ip_dst :: bytes

definition ipv4_bytes :: "Ipv4Hdr \<Rightarrow> bytes" where
  "ipv4_bytes h = [ip_ihl_ver h, ip_tos h] @ le16_bytes (ip_total_len h) @ le16_bytes (ip_ident h) @ le16_bytes (ip_frag_off h)
     @ [ip_ttl h, ip_protocol h] @ le16_bytes (ip_check h) @ ip_src h @ ip_dst h"

definition ipv4_of :: "bytes \<Rightarrow> Ipv4Hdr" where
  "ipv4_of b = \<lparr>ip_ihl_ver = b ! 0, ip_tos = b ! 1, ip_total_len = le16_of (drop 2 b), ip_ident = le16_of (drop 4 b),
     ip_frag_off = le16_of (drop 6 b), ip_ttl = b ! 8, ip_protocol = b ! 9, ip_check = le16_of (drop 10 b),
     ip_src = take 4 (drop 12 b), ip_dst = take 4 (drop 16 b)\<rparr>"

record IcmpHdr =
  ic_type :: u8
  ic_code :: u8
  ic_checksum :: u16
  ic_ident :: u16
  ic_seq :: u16

definition icmp_bytes :: "IcmpHdr \<Rightarrow> bytes" where
  "icmp_bytes h = [ic_type h, ic_code h] @ le16_bytes (ic_checksum h) @ le16_bytes (ic_ident h) @ le16_bytes (ic_seq h)"

definition icmp_of :: "bytes \<Rightarrow> IcmpHdr" where
  "icmp_of b = \<lparr>ic_type = b ! 0, ic_code = b ! 1, ic_checksum = le16_of (drop 2 b), ic_ident = le16_of (drop 4 b),
     ic_seq = le16_of (drop 6 b)\<rparr>"

section \<open>Address resolution\<close>

definition send_frame :: "'d nic \<Rightarrow> bytes \<Rightarrow> 'd link \<Rightarrow> int \<times> 'd link" where
  "send_frame nic f k = (case nic_send nic f (net_card k) of (rc, d) \<Rightarrow> (rc, k\<lparr>net_card := d\<rparr>))"

definition net_send_arp_request :: "'d nic \<Rightarrow> bytes \<Rightarrow> 'd link \<Rightarrow> 'd link" where
  "net_send_arp_request nic target k =
     snd (send_frame nic (eth_bytes \<lparr>eth_dst = net_bcast_mac, eth_src = e1000_mac k, ethertype = htons 0x0806\<rparr>
       @ arp_bytes \<lparr>ar_htype = htons 1, ar_ptype = htons 0x0800, ar_hlen = 6, ar_plen = 4, ar_oper = htons 1,
           ar_sha = e1000_mac k, ar_spa = net_ip k, ar_tha = replicate 6 0, ar_tpa = target\<rparr>) k)"

definition arp_usable :: "bytes \<Rightarrow> ArpEntry \<Rightarrow> bool" where
  "arp_usable ip e \<longleftrightarrow> \<not> ae_valid e \<or> ae_ip e = ip"

definition net_arp_cache_insert :: "bytes \<Rightarrow> bytes \<Rightarrow> 'd link \<Rightarrow> 'd link" where
  "net_arp_cache_insert ip mac k =
     (case find_slot (arp_usable ip) (arp_cache k) of
        None \<Rightarrow> k
      | Some i \<Rightarrow> k\<lparr>arp_cache := (arp_cache k)[i := \<lparr>ae_ip = ip, ae_mac = mac, ae_valid = True\<rparr>]\<rparr>)"

definition net_handle_arp :: "'d nic \<Rightarrow> bytes \<Rightarrow> 'd link \<Rightarrow> 'd link" where
  "net_handle_arp nic data k =
     (if length data < 28 then k
      else let arp = arp_of data;
               k1 = (if htons (ar_oper arp) = 1 \<and> ar_tpa arp = net_ip k
                     then snd (send_frame nic (eth_bytes \<lparr>eth_dst = ar_sha arp, eth_src = e1000_mac k, ethertype = htons 0x0806\<rparr>
                       @ arp_bytes \<lparr>ar_htype = htons 1, ar_ptype = htons 0x0800, ar_hlen = 6, ar_plen = 4, ar_oper = htons 2,
                           ar_sha = e1000_mac k, ar_spa = net_ip k, ar_tha = ar_sha arp, ar_tpa = ar_spa arp\<rparr>) k)
                     else k)
        in if htons (ar_oper arp) = 2 then net_arp_cache_insert (ar_spa arp) (ar_sha arp) k1 else k1)"

definition net_arp_lookup :: "bytes \<Rightarrow> 'd link \<Rightarrow> bytes option" where
  "net_arp_lookup ip k = map_option (\<lambda>i. ae_mac (arp_cache k ! i)) (find_slot (\<lambda>e. ae_valid e \<and> ae_ip e = ip) (arp_cache k))"

section \<open>Output\<close>

definition next_hop :: "bytes \<Rightarrow> 'd link \<Rightarrow> bytes" where
  "next_hop dip k = (if dip ! 0 = net_ip k ! 0 \<and> dip ! 1 = net_ip k ! 1 \<and> dip ! 2 = net_ip k ! 2 then dip else net_gw k)"

definition ip_packet :: "u8 \<Rightarrow> bytes \<Rightarrow> bytes \<Rightarrow> bytes \<Rightarrow> u64 \<Rightarrow> bytes" where
  "ip_packet proto src dst seg tick =
     (let h = \<lparr>ip_ihl_ver = 0x45, ip_tos = 0, ip_total_len = htons (of_nat (20 + length seg)), ip_ident = htons (ucast tick),
            ip_frag_off = 0, ip_ttl = 64, ip_protocol = proto, ip_check = 0, ip_src = src, ip_dst = dst\<rparr>
      in ipv4_bytes (h\<lparr>ip_check := ip_checksum (ipv4_bytes h)\<rparr>) @ seg)"

definition ip_frame :: "bytes \<Rightarrow> bytes \<Rightarrow> bytes \<Rightarrow> bytes" where
  "ip_frame mac own pkt = eth_bytes \<lparr>eth_dst = mac, eth_src = own, ethertype = htons 0x0800\<rparr> @ pkt"

definition net_tcp_ip_output :: "'d nic \<Rightarrow> u32 \<Rightarrow> bytes \<Rightarrow> 'd link \<Rightarrow> int \<times> 'd link" where
  "net_tcp_ip_output nic dst_ip seg k =
     (if \<not> e1000_up k \<or> length seg > TCP_MAX_SEG + 20 then (-1, k)
      else let dip = be32_bytes dst_ip; hop = next_hop dip k in
        case net_arp_lookup hop k of
          None \<Rightarrow> (-1, net_send_arp_request nic hop k)
        | Some mac \<Rightarrow> send_frame nic (ip_frame mac (e1000_mac k) (ip_packet 6 (net_ip k) dip seg (net_tick k))) k)"

definition net_udp_ip_output :: "'d nic \<Rightarrow> u32 \<Rightarrow> u32 \<Rightarrow> bytes \<Rightarrow> 'd link \<Rightarrow> int \<times> 'd link" where
  "net_udp_ip_output nic src_ip dst_ip seg k =
     (if \<not> e1000_up k \<or> length seg > 1480 then (-1, k)
      else let dip = be32_bytes dst_ip; hop = next_hop dip k in
        case (if dst_ip = 0xFFFFFFFF then Some net_bcast_mac else net_arp_lookup hop k) of
          None \<Rightarrow> (-1, net_send_arp_request nic hop k)
        | Some mac \<Rightarrow> send_frame nic (ip_frame mac (e1000_mac k) (ip_packet 17 (be32_bytes src_ip) dip seg (net_tick k))) k)"

section \<open>Input\<close>

definition upd_link :: "('d link \<Rightarrow> 'd link) \<Rightarrow> 'd net \<Rightarrow> 'd net" where
  "upd_link f n = n\<lparr>nt_udp := nt_udp n\<lparr>udp_net := f (udp_net (nt_udp n))\<rparr>\<rparr>"

abbreviation net_link :: "'d net \<Rightarrow> 'd link" where
  "net_link n \<equiv> udp_net (nt_udp n)"

text \<open>What TCP has put on its wire goes out through its transmit function.\<close>

definition tcp_flush :: "'d nic \<Rightarrow> 'd net \<Rightarrow> 'd net" where
  "tcp_flush nic n =
     (upd_link (fold (\<lambda>(ip, seg) k. snd (net_tcp_ip_output nic ip seg k)) (tcp_wire (nt_tcp n))) n)
       \<lparr>nt_tcp := (nt_tcp n)\<lparr>tcp_wire := []\<rparr>\<rparr>"

definition net_dispatch_frame :: "'d nic \<Rightarrow> bytes \<Rightarrow> 'd net \<Rightarrow> 'd net" where
  "net_dispatch_frame nic buf s =
     (let n = length buf in
      if n < 14 then s
      else let eth = eth_of buf; etype = htons (ethertype eth) in
        if etype = 0x0806 then upd_link (net_handle_arp nic (drop 14 buf)) s
        else if etype \<noteq> 0x0800 \<or> n < 14 + 20 then s
        else let ip = ipv4_of (drop 14 buf); ihl = unat (ip_ihl_ver ip AND 0x0F) * 4 in
          if ihl < 20 \<or> 14 + ihl > n then s
          else let tot0 = unat (htons (ip_total_len ip));
                   tot = (if tot0 < ihl \<or> 14 + tot0 > n then n - 14 else tot0);
                   s1 = upd_link (net_arp_cache_insert (ip_src ip) (eth_src eth)) s;
                   body = take (tot - ihl) (drop (14 + ihl) buf)
            in if ip_protocol ip = 1 \<and> tot \<ge> ihl + 8 then
                 (if ic_type (icmp_of body) = 0
                  then upd_link (\<lambda>k. k\<lparr>g_icmp_echo_seq := htons (ic_seq (icmp_of body))\<rparr>) s1 else s1)
               else if ip_protocol ip = 6 then
                 tcp_flush nic (s1\<lparr>nt_tcp := tcp_receive_packet (ucast (net_tick (net_link s1))) (be32_of (ip_src ip)) body (nt_tcp s1)\<rparr>)
               else if ip_protocol ip = 17 then
                 s1\<lparr>nt_udp := udp_receive_packet (be32_of (ip_src ip)) (be32_of (ip_dst ip)) body (nt_udp s1)\<rparr>
               else s1)"

fun rx_loop :: "nat \<Rightarrow> 'd nic \<Rightarrow> 'd net \<Rightarrow> 'd net" where
  "rx_loop 0 nic s = s"
| "rx_loop (Suc k) nic s =
     (case nic_recv nic E1000_PKT_SIZE (net_card (net_link s)) of ((n, frame), d) \<Rightarrow>
        let s1 = upd_link (\<lambda>l. l\<lparr>net_card := d\<rparr>) s in
        if n \<le> 0 then s1 else rx_loop k nic (net_dispatch_frame nic (take (nat n) frame) s1))"

definition net_rx_poll :: "'d nic \<Rightarrow> 'd net \<Rightarrow> 'd net" where
  "net_rx_poll nic s = (if \<not> e1000_up (net_link s) then s else rx_loop E1000_NUM_RX nic s)"

section \<open>Waiting for replies\<close>

text \<open>
  \<open>hlt\<close> waits for the next interrupt of the timer: an element of the list is the change of the card since the
  last one. The interrupt advances the tick and polls the card; \<open>None\<close> means that the list ends first.
\<close>

definition net_irq :: "'d nic \<Rightarrow> ('d \<Rightarrow> 'd) \<Rightarrow> 'd net \<Rightarrow> 'd net" where
  "net_irq nic ev s = (let s1 = net_rx_poll nic (upd_link (\<lambda>k. k\<lparr>net_tick := net_tick k + 1, net_card := ev (net_card k)\<rparr>) s)
     in tcp_flush nic (s1\<lparr>nt_tcp := tcp_tick (ucast (net_tick (net_link s1))) (nt_tcp s1)\<rparr>))"

fun arp_wait :: "'d nic \<Rightarrow> bytes \<Rightarrow> u64 \<Rightarrow> u64 \<Rightarrow> ('d \<Rightarrow> 'd) list \<Rightarrow> 'd net \<Rightarrow> (bytes option \<times> ('d \<Rightarrow> 'd) list \<times> 'd net) option" where
  "arp_wait nic ip start last_arp evs s =
     (let now = net_tick (net_link s) in
      if \<not> now - start < TIMER_HZ * 5 then Some (None, evs, s)
      else case net_arp_lookup ip (net_link s) of
        Some mac \<Rightarrow> Some (Some mac, evs, s)
      | None \<Rightarrow>
          let again = now - last_arp \<ge> TIMER_HZ;
              s1 = (if again then upd_link (net_send_arp_request nic ip) s else s)
          in (case evs of
                [] \<Rightarrow> None
              | ev # evs' \<Rightarrow> arp_wait nic ip start (if again then now else last_arp) evs' (net_irq nic ev s1)))"

definition net_arp_resolve :: "'d nic \<Rightarrow> bytes \<Rightarrow> ('d \<Rightarrow> 'd) list \<Rightarrow> 'd net \<Rightarrow> (bytes option \<times> ('d \<Rightarrow> 'd) list \<times> 'd net) option" where
  "net_arp_resolve nic ip evs s =
     (case net_arp_lookup ip (net_link s) of
        Some mac \<Rightarrow> Some (Some mac, evs, s)
      | None \<Rightarrow> arp_wait nic ip (net_tick (net_link s)) (net_tick (net_link s)) evs (upd_link (net_send_arp_request nic ip) s))"

definition ping_frame :: "bytes \<Rightarrow> bytes \<Rightarrow> u16 \<Rightarrow> 'd link \<Rightarrow> bytes" where
  "ping_frame dst_ip dst_mac sq k =
     (let payload = map of_nat [0..<32];
          ic = \<lparr>ic_type = 8, ic_code = 0, ic_checksum = 0, ic_ident = htons 0x1234, ic_seq = htons sq\<rparr>;
          icmp = icmp_bytes (ic\<lparr>ic_checksum := ip_checksum (icmp_bytes ic @ payload)\<rparr>) @ payload;
          h = \<lparr>ip_ihl_ver = 0x45, ip_tos = 0, ip_total_len = htons (20 + 8 + 32), ip_ident = htons sq,
            ip_frag_off = 0, ip_ttl = 64, ip_protocol = 1, ip_check = 0, ip_src = net_ip k, ip_dst = dst_ip\<rparr>
      in ip_frame dst_mac (e1000_mac k) (ipv4_bytes (h\<lparr>ip_check := ip_checksum (ipv4_bytes h)\<rparr>) @ icmp))"

fun ping_wait :: "'d nic \<Rightarrow> u16 \<Rightarrow> u64 \<Rightarrow> ('d \<Rightarrow> 'd) list \<Rightarrow> 'd net \<Rightarrow> (bool \<times> ('d \<Rightarrow> 'd) list \<times> 'd net) option" where
  "ping_wait nic sq start evs s =
     (if \<not> net_tick (net_link s) - start < TIMER_HZ * 3 then Some (False, evs, s)
      else if g_icmp_echo_seq (net_link s) = sq then Some (True, evs, s)
      else (case evs of
              [] \<Rightarrow> None
            | ev # evs' \<Rightarrow> ping_wait nic sq start evs' (net_irq nic ev s)))"

definition net_ping_one :: "'d nic \<Rightarrow> bytes \<Rightarrow> bytes \<Rightarrow> u16 \<Rightarrow> ('d \<Rightarrow> 'd) list \<Rightarrow> 'd net \<Rightarrow> (bool \<times> ('d \<Rightarrow> 'd) list \<times> 'd net) option" where
  "net_ping_one nic dst_ip dst_mac sq evs s =
     (let s1 = upd_link (\<lambda>k. snd (send_frame nic (ping_frame dst_ip dst_mac sq k) (k\<lparr>g_icmp_echo_seq := 0\<rparr>))) s
      in ping_wait nic sq (net_tick (net_link s1)) evs s1)"

fun ping_loop :: "nat \<Rightarrow> nat \<Rightarrow> 'd nic \<Rightarrow> bytes \<Rightarrow> bytes \<Rightarrow> int \<Rightarrow> ('d \<Rightarrow> 'd) list \<Rightarrow> 'd net \<Rightarrow> (int \<times> ('d \<Rightarrow> 'd) list \<times> 'd net) option" where
  "ping_loop 0 i nic ip mac ok evs s = Some (ok, evs, s)"
| "ping_loop (Suc k) i nic ip mac ok evs s =
     (case net_ping_one nic ip mac (of_nat (i + 1)) evs s of
        None \<Rightarrow> None
      | Some (r, evs', s') \<Rightarrow> ping_loop k (i + 1) nic ip mac (if r then ok + 1 else ok) evs' s')"

definition kernel_net_ping :: "'d nic \<Rightarrow> bytes \<Rightarrow> int \<Rightarrow> ('d \<Rightarrow> 'd) list \<Rightarrow> 'd net \<Rightarrow> (int \<times> ('d \<Rightarrow> 'd) list \<times> 'd net) option" where
  "kernel_net_ping nic ip count evs s =
     (if \<not> e1000_up (net_link s) then Some (-1, evs, s)
      else case net_arp_resolve nic ip evs s of
        None \<Rightarrow> None
      | Some (None, evs', s') \<Rightarrow> Some (-2, evs', s')
      | Some (Some mac, evs', s') \<Rightarrow> ping_loop (nat count) 0 nic ip mac 0 evs' s')"

section \<open>Configuration\<close>

definition kernel_net_apply_config :: "u32 \<Rightarrow> u32 \<Rightarrow> u32 \<Rightarrow> 'd net \<Rightarrow> 'd net" where
  "kernel_net_apply_config ip4 gw4 dns4 s =
     (let s1 = upd_link (\<lambda>k. k\<lparr>net_ip := be32_bytes ip4, net_gw := (if gw4 \<noteq> 0 then be32_bytes gw4 else net_gw k)\<rparr>) s;
          s2 = s1\<lparr>nt_tcp := tcp_set_output True ip4 (nt_tcp s1), nt_udp := udp_set_local_ip ip4 (nt_udp s1)\<rparr>
      in if dns4 \<noteq> 0 then s2\<lparr>nt_udp := dns_set_server dns4 (nt_udp s2)\<rparr> else s2)"

definition kernel_net_available :: "'d net \<Rightarrow> bool" where
  "kernel_net_available s = e1000_up (net_link s)"

definition kernel_net_get_ip :: "'d net \<Rightarrow> bytes" where
  "kernel_net_get_ip s = net_ip (net_link s)"

definition kernel_net_get_mac :: "'d net \<Rightarrow> bytes" where
  "kernel_net_get_mac s = e1000_mac (net_link s)"

text \<open>The part of the boot that starts the protocols.\<close>

definition net_boot :: "'d nic \<Rightarrow> 'd net \<Rightarrow> 'd net" where
  "net_boot nic s =
     (let s1 = s\<lparr>nt_tcp := tcp_init (nt_tcp s)\<rparr> in
      if \<not> e1000_up (net_link s) then s1
      else let lip = be32_of (net_ip (net_link s))
        in s1\<lparr>nt_tcp := tcp_set_output True lip (nt_tcp s1),
              nt_udp := dns_set_server 0x0A000203 (udp_set_output (Some (net_udp_ip_output nic)) lip (udp_init (nt_udp s1)))\<rparr>)"

declare arp_wait.simps [simp del] ping_wait.simps [simp del]

section \<open>Headers on the wire\<close>

lemma htons_t_htons: "htons = t_htons"
  by (simp add: fun_eq_iff htons_def t_htons_def)

lemma htons_twice [simp]: "htons (htons h) = h"
  by (simp add: htons_t_htons)

lemma eth_of_bytes:
  "length (eth_dst h) = 6 \<Longrightarrow> length (eth_src h) = 6 \<Longrightarrow> eth_of (eth_bytes h @ p) = h"
  by (cases h) (simp add: eth_of_def eth_bytes_def le16_of_append)

lemma arp_of_bytes:
  "length (ar_sha a) = 6 \<Longrightarrow> length (ar_spa a) = 4 \<Longrightarrow> length (ar_tha a) = 6 \<Longrightarrow> length (ar_tpa a) = 4 \<Longrightarrow> arp_of (arp_bytes a @ p) = a"
  by (cases a) (simp add: arp_of_def arp_bytes_def le16_of_append nth_append)

lemma ipv4_of_bytes:
  "length (ip_src h) = 4 \<Longrightarrow> length (ip_dst h) = 4 \<Longrightarrow> ipv4_of (ipv4_bytes h @ p) = h"
  by (cases h) (simp add: ipv4_of_def ipv4_bytes_def le16_of_append nth_append)

lemma length_headers:
  "length (eth_dst e) = 6 \<Longrightarrow> length (eth_src e) = 6 \<Longrightarrow> length (eth_bytes e) = 14"
  "length (ip_src h) = 4 \<Longrightarrow> length (ip_dst h) = 4 \<Longrightarrow> length (ipv4_bytes h) = 20"
  "length (ar_sha a) = 6 \<Longrightarrow> length (ar_spa a) = 4 \<Longrightarrow> length (ar_tha a) = 6 \<Longrightarrow> length (ar_tpa a) = 4 \<Longrightarrow> length (arp_bytes a) = 28"
  by (simp_all add: eth_bytes_def ipv4_bytes_def arp_bytes_def)

lemma length_bcast [simp]: "length net_bcast_mac = 6"
  by (simp add: net_bcast_mac_def)

text \<open>A frame that the output functions build is taken apart into exactly its parts.\<close>

lemma dispatch_ip:
  fixes proto :: u8 and tick :: u64 and s :: "'d net"
  assumes "length mac = 6" "length own = 6" "length src = 4" "length dst = 4" "length seg \<le> 65515"
  defines "f \<equiv> ip_frame mac own (ip_packet proto src dst seg tick)"
  defines "s1 \<equiv> upd_link (net_arp_cache_insert src own) s"
  shows "net_dispatch_frame nic f s =
     (if proto = 1 \<and> length seg \<ge> 8 then
        (if ic_type (icmp_of seg) = 0 then upd_link (\<lambda>k. k\<lparr>g_icmp_echo_seq := htons (ic_seq (icmp_of seg))\<rparr>) s1 else s1)
      else if proto = 6 then
        tcp_flush nic (s1\<lparr>nt_tcp := tcp_receive_packet (ucast (net_tick (net_link s1))) (be32_of src) seg (nt_tcp s1)\<rparr>)
      else if proto = 17 then s1\<lparr>nt_udp := udp_receive_packet (be32_of src) (be32_of dst) seg (nt_udp s1)\<rparr>
      else s1)"
proof -
  let ?e = "\<lparr>eth_dst = mac, eth_src = own, ethertype = htons 0x0800\<rparr>"
  let ?h = "\<lparr>ip_ihl_ver = 0x45, ip_tos = 0, ip_total_len = htons (of_nat (20 + length seg)), ip_ident = htons (ucast tick),
            ip_frag_off = 0, ip_ttl = 64, ip_protocol = proto, ip_check = 0, ip_src = src, ip_dst = dst\<rparr>"
  let ?hc = "?h\<lparr>ip_check := ip_checksum (ipv4_bytes ?h)\<rparr>"
  have f: "f = eth_bytes ?e @ ipv4_bytes ?hc @ seg" by (simp add: f_def ip_frame_def ip_packet_def Let_def)
  have len: "length (eth_bytes ?e) = 14" "length (ipv4_bytes ?hc) = 20" using assms(1-4) by (simp_all add: length_headers)
  have eth: "eth_of f = ?e" unfolding f using assms(1,2) by (simp add: eth_of_bytes)
  have ip: "ipv4_of (drop 14 f) = ?hc" unfolding f using assms(3,4) len(1) by (simp add: ipv4_of_bytes)
  have body: "drop 34 f = seg" "length f = 34 + length seg" unfolding f using len by simp_all
  have tot: "unat (htons (ip_total_len ?hc)) = 20 + length seg" using assms(5) by (simp add: unat_of_nat take_bit_nat_eq_self_iff del: of_nat_add)
  have ihl: "unat ((0x45 :: u8) AND 0x0F) * 4 = 20" by simp
  show ?thesis unfolding net_dispatch_frame_def Let_def eth ip tot body(2) s1_def using body(1) ihl
    by (simp add: ihl)
qed


section \<open>Header checksum\<close>

lemma ip_checksum_eq:
  assumes "length p \<le> 65535" "0 < word_sum p"
  shows "\<exists>f. f < 65536 \<and> 0 < f \<and> f mod 65535 = word_sum p mod 65535 \<and> ip_checksum p = htons (of_nat (65535 - f))"
proof -
  have "(length p + 1) div 2 \<le> 32768" using assms(1) by simp
  then have "word_sum p \<le> 65535 * 32768" using word_sum_bound [of p] mult_le_mono2 order_trans by blast
  then have loop: "unat (checksum_loop 0 p) = word_sum p" using checksum_loop_sum [of 0 p] by simp
  define w where "w = fold_carry (checksum_loop 0 p)"
  have f: "unat w < 65536" "unat w mod 65535 = word_sum p mod 65535" "0 < unat w"
    using fold_carry_correct [of "checksum_loop 0 p"] loop assms(2) by (auto simp: w_def)
  have "ucast (NOT w) = (NOT (ucast w) :: u16)" by (rule bit_word_eqI) (auto simp: bit_simps)
  also have "\<dots> = - 1 - of_nat (unat w)" by (simp add: not_eq_complement)
  also have "\<dots> = of_nat (65535 - unat w)" using f(1) by (simp add: of_nat_diff)
  finally have "ip_checksum p = htons (of_nat (65535 - unat w))" by (simp add: ip_checksum_def w_def)
  with f show ?thesis by blast
qed

lemma ip_checksum_verifies:
  assumes "even (length pre)" "length pre + 2 + length post \<le> 65535" "0 < word_sum (pre @ [0, 0] @ post)"
  shows "ip_checksum (pre @ le16_bytes (ip_checksum (pre @ [0, 0] @ post)) @ post) = 0"
proof -
  let ?z = "pre @ [0, 0] @ post" and ?c = "le16_bytes (ip_checksum (pre @ [0, 0] @ post))"
  obtain f where f: "f < 65536" "0 < f" "f mod 65535 = word_sum ?z mod 65535" "ip_checksum ?z = htons (of_nat (65535 - f))"
    using ip_checksum_eq [of ?z] assms by auto
  have ws: "word_sum ?c = 65535 - f" unfolding f(4) htons_t_htons htons_bytes word_sum_be16 unat_of_nat using f(1) by simp
  have s: "word_sum (pre @ ?c @ post) = word_sum ?z + (65535 - f)"
    using word_sum_append [OF assms(1)] word_sum_append [of ?c post] by (simp add: ws [simplified])
  obtain g where g: "g < 65536" "0 < g" "g mod 65535 = word_sum (pre @ ?c @ post) mod 65535" "ip_checksum (pre @ ?c @ post) = htons (of_nat (65535 - g))"
    using ip_checksum_eq [of "pre @ ?c @ post"] assms s by auto
  have "g mod 65535 = (f mod 65535 + (65535 - f)) mod 65535" unfolding g(3) s f(3) by (simp add: mod_add_left_eq)
  also have "\<dots> = 0" using f(1) by (cases "f = 65535") auto
  finally have "g = 65535" using g(1,2) by auto
  then show ?thesis unfolding g(4) by (simp add: htons_def)
qed

section \<open>The address cache\<close>

text \<open>No entry is ever invalidated: the valid ones come first, and no address has two.\<close>

definition arp_inv :: "ArpEntry list \<Rightarrow> bool" where
  "arp_inv c \<longleftrightarrow> length c = NET_ARP_CACHE \<and> (\<forall>i < NET_ARP_CACHE. \<forall>j < i. ae_valid (c ! i) \<longrightarrow> ae_valid (c ! j) \<and> ae_ip (c ! j) \<noteq> ae_ip (c ! i))"

lemma arp_insert_inv:
  assumes "arp_inv (arp_cache k)"
  shows "arp_inv (arp_cache (net_arp_cache_insert ip mac k))"
proof (cases "find_slot (arp_usable ip) (arp_cache k)")
  case None
  with assms show ?thesis by (simp add: net_arp_cache_insert_def)
next
  case (Some n)
  let ?c = "arp_cache k" and ?e = "\<lparr>ae_ip = ip, ae_mac = mac, ae_valid = True\<rparr>"
  have n: "n < 8" "\<not> ae_valid (?c ! n) \<or> ae_ip (?c ! n) = ip" "\<forall>j < n. ae_valid (?c ! j) \<and> ae_ip (?c ! j) \<noteq> ip" "length ?c = 8"
    using Some assms by (auto simp: find_slot_Some_iff arp_inv_def arp_usable_def)
  have "ae_valid (?c[n := ?e] ! j) \<and> ae_ip (?c[n := ?e] ! j) \<noteq> ae_ip (?c[n := ?e] ! i)"
    if "i < 8" "j < i" "ae_valid (?c[n := ?e] ! i)" for i j
  proof -
    have old: "ae_valid (?c ! j) \<and> ae_ip (?c ! j) \<noteq> ae_ip (?c ! i)" if "i \<noteq> n"
      using assms \<open>i < 8\<close> \<open>j < i\<close> \<open>ae_valid (?c[n := ?e] ! i)\<close> that by (simp add: arp_inv_def)
    consider "i = n" | "j = n" "i \<noteq> n" | "i \<noteq> n" "j \<noteq> n" by blast
    then show ?thesis
    proof cases
      case 2
      then have "ae_ip (?c ! n) \<noteq> ae_ip (?c ! i)" "ae_valid (?c ! n)" using old by auto
      with n(2) 2 n(1,4) show ?thesis by simp
    qed (use n(3) n(1,4) old that in \<open>simp_all add: arp_inv_def\<close>)
  qed
  then show ?thesis using n(4) by (simp add: net_arp_cache_insert_def Some arp_inv_def)
qed

lemma arp_lookup_insert:
  assumes "arp_inv (arp_cache k)" "find_slot (arp_usable ip) (arp_cache k) \<noteq> None"
  shows "net_arp_lookup ip (net_arp_cache_insert ip mac k) = Some mac"
proof -
  obtain n where n: "find_slot (arp_usable ip) (arp_cache k) = Some n" using assms(2) by blast
  then have b: "n < 8" "length (arp_cache k) = 8" "\<forall>j < n. ae_valid (arp_cache k ! j) \<and> ae_ip (arp_cache k ! j) \<noteq> ip"
    using assms(1) by (auto simp: find_slot_Some_iff arp_inv_def arp_usable_def)
  then have "find_slot (\<lambda>e. ae_valid e \<and> ae_ip e = ip) ((arp_cache k)[n := \<lparr>ae_ip = ip, ae_mac = mac, ae_valid = True\<rparr>]) = Some n"
    by (auto simp: find_slot_Some_iff)
  with b show ?thesis by (simp add: net_arp_lookup_def net_arp_cache_insert_def n)
qed

lemma upd_link_simps [simp]:
  "net_link (upd_link f n) = f (net_link n)" "nt_tcp (upd_link f n) = nt_tcp n"
  "g_socks (nt_udp (upd_link f n)) = g_socks (nt_udp n)"
  by (simp_all add: upd_link_def)

lemma send_frame_keeps [simp]:
  "arp_cache (snd (send_frame nic f k)) = arp_cache k" "net_ip (snd (send_frame nic f k)) = net_ip k"
  "e1000_mac (snd (send_frame nic f k)) = e1000_mac k"
  by (simp_all add: send_frame_def split: prod.split)

lemma arp_request_keeps [simp]: "arp_cache (net_send_arp_request nic ip k) = arp_cache k"
  by (simp add: net_send_arp_request_def)

lemma tcp_output_keeps [simp]: "arp_cache (snd (net_tcp_ip_output nic ip seg k)) = arp_cache k"
  by (simp add: net_tcp_ip_output_def Let_def split: option.split)

lemma tcp_flush_arp [simp]: "arp_cache (net_link (tcp_flush nic s)) = arp_cache (net_link s)"
proof -
  have "arp_cache (fold (\<lambda>(ip, seg) k. snd (net_tcp_ip_output nic ip seg k)) w k) = arp_cache k" for w and k :: "'a link"
    by (induction w arbitrary: k) auto
  then show ?thesis by (simp add: tcp_flush_def upd_link_def)
qed


section \<open>Properties of the link\<close>

lemma udp_upd_link [simp]:
  "udp_inv (nt_udp (upd_link f b)) = udp_inv (nt_udp b)" "bound_to j p (nt_udp (upd_link f b)) = bound_to j p (nt_udp b)"
  "udp_queue j (nt_udp (upd_link f b)) = udp_queue j (nt_udp b)"
  by (simp_all add: upd_link_def udp_inv_def bound_to_def udp_queue_def)

text \<open>
  Property C6: a datagram crosses two machines. With a card that sends what it is given and the address of the
  next hop in the cache (or a broadcast), \<open>udp_sendto\<close> returns 0 and hands the card one Ethernet frame, and
  a machine that receives this frame appends, while its queue has room, exactly the payload with the
  sender's address and port to the queue of the socket on the destination port: the Ethernet, IP and UDP
  headers that one side builds are the ones the other side reads.
\<close>

theorem udp_over_ethernet:
  assumes card: "\<forall>f d. length f \<le> E1000_PKT_SIZE \<longrightarrow> nic_send nic f d = (0, d @ [f])"
    and sender: "udp.g_ip_output a = Some (net_udp_ip_output nic)" "bound_to i p a" "e1000_up (udp_net a)" "length (e1000_mac (udp_net a)) = 6"
    and hop: "dip = 0xFFFFFFFF \<and> p \<noteq> 68 \<or> dip \<noteq> 0xFFFFFFFF \<and> net_arp_lookup (next_hop (be32_bytes dip) (udp_net a)) (udp_net a) = Some mac \<and> length mac = 6"
    and payload: "length m \<le> UDP_MAX_PAYLOAD"
    and receiver: "udp_inv (nt_udp b)" "bound_to j dp (nt_udp b)"
  shows "\<exists>f. udp_sendto (int i) dip dp m (int (length m)) a = (0, a\<lparr>udp_net := (udp_net a)\<lparr>net_card := net_card (udp_net a) @ [f]\<rparr>\<rparr>)
    \<and> udp_queue j (nt_udp (net_dispatch_frame nic f b)) = take UDP_RX_QUEUE (udp_queue j (nt_udp b) @ [(udp.g_local_ip a, p, m)])"
proof -
  let ?k = "udp_net a" and ?seg = "udp_segment p dp m" and ?ip = "udp.g_local_ip a"
  obtain mac' where mac': "(if dip = 0xFFFFFFFF then Some net_bcast_mac else net_arp_lookup (next_hop (be32_bytes dip) ?k) ?k) = Some mac'" "length mac' = 6"
    using hop by (metis length_bcast)
  define f where "f = ip_frame mac' (e1000_mac ?k) (ip_packet 17 (be32_bytes ?ip) (be32_bytes dip) ?seg (net_tick ?k))"
  have seg: "length ?seg = 8 + length m" by (simp add: udp_segment_parts)
  have "length f \<le> 2048" using sender(4) mac'(2) payload seg
    by (simp add: f_def ip_frame_def ip_packet_def Let_def length_headers)
  then have "net_udp_ip_output nic ?ip dip ?seg ?k = (0, ?k\<lparr>net_card := net_card ?k @ [f]\<rparr>)"
    using card sender(3) payload seg mac'(1) by (simp add: net_udp_ip_output_def Let_def send_frame_def f_def [symmetric])
  moreover have "\<not> (dip = 0xFFFFFFFF \<and> p = 68)" using hop by blast
  ultimately have send: "udp_sendto (int i) dip dp m (int (length m)) a = (0, a\<lparr>udp_net := ?k\<lparr>net_card := net_card ?k @ [f]\<rparr>\<rparr>)"
    using sender(1,2) payload by (auto simp: udp_sendto_def sock_valid_def bound_to_def Let_def)
  have "length ?seg \<le> 65515" using seg payload by simp
  then have "nt_udp (net_dispatch_frame nic f b)
      = udp_receive_packet ?ip dip ?seg (nt_udp (upd_link (net_arp_cache_insert (be32_bytes ?ip) (e1000_mac ?k)) b))"
    unfolding f_def using mac'(2) sender(4) by (subst dispatch_ip) (simp_all add: encode_decode)
  then show ?thesis using send receive_segment(1) [of "nt_udp (upd_link (net_arp_cache_insert (be32_bytes ?ip) (e1000_mac ?k)) b)" j dp m] receiver payload
    by auto
qed

text \<open>
  Property C17: TCP segments cross two machines. What \<open>net_tcp_ip_output\<close> sends for a segment of TCP is a frame
  that makes the receiving machine call \<open>tcp_receive_packet\<close> with exactly this segment and the sender's
  address, and its IP header has a checksum a receiver can verify.
\<close>

theorem tcp_over_ethernet:
  assumes card: "\<forall>f d. length f \<le> E1000_PKT_SIZE \<longrightarrow> nic_send nic f d = (0, d @ [f])"
    and sender: "e1000_up k" "length (e1000_mac k) = 6" "length (net_ip k) = 4" "net_arp_lookup (next_hop (be32_bytes dip) k) k = Some mac" "length mac = 6"
    and seg: "length seg \<le> TCP_MAX_SEG + 20"
  shows "\<exists>f. net_tcp_ip_output nic dip seg k = (0, k\<lparr>net_card := net_card k @ [f]\<rparr>)
    \<and> nt_tcp (net_dispatch_frame nic f b) = (tcp_receive_packet (ucast (net_tick (net_link b))) (be32_of (net_ip k)) seg (nt_tcp b))\<lparr>tcp_wire := []\<rparr>
    \<and> ip_checksum (take 20 (drop 14 f)) = 0"
proof -
  define f where "f = ip_frame mac (e1000_mac k) (ip_packet 6 (net_ip k) (be32_bytes dip) seg (net_tick k))"
  have "length f \<le> 2048" using sender seg by (simp add: f_def ip_frame_def ip_packet_def Let_def length_headers)
  then have send: "net_tcp_ip_output nic dip seg k = (0, k\<lparr>net_card := net_card k @ [f]\<rparr>)"
    using card sender(1,4) seg by (simp add: net_tcp_ip_output_def Let_def send_frame_def f_def [symmetric])
  have tick: "net_tick (net_arp_cache_insert ip m l) = net_tick l" for ip m and l :: "'a link"
    by (simp add: net_arp_cache_insert_def split: option.split)
  have "length seg \<le> 65515" using seg by simp
  then have recv: "nt_tcp (net_dispatch_frame nic f b)
      = (tcp_receive_packet (ucast (net_tick (net_link b))) (be32_of (net_ip k)) seg (nt_tcp b))\<lparr>tcp_wire := []\<rparr>"
    unfolding f_def using sender(2,3,5) by (subst dispatch_ip) (simp_all add: tcp_flush_def tick)
  let ?pre = "[0x45, 0] @ le16_bytes (htons (of_nat (20 + length seg))) @ le16_bytes (htons (ucast (net_tick k))) @ le16_bytes 0 @ [64, 6]"
  let ?post = "net_ip k @ be32_bytes dip"
  have hdr: "take 20 (drop 14 f) = ?pre @ le16_bytes (ip_checksum (?pre @ [0, 0] @ ?post)) @ ?post"
    using sender(2,3,5) by (simp add: f_def ip_frame_def ip_packet_def Let_def eth_bytes_def ipv4_bytes_def le16_bytes_def)
  have "ip_checksum (take 20 (drop 14 f)) = 0" unfolding hdr
    by (rule ip_checksum_verifies) (simp_all add: sender(3) le16_bytes_def)
  with send recv show ?thesis by blast
qed


definition list_nic :: "bytes list nic" where
  "list_nic = \<lparr>nic_send = \<lambda>f d. (0, d @ [f]), nic_recv = \<lambda>n d. (case d of [] \<Rightarrow> ((0, []), []) | f # fs \<Rightarrow> ((int (length (take n f)), take n f), fs))\<rparr>"

definition demo_link :: "bytes list link" where
  "demo_link = \<lparr>e1000_up = True, e1000_mac = replicate 6 2, net_ip = [10, 0, 2, 15], net_gw = [10, 0, 2, 2],
     arp_cache = \<lparr>ae_ip = [10, 0, 2, 2], ae_mac = replicate 6 9, ae_valid = True\<rparr> # replicate 7 \<lparr>ae_ip = [0, 0, 0, 0], ae_mac = replicate 6 0, ae_valid = False\<rparr>,
     g_icmp_echo_seq = 0, net_tick = 100, net_card = []\<rparr>"

definition demo_hosts :: "bytes list link udp" where
  "demo_hosts = \<lparr>g_socks = replicate 8 zero_socket, g_ip_output = Some (net_udp_ip_output list_nic), g_local_ip = 0x0A00020F,
     g_next_ephemeral = 50000, g_dns_server = 0, udp_net = demo_link\<rparr>"

lemma demo_lookup: "net_arp_lookup (next_hop (be32_bytes 0x08080808) demo_link) demo_link = Some (replicate 6 9)"
  by (simp add: next_hop_def demo_link_def be32_bytes_def net_arp_lookup_def find_slot_def)

theorem udp_over_ethernet_witness:
  "\<forall>tcp. let a = snd (udp_bind 1000 demo_hosts); b = \<lparr>nt_tcp = tcp, nt_udp = snd (udp_bind 53 demo_hosts)\<rparr> in
   \<exists>f. udp_sendto 0 0x08080808 53 [1, 2, 3] 3 a = (0, a\<lparr>udp_net := (udp_net a)\<lparr>net_card := net_card (udp_net a) @ [f]\<rparr>\<rparr>)
    \<and> udp_queue 0 (nt_udp (net_dispatch_frame list_nic f b)) = [(0x0A00020F, 1000, [1, 2, 3])]"
proof
  fix tcp
  let ?a = "snd (udp_bind 1000 demo_hosts)" and ?b = "\<lparr>nt_tcp = tcp, nt_udp = snd (udp_bind 53 demo_hosts)\<rparr>"
  have bind: "udp.g_ip_output (snd (udp_bind q demo_hosts)) = Some (net_udp_ip_output list_nic)"
    "bound_to 0 q (snd (udp_bind q demo_hosts))" "udp_net (snd (udp_bind q demo_hosts)) = demo_link"
    "udp_queue 0 (snd (udp_bind q demo_hosts)) = []" "udp.g_local_ip (snd (udp_bind q demo_hosts)) = 0x0A00020F"
    if "q \<noteq> 0" for q
    using that by (simp_all add: udp_bind_def demo_hosts_def find_slot_def upd_sock_def zero_socket_def bound_to_def
        udp_queue_def sock_queue_def eval_nat_numeral)
  have hosts: "demo_hosts = udp_init demo_hosts" by (simp add: udp_init_def demo_hosts_def)
  have "udp_inv demo_hosts" by (subst hosts, rule udp_init_inv) (simp add: demo_hosts_def)
  then have inv: "udp_inv (nt_udp ?b)" by (simp add: udp_bind_inv)
  have card: "\<forall>f d. length f \<le> 2048 \<longrightarrow> nic_send list_nic f d = (0, d @ [f])" by (simp add: list_nic_def)
  have link: "e1000_up (udp_net ?a)" "length (e1000_mac (udp_net ?a)) = 6" using bind(3) [of 1000] by (simp_all add: demo_link_def)
  have hop: "(0x08080808 :: u32) = 0xFFFFFFFF \<and> (1000 :: u16) \<noteq> 68 \<or> (0x08080808 :: u32) \<noteq> 0xFFFFFFFF
      \<and> net_arp_lookup (next_hop (be32_bytes 0x08080808) (udp_net ?a)) (udp_net ?a) = Some (replicate 6 9) \<and> length (replicate 6 (9 :: u8)) = 6"
    using bind(3) [of 1000] demo_lookup by simp
  from udp_over_ethernet [OF card bind(1) [of 1000] bind(2) [of 1000] link hop, of "[1, 2, 3]" ?b 0 53] inv bind(2) [of 53] bind(4) [of 53] bind(5) [of 1000]
  show "let a = ?a; b = ?b in \<exists>f. udp_sendto 0 0x08080808 53 [1, 2, 3] 3 a = (0, a\<lparr>udp_net := (udp_net a)\<lparr>net_card := net_card (udp_net a) @ [f]\<rparr>\<rparr>)
    \<and> udp_queue 0 (nt_udp (net_dispatch_frame list_nic f b)) = [(0x0A00020F, 1000, [1, 2, 3])]"
    by (simp add: Let_def)
qed

theorem tcp_over_ethernet_witness:
  "\<forall>b. \<exists>f. net_tcp_ip_output list_nic 0x08080808 (replicate 20 7) demo_link = (0, demo_link\<lparr>net_card := [f]\<rparr>)
    \<and> nt_tcp (net_dispatch_frame list_nic f b) = (tcp_receive_packet (ucast (net_tick (net_link b))) 0x0A00020F (replicate 20 7) (nt_tcp b))\<lparr>tcp_wire := []\<rparr>"
proof
  fix b :: "bytes list net"
  have card: "\<forall>f d. length f \<le> 2048 \<longrightarrow> nic_send list_nic f d = (0, d @ [f])" by (simp add: list_nic_def)
  have d: "e1000_up demo_link" "length (e1000_mac demo_link) = 6" "length (net_ip demo_link) = 4" "net_card demo_link = []" "be32_of (net_ip demo_link) = 0x0A00020F"
    by (simp_all add: demo_link_def be32_of_def)
  from tcp_over_ethernet [OF card d(1-3) demo_lookup, of "replicate 20 7" b] d(4,5)
  show "\<exists>f. net_tcp_ip_output list_nic 0x08080808 (replicate 20 7) demo_link = (0, demo_link\<lparr>net_card := [f]\<rparr>)
    \<and> nt_tcp (net_dispatch_frame list_nic f b) = (tcp_receive_packet (ucast (net_tick (net_link b))) 0x0A00020F (replicate 20 7) (nt_tcp b))\<lparr>tcp_wire := []\<rparr>"
    by auto
qed

text \<open>
  Property: address resolution works between two machines. The request that one machine broadcasts for the
  other's address makes the other send one frame, its answer, and this frame, received by the first machine,
  leaves the other's hardware address in the cache, when the cache has a usable entry.
\<close>

theorem arp_exchange:
  assumes card: "\<forall>f d. length f \<le> E1000_PKT_SIZE \<longrightarrow> nic_send nic f d = (0, d @ [f])"
    and a: "length (e1000_mac (net_link a)) = 6" "length (net_ip (net_link a)) = 4" "arp_inv (arp_cache (net_link a))"
      "find_slot (arp_usable (net_ip (net_link b))) (arp_cache (net_link a)) \<noteq> None"
    and b: "length (e1000_mac (net_link b)) = 6" "length (net_ip (net_link b)) = 4"
  shows "\<exists>req ans. net_send_arp_request nic (net_ip (net_link b)) (net_link a) = (net_link a)\<lparr>net_card := net_card (net_link a) @ [req]\<rparr>
    \<and> net_dispatch_frame nic req b = upd_link (\<lambda>k. k\<lparr>net_card := net_card k @ [ans]\<rparr>) b
    \<and> net_arp_lookup (net_ip (net_link b)) (net_link (net_dispatch_frame nic ans a)) = Some (e1000_mac (net_link b))"
proof -
  let ?ka = "net_link a" and ?kb = "net_link b"
  let ?e1 = "\<lparr>eth_dst = net_bcast_mac, eth_src = e1000_mac ?ka, ethertype = htons 0x0806\<rparr>"
  let ?a1 = "\<lparr>ar_htype = htons 1, ar_ptype = htons 0x0800, ar_hlen = 6, ar_plen = 4, ar_oper = htons 1,
     ar_sha = e1000_mac ?ka, ar_spa = net_ip ?ka, ar_tha = replicate 6 0, ar_tpa = net_ip ?kb\<rparr>"
  let ?e2 = "\<lparr>eth_dst = e1000_mac ?ka, eth_src = e1000_mac ?kb, ethertype = htons 0x0806\<rparr>"
  let ?a2 = "\<lparr>ar_htype = htons 1, ar_ptype = htons 0x0800, ar_hlen = 6, ar_plen = 4, ar_oper = htons 2,
     ar_sha = e1000_mac ?kb, ar_spa = net_ip ?kb, ar_tha = e1000_mac ?ka, ar_tpa = net_ip ?ka\<rparr>"
  define req where "req = eth_bytes ?e1 @ arp_bytes ?a1"
  define ans where "ans = eth_bytes ?e2 @ arp_bytes ?a2"
  have len: "length (eth_bytes ?e1) = 14" "length (arp_bytes ?a1) = 28" "length (eth_bytes ?e2) = 14" "length (arp_bytes ?a2) = 28"
    using a b by (simp_all add: length_headers)
  have arp: "arp_of (arp_bytes ?a1) = ?a1" "arp_of (arp_bytes ?a2) = ?a2"
    using arp_of_bytes [of ?a1 "[]"] arp_of_bytes [of ?a2 "[]"] a b by simp_all
  have eth: "eth_of req = ?e1" "eth_of ans = ?e2" using a b by (simp_all add: req_def ans_def eth_of_bytes)
  have ne: "htons 1 \<noteq> (2 :: u16)" "(1 :: u16) \<noteq> 2" by (simp_all add: htons_def)
  have "net_send_arp_request nic (net_ip ?kb) ?ka = ?ka\<lparr>net_card := net_card ?ka @ [req]\<rparr>"
    using card len(1,2) by (simp add: net_send_arp_request_def send_frame_def req_def)
  moreover have "net_handle_arp nic (drop 14 req) ?kb = ?kb\<lparr>net_card := net_card ?kb @ [ans]\<rparr>"
    using card len by (simp add: net_handle_arp_def req_def arp Let_def send_frame_def ans_def)
  then have "net_dispatch_frame nic req b = upd_link (\<lambda>k. k\<lparr>net_card := net_card k @ [ans]\<rparr>) b"
    using len eth by (simp add: net_dispatch_frame_def Let_def upd_link_def) (simp add: req_def)
  moreover have "net_handle_arp nic (drop 14 ans) ?ka = net_arp_cache_insert (net_ip ?kb) (e1000_mac ?kb) ?ka"
    using len by (simp add: net_handle_arp_def ans_def arp Let_def)
  then have "net_link (net_dispatch_frame nic ans a) = net_arp_cache_insert (net_ip ?kb) (e1000_mac ?kb) ?ka"
    using len eth by (simp add: net_dispatch_frame_def Let_def) (simp add: ans_def)
  ultimately show ?thesis using arp_lookup_insert [OF a(3,4), of "e1000_mac ?kb"] by (intro exI [of _ req] exI [of _ ans]) simp
qed

theorem arp_exchange_witness:
  "\<forall>tcp. let a = \<lparr>nt_tcp = tcp, nt_udp = demo_hosts\<rparr>; b = \<lparr>nt_tcp = tcp, nt_udp = demo_hosts\<lparr>udp_net := demo_link\<lparr>net_ip := [10, 0, 2, 3]\<rparr>\<rparr>\<rparr> in
   \<exists>req ans. net_dispatch_frame list_nic req b = upd_link (\<lambda>k. k\<lparr>net_card := net_card k @ [ans]\<rparr>) b
    \<and> net_arp_lookup [10, 0, 2, 3] (net_link (net_dispatch_frame list_nic ans a)) = Some (replicate 6 2)"
proof
  fix tcp
  let ?a = "\<lparr>nt_tcp = tcp, nt_udp = demo_hosts\<rparr>" and ?b = "\<lparr>nt_tcp = tcp, nt_udp = demo_hosts\<lparr>udp_net := demo_link\<lparr>net_ip := [10, 0, 2, 3]\<rparr>\<rparr>\<rparr>"
  have card: "\<forall>f d. length f \<le> 2048 \<longrightarrow> nic_send list_nic f d = (0, d @ [f])" by (simp add: list_nic_def)
  have inv: "arp_inv (arp_cache demo_link)" by (auto simp: arp_inv_def demo_link_def nth_Cons' split: if_splits)
  have slot: "find_slot (arp_usable [10, 0, 2, 3]) (arp_cache demo_link) \<noteq> None"
    by (simp add: find_slot_None_iff demo_link_def arp_usable_def)
  from arp_exchange [OF card, of ?a ?b] inv slot
  show "let a = ?a; b = ?b in \<exists>req ans. net_dispatch_frame list_nic req b = upd_link (\<lambda>k. k\<lparr>net_card := net_card k @ [ans]\<rparr>) b
    \<and> net_arp_lookup [10, 0, 2, 3] (net_link (net_dispatch_frame list_nic ans a)) = Some (replicate 6 2)"
    by (auto simp: Let_def demo_hosts_def demo_link_def)
qed

text \<open>
  Property: a full address cache is final. Once all eight entries are taken by other addresses, an address
  is never learned any more: whatever frames arrive, looking it up fails, so that every datagram and segment
  for it is dropped. Any packet with a new source address takes an entry, no entry is ever given up.
\<close>

theorem arp_cache_full_is_final:
  assumes "list_all (\<lambda>e. ae_valid e \<and> ae_ip e \<noteq> ip) (arp_cache (net_link s))"
  shows "net_arp_lookup ip (net_link (fold (net_dispatch_frame nic) frames s)) = None"
proof -
  let ?P = "\<lambda>e. ae_valid e \<and> ae_ip e \<noteq> ip"
  have ins: "list_all ?P (arp_cache (net_arp_cache_insert ip' mac k))" if "list_all ?P (arp_cache k)" for ip' mac and k :: "'a link"
  proof (cases "find_slot (arp_usable ip') (arp_cache k)")
    case (Some i)
    then have "ae_ip (arp_cache k ! i) = ip'" "?P (arp_cache k ! i)"
      using that by (auto simp: find_slot_Some_iff arp_usable_def list_all_length)
    then show ?thesis using that by (simp add: net_arp_cache_insert_def Some list_all_update)
  qed (simp add: net_arp_cache_insert_def that)
  have arp: "list_all ?P (arp_cache (net_handle_arp nic d k))" if "list_all ?P (arp_cache k)" for d and k :: "'a link"
    using that by (simp add: net_handle_arp_def Let_def ins)
  have disp: "list_all ?P (arp_cache (net_link (net_dispatch_frame nic f n)))" if "list_all ?P (arp_cache (net_link n))" for f and n :: "'a net"
  proof -
    have udp: "udp_net (udp_receive_packet sip dip seg u) = udp_net u" for sip dip seg and u :: "'a link udp"
      by (simp add: udp_receive_packet_def Let_def upd_sock_def split: option.split)
    show ?thesis using that by (simp add: net_dispatch_frame_def Let_def arp ins udp)
  qed
  have "list_all ?P (arp_cache (net_link (fold (net_dispatch_frame nic) frames s)))"
    using assms by (induction frames arbitrary: s) (simp_all add: disp)
  then have "find_slot (\<lambda>e. ae_valid e \<and> ae_ip e = ip) (arp_cache (net_link (fold (net_dispatch_frame nic) frames s))) = None"
    by (auto simp: find_slot_None_iff list_all_iff)
  then show ?thesis by (simp add: net_arp_lookup_def)
qed

definition full_link :: "bytes list link" where
  "full_link = demo_link\<lparr>arp_cache := map (\<lambda>i. \<lparr>ae_ip = [8, 8, 8, of_nat i], ae_mac = replicate 6 9, ae_valid = True\<rparr>) [0..<8]\<rparr>"

theorem arp_cache_full_is_final_witness:
  "\<forall>tcp frames. net_arp_lookup [10, 0, 2, 2] (net_link (fold (net_dispatch_frame list_nic) frames \<lparr>nt_tcp = tcp, nt_udp = demo_hosts\<lparr>udp_net := full_link\<rparr>\<rparr>)) = None"
proof (intro allI)
  fix tcp frames
  have "list_all (\<lambda>e. ae_valid e \<and> ae_ip e \<noteq> [10, 0, 2, 2]) (arp_cache (net_link \<lparr>nt_tcp = tcp, nt_udp = demo_hosts\<lparr>udp_net := full_link\<rparr>\<rparr>))"
    by (simp add: full_link_def list_all_iff)
  then show "net_arp_lookup [10, 0, 2, 2] (net_link (fold (net_dispatch_frame list_nic) frames \<lparr>nt_tcp = tcp, nt_udp = demo_hosts\<lparr>udp_net := full_link\<rparr>\<rparr>)) = None"
    by (rule arp_cache_full_is_final)
qed

end
