(* ===== verification/Block_Device.thy ===== *)
theory Block_Device
  imports Vernis_Prelude
begin

text \<open>
  The disk interface of the file systems: \<open>vfs_disk_read_fn\<close> and \<open>vfs_disk_write_fn\<close> of
  \<open>src/include/vernisfs.h\<close>, pointers through which VernisFS, the block cache, FAT32 and ext2 reach
  sectors. The drivers behind them (ATA PIO, AHCI, NVMe) talk to hardware and are a parameter of the
  model: a pair of functions on a driver state \<open>'d\<close>. A read receives the buffer it may fill and
  returns the C result code with the buffer; a write returns the code.

  The locale \<open>block_device\<close> is what the clients rely on, over a view of the medium as a
  function from sector numbers to 512 bytes; \<open>reliable_device\<close> adds that writes succeed, \<open>flawless_device\<close> that reads do too.
\<close>

abbreviation SECTOR_SIZE :: nat where "SECTOR_SIZE \<equiv> 512"

record 'd disk_ops =
  disk_read :: "u32 \<Rightarrow> u8 \<Rightarrow> bytes \<Rightarrow> 'd \<Rightarrow> (int \<times> bytes) \<times> 'd"
  disk_write :: "u32 \<Rightarrow> u8 \<Rightarrow> bytes \<Rightarrow> 'd \<Rightarrow> int \<times> 'd"

type_synonym medium = "u32 \<Rightarrow> bytes"

section \<open>Runs of sectors and copies into buffers\<close>

definition sectors :: "medium \<Rightarrow> u32 \<Rightarrow> nat \<Rightarrow> bytes" where
  "sectors v lba n = concat (map (\<lambda>i. v (lba + of_nat i)) [0..<n])"

definition sector_range :: "u32 \<Rightarrow> nat \<Rightarrow> u32 set" where
  "sector_range lba n = (\<lambda>i. lba + of_nat i) ` {..<n}"

text \<open>\<open>memcpy (buf + off, data)\<close> and the \<open>i\<close>-th sector of a buffer.\<close>

definition blit :: "'a list \<Rightarrow> nat \<Rightarrow> 'a list \<Rightarrow> 'a list" where
  "blit buf off data = take off buf @ data @ drop (off + length data) buf"

definition chunk :: "'a list \<Rightarrow> nat \<Rightarrow> 'a list" where
  "chunk buf i = take SECTOR_SIZE (drop (i * SECTOR_SIZE) buf)"

lemma length_blit [simp]: "off + length data \<le> length buf \<Longrightarrow> length (blit buf off data) = length buf"
  by (simp add: blit_def)

lemma take_blit: "off + length data \<le> length buf \<Longrightarrow> take off (blit buf off data) = take off buf"
  by (simp add: blit_def)

lemma take_blit_end: "off + length data \<le> length buf \<Longrightarrow> take (off + length data) (blit buf off data) = take off buf @ data"
  by (simp add: blit_def)

lemma drop_blit_end: "off + length data \<le> length buf \<Longrightarrow> drop (off + length data) (blit buf off data) = drop (off + length data) buf"
  by (simp add: blit_def)

lemma blit_0: "blit buf 0 data = data @ drop (length data) buf"
  by (simp add: blit_def)

lemma length_chunk: "(i + 1) * SECTOR_SIZE \<le> length buf \<Longrightarrow> length (chunk buf i) = SECTOR_SIZE"
  by (simp add: chunk_def)

lemma sectors_0 [simp]: "sectors v lba 0 = []"
  by (simp add: sectors_def)

lemma sectors_Suc: "sectors v lba (Suc n) = sectors v lba n @ v (lba + of_nat n)"
  by (simp add: sectors_def)

lemma sectors_append: "sectors v lba (m + n) = sectors v lba m @ sectors v (lba + of_nat m) n"
  by (induction n) (simp_all add: sectors_Suc add.assoc)

lemma sectors_1 [simp]: "sectors v lba (Suc 0) = v lba" "sectors v lba 1 = v lba"
  by (simp_all add: sectors_def)

lemma length_sectors: "(\<And>x. length (v x) = SECTOR_SIZE) \<Longrightarrow> length (sectors v lba n) = n * SECTOR_SIZE"
  by (induction n) (simp_all add: sectors_Suc)

lemma sectors_cong:
  "(\<And>x. x \<in> sector_range lba n \<Longrightarrow> v x = w x) \<Longrightarrow> sectors v lba n = sectors w lba n"
  unfolding sectors_def by (rule arg_cong [where f = concat]) (auto simp: sector_range_def intro!: map_cong)

lemma chunk_sectors:
  assumes "\<And>x. length (v x) = SECTOR_SIZE" "i < n"
  shows "chunk (sectors v lba n) i = v (lba + of_nat i)"
  using assms(2)
proof (induction n)
  case (Suc n)
  have len: "length (sectors v lba n) = n * 512" using assms(1) by (simp add: length_sectors)
  show ?case
  proof (cases "i = n")
    case True
    then show ?thesis using assms(1) len by (simp add: chunk_def sectors_Suc)
  next
    case False
    then have "i < n" using Suc.prems by simp
    then have "i * 512 + 512 \<le> n * 512" by simp
    then have "chunk (sectors v lba (Suc n)) i = chunk (sectors v lba n) i"
      using len by (simp add: chunk_def sectors_Suc)
    with Suc.IH \<open>i < n\<close> show ?thesis by simp
  qed
qed simp

lemma take_chunks:
  "(n + 1) * SECTOR_SIZE \<le> length buf \<Longrightarrow> take ((n + 1) * SECTOR_SIZE) buf = take (n * SECTOR_SIZE) buf @ chunk buf n"
  using take_add [of "n * 512" 512 buf] by (simp add: chunk_def add.commute)

lemma sectors_eqI:
  assumes "n * SECTOR_SIZE \<le> length data" "\<And>i. i < n \<Longrightarrow> v (lba + of_nat i) = chunk data i"
  shows "sectors v lba n = take (n * SECTOR_SIZE) data"
  using assms
proof (induction n)
  case (Suc n)
  have "sectors v lba n = take (n * 512) data" using Suc.prems by (intro Suc.IH) auto
  then show ?case using Suc.prems take_chunks [of n data] by (simp add: sectors_Suc)
qed simp

lemma sector_index_inj:
  assumes "lba + of_nat i = lba + (of_nat j :: u32)" "i < 2 ^ 32" "j < 2 ^ 32"
  shows "i = j"
proof -
  have "(of_nat i :: u32) = of_nat j" using assms(1) by simp
  then have "unat (of_nat i :: u32) = unat (of_nat j :: u32)" by simp
  with assms(2,3) show ?thesis by (simp add: unat_of_nat)
qed

lemma sector_range_Suc: "sector_range lba (Suc n) = insert (lba + of_nat n) (sector_range lba n)"
  by (auto simp: sector_range_def lessThan_Suc)

lemma sector_range_1 [simp]: "sector_range lba (Suc 0) = {lba}" "sector_range lba 0 = {}"
  by (simp_all add: sector_range_def lessThan_Suc)

lemma count_byte_bound: "unat (n :: u8) < 256"
  using unsigned_less [of n, where ?'a = nat] by simp

section \<open>The interface\<close>

locale block_device =
  fixes ops :: "'d disk_ops"
    and dinv :: "'d \<Rightarrow> bool"
    and view :: "'d \<Rightarrow> medium"
  assumes view_length: "dinv d \<Longrightarrow> length (view d x) = SECTOR_SIZE"
    and read_keeps: "dinv d \<Longrightarrow> length buf = unat n * SECTOR_SIZE \<Longrightarrow>
        disk_read ops lba n buf d = ((rc, buf'), d') \<Longrightarrow> dinv d' \<and> view d' = view d \<and> length buf' = length buf"
    and read_data: "dinv d \<Longrightarrow> length buf = unat n * SECTOR_SIZE \<Longrightarrow>
        disk_read ops lba n buf d = ((rc, buf'), d') \<Longrightarrow> 0 \<le> rc \<Longrightarrow> buf' = sectors (view d) lba (unat n)"
    and read_fail: "dinv d \<Longrightarrow> length buf = SECTOR_SIZE \<Longrightarrow>
        disk_read ops lba 1 buf d = ((rc, buf'), d') \<Longrightarrow> rc < 0 \<Longrightarrow> buf' = buf"
    and write_keeps: "dinv d \<Longrightarrow> length data = unat n * SECTOR_SIZE \<Longrightarrow>
        disk_write ops lba n data d = (rc, d') \<Longrightarrow> x \<notin> sector_range lba (unat n) \<Longrightarrow> view d' x = view d x"
    and write_inv: "dinv d \<Longrightarrow> length data = unat n * SECTOR_SIZE \<Longrightarrow>
        disk_write ops lba n data d = (rc, d') \<Longrightarrow> dinv d'"
    and write_data: "dinv d \<Longrightarrow> length data = unat n * SECTOR_SIZE \<Longrightarrow>
        disk_write ops lba n data d = (rc, d') \<Longrightarrow> 0 \<le> rc \<Longrightarrow> sectors (view d') lba (unat n) = data"
begin

lemma read_one:
  assumes "dinv d" "length buf = SECTOR_SIZE" "disk_read ops lba 1 buf d = ((rc, buf'), d')"
  shows "dinv d'" "view d' = view d" "buf' = (if rc < 0 then buf else view d lba)" "length buf' = SECTOR_SIZE"
  using assms read_keeps [of d buf 1 lba rc buf' d'] read_data [of d buf 1 lba rc buf' d']
    read_fail [of d buf lba rc buf' d'] by auto

lemma write_one:
  assumes "dinv d" "length data = SECTOR_SIZE" "disk_write ops lba 1 data d = (rc, d')"
  shows "dinv d'" "0 \<le> rc \<Longrightarrow> view d' = (view d)(lba := data)" "x \<noteq> lba \<Longrightarrow> view d' x = view d x"
proof -
  show "dinv d'" using assms write_inv [of d data 1 lba rc d'] by simp
  have other: "view d' x = view d x" if "x \<noteq> lba" for x
    using assms that write_keeps [of d data 1 lba rc d' x] by simp
  then show "x \<noteq> lba \<Longrightarrow> view d' x = view d x" .
  show "view d' = (view d)(lba := data)" if "0 \<le> rc"
    using assms that other write_data [of d data 1 lba rc d'] by (auto simp: fun_eq_iff)
qed

text \<open>Reading back what a successful write stored.\<close>

lemma write_read:
  assumes "dinv d" "length data = unat n * SECTOR_SIZE" "disk_write ops lba n data d = (rc, d1)" "0 \<le> rc"
    and "length buf = unat n * SECTOR_SIZE" "disk_read ops lba n buf d1 = ((rc', buf'), d2)" "0 \<le> rc'"
  shows "buf' = data"
  using assms write_inv write_data [of d data n lba rc d1] read_data [of d1 buf n lba rc' buf' d2] by metis

end

locale reliable_device = block_device +
  assumes write_succeeds: "dinv d \<Longrightarrow> length data = unat n * SECTOR_SIZE \<Longrightarrow> 0 \<le> fst (disk_write ops lba n data d)"

locale flawless_device = reliable_device +
  assumes read_succeeds: "dinv d \<Longrightarrow> length buf = unat n * SECTOR_SIZE \<Longrightarrow> 0 \<le> fst (fst (disk_read ops lba n buf d))"

section \<open>A medium without a driver\<close>

text \<open>
  The disk that holds exactly its sectors: the driver a device without faults looks like. The
  witnesses run on it.
\<close>

definition medium_write :: "u32 \<Rightarrow> nat \<Rightarrow> bytes \<Rightarrow> medium \<Rightarrow> medium" where
  "medium_write lba n data v =
     (\<lambda>x. if unat (x - lba) < n then chunk data (unat (x - lba)) else v x)"

definition ram_ops :: "medium disk_ops" where
  "ram_ops = \<lparr>disk_read = (\<lambda>lba n buf v. ((int (unat n), sectors v lba (unat n)), v)),
     disk_write = (\<lambda>lba n data v. (int (unat n), medium_write lba (unat n) data v))\<rparr>"

definition ram_inv :: "medium \<Rightarrow> bool" where
  "ram_inv v \<longleftrightarrow> (\<forall>x. length (v x) = SECTOR_SIZE)"

lemma medium_write_at: "i < n \<Longrightarrow> n \<le> 256 \<Longrightarrow> medium_write lba n data v (lba + of_nat i) = chunk data i"
  by (simp add: medium_write_def unat_of_nat)

lemma medium_write_other: "x \<notin> sector_range lba n \<Longrightarrow> medium_write lba n data v x = v x"
proof -
  assume x: "x \<notin> sector_range lba n"
  have "x = lba + of_nat (unat (x - lba))" by simp
  with x have "\<not> unat (x - lba) < n" unfolding sector_range_def by (metis imageI lessThan_iff)
  then show ?thesis by (simp add: medium_write_def)
qed

interpretation ram: flawless_device ram_ops ram_inv "\<lambda>v. v"
proof unfold_locales
  fix d d' :: medium and data lba and n :: u8 and rc :: int and x :: u32
  assume d: "ram_inv d" "length data = unat n * 512" "disk_write ram_ops lba n data d = (rc, d')"
  then have d': "d' = medium_write lba (unat n) data d" by (simp add: ram_ops_def)
  show "d' x = d x" if "x \<notin> sector_range lba (unat n)" using that by (simp add: d' medium_write_other)
  show "sectors d' lba (unat n) = data"
    using sectors_eqI [of "unat n" data d' lba] d(2) count_byte_bound [of n]
    by (simp add: d' medium_write_at less_imp_le)
  have "length (chunk data i) = 512" if "i < unat n" for i
    using that d(2) by (intro length_chunk) simp
  with d(1) show "ram_inv d'" by (auto simp: ram_inv_def d' medium_write_def)
qed (auto simp: ram_inv_def ram_ops_def length_sectors)

end
