(* ===== verification/Vernisfs.thy ===== *)
theory Vernisfs
  imports Block_Device
begin

text \<open>
  VernisFS, \<open>src/kernel/fs/vernisfs.c\<close> with \<open>src/include/vernisfs.h\<close>: a superblock, a table of 32
  file entries, contiguous data extents behind it, all at sector 5120 of the disk. The disk operations
  (\<open>g_disk_read\<close>, \<open>g_disk_write\<close>) are the argument \<open>ops\<close> on a driver state, which is the field
  \<open>vfs_disk\<close>; installing the block cache is running the same functions with \<open>bcache_ops\<close>. The ATA
  PIO routines of the file drive hardware ports and are not modelled.

  A buffer argument is the memory from that pointer on. Sizes of type \<open>size_t\<close> are natural numbers, and
  the casts to \<open>uint32_t\<close> and \<open>int\<close> of the source are written out.
\<close>

section \<open>Data\<close>

abbreviation VFS_START_SECTOR :: u32 where "VFS_START_SECTOR \<equiv> 5120"
abbreviation VFS_SUPERBLOCK_SECTOR :: u32 where "VFS_SUPERBLOCK_SECTOR \<equiv> 0"
abbreviation VFS_FILETABLE_SECTOR :: u32 where "VFS_FILETABLE_SECTOR \<equiv> 1"
abbreviation VFS_FILETABLE_SECTORS :: u8 where "VFS_FILETABLE_SECTORS \<equiv> 4"
abbreviation VFS_DATA_SECTOR :: u32 where "VFS_DATA_SECTOR \<equiv> 5"
abbreviation VFS_MAX_FILES :: nat where "VFS_MAX_FILES \<equiv> 32"
abbreviation VFS_MAX_FILENAME :: nat where "VFS_MAX_FILENAME \<equiv> 32"
abbreviation VFS_MAGIC :: u32 where "VFS_MAGIC \<equiv> 0x53465600"

abbreviation VFS_TYPE_EMPTY :: u8 where "VFS_TYPE_EMPTY \<equiv> 0"
abbreviation VFS_TYPE_REGULAR :: u8 where "VFS_TYPE_REGULAR \<equiv> 1"
abbreviation VFS_TYPE_DIRECTORY :: u8 where "VFS_TYPE_DIRECTORY \<equiv> 2"

text \<open>The octal modes 0644, 0755 and 0777.\<close>

abbreviation VFS_MODE_DEFAULT_FILE :: u16 where "VFS_MODE_DEFAULT_FILE \<equiv> 420"
abbreviation VFS_MODE_DEFAULT_DIR :: u16 where "VFS_MODE_DEFAULT_DIR \<equiv> 493"
abbreviation VFS_MODE_MASK :: u16 where "VFS_MODE_MASK \<equiv> 511"

record VfsSuperblock =
  sb_magic :: u32
  sb_version :: u16
  sb_file_count :: u16
  sb_total_data_sectors :: u32
  sb_first_free_sector :: u32
  sb_reserved :: bytes

record VfsFileEntry =
  fe_filename :: "char list"
  fe_start_sector :: u32
  fe_size :: u32
  fe_type :: u8
  fe_flags :: u8
  fe_mode :: u16
  fe_uid :: u16
  fe_gid :: u16
  fe_reserved :: bytes

record 'd vfs =
  g_superblock :: VfsSuperblock
  g_filetable :: "VfsFileEntry list"
  g_vfs_ready :: bool
  vfs_disk :: 'd

text \<open>The packed structs as bytes.\<close>

definition sb_encode :: "VfsSuperblock \<Rightarrow> bytes" where
  "sb_encode sb = le32_bytes (sb_magic sb) @ le16_bytes (sb_version sb) @ le16_bytes (sb_file_count sb)
     @ le32_bytes (sb_total_data_sectors sb) @ le32_bytes (sb_first_free_sector sb) @ sb_reserved sb"

definition sb_decode :: "bytes \<Rightarrow> VfsSuperblock" where
  "sb_decode b = \<lparr>sb_magic = le32_of b, sb_version = le16_of (drop 4 b), sb_file_count = le16_of (drop 6 b),
     sb_total_data_sectors = le32_of (drop 8 b), sb_first_free_sector = le32_of (drop 12 b),
     sb_reserved = take 16 (drop 16 b)\<rparr>"

definition fe_encode :: "VfsFileEntry \<Rightarrow> bytes" where
  "fe_encode e = map byte_of (fe_filename e) @ le32_bytes (fe_start_sector e) @ le32_bytes (fe_size e)
     @ [fe_type e, fe_flags e] @ le16_bytes (fe_mode e) @ le16_bytes (fe_uid e) @ le16_bytes (fe_gid e)
     @ fe_reserved e"

definition fe_decode :: "bytes \<Rightarrow> VfsFileEntry" where
  "fe_decode b = \<lparr>fe_filename = map char_of_byte (take VFS_MAX_FILENAME b), fe_start_sector = le32_of (drop 32 b),
     fe_size = le32_of (drop 36 b), fe_type = b ! 40, fe_flags = b ! 41, fe_mode = le16_of (drop 42 b),
     fe_uid = le16_of (drop 44 b), fe_gid = le16_of (drop 46 b), fe_reserved = take 16 (drop 48 b)\<rparr>"

definition empty_entry :: VfsFileEntry where
  "empty_entry = \<lparr>fe_filename = replicate VFS_MAX_FILENAME NUL, fe_start_sector = 0, fe_size = 0, fe_type = 0,
     fe_flags = 0, fe_mode = 0, fe_uid = 0, fe_gid = 0, fe_reserved = replicate 16 0\<rparr>"

section \<open>Operations\<close>

definition vfs_strcmp :: "char list \<Rightarrow> char list \<Rightarrow> int" where
  "vfs_strcmp = c_strcmp"

definition vfs_strncpy :: "char list \<Rightarrow> nat \<Rightarrow> char list" where
  "vfs_strncpy = c_strncpy0"

definition vfs_init :: "'d disk_ops \<Rightarrow> 'd vfs \<Rightarrow> bool \<times> 'd vfs" where
  "vfs_init ops s =
     (let ((rc, sb_buf), d1) = disk_read ops (VFS_START_SECTOR + VFS_SUPERBLOCK_SECTOR) 1 (replicate 512 0) (vfs_disk s);
          s1 = s\<lparr>vfs_disk := d1\<rparr>
      in if rc < 0 then (False, s1)
         else let sb = sb_decode sb_buf in
           if sb_magic sb \<noteq> VFS_MAGIC then (False, s1)
           else let s2 = s1\<lparr>g_superblock := sb\<rparr>;
                    ((rc', ft_buf), d2) = disk_read ops (VFS_START_SECTOR + VFS_FILETABLE_SECTOR) VFS_FILETABLE_SECTORS
                        (replicate 2048 0) (vfs_disk s2);
                    s3 = s2\<lparr>vfs_disk := d2\<rparr>
             in if rc' < 0 then (False, s3)
                else (True, s3\<lparr>g_filetable := map (\<lambda>i. fe_decode (take 64 (drop (i * 64) ft_buf))) [0..<VFS_MAX_FILES],
                            g_vfs_ready := True\<rparr>))"

definition file_named :: "cstring \<Rightarrow> VfsFileEntry \<Rightarrow> bool" where
  "file_named path e \<longleftrightarrow> fe_type e \<noteq> VFS_TYPE_EMPTY \<and> vfs_strcmp (fe_filename e) path = 0"

definition vfs_find_file :: "cstring \<Rightarrow> 'd vfs \<Rightarrow> nat option" where
  "vfs_find_file path s = (if \<not> g_vfs_ready s then None else find_slot (file_named path) (g_filetable s))"

definition vfs_find_file_mut :: "cstring \<Rightarrow> 'd vfs \<Rightarrow> nat option" where
  "vfs_find_file_mut path s = (if \<not> g_vfs_ready s then None else find_slot (file_named path) (g_filetable s))"

text \<open>
  The chunked read loop of \<open>vfs_read_file\<close>: at most 128 sectors per disk operation.
\<close>

function vfs_read_loop ::
  "'d disk_ops \<Rightarrow> u32 \<Rightarrow> nat \<Rightarrow> nat \<Rightarrow> bytes \<Rightarrow> 'd \<Rightarrow> (bool \<times> bytes) \<times> 'd" where
  "vfs_read_loop ops abs_sector sects done buf d =
     (if done < sects then
        let n = (if sects - done > 128 then 128 else sects - done);
            ((rc, part), d') = disk_read ops (abs_sector + of_nat done) (of_nat n)
               (take (n * 512) (drop (done * 512) buf)) d;
            buf' = blit buf (done * 512) part
        in if rc < 0 then ((False, buf'), d')
           else vfs_read_loop ops abs_sector sects (done + n) buf' d'
      else ((True, buf), d))"
  by pat_completeness auto

termination
  by (relation "measure (\<lambda>(ops, a, sects, k, buf, d). sects - k)") (auto split: if_splits)

definition vfs_read_file :: "'d disk_ops \<Rightarrow> cstring \<Rightarrow> bytes \<Rightarrow> nat \<Rightarrow> 'd vfs \<Rightarrow> (int \<times> bytes) \<times> 'd vfs" where
  "vfs_read_file ops path buf max_len s =
     (case vfs_find_file path s of
        None \<Rightarrow> ((-1, buf), s)
      | Some i \<Rightarrow>
          let entry = g_filetable s ! i;
              size = (if unat (fe_size entry) > max_len then of_nat max_len else fe_size entry);
              sects = (size + 511) div 512;
              sects' = (if sects > 255 then 255 else sects);
              abs_sector = VFS_START_SECTOR + VFS_DATA_SECTOR + fe_start_sector entry;
              ((ok, buf'), d) = vfs_read_loop ops abs_sector (unat sects') 0 buf (vfs_disk s)
          in ((if ok then sint size else -1, buf'), s\<lparr>vfs_disk := d\<rparr>))"

definition table_encode :: "VfsFileEntry list \<Rightarrow> bytes" where
  "table_encode es = concat (map fe_encode es)"

definition vfs_flush_metadata :: "'d disk_ops \<Rightarrow> 'd vfs \<Rightarrow> int \<times> 'd vfs" where
  "vfs_flush_metadata ops s =
     (let (rc, d1) = disk_write ops (VFS_START_SECTOR + VFS_SUPERBLOCK_SECTOR) 1
            (blit (replicate 512 0) 0 (sb_encode (g_superblock s))) (vfs_disk s);
          s1 = s\<lparr>vfs_disk := d1\<rparr>
      in if rc < 0 then (-1, s1)
         else let (rc', d2) = disk_write ops (VFS_START_SECTOR + VFS_FILETABLE_SECTOR) VFS_FILETABLE_SECTORS
                    (table_encode (g_filetable s1)) (vfs_disk s1)
              in (if rc' < 0 then -1 else 0, s1\<lparr>vfs_disk := d2\<rparr>))"

text \<open>The slot of \<open>vfs_write_file\<close>: the existing file, or a new entry in the first empty slot.\<close>

definition vfs_write_slot :: "cstring \<Rightarrow> 'd vfs \<Rightarrow> (nat \<times> 'd vfs) option" where
  "vfs_write_slot path s =
     (case find_slot (file_named path) (g_filetable s) of
        Some i \<Rightarrow> Some (i, s)
      | None \<Rightarrow>
          (case find_slot (\<lambda>e. fe_type e = VFS_TYPE_EMPTY) (g_filetable s) of
             None \<Rightarrow> None
           | Some i \<Rightarrow> Some (i, s\<lparr>g_filetable := (g_filetable s)[i := (g_filetable s ! i)\<lparr>
               fe_filename := vfs_strncpy path VFS_MAX_FILENAME, fe_type := VFS_TYPE_REGULAR, fe_flags := 0,
               fe_mode := VFS_MODE_DEFAULT_FILE, fe_uid := 0, fe_gid := 0,
               fe_start_sector := sb_first_free_sector (g_superblock s)\<rparr>]\<rparr>)))"

fun vfs_write_full :: "'d disk_ops \<Rightarrow> u32 \<Rightarrow> nat \<Rightarrow> nat \<Rightarrow> bytes \<Rightarrow> 'd \<Rightarrow> bool \<times> 'd" where
  "vfs_write_full ops abs_sector k 0 data d = (True, d)"
| "vfs_write_full ops abs_sector k (Suc n) data d =
     (let (rc, d') = disk_write ops (abs_sector + of_nat k) 1 (chunk data k) d
      in if rc < 0 then (False, d') else vfs_write_full ops abs_sector (Suc k) n data d')"

definition vfs_write_data :: "'d disk_ops \<Rightarrow> u32 \<Rightarrow> bytes \<Rightarrow> nat \<Rightarrow> 'd \<Rightarrow> bool \<times> 'd" where
  "vfs_write_data ops abs_sector data len d =
     (let full = unat (of_nat len div 512 :: u32); remainder = unat (of_nat len mod 512 :: u32);
          (ok, d1) = vfs_write_full ops abs_sector 0 full data d
      in if \<not> ok then (False, d1)
         else if remainder > 0 then
           let (rc, d2) = disk_write ops (abs_sector + of_nat full) 1
                 (take remainder (drop (full * 512) data) @ replicate (512 - remainder) 0) d1
           in (0 \<le> rc, d2)
         else (True, d1))"

definition count_files :: "VfsFileEntry list \<Rightarrow> u16" where
  "count_files es = of_nat (length (filter (\<lambda>e. fe_type e \<noteq> VFS_TYPE_EMPTY) es))"

definition vfs_finish_write :: "'d disk_ops \<Rightarrow> nat \<Rightarrow> nat \<Rightarrow> 'd vfs \<Rightarrow> int \<times> 'd vfs" where
  "vfs_finish_write ops slot len s =
     (let table = (g_filetable s)[slot := (g_filetable s ! slot)\<lparr>fe_size := of_nat len\<rparr>];
          end_sector = fe_start_sector (table ! slot) + (of_nat len + 511) div 512;
          sb = g_superblock s;
          s1 = s\<lparr>g_filetable := table,
             g_superblock := sb\<lparr>sb_first_free_sector := (if end_sector > sb_first_free_sector sb then end_sector
                 else sb_first_free_sector sb), sb_file_count := count_files table\<rparr>\<rparr>;
          (rc, s2) = vfs_flush_metadata ops s1
      in (if rc = 0 then sint (of_nat len :: u32) else -1, s2))"

definition vfs_write_file :: "'d disk_ops \<Rightarrow> cstring \<Rightarrow> bytes \<Rightarrow> nat \<Rightarrow> 'd vfs \<Rightarrow> int \<times> 'd vfs" where
  "vfs_write_file ops path data len s =
     (if \<not> g_vfs_ready s then (-1, s)
      else case vfs_write_slot path s of
        None \<Rightarrow> (-1, s)
      | Some (slot, s1) \<Rightarrow>
          if (of_nat len + 511) div 512 > (255 :: u32) then (-1, s1)
          else let (ok, d) = vfs_write_data ops
                     (VFS_START_SECTOR + VFS_DATA_SECTOR + fe_start_sector (g_filetable s1 ! slot)) data len (vfs_disk s1);
                   s2 = s1\<lparr>vfs_disk := d\<rparr>
            in if \<not> ok then (-1, s2) else vfs_finish_write ops slot len s2)"

definition vfs_file_count :: "'d vfs \<Rightarrow> u16" where
  "vfs_file_count s = (if g_vfs_ready s then sb_file_count (g_superblock s) else 0)"

text \<open>Reading a character of a C string; the end of the list is the terminator of a literal.\<close>

definition char_at :: "char list \<Rightarrow> nat \<Rightarrow> char" where
  "char_at a i = (if i < length a then a ! i else NUL)"

fun last_slash_loop :: "nat \<Rightarrow> nat \<Rightarrow> char list \<Rightarrow> nat" where
  "last_slash_loop i ls [] = ls"
| "last_slash_loop i ls (c # cs) =
     (if c = NUL then ls else last_slash_loop (Suc i) (if c = CHR ''/'' then i else ls) cs)"

definition vfs_is_child_of :: "char list \<Rightarrow> char list \<Rightarrow> bool" where
  "vfs_is_child_of child parent =
     (let last_slash = last_slash_loop 0 0 child in
      if last_slash = 0 then char_at parent 0 = CHR ''/'' \<and> char_at parent 1 = NUL
      else list_all (\<lambda>i. char_at child i = char_at parent i \<and> char_at parent i \<noteq> NUL) [0..<last_slash]
           \<and> char_at parent last_slash = NUL)"

text \<open>The names that \<open>vfs_list_dir\<close> copies to \<open>out\<close>; -1 when the file system is not ready.\<close>

fun list_dir_loop :: "cstring \<Rightarrow> int \<Rightarrow> VfsFileEntry list \<Rightarrow> char list list" where
  "list_dir_loop dir room [] = []"
| "list_dir_loop dir room (e # es) =
     (if room \<le> 0 then []
      else if fe_type e = VFS_TYPE_EMPTY then list_dir_loop dir room es
      else if vfs_strcmp (fe_filename e) dir = 0 then list_dir_loop dir room es
      else if vfs_is_child_of (fe_filename e) dir
      then vfs_strncpy (fe_filename e) VFS_MAX_FILENAME # list_dir_loop dir (room - 1) es
      else list_dir_loop dir room es)"

definition vfs_list_dir :: "cstring \<Rightarrow> int \<Rightarrow> 'd vfs \<Rightarrow> char list list option" where
  "vfs_list_dir dir mx s = (if \<not> g_vfs_ready s then None else Some (list_dir_loop dir mx (g_filetable s)))"

definition vfs_delete_file :: "'d disk_ops \<Rightarrow> cstring \<Rightarrow> 'd vfs \<Rightarrow> int \<times> 'd vfs" where
  "vfs_delete_file ops path s =
     (if \<not> g_vfs_ready s then (-1, s)
      else case find_slot (file_named path) (g_filetable s) of
        None \<Rightarrow> (-1, s)
      | Some i \<Rightarrow>
          let sb = g_superblock s;
              s1 = s\<lparr>g_filetable := (g_filetable s)[i := empty_entry],
                 g_superblock := (if sb_file_count sb > 0 then sb\<lparr>sb_file_count := sb_file_count sb - 1\<rparr> else sb)\<rparr>;
              (rc, s2) = vfs_flush_metadata ops s1
          in (if rc = 0 then 0 else -1, s2))"

definition vfs_mkdir :: "'d disk_ops \<Rightarrow> cstring \<Rightarrow> 'd vfs \<Rightarrow> int \<times> 'd vfs" where
  "vfs_mkdir ops path s =
     (if \<not> g_vfs_ready s then (-1, s)
      else if vfs_find_file path s \<noteq> None then (-1, s)
      else case find_slot (\<lambda>e. fe_type e = VFS_TYPE_EMPTY) (g_filetable s) of
        None \<Rightarrow> (-1, s)
      | Some i \<Rightarrow>
          let sb = g_superblock s;
              s1 = s\<lparr>g_filetable := (g_filetable s)[i := (g_filetable s ! i)\<lparr>
                   fe_filename := vfs_strncpy path VFS_MAX_FILENAME, fe_type := VFS_TYPE_DIRECTORY, fe_size := 0,
                   fe_flags := 0, fe_mode := VFS_MODE_DEFAULT_DIR, fe_uid := 0, fe_gid := 0\<rparr>],
                 g_superblock := sb\<lparr>sb_file_count := sb_file_count sb + 1\<rparr>\<rparr>;
              (rc, s2) = vfs_flush_metadata ops s1
          in (if rc = 0 then 0 else -1, s2))"

text \<open>
  \<open>vfs_append_file\<close> assembles the new contents in a static buffer of 4096 bytes, \<open>tmp\<close>. The result
  \<open>None\<close> means that it stores behind the end of that buffer.
\<close>

definition vfs_append_file :: "'d disk_ops \<Rightarrow> bytes \<Rightarrow> cstring \<Rightarrow> bytes \<Rightarrow> nat \<Rightarrow> 'd vfs \<Rightarrow> int option \<times> 'd vfs" where
  "vfs_append_file ops tmp path data len s =
     (case vfs_find_file path s of
        None \<Rightarrow> (case vfs_write_file ops path data len s of (r, s') \<Rightarrow> (Some r, s'))
      | Some i \<Rightarrow>
          let existing = fe_size (g_filetable s ! i);
              total0 = existing + of_nat len;
              total = (if total0 > 4096 then 4096 else total0)
          in if existing > 4096 then (None, s)
             else let ((r, tmp'), s1) = vfs_read_file ops path tmp (unat existing) s
               in if r < 0 then (Some (-1), s1)
                  else let copy = total - existing
                    in if unat existing + unat copy > 4096 then (None, s1)
                       else case vfs_write_file ops path (blit tmp' (unat existing) (take (unat copy) data)) (unat total) s1 of
                         (r', s') \<Rightarrow> (Some r', s'))"

definition vfs_chmod :: "'d disk_ops \<Rightarrow> cstring \<Rightarrow> u16 \<Rightarrow> 'd vfs \<Rightarrow> int \<times> 'd vfs" where
  "vfs_chmod ops path mode s =
     (case vfs_find_file_mut path s of
        None \<Rightarrow> (-1, s)
      | Some i \<Rightarrow> vfs_flush_metadata ops
          (s\<lparr>g_filetable := (g_filetable s)[i := (g_filetable s ! i)\<lparr>fe_mode := mode AND VFS_MODE_MASK\<rparr>]\<rparr>))"

definition vfs_chown :: "'d disk_ops \<Rightarrow> cstring \<Rightarrow> u16 \<Rightarrow> u16 \<Rightarrow> 'd vfs \<Rightarrow> int \<times> 'd vfs" where
  "vfs_chown ops path uid gid s =
     (case vfs_find_file_mut path s of
        None \<Rightarrow> (-1, s)
      | Some i \<Rightarrow> vfs_flush_metadata ops
          (s\<lparr>g_filetable := (g_filetable s)[i := (g_filetable s ! i)\<lparr>fe_uid := uid, fe_gid := gid\<rparr>]\<rparr>))"

declare vfs_read_loop.simps [simp del]

section \<open>Encodings\<close>

definition entry_ok :: "VfsFileEntry \<Rightarrow> bool" where
  "entry_ok e \<longleftrightarrow> length (fe_filename e) = VFS_MAX_FILENAME \<and> length (fe_reserved e) = 16"

definition vfs_wf :: "'d vfs \<Rightarrow> bool" where
  "vfs_wf s \<longleftrightarrow> length (g_filetable s) = VFS_MAX_FILES \<and> list_all entry_ok (g_filetable s)
     \<and> length (sb_reserved (g_superblock s)) = 16"

lemma drop_encodings_vfs [byte_simps]:
  "drop 4 (le32_bytes v @ bs) = bs" "drop 6 (le32_bytes v @ bs) = drop 2 bs" "drop 8 (le32_bytes v @ bs) = drop 4 bs"
  "drop 12 (le32_bytes v @ bs) = drop 8 bs" "drop 16 (le32_bytes v @ bs) = drop 12 bs"
  "drop 2 (le16_bytes w @ bs) = bs" "drop 4 (le16_bytes w @ bs) = drop 2 bs" "drop 8 (le16_bytes w @ bs) = drop 6 bs"
  "drop 6 (le16_bytes w @ bs) = drop 4 bs" "drop 12 (le16_bytes w @ bs) = drop 10 bs"
  "drop 10 (le16_bytes w @ bs) = drop 8 bs"
  by simp_all

lemma length_sb_encode: "length (sb_reserved sb) = 16 \<Longrightarrow> length (sb_encode sb) = 32"
  by (simp add: sb_encode_def)

lemma sb_decode_encode: "length (sb_reserved sb) = 16 \<Longrightarrow> sb_decode (sb_encode sb @ bs) = sb"
  by (simp add: sb_encode_def sb_decode_def byte_simps)

lemma length_fe_encode: "entry_ok e \<Longrightarrow> length (fe_encode e) = 64"
  by (simp add: fe_encode_def entry_ok_def)

lemma fe_decode_encode:
  assumes "entry_ok e"
  shows "fe_decode (fe_encode e) = e"
proof -
  have len: "length (map byte_of (fe_filename e)) = 32" "length (fe_reserved e) = 16" using assms by (simp_all add: entry_ok_def)
  define t where "t = le32_bytes (fe_start_sector e) @ le32_bytes (fe_size e)
     @ [fe_type e, fe_flags e] @ le16_bytes (fe_mode e) @ le16_bytes (fe_uid e) @ le16_bytes (fe_gid e) @ fe_reserved e"
  have e: "fe_encode e = map byte_of (fe_filename e) @ t" by (simp add: fe_encode_def t_def)
  have drops: "drop (32 + k) (fe_encode e) = drop k t" for k using len by (simp add: e)
  have nths: "fe_encode e ! (32 + k) = t ! k" for k using len by (simp add: e nth_append)
  have "drop 32 (fe_encode e) = t" "drop 36 (fe_encode e) = drop 4 t" "drop 42 (fe_encode e) = drop 10 t"
    "drop 44 (fe_encode e) = drop 12 t" "drop 46 (fe_encode e) = drop 14 t" "drop 48 (fe_encode e) = drop 16 t"
    "fe_encode e ! 40 = t ! 8" "fe_encode e ! 41 = t ! 9"
    using drops [of 0] drops [of 4] drops [of 10] drops [of 12] drops [of 14] drops [of 16] nths [of 8] nths [of 9] by simp_all
  moreover have "take 32 (fe_encode e) = map byte_of (fe_filename e)" using len by (simp add: e)
  moreover have "drop 4 t = le32_bytes (fe_size e) @ [fe_type e, fe_flags e] @ le16_bytes (fe_mode e)
      @ le16_bytes (fe_uid e) @ le16_bytes (fe_gid e) @ fe_reserved e" by (simp add: t_def)
  moreover have "t ! 8 = fe_type e" "t ! 9 = fe_flags e" by (simp_all add: t_def nth_append)
  moreover have "drop 10 t = le16_bytes (fe_mode e) @ le16_bytes (fe_uid e) @ le16_bytes (fe_gid e) @ fe_reserved e"
    "drop 12 t = le16_bytes (fe_uid e) @ le16_bytes (fe_gid e) @ fe_reserved e"
    "drop 14 t = le16_bytes (fe_gid e) @ fe_reserved e" "drop 16 t = fe_reserved e" by (simp_all add: t_def)
  ultimately show ?thesis using len by (simp add: fe_decode_def byte_simps t_def comp_def)
qed

lemma table_decode_encode:
  assumes "list_all entry_ok es"
  shows "map (\<lambda>i. fe_decode (take 64 (drop (i * 64) (table_encode es)))) [0..<length es] = es"
    "length (table_encode es) = length es * 64"
proof -
  have "length (table_encode es) = length es * 64
    \<and> (\<forall>i < length es. take 64 (drop (i * 64) (table_encode es)) = fe_encode (es ! i))"
    using assms
  proof (induction es)
    case (Cons e es)
    then have len: "length (fe_encode e) = 64" by (simp add: length_fe_encode)
    have "take 64 (drop (i * 64) (table_encode (e # es))) = fe_encode ((e # es) ! i)" if "i < length (e # es)" for i
      using that Cons len by (cases i) (auto simp: table_encode_def)
    with Cons len show ?case by (simp add: table_encode_def)
  qed (simp add: table_encode_def)
  with assms show "length (table_encode es) = length es * 64"
    "map (\<lambda>i. fe_decode (take 64 (drop (i * 64) (table_encode es)))) [0..<length es] = es"
    by (auto simp: list_all_length fe_decode_encode intro!: nth_equalityI)
qed

section \<open>Metadata on a block device\<close>

text \<open>What the disk holds when its metadata sectors describe the state.\<close>

definition metadata_on :: "medium \<Rightarrow> 'd vfs \<Rightarrow> bool" where
  "metadata_on v s \<longleftrightarrow> sb_decode (v VFS_START_SECTOR) = g_superblock s
     \<and> sectors v (VFS_START_SECTOR + VFS_FILETABLE_SECTOR) 4 = table_encode (g_filetable s)"

lemma metadata_sectors:
  "sector_range 5120 5 = {5120, 5121, 5122, 5123, 5124}" "sector_range 5121 4 = {5121, 5122, 5123, 5124}"
  by (auto simp: sector_range_def lessThan_nat_numeral lessThan_Suc)

lemma length_sb_sector: "length (sb_reserved sb) = 16 \<Longrightarrow> length (blit (replicate 512 0) 0 (sb_encode sb)) = 512"
  by (simp add: length_sb_encode blit_0)

context block_device
begin

lemma flush_metadata_correct:
  assumes inv: "dinv (vfs_disk s)" and wf: "vfs_wf s" and fl: "vfs_flush_metadata ops s = (rc, s')"
  shows "dinv (vfs_disk s')" "s' = s\<lparr>vfs_disk := vfs_disk s'\<rparr>" "rc = 0 \<or> rc = -1"
    "x \<notin> sector_range VFS_START_SECTOR 5 \<Longrightarrow> view (vfs_disk s') x = view (vfs_disk s) x"
    "rc = 0 \<Longrightarrow> metadata_on (view (vfs_disk s')) s'"
proof -
  let ?sb = "blit (replicate 512 0) 0 (sb_encode (g_superblock s))"
  let ?tab = "table_encode (g_filetable s)"
  have res: "length (sb_reserved (g_superblock s)) = 16" and es: "length (g_filetable s) = 32" "list_all entry_ok (g_filetable s)"
    using wf by (simp_all add: vfs_wf_def)
  have tab: "length ?tab = unat VFS_FILETABLE_SECTORS * 512" using table_decode_encode(2) [OF es(2)] es(1) by simp
  obtain r1 d1 where w1: "disk_write ops 5120 1 ?sb (vfs_disk s) = (r1, d1)" by fastforce
  note p1 = write_one [OF inv length_sb_sector [OF res] w1]
  obtain r2 d2 where w2: "disk_write ops 5121 4 ?tab d1 = (r2, d2)" by fastforce
  note p2 = write_inv [OF p1(1) tab w2] write_keeps [OF p1(1) tab w2] write_data [OF p1(1) tab w2]
  have rng: "x = 5120 \<or> x \<in> sector_range 5121 4 \<longleftrightarrow> x \<in> sector_range 5120 5" for x
    by (auto simp: metadata_sectors)
  have out: "5120 \<notin> sector_range 5121 4" by (simp add: metadata_sectors)
  have r: "rc = (if r1 < 0 \<or> r2 < 0 then -1 else 0)" "s' = s\<lparr>vfs_disk := if r1 < 0 then d1 else d2\<rparr>"
    using fl w1 w2 by (auto simp: vfs_flush_metadata_def Let_def split: if_splits)
  show "dinv (vfs_disk s')" "s' = s\<lparr>vfs_disk := vfs_disk s'\<rparr>" "rc = 0 \<or> rc = -1"
    using p1(1) p2(1) by (auto simp: r)
  show "view (vfs_disk s') x = view (vfs_disk s) x" if "x \<notin> sector_range 5120 5"
    using that p1(3) [of x] p2(2) [of x] rng [of x] by (auto simp: r)
  show "metadata_on (view (vfs_disk s')) s'" if "rc = 0"
  proof -
    have ok: "\<not> r1 < 0" "\<not> r2 < 0" using that r by (auto split: if_splits)
    then have "view d2 5120 = ?sb" using p1(2) p2(2) [of 5120] out by simp
    then have "sb_decode (view d2 5120) = g_superblock s" using sb_decode_encode [OF res] res by (simp add: blit_0)
    moreover have "sectors (view d2) 5121 4 = ?tab" using p2(3) ok by simp
    ultimately show ?thesis using ok by (simp add: r metadata_on_def)
  qed
qed

lemma vfs_init_loads:
  assumes inv: "dinv (vfs_disk s0)" and meta: "metadata_on (view (vfs_disk s0)) s" "vfs_wf s"
    and magic: "sb_magic (g_superblock s) = VFS_MAGIC" and ini: "vfs_init ops s0 = (True, s')"
  shows "g_superblock s' = g_superblock s \<and> g_filetable s' = g_filetable s \<and> g_vfs_ready s'"
proof -
  obtain r1 b1 d1 where w1: "disk_read ops 5120 1 (replicate 512 0) (vfs_disk s0) = ((r1, b1), d1)" by (metis prod.collapse)
  have p1: "dinv d1" "view d1 = view (vfs_disk s0)" "b1 = (if r1 < 0 then replicate 512 0 else view (vfs_disk s0) 5120)"
    using read_one [OF inv _ w1] by simp_all
  obtain r2 b2 d2 where w2: "disk_read ops 5121 4 (replicate 2048 0) d1 = ((r2, b2), d2)" by (metis prod.collapse)
  have len: "length (replicate 2048 (0 :: u8)) = unat VFS_FILETABLE_SECTORS * 512" by simp
  have p2: "0 \<le> r2 \<Longrightarrow> b2 = table_encode (g_filetable s)"
    using read_data [OF p1(1) len w2] p1(2) meta(1) by (simp add: metadata_on_def)
  show ?thesis using ini w1 w2 p1 p2 meta table_decode_encode(1) [of "g_filetable s"]
    by (auto simp: vfs_init_def vfs_wf_def metadata_on_def Let_def split: if_splits)
qed

end

section \<open>File data on a block device\<close>

definition sectors_for :: "nat \<Rightarrow> nat" where
  "sectors_for n = (n + 511) div 512"

definition data_sector :: "VfsFileEntry \<Rightarrow> u32" where
  "data_sector e = VFS_START_SECTOR + VFS_DATA_SECTOR + fe_start_sector e"

definition file_bytes :: "medium \<Rightarrow> VfsFileEntry \<Rightarrow> bytes" where
  "file_bytes v e = take (unat (fe_size e)) (sectors v (data_sector e) (sectors_for (unat (fe_size e))))"

definition file_sectors :: "VfsFileEntry \<Rightarrow> u32 set" where
  "file_sectors e = sector_range (data_sector e) (sectors_for (unat (fe_size e)))"

lemma sectors_for_le: "n \<le> sectors_for n * 512" "sectors_for n * 512 < n + 512"
  by (auto simp: sectors_for_def)

lemma sectors_for_partial: "0 < len mod 512 \<Longrightarrow> sectors_for len = Suc (len div 512)"
proof -
  assume r: "0 < len mod 512"
  define q r where "q = len div 512" "r = len mod 512"
  then have "len = q * 512 + r" "0 < r" "r < 512" using r by simp_all
  then have "len + 511 = (r - 1) + Suc q * 512" by simp
  moreover have "((r - 1) + Suc q * 512) div 512 = Suc q" using \<open>r < 512\<close> by simp
  ultimately have "(len + 511) div 512 = Suc q" by (simp only:)
  then show ?thesis by (simp only: sectors_for_def q_r_def)
qed

lemma unat_sectors:
  assumes "n + 511 < 2 ^ 32"
  shows "unat ((of_nat n + 511) div 512 :: u32) = sectors_for n"
proof -
  have "(of_nat n + 511 :: u32) = of_nat (n + 511)" by simp
  then have "unat (of_nat n + 511 :: u32) = n + 511" using assms by (simp only: unat_of_nat) simp
  then show ?thesis by (simp add: unat_div_distrib sectors_for_def)
qed

lemma sectors_bound_word:
  assumes "n + 511 < 2 ^ 32"
  shows "(of_nat n + 511) div 512 > (255 :: u32) \<longleftrightarrow> sectors_for n > 255"
  using unat_sectors [OF assms] by (simp add: word_less_nat_alt)

lemma unat_len_split:
  assumes "n < 2 ^ 32"
  shows "unat (of_nat n div 512 :: u32) = n div 512" "unat (of_nat n mod 512 :: u32) = n mod 512"
  using assms by (simp_all add: unat_div_distrib unat_mod_distrib unat_of_nat)

lemma metadata_disjoint:
  assumes "unat (fe_start_sector e) + 5125 + n \<le> 2 ^ 32"
  shows "sector_range (data_sector e) n \<inter> sector_range VFS_START_SECTOR 5 = {}"
proof -
  have "data_sector e + of_nat i \<noteq> 5120 + of_nat j" if "i < n" "j < 5" for i j
  proof
    let ?k = "unat (fe_start_sector e)"
    assume eq: "data_sector e + of_nat i = 5120 + (of_nat j :: u32)"
    have "data_sector e + of_nat i = of_nat (5125 + ?k + i)" by (simp add: data_sector_def)
    moreover have "(5120 + of_nat j :: u32) = of_nat (5120 + j)" by simp
    ultimately have "unat (of_nat (5125 + ?k + i) :: u32) = unat (of_nat (5120 + j) :: u32)" using eq by metis
    then have "5125 + ?k + i = 5120 + j" using assms that by (simp only: unat_of_nat) simp
    then show False using that by simp
  qed
  then show ?thesis by (auto simp: sector_range_def)
qed

context block_device
begin

lemma read_loop_correct:
  assumes "dinv d" "k \<le> sects" "sects \<le> 255" "sects * 512 \<le> length buf" "take (k * 512) buf = sectors (view d) a k"
    "vfs_read_loop ops a sects k buf d = ((ok, buf'), d')"
  shows "dinv d' \<and> view d' = view d \<and> length buf' = length buf \<and> drop (sects * 512) buf' = drop (sects * 512) buf
    \<and> (ok \<longrightarrow> take (sects * 512) buf' = sectors (view d) a sects)"
  using assms
proof (induction "sects - k" arbitrary: k buf d rule: less_induct)
  case less
  note p = less.prems
  show ?case
  proof (cases "k < sects")
    case False
    with p show ?thesis by (simp add: vfs_read_loop.simps)
  next
    case True
    define n where "n = (if sects - k > 128 then 128 else sects - k)"
    define slice where "slice = take (n * 512) (drop (k * 512) buf)"
    have n: "0 < n" "n \<le> 128" "k + n \<le> sects" using True by (auto simp: n_def)
    then have un: "unat (of_nat n :: u8) = n" by (simp add: unat_of_nat)
    have "(k + n) * 512 \<le> length buf" using n(3) p(4) by (meson mult_le_mono1 order_trans)
    then have len: "length slice = unat (of_nat n :: u8) * 512" using un by (simp add: slice_def)
    obtain rc part d1 where rd: "disk_read ops (a + of_nat k) (of_nat n) slice d = ((rc, part), d1)" by (metis prod.collapse)
    have keep: "dinv d1" "view d1 = view d" "length part = n * 512" and
      data: "0 \<le> rc \<Longrightarrow> part = sectors (view d) (a + of_nat k) n"
      using read_keeps [OF p(1) len rd] read_data [OF p(1) len rd] len un by auto
    define buf1 where "buf1 = blit buf (k * 512) part"
    have room: "k * 512 + length part \<le> length buf" using \<open>(k + n) * 512 \<le> length buf\<close> keep(3) by (simp add: algebra_simps)
    have eq: "vfs_read_loop ops a sects k buf d =
        (if rc < 0 then ((False, buf1), d1) else vfs_read_loop ops a sects (k + n) buf1 d1)"
      using True rd by (simp add: vfs_read_loop.simps [of ops a sects k] n_def [symmetric] slice_def buf1_def Let_def)
    have l1: "length buf1 = length buf" using room by (simp add: buf1_def)
    have "drop ((k + n) * 512) buf1 = drop ((k + n) * 512) buf"
      using drop_blit_end [OF room] keep(3) by (simp add: buf1_def algebra_simps)
    moreover have split: "sects * 512 = (sects * 512 - (k + n) * 512) + (k + n) * 512" using n(3) by simp
    ultimately have d1: "drop (sects * 512) buf1 = drop (sects * 512) buf" by (metis drop_drop)
    show ?thesis
    proof (cases "rc < 0")
      case True
      with p(6) eq keep l1 d1 show ?thesis by simp
    next
      case False
      have "take ((k + n) * 512) buf1 = sectors (view d1) a (k + n)"
        using take_blit_end [OF room] p(5) data False keep by (simp add: buf1_def sectors_append algebra_simps)
      with False eq p(3,4,6) keep l1 n True
      have "dinv d' \<and> view d' = view d1 \<and> length buf' = length buf1 \<and> drop (sects * 512) buf' = drop (sects * 512) buf1
          \<and> (ok \<longrightarrow> take (sects * 512) buf' = sectors (view d1) a sects)"
        by (intro less.hyps) auto
      with keep l1 d1 show ?thesis by simp
    qed
  qed
qed

lemma write_full_correct:
  assumes "dinv d" "(k + n) * 512 \<le> length data" "k + n \<le> 2 ^ 32" "vfs_write_full ops a k n data d = (ok, d')"
  shows "dinv d' \<and> (\<forall>x. x \<notin> (\<lambda>i. a + of_nat i) ` {k..<k + n} \<longrightarrow> view d' x = view d x)
    \<and> (ok \<longrightarrow> (\<forall>i. k \<le> i \<and> i < k + n \<longrightarrow> view d' (a + of_nat i) = chunk data i))"
  using assms
proof (induction n arbitrary: k d)
  case (Suc n)
  let ?R = "(\<lambda>i. a + of_nat i) ` {Suc k..<Suc k + n}"
  obtain rc d1 where w: "disk_write ops (a + of_nat k) 1 (chunk data k) d = (rc, d1)" by fastforce
  have "length (chunk data k) = 512" using Suc.prems(2) by (intro length_chunk) simp
  note w1 = write_one [OF Suc.prems(1) this w]
  show ?case
  proof (cases "rc < 0")
    case True
    with Suc.prems(4) w have "d' = d1" "\<not> ok" by simp_all
    with w1 show ?thesis by (auto simp: image_iff)
  next
    case False
    have "dinv d' \<and> (\<forall>x. x \<notin> ?R \<longrightarrow> view d' x = view d1 x)
        \<and> (ok \<longrightarrow> (\<forall>i. Suc k \<le> i \<and> i < Suc k + n \<longrightarrow> view d' (a + of_nat i) = chunk data i))"
      using False Suc.prems w w1(1) by (intro Suc.IH) simp_all
    then have IH: "dinv d'" "x \<notin> ?R \<Longrightarrow> view d' x = view d1 x"
      "ok \<Longrightarrow> Suc k \<le> i \<Longrightarrow> i < Suc k + n \<Longrightarrow> view d' (a + of_nat i) = chunk data i" for x i by blast+
    have new: "a + of_nat k \<notin> ?R" using Suc.prems(3) sector_index_inj [of a k] by fastforce
    have "view d' x = view d x" if "x \<notin> (\<lambda>i. a + of_nat i) ` {k..<k + Suc n}" for x
    proof -
      have "x \<noteq> a + of_nat k" "x \<notin> ?R" using that by (auto simp: image_iff)
      then show ?thesis using IH(2) [of x] w1(3) [of x] by simp
    qed
    moreover have "view d' (a + of_nat i) = chunk data i" if ok "k \<le> i" "i < k + Suc n" for i
      using that IH(3) [of i] IH(2) [OF new] w1(2) False by (cases "i = k") simp_all
    ultimately show ?thesis using IH(1) by blast
  qed
qed auto

lemma write_data_correct:
  assumes inv: "dinv d" and len: "len \<le> length data" "sectors_for len \<le> 255" and wr: "vfs_write_data ops a data len d = (ok, d')"
  shows "dinv d'" "x \<notin> sector_range a (sectors_for len) \<Longrightarrow> view d' x = view d x"
    "ok \<Longrightarrow> take len (sectors (view d') a (sectors_for len)) = take len data"
proof -
  let ?f = "len div 512" and ?r = "len mod 512"
  have bound: "len \<le> 255 * 512" using sectors_for_le(1) [of len] len(2) by linarith
  then have split: "unat (of_nat len div 512 :: u32) = ?f" "unat (of_nat len mod 512 :: u32) = ?r"
    by (simp_all add: unat_len_split)
  have decomp: "len = ?f * 512 + ?r" by simp
  obtain ok1 d1 where w1: "vfs_write_full ops a 0 ?f data d = (ok1, d1)" by fastforce
  have full: "dinv d1" "x \<notin> sector_range a ?f \<Longrightarrow> view d1 x = view d x"
    "ok1 \<Longrightarrow> i < ?f \<Longrightarrow> view d1 (a + of_nat i) = chunk data i" for x i
    using write_full_correct [OF inv _ _ w1] len(1) bound decomp
    by (auto simp: sector_range_def atLeast0LessThan)
  have sub: "sector_range a ?f \<subseteq> sector_range a (sectors_for len)"
    by (auto simp: sector_range_def sectors_for_def)
  show "dinv d'" "x \<notin> sector_range a (sectors_for len) \<Longrightarrow> view d' x = view d x"
    "ok \<Longrightarrow> take len (sectors (view d') a (sectors_for len)) = take len data"
  proof (atomize (full), cases "ok1 \<and> 0 < ?r")
    case False
    then have d': "d' = d1" "ok = ok1" using wr w1 split by (auto simp: vfs_write_data_def Let_def split: if_splits)
    have out: "view d1 x = view d x" if "x \<notin> sector_range a (sectors_for len)"
      using full(2) [of x] sub that by blast
    have "take len (sectors (view d1) a (sectors_for len)) = take len data" if ok1
    proof -
      have r: "?r = 0" using False that by simp
      then have "len = ?f * 512" "sectors_for len = ?f" using decomp by (simp_all add: sectors_for_def)
      moreover have "sectors (view d1) a ?f = take (?f * 512) data"
        using that full(3) len(1) decomp by (intro sectors_eqI) simp_all
      ultimately show ?thesis by (metis take_take min.idem)
    qed
    then show "dinv d' \<and> (x \<notin> sector_range a (sectors_for len) \<longrightarrow> view d' x = view d x)
      \<and> (ok \<longrightarrow> take len (sectors (view d') a (sectors_for len)) = take len data)"
      using full(1) out by (simp add: d')
  next
    case True
    define pad where "pad = take ?r (drop (?f * 512) data) @ replicate (512 - ?r) 0"
    have "?r \<le> length data - ?f * 512" "?r < 512" using len(1) decomp by (linarith, simp)
    then have lp: "length pad = 512" "take ?r pad = take ?r (drop (?f * 512) data)"
      by (simp_all add: pad_def)
    obtain rc d2 where w2: "disk_write ops (a + of_nat ?f) 1 pad d1 = (rc, d2)" by fastforce
    note w2' = write_one [OF full(1) lp(1) w2]
    have d': "d' = d2" "ok \<longleftrightarrow> 0 \<le> rc" using True wr w1 w2 split by (auto simp: vfs_write_data_def pad_def)
    have s: "sectors_for len = Suc ?f" using True by (intro sectors_for_partial) simp
    have fresh: "a + of_nat i \<noteq> a + of_nat ?f" if "i < ?f" for i
      using that bound sector_index_inj [of a i ?f] by fastforce
    have "sectors (view d2) a ?f = take (?f * 512) data"
      using True full(3) len(1) decomp w2'(3) fresh by (intro sectors_eqI) simp_all
    then have "take len (sectors (view d2) a (Suc ?f)) = take len data" if "0 \<le> rc"
    proof -
      have "take len data = take (?f * 512) data @ take ?r (drop (?f * 512) data)"
        using take_add [of "?f * 512" ?r data] decomp by simp
      moreover have "length (take (?f * 512) data) = ?f * 512" using len(1) decomp by simp
      ultimately show ?thesis
        using \<open>sectors (view d2) a ?f = _\<close> w2'(2) [OF that] lp(2) decomp by (simp add: sectors_Suc minus_div_mult_eq_mod)
    qed
    moreover have "view d2 x = view d x" if "x \<notin> sector_range a (Suc ?f)"
      using that full(2) [of x] w2'(3) [of x] by (simp add: sector_range_Suc)
    ultimately show "dinv d' \<and> (x \<notin> sector_range a (sectors_for len) \<longrightarrow> view d' x = view d x)
      \<and> (ok \<longrightarrow> take len (sectors (view d') a (sectors_for len)) = take len data)"
      using w2'(1) by (simp add: d' s)
  qed
qed

end

section \<open>Writing and reading files\<close>

definition new_entry :: "cstring \<Rightarrow> 'd vfs \<Rightarrow> VfsFileEntry \<Rightarrow> VfsFileEntry" where
  "new_entry path s e = e\<lparr>fe_filename := vfs_strncpy path VFS_MAX_FILENAME, fe_type := VFS_TYPE_REGULAR, fe_flags := 0,
     fe_mode := VFS_MODE_DEFAULT_FILE, fe_uid := 0, fe_gid := 0,
     fe_start_sector := sb_first_free_sector (g_superblock s)\<rparr>"

lemma new_entry_ok: "entry_ok e \<Longrightarrow> entry_ok (new_entry path s e)"
  by (simp add: entry_ok_def new_entry_def vfs_strncpy_def)

lemma new_entry_named: "length (cstr path) < VFS_MAX_FILENAME \<Longrightarrow> file_named path (new_entry path s e)"
  by (simp add: file_named_def new_entry_def vfs_strncpy_def vfs_strcmp_def c_strcmp_eq_0)

lemma vfs_write_slot_cases:
  assumes "vfs_write_slot path s = Some (i, s1)"
  obtains (existing) "find_slot (file_named path) (g_filetable s) = Some i" "s1 = s"
  | (fresh) "find_slot (file_named path) (g_filetable s) = None" "fe_type (g_filetable s ! i) = VFS_TYPE_EMPTY"
      "i < length (g_filetable s)" "s1 = s\<lparr>g_filetable := (g_filetable s)[i := new_entry path s (g_filetable s ! i)]\<rparr>"
  using assms find_slot_SomeD [of "\<lambda>e. fe_type e = VFS_TYPE_EMPTY" "g_filetable s" i]
  by (auto simp: vfs_write_slot_def new_entry_def split: option.splits)

lemma vfs_write_slot_facts:
  assumes ws: "vfs_write_slot path s = Some (i, s1)" and wf: "vfs_wf s"
  shows "i < VFS_MAX_FILES" "vfs_wf s1" "vfs_disk s1 = vfs_disk s" "g_superblock s1 = g_superblock s" "g_vfs_ready s1 = g_vfs_ready s"
    "fe_type (g_filetable s1 ! i) \<noteq> VFS_TYPE_EMPTY" "j \<noteq> i \<Longrightarrow> g_filetable s1 ! j = g_filetable s ! j"
    "length (cstr path) < VFS_MAX_FILENAME \<Longrightarrow> find_slot (file_named path) (g_filetable s1) = Some i"
proof -
  have len: "length (g_filetable s) = 32" using wf by (simp add: vfs_wf_def)
  have "i < 32 \<and> vfs_wf s1 \<and> vfs_disk s1 = vfs_disk s \<and> g_superblock s1 = g_superblock s \<and> g_vfs_ready s1 = g_vfs_ready s
    \<and> fe_type (g_filetable s1 ! i) \<noteq> VFS_TYPE_EMPTY \<and> (j \<noteq> i \<longrightarrow> g_filetable s1 ! j = g_filetable s ! j)
    \<and> (length (cstr path) < 32 \<longrightarrow> find_slot (file_named path) (g_filetable s1) = Some i)"
    using ws
  proof (cases rule: vfs_write_slot_cases)
    case existing
    with wf len find_slot_SomeD [OF existing(1)] show ?thesis by (simp add: file_named_def)
  next
    case fresh
    have none: "\<not> file_named path (g_filetable s ! j)" if "j < 32" for j
      using find_slot_NoneD [OF fresh(1)] that len by simp
    have "find_slot (file_named path) (g_filetable s1) = Some i" if "length (cstr path) < 32"
      using that fresh none len by (intro find_slot_unique)
        (auto simp: nth_list_update new_entry_named split: if_splits)
    moreover have "vfs_wf s1" using wf fresh by (auto simp: vfs_wf_def list_all_length nth_list_update intro: new_entry_ok)
    ultimately show ?thesis using fresh len by (simp add: new_entry_def)
  qed
  then show "i < VFS_MAX_FILES" "vfs_wf s1" "vfs_disk s1 = vfs_disk s" "g_superblock s1 = g_superblock s" "g_vfs_ready s1 = g_vfs_ready s"
    "fe_type (g_filetable s1 ! i) \<noteq> VFS_TYPE_EMPTY" "j \<noteq> i \<Longrightarrow> g_filetable s1 ! j = g_filetable s ! j"
    "length (cstr path) < VFS_MAX_FILENAME \<Longrightarrow> find_slot (file_named path) (g_filetable s1) = Some i" by simp_all
qed

text \<open>What a successful \<open>vfs_write_file\<close> has done.\<close>

definition finished_sb :: "nat \<Rightarrow> VfsFileEntry \<Rightarrow> VfsFileEntry list \<Rightarrow> VfsSuperblock \<Rightarrow> VfsSuperblock" where
  "finished_sb len e table sb =
     (let end_sector = fe_start_sector e + (of_nat len + 511) div 512
      in sb\<lparr>sb_first_free_sector := (if end_sector > sb_first_free_sector sb then end_sector else sb_first_free_sector sb),
            sb_file_count := count_files table\<rparr>)"

context block_device
begin

lemma finish_write_correct:
  assumes inv: "dinv (vfs_disk s)" and wf: "vfs_wf s" and i: "i < VFS_MAX_FILES" and len: "len < 2 ^ 31"
    and fin: "vfs_finish_write ops i len s = (r, s')" and ok: "0 \<le> r"
    and e: "e = (g_filetable s ! i)\<lparr>fe_size := of_nat len\<rparr>"
  shows "r = int len" "g_filetable s' = (g_filetable s)[i := e]" "g_superblock s' = finished_sb len e (g_filetable s') (g_superblock s)"
    "g_vfs_ready s' = g_vfs_ready s" "dinv (vfs_disk s')" "vfs_wf s'" "metadata_on (view (vfs_disk s')) s'"
    "x \<notin> sector_range VFS_START_SECTOR 5 \<Longrightarrow> view (vfs_disk s') x = view (vfs_disk s) x"
proof -
  have tab: "length (g_filetable s) = 32" "list_all entry_ok (g_filetable s)" using wf by (simp_all add: vfs_wf_def)
  define t where "t = (g_filetable s)[i := e]"
  define s1 where "s1 = s\<lparr>g_filetable := t, g_superblock := finished_sb len e t (g_superblock s)\<rparr>"
  obtain rc s2 where fl: "vfs_flush_metadata ops s1 = (rc, s2)" by fastforce
  have "t ! i = e" using i tab by (simp add: t_def)
  then have rs: "r = (if rc = 0 then sint (of_nat len :: u32) else -1)" "s' = s2"
    using fin fl i tab by (auto simp: vfs_finish_write_def Let_def s1_def t_def e finished_sb_def cong: if_cong)
  then have rc: "rc = 0" using ok by (simp split: if_splits)
  have "entry_ok e" using tab i by (simp add: e list_all_length entry_ok_def)
  then have wf1: "vfs_wf s1" using wf tab by (simp add: vfs_wf_def s1_def t_def finished_sb_def Let_def list_all_update)
  have inv1: "dinv (vfs_disk s1)" using inv by (simp add: s1_def)
  note f = flush_metadata_correct [OF inv1 wf1 fl]
  have eqs: "g_filetable s2 = t" "g_superblock s2 = finished_sb len e t (g_superblock s)" "g_vfs_ready s2 = g_vfs_ready s"
    using f(2) by (metis s1_def vfs.select_convs vfs.surjective vfs.update_convs)+
  show "r = int len" using rs rc len by (simp add: sint_len)
  show "g_filetable s' = (g_filetable s)[i := e]" "g_superblock s' = finished_sb len e (g_filetable s') (g_superblock s)"
    "g_vfs_ready s' = g_vfs_ready s" using eqs rs by (simp_all add: t_def)
  show "dinv (vfs_disk s')" "metadata_on (view (vfs_disk s')) s'" using f rc rs by simp_all
  show "vfs_wf s'" using wf1 eqs rs by (simp add: vfs_wf_def s1_def)
  show "x \<notin> sector_range VFS_START_SECTOR 5 \<Longrightarrow> view (vfs_disk s') x = view (vfs_disk s) x"
    using f(4) rs by (simp add: s1_def)
qed

lemma write_file_effect:
  assumes inv: "dinv (vfs_disk s)" and wf: "vfs_wf s" and len: "len \<le> length data" "len < 2 ^ 31"
    and wr: "vfs_write_file ops path data len s = (r, s')" and ok: "0 \<le> r"
  obtains i s1 e where "vfs_write_slot path s = Some (i, s1)" "e = (g_filetable s1 ! i)\<lparr>fe_size := of_nat len\<rparr>"
    "r = int len" "sectors_for len \<le> 255" "g_filetable s' = (g_filetable s1)[i := e]"
    "g_superblock s' = finished_sb len e (g_filetable s') (g_superblock s)"
    "g_vfs_ready s'" "dinv (vfs_disk s')" "vfs_wf s'" "metadata_on (view (vfs_disk s')) s'"
    "\<And>x. x \<notin> sector_range VFS_START_SECTOR 5 \<Longrightarrow> x \<notin> file_sectors e \<Longrightarrow> view (vfs_disk s') x = view (vfs_disk s) x"
    "unat (fe_start_sector e) + 5125 + sectors_for len \<le> 2 ^ 32 \<Longrightarrow> file_bytes (view (vfs_disk s')) e = take len data"
proof -
  have ready: "g_vfs_ready s" using wr ok by (auto simp: vfs_write_file_def split: if_splits)
  obtain i s1 where ws: "vfs_write_slot path s = Some (i, s1)"
    using wr ok ready by (cases "vfs_write_slot path s") (auto simp: vfs_write_file_def)
  note w = vfs_write_slot_facts [OF ws wf]
  define e where "e = (g_filetable s1 ! i)\<lparr>fe_size := of_nat len\<rparr>"
  have wrd: "len + 511 < 2 ^ 32" using len(2) by simp
  have small: "sectors_for len \<le> 255"
    using wr ok ready ws sectors_bound_word [OF wrd] by (auto simp: vfs_write_file_def not_less [symmetric])
  have fs: "file_sectors e = sector_range (data_sector e) (sectors_for len)" "unat (fe_size e) = len"
    using len(2) by (simp_all add: file_sectors_def e_def unat_of_nat)
  obtain okd d where wd: "vfs_write_data ops (data_sector e) data len (vfs_disk s1) = (okd, d)" by fastforce
  have inv1: "dinv (vfs_disk s1)" using inv w by simp
  note d = write_data_correct [OF inv1 len(1) small wd]
  have "okd" and fin: "vfs_finish_write ops i len (s1\<lparr>vfs_disk := d\<rparr>) = (r, s')"
    using wr ok ready ws wd small sectors_bound_word [OF wrd]
    by (auto simp: vfs_write_file_def Let_def data_sector_def e_def split: if_splits)
  have e': "e = (g_filetable (s1\<lparr>vfs_disk := d\<rparr>) ! i)\<lparr>fe_size := of_nat len\<rparr>" by (simp add: e_def)
  note f = finish_write_correct [OF _ _ w(1) len(2) fin ok e']
  have pre: "dinv (vfs_disk (s1\<lparr>vfs_disk := d\<rparr>))" "vfs_wf (s1\<lparr>vfs_disk := d\<rparr>)" using d(1) w(2) by (simp_all add: vfs_wf_def)
  have bytes: "file_bytes (view (vfs_disk s')) e = take len data" if "unat (fe_start_sector e) + 5125 + sectors_for len \<le> 2 ^ 32"
  proof -
    have "sectors (view (vfs_disk s')) (data_sector e) (sectors_for len) = sectors (view d) (data_sector e) (sectors_for len)"
      using metadata_disjoint [OF that] f(8) [OF pre] by (intro sectors_cong) auto
    then show ?thesis using d(3) [OF \<open>okd\<close>] fs(2) by (simp add: file_bytes_def)
  qed
  have out: "view (vfs_disk s') x = view (vfs_disk s) x" if "x \<notin> sector_range VFS_START_SECTOR 5" "x \<notin> file_sectors e" for x
    using that f(8) [OF pre that(1)] d(2) [of x] fs(1) w(3) by simp
  show ?thesis
    using that [OF ws e_def f(1) [OF pre] small] f(2-7) [OF pre] w(4,5) ready bytes out by simp
qed

lemma read_file_effect:
  assumes inv: "dinv (vfs_disk s)" and fnd: "vfs_find_file path s = Some i" and e: "e = g_filetable s ! i"
    and size: "n = min (unat (fe_size e)) max_len" "sectors_for n \<le> 255" and buf: "sectors_for n * 512 \<le> length buf"
    and rd: "vfs_read_file ops path buf max_len s = ((r, buf'), s')"
  shows "dinv (vfs_disk s')" "view (vfs_disk s') = view (vfs_disk s)" "s' = s\<lparr>vfs_disk := vfs_disk s'\<rparr>"
    "drop (sectors_for n * 512) buf' = drop (sectors_for n * 512) buf" "length buf' = length buf"
    "0 \<le> r \<Longrightarrow> r = int n \<and> take (sectors_for n * 512) buf' = sectors (view (vfs_disk s)) (data_sector e) (sectors_for n)"
proof -
  define size where "size = (if unat (fe_size e) > max_len then of_nat max_len else fe_size e)"
  have bound: "n \<le> 255 * 512" using sectors_for_le(1) [of n] size(2) by linarith
  have us: "size = of_nat n"
  proof (cases "unat (fe_size e) > max_len")
    case False
    then show ?thesis by (simp add: size_def assms(4) min_def)
  qed (simp add: size_def assms(4) min_def)
  have small: "n + 511 < 2 ^ 32" using bound by simp
  have sects: "unat (if (size + 511) div 512 > 255 then 255 else (size + 511) div 512) = sectors_for n"
    using unat_sectors [OF small] sectors_bound_word [OF small] size(2) by (auto simp: us)
  obtain ok b d where l: "vfs_read_loop ops (data_sector e) (sectors_for n) 0 buf (vfs_disk s) = ((ok, b), d)"
    by (metis prod.collapse)
  have res: "r = (if ok then sint size else -1)" "buf' = b" "s' = s\<lparr>vfs_disk := d\<rparr>"
    using rd fnd l sects by (auto simp: vfs_read_file_def Let_def size_def [symmetric] data_sector_def e [symmetric] cong: if_cong)
  have c: "dinv d \<and> view d = view (vfs_disk s) \<and> length b = length buf \<and> drop (sectors_for n * 512) b = drop (sectors_for n * 512) buf
    \<and> (ok \<longrightarrow> take (sectors_for n * 512) b = sectors (view (vfs_disk s)) (data_sector e) (sectors_for n))"
    using read_loop_correct [OF inv _ size(2) buf _ l] by simp
  show "dinv (vfs_disk s')" "view (vfs_disk s') = view (vfs_disk s)" "s' = s\<lparr>vfs_disk := vfs_disk s'\<rparr>"
    "drop (sectors_for n * 512) buf' = drop (sectors_for n * 512) buf" "length buf' = length buf"
    using c res by simp_all
  show "r = int n \<and> take (sectors_for n * 512) buf' = sectors (view (vfs_disk s)) (data_sector e) (sectors_for n)" if "0 \<le> r"
    using that c res bound by (auto simp: us sint_len split: if_splits)
qed

text \<open>A file that fits the buffer is delivered whole.\<close>

lemma read_file_bytes:
  assumes "dinv (vfs_disk s)" "vfs_find_file path s = Some i" "unat (fe_size (g_filetable s ! i)) \<le> max_len"
    "sectors_for (unat (fe_size (g_filetable s ! i))) \<le> 255" "sectors_for (unat (fe_size (g_filetable s ! i))) * 512 \<le> length buf"
    "vfs_read_file ops path buf max_len s = ((r, buf'), s')" "0 \<le> r"
  shows "r = int (unat (fe_size (g_filetable s ! i))) \<and> take (nat r) buf' = file_bytes (view (vfs_disk s)) (g_filetable s ! i)"
proof -
  let ?n = "unat (fe_size (g_filetable s ! i))"
  have n: "?n = min ?n max_len" using assms(3) by simp
  have "r = int ?n \<and> take (sectors_for ?n * 512) buf' = sectors (view (vfs_disk s)) (data_sector (g_filetable s ! i)) (sectors_for ?n)"
    using read_file_effect(6) [OF assms(1,2) refl n assms(4,5,6,7)] .
  moreover have "take ?n buf' = take ?n (take (sectors_for ?n * 512) buf')" using sectors_for_le(1) [of ?n] by (simp add: min_def)
  ultimately show ?thesis by (simp add: file_bytes_def)
qed

lemma write_file_found:
  assumes inv: "dinv (vfs_disk s)" and wf: "vfs_wf s" and len: "len \<le> length data" "len < 2 ^ 31"
    and name: "length (cstr path) < VFS_MAX_FILENAME"
    and wr: "vfs_write_file ops path data len s = (r, s1)" "0 \<le> r"
  obtains i t where "vfs_write_slot path s = Some (i, t)" "vfs_find_file path s1 = Some i"
    "unat (fe_size (g_filetable s1 ! i)) = len" "r = int len" "sectors_for len \<le> 255" "dinv (vfs_disk s1)"
    "unat (fe_start_sector (g_filetable t ! i)) + 5125 + sectors_for len \<le> 2 ^ 32 \<Longrightarrow>
       file_bytes (view (vfs_disk s1)) (g_filetable s1 ! i) = take len data"
proof -
  obtain i t e where w: "vfs_write_slot path s = Some (i, t)" "e = (g_filetable t ! i)\<lparr>fe_size := of_nat len\<rparr>"
    "r = int len" "sectors_for len \<le> 255" "g_filetable s1 = (g_filetable t)[i := e]" "g_vfs_ready s1" "dinv (vfs_disk s1)"
    "unat (fe_start_sector e) + 5125 + sectors_for len \<le> 2 ^ 32 \<Longrightarrow> file_bytes (view (vfs_disk s1)) e = take len data"
    using write_file_effect [OF inv wf len wr] by metis
  note f = vfs_write_slot_facts [OF w(1) wf]
  have i: "i < length (g_filetable t)" using f(1,2) by (simp add: vfs_wf_def)
  have sz: "unat (fe_size e) = len" using len(2) by (simp add: w(2) unat_of_nat)
  have fi: "find_slot (file_named path) (g_filetable t) = Some i" using f(8) name by simp
  have "file_named path e = file_named path (g_filetable t ! i)" by (simp add: w(2) file_named_def)
  then have "find_slot (file_named path) (g_filetable s1) = Some i"
    using fi i by (auto simp: w(5) find_slot_Some_iff nth_list_update)
  then have fnd: "vfs_find_file path s1 = Some i" using w(6) by (simp add: vfs_find_file_def)
  have ei: "g_filetable s1 ! i = e" using i by (simp add: w(5))
  show ?thesis using that [OF w(1) fnd _ w(3,4,7)] w(8) ei sz by (simp add: w(2))
qed

lemma write_then_read:
  assumes inv: "dinv (vfs_disk s)" and wf: "vfs_wf s" and len: "len \<le> length data" "len < 2 ^ 31"
    and name: "length (cstr path) < VFS_MAX_FILENAME"
    and wr: "vfs_write_file ops path data len s = (r, s1)" "0 \<le> r"
    and room: "\<And>i s'. vfs_write_slot path s = Some (i, s') \<Longrightarrow>
        unat (fe_start_sector (g_filetable s' ! i)) + 5125 + sectors_for len \<le> 2 ^ 32"
    and rd: "vfs_read_file ops path buf max_len s1 = ((r', buf'), s2)" "0 \<le> r'"
    and buf: "len \<le> max_len" "sectors_for len * 512 \<le> length buf"
  shows "r = int len \<and> r' = int len \<and> take len buf' = take len data"
proof -
  obtain i t where w: "vfs_write_slot path s = Some (i, t)" "vfs_find_file path s1 = Some i"
    "unat (fe_size (g_filetable s1 ! i)) = len" "r = int len" "sectors_for len \<le> 255" "dinv (vfs_disk s1)"
    "unat (fe_start_sector (g_filetable t ! i)) + 5125 + sectors_for len \<le> 2 ^ 32 \<Longrightarrow>
       file_bytes (view (vfs_disk s1)) (g_filetable s1 ! i) = take len data"
    using write_file_found [OF inv wf len name wr] by metis
  have "r' = int len \<and> take (nat r') buf' = file_bytes (view (vfs_disk s1)) (g_filetable s1 ! i)"
    using read_file_bytes [OF w(6,2), of max_len buf r' buf' s2] rd buf w(3,5) by auto
  with w(4) w(7) [OF room [OF w(1)]] show ?thesis by auto
qed

end

section \<open>Extents\<close>

text \<open>
  A layout is well formed when every file lies below the first free sector. New files are placed there,
  so they cannot overlap with others.
\<close>

definition extent_end :: "VfsFileEntry \<Rightarrow> nat" where
  "extent_end e = unat (fe_start_sector e) + sectors_for (unat (fe_size e))"

definition vfs_layout :: "'d vfs \<Rightarrow> bool" where
  "vfs_layout s \<longleftrightarrow> unat (sb_first_free_sector (g_superblock s)) + 5125 + 255 \<le> 2 ^ 32
     \<and> list_all (\<lambda>e. fe_type e \<noteq> VFS_TYPE_EMPTY \<longrightarrow> extent_end e \<le> unat (sb_first_free_sector (g_superblock s))) (g_filetable s)"

lemma extents_disjoint:
  assumes "extent_end a \<le> unat (fe_start_sector b)" "unat (fe_start_sector b) + 5125 + n \<le> 2 ^ 32"
  shows "file_sectors a \<inter> sector_range (data_sector b) n = {}"
proof -
  let ?a = "unat (fe_start_sector a)" and ?b = "unat (fe_start_sector b)"
  have "data_sector a + of_nat i \<noteq> data_sector b + of_nat j" if i: "i < sectors_for (unat (fe_size a))" and j: "j < n" for i j
  proof
    assume eq: "data_sector a + of_nat i = data_sector b + (of_nat j :: u32)"
    have "data_sector a + of_nat i = of_nat (5125 + ?a + i)" "data_sector b + of_nat j = of_nat (5125 + ?b + j)"
      by (simp_all add: data_sector_def)
    with eq have "unat (of_nat (5125 + ?a + i) :: u32) = unat (of_nat (5125 + ?b + j) :: u32)" by metis
    moreover have "5125 + ?a + i < 2 ^ 32" "5125 + ?b + j < 2 ^ 32" "?a + i < ?b"
      using assms i j by (auto simp: extent_end_def)
    ultimately show False by (simp only: unat_of_nat) simp
  qed
  then show ?thesis by (auto simp: file_sectors_def sector_range_def)
qed

context block_device
begin

lemma write_new_preserves:
  assumes inv: "dinv (vfs_disk s)" and wf: "vfs_wf s" and lay: "vfs_layout s" and len: "len \<le> length data" "len < 2 ^ 31"
    and new: "find_slot (file_named path) (g_filetable s) = None"
    and wr: "vfs_write_file ops path data len s = (r, s')" "0 \<le> r"
  shows "\<And>j. j < VFS_MAX_FILES \<Longrightarrow> fe_type (g_filetable s ! j) \<noteq> VFS_TYPE_EMPTY \<Longrightarrow>
      g_filetable s' ! j = g_filetable s ! j \<and>
      file_bytes (view (vfs_disk s')) (g_filetable s' ! j) = file_bytes (view (vfs_disk s)) (g_filetable s ! j)"
    "vfs_file_count s' = count_files (g_filetable s')"
    "unat (sb_first_free_sector (g_superblock s')) = unat (sb_first_free_sector (g_superblock s)) + sectors_for len"
proof -
  obtain i t e where w: "vfs_write_slot path s = Some (i, t)" "e = (g_filetable t ! i)\<lparr>fe_size := of_nat len\<rparr>"
    "sectors_for len \<le> 255" "g_filetable s' = (g_filetable t)[i := e]" "g_vfs_ready s'"
    "g_superblock s' = finished_sb len e (g_filetable s') (g_superblock s)"
    "\<And>x. x \<notin> sector_range VFS_START_SECTOR 5 \<Longrightarrow> x \<notin> file_sectors e \<Longrightarrow> view (vfs_disk s') x = view (vfs_disk s) x"
    using write_file_effect [OF inv wf len wr] by metis
  let ?ff = "sb_first_free_sector (g_superblock s)"
  from w(1) have slot: "fe_type (g_filetable s ! i) = VFS_TYPE_EMPTY" "i < length (g_filetable s)"
    "t = s\<lparr>g_filetable := (g_filetable s)[i := new_entry path s (g_filetable s ! i)]\<rparr>"
    by (cases rule: vfs_write_slot_cases; use new in simp)+
  have e: "fe_start_sector e = ?ff" "unat (fe_size e) = len"
    using slot len(2) by (simp_all add: w(2) new_entry_def unat_of_nat)
  have ff: "unat ?ff + 5125 + 255 \<le> 2 ^ 32" using lay by (simp add: vfs_layout_def)
  {
    fix j assume j: "j < VFS_MAX_FILES" "fe_type (g_filetable s ! j) \<noteq> VFS_TYPE_EMPTY"
    then have "j \<noteq> i" using slot(1) by auto
    then have same: "g_filetable s' ! j = g_filetable s ! j" using slot by (simp add: w(4))
    let ?a = "g_filetable s ! j"
    have "j < length (g_filetable s)" using j wf by (simp add: vfs_wf_def)
    then have low: "extent_end ?a \<le> unat ?ff" using lay j by (auto simp: vfs_layout_def list_all_length)
    have "file_sectors ?a \<inter> file_sectors e = {}"
      using extents_disjoint [of ?a e "sectors_for len"] low ff w(3) by (simp add: e file_sectors_def [of e])
    moreover have "file_sectors ?a \<inter> sector_range VFS_START_SECTOR 5 = {}"
      unfolding file_sectors_def using low ff by (intro metadata_disjoint) (simp add: extent_end_def)
    ultimately have "sectors (view (vfs_disk s')) (data_sector ?a) (sectors_for (unat (fe_size ?a)))
        = sectors (view (vfs_disk s)) (data_sector ?a) (sectors_for (unat (fe_size ?a)))"
      using w(7) by (intro sectors_cong) (auto simp: file_sectors_def)
    with same show "g_filetable s' ! j = g_filetable s ! j \<and>
      file_bytes (view (vfs_disk s')) (g_filetable s' ! j) = file_bytes (view (vfs_disk s)) (g_filetable s ! j)"
      by (simp add: file_bytes_def)
  }
  show "vfs_file_count s' = count_files (g_filetable s')" using w(5,6) by (simp add: vfs_file_count_def finished_sb_def Let_def)
  have "unat ((of_nat len + 511) div 512 :: u32) = sectors_for len" using len(2) by (intro unat_sectors) simp
  then have "unat (?ff + (of_nat len + 511) div 512) = unat ?ff + sectors_for len"
    using ff w(3) by (subst unat_add_lem [THEN iffD1]) simp_all
  then show "unat (sb_first_free_sector (g_superblock s')) = unat ?ff + sectors_for len"
    by (auto simp: w(6) finished_sb_def Let_def e word_less_nat_alt)
qed

end

section \<open>Directories\<close>

text \<open>The index that the scan of \<open>vfs_is_child_of\<close> computes, and the parent path it stands for.\<close>

definition parent_of :: "cstring \<Rightarrow> cstring" where
  "parent_of p = rev (tl (dropWhile (\<lambda>c. c \<noteq> CHR ''/'') (rev p)))"

lemma last_slash_loop_cstr: "last_slash_loop i ls a = last_slash_loop i ls (cstr a)"
  by (induction a arbitrary: i ls) (auto simp: cstr_def)

lemma last_slash_loop_snoc:
  "NUL \<notin> set a \<Longrightarrow> c \<noteq> NUL \<Longrightarrow>
   last_slash_loop i ls (a @ [c]) = (if c = CHR ''/'' then i + length a else last_slash_loop i ls a)"
  by (induction a arbitrary: i ls) auto

lemma last_slash_parent:
  "NUL \<notin> set a \<Longrightarrow> CHR ''/'' \<in> set a \<Longrightarrow> last_slash_loop 0 0 a = length (parent_of a) \<and> take (length (parent_of a)) a = parent_of a"
proof (induction a rule: rev_induct)
  case (snoc c a)
  then show ?case
  proof (cases "c = CHR ''/''")
    case False
    with snoc length_dropWhile_le [of "\<lambda>c. c \<noteq> CHR ''/''" "rev a"] show ?thesis
      by (auto simp: last_slash_loop_snoc parent_of_def)
  qed (auto simp: last_slash_loop_snoc parent_of_def)
qed simp

lemma cstr_eq_chars:
  "NUL \<notin> set q \<Longrightarrow> cstr p = q \<longleftrightarrow> (\<forall>i < length q. char_at p i = q ! i) \<and> char_at p (length q) = NUL"
proof (induction q arbitrary: p)
  case Nil
  show ?case by (cases p) (auto simp: cstr_def char_at_def)
next
  case (Cons x q)
  show ?case
  proof (cases p)
    case Nil
    with Cons.prems show ?thesis by (auto simp: cstr_def char_at_def)
  next
    case p: (Cons y ys)
    have "cstr (y # ys) = x # q \<longleftrightarrow> y = x \<and> cstr ys = q" using Cons.prems by (auto simp: cstr_def)
    moreover have "char_at (y # ys) (Suc i) = char_at ys i" for i by (simp add: char_at_def)
    ultimately show ?thesis using Cons p by (auto simp: All_less_Suc2 char_at_def [of _ 0])
  qed
qed

lemma char_at_cstr: "i < length (cstr a) \<Longrightarrow> char_at a i = cstr a ! i"
  using length_cstr_le [of a] by (simp add: char_at_def cstr_def takeWhile_nth)

lemma is_child_correct:
  assumes "CHR ''/'' \<in> set (cstr child)"
  shows "vfs_is_child_of child parent \<longleftrightarrow>
    cstr parent = (if parent_of (cstr child) = [] then ''/'' else parent_of (cstr child))"
proof -
  let ?c = "cstr child" and ?q = "parent_of (cstr child)"
  have ls: "last_slash_loop 0 0 child = length ?q" and tk: "take (length ?q) ?c = ?q"
    using last_slash_parent [OF cstr_no_NUL assms] last_slash_loop_cstr [of 0 0 child] by simp_all
  have qn: "NUL \<notin> set ?q" using no_NUL_take_cstr [of "length ?q" child] tk by simp
  have len: "length ?q \<le> length ?c" 
    using length_dropWhile_le [of "\<lambda>c. c \<noteq> CHR ''/''" "rev ?c"] by (simp add: parent_of_def)
  have ch: "char_at child i = ?q ! i" if "i < length ?q" for i
    using that len char_at_cstr [of i child] tk by (metis nth_take order.strict_trans2)
  have nz: "?q ! i \<noteq> NUL" if "i < length ?q" for i using that qn by (metis nth_mem)
  show ?thesis
  proof (cases "?q = []")
    case True
    have "cstr parent = ''/'' \<longleftrightarrow> char_at parent 0 = CHR ''/'' \<and> char_at parent 1 = NUL"
      using cstr_eq_chars [of "''/''" parent] by simp
    with True ls show ?thesis by (simp add: vfs_is_child_of_def)
  next
    case False
    have "cstr parent = ?q \<longleftrightarrow> (\<forall>i < length ?q. char_at parent i = ?q ! i) \<and> char_at parent (length ?q) = NUL"
      using cstr_eq_chars [OF qn] .
    also have "\<dots> \<longleftrightarrow> list_all (\<lambda>i. char_at child i = char_at parent i \<and> char_at parent i \<noteq> NUL) [0..<length ?q]
        \<and> char_at parent (length ?q) = NUL"
      using ch nz by (auto simp: list_all_iff)
    finally show ?thesis using False ls by (simp add: vfs_is_child_of_def Let_def)
  qed
qed

section \<open>Progress on a reliable device\<close>

context reliable_device
begin

lemma write_full_succeeds:
  assumes "dinv d" "(k + n) * 512 \<le> length data"
  shows "fst (vfs_write_full ops a k n data d) \<and> dinv (snd (vfs_write_full ops a k n data d))"
  using assms
proof (induction n arbitrary: k d)
  case (Suc n)
  have c: "length (chunk data k) = unat (1 :: u8) * 512" using Suc.prems(2) by (subst length_chunk) simp_all
  obtain rc d1 where w: "disk_write ops (a + of_nat k) 1 (chunk data k) d = (rc, d1)" by fastforce
  have "0 \<le> rc" "dinv d1" using write_succeeds [OF Suc.prems(1) c] write_inv [OF Suc.prems(1) c w] w
    by (metis fst_conv)+
  with Suc w show ?case by simp
qed simp

lemma write_data_succeeds:
  assumes inv: "dinv d" and len: "len \<le> length data" "sectors_for len \<le> 255"
  shows "fst (vfs_write_data ops a data len d) \<and> dinv (snd (vfs_write_data ops a data len d))"
proof -
  let ?f = "len div 512" and ?r = "len mod 512"
  have "len \<le> 255 * 512" using sectors_for_le(1) [of len] len(2) by linarith
  then have split: "unat (of_nat len div 512 :: u32) = ?f" "unat (of_nat len mod 512 :: u32) = ?r"
    by (simp_all add: unat_len_split)
  have decomp: "?f * 512 + ?r = len" by simp
  obtain ok1 d1 where w1: "vfs_write_full ops a 0 ?f data d = (ok1, d1)" by fastforce
  have ok1: ok1 "dinv d1" using write_full_succeeds [OF inv, of 0 ?f data a] w1 len(1) decomp by simp_all
  define pad where "pad = take ?r (drop (?f * 512) data) @ replicate (512 - ?r) 0"
  have "?r \<le> length data - ?f * 512" "?r < 512" using len(1) decomp by (linarith, simp)
  then have lp: "length pad = unat (1 :: u8) * 512" by (simp add: pad_def)
  obtain rc d2 where w2: "disk_write ops (a + of_nat ?f) 1 pad d1 = (rc, d2)" by fastforce
  have "0 \<le> rc" "dinv d2" using write_succeeds [OF ok1(2) lp] write_inv [OF ok1(2) lp w2] w2 by (metis fst_conv)+
  then show ?thesis using w1 w2 ok1 split by (simp add: vfs_write_data_def Let_def pad_def)
qed

lemma flush_succeeds:
  assumes inv: "dinv (vfs_disk s)" and wf: "vfs_wf s"
  shows "fst (vfs_flush_metadata ops s) = 0"
proof -
  let ?sb = "blit (replicate 512 0) 0 (sb_encode (g_superblock s))" and ?tab = "table_encode (g_filetable s)"
  have sb: "length ?sb = unat (1 :: u8) * 512" using wf length_sb_sector [of "g_superblock s"] by (simp add: vfs_wf_def)
  have tab: "length ?tab = unat VFS_FILETABLE_SECTORS * 512"
    using wf table_decode_encode(2) [of "g_filetable s"] by (simp add: vfs_wf_def)
  obtain r1 d1 where w1: "disk_write ops 5120 1 ?sb (vfs_disk s) = (r1, d1)" by fastforce
  have d1: "0 \<le> r1" "dinv d1" using write_succeeds [OF inv sb] write_inv [OF inv sb w1] w1 by (metis fst_conv)+
  obtain r2 d2 where w2: "disk_write ops 5121 4 ?tab d1 = (r2, d2)" by fastforce
  have "0 \<le> r2" using write_succeeds [OF d1(2) tab] w2 by (metis fst_conv)
  with w1 w2 d1 show ?thesis by (simp add: vfs_flush_metadata_def Let_def)
qed

lemma write_file_succeeds:
  assumes inv: "dinv (vfs_disk s)" and wf: "vfs_wf s" and ready: "g_vfs_ready s" and slot: "vfs_write_slot path s \<noteq> None"
    and len: "len \<le> length data" "sectors_for len \<le> 255"
  shows "fst (vfs_write_file ops path data len s) = int len"
proof -
  obtain i s1 where ws: "vfs_write_slot path s = Some (i, s1)" using slot by auto
  note w = vfs_write_slot_facts [OF ws wf]
  have bound: "len \<le> 255 * 512" using sectors_for_le(1) [of len] len(2) by linarith
  have small: "\<not> (of_nat len + 511) div 512 > (255 :: u32)" using sectors_bound_word [of len] bound len(2) by simp
  let ?a = "data_sector (g_filetable s1 ! i)"
  obtain ok d where wd: "vfs_write_data ops ?a data len (vfs_disk s1) = (ok, d)" by fastforce
  have d: ok "dinv d" using write_data_succeeds [of "vfs_disk s1" len data ?a] inv w(3) len wd by simp_all
  define t where "t = (g_filetable s1)[i := (g_filetable s1 ! i)\<lparr>fe_size := of_nat len\<rparr>]"
  define s2 where "s2 = s1\<lparr>vfs_disk := d, g_filetable := t, g_superblock := finished_sb len (t ! i) t (g_superblock s1)\<rparr>"
  have "vfs_wf s2"
    using w(1,2) by (auto simp: vfs_wf_def s2_def t_def finished_sb_def Let_def list_all_length nth_list_update entry_ok_def)
  then have "fst (vfs_flush_metadata ops s2) = 0" using d by (intro flush_succeeds) (simp_all add: s2_def)
  moreover have "vfs_write_file ops path data len s = (let (rc, s3) = vfs_flush_metadata ops s2
      in (if rc = 0 then sint (of_nat len :: u32) else -1, s3))"
    using ready ws small wd d
    by (simp add: vfs_write_file_def vfs_finish_write_def data_sector_def Let_def s2_def t_def finished_sb_def cong: if_cong)
  ultimately show ?thesis using bound by (simp add: sint_len split_beta)
qed

end

context flawless_device
begin

lemma vfs_read_loop_succeeds:
  assumes "dinv d" "sects * 512 \<le> length buf"
  shows "fst (fst (vfs_read_loop ops a sects k buf d))"
  using assms
proof (induction "sects - k" arbitrary: k buf d rule: less_induct)
  case less
  show ?case
  proof (cases "k < sects")
    case True
    define n where "n = (if sects - k > 128 then 128 else sects - k)"
    define slice where "slice = take (n * 512) (drop (k * 512) buf)"
    have n: "0 < n" "n \<le> 128" "k + n \<le> sects" using True by (auto simp: n_def)
    have "(k + n) * 512 \<le> length buf" using n(3) less.prems(2) by (meson mult_le_mono1 order_trans)
    then have len: "length slice = unat (of_nat n :: u8) * 512" and room: "k * 512 + n * 512 \<le> length buf"
      using n(2) by (simp_all add: slice_def unat_of_nat)
    obtain rc part d1 where rd: "disk_read ops (a + of_nat k) (of_nat n) slice d = ((rc, part), d1)" by (metis prod.collapse)
    have keep: "dinv d1" "length part = n * 512" using read_keeps [OF less.prems(1) len rd] len n(2) by (auto simp: unat_of_nat)
    have "0 \<le> rc" using read_succeeds [OF less.prems(1) len, of "a + of_nat k"] rd by simp
    then have "vfs_read_loop ops a sects k buf d = vfs_read_loop ops a sects (k + n) (blit buf (k * 512) part) d1"
      using True rd by (simp add: vfs_read_loop.simps [of ops a sects k] n_def [symmetric] slice_def Let_def)
    moreover have "fst (fst (vfs_read_loop ops a sects (k + n) (blit buf (k * 512) part) d1))"
      using True n keep room less.prems(2) by (intro less.hyps) simp_all
    ultimately show ?thesis by simp
  qed (simp add: vfs_read_loop.simps)
qed

lemma read_file_succeeds:
  assumes "dinv (vfs_disk s)" "vfs_find_file path s = Some i" "n = unat (fe_size (g_filetable s ! i))"
    and "n \<le> max_len" "sectors_for n \<le> 255" "sectors_for n * 512 \<le> length buf"
  shows "0 \<le> fst (fst (vfs_read_file ops path buf max_len s))"
proof -
  let ?sz = "fe_size (g_filetable s ! i)"
  have bound: "n \<le> 255 * 512" using sectors_for_le(1) [of n] assms(5) by linarith
  then have small: "n + 511 < 2 ^ 32" by simp
  have sz: "?sz = of_nat n" using assms(3) by simp
  have sects: "unat (if (?sz + 511) div 512 > 255 then 255 else (?sz + 511) div 512) = sectors_for n"
    using unat_sectors [OF small] sectors_bound_word [OF small] assms(5) by (auto simp: sz)
  have "0 \<le> sint ?sz" using sint_len [of n] bound by (simp add: sz)
  then show ?thesis
    using vfs_read_loop_succeeds [OF assms(1,6)] sects assms(2-4)
    by (auto simp: vfs_read_file_def Let_def split_beta cong: if_cong)
qed

end

text \<open>On a disk that never fails, reads and initialisation succeed.\<close>

lemma ram_vfs_read_loop: "fst (fst (vfs_read_loop ram_ops a n k buf d))"
proof (induction "n - k" arbitrary: k buf d rule: less_induct)
  case less
  then show ?case by (subst vfs_read_loop.simps) (auto simp: ram_ops_def Let_def)
qed

lemma ram_read_file:
  assumes "vfs_find_file path s = Some i" "unat (fe_size (g_filetable s ! i)) \<le> max_len" "unat (fe_size (g_filetable s ! i)) < 2 ^ 31"
  shows "0 \<le> fst (fst (vfs_read_file ram_ops path buf max_len s))"
proof -
  have "sint (fe_size (g_filetable s ! i)) = int (unat (fe_size (g_filetable s ! i)))"
    using sint_len [OF assms(3)] by simp
  with assms ram_vfs_read_loop show ?thesis by (auto simp: vfs_read_file_def Let_def split_beta)
qed

lemma ram_vfs_init:
  assumes "metadata_on (vfs_disk s) s'" "sb_magic (g_superblock s') = VFS_MAGIC"
  shows "fst (vfs_init ram_ops s)"
  using assms by (simp add: vfs_init_def ram_ops_def metadata_on_def Let_def)

section \<open>Properties\<close>

lemma layout_room:
  assumes "vfs_layout s" "vfs_wf s" "vfs_write_slot path s = Some (i, s')" "n \<le> 255"
  shows "unat (fe_start_sector (g_filetable s' ! i)) + 5125 + n \<le> 2 ^ 32"
proof -
  have ff: "unat (sb_first_free_sector (g_superblock s)) + 5125 + 255 \<le> 2 ^ 32" using assms(1) by (simp add: vfs_layout_def)
  from assms(3) have "unat (fe_start_sector (g_filetable s' ! i)) \<le> unat (sb_first_free_sector (g_superblock s))"
  proof (cases rule: vfs_write_slot_cases)
    case existing
    from find_slot_SomeD [OF existing(1)] assms(1) existing(2) show ?thesis
      by (auto simp: vfs_layout_def list_all_length file_named_def extent_end_def)
  qed (simp add: new_entry_def)
  with ff assms(4) show ?thesis by simp
qed

text \<open>A formatted, empty file system on a zeroed disk, for the witnesses.\<close>

definition fresh_vfs :: "medium vfs" where
  "fresh_vfs = \<lparr>g_superblock = \<lparr>sb_magic = VFS_MAGIC, sb_version = 1, sb_file_count = 0, sb_total_data_sectors = 1000,
       sb_first_free_sector = 0, sb_reserved = replicate 16 0\<rparr>,
     g_filetable = replicate VFS_MAX_FILES empty_entry, g_vfs_ready = True, vfs_disk = (\<lambda>x. replicate 512 0)\<rparr>"

lemma fresh_vfs_facts:
  "vfs_wf fresh_vfs" "vfs_layout fresh_vfs" "ram_inv (vfs_disk fresh_vfs)" "g_vfs_ready fresh_vfs"
  "find_slot (file_named path) (g_filetable fresh_vfs) = None" "vfs_write_slot path fresh_vfs \<noteq> None"
proof -
  have e: "entry_ok empty_entry" "fe_type empty_entry = 0" by (simp_all add: empty_entry_def entry_ok_def)
  then show "vfs_wf fresh_vfs" "vfs_layout fresh_vfs" "ram_inv (vfs_disk fresh_vfs)" "g_vfs_ready fresh_vfs"
    by (simp_all add: fresh_vfs_def vfs_wf_def vfs_layout_def list_all_length ram_inv_def)
  have "find_slot (\<lambda>e. fe_type e = VFS_TYPE_EMPTY) (g_filetable fresh_vfs) = Some 0"
    using e by (simp add: find_slot_Some_iff fresh_vfs_def)
  moreover show "find_slot (file_named path) (g_filetable fresh_vfs) = None"
    using e by (simp add: find_slot_None_iff fresh_vfs_def file_named_def)
  ultimately show "vfs_write_slot path fresh_vfs \<noteq> None" by (simp add: vfs_write_slot_def)
qed

lemma written_file_reads_back:
  assumes "block_device ops dinv view" "dinv (vfs_disk s)" "vfs_wf s" "vfs_layout s"
    and "len \<le> length data" "len < 2 ^ 31" "length (cstr path) < VFS_MAX_FILENAME"
    and wr: "vfs_write_file ops path data len s = (r, s1)" "0 \<le> r"
    and rd: "vfs_read_file ops path buf max_len s1 = ((r', buf'), s2)" "0 \<le> r'"
    and "len \<le> max_len" "sectors_for len * SECTOR_SIZE \<le> length buf"
  shows "r = int len \<and> r' = int len \<and> take len buf' = take len data"
proof -
  have "sectors_for len \<le> 255"
    using block_device.write_file_effect [OF assms(1,2,3,5,6) wr] by metis
  then show ?thesis
    using assms layout_room by (intro block_device.write_then_read [OF assms(1,2,3,5,6,7) wr _ rd]) blast+
qed

text \<open>
  Property: a file that \<open>vfs_write_file\<close> reported as written is read back by \<open>vfs_read_file\<close>
  byte for byte, whether it existed before or not, on every disk that honours the interface.
\<close>

theorem vfs_write_then_read:
  assumes "block_device ops dinv view" "dinv (vfs_disk s)" "vfs_wf s" "vfs_layout s"
    and "len \<le> length data" "len < 2 ^ 31" "length (cstr path) < VFS_MAX_FILENAME"
    and wr: "vfs_write_file ops path data len s = (r, s1)" "0 \<le> r"
    and rd: "vfs_read_file ops path buf max_len s1 = ((r', buf'), s2)" "0 \<le> r'"
    and "len \<le> max_len" "sectors_for len * SECTOR_SIZE \<le> length buf"
  shows "r = int len \<and> r' = int len \<and> take len buf' = take len data"
  using assms by (rule written_file_reads_back)

theorem vfs_write_then_read_witness:
  "\<exists>s1 buf' s2. vfs_write_file ram_ops ''/a'' [1, 2, 3] 3 fresh_vfs = (3, s1)
     \<and> vfs_read_file ram_ops ''/a'' (replicate 512 7) 512 s1 = ((3, buf'), s2) \<and> take 3 buf' = [1, 2, 3]"
proof -
  let ?d = "[1, 2, 3] :: bytes"
  obtain r s1 where w: "vfs_write_file ram_ops ''/a'' ?d 3 fresh_vfs = (r, s1)" by fastforce
  then have r: "r = 3"
    using ram.write_file_succeeds [of fresh_vfs "''/a''" 3 ?d] fresh_vfs_facts by (simp add: sectors_for_def)
  obtain r' buf' s2 where rd: "vfs_read_file ram_ops ''/a'' (replicate 512 7) 512 s1 = ((r', buf'), s2)" by (metis prod.collapse)
  have len: "3 \<le> length ?d" "(3 :: nat) < 2 ^ 31" "length (cstr ''/a'') < 32" "0 \<le> r" using r by (simp_all add: cstr_def)
  obtain i where "vfs_find_file ''/a'' s1 = Some i" "unat (fe_size (g_filetable s1 ! i)) = 3"
    using ram.write_file_found [OF fresh_vfs_facts(3,1) len(1-3) w len(4)] by metis
  then have "0 \<le> r'" using ram_read_file [of "''/a''" s1 i 512 "replicate 512 7"] rd by simp
  then have "r' = int 3 \<and> take 3 buf' = take 3 ?d"
    using vfs_write_then_read [OF ram.block_device_axioms fresh_vfs_facts(3,1,2) len(1-3) w len(4) rd]
    by (simp add: sectors_for_def)
  with w r rd show ?thesis by auto
qed

text \<open>
  Property: on a disk whose writes succeed, \<open>vfs_write_file\<close> does return the length it was asked to
  write, whenever the file exists or the table has an empty slot and the data fits 255 sectors.
\<close>

theorem vfs_write_file_succeeds:
  assumes "reliable_device ops dinv view" "dinv (vfs_disk s)" "vfs_wf s" "g_vfs_ready s"
    and "vfs_find_file path s \<noteq> None \<or> find_slot (\<lambda>e. fe_type e = VFS_TYPE_EMPTY) (g_filetable s) \<noteq> None"
    and "len \<le> length data" "sectors_for len \<le> 255"
  shows "fst (vfs_write_file ops path data len s) = int len"
proof -
  have "vfs_write_slot path s \<noteq> None"
    using assms(4,5) by (auto simp: vfs_write_slot_def vfs_find_file_def split: option.splits)
  with assms show ?thesis by (intro reliable_device.write_file_succeeds)
qed

theorem vfs_write_file_succeeds_witness:
  "fst (vfs_write_file ram_ops ''/b'' (replicate 2000 5) 1500 fresh_vfs) = 1500"
proof -
  have "find_slot (\<lambda>e. fe_type e = VFS_TYPE_EMPTY) (g_filetable fresh_vfs) = Some 0"
    by (simp add: find_slot_Some_iff fresh_vfs_def empty_entry_def)
  then show ?thesis
    using vfs_write_file_succeeds [OF ram.reliable_device_axioms fresh_vfs_facts(3,1,4), of "''/b''" 1500 "replicate 2000 5"]
    by (simp add: sectors_for_def)
qed

text \<open>
  Property C18: the metadata survives a restart. After a flush that reported success, initialising the
  file system from the same disk, from whatever was in memory, restores the superblock and the whole
  file table.
\<close>

theorem vfs_metadata_roundtrip:
  assumes "block_device ops dinv view" "dinv (vfs_disk s)" "vfs_wf s" "sb_magic (g_superblock s) = VFS_MAGIC"
    and fl: "vfs_flush_metadata ops s = (0, s1)" and boot: "vfs_disk s0 = vfs_disk s1" "vfs_init ops s0 = (True, s2)"
  shows "g_superblock s2 = g_superblock s \<and> g_filetable s2 = g_filetable s \<and> g_vfs_ready s2"
proof -
  note f = block_device.flush_metadata_correct [OF assms(1,2,3) fl]
  have eq: "g_superblock s1 = g_superblock s" "g_filetable s1 = g_filetable s"
    using f(2) by (metis vfs.select_convs(1) vfs.surjective vfs.update_convs(4), metis vfs.select_convs(2) vfs.surjective vfs.update_convs(4))
  have "dinv (vfs_disk s0)" "metadata_on (view (vfs_disk s0)) s1" "vfs_wf s1"
    using f boot assms(3) eq by (simp_all add: vfs_wf_def)
  from block_device.vfs_init_loads [OF assms(1) this _ boot(2)] show ?thesis using assms(4) eq by simp
qed

theorem vfs_metadata_roundtrip_witness:
  "\<exists>s1 s2. vfs_flush_metadata ram_ops fresh_vfs = (0, s1) \<and> vfs_init ram_ops s1 = (True, s2)
     \<and> g_filetable s2 = g_filetable fresh_vfs"
proof -
  obtain rc s1 where fl: "vfs_flush_metadata ram_ops fresh_vfs = (rc, s1)" by fastforce
  then have rc: "rc = 0" using ram.flush_succeeds [of fresh_vfs] fresh_vfs_facts by simp
  obtain ok s2 where ini: "vfs_init ram_ops s1 = (ok, s2)" by fastforce
  have magic: "sb_magic (g_superblock fresh_vfs) = VFS_MAGIC" by (simp add: fresh_vfs_def)
  note f = ram.flush_metadata_correct [OF fresh_vfs_facts(3,1) fl]
  have "g_superblock s1 = g_superblock fresh_vfs" using f(2) by (metis vfs.select_convs(1) vfs.surjective vfs.update_convs(4))
  then have ok: ok using ram_vfs_init [OF f(5) [OF rc]] magic ini by simp
  have "g_filetable s2 = g_filetable fresh_vfs"
    using vfs_metadata_roundtrip [OF ram.block_device_axioms fresh_vfs_facts(3,1) magic _ refl, of s1 s2] fl rc ini ok by simp
  with fl rc ini ok show ?thesis by auto
qed

text \<open>
  Property C20: writing a new file leaves every other file's entry and contents alone, in a file system
  whose files lie below the first free sector; the free pointer moves by the file's sectors, and the
  stored file count is the number of entries in use.
\<close>

theorem vfs_new_file_preserves_others:
  assumes dev: "block_device ops dinv view" and s: "dinv (vfs_disk s)" "vfs_wf s" "vfs_layout s"
    and len: "len \<le> length data" "len < 2 ^ 31" and new: "find_slot (file_named path) (g_filetable s) = None"
    and wr: "vfs_write_file ops path data len s = (r, s')" "0 \<le> r"
    and j: "j < VFS_MAX_FILES" "fe_type (g_filetable s ! j) \<noteq> VFS_TYPE_EMPTY"
  shows "g_filetable s' ! j = g_filetable s ! j
    \<and> file_bytes (view (vfs_disk s')) (g_filetable s' ! j) = file_bytes (view (vfs_disk s)) (g_filetable s ! j)
    \<and> vfs_file_count s' = count_files (g_filetable s')
    \<and> unat (sb_first_free_sector (g_superblock s')) = unat (sb_first_free_sector (g_superblock s)) + sectors_for len"
  using block_device.write_new_preserves [OF dev s len new wr] j by blast

text \<open>Two one-sector files next to each other.\<close>

definition two_files :: "medium vfs" where
  "two_files = fresh_vfs\<lparr>g_superblock := (g_superblock fresh_vfs)\<lparr>sb_first_free_sector := 2, sb_file_count := 2\<rparr>,
     g_filetable := (replicate VFS_MAX_FILES empty_entry)
       [0 := empty_entry\<lparr>fe_filename := c_strncpy0 ''/a'' 32, fe_type := VFS_TYPE_REGULAR, fe_start_sector := 0, fe_size := 512\<rparr>,
        1 := empty_entry\<lparr>fe_filename := c_strncpy0 ''/b'' 32, fe_type := VFS_TYPE_REGULAR, fe_start_sector := 1, fe_size := 512\<rparr>]\<rparr>"

lemma two_files_nth:
  "g_filetable two_files ! 0 = empty_entry\<lparr>fe_filename := c_strncpy0 ''/a'' 32, fe_type := VFS_TYPE_REGULAR, fe_start_sector := 0, fe_size := 512\<rparr>"
  "g_filetable two_files ! Suc 0 = empty_entry\<lparr>fe_filename := c_strncpy0 ''/b'' 32, fe_type := VFS_TYPE_REGULAR, fe_start_sector := 1, fe_size := 512\<rparr>"
  "j \<noteq> 0 \<Longrightarrow> j \<noteq> 1 \<Longrightarrow> j < VFS_MAX_FILES \<Longrightarrow> g_filetable two_files ! j = empty_entry"
  "length (g_filetable two_files) = VFS_MAX_FILES"
  by (simp_all add: two_files_def)

lemma two_files_all: "list_all P (g_filetable two_files) \<longleftrightarrow>
    P (g_filetable two_files ! 0) \<and> P (g_filetable two_files ! Suc 0) \<and> P empty_entry"
proof
  assume "P (g_filetable two_files ! 0) \<and> P (g_filetable two_files ! Suc 0) \<and> P empty_entry"
  then have "P (g_filetable two_files ! j)" if "j < 32" for j
    using that two_files_nth(3) [of j] by (cases "j = 0"; cases "j = 1") auto
  then show "list_all P (g_filetable two_files)" by (simp add: list_all_length two_files_nth(4))
next
  assume l: "list_all P (g_filetable two_files)"
  have "P (g_filetable two_files ! 0)" "P (g_filetable two_files ! Suc 0)" "P (g_filetable two_files ! 2)"
    using l by (simp_all add: list_all_length two_files_nth(4))
  then show "P (g_filetable two_files ! 0) \<and> P (g_filetable two_files ! Suc 0) \<and> P empty_entry"
    using two_files_nth(3) [of 2] by simp
qed

lemma two_files_facts:
  "vfs_wf two_files" "vfs_layout two_files" "ram_inv (vfs_disk two_files)" "g_vfs_ready two_files"
  "find_slot (file_named ''/a'') (g_filetable two_files) = Some 0" "vfs_write_slot ''/a'' two_files = Some (0, two_files)"
  "find_slot (file_named ''/c'') (g_filetable two_files) = None"
  "find_slot (\<lambda>e. fe_type e = VFS_TYPE_EMPTY) (g_filetable two_files) = Some 2"
proof -
  show "vfs_wf two_files" "vfs_layout two_files"
    unfolding vfs_wf_def vfs_layout_def two_files_all
    by (simp_all add: two_files_nth two_files_def [THEN arg_cong [where f = g_superblock]] entry_ok_def empty_entry_def fresh_vfs_def
        extent_end_def sectors_for_def)
  show "ram_inv (vfs_disk two_files)" "g_vfs_ready two_files" by (simp_all add: two_files_def fresh_vfs_def ram_inv_def)
  have name: "cstr (c_strncpy0 p 32) = p" if "length p < 32" "NUL \<notin> set p" for p using that by (simp add: cstr_id)
  show "find_slot (file_named ''/a'') (g_filetable two_files) = Some 0"
    by (simp add: find_slot_Some_iff two_files_nth file_named_def vfs_strcmp_def c_strcmp_eq_0 name cstr_id)
  then show "vfs_write_slot ''/a'' two_files = Some (0, two_files)" by (simp add: vfs_write_slot_def)
  have "list_all (\<lambda>e. \<not> file_named ''/c'' e) (g_filetable two_files)"
    unfolding two_files_all by (simp add: two_files_nth file_named_def vfs_strcmp_def c_strcmp_eq_0 name cstr_id empty_entry_def)
  then show "find_slot (file_named ''/c'') (g_filetable two_files) = None" by (simp add: find_slot_None_iff list_all_iff)
  have "fe_type (g_filetable two_files ! j) \<noteq> VFS_TYPE_EMPTY" if "j < 2" for j
    using that by (cases j) (auto simp: two_files_nth(1,2))
  then show "find_slot (\<lambda>e. fe_type e = VFS_TYPE_EMPTY) (g_filetable two_files) = Some 2"
    using two_files_nth(3) [of 2] by (auto simp: find_slot_Some_iff two_files_nth(4) empty_entry_def)
qed

theorem vfs_new_file_preserves_others_witness:
  "\<exists>s'. vfs_write_file ram_ops ''/c'' (replicate 600 3) 600 two_files = (600, s')
     \<and> g_filetable s' ! 0 = g_filetable two_files ! 0 \<and> unat (sb_first_free_sector (g_superblock s')) = 4"
proof -
  let ?d = "replicate 600 3 :: bytes"
  obtain r s' where w: "vfs_write_file ram_ops ''/c'' ?d 600 two_files = (r, s')" by fastforce
  have "vfs_write_slot ''/c'' two_files \<noteq> None" using two_files_facts(7,8) by (simp add: vfs_write_slot_def)
  then have r: "r = 600"
    using ram.write_file_succeeds [of two_files "''/c''" 600 ?d] two_files_facts(1,3,4) w by (simp add: sectors_for_def)
  have "g_filetable s' ! 0 = g_filetable two_files ! 0 \<and> unat (sb_first_free_sector (g_superblock s')) = 2 + sectors_for 600"
    using vfs_new_file_preserves_others [OF ram.block_device_axioms two_files_facts(3,1,2) _ _ two_files_facts(7) w, of 0] r
    by (simp add: two_files_nth(1)) (simp add: two_files_def)
  with w r show ?thesis by (auto simp: sectors_for_def)
qed

text \<open>
  Property: \<open>vfs_write_file\<close> reuses the start sector of an existing file without looking at its
  extent. When a one-sector file grows to two sectors or more, its second sector replaces the contents of the file
  that was stored behind it, and both calls report success.
\<close>

theorem vfs_growth_overwrites_neighbour:
  assumes dev: "block_device ops dinv view" and s: "dinv (vfs_disk s)" "vfs_wf s" "vfs_layout s"
    and len: "len \<le> length data" "1024 \<le> len" "len < 2 ^ 31"
    and old: "find_slot (file_named path) (g_filetable s) = Some i"
    and nb: "j < VFS_MAX_FILES" "j \<noteq> i" "fe_size (g_filetable s ! j) = 512"
      "fe_start_sector (g_filetable s ! j) = fe_start_sector (g_filetable s ! i) + 1"
    and wr: "vfs_write_file ops path data len s = (r, s')" "0 \<le> r"
  shows "g_filetable s' ! j = g_filetable s ! j \<and> file_bytes (view (vfs_disk s')) (g_filetable s' ! j) = chunk data 1"
proof -
  obtain i' t e where w: "vfs_write_slot path s = Some (i', t)" "e = (g_filetable t ! i')\<lparr>fe_size := of_nat len\<rparr>"
    "sectors_for len \<le> 255" "g_filetable s' = (g_filetable t)[i' := e]" "dinv (vfs_disk s')"
    "unat (fe_start_sector e) + 5125 + sectors_for len \<le> 2 ^ 32 \<Longrightarrow> file_bytes (view (vfs_disk s')) e = take len data"
    using block_device.write_file_effect [OF dev s(1,2) len(1,3) wr] by metis
  have slot: "i' = i" "t = s" using w(1) old by (simp_all add: vfs_write_slot_def)
  have same: "g_filetable s' ! j = g_filetable s ! j" using nb(2) by (simp add: w(4) slot)
  let ?v = "view (vfs_disk s')" and ?n = "sectors_for len"
  have sz: "unat (fe_size e) = len" using len(3) by (simp add: w(2) unat_of_nat)
  have n: "1 < ?n" using len(2) by (simp add: sectors_for_def)
  have vl: "length (?v x) = 512" for x using block_device.view_length [OF dev w(5)] .
  have "take len (sectors ?v (data_sector e) ?n) = take len data"
    using w(6) layout_room [OF s(3,2) w(1,3)] sz by (simp add: file_bytes_def w(2))
  then have eq: "chunk (take len (sectors ?v (data_sector e) ?n)) 1 = chunk (take len data) 1" by simp
  have "chunk (take len xs) 1 = chunk xs 1" for xs :: bytes
    using len(2) by (auto simp: chunk_def drop_take min_def)
  with eq chunk_sectors [of ?v 1 ?n "data_sector e"] vl n have "?v (data_sector e + 1) = chunk data 1" by simp
  moreover have "data_sector (g_filetable s ! j) = data_sector e + 1"
    using nb(4) by (simp add: data_sector_def w(2) slot)
  ultimately show ?thesis using same nb(3) by (simp add: file_bytes_def sectors_for_def chunk_def)
qed

theorem vfs_growth_overwrites_neighbour_witness:
  "\<exists>s'. vfs_write_file ram_ops ''/a'' (replicate 1024 3) 1024 two_files = (1024, s')
     \<and> file_bytes (vfs_disk s') (g_filetable s' ! 1) = replicate 512 3"
proof -
  let ?d = "replicate 1024 3 :: bytes"
  obtain r s' where w: "vfs_write_file ram_ops ''/a'' ?d 1024 two_files = (r, s')" by fastforce
  have r: "r = 1024"
    using ram.write_file_succeeds [of two_files "''/a''" 1024 ?d] two_files_facts(1,3,4,6) w by (simp add: sectors_for_def)
  have "file_bytes (vfs_disk s') (g_filetable s' ! 1) = chunk ?d 1"
    using vfs_growth_overwrites_neighbour [OF ram.block_device_axioms two_files_facts(3,1,2) _ _ _ two_files_facts(5) _ _ _ _ w, of 1]
      two_files_nth(1,2) r by auto
  with w r show ?thesis by (auto simp: chunk_def)
qed

text \<open>
  Property: \<open>vfs_read_file\<close> transfers whole sectors. When the caller's buffer of \<open>max_len\<close> bytes does not end on
  a sector boundary and the file is longer, the bytes behind the buffer are overwritten with file data
  up to the next boundary, although the result says that only \<open>max_len\<close> bytes were read.
\<close>

theorem vfs_read_file_overruns:
  assumes dev: "block_device ops dinv view" and s: "dinv (vfs_disk s)" and fnd: "vfs_find_file path s = Some i"
    and size: "max_len \<le> unat (fe_size (g_filetable s ! i))" "sectors_for max_len \<le> 255"
    and buf: "length buf = max_len" "length beyond = sectors_for max_len * SECTOR_SIZE - max_len"
    and rd: "vfs_read_file ops path (buf @ beyond) max_len s = ((r, mem), s')" "0 \<le> r"
  shows "r = int max_len \<and> drop max_len mem =
    drop max_len (sectors (view (vfs_disk s)) (data_sector (g_filetable s ! i)) (sectors_for max_len))"
proof -
  let ?n = "sectors_for max_len"
  have m: "max_len = min (unat (fe_size (g_filetable s ! i))) max_len" using size(1) by simp
  have len: "length (buf @ beyond) = ?n * 512" using buf sectors_for_le(1) [of max_len] by simp
  then have le: "?n * 512 \<le> length (buf @ beyond)" by simp
  note e = block_device.read_file_effect [OF dev s fnd refl m size(2) le rd(1)]
  have "mem = sectors (view (vfs_disk s)) (data_sector (g_filetable s ! i)) ?n" "r = int max_len"
    using e(5,6) rd(2) len by simp_all
  then show ?thesis by simp
qed

theorem vfs_read_file_overruns_witness:
  "drop 1 (snd (fst (vfs_read_file ram_ops ''/a'' ([9] @ replicate 511 9) 1 two_files))) = replicate 511 0"
proof -
  have f: "vfs_find_file ''/a'' two_files = Some 0" using two_files_facts(4,5) by (simp add: vfs_find_file_def)
  obtain r mem s' where rd: "vfs_read_file ram_ops ''/a'' ([9] @ replicate 511 9) 1 two_files = ((r, mem), s')" by (metis prod.collapse)
  have "0 \<le> r" using rd f ram_vfs_read_loop [of _ 1 0 "[9] @ replicate 511 9" "vfs_disk two_files"]
    by (auto simp: vfs_read_file_def Let_def two_files_nth split_beta)
  moreover have "vfs_disk two_files = (\<lambda>x. replicate 512 0)" by (simp add: two_files_def fresh_vfs_def)
  ultimately have "drop 1 mem = drop 1 (replicate 512 0)"
    using vfs_read_file_overruns [OF ram.block_device_axioms two_files_facts(3) f _ _ _ _ rd]
    by (simp add: two_files_nth(1) sectors_for_def)
  with rd show ?thesis by (simp add: drop_replicate)
qed

text \<open>
  Property: the directory test behind \<open>vfs_list_dir\<close> is exact: an absolute path is listed under a
  directory if and only if that directory is its parent path, the root for a path with one component.
\<close>

theorem vfs_is_child_of_correct:
  assumes "CHR ''/'' \<in> set (cstr child)"
  shows "vfs_is_child_of child parent \<longleftrightarrow>
    cstr parent = (if parent_of (cstr child) = [] then ''/'' else parent_of (cstr child))"
  using assms by (rule is_child_correct)

theorem vfs_is_child_of_correct_witness:
  "vfs_is_child_of ''/etc/shadow'' ''/etc'' \<and> \<not> vfs_is_child_of ''/etc/shadow'' ''/''"
  using vfs_is_child_of_correct [of "''/etc/shadow''" "''/etc''"] vfs_is_child_of_correct [of "''/etc/shadow''" "''/''"]
  by (simp add: cstr_def parent_of_def)

end
