(* ===== verification/Bcache.thy ===== *)
theory Bcache
  imports Block_Device
begin

text \<open>
  The write-back block cache, \<open>src/kernel/fs/bcache.c\<close>: 64 cached sectors with valid and dirty
  flags, least-recently-used replacement, write-back on eviction and on a timer. It implements the disk
  interface on top of the disk operations it captured at initialisation (\<open>g_real_read\<close>,
  \<open>g_real_write\<close>, the argument \<open>ops\<close>; \<open>bcache_init\<close> takes them from VernisFS, where they are
  never null). The theory shows that the cache over a reliable device is again a reliable device with
  the same contents, that a successful sync makes the disk equal to that contents, and what an eviction
  loses when the device refuses the write.
\<close>

section \<open>Data\<close>

abbreviation BCACHE_NUM_BLOCKS :: nat where "BCACHE_NUM_BLOCKS \<equiv> 64"
abbreviation BCACHE_BLOCK_SIZE :: nat where "BCACHE_BLOCK_SIZE \<equiv> 512"

definition BCACHE_FLAG_VALID :: u8 where "BCACHE_FLAG_VALID = 0x01"
definition BCACHE_FLAG_DIRTY :: u8 where "BCACHE_FLAG_DIRTY = 0x02"

record BcacheBlock =
  b_lba :: u32
  b_flags :: u8
  b_tick :: u32
  b_data :: bytes

record BcacheStats =
  hits :: u32
  misses :: u32
  writebacks :: u32
  evictions :: u32

record 'd bcache =
  g_cache :: "BcacheBlock list"
  bc_stats :: BcacheStats
  g_tick :: u32
  g_flush_interval :: u32
  g_flush_counter :: u32
  g_real :: 'd
  g_bcache_ready :: bool

definition b_valid :: "BcacheBlock \<Rightarrow> bool" where
  "b_valid b \<longleftrightarrow> b_flags b AND BCACHE_FLAG_VALID \<noteq> 0"

definition b_dirty :: "BcacheBlock \<Rightarrow> bool" where
  "b_dirty b \<longleftrightarrow> b_flags b AND BCACHE_FLAG_DIRTY \<noteq> 0"

section \<open>Operations\<close>

definition bcache_find :: "u32 \<Rightarrow> BcacheBlock list \<Rightarrow> nat option" where
  "bcache_find lba cs = find_slot (\<lambda>b. b_valid b \<and> b_lba b = lba) cs"

fun bcache_lru_loop :: "nat \<Rightarrow> nat \<Rightarrow> u32 \<Rightarrow> BcacheBlock list \<Rightarrow> nat" where
  "bcache_lru_loop i best best_tick [] = best"
| "bcache_lru_loop i best best_tick (b # bs) =
     (if \<not> b_valid b then i
      else if b_tick b < best_tick then bcache_lru_loop (Suc i) i (b_tick b) bs
      else bcache_lru_loop (Suc i) best best_tick bs)"

definition bcache_lru :: "BcacheBlock list \<Rightarrow> nat" where
  "bcache_lru cs = bcache_lru_loop 0 0 0xFFFFFFFF cs"

definition set_block :: "nat \<Rightarrow> (BcacheBlock \<Rightarrow> BcacheBlock) \<Rightarrow> 'd bcache \<Rightarrow> 'd bcache" where
  "set_block i f s = s\<lparr>g_cache := (g_cache s)[i := f (g_cache s ! i)]\<rparr>"

definition touch :: "nat \<Rightarrow> 'd bcache \<Rightarrow> 'd bcache" where
  "touch i s = set_block i (\<lambda>b. b\<lparr>b_tick := g_tick s + 1\<rparr>) (s\<lparr>g_tick := g_tick s + 1\<rparr>)"

definition bcache_writeback :: "'d disk_ops \<Rightarrow> nat \<Rightarrow> 'd bcache \<Rightarrow> int \<times> 'd bcache" where
  "bcache_writeback ops idx s =
     (if idx \<ge> BCACHE_NUM_BLOCKS then (-1, s)
      else let b = g_cache s ! idx in
        if \<not> b_dirty b then (0, s)
        else let (rc, d) = disk_write ops (b_lba b) 1 (b_data b) (g_real s);
                 s1 = s\<lparr>g_real := d\<rparr>
          in if rc < 0 then (-1, s1)
             else (0, (set_block idx (\<lambda>b. b\<lparr>b_flags := b_flags b AND NOT BCACHE_FLAG_DIRTY\<rparr>) s1)
                      \<lparr>bc_stats := (bc_stats s)\<lparr>writebacks := writebacks (bc_stats s) + 1\<rparr>\<rparr>))"

text \<open>The eviction of the chosen slot, as both loops have it: the result of the write-back is ignored.\<close>

definition bcache_evict :: "'d disk_ops \<Rightarrow> nat \<Rightarrow> 'd bcache \<Rightarrow> 'd bcache" where
  "bcache_evict ops slot s =
     (let evicted = (\<lambda>s. s\<lparr>bc_stats := (bc_stats s)\<lparr>evictions := evictions (bc_stats s) + 1\<rparr>\<rparr>)
      in if b_dirty (g_cache s ! slot) then evicted (snd (bcache_writeback ops slot s))
         else if b_valid (g_cache s ! slot) then evicted s else s)"

text \<open>One round of the loop of \<open>bcache_read\<close>: the slot that holds the sector afterwards, or a failed read.\<close>

definition bcache_load :: "'d disk_ops \<Rightarrow> u32 \<Rightarrow> 'd bcache \<Rightarrow> nat option \<times> 'd bcache" where
  "bcache_load ops sector s =
     (case bcache_find sector (g_cache s) of
        Some idx \<Rightarrow>
          (Some idx, touch idx (s\<lparr>bc_stats := (bc_stats s)\<lparr>hits := hits (bc_stats s) + 1\<rparr>\<rparr>))
      | None \<Rightarrow>
          let s1 = s\<lparr>bc_stats := (bc_stats s)\<lparr>misses := misses (bc_stats s) + 1\<rparr>\<rparr>;
              slot = bcache_lru (g_cache s1);
              s2 = bcache_evict ops slot s1;
              ((rc, data), d) = disk_read ops sector 1 (b_data (g_cache s2 ! slot)) (g_real s2);
              s3 = set_block slot (\<lambda>b. b\<lparr>b_data := data\<rparr>) (s2\<lparr>g_real := d\<rparr>)
          in if rc < 0 then (None, s3)
             else (Some slot,
               touch slot (set_block slot (\<lambda>b. b\<lparr>b_lba := sector, b_flags := BCACHE_FLAG_VALID\<rparr>) s3)))"

fun bcache_read_loop ::
  "'d disk_ops \<Rightarrow> u32 \<Rightarrow> nat \<Rightarrow> nat \<Rightarrow> bytes \<Rightarrow> 'd bcache \<Rightarrow> (bool \<times> bytes) \<times> 'd bcache" where
  "bcache_read_loop ops lba k 0 buf s = ((True, buf), s)"
| "bcache_read_loop ops lba k (Suc n) buf s =
     (case bcache_load ops (lba + of_nat k) s of
        (None, s') \<Rightarrow> ((False, buf), s')
      | (Some i, s') \<Rightarrow>
          bcache_read_loop ops lba (Suc k) n (blit buf (k * BCACHE_BLOCK_SIZE) (b_data (g_cache s' ! i))) s')"

definition bcache_read :: "'d disk_ops \<Rightarrow> u32 \<Rightarrow> u8 \<Rightarrow> bytes \<Rightarrow> 'd bcache \<Rightarrow> (int \<times> bytes) \<times> 'd bcache" where
  "bcache_read ops lba count buf s =
     (if \<not> g_bcache_ready s then ((-1, buf), s)
      else case bcache_read_loop ops lba 0 (unat count) buf s of
        ((ok, buf'), s') \<Rightarrow> ((if ok then int (unat count) else -1, buf'), s'))"

text \<open>One round of the loop of \<open>bcache_write\<close>.\<close>

definition bcache_store :: "'d disk_ops \<Rightarrow> u32 \<Rightarrow> bytes \<Rightarrow> 'd bcache \<Rightarrow> 'd bcache" where
  "bcache_store ops sector data s =
     (let (idx, s1) = (case bcache_find sector (g_cache s) of
            Some idx \<Rightarrow> (idx, s)
          | None \<Rightarrow> let idx = bcache_lru (g_cache s); s' = bcache_evict ops idx s
              in (idx, set_block idx (\<lambda>b. b\<lparr>b_lba := sector\<rparr>) s'))
      in touch idx (set_block idx
           (\<lambda>b. b\<lparr>b_data := data, b_flags := BCACHE_FLAG_VALID OR BCACHE_FLAG_DIRTY\<rparr>) s1))"

fun bcache_write_loop :: "'d disk_ops \<Rightarrow> u32 \<Rightarrow> nat \<Rightarrow> nat \<Rightarrow> bytes \<Rightarrow> 'd bcache \<Rightarrow> 'd bcache" where
  "bcache_write_loop ops lba k 0 buf s = s"
| "bcache_write_loop ops lba k (Suc n) buf s =
     bcache_write_loop ops lba (Suc k) n buf (bcache_store ops (lba + of_nat k) (chunk buf k) s)"

definition bcache_write :: "'d disk_ops \<Rightarrow> u32 \<Rightarrow> u8 \<Rightarrow> bytes \<Rightarrow> 'd bcache \<Rightarrow> int \<times> 'd bcache" where
  "bcache_write ops lba count buf s =
     (if \<not> g_bcache_ready s then (-1, s)
      else (int (unat count), bcache_write_loop ops lba 0 (unat count) buf s))"

fun bcache_sync_loop :: "'d disk_ops \<Rightarrow> nat \<Rightarrow> nat \<Rightarrow> int \<Rightarrow> 'd bcache \<Rightarrow> int \<times> 'd bcache" where
  "bcache_sync_loop ops i 0 err s = (err, s)"
| "bcache_sync_loop ops i (Suc n) err s =
     (if b_dirty (g_cache s ! i)
      then let (rc, s') = bcache_writeback ops i s
           in bcache_sync_loop ops (Suc i) n (if rc < 0 then -1 else err) s'
      else bcache_sync_loop ops (Suc i) n err s)"

definition bcache_sync :: "'d disk_ops \<Rightarrow> 'd bcache \<Rightarrow> int \<times> 'd bcache" where
  "bcache_sync ops s = (if \<not> g_bcache_ready s then (-1, s) else bcache_sync_loop ops 0 BCACHE_NUM_BLOCKS 0 s)"

definition bcache_tick :: "'d disk_ops \<Rightarrow> 'd bcache \<Rightarrow> 'd bcache" where
  "bcache_tick ops s =
     (if \<not> g_bcache_ready s then s
      else let s1 = s\<lparr>g_flush_counter := g_flush_counter s + 1\<rparr>
        in if g_flush_counter s1 \<ge> g_flush_interval s1
           then let s2 = s1\<lparr>g_flush_counter := 0\<rparr>
             in if find_slot b_dirty (g_cache s2) \<noteq> None then snd (bcache_sync ops s2) else s2
           else s1)"

definition bcache_get_stats :: "'d bcache \<Rightarrow> BcacheStats" where
  "bcache_get_stats s = bc_stats s"

definition bcache_invalidate :: "'d bcache \<Rightarrow> 'd bcache" where
  "bcache_invalidate s = s\<lparr>g_cache := map (\<lambda>b. b\<lparr>b_flags := 0, b_lba := 0, b_tick := 0\<rparr>) (g_cache s), g_tick := 0\<rparr>"

definition bcache_init :: "'d \<Rightarrow> 'd bcache" where
  "bcache_init d = \<lparr>g_cache = replicate BCACHE_NUM_BLOCKS
       \<lparr>b_lba = 0, b_flags = 0, b_tick = 0, b_data = replicate BCACHE_BLOCK_SIZE 0\<rparr>,
     bc_stats = \<lparr>hits = 0, misses = 0, writebacks = 0, evictions = 0\<rparr>,
     g_tick = 0, g_flush_interval = 240, g_flush_counter = 0, g_real = d, g_bcache_ready = True\<rparr>"

text \<open>What \<open>vfs_set_disk_ops(bcache_read, bcache_write)\<close> installs.\<close>

definition bcache_ops :: "'d disk_ops \<Rightarrow> 'd bcache disk_ops" where
  "bcache_ops ops = \<lparr>disk_read = bcache_read ops, disk_write = bcache_write ops\<rparr>"

section \<open>Replacement\<close>

text \<open>A free slot is taken at once; among valid slots the scan keeps the oldest tick.\<close>

lemma bcache_lru_loop_free:
  assumes "\<exists>j < length bs. \<not> b_valid (bs ! j)"
  shows "\<exists>j < length bs. bcache_lru_loop i best t bs = i + j \<and> \<not> b_valid (bs ! j)"
  using assms
proof (induction bs arbitrary: i best t)
  case (Cons b bs)
  show ?case
  proof (cases "b_valid b")
    case True
    with Cons.prems have "\<exists>j < length bs. \<not> b_valid (bs ! j)"
      by (metis length_Cons less_Suc_eq_0_disj nth_Cons_0 nth_Cons_Suc)
    note IH = Cons.IH [OF this, of "Suc i"]
    from True IH [of i "b_tick b"] IH [of best t] obtain j
      where "j < length bs" "bcache_lru_loop i best t (b # bs) = Suc i + j" "\<not> b_valid (bs ! j)"
      by (cases "b_tick b < t") auto
    then show ?thesis by (intro exI [of _ "Suc j"]) simp
  qed auto
qed simp

lemma bcache_lru_loop_oldest:
  assumes "\<forall>b\<in>set bs. b_valid b"
  shows "(bcache_lru_loop i best t bs = best \<and> (\<forall>b\<in>set bs. t \<le> b_tick b)) \<or>
     (\<exists>j < length bs. bcache_lru_loop i best t bs = i + j \<and> b_tick (bs ! j) < t \<and> (\<forall>b\<in>set bs. b_tick (bs ! j) \<le> b_tick b))"
  using assms
proof (induction bs arbitrary: i best t)
  case (Cons b bs)
  then have v: "b_valid b" "\<forall>b\<in>set bs. b_valid b" by auto
  note IH = Cons.IH [OF v(2), of "Suc i"]
  have tail: ?case if "bcache_lru_loop i best t (b # bs) = i + Suc j" "j < length bs" "b_tick (bs ! j) < t"
    "b_tick (bs ! j) \<le> b_tick b" "\<forall>x\<in>set bs. b_tick (bs ! j) \<le> b_tick x" for j
    using that by (intro disjI2 exI [of _ "Suc j"]) auto
  have head: ?case if "bcache_lru_loop i best t (b # bs) = i" "b_tick b < t" "\<forall>x\<in>set bs. b_tick b \<le> b_tick x"
    using that by (intro disjI2 exI [of _ 0]) auto
  show ?case
  proof (cases "b_tick b < t")
    case True
    then have eq: "bcache_lru_loop i best t (b # bs) = bcache_lru_loop (Suc i) i (b_tick b) bs" using v by simp
    from IH [of i "b_tick b"] show ?thesis
    proof (elim disjE exE conjE)
      assume "bcache_lru_loop (Suc i) i (b_tick b) bs = i" "\<forall>x\<in>set bs. b_tick b \<le> b_tick x"
      then show ?thesis using True eq by (intro head) simp_all
    next
      fix j assume "j < length bs" "bcache_lru_loop (Suc i) i (b_tick b) bs = Suc i + j"
        "b_tick (bs ! j) < b_tick b" "\<forall>x\<in>set bs. b_tick (bs ! j) \<le> b_tick x"
      then show ?thesis using True eq by (intro tail [of j]) simp_all
    qed
  next
    case False
    then have eq: "bcache_lru_loop i best t (b # bs) = bcache_lru_loop (Suc i) best t bs" using v by simp
    from IH [of best t] show ?thesis
    proof (elim disjE exE conjE)
      assume "bcache_lru_loop (Suc i) best t bs = best" "\<forall>x\<in>set bs. t \<le> b_tick x"
      then show ?thesis using False eq by (intro disjI1) auto
    next
      fix j assume "j < length bs" "bcache_lru_loop (Suc i) best t bs = Suc i + j"
        "b_tick (bs ! j) < t" "\<forall>x\<in>set bs. b_tick (bs ! j) \<le> b_tick x"
      then show ?thesis using False eq by (intro tail [of j]) simp_all
    qed
  qed
qed simp

lemma bcache_lru_bound: "cs \<noteq> [] \<Longrightarrow> bcache_lru cs < length cs"
proof (cases "\<exists>j < length cs. \<not> b_valid (cs ! j)")
  case True
  with bcache_lru_loop_free [where i = 0 and best = 0 and t = "0xFFFFFFFF", OF True] show ?thesis by (auto simp: bcache_lru_def)
next
  case False
  then have "\<forall>b\<in>set cs. b_valid b" by (auto simp: in_set_conv_nth)
  moreover assume "cs \<noteq> []"
  ultimately show ?thesis using bcache_lru_loop_oldest [of cs 0 0 "0xFFFFFFFF"]
    by (auto simp: bcache_lru_def)
qed

section \<open>What a cache holds\<close>

lemmas flag_defs = BCACHE_FLAG_VALID_def BCACHE_FLAG_DIRTY_def

definition block_ok :: "BcacheBlock \<Rightarrow> bool" where
  "block_ok b \<longleftrightarrow> length (b_data b) = BCACHE_BLOCK_SIZE \<and> b_flags b \<in> {0, 1, 3}"

definition distinct_lbas :: "BcacheBlock list \<Rightarrow> bool" where
  "distinct_lbas cs \<longleftrightarrow> (\<forall>i < length cs. \<forall>j < length cs.
     b_valid (cs ! i) \<and> b_valid (cs ! j) \<and> b_lba (cs ! i) = b_lba (cs ! j) \<longrightarrow> i = j)"

definition cache_lookup :: "BcacheBlock list \<Rightarrow> u32 \<Rightarrow> bytes option" where
  "cache_lookup cs x = map_option (\<lambda>i. b_data (cs ! i)) (bcache_find x cs)"

text \<open>The contents that reads see: a cached sector, otherwise the sector of the disk.\<close>

definition cache_view :: "BcacheBlock list \<Rightarrow> medium \<Rightarrow> medium" where
  "cache_view cs v x = (case cache_lookup cs x of Some data \<Rightarrow> data | None \<Rightarrow> v x)"

definition cache_inv :: "BcacheBlock list \<Rightarrow> medium \<Rightarrow> bool" where
  "cache_inv cs v \<longleftrightarrow> length cs = BCACHE_NUM_BLOCKS \<and> list_all block_ok cs \<and> distinct_lbas cs
     \<and> (\<forall>i < length cs. b_valid (cs ! i) \<and> \<not> b_dirty (cs ! i) \<longrightarrow> b_data (cs ! i) = v (b_lba (cs ! i)))"

lemma block_okD: "block_ok b \<Longrightarrow> length (b_data b) = 512" "block_ok b \<Longrightarrow> b_dirty b \<Longrightarrow> b_valid b"
  by (auto simp: block_ok_def b_dirty_def b_valid_def flag_defs)

lemma cache_lookup_iff:
  assumes "distinct_lbas cs"
  shows "cache_lookup cs x = Some data \<longleftrightarrow>
    (\<exists>i < length cs. b_valid (cs ! i) \<and> b_lba (cs ! i) = x \<and> b_data (cs ! i) = data)" (is "_ = ?r")
proof
  assume ?r
  then obtain i where i: "i < length cs" "b_valid (cs ! i)" "b_lba (cs ! i) = x" "b_data (cs ! i) = data" by auto
  then have "bcache_find x cs = Some i"
    using assms unfolding bcache_find_def by (intro find_slot_unique) (auto simp: distinct_lbas_def)
  with i show "cache_lookup cs x = Some data" by (simp add: cache_lookup_def)
qed (auto simp: cache_lookup_def bcache_find_def find_slot_Some_iff)

lemma cache_lookup_None: "cache_lookup cs x = None \<longleftrightarrow> (\<forall>i < length cs. b_valid (cs ! i) \<longrightarrow> b_lba (cs ! i) \<noteq> x)"
  by (simp add: cache_lookup_def bcache_find_def find_slot_None_iff all_set_conv_all_nth)

lemma bcache_find_None: "bcache_find x cs = None \<longleftrightarrow> cache_lookup cs x = None"
  by (simp add: cache_lookup_def)

lemma cache_view_valid:
  "distinct_lbas cs \<Longrightarrow> i < length cs \<Longrightarrow> b_valid (cs ! i) \<Longrightarrow> cache_view cs v (b_lba (cs ! i)) = b_data (cs ! i)"
  using cache_lookup_iff [of cs "b_lba (cs ! i)" "b_data (cs ! i)"] by (auto simp: cache_view_def)

lemma cache_view_absent: "cache_lookup cs x = None \<Longrightarrow> cache_view cs v x = v x"
  by (simp add: cache_view_def)

text \<open>
  The one lemma behind every update: put a valid block into slot \<open>i\<close>, which is not dirty (or already
  holds that sector); the contents change at the new sector only.
\<close>

lemma cache_put:
  assumes inv: "cache_inv cs v" and i: "i < length cs" and b: "block_ok b" "b_valid b"
    and old: "b_valid (cs ! i) \<and> b_lba (cs ! i) = b_lba b \<or> cache_lookup cs (b_lba b) = None \<and> \<not> b_dirty (cs ! i)"
    and clean: "b_dirty b \<or> b_data b = v (b_lba b)"
  shows "cache_inv (cs[i := b]) v" "cache_view (cs[i := b]) v = (cache_view cs v)(b_lba b := b_data b)"
proof -
  have dist: "distinct_lbas cs" using inv by (simp add: cache_inv_def)
  have other: "b_lba (cs ! j) \<noteq> b_lba b" if "j < length cs" "j \<noteq> i" "b_valid (cs ! j)" for j
    using old that dist i by (auto simp: cache_lookup_None distinct_lbas_def)
  have dist': "distinct_lbas (cs[i := b])"
    using dist other i unfolding distinct_lbas_def by (metis length_list_update nth_list_update_eq nth_list_update_neq)
  show inv': "cache_inv (cs[i := b]) v"
    using inv dist' b clean i by (auto simp: cache_inv_def nth_list_update intro: list_all_update)
  show "cache_view (cs[i := b]) v = (cache_view cs v)(b_lba b := b_data b)"
  proof
    fix x
    show "cache_view (cs[i := b]) v x = ((cache_view cs v)(b_lba b := b_data b)) x"
    proof (cases "x = b_lba b")
      case True
      with dist' i b cache_view_valid [of "cs[i := b]" i v] show ?thesis by simp
    next
      case False
      show ?thesis
      proof (cases "\<exists>j < length cs. j \<noteq> i \<and> b_valid (cs ! j) \<and> b_lba (cs ! j) = x")
        case True
        then obtain j where "j < length cs" "j \<noteq> i" "b_valid (cs ! j)" "b_lba (cs ! j) = x" by blast
        then show ?thesis using False cache_view_valid [OF dist, of j v] cache_view_valid [OF dist', of j v] by simp
      next
        case none: False
        then have "cache_lookup (cs[i := b]) x = None"
          using False i by (auto simp: cache_lookup_None nth_list_update)
        moreover have "cache_view cs v x = v x"
        proof (cases "b_valid (cs ! i) \<and> b_lba (cs ! i) = x")
          case True
          with old False have "\<not> b_dirty (cs ! i)" by auto
          with True inv i have "b_data (cs ! i) = v x" by (auto simp: cache_inv_def)
          with True i cache_view_valid [OF dist, of i v] show ?thesis by auto
        next
          case False
          with none have "cache_lookup cs x = None" by (auto simp: cache_lookup_None)
          then show ?thesis by (rule cache_view_absent)
        qed
        ultimately show ?thesis using False by (simp add: cache_view_def)
      qed
    qed
  qed
qed

lemma cache_touch:
  assumes "cache_inv cs v" "i < length cs"
  shows "cache_inv (cs[i := (cs ! i)\<lparr>b_tick := t\<rparr>]) v" "cache_view (cs[i := (cs ! i)\<lparr>b_tick := t\<rparr>]) v = cache_view cs v"
proof -
  have same: "b_valid (cs[i := (cs ! i)\<lparr>b_tick := t\<rparr>] ! j) = b_valid (cs ! j)"
    "b_dirty (cs[i := (cs ! i)\<lparr>b_tick := t\<rparr>] ! j) = b_dirty (cs ! j)"
    "b_lba (cs[i := (cs ! i)\<lparr>b_tick := t\<rparr>] ! j) = b_lba (cs ! j)"
    "b_data (cs[i := (cs ! i)\<lparr>b_tick := t\<rparr>] ! j) = b_data (cs ! j)" for j
    using assms(2) by (auto simp: nth_list_update b_valid_def b_dirty_def)
  have "block_ok ((cs ! i)\<lparr>b_tick := t\<rparr>)" using assms by (auto simp: cache_inv_def list_all_length block_ok_def)
  then show inv': "cache_inv (cs[i := (cs ! i)\<lparr>b_tick := t\<rparr>]) v"
    using assms by (auto simp: cache_inv_def same distinct_lbas_def intro: list_all_update)
  have "cache_lookup (cs[i := (cs ! i)\<lparr>b_tick := t\<rparr>]) x = cache_lookup cs x" for x
  proof (cases "cache_lookup cs x")
    case None
    then have "cache_lookup (cs[i := (cs ! i)\<lparr>b_tick := t\<rparr>]) x = None" by (simp add: cache_lookup_None same)
    with None show ?thesis by simp
  next
    case (Some d)
    then have "cache_lookup (cs[i := (cs ! i)\<lparr>b_tick := t\<rparr>]) x = Some d"
      using assms inv' by (simp add: cache_lookup_iff cache_inv_def same)
    with Some show ?thesis by simp
  qed
  then show "cache_view (cs[i := (cs ! i)\<lparr>b_tick := t\<rparr>]) v = cache_view cs v"
    by (simp add: cache_view_def fun_eq_iff)
qed

section \<open>The cache over a block device\<close>

definition bcache_inv :: "('d \<Rightarrow> bool) \<Rightarrow> ('d \<Rightarrow> medium) \<Rightarrow> 'd bcache \<Rightarrow> bool" where
  "bcache_inv dinv view s \<longleftrightarrow>
     g_bcache_ready s \<and> dinv (g_real s) \<and> cache_inv (g_cache s) (view (g_real s))"

definition bcache_view :: "('d \<Rightarrow> medium) \<Rightarrow> 'd bcache \<Rightarrow> medium" where
  "bcache_view view s = cache_view (g_cache s) (view (g_real s))"

lemma cache_invD:
  assumes "cache_inv cs v"
  shows "length cs = 64" "distinct_lbas cs" "i < 64 \<Longrightarrow> block_ok (cs ! i)"
    "i < 64 \<Longrightarrow> b_valid (cs ! i) \<Longrightarrow> \<not> b_dirty (cs ! i) \<Longrightarrow> b_data (cs ! i) = v (b_lba (cs ! i))"
  using assms by (auto simp: cache_inv_def list_all_length)

text \<open>The disk may change under a dirty block, and under nothing else.\<close>

lemma cache_disk_change:
  assumes inv: "cache_inv cs v" and i: "i < length cs" "b_dirty (cs ! i)"
    and same: "\<And>x. x \<noteq> b_lba (cs ! i) \<Longrightarrow> w x = v x"
  shows "cache_inv cs w" "cache_view cs w = cache_view cs v"
proof -
  have val: "b_valid (cs ! i)" using inv i block_okD(2) by (auto simp: cache_inv_def list_all_length)
  have "b_lba (cs ! j) \<noteq> b_lba (cs ! i)" if "j < length cs" "b_valid (cs ! j)" "\<not> b_dirty (cs ! j)" for j
    using that i inv val by (auto simp: cache_inv_def distinct_lbas_def)
  with inv same show "cache_inv cs w" by (auto simp: cache_inv_def)
  have "cache_lookup cs (b_lba (cs ! i)) \<noteq> None" using i val by (auto simp: cache_lookup_None)
  then have "w x = v x" if "cache_lookup cs x = None" for x
    using same [of x] that by (cases "x = b_lba (cs ! i)") auto
  then show "cache_view cs w = cache_view cs v"
    by (auto simp: cache_view_def fun_eq_iff split: option.splits)
qed

lemma clean_block:
  assumes "block_ok b"
  shows "\<not> b_dirty (b\<lparr>b_flags := b_flags b AND NOT BCACHE_FLAG_DIRTY\<rparr>)"
    "b_valid (b\<lparr>b_flags := b_flags b AND NOT BCACHE_FLAG_DIRTY\<rparr>) = b_valid b"
    "block_ok (b\<lparr>b_flags := b_flags b AND NOT BCACHE_FLAG_DIRTY\<rparr>)"
  using assms by (auto simp: block_ok_def b_dirty_def b_valid_def flag_defs)

lemma block_updates:
  "b\<lparr>b_data := d, b_flags := f, b_tick := t\<rparr> = \<lparr>b_lba = b_lba b, b_flags = f, b_tick = t, b_data = d\<rparr>"
  "b\<lparr>b_data := d, b_lba := l, b_flags := f, b_tick := t\<rparr> = \<lparr>b_lba = l, b_flags = f, b_tick = t, b_data = d\<rparr>"
  "b\<lparr>b_lba := l, b_data := d, b_flags := f, b_tick := t\<rparr> = \<lparr>b_lba = l, b_flags = f, b_tick = t, b_data = d\<rparr>"
  by (cases b; simp)+

context block_device
begin

text \<open>
  A write-back keeps the contents whatever the device answers; when it succeeds, the block is clean.
\<close>

lemma writeback_correct:
  assumes inv: "bcache_inv dinv view s" and i: "i < BCACHE_NUM_BLOCKS" and wb: "bcache_writeback ops i s = (rc, s')"
  shows "bcache_inv dinv view s'" "bcache_view view s' = bcache_view view s"
    "0 \<le> rc \<Longrightarrow> \<not> b_dirty (g_cache s' ! i)" "j \<noteq> i \<Longrightarrow> g_cache s' ! j = g_cache s ! j"
    "0 \<le> rc \<or> rc = -1"
proof -
  let ?b = "g_cache s ! i"
  have ci: "cache_inv (g_cache s) (view (g_real s))" "dinv (g_real s)" "g_bcache_ready s"
    using inv by (simp_all add: bcache_inv_def)
  have len: "i < length (g_cache s)" and ok: "block_ok ?b" using cache_invD [OF ci(1)] i by simp_all
  have "bcache_inv dinv view s' \<and> bcache_view view s' = bcache_view view s
    \<and> (0 \<le> rc \<longrightarrow> \<not> b_dirty (g_cache s' ! i)) \<and> (j \<noteq> i \<longrightarrow> g_cache s' ! j = g_cache s ! j) \<and> (0 \<le> rc \<or> rc = -1)"
  proof (cases "b_dirty ?b")
    case False
    with wb inv i show ?thesis by (auto simp: bcache_writeback_def)
  next
    case True
    obtain r d where w: "disk_write ops (b_lba ?b) 1 (b_data ?b) (g_real s) = (r, d)" by fastforce
    note wr = write_one [OF ci(2) block_okD(1) [OF ok] w]
    have cd: "cache_inv (g_cache s) (view d)" "cache_view (g_cache s) (view d) = cache_view (g_cache s) (view (g_real s))"
      using wr(3) by (intro cache_disk_change [OF ci(1) len True]; blast)+
    show ?thesis
    proof (cases "r < 0")
      case True
      with wb \<open>b_dirty ?b\<close> w i have "rc = -1" "s' = s\<lparr>g_real := d\<rparr>" by (simp_all add: bcache_writeback_def)
      with cd wr ci show ?thesis by (simp add: bcache_inv_def bcache_view_def)
    next
      case False
      let ?b' = "?b\<lparr>b_flags := b_flags ?b AND NOT BCACHE_FLAG_DIRTY\<rparr>"
      have val: "b_valid ?b" using block_okD(2) [OF ok True] .
      have s': "rc = 0" "g_cache s' = (g_cache s)[i := ?b']" "g_real s' = d" "g_bcache_ready s'"
        using wb True False w i ci by (auto simp: bcache_writeback_def set_block_def Let_def)
      have put: "cache_inv (g_cache s') (view d)" "cache_view (g_cache s') (view d) = (cache_view (g_cache s) (view d))(b_lba ?b := b_data ?b)"
        using cache_put [OF cd(1) len, of ?b'] clean_block [OF ok] val wr(2) False by (auto simp: s')
      moreover have "cache_view (g_cache s) (view d) (b_lba ?b) = b_data ?b"
        using cache_view_valid [of "g_cache s" i] cache_invD(2) [OF ci(1)] len val by simp
      ultimately show ?thesis using cd wr(1) s' len clean_block [OF ok]
        by (auto simp: bcache_inv_def bcache_view_def fun_eq_iff)
    qed
  qed
  then show "bcache_inv dinv view s'" "bcache_view view s' = bcache_view view s"
    "0 \<le> rc \<Longrightarrow> \<not> b_dirty (g_cache s' ! i)" "j \<noteq> i \<Longrightarrow> g_cache s' ! j = g_cache s ! j" "0 \<le> rc \<or> rc = -1"
    by auto
qed

lemma sync_loop_correct:
  assumes "bcache_inv dinv view s" "i + n = BCACHE_NUM_BLOCKS" "\<forall>j < i. err = 0 \<longrightarrow> \<not> b_dirty (g_cache s ! j)"
    "err = 0 \<or> err = -1" "bcache_sync_loop ops i n err s = (rc, s')"
  shows "bcache_inv dinv view s' \<and> bcache_view view s' = bcache_view view s \<and> (rc = 0 \<or> rc = -1)
    \<and> (rc = 0 \<longrightarrow> (\<forall>j < BCACHE_NUM_BLOCKS. \<not> b_dirty (g_cache s' ! j)))"
  using assms
proof (induction n arbitrary: i err s)
  case (Suc n)
  show ?case
  proof (cases "b_dirty (g_cache s ! i)")
    case False
    with Suc.prems show ?thesis by (intro Suc.IH [of s "Suc i" err]) (auto simp: less_Suc_eq)
  next
    case True
    obtain r s1 where wb: "bcache_writeback ops i s = (r, s1)" by fastforce
    have i: "i < 64" using Suc.prems(2) by simp
    note w = writeback_correct [OF Suc.prems(1) i wb]
    have "bcache_sync_loop ops (Suc i) n (if r < 0 then -1 else err) s1 = (rc, s')"
      using Suc.prems(5) True wb by simp
    then have "bcache_inv dinv view s' \<and> bcache_view view s' = bcache_view view s1 \<and> (rc = 0 \<or> rc = -1)
      \<and> (rc = 0 \<longrightarrow> (\<forall>j < BCACHE_NUM_BLOCKS. \<not> b_dirty (g_cache s' ! j)))"
      using Suc.prems w by (intro Suc.IH) (auto simp: less_Suc_eq split: if_splits)
    with w(2) show ?thesis by simp
  qed
qed auto

lemma sync_correct:
  assumes inv: "bcache_inv dinv view s" and sync: "bcache_sync ops s = (rc, s')"
  shows "bcache_inv dinv view s'" "bcache_view view s' = bcache_view view s"
    "rc = 0 \<Longrightarrow> view (g_real s') = bcache_view view s" "rc = 0 \<or> rc = -1"
proof -
  have "bcache_sync_loop ops 0 64 0 s = (rc, s')" using sync inv by (simp add: bcache_sync_def bcache_inv_def)
  from sync_loop_correct [OF inv _ _ _ this] have
    l: "bcache_inv dinv view s'" "bcache_view view s' = bcache_view view s" "rc = 0 \<or> rc = -1"
      "rc = 0 \<Longrightarrow> j < 64 \<Longrightarrow> \<not> b_dirty (g_cache s' ! j)" for j by auto
  then show "bcache_inv dinv view s'" "bcache_view view s' = bcache_view view s" "rc = 0 \<or> rc = -1" by auto
  show "view (g_real s') = bcache_view view s" if "rc = 0"
  proof -
    have ci: "cache_inv (g_cache s') (view (g_real s'))" using l(1) by (simp add: bcache_inv_def)
    have "cache_view (g_cache s') (view (g_real s')) x = view (g_real s') x" for x
    proof (cases "cache_lookup (g_cache s') x")
      case (Some d)
      then obtain i where "i < 64" "b_valid (g_cache s' ! i)" "b_lba (g_cache s' ! i) = x" "b_data (g_cache s' ! i) = d"
        using cache_lookup_iff [OF cache_invD(2) [OF ci]] cache_invD(1) [OF ci] by auto
      with l(4) [OF that] cache_invD(4) [OF ci, of i] Some show ?thesis by (simp add: cache_view_def)
    qed (simp add: cache_view_def)
    with l(2) show ?thesis by (simp add: bcache_view_def fun_eq_iff)
  qed
qed

end

context reliable_device
begin

lemma evict_correct:
  assumes inv: "bcache_inv dinv view s" and i: "i < BCACHE_NUM_BLOCKS"
  shows "bcache_inv dinv view (bcache_evict ops i s)" "bcache_view view (bcache_evict ops i s) = bcache_view view s"
    "\<not> b_dirty (g_cache (bcache_evict ops i s) ! i)"
    "cache_lookup (g_cache s) x = None \<Longrightarrow> cache_lookup (g_cache (bcache_evict ops i s)) x = None"
    "g_tick (bcache_evict ops i s) = g_tick s"
proof -
  let ?b = "g_cache s ! i"
  have ci: "cache_inv (g_cache s) (view (g_real s))" "dinv (g_real s)" using inv by (simp_all add: bcache_inv_def)
  have ok: "block_ok ?b" using cache_invD(3) [OF ci(1)] i by simp
  obtain rc s' where wb: "bcache_writeback ops i s = (rc, s')" by fastforce
  note w = writeback_correct [OF inv i wb]
  have "0 \<le> rc"
    using wb i write_succeeds [OF ci(2), of "b_data ?b" 1 "b_lba ?b"] block_okD(1) [OF ok]
    by (auto simp: bcache_writeback_def Let_def split_beta split: if_splits)
  moreover have "cache_lookup (g_cache s') x = None" if "cache_lookup (g_cache s) x = None"
  proof -
    have "g_cache s' ! i = ?b \<or> g_cache s' ! i = ?b\<lparr>b_flags := b_flags ?b AND NOT BCACHE_FLAG_DIRTY\<rparr>"
      "length (g_cache s') = length (g_cache s)"
      using wb i cache_invD(1) [OF ci(1)]
      by (auto simp: bcache_writeback_def set_block_def Let_def split_beta split: if_splits)
    moreover from this have "b_valid (g_cache s' ! j) = b_valid (g_cache s ! j) \<and> b_lba (g_cache s' ! j) = b_lba (g_cache s ! j)" for j
      using w(4) [of j] clean_block(2) [OF ok] by (cases "j = i") auto
    ultimately show ?thesis using that by (simp add: cache_lookup_None)
  qed
  moreover have "g_tick s' = g_tick s"
    using wb by (auto simp: bcache_writeback_def set_block_def Let_def split_beta split: if_splits)
  ultimately show "bcache_inv dinv view (bcache_evict ops i s)" "bcache_view view (bcache_evict ops i s) = bcache_view view s"
    "\<not> b_dirty (g_cache (bcache_evict ops i s) ! i)"
    "cache_lookup (g_cache s) x = None \<Longrightarrow> cache_lookup (g_cache (bcache_evict ops i s)) x = None"
    "g_tick (bcache_evict ops i s) = g_tick s"
    using w(1-3) inv wb by (simp_all add: bcache_evict_def Let_def bcache_inv_def bcache_view_def)
qed

text \<open>
  The slot chosen for a sector that is not cached, after its eviction: it can be reused.
\<close>

lemma victim_ready:
  assumes inv: "bcache_inv dinv view s" and None: "bcache_find sector (g_cache s) = None"
    and s2: "i = bcache_lru (g_cache s)" "s2 = bcache_evict ops i s"
  shows "i < BCACHE_NUM_BLOCKS" "bcache_inv dinv view s2" "bcache_view view s2 = bcache_view view s"
    "\<not> b_dirty (g_cache s2 ! i)" "cache_lookup (g_cache s2) sector = None" "g_tick s2 = g_tick s"
    "i < length (g_cache s2)" "block_ok (g_cache s2 ! i)"
proof -
  have "length (g_cache s) = 64" using inv by (auto simp: bcache_inv_def cache_inv_def)
  then show i: "i < 64" using bcache_lru_bound [of "g_cache s"] unfolding s2 by fastforce
  note e = evict_correct [OF inv i]
  then show s2inv: "bcache_inv dinv view s2" "bcache_view view s2 = bcache_view view s"
    "\<not> b_dirty (g_cache s2 ! i)" "cache_lookup (g_cache s2) sector = None" "g_tick s2 = g_tick s"
    using None unfolding s2(2) by (simp_all add: bcache_find_None)
  then show "i < length (g_cache s2)" "block_ok (g_cache s2 ! i)"
    using i by (auto simp: bcache_inv_def cache_inv_def list_all_length)
qed

lemma load_correct:
  assumes inv: "bcache_inv dinv view s" and ld: "bcache_load ops sector s = (r, s')"
  shows "bcache_inv dinv view s' \<and> bcache_view view s' = bcache_view view s
    \<and> (\<forall>i. r = Some i \<longrightarrow> b_data (g_cache s' ! i) = bcache_view view s sector)"
proof (cases "bcache_find sector (g_cache s)")
  case (Some i)
  have ci: "cache_inv (g_cache s) (view (g_real s))" using inv by (simp add: bcache_inv_def)
  have i: "i < length (g_cache s)" "b_valid (g_cache s ! i)" "b_lba (g_cache s ! i) = sector"
    using Some find_slot_SomeD [of _ "g_cache s" i] by (auto simp: bcache_find_def)
  with ld Some cache_touch [OF ci i(1)] cache_view_valid [OF cache_invD(2) [OF ci] i(1,2)] inv
  show ?thesis by (auto simp: bcache_load_def touch_def set_block_def bcache_inv_def bcache_view_def)
next
  case None
  define s1 where "s1 = s\<lparr>bc_stats := (bc_stats s)\<lparr>misses := misses (bc_stats s) + 1\<rparr>\<rparr>"
  define i where "i = bcache_lru (g_cache s1)"
  define s2 where "s2 = bcache_evict ops i s1"
  have inv1: "bcache_inv dinv view s1" "bcache_view view s1 = bcache_view view s" "bcache_find sector (g_cache s1) = None"
    using inv None by (simp_all add: s1_def bcache_inv_def bcache_view_def)
  note v = victim_ready [OF inv1(1,3) i_def s2_def]
  have ci: "cache_inv (g_cache s2) (view (g_real s2))" "dinv (g_real s2)" "g_bcache_ready s2"
    using v(2) by (simp_all add: bcache_inv_def)
  obtain rc data d where rd: "disk_read ops sector 1 (b_data (g_cache s2 ! i)) (g_real s2) = ((rc, data), d)"
    by (metis prod.collapse)
  note rd' = read_one [OF ci(2) block_okD(1) [OF v(8)] rd]
  have l: "(r, s') = (let s3 = set_block i (\<lambda>b. b\<lparr>b_data := data\<rparr>) (s2\<lparr>g_real := d\<rparr>)
          in if rc < 0 then (None, s3)
             else (Some i, touch i (set_block i (\<lambda>b. b\<lparr>b_lba := sector, b_flags := BCACHE_FLAG_VALID\<rparr>) s3)))"
    using ld None rd by (auto simp: bcache_load_def s1_def i_def s2_def Let_def)
  show ?thesis
  proof (cases "rc < 0")
    case True
    with rd' l v(7) have "r = None" "g_cache s' = g_cache s2" "g_real s' = d" "g_bcache_ready s' = g_bcache_ready s2"
      by (simp_all add: set_block_def Let_def)
    with v(2,3) inv1(2) rd' ci show ?thesis by (simp add: bcache_inv_def bcache_view_def)
  next
    case False
    define b where "b = \<lparr>b_lba = sector, b_flags = BCACHE_FLAG_VALID, b_tick = g_tick s2 + 1, b_data = data\<rparr>"
    have s': "r = Some i" "g_cache s' = (g_cache s2)[i := b]" "g_real s' = d" "g_bcache_ready s'"
      using l False v(7) ci by (auto simp: set_block_def touch_def Let_def b_def block_updates)
    have "block_ok b" "b_valid b" "b_data b = view d (b_lba b)" "b_lba b = sector"
      using rd' False by (auto simp: b_def block_ok_def b_valid_def flag_defs)
    with cache_put [OF ci(1) v(7), of b] v(4,5) rd' s'
    have "cache_inv (g_cache s') (view d)" "cache_view (g_cache s') (view d) = (cache_view (g_cache s2) (view d))(sector := view d sector)"
      by simp_all
    moreover have "cache_view (g_cache s2) (view d) sector = view d sector"
      using v(5) by (simp add: cache_view_def)
    ultimately show ?thesis
      using v(3,7) inv1(2) rd' s' False by (auto simp: bcache_inv_def bcache_view_def b_def)
  qed
qed

lemma store_correct:
  assumes inv: "bcache_inv dinv view s" and data: "length data = BCACHE_BLOCK_SIZE"
  shows "bcache_inv dinv view (bcache_store ops sector data s)
    \<and> bcache_view view (bcache_store ops sector data s) = (bcache_view view s)(sector := data)"
proof (cases "bcache_find sector (g_cache s)")
  case (Some i)
  have ci: "cache_inv (g_cache s) (view (g_real s))" using inv by (simp add: bcache_inv_def)
  have i: "i < length (g_cache s)" "b_valid (g_cache s ! i)" "b_lba (g_cache s ! i) = sector"
    using Some find_slot_SomeD [of _ "g_cache s" i] by (auto simp: bcache_find_def)
  let ?b = "\<lparr>b_lba = sector, b_flags = 3, b_tick = g_tick s + 1, b_data = data\<rparr>"
  have s': "g_cache (bcache_store ops sector data s) = (g_cache s)[i := ?b]"
    "g_real (bcache_store ops sector data s) = g_real s" "g_bcache_ready (bcache_store ops sector data s) = g_bcache_ready s"
    using Some i by (simp_all add: bcache_store_def touch_def set_block_def flag_defs block_updates)
  have "block_ok ?b" "b_valid ?b" "b_dirty ?b"
    using data by (simp_all add: block_ok_def b_valid_def b_dirty_def flag_defs)
  with cache_put [OF ci i(1), of ?b] i inv s' show ?thesis by (simp add: bcache_inv_def bcache_view_def)
next
  case None
  define i where "i = bcache_lru (g_cache s)"
  define s2 where "s2 = bcache_evict ops i s"
  note v = victim_ready [OF inv None i_def s2_def]
  have ci: "cache_inv (g_cache s2) (view (g_real s2))" "dinv (g_real s2)" "g_bcache_ready s2"
    using v(2) by (simp_all add: bcache_inv_def)
  let ?b = "\<lparr>b_lba = sector, b_flags = 3, b_tick = g_tick s + 1, b_data = data\<rparr>"
  have s': "g_cache (bcache_store ops sector data s) = (g_cache s2)[i := ?b]"
    "g_real (bcache_store ops sector data s) = g_real s2" "g_bcache_ready (bcache_store ops sector data s)"
    using None v(6,7) ci(3)
    by (simp_all add: bcache_store_def touch_def set_block_def flag_defs block_updates i_def [symmetric] s2_def [symmetric])
  have "block_ok ?b" "b_valid ?b" "b_dirty ?b"
    using data by (simp_all add: block_ok_def b_valid_def b_dirty_def flag_defs)
  with cache_put [OF ci(1) v(7), of ?b] v(3-5) ci s' show ?thesis by (simp add: bcache_inv_def bcache_view_def)
qed

lemma bcache_view_length: "bcache_inv dinv view s \<Longrightarrow> length (bcache_view view s x) = SECTOR_SIZE"
  using cache_lookup_iff [of "g_cache s" x] view_length [of "g_real s" x]
  by (auto simp: bcache_view_def cache_view_def bcache_inv_def cache_inv_def list_all_length block_ok_def
      split: option.splits)

lemma bcache_read_loop_correct:
  assumes "bcache_inv dinv view s" "length buf = (k + n) * SECTOR_SIZE"
    "take (k * SECTOR_SIZE) buf = sectors (bcache_view view s) lba k"
    "bcache_read_loop ops lba k n buf s = ((ok, buf'), s')"
  shows "bcache_inv dinv view s' \<and> bcache_view view s' = bcache_view view s \<and> length buf' = length buf
    \<and> (ok \<longrightarrow> buf' = sectors (bcache_view view s) lba (k + n))"
  using assms
proof (induction n arbitrary: k buf s)
  case (Suc n)
  obtain r s1 where ld: "bcache_load ops (lba + of_nat k) s = (r, s1)" by fastforce
  note l = load_correct [OF Suc.prems(1) ld]
  show ?case
  proof (cases r)
    case None
    with Suc.prems ld l show ?thesis by auto
  next
    case (Some i)
    let ?d = "b_data (g_cache s1 ! i)" and ?V = "bcache_view view s"
    have d: "?d = ?V (lba + of_nat k)" "length ?d = 512"
      using l Some bcache_view_length [OF Suc.prems(1)] by auto
    have room: "k * 512 + length ?d \<le> length buf" using Suc.prems(2) d by simp
    have "take (Suc k * 512) (blit buf (k * 512) ?d) = sectors ?V lba (Suc k)"
      using take_blit_end [OF room] Suc.prems(3) d by (simp add: sectors_Suc add.commute)
    moreover have "length (blit buf (k * 512) ?d) = (Suc k + n) * 512" using Suc.prems(2) length_blit [OF room] by simp
    ultimately have "bcache_inv dinv view s' \<and> bcache_view view s' = bcache_view view s1
        \<and> length buf' = length (blit buf (k * 512) ?d) \<and> (ok \<longrightarrow> buf' = sectors (bcache_view view s1) lba (Suc k + n))"
      using Suc.prems(4) ld Some l by (intro Suc.IH) simp_all
    with l room show ?thesis by simp
  qed
qed auto

lemma bcache_write_loop_correct:
  assumes "bcache_inv dinv view s" "length buf = (k + n) * SECTOR_SIZE" "k + n \<le> 256"
    "s' = bcache_write_loop ops lba k n buf s"
  shows "bcache_inv dinv view s'
    \<and> (\<forall>x. x \<notin> (\<lambda>i. lba + of_nat i) ` {k..<k + n} \<longrightarrow> bcache_view view s' x = bcache_view view s x)
    \<and> (\<forall>i. k \<le> i \<and> i < k + n \<longrightarrow> bcache_view view s' (lba + of_nat i) = chunk buf i)"
  using assms
proof (induction n arbitrary: k s)
  case (Suc n)
  let ?s = "bcache_store ops (lba + of_nat k) (chunk buf k) s" and ?V = "bcache_view view s'"
  let ?R = "(\<lambda>i. lba + of_nat i) ` {Suc k..<Suc k + n}"
  have "length (chunk buf k) = 512" using Suc.prems(2) by (intro length_chunk) simp
  note st = store_correct [OF Suc.prems(1) this, of "lba + of_nat k"]
  have "bcache_inv dinv view s' \<and> (\<forall>x. x \<notin> ?R \<longrightarrow> ?V x = bcache_view view ?s x)
      \<and> (\<forall>i. Suc k \<le> i \<and> i < Suc k + n \<longrightarrow> ?V (lba + of_nat i) = chunk buf i)"
    using Suc.prems st by (intro Suc.IH) simp_all
  then have IH: "bcache_inv dinv view s'" "x \<notin> ?R \<Longrightarrow> ?V x = bcache_view view ?s x"
    "Suc k \<le> i \<Longrightarrow> i < Suc k + n \<Longrightarrow> ?V (lba + of_nat i) = chunk buf i" for x i by blast+
  have new: "lba + of_nat k \<notin> ?R" using Suc.prems(3) sector_index_inj [of lba k] by fastforce
  have "?V x = bcache_view view s x" if "x \<notin> (\<lambda>i. lba + of_nat i) ` {k..<k + Suc n}" for x
  proof -
    have "x \<noteq> lba + of_nat k" "x \<notin> ?R" using that by (auto simp: image_iff)
    then show ?thesis using IH(2) [of x] st by simp
  qed
  moreover have "?V (lba + of_nat i) = chunk buf i" if "k \<le> i" "i < k + Suc n" for i
    using that IH(3) [of i] IH(2) [OF new] st by (cases "i = k") simp_all
  ultimately show ?case using IH(1) by blast
qed auto

text \<open>
  The cache over a reliable device is a block device whose contents is the cache's view, and its
  writes succeed: every client theorem about a device holds through the cache.
\<close>

lemma bcache_read_data:
  assumes inv: "bcache_inv dinv view s" and buf: "length buf = unat n * SECTOR_SIZE"
    and rd: "bcache_read ops lba n buf s = ((rc, buf'), s')"
  shows "bcache_inv dinv view s'" "bcache_view view s' = bcache_view view s" "length buf' = length buf"
    "0 \<le> rc \<Longrightarrow> buf' = sectors (bcache_view view s) lba (unat n)"
proof -
  obtain ok where l: "bcache_read_loop ops lba 0 (unat n) buf s = ((ok, buf'), s')"
    and rc: "rc = (if ok then int (unat n) else -1)"
    using rd inv by (auto simp: bcache_read_def bcache_inv_def split: prod.splits)
  from bcache_read_loop_correct [OF inv _ _ l] buf rc
  show "bcache_inv dinv view s'" "bcache_view view s' = bcache_view view s" "length buf' = length buf"
    "0 \<le> rc \<Longrightarrow> buf' = sectors (bcache_view view s) lba (unat n)" by (auto split: if_splits)
qed

lemma bcache_write_data:
  assumes inv: "bcache_inv dinv view s" and data: "length data = unat n * SECTOR_SIZE"
    and wr: "bcache_write ops lba n data s = (rc, s')"
  shows "bcache_inv dinv view s'" "x \<notin> sector_range lba (unat n) \<Longrightarrow> bcache_view view s' x = bcache_view view s x"
    "sectors (bcache_view view s') lba (unat n) = data" "0 \<le> rc"
proof -
  have s': "s' = bcache_write_loop ops lba 0 (unat n) data s" and rc: "rc = int (unat n)"
    using wr inv by (auto simp: bcache_write_def bcache_inv_def)
  have n: "unat n \<le> 256" using count_byte_bound [of n] by simp
  have l: "bcache_inv dinv view s'
    \<and> (\<forall>x. x \<notin> sector_range lba (unat n) \<longrightarrow> bcache_view view s' x = bcache_view view s x)
    \<and> (\<forall>i. i < unat n \<longrightarrow> bcache_view view s' (lba + of_nat i) = chunk data i)"
    using bcache_write_loop_correct [OF inv, of data 0 "unat n" s' lba] s' data n
    by (simp add: sector_range_def atLeast0LessThan)
  then show "bcache_inv dinv view s'"
    "x \<notin> sector_range lba (unat n) \<Longrightarrow> bcache_view view s' x = bcache_view view s x" by simp_all
  show "sectors (bcache_view view s') lba (unat n) = data"
    using sectors_eqI [of "unat n" data "bcache_view view s'" lba] l data by simp
  show "0 \<le> rc" using rc by simp
qed

lemma bcache_read_one_fails:
  "bcache_read ops lba 1 buf s = ((rc, buf'), s') \<Longrightarrow> rc < 0 \<Longrightarrow> buf' = buf"
  by (auto simp: bcache_read_def split: prod.splits option.splits if_splits)

end

sublocale reliable_device \<subseteq> cached: block_device "bcache_ops ops" "bcache_inv dinv view" "bcache_view view"
proof unfold_locales
  fix d d' :: "'a bcache" and buf buf' :: bytes and n :: u8 and lba and rc :: int
  assume inv: "bcache_inv dinv view d"
  { assume "length buf = unat n * 512" "disk_read (bcache_ops ops) lba n buf d = ((rc, buf'), d')"
    then show "bcache_inv dinv view d' \<and> bcache_view view d' = bcache_view view d \<and> length buf' = length buf"
      "0 \<le> rc \<Longrightarrow> buf' = sectors (bcache_view view d) lba (unat n)"
      using bcache_read_data [OF inv, of buf n lba rc buf' d'] by (simp_all add: bcache_ops_def) }
  { assume "disk_read (bcache_ops ops) lba 1 buf d = ((rc, buf'), d')" "rc < 0"
    then show "buf' = buf" by (intro bcache_read_one_fails [of lba buf d rc buf' d']) (simp_all add: bcache_ops_def) }
next
  fix d d' :: "'a bcache" and data :: bytes and n :: u8 and lba and rc :: int and x :: u32
  assume d: "bcache_inv dinv view d" "length data = unat n * 512"
  { assume "disk_write (bcache_ops ops) lba n data d = (rc, d')"
    then show "bcache_inv dinv view d'" "sectors (bcache_view view d') lba (unat n) = data"
      "x \<notin> sector_range lba (unat n) \<Longrightarrow> bcache_view view d' x = bcache_view view d x"
      using bcache_write_data [OF d, of lba rc d'] by (simp_all add: bcache_ops_def) }
qed (rule bcache_view_length)

context flawless_device
begin

lemma load_succeeds:
  assumes inv: "bcache_inv dinv view s"
  shows "fst (bcache_load ops sector s) \<noteq> None"
proof (cases "bcache_find sector (g_cache s)")
  case None
  define s1 where "s1 = s\<lparr>bc_stats := (bc_stats s)\<lparr>misses := misses (bc_stats s) + 1\<rparr>\<rparr>"
  define i where "i = bcache_lru (g_cache s1)"
  define s2 where "s2 = bcache_evict ops i s1"
  have inv1: "bcache_inv dinv view s1" "bcache_find sector (g_cache s1) = None"
    using inv None by (simp_all add: s1_def bcache_inv_def)
  note v = victim_ready [OF inv1 i_def s2_def]
  have "dinv (g_real s2)" using v(2) by (simp add: bcache_inv_def)
  with v(8) have "0 \<le> fst (fst (disk_read ops sector 1 (b_data (g_cache s2 ! i)) (g_real s2)))"
    by (intro read_succeeds) (simp_all add: block_okD)
  with None show ?thesis
    by (auto simp: bcache_load_def s1_def [symmetric] i_def [symmetric] s2_def [symmetric] Let_def split: prod.splits)
qed (simp add: bcache_load_def)

lemma read_loop_succeeds:
  "bcache_inv dinv view s \<Longrightarrow> fst (fst (bcache_read_loop ops lba k n buf s))"
proof (induction n arbitrary: k buf s)
  case (Suc n)
  obtain i s1 where ld: "bcache_load ops (lba + of_nat k) s = (Some i, s1)"
    using load_succeeds [OF Suc.prems, of "lba + of_nat k"] by (cases "bcache_load ops (lba + of_nat k) s") auto
  with load_correct [OF Suc.prems ld] Suc.IH show ?case by simp
qed simp

lemma cached_flawless: "flawless_device (bcache_ops ops) (bcache_inv dinv view) (bcache_view view)"
proof unfold_locales
  fix d :: "'a bcache" and buf data :: bytes and n :: u8 and lba
  assume inv: "bcache_inv dinv view d"
  then show "0 \<le> fst (fst (disk_read (bcache_ops ops) lba n buf d))"
    using read_loop_succeeds [OF inv, of lba 0 "unat n" buf]
    by (auto simp: bcache_ops_def bcache_read_def bcache_inv_def split: prod.splits)
  from inv show "0 \<le> fst (disk_write (bcache_ops ops) lba n data d)"
    by (simp add: bcache_ops_def bcache_write_def bcache_inv_def)
qed

end

lemma bcache_init_inv:
  assumes "dinv d"
  shows "bcache_inv dinv view (bcache_init d)" "bcache_view view (bcache_init d) = view d"
proof -
  have inval: "\<not> b_valid (g_cache (bcache_init d) ! i)" if "i < 64" for i
    using that by (simp add: bcache_init_def b_valid_def)
  have "list_all block_ok (g_cache (bcache_init d))" by (simp add: bcache_init_def list_all_length block_ok_def)
  with inval assms show "bcache_inv dinv view (bcache_init d)"
    by (simp add: bcache_inv_def cache_inv_def distinct_lbas_def) (simp add: bcache_init_def)
  have "cache_lookup (g_cache (bcache_init d)) x = None" for x
    using inval by (simp add: cache_lookup_None) (simp add: bcache_init_def)
  then show "bcache_view view (bcache_init d) = view d"
    by (simp add: bcache_view_def cache_view_def fun_eq_iff) (simp add: bcache_init_def)
qed

text \<open>Over a disk that never fails, reads through the cache never fail.\<close>

lemma ram_load: "\<exists>i s'. bcache_load ram_ops x s = (Some i, s')"
  by (auto simp: bcache_load_def ram_ops_def Let_def split: option.splits)

lemma ram_read_loop: "fst (fst (bcache_read_loop ram_ops lba k n buf s))"
proof (induction n arbitrary: k buf s)
  case (Suc n)
  obtain i s' where "bcache_load ram_ops (lba + of_nat k) s = (Some i, s')" using ram_load by blast
  with Suc show ?case by simp
qed simp

lemma ram_read: "g_bcache_ready s \<Longrightarrow> fst (fst (bcache_read ram_ops lba n buf s)) = int (unat n)"
  using ram_read_loop [of lba 0 "unat n" buf s] by (auto simp: bcache_read_def split: prod.splits)

section \<open>Properties\<close>

text \<open>
  Property C14: the cache is transparent. Over any device whose writes succeed, a read through the
  cache that succeeds returns exactly the current contents of the requested run of sectors, whatever
  was evicted on the way; a read, failed or not, changes neither the contents nor the invariant.
\<close>

theorem bcache_read_coherent:
  assumes "reliable_device ops dinv view" "bcache_inv dinv view s" "length buf = unat n * SECTOR_SIZE"
    and "bcache_read ops lba n buf s = ((rc, buf'), s')"
  shows "bcache_inv dinv view s' \<and> bcache_view view s' = bcache_view view s
    \<and> (0 \<le> rc \<longrightarrow> buf' = sectors (bcache_view view s) lba (unat n))"
  using reliable_device.bcache_read_data [OF assms] by simp

theorem bcache_read_coherent_witness:
  "snd (fst (bcache_read ram_ops 7 2 (replicate 1024 1) (bcache_init (\<lambda>x. replicate 512 (ucast x)))))
   = replicate 512 7 @ replicate 512 8"
proof -
  let ?v = "\<lambda>x :: u32. replicate 512 (ucast x) :: bytes"
  have v: "ram_inv ?v" by (simp add: ram_inv_def)
  obtain rc buf' s' where r: "bcache_read ram_ops 7 2 (replicate 1024 1) (bcache_init ?v) = ((rc, buf'), s')"
    by (metis prod.collapse)
  have "rc = 2" using ram_read [of "bcache_init ?v" 7 2 "replicate 1024 1"] r by (simp add: bcache_init_def)
  then have "buf' = sectors (bcache_view (\<lambda>v. v) (bcache_init ?v)) 7 2"
    using bcache_read_coherent [OF ram.reliable_device_axioms bcache_init_inv(1) [where dinv = ram_inv, OF v] _ r] by simp
  also have "\<dots> = ?v 7 @ ?v 8"
    unfolding bcache_init_inv(2) [where dinv = ram_inv and view = "\<lambda>v. v", OF v]
    by (simp add: sectors_def upt_rec)
  finally show ?thesis using r by simp
qed

text \<open>
  Property C16: a write through the cache succeeds, stores exactly the given sectors and leaves every
  other sector as it was, although the disk below is updated later and in another order.
\<close>

theorem bcache_write_coherent:
  assumes "reliable_device ops dinv view" "bcache_inv dinv view s" "length data = unat n * SECTOR_SIZE"
    and "bcache_write ops lba n data s = (rc, s')"
  shows "rc = int (unat n) \<and> bcache_inv dinv view s' \<and> sectors (bcache_view view s') lba (unat n) = data
    \<and> (x \<notin> sector_range lba (unat n) \<longrightarrow> bcache_view view s' x = bcache_view view s x)"
  using reliable_device.bcache_write_data [OF assms] assms(2,4) by (auto simp: bcache_write_def bcache_inv_def)

theorem bcache_write_coherent_witness:
  "bcache_view (\<lambda>v. v) (snd (bcache_write ram_ops 7 1 (replicate 512 9) (bcache_init (\<lambda>x. replicate 512 0)))) 7 = replicate 512 9"
proof -
  let ?s = "bcache_init (\<lambda>x :: u32. replicate 512 0 :: bytes)"
  have "ram_inv (\<lambda>x :: u32. replicate 512 0)" by (simp add: ram_inv_def)
  from bcache_write_coherent [OF ram.reliable_device_axioms bcache_init_inv(1) [where dinv = ram_inv, OF this], of "replicate 512 9" 1 7]
  show ?thesis by (cases "bcache_write ram_ops 7 1 (replicate 512 9) ?s") auto
qed

text \<open>
  Property: a sync that reports success has made the disk equal to the contents the readers see;
  it never changes that contents, also when the device refuses some of the writes.
\<close>

theorem bcache_sync_flushes:
  assumes "block_device ops dinv view" "bcache_inv dinv view s" "bcache_sync ops s = (rc, s')"
  shows "bcache_inv dinv view s' \<and> bcache_view view s' = bcache_view view s
    \<and> (rc = 0 \<longrightarrow> view (g_real s') = bcache_view view s)"
  using block_device.sync_correct [OF assms] by simp

theorem bcache_sync_flushes_witness:
  "g_real (snd (bcache_sync ram_ops (bcache_init (\<lambda>x. replicate 512 5)))) = (\<lambda>x. replicate 512 5)"
proof -
  have v: "ram_inv (\<lambda>x :: u32. replicate 512 5)" by (simp add: ram_inv_def)
  have "bcache_sync_loop ram_ops i n 0 s = (0, s)" if "\<forall>j < i + n. \<not> b_dirty (g_cache s ! j)" for i n and s :: "medium bcache"
    using that by (induction n arbitrary: i) simp_all
  from this [of 0 64] have "bcache_sync ram_ops (bcache_init (\<lambda>x. replicate 512 5)) = (0, bcache_init (\<lambda>x. replicate 512 5))"
    by (simp add: bcache_sync_def) (simp add: bcache_init_def b_dirty_def)
  from bcache_sync_flushes [OF ram.block_device_axioms bcache_init_inv(1) [where dinv = ram_inv, OF v] this] this
  show ?thesis by (simp add: bcache_init_inv(2) [where dinv = ram_inv, OF v])
qed

text \<open>
  Property: \<open>bcache_read\<close> ignores a failed write-back. When the device refuses to take the dirty
  victim of an eviction, the slot is reused all the same: the load reports success, and the sector
  that had been written through the cache reads again as the old contents of the disk.
\<close>

theorem bcache_evict_loses_data:
  assumes dev: "block_device ops dinv view" and inv: "bcache_inv dinv view s"
    and miss: "bcache_find sector (g_cache s) = None"
    and b: "b = g_cache s ! bcache_lru (g_cache s)" "b_dirty b"
    and refused: "disk_write ops (b_lba b) 1 (b_data b) (g_real s) = (-1, g_real s)"
    and rd: "disk_read ops sector 1 (b_data b) (g_real s) = ((1, data), d)"
    and ld: "bcache_load ops sector s = (r, s')"
  shows "r = Some (bcache_lru (g_cache s)) \<and> bcache_view view s (b_lba b) = b_data b
    \<and> bcache_view view s' (b_lba b) = view (g_real s) (b_lba b)"
proof -
  let ?i = "bcache_lru (g_cache s)"
  have ci: "cache_inv (g_cache s) (view (g_real s))" "dinv (g_real s)" using inv by (simp_all add: bcache_inv_def)
  have len: "length (g_cache s) = 64" and dist: "distinct_lbas (g_cache s)" using ci(1) by (simp_all add: cache_inv_def)
  then have i: "?i < 64" using bcache_lru_bound [of "g_cache s"] by fastforce
  have ok: "block_ok b" and val: "b_valid b" using ci(1) i b block_okD(2) cache_invD(3) [OF ci(1) i] by auto
  have neq: "b_lba b \<noteq> sector" using miss val i len b(1) by (auto simp: bcache_find_None cache_lookup_None)
  have s': "r = Some ?i" "g_real s' = d"
      "\<exists>t. g_cache s' = (g_cache s)[?i := \<lparr>b_lba = sector, b_flags = BCACHE_FLAG_VALID, b_tick = t, b_data = data\<rparr>]"
    using ld miss b refused rd i len
    by (auto simp: bcache_load_def bcache_evict_def bcache_writeback_def set_block_def touch_def Let_def block_updates)
  then have "cache_lookup (g_cache s') (b_lba b) = None"
    using neq dist val i len b(1) by (auto simp: cache_lookup_None nth_list_update distinct_lbas_def split: if_splits)
  moreover have "view d = view (g_real s)"
    using block_device.read_one(2) [OF dev ci(2) block_okD(1) [OF ok] rd] .
  ultimately have "bcache_view view s' (b_lba b) = view (g_real s) (b_lba b)"
    using s' by (simp add: bcache_view_def cache_view_def)
  moreover have "bcache_view view s (b_lba b) = b_data b"
    using cache_view_valid [OF dist, of ?i] i len val b(1) by (simp add: bcache_view_def)
  ultimately show ?thesis using s' by simp
qed

text \<open>A write-protected disk, and a cache full of dirty sectors over it.\<close>

definition protected_ops :: "medium disk_ops" where
  "protected_ops = ram_ops\<lparr>disk_write := (\<lambda>lba n data v. (-1, v))\<rparr>"

definition dirty_cache :: "medium bcache" where
  "dirty_cache = (bcache_init (\<lambda>x. replicate 512 0))\<lparr>g_cache :=
     map (\<lambda>i. \<lparr>b_lba = of_nat i, b_flags = 3, b_tick = 1, b_data = replicate 512 9\<rparr>) [0..<64]\<rparr>"

interpretation protected: block_device protected_ops ram_inv "\<lambda>v. v"
  by unfold_locales (auto simp: ram_inv_def protected_ops_def ram_ops_def length_sectors)

lemma dirty_cache_inv: "bcache_inv ram_inv (\<lambda>v. v) dirty_cache"
  using sector_index_inj [of 0]
  by (auto simp: bcache_inv_def dirty_cache_def bcache_init_def ram_inv_def cache_inv_def list_all_length
      block_ok_def distinct_lbas_def b_dirty_def flag_defs)

theorem bcache_evict_loses_data_witness:
  "\<exists>x. bcache_view (\<lambda>v. v) dirty_cache x = replicate 512 9
     \<and> bcache_view (\<lambda>v. v) (snd (bcache_load protected_ops 100 dirty_cache)) x = replicate 512 0"
proof -
  have len: "length (g_cache dirty_cache) = 64" by (simp add: dirty_cache_def)
  then have "bcache_lru (g_cache dirty_cache) < 64" using bcache_lru_bound [of "g_cache dirty_cache"] by fastforce
  then obtain k where k: "bcache_lru (g_cache dirty_cache) = k" "k < 64" by blast
  then have b: "g_cache dirty_cache ! bcache_lru (g_cache dirty_cache)
      = \<lparr>b_lba = of_nat k, b_flags = 3, b_tick = 1, b_data = replicate 512 9\<rparr>" by (simp add: dirty_cache_def)
  have miss: "bcache_find 100 (g_cache dirty_cache) = None"
    using sector_index_inj [of 0 _ 100] by (fastforce simp: bcache_find_None cache_lookup_None dirty_cache_def)
  obtain r s' where ld: "bcache_load protected_ops 100 dirty_cache = (r, s')" by fastforce
  have "bcache_view (\<lambda>v. v) dirty_cache (of_nat k) = replicate 512 9
     \<and> bcache_view (\<lambda>v. v) s' (of_nat k) = replicate 512 0"
    using bcache_evict_loses_data [OF protected.block_device_axioms dirty_cache_inv miss b [symmetric] _ _ _ ld,
        of "replicate 512 0" "g_real dirty_cache"]
    by (simp add: b_dirty_def flag_defs protected_ops_def ram_ops_def dirty_cache_def bcache_init_def)
  then show ?thesis using ld by auto
qed

end
