(* ===== verification/Fat32.thy ===== *)
theory Fat32
  imports Bcache
begin

text \<open>
  The read-only FAT32 driver, \<open>src/kernel/fs/fat32.c\<close>: mounting, 8.3 names, the walk along FAT chains,
  directory lookup, path resolution, listing, stat and read. All input goes through the disk interface
  \<open>ops\<close> (in the kernel \<open>bcache_read\<close>, see \<open>bcache_ops\<close>). A sector buffer of the driver is only used
  after a read that succeeded, so each read gets a fresh one. The loops along a FAT chain need not
  end: they are \<open>partial_function (option)\<close>, \<open>None\<close> is a loop that runs forever. The calls of the
  listing callback are the list of its arguments, in order.
\<close>

section \<open>The code\<close>

abbreviation FAT32_EOC :: u32 where "FAT32_EOC \<equiv> 0x0FFFFFF8"
abbreviation DIRENT_SIZE :: nat where "DIRENT_SIZE \<equiv> 32"
abbreviation ATTR_DIRECTORY :: u8 where "ATTR_DIRECTORY \<equiv> 0x10"
abbreviation ATTR_VOLUME_ID :: u8 where "ATTR_VOLUME_ID \<equiv> 0x08"
abbreviation ATTR_LFN :: u8 where "ATTR_LFN \<equiv> 0x0F"

record 'd fat32 =
  fat_mounted :: bool
  fat_base_lba :: u32
  fat_start :: u32
  data_start :: u32
  root_cluster :: u32
  sectors_per_cluster :: u32
  total_clusters :: u32
  fat_disk :: 'd

definition rd16 :: "bytes \<Rightarrow> nat \<Rightarrow> u16" where
  "rd16 p i = ucast (p ! i) OR push_bit 8 (ucast (p ! (i + 1)))"

definition rd32 :: "bytes \<Rightarrow> nat \<Rightarrow> u32" where
  "rd32 p i = ucast (p ! i) OR push_bit 8 (ucast (p ! (i + 1))) OR push_bit 16 (ucast (p ! (i + 2)))
     OR push_bit 24 (ucast (p ! (i + 3)))"

text \<open>One sector of the volume: \<open>None\<close> for the negative result.\<close>

definition read_rel :: "'d disk_ops \<Rightarrow> u32 \<Rightarrow> 'd fat32 \<Rightarrow> bytes option \<times> 'd fat32" where
  "read_rel ops rel_sector g =
     (case disk_read ops (fat_base_lba g + rel_sector) 1 (replicate SECTOR_SIZE 0) (fat_disk g) of
        ((rc, buf), d) \<Rightarrow> (if rc < 0 then None else Some buf, g\<lparr>fat_disk := d\<rparr>))"

definition cluster_first_sector :: "'d fat32 \<Rightarrow> u32 \<Rightarrow> u32" where
  "cluster_first_sector g cluster = data_start g + (cluster - 2) * sectors_per_cluster g"

definition fat_next :: "'d disk_ops \<Rightarrow> u32 \<Rightarrow> 'd fat32 \<Rightarrow> u32 \<times> 'd fat32" where
  "fat_next ops cluster g =
     (let byte_off = cluster * 4 in
      case read_rel ops (fat_start g + byte_off div 512) g of
        (None, g1) \<Rightarrow> (FAT32_EOC, g1)
      | (Some sec, g1) \<Rightarrow> (rd32 sec (unat (byte_off mod 512)) AND 0x0FFFFFFF, g1))"

definition fat32_mount :: "'d disk_ops \<Rightarrow> u32 \<Rightarrow> 'd fat32 \<Rightarrow> int \<times> 'd fat32" where
  "fat32_mount ops base_lba g0 =
     (case read_rel ops 0 (g0\<lparr>fat_mounted := False, fat_base_lba := base_lba\<rparr>) of
        (None, g) \<Rightarrow> (-1, g)
      | (Some bpb, g) \<Rightarrow>
          if bpb ! 510 \<noteq> 0x55 \<or> bpb ! 511 \<noteq> 0xAA then (-1, g)
          else let bytes_per_sec = rd16 bpb 11; spc = bpb ! 13; rsvd = rd16 bpb 14; nfats = bpb ! 16;
                   root_ent16 = rd16 bpb 17; fatsz16 = rd16 bpb 22; fatsz32 = rd32 bpb 36;
                   rootc = rd32 bpb 44;
                   total_sec = (if rd16 bpb 19 = 0 then rd32 bpb 32 else ucast (rd16 bpb 19))
            in if bytes_per_sec \<noteq> 512 \<or> spc = 0 \<or> rsvd = 0 \<or> nfats = 0 then (-1, g)
               else if root_ent16 \<noteq> 0 \<or> fatsz16 \<noteq> 0 \<or> fatsz32 = 0 then (-1, g)
               else if rootc < 2 then (-1, g)
               else (0, g\<lparr>fat_start := ucast rsvd, data_start := ucast rsvd + ucast nfats * fatsz32,
                      root_cluster := rootc, sectors_per_cluster := ucast spc,
                      total_clusters := (total_sec - (ucast rsvd + ucast nfats * fatsz32)) div ucast spc,
                      fat_mounted := True\<rparr>))"

definition fat32_mounted :: "'d fat32 \<Rightarrow> bool" where
  "fat32_mounted g = fat_mounted g"

definition upper83 :: "char \<Rightarrow> char" where
  "upper83 c = (if of_char c \<ge> (97 :: nat) \<and> of_char c \<le> (122 :: nat) then char_of (of_char c - 32 :: nat) else c)"

text \<open>The two loops of \<open>name_to_83\<close>: the base name up to the dot, the extension behind it.\<close>

fun name83_base :: "char list \<Rightarrow> nat \<Rightarrow> char list \<Rightarrow> (char list \<times> char list) option" where
  "name83_base [] o1 buf = Some (buf, [])"
| "name83_base (c # name) o1 buf =
     (if c = CHR ''.'' then Some (buf, c # name)
      else if o1 \<ge> 8 then None
      else name83_base name (Suc o1) (buf[o1 := upper83 c]))"

fun name83_ext :: "char list \<Rightarrow> nat \<Rightarrow> char list \<Rightarrow> char list option" where
  "name83_ext [] e buf = Some buf"
| "name83_ext (c # name) e buf =
     (if e \<ge> 3 then None else name83_ext name (Suc e) (buf[8 + e := upper83 c]))"

definition name_to_83 :: "cstring \<Rightarrow> char list option" where
  "name_to_83 name =
     (case name83_base name 0 (replicate 11 (CHR '' '')) of
        None \<Rightarrow> None
      | Some (buf, rest) \<Rightarrow> (case rest of [] \<Rightarrow> Some buf | _ # ext \<Rightarrow> name83_ext ext 0 buf))"

definition name_from_83 :: "bytes \<Rightarrow> cstring" where
  "name_from_83 raw =
     (let base = takeWhile (\<lambda>b. b \<noteq> byte_of (CHR '' '')) (take 8 raw);
          ext = takeWhile (\<lambda>b. b \<noteq> byte_of (CHR '' '')) (take 3 (drop 8 raw))
      in map char_of_byte base @ (if raw ! 8 \<noteq> byte_of (CHR '' '') then CHR ''.'' # map char_of_byte ext else []))"

section \<open>Directories\<close>

datatype dirent = Dir_end | Dir_skip | Dir_entry bytes

definition dirent_at :: "bytes \<Rightarrow> nat \<Rightarrow> dirent" where
  "dirent_at sec e =
     (let d = take DIRENT_SIZE (drop (e * DIRENT_SIZE) sec) in
      if d ! 0 = 0 then Dir_end
      else if d ! 0 = 0xE5 then Dir_skip
      else if d ! 11 AND ATTR_LFN = ATTR_LFN then Dir_skip
      else if d ! 11 AND ATTR_VOLUME_ID \<noteq> 0 then Dir_skip
      else Dir_entry d)"

definition dirent_cluster :: "bytes \<Rightarrow> u32" where
  "dirent_cluster d = push_bit 16 (ucast (rd16 d 20)) OR ucast (rd16 d 26)"

definition dirent_is_dir :: "bytes \<Rightarrow> bool" where
  "dirent_is_dir d \<longleftrightarrow> d ! 11 AND ATTR_DIRECTORY \<noteq> 0"

datatype 'a scan = Scan_next | Scan_stop | Scan_hit 'a

fun find_in_sector :: "char list \<Rightarrow> bytes \<Rightarrow> nat \<Rightarrow> nat \<Rightarrow> (u32 \<times> u32 \<times> bool) scan" where
  "find_in_sector target sec e 0 = Scan_next"
| "find_in_sector target sec e (Suc k) =
     (case dirent_at sec e of
        Dir_end \<Rightarrow> Scan_stop
      | Dir_skip \<Rightarrow> find_in_sector target sec (Suc e) k
      | Dir_entry d \<Rightarrow>
          (if take 11 d = map byte_of target then Scan_hit (dirent_cluster d, rd32 d 28, dirent_is_dir d)
           else find_in_sector target sec (Suc e) k))"

fun find_in_cluster :: "'d disk_ops \<Rightarrow> char list \<Rightarrow> u32 \<Rightarrow> nat \<Rightarrow> nat \<Rightarrow> 'd fat32 \<Rightarrow> (u32 \<times> u32 \<times> bool) scan \<times> 'd fat32" where
  "find_in_cluster ops target cl s 0 g = (Scan_next, g)"
| "find_in_cluster ops target cl s (Suc k) g =
     (case read_rel ops (cluster_first_sector g cl + of_nat s) g of
        (None, g1) \<Rightarrow> (Scan_stop, g1)
      | (Some sec, g1) \<Rightarrow>
          (case find_in_sector target sec 0 16 of
             Scan_next \<Rightarrow> find_in_cluster ops target cl (Suc s) k g1
           | r \<Rightarrow> (r, g1)))"

partial_function (option) dir_find ::
  "'d disk_ops \<Rightarrow> char list \<Rightarrow> u32 \<Rightarrow> 'd fat32 \<Rightarrow> ((u32 \<times> u32 \<times> bool) option \<times> 'd fat32) option" where
  "dir_find ops target cl g =
     (if cl < FAT32_EOC \<and> cl \<ge> 2 then
        (case find_in_cluster ops target cl 0 (unat (sectors_per_cluster g)) g of
           (Scan_hit r, g1) \<Rightarrow> Some (Some r, g1)
         | (Scan_stop, g1) \<Rightarrow> Some (None, g1)
         | (Scan_next, g1) \<Rightarrow> (case fat_next ops cl g1 of (cl', g2) \<Rightarrow> dir_find ops target cl' g2))
      else Some (None, g))"

text \<open>
  The component loop of \<open>resolve\<close>: at most twelve characters up to a slash (\<open>None\<close> for a longer
  component), then the slashes behind it.
\<close>

definition next_component :: "cstring \<Rightarrow> (cstring \<times> cstring) option" where
  "next_component path =
     (let seg = takeWhile (\<lambda>c. c \<noteq> CHR ''/'') path; rest = dropWhile (\<lambda>c. c \<noteq> CHR ''/'') path
      in if length seg > 12 then None else Some (seg, dropWhile (\<lambda>c. c = CHR ''/'') rest))"

lemma next_component_shorter: "next_component path = Some (c, rest) \<Longrightarrow> path \<noteq> [] \<Longrightarrow> length rest < length path"
proof -
  assume a: "next_component path = Some (c, rest)" and ne: "path \<noteq> []"
  let ?r = "dropWhile (\<lambda>c. c \<noteq> CHR ''/'') path"
  have r: "rest = dropWhile (\<lambda>c. c = CHR ''/'') ?r" using a by (simp add: next_component_def Let_def split: if_splits)
  show ?thesis
  proof (cases "?r")
    case Nil
    with r ne show ?thesis by simp
  next
    case (Cons x xs)
    then have "x = CHR ''/''" using hd_dropWhile [of "\<lambda>c. c \<noteq> CHR ''/''" path] by (metis list.distinct(1) list.sel(1))
    then have "length rest \<le> length xs" using r Cons by (simp add: length_dropWhile_le)
    moreover have "length ?r \<le> length path" by (rule length_dropWhile_le)
    ultimately show ?thesis using Cons by simp
  qed
qed

partial_function (option) resolve_loop ::
  "'d disk_ops \<Rightarrow> cstring \<Rightarrow> u32 \<times> u32 \<times> bool \<Rightarrow> 'd fat32 \<Rightarrow> ((u32 \<times> u32 \<times> bool) option \<times> 'd fat32) option" where
  "resolve_loop ops path cur g =
     (if path = [] then Some (Some cur, g)
      else case next_component path of
        None \<Rightarrow> Some (None, g)
      | Some (seg, rest) \<Rightarrow>
          if seg = [] then resolve_loop ops rest cur g
          else if \<not> snd (snd cur) then Some (None, g)
          else (case name_to_83 seg of
              None \<Rightarrow> Some (None, g)
            | Some t83 \<Rightarrow>
                Option.bind (dir_find ops t83 (fst cur) g) (\<lambda>(hit, g1).
                  case hit of None \<Rightarrow> Some (None, g1) | Some cur' \<Rightarrow> resolve_loop ops rest cur' g1)))"

definition resolve :: "'d disk_ops \<Rightarrow> cstring \<Rightarrow> 'd fat32 \<Rightarrow> ((u32 \<times> u32 \<times> bool) option \<times> 'd fat32) option" where
  "resolve ops path g =
     (if \<not> fat_mounted g then Some (None, g)
      else case path of
        [] \<Rightarrow> Some (None, g)
      | c # rest \<Rightarrow> if c \<noteq> CHR ''/'' then Some (None, g) else resolve_loop ops rest (root_cluster g, 0, True) g)"

section \<open>List, stat, read\<close>

type_synonym list_cb = "cstring \<times> u32 \<times> bool"

fun list_sector :: "bytes \<Rightarrow> nat \<Rightarrow> nat \<Rightarrow> list_cb list \<Rightarrow> list_cb list \<times> bool" where
  "list_sector sec e 0 out = (out, True)"
| "list_sector sec e (Suc k) out =
     (case dirent_at sec e of
        Dir_end \<Rightarrow> (out, False)
      | Dir_skip \<Rightarrow> list_sector sec (Suc e) k out
      | Dir_entry d \<Rightarrow> list_sector sec (Suc e) k (out @ [(name_from_83 d, rd32 d 28, dirent_is_dir d)]))"

fun list_cluster :: "'d disk_ops \<Rightarrow> u32 \<Rightarrow> nat \<Rightarrow> nat \<Rightarrow> list_cb list \<Rightarrow> 'd fat32 \<Rightarrow> (list_cb list \<times> bool) \<times> 'd fat32" where
  "list_cluster ops cl s 0 out g = ((out, True), g)"
| "list_cluster ops cl s (Suc k) out g =
     (case read_rel ops (cluster_first_sector g cl + of_nat s) g of
        (None, g1) \<Rightarrow> ((out, False), g1)
      | (Some sec, g1) \<Rightarrow>
          (case list_sector sec 0 16 out of
             (out1, go) \<Rightarrow> if go then list_cluster ops cl (Suc s) k out1 g1 else ((out1, False), g1)))"

partial_function (option) list_chain ::
  "'d disk_ops \<Rightarrow> u32 \<Rightarrow> list_cb list \<Rightarrow> 'd fat32 \<Rightarrow> (list_cb list \<times> 'd fat32) option" where
  "list_chain ops cl out g =
     (if cl < FAT32_EOC \<and> cl \<ge> 2 then
        (case list_cluster ops cl 0 (unat (sectors_per_cluster g)) out g of
           ((out1, go), g1) \<Rightarrow>
             if go then (case fat_next ops cl g1 of (cl', g2) \<Rightarrow> list_chain ops cl' out1 g2)
             else Some (out1, g1))
      else Some (out, g))"

definition fat32_list :: "'d disk_ops \<Rightarrow> cstring \<Rightarrow> 'd fat32 \<Rightarrow> ((int \<times> list_cb list) \<times> 'd fat32) option" where
  "fat32_list ops path g =
     Option.bind (resolve ops path g) (\<lambda>(r, g1).
       case r of
         None \<Rightarrow> Some ((-1, []), g1)
       | Some (cl, sz, is_dir) \<Rightarrow>
           if \<not> is_dir then Some ((-1, []), g1)
           else Option.bind (list_chain ops (if cl < 2 then root_cluster g1 else cl) [] g1) (\<lambda>(out, g2).
             Some ((int (length out), out), g2)))"

definition fat32_stat :: "'d disk_ops \<Rightarrow> cstring \<Rightarrow> 'd fat32 \<Rightarrow> ((u32 \<times> bool) option \<times> 'd fat32) option" where
  "fat32_stat ops path g =
     Option.bind (resolve ops path g) (\<lambda>(r, g1).
       case r of None \<Rightarrow> Some (None, g1) | Some (cl, sz, is_dir) \<Rightarrow> Some (Some (sz, is_dir), g1))"

fun read_cluster :: "'d disk_ops \<Rightarrow> u32 \<Rightarrow> nat \<Rightarrow> nat \<Rightarrow> nat \<Rightarrow> nat \<Rightarrow> bytes \<Rightarrow> 'd fat32 \<Rightarrow> (nat option \<times> bytes) \<times> 'd fat32" where
  "read_cluster ops cl s 0 want pos buf g = ((Some pos, buf), g)"
| "read_cluster ops cl s (Suc k) want pos buf g =
     (if pos < want then
        (case read_rel ops (cluster_first_sector g cl + of_nat s) g of
           (None, g1) \<Rightarrow> ((None, buf), g1)
         | (Some sec, g1) \<Rightarrow>
             let n = (if want - pos < 512 then want - pos else 512)
             in read_cluster ops cl (Suc s) k want (pos + n) (blit buf pos (take n sec)) g1)
      else ((Some pos, buf), g))"

partial_function (option) read_chain ::
  "'d disk_ops \<Rightarrow> u32 \<Rightarrow> nat \<Rightarrow> nat \<Rightarrow> bytes \<Rightarrow> 'd fat32 \<Rightarrow> ((nat option \<times> bytes) \<times> 'd fat32) option" where
  "read_chain ops cl want pos buf g =
     (if pos < want \<and> cl \<ge> 2 \<and> cl < FAT32_EOC then
        (case read_cluster ops cl 0 (unat (sectors_per_cluster g)) want pos buf g of
           ((None, buf1), g1) \<Rightarrow> Some ((None, buf1), g1)
         | ((Some pos1, buf1), g1) \<Rightarrow>
             (case fat_next ops cl g1 of (cl', g2) \<Rightarrow> read_chain ops cl' want pos1 buf1 g2))
      else Some ((Some pos, buf), g))"

definition fat32_read :: "'d disk_ops \<Rightarrow> cstring \<Rightarrow> bytes \<Rightarrow> u32 \<Rightarrow> 'd fat32 \<Rightarrow> ((int \<times> bytes) \<times> 'd fat32) option" where
  "fat32_read ops path buf max_len g =
     Option.bind (resolve ops path g) (\<lambda>(r, g1).
       case r of
         None \<Rightarrow> Some ((-1, buf), g1)
       | Some (cl, sz, is_dir) \<Rightarrow>
           if is_dir then Some ((-1, buf), g1)
           else let want = unat (if sz < max_len then sz else max_len) in
             Option.bind (read_chain ops cl want 0 buf g1) (\<lambda>((res, buf1), g2).
               Some ((case res of None \<Rightarrow> -1 | Some pos \<Rightarrow> sint (of_nat pos :: u32), buf1), g2)))"

declare dir_find.simps [code] resolve_loop.simps [code] list_chain.simps [code] read_chain.simps [code]

section \<open>8.3 names\<close>

lemma upper83_dot [simp]: "upper83 (CHR ''.'') = CHR ''.''" by (simp add: upper83_def)

lemma upper83_space: "upper83 c = CHR '' '' \<longleftrightarrow> c = CHR '' ''"
proof -
  have "char_of (of_char c - 32 :: nat) \<noteq> CHR '' ''" if "97 \<le> (of_char c :: nat)" "(of_char c :: nat) \<le> 122"
  proof
    assume "char_of (of_char c - 32 :: nat) = CHR '' ''"
    then have "(of_char (char_of (of_char c - 32 :: nat) :: char) :: nat) = of_char (CHR '' '')" by simp
    moreover have "(of_char c - 32 :: nat) < 256" using that by linarith
    ultimately show False using that by (simp add: of_char_of)
  qed
  then show ?thesis by (auto simp: upper83_def)
qed

lemma name83_base_result:
  assumes "o1 + length base \<le> 8" "CHR ''.'' \<notin> set base" "length buf = 11" "rest = [] \<or> hd rest = CHR ''.''"
  shows "name83_base (base @ rest) o1 buf = Some (take o1 buf @ map upper83 base @ drop (o1 + length base) buf, rest)"
  using assms
proof (induction base arbitrary: o1 buf)
  case Nil
  then show ?case by (cases rest) auto
next
  case (Cons c base)
  have "name83_base (base @ rest) (Suc o1) (buf[o1 := upper83 c])
      = Some (take (Suc o1) (buf[o1 := upper83 c]) @ map upper83 base @ drop (Suc o1 + length base) (buf[o1 := upper83 c]), rest)"
    using Cons.prems by (intro Cons.IH) auto
  moreover have "take (Suc o1) (buf[o1 := upper83 c]) = take o1 buf @ [upper83 c]" using Cons.prems by (simp add: take_Suc_conv_app_nth)
  ultimately show ?case using Cons.prems by auto
qed

lemma name83_ext_result:
  assumes "e + length ext \<le> 3" "length buf = 11"
  shows "name83_ext ext e buf = Some (take (8 + e) buf @ map upper83 ext @ drop (8 + e + length ext) buf)"
  using assms
proof (induction ext arbitrary: e buf)
  case (Cons c ext)
  have "name83_ext ext (Suc e) (buf[8 + e := upper83 c])
      = Some (take (8 + Suc e) (buf[8 + e := upper83 c]) @ map upper83 ext @ drop (8 + Suc e + length ext) (buf[8 + e := upper83 c]))"
    using Cons.prems by (intro Cons.IH) auto
  moreover have "take (8 + Suc e) (buf[8 + e := upper83 c]) = take (8 + e) buf @ [upper83 c]"
    using Cons.prems take_Suc_conv_app_nth [of "8 + e" "buf[8 + e := upper83 c]"] by simp
  ultimately show ?case using Cons.prems by (simp add: add.assoc)
qed simp

lemma takeWhile_padded:
  assumes "\<forall>x\<in>set xs. P x" "\<not> P p"
  shows "takeWhile P (xs @ replicate k p) = xs"
  using assms by (induction xs) (auto simp: takeWhile_replicate)

lemma byte_of_eq [simp]: "byte_of a = byte_of b \<longleftrightarrow> a = b"
  by (metis char_of_byte_of)

lemma name_83_roundtrip:
  assumes b: "length base \<le> 8" "CHR ''.'' \<notin> set base" "CHR '' '' \<notin> set base"
    and e: "0 < length ext" "length ext \<le> 3" "CHR '' '' \<notin> set ext" 
  shows "\<exists>raw. name_to_83 (base @ CHR ''.'' # ext) = Some raw \<and> length raw = 11
    \<and> name_from_83 (map byte_of raw @ rest) = map upper83 (base @ CHR ''.'' # ext)"
proof -
  let ?b = "map upper83 base @ replicate (8 - length base) (CHR '' '')" and ?e = "map upper83 ext @ replicate (3 - length ext) (CHR '' '')"
  have "name83_base (base @ CHR ''.'' # ext) 0 (replicate 11 (CHR '' '')) = Some (map upper83 base @ replicate (11 - length base) (CHR '' ''), CHR ''.'' # ext)"
    using name83_base_result [of 0 base "replicate 11 (CHR '' '')" "CHR ''.'' # ext"] b by simp
  moreover have "name83_ext ext 0 (map upper83 base @ replicate (11 - length base) (CHR '' '')) = Some (?b @ ?e)"
    using name83_ext_result [of 0 ext "map upper83 base @ replicate (11 - length base) (CHR '' '')"] b e
    by (simp add: min_def)
  ultimately have "name_to_83 (base @ CHR ''.'' # ext) = Some (?b @ ?e)" by (simp add: name_to_83_def)
  moreover have "name_from_83 (map byte_of (?b @ ?e) @ rest) = map upper83 (base @ CHR ''.'' # ext)"
  proof -
    have t: "take 8 (map byte_of (?b @ ?e) @ rest) = map byte_of (map upper83 base) @ replicate (8 - length base) (byte_of (CHR '' ''))"
      "take 3 (drop 8 (map byte_of (?b @ ?e) @ rest)) = map byte_of (map upper83 ext) @ replicate (3 - length ext) (byte_of (CHR '' ''))"
      using b e by simp_all
    have w: "takeWhile (\<lambda>x. x \<noteq> byte_of (CHR '' '')) (map byte_of (map upper83 xs) @ replicate k (byte_of (CHR '' ''))) = map byte_of (map upper83 xs)"
      if "CHR '' '' \<notin> set xs" for xs k
    proof (rule takeWhile_padded)
      show "\<forall>x\<in>set (map byte_of (map upper83 xs)). x \<noteq> byte_of (CHR '' '')" using that by (auto simp: upper83_space)
    qed simp
    have "(map byte_of (?b @ ?e) @ rest) ! 8 = byte_of (upper83 (hd ext))" using b e by (cases ext) (auto simp: nth_append)
    moreover have "upper83 (hd ext) \<noteq> CHR '' ''" using e by (cases ext) (auto simp: upper83_space)
    ultimately show ?thesis unfolding name_from_83_def t w [OF b(3)] w [OF e(3)] by (simp add: comp_def)
  qed
  moreover have "length (?b @ ?e) = 11" using b e by simp
  ultimately show ?thesis by blast
qed

section \<open>The volume as a function of the medium\<close>

text \<open>The FAT entry of a cluster, the chains that end, and the bytes of a chain's clusters.\<close>

definition fat_entry :: "medium \<Rightarrow> 'd fat32 \<Rightarrow> u32 \<Rightarrow> u32" where
  "fat_entry v g cl = rd32 (v (fat_base_lba g + (fat_start g + cl * 4 div 512))) (unat (cl * 4 mod 512)) AND 0x0FFFFFFF"

fun fat_chain :: "medium \<Rightarrow> 'd fat32 \<Rightarrow> u32 \<Rightarrow> u32 list \<Rightarrow> bool" where
  "fat_chain v g cl [] \<longleftrightarrow> \<not> (cl \<ge> 2 \<and> cl < FAT32_EOC)"
| "fat_chain v g cl (c # cs) \<longleftrightarrow> c = cl \<and> cl \<ge> 2 \<and> cl < FAT32_EOC \<and> fat_chain v g (fat_entry v g cl) cs"

definition cluster_data :: "medium \<Rightarrow> 'd fat32 \<Rightarrow> u32 \<Rightarrow> bytes" where
  "cluster_data v g cl = sectors v
     (of_nat (unat (fat_base_lba g) + unat (data_start g) + (unat cl - 2) * unat (sectors_per_cluster g))) (unat (sectors_per_cluster g))"

lemma cluster_data_address:
  assumes "2 \<le> cl"
  shows "cluster_data v g cl = sectors v (fat_base_lba g + cluster_first_sector g cl) (unat (sectors_per_cluster g))"
proof -
  have "(of_nat (unat cl - 2) :: u32) = cl - 2" using assms by (simp add: of_nat_diff word_le_nat_alt)
  then show ?thesis by (simp add: cluster_data_def cluster_first_sector_def add.assoc)
qed

definition chain_data :: "medium \<Rightarrow> 'd fat32 \<Rightarrow> u32 list \<Rightarrow> bytes" where
  "chain_data v g cls = concat (map (cluster_data v g) cls)"

lemma geometry_simps [simp]:
  "fat_entry v (g\<lparr>fat_disk := d\<rparr>) = fat_entry v g" "fat_chain v (g\<lparr>fat_disk := d\<rparr>) = fat_chain v g"
  "cluster_data v (g\<lparr>fat_disk := d\<rparr>) = cluster_data v g" "chain_data v (g\<lparr>fat_disk := d\<rparr>) = chain_data v g"
  "cluster_first_sector (g\<lparr>fat_disk := d\<rparr>) = cluster_first_sector g"
proof -
  show e: "fat_entry v (g\<lparr>fat_disk := d\<rparr>) = fat_entry v g" by (simp add: fun_eq_iff fat_entry_def)
  show "fat_chain v (g\<lparr>fat_disk := d\<rparr>) = fat_chain v g"
  proof (intro ext)
    fix cl cls show "fat_chain v (g\<lparr>fat_disk := d\<rparr>) cl cls = fat_chain v g cl cls"
      by (induction cls arbitrary: cl) (simp_all add: e)
  qed
  show f: "cluster_first_sector (g\<lparr>fat_disk := d\<rparr>) = cluster_first_sector g" by (simp add: fun_eq_iff cluster_first_sector_def)
  show c: "cluster_data v (g\<lparr>fat_disk := d\<rparr>) = cluster_data v g" by (simp add: fun_eq_iff cluster_data_def f)
  show "chain_data v (g\<lparr>fat_disk := d\<rparr>) = chain_data v g" by (simp add: fun_eq_iff chain_data_def c)
qed

section \<open>Reading on a block device\<close>

text \<open>What the driver's loops leave behind: only the driver state below has changed, and not what it shows.\<close>

definition same_volume :: "('d \<Rightarrow> bool) \<Rightarrow> ('d \<Rightarrow> medium) \<Rightarrow> 'd fat32 \<Rightarrow> 'd fat32 \<Rightarrow> bool" where
  "same_volume dinv view g g' \<longleftrightarrow> (\<exists>d'. g' = g\<lparr>fat_disk := d'\<rparr> \<and> dinv d' \<and> view d' = view (fat_disk g))"

lemma same_volume_refl: "dinv (fat_disk g) \<Longrightarrow> same_volume dinv view g g"
  unfolding same_volume_def by (intro exI [of _ "fat_disk g"]) simp

lemma same_volume_trans [trans]:
  "same_volume dinv view g g1 \<Longrightarrow> same_volume dinv view g1 g2 \<Longrightarrow> same_volume dinv view g g2"
  by (auto simp: same_volume_def)

lemma same_volumeD:
  assumes "same_volume dinv view g g'"
  shows "dinv (fat_disk g')" "view (fat_disk g') = view (fat_disk g)" "sectors_per_cluster g' = sectors_per_cluster g"
    "fat_base_lba g' = fat_base_lba g" "cluster_first_sector g' = cluster_first_sector g" "fat_entry v g' = fat_entry v g"
    "fat_chain v g' = fat_chain v g" "chain_data v g' = chain_data v g" "cluster_data v g' = cluster_data v g"
    "root_cluster g' = root_cluster g" "fat_mounted g' = fat_mounted g"
  using assms by (auto simp: same_volume_def)

lemma blit_blit: "pos + length a \<le> length buf \<Longrightarrow> blit (blit buf pos a) (pos + length a) b = blit buf pos (a @ b)"
  by (simp add: blit_def ac_simps)

text \<open>Device reads of one sector always succeed: the case in which the driver owes the whole file.\<close>

definition reads_succeed :: "('d \<Rightarrow> bool) \<Rightarrow> 'd disk_ops \<Rightarrow> bool" where
  "reads_succeed dinv ops \<longleftrightarrow> (\<forall>d x b. dinv d \<longrightarrow> 0 \<le> fst (fst (disk_read ops x 1 b d)))"

lemma read_rel_succeeds:
  "reads_succeed dinv ops \<Longrightarrow> dinv (fat_disk g) \<Longrightarrow> fst (read_rel ops r g) \<noteq> None"
proof -
  assume a: "reads_succeed dinv ops" "dinv (fat_disk g)"
  obtain rc buf d where r: "disk_read ops (fat_base_lba g + r) 1 (replicate 512 0) (fat_disk g) = ((rc, buf), d)"
    by (metis surj_pair)
  then have "0 \<le> rc" using a unfolding reads_succeed_def by (metis fst_conv)
  with r show ?thesis by (simp add: read_rel_def)
qed

context block_device
begin

lemma read_rel_view:
  assumes "dinv (fat_disk g)" "read_rel ops r g = (res, g')"
  shows "same_volume dinv view g g'" "res = None \<or> res = Some (view (fat_disk g) (fat_base_lba g + r))"
proof -
  obtain rc buf d where d: "disk_read ops (fat_base_lba g + r) 1 (replicate 512 0) (fat_disk g) = ((rc, buf), d)"
    by (metis surj_pair)
  note o = read_one [OF assms(1) _ d]
  show "same_volume dinv view g g'" using assms(2) d o by (auto simp: read_rel_def same_volume_def)
  show "res = None \<or> res = Some (view (fat_disk g) (fat_base_lba g + r))" using assms(2) d o by (auto simp: read_rel_def split: if_splits)
qed

lemma fat_next_view:
  assumes "dinv (fat_disk g)" "fat_next ops cl g = (cl', g')"
  shows "same_volume dinv view g g'" "cl' = FAT32_EOC \<or> cl' = fat_entry (view (fat_disk g)) g cl"
proof -
  obtain res g1 where r: "read_rel ops (fat_start g + cl * 4 div 512) g = (res, g1)" by (metis surj_pair)
  note v = read_rel_view [OF assms(1) r]
  show "same_volume dinv view g g'" using assms(2) r v(1) by (auto simp: fat_next_def Let_def split: option.splits)
  show "cl' = FAT32_EOC \<or> cl' = fat_entry (view (fat_disk g)) g cl"
    using assms(2) r v(2) by (auto simp: fat_next_def Let_def fat_entry_def split: option.splits)
qed

lemma find_in_cluster_view:
  assumes "dinv (fat_disk g)" "find_in_cluster ops t cl s k g = (res, g')"
  shows "same_volume dinv view g g'"
  using assms
proof (induction k arbitrary: s g)
  case (Suc k)
  obtain r g1 where r: "read_rel ops (cluster_first_sector g cl + of_nat s) g = (r, g1)" by (metis surj_pair)
  note v = read_rel_view(1) [OF Suc.prems(1) r]
  show ?case
  proof (cases "\<exists>sec. r = Some sec \<and> find_in_sector t sec 0 16 = Scan_next")
    case True
    then have "find_in_cluster ops t cl (Suc s) k g1 = (res, g')" using Suc.prems(2) r by auto
    with Suc.IH [OF same_volumeD(1) [OF v]] v same_volume_trans show ?thesis by blast
  next
    case False
    then have "g' = g1" using Suc.prems(2) r by (auto split: option.splits scan.splits)
    with v show ?thesis by simp
  qed
qed (simp add: same_volume_refl)

lemma dir_find_view:
  assumes "dir_find ops t cl g = Some (res, g')" "dinv (fat_disk g)"
  shows "same_volume dinv view g g'"
proof -
  have "o1 = ops \<longrightarrow> dinv (fat_disk g) \<longrightarrow> same_volume dinv view g (snd y)" if "dir_find o1 t cl g = Some y" for o1 t cl g y
  proof (rule dir_find.raw_induct [OF _ that], goal_cases)
    case (1 find o1 t cl g y)
    show ?case
    proof (intro impI)
      assume o: "o1 = ops" and d: "dinv (fat_disk g)"
      obtain r g1 where r: "find_in_cluster ops t cl 0 (unat (sectors_per_cluster g)) g = (r, g1)" by (metis surj_pair)
      note v1 = find_in_cluster_view [OF d r]
      obtain cl' g2 where n: "fat_next ops cl g1 = (cl', g2)" by (metis surj_pair)
      note v2 = fat_next_view(1) [OF same_volumeD(1) [OF v1] n]
      from v1 v2 have v: "same_volume dinv view g g2" by (rule same_volume_trans)
      have "same_volume dinv view g2 (snd y)" if "find ops t cl' g2 = Some y"
        using 1(1) [OF that] same_volumeD(1) [OF v2] by blast
      with 1(2) o r n v1 v same_volume_trans [OF v] same_volume_refl [of dinv, OF d]
      show "same_volume dinv view g (snd y)" by (auto split: if_splits scan.splits)
    qed
  qed
  from this [OF assms(1)] assms(2) show ?thesis by simp
qed

lemma resolve_loop_view:
  assumes "resolve_loop ops path cur g = Some (res, g')" "dinv (fat_disk g)"
  shows "same_volume dinv view g g'"
proof -
  have "o1 = ops \<longrightarrow> dinv (fat_disk g) \<longrightarrow> same_volume dinv view g (snd y)" if "resolve_loop o1 path cur g = Some y" for o1 path cur g y
  proof (rule resolve_loop.raw_induct [OF _ that], goal_cases)
    case (1 loop o1 path cur g y)
    show ?case
    proof (intro impI)
      assume o: "o1 = ops" and d: "dinv (fat_disk g)"
      have rec: "same_volume dinv view g1 (snd y)" if "loop ops p c g1 = Some y" "dinv (fat_disk g1)" for p c g1
        using 1(1) [OF that(1)] that(2) by simp
      have hit: "same_volume dinv view g (snd y)" if "dir_find ops t83 c g = Some (h, g1)"
          "(case h of None \<Rightarrow> Some (None, g1) | Some cur' \<Rightarrow> loop ops p cur' g1) = Some y" for t83 c h g1 p
      proof -
        note v = dir_find_view [OF that(1) d]
        show ?thesis using that(2) v rec same_volumeD(1) [OF v] same_volume_trans [OF v] by (auto split: option.splits)
      qed
      note s = same_volume_refl [of dinv, OF d]
      show "same_volume dinv view g (snd y)"
        using 1(2) o s rec [OF _ d] hit
        by (cases cur) (auto split: if_splits option.splits simp: bind_eq_Some_conv)
    qed
  qed
  from this [OF assms(1)] assms(2) show ?thesis by simp
qed

lemma resolve_view:
  "resolve ops path g = Some (res, g') \<Longrightarrow> dinv (fat_disk g) \<Longrightarrow> same_volume dinv view g g'"
  by (auto simp: resolve_def same_volume_refl intro: resolve_loop_view split: if_splits list.splits)


text \<open>One cluster of a file: what is stored and how far the position moves.\<close>

lemma read_cluster_result:
  assumes "dinv (fat_disk g)" "want \<le> length buf" "pos \<le> want" "read_cluster ops cl s k want pos buf g = ((res, buf'), g')"
    and S: "S = sectors (view (fat_disk g)) (fat_base_lba g + cluster_first_sector g cl + of_nat s) k"
  shows "same_volume dinv view g g' \<and> (\<forall>pos'. res = Some pos' \<longrightarrow> pos' = min want (pos + length S) \<and> buf' = blit buf pos (take (pos' - pos) S))"
  using assms
proof (induction k arbitrary: s g pos buf S)
  case 0
  then show ?case by (auto simp: same_volume_refl blit_def)
next
  case (Suc k)
  let ?v = "view (fat_disk g)" and ?a = "fat_base_lba g + cluster_first_sector g cl + of_nat s"
  have len: "length (?v x) = 512" for x using view_length [OF Suc.prems(1)] .
  have S: "S = ?v ?a @ sectors ?v (?a + 1) k"
    using Suc.prems(5) sectors_append [of ?v ?a 1 k] by simp
  show ?case
  proof (cases "pos < want")
    case True
    obtain r g1 where r: "read_rel ops (cluster_first_sector g cl + of_nat s) g = (r, g1)" by (metis surj_pair)
    note v = read_rel_view [OF Suc.prems(1) r]
    show ?thesis
    proof (cases r)
      case None
      then show ?thesis using Suc.prems(4) True r v(1) by simp
    next
      case (Some sec)
      then have sec: "sec = ?v ?a" using v(2) by (simp add: add.assoc)
      define n where "n = min 512 (want - pos)"
      have n: "(if want - pos < 512 then want - pos else 512) = n" "n \<le> 512" "pos + n \<le> want" using True by (auto simp: n_def)
      let ?b1 = "blit buf pos (take n sec)"
      have tn: "length (take n sec) = n" using n len by (simp add: sec)
      have rec: "read_cluster ops cl (Suc s) k want (pos + n) ?b1 g1 = ((res, buf'), g')"
        using Suc.prems(4) True r Some n(1) by (simp add: Let_def)
      define T where "T = sectors ?v (?a + 1) k"
      have "same_volume dinv view g1 g' \<and> (\<forall>pos'. res = Some pos' \<longrightarrow> pos' = min want (pos + n + length T) \<and> buf' = blit ?b1 (pos + n) (take (pos' - (pos + n)) T))"
        using Suc.IH [OF same_volumeD(1) [OF v(1)] _ n(3) rec, of T] Suc.prems(2) n(3) tn same_volumeD [OF v(1)]
        by (simp add: T_def add.assoc add.commute)
      moreover have "min want (pos + n + length T) = min want (pos + length S)"
      proof -
        have "length S = 512 + length T" by (simp add: S T_def len)
        moreover have "n = 512 \<or> pos + n = want" using True by (auto simp: n_def)
        ultimately show ?thesis using n(2) by auto
      qed
      moreover have "blit ?b1 (pos + n) (take (pos' - (pos + n)) T) = blit buf pos (take (pos' - pos) S)"
        if "pos' = min want (pos + length S)" for pos'
      proof -
        have p: "pos + n \<le> pos'" "pos' \<le> length buf" "pos' - pos \<le> length S" using that n Suc.prems(2) len by (auto simp: S n_def)
        have "take (pos' - pos) S = take n sec @ take (pos' - (pos + n)) T"
        proof (cases "n = 512")
          case True
          then show ?thesis using p len by (simp add: S sec T_def)
        next
          case False
          then have "pos' = pos + n" using that n p by (auto simp: n_def)
          then show ?thesis using n len by (simp add: S sec)
        qed
        then show ?thesis using blit_blit [of pos "take n sec" buf] tn n(3) Suc.prems(2) by simp
      qed
      ultimately show ?thesis using same_volume_trans [OF v(1)] by metis
    qed
  next
    case False
    then show ?thesis using Suc.prems by (auto simp: same_volume_refl blit_def)
  qed
qed


lemma fat_next_succeeds:
  assumes "reads_succeed dinv ops" "dinv (fat_disk g)" "fat_next ops cl g = (cl', g')"
  shows "cl' = fat_entry (view (fat_disk g)) g cl"
proof -
  obtain res g1 where r: "read_rel ops (fat_start g + cl * 4 div 512) g = (res, g1)" by (metis surj_pair)
  have "res \<noteq> None" using read_rel_succeeds [OF assms(1,2)] r by (metis fst_conv)
  then show ?thesis using assms(3) r read_rel_view(2) [OF assms(2) r]
    by (auto simp: fat_next_def Let_def fat_entry_def split: option.splits)
qed

lemma read_cluster_succeeds:
  assumes "reads_succeed dinv ops" "dinv (fat_disk g)"
  shows "fst (fst (read_cluster ops cl s k want pos buf g)) \<noteq> None"
  using assms(2)
proof (induction k arbitrary: s pos buf g)
  case (Suc k)
  obtain r g1 where r: "read_rel ops (cluster_first_sector g cl + of_nat s) g = (r, g1)" by (metis surj_pair)
  have "r \<noteq> None" using read_rel_succeeds [OF assms(1) Suc.prems] r by (metis fst_conv)
  moreover have "dinv (fat_disk g1)" using same_volumeD(1) [OF read_rel_view(1) [OF Suc.prems r]] .
  ultimately show ?case using Suc.IH r by (auto simp: Let_def)
qed simp

text \<open>
  A chain that ends: the loop returns. Without errors it has copied what the caller wants and the
  chain holds; an error in the FAT itself only cuts the data short.
\<close>

definition chain_read :: "nat \<Rightarrow> nat \<Rightarrow> bytes \<Rightarrow> bytes \<Rightarrow> nat option \<Rightarrow> bytes \<Rightarrow> bool" where
  "chain_read want pos buf S res buf' \<longleftrightarrow>
     (\<forall>pos'. res = Some pos' \<longrightarrow> pos \<le> pos' \<and> pos' \<le> min want (pos + length S) \<and> buf' = blit buf pos (take (pos' - pos) S))
     \<and> (reads_succeed dinv ops \<longrightarrow> res = Some (min want (pos + length S)))"

lemma chain_read_append:
  assumes p1: "pos1 = min want (pos + length C)" and b1: "buf1 = blit buf pos (take (pos1 - pos) C)"
    and le: "pos \<le> want" "want \<le> length buf" and c: "chain_read want pos1 buf1 T res buf'"
  shows "chain_read want pos buf (C @ T) res buf'"
proof -
  have m: "min want (pos1 + length T) = min want (pos + length (C @ T))" by (simp add: p1 min_def)
  have key: "buf' = blit buf pos (take (pos' - pos) (C @ T))" if "pos1 \<le> pos'" "pos' \<le> want" "buf' = blit buf1 pos1 (take (pos' - pos1) T)" for pos'
  proof (cases "pos1 = pos + length C")
    case True
    have "blit (blit buf pos C) (pos + length C) (take (pos' - pos1) T) = blit buf pos (C @ take (pos' - pos1) T)"
      using True p1 le by (intro blit_blit) simp
    with that b1 True show ?thesis by (simp add: take_append)
  next
    case False
    then have w: "pos1 = want" "want < pos + length C" using p1 by (auto simp: min_def split: if_splits)
    have "length buf1 = length buf" using b1 w le by simp
    then have "blit buf1 want [] = buf1" using le by (simp add: blit_def)
    with that w b1 le show ?thesis by simp
  qed
  show ?thesis unfolding chain_read_def
  proof (intro conjI allI impI)
    fix pos' assume "res = Some pos'"
    then have p: "pos1 \<le> pos'" "pos' \<le> min want (pos1 + length T)" "buf' = blit buf1 pos1 (take (pos' - pos1) T)"
      using c by (simp_all add: chain_read_def)
    then show "buf' = blit buf pos (take (pos' - pos) (C @ T))" by (intro key) simp_all
    show "pos' \<le> min want (pos + length (C @ T))" using p(2) unfolding m .
    show "pos \<le> pos'" using p(1) p1 le by simp
  next
    assume "reads_succeed dinv ops"
    then have "res = Some (min want (pos1 + length T))" using c unfolding chain_read_def by blast
    then show "res = Some (min want (pos + length (C @ T)))" unfolding m .
  qed
qed

lemma read_chain_result:
  assumes "dinv (fat_disk g)" "want \<le> length buf" "pos \<le> want" "fat_chain (view (fat_disk g)) g cl cls"
  shows "\<exists>res buf' g'. read_chain ops cl want pos buf g = Some ((res, buf'), g')
    \<and> chain_read want pos buf (chain_data (view (fat_disk g)) g cls) res buf'"
  using assms
proof (induction cls arbitrary: g cl pos buf)
  case Nil
  then have "read_chain ops cl want pos buf g = Some ((Some pos, buf), g)" by (auto simp: read_chain.simps [of ops cl])
  then show ?case using Nil by (auto simp: chain_data_def chain_read_def blit_def)
next
  case (Cons c cls)
  let ?v = "view (fat_disk g)" and ?C = "cluster_data (view (fat_disk g)) g cl" and ?T = "chain_data (view (fat_disk g)) g cls"
  have c: "c = cl" "cl \<ge> 2" "cl < FAT32_EOC" "fat_chain ?v g (fat_entry ?v g cl) cls" using Cons.prems(4) by simp_all
  have S: "chain_data ?v g (c # cls) = ?C @ ?T" by (simp add: chain_data_def c)
  show ?case
  proof (cases "pos < want")
    case False
    then have "read_chain ops cl want pos buf g = Some ((Some pos, buf), g)" by (simp add: read_chain.simps [of ops cl])
    then show ?thesis using False Cons.prems(3) by (auto simp: chain_read_def blit_def)
  next
    case True
    obtain res1 buf1 g1 where r: "read_cluster ops cl 0 (unat (sectors_per_cluster g)) want pos buf g = ((res1, buf1), g1)" by (metis surj_pair)
    have rc: "same_volume dinv view g g1" "\<And>p. res1 = Some p \<Longrightarrow> p = min want (pos + length ?C) \<and> buf1 = blit buf pos (take (p - pos) ?C)"
      using read_cluster_result [OF Cons.prems(1-3) r refl] by (simp_all add: cluster_data_address [OF c(2)])
    obtain cl' g2 where n: "fat_next ops cl g1 = (cl', g2)" by (metis surj_pair)
    note d1 = same_volumeD [OF rc(1)]
    note n2 = fat_next_view [OF d1(1) n]
    note d2 = same_volumeD [OF n2(1)]
    show ?thesis
    proof (cases res1)
      case None
      then have "\<not> reads_succeed dinv ops" using read_cluster_succeeds [OF _ Cons.prems(1)] r by (metis fst_conv)
      then show ?thesis using None r True c by (auto simp: read_chain.simps [of ops cl] chain_read_def)
    next
      case (Some pos1)
      note p1 = rc(2) [OF Some]
      have eq: "read_chain ops cl want pos buf g = read_chain ops cl' want pos1 buf1 g2"
        using Some r n True c by (simp add: read_chain.simps [of ops cl])
      have p1': "pos1 \<le> want" "want \<le> length buf1" using p1 True Cons.prems(2) by auto
      show ?thesis
      proof (cases "cl' = fat_entry ?v g cl")
        case entry: True
        have "\<exists>res buf' g'. read_chain ops cl' want pos1 buf1 g2 = Some ((res, buf'), g') \<and> chain_read want pos1 buf1 ?T res buf'"
          using Cons.IH [OF d2(1) p1'(2,1), of cl'] c(4) entry d1 d2 by simp
        with eq S chain_read_append [OF _ _ Cons.prems(3,2)] p1 show ?thesis by metis
      next
        case False
        then have e: "cl' = FAT32_EOC" "\<not> reads_succeed dinv ops"
          using n2(2) fat_next_succeeds [OF _ d1(1) n] d1 by auto
        then have "read_chain ops cl' want pos1 buf1 g2 = Some ((Some pos1, buf1), g2)" by (subst read_chain.simps) simp
        moreover have "chain_read want pos1 buf1 ?T (Some pos1) buf1" using e(2) p1'(1,2) by (auto simp: chain_read_def blit_def)
        ultimately show ?thesis using eq S chain_read_append [OF _ _ Cons.prems(3,2)] p1 by metis
      qed
    qed
  qed
qed

end

lemma dir_find_hangs:
  assumes "find_in_cluster ops t cl 0 (unat (sectors_per_cluster g)) g = (Scan_next, g)" "fat_next ops cl g = (cl, g)"
    "cl \<ge> 2" "cl < FAT32_EOC"
  shows "dir_find ops t cl g = None"
proof (rule ccontr)
  assume "dir_find ops t cl g \<noteq> None"
  then obtain y where y: "dir_find ops t cl g = Some y" by blast
  have "\<not> (o1 = ops \<and> t1 = t \<and> cl1 = cl \<and> g1 = g)" if "dir_find o1 t1 cl1 g1 = Some y" for o1 t1 cl1 g1 y
  proof (rule dir_find.raw_induct [OF _ that], goal_cases)
    case (1 find o1 t1 cl1 g1 y)
    show ?case
    proof
      assume "o1 = ops \<and> t1 = t \<and> cl1 = cl \<and> g1 = g"
      with 1(2) assms have "find ops t cl g = Some y" by simp
      from 1(1) [OF this] show False by simp
    qed
  qed
  from this [OF y] show False by simp
qed

section \<open>Properties\<close>

text \<open>The loop of a read: every cluster moves the position, so the walk ends on any chain.\<close>

lemma read_rel_geometry: "read_rel ops r g = (x, g') \<Longrightarrow> sectors_per_cluster g' = sectors_per_cluster g"
  by (auto simp: read_rel_def split: prod.splits)

lemma read_cluster_progress:
  "read_cluster ops cl s k want pos buf g = ((res, buf'), g') \<Longrightarrow> pos < want \<Longrightarrow>
   sectors_per_cluster g' = sectors_per_cluster g \<and> (\<forall>p. res = Some p \<longrightarrow> p \<le> want \<and> pos \<le> p \<and> (0 < k \<longrightarrow> pos < p))"
proof (induction k arbitrary: s pos buf g)
  case (Suc k)
  obtain x g1 where x: "read_rel ops (cluster_first_sector g cl + of_nat s) g = (x, g1)" by (metis surj_pair)
  note g1 = read_rel_geometry [OF x]
  show ?case
  proof (cases x)
    case None
    then show ?thesis using Suc.prems x g1 by auto
  next
    case (Some sec)
    let ?n = "if want - pos < 512 then want - pos else 512"
    have rest: "read_cluster ops cl (Suc s) k want (pos + ?n) (blit buf pos (take ?n sec)) g1 = ((res, buf'), g')"
      using Suc.prems x Some by (auto simp: Let_def)
    have n: "0 < ?n" "pos + ?n \<le> want" using Suc.prems(2) by auto
    show ?thesis
    proof (cases "pos + ?n < want")
      case True
      from Suc.IH [OF rest True] n(1) g1 show ?thesis by (auto split: if_splits)
    next
      case False
      then have "res = Some (pos + ?n)" "g' = g1" using rest by (cases k, auto)+
      then show ?thesis using n g1 by simp
    qed
  qed
qed auto

lemma read_chain_returns:
  "0 < sectors_per_cluster g \<Longrightarrow> pos \<le> want \<Longrightarrow>
   \<exists>res buf' g'. read_chain ops cl want pos buf g = Some ((res, buf'), g') \<and> (\<forall>p. res = Some p \<longrightarrow> p \<le> want)"
proof (induction "want - pos" arbitrary: cl pos buf g rule: less_induct)
  case less
  show ?case
  proof (cases "pos < want \<and> cl \<ge> 2 \<and> cl < FAT32_EOC")
    case False
    then show ?thesis using less.prems by (auto simp: read_chain.simps [of ops cl])
  next
    case True
    obtain res buf1 g1 where r: "read_cluster ops cl 0 (unat (sectors_per_cluster g)) want pos buf g = ((res, buf1), g1)" by (metis surj_pair)
    have spc: "0 < unat (sectors_per_cluster g)" using less.prems(1) by (simp add: word_less_nat_alt)
    note p = read_cluster_progress [OF r conjunct1 [OF True]]
    show ?thesis
    proof (cases res)
      case None
      then show ?thesis using r True by (simp add: read_chain.simps [of ops cl])
    next
      case (Some q)
      obtain cl' g2 where n: "fat_next ops cl g1 = (cl', g2)" by (metis surj_pair)
      then have "sectors_per_cluster g2 = sectors_per_cluster g1"
        by (auto simp: fat_next_def Let_def dest: read_rel_geometry split: option.splits prod.splits)
      then have g2: "0 < sectors_per_cluster g2" "q \<le> want" "want - q < want - pos" using p Some less.prems(1) spc True by auto
      from less.hyps [OF g2(3,1,2), of cl' buf1] show ?thesis using r n Some True by (simp add: read_chain.simps [of ops cl])
    qed
  qed
qed

text \<open>
  Property C37: reading a file whose FAT chain ends always returns, and what it stores in the caller's
  buffer is a prefix of the bytes of the file's clusters in chain order, at most the file's size and
  the caller's limit; when no sector read fails it is all of that. Bytes behind it are untouched.
\<close>

theorem fat32_read_file:
  assumes dev: "block_device ops dinv view" "dinv (fat_disk g)"
    and res: "resolve ops path g = Some (Some (cl, sz, False), g1)"
    and chain: "fat_chain (view (fat_disk g)) g cl cls"
    and len: "unat max_len \<le> length buf" "unat max_len < 2 ^ 31"
    and w: "want = min (unat sz) (unat max_len)" and S: "S = chain_data (view (fat_disk g)) g cls"
  shows "\<exists>n buf' g2. fat32_read ops path buf max_len g = Some ((n, buf'), g2)
    \<and> (n = -1 \<or> 0 \<le> n \<and> nat n \<le> min want (length S) \<and> buf' = take (nat n) S @ drop (nat n) buf)
    \<and> (reads_succeed dinv ops \<longrightarrow> n = int (min want (length S)))"
proof -
  note v = same_volumeD [OF block_device.resolve_view [OF dev(1) res dev(2)]]
  have want: "unat (if sz < max_len then sz else max_len) = want" by (simp add: w word_less_nat_alt)
  have wb: "want \<le> length buf" "want < 2 ^ 31" using len w by simp_all
  obtain r buf' g2 where r: "read_chain ops cl want 0 buf g1 = Some ((r, buf'), g2)"
      "block_device.chain_read ops dinv want 0 buf S r buf'"
    using block_device.read_chain_result [OF dev(1) v(1) wb(1) le0, of cl cls] chain v S by auto
  have code: "fat32_read ops path buf max_len g = Some ((case r of None \<Rightarrow> -1 | Some pos \<Rightarrow> sint (of_nat pos :: u32), buf'), g2)"
    using res r(1) want by (simp add: fat32_read_def Let_def)
  note c = r(2) [unfolded block_device.chain_read_def [OF dev(1)]]
  have s: "sint (of_nat p :: u32) = int p" if "p \<le> min want x" for p x using that wb by (intro sint_len) simp
  show ?thesis
  proof (cases r)
    case None
    then show ?thesis using code c by simp
  next
    case (Some p)
    then have p: "p \<le> min want (length S)" "buf' = take p S @ drop p buf" using c by (simp_all add: blit_def)
    then have "fat32_read ops path buf max_len g = Some ((int p, buf'), g2)" using code Some s [of p "length S"] by simp
    moreover have "reads_succeed dinv ops \<longrightarrow> p = min want (length S)" using c Some by simp
    ultimately show ?thesis using p by simp
  qed
qed

definition fat_demo :: "medium fat32" where
  "fat_demo = \<lparr>fat_mounted = True, fat_base_lba = 0, fat_start = 1, data_start = 2, root_cluster = 2, sectors_per_cluster = 1,
     total_clusters = 2, fat_disk = (\<lambda>x.
       if x = 1 then replicate 12 0 @ [0xFF, 0xFF, 0xFF, 0x0F] @ replicate 496 0
       else if x = 2 then [0x41] @ replicate 10 0x20 @ replicate 15 0 @ [3, 0, 2, 0, 0, 0] @ replicate 480 0
       else [7, 8] @ replicate 510 0)\<rparr>"

lemma fat_demo_resolve: "map_option fst (resolve ram_ops ''/a'' fat_demo) = Some (Some (3, 2, False))"
  by code_simp

lemma fat_demo_entry: "fat_entry (fat_disk fat_demo) fat_demo 3 = 0x0FFFFFFF"
  by code_simp

theorem fat32_read_file_witness:
  "\<exists>g2. fat32_read ram_ops ''/a'' [0, 0, 0] 3 fat_demo = Some ((2, [7, 8, 0]), g2)"
proof -
  obtain g1 where g1: "resolve ram_ops ''/a'' fat_demo = Some (Some (3, 2, False), g1)"
    using fat_demo_resolve by (cases "resolve ram_ops ''/a'' fat_demo") auto
  have inv: "ram_inv (fat_disk fat_demo)" by (auto simp: ram_inv_def fat_demo_def)
  have chain: "fat_chain (fat_disk fat_demo) fat_demo 3 [3]" using fat_demo_entry by simp
  have "cluster_first_sector fat_demo 3 = 3" by (simp add: cluster_first_sector_def fat_demo_def)
  then have data: "chain_data (fat_disk fat_demo) fat_demo [3] = [7, 8] @ replicate 510 0"
    by (simp add: chain_data_def cluster_data_def) (simp add: fat_demo_def)
  have ok: "reads_succeed ram_inv ram_ops" by (simp add: reads_succeed_def ram_ops_def)
  show ?thesis
    using fat32_read_file [OF ram.block_device_axioms inv g1 chain, of 3 "[0, 0, 0]", OF _ _ refl refl] ok
    by (auto simp: data)
qed

text \<open>
  Property C39: reading a file always ends. On a mounted volume, once the path is resolved, \<open>fat32_read\<close> returns for every content of
  the FAT, also when the chain of the file is circular or leaves the volume, because each cluster moves the position and the size of the file bounds it;
  the result is the error or a count that the caller's limit bounds. (Looking a name up in a directory with a circular chain need not end.)
\<close>

theorem fat32_read_returns:
  assumes dev: "block_device ops dinv view" "dinv (fat_disk g0)" and mounted: "fat32_mount ops lba g0 = (0, g)"
    and res: "resolve ops path g = Some (r, g1)" and len: "unat max_len < 2 ^ 31"
  shows "\<exists>n buf' g2. fat32_read ops path buf max_len g = Some ((n, buf'), g2) \<and> -1 \<le> n \<and> n \<le> int (unat max_len)"
proof -
  obtain x g' where x: "read_rel ops 0 (g0\<lparr>fat_mounted := False, fat_base_lba := lba\<rparr>) = (x, g')" by (metis surj_pair)
  have d: "dinv (fat_disk g')" using same_volumeD(1) [OF block_device.read_rel_view(1) [OF dev(1) _ x]] dev(2) by simp
  have spc: "ucast b = (0 :: u32) \<longleftrightarrow> b = 0" for b :: u8 by transfer (simp add: take_bit_take_bit)
  have g: "fat_disk g = fat_disk g'" "sectors_per_cluster g \<noteq> 0"
    using mounted x by (auto simp: spc fat32_mount_def Let_def split: option.splits if_splits)
  have "same_volume dinv view g g1" using block_device.resolve_view [OF dev(1) res] d g(1) by simp
  then have g1: "0 < sectors_per_cluster g1" using g(2) by (auto simp: same_volume_def word_gt_0)
  have loop: "\<exists>q buf' g2. read_chain ops cl want 0 buf g1 = Some ((q, buf'), g2) \<and> (\<forall>p. q = Some p \<longrightarrow> p \<le> want)" for cl want
    by (rule read_chain_returns [OF g1]) simp
  have low: "-1 \<le> int (unat max_len)" by linarith
  show ?thesis
  proof (cases r)
    case None
    then show ?thesis using res low by (simp add: fat32_read_def)
  next
    case (Some f)
    obtain cl sz is_dir where f: "f = (cl, sz, is_dir)" by (cases f)
    let ?want = "unat (if sz < max_len then sz else max_len)"
    obtain q buf' g2 where q: "read_chain ops cl ?want 0 buf g1 = Some ((q, buf'), g2)" "\<And>p. q = Some p \<Longrightarrow> p \<le> ?want" using loop by blast
    have want: "?want \<le> unat max_len" by (simp add: word_less_nat_alt)
    let ?n = "case q of None \<Rightarrow> -1 | Some pos \<Rightarrow> sint (of_nat pos :: u32)"
    have "fat32_read ops path buf max_len g = Some (if is_dir then ((-1, buf), g1) else ((?n, buf'), g2))"
      using res Some f q(1) by (simp add: fat32_read_def)
    moreover have "-1 \<le> ?n \<and> ?n \<le> int (unat max_len)"
    proof (cases q)
      case (Some p)
      then have p: "p \<le> unat max_len" using q(2) want by fastforce
      then have "int p \<le> int (unat max_len)" by (rule iffD2 [OF of_nat_le_iff])
      moreover have "sint (of_nat p :: u32) = int p" using p len by (intro sint_len) simp
      ultimately show ?thesis using Some by simp
    qed (use low in simp)
    ultimately show ?thesis using low by (cases is_dir) auto
  qed
qed

text \<open>A volume with one file whose cluster is followed by itself.\<close>

definition loop_volume :: medium where
  "loop_volume = (\<lambda>x.
     if x = 0 then replicate 12 0 @ [2, 1, 1, 0, 1, 0, 0, 4, 0, 0, 0, 0] @ replicate 12 0 @ [1, 0, 0, 0] @ replicate 4 0 @ [2, 0, 0, 0] @ replicate 462 0 @ [0x55, 0xAA]
     else if x = 1 then replicate 12 0 @ [3, 0, 0, 0] @ replicate 496 0
     else if x = 2 then [0x41] @ replicate 10 0x20 @ replicate 15 0 @ [3, 0, 0xD0, 7, 0, 0] @ replicate 480 0
     else replicate 512 9)"

definition unmounted :: "medium fat32" where
  "unmounted = \<lparr>fat_mounted = False, fat_base_lba = 0, fat_start = 0, data_start = 0, root_cluster = 0, sectors_per_cluster = 0,
     total_clusters = 0, fat_disk = loop_volume\<rparr>"

lemma loop_volume_mounts: "fst (fat32_mount ram_ops 0 unmounted) = 0"
  and loop_volume_resolves: "map_option fst (resolve ram_ops ''/a'' (snd (fat32_mount ram_ops 0 unmounted))) = Some (Some (3, 2000, False))"
  and loop_volume_cycle: "fst (fat_next ram_ops 3 (snd (fat32_mount ram_ops 0 unmounted))) = 3"
  by code_simp+

theorem fat32_read_returns_witness:
  "\<exists>g n buf' g2. fat32_mount ram_ops 0 unmounted = (0, g) \<and> fst (fat_next ram_ops 3 g) = 3
     \<and> fat32_read ram_ops ''/a'' (replicate 4096 0) 4096 g = Some ((n, buf'), g2) \<and> -1 \<le> n \<and> n \<le> 4096"
proof -
  obtain g where g: "fat32_mount ram_ops 0 unmounted = (0, g)" using loop_volume_mounts by (metis prod.collapse)
  obtain r g1 where res: "resolve ram_ops ''/a'' g = Some (r, g1)" using loop_volume_resolves g by (cases "resolve ram_ops ''/a'' g") auto
  have inv: "ram_inv (fat_disk unmounted)" by (auto simp: ram_inv_def unmounted_def loop_volume_def)
  from fat32_read_returns [OF ram.block_device_axioms inv g res, of 4096 "replicate 4096 0"] g loop_volume_cycle show ?thesis by fastforce
qed

text \<open>
  Property: a name that fits 8.3 is looked up in the on-disk form that lists back as the same name
  in upper case: \<open>name_to_83\<close> accepts every base of at most eight and extension of at most three
  characters without dots and blanks, and \<open>name_from_83\<close> inverts it.
\<close>

theorem fat32_name_roundtrip:
  assumes "length base \<le> 8" "CHR ''.'' \<notin> set base" "CHR '' '' \<notin> set base"
    "0 < length ext" "length ext \<le> 3" "CHR '' '' \<notin> set ext"
  shows "\<exists>raw. name_to_83 (base @ CHR ''.'' # ext) = Some raw \<and> length raw = 11
    \<and> name_from_83 (map byte_of raw @ rest) = map upper83 (base @ CHR ''.'' # ext)"
  using assms by (rule name_83_roundtrip)

theorem fat32_name_roundtrip_witness:
  "\<exists>raw. name_to_83 ''hello.txt'' = Some raw \<and> name_from_83 (map byte_of raw) = ''HELLO.TXT''"
proof -
  have "map upper83 ''hello.txt'' = ''HELLO.TXT''" by code_simp
  then show ?thesis using fat32_name_roundtrip [of "''hello''" "''txt''" "[]"] by auto
qed
end
