(* ===== verification/Ext2.thy ===== *)
theory Ext2
  imports Fat32
begin

text \<open>
  The read-only ext2 driver, \<open>src/kernel/fs/ext2.c\<close>: superblock, inodes through the group descriptors,
  direct and single-indirect blocks with the cached indirect block, directory records, path
  resolution, listing, stat and read, over the disk interface. Every loop of the driver ends, whatever
  the volume holds; the two that run along file blocks and along directory records carry their
  termination proofs. Bytes that a damaged record places behind its block do not exist in the model:
  such a name matches nothing.
\<close>

section \<open>The code\<close>

abbreviation EXT2_MAGIC :: u16 where "EXT2_MAGIC \<equiv> 0xEF53"
abbreviation EXT2_ROOT_INO :: u32 where "EXT2_ROOT_INO \<equiv> 2"
abbreviation EXT2_NDIR :: nat where "EXT2_NDIR \<equiv> 12"
abbreviation S_IFMT :: u16 where "S_IFMT \<equiv> 0xF000"
abbreviation S_IFDIR :: u16 where "S_IFDIR \<equiv> 0x4000"
abbreviation S_IFREG :: u16 where "S_IFREG \<equiv> 0x8000"

record 'd ext2 =
  e2_mounted :: bool
  e2_base_lba :: u32
  block_size :: u32
  sectors_per_block :: u32
  inodes_per_group :: u32
  inode_size :: u32
  first_data_block :: u32
  gd_block :: u32
  cached_ind :: u32
  ind_block :: bytes
  e2_disk :: 'd

text \<open>\<open>erd16\<close> and \<open>erd32\<close> are \<open>rd16\<close> and \<open>rd32\<close> of the FAT32 driver under another name.\<close>

definition erd16 :: "bytes \<Rightarrow> nat \<Rightarrow> u16" where
  "erd16 p i = ucast (p ! i) OR push_bit 8 (ucast (p ! (i + 1)))"

definition erd32 :: "bytes \<Rightarrow> nat \<Rightarrow> u32" where
  "erd32 p i = ucast (p ! i) OR push_bit 8 (ucast (p ! (i + 1))) OR push_bit 16 (ucast (p ! (i + 2)))
     OR push_bit 24 (ucast (p ! (i + 3)))"

text \<open>A read of \<open>n\<close> sectors into a buffer of that size: \<open>None\<close> for the negative result.\<close>

definition e2_sectors :: "'d disk_ops \<Rightarrow> u32 \<Rightarrow> u8 \<Rightarrow> 'd ext2 \<Rightarrow> bytes option \<times> 'd ext2" where
  "e2_sectors ops lba n g =
     (case disk_read ops lba n (replicate (unat n * SECTOR_SIZE) 0) (e2_disk g) of
        ((rc, buf), d) \<Rightarrow> (if rc < 0 then None else Some buf, g\<lparr>e2_disk := d\<rparr>))"

definition read_block :: "'d disk_ops \<Rightarrow> u32 \<Rightarrow> 'd ext2 \<Rightarrow> bytes option \<times> 'd ext2" where
  "read_block ops block g =
     e2_sectors ops (e2_base_lba g + block * sectors_per_block g) (ucast (sectors_per_block g)) g"

definition ext2_mount :: "'d disk_ops \<Rightarrow> u32 \<Rightarrow> 'd ext2 \<Rightarrow> int \<times> 'd ext2" where
  "ext2_mount ops base_lba g0 =
     (case e2_sectors ops (base_lba + 2) 2 (g0\<lparr>e2_mounted := False, e2_base_lba := base_lba\<rparr>) of
        (None, g) \<Rightarrow> (-1, g)
      | (Some sb, g) \<Rightarrow>
          if erd16 sb 56 \<noteq> EXT2_MAGIC then (-1, g)
          else let log_bs = erd32 sb 24 in
            if log_bs > 2 then (-1, g)
            else let bs = push_bit (unat log_bs) 1024;
                     isize = (if erd32 sb 76 \<ge> 1 then ucast (erd16 sb 88) else 128);
                     g1 = g\<lparr>block_size := bs, sectors_per_block := bs div 512, inodes_per_group := erd32 sb 40,
                            first_data_block := erd32 sb 20, inode_size := isize\<rparr>
              in if isize < 128 \<or> inodes_per_group g1 = 0 then (-1, g1)
                 else (0, g1\<lparr>gd_block := first_data_block g1 + 1, e2_mounted := True\<rparr>))"

definition ext2_mounted :: "'d ext2 \<Rightarrow> bool" where
  "ext2_mounted g = e2_mounted g"

text \<open>Mode, size and the thirteen block pointers of an inode.\<close>

definition inode_load :: "'d disk_ops \<Rightarrow> u32 \<Rightarrow> 'd ext2 \<Rightarrow> (u16 \<times> u32 \<times> u32 list) option \<times> 'd ext2" where
  "inode_load ops ino g =
     (if ino = 0 then (None, g)
      else let grp = (ino - 1) div inodes_per_group g; index = (ino - 1) mod inodes_per_group g;
               gd_per_block = block_size g div 32 in
        case read_block ops (gd_block g + grp div gd_per_block) g of
          (None, g1) \<Rightarrow> (None, g1)
        | (Some gd, g1) \<Rightarrow>
            let itable = erd32 gd (unat (grp mod gd_per_block) * 32 + 8);
                byte_off = index * inode_size g1 in
            case read_block ops (itable + byte_off div block_size g1) g1 of
              (None, g2) \<Rightarrow> (None, g2)
            | (Some blk, g2) \<Rightarrow>
                let k = unat (byte_off mod block_size g2)
                in (Some (erd16 blk k, erd32 blk (k + 4), map (\<lambda>i. erd32 blk (k + 40 + i * 4)) [0..<Suc EXT2_NDIR]), g2))"

definition inode_nth_block :: "'d disk_ops \<Rightarrow> u32 list \<Rightarrow> nat \<Rightarrow> 'd ext2 \<Rightarrow> u32 \<times> 'd ext2" where
  "inode_nth_block ops blocks n g =
     (if n < EXT2_NDIR then (blocks ! n, g)
      else let m = n - EXT2_NDIR in
        if m \<ge> unat (block_size g) div 4 \<or> blocks ! EXT2_NDIR = 0 then (0, g)
        else if cached_ind g \<noteq> blocks ! EXT2_NDIR then
          (case read_block ops (blocks ! EXT2_NDIR) g of
             (None, g1) \<Rightarrow> (0, g1)
           | (Some buf, g1) \<Rightarrow> (erd32 buf (m * 4), g1\<lparr>ind_block := buf, cached_ind := blocks ! EXT2_NDIR\<rparr>))
        else (erd32 (ind_block g) (m * 4), g))"

lemma e2_geometry [simp]:
  "block_size (snd (read_block ops b g)) = block_size g" "block_size (snd (inode_nth_block ops bs n g)) = block_size g"
  by (auto simp: read_block_def e2_sectors_def inode_nth_block_def Let_def split: prod.splits option.splits)

lemma inode_nth_block_end:
  "12 + unat (block_size g) div 4 \<le> n \<Longrightarrow> fst (inode_nth_block ops blocks n g) = 0"
  by (auto simp: inode_nth_block_def Let_def)

section \<open>Directories\<close>

text \<open>The record at \<open>off\<close>: inode, record length, name; the loop over the records of a block.\<close>

definition rec_name :: "bytes \<Rightarrow> nat \<Rightarrow> bytes" where
  "rec_name blk off = take (unat (blk ! (off + 6))) (drop (off + 8) blk)"

function find_record :: "nat \<Rightarrow> bytes \<Rightarrow> bytes \<Rightarrow> nat \<Rightarrow> u32 scan" where
  "find_record bs blk name off =
     (if off + 8 \<le> bs then
        let ino = erd32 blk off; rec_len = unat (erd16 blk (off + 4)) in
        if rec_len < 8 then Scan_stop
        else if ino \<noteq> 0 \<and> unat (blk ! (off + 6)) = length name \<and> rec_name blk off = name then Scan_hit ino
        else find_record bs blk name (off + rec_len)
      else Scan_next)"
  by pat_completeness auto
termination
  by (relation "measure (\<lambda>(bs, blk, name, off). bs - off)") auto

declare find_record.simps [simp del]

function e2_scan :: "'d disk_ops \<Rightarrow> u32 list \<Rightarrow> u32 \<Rightarrow> bytes \<Rightarrow> nat \<Rightarrow> 'd ext2 \<Rightarrow> u32 \<times> 'd ext2" where
  "e2_scan ops blocks sz name n g =
     (if of_nat n * block_size g < sz then
        let nb = inode_nth_block ops blocks n g in
        if fst nb = 0 then (0, snd nb)
        else let rb = read_block ops (fst nb) (snd nb) in
          case fst rb of
            None \<Rightarrow> (0, snd rb)
          | Some blk \<Rightarrow>
              (case find_record (unat (block_size g)) blk name 0 of
                 Scan_hit ino \<Rightarrow> (ino, snd rb)
               | Scan_stop \<Rightarrow> (0, snd rb)
               | Scan_next \<Rightarrow> e2_scan ops blocks sz name (Suc n) (snd rb))
      else (0, g))"
  by pat_completeness auto
termination
proof (relation "measure (\<lambda>(ops, blocks, size, name, n, g). 13 + unat (block_size g) div 4 - n)", simp, goal_cases)
  case (1 ops blocks sz name n g nb)
  then have "\<not> 12 + unat (block_size g) div 4 \<le> n" using inode_nth_block_end [of g n ops blocks] by auto
  with 1 show ?case by auto
qed

declare e2_scan.simps [simp del]

definition e2_dir_find :: "'d disk_ops \<Rightarrow> u32 \<Rightarrow> bytes \<Rightarrow> 'd ext2 \<Rightarrow> u32 \<times> 'd ext2" where
  "e2_dir_find ops dir_ino name g =
     (case inode_load ops dir_ino g of
        (None, g1) \<Rightarrow> (0, g1)
      | (Some (mode, sz, blocks), g1) \<Rightarrow>
          if mode AND S_IFMT \<noteq> S_IFDIR then (0, g1) else e2_scan ops blocks sz name 0 g1)"

lemma slash_rest_shorter:
  assumes "path \<noteq> []"
  shows "length (dropWhile (\<lambda>c. c = CHR ''/'') (dropWhile (\<lambda>c. c \<noteq> CHR ''/'') path)) < length path"
proof (cases "dropWhile (\<lambda>c. c \<noteq> CHR ''/'') path")
  case Nil
  show ?thesis unfolding Nil using assms by simp
next
  case (Cons x xs)
  then have "x = CHR ''/''" using hd_dropWhile [of "\<lambda>c. c \<noteq> CHR ''/''" path] by (metis list.distinct(1) list.sel(1))
  then have "length (dropWhile (\<lambda>c. c = CHR ''/'') (x # xs)) \<le> length xs" by (simp add: length_dropWhile_le)
  moreover have "length (x # xs) \<le> length path" using length_dropWhile_le [of "\<lambda>c. c \<noteq> CHR ''/''" path] Cons by simp
  ultimately show ?thesis using Cons by simp
qed

text \<open>The path loop of \<open>resolve\<close>: components between slashes, at most 255 bytes each.\<close>

function e2_walk :: "'d disk_ops \<Rightarrow> cstring \<Rightarrow> u32 \<Rightarrow> 'd ext2 \<Rightarrow> u32 \<times> 'd ext2" where
  "e2_walk ops path ino g =
     (if path = [] then (ino, g)
      else let seg = takeWhile (\<lambda>c. c \<noteq> CHR ''/'') path;
               rest = dropWhile (\<lambda>c. c = CHR ''/'') (dropWhile (\<lambda>c. c \<noteq> CHR ''/'') path) in
        if seg = [] then e2_walk ops rest ino g
        else if length seg > 255 then (0, g)
        else let r = e2_dir_find ops ino (map byte_of seg) g in
          if fst r = 0 then (0, snd r) else e2_walk ops rest (fst r) (snd r))"
  by pat_completeness auto

termination
  by (relation "measure (\<lambda>(ops, path, ino, g). length path)") (auto intro: slash_rest_shorter)

declare e2_walk.simps [simp del]

definition e2_resolve :: "'d disk_ops \<Rightarrow> cstring \<Rightarrow> 'd ext2 \<Rightarrow> u32 \<times> 'd ext2" where
  "e2_resolve ops path g =
     (if \<not> e2_mounted g then (0, g)
      else case path of
        [] \<Rightarrow> (0, g)
      | c # rest \<Rightarrow> if c \<noteq> CHR ''/'' then (0, g) else e2_walk ops rest EXT2_ROOT_INO g)"

section \<open>List, stat, read\<close>

text \<open>
  The listing counts an entry whose inode cannot be loaded but does not report it: the result is the
  count with the calls of the callback.
\<close>

function list_records :: "'d disk_ops \<Rightarrow> nat \<Rightarrow> bytes \<Rightarrow> nat \<Rightarrow> int \<times> list_cb list \<Rightarrow> 'd ext2 \<Rightarrow> (int \<times> list_cb list) \<times> 'd ext2" where
  "list_records ops bs blk off out g =
     (if off + 8 \<le> bs then
        let e_ino = erd32 blk off; rec_len = unat (erd16 blk (off + 4)); nlen = blk ! (off + 6) in
        if rec_len < 8 then (out, g)
        else if e_ino \<noteq> 0 \<and> nlen > 0 then
          let r = inode_load ops e_ino g;
              calls = (case fst r of
                  None \<Rightarrow> []
                | Some (cmode, csize, cblocks) \<Rightarrow>
                    [(cstr (map char_of_byte (rec_name blk off)), csize, cmode AND S_IFMT = S_IFDIR)])
          in list_records ops bs blk (off + rec_len) (fst out + 1, snd out @ calls) (snd r)
        else list_records ops bs blk (off + rec_len) out g
      else (out, g))"
  by pat_completeness auto
termination
  by (relation "measure (\<lambda>(ops, bs, blk, off, out, g). bs - off)") auto

declare list_records.simps [simp del]

lemma inode_load_geometry [simp]: "block_size (snd (inode_load ops i g)) = block_size g"
proof -
  have "block_size g' = block_size g" if "read_block ops b g = (r, g')" for b r g' and g :: "'a ext2"
    using that e2_geometry(1) [of ops b g] by simp
  then show ?thesis by (auto simp: inode_load_def Let_def split: prod.splits option.splits)
qed

lemma list_records_geometry [simp]: "block_size (snd (list_records ops bs blk off out g)) = block_size g"
  by (induction ops bs blk off out g rule: list_records.induct) (subst list_records.simps, simp add: Let_def)

function e2_list_blocks :: "'d disk_ops \<Rightarrow> u32 list \<Rightarrow> u32 \<Rightarrow> nat \<Rightarrow> int \<times> list_cb list \<Rightarrow> 'd ext2 \<Rightarrow> (int \<times> list_cb list) \<times> 'd ext2" where
  "e2_list_blocks ops blocks sz n out g =
     (if of_nat n * block_size g < sz then
        let nb = inode_nth_block ops blocks n g in
        if fst nb = 0 then (out, snd nb)
        else let rb = read_block ops (fst nb) (snd nb) in
          case fst rb of
            None \<Rightarrow> (out, snd rb)
          | Some blk \<Rightarrow>
              let lr = list_records ops (unat (block_size g)) blk 0 out (snd rb)
              in e2_list_blocks ops blocks sz (Suc n) (fst lr) (snd lr)
      else (out, g))"
  by pat_completeness auto
termination
proof (relation "measure (\<lambda>(ops, blocks, sz, n, out, g). 13 + unat (block_size g) div 4 - n)", simp, goal_cases)
  case (1 ops blocks sz n out g nb)
  then have "\<not> 12 + unat (block_size g) div 4 \<le> n" using inode_nth_block_end [of g n ops blocks] by auto
  with 1 show ?case by (auto simp: case_prod_beta)
qed

declare e2_list_blocks.simps [simp del]

definition ext2_list :: "'d disk_ops \<Rightarrow> cstring \<Rightarrow> 'd ext2 \<Rightarrow> (int \<times> list_cb list) \<times> 'd ext2" where
  "ext2_list ops path g =
     (case e2_resolve ops path g of (ino, g1) \<Rightarrow>
        if ino = 0 then ((-1, []), g1)
        else case inode_load ops ino g1 of
          (None, g2) \<Rightarrow> ((-1, []), g2)
        | (Some (mode, sz, blocks), g2) \<Rightarrow>
            if mode AND S_IFMT \<noteq> S_IFDIR then ((-1, []), g2)
            else e2_list_blocks ops blocks sz 0 (0, []) g2)"

definition ext2_stat :: "'d disk_ops \<Rightarrow> cstring \<Rightarrow> 'd ext2 \<Rightarrow> (u32 \<times> bool) option \<times> 'd ext2" where
  "ext2_stat ops path g =
     (case e2_resolve ops path g of (ino, g1) \<Rightarrow>
        if ino = 0 then (None, g1)
        else case inode_load ops ino g1 of
          (None, g2) \<Rightarrow> (None, g2)
        | (Some (mode, sz, blocks), g2) \<Rightarrow> (Some (sz, mode AND S_IFMT = S_IFDIR), g2))"

text \<open>The copy loop: position, buffer; \<open>None\<close> for the error return.\<close>

function e2_copy :: "'d disk_ops \<Rightarrow> u32 list \<Rightarrow> nat \<Rightarrow> nat \<Rightarrow> nat \<Rightarrow> bytes \<Rightarrow> 'd ext2 \<Rightarrow> (nat option \<times> bytes) \<times> 'd ext2" where
  "e2_copy ops blocks want n pos buf g =
     (if pos < want then
        let nb = inode_nth_block ops blocks n g in
        if fst nb = 0 then ((None, buf), snd nb)
        else let rb = read_block ops (fst nb) (snd nb) in
          case fst rb of
            None \<Rightarrow> ((None, buf), snd rb)
          | Some blk \<Rightarrow>
              let bs = unat (block_size g); m = (if want - pos < bs then want - pos else bs)
              in e2_copy ops blocks want (Suc n) (pos + m) (blit buf pos (take m blk)) (snd rb)
      else ((Some pos, buf), g))"
  by pat_completeness auto
termination
proof (relation "measure (\<lambda>(ops, blocks, want, n, pos, buf, g). 13 + unat (block_size g) div 4 - n)", simp, goal_cases)
  case (1 ops blocks want n pos buf g nb)
  then have "\<not> 12 + unat (block_size g) div 4 \<le> n" using inode_nth_block_end [of g n ops blocks] by auto
  with 1 show ?case by auto
qed

declare e2_copy.simps [simp del]

definition ext2_read :: "'d disk_ops \<Rightarrow> cstring \<Rightarrow> bytes \<Rightarrow> u32 \<Rightarrow> 'd ext2 \<Rightarrow> (int \<times> bytes) \<times> 'd ext2" where
  "ext2_read ops path buf max_len g =
     (case e2_resolve ops path g of (ino, g1) \<Rightarrow>
        if ino = 0 then ((-1, buf), g1)
        else case inode_load ops ino g1 of
          (None, g2) \<Rightarrow> ((-1, buf), g2)
        | (Some (mode, sz, blocks), g2) \<Rightarrow>
            if mode AND S_IFMT \<noteq> S_IFREG then ((-1, buf), g2)
            else let want = unat (if sz < max_len then sz else max_len) in
              case e2_copy ops blocks want 0 0 buf g2 of
                ((res, buf1), g3) \<Rightarrow> ((case res of None \<Rightarrow> -1 | Some pos \<Rightarrow> sint (of_nat pos :: u32), buf1), g3))"

section \<open>The volume as a function of the medium\<close>

definition block_data :: "medium \<Rightarrow> 'd ext2 \<Rightarrow> u32 \<Rightarrow> bytes" where
  "block_data v g b = sectors v (e2_base_lba g + b * sectors_per_block g) (unat (ucast (sectors_per_block g) :: u8))"

text \<open>The pointer to the \<open>n\<close>-th block of a file: zero behind the single-indirect block.\<close>

definition nth_ptr :: "medium \<Rightarrow> 'd ext2 \<Rightarrow> u32 list \<Rightarrow> nat \<Rightarrow> u32" where
  "nth_ptr v g blocks n =
     (if n < EXT2_NDIR then blocks ! n
      else if n - EXT2_NDIR < unat (block_size g) div 4 \<and> blocks ! EXT2_NDIR \<noteq> 0
      then erd32 (block_data v g (blocks ! EXT2_NDIR)) ((n - EXT2_NDIR) * 4) else 0)"

definition file_byte :: "medium \<Rightarrow> 'd ext2 \<Rightarrow> u32 list \<Rightarrow> nat \<Rightarrow> u8" where
  "file_byte v g blocks i =
     block_data v g (nth_ptr v g blocks (i div unat (block_size g))) ! (i mod unat (block_size g))"

text \<open>The cached indirect block is the block it claims to be; a mounted geometry.\<close>

definition e2_coherent :: "('d \<Rightarrow> bool) \<Rightarrow> ('d \<Rightarrow> medium) \<Rightarrow> 'd ext2 \<Rightarrow> bool" where
  "e2_coherent dinv view g \<longleftrightarrow> dinv (e2_disk g)
     \<and> (cached_ind g \<noteq> 0 \<longrightarrow> ind_block g = block_data (view (e2_disk g)) g (cached_ind g))"

definition same_e2 :: "('d \<Rightarrow> bool) \<Rightarrow> ('d \<Rightarrow> medium) \<Rightarrow> 'd ext2 \<Rightarrow> 'd ext2 \<Rightarrow> bool" where
  "same_e2 dinv view g g' \<longleftrightarrow> e2_coherent dinv view g' \<and> view (e2_disk g') = view (e2_disk g)
     \<and> (\<exists>d c b. g' = g\<lparr>e2_disk := d, cached_ind := c, ind_block := b\<rparr>)"

lemma e2_frame [simp]:
  "block_data v (g\<lparr>e2_disk := d\<rparr>) = block_data v g" "block_data v (g\<lparr>cached_ind := c\<rparr>) = block_data v g"
  "block_data v (g\<lparr>ind_block := b\<rparr>) = block_data v g"
  by (simp_all add: fun_eq_iff block_data_def)

lemma same_e2_refl: "e2_coherent dinv view g \<Longrightarrow> same_e2 dinv view g g"
  unfolding same_e2_def by (intro conjI exI [of _ "e2_disk g"] exI [of _ "cached_ind g"] exI [of _ "ind_block g"]) simp_all

lemma same_e2_trans [trans]: "same_e2 dinv view g g1 \<Longrightarrow> same_e2 dinv view g1 g2 \<Longrightarrow> same_e2 dinv view g g2"
proof -
  assume a: "same_e2 dinv view g g1" "same_e2 dinv view g1 g2"
  obtain d c b where "g1 = g\<lparr>e2_disk := d, cached_ind := c, ind_block := b\<rparr>" using a(1) by (auto simp: same_e2_def)
  moreover obtain d' c' b' where "g2 = g1\<lparr>e2_disk := d', cached_ind := c', ind_block := b'\<rparr>" using a(2) by (auto simp: same_e2_def)
  ultimately have "g2 = g\<lparr>e2_disk := d', cached_ind := c', ind_block := b'\<rparr>" by simp
  with a show ?thesis unfolding same_e2_def by metis
qed

lemma same_e2D:
  assumes "same_e2 dinv view g g'"
  shows "e2_coherent dinv view g'" "view (e2_disk g') = view (e2_disk g)" "block_size g' = block_size g"
    "block_data v g' = block_data v g" "nth_ptr v g' = nth_ptr v g" "file_byte v g' = file_byte v g"
    "inode_size g' = inode_size g" "sectors_per_block g' = sectors_per_block g"
proof -
  show "e2_coherent dinv view g'" "view (e2_disk g') = view (e2_disk g)" using assms by (simp_all add: same_e2_def)
  obtain d c b where g': "g' = g\<lparr>e2_disk := d, cached_ind := c, ind_block := b\<rparr>" using assms by (auto simp: same_e2_def)
  then show bs: "block_size g' = block_size g" and bd: "block_data v g' = block_data v g"
    and "inode_size g' = inode_size g" "sectors_per_block g' = sectors_per_block g" by simp_all
  then show np: "nth_ptr v g' = nth_ptr v g" by (simp add: fun_eq_iff nth_ptr_def)
  show "file_byte v g' = file_byte v g" by (simp add: fun_eq_iff file_byte_def bs bd np)
qed

definition all_reads_succeed :: "('d \<Rightarrow> bool) \<Rightarrow> 'd disk_ops \<Rightarrow> bool" where
  "all_reads_succeed dinv ops \<longleftrightarrow> (\<forall>d x n b. dinv d \<longrightarrow> 0 \<le> fst (fst (disk_read ops x n b d)))"

context block_device
begin

lemma read_block_view:
  assumes "e2_coherent dinv view g"
  shows "same_e2 dinv view g (snd (read_block ops b g))"
    "fst (read_block ops b g) = None \<or> fst (read_block ops b g) = Some (block_data (view (e2_disk g)) g b)"
    "all_reads_succeed dinv ops \<Longrightarrow> fst (read_block ops b g) \<noteq> None"
    "cached_ind (snd (read_block ops b g)) = cached_ind g" "ind_block (snd (read_block ops b g)) = ind_block g"
proof -
  let ?n = "ucast (sectors_per_block g) :: u8"
  obtain rc buf d where r: "disk_read ops (e2_base_lba g + b * sectors_per_block g) ?n (replicate (unat ?n * 512) 0) (e2_disk g) = ((rc, buf), d)"
    by (metis surj_pair)
  have inv: "dinv (e2_disk g)" using assms by (simp add: e2_coherent_def)
  have k: "dinv d" "view d = view (e2_disk g)" using read_keeps [OF inv _ r] by simp_all
  have eq: "read_block ops b g = (if rc < 0 then None else Some buf, g\<lparr>e2_disk := d\<rparr>)"
    by (simp add: read_block_def e2_sectors_def r)
  show "same_e2 dinv view g (snd (read_block ops b g))" unfolding same_e2_def eq
    using assms k by (intro conjI exI [of _ d] exI [of _ "cached_ind g"] exI [of _ "ind_block g"]) (simp_all add: e2_coherent_def)
  show "fst (read_block ops b g) = None \<or> fst (read_block ops b g) = Some (block_data (view (e2_disk g)) g b)"
    using read_data [OF inv _ r] by (simp add: eq block_data_def)
  show "fst (read_block ops b g) \<noteq> None" if "all_reads_succeed dinv ops"
  proof -
    have "0 \<le> rc" using that inv r unfolding all_reads_succeed_def by (metis fst_conv)
    then show ?thesis by (simp add: eq)
  qed
qed (simp_all add: read_block_def e2_sectors_def split: prod.splits)

lemma inode_nth_block_view:
  assumes c: "e2_coherent dinv view g"
  shows "same_e2 dinv view g (snd (inode_nth_block ops blocks n g))"
    "fst (inode_nth_block ops blocks n g) = 0 \<or> fst (inode_nth_block ops blocks n g) = nth_ptr (view (e2_disk g)) g blocks n"
    "all_reads_succeed dinv ops \<Longrightarrow> fst (inode_nth_block ops blocks n g) = nth_ptr (view (e2_disk g)) g blocks n"
proof -
  let ?r = "inode_nth_block ops blocks n g" and ?p = "blocks ! 12" and ?v = "view (e2_disk g)"
  have "same_e2 dinv view g (snd ?r) \<and> (fst ?r = 0 \<or> fst ?r = nth_ptr ?v g blocks n)
    \<and> (all_reads_succeed dinv ops \<longrightarrow> fst ?r = nth_ptr ?v g blocks n)"
  proof (cases "n < 12 \<or> n - 12 \<ge> unat (block_size g) div 4 \<or> ?p = 0 \<or> cached_ind g = ?p")
    case True
    then show ?thesis using same_e2_refl [OF c] c by (auto simp: inode_nth_block_def Let_def nth_ptr_def e2_coherent_def)
  next
    case False
    note r = read_block_view [OF c, of ?p]
    show ?thesis
    proof (cases "fst (read_block ops ?p g)")
      case None
      then have "?r = (0, snd (read_block ops ?p g))" using False
        by (cases "read_block ops ?p g") (simp add: inode_nth_block_def Let_def)
      then show ?thesis using r None by auto
    next
      case (Some buf)
      define g1 where "g1 = snd (read_block ops ?p g)"
      have buf: "buf = block_data ?v g ?p" using r(2) Some by simp
      have eq: "?r = (erd32 buf ((n - 12) * 4), g1\<lparr>ind_block := buf, cached_ind := ?p\<rparr>)" using False Some
        by (cases "read_block ops ?p g") (simp add: inode_nth_block_def Let_def g1_def)
      have s: "same_e2 dinv view g g1" using r(1) by (simp add: g1_def)
      then have "same_e2 dinv view g1 (g1\<lparr>ind_block := buf, cached_ind := ?p\<rparr>)"
        unfolding same_e2_def [of _ _ g1] using same_e2D [OF s] buf
        by (intro conjI exI [of _ "e2_disk g1"] exI [of _ ?p] exI [of _ buf]) (simp_all add: e2_coherent_def)
      with s have "same_e2 dinv view g (snd ?r)" unfolding eq snd_conv by (rule same_e2_trans)
      moreover have "fst ?r = nth_ptr ?v g blocks n" using False by (simp add: eq nth_ptr_def buf)
      ultimately show ?thesis by simp
    qed
  qed
  then show "same_e2 dinv view g (snd ?r)" "fst ?r = 0 \<or> fst ?r = nth_ptr ?v g blocks n"
    "all_reads_succeed dinv ops \<Longrightarrow> fst ?r = nth_ptr ?v g blocks n" by simp_all
qed

lemma inode_load_view:
  assumes c: "e2_coherent dinv view g"
  shows "same_e2 dinv view g (snd (inode_load ops ino g))"
proof -
  have s: "same_e2 dinv view g g'" if "read_block ops b g = (r, g')" "e2_coherent dinv view g" for b r g' g
    using read_block_view(1) [OF that(2), of b] that(1) by simp
  show ?thesis using c same_e2_refl [OF c]
    by (auto simp: inode_load_def Let_def split: prod.splits option.splits dest!: s dest: same_e2D(1) intro: same_e2_trans)
qed


lemma e2_scan_view:
  "o1 = ops \<Longrightarrow> e2_coherent dinv view g \<Longrightarrow> same_e2 dinv view g (snd (e2_scan o1 blocks sz name n g))"
proof (induction o1 blocks sz name n g rule: e2_scan.induct)
  case (1 o1 blocks sz name n g)
  let ?nb = "inode_nth_block ops blocks n g"
  note s1 = inode_nth_block_view(1) [OF 1(3), of blocks n]
  note s2 = same_e2_trans [OF s1 read_block_view(1) [OF same_e2D(1) [OF s1], of "fst ?nb"]]
  have rec: "same_e2 dinv view g (snd (e2_scan ops blocks sz name (Suc n) (snd (read_block ops (fst ?nb) (snd ?nb)))))"
    if "of_nat n * block_size g < sz" "fst ?nb \<noteq> 0" "fst (read_block ops (fst ?nb) (snd ?nb)) = Some blk"
      "find_record (unat (block_size g)) blk name 0 = Scan_next" for blk
    using 1(1) [OF _ refl _ refl] that 1(2) same_e2D(1) [OF s2] same_e2_trans [OF s2] by simp
  show ?case unfolding 1(2) using rec s1 s2 same_e2_refl [OF 1(3)]
    by (subst e2_scan.simps) (auto simp: Let_def split: option.splits scan.splits)
qed

lemma e2_dir_find_view:
  assumes c: "e2_coherent dinv view g"
  shows "same_e2 dinv view g (snd (e2_dir_find ops ino name g))"
proof -
  obtain r g1 where r: "inode_load ops ino g = (r, g1)" by (metis surj_pair)
  have s: "same_e2 dinv view g g1" using inode_load_view [OF c, of ino] r by simp
  show ?thesis using s same_e2_trans [OF s e2_scan_view [OF refl same_e2D(1) [OF s]]]
    by (auto simp: e2_dir_find_def r split: option.splits)
qed

lemma e2_walk_view:
  "o1 = ops \<Longrightarrow> e2_coherent dinv view g \<Longrightarrow> same_e2 dinv view g (snd (e2_walk o1 path ino g))"
proof (induction o1 path ino g rule: e2_walk.induct)
  case (1 o1 path ino g)
  let ?seg = "takeWhile (\<lambda>c. c \<noteq> CHR ''/'') path" and ?rest = "dropWhile (\<lambda>c. c = CHR ''/'') (dropWhile (\<lambda>c. c \<noteq> CHR ''/'') path)"
  let ?r = "e2_dir_find ops ino (map byte_of ?seg) g"
  note s = e2_dir_find_view [OF 1(4), of ino "map byte_of ?seg"]
  have a: "same_e2 dinv view g (snd (e2_walk ops ?rest ino g))" if "path \<noteq> []" "?seg = []"
    using 1(1) [OF that(1) refl refl that(2) 1(3,4)] 1(3) by simp
  have b: "same_e2 dinv view g (snd (e2_walk ops ?rest (fst ?r) (snd ?r)))" if "path \<noteq> []" "?seg \<noteq> []" "\<not> 255 < length ?seg" "fst ?r \<noteq> 0"
    using 1(2) [OF that(1) refl refl that(2,3) refl] that(4) 1(3) same_e2D(1) [OF s] same_e2_trans [OF s] by simp
  show ?case unfolding 1(3) using a b s same_e2_refl [OF 1(4)] by (subst e2_walk.simps) (auto simp: Let_def)
qed

lemma e2_resolve_view:
  "e2_coherent dinv view g \<Longrightarrow> same_e2 dinv view g (snd (e2_resolve ops path g))"
  by (simp add: e2_resolve_def same_e2_refl e2_walk_view split: list.splits)

text \<open>The copy loop: from a block boundary on, every byte is the file's byte at that position.\<close>

definition copied :: "nat \<Rightarrow> nat \<Rightarrow> bytes \<Rightarrow> (nat \<Rightarrow> u8) \<Rightarrow> bytes \<Rightarrow> bool" where
  "copied want pos buf F buf' \<longleftrightarrow> length buf' = length buf \<and> take pos buf' = take pos buf \<and> drop want buf' = drop want buf
     \<and> (\<forall>i. pos \<le> i \<and> i < want \<longrightarrow> buf' ! i = F i)"

lemma copied_refl: "want \<le> pos \<Longrightarrow> copied want pos buf F buf"
  by (auto simp: copied_def)

lemma copied_step:
  assumes c: "copied want (pos + m) (blit buf pos (take m blk)) F buf'" and m: "m \<le> length blk" "pos + m \<le> want" "want \<le> length buf"
    and F: "\<And>i. i < m \<Longrightarrow> blk ! i = F (pos + i)"
  shows "copied want pos buf F buf'"
proof -
  let ?b = "blit buf pos (take m blk)"
  have b: "length ?b = length buf" "take pos ?b = take pos buf" "drop want ?b = drop want buf"
    "\<And>i. pos \<le> i \<Longrightarrow> i < pos + m \<Longrightarrow> ?b ! i = F i"
  proof -
    show "length ?b = length buf" "take pos ?b = take pos buf" "drop want ?b = drop want buf" using m by (simp_all add: blit_def)
    show "?b ! i = F i" if "pos \<le> i" "i < pos + m" for i
    proof -
      have "i - pos < m" using that by linarith
      with that m F [of "i - pos"] show ?thesis by (simp add: blit_def nth_append)
    qed
  qed
  have c': "length buf' = length ?b" "take (pos + m) buf' = take (pos + m) ?b" "drop want buf' = drop want ?b"
    "\<And>i. pos + m \<le> i \<Longrightarrow> i < want \<Longrightarrow> buf' ! i = F i" using c by (simp_all add: copied_def)
  have "take pos (take (pos + m) buf') = take pos (take (pos + m) ?b)" by (simp only: c'(2))
  then have "take pos buf' = take pos buf" using b(2) by simp
  moreover have "buf' ! i = F i" if "pos \<le> i" "i < want" for i
  proof (cases "i < pos + m")
    case True
    then have "buf' ! i = ?b ! i" using c'(2) by (metis nth_take)
    then show ?thesis using b(4) that True by simp
  qed (use c'(4) that in simp)
  ultimately show ?thesis using b c' by (simp add: copied_def)
qed

lemma e2_copy_result:
  assumes "e2_coherent dinv view g" "want \<le> length buf" "pos \<le> want" "pos < want \<Longrightarrow> pos = n * unat (block_size g)"
    and bs: "unat (block_size g) = unat (ucast (sectors_per_block g) :: u8) * 512" "0 < unat (block_size g)"
    and F: "F = file_byte (view (e2_disk g)) g blocks" and r: "e2_copy ops blocks want n pos buf g = ((res, buf'), g')"
  shows "(res \<noteq> None \<longrightarrow> res = Some want \<and> copied want pos buf F buf')
    \<and> (all_reads_succeed dinv ops \<and> (\<forall>k. k * unat (block_size g) < want \<longrightarrow> nth_ptr (view (e2_disk g)) g blocks k \<noteq> 0) \<longrightarrow> res \<noteq> None)"
  using assms
proof (induction "13 + unat (block_size g) div 4 - n" arbitrary: n pos buf g rule: less_induct)
  case less
  let ?v = "view (e2_disk g)" and ?bs = "unat (block_size g)"
  show ?case
  proof (cases "pos < want")
    case False
    then show ?thesis using less.prems(3,8) by (subst (asm) e2_copy.simps) (auto simp: copied_refl)
  next
    case True
    note pos = less.prems(4) [OF True]
    define nb where "nb = inode_nth_block ops blocks n g"
    define rb where "rb = read_block ops (fst nb) (snd nb)"
    note n1 = inode_nth_block_view [OF less.prems(1), of blocks n, folded nb_def]
    note d1 = same_e2D [OF n1(1)]
    note r1 = read_block_view [OF d1(1), of "fst nb", folded rb_def]
    have s: "same_e2 dinv view g (snd rb)" using same_e2_trans [OF n1(1) r1(1)] .
    note d = same_e2D [OF s]
    have code: "e2_copy ops blocks want n pos buf g =
        (if fst nb = 0 then ((None, buf), snd nb)
         else case fst rb of None \<Rightarrow> ((None, buf), snd rb)
           | Some blk \<Rightarrow> e2_copy ops blocks want (Suc n) (pos + (if want - pos < ?bs then want - pos else ?bs))
               (blit buf pos (take (if want - pos < ?bs then want - pos else ?bs) blk)) (snd rb))"
      using True by (subst e2_copy.simps) (simp add: Let_def nb_def rb_def cong: if_cong option.case_cong)
    have kb: "n * ?bs < want" using True pos by simp
    show ?thesis
    proof (cases "fst nb = 0 \<or> fst rb = None")
      case bad: True
      then have "res = None" using less.prems(8) unfolding code by (auto split: if_splits)
      moreover have "\<not> (all_reads_succeed dinv ops \<and> (\<forall>k. k * ?bs < want \<longrightarrow> nth_ptr ?v g blocks k \<noteq> 0))"
        using bad n1(3) r1(3) kb by auto
      ultimately show ?thesis by simp
    next
      case ok: False
      define blk where "blk = block_data ?v g (nth_ptr ?v g blocks n)"
      have p: "fst nb = nth_ptr ?v g blocks n" "fst rb = Some blk" using ok n1(2) r1(2) d1 by (auto simp: blk_def)
      define m where "m = min (want - pos) ?bs"
      have m: "(if want - pos < ?bs then want - pos else ?bs) = m" "pos + m \<le> want" "m \<le> ?bs" using True by (auto simp: m_def)
      have rec: "e2_copy ops blocks want (Suc n) (pos + m) (blit buf pos (take m blk)) (snd rb) = ((res, buf'), g')"
        using less.prems(8) ok p(2) unfolding code m(1) by simp
      have lb: "length blk = ?bs" using less.prems(1,5) view_length
        by (simp add: blk_def block_data_def length_sectors e2_coherent_def)
      have "\<not> 12 + ?bs div 4 \<le> n" using inode_nth_block_end [of g n ops blocks] ok nb_def by auto
      then have dec: "13 + unat (block_size (snd rb)) div 4 - Suc n < 13 + ?bs div 4 - n" using d by simp
      have nx: "pos + m < want \<Longrightarrow> pos + m = Suc n * unat (block_size (snd rb))" using pos d by (auto simp: m_def min_def split: if_splits)
      have lbuf: "want \<le> length (blit buf pos (take m blk))" using less.prems(2) m lb by simp
      have IH: "(res \<noteq> None \<longrightarrow> res = Some want \<and> copied want (pos + m) (blit buf pos (take m blk)) F buf')
        \<and> (all_reads_succeed dinv ops \<and> (\<forall>k. k * ?bs < want \<longrightarrow> nth_ptr ?v g blocks k \<noteq> 0) \<longrightarrow> res \<noteq> None)"
        using less.hyps [OF dec d(1) lbuf m(2) nx _ _ _ rec] less.prems(5-7) d by simp
      moreover have "copied want pos buf F buf'" if "copied want (pos + m) (blit buf pos (take m blk)) F buf'"
      proof (rule copied_step [OF that _ m(2) less.prems(2)])
        show "m \<le> length blk" using m lb by simp
        fix i assume "i < m"
        then have i: "i < ?bs" using m by simp
        have "(pos + i) div ?bs = n" "(pos + i) mod ?bs = i" using i pos by simp_all
        then show "blk ! i = F (pos + i)" by (simp add: less.prems(7) file_byte_def blk_def)
      qed
      ultimately show ?thesis by blast
    qed
  qed
qed

end

section \<open>Properties\<close>

text \<open>
  Property: reading a regular file always ends. It fails, or it stores exactly the requested bytes:
  byte \<open>i\<close> of the buffer is byte \<open>i mod block_size\<close> of the block that the inode's direct pointers or
  its indirect block name for position \<open>i div block_size\<close>, and nothing behind them changes. With a
  disk without read errors and no missing block it does not fail. The cached indirect block never
  makes a difference.
\<close>

theorem ext2_read_file:
  assumes dev: "block_device ops dinv view" and g: "e2_coherent dinv view g"
    and bs: "unat (block_size g) = unat (ucast (sectors_per_block g) :: u8) * 512" "0 < unat (block_size g)"
    and res: "e2_resolve ops path g = (ino, g1)" "ino \<noteq> 0" "inode_load ops ino g1 = (Some (mode, sz, blocks), g2)"
      "mode AND S_IFMT = S_IFREG"
    and len: "unat max_len \<le> length buf" "unat max_len < 2 ^ 31" and w: "want = min (unat sz) (unat max_len)"
    and r: "ext2_read ops path buf max_len g = ((n, buf'), g3)"
  shows "(n = -1 \<or> n = int want \<and> buf' = map (file_byte (view (e2_disk g)) g blocks) [0..<want] @ drop want buf)
    \<and> (all_reads_succeed dinv ops \<and> (\<forall>k. k * unat (block_size g) < want \<longrightarrow> nth_ptr (view (e2_disk g)) g blocks k \<noteq> 0)
       \<longrightarrow> n = int want)"
proof -
  have s1: "same_e2 dinv view g g1" using block_device.e2_resolve_view [OF dev g, of path] res(1) by simp
  have "same_e2 dinv view g1 g2" using block_device.inode_load_view [OF dev same_e2D(1) [OF s1], of ino] res(3) by simp
  from same_e2D [OF same_e2_trans [OF s1 this]]
  have d: "e2_coherent dinv view g2" "view (e2_disk g2) = view (e2_disk g)" "block_size g2 = block_size g"
    "sectors_per_block g2 = sectors_per_block g" "\<And>v. file_byte v g2 = file_byte v g" "\<And>v. nth_ptr v g2 = nth_ptr v g" by simp_all
  have want: "unat (if sz < max_len then sz else max_len) = want" by (simp add: w word_less_nat_alt)
  have wb: "want \<le> length buf" "want < 2 ^ 31" using len w by simp_all
  obtain rs b' g' where c: "e2_copy ops blocks want 0 0 buf g2 = ((rs, b'), g')" by (metis surj_pair)
  have out: "n = (case rs of None \<Rightarrow> -1 | Some pos \<Rightarrow> sint (of_nat pos :: u32))" "buf' = b'"
    using r res want c by (simp_all add: ext2_read_def Let_def)
  let ?F = "file_byte (view (e2_disk g)) g blocks"
  have k: "(rs \<noteq> None \<longrightarrow> rs = Some want \<and> block_device.copied want 0 buf ?F b')
    \<and> (all_reads_succeed dinv ops \<and> (\<forall>k. k * unat (block_size g) < want \<longrightarrow> nth_ptr (view (e2_disk g)) g blocks k \<noteq> 0) \<longrightarrow> rs \<noteq> None)"
    using block_device.e2_copy_result [OF dev d(1) wb(1) le0 _ _ _ refl c] bs d by simp
  have "b' = map ?F [0..<want] @ drop want buf" if "block_device.copied want 0 buf ?F b'"
  proof -
    have cp: "length b' = length buf" "drop want b' = drop want buf" "\<And>i. i < want \<Longrightarrow> b' ! i = ?F i"
      using that by (simp_all add: block_device.copied_def [OF dev])
    have "take want b' = map ?F [0..<want]" using cp(1,3) wb(1) by (intro nth_equalityI) simp_all
    then show ?thesis using cp(2) by (metis append_take_drop_id)
  qed
  then show ?thesis using k out sint_len [OF wb(2)] by (cases rs) auto
qed

definition ext2_demo :: "medium ext2" where
  "ext2_demo = \<lparr>e2_mounted = True, e2_base_lba = 0, block_size = 1024, sectors_per_block = 2, inodes_per_group = 8, inode_size = 128,
     first_data_block = 1, gd_block = 2, cached_ind = 0, ind_block = [], e2_disk = (\<lambda>x.
       if x = 4 then replicate 8 0 @ [3] @ replicate 503 0
       else if x = 6 then replicate 128 0 @ [0, 0x40, 0, 0, 0, 4, 0, 0] @ replicate 32 0 @ [4] @ replicate 87 0
              @ [0, 0x80, 0, 0, 2, 0, 0, 0] @ replicate 32 0 @ [5] @ replicate 215 0
       else if x = 8 then [3, 0, 0, 0, 0, 4, 1, 0, 0x61] @ replicate 503 0
       else [7, 8] @ replicate 510 0)\<rparr>"

lemma ext2_demo_lookup:
  "fst (e2_resolve ram_ops ''/a'' ext2_demo) = 3"
  "fst (inode_load ram_ops 3 (snd (e2_resolve ram_ops ''/a'' ext2_demo))) = Some (0x8000, 2, 5 # replicate 12 0)"
  by code_simp+

theorem ext2_read_file_witness:
  "\<exists>g'. ext2_read ram_ops ''/a'' [0, 0, 0] 3 ext2_demo = ((2, [7, 8, 0]), g')"
proof -
  let ?g = ext2_demo and ?B = "5 # replicate 12 (0 :: u32)"
  obtain n b' g' where r: "ext2_read ram_ops ''/a'' [0, 0, 0] 3 ?g = ((n, b'), g')" by (metis surj_pair)
  obtain g1 where g1: "e2_resolve ram_ops ''/a'' ?g = (3, g1)" using ext2_demo_lookup(1) by (metis prod.collapse)
  obtain g2 where g2: "inode_load ram_ops 3 g1 = (Some (0x8000, 2, ?B), g2)" using ext2_demo_lookup(2) g1 by (metis prod.collapse snd_conv)
  have coh: "e2_coherent ram_inv (\<lambda>v. v) ?g" by (auto simp: e2_coherent_def ram_inv_def ext2_demo_def)
  have bs: "unat (block_size ?g) = 1024" "unat (ucast (sectors_per_block ?g) :: u8) = 2" by (simp_all add: ext2_demo_def)
  have ok: "all_reads_succeed ram_inv ram_ops" by (simp add: all_reads_succeed_def ram_ops_def)
  have ptr: "nth_ptr (e2_disk ?g) ?g ?B k = 5" if "k * 1024 < 2" for k
    using that by (cases k) (simp_all add: nth_ptr_def)
  have "block_data (e2_disk ?g) ?g 5 = [7, 8] @ replicate 510 0 @ [7, 8] @ replicate 510 0"
    using bs(2) by (simp add: block_data_def numeral_2_eq_2 sectors_Suc) (simp add: ext2_demo_def)
  then have F: "map (file_byte (e2_disk ?g) ?g ?B) [0..<2] = [7, 8]"
    using bs ptr [of 0] by (simp add: file_byte_def numeral_2_eq_2)
  have "(n = -1 \<or> n = int 2 \<and> b' = map (file_byte (e2_disk ?g) ?g ?B) [0..<2] @ drop 2 [0, 0, 0])
    \<and> (all_reads_succeed ram_inv ram_ops \<and> (\<forall>k. k * unat (block_size ?g) < 2 \<longrightarrow> nth_ptr (e2_disk ?g) ?g ?B k \<noteq> 0) \<longrightarrow> n = int 2)"
    by (rule ext2_read_file [OF ram.block_device_axioms coh _ _ g1 _ g2 _ _ _ _ r]) (simp_all add: bs)
  then show ?thesis using r F ok ptr bs by auto
qed
end
