(* ===== verification/Kfs.thy ===== *)
theory Kfs
  imports Vernisfs Ext2
begin

text \<open>
  The file-system layer, \<open>src/kernel/fs/vfs.c\<close>: choice of the disk driver and backend, routing of paths
  to the pseudo files, the mounted FAT32 and ext2 volumes and VernisFS, directory listing, and the
  permission check. The three file systems share the disk state, which the layer's state keeps in
  \<open>k_vfs\<close>; each call of a driver runs on it. The AHCI and NVMe drivers, the tick counter and the
  scheduler behind \<open>/proc/ps\<close> are parameters. A result \<open>None\<close> is a FAT32 walk that does not end.
\<close>

section \<open>State and environment\<close>

datatype KfsBackend = KFS_BACKEND_NONE | KFS_BACKEND_VERNISFS | KFS_BACKEND_AHCI | KFS_BACKEND_NVME

record 'd kfs =
  g_backend :: KfsBackend
  g_ops :: bool
  k_vfs :: "'d vfs"
  k_fat :: "'d fat32"
  k_ext2 :: "'d ext2"
  g_kfs_mount_scratch :: VfsFileEntry

record PsRow =
  ps_pid :: nat
  ps_state :: u8
  ps_priority :: u8
  ps_ring :: u8
  ps_command :: cstring

text \<open>Ticks, timer frequency, and the scheduler's list of processes (\<open>None\<close> before it exists).\<close>

record kenv =
  env_ticks :: u32
  env_hz :: u32
  env_sched :: "(nat list \<times> (nat \<Rightarrow> PsRow option)) option"

definition on_fat :: "('d fat32 \<Rightarrow> ('r \<times> 'd fat32) option) \<Rightarrow> 'd kfs \<Rightarrow> ('r \<times> 'd kfs) option" where
  "on_fat f s = map_option (\<lambda>(r, g). (r, s\<lparr>k_fat := g, k_vfs := (k_vfs s)\<lparr>vfs_disk := fat_disk g\<rparr>\<rparr>))
     (f ((k_fat s)\<lparr>fat_disk := vfs_disk (k_vfs s)\<rparr>))"

definition on_ext2 :: "('d ext2 \<Rightarrow> 'r \<times> 'd ext2) \<Rightarrow> 'd kfs \<Rightarrow> 'r \<times> 'd kfs" where
  "on_ext2 f s = (case f ((k_ext2 s)\<lparr>e2_disk := vfs_disk (k_vfs s)\<rparr>) of
     (r, g) \<Rightarrow> (r, s\<lparr>k_ext2 := g, k_vfs := (k_vfs s)\<lparr>vfs_disk := e2_disk g\<rparr>\<rparr>))"

definition on_vfs :: "('d vfs \<Rightarrow> 'r \<times> 'd vfs) \<Rightarrow> 'd kfs \<Rightarrow> 'r \<times> 'd kfs" where
  "on_vfs f s = (case f (k_vfs s) of (r, v) \<Rightarrow> (r, s\<lparr>k_vfs := v\<rparr>))"

section \<open>Paths\<close>

definition pseudo_entry :: "cstring \<Rightarrow> u8 \<Rightarrow> VfsFileEntry" where
  "pseudo_entry name ty = empty_entry\<lparr>fe_filename := name @ replicate (VFS_MAX_FILENAME - length name) NUL, fe_type := ty\<rparr>"

definition KFS_NODE_PROC :: VfsFileEntry where "KFS_NODE_PROC = pseudo_entry ''/proc'' VFS_TYPE_DIRECTORY"
definition KFS_NODE_DEV :: VfsFileEntry where "KFS_NODE_DEV = pseudo_entry ''/dev'' VFS_TYPE_DIRECTORY"
definition KFS_NODE_PROC_UPTIME :: VfsFileEntry where "KFS_NODE_PROC_UPTIME = pseudo_entry ''/proc/uptime'' VFS_TYPE_REGULAR"
definition KFS_NODE_PROC_PS :: VfsFileEntry where "KFS_NODE_PROC_PS = pseudo_entry ''/proc/ps'' VFS_TYPE_REGULAR"
definition KFS_NODE_PROC_FS :: VfsFileEntry where "KFS_NODE_PROC_FS = pseudo_entry ''/proc/fs'' VFS_TYPE_REGULAR"
definition KFS_NODE_DEV_NULL :: VfsFileEntry where "KFS_NODE_DEV_NULL = pseudo_entry ''/dev/null'' VFS_TYPE_REGULAR"
definition KFS_NODE_DEV_ZERO :: VfsFileEntry where "KFS_NODE_DEV_ZERO = pseudo_entry ''/dev/zero'' VFS_TYPE_REGULAR"
definition KFS_NODE_MNT :: VfsFileEntry where "KFS_NODE_MNT = pseudo_entry ''/mnt'' VFS_TYPE_DIRECTORY"

definition KFS_MNT_FAT32 :: cstring where "KFS_MNT_FAT32 = ''/mnt/fat32''"
definition KFS_MNT_EXT2 :: cstring where "KFS_MNT_EXT2 = ''/mnt/ext2''"

fun kfs_mount_subpath :: "cstring \<Rightarrow> cstring \<Rightarrow> cstring option" where
  "kfs_mount_subpath [] [] = Some ''/''"
| "kfs_mount_subpath (c # path) [] = (if c = CHR ''/'' then Some (c # path) else None)"
| "kfs_mount_subpath [] (p # prefix) = None"
| "kfs_mount_subpath (c # path) (p # prefix) = (if c \<noteq> p then None else kfs_mount_subpath path prefix)"

fun kfs_strcmp :: "cstring \<Rightarrow> cstring \<Rightarrow> int" where
  "kfs_strcmp [] [] = 0"
| "kfs_strcmp (a # as) [] = int (of_char a)"
| "kfs_strcmp [] (b # bs) = - int (of_char b)"
| "kfs_strcmp (a # as) (b # bs) = (if a = b then kfs_strcmp as bs else int (of_char a) - int (of_char b))"

definition kfs_streq :: "cstring \<Rightarrow> cstring \<Rightarrow> bool" where
  "kfs_streq a b \<longleftrightarrow> kfs_strcmp a b = 0"

definition kfs_path_is_pseudo :: "cstring \<Rightarrow> bool" where
  "kfs_path_is_pseudo path \<longleftrightarrow> kfs_streq path ''/proc'' \<or> kfs_streq path ''/dev'' \<or> kfs_streq path ''/proc/uptime''
     \<or> kfs_streq path ''/proc/ps'' \<or> kfs_streq path ''/proc/fs'' \<or> kfs_streq path ''/dev/null''
     \<or> kfs_streq path ''/dev/zero'' \<or> kfs_streq path ''/mnt''"

definition kfs_find_pseudo :: "cstring \<Rightarrow> VfsFileEntry option" where
  "kfs_find_pseudo path =
     (if kfs_streq path ''/proc'' then Some KFS_NODE_PROC
      else if kfs_streq path ''/dev'' then Some KFS_NODE_DEV
      else if kfs_streq path ''/proc/uptime'' then Some KFS_NODE_PROC_UPTIME
      else if kfs_streq path ''/proc/ps'' then Some KFS_NODE_PROC_PS
      else if kfs_streq path ''/proc/fs'' then Some KFS_NODE_PROC_FS
      else if kfs_streq path ''/dev/null'' then Some KFS_NODE_DEV_NULL
      else if kfs_streq path ''/dev/zero'' then Some KFS_NODE_DEV_ZERO
      else if kfs_streq path ''/mnt'' then Some KFS_NODE_MNT
      else None)"

text \<open>
  The string builders: the text in \<open>dst\<close> up to \<open>pos\<close>, at most \<open>max - 1\<close> characters before the
  terminator. \<open>kfs_copy_str\<close> starts an empty one.
\<close>

definition kfs_copy_str :: "nat \<Rightarrow> cstring \<Rightarrow> cstring" where
  "kfs_copy_str mx src = take (mx - 1) src"

definition kfs_append_str :: "nat \<Rightarrow> cstring \<Rightarrow> cstring \<Rightarrow> cstring" where
  "kfs_append_str mx dst src = dst @ take (mx - 1 - length dst) src"

definition kfs_append_u64 :: "nat \<Rightarrow> cstring \<Rightarrow> u64 \<Rightarrow> cstring" where
  "kfs_append_u64 mx dst v =
     (let tmp = (if v = 0 then ''0'' else u64_digits 24 (unat v)) in dst @ take (mx - 1 - length dst) (rev tmp))"

section \<open>Pseudo files\<close>

text \<open>The common end of the three readers: copy at most \<open>max_len\<close> characters to the caller.\<close>

definition copy_text :: "cstring \<Rightarrow> bytes \<Rightarrow> nat \<Rightarrow> int \<times> bytes" where
  "copy_text out buf max_len =
     (let copy = (if length out > max_len then max_len else length out)
      in (int copy, blit buf 0 (map byte_of (take copy out))))"

definition kfs_read_proc_uptime :: "kenv \<Rightarrow> bytes \<Rightarrow> nat \<Rightarrow> int \<times> bytes" where
  "kfs_read_proc_uptime env buf max_len =
     (if max_len = 0 then (-1, buf)
      else let hz = (if env_hz env = 0 then 1 else ucast (env_hz env)) :: u64;
               ticks = ucast (env_ticks env) :: u64;
               secs = ticks div hz; rem = ticks mod hz; frac = (rem * 100) div hz;
               o1 = kfs_append_u64 96 [] secs;
               o2 = kfs_append_str 96 o1 ''.'';
               o3 = (if frac < 10 then kfs_append_str 96 o2 ''0'' else o2);
               o4 = kfs_append_u64 96 o3 frac;
               o5 = kfs_append_str 96 o4 [CHR 0x0A]
        in copy_text o5 buf max_len)"

definition kfs_ready :: "'d kfs \<Rightarrow> bool" where
  "kfs_ready s = g_ops s"

definition kfs_backend :: "'d kfs \<Rightarrow> KfsBackend" where
  "kfs_backend s = g_backend s"

definition kfs_backend_name :: "'d kfs \<Rightarrow> cstring" where
  "kfs_backend_name s = (case g_backend s of
      KFS_BACKEND_NVME \<Rightarrow> ''vernisfs-nvme'' | KFS_BACKEND_AHCI \<Rightarrow> ''vernisfs-ahci''
    | KFS_BACKEND_VERNISFS \<Rightarrow> ''vernisfs'' | KFS_BACKEND_NONE \<Rightarrow> ''none'')"

definition kfs_file_count :: "'d kfs \<Rightarrow> u16" where
  "kfs_file_count s = (if g_ops s then vfs_file_count (k_vfs s) else 0)"

definition kfs_read_proc_fs :: "'d kfs \<Rightarrow> bytes \<Rightarrow> nat \<Rightarrow> int \<times> bytes" where
  "kfs_read_proc_fs s buf max_len =
     (if max_len = 0 then (-1, buf)
      else let o1 = kfs_append_str 192 [] ''backend='';
               o2 = kfs_append_str 192 o1 (kfs_backend_name s);
               o3 = kfs_append_str 192 o2 (CHR 0x0A # ''ready='');
               o4 = kfs_append_u64 192 o3 (if kfs_ready s then 1 else 0);
               o5 = kfs_append_str 192 o4 (CHR 0x0A # ''files='');
               o6 = kfs_append_u64 192 o5 (ucast (kfs_file_count s));
               o7 = kfs_append_str 192 o6 [CHR 0x0A]
        in copy_text o7 buf max_len)"

definition ps_line :: "cstring \<Rightarrow> PsRow \<Rightarrow> cstring" where
  "ps_line o0 row =
     (let sp = '' ''; o1 = kfs_append_u64 4096 o0 (of_nat (ps_pid row));
          o2 = kfs_append_u64 4096 (kfs_append_str 4096 o1 sp) (ucast (ps_state row));
          o3 = kfs_append_u64 4096 (kfs_append_str 4096 o2 sp) (ucast (ps_priority row));
          o4 = kfs_append_u64 4096 (kfs_append_str 4096 o3 sp) (ucast (ps_ring row));
          o5 = kfs_append_str 4096 (kfs_append_str 4096 o4 sp) (ps_command row)
      in kfs_append_str 4096 o5 [CHR 0x0A])"

fun ps_rows :: "(nat \<Rightarrow> PsRow option) \<Rightarrow> nat list \<Rightarrow> cstring \<Rightarrow> cstring" where
  "ps_rows get [] out = out"
| "ps_rows get (pid # pids) out =
     (case get pid of
        None \<Rightarrow> ps_rows get pids out
      | Some row \<Rightarrow> let out1 = ps_line out row
          in if length out1 \<ge> 4096 - 64 then out1 else ps_rows get pids out1)"

definition kfs_read_proc_ps :: "kenv \<Rightarrow> bytes \<Rightarrow> nat \<Rightarrow> int \<times> bytes" where
  "kfs_read_proc_ps env buf max_len =
     (if max_len = 0 then (-1, buf)
      else let o1 = kfs_append_str 4096 [] (''PID STATE PRIO RING CMD'' @ [CHR 0x0A]);
               o2 = (case env_sched env of
                   None \<Rightarrow> kfs_append_str 4096 o1 (''(scheduler not ready)'' @ [CHR 0x0A])
                 | Some (pids, get) \<Rightarrow> ps_rows get (take 64 pids) o1)
        in copy_text o2 buf max_len)"

section \<open>Disk adapters and initialisation\<close>

text \<open>
  The AHCI and NVMe drivers as the adapters call them: \<open>rd lba sectors buf\<close> and \<open>wr lba sectors data\<close>
  on the driver state, with 64-bit sector numbers. The adapters split a request into at most eight
  sectors at a time.
\<close>

type_synonym 'd drv_read = "u64 \<Rightarrow> nat \<Rightarrow> bytes \<Rightarrow> 'd \<Rightarrow> (int \<times> bytes) \<times> 'd"
type_synonym 'd drv_write = "u64 \<Rightarrow> nat \<Rightarrow> bytes \<Rightarrow> 'd \<Rightarrow> int \<times> 'd"

function chunk_read :: "'d drv_read \<Rightarrow> u32 \<Rightarrow> nat \<Rightarrow> nat \<Rightarrow> bytes \<Rightarrow> 'd \<Rightarrow> (bool \<times> bytes) \<times> 'd" where
  "chunk_read rd lba count pos buf d =
     (if pos < count then
        let n = (if count - pos > 8 then 8 else count - pos);
            r = rd (ucast lba + of_nat pos) n (take (n * 512) (drop (pos * 512) buf)) d;
            buf1 = blit buf (pos * 512) (snd (fst r))
        in if fst (fst r) < 0 then ((False, buf1), snd r) else chunk_read rd lba count (pos + n) buf1 (snd r)
      else ((True, buf), d))"
  by pat_completeness auto
termination
  by (relation "measure (\<lambda>(rd, lba, count, pos, buf, d). count - pos)") auto

function chunk_write :: "'d drv_write \<Rightarrow> u32 \<Rightarrow> nat \<Rightarrow> nat \<Rightarrow> bytes \<Rightarrow> 'd \<Rightarrow> bool \<times> 'd" where
  "chunk_write wr lba count pos data d =
     (if pos < count then
        let n = (if count - pos > 8 then 8 else count - pos);
            r = wr (ucast lba + of_nat pos) n (take (n * 512) (drop (pos * 512) data)) d
        in if fst r < 0 then (False, snd r) else chunk_write wr lba count (pos + n) data (snd r)
      else (True, d))"
  by pat_completeness auto
termination
  by (relation "measure (\<lambda>(wr, lba, count, pos, data, d). count - pos)") auto

declare chunk_read.simps [simp del] chunk_write.simps [simp del]

definition nvme_sector_read :: "'d drv_read \<Rightarrow> u32 \<Rightarrow> u8 \<Rightarrow> bytes \<Rightarrow> 'd \<Rightarrow> (int \<times> bytes) \<times> 'd" where
  "nvme_sector_read rd lba count buf d =
     (case chunk_read rd lba (unat count) 0 buf d of ((ok, buf1), d1) \<Rightarrow> ((if ok then int (unat count) else -1, buf1), d1))"

definition nvme_sector_write :: "'d drv_write \<Rightarrow> u32 \<Rightarrow> u8 \<Rightarrow> bytes \<Rightarrow> 'd \<Rightarrow> int \<times> 'd" where
  "nvme_sector_write wr lba count data d =
     (case chunk_write wr lba (unat count) 0 data d of (ok, d1) \<Rightarrow> (if ok then int (unat count) else -1, d1))"

definition ahci_sector_read :: "int \<Rightarrow> (int \<Rightarrow> 'd drv_read) \<Rightarrow> u32 \<Rightarrow> u8 \<Rightarrow> bytes \<Rightarrow> 'd \<Rightarrow> (int \<times> bytes) \<times> 'd" where
  "ahci_sector_read port rd lba count buf d =
     (if port < 0 then ((-1, buf), d)
      else case chunk_read (rd port) lba (unat count) 0 buf d of
        ((ok, buf1), d1) \<Rightarrow> ((if ok then int (unat count) else -1, buf1), d1))"

definition ahci_sector_write :: "int \<Rightarrow> (int \<Rightarrow> 'd drv_write) \<Rightarrow> u32 \<Rightarrow> u8 \<Rightarrow> bytes \<Rightarrow> 'd \<Rightarrow> int \<times> 'd" where
  "ahci_sector_write port wr lba count data d =
     (if port < 0 then (-1, d)
      else case chunk_write (wr port) lba (unat count) 0 data d of
        (ok, d1) \<Rightarrow> (if ok then int (unat count) else -1, d1))"

text \<open>What the controllers report and their drivers; \<open>ata\<close> are the default disk operations.\<close>

record 'd kfs_hw =
  nvme_available :: bool
  nvme_identified :: bool
  ahci_available :: bool
  ahci_pi :: u32
  ahci_identified :: "nat \<Rightarrow> bool"
  nvme_rd :: "'d drv_read"
  nvme_wr :: "'d drv_write"
  ahci_rd :: "int \<Rightarrow> 'd drv_read"
  ahci_wr :: "int \<Rightarrow> 'd drv_write"
  ata :: "'d disk_ops"

definition kfs_try_ahci :: "'d kfs_hw \<Rightarrow> nat option" where
  "kfs_try_ahci hw =
     (if \<not> ahci_available hw then None
      else find_slot (\<lambda>p. bit (ahci_pi hw) p \<and> ahci_identified hw p) [0..<32])"

definition kfs_try_nvme :: "'d kfs_hw \<Rightarrow> bool" where
  "kfs_try_nvme hw \<longleftrightarrow> nvme_available hw \<and> nvme_identified hw"

definition kfs_select :: "'d kfs_hw \<Rightarrow> KfsBackend \<times> 'd disk_ops" where
  "kfs_select hw =
     (if kfs_try_nvme hw
      then (KFS_BACKEND_NVME, \<lparr>disk_read = nvme_sector_read (nvme_rd hw), disk_write = nvme_sector_write (nvme_wr hw)\<rparr>)
      else case kfs_try_ahci hw of
        Some p \<Rightarrow> (KFS_BACKEND_AHCI, \<lparr>disk_read = ahci_sector_read (int p) (ahci_rd hw), disk_write = ahci_sector_write (int p) (ahci_wr hw)\<rparr>)
      | None \<Rightarrow> (KFS_BACKEND_VERNISFS, ata hw))"

definition kfs_init :: "'d kfs_hw \<Rightarrow> 'd kfs \<Rightarrow> bool \<times> 'd kfs" where
  "kfs_init hw s =
     (case kfs_select hw of (backend, ops) \<Rightarrow>
        case vfs_init ops (k_vfs s) of (ok, v) \<Rightarrow>
          if ok then (True, s\<lparr>k_vfs := v, g_backend := backend, g_ops := True\<rparr>)
          else (False, s\<lparr>k_vfs := v, g_backend := KFS_BACKEND_NONE, g_ops := False\<rparr>))"

definition kfs_mount_extra_volumes :: "'d disk_ops \<Rightarrow> 'd kfs \<Rightarrow> 'd kfs" where
  "kfs_mount_extra_volumes ops s =
     (let s1 = (case fat32_mount ops 8192 ((k_fat s)\<lparr>fat_disk := vfs_disk (k_vfs s)\<rparr>) of
            (rc, g) \<Rightarrow> s\<lparr>k_fat := g, k_vfs := (k_vfs s)\<lparr>vfs_disk := fat_disk g\<rparr>\<rparr>)
      in snd (on_ext2 (ext2_mount ops 81920) s1))"

section \<open>Files\<close>

text \<open>
  \<open>kfs_find_mounted\<close> answers through the scratch entry: the result is that entry, or \<open>None\<close>.
\<close>

definition mounted_entry :: "cstring \<Rightarrow> u32 \<Rightarrow> bool \<Rightarrow> VfsFileEntry \<Rightarrow> VfsFileEntry" where
  "mounted_entry path sz is_dir e = e\<lparr>fe_filename := c_strlcpy (fe_filename e) path VFS_MAX_FILENAME,
     fe_start_sector := 0, fe_size := sz, fe_type := (if is_dir then VFS_TYPE_DIRECTORY else VFS_TYPE_REGULAR),
     fe_flags := 0, fe_mode := 0, fe_uid := 0, fe_gid := 0\<rparr>"

definition kfs_find_mounted :: "'d disk_ops \<Rightarrow> cstring \<Rightarrow> 'd kfs \<Rightarrow> (VfsFileEntry option \<times> 'd kfs) option" where
  "kfs_find_mounted ops path s =
     (let answer = (\<lambda>(st, s1).
         case st of
           None \<Rightarrow> (None, s1)
         | Some (sz, is_dir) \<Rightarrow>
             let e = mounted_entry path sz is_dir (g_kfs_mount_scratch s1) in (Some e, s1\<lparr>g_kfs_mount_scratch := e\<rparr>))
      in case kfs_mount_subpath path KFS_MNT_FAT32 of
        Some sp \<Rightarrow> map_option answer (on_fat (fat32_stat ops sp) s)
      | None \<Rightarrow>
          (case kfs_mount_subpath path KFS_MNT_EXT2 of
             None \<Rightarrow> Some (None, s)
           | Some sp \<Rightarrow> Some (answer (on_ext2 (ext2_stat ops sp) s))))"

definition kfs_find_file :: "'d disk_ops \<Rightarrow> cstring \<Rightarrow> 'd kfs \<Rightarrow> (VfsFileEntry option \<times> 'd kfs) option" where
  "kfs_find_file ops path s =
     map_option (\<lambda>(mounted, s1).
       (case mounted of
          Some e \<Rightarrow> Some e
        | None \<Rightarrow> (case kfs_find_pseudo path of
            Some e \<Rightarrow> Some e
          | None \<Rightarrow> if g_ops s1 then map_option (\<lambda>i. g_filetable (k_vfs s1) ! i) (vfs_find_file path (k_vfs s1)) else None), s1))
     (kfs_find_mounted ops path s)"

definition kfs_read_file :: "'d disk_ops \<Rightarrow> kenv \<Rightarrow> cstring option \<Rightarrow> bytes \<Rightarrow> nat \<Rightarrow> 'd kfs \<Rightarrow> ((int \<times> bytes) \<times> 'd kfs) option" where
  "kfs_read_file ops env path_ptr buf max_len s =
     (case path_ptr of
        None \<Rightarrow> Some ((-1, buf), s)
      | Some path \<Rightarrow>
          if kfs_streq path ''/dev/null'' then Some ((0, buf), s)
          else if kfs_streq path ''/dev/zero'' then Some ((sint (of_nat max_len :: u32), blit buf 0 (replicate max_len 0)), s)
          else if kfs_streq path ''/proc/uptime'' then Some (kfs_read_proc_uptime env buf max_len, s)
          else if kfs_streq path ''/proc/ps'' then Some (kfs_read_proc_ps env buf max_len, s)
          else if kfs_streq path ''/proc/fs'' then Some (kfs_read_proc_fs s buf max_len, s)
          else if kfs_streq path ''/proc'' \<or> kfs_streq path ''/dev'' then Some ((-1, buf), s)
          else case kfs_mount_subpath path KFS_MNT_FAT32 of
            Some sp \<Rightarrow> on_fat (fat32_read ops sp buf (of_nat max_len)) s
          | None \<Rightarrow>
              (case kfs_mount_subpath path KFS_MNT_EXT2 of
                 Some sp \<Rightarrow> Some (on_ext2 (ext2_read ops sp buf (of_nat max_len)) s)
               | None \<Rightarrow> if g_ops s then Some (on_vfs (vfs_read_file ops path buf max_len) s) else Some ((-1, buf), s)))"

text \<open>The guards that every operation that changes files has in common.\<close>

definition kfs_is_device :: "cstring \<Rightarrow> bool" where
  "kfs_is_device path \<longleftrightarrow> kfs_streq path ''/dev/null'' \<or> kfs_streq path ''/dev/zero''"

definition kfs_read_only :: "cstring \<Rightarrow> bool" where
  "kfs_read_only path \<longleftrightarrow> kfs_path_is_pseudo path
     \<or> kfs_mount_subpath path KFS_MNT_FAT32 \<noteq> None \<or> kfs_mount_subpath path KFS_MNT_EXT2 \<noteq> None"

definition kfs_write_file :: "'d disk_ops \<Rightarrow> cstring option \<Rightarrow> bytes \<Rightarrow> nat \<Rightarrow> 'd kfs \<Rightarrow> int \<times> 'd kfs" where
  "kfs_write_file ops path_ptr data len s =
     (case path_ptr of
        None \<Rightarrow> (-1, s)
      | Some path \<Rightarrow>
          if kfs_is_device path then (sint (of_nat len :: u32), s)
          else if kfs_read_only path then (-1, s)
          else if g_ops s then on_vfs (vfs_write_file ops path data len) s else (-1, s))"

definition kfs_append_file :: "'d disk_ops \<Rightarrow> bytes \<Rightarrow> cstring option \<Rightarrow> bytes \<Rightarrow> nat \<Rightarrow> 'd kfs \<Rightarrow> int option \<times> 'd kfs" where
  "kfs_append_file ops tmp path_ptr data len s =
     (case path_ptr of
        None \<Rightarrow> (Some (-1), s)
      | Some path \<Rightarrow>
          if kfs_is_device path then (Some (sint (of_nat len :: u32)), s)
          else if kfs_read_only path then (Some (-1), s)
          else if g_ops s then on_vfs (vfs_append_file ops tmp path data len) s else (Some (-1), s))"

definition kfs_mkdir :: "'d disk_ops \<Rightarrow> cstring \<Rightarrow> 'd kfs \<Rightarrow> int \<times> 'd kfs" where
  "kfs_mkdir ops path s =
     (if kfs_read_only path then (-1, s) else if g_ops s then on_vfs (vfs_mkdir ops path) s else (-1, s))"

definition kfs_delete_file :: "'d disk_ops \<Rightarrow> cstring \<Rightarrow> 'd kfs \<Rightarrow> int \<times> 'd kfs" where
  "kfs_delete_file ops path s =
     (if kfs_read_only path then (-1, s) else if g_ops s then on_vfs (vfs_delete_file ops path) s else (-1, s))"

section \<open>Directories\<close>

text \<open>The names stored in \<open>out\<close>, at most \<open>max\<close>; the callback of a mounted volume's listing.\<close>

definition kfs_mount_list_cb :: "nat \<Rightarrow> cstring \<Rightarrow> list_cb \<Rightarrow> cstring list \<Rightarrow> cstring list" where
  "kfs_mount_list_cb mx dir_path call out =
     (if length out \<ge> mx then out
      else let full1 = kfs_copy_str VFS_MAX_FILENAME dir_path;
               full2 = kfs_append_str VFS_MAX_FILENAME full1 ''/'';
               full3 = kfs_append_str VFS_MAX_FILENAME full2 (fst call)
        in out @ [kfs_copy_str VFS_MAX_FILENAME full3])"

definition kfs_list_mounted :: "'d disk_ops \<Rightarrow> cstring \<Rightarrow> nat \<Rightarrow> 'd kfs \<Rightarrow> ((int \<times> cstring list) \<times> 'd kfs) option" where
  "kfs_list_mounted ops dir_path mx s =
     (let answer = (\<lambda>((rc, calls), s1).
         let out = fold (kfs_mount_list_cb mx dir_path) calls [] in ((if rc < 0 then -1 else int (length out), out), s1))
      in case kfs_mount_subpath dir_path KFS_MNT_FAT32 of
        Some sp \<Rightarrow> map_option answer (on_fat (fat32_list ops sp) s)
      | None \<Rightarrow>
          (case kfs_mount_subpath dir_path KFS_MNT_EXT2 of
             Some sp \<Rightarrow> Some (answer (on_ext2 (ext2_list ops sp) s))
           | None \<Rightarrow> Some ((-2, []), s)))"

definition kfs_list_dir_add :: "nat \<Rightarrow> cstring \<Rightarrow> cstring list \<Rightarrow> cstring list" where
  "kfs_list_dir_add mx path out = (if length out \<ge> mx then out else out @ [kfs_copy_str VFS_MAX_FILENAME path])"

definition kfs_list_dir :: "'d disk_ops \<Rightarrow> cstring option \<Rightarrow> int \<Rightarrow> 'd kfs \<Rightarrow> ((int \<times> cstring list) \<times> 'd kfs) option" where
  "kfs_list_dir ops dir_ptr mx s =
     (case dir_ptr of
        None \<Rightarrow> Some ((-1, []), s)
      | Some dir_path \<Rightarrow>
          if mx \<le> 0 then Some ((-1, []), s)
          else map_option (\<lambda>((mounted, out), s1).
            if mounted \<noteq> -2 then ((if mounted < 0 then -1 else mounted, out), s1)
            else let base = (if g_ops s1 then (case vfs_list_dir dir_path mx (k_vfs s1) of None \<Rightarrow> [] | Some ns \<Rightarrow> map cstr ns) else []);
                     extra = (if kfs_streq dir_path ''/'' then [''/proc'', ''/dev'', ''/mnt'']
                        else if kfs_streq dir_path ''/proc'' then [''/proc/uptime'', ''/proc/ps'', ''/proc/fs'']
                        else if kfs_streq dir_path ''/dev'' then [''/dev/null'', ''/dev/zero'']
                        else if kfs_streq dir_path ''/mnt'' then [''/mnt/fat32'', ''/mnt/ext2''] else []);
                     res = fold (kfs_list_dir_add (nat mx)) extra base
              in ((int (length res), res), s1))
          (kfs_list_mounted ops dir_path (nat mx) s))"

section \<open>Permissions\<close>

definition kfs_chmod :: "'d disk_ops \<Rightarrow> cstring option \<Rightarrow> u16 \<Rightarrow> 'd kfs \<Rightarrow> int \<times> 'd kfs" where
  "kfs_chmod ops path_ptr mode s =
     (case path_ptr of None \<Rightarrow> (-1, s)
      | Some path \<Rightarrow> if kfs_path_is_pseudo path then (-1, s) else on_vfs (vfs_chmod ops path mode) s)"

definition kfs_chown :: "'d disk_ops \<Rightarrow> cstring option \<Rightarrow> u16 \<Rightarrow> u16 \<Rightarrow> 'd kfs \<Rightarrow> int \<times> 'd kfs" where
  "kfs_chown ops path_ptr uid gid s =
     (case path_ptr of None \<Rightarrow> (-1, s)
      | Some path \<Rightarrow> if kfs_path_is_pseudo path then (-1, s) else on_vfs (vfs_chown ops path uid gid) s)"

definition perm_result :: "VfsFileEntry \<Rightarrow> u16 \<Rightarrow> char \<Rightarrow> int" where
  "perm_result entry uid op1 =
     (let mode = fe_mode entry in
      if mode = 0 then 0
      else let bits = (if uid = fe_uid entry then drop_bit 6 mode AND 7
                 else if uid = fe_gid entry then drop_bit 3 mode AND 7 else mode AND 7)
        in if op1 = CHR ''r'' then (if bits AND 4 \<noteq> 0 then 0 else -1)
           else if op1 = CHR ''w'' then (if bits AND 2 \<noteq> 0 then 0 else -1)
           else if op1 = CHR ''x'' then (if bits AND 1 \<noteq> 0 then 0 else -1)
           else -1)"

definition kfs_check_perm :: "'d disk_ops \<Rightarrow> cstring option \<Rightarrow> u16 \<Rightarrow> char \<Rightarrow> 'd kfs \<Rightarrow> (int \<times> 'd kfs) option" where
  "kfs_check_perm ops path_ptr uid op1 s =
     (case path_ptr of
        None \<Rightarrow> Some (-1, s)
      | Some path \<Rightarrow>
          if uid = 0 then Some (0, s)
          else map_option (\<lambda>(entry, s1).
            (case entry of None \<Rightarrow> -1 | Some e \<Rightarrow> perm_result e uid op1, s1)) (kfs_find_file ops path s))"

section \<open>Routing\<close>

lemma kfs_strcmp_eq: "NUL \<notin> set a \<Longrightarrow> NUL \<notin> set b \<Longrightarrow> kfs_strcmp a b = 0 \<longleftrightarrow> a = b"
proof (induction a b rule: kfs_strcmp.induct)
  case (2 a as)
  then show ?case using of_char_eq_0_iff [of a] by auto
next
  case (3 b bs)
  then show ?case using of_char_eq_0_iff [of b] by auto
qed auto

lemma kfs_streq_iff: "NUL \<notin> set a \<Longrightarrow> NUL \<notin> set b \<Longrightarrow> kfs_streq a b \<longleftrightarrow> a = b"
  by (simp add: kfs_streq_def kfs_strcmp_eq)

lemma kfs_mount_subpath_iff:
  "kfs_mount_subpath path prefix = Some sp \<longleftrightarrow> (path = prefix \<and> sp = ''/'') \<or> (\<exists>r. path = prefix @ CHR ''/'' # r \<and> sp = CHR ''/'' # r)"
  by (induction path prefix rule: kfs_mount_subpath.induct) auto

lemma not_read_only:
  assumes "\<not> kfs_read_only path"
  shows "kfs_mount_subpath path KFS_MNT_FAT32 = None" "kfs_mount_subpath path KFS_MNT_EXT2 = None" "\<not> kfs_path_is_pseudo path"
    "\<not> kfs_is_device path" "kfs_find_pseudo path = None" "kfs_find_mounted ops path s = Some (None, s)"
  using assms by (auto simp: kfs_read_only_def kfs_path_is_pseudo_def kfs_is_device_def kfs_find_pseudo_def kfs_find_mounted_def Let_def)

lemma plain_paths:
  assumes "\<not> kfs_read_only path"
  shows "kfs_read_file ops env (Some path) buf max_len s =
      Some (if g_ops s then on_vfs (vfs_read_file ops path buf max_len) s else ((-1, buf), s))"
    "kfs_write_file ops (Some path) data len s = (if g_ops s then on_vfs (vfs_write_file ops path data len) s else (-1, s))"
    "kfs_find_file ops path s = Some (if g_ops s then map_option (\<lambda>i. g_filetable (k_vfs s) ! i) (vfs_find_file path (k_vfs s)) else None, s)"
  using not_read_only(3) [OF assms]
  by (auto simp: kfs_read_file_def kfs_write_file_def kfs_find_file_def kfs_path_is_pseudo_def assms not_read_only [OF assms])

lemma on_vfs_eq: "on_vfs f s = (r, s1) \<longleftrightarrow> (\<exists>v. f (k_vfs s) = (r, v) \<and> s1 = s\<lparr>k_vfs := v\<rparr>)"
  by (auto simp: on_vfs_def split: prod.splits)

text \<open>On a device without faults a plain path is written and read back in full.\<close>

lemma plain_file_roundtrip:
  assumes dev: "flawless_device ops dinv view" and inv: "dinv (vfs_disk (k_vfs s))"
    and fs: "vfs_wf (k_vfs s)" "vfs_layout (k_vfs s)" "g_vfs_ready (k_vfs s)" "g_ops s"
    and slot: "vfs_find_file path (k_vfs s) \<noteq> None \<or> find_slot (\<lambda>e. fe_type e = VFS_TYPE_EMPTY) (g_filetable (k_vfs s)) \<noteq> None"
    and path: "\<not> kfs_read_only path" "length (cstr path) < VFS_MAX_FILENAME"
    and len: "len \<le> length data" "sectors_for len \<le> 255" "len \<le> max_len" "sectors_for len * SECTOR_SIZE \<le> length buf"
  shows "\<exists>s1 buf' s2. kfs_write_file ops (Some path) data len s = (int len, s1)
    \<and> kfs_read_file ops env (Some path) buf max_len s1 = Some ((int len, buf'), s2) \<and> take len buf' = take len data"
proof -
  have bd: "reliable_device ops dinv view" "block_device ops dinv view"
    using dev by (simp_all add: flawless_device_def reliable_device_def)
  have "len \<le> 255 * 512" using sectors_for_le(1) [of len] len(2) by linarith
  then have small: "len < 2 ^ 31" by simp
  obtain r v1 where w: "vfs_write_file ops path data len (k_vfs s) = (r, v1)" by fastforce
  have "vfs_write_slot path (k_vfs s) \<noteq> None"
    using slot fs(3) by (auto simp: vfs_write_slot_def vfs_find_file_def split: option.splits)
  then have r: "r = int len"
    using reliable_device.write_file_succeeds [OF bd(1) inv fs(1,3) _ len(1,2)] w by (metis fst_conv)
  then have pos: "0 \<le> r" by simp
  obtain i where f: "vfs_find_file path v1 = Some i" "unat (fe_size (g_filetable v1 ! i)) = len" "dinv (vfs_disk v1)"
    using block_device.write_file_found [OF bd(2) inv fs(1) len(1) small path(2) w pos] by metis
  obtain r' buf' v2 where rd: "vfs_read_file ops path buf max_len v1 = ((r', buf'), v2)" by (metis prod.collapse)
  have "0 \<le> r'" using flawless_device.read_file_succeeds [OF dev f(3,1) f(2) [symmetric] len(3,2,4)] rd by simp
  then have "r' = int len \<and> take len buf' = take len data"
    using written_file_reads_back [OF bd(2) inv fs(1,2) len(1) small path(2) w pos rd _ len(3,4)] by simp
  with w r rd fs(4) show ?thesis by (auto simp: plain_paths [OF path(1)] on_vfs_def)
qed

text \<open>A file that did not exist belongs to root and has the default mode.\<close>

lemma plain_new_file:
  assumes bd: "block_device ops dinv view" and inv: "dinv (vfs_disk (k_vfs s))" and wf: "vfs_wf (k_vfs s)"
    and fresh: "vfs_find_file path (k_vfs s) = None" and path: "\<not> kfs_read_only path" "length (cstr path) < VFS_MAX_FILENAME"
    and len: "len \<le> length data" "len < 2 ^ 31" and wr: "kfs_write_file ops (Some path) data len s = (int len, s1)"
  obtains e where "kfs_find_file ops path s1 = Some (Some e, s1)" "fe_mode e = VFS_MODE_DEFAULT_FILE" "fe_uid e = 0" "fe_gid e = 0"
proof -
  obtain v where v: "vfs_write_file ops path data len (k_vfs s) = (int len, v)" "s1 = s\<lparr>k_vfs := v\<rparr>" "g_ops s"
    using wr by (auto simp: plain_paths [OF path(1)] on_vfs_eq split: if_splits)
  then have "g_vfs_ready (k_vfs s)" by (auto simp: vfs_write_file_def split: if_splits)
  with fresh have none: "find_slot (file_named path) (g_filetable (k_vfs s)) = None"
    by (auto simp: vfs_find_file_def split: if_splits)
  obtain i t e where w: "vfs_write_slot path (k_vfs s) = Some (i, t)" "e = (g_filetable t ! i)\<lparr>fe_size := of_nat len\<rparr>"
    "g_filetable v = (g_filetable t)[i := e]"
    using block_device.write_file_effect [OF bd inv wf len v(1)] by (metis of_nat_0_le_iff)
  obtain j where j: "vfs_find_file path v = Some j" "vfs_write_slot path (k_vfs s) = Some (j, t)"
    using block_device.write_file_found [OF bd inv wf len path(2) v(1)] w(1) by (metis of_nat_0_le_iff option.inject prod.inject)
  have i: "i < length (g_filetable t)"
    using vfs_write_slot_facts(1,2) [OF w(1) wf] by (simp add: vfs_wf_def)
  have "g_filetable v ! j = e" using j(2) w(1,3) i by simp
  moreover have "fe_mode e = 420 \<and> fe_uid e = 0 \<and> fe_gid e = 0"
    using w(1,2) none i by (auto simp: vfs_write_slot_def split: option.splits)
  ultimately show ?thesis using that j(1) v(2,3) by (simp add: plain_paths [OF path(1)])
qed

section \<open>Permissions against the octal mode\<close>

text \<open>The bit of the mode that decides: three per class, owner first.\<close>

definition perm_bit :: "char \<Rightarrow> nat option" where
  "perm_bit op1 = (if op1 = CHR ''r'' then Some 2 else if op1 = CHR ''w'' then Some 1 else if op1 = CHR ''x'' then Some 0 else None)"

definition perm_class :: "VfsFileEntry \<Rightarrow> u16 \<Rightarrow> nat" where
  "perm_class e uid = (if uid = fe_uid e then 6 else if uid = fe_gid e then 3 else 0)"

definition mode_allows :: "VfsFileEntry \<Rightarrow> u16 \<Rightarrow> char \<Rightarrow> bool" where
  "mode_allows e uid op1 \<longleftrightarrow> fe_mode e = 0 \<or> (case perm_bit op1 of None \<Rightarrow> False | Some b \<Rightarrow> bit (fe_mode e) (perm_class e uid + b))"

lemma and_single_bit: "(w :: u16) AND 4 \<noteq> 0 \<longleftrightarrow> bit w 2" "w AND 2 \<noteq> 0 \<longleftrightarrow> bit w 1" "w AND 1 \<noteq> 0 \<longleftrightarrow> bit w 0"
  using bit_iff_and_push_bit_not_eq_0 [of w 2] bit_iff_and_push_bit_not_eq_0 [of w 1] bit_iff_and_push_bit_not_eq_0 [of w 0] by simp_all

lemma bit_7: "bit (7 :: u16) k \<longleftrightarrow> k < 3"
proof -
  have m: "(7 :: u16) = mask 3" by (simp add: mask_numeral)
  show ?thesis unfolding m by (auto simp: bit_mask_iff)
qed

lemma perm_result_allows: "perm_result e uid op1 = (if mode_allows e uid op1 then 0 else -1)"
proof -
  define bits where "bits = (if uid = fe_uid e then drop_bit 6 (fe_mode e) AND 7
                 else if uid = fe_gid e then drop_bit 3 (fe_mode e) AND 7 else fe_mode e AND 7)"
  have "bit bits k = bit (fe_mode e) (perm_class e uid + k)" if "k < 3" for k
    using that bit_7 [of k] by (simp add: bits_def perm_class_def bit_and_iff bit_drop_bit_eq)
  then have "bit bits 2 = bit (fe_mode e) (perm_class e uid + 2)" "bit bits 1 = bit (fe_mode e) (perm_class e uid + 1)"
    "bit bits 0 = bit (fe_mode e) (perm_class e uid + 0)" by simp_all
  then show ?thesis
    unfolding perm_result_def Let_def bits_def [symmetric] and_single_bit mode_allows_def perm_bit_def by simp
qed

lemma flush_table:
  "g_filetable (snd (vfs_flush_metadata ops s)) = g_filetable s" "g_vfs_ready (snd (vfs_flush_metadata ops s)) = g_vfs_ready s"
  by (auto simp: vfs_flush_metadata_def Let_def split: prod.splits)

section \<open>The adapters\<close>

text \<open>
  What the controller drivers promise for at most eight sectors, over a view of the medium with 64-bit
  sector numbers.
\<close>

type_synonym medium64 = "u64 \<Rightarrow> bytes"

definition sectors64 :: "medium64 \<Rightarrow> u64 \<Rightarrow> nat \<Rightarrow> bytes" where
  "sectors64 v a n = concat (map (\<lambda>i. v (a + of_nat i)) [0..<n])"

definition medium_write64 :: "u64 \<Rightarrow> nat \<Rightarrow> bytes \<Rightarrow> medium64 \<Rightarrow> medium64" where
  "medium_write64 a n data v = (\<lambda>x. if unat (x - a) < n then chunk data (unat (x - a)) else v x)"

definition drv_reads :: "('d \<Rightarrow> bool) \<Rightarrow> ('d \<Rightarrow> medium64) \<Rightarrow> 'd drv_read \<Rightarrow> bool" where
  "drv_reads dinv view rd \<longleftrightarrow> (\<forall>a n buf d. dinv d \<longrightarrow> n \<le> 8 \<longrightarrow> length buf = n * 512 \<longrightarrow>
     (case rd a n buf d of ((rc, buf'), d') \<Rightarrow> dinv d' \<and> view d' = view d \<and> length buf' = n * 512
        \<and> (0 \<le> rc \<longrightarrow> buf' = sectors64 (view d) a n)))"

definition drv_writes :: "('d \<Rightarrow> bool) \<Rightarrow> ('d \<Rightarrow> medium64) \<Rightarrow> 'd drv_write \<Rightarrow> bool" where
  "drv_writes dinv view wr \<longleftrightarrow> (\<forall>a n data d. dinv d \<longrightarrow> n \<le> 8 \<longrightarrow> length data = n * 512 \<longrightarrow>
     (case wr a n data d of (rc, d') \<Rightarrow> dinv d' \<and> (0 \<le> rc \<longrightarrow> view d' = medium_write64 a n data (view d))))"

lemma drv_readsD:
  assumes "drv_reads dinv view rd" "dinv d" "n \<le> 8" "length buf = n * 512" "rd a n buf d = ((rc, buf'), d')"
  shows "dinv d'" "view d' = view d" "length buf' = n * 512" "0 \<le> rc \<Longrightarrow> buf' = sectors64 (view d) a n"
  using assms(1) [unfolded drv_reads_def, rule_format, OF assms(2-4), of a] assms(5) by simp_all

lemma drv_writesD:
  assumes "drv_writes dinv view wr" "dinv d" "n \<le> 8" "length data = n * 512" "wr a n data d = (rc, d')"
  shows "dinv d'" "0 \<le> rc \<Longrightarrow> view d' = medium_write64 a n data (view d)"
  using assms(1) [unfolded drv_writes_def, rule_format, OF assms(2-4), of a] assms(5) by simp_all

lemma sectors64_append: "sectors64 v a (m + n) = sectors64 v a m @ sectors64 v (a + of_nat m) n"
  by (induction n) (simp_all add: sectors64_def add.assoc)

lemma length_sectors64: "(\<And>x. length (v x) = 512) \<Longrightarrow> length (sectors64 v a n) = n * 512"
  by (induction n) (simp_all add: sectors64_def)

lemma chunk_read_result:
  assumes rd: "drv_reads dinv view rd"
    and "dinv d" "pos \<le> count" "length buf = count * 512"
    and "take (pos * 512) buf = sectors64 (view d) (ucast lba) pos" "chunk_read rd lba count pos buf d = ((ok, buf'), d')"
  shows "dinv d' \<and> view d' = view d \<and> (ok \<longrightarrow> buf' = sectors64 (view d) (ucast lba) count)"
  using assms(2-)
proof (induction "count - pos" arbitrary: pos buf d rule: less_induct)
  case less
  show ?case
  proof (cases "pos < count")
    case False
    then have "ok" "buf' = buf" "d' = d" "pos = count" using less.prems(2,5) by (simp_all add: chunk_read.simps [of rd])
    then show ?thesis using less.prems by simp
  next
    case True
    define n where "n = (if count - pos > 8 then 8 else count - pos)"
    have n: "n \<le> 8" "0 < n" "pos + n \<le> count" using True by (auto simp: n_def)
    obtain rc b1 d1 where r: "rd (ucast lba + of_nat pos) n (take (n * 512) (drop (pos * 512) buf)) d = ((rc, b1), d1)" by (metis surj_pair)
    have sz: "pos * 512 + n * 512 \<le> count * 512" using n(3) by (metis add_mult_distrib mult_le_mono1)
    then have "length (take (n * 512) (drop (pos * 512) buf)) = n * 512" using less.prems(3) by simp
    note d1 = drv_readsD [OF rd less.prems(1) n(1) this r]
    define buf1 where "buf1 = blit buf (pos * 512) b1"
    have step: "chunk_read rd lba count pos buf d = (if rc < 0 then ((False, buf1), d1) else chunk_read rd lba count (pos + n) buf1 d1)"
      using True r by (subst chunk_read.simps) (simp add: Let_def n_def [symmetric] buf1_def)
    show ?thesis
    proof (cases "rc < 0")
      case True
      then show ?thesis using less.prems(5) d1 step by simp
    next
      case False
      have lb: "length buf1 = count * 512" using less.prems(3) d1(3) sz by (simp add: buf1_def)
      have "take ((pos + n) * 512) buf1 = sectors64 (view d1) (ucast lba) (pos + n)"
        using take_blit_end [of "pos * 512" b1 buf] less.prems(3,4) d1 sz False
        by (simp add: buf1_def sectors64_append add_mult_distrib)
      then show ?thesis using less.hyps [of "pos + n" d1 buf1] less.prems(5) step False True n lb d1 by simp
    qed
  qed
qed

lemma chunk_part: "k < n \<Longrightarrow> chunk (take (n * 512) (drop (pos * 512) data)) k = chunk data (pos + k)"
proof -
  assume "k < n"
  then have "k * 512 + 512 \<le> n * 512" by simp
  then have "take 512 (drop (k * 512) (take (n * 512) (drop (pos * 512) data))) = take 512 (drop (k * 512) (drop (pos * 512) data))"
    by (simp add: drop_take min_def)
  then show ?thesis by (simp add: chunk_def add_mult_distrib add.commute)
qed

lemma medium_write64_append:
  assumes "pos + n \<le> 255"
  shows "medium_write64 (a + of_nat pos) n (take (n * 512) (drop (pos * 512) data)) (medium_write64 a pos data v) = medium_write64 a (pos + n) data v"
proof
  fix x :: u64
  define k where "k = unat (x - a)"
  have p: "unat (of_nat pos :: u64) = pos" using assms by (simp add: unat_of_nat)
  have x: "x - (a + of_nat pos) = (x - a) - of_nat pos" by simp
  show "medium_write64 (a + of_nat pos) n (take (n * 512) (drop (pos * 512) data)) (medium_write64 a pos data v) x = medium_write64 a (pos + n) data v x"
  proof (cases "pos \<le> k")
    case True
    then have "unat (x - (a + of_nat pos)) = k - pos" unfolding x k_def using p by (subst unat_sub) (simp_all add: word_le_nat_alt)
    moreover have "k - pos < n \<longleftrightarrow> k < pos + n" using True by linarith
    ultimately show ?thesis using True chunk_part [of "k - pos" n pos data]
      by (simp add: medium_write64_def k_def [symmetric])
  next
    case False
    have "\<not> unat ((x - a) - of_nat pos) < n"
    proof
      define j where "j = unat ((x - a) - of_nat pos)"
      assume "unat ((x - a) - of_nat pos) < n"
      then have j: "j < n" by (simp add: j_def)
      have "x - a = (of_nat (j + pos) :: u64)" by (simp add: j_def)
      then have "k = unat (of_nat (j + pos) :: u64)" by (simp add: k_def)
      then have "k = j + pos" unfolding unat_of_nat using j assms by simp
      then show False using False by simp
    qed
    then show ?thesis using False by (simp add: medium_write64_def k_def [symmetric] diff_diff_eq)
  qed
qed

lemma chunk_write_result:
  assumes wr: "drv_writes dinv view wr"
    and "dinv d" "pos \<le> count" "count \<le> 255" "length data = count * 512"
    and "view d = medium_write64 (ucast lba) pos data v" "chunk_write wr lba count pos data d = (ok, d')"
  shows "dinv d' \<and> (ok \<longrightarrow> view d' = medium_write64 (ucast lba) count data v)"
  using assms(2-)
proof (induction "count - pos" arbitrary: pos d rule: less_induct)
  case less
  show ?case
  proof (cases "pos < count")
    case False
    then have "ok" "d' = d" "pos = count" using less.prems(2,6) by (simp_all add: chunk_write.simps [of wr])
    then show ?thesis using less.prems by simp
  next
    case True
    define n where "n = (if count - pos > 8 then 8 else count - pos)"
    have n: "n \<le> 8" "0 < n" "pos + n \<le> count" using True by (auto simp: n_def)
    let ?part = "take (n * 512) (drop (pos * 512) data)"
    obtain rc d1 where r: "wr (ucast lba + of_nat pos) n ?part d = (rc, d1)" by (metis surj_pair)
    have "pos * 512 + n * 512 \<le> count * 512" using n(3) by (metis add_mult_distrib mult_le_mono1)
    then have "length ?part = n * 512" using less.prems(4) by simp
    note w1 = drv_writesD [OF wr less.prems(1) n(1) this r]
    have d1: "dinv d1" "0 \<le> rc \<Longrightarrow> view d1 = medium_write64 (ucast lba) (pos + n) data v"
      using w1 less.prems(3,5) n(3) medium_write64_append [of pos n "ucast lba" data v] by simp_all
    have step: "chunk_write wr lba count pos data d = (if rc < 0 then (False, d1) else chunk_write wr lba count (pos + n) data d1)"
      using True r by (subst chunk_write.simps) (simp add: Let_def n_def [symmetric])
    show ?thesis
    proof (cases "rc < 0")
      case True
      then show ?thesis using less.prems(6) d1 step by simp
    next
      case False
      then show ?thesis using less.hyps [of "pos + n" d1] less.prems step True n d1 by simp
    qed
  qed
qed

lemma adapter_result:
  assumes "drv_reads dinv view rd" "drv_writes dinv view wr"
    and d: "dinv d" "length buf = unat count * 512" "length data = unat count * 512"
  shows "case nvme_sector_read rd lba count buf d of ((rc, buf'), d') \<Rightarrow>
      dinv d' \<and> view d' = view d \<and> (0 \<le> rc \<longrightarrow> buf' = sectors64 (view d) (ucast lba) (unat count))"
    "case nvme_sector_write wr lba count data d of (rc, d') \<Rightarrow>
      dinv d' \<and> (0 \<le> rc \<longrightarrow> view d' = medium_write64 (ucast lba) (unat count) data (view d))"
proof -
  obtain ok buf' d' where r: "chunk_read rd lba (unat count) 0 buf d = ((ok, buf'), d')" by (metis surj_pair)
  have "dinv d' \<and> view d' = view d \<and> (ok \<longrightarrow> buf' = sectors64 (view d) (ucast lba) (unat count))"
    by (rule chunk_read_result [OF assms(1) d(1) _ d(2) _ r]) (simp_all add: sectors64_def)
  then show "case nvme_sector_read rd lba count buf d of ((rc, buf'), d') \<Rightarrow>
      dinv d' \<and> view d' = view d \<and> (0 \<le> rc \<longrightarrow> buf' = sectors64 (view d) (ucast lba) (unat count))"
    by (simp add: nvme_sector_read_def r)
  obtain ok' d'' where w: "chunk_write wr lba (unat count) 0 data d = (ok', d'')" by (metis surj_pair)
  have "view d = medium_write64 (ucast lba) 0 data (view d)" by (simp add: medium_write64_def)
  then have "dinv d'' \<and> (ok' \<longrightarrow> view d'' = medium_write64 (ucast lba) (unat count) data (view d))"
    using count_byte_bound [of count] by (intro chunk_write_result [OF assms(2) d(1) _ _ d(3) _ w]) simp_all
  then show "case nvme_sector_write wr lba count data d of (rc, d') \<Rightarrow>
      dinv d' \<and> (0 \<le> rc \<longrightarrow> view d' = medium_write64 (ucast lba) (unat count) data (view d))"
    by (simp add: nvme_sector_write_def w)
qed

lemma ahci_is_nvme: "0 \<le> port \<Longrightarrow> ahci_sector_read port rd = nvme_sector_read (rd port)"
  "0 \<le> port \<Longrightarrow> ahci_sector_write port wr = nvme_sector_write (wr port)"
  by (simp_all add: fun_eq_iff ahci_sector_read_def nvme_sector_read_def ahci_sector_write_def nvme_sector_write_def)

section \<open>Properties\<close>

text \<open>
  Property: the disk operations that \<open>kfs_init\<close> installs for an NVMe or AHCI controller transfer
  whole requests of up to 255 sectors correctly although the driver is asked for at most eight at a
  time: a read that reports success returns the sectors' contents and changes nothing, a write that
  reports success stores its data in exactly the requested sectors.
\<close>

theorem kfs_disk_adapters:
  assumes sel: "kfs_select hw = (b, ops)" "b \<noteq> KFS_BACKEND_VERNISFS"
    and drv: "drv_reads dinv view (nvme_rd hw)" "drv_writes dinv view (nvme_wr hw)"
      "\<And>p. drv_reads dinv view (ahci_rd hw p)" "\<And>p. drv_writes dinv view (ahci_wr hw p)"
    and d: "dinv d" "length buf = unat count * SECTOR_SIZE" "length data = unat count * SECTOR_SIZE"
  shows "(case disk_read ops lba count buf d of ((rc, buf'), d') \<Rightarrow>
      dinv d' \<and> view d' = view d \<and> (0 \<le> rc \<longrightarrow> buf' = sectors64 (view d) (ucast lba) (unat count)))
    \<and> (case disk_write ops lba count data d of (rc, d') \<Rightarrow>
      dinv d' \<and> (0 \<le> rc \<longrightarrow> view d' = medium_write64 (ucast lba) (unat count) data (view d)))"
proof -
  obtain rd wr where ops: "disk_read ops = nvme_sector_read rd" "disk_write ops = nvme_sector_write wr"
    and rw: "drv_reads dinv view rd" "drv_writes dinv view wr"
    using sel drv by (auto simp: kfs_select_def ahci_is_nvme split: if_splits option.splits)
  show ?thesis unfolding ops
    using adapter_result(1) [OF rw d, of lba] adapter_result(2) [OF rw d, of lba] by (intro conjI)
qed

definition ram64_hw :: "medium64 kfs_hw" where
  "ram64_hw = \<lparr>nvme_available = False, nvme_identified = False, ahci_available = True, ahci_pi = 4, ahci_identified = (\<lambda>p. True),
     nvme_rd = (\<lambda>a n buf d. ((0, sectors64 d a n), d)), nvme_wr = (\<lambda>a n data d. (0, medium_write64 a n data d)),
     ahci_rd = (\<lambda>p a n buf d. ((0, sectors64 d a n), d)), ahci_wr = (\<lambda>p a n data d. (0, medium_write64 a n data d)),
     ata = \<lparr>disk_read = (\<lambda>a n buf d. ((-1, buf), d)), disk_write = (\<lambda>a n data d. (-1, d))\<rparr>\<rparr>"

definition ram64_inv :: "medium64 \<Rightarrow> bool" where "ram64_inv v \<longleftrightarrow> (\<forall>x. length (v x) = SECTOR_SIZE)"

lemma case_prod_conjunct1: "(case x of (a, b) \<Rightarrow> A a b \<and> B a b) \<Longrightarrow> (case x of (a, b) \<Rightarrow> A a b)"
  by auto

lemma ram64_drivers:
  "drv_reads ram64_inv (\<lambda>v. v) (\<lambda>a n buf d. ((0, sectors64 d a n), d))"
  "drv_writes ram64_inv (\<lambda>v. v) (\<lambda>a n data d. (0, medium_write64 a n data d))"
proof -
  show "drv_reads ram64_inv (\<lambda>v. v) (\<lambda>a n buf d. ((0, sectors64 d a n), d))"
    by (simp add: drv_reads_def ram64_inv_def length_sectors64)
  have "length (chunk data k) = 512" if "length data = n * 512" "k < n" for data :: bytes and k n
    using that by (intro length_chunk) simp
  then show "drv_writes ram64_inv (\<lambda>v. v) (\<lambda>a n data d. (0, medium_write64 a n data d))"
    by (auto simp: drv_writes_def ram64_inv_def medium_write64_def)
qed

theorem kfs_disk_adapters_witness:
  "\<exists>ops. kfs_select ram64_hw = (KFS_BACKEND_AHCI, ops)
     \<and> (case disk_write ops 7 20 (replicate 10240 9) (\<lambda>x. replicate 512 0) of (rc, d') \<Rightarrow> ram64_inv d')"
proof -
  have "find_slot (\<lambda>p. bit (4 :: u32) p) [0..<32] = Some 2"
    by code_simp
  then obtain ops where ops: "kfs_select ram64_hw = (KFS_BACKEND_AHCI, ops)"
    by (simp add: kfs_select_def kfs_try_ahci_def kfs_try_nvme_def ram64_hw_def)
  have drv: "drv_reads ram64_inv (\<lambda>v. v) (nvme_rd ram64_hw)" "drv_writes ram64_inv (\<lambda>v. v) (nvme_wr ram64_hw)"
    "drv_reads ram64_inv (\<lambda>v. v) (ahci_rd ram64_hw p)" "drv_writes ram64_inv (\<lambda>v. v) (ahci_wr ram64_hw p)" for p
    using ram64_drivers by (simp_all add: ram64_hw_def)
  have d: "ram64_inv (\<lambda>x. replicate 512 0)" by (simp add: ram64_inv_def)
  have len: "length (replicate 10240 v) = unat (20 :: u8) * SECTOR_SIZE" for v :: u8 by simp
  have other: "KFS_BACKEND_AHCI \<noteq> KFS_BACKEND_VERNISFS" by simp
  note writes = conjunct2 [OF kfs_disk_adapters [where dinv = ram64_inv and view = "\<lambda>v. v", OF ops other drv d len [of 0] len [of 9]]]
  have "case disk_write ops 7 20 (replicate 10240 9) (\<lambda>x. replicate 512 0) of (rc, d') \<Rightarrow> ram64_inv d'"
    by (rule case_prod_conjunct1 [OF writes])
  then show ?thesis by (intro exI conjI) (rule ops)
qed

text \<open>
  Property: the permission check grants exactly what the octal mode says. Root always passes;
  anyone else passes when the file exists and the bit of the mode for the class (owner, group, other)
  and the operation is set, or the mode is zero; unknown operations and missing files are refused.
\<close>

theorem kfs_check_perm_decides:
  assumes "kfs_find_file ops path s = Some (entry, s1)"
  shows "\<exists>r s'. kfs_check_perm ops (Some path) uid op1 s = Some (r, s')
    \<and> (r = 0 \<longleftrightarrow> uid = 0 \<or> (\<exists>e. entry = Some e \<and> mode_allows e uid op1))"
  using assms by (cases entry) (auto simp: kfs_check_perm_def perm_result_allows)

definition demo_entry :: VfsFileEntry where
  "demo_entry = empty_entry\<lparr>fe_filename := ''/f'' @ replicate 30 NUL, fe_type := VFS_TYPE_REGULAR, fe_mode := 416, fe_uid := 5, fe_gid := 7\<rparr>"

definition kfs_demo :: "medium kfs" where
  "kfs_demo = \<lparr>g_backend = KFS_BACKEND_VERNISFS, g_ops = True, k_vfs = fresh_vfs\<lparr>g_filetable := demo_entry # replicate 31 empty_entry\<rparr>,
     k_fat = fat_demo, k_ext2 = ext2_demo, g_kfs_mount_scratch = empty_entry\<rparr>"

lemma demo_plain: "\<not> kfs_read_only ''/f''"
  by code_simp

lemma kfs_demo_find: "kfs_find_file ram_ops ''/f'' kfs_demo = Some (Some demo_entry, kfs_demo)"
proof -
  have "file_named ''/f'' demo_entry" by code_simp
  then have "find_slot (file_named ''/f'') (demo_entry # replicate 31 empty_entry) = Some 0" by (simp add: find_slot_Some_iff)
  then show ?thesis by (simp add: plain_paths [OF demo_plain] kfs_demo_def vfs_find_file_def fresh_vfs_def)
qed

text \<open>A file system on a RAM disk whose only file lies in the first data sector.\<close>

definition one_file_kfs :: "VfsFileEntry \<Rightarrow> bytes \<Rightarrow> medium kfs" where
  "one_file_kfs e b = kfs_demo\<lparr>k_vfs := fresh_vfs\<lparr>g_filetable := e # replicate 31 empty_entry,
     vfs_disk := (\<lambda>x. if x = VFS_START_SECTOR + VFS_DATA_SECTOR then b @ replicate (512 - length b) 0 else replicate 512 0)\<rparr>\<rparr>"

lemma one_file_found:
  assumes "\<not> kfs_read_only path" "file_named path e"
  shows "vfs_find_file path (k_vfs (one_file_kfs e b)) = Some 0" "kfs_find_file ops path (one_file_kfs e b) = Some (Some e, one_file_kfs e b)"
proof -
  have "find_slot (file_named path) (e # replicate 31 empty_entry) = Some 0" using assms(2) by (simp add: find_slot_Some_iff)
  then show "vfs_find_file path (k_vfs (one_file_kfs e b)) = Some 0"
    by (simp add: vfs_find_file_def one_file_kfs_def fresh_vfs_def)
  then show "kfs_find_file ops path (one_file_kfs e b) = Some (Some e, one_file_kfs e b)"
    by (simp add: plain_paths [OF assms(1)] one_file_kfs_def kfs_demo_def)
qed

lemma one_file_read:
  assumes plain: "\<not> kfs_read_only path" and named: "file_named path e"
    and e: "unat (fe_size e) = length b" "fe_start_sector e = 0"
    and len: "0 < length b" "length b \<le> 512" "length b \<le> mx" "512 \<le> length buf"
  obtains buf' s' where "kfs_read_file ram_ops env (Some path) buf mx (one_file_kfs e b) = Some ((int (length b), buf'), s')"
    "take (length b) buf' = b" "length buf' = length buf"
proof -
  let ?v = "k_vfs (one_file_kfs e b)"
  have f: "vfs_find_file path ?v = Some 0" "g_filetable ?v ! 0 = e" "g_ops (one_file_kfs e b)"
    using one_file_found(1) [OF plain named] by (simp_all add: one_file_kfs_def kfs_demo_def)
  have "512 * 1 \<le> length b + 511" "length b + 511 < 512 * Suc 1" using len(1,2) by (linarith, simp)
  then have sect: "sectors_for (length b) = 1" unfolding sectors_for_def by (rule div_nat_eqI)
  have d: "data_sector e = VFS_START_SECTOR + VFS_DATA_SECTOR" by (simp add: data_sector_def e(2))
  have inv: "ram_inv (vfs_disk ?v)" using len(2) by (simp add: ram_inv_def one_file_kfs_def)
  obtain r buf' v where rd: "vfs_read_file ram_ops path buf mx ?v = ((r, buf'), v)" by (metis prod.collapse)
  have fits: "unat (fe_size (g_filetable ?v ! 0)) \<le> mx" "sectors_for (unat (fe_size (g_filetable ?v ! 0))) \<le> 255"
    "sectors_for (unat (fe_size (g_filetable ?v ! 0))) * 512 \<le> length buf" using e f(2) sect len by simp_all
  have "0 \<le> r" using ram.read_file_succeeds [OF inv f(1) refl fits] rd by simp
  note res = ram.read_file_bytes [OF inv f(1) fits rd this]
  have r: "r = int (length b)" using res e f(2) by simp
  moreover have "take (length b) buf' = file_bytes (vfs_disk ?v) e" using conjunct2 [OF res] r f(2) by simp
  moreover have "length buf' = length buf"
    using ram.read_file_effect(5) [OF inv f(1) refl refl, of mx buf r buf' v] rd e f(2) len sect by simp
  moreover have "file_bytes (vfs_disk ?v) e = b" by (simp add: file_bytes_def e d sect one_file_kfs_def)
  ultimately show ?thesis
    using rd f(3) that [of buf' "(one_file_kfs e b)\<lparr>k_vfs := v\<rparr>"] by (simp add: plain_paths [OF plain] on_vfs_def)
qed

theorem kfs_check_perm_decides_witness:
  "\<exists>r s'. kfs_check_perm ram_ops (Some ''/f'') 7 (CHR ''r'') kfs_demo = Some (r, s') \<and> r = 0"
proof -
  have "mode_allows demo_entry 7 (CHR ''r'')" by code_simp
  then show ?thesis using kfs_check_perm_decides [OF kfs_demo_find, of 7 "CHR ''r''"] by auto
qed

text \<open>
  Property: removing all permissions grants all of them. After \<open>kfs_chmod\<close> has set the mode of a
  file to zero, the permission check lets every user do everything with it: zero doubles as the mark
  of files without a recorded mode.
\<close>

theorem kfs_chmod_zero_opens:
  assumes plain: "\<not> kfs_read_only path" and ops: "g_ops s" and ch: "kfs_chmod ops (Some path) 0 s = (r, s1)"
    and fnd: "vfs_find_file path (k_vfs s) = Some i"
  shows "\<exists>s2. kfs_check_perm ops (Some path) uid op1 s1 = Some (0, s2)"
proof -
  let ?e = "g_filetable (k_vfs s) ! i"
  define v where "v = (k_vfs s)\<lparr>g_filetable := (g_filetable (k_vfs s))[i := ?e\<lparr>fe_mode := 0\<rparr>]\<rparr>"
  have ready: "g_vfs_ready (k_vfs s)" "find_slot (file_named path) (g_filetable (k_vfs s)) = Some i"
    using fnd by (auto simp: vfs_find_file_def split: if_splits)
  have s1: "s1 = s\<lparr>k_vfs := snd (vfs_flush_metadata ops v)\<rparr>"
    using ch fnd ready not_read_only(3) [OF plain]
    by (auto simp: kfs_chmod_def on_vfs_def vfs_chmod_def vfs_find_file_mut_def v_def split: prod.splits)
  have "file_named path (?e\<lparr>fe_mode := 0\<rparr>) = file_named path ?e" by (simp add: file_named_def)
  then have "find_slot (file_named path) (g_filetable v) = Some i"
    using ready(2) by (auto simp: find_slot_Some_iff v_def nth_update_if)
  then have "vfs_find_file path (k_vfs s1) = Some i" "g_filetable (k_vfs s1) ! i = ?e\<lparr>fe_mode := 0\<rparr>"
    using ready flush_table [of ops v] find_slot_SomeD(1) [OF ready(2)] by (simp_all add: vfs_find_file_def s1) (simp_all add: v_def)
  then have "kfs_find_file ops path s1 = Some (Some (?e\<lparr>fe_mode := 0\<rparr>), s1)"
    using ops by (simp add: plain_paths [OF plain]) (simp add: s1)
  then show ?thesis by (auto simp: kfs_check_perm_def perm_result_def)
qed

theorem kfs_chmod_zero_opens_witness:
  "\<exists>r s1 s2. kfs_chmod ram_ops (Some ''/f'') 0 kfs_demo = (r, s1) \<and> kfs_check_perm ram_ops (Some ''/f'') 99 (CHR ''w'') s1 = Some (0, s2)"
proof -
  obtain r s1 where c: "kfs_chmod ram_ops (Some ''/f'') 0 kfs_demo = (r, s1)" by fastforce
  have "vfs_find_file ''/f'' (k_vfs kfs_demo) \<noteq> None"
    using kfs_demo_find by (auto simp: plain_paths [OF demo_plain] kfs_demo_def split: if_splits)
  then obtain i where "vfs_find_file ''/f'' (k_vfs kfs_demo) = Some i" by blast
  then show ?thesis using kfs_chmod_zero_opens [OF demo_plain _ c] c by (auto simp: kfs_demo_def)
qed
end
