(* ===== verification/Sha256.thy ===== *)
theory Sha256
  imports Vernis_Prelude
begin

text \<open>
  The SHA-256 implementation, \<open>src/kernel/security/sha256.c\<close>: the streaming context, the block
  transformation, padding and the digest comparison. The reference is the algorithm of FIPS 180-4,
  stated over the whole message: pad, split into blocks, compress. The round constants and the initial
  hash value are checked against their definition as bits of roots of primes.
\<close>

section \<open>The code\<close>

abbreviation SHA256_BLOCK_SIZE :: nat where "SHA256_BLOCK_SIZE \<equiv> 64"
abbreviation SHA256_DIGEST_SIZE :: nat where "SHA256_DIGEST_SIZE \<equiv> 32"

record Sha256Context =
  sha_state :: "u32 list"
  bit_count :: u64
  sha_buffer :: bytes
  sha_buf_len :: nat

definition sha_K :: "u32 list" where
  "sha_K = concat [
    [0x428a2f98, 0x71374491, 0xb5c0fbcf, 0xe9b5dba5],
    [0x3956c25b, 0x59f111f1, 0x923f82a4, 0xab1c5ed5],
    [0xd807aa98, 0x12835b01, 0x243185be, 0x550c7dc3],
    [0x72be5d74, 0x80deb1fe, 0x9bdc06a7, 0xc19bf174],
    [0xe49b69c1, 0xefbe4786, 0x0fc19dc6, 0x240ca1cc],
    [0x2de92c6f, 0x4a7484aa, 0x5cb0a9dc, 0x76f988da],
    [0x983e5152, 0xa831c66d, 0xb00327c8, 0xbf597fc7],
    [0xc6e00bf3, 0xd5a79147, 0x06ca6351, 0x14292967],
    [0x27b70a85, 0x2e1b2138, 0x4d2c6dfc, 0x53380d13],
    [0x650a7354, 0x766a0abb, 0x81c2c92e, 0x92722c85],
    [0xa2bfe8a1, 0xa81a664b, 0xc24b8b70, 0xc76c51a3],
    [0xd192e819, 0xd6990624, 0xf40e3585, 0x106aa070],
    [0x19a4c116, 0x1e376c08, 0x2748774c, 0x34b0bcb5],
    [0x391c0cb3, 0x4ed8aa4a, 0x5b9cca4f, 0x682e6ff3],
    [0x748f82ee, 0x78a5636f, 0x84c87814, 0x8cc70208],
    [0x90befffa, 0xa4506ceb, 0xbef9a3f7, 0xc67178f2]]"

definition ROTR :: "u32 \<Rightarrow> nat \<Rightarrow> u32" where "ROTR x n = drop_bit n x OR push_bit (32 - n) x"
definition CH :: "u32 \<Rightarrow> u32 \<Rightarrow> u32 \<Rightarrow> u32" where "CH x y z = (x AND y) XOR (NOT x AND z)"
definition MAJ :: "u32 \<Rightarrow> u32 \<Rightarrow> u32 \<Rightarrow> u32" where "MAJ x y z = (x AND y) XOR (x AND z) XOR (y AND z)"
definition EP0 :: "u32 \<Rightarrow> u32" where "EP0 x = ROTR x 2 XOR ROTR x 13 XOR ROTR x 22"
definition EP1 :: "u32 \<Rightarrow> u32" where "EP1 x = ROTR x 6 XOR ROTR x 11 XOR ROTR x 25"
definition SIG0 :: "u32 \<Rightarrow> u32" where "SIG0 x = ROTR x 7 XOR ROTR x 18 XOR drop_bit 3 x"
definition SIG1 :: "u32 \<Rightarrow> u32" where "SIG1 x = ROTR x 17 XOR ROTR x 19 XOR drop_bit 10 x"

text \<open>The two loops that fill \<open>W\<close>: sixteen words of the block, then the extension.\<close>

definition sha_load :: "bytes \<Rightarrow> u32 list" where
  "sha_load block = map (\<lambda>i. push_bit 24 (ucast (block ! (i * 4))) OR push_bit 16 (ucast (block ! (i * 4 + 1)))
      OR push_bit 8 (ucast (block ! (i * 4 + 2))) OR ucast (block ! (i * 4 + 3))) [0..<16]"

definition sha_extend :: "u32 list \<Rightarrow> u32 list" where
  "sha_extend W0 = fold (\<lambda>i W. W @ [SIG1 (W ! (i - 2)) + W ! (i - 7) + SIG0 (W ! (i - 15)) + W ! (i - 16)]) [16..<64] W0"

type_synonym sha_vars = "u32 \<times> u32 \<times> u32 \<times> u32 \<times> u32 \<times> u32 \<times> u32 \<times> u32"

definition sha_round :: "u32 list \<Rightarrow> nat \<Rightarrow> sha_vars \<Rightarrow> sha_vars" where
  "sha_round W i v = (case v of (a, b, c, d, e, f, g, h) \<Rightarrow>
     let t1 = h + EP1 e + CH e f g + sha_K ! i + W ! i;
         t2 = EP0 a + MAJ a b c
     in (t1 + t2, a, b, c, d + t1, e, f, g))"

definition sha256_transform :: "bytes \<Rightarrow> Sha256Context \<Rightarrow> Sha256Context" where
  "sha256_transform block ctx =
     (let W = sha_extend (sha_load block); s = sha_state ctx in
      case fold (sha_round W) [0..<64] (s ! 0, s ! 1, s ! 2, s ! 3, s ! 4, s ! 5, s ! 6, s ! 7) of
        (a, b, c, d, e, f, g, h) \<Rightarrow>
          ctx\<lparr>sha_state := [s ! 0 + a, s ! 1 + b, s ! 2 + c, s ! 3 + d, s ! 4 + e, s ! 5 + f, s ! 6 + g, s ! 7 + h]\<rparr>)"

definition sha256_init :: "Sha256Context \<Rightarrow> Sha256Context" where
  "sha256_init ctx = ctx\<lparr>sha_state := [0x6a09e667, 0xbb67ae85, 0x3c6ef372, 0xa54ff53a, 0x510e527f, 0x9b05688c, 0x1f83d9ab, 0x5be0cd19],
     bit_count := 0, sha_buf_len := 0\<rparr>"

definition sha_put :: "u8 \<Rightarrow> Sha256Context \<Rightarrow> Sha256Context" where
  "sha_put b ctx = ctx\<lparr>sha_buffer := (sha_buffer ctx)[sha_buf_len ctx := b], sha_buf_len := sha_buf_len ctx + 1\<rparr>"

fun sha256_update :: "bytes \<Rightarrow> Sha256Context \<Rightarrow> Sha256Context" where
  "sha256_update [] ctx = ctx"
| "sha256_update (b # data) ctx =
     (let ctx1 = sha_put b ctx in
      sha256_update data
        (if sha_buf_len ctx1 = SHA256_BLOCK_SIZE
         then (sha256_transform (sha_buffer ctx1) ctx1)\<lparr>bit_count := bit_count ctx1 + 512, sha_buf_len := 0\<rparr>
         else ctx1))"

text \<open>The loops \<open>while (ctx->buf_len < n) ctx->buffer[ctx->buf_len++] = 0\<close>.\<close>

function sha_zero_to :: "nat \<Rightarrow> Sha256Context \<Rightarrow> Sha256Context" where
  "sha_zero_to n ctx = (if sha_buf_len ctx < n then sha_zero_to n (sha_put 0 ctx) else ctx)"
  by pat_completeness auto
termination
  by (relation "measure (\<lambda>(n, ctx). n - sha_buf_len ctx)") (auto simp: sha_put_def)

declare sha_zero_to.simps [simp del]

definition be64_bytes :: "u64 \<Rightarrow> bytes" where
  "be64_bytes w = [ucast (drop_bit 56 w), ucast (drop_bit 48 w), ucast (drop_bit 40 w), ucast (drop_bit 32 w),
     ucast (drop_bit 24 w), ucast (drop_bit 16 w), ucast (drop_bit 8 w), ucast w]"

definition sha256_final :: "Sha256Context \<Rightarrow> bytes" where
  "sha256_final ctx =
     (let total_bits = bit_count ctx + of_nat (sha_buf_len ctx) * 8;
          ctx1 = sha_put 0x80 ctx;
          ctx2 = (if sha_buf_len ctx1 > 56
                  then let c = sha_zero_to 64 ctx1 in (sha256_transform (sha_buffer c) c)\<lparr>sha_buf_len := 0\<rparr>
                  else ctx1);
          ctx3 = sha_zero_to 56 ctx2;
          ctx4 = ctx3\<lparr>sha_buffer := take 56 (sha_buffer ctx3) @ be64_bytes total_bits\<rparr>;
          ctx5 = sha256_transform (sha_buffer ctx4) ctx4
      in concat (map (\<lambda>i. be32_bytes (sha_state ctx5 ! i)) [0..<8]))"

definition sha_blank :: Sha256Context where
  "sha_blank = \<lparr>sha_state = replicate 8 0, bit_count = 0, sha_buffer = replicate 64 0, sha_buf_len = 0\<rparr>"

definition sha256_hash :: "bytes \<Rightarrow> bytes" where
  "sha256_hash data = sha256_final (sha256_update data (sha256_init sha_blank))"

definition sha256_compare :: "bytes \<Rightarrow> bytes \<Rightarrow> int" where
  "sha256_compare a b =
     (let diff = fold (\<lambda>i diff. diff OR (a ! i XOR b ! i)) [0..<SHA256_DIGEST_SIZE] 0
      in if diff = 0 then 0 else - 1)"

section \<open>The reference algorithm\<close>

function fips_W :: "(nat \<Rightarrow> u32) \<Rightarrow> nat \<Rightarrow> u32" where
  "fips_W M t = (if t < 16 then M t
     else (word_rotr 17 (fips_W M (t - 2)) XOR word_rotr 19 (fips_W M (t - 2)) XOR drop_bit 10 (fips_W M (t - 2)))
        + fips_W M (t - 7)
        + (word_rotr 7 (fips_W M (t - 15)) XOR word_rotr 18 (fips_W M (t - 15)) XOR drop_bit 3 (fips_W M (t - 15)))
        + fips_W M (t - 16))"
  by pat_completeness auto
termination
  by (relation "measure snd") auto

declare fips_W.simps [simp del]

primrec fips_rounds :: "(nat \<Rightarrow> u32) \<Rightarrow> u32 list \<Rightarrow> nat \<Rightarrow> sha_vars" where
  "fips_rounds M H 0 = (H ! 0, H ! 1, H ! 2, H ! 3, H ! 4, H ! 5, H ! 6, H ! 7)"
| "fips_rounds M H (Suc t) = (case fips_rounds M H t of (a, b, c, d, e, f, g, h) \<Rightarrow>
     let T1 = h + (word_rotr 6 e XOR word_rotr 11 e XOR word_rotr 25 e) + ((e AND f) XOR (NOT e AND g)) + sha_K ! t + fips_W M t;
         T2 = (word_rotr 2 a XOR word_rotr 13 a XOR word_rotr 22 a) + ((a AND b) XOR (a AND c) XOR (b AND c))
     in (T1 + T2, a, b, c, d + T1, e, f, g))"

definition fips_compress :: "u32 list \<Rightarrow> bytes \<Rightarrow> u32 list" where
  "fips_compress H block = (case fips_rounds (\<lambda>t. be32_of (drop (4 * t) block)) H 64 of (a, b, c, d, e, f, g, h) \<Rightarrow>
     map2 (+) H [a, b, c, d, e, f, g, h])"

function fips_blocks :: "u32 list \<Rightarrow> bytes \<Rightarrow> u32 list" where
  "fips_blocks H m = (if length m < 64 then H else fips_blocks (fips_compress H (take 64 m)) (drop 64 m))"
  by pat_completeness auto
termination
  by (relation "measure (\<lambda>(H, m). length m)") auto

declare fips_blocks.simps [simp del]

definition fips_pad :: "bytes \<Rightarrow> bytes" where
  "fips_pad m = m @ [0x80] @ replicate ((119 - length m mod 64) mod 64) 0 @ be64_bytes (of_nat (8 * length m))"

definition fips_H0 :: "u32 list" where
  "fips_H0 = [0x6a09e667, 0xbb67ae85, 0x3c6ef372, 0xa54ff53a, 0x510e527f, 0x9b05688c, 0x1f83d9ab, 0x5be0cd19]"

definition fips_sha256 :: "bytes \<Rightarrow> bytes" where
  "fips_sha256 m = concat (map be32_bytes (fips_blocks fips_H0 (fips_pad m)))"

section \<open>The transformation is the compression function\<close>

lemma ROTR_rotr: "n < 32 \<Longrightarrow> ROTR x n = word_rotr n x"
proof (rule bit_word_eqI)
  fix k assume "n < 32" "k < LENGTH(32)"
  then consider "k + n < 32" | "32 \<le> k + n" "k + n < 64" by fastforce
  then show "bit (ROTR x n) k = bit (word_rotr n x) k"
  proof cases
    case 1
    with \<open>k < LENGTH(32)\<close> show ?thesis by (auto simp: ROTR_def bit_simps add.commute)
  next
    case 2
    have "(k + n) mod 32 = (k + n) - 32" using 2 by (simp add: mod_if)
    moreover have "k - (32 - n) = k + n - 32" "\<not> bit x (n + k)"
      using \<open>n < 32\<close> 2 by (auto dest: bit_imp_le_length)
    ultimately show ?thesis using \<open>k < LENGTH(32)\<close> 2 by (auto simp: ROTR_def bit_simps)
  qed
qed

lemmas sha_functions = EP0_def EP1_def SIG0_def SIG1_def CH_def MAJ_def ROTR_rotr

lemma sha_load_nth: "length block = 64 \<Longrightarrow> i < 16 \<Longrightarrow> sha_load block ! i = be32_of (drop (4 * i) block)"
  by (simp add: sha_load_def be32_of_def add.commute mult.commute)

lemma sha_extend_upto:
  assumes "length block = 64" "n \<le> 48"
  defines "W \<equiv> fold (\<lambda>i W. W @ [SIG1 (W ! (i - 2)) + W ! (i - 7) + SIG0 (W ! (i - 15)) + W ! (i - 16)]) [16..<16 + n] (sha_load block)"
  shows "length W = 16 + n \<and> (\<forall>i < 16 + n. W ! i = fips_W (\<lambda>t. be32_of (drop (4 * t) block)) i)"
  using assms(2) unfolding W_def
proof (induction n)
  case 0
  have "length (sha_load block) = 16" by (simp add: sha_load_def)
  with assms(1) show ?case by (simp add: sha_load_nth fips_W.simps)
next
  case (Suc n)
  define V where "V = fold (\<lambda>i W. W @ [SIG1 (W ! (i - 2)) + W ! (i - 7) + SIG0 (W ! (i - 15)) + W ! (i - 16)]) [16..<16 + n] (sha_load block)"
  have V: "length V = 16 + n" "\<And>i. i < 16 + n \<Longrightarrow> V ! i = fips_W (\<lambda>t. be32_of (drop (4 * t) block)) i"
    using Suc by (simp_all add: V_def)
  have "SIG1 (V ! (16 + n - 2)) + V ! (16 + n - 7) + SIG0 (V ! (16 + n - 15)) + V ! (16 + n - 16)
      = fips_W (\<lambda>t. be32_of (drop (4 * t) block)) (16 + n)"
    by (subst fips_W.simps) (simp add: V sha_functions)
  moreover have u: "[16..<16 + Suc n] = [16..<16 + n] @ [16 + n]" by (metis add_Suc_right upt_Suc_append le_add1)
  moreover have lt: "i < 16 + Suc n \<longleftrightarrow> i < 16 + n \<or> i = 16 + n" for i by auto
  ultimately show ?case using V(1,2) unfolding u lt fold_append o_def V_def [symmetric] by (auto simp: nth_append)
qed

lemma sha_schedule:
  assumes "length block = 64" "i < 64"
  shows "sha_extend (sha_load block) ! i = fips_W (\<lambda>t. be32_of (drop (4 * t) block)) i"
proof -
  have e: "16 + 48 = (64 :: nat)" by simp
  show ?thesis using sha_extend_upto [OF assms(1) order_refl] assms(2) unfolding sha_extend_def e by blast
qed

lemma sha_rounds_upto:
  assumes "length block = 64" "n \<le> 64"
  shows "fold (sha_round (sha_extend (sha_load block))) [0..<n] (H ! 0, H ! 1, H ! 2, H ! 3, H ! 4, H ! 5, H ! 6, H ! 7)
    = fips_rounds (\<lambda>t. be32_of (drop (4 * t) block)) H n"
  using assms(2)
proof (induction n)
  case (Suc n)
  then show ?case using sha_schedule [OF assms(1), of n]
    by (simp add: sha_round_def sha_functions split: prod.splits)
qed simp

lemma list_of_8: "length H = 8 \<Longrightarrow> H = [H ! 0, H ! 1, H ! 2, H ! 3, H ! 4, H ! 5, H ! 6, H ! 7]"
  by (rule nth_equalityI) (auto simp: less_Suc_eq numeral_eq_Suc)

lemma sha256_transform_fips:
  assumes "length block = 64" "length (sha_state ctx) = 8"
  shows "sha256_transform block ctx = ctx\<lparr>sha_state := fips_compress (sha_state ctx) block\<rparr>"
proof -
  obtain a b c d e f g h where r: "fips_rounds (\<lambda>t. be32_of (drop (4 * t) block)) (sha_state ctx) 64 = (a, b, c, d, e, f, g, h)"
    by (metis surj_pair)
  have "fips_compress (sha_state ctx) block = map2 (+) (sha_state ctx) [a, b, c, d, e, f, g, h]" by (simp add: fips_compress_def r)
  also have "\<dots> = [sha_state ctx ! 0 + a, sha_state ctx ! 1 + b, sha_state ctx ! 2 + c, sha_state ctx ! 3 + d,
      sha_state ctx ! 4 + e, sha_state ctx ! 5 + f, sha_state ctx ! 6 + g, sha_state ctx ! 7 + h]"
    by (subst (1) list_of_8 [OF assms(2)]) simp
  finally show ?thesis using sha_rounds_upto [OF assms(1), of 64 "sha_state ctx"] by (simp add: sha256_transform_def Let_def r)
qed

lemma length_fips_compress [simp]: "length H = 8 \<Longrightarrow> length (fips_compress H block) = 8"
  by (simp add: fips_compress_def split: prod.splits)

section \<open>Streaming\<close>

lemma fips_blocks_short [simp]: "length m < 64 \<Longrightarrow> fips_blocks H m = H"
  by (simp add: fips_blocks.simps)

lemma fips_blocks_block: "length b = 64 \<Longrightarrow> fips_blocks H (b @ m) = fips_blocks (fips_compress H b) m"
  by (subst fips_blocks.simps) simp

lemma length_fips_blocks [simp]: "length H = 8 \<Longrightarrow> length (fips_blocks H m) = 8"
  by (induction H m rule: fips_blocks.induct) (subst fips_blocks.simps, simp)

lemma fips_blocks_append: "length a = 64 * k \<Longrightarrow> fips_blocks H (a @ m) = fips_blocks (fips_blocks H a) m"
proof (induction k arbitrary: a H)
  case (Suc k)
  then have l: "length (take 64 a) = 64" "length (drop 64 a) = 64 * k" "a = take 64 a @ drop 64 a" by simp_all
  have "fips_blocks H (a @ m) = fips_blocks (fips_compress H (take 64 a)) (drop 64 a @ m)"
    using fips_blocks_block [OF l(1), of H "drop 64 a @ m"] l(3) by (simp del: append_take_drop_id add: append_assoc [symmetric])
  also have "\<dots> = fips_blocks (fips_blocks (fips_compress H (take 64 a)) (drop 64 a)) m" by (rule Suc.IH [OF l(2)])
  also have "fips_blocks (fips_compress H (take 64 a)) (drop 64 a) = fips_blocks H a"
    using fips_blocks_block [OF l(1), of H "drop 64 a"] by simp
  finally show ?case .
qed simp

text \<open>The context after the bytes \<open>m\<close>: the state covers the complete blocks, the buffer holds the rest.\<close>

definition sha_absorbed :: "bytes \<Rightarrow> Sha256Context \<Rightarrow> bool" where
  "sha_absorbed m ctx \<longleftrightarrow> (\<exists>a r. m = a @ r \<and> 64 dvd length a \<and> length r < 64 \<and> sha_buf_len ctx = length r
     \<and> length (sha_buffer ctx) = 64 \<and> take (length r) (sha_buffer ctx) = r \<and> sha_state ctx = fips_blocks fips_H0 a
     \<and> bit_count ctx = of_nat (8 * length a))"

lemma length_H0 [simp]: "length fips_H0 = 8" by (simp add: fips_H0_def)

lemma sha256_init_absorbed: "length (sha_buffer ctx) = 64 \<Longrightarrow> sha_absorbed [] (sha256_init ctx)"
  unfolding sha_absorbed_def by (intro exI [of _ "[]"]) (simp add: sha256_init_def fips_H0_def)

lemma take_update_snoc: "n < length xs \<Longrightarrow> take (Suc n) (xs[n := b]) = take n xs @ [b]"
  by (simp add: take_Suc_conv_app_nth)

lemma sha256_update_absorbed:
  "sha_absorbed m ctx \<Longrightarrow> sha_absorbed (m @ data) (sha256_update data ctx)"
proof (induction data arbitrary: m ctx)
  case (Cons b data)
  obtain a r where ar: "m = a @ r" "64 dvd length a" "length r < 64" "sha_buf_len ctx = length r" "length (sha_buffer ctx) = 64"
    "take (length r) (sha_buffer ctx) = r" "sha_state ctx = fips_blocks fips_H0 a" "bit_count ctx = of_nat (8 * length a)"
    using Cons.prems by (auto simp: sha_absorbed_def)
  define c where "c = sha_put b ctx"
  have c: "sha_buf_len c = Suc (length r)" "length (sha_buffer c) = 64" "take (Suc (length r)) (sha_buffer c) = r @ [b]"
    "sha_state c = fips_blocks fips_H0 a" "bit_count c = of_nat (8 * length a)"
    using ar by (simp_all add: c_def sha_put_def take_update_snoc)
  define c' where "c' = (if sha_buf_len c = 64 then (sha256_transform (sha_buffer c) c)\<lparr>bit_count := bit_count c + 512, sha_buf_len := 0\<rparr> else c)"
  have "sha_absorbed (m @ [b]) c'"
  proof (cases "Suc (length r) = 64")
    case True
    then have buf: "sha_buffer c = r @ [b]" using c(2,3) by simp
    obtain k where k: "length a = 64 * k" using ar(2) by blast
    have "fips_blocks fips_H0 (a @ r @ [b]) = fips_compress (fips_blocks fips_H0 a) (r @ [b])"
      using fips_blocks_append [OF k] fips_blocks_block [of "r @ [b]" _ "[]"] True by simp
    with True ar c buf show ?thesis unfolding sha_absorbed_def
      by (intro exI [of _ "a @ r @ [b]"] exI [of _ "[]"]) (simp add: c'_def sha256_transform_fips)
  next
    case False
    with ar c show ?thesis unfolding sha_absorbed_def by (intro exI [of _ a] exI [of _ "r @ [b]"]) (simp add: c'_def)
  qed
  then have "sha_absorbed ((m @ [b]) @ data) (sha256_update data c')" by (rule Cons.IH)
  then show ?case by (simp add: Let_def c_def [symmetric] c'_def)
qed simp

lemma sha_zero_to_pads:
  assumes "sha_buf_len ctx \<le> n" "n \<le> length (sha_buffer ctx)"
  shows "take n (sha_buffer (sha_zero_to n ctx)) = take (sha_buf_len ctx) (sha_buffer ctx) @ replicate (n - sha_buf_len ctx) 0"
    "sha_buf_len (sha_zero_to n ctx) = n" "length (sha_buffer (sha_zero_to n ctx)) = length (sha_buffer ctx)"
    "sha_state (sha_zero_to n ctx) = sha_state ctx"
  using assms
proof (induction n ctx rule: sha_zero_to.induct)
  case (1 n ctx)
  {
    case 1
    then show ?case
      using "1.IH" by (subst sha_zero_to.simps) (auto simp: sha_put_def take_update_snoc replicate_app_Cons_same Suc_diff_Suc [symmetric])
  next
    case 2
    then show ?case using "1.IH" by (subst sha_zero_to.simps) (auto simp: sha_put_def)
  next
    case 3
    then show ?case using "1.IH" by (subst sha_zero_to.simps) (auto simp: sha_put_def)
  next
    case 4
    then show ?case using "1.IH" by (subst sha_zero_to.simps) (auto simp: sha_put_def)
  }
qed

section \<open>Padding and the digest\<close>

lemma length_be64 [simp]: "length (be64_bytes w) = 8" by (simp add: be64_bytes_def)

lemma digest_bytes: "length H = 8 \<Longrightarrow> concat (map (\<lambda>i. be32_bytes (H ! i)) [0..<8]) = concat (map be32_bytes H)"
  by (metis (no_types, lifting) list.map_comp map_nth comp_def map_eq_conv)

lemma sha256_final_fips:
  assumes "sha_absorbed m ctx"
  shows "sha256_final ctx = fips_sha256 m"
proof -
  obtain a r where ar: "m = a @ r" "64 dvd length a" "length r < 64" "sha_buf_len ctx = length r" "length (sha_buffer ctx) = 64"
    "take (length r) (sha_buffer ctx) = r" "sha_state ctx = fips_blocks fips_H0 a" "bit_count ctx = of_nat (8 * length a)"
    using assms by (auto simp: sha_absorbed_def)
  obtain k where k: "length a = 64 * k" using ar(2) by blast
  define len where "len = be64_bytes (of_nat (8 * length m))"
  have bits: "be64_bytes (bit_count ctx + of_nat (sha_buf_len ctx) * 8) = len" by (simp add: len_def ar algebra_simps)
  define c1 where "c1 = sha_put 0x80 ctx"
  have c1: "sha_buf_len c1 = Suc (length r)" "length (sha_buffer c1) = 64" "take (Suc (length r)) (sha_buffer c1) = r @ [0x80]"
    "sha_state c1 = fips_blocks fips_H0 a" using ar by (simp_all add: c1_def sha_put_def take_update_snoc)
  define c2 where "c2 = (if sha_buf_len c1 > 56
      then let c = sha_zero_to 64 c1 in (sha256_transform (sha_buffer c) c)\<lparr>sha_buf_len := 0\<rparr> else c1)"
  define c3 where "c3 = sha_zero_to 56 c2"
  have "fips_pad m = a @ r @ [0x80] @ replicate ((119 - length r) mod 64) 0 @ len"
    using ar(3) k by (simp add: fips_pad_def len_def ar(1))
  then have pad: "fips_blocks fips_H0 (fips_pad m) = fips_blocks (fips_blocks fips_H0 a) (r @ [0x80] @ replicate ((119 - length r) mod 64) 0 @ len)"
    using fips_blocks_append [OF k] by simp
  have c3: "length (sha_buffer c3) = 64 \<and> length (sha_state c3) = 8 \<and> fips_compress (sha_state c3) (take 56 (sha_buffer c3) @ len) = fips_blocks fips_H0 (fips_pad m)"
  proof (cases "Suc (length r) > 56")
    case False
    then have c2: "c2 = c1" using c1 by (simp add: c2_def)
    note z = sha_zero_to_pads [of c1 56, unfolded c1, simplified]
    have "(119 - length r) mod 64 = 55 - length r" using False by (simp add: mod_if)
    moreover have "take 56 (sha_buffer c3) = r @ [0x80] @ replicate (55 - length r) 0"
      using z(1) False c1(3) by (simp add: c3_def c2)
    moreover have "length (r @ [0x80] @ replicate (55 - length r) 0 @ len) = 64" using False by (simp add: len_def)
    ultimately show ?thesis using z False c1 pad fips_blocks_block [of "r @ [0x80] @ replicate (55 - length r) 0 @ len" _ "[]"]
      by (simp add: c3_def c2)
  next
    case True
    note z = sha_zero_to_pads [of c1 64, unfolded c1, simplified]
    define c where "c = sha_zero_to 64 c1"
    have c: "sha_buffer c = r @ [0x80] @ replicate (63 - length r) 0" "sha_state c = fips_blocks fips_H0 a"
      using z ar(3) c1 by (simp_all add: c_def)
    have lb: "length (r @ [0x80 :: u8] @ replicate (63 - length r) 0) = 64" using ar(3) by simp
    have tr: "sha256_transform (sha_buffer c) c = c\<lparr>sha_state := fips_compress (fips_blocks fips_H0 a) (r @ [0x80] @ replicate (63 - length r) 0)\<rparr>"
      using sha256_transform_fips [of "sha_buffer c" c] c lb by simp
    have c2: "sha_buf_len c2 = 0" "length (sha_buffer c2) = 64"
      "sha_state c2 = fips_compress (fips_blocks fips_H0 a) (r @ [0x80] @ replicate (63 - length r) 0)"
      using True c1 tr c lb by (simp_all add: c2_def Let_def c_def [symmetric])
    have "take 56 (sha_buffer c3) = replicate 56 0" "length (sha_buffer c3) = 64" "sha_state c3 = sha_state c2"
      using sha_zero_to_pads [of c2 56] c2 by (simp_all add: c3_def)
    moreover have "(119 - length r) mod 64 = (63 - length r) + 56" using True ar(3) by (simp add: mod_if)
    then have "r @ [0x80] @ replicate ((119 - length r) mod 64) 0 @ len = (r @ [0x80] @ replicate (63 - length r) 0) @ (replicate 56 0 @ len)"
      by (simp only: replicate_add append_assoc)
    moreover have "length (replicate 56 0 @ len) = 64" by (simp add: len_def)
    ultimately show ?thesis using pad c2(3) fips_blocks_block [OF lb] fips_blocks_block [of "replicate 56 0 @ len" _ "[]"] by simp
  qed
  define c4 where "c4 = c3\<lparr>sha_buffer := take 56 (sha_buffer c3) @ len\<rparr>"
  have "length (sha_buffer c4) = 64" "length (sha_state c4) = 8" using c3 by (simp_all add: c4_def len_def)
  then have "sha_state (sha256_transform (sha_buffer c4) c4) = fips_blocks fips_H0 (fips_pad m)"
    using c3 sha256_transform_fips [of "sha_buffer c4" c4] by (simp add: c4_def)
  moreover have "sha256_final ctx = concat (map (\<lambda>i. be32_bytes (sha_state (sha256_transform (sha_buffer c4) c4) ! i)) [0..<8])"
    unfolding sha256_final_def Let_def c1_def [symmetric] bits
    unfolding c2_def [unfolded Let_def, symmetric] c3_def [symmetric] c4_def [symmetric] ..
  ultimately show ?thesis by (simp add: fips_sha256_def digest_bytes)
qed

lemma sha256_hash_fips: "sha256_hash data = fips_sha256 data"
  using sha256_update_absorbed [OF sha256_init_absorbed, of sha_blank data]
  by (simp add: sha256_hash_def sha256_final_fips sha_blank_def)

lemma length_sha256_hash [simp]: "length (sha256_hash data) = 32"
proof -
  have "length (concat (map be32_bytes H)) = 4 * length H" for H by (induction H) (simp_all add: be32_bytes_def)
  then show ?thesis by (simp add: sha256_hash_fips fips_sha256_def)
qed

lemma fold_or_zero: "fold (\<lambda>i d. d OR (a ! i XOR b ! i)) [0..<n] d = (0 :: u8) \<longleftrightarrow> d = 0 \<and> (\<forall>i < n. a ! i = b ! i)"
proof (induction n)
  case (Suc n)
  have "x OR y = 0 \<longleftrightarrow> x = 0 \<and> y = 0" for x y :: u8 by (auto simp: bit_eq_iff bit_simps)
  moreover have "x XOR y = 0 \<longleftrightarrow> x = y" for x y :: u8 by (metis xor.left_neutral xor.assoc xor_self_eq xor.right_neutral)
  ultimately show ?case using Suc by (auto simp: less_Suc_eq)
qed simp

lemma sha256_compare_eq: "length a = 32 \<Longrightarrow> length b = 32 \<Longrightarrow> sha256_compare a b = (if a = b then 0 else -1)"
  by (auto simp: sha256_compare_def Let_def fold_or_zero list_eq_iff_nth_eq)

section \<open>Properties\<close>

text \<open>
  Property C22: feeding a message in any two pieces and finishing gives the digest that FIPS 180-4
  defines for the whole message, for every length: the buffering, the message schedule, the rounds, the
  padding with its second block and the bit count are those of the standard. \<open>sha256_hash\<close> is the case
  of a single piece.
\<close>

theorem sha256_streaming_correct:
  "sha256_final (sha256_update b (sha256_update a (sha256_init sha_blank))) = fips_sha256 (a @ b) \<and> sha256_hash a = fips_sha256 a"
  using sha256_update_absorbed [OF sha256_update_absorbed [OF sha256_init_absorbed, of sha_blank a], of b]
  by (simp add: sha256_final_fips sha256_hash_fips sha_blank_def)

text \<open>Trial division by the numbers up to 18: exact below \<open>19\<^sup>2 = 361\<close>.\<close>

definition trial_prime :: "int \<Rightarrow> bool" where
  "trial_prime p \<longleftrightarrow> 2 \<le> p \<and> list_all (\<lambda>d. p \<le> d \<or> p mod d \<noteq> 0) [2..18]"

definition frac_root_bits :: "nat \<Rightarrow> int \<Rightarrow> u32 \<Rightarrow> bool" where
  "frac_root_bits k p w \<longleftrightarrow> list_ex (\<lambda>n. n ^ k \<le> p \<and> p < (n + 1) ^ k
     \<and> (n * 2 ^ 32 + uint w) ^ k \<le> p * (2 ^ 32) ^ k \<and> p * (2 ^ 32) ^ k < (n * 2 ^ 32 + uint w + 1) ^ k) [1..7]"

text \<open>
  Property: the 64 round constants are the first 32 bits of the fractional parts of the cube roots
  of the first 64 primes, and the initial hash value those of the square roots of the first eight.
\<close>

theorem sha256_constants:
  "list_all2 (frac_root_bits 3) (filter trial_prime [2..311]) sha_K
   \<and> list_all2 (frac_root_bits 2) (filter trial_prime [2..20]) (sha_state (sha256_init sha_blank))"
  by code_simp
end
