(* ===== verification/Userdb.thy ===== *)
theory Userdb
  imports Kfs Sha256
begin

text \<open>
  The user database (\<open>kernel/security/userdb.c\<close>): records of 66 bytes loaded from \<open>/etc/shadow\<close> through
  the kernel's file layer, looked up by name, and authentication by SHA-256 digests. Names are compared
  in the memory of the table: a name without a terminator runs on into the digest behind it.
\<close>

section \<open>Data\<close>

abbreviation USERDB_MAX_USERS :: nat where "USERDB_MAX_USERS \<equiv> 8"
abbreviation USERDB_USERNAME_LEN :: nat where "USERDB_USERNAME_LEN \<equiv> 32"
abbreviation USERDB_HASH_LEN :: nat where "USERDB_HASH_LEN \<equiv> 32"
abbreviation USER_RECORD_SIZE :: nat where "USER_RECORD_SIZE \<equiv> 66"

definition USERDB_PATH :: cstring where "USERDB_PATH = ''/etc/shadow''"

abbreviation USER_FLAG_ACTIVE :: u8 where "USER_FLAG_ACTIVE \<equiv> 1"
abbreviation USER_FLAG_LOCKED :: u8 where "USER_FLAG_LOCKED \<equiv> 2"
abbreviation USER_FLAG_NO_PASSWORD :: u8 where "USER_FLAG_NO_PASSWORD \<equiv> 4"

record UserRecord =
  ur_username :: cstring
  ur_password_hash :: bytes
  ur_privilege :: u8
  ur_flags :: u8

record userdb =
  g_users :: "UserRecord list"
  g_user_count :: nat
  g_userdb_ready :: bool

text \<open>The record at the front of a byte array, and the characters of a record as a string walks over them.\<close>

definition rec_decode :: "bytes \<Rightarrow> UserRecord" where
  "rec_decode b = \<lparr>ur_username = map char_of_byte (take 32 b), ur_password_hash = take 32 (drop 32 b),
     ur_privilege = b ! 64, ur_flags = b ! 65\<rparr>"

definition rec_chars :: "UserRecord \<Rightarrow> cstring" where
  "rec_chars r = ur_username r @ map char_of_byte (ur_password_hash r) @ [char_of_byte (ur_privilege r), char_of_byte (ur_flags r)]"

definition name_at :: "UserRecord list \<Rightarrow> nat \<Rightarrow> cstring" where
  "name_at us i = concat (map rec_chars (drop i us))"

section \<open>Operations\<close>

definition udb_strcmp :: "cstring \<Rightarrow> cstring \<Rightarrow> int" where
  "udb_strcmp a b = c_strcmp a b"

definition udb_strlen :: "cstring \<Rightarrow> nat" where
  "udb_strlen s = length (cstr s)"

function userdb_parse :: "bytes \<Rightarrow> nat \<Rightarrow> nat \<Rightarrow> UserRecord list \<Rightarrow> nat \<Rightarrow> UserRecord list \<times> nat" where
  "userdb_parse buf n offset us count =
     (if offset + USER_RECORD_SIZE \<le> n \<and> count < USERDB_MAX_USERS then
        let r = rec_decode (drop offset buf) in
        if ur_username r ! 0 = NUL then userdb_parse buf n (offset + USER_RECORD_SIZE) us count
        else userdb_parse buf n (offset + USER_RECORD_SIZE) (us[count := r]) (count + 1)
      else (us, count))"
  by pat_completeness auto
termination
  by (relation "measure (\<lambda>(buf, n, offset, us, count). n - offset)") auto

declare userdb_parse.simps [simp del]

text \<open>\<open>stack\<close> is what the uninitialised buffer on the stack holds.\<close>

definition userdb_init ::
  "'d disk_ops \<Rightarrow> kenv \<Rightarrow> bytes \<Rightarrow> userdb \<Rightarrow> 'd kfs \<Rightarrow> ((bool \<times> userdb) \<times> 'd kfs) option" where
  "userdb_init ops env stack u s =
     map_option (\<lambda>((rc, buf), s1).
       (if rc \<le> 0 then (False, u\<lparr>g_user_count := 0, g_userdb_ready := False\<rparr>)
        else let (us, count) = userdb_parse buf (nat rc) 0 (g_users u) 0
             in (True, u\<lparr>g_users := us, g_user_count := count, g_userdb_ready := True\<rparr>), s1))
     (kfs_read_file ops env (Some USERDB_PATH) stack (USERDB_MAX_USERS * USER_RECORD_SIZE) s)"

definition userdb_lookup :: "cstring \<Rightarrow> userdb \<Rightarrow> nat option" where
  "userdb_lookup name u = find_slot (\<lambda>i. udb_strcmp (name_at (g_users u) i) name = 0) [0..<g_user_count u]"

definition userdb_find_user :: "cstring \<Rightarrow> userdb \<Rightarrow> UserRecord option" where
  "userdb_find_user name u =
     (if \<not> g_userdb_ready u then None else map_option (\<lambda>i. g_users u ! i) (userdb_lookup name u))"

definition userdb_authenticate :: "cstring \<Rightarrow> cstring option \<Rightarrow> userdb \<Rightarrow> int" where
  "userdb_authenticate name password u =
     (if \<not> g_userdb_ready u then -1
      else case userdb_find_user name u of
        None \<Rightarrow> -1
      | Some user \<Rightarrow>
          if ur_flags user AND USER_FLAG_ACTIVE = 0 then -1
          else if ur_flags user AND USER_FLAG_LOCKED \<noteq> 0 then -1
          else if ur_flags user AND USER_FLAG_NO_PASSWORD \<noteq> 0 then int (unat (ur_privilege user))
          else case password of
            None \<Rightarrow> -1
          | Some pw \<Rightarrow>
              let hash = sha256_hash (map byte_of (take (udb_strlen pw) pw))
              in if sha256_compare hash (ur_password_hash user) = 0 then int (unat (ur_privilege user)) else -1)"

definition userdb_user_count :: "userdb \<Rightarrow> nat" where
  "userdb_user_count u = g_user_count u"

definition userdb_get_user :: "nat \<Rightarrow> userdb \<Rightarrow> UserRecord option" where
  "userdb_get_user index u = (if index \<ge> g_user_count u then None else Some (g_users u ! index))"

definition userdb_find_uid :: "cstring option \<Rightarrow> userdb \<Rightarrow> int" where
  "userdb_find_uid name u =
     (case name of
        None \<Rightarrow> -1
      | Some n \<Rightarrow> if \<not> g_userdb_ready u then -1 else (case userdb_lookup n u of Some i \<Rightarrow> int i | None \<Rightarrow> -1))"

section \<open>The records of a file\<close>

text \<open>The non-empty records of a byte sequence: what the loader is to find.\<close>

definition file_records :: "bytes \<Rightarrow> UserRecord list" where
  "file_records b = filter (\<lambda>r. ur_username r ! 0 \<noteq> NUL)
     (map (\<lambda>i. rec_decode (drop (i * USER_RECORD_SIZE) b)) [0..<length b div USER_RECORD_SIZE])"

text \<open>The tail of that list from a record number on.\<close>

definition records_from :: "bytes \<Rightarrow> nat \<Rightarrow> nat \<Rightarrow> UserRecord list" where
  "records_from b n k = filter (\<lambda>r. ur_username r ! 0 \<noteq> NUL)
     (map (\<lambda>i. rec_decode (drop (i * USER_RECORD_SIZE) b)) [k..<n div USER_RECORD_SIZE])"

lemma records_from_end: "\<not> k * USER_RECORD_SIZE + USER_RECORD_SIZE \<le> n \<Longrightarrow> records_from b n k = []"
proof -
  assume "\<not> k * 66 + 66 \<le> n"
  then have "n div 66 \<le> k" by (simp add: less_eq_div_iff_mult_less_eq not_le div_le_mono)
  then show ?thesis by (simp add: records_from_def)
qed

lemma records_from_step:
  assumes "k * USER_RECORD_SIZE + USER_RECORD_SIZE \<le> n"
  shows "records_from b n k = (let r = rec_decode (drop (k * USER_RECORD_SIZE) b)
    in if ur_username r ! 0 \<noteq> NUL then r # records_from b n (Suc k) else records_from b n (Suc k))"
proof -
  have "k < n div 66" using assms by (simp add: less_eq_div_iff_mult_less_eq Suc_le_eq [symmetric])
  then show ?thesis by (simp add: records_from_def upt_conv_Cons Let_def)
qed

lemma parse_records:
  assumes "length us = USERDB_MAX_USERS" "count \<le> USERDB_MAX_USERS"
    and "userdb_parse buf n (k * USER_RECORD_SIZE) us count = (us', count')"
  shows "length us' = USERDB_MAX_USERS \<and> take count us' = take count us
    \<and> count' = count + length (take (USERDB_MAX_USERS - count) (records_from buf n k))
    \<and> take (count' - count) (drop count us') = take (USERDB_MAX_USERS - count) (records_from buf n k)"
  using assms
proof (induction "n - k * USER_RECORD_SIZE" arbitrary: k us count rule: less_induct)
  case less
  note p = less.prems
  let ?r = "rec_decode (drop (k * 66) buf)"
  consider (full) "count = 8" | (stop) "count < 8" "\<not> k * 66 + 66 \<le> n" | (one) "count < 8" "k * 66 + 66 \<le> n"
    using p(2) by linarith
  then show ?case
  proof cases
    case full
    with p show ?thesis by (simp add: userdb_parse.simps)
  next
    case stop
    then show ?thesis using p records_from_end [of k n] by (simp add: userdb_parse.simps)
  next
    case one
    have next_rec: "k * 66 + 66 = Suc k * 66" by simp
    have dec: "n - Suc k * 66 < n - k * 66" using one by simp
    show ?thesis
    proof (cases "ur_username ?r ! 0 = NUL")
      case True
      then have "userdb_parse buf n (Suc k * 66) us count = (us', count')"
        using p(3) one by (subst (asm) userdb_parse.simps) (simp add: Let_def add.commute)
      moreover have skip: "records_from buf n k = records_from buf n (Suc k)" using True one(2) by (simp add: records_from_step)
      ultimately show ?thesis unfolding skip by (intro less.hyps [OF dec p(1,2)])
    next
      case False
      then have "userdb_parse buf n (Suc k * 66) (us[count := ?r]) (count + 1) = (us', count')"
        using p(3) one by (subst (asm) userdb_parse.simps) (simp add: Let_def add.commute)
      note ih0 = less.hyps [OF dec _ _ this]
      have ih: "length us' = 8" "take (count + 1) us' = take (count + 1) (us[count := ?r])"
        "count' = count + 1 + length (take (8 - (count + 1)) (records_from buf n (Suc k)))"
        "take (count' - (count + 1)) (drop (count + 1) us') = take (8 - (count + 1)) (records_from buf n (Suc k))"
        using ih0 p(1) one(1) by (metis Suc_eq_plus1 Suc_leI length_list_update)+
      have at: "us' ! count = ?r" "take count us' = take count us"
        using ih(1,2) p(1) one(1) by (simp_all add: list_eq_iff_nth_eq) 
      have "drop count us' = ?r # drop (Suc count) us'" using ih(1) one(1) at(1) by (simp add: Cons_nth_drop_Suc [symmetric])
      moreover have "8 - count = Suc (8 - Suc count)" using one(1) by simp
      moreover have "count' - count = Suc (count' - (count + 1))" using ih(3) by simp
      ultimately show ?thesis
        using ih(1,3,4) at False one(2) by (simp only: records_from_step [OF one(2)] Let_def) simp
    qed
  qed
qed

section \<open>Well-formed databases\<close>

definition record_ok :: "UserRecord \<Rightarrow> bool" where
  "record_ok r \<longleftrightarrow> length (ur_username r) = USERDB_USERNAME_LEN \<and> NUL \<in> set (ur_username r) \<and> length (ur_password_hash r) = USERDB_HASH_LEN"

definition userdb_ok :: "userdb \<Rightarrow> bool" where
  "userdb_ok u \<longleftrightarrow> length (g_users u) = USERDB_MAX_USERS \<and> g_user_count u \<le> USERDB_MAX_USERS
     \<and> list_all record_ok (take (g_user_count u) (g_users u))"

lemma cstr_name_at:
  assumes "userdb_ok u" "i < g_user_count u"
  shows "cstr (name_at (g_users u) i) = cstr (ur_username (g_users u ! i))"
proof -
  have i: "i < length (g_users u)" using assms by (simp add: userdb_ok_def)
  have "record_ok (g_users u ! i)"
    using assms by (auto simp: userdb_ok_def list_all_length)
  then obtain c where c: "NUL \<in> set (ur_username (g_users u ! i))" by (simp add: record_ok_def)
  have "drop i (g_users u) = g_users u ! i # drop (Suc i) (g_users u)" using i by (simp add: Cons_nth_drop_Suc)
  then have "name_at (g_users u) i = ur_username (g_users u ! i) @ (map char_of_byte (ur_password_hash (g_users u ! i))
      @ [char_of_byte (ur_privilege (g_users u ! i)), char_of_byte (ur_flags (g_users u ! i))] @ name_at (g_users u) (Suc i))"
    by (simp add: name_at_def rec_chars_def)
  with c show ?thesis by (auto simp: cstr_def takeWhile_append1)
qed

lemma userdb_lookup_Some:
  assumes ok: "userdb_ok u"
  shows "userdb_lookup name u = Some i \<longleftrightarrow> i < g_user_count u \<and> cstr (ur_username (g_users u ! i)) = cstr name
    \<and> (\<forall>j < i. cstr (ur_username (g_users u ! j)) \<noteq> cstr name)"
  using cstr_name_at [OF ok] by (auto simp: userdb_lookup_def find_slot_Some_iff udb_strcmp_def c_strcmp_eq_0)

lemma digest_length: "length (sha256_hash m) = 32"
  by (simp add: sha256_hash_def sha256_final_def Let_def length_concat comp_def upt_rec)

text \<open>The decision, over the record that a lookup finds and the digest of the standard.\<close>

definition may_log_in :: "UserRecord \<Rightarrow> cstring option \<Rightarrow> bool" where
  "may_log_in r password \<longleftrightarrow> bit (ur_flags r) 0 \<and> \<not> bit (ur_flags r) 1
     \<and> (bit (ur_flags r) 2 \<or> (\<exists>pw. password = Some pw \<and> fips_sha256 (map byte_of (cstr pw)) = ur_password_hash r))"

lemma flag_bits: "w AND 1 = 0 \<longleftrightarrow> \<not> bit w 0" "w AND 2 = 0 \<longleftrightarrow> \<not> bit w 1" "w AND 4 = 0 \<longleftrightarrow> \<not> bit w 2" for w :: u8
proof -
  have "w AND 2 ^ n = 0 \<longleftrightarrow> \<not> bit w n" for n by (simp add: bit_iff_and_push_bit_not_eq_0 push_bit_eq_mult)
  from this [of 0] this [of 1] this [of 2]
  show "w AND 1 = 0 \<longleftrightarrow> \<not> bit w 0" "w AND 2 = 0 \<longleftrightarrow> \<not> bit w 1" "w AND 4 = 0 \<longleftrightarrow> \<not> bit w 2" by simp_all
qed

lemma take_strlen: "take (udb_strlen pw) pw = cstr pw"
  by (simp add: udb_strlen_def cstr_def takeWhile_eq_take [symmetric])

lemma authenticate_record:
  assumes ok: "userdb_ok u" and ready: "g_userdb_ready u" and i: "userdb_lookup name u = Some i"
  shows "userdb_authenticate name password u =
    (if may_log_in (g_users u ! i) password then int (unat (ur_privilege (g_users u ! i))) else -1)"
proof -
  let ?r = "g_users u ! i"
  have "i < g_user_count u" using i ok by (simp add: userdb_lookup_Some)
  then have len: "length (ur_password_hash ?r) = 32" using ok by (auto simp: userdb_ok_def record_ok_def list_all_length)
  have cmp: "sha256_compare (sha256_hash m) (ur_password_hash ?r) = 0 \<longleftrightarrow> fips_sha256 m = ur_password_hash ?r" for m
    using sha256_compare_eq [OF digest_length len, of m] by (simp add: sha256_hash_fips)
  show ?thesis
    using ready i by (auto simp: userdb_authenticate_def userdb_find_user_def flag_bits may_log_in_def cmp take_strlen Let_def split: option.splits)
qed

section \<open>Properties\<close>

text \<open>
  Property C31: authentication is exact. A log-in returns a privilege if and only if the first record with
  that name is active, not locked, and either needs no password or its digest is the SHA-256 digest (as
  FIPS 180-4 defines it) of the given password; the privilege is that record's. Everything else is -1.
\<close>

theorem userdb_authenticate_exact:
  assumes "userdb_ok u"
  shows "userdb_authenticate name password u = p \<and> 0 \<le> p \<longleftrightarrow>
    g_userdb_ready u \<and> (\<exists>i < g_user_count u. cstr (ur_username (g_users u ! i)) = cstr name
      \<and> (\<forall>j < i. cstr (ur_username (g_users u ! j)) \<noteq> cstr name)
      \<and> may_log_in (g_users u ! i) password \<and> p = int (unat (ur_privilege (g_users u ! i))))"
proof (cases "g_userdb_ready u")
  case True
  show ?thesis
  proof (cases "userdb_lookup name u")
    case None
    then have "userdb_authenticate name password u = -1" using True by (simp add: userdb_authenticate_def userdb_find_user_def)
    moreover have "\<not> (i < g_user_count u \<and> cstr (ur_username (g_users u ! i)) = cstr name
        \<and> (\<forall>j < i. cstr (ur_username (g_users u ! j)) \<noteq> cstr name))" for i
      using None userdb_lookup_Some [OF assms, of name i] by simp
    ultimately show ?thesis by auto
  next
    case (Some i)
    note r = authenticate_record [OF assms True Some, of password]
    have "userdb_lookup name u = Some j \<longleftrightarrow> j = i" for j using Some by auto
    then have found: "j < g_user_count u \<and> cstr (ur_username (g_users u ! j)) = cstr name
        \<and> (\<forall>k < j. cstr (ur_username (g_users u ! k)) \<noteq> cstr name) \<longleftrightarrow> j = i" for j
      using userdb_lookup_Some [OF assms, of name j] by simp
    have "(\<exists>j < g_user_count u. cstr (ur_username (g_users u ! j)) = cstr name
        \<and> (\<forall>k < j. cstr (ur_username (g_users u ! k)) \<noteq> cstr name)
        \<and> may_log_in (g_users u ! j) password \<and> p = int (unat (ur_privilege (g_users u ! j))))
      \<longleftrightarrow> (\<exists>j. (j < g_user_count u \<and> cstr (ur_username (g_users u ! j)) = cstr name
        \<and> (\<forall>k < j. cstr (ur_username (g_users u ! k)) \<noteq> cstr name))
        \<and> may_log_in (g_users u ! j) password \<and> p = int (unat (ur_privilege (g_users u ! j))))"
      by (simp only: conj_assoc)
    also have "\<dots> \<longleftrightarrow> may_log_in (g_users u ! i) password \<and> p = int (unat (ur_privilege (g_users u ! i)))"
      by (simp only: found simp_thms)
    finally show ?thesis using True r by auto
  qed
qed (simp add: userdb_authenticate_def)

definition guest_record :: UserRecord where
  "guest_record = \<lparr>ur_username = ''guest'' @ replicate 27 NUL, ur_password_hash = replicate 32 0, ur_privilege = 100, ur_flags = 5\<rparr>"

definition guest_db :: userdb where
  "guest_db = \<lparr>g_users = replicate 8 guest_record, g_user_count = 1, g_userdb_ready = True\<rparr>"

theorem userdb_authenticate_exact_witness: "userdb_authenticate ''guest'' None guest_db = 100"
proof -
  have ok: "userdb_ok guest_db" by (simp add: userdb_ok_def guest_db_def record_ok_def guest_record_def)
  have "cstr (ur_username guest_record) = cstr ''guest''" "may_log_in guest_record None" "ur_privilege guest_record = 100"
    by (simp_all add: guest_record_def cstr_def may_log_in_def bit_numeral_rec)
  then have "\<exists>i < g_user_count guest_db. cstr (ur_username (g_users guest_db ! i)) = cstr ''guest''
      \<and> (\<forall>j < i. cstr (ur_username (g_users guest_db ! j)) \<noteq> cstr ''guest'')
      \<and> may_log_in (g_users guest_db ! i) None \<and> 100 = int (unat (ur_privilege (g_users guest_db ! i)))"
    by (intro exI [of _ 0]) (simp add: guest_db_def)
  then show ?thesis using userdb_authenticate_exact [OF ok, of "''guest''" None 100] by (simp add: guest_db_def)
qed

text \<open>
  Property: the loader reads the whole database. When the read of \<open>/etc/shadow\<close> returns \<open>n\<close> bytes, the
  table holds exactly the non-empty records among the whole records of those bytes, in order, at most
  eight; the database is ready. A failed or empty read leaves it empty and not ready.
\<close>

theorem userdb_init_loads:
  assumes "length (g_users u) = USERDB_MAX_USERS"
    and rd: "kfs_read_file ops env (Some USERDB_PATH) stack (USERDB_MAX_USERS * USER_RECORD_SIZE) s = Some ((rc, buf), s1)"
    and "rc \<le> int (length buf)"
  shows "\<exists>u'. userdb_init ops env stack u s = Some ((0 < rc, u'), s1) \<and> g_userdb_ready u' = (0 < rc)
    \<and> take (g_user_count u') (g_users u') = take USERDB_MAX_USERS (file_records (take (nat rc) buf))
    \<and> (\<forall>i. userdb_get_user i u' \<noteq> None \<longleftrightarrow> i < length (take USERDB_MAX_USERS (file_records (take (nat rc) buf))))"
proof (cases "0 < rc")
  case False
  then show ?thesis using rd by (simp add: userdb_init_def file_records_def userdb_get_user_def)
next
  case True
  define n where "n = nat rc"
  obtain us count where p: "userdb_parse buf n 0 (g_users u) 0 = (us, count)" by fastforce
  have n: "n \<le> length buf" using True assms(3) by (simp add: n_def)
  have "rec_decode (drop (i * 66) (take n buf)) = rec_decode (drop (i * 66) buf)" if "i < n div 66" for i
  proof -
    have "Suc i * 66 \<le> n" using that by (simp add: less_eq_div_iff_mult_less_eq Suc_le_eq [symmetric])
    then have "66 \<le> n - i * 66" by simp
    then show ?thesis using n by (simp add: rec_decode_def drop_take min_def)
  qed
  then have same: "map (\<lambda>i. rec_decode (drop (i * 66) (take n buf))) [0..<n div 66] = map (\<lambda>i. rec_decode (drop (i * 66) buf)) [0..<n div 66]"
    by (intro map_cong) auto
  have len: "length (take n buf) = n" using n by simp
  have recs: "records_from buf n 0 = file_records (take n buf)"
    unfolding records_from_def file_records_def len same ..
  have "length us = 8 \<and> take 0 us = take 0 (g_users u) \<and> count = 0 + length (take (8 - 0) (records_from buf n 0))
      \<and> take (count - 0) (drop 0 us) = take (8 - 0) (records_from buf n 0)"
    using p by (intro parse_records assms(1)) simp_all
  then have "count = length (take 8 (file_records (take n buf)))" "take count us = take 8 (file_records (take n buf))"
    unfolding recs drop0 diff_zero add_0 by blast+
  then show ?thesis using True rd p by (auto simp: userdb_init_def n_def [symmetric] userdb_get_user_def)
qed

definition shadow_bytes :: bytes where
  "shadow_bytes = map byte_of (''guest'' @ replicate 27 NUL) @ replicate 32 0 @ [100, 5]"

text \<open>A file system whose only file is a database of one record.\<close>

definition shadow_entry :: VfsFileEntry where
  "shadow_entry = empty_entry\<lparr>fe_filename := ''/etc/shadow'' @ replicate 21 NUL, fe_type := VFS_TYPE_REGULAR, fe_size := 66\<rparr>"

definition shadow_kfs :: "medium kfs" where
  "shadow_kfs = one_file_kfs shadow_entry shadow_bytes"

lemma shadow_read:
  "\<exists>buf s'. kfs_read_file ram_ops env (Some USERDB_PATH) (replicate 1024 0) (8 * 66) shadow_kfs = Some ((66, buf), s')
    \<and> take 66 buf = shadow_bytes \<and> length buf = 1024"
proof -
  have plain: "\<not> kfs_read_only USERDB_PATH" and named: "file_named USERDB_PATH shadow_entry" by code_simp+
  have len: "length shadow_bytes = 66" by (simp add: shadow_bytes_def)
  have e: "unat (fe_size shadow_entry) = length shadow_bytes" "fe_start_sector shadow_entry = 0"
    by (simp_all add: shadow_entry_def len empty_entry_def)
  obtain buf s' where "kfs_read_file ram_ops env (Some USERDB_PATH) (replicate 1024 0) 528 shadow_kfs = Some ((int (length shadow_bytes), buf), s')"
    "take (length shadow_bytes) buf = shadow_bytes" "length buf = length (replicate 1024 (0 :: u8))"
    unfolding shadow_kfs_def by (rule one_file_read [OF plain named e, of 528 "replicate 1024 0" env]) (simp_all add: len)
  then show ?thesis by (simp add: len)
qed

theorem userdb_init_loads_witness:
  "\<forall>env. \<exists>u' s'. userdb_init ram_ops env (replicate 1024 0) guest_db shadow_kfs = Some ((True, u'), s')
    \<and> take (g_user_count u') (g_users u') = [guest_record]"
proof
  fix env
  obtain buf s' where rd: "kfs_read_file ram_ops env (Some USERDB_PATH) (replicate 1024 0) (8 * 66) shadow_kfs = Some ((66, buf), s')"
    "take 66 buf = shadow_bytes" "length buf = 1024" using shadow_read by blast
  have "file_records shadow_bytes = [guest_record]" by code_simp
  then have "take 8 (file_records (take (nat 66) buf)) = [guest_record]" by (simp add: rd(2))
  moreover have "length (g_users guest_db) = 8" "(66 :: int) \<le> int (length buf)" by (simp_all add: guest_db_def rd(3))
  ultimately show "\<exists>u' s'. userdb_init ram_ops env (replicate 1024 0) guest_db shadow_kfs = Some ((True, u'), s')
    \<and> take (g_user_count u') (g_users u') = [guest_record]"
    using userdb_init_loads [OF _ rd(1), of guest_db] by auto
qed

end
