(* ===== verification/Descriptors.thy ===== *)
theory Descriptors
  imports Net Kfs Userdb
begin

text \<open>
  File descriptors of user processes (\<open>kernel/arch/x86_64/kernel_x64.c\<close>, phases 41, 42 and 52): the terminal, pipes,
  files and sockets behind one table per process, and the system calls on them. User memory is a function on
  64-bit addresses; waiting is a list of timer interrupts, as in the model of the link. Results are \<open>None\<close> where
  a read of a FAT volume does not end or the list of interrupts is too short.
\<close>

section \<open>User memory\<close>

abbreviation USER_VADDR_MIN_64 :: u64 where "USER_VADDR_MIN_64 \<equiv> 0x10000000"
abbreviation USER_VADDR_MAX_64 :: u64 where "USER_VADDR_MAX_64 \<equiv> 0x40000000"
abbreviation SYS_IO_PATH_MAX :: nat where "SYS_IO_PATH_MAX \<equiv> 64"
abbreviation SYS_IO_BUF_MAX :: nat where "SYS_IO_BUF_MAX \<equiv> 4096"

type_synonym memory64 = "u64 \<Rightarrow> u8"

definition load64 :: "memory64 \<Rightarrow> u64 \<Rightarrow> nat \<Rightarrow> bytes" where
  "load64 m a n = map (\<lambda>i. m (a + of_nat i)) [0..<n]"

definition store64 :: "memory64 \<Rightarrow> u64 \<Rightarrow> bytes \<Rightarrow> memory64" where
  "store64 m a bs = (\<lambda>x. if unat (x - a) < length bs then bs ! unat (x - a) else m x)"

definition user_ptr_range_valid_64 :: "u64 \<Rightarrow> u64 \<Rightarrow> bool" where
  "user_ptr_range_valid_64 addr len \<longleftrightarrow>
     (if addr = 0 \<or> len = 0 then False
      else let e = addr + len in if e < addr then False else addr \<ge> USER_VADDR_MIN_64 \<and> e \<le> USER_VADDR_MAX_64)"

text \<open>The string when it ends within 64 bytes; \<open>None\<close> is the result -1.\<close>

definition copy_user_path_64 :: "memory64 \<Rightarrow> u64 \<Rightarrow> cstring option" where
  "copy_user_path_64 m user_ptr =
     (if user_ptr = 0 then None
      else if user_ptr < USER_VADDR_MIN_64 \<or> user_ptr \<ge> USER_VADDR_MAX_64 then None
      else let src = map char_of_byte (load64 m user_ptr SYS_IO_PATH_MAX) in
        if NUL \<in> set src then Some (cstr src) else None)"

section \<open>The terminal\<close>

abbreviation TTY_BUF_SIZE :: nat where "TTY_BUF_SIZE \<equiv> 256"

record KernelTTY =
  input_buf :: bytes
  input_read :: nat
  input_write :: nat
  input_count :: nat
  cooked :: bool
  line_buf :: bytes
  line_len :: nat
  line_ready :: bool

definition tty_init :: KernelTTY where
  "tty_init = \<lparr>input_buf = replicate TTY_BUF_SIZE 0, input_read = 0, input_write = 0, input_count = 0, cooked = True,
     line_buf = replicate TTY_BUF_SIZE 0, line_len = 0, line_ready = False\<rparr>"

definition tty_put :: "u8 \<Rightarrow> KernelTTY \<Rightarrow> KernelTTY" where
  "tty_put c t = t\<lparr>input_buf := (input_buf t)[input_write t := c], input_write := (input_write t + 1) mod TTY_BUF_SIZE,
     input_count := input_count t + 1\<rparr>"

fun tty_copy_line :: "bytes \<Rightarrow> KernelTTY \<Rightarrow> KernelTTY" where
  "tty_copy_line [] t = t"
| "tty_copy_line (c # cs) t = (if input_count t < TTY_BUF_SIZE then tty_copy_line cs (tty_put c t) else t)"

definition tty_push_char :: "u8 \<Rightarrow> KernelTTY \<Rightarrow> KernelTTY" where
  "tty_push_char c t =
     (if cooked t then
        (if c = 10 \<or> c = 13 then
           let t1 = tty_copy_line (take (line_len t) (line_buf t)) t;
               t2 = (if input_count t1 < TTY_BUF_SIZE then tty_put 10 t1 else t1)
           in t2\<lparr>line_len := 0, line_ready := True\<rparr>
         else if c = 8 \<or> c = 127 then (if line_len t > 0 then t\<lparr>line_len := line_len t - 1\<rparr> else t)
         else if c = 3 then t\<lparr>line_len := 0\<rparr>
         else if line_len t < TTY_BUF_SIZE - 1 then t\<lparr>line_buf := (line_buf t)[line_len t := c], line_len := line_len t + 1\<rparr>
         else t)
      else if input_count t < TTY_BUF_SIZE then tty_put c t else t)"

definition tty_take :: "KernelTTY \<Rightarrow> KernelTTY" where
  "tty_take t = t\<lparr>input_read := (input_read t + 1) mod TTY_BUF_SIZE, input_count := input_count t - 1\<rparr>"

fun tty_read_loop :: "nat \<Rightarrow> KernelTTY \<Rightarrow> bytes \<times> KernelTTY" where
  "tty_read_loop 0 t = ([], t)"
| "tty_read_loop (Suc n) t =
     (if input_count t > 0 then (case tty_read_loop n (tty_take t) of (cs, t') \<Rightarrow> (input_buf t ! input_read t # cs, t')) else ([], t))"

definition tty_read :: "nat \<Rightarrow> KernelTTY \<Rightarrow> bytes \<times> KernelTTY" where
  "tty_read mx t = (case tty_read_loop mx t of (cs, t1) \<Rightarrow>
     (cs, if cooked t1 \<and> input_count t1 = 0 then t1\<lparr>line_ready := False\<rparr> else t1))"

section \<open>Pipes and descriptors\<close>

abbreviation PIPE_BUF_SIZE :: nat where "PIPE_BUF_SIZE \<equiv> 4096"
abbreviation MAX_PIPES :: nat where "MAX_PIPES \<equiv> 8"
abbreviation FD_MAX :: nat where "FD_MAX \<equiv> 16"

record KernelPipe =
  kp_buf :: bytes
  read_pos :: nat
  write_pos :: nat
  kp_count :: nat
  kp_active :: bool
  read_open :: bool
  write_open :: bool

datatype FdType = FD_TYPE_NONE | FD_TYPE_FILE | FD_TYPE_TTY | FD_TYPE_PIPE_R | FD_TYPE_PIPE_W | FD_TYPE_SOCK_TCP | FD_TYPE_SOCK_UDP

record FdEntry =
  fd_type :: FdType
  fd_flags :: u8
  fd_path :: cstring
  fd_offset :: u32
  pipe_idx :: u8
  sock_peer_ip :: u32
  sock_peer_port :: u16

type_synonym fd_table = "FdEntry list"

text \<open>What the calls work on besides the table; \<open>slice\<close> is the remaining time slice of the current task, if any.\<close>

record ('c, 'd) fdsys =
  kernel_pipes :: "KernelPipe list"
  kernel_tty0 :: KernelTTY
  tty_output :: bytes
  fs_net :: "'c net"
  fs_kfs :: "'d kfs"
  umem :: memory64
  slice :: "u16 option"
  fd_tmp_buf :: bytes

definition no_fd :: FdEntry where
  "no_fd = \<lparr>fd_type = FD_TYPE_NONE, fd_flags = 0, fd_path = [], fd_offset = 0, pipe_idx = 0, sock_peer_ip = 0, sock_peer_port = 0\<rparr>"

definition fd_table_init :: fd_table where
  "fd_table_init = (replicate FD_MAX no_fd)[0 := no_fd\<lparr>fd_type := FD_TYPE_TTY, fd_flags := 1\<rparr>,
     1 := no_fd\<lparr>fd_type := FD_TYPE_TTY, fd_flags := 2\<rparr>, 2 := no_fd\<lparr>fd_type := FD_TYPE_TTY, fd_flags := 2\<rparr>]"

definition fd_alloc :: "fd_table \<Rightarrow> nat option" where
  "fd_alloc fdt = find_slot (\<lambda>e. fd_type e = FD_TYPE_NONE) fdt"

definition fd_alloc_at :: "fd_table \<Rightarrow> int \<Rightarrow> int" where
  "fd_alloc_at fdt target =
     (if target < 0 \<or> target \<ge> int FD_MAX then -1
      else if fd_type (fdt ! nat target) \<noteq> FD_TYPE_NONE then -1 else target)"

definition upd_pipe :: "nat \<Rightarrow> (KernelPipe \<Rightarrow> KernelPipe) \<Rightarrow> ('c, 'd) fdsys \<Rightarrow> ('c, 'd) fdsys" where
  "upd_pipe i f s = s\<lparr>kernel_pipes := (kernel_pipes s)[i := f (kernel_pipes s ! i)]\<rparr>"

definition on_tcp :: "'c nic \<Rightarrow> (tcp_state \<Rightarrow> 'r \<times> tcp_state) \<Rightarrow> ('c, 'd) fdsys \<Rightarrow> 'r \<times> ('c, 'd) fdsys" where
  "on_tcp nic f s = (case f (nt_tcp (fs_net s)) of (r, t) \<Rightarrow> (r, s\<lparr>fs_net := tcp_flush nic ((fs_net s)\<lparr>nt_tcp := t\<rparr>)\<rparr>))"

definition on_udp :: "('c link udp \<Rightarrow> 'r \<times> 'c link udp) \<Rightarrow> ('c, 'd) fdsys \<Rightarrow> 'r \<times> ('c, 'd) fdsys" where
  "on_udp f s = (case f (nt_udp (fs_net s)) of (r, u) \<Rightarrow> (r, s\<lparr>fs_net := (fs_net s)\<lparr>nt_udp := u\<rparr>\<rparr>))"

abbreviation now32 :: "('c, 'd) fdsys \<Rightarrow> u32" where
  "now32 s \<equiv> ucast (net_tick (net_link (fs_net s)))"

definition pipe_close_end :: "FdType \<Rightarrow> KernelPipe \<Rightarrow> KernelPipe" where
  "pipe_close_end ty p =
     (let p1 = (if ty = FD_TYPE_PIPE_R then p\<lparr>read_open := False\<rparr> else p\<lparr>write_open := False\<rparr>)
      in if \<not> read_open p1 \<and> \<not> write_open p1 then p1\<lparr>kp_active := False\<rparr> else p1)"

definition fd_close_entry :: "'c nic \<Rightarrow> int \<Rightarrow> fd_table \<Rightarrow> ('c, 'd) fdsys \<Rightarrow> fd_table \<times> ('c, 'd) fdsys" where
  "fd_close_entry nic fd fdt s =
     (if fd < 0 \<or> fd \<ge> int FD_MAX then (fdt, s)
      else let e = fdt ! nat fd; i = unat (pipe_idx e);
               s1 = (if fd_type e = FD_TYPE_PIPE_R \<or> fd_type e = FD_TYPE_PIPE_W then
                       (if i < MAX_PIPES then upd_pipe i (pipe_close_end (fd_type e)) s else s)
                     else if fd_type e = FD_TYPE_SOCK_TCP \<and> pipe_idx e \<noteq> 0xFF then snd (on_tcp nic (tcp_close (now32 s) (int i)) s)
                     else if fd_type e = FD_TYPE_SOCK_UDP \<and> pipe_idx e \<noteq> 0xFF then snd (on_udp (udp_close (int i)) s)
                     else s)
        in (fdt[nat fd := e\<lparr>fd_type := FD_TYPE_NONE, fd_flags := 0, fd_path := [], fd_offset := 0, pipe_idx := 0\<rparr>], s1))"

definition fd_copy :: "fd_table \<Rightarrow> fd_table" where
  "fd_copy src = map (\<lambda>e. e) src"

definition fd_valid :: "int \<Rightarrow> fd_table \<Rightarrow> bool" where
  "fd_valid fd fdt \<longleftrightarrow> \<not> (fd < 0 \<or> fd \<ge> int FD_MAX \<or> fd_type (fdt ! nat fd) = FD_TYPE_NONE)"

section \<open>System calls on files\<close>

definition sys_open :: "'d disk_ops \<Rightarrow> u64 \<Rightarrow> u64 \<Rightarrow> fd_table \<Rightarrow> ('c, 'd) fdsys \<Rightarrow> (int \<times> fd_table \<times> ('c, 'd) fdsys) option" where
  "sys_open ops path_ptr flags fdt s =
     (case fd_alloc fdt of
        None \<Rightarrow> Some (-1, fdt, s)
      | Some fd \<Rightarrow>
          (case copy_user_path_64 (umem s) path_ptr of
             None \<Rightarrow> Some (-1, fdt, s)
           | Some path \<Rightarrow>
               (case kfs_find_file ops path (fs_kfs s) of
                  None \<Rightarrow> None
                | Some (None, k) \<Rightarrow> Some (-1, fdt, s\<lparr>fs_kfs := k\<rparr>)
                | Some (Some fe, k) \<Rightarrow>
                    let fl = ucast (flags AND 3) in
                    Some (int fd, fdt[fd := (fdt ! fd)\<lparr>fd_type := FD_TYPE_FILE, fd_flags := (if fl = 0 then 1 else fl),
                      fd_offset := 0, fd_path := path\<rparr>], s\<lparr>fs_kfs := k\<rparr>))))"

fun pipe_read_loop :: "nat \<Rightarrow> KernelPipe \<Rightarrow> bytes \<times> KernelPipe" where
  "pipe_read_loop 0 p = ([], p)"
| "pipe_read_loop (Suc n) p =
     (if kp_count p > 0
      then (case pipe_read_loop n (p\<lparr>read_pos := (read_pos p + 1) mod PIPE_BUF_SIZE, kp_count := kp_count p - 1\<rparr>) of
              (bs, p') \<Rightarrow> (kp_buf p ! read_pos p # bs, p'))
      else ([], p))"

fun pipe_write_loop :: "bytes \<Rightarrow> KernelPipe \<Rightarrow> nat \<times> KernelPipe" where
  "pipe_write_loop [] p = (0, p)"
| "pipe_write_loop (b # bs) p =
     (if kp_count p < PIPE_BUF_SIZE
      then (case pipe_write_loop bs (p\<lparr>kp_buf := (kp_buf p)[write_pos p := b], write_pos := (write_pos p + 1) mod PIPE_BUF_SIZE,
                 kp_count := kp_count p + 1\<rparr>) of (n, p') \<Rightarrow> (Suc n, p'))
      else (0, p))"

definition yield_slice :: "('c, 'd) fdsys \<Rightarrow> ('c, 'd) fdsys" where
  "yield_slice s = s\<lparr>slice := map_option (\<lambda>_. 1) (slice s)\<rparr>"

definition sys_read_fd :: "'c nic \<Rightarrow> 'd disk_ops \<Rightarrow> kenv \<Rightarrow> int \<Rightarrow> u64 \<Rightarrow> u64 \<Rightarrow> fd_table \<Rightarrow> ('c, 'd) fdsys
    \<Rightarrow> (int \<times> fd_table \<times> ('c, 'd) fdsys) option" where
  "sys_read_fd nic ops env fd buf_ptr count0 fdt s =
     (if \<not> fd_valid fd fdt then Some (-1, fdt, s)
      else if count0 = 0 then Some (0, fdt, s)
      else let count = (if count0 > of_nat SYS_IO_BUF_MAX then of_nat SYS_IO_BUF_MAX else count0); c = unat count; e = fdt ! nat fd in
        if \<not> user_ptr_range_valid_64 buf_ptr count then Some (-1, fdt, s)
        else case fd_type e of
          FD_TYPE_TTY \<Rightarrow>
            (case tty_read c (kernel_tty0 s) of (bs, t) \<Rightarrow>
               let s1 = s\<lparr>kernel_tty0 := t\<rparr> in
               Some (int (length bs), fdt, if bs \<noteq> [] then s1\<lparr>umem := store64 (umem s1) buf_ptr bs\<rparr> else yield_slice s1))
        | FD_TYPE_PIPE_R \<Rightarrow>
            (let i = unat (pipe_idx e) in
             if i \<ge> MAX_PIPES \<or> \<not> kp_active (kernel_pipes s ! i) then Some (-1, fdt, s)
             else case pipe_read_loop c (kernel_pipes s ! i) of (bs, p) \<Rightarrow>
               Some (int (length bs), fdt, (upd_pipe i (\<lambda>_. p) s)\<lparr>umem := store64 (umem s) buf_ptr bs\<rparr>))
        | FD_TYPE_FILE \<Rightarrow>
            (case kfs_read_file ops env (Some (fd_path e)) (fd_tmp_buf s) SYS_IO_BUF_MAX (fs_kfs s) of
               None \<Rightarrow> None
             | Some ((tot, buf), k) \<Rightarrow>
                 let s1 = s\<lparr>fs_kfs := k, fd_tmp_buf := buf\<rparr> in
                 if tot < 0 then Some (-1, fdt, s1)
                 else let avail = tot - sint (fd_offset e) in
                   if avail \<le> 0 then Some (0, fdt, s1)
                   else let n = (if int c < avail then int c else avail); off = unat (fd_offset e) in
                     Some (n, fdt[nat fd := e\<lparr>fd_offset := fd_offset e + of_int n\<rparr>],
                       s1\<lparr>umem := store64 (umem s1) buf_ptr (take (nat n) (drop off buf))\<rparr>))
        | FD_TYPE_SOCK_TCP \<Rightarrow>
            (if pipe_idx e = 0xFF then Some (-1, fdt, s)
             else case on_tcp nic (tcp_recv (int (unat (pipe_idx e))) (int c)) s of ((n, bs), s1) \<Rightarrow>
               let s2 = s1\<lparr>umem := store64 (umem s1) buf_ptr bs\<rparr>
               in Some (n, fdt, if n = 0 then yield_slice s2 else s2))
        | FD_TYPE_SOCK_UDP \<Rightarrow>
            (if pipe_idx e = 0xFF then Some (-1, fdt, s)
             else case on_udp (udp_recvfrom (int (unat (pipe_idx e))) c) s of ((n, bs, _), s1) \<Rightarrow>
               let s2 = s1\<lparr>umem := store64 (umem s1) buf_ptr bs\<rparr>
               in Some (n, fdt, if n = 0 then yield_slice s2 else s2))
        | _ \<Rightarrow> Some (-1, fdt, s))"

definition sys_write_fd :: "'c nic \<Rightarrow> 'd disk_ops \<Rightarrow> int \<Rightarrow> u64 \<Rightarrow> u64 \<Rightarrow> fd_table \<Rightarrow> ('c, 'd) fdsys \<Rightarrow> int \<times> ('c, 'd) fdsys" where
  "sys_write_fd nic ops fd buf_ptr count0 fdt s =
     (if \<not> fd_valid fd fdt then (-1, s)
      else if count0 = 0 then (0, s)
      else let count = (if count0 > of_nat SYS_IO_BUF_MAX then of_nat SYS_IO_BUF_MAX else count0); c = unat count; e = fdt ! nat fd in
        if \<not> user_ptr_range_valid_64 buf_ptr count then (-1, s)
        else let data = load64 (umem s) buf_ptr c in
          case fd_type e of
            FD_TYPE_TTY \<Rightarrow> (int c, s\<lparr>tty_output := tty_output s @ data\<rparr>)
          | FD_TYPE_PIPE_W \<Rightarrow>
              (let i = unat (pipe_idx e) in
               if i \<ge> MAX_PIPES \<or> \<not> kp_active (kernel_pipes s ! i) then (-1, s)
               else case pipe_write_loop data (kernel_pipes s ! i) of (n, p) \<Rightarrow> (int n, upd_pipe i (\<lambda>_. p) s))
          | FD_TYPE_FILE \<Rightarrow>
              (case kfs_write_file ops (Some (fd_path e)) data c (fs_kfs s) of (rc, k) \<Rightarrow>
                 (if rc < 0 then -1 else int c, s\<lparr>fs_kfs := k\<rparr>))
          | FD_TYPE_SOCK_TCP \<Rightarrow>
              (if pipe_idx e = 0xFF then (-1, s) else on_tcp nic (tcp_send (now32 s) (int (unat (pipe_idx e))) data (int c)) s)
          | FD_TYPE_SOCK_UDP \<Rightarrow>
              (if pipe_idx e = 0xFF then (-1, s)
               else on_udp (udp_sendto (int (unat (pipe_idx e))) (sock_peer_ip e) (sock_peer_port e) data (int c)) s)
          | _ \<Rightarrow> (-1, s))"

section \<open>System calls on sockets\<close>

definition sys_socket :: "'c nic \<Rightarrow> u64 \<Rightarrow> fd_table \<Rightarrow> ('c, 'd) fdsys \<Rightarrow> int \<times> fd_table \<times> ('c, 'd) fdsys" where
  "sys_socket nic type fdt s =
     (case fd_alloc fdt of
        None \<Rightarrow> (-1, fdt, s)
      | Some fd \<Rightarrow>
          let e = (fdt ! fd)\<lparr>sock_peer_ip := 0, sock_peer_port := 0\<rparr>; fdt1 = fdt[fd := e] in
          if type = 1 then (int fd, fdt1[fd := e\<lparr>fd_type := FD_TYPE_SOCK_TCP, pipe_idx := 0xFF, fd_flags := 3\<rparr>], s)
          else if type = 2 then
            (case on_udp (udp_bind 0) s of (sock, s1) \<Rightarrow>
               if sock < 0 then (-1, fd_close_entry nic (int fd) fdt1 s1)
               else (int fd, fdt1[fd := e\<lparr>fd_type := FD_TYPE_SOCK_UDP, pipe_idx := of_int sock, fd_flags := 3\<rparr>], s1))
          else (-1, fd_close_entry nic (int fd) fdt1 s))"

fun connect_wait :: "'c nic \<Rightarrow> nat \<Rightarrow> u64 \<Rightarrow> ('c \<Rightarrow> 'c) list \<Rightarrow> 'c net \<Rightarrow> (bool \<times> ('c \<Rightarrow> 'c) list \<times> 'c net) option" where
  "connect_wait nic sock start evs n =
     (if \<not> net_tick (net_link n) - start < TIMER_HZ * 5 then Some (False, evs, n)
      else let st = tc_state (g_tcbs (nt_tcp n) ! sock) in
        if st = TCP_ESTABLISHED then Some (True, evs, n)
        else if st = TCP_CLOSED then Some (False, evs, n)
        else (case evs of [] \<Rightarrow> None | ev # evs' \<Rightarrow> connect_wait nic sock start evs' (net_irq nic ev n)))"

declare connect_wait.simps [simp del]

definition fd_in_range :: "int \<Rightarrow> bool" where
  "fd_in_range fd \<longleftrightarrow> \<not> (fd < 0 \<or> fd \<ge> int FD_MAX)"

definition sys_connect :: "'c nic \<Rightarrow> int \<Rightarrow> u32 \<Rightarrow> u16 \<Rightarrow> ('c \<Rightarrow> 'c) list \<Rightarrow> fd_table \<Rightarrow> ('c, 'd) fdsys
    \<Rightarrow> (int \<times> ('c \<Rightarrow> 'c) list \<times> fd_table \<times> ('c, 'd) fdsys) option" where
  "sys_connect nic fd ip port evs fdt s =
     (if \<not> fd_in_range fd then Some (-1, evs, fdt, s)
      else let e = fdt ! nat fd in
        if fd_type e = FD_TYPE_SOCK_UDP then Some (0, evs, fdt[nat fd := e\<lparr>sock_peer_ip := ip, sock_peer_port := port\<rparr>], s)
        else if fd_type e \<noteq> FD_TYPE_SOCK_TCP then Some (-1, evs, fdt, s)
        else case on_tcp nic (tcp_connect (now32 s) ip port) s of (sock, s1) \<Rightarrow>
          if sock < 0 then Some (-1, evs, fdt, s1)
          else (case connect_wait nic (nat sock) (net_tick (net_link (fs_net s1))) evs (fs_net s1) of
                  None \<Rightarrow> None
                | Some (ok, evs', n) \<Rightarrow> Some (if ok then 0 else -1, evs', fdt[nat fd := e\<lparr>pipe_idx := of_int sock\<rparr>], s1\<lparr>fs_net := n\<rparr>)))"

definition sys_bind :: "int \<Rightarrow> u16 \<Rightarrow> fd_table \<Rightarrow> ('c, 'd) fdsys \<Rightarrow> int \<times> fd_table \<times> ('c, 'd) fdsys" where
  "sys_bind fd port fdt s =
     (if \<not> fd_in_range fd then (-1, fdt, s)
      else let e = fdt ! nat fd in
        if fd_type e = FD_TYPE_SOCK_UDP then
          let s1 = (if pipe_idx e \<noteq> 0xFF then snd (on_udp (udp_close (int (unat (pipe_idx e)))) s) else s) in
          (case on_udp (udp_bind port) s1 of (sock, s2) \<Rightarrow>
             if sock < 0 then (-1, fdt[nat fd := e\<lparr>pipe_idx := 0xFF\<rparr>], s2)
             else (0, fdt[nat fd := e\<lparr>pipe_idx := of_int sock\<rparr>], s2))
        else if fd_type e = FD_TYPE_SOCK_TCP then
          (if pipe_idx e \<noteq> 0xFF then (-1, fdt, s) else (0, fdt[nat fd := e\<lparr>sock_peer_port := port\<rparr>], s))
        else (-1, fdt, s))"

definition sys_listen :: "'c nic \<Rightarrow> int \<Rightarrow> fd_table \<Rightarrow> ('c, 'd) fdsys \<Rightarrow> int \<times> fd_table \<times> ('c, 'd) fdsys" where
  "sys_listen nic fd fdt s =
     (if \<not> fd_in_range fd \<or> fd_type (fdt ! nat fd) \<noteq> FD_TYPE_SOCK_TCP then (-1, fdt, s)
      else let e = fdt ! nat fd in
        if pipe_idx e \<noteq> 0xFF then (-1, fdt, s)
        else if sock_peer_port e = 0 then (-1, fdt, s)
        else case on_tcp nic (tcp_listen (sock_peer_port e)) s of (sock, s1) \<Rightarrow>
          if sock < 0 then (-1, fdt, s1) else (0, fdt[nat fd := e\<lparr>pipe_idx := of_int sock\<rparr>], s1))"

fun accept_wait :: "'c nic \<Rightarrow> int \<Rightarrow> u64 \<Rightarrow> ('c \<Rightarrow> 'c) list \<Rightarrow> 'c net \<Rightarrow> (int \<times> ('c \<Rightarrow> 'c) list \<times> 'c net) option" where
  "accept_wait nic lsock start evs n =
     (if \<not> net_tick (net_link n) - start < TIMER_HZ * 30 then Some (-1, evs, n)
      else case tcp_accept lsock (nt_tcp n) of (child, t) \<Rightarrow>
        let n1 = n\<lparr>nt_tcp := t\<rparr> in
        if child \<ge> 0 then Some (child, evs, n1)
        else (case evs of [] \<Rightarrow> None | ev # evs' \<Rightarrow> accept_wait nic lsock start evs' (net_irq nic ev n1)))"

declare accept_wait.simps [simp del]

definition sys_accept :: "'c nic \<Rightarrow> int \<Rightarrow> ('c \<Rightarrow> 'c) list \<Rightarrow> fd_table \<Rightarrow> ('c, 'd) fdsys
    \<Rightarrow> (int \<times> ('c \<Rightarrow> 'c) list \<times> fd_table \<times> ('c, 'd) fdsys) option" where
  "sys_accept nic fd evs fdt s =
     (if \<not> fd_in_range fd \<or> fd_type (fdt ! nat fd) \<noteq> FD_TYPE_SOCK_TCP then Some (-1, evs, fdt, s)
      else if pipe_idx (fdt ! nat fd) = 0xFF then Some (-1, evs, fdt, s)
      else case accept_wait nic (int (unat (pipe_idx (fdt ! nat fd)))) (net_tick (net_link (fs_net s))) evs (fs_net s) of
        None \<Rightarrow> None
      | Some (child, evs', n) \<Rightarrow>
          let s1 = s\<lparr>fs_net := n\<rparr> in
          if child < 0 then Some (-1, evs', fdt, s1)
          else (case fd_alloc fdt of
                  None \<Rightarrow> Some (-1, evs', fdt, snd (on_tcp nic (tcp_close (now32 s1) child) s1))
                | Some nfd \<Rightarrow>
                    let tcb = g_tcbs (nt_tcp n) ! nat child in
                    Some (int nfd, evs', fdt[nfd := (fdt ! nfd)\<lparr>fd_type := FD_TYPE_SOCK_TCP, pipe_idx := of_int child,
                      sock_peer_ip := remote_ip tcb, sock_peer_port := remote_port tcb, fd_flags := 3\<rparr>], s1)))"

section \<open>Closing, copying, pipes\<close>

definition sys_close :: "'c nic \<Rightarrow> int \<Rightarrow> fd_table \<Rightarrow> ('c, 'd) fdsys \<Rightarrow> int \<times> fd_table \<times> ('c, 'd) fdsys" where
  "sys_close nic fd fdt s = (if \<not> fd_valid fd fdt then (-1, fdt, s) else (0, fd_close_entry nic fd fdt s))"

definition sys_dup :: "int \<Rightarrow> fd_table \<Rightarrow> int \<times> fd_table" where
  "sys_dup oldfd fdt =
     (if \<not> fd_valid oldfd fdt then (-1, fdt)
      else case fd_alloc fdt of None \<Rightarrow> (-1, fdt) | Some newfd \<Rightarrow> (int newfd, fdt[newfd := fdt ! nat oldfd]))"

definition sys_dup2 :: "'c nic \<Rightarrow> int \<Rightarrow> int \<Rightarrow> fd_table \<Rightarrow> ('c, 'd) fdsys \<Rightarrow> int \<times> fd_table \<times> ('c, 'd) fdsys" where
  "sys_dup2 nic oldfd newfd fdt s =
     (if \<not> fd_valid oldfd fdt then (-1, fdt, s)
      else if newfd < 0 \<or> newfd \<ge> int FD_MAX then (-1, fdt, s)
      else if oldfd = newfd then (newfd, fdt, s)
      else case (if fd_type (fdt ! nat newfd) \<noteq> FD_TYPE_NONE then fd_close_entry nic newfd fdt s else (fdt, s)) of (fdt1, s1) \<Rightarrow>
        (newfd, fdt1[nat newfd := fdt1 ! nat oldfd], s1))"

definition pipe_fresh :: "KernelPipe \<Rightarrow> KernelPipe" where
  "pipe_fresh p = p\<lparr>kp_active := True, read_open := True, write_open := True, read_pos := 0, write_pos := 0, kp_count := 0\<rparr>"

definition sys_pipe :: "u64 \<Rightarrow> fd_table \<Rightarrow> ('c, 'd) fdsys \<Rightarrow> int \<times> fd_table \<times> ('c, 'd) fdsys" where
  "sys_pipe fds_ptr fdt s =
     (if \<not> user_ptr_range_valid_64 fds_ptr 8 then (-1, fdt, s)
      else case find_slot (\<lambda>p. \<not> kp_active p) (kernel_pipes s) of
        None \<Rightarrow> (-1, fdt, s)
      | Some i \<Rightarrow>
          (case fd_alloc fdt of
             None \<Rightarrow> (-1, fdt, s)
           | Some rfd \<Rightarrow>
               let fdt1 = fdt[rfd := (fdt ! rfd)\<lparr>fd_type := FD_TYPE_PIPE_R, pipe_idx := of_nat i\<rparr>] in
               (case fd_alloc fdt1 of
                  None \<Rightarrow> (-1, fdt1[rfd := (fdt1 ! rfd)\<lparr>fd_type := FD_TYPE_NONE\<rparr>], s)
                | Some wfd \<Rightarrow>
                    (0, fdt1[wfd := (fdt1 ! wfd)\<lparr>fd_type := FD_TYPE_PIPE_W, pipe_idx := of_nat i\<rparr>],
                      (upd_pipe i pipe_fresh s)\<lparr>umem := store64 (umem s) fds_ptr (le32_bytes (of_nat rfd) @ le32_bytes (of_nat wfd))\<rparr>))))"

section \<open>Other calls\<close>

definition sys_auth :: "u64 \<Rightarrow> u64 \<Rightarrow> userdb \<Rightarrow> memory64 \<Rightarrow> int" where
  "sys_auth user_ptr pass_ptr udb m =
     (case copy_user_path_64 m user_ptr of
        None \<Rightarrow> -1
      | Some user \<Rightarrow>
          (case (if pass_ptr = 0 then Some [] else copy_user_path_64 m pass_ptr) of
             None \<Rightarrow> -1
           | Some pass \<Rightarrow> if userdb_authenticate user (Some pass) udb < 0 then -1 else userdb_find_uid (Some user) udb))"

definition sys_mkdir2 :: "'d disk_ops \<Rightarrow> u64 \<Rightarrow> ('c, 'd) fdsys \<Rightarrow> int \<times> ('c, 'd) fdsys" where
  "sys_mkdir2 ops path_ptr s =
     (case copy_user_path_64 (umem s) path_ptr of
        None \<Rightarrow> (-1, s)
      | Some path \<Rightarrow> (case kfs_mkdir ops path (fs_kfs s) of (rc, k) \<Rightarrow> (if rc < 0 then -1 else 0, s\<lparr>fs_kfs := k\<rparr>)))"

definition syscall_vfs_read_64 :: "'d disk_ops \<Rightarrow> kenv \<Rightarrow> bytes \<Rightarrow> u64 \<Rightarrow> u64 \<Rightarrow> u64 \<Rightarrow> ('c, 'd) fdsys \<Rightarrow> (int \<times> ('c, 'd) fdsys) option" where
  "syscall_vfs_read_64 ops env kbuf path_ptr user_buf_ptr max_len s =
     (if max_len = 0 \<or> max_len > of_nat SYS_IO_BUF_MAX then Some (-1, s)
      else if \<not> user_ptr_range_valid_64 user_buf_ptr max_len then Some (-1, s)
      else case copy_user_path_64 (umem s) path_ptr of
        None \<Rightarrow> Some (-1, s)
      | Some path \<Rightarrow>
          (case kfs_read_file ops env (Some path) kbuf (unat max_len) (fs_kfs s) of
             None \<Rightarrow> None
           | Some ((n, buf), k) \<Rightarrow>
               if n < 0 then Some (-1, s\<lparr>fs_kfs := k\<rparr>)
               else Some (n, s\<lparr>fs_kfs := k, umem := store64 (umem s) user_buf_ptr (take (nat n) buf)\<rparr>)))"

definition syscall_vfs_write_64 :: "'d disk_ops \<Rightarrow> u64 \<Rightarrow> u64 \<Rightarrow> u64 \<Rightarrow> ('c, 'd) fdsys \<Rightarrow> int \<times> ('c, 'd) fdsys" where
  "syscall_vfs_write_64 ops path_ptr user_buf_ptr len s =
     (if len = 0 \<or> len > of_nat SYS_IO_BUF_MAX then (-1, s)
      else if \<not> user_ptr_range_valid_64 user_buf_ptr len then (-1, s)
      else case copy_user_path_64 (umem s) path_ptr of
        None \<Rightarrow> (-1, s)
      | Some path \<Rightarrow>
          (case kfs_write_file ops (Some path) (load64 (umem s) user_buf_ptr (unat len)) (unat len) (fs_kfs s) of (rc, k) \<Rightarrow> (rc, s\<lparr>fs_kfs := k\<rparr>)))"

section \<open>The two rings\<close>

definition pipe_put :: "u8 \<Rightarrow> KernelPipe \<Rightarrow> KernelPipe" where
  "pipe_put b p = p\<lparr>kp_buf := (kp_buf p)[write_pos p := b], write_pos := (write_pos p + 1) mod PIPE_BUF_SIZE, kp_count := kp_count p + 1\<rparr>"

definition pipe_front :: "KernelPipe \<Rightarrow> u8" where
  "pipe_front p = kp_buf p ! read_pos p"

definition pipe_take :: "KernelPipe \<Rightarrow> KernelPipe" where
  "pipe_take p = p\<lparr>read_pos := (read_pos p + 1) mod PIPE_BUF_SIZE, kp_count := kp_count p - 1\<rparr>"

definition pipe_contents :: "KernelPipe \<Rightarrow> bytes" where
  "pipe_contents p = ring_contents (read_pos p) (kp_count p) (kp_buf p)"

definition pipe_inv :: "KernelPipe \<Rightarrow> bool" where
  "pipe_inv p \<longleftrightarrow> length (kp_buf p) = PIPE_BUF_SIZE \<and> read_pos p < PIPE_BUF_SIZE \<and> kp_count p \<le> PIPE_BUF_SIZE
     \<and> write_pos p = (read_pos p + kp_count p) mod PIPE_BUF_SIZE"

lemma length_pipe_contents [simp]: "length (pipe_contents p) = kp_count p"
  by (simp add: pipe_contents_def)

lemma pipe_contents_Nil: "pipe_contents p = [] \<longleftrightarrow> kp_count p = 0"
  by (metis length_pipe_contents length_0_conv)

interpretation kpipe: bounded_fifo PIPE_BUF_SIZE pipe_put pipe_front pipe_take pipe_contents pipe_inv
proof unfold_locales
  fix p b
  assume inv: "pipe_inv p"
  then have len: "length (kp_buf p) = 4096" and tail: "write_pos p = (read_pos p + kp_count p) mod 4096" and head: "read_pos p < 4096"
    by (simp_all add: pipe_inv_def)
  show "length (pipe_contents p) \<le> 4096" using inv by (simp add: pipe_inv_def)
  {
    assume "length (pipe_contents p) < 4096"
    then show "pipe_contents (pipe_put b p) = pipe_contents p @ [b]" "pipe_inv (pipe_put b p)"
      using inv ring_contents_push [of "kp_count p" "kp_buf p" "read_pos p" b]
      by (auto simp: pipe_contents_def pipe_put_def pipe_inv_def len tail mod_Suc_eq)
  }
  assume "pipe_contents p \<noteq> []"
  then have "0 < kp_count p" by (simp add: pipe_contents_Nil)
  then show "pipe_front p = hd (pipe_contents p)" "pipe_contents (pipe_take p) = tl (pipe_contents p)"
    using ring_contents_head [of "kp_count p" "read_pos p" "kp_buf p"] head ring_contents_pop [of "read_pos p" "kp_buf p" "kp_count p"]
    by (simp_all add: pipe_front_def pipe_contents_def pipe_take_def len)
  show "pipe_inv (pipe_take p)" using inv \<open>0 < kp_count p\<close> by (auto simp: pipe_inv_def pipe_take_def ring_tail_pop)
qed

lemma pipe_write_loop_eq: "pipe_write_loop bs p = kpipe.write_loop bs p"
  by (induction bs arbitrary: p) (auto simp: not_le Let_def pipe_put_def split: prod.split)

lemma pipe_read_loop_eq: "pipe_read_loop n p = kpipe.read_loop n p"
  by (induction n arbitrary: p) (auto simp: pipe_contents_Nil Let_def pipe_front_def pipe_take_def split: prod.split)

definition tty_front :: "KernelTTY \<Rightarrow> u8" where
  "tty_front t = input_buf t ! input_read t"

definition tty_input :: "KernelTTY \<Rightarrow> bytes" where
  "tty_input t = ring_contents (input_read t) (input_count t) (input_buf t)"

definition tty_inv :: "KernelTTY \<Rightarrow> bool" where
  "tty_inv t \<longleftrightarrow> length (input_buf t) = TTY_BUF_SIZE \<and> input_read t < TTY_BUF_SIZE \<and> input_count t \<le> TTY_BUF_SIZE
     \<and> input_write t = (input_read t + input_count t) mod TTY_BUF_SIZE \<and> length (line_buf t) = TTY_BUF_SIZE \<and> line_len t < TTY_BUF_SIZE"

lemma length_tty_input [simp]: "length (tty_input t) = input_count t"
  by (simp add: tty_input_def)

lemma tty_input_Nil: "tty_input t = [] \<longleftrightarrow> input_count t = 0"
  by (metis length_tty_input length_0_conv)

interpretation ktty: bounded_fifo TTY_BUF_SIZE tty_put tty_front tty_take tty_input tty_inv
proof unfold_locales
  fix t b
  assume inv: "tty_inv t"
  then have len: "length (input_buf t) = 256" and tail: "input_write t = (input_read t + input_count t) mod 256" and head: "input_read t < 256"
    by (simp_all add: tty_inv_def)
  show "length (tty_input t) \<le> 256" using inv by (simp add: tty_inv_def)
  {
    assume "length (tty_input t) < 256"
    then show "tty_input (tty_put b t) = tty_input t @ [b]" "tty_inv (tty_put b t)"
      using inv ring_contents_push [of "input_count t" "input_buf t" "input_read t" b]
      by (auto simp: tty_input_def tty_put_def tty_inv_def len tail mod_Suc_eq)
  }
  assume "tty_input t \<noteq> []"
  then have "0 < input_count t" by (simp add: tty_input_Nil)
  then show "tty_front t = hd (tty_input t)" "tty_input (tty_take t) = tl (tty_input t)"
    using ring_contents_head [of "input_count t" "input_read t" "input_buf t"] head ring_contents_pop [of "input_read t" "input_buf t" "input_count t"]
    by (simp_all add: tty_front_def tty_input_def tty_take_def len)
  show "tty_inv (tty_take t)" using inv \<open>0 < input_count t\<close> by (auto simp: tty_inv_def tty_take_def ring_tail_pop)
qed

lemma tty_copy_line_eq: "tty_copy_line cs t = snd (ktty.write_loop cs t)"
  by (induction cs arbitrary: t) (auto simp: not_le Let_def split: prod.split)

lemma tty_read_loop_eq: "tty_read_loop n t = ktty.read_loop n t"
  by (induction n arbitrary: t) (auto simp: tty_input_Nil Let_def tty_front_def split: prod.split)

section \<open>Lines typed at the terminal\<close>

text \<open>What a line is after its editing keys: backspace and delete drop a character, control-C the line.\<close>

fun edited :: "bytes \<Rightarrow> bytes \<Rightarrow> bytes" where
  "edited line [] = line"
| "edited line (c # cs) =
     edited (if c = 8 \<or> c = 127 then butlast line else if c = 3 then [] else if length line < TTY_BUF_SIZE - 1 then line @ [c] else line) cs"

lemma take_update_last: "n < length xs \<Longrightarrow> take (Suc n) (xs[n := x]) = take n xs @ [x]"
  by (simp add: take_Suc_conv_app_nth)

lemma tty_edit_step:
  assumes "tty_inv t" "cooked t" "c \<noteq> 10" "c \<noteq> 13"
  shows "tty_inv (tty_push_char c t) \<and> cooked (tty_push_char c t) \<and> tty_input (tty_push_char c t) = tty_input t
    \<and> take (line_len (tty_push_char c t)) (line_buf (tty_push_char c t)) = edited (take (line_len t) (line_buf t)) [c]"
proof -
  have l: "line_len t < length (line_buf t)" "length (line_buf t) = 256" using assms(1) by (simp_all add: tty_inv_def)
  then have "butlast (take (line_len t) (line_buf t)) = take (line_len t - 1) (line_buf t)" by (simp add: butlast_take)
  with assms l show ?thesis
    by (auto simp: tty_push_char_def tty_inv_def tty_input_def take_update_last)
qed

lemma edited_append: "edited line (as @ bs) = edited (edited line as) bs"
  by (induction as arbitrary: line) auto

lemma tty_edit_keys:
  assumes "tty_inv t" "cooked t" "10 \<notin> set keys" "13 \<notin> set keys"
  shows "tty_inv (fold tty_push_char keys t) \<and> cooked (fold tty_push_char keys t) \<and> tty_input (fold tty_push_char keys t) = tty_input t
    \<and> take (line_len (fold tty_push_char keys t)) (line_buf (fold tty_push_char keys t)) = edited (take (line_len t) (line_buf t)) keys"
  using assms
proof (induction keys arbitrary: t)
  case (Cons c keys)
  then have "c \<noteq> 10" "c \<noteq> 13" by auto
  with tty_edit_step [of t c] Cons.prems Cons.IH [of "tty_push_char c t"] edited_append [of "take (line_len t) (line_buf t)" "[c]" keys]
  show ?case by simp
qed simp

lemma copy_line_same: "line_len (tty_copy_line cs t) = line_len t" "cooked (tty_copy_line cs t) = cooked t"
  by (induction cs arbitrary: t) (auto simp: tty_put_def)

lemma tty_enter:
  assumes "tty_inv t" "cooked t" "input_count t + line_len t < TTY_BUF_SIZE"
  shows "tty_input (tty_push_char 10 t) = tty_input t @ take (line_len t) (line_buf t) @ [10] \<and> tty_inv (tty_push_char 10 t)"
proof -
  let ?l = "take (line_len t) (line_buf t)" and ?t1 = "tty_copy_line (take (line_len t) (line_buf t)) t"
  have ll: "length ?l = line_len t" using assms(1) by (simp add: tty_inv_def)
  have t1: "tty_input ?t1 = tty_input t @ ?l" "tty_inv ?t1"
    using ktty.write_loop_correct [OF assms(1), of ?l] assms(3) ll by (simp_all add: tty_copy_line_eq)
  then have room: "input_count ?t1 < 256" using assms(3) ll length_tty_input [of ?t1] by simp
  have len1: "length (tty_input ?t1) < 256" using room by (simp only: length_tty_input)
  have "tty_input (tty_put 10 ?t1) = tty_input t @ ?l @ [10]" "tty_inv (tty_put 10 ?t1)"
    using ktty.contents_push [OF t1(2) len1, of 10] ktty.invar_push [OF t1(2) len1, of 10] t1(1) by simp_all
  moreover have "tty_input (t'\<lparr>line_len := 0, line_ready := True\<rparr>) = tty_input t'" "tty_inv t' \<Longrightarrow> tty_inv (t'\<lparr>line_len := 0, line_ready := True\<rparr>)" for t'
    by (simp_all add: tty_input_def tty_inv_def)
  ultimately show ?thesis using assms(2) room by (simp add: tty_push_char_def Let_def)
qed

lemma tty_read_input:
  assumes "tty_inv t"
  shows "fst (tty_read n t) = take n (tty_input t)"
  using ktty.read_loop_correct [OF assms, of n] by (auto simp: tty_read_def tty_read_loop_eq split: prod.split)


text \<open>
  Property: a line typed at the terminal is read as edited. From an empty terminal in line mode, whatever keys
  other than Enter are typed, Enter makes exactly the line that backspaces, deletes and control-C leave, ended by
  a newline, available to \<open>tty_read\<close>.
\<close>

theorem tty_line_read:
  assumes "tty_inv t" "cooked t" "line_len t = 0" "tty_input t = []" "10 \<notin> set keys" "13 \<notin> set keys"
  shows "fst (tty_read n (tty_push_char 10 (fold tty_push_char keys t))) = take n (edited [] keys @ [10])"
proof -
  let ?t = "fold tty_push_char keys t"
  have k: "tty_inv ?t" "cooked ?t" "tty_input ?t = []" "take (line_len ?t) (line_buf ?t) = edited [] keys"
    using tty_edit_keys [OF assms(1,2,5,6)] assms(3,4) by simp_all
  then have "input_count ?t + line_len ?t < 256" by (simp add: tty_inv_def tty_input_Nil)
  with tty_enter [OF k(1,2)] k(3,4) show ?thesis by (simp add: tty_read_input)
qed

theorem tty_line_read_witness:
  "fst (tty_read 9 (tty_push_char 10 (fold tty_push_char [108, 120, 8, 115] tty_init))) = [108, 115, 10]"
proof -
  have "tty_inv tty_init" "cooked tty_init" "line_len tty_init = 0" "tty_input tty_init = []"
    by (simp_all add: tty_inv_def tty_init_def tty_input_def)
  from tty_line_read [OF this, of "[108, 120, 8, 115]" 9] show ?thesis by simp
qed

section \<open>User buffers\<close>

lemma store64_outside: "length bs \<le> unat (x - a) \<Longrightarrow> store64 m a bs x = m x"
  by (simp add: store64_def)

lemma load_store64:
  assumes "length bs \<le> 2 ^ 32"
  shows "load64 (store64 m a bs) a (length bs) = bs"
proof (rule nth_equalityI)
  fix i assume "i < length (load64 (store64 m a bs) a (length bs))"
  then have i: "i < length bs" by (simp add: load64_def)
  then have "unat (of_nat i :: u64) = i" using assms by (simp add: unat_of_nat take_bit_nat_eq_self_iff)
  with i show "load64 (store64 m a bs) a (length bs) ! i = bs ! i" by (simp add: load64_def store64_def)
qed (simp add: load64_def)

lemma length_load64 [simp]: "length (load64 m a n) = n"
  by (simp add: load64_def)

lemma user_range:
  assumes "user_ptr_range_valid_64 a len" "unat (x - a) < unat len"
  shows "USER_VADDR_MIN_64 \<le> x" "x < USER_VADDR_MAX_64"
proof -
  have v: "a \<ge> 0x10000000" "a + len \<le> 0x40000000" "\<not> a + len < a" using assms(1) by (auto simp: user_ptr_range_valid_64_def Let_def split: if_splits)
  have al: "unat a + unat len < 2 ^ 64"
  proof (rule ccontr)
    assume "\<not> unat a + unat len < 2 ^ 64"
    then have "unat (a + len) = unat a + unat len - 2 ^ 64" using unsigned_less [of a, where ?'a = nat] unsigned_less [of len, where ?'a = nat]
      by (simp add: unat_word_ariths le_mod_geq)
    then have "a + len < a" using unsigned_less [of len, where ?'a = nat] \<open>\<not> unat a + unat len < 2 ^ 64\<close> by (simp add: word_less_nat_alt)
    with v(3) show False by simp
  qed
  then have e: "unat (a + len) = unat a + unat len" by (simp add: unat_word_ariths)
  have "x = a + (x - a)" by simp
  then have x: "unat x = unat a + unat (x - a)" using al assms(2) unat_word_ariths(1) [of a "x - a"] by simp
  show "0x10000000 \<le> x" using v(1) x by (simp add: word_le_nat_alt)
  show "x < 0x40000000" using v(2) x e assms(2) by (simp add: word_le_nat_alt word_less_nat_alt)
qed

section \<open>Transfers through a pipe\<close>

definition pipe_at :: "nat \<Rightarrow> ('c, 'd) fdsys \<Rightarrow> bool" where
  "pipe_at i s \<longleftrightarrow> i < MAX_PIPES \<and> length (kernel_pipes s) = MAX_PIPES \<and> pipe_inv (kernel_pipes s ! i) \<and> kp_active (kernel_pipes s ! i)"

definition fd_is :: "fd_table \<Rightarrow> int \<Rightarrow> FdType \<Rightarrow> nat \<Rightarrow> bool" where
  "fd_is fdt fd ty i \<longleftrightarrow> fd_in_range fd \<and> fd_type (fdt ! nat fd) = ty \<and> pipe_idx (fdt ! nat fd) = of_nat i"

lemma small_idx: "i < MAX_PIPES \<Longrightarrow> unat (of_nat i :: u8) = i"
  by (simp add: unat_of_nat take_bit_nat_eq_self_iff)

lemma small_count:
  assumes "0 < n" "n \<le> SYS_IO_BUF_MAX"
  shows "(of_nat n :: u64) \<noteq> 0" "\<not> (of_nat n :: u64) > of_nat SYS_IO_BUF_MAX" "unat (of_nat n :: u64) = n"
proof -
  show u: "unat (of_nat n :: u64) = n" using assms by (simp add: unat_of_nat take_bit_nat_eq_self_iff)
  with assms(1) show "(of_nat n :: u64) \<noteq> 0" by (metis unat_0 less_irrefl)
  show "\<not> (of_nat n :: u64) > of_nat 4096" using u assms(2) by (simp add: word_less_nat_alt)
qed

lemma pipe_write:
  assumes "pipe_at i s" "fd_is fdt w FD_TYPE_PIPE_W i" "0 < n" "n \<le> SYS_IO_BUF_MAX" "user_ptr_range_valid_64 buf (of_nat n)"
    "kp_count (kernel_pipes s ! i) + n \<le> PIPE_BUF_SIZE"
  obtains p where "sys_write_fd nic ops w buf (of_nat n) fdt s = (int n, upd_pipe i (\<lambda>_. p) s)"
    "pipe_inv p" "pipe_contents p = pipe_contents (kernel_pipes s ! i) @ load64 (umem s) buf n" "kp_active p"
proof -
  let ?p = "kernel_pipes s ! i" and ?d = "load64 (umem s) buf n"
  have inv: "pipe_inv ?p" "kp_active ?p" "i < 8" using assms(1) by (simp_all add: pipe_at_def)
  obtain k p where kp: "pipe_write_loop ?d ?p = (k, p)" by fastforce
  have r: "k = n" "pipe_contents p = pipe_contents ?p @ ?d" "pipe_inv p"
    using kpipe.write_loop_correct [OF inv(1), of ?d] kp assms(6) by (simp_all add: pipe_write_loop_eq)
  have act: "kp_active (snd (pipe_write_loop d q)) = kp_active q" for d q
    by (induction d q rule: pipe_write_loop.induct) (auto split: prod.split)
  have "sys_write_fd nic ops w buf (of_nat n) fdt s = (int n, upd_pipe i (\<lambda>_. p) s)"
    using assms(2,5) inv kp r(1) small_count [OF assms(3,4)] small_idx [OF inv(3)]
    by (simp add: sys_write_fd_def fd_is_def fd_in_range_def fd_valid_def Let_def)
  moreover have "kp_active p" using act [of ?d ?p] kp inv(2) by simp
  ultimately show thesis using that r by blast
qed

lemma pipe_read:
  assumes "pipe_at i s" "fd_is fdt r FD_TYPE_PIPE_R i" "0 < n" "n \<le> SYS_IO_BUF_MAX" "user_ptr_range_valid_64 buf (of_nat n)"
  obtains p where "sys_read_fd nic ops env r buf (of_nat n) fdt s
      = Some (int (min n (kp_count (kernel_pipes s ! i))), fdt, (upd_pipe i (\<lambda>_. p) s)\<lparr>umem := store64 (umem s) buf (take n (pipe_contents (kernel_pipes s ! i)))\<rparr>)"
    "pipe_inv p" "pipe_contents p = drop n (pipe_contents (kernel_pipes s ! i))"
proof -
  let ?p = "kernel_pipes s ! i"
  have inv: "pipe_inv ?p" "kp_active ?p" "i < 8" using assms(1) by (simp_all add: pipe_at_def)
  obtain bs p where bp: "pipe_read_loop n ?p = (bs, p)" by fastforce
  have r: "bs = take n (pipe_contents ?p)" "pipe_contents p = drop n (pipe_contents ?p)" "pipe_inv p"
    using kpipe.read_loop_correct [OF inv(1), of n] bp by (simp_all add: pipe_read_loop_eq)
  have "sys_read_fd nic ops env r buf (of_nat n) fdt s
      = Some (int (min n (kp_count ?p)), fdt, (upd_pipe i (\<lambda>_. p) s)\<lparr>umem := store64 (umem s) buf (take n (pipe_contents ?p))\<rparr>)"
    using assms(2,5) inv bp r(1) small_count [OF assms(3,4)] small_idx [OF inv(3)]
    by (simp add: sys_read_fd_def fd_is_def fd_in_range_def fd_valid_def Let_def min.commute)
  with r that show thesis by blast
qed


lemma upd_pipe_at:
  "pipe_at i s \<Longrightarrow> pipe_inv p \<Longrightarrow> kp_active p \<Longrightarrow> pipe_at i (upd_pipe i (\<lambda>_. p) s)"
  "i < MAX_PIPES \<Longrightarrow> length (kernel_pipes s) = MAX_PIPES \<Longrightarrow> kernel_pipes (upd_pipe i f s) ! i = f (kernel_pipes s ! i)"
  "umem (upd_pipe i f s) = umem s"
  by (simp_all add: pipe_at_def upd_pipe_def)

text \<open>
  Property C15: a pipe carries bytes between two descriptor tables. A write through the writing end and a read
  through the reading end, of as much as the pipe then holds, deliver in order what was in the pipe before and
  then the bytes of the writer's buffer to the reader's buffer, and no other byte of memory changes.
\<close>

theorem pipe_carries_bytes:
  assumes pipe: "pipe_at i s" "pipe_contents (kernel_pipes s ! i) = q"
    and fds: "fd_is fdtw w FD_TYPE_PIPE_W i" "fd_is fdtr r FD_TYPE_PIPE_R i"
    and sizes: "0 < n" "length q + n \<le> SYS_IO_BUF_MAX"
    and bufs: "user_ptr_range_valid_64 wbuf (of_nat n)" "user_ptr_range_valid_64 rbuf (of_nat (length q + n))"
  shows "\<exists>s1 s2. sys_write_fd nic ops w wbuf (of_nat n) fdtw s = (int n, s1)
    \<and> sys_read_fd nic ops env r rbuf (of_nat (length q + n)) fdtr s1 = Some (int (length q + n), fdtr, s2)
    \<and> umem s2 = store64 (umem s) rbuf (q @ load64 (umem s) wbuf n)
    \<and> load64 (umem s2) rbuf (length q + n) = q @ load64 (umem s) wbuf n"
proof -
  let ?d = "load64 (umem s) wbuf n"
  have cnt: "kp_count (kernel_pipes s ! i) = length q" using pipe(2) by (metis length_pipe_contents)
  have i: "i < 8" "length (kernel_pipes s) = 8" using pipe(1) by (simp_all add: pipe_at_def)
  obtain p where p: "sys_write_fd nic ops w wbuf (of_nat n) fdtw s = (int n, upd_pipe i (\<lambda>_. p) s)" "pipe_inv p" "pipe_contents p = q @ ?d" "kp_active p"
    using pipe_write [OF pipe(1) fds(1) sizes(1) _ bufs(1), of nic ops] sizes(2) pipe(2) cnt by auto
  let ?s1 = "upd_pipe i (\<lambda>_. p) s"
  have at: "pipe_at i ?s1" "kernel_pipes ?s1 ! i = p" "umem ?s1 = umem s" using upd_pipe_at(1) [OF pipe(1) p(2,4)] upd_pipe_at(2) [OF i, of "\<lambda>_. p"] upd_pipe_at(3) [of i "\<lambda>_. p" s] by auto
  have pc: "kp_count p = length q + n" using p(3) length_pipe_contents [of p] by simp
  obtain p2 where r: "sys_read_fd nic ops env r rbuf (of_nat (length q + n)) fdtr ?s1
      = Some (int (length q + n), fdtr, (upd_pipe i (\<lambda>_. p2) ?s1)\<lparr>umem := store64 (umem s) rbuf (q @ ?d)\<rparr>)"
    using pipe_read [OF at(1) fds(2) _ sizes(2) bufs(2), of nic ops env] sizes(1) p(3) pc unfolding at(2,3) by auto
  have "length q + n \<le> 2 ^ 32" using sizes(2) by (rule order_trans) simp
  with p(1) r load_store64 [of "q @ ?d" "umem s" rbuf] show ?thesis by auto
qed

definition demo_pipes :: "KernelPipe list" where
  "demo_pipes = (replicate MAX_PIPES \<lparr>kp_buf = replicate PIPE_BUF_SIZE 0, read_pos = 0, write_pos = 0, kp_count = 0, kp_active = False,
     read_open = False, write_open = False\<rparr>)"

definition demo_table :: fd_table where
  "demo_table = fd_table_init[3 := no_fd\<lparr>fd_type := FD_TYPE_PIPE_R\<rparr>, 4 := no_fd\<lparr>fd_type := FD_TYPE_PIPE_W\<rparr>, 5 := no_fd\<lparr>fd_type := FD_TYPE_PIPE_R\<rparr>]"

lemma demo_fds:
  "fd_is demo_table 3 FD_TYPE_PIPE_R 0" "fd_is demo_table 4 FD_TYPE_PIPE_W 0" "fd_is demo_table 5 FD_TYPE_PIPE_R 0" "length demo_table = 16"
  by (simp_all add: fd_is_def fd_in_range_def demo_table_def fd_table_init_def no_fd_def)

definition demo_fdsys :: "'c net \<Rightarrow> 'd kfs \<Rightarrow> memory64 \<Rightarrow> ('c, 'd) fdsys" where
  "demo_fdsys n k m = \<lparr>kernel_pipes = demo_pipes[0 := pipe_fresh (demo_pipes ! 0)], kernel_tty0 = tty_init, tty_output = [], fs_net = n,
     fs_kfs = k, umem = m, slice = None, fd_tmp_buf = replicate 4096 0\<rparr>"

lemma demo_pipe_at: "pipe_at 0 (demo_fdsys n k m)" "pipe_contents (kernel_pipes (demo_fdsys n k m) ! 0) = []"
  by (simp_all add: pipe_at_def demo_fdsys_def demo_pipes_def pipe_fresh_def pipe_inv_def pipe_contents_def)

theorem pipe_carries_bytes_witness:
  "\<forall>nic ops env n k m. \<exists>s1 s2. sys_write_fd nic ops 4 0x10000000 3 demo_table (demo_fdsys n k m) = (3, s1)
    \<and> sys_read_fd nic ops env 3 0x20000000 3 demo_table s1 = Some (3, demo_table, s2)
    \<and> load64 (umem s2) 0x20000000 3 = load64 m 0x10000000 3"
proof (intro allI)
  fix nic :: "'a nic" and ops :: "'b disk_ops" and env n k m
  have v: "user_ptr_range_valid_64 0x10000000 (of_nat 3)" "user_ptr_range_valid_64 0x20000000 (of_nat (length [] + 3))"
    by (simp_all add: user_ptr_range_valid_64_def Let_def)
  have c: "0 < (3 :: nat)" "length ([] :: bytes) + 3 \<le> 4096" by simp_all
  from pipe_carries_bytes [OF demo_pipe_at [of n k m] demo_fds(2,1) c v, where nic = nic and ops = ops and env = env]
  show "\<exists>s1 s2. sys_write_fd nic ops 4 0x10000000 3 demo_table (demo_fdsys n k m) = (3, s1)
    \<and> sys_read_fd nic ops env 3 0x20000000 3 demo_table s1 = Some (3, demo_table, s2)
    \<and> load64 (umem s2) 0x20000000 3 = load64 m 0x10000000 3"
    by (simp add: demo_fdsys_def) blast
qed

section \<open>Reads stay in the buffer\<close>

lemma tcp_recv_length: "tcp_recv sock (int c) t = ((n, bs), t1) \<Longrightarrow> length bs \<le> c"
  by (auto simp: tcp_recv_def Let_def split: if_splits)

lemma udp_recvfrom_length: "udp_recvfrom sock c u = ((n, bs, src), u1) \<Longrightarrow> length bs \<le> c"
  by (auto simp: udp_recvfrom_def Let_def min_le_iff_disj split: if_splits)

lemma on_tcp_recv: "on_tcp nic (tcp_recv sock (int c)) s = ((n, bs), s1) \<Longrightarrow> length bs \<le> c \<and> umem s1 = umem s"
  by (cases "tcp_recv sock (int c) (nt_tcp (fs_net s))") (auto simp: on_tcp_def dest: tcp_recv_length)

lemma on_udp_recv: "on_udp (udp_recvfrom sock c) s = ((n, bs, src), s1) \<Longrightarrow> length bs \<le> c \<and> umem s1 = umem s"
  by (cases "udp_recvfrom sock c (nt_udp (fs_net s))") (auto simp: on_udp_def dest: udp_recvfrom_length)

lemma tty_read_length: "length (fst (tty_read n t)) \<le> n"
proof -
  have "length (fst (tty_read_loop n t)) \<le> n" by (induction n t rule: tty_read_loop.induct) (auto split: prod.split)
  then show ?thesis by (auto simp: tty_read_def split: prod.split)
qed

lemma pipe_read_length: "length (fst (pipe_read_loop n p)) \<le> n"
  by (induction n p rule: pipe_read_loop.induct) (auto split: prod.split)

lemma read_fd_cases:
  assumes "sys_read_fd nic ops env fd buf count fdt s = Some (r, fdt', s')"
  shows "umem s' = umem s \<or> (user_ptr_range_valid_64 buf (if count > 4096 then 4096 else count)
    \<and> (\<exists>bs. length bs \<le> unat (if count > 4096 then 4096 else count) \<and> umem s' = store64 (umem s) buf bs))"
proof -
  have same: "umem (yield_slice x) = umem x" "umem (upd_pipe i h x) = umem x" for h i and x :: "('a, 'b) fdsys"
    by (simp_all add: yield_slice_def upd_pipe_def)
  define c where "c = (if count > 4096 then 4096 else count)"
  show ?thesis
  proof (cases "fd_valid fd fdt \<and> count \<noteq> 0 \<and> user_ptr_range_valid_64 buf c")
    case False
    then have "s' = s" using assms unfolding sys_read_fd_def Let_def of_nat_numeral c_def [symmetric] by (auto split: if_splits)
    then show ?thesis by simp
  next
    case True
    note eq = assms [unfolded sys_read_fd_def Let_def of_nat_numeral c_def [symmetric]]
    show ?thesis
    proof (cases "fd_type (fdt ! nat fd)")
      case FD_TYPE_TTY
      obtain bs t where "tty_read (unat c) (kernel_tty0 s) = (bs, t)" by fastforce
      with eq True FD_TYPE_TTY tty_read_length [of "unat c" "kernel_tty0 s"] show ?thesis
        by (auto simp: same c_def [symmetric] split: if_splits)
    next
      case FD_TYPE_PIPE_R
      obtain bs p where "pipe_read_loop (unat c) (kernel_pipes s ! unat (pipe_idx (fdt ! nat fd))) = (bs, p)" by fastforce
      with eq True FD_TYPE_PIPE_R pipe_read_length [of "unat c" "kernel_pipes s ! unat (pipe_idx (fdt ! nat fd))"] show ?thesis
        by (auto simp: same c_def [symmetric] split: if_splits)
    next
      case FD_TYPE_FILE
      show ?thesis
      proof (cases "kfs_read_file ops env (Some (fd_path (fdt ! nat fd))) (fd_tmp_buf s) 4096 (fs_kfs s)")
        case (Some a)
        obtain tot b k where a: "a = ((tot, b), k)" by (metis prod.collapse)
        let ?off = "fd_offset (fdt ! nat fd)"
        let ?n = "if int (unat c) < tot - sint ?off then int (unat c) else tot - sint ?off"
        let ?bs = "take (nat ?n) (drop (unat ?off) b)"
        have len: "length ?bs \<le> unat c" by (auto simp: min_le_iff_disj nat_le_iff)
        have "umem s' = umem s \<or> umem s' = store64 (umem s) buf ?bs"
          using eq True FD_TYPE_FILE Some by (simp add: a split: if_split_asm) auto
        with len True show ?thesis unfolding c_def [symmetric] by blast
      qed (use eq True FD_TYPE_FILE in simp)
    next
      case FD_TYPE_SOCK_TCP
      obtain n bs s1 where on: "on_tcp nic (tcp_recv (int (unat (pipe_idx (fdt ! nat fd)))) (int (unat c))) s = ((n, bs), s1)" by (metis prod.collapse)
      with eq True FD_TYPE_SOCK_TCP on on_tcp_recv [OF on] show ?thesis by (auto simp: same(1) c_def [symmetric] split: if_splits)
    next
      case FD_TYPE_SOCK_UDP
      obtain n bs src s1 where on: "on_udp (udp_recvfrom (int (unat (pipe_idx (fdt ! nat fd)))) (unat c)) s = ((n, bs, src), s1)" by (metis prod.collapse)
      with eq True FD_TYPE_SOCK_UDP on on_udp_recv [OF on] show ?thesis by (auto simp: same(1) c_def [symmetric] split: if_splits)
    qed (use eq True in \<open>simp_all\<close>)
  qed
qed


text \<open>
  Property C25: reading from a descriptor stores only into the caller's buffer. Whatever the descriptor is (terminal,
  pipe, file or socket), a byte of memory that \<open>sys_read_fd\<close> changes lies in the buffer, below the count and the
  limit of 4096 bytes, and in the range of user addresses.
\<close>

theorem sys_read_fd_confined:
  assumes "sys_read_fd nic ops env fd buf count fdt s = Some (r, fdt', s')" "umem s' a \<noteq> umem s a"
  shows "unat (a - buf) < min (unat count) SYS_IO_BUF_MAX \<and> USER_VADDR_MIN_64 \<le> a \<and> a < USER_VADDR_MAX_64"
proof -
  define c where "c = (if count > 4096 then 4096 else count)"
  have c: "unat c = min (unat count) 4096" by (simp add: c_def word_less_nat_alt min_def)
  obtain bs where bs: "user_ptr_range_valid_64 buf c" "length bs \<le> unat c" "umem s' = store64 (umem s) buf bs"
    using read_fd_cases [OF assms(1)] assms(2) by (auto simp: c_def)
  then have "unat (a - buf) < unat c" using assms(2) by (auto simp: store64_def split: if_splits)
  with user_range [OF bs(1) this] c show ?thesis by simp
qed

theorem sys_read_fd_confined_witness:
  "\<forall>nic ops env n k. \<exists>s'. sys_read_fd nic ops env 0 0x10000000 2 fd_table_init ((demo_fdsys n k (\<lambda>_. 0))\<lparr>kernel_tty0 := tty_push_char 10 tty_init\<rparr>)
      = Some (1, fd_table_init, s') \<and> umem s' 0x10000000 \<noteq> (0 :: u8) \<and> unat (0x10000000 - 0x10000000 :: u64) < min (unat (2 :: u64)) SYS_IO_BUF_MAX"
proof (intro allI)
  fix nic :: "'a nic" and ops :: "'b disk_ops" and env n k
  let ?s = "(demo_fdsys n k (\<lambda>_. 0))\<lparr>kernel_tty0 := tty_push_char 10 tty_init\<rparr> :: ('a, 'b) fdsys"
  let ?t = "\<lparr>input_buf = (replicate 256 0)[0 := 10], input_read = 1, input_write = 1, input_count = 0, cooked = True,
     line_buf = replicate 256 0, line_len = 0, line_ready = False\<rparr>"
  have t: "tty_read 2 (tty_push_char 10 tty_init) = ([10], ?t)"
    by (simp add: tty_push_char_def tty_init_def tty_put_def tty_read_def tty_take_def numeral_2_eq_2)
  have v: "user_ptr_range_valid_64 0x10000000 2" "fd_valid 0 fd_table_init" "fd_type (fd_table_init ! 0) = FD_TYPE_TTY"
    by (simp_all add: user_ptr_range_valid_64_def Let_def fd_valid_def fd_table_init_def no_fd_def)
  have r: "sys_read_fd nic ops env 0 0x10000000 2 fd_table_init ?s
      = Some (1, fd_table_init, ?s\<lparr>kernel_tty0 := ?t, umem := store64 (\<lambda>_. 0) 0x10000000 [10]\<rparr>)"
    by (simp add: sys_read_fd_def v t Let_def) (simp add: demo_fdsys_def)
  moreover have "umem (?s\<lparr>kernel_tty0 := ?t, umem := store64 (\<lambda>_. 0) 0x10000000 [10]\<rparr>) 0x10000000 \<noteq> umem ?s 0x10000000"
    by (simp add: store64_def demo_fdsys_def)
  from sys_read_fd_confined [OF r this] have "unat (0x10000000 - 0x10000000 :: u64) < min (unat (2 :: u64)) 4096" by simp
  ultimately show "\<exists>s'. sys_read_fd nic ops env 0 0x10000000 2 fd_table_init ?s = Some (1, fd_table_init, s')
      \<and> umem s' 0x10000000 \<noteq> (0 :: u8) \<and> unat (0x10000000 - 0x10000000 :: u64) < min (unat (2 :: u64)) 4096"
    by (simp add: store64_def)
qed

section \<open>Copies of descriptors\<close>

lemma close_pipe:
  assumes "fd_is fdt fd ty i" "ty = FD_TYPE_PIPE_R \<or> ty = FD_TYPE_PIPE_W" "i < MAX_PIPES"
  shows "sys_close nic fd fdt s = (0, fdt[nat fd := (fdt ! nat fd)\<lparr>fd_type := FD_TYPE_NONE, fd_flags := 0, fd_path := [], fd_offset := 0, pipe_idx := 0\<rparr>],
    upd_pipe i (pipe_close_end ty) s)"
  using assms small_idx [OF assms(3)]
  by (auto simp: sys_close_def fd_close_entry_def fd_is_def fd_in_range_def fd_valid_def Let_def)

lemma fd_is_update: "nat fd \<noteq> nat fd' \<Longrightarrow> fd_is (fdt[nat fd := e]) fd' ty i = fd_is fdt fd' ty i"
  by (simp add: fd_is_def)

text \<open>
  Property: descriptors are not counted. A process that copied the reading end of its pipe and closed the original
  and the writing end has made the pipe free, although its copy is still open: the next process that asks for a
  pipe gets the same one, and the bytes it writes into its own pipe are read by the first process.
\<close>

theorem pipe_reuse_leaks:
  assumes pipes: "length (kernel_pipes s) = MAX_PIPES" "i < MAX_PIPES" "\<forall>j < i. kp_active (kernel_pipes s ! j)" "length (kp_buf (kernel_pipes s ! i)) = PIPE_BUF_SIZE"
    and A: "fd_is A r FD_TYPE_PIPE_R i" "fd_is A w FD_TYPE_PIPE_W i" "fd_is A r2 FD_TYPE_PIPE_R i" "nat r \<noteq> nat w" "nat r \<noteq> nat r2" "nat w \<noteq> nat r2"
    and B: "fd_alloc B = Some rb" "fd_alloc (B[rb := (B ! rb)\<lparr>fd_type := FD_TYPE_PIPE_R, pipe_idx := of_nat i\<rparr>]) = Some wb" "length B = FD_MAX"
    and bufs: "user_ptr_range_valid_64 fds 8" "0 < n" "n \<le> SYS_IO_BUF_MAX" "user_ptr_range_valid_64 bufB (of_nat n)" "user_ptr_range_valid_64 bufA (of_nat n)"
  shows "\<exists>A1 s1 A2 s2 B1 s3 s4 s5. sys_close nic r A s = (0, A1, s1) \<and> sys_close nic w A1 s1 = (0, A2, s2)
    \<and> sys_pipe fds B (s2\<lparr>umem := mB\<rparr>) = (0, B1, s3) \<and> sys_write_fd nic ops (int wb) bufB (of_nat n) B1 s3 = (int n, s4)
    \<and> sys_read_fd nic ops env r2 bufA (of_nat n) A2 (s4\<lparr>umem := mA\<rparr>) = Some (int n, A2, s5)
    \<and> load64 (umem s5) bufA n = load64 (umem s3) bufB n"
proof -
  let ?close = "\<lambda>e. e\<lparr>fd_type := FD_TYPE_NONE, fd_flags := 0, fd_path := [], fd_offset := 0, pipe_idx := 0\<rparr>"
  define A1 where "A1 = A[nat r := ?close (A ! nat r)]"
  define s1 where "s1 = upd_pipe i (pipe_close_end FD_TYPE_PIPE_R) s"
  define A2 where "A2 = A1[nat w := ?close (A1 ! nat w)]"
  define s2 where "s2 = upd_pipe i (pipe_close_end FD_TYPE_PIPE_W) s1"
  have c1: "sys_close nic r A s = (0, A1, s1)" using close_pipe [OF A(1) _ pipes(2)] by (simp add: A1_def s1_def)
  have "fd_is A1 w FD_TYPE_PIPE_W i" using A(2,4) by (simp add: A1_def fd_is_update)
  from close_pipe [OF this _ pipes(2)] have c2: "sys_close nic w A1 s1 = (0, A2, s2)" by (simp add: A2_def s2_def)
  have r2: "fd_is A2 r2 FD_TYPE_PIPE_R i" using A(3,5,6) by (simp add: A2_def A1_def fd_is_update)
  have p2: "length (kernel_pipes s2) = 8" "\<not> kp_active (kernel_pipes s2 ! i)" "\<forall>j < i. kp_active (kernel_pipes s2 ! j)" "length (kp_buf (kernel_pipes s2 ! i)) = 4096"
    using pipes by (simp_all add: s2_def s1_def upd_pipe_def pipe_close_end_def Let_def)
  define m where "m = store64 mB fds (le32_bytes (of_nat rb) @ le32_bytes (of_nat wb))"
  define B0 where "B0 = B[rb := (B ! rb)\<lparr>fd_type := FD_TYPE_PIPE_R, pipe_idx := of_nat i\<rparr>]"
  define B1 where "B1 = B0[wb := (B0 ! wb)\<lparr>fd_type := FD_TYPE_PIPE_W, pipe_idx := of_nat i\<rparr>]"
  define s3 where "s3 = (upd_pipe i pipe_fresh s2)\<lparr>umem := m\<rparr>"
  have "find_slot (\<lambda>p. \<not> kp_active p) (kernel_pipes s2) = Some i" using p2 pipes(2) by (auto simp: find_slot_Some_iff)
  then have sp: "sys_pipe fds B (s2\<lparr>umem := mB\<rparr>) = (0, B1, s3)"
    using bufs(1) B(1) B(2) [folded B0_def]
    by (simp add: sys_pipe_def Let_def s3_def m_def upd_pipe_def B1_def B0_def [symmetric])
  have at3: "pipe_at i s3" "pipe_contents (kernel_pipes s3 ! i) = []" "kp_count (kernel_pipes s3 ! i) = 0" "umem s3 = m"
    using p2 pipes(2) by (simp_all add: s3_def pipe_at_def upd_pipe_def pipe_fresh_def pipe_inv_def pipe_contents_def)
  have "wb < 16" using B(2,3) by (auto simp: fd_alloc_def dest: find_slot_SomeD)
  then have fw: "fd_is B1 (int wb) FD_TYPE_PIPE_W i" using B(3) by (simp add: fd_is_def fd_in_range_def B1_def B0_def)
  obtain p where p: "sys_write_fd nic ops (int wb) bufB (of_nat n) B1 s3 = (int n, upd_pipe i (\<lambda>_. p) s3)" "pipe_inv p" "pipe_contents p = load64 m bufB n" "kp_active p"
    using pipe_write [OF at3(1) fw bufs(2,3,4), of nic ops] bufs(3) unfolding at3(2-4) by auto
  define s4 where "s4 = upd_pipe i (\<lambda>_. p) s3"
  have at4: "pipe_at i (s4\<lparr>umem := mA\<rparr>)" "kernel_pipes (s4\<lparr>umem := mA\<rparr>) ! i = p"
    using upd_pipe_at(1) [OF at3(1) p(2,4)] upd_pipe_at(2) [OF pipes(2), of s3 "\<lambda>_. p"] at3(1) by (simp_all add: s4_def pipe_at_def)
  have pc: "kp_count p = n" using p(3) length_pipe_contents [of p] by simp
  obtain p' where rd: "sys_read_fd nic ops env r2 bufA (of_nat n) A2 (s4\<lparr>umem := mA\<rparr>)
      = Some (int n, A2, (upd_pipe i (\<lambda>_. p') (s4\<lparr>umem := mA\<rparr>))\<lparr>umem := store64 mA bufA (load64 m bufB n)\<rparr>)"
    using pipe_read [OF at4(1) r2 bufs(2,3,5), of nic ops env] p(3) pc unfolding at4(2) by auto
  have "n \<le> 2 ^ 32" using bufs(3) by (rule order_trans) simp
  then have "load64 (store64 mA bufA (load64 m bufB n)) bufA n = load64 m bufB n" using load_store64 [of "load64 m bufB n" mA bufA] by simp
  with c1 c2 sp p(1) rd at3(4) show ?thesis unfolding s4_def by fastforce
qed

theorem pipe_reuse_leaks_witness:
  "\<forall>nic ops env n k m mA mB. \<exists>A1 s1 A2 s2 B1 s3 s4 s5. sys_close nic 3 demo_table (demo_fdsys n k m) = (0, A1, s1) \<and> sys_close nic 4 A1 s1 = (0, A2, s2)
    \<and> sys_pipe 0x10000000 fd_table_init (s2\<lparr>umem := mB\<rparr>) = (0, B1, s3) \<and> sys_write_fd nic ops (int 4) 0x10000100 (of_nat 5) B1 s3 = (int 5, s4)
    \<and> sys_read_fd nic ops env 5 0x10000200 (of_nat 5) A2 (s4\<lparr>umem := mA\<rparr>) = Some (int 5, A2, s5)
    \<and> load64 (umem s5) 0x10000200 5 = load64 (umem s3) 0x10000100 5"
proof (intro allI)
  fix nic :: "'a nic" and ops :: "'b disk_ops" and env n k m mA mB
  let ?s = "demo_fdsys n k m :: ('a, 'b) fdsys"
  have p: "length (kernel_pipes ?s) = 8" "(0 :: nat) < 8" "\<forall>j < 0. kp_active (kernel_pipes ?s ! j)" "length (kp_buf (kernel_pipes ?s ! 0)) = 4096"
    by (simp_all add: demo_fdsys_def demo_pipes_def pipe_fresh_def)
  have alloc: "fd_alloc fd_table_init = Some 3" "fd_alloc (fd_table_init[3 := (fd_table_init ! 3)\<lparr>fd_type := FD_TYPE_PIPE_R, pipe_idx := of_nat 0\<rparr>]) = Some 4"
    "length fd_table_init = 16"
    by (simp_all add: fd_alloc_def fd_table_init_def find_slot_def no_fd_def eval_nat_numeral)
  have d: "nat 3 \<noteq> nat 4" "nat 3 \<noteq> nat 5" "nat 4 \<noteq> nat 5" by simp_all
  have v: "user_ptr_range_valid_64 0x10000000 8" "0 < (5 :: nat)" "(5 :: nat) \<le> 4096" "user_ptr_range_valid_64 0x10000100 (of_nat 5)" "user_ptr_range_valid_64 0x10000200 (of_nat 5)"
    by (simp_all add: user_ptr_range_valid_64_def Let_def)
  from pipe_reuse_leaks [OF p demo_fds(1-3) d alloc v, of nic mB ops env mA]
  show "\<exists>A1 s1 A2 s2 B1 s3 s4 s5. sys_close nic 3 demo_table ?s = (0, A1, s1) \<and> sys_close nic 4 A1 s1 = (0, A2, s2)
    \<and> sys_pipe 0x10000000 fd_table_init (s2\<lparr>umem := mB\<rparr>) = (0, B1, s3) \<and> sys_write_fd nic ops (int 4) 0x10000100 (of_nat 5) B1 s3 = (int 5, s4)
    \<and> sys_read_fd nic ops env 5 0x10000200 (of_nat 5) A2 (s4\<lparr>umem := mA\<rparr>) = Some (int 5, A2, s5)
    \<and> load64 (umem s5) 0x10000200 5 = load64 (umem s3) 0x10000100 5" .
qed

end
