(* ===== verification/Tasks.thy ===== *)
theory Tasks
  imports Descriptors Paging
begin

text \<open>
  Processes of the 64-bit kernel (\<open>kernel/arch/x86_64/kernel_x64.c\<close>): the table of tasks, preemption by the timer,
  the process calls behind \<open>int 0x80\<close>, programs in ELF files, mapped memory, and what happens on an exception.
  Kernel stacks are part of the physical memory of \<open>Paging\<close>: the interrupted registers are the 22 words at the
  address of the frame. User memory is read and written through the page tables that are active. The scheduler
  of the Rust core is a record of its calls. Messages on the screen and the serial line are left out, and so are the events for the AI service.
\<close>

unbundle bit_operations_syntax

section \<open>The table of tasks\<close>

abbreviation MAX_TASKS :: nat where "MAX_TASKS \<equiv> 8"
abbreviation TASK_STACK_SIZE :: u64 where "TASK_STACK_SIZE \<equiv> 0x4000"
abbreviation VMA_MAX_PER_TASK :: nat where "VMA_MAX_PER_TASK \<equiv> 16"
abbreviation PROT_WRITE :: u8 where "PROT_WRITE \<equiv> 2"
abbreviation MAP_ANONYMOUS :: u8 where "MAP_ANONYMOUS \<equiv> 0x10"
abbreviation MMAP_BASE_64 :: u64 where "MMAP_BASE_64 \<equiv> 0x20000000"
abbreviation USER_STACK_TOP :: u64 where "USER_STACK_TOP \<equiv> 0x10800000"
abbreviation USER_STACK_SIZE :: u64 where "USER_STACK_SIZE \<equiv> 0x4000"
abbreviation ELF_BUF_SIZE :: nat where "ELF_BUF_SIZE \<equiv> 131072"
abbreviation MMAP_TMP_SIZE :: u32 where "MMAP_TMP_SIZE \<equiv> 65536"

datatype VmaType = VMA_TYPE_NONE | VMA_TYPE_ANON | VMA_TYPE_FILE

record VmaEntry =
  vm_start :: u64
  vm_length :: u64
  vm_type :: VmaType
  vm_prot :: u8
  vm_flags :: u8
  vm_path :: cstring
  vm_file_offset :: u32

text \<open>A null table is 0. The current directory is the string in its array.\<close>

record TaskSlot =
  ts_rsp :: u64
  ts_pid :: u32
  ts_active :: bool
  ticks_remaining :: u16
  ticks_total :: u16
  ts_fds :: fd_table
  ppid_slot :: u32
  ts_brk :: u64
  vma_list :: "VmaEntry list"
  mmap_next :: u64
  ts_pml4 :: u64
  ts_uid :: u16
  ts_gid :: u16
  file_umask :: u16
  ts_cwd :: cstring

text \<open>The calls of the Rust scheduler; \<open>si_info\<close> is the state of a process, if it knows the process.\<close>

record 'r sched_ops =
  si_create :: "u8 \<Rightarrow> cstring \<Rightarrow> 'r \<Rightarrow> u32 \<times> 'r"
  si_terminate_pid :: "u64 \<Rightarrow> u32 \<Rightarrow> 'r \<Rightarrow> 'r"
  si_kill :: "u32 \<Rightarrow> 'r \<Rightarrow> 'r"
  si_schedule :: "'r \<Rightarrow> 'r"
  si_current_pid :: "'r \<Rightarrow> u32"
  si_info :: "u64 \<Rightarrow> 'r \<Rightarrow> nat option"
  si_exit_code :: "u64 \<Rightarrow> 'r \<Rightarrow> u32"
  si_signal_send :: "u64 \<Rightarrow> u8 \<Rightarrow> 'r \<Rightarrow> u32 \<times> 'r"

text \<open>The state; \<open>active_cr3\<close> is the register that names the active tables, \<open>k_sched\<close> is \<open>None\<close> for a null pointer.\<close>

record ('c, 'd, 'r) kernel =
  task_slots :: "TaskSlot list"
  current_task_idx :: int
  context_switch_enabled :: bool
  context_switch_count :: u64
  tss_rsp0 :: u64
  active_cr3 :: u64
  kernel_tick :: u64
  k_pages :: paging
  k_io :: "('c, 'd) fdsys"
  k_sched :: "'r option"
  elf_load_buf :: bytes
  mmap_file_tmp :: bytes

text \<open>
  How an interrupt ends: the stub returns to the interrupted code (\<open>Resume 0\<close>) or loads the given stack pointer;
  or the processor stops for good.
\<close>

datatype 'k outcome = Resume u64 'k | Halt

definition cur_idx :: "('c, 'd, 'r) kernel \<Rightarrow> nat" where
  "cur_idx s = nat (current_task_idx s)"

definition cur_task :: "('c, 'd, 'r) kernel \<Rightarrow> TaskSlot" where
  "cur_task s = task_slots s ! cur_idx s"

definition upd_task :: "nat \<Rightarrow> (TaskSlot \<Rightarrow> TaskSlot) \<Rightarrow> ('c, 'd, 'r) kernel \<Rightarrow> ('c, 'd, 'r) kernel" where
  "upd_task i f s = s\<lparr>task_slots := (task_slots s)[i := f (task_slots s ! i)]\<rparr>"

definition upd_cur :: "(TaskSlot \<Rightarrow> TaskSlot) \<Rightarrow> ('c, 'd, 'r) kernel \<Rightarrow> ('c, 'd, 'r) kernel" where
  "upd_cur f s = upd_task (cur_idx s) f s"

definition on_pages :: "(paging \<Rightarrow> paging) \<Rightarrow> ('c, 'd, 'r) kernel \<Rightarrow> ('c, 'd, 'r) kernel" where
  "on_pages f s = s\<lparr>k_pages := f (k_pages s)\<rparr>"

definition free_task_slot :: "('c, 'd, 'r) kernel \<Rightarrow> nat option" where
  "free_task_slot s = find_slot (\<lambda>t. \<not> ts_active t) (task_slots s)"

definition task_find :: "u32 \<Rightarrow> ('c, 'd, 'r) kernel \<Rightarrow> int" where
  "task_find pid s = (case find_slot (\<lambda>t. ts_active t \<and> ts_pid t = pid) (task_slots s) of Some i \<Rightarrow> int i | None \<Rightarrow> -1)"

definition kernel_tables :: "('c, 'd, 'r) kernel \<Rightarrow> u64" where
  "kernel_tables s = kernel_pml4 (k_pages s)"

definition task_switch_cr3 :: "int \<Rightarrow> ('c, 'd, 'r) kernel \<Rightarrow> ('c, 'd, 'r) kernel" where
  "task_switch_cr3 idx s =
     s\<lparr>active_cr3 := (if idx \<ge> 0 \<and> ts_pml4 (task_slots s ! nat idx) \<noteq> 0 then ts_pml4 (task_slots s ! nat idx) else kernel_tables s)\<rparr>"

definition free_user_tables :: "u64 \<Rightarrow> ('c, 'd, 'r) kernel \<Rightarrow> ('c, 'd, 'r) kernel" where
  "free_user_tables p s = (if p \<noteq> 0 \<and> p \<noteq> kernel_tables s then on_pages (paging_free_user_space p) s else s)"

section \<open>Frames on kernel stacks\<close>

abbreviation FR_RBP :: nat where "FR_RBP \<equiv> 10"
abbreviation FR_RDI :: nat where "FR_RDI \<equiv> 8"
abbreviation FR_RSI :: nat where "FR_RSI \<equiv> 9"
abbreviation FR_RBX :: nat where "FR_RBX \<equiv> 11"
abbreviation FR_RDX :: nat where "FR_RDX \<equiv> 12"
abbreviation FR_RCX :: nat where "FR_RCX \<equiv> 13"
abbreviation FR_RAX :: nat where "FR_RAX \<equiv> 14"
abbreviation FR_INT_NO :: nat where "FR_INT_NO \<equiv> 15"
abbreviation FR_ERROR :: nat where "FR_ERROR \<equiv> 16"
abbreviation FR_RIP :: nat where "FR_RIP \<equiv> 17"
abbreviation FR_CS :: nat where "FR_CS \<equiv> 18"
abbreviation FR_RSP :: nat where "FR_RSP \<equiv> 20"

definition reg :: "nat \<Rightarrow> u64 \<Rightarrow> ('c, 'd, 'r) kernel \<Rightarrow> u64" where
  "reg k frame s = pg_mem (k_pages s) (ent frame k)"

definition set_reg :: "nat \<Rightarrow> u64 \<Rightarrow> u64 \<Rightarrow> ('c, 'd, 'r) kernel \<Rightarrow> ('c, 'd, 'r) kernel" where
  "set_reg k v frame s = on_pages (put_word (ent frame k) v) s"

definition set_rax :: "int \<Rightarrow> u64 \<Rightarrow> ('c, 'd, 'r) kernel \<Rightarrow> ('c, 'd, 'r) kernel" where
  "set_rax v frame s = set_reg FR_RAX (of_int v) frame s"

text \<open>Words pushed downwards from an address; the result is the new stack pointer.\<close>

fun push_words :: "u64 list \<Rightarrow> u64 \<Rightarrow> paging \<Rightarrow> u64 \<times> paging" where
  "push_words [] sp p = (sp, p)"
| "push_words (w # ws) sp p = push_words ws (sp - 8) (put_word (sp - 8) w p)"

definition copy_words :: "u64 \<Rightarrow> u64 \<Rightarrow> u64 \<Rightarrow> (u64 \<Rightarrow> u64) \<Rightarrow> u64 \<Rightarrow> u64" where
  "copy_words dst src n m = (\<lambda>a. if a - dst < n then m (src + (a - dst)) else m a)"

section \<open>User memory through the tables\<close>

definition word_byte :: "u64 \<Rightarrow> nat \<Rightarrow> u8" where
  "word_byte w i = ucast (drop_bit (8 * i) w)"

definition put_word_byte :: "u64 \<Rightarrow> nat \<Rightarrow> u8 \<Rightarrow> u64" where
  "put_word_byte w i b = (w AND NOT (push_bit (8 * i) 0xFF)) OR push_bit (8 * i) (ucast b)"

definition phys_byte :: "u64 \<Rightarrow> paging \<Rightarrow> u8" where
  "phys_byte a p = word_byte (pg_mem p (a AND NOT 7)) (unat (a AND 7))"

text \<open>What a read by the kernel at a user address yields; \<open>None\<close> is a page fault in kernel mode.\<close>

definition user_byte :: "u64 \<Rightarrow> paging \<Rightarrow> u64 \<Rightarrow> u8 option" where
  "user_byte pml4 p va =
     (case paging_get_pte pml4 va p of
        None \<Rightarrow> None
      | Some pte \<Rightarrow>
          let e = pg_mem p pte in
          if e AND PAGE_PRESENT = 0 then None else Some (phys_byte ((e AND PAGE_ADDR_MASK) + (va AND 0xFFF)) p))"

text \<open>
  A store by the kernel (write protection is on in kernel mode): a page marked copy on write is resolved by the
  fault handler and the store is repeated; \<open>None\<close> is a fault that stays.
\<close>

definition store_phys :: "u64 \<Rightarrow> u8 \<Rightarrow> paging \<Rightarrow> paging" where
  "store_phys a b p = put_word (a AND NOT 7) (put_word_byte (pg_mem p (a AND NOT 7)) (unat (a AND 7)) b) p"

definition user_store :: "u64 \<Rightarrow> u64 \<Rightarrow> u8 \<Rightarrow> paging \<Rightarrow> paging option" where
  "user_store pml4 va b p =
     (case paging_get_pte pml4 va p of
        None \<Rightarrow> None
      | Some pte \<Rightarrow>
          let e = pg_mem p pte in
          if e AND PAGE_PRESENT \<noteq> 0 \<and> e AND PAGE_WRITABLE \<noteq> 0
          then Some (store_phys ((e AND PAGE_ADDR_MASK) + (va AND 0xFFF)) b p)
          else case paging_handle_cow_fault pml4 va p of (r, p1) \<Rightarrow>
            if r = 0 then Some (store_phys ((pg_mem p1 pte AND PAGE_ADDR_MASK) + (va AND 0xFFF)) b p1) else None)"

text \<open>A run of stores: \<open>Inl\<close> is the address that faults and what is stored so far.\<close>

fun user_store_bytes :: "u64 \<Rightarrow> u64 \<Rightarrow> bytes \<Rightarrow> paging \<Rightarrow> u64 \<times> paging + paging" where
  "user_store_bytes pml4 va [] p = Inr p"
| "user_store_bytes pml4 va (b # bs) p =
     (case user_store pml4 va b p of None \<Rightarrow> Inl (va, p) | Some p1 \<Rightarrow> user_store_bytes pml4 (va + 1) bs p1)"

text \<open>A path argument: it is read byte by byte until its end, for at most 64 bytes, or up to an address that faults.\<close>

datatype user_path = PathFault u64 | PathBad | PathOk cstring

fun user_path_loop :: "nat \<Rightarrow> (u64 \<Rightarrow> u8 option) \<Rightarrow> u64 \<Rightarrow> cstring \<Rightarrow> user_path" where
  "user_path_loop 0 v a acc = PathBad"
| "user_path_loop (Suc n) v a acc =
     (case v a of
        None \<Rightarrow> PathFault a
      | Some b \<Rightarrow> if b = 0 then PathOk (rev acc) else user_path_loop n v (a + 1) (char_of_byte b # acc))"

definition user_path_64 :: "u64 \<Rightarrow> ('c, 'd, 'r) kernel \<Rightarrow> user_path" where
  "user_path_64 user_ptr s =
     (if user_ptr = 0 \<or> user_ptr < USER_VADDR_MIN_64 \<or> user_ptr \<ge> USER_VADDR_MAX_64 then PathBad
      else user_path_loop SYS_IO_PATH_MAX (user_byte (active_cr3 s) (k_pages s)) user_ptr [])"

section \<open>Choosing the next task\<close>

fun rr_scan :: "nat \<Rightarrow> nat \<Rightarrow> TaskSlot list \<Rightarrow> nat" where
  "rr_scan 0 n ts = n"
| "rr_scan (Suc k) n ts = (let n' = (n + 1) mod MAX_TASKS in if ts_active (ts ! n') then n' else rr_scan k n' ts)"

definition next_active :: "nat \<Rightarrow> TaskSlot list \<Rightarrow> nat option" where
  "next_active cur ts = find (\<lambda>i. ts_active (ts ! i)) (map (\<lambda>i. (cur + 1 + i) mod MAX_TASKS) [0..<MAX_TASKS])"

text \<open>\<open>stk i\<close> is the address of the stack array of slot \<open>i\<close>.\<close>

definition switch_to :: "(nat \<Rightarrow> u64) \<Rightarrow> nat \<Rightarrow> ('c, 'd, 'r) kernel \<Rightarrow> ('c, 'd, 'r) kernel" where
  "switch_to stk n s = task_switch_cr3 (int n) (s\<lparr>current_task_idx := int n, tss_rsp0 := stk n + TASK_STACK_SIZE\<rparr>)"

definition timer_preempt :: "(nat \<Rightarrow> u64) \<Rightarrow> u64 \<Rightarrow> ('c, 'd, 'r) kernel \<Rightarrow> ('c, 'd, 'r) kernel outcome" where
  "timer_preempt stk frame s =
     (if context_switch_enabled s \<and> current_task_idx s \<ge> 0 then
        let r = ticks_remaining (cur_task s); r1 = (if r > 0 then r - 1 else r); s1 = upd_cur (\<lambda>t. t\<lparr>ticks_remaining := r1\<rparr>) s in
        if r1 = 0 then
          let s2 = upd_cur (\<lambda>t. t\<lparr>ts_rsp := frame, ticks_remaining := ticks_total t\<rparr>) s1;
              n = rr_scan MAX_TASKS (cur_idx s2) (task_slots s2)
          in if n \<noteq> cur_idx s2 \<and> ts_active (task_slots s2 ! n)
             then Resume (ts_rsp (task_slots s2 ! n)) (switch_to stk n (s2\<lparr>context_switch_count := context_switch_count s2 + 1\<rparr>))
             else Resume 0 s2
        else Resume 0 s1
      else Resume 0 s)"

section \<open>Tasks of the kernel\<close>

definition vma_init :: "VmaEntry list \<Rightarrow> VmaEntry list" where
  "vma_init vs = map (\<lambda>v. v\<lparr>vm_type := VMA_TYPE_NONE\<rparr>) vs"

definition task_create :: "(nat \<Rightarrow> u64) \<Rightarrow> u64 \<Rightarrow> u32 \<Rightarrow> u16 \<Rightarrow> ('c, 'd, 'r) kernel \<Rightarrow> int \<times> ('c, 'd, 'r) kernel" where
  "task_create stk entry pid ticks s =
     (case free_task_slot s of
        None \<Rightarrow> (-1, s)
      | Some i \<Rightarrow>
          let top = stk i + TASK_STACK_SIZE in
          (case push_words ([0x10, top, 0x202, 0x08, entry, 0, 0] @ replicate 15 0) top (k_pages s) of (sp, p) \<Rightarrow>
             (int i, upd_task i (\<lambda>t. t\<lparr>ts_active := True, ts_pid := pid, ticks_remaining := ticks, ticks_total := ticks,
                 ts_brk := 0, mmap_next := 0, ts_pml4 := kernel_tables s, vma_list := vma_init (vma_list t), ts_rsp := sp\<rparr>)
               (s\<lparr>k_pages := p\<rparr>))))"

definition task_register_main :: "u32 \<Rightarrow> u16 \<Rightarrow> ('c, 'd, 'r) kernel \<Rightarrow> ('c, 'd, 'r) kernel" where
  "task_register_main pid ticks s =
     (upd_task 0 (\<lambda>t. t\<lparr>ts_active := True, ts_pid := pid, ts_rsp := 0, ticks_remaining := ticks, ticks_total := ticks,
        ts_uid := 0, ts_gid := 0, file_umask := 0x12, ts_cwd := ''/'', ts_pml4 := kernel_tables s\<rparr>) s)\<lparr>current_task_idx := 0\<rparr>"

section \<open>fork\<close>

definition sys_fork :: "(nat \<Rightarrow> u64) \<Rightarrow> 'r sched_ops \<Rightarrow> u64 \<Rightarrow> ('c, 'd, 'r) kernel \<Rightarrow> int \<times> ('c, 'd, 'r) kernel" where
  "sys_fork stk ops frame s =
     (if current_task_idx s < 0 then (-1, s)
      else case free_task_slot s of
        None \<Rightarrow> (-1, s)
      | Some c \<Rightarrow>
          (case k_sched s of
             None \<Rightarrow> (-1, s)
           | Some sch \<Rightarrow>
               (case si_create ops 5 ''forked'' sch of (child_pid, sch1) \<Rightarrow>
                  let parent = cur_task s;
                      s1 = upd_task c (\<lambda>t. t\<lparr>ts_active := True, ts_pid := child_pid, ticks_remaining := ticks_total parent,
                             ticks_total := ticks_total parent, ppid_slot := of_int (current_task_idx s), ts_brk := ts_brk parent\<rparr>)
                           (s\<lparr>k_sched := Some sch1\<rparr>)
                  in case paging_create_address_space (kernel_tables s1) (k_pages s1) of (d, p1) \<Rightarrow>
                    if d = 0 then (-1, upd_task c (\<lambda>t. t\<lparr>ts_pml4 := 0, ts_active := False\<rparr>) (s1\<lparr>k_pages := p1\<rparr>))
                    else case paging_clone_user_pages d (ts_pml4 parent) p1 of (r, p2) \<Rightarrow>
                      if r < 0 then (-1, upd_task c (\<lambda>t. t\<lparr>ts_pml4 := d, ts_active := False\<rparr>) (s1\<lparr>k_pages := paging_free_user_space d p2\<rparr>))
                      else let m = copy_words (stk c) (stk (cur_idx s)) TASK_STACK_SIZE (pg_mem p2);
                               child_frame = stk c + (frame - stk (cur_idx s));
                               p3 = put_word (ent child_frame FR_RAX) 0 (p2\<lparr>pg_mem := m\<rparr>)
                        in (uint child_pid,
                            upd_task c (\<lambda>t. t\<lparr>ts_pml4 := d, ts_fds := fd_copy (ts_fds parent), ts_uid := ts_uid parent, ts_gid := ts_gid parent,
                              file_umask := file_umask parent, ts_cwd := ts_cwd parent, vma_list := vma_list parent,
                              mmap_next := mmap_next parent, ts_rsp := child_frame\<rparr>) (s1\<lparr>k_pages := p3\<rparr>)))))"

section \<open>Programs\<close>

text \<open>
  How a call ends: it returns a value; or it faults in kernel mode at an address, with the error code of the processor and the state
  at the fault; or it does not return (a damaged FAT volume) or reads behind the load buffer.
\<close>

datatype 'k call = Returns int 'k | Faults u64 u64 'k | Stuck

definition le64_of :: "bytes \<Rightarrow> u64" where
  "le64_of b = ucast (le32_of b) OR push_bit 32 (ucast (le32_of (drop 4 b)))"

record Elf64_Ehdr =
  e_magic :: u32
  e_class :: u8
  e_data :: u8
  e_type :: u16
  e_machine :: u16
  e_entry :: u64
  e_phoff :: u64
  e_phnum :: u16

record Elf64_Phdr =
  p_type :: u32
  p_offset :: u64
  p_vaddr :: u64
  p_filesz :: u64
  p_memsz :: u64

definition ehdr_of :: "bytes \<Rightarrow> Elf64_Ehdr" where
  "ehdr_of b = \<lparr>e_magic = le32_of b, e_class = b ! 4, e_data = b ! 5, e_type = le16_of (drop 16 b), e_machine = le16_of (drop 18 b),
     e_entry = le64_of (drop 24 b), e_phoff = le64_of (drop 32 b), e_phnum = le16_of (drop 56 b)\<rparr>"

definition phdr_of :: "bytes \<Rightarrow> Elf64_Phdr" where
  "phdr_of b = \<lparr>p_type = le32_of b, p_offset = le64_of (drop 8 b), p_vaddr = le64_of (drop 16 b),
     p_filesz = le64_of (drop 32 b), p_memsz = le64_of (drop 40 b)\<rparr>"

text \<open>Program header \<open>i\<close>; nothing checks that it lies in the buffer.\<close>

definition phdr_at :: "bytes \<Rightarrow> u64 \<Rightarrow> nat \<Rightarrow> Elf64_Phdr option" where
  "phdr_at buf off i = (let a = unat off + 56 * i in if a + 56 \<le> length buf then Some (phdr_of (drop a buf)) else None)"

definition page_down :: "u64 \<Rightarrow> u64" where
  "page_down a = a AND NOT 0xFFF"

definition page_up :: "u64 \<Rightarrow> u64" where
  "page_up a = (a + 0xFFF) AND NOT 0xFFF"

text \<open>The number of pages in a loop from one page address up to another one.\<close>

definition pages_between :: "u64 \<Rightarrow> u64 \<Rightarrow> nat" where
  "pages_between a b = (if a < b then unat (b - a) div 4096 else 0)"

abbreviation USER_PAGE :: u64 where
  "USER_PAGE \<equiv> PAGE_PRESENT OR PAGE_WRITABLE OR PAGE_USER"

text \<open>The byte of a segment at an address: from the file, or zero.\<close>

definition seg_byte :: "bytes \<Rightarrow> u64 \<Rightarrow> Elf64_Phdr \<Rightarrow> u64 \<Rightarrow> u8" where
  "seg_byte buf file_size ph a =
     (if a < p_vaddr ph \<or> a \<ge> p_vaddr ph + p_memsz ph then 0
      else let seg_off = a - p_vaddr ph; foff = p_offset ph + seg_off in
        if seg_off < p_filesz ph \<and> foff < file_size then buf ! unat foff else 0)"

definition bytes_word :: "(nat \<Rightarrow> u8) \<Rightarrow> u64" where
  "bytes_word g = fold (\<lambda>i w. w OR push_bit (8 * i) (ucast (g i))) [0..<8] 0"

text \<open>The bytes of a cleared frame that a loop fills; \<open>g\<close> gives the byte at each offset.\<close>

definition fill_frame :: "u64 \<Rightarrow> (nat \<Rightarrow> u8) \<Rightarrow> (u64 \<Rightarrow> u64) \<Rightarrow> u64 \<Rightarrow> u64" where
  "fill_frame f g m = (\<lambda>a. if frame_of a = f then bytes_word (\<lambda>i. g (unat (a - f) + i)) else m a)"

definition map_new_page :: "u64 \<Rightarrow> u64 \<Rightarrow> (nat \<Rightarrow> u8) \<Rightarrow> u64 \<Rightarrow> paging \<Rightarrow> bool \<times> paging" where
  "map_new_page pml4 va g flags p =
     (case frame_alloc p of (f, p1) \<Rightarrow>
        if f = 0 then (False, p1)
        else (True, paging_map_4k pml4 va f flags (p1\<lparr>pg_mem := fill_frame f g (pg_mem p1)\<rparr>)))"

fun map_new_pages :: "nat \<Rightarrow> u64 \<Rightarrow> u64 \<Rightarrow> (u64 \<Rightarrow> u8) \<Rightarrow> paging \<Rightarrow> bool \<times> paging" where
  "map_new_pages 0 pml4 va g p = (True, p)"
| "map_new_pages (Suc n) pml4 va g p =
     (case map_new_page pml4 va (\<lambda>b. g (va + of_nat b)) USER_PAGE p of (ok, p1) \<Rightarrow>
        if ok then map_new_pages n pml4 (va + 4096) g p1 else (False, p1))"

datatype load_result = LoadOk u64 paging | LoadFail u64 paging | LoadStuck

text \<open>The loop over the program headers; \<open>k\<close> headers are left, \<open>brk\<close> is the end of the highest segment so far.\<close>

fun load_segments :: "nat \<Rightarrow> nat \<Rightarrow> u64 \<Rightarrow> bytes \<Rightarrow> u64 \<Rightarrow> u64 \<Rightarrow> u64 \<Rightarrow> paging \<Rightarrow> load_result" where
  "load_segments 0 i off buf file_size pml4 brk p = LoadOk brk p"
| "load_segments (Suc k) i off buf file_size pml4 brk p =
     (case phdr_at buf off i of
        None \<Rightarrow> LoadStuck
      | Some ph \<Rightarrow>
          if p_type ph \<noteq> 1 \<or> p_memsz ph = 0 then load_segments k (Suc i) off buf file_size pml4 brk p
          else let vaddr = page_down (p_vaddr ph); vend = page_up (p_vaddr ph + p_memsz ph) in
            case map_new_pages (pages_between vaddr vend) pml4 vaddr (seg_byte buf file_size ph) p of (ok, p1) \<Rightarrow>
              if ok then load_segments k (Suc i) off buf file_size pml4 (if vend > brk then vend else brk) p1
              else LoadFail brk p1)"

definition map_stack :: "u64 \<Rightarrow> paging \<Rightarrow> bool \<times> paging" where
  "map_stack pml4 p = map_new_pages 4 pml4 (USER_STACK_TOP - USER_STACK_SIZE) (\<lambda>_. 0) p"

fun close_fds :: "'c nic \<Rightarrow> nat list \<Rightarrow> fd_table \<Rightarrow> ('c, 'd) fdsys \<Rightarrow> fd_table \<times> ('c, 'd) fdsys" where
  "close_fds nic [] fdt io = (fdt, io)"
| "close_fds nic (i # is) fdt io = (case fd_close_entry nic (int i) fdt io of (fdt1, io1) \<Rightarrow> close_fds nic is fdt1 io1)"

definition exec_header_ok :: "Elf64_Ehdr \<Rightarrow> bool" where
  "exec_header_ok h \<longleftrightarrow> \<not> (e_magic h \<noteq> 0x464C457F \<or> e_class h \<noteq> 2 \<or> e_machine h \<noteq> 0x3E \<or> e_type h \<noteq> 2)"

text \<open>The part of \<open>sys_execve\<close> after the image is loaded: switch tables, release the old ones, close descriptors, set the frame.\<close>

definition exec_commit :: "'c nic \<Rightarrow> u64 \<Rightarrow> u64 \<Rightarrow> u64 \<Rightarrow> ('c, 'd, 'r) kernel \<Rightarrow> ('c, 'd, 'r) kernel" where
  "exec_commit nic frame new_pml4 entry s =
     (let old = ts_pml4 (cur_task s);
          s1 = task_switch_cr3 (current_task_idx s) (upd_cur (\<lambda>t. t\<lparr>ts_pml4 := new_pml4\<rparr>) s);
          s2 = free_user_tables old s1
      in case close_fds nic [3..<FD_MAX] (ts_fds (cur_task s2)) (k_io s2) of (fdt, io) \<Rightarrow>
        fold (\<lambda>(k, v). set_reg k v frame)
          [(FR_RIP, entry), (FR_RSP, USER_STACK_TOP), (FR_RAX, 0), (FR_RBX, 0), (FR_RCX, 0), (FR_RDX, 0), (FR_RSI, 0), (FR_RDI, 0), (FR_RBP, 0)]
          (upd_cur (\<lambda>t. t\<lparr>ts_fds := fdt\<rparr>) (s2\<lparr>k_io := io\<rparr>)))"

definition sys_execve :: "'c nic \<Rightarrow> 'd disk_ops \<Rightarrow> kenv \<Rightarrow> u64 \<Rightarrow> u64 \<Rightarrow> ('c, 'd, 'r) kernel \<Rightarrow> ('c, 'd, 'r) kernel call" where
  "sys_execve nic ops env frame path_ptr s =
     (if current_task_idx s < 0 then Returns (-1) s
      else case user_path_64 path_ptr s of
        PathFault a \<Rightarrow> Faults a 0 s
      | PathBad \<Rightarrow> Returns (-1) s
      | PathOk path \<Rightarrow>
          (case kfs_read_file ops env (Some path) (elf_load_buf s) ELF_BUF_SIZE (fs_kfs (k_io s)) of
             None \<Rightarrow> Stuck
           | Some ((file_size, buf), k) \<Rightarrow>
               let s1 = s\<lparr>elf_load_buf := buf, k_io := (k_io s)\<lparr>fs_kfs := k\<rparr>\<rparr>; h = ehdr_of buf in
               if file_size < 64 then Returns (-1) s1
               else if \<not> exec_header_ok h then Returns (-1) s1
               else case paging_create_address_space (kernel_tables s1) (k_pages s1) of (new_pml4, p1) \<Rightarrow>
                 if new_pml4 = 0 then Returns (-1) (s1\<lparr>k_pages := p1\<rparr>)
                 else case load_segments (unat (e_phnum h)) 0 (e_phoff h) buf (of_int file_size) new_pml4 (ts_brk (cur_task s1)) p1 of
                   LoadStuck \<Rightarrow> Stuck
                 | LoadFail brk p2 \<Rightarrow> Returns (-1) (upd_cur (\<lambda>t. t\<lparr>ts_brk := brk\<rparr>) (s1\<lparr>k_pages := p2\<rparr>))
                 | LoadOk brk p2 \<Rightarrow>
                     (case map_stack new_pml4 p2 of (ok, p3) \<Rightarrow>
                        let s2 = upd_cur (\<lambda>t. t\<lparr>ts_brk := brk\<rparr>) (s1\<lparr>k_pages := p3\<rparr>)
                        in if ok then Returns 0 (exec_commit nic frame new_pml4 (e_entry h) s2) else Returns (-1) s2)))"

definition elf_header_ok :: "Elf64_Ehdr \<Rightarrow> bool" where
  "elf_header_ok h \<longleftrightarrow> \<not> (e_magic h \<noteq> 0x464C457F \<or> e_class h \<noteq> 2 \<or> e_data h \<noteq> 1 \<or> e_machine h \<noteq> 0x3E \<or> e_type h \<noteq> 2)
     \<and> \<not> (e_phoff h = 0 \<or> e_phnum h = 0)"

definition elf_exec :: "(nat \<Rightarrow> u64) \<Rightarrow> 'r sched_ops \<Rightarrow> 'd disk_ops \<Rightarrow> kenv \<Rightarrow> cstring \<Rightarrow> u16 \<Rightarrow> ('c, 'd, 'r) kernel \<Rightarrow> ('c, 'd, 'r) kernel call" where
  "elf_exec stk sops ops env path ticks s =
     (case kfs_read_file ops env (Some path) (elf_load_buf s) ELF_BUF_SIZE (fs_kfs (k_io s)) of
        None \<Rightarrow> Stuck
      | Some ((file_size, buf), k) \<Rightarrow>
          let s1 = s\<lparr>elf_load_buf := buf, k_io := (k_io s)\<lparr>fs_kfs := k\<rparr>\<rparr>; h = ehdr_of buf in
          if file_size < 64 then Returns (-1) s1
          else if \<not> elf_header_ok h then Returns (-1) s1
          else case free_task_slot s1 of
            None \<Rightarrow> Returns (-1) s1
          | Some i \<Rightarrow>
              (case k_sched s1 of
                 None \<Rightarrow> Stuck
               | Some sch \<Rightarrow>
                   (case si_create sops 5 path sch of (pid, sch1) \<Rightarrow>
                      let s2 = upd_task i (\<lambda>t. t\<lparr>ts_active := True, ts_pid := pid, ticks_remaining := ticks, ticks_total := ticks, ts_brk := 0,
                                 ts_fds := fd_table_init, ts_uid := 0, ts_gid := 0, file_umask := 0x12, ts_cwd := ''/'',
                                 vma_list := vma_init (vma_list t), mmap_next := 0\<rparr>) (s1\<lparr>k_sched := Some sch1\<rparr>);
                          failed = (\<lambda>p. Returns (-1) (upd_task i (\<lambda>t. t\<lparr>ts_active := False\<rparr>) (s2\<lparr>k_pages := p\<rparr>)))
                      in case paging_create_address_space (kernel_tables s2) (k_pages s2) of (task_pml4, p1) \<Rightarrow>
                        if task_pml4 = 0 then failed p1
                        else case load_segments (unat (e_phnum h)) 0 (e_phoff h) buf (of_int file_size) task_pml4 0 p1 of
                          LoadStuck \<Rightarrow> Stuck
                        | LoadFail _ p2 \<Rightarrow> failed p2
                        | LoadOk _ p2 \<Rightarrow>
                            (case map_stack task_pml4 p2 of (ok, p3) \<Rightarrow>
                               if \<not> ok then failed p3
                               else case push_words ([0x23, USER_STACK_TOP, 0x202, 0x1B, e_entry h, 0, 0] @ replicate 15 0) (stk i + TASK_STACK_SIZE) p3 of
                                 (sp, p4) \<Rightarrow> Returns (int i) (upd_task i (\<lambda>t. t\<lparr>ts_pml4 := task_pml4, ts_rsp := sp\<rparr>) (s2\<lparr>k_pages := p4\<rparr>))))))"

definition kernel_elf_exec :: "(nat \<Rightarrow> u64) \<Rightarrow> 'r sched_ops \<Rightarrow> 'd disk_ops \<Rightarrow> kenv \<Rightarrow> cstring \<Rightarrow> ('c, 'd, 'r) kernel \<Rightarrow> ('c, 'd, 'r) kernel call" where
  "kernel_elf_exec stk sops ops env path s =
     (case elf_exec stk sops ops env path 24 s of
        Returns i s1 \<Rightarrow> if i \<ge> 0 then Returns 0 (s1\<lparr>tss_rsp0 := stk (nat i) + TASK_STACK_SIZE\<rparr>) else Returns (-1) s1
      | Faults a e s1 \<Rightarrow> Faults a e s1
      | Stuck \<Rightarrow> Stuck)"

section \<open>Memory of a process\<close>

definition task_tables :: "('c, 'd, 'r) kernel \<Rightarrow> u64" where
  "task_tables s = (if ts_pml4 (cur_task s) \<noteq> 0 then ts_pml4 (cur_task s) else kernel_tables s)"

definition sys_sbrk :: "u64 \<Rightarrow> ('c, 'd, 'r) kernel \<Rightarrow> int \<times> ('c, 'd, 'r) kernel" where
  "sys_sbrk increment s =
     (if current_task_idx s < 0 then (-1, s)
      else let s1 = upd_cur (\<lambda>t. if ts_brk t = 0 then t\<lparr>ts_brk := 0x10100000\<rparr> else t) s; old_brk = ts_brk (cur_task s1) in
        if increment = 0 then (uint old_brk, s1)
        else let new_brk = old_brk + increment in
          case (if sint increment > 0
                then map_new_pages (pages_between (page_up old_brk) (page_up new_brk)) (task_tables s1) (page_up old_brk) (\<lambda>_. 0) (k_pages s1)
                else (True, k_pages s1)) of (ok, p) \<Rightarrow>
            let s2 = s1\<lparr>k_pages := p\<rparr> in if ok then (uint old_brk, upd_cur (\<lambda>t. t\<lparr>ts_brk := new_brk\<rparr>) s2) else (-1, s2))"

definition in_vma :: "u64 \<Rightarrow> VmaEntry \<Rightarrow> bool" where
  "in_vma addr v \<longleftrightarrow> vm_type v \<noteq> VMA_TYPE_NONE \<and> addr \<ge> vm_start v \<and> addr < vm_start v + vm_length v"

definition vma_find :: "VmaEntry list \<Rightarrow> u64 \<Rightarrow> VmaEntry option" where
  "vma_find vmas addr = find (in_vma addr) vmas"

definition sys_mmap :: "u64 \<Rightarrow> u64 \<Rightarrow> u64 \<Rightarrow> ('c, 'd, 'r) kernel \<Rightarrow> ('c, 'd, 'r) kernel call" where
  "sys_mmap length0 prot_flags path_ptr s =
     (if current_task_idx s < 0 then Returns (-1) s
      else let len = page_up length0 in
        if len = 0 \<or> len > 0x1000000 then Returns (-1) s
        else let prot = ucast (prot_flags AND 0xFF); flags = ucast (drop_bit 8 prot_flags AND 0xFF) in
          case find_slot (\<lambda>v. vm_type v = VMA_TYPE_NONE) (vma_list (cur_task s)) of
            None \<Rightarrow> Returns (-1) s
          | Some i \<Rightarrow>
              let va = (if mmap_next (cur_task s) = 0 then MMAP_BASE_64 else mmap_next (cur_task s));
                  v = (vma_list (cur_task s) ! i)\<lparr>vm_start := va, vm_length := len, vm_prot := prot, vm_flags := flags, vm_file_offset := 0, vm_path := []\<rparr>;
                  put = (\<lambda>v. upd_cur (\<lambda>t. t\<lparr>mmap_next := va + len, vma_list := (vma_list t)[i := v]\<rparr>) s)
              in if path_ptr = 0 \<or> flags AND MAP_ANONYMOUS \<noteq> 0 then Returns (uint va) (put (v\<lparr>vm_type := VMA_TYPE_ANON\<rparr>))
                 else case user_path_64 path_ptr s of
                   PathFault a \<Rightarrow> Faults a 0 (put (v\<lparr>vm_type := VMA_TYPE_FILE\<rparr>))
                 | PathBad \<Rightarrow> Returns (-1) (put (v\<lparr>vm_type := VMA_TYPE_NONE\<rparr>))
                 | PathOk path \<Rightarrow> Returns (uint va) (put (v\<lparr>vm_type := VMA_TYPE_FILE, vm_path := path\<rparr>)))"

definition sys_munmap :: "u64 \<Rightarrow> ('c, 'd, 'r) kernel \<Rightarrow> int \<times> ('c, 'd, 'r) kernel" where
  "sys_munmap addr s =
     (if current_task_idx s < 0 then (-1, s)
      else case find_slot (\<lambda>v. vm_type v \<noteq> VMA_TYPE_NONE \<and> vm_start v = addr) (vma_list (cur_task s)) of
        None \<Rightarrow> (-1, s)
      | Some i \<Rightarrow> (0, upd_cur (\<lambda>t. t\<lparr>vma_list := (vma_list t)[i := (vma_list t ! i)\<lparr>vm_type := VMA_TYPE_NONE\<rparr>]\<rparr>) s))"

section \<open>Calls on processes\<close>

definition sys_exit :: "(nat \<Rightarrow> u64) \<Rightarrow> 'r sched_ops \<Rightarrow> u64 \<Rightarrow> ('c, 'd, 'r) kernel \<Rightarrow> ('c, 'd, 'r) kernel outcome" where
  "sys_exit stk ops frame s =
     (let exit_pid = (if current_task_idx s \<ge> 0 then ts_pid (cur_task s) else 0);
          s1 = s\<lparr>k_sched := map_option (si_terminate_pid ops (ucast exit_pid) (ucast (reg FR_RBX frame s))) (k_sched s)\<rparr>
      in if context_switch_enabled s1 \<and> current_task_idx s1 \<ge> 0 then
           let dead = ts_pml4 (cur_task s1); s2 = upd_cur (\<lambda>t. t\<lparr>ts_pml4 := 0, ts_active := False\<rparr>) s1 in
           case next_active (cur_idx s2) (task_slots s2) of
             Some n \<Rightarrow> Resume (ts_rsp (task_slots s2 ! n)) (free_user_tables dead (switch_to stk n s2))
           | None \<Rightarrow> Halt
         else Halt)"

definition kill_victim :: "u64 \<Rightarrow> ('c, 'd, 'r) kernel \<Rightarrow> nat option" where
  "kill_victim dst_pid s =
     find (\<lambda>i. ts_active (task_slots s ! i) \<and> ucast (ts_pid (task_slots s ! i)) = dst_pid \<and> int i \<noteq> current_task_idx s) [0..<MAX_TASKS]"

definition sys_kill :: "'r sched_ops \<Rightarrow> u64 \<Rightarrow> u8 \<Rightarrow> ('c, 'd, 'r) kernel \<Rightarrow> int \<times> ('c, 'd, 'r) kernel" where
  "sys_kill ops dst_pid sig s =
     (case k_sched s of
        None \<Rightarrow> (-1, s)
      | Some sch \<Rightarrow>
          (case si_signal_send ops dst_pid sig sch of (r, sch1) \<Rightarrow>
             let s1 = s\<lparr>k_sched := Some sch1\<rparr> in
             (sint r,
              if sig = 9 \<or> sig = 15 then
                (case kill_victim dst_pid s1 of
                   None \<Rightarrow> s1
                 | Some i \<Rightarrow> free_user_tables (ts_pml4 (task_slots s1 ! i))
                     ((upd_task i (\<lambda>t. t\<lparr>ts_pml4 := 0, ts_active := False\<rparr>) s1)\<lparr>k_sched := Some (si_kill ops (ucast dst_pid) sch1)\<rparr>))
              else s1)))"

text \<open>\<open>evs\<close> is what the other tasks do between two looks at the process, one timer interrupt each; \<open>None\<close> if the list is too short.\<close>

fun waitpid_wait :: "'r sched_ops \<Rightarrow> u64 \<Rightarrow> u64 \<Rightarrow> (('c, 'd, 'r) kernel \<Rightarrow> ('c, 'd, 'r) kernel) list \<Rightarrow> ('c, 'd, 'r) kernel
    \<Rightarrow> (int \<times> ('c, 'd, 'r) kernel) option" where
  "waitpid_wait ops pid start evs s =
     (if \<not> kernel_tick s - start < TIMER_HZ * 30 then Some (-1, s)
      else case k_sched s of
        None \<Rightarrow> Some (-1, s)
      | Some sch \<Rightarrow>
          (case si_info ops pid sch of
             None \<Rightarrow> Some (-1, s)
           | Some st \<Rightarrow>
               if st = 5 \<or> st = 6 then Some (sint (si_exit_code ops pid sch), s)
               else (case evs of [] \<Rightarrow> None
                     | ev # evs' \<Rightarrow> waitpid_wait ops pid start evs' ((ev s)\<lparr>kernel_tick := kernel_tick s + 1\<rparr>))))"

declare waitpid_wait.simps [simp del]

definition sys_setuid :: "u16 \<Rightarrow> ('c, 'd, 'r) kernel \<Rightarrow> int \<times> ('c, 'd, 'r) kernel" where
  "sys_setuid v s =
     (if current_task_idx s < 0 then (-1, s)
      else if ts_uid (cur_task s) = 0 \<or> v = ts_uid (cur_task s) then (0, upd_cur (\<lambda>t. t\<lparr>ts_uid := v\<rparr>) s) else (-1, s))"

definition sys_setgid :: "u16 \<Rightarrow> ('c, 'd, 'r) kernel \<Rightarrow> int \<times> ('c, 'd, 'r) kernel" where
  "sys_setgid v s =
     (if current_task_idx s < 0 then (-1, s)
      else if ts_uid (cur_task s) = 0 \<or> v = ts_gid (cur_task s) then (0, upd_cur (\<lambda>t. t\<lparr>ts_gid := v\<rparr>) s) else (-1, s))"

definition sys_chdir :: "'d disk_ops \<Rightarrow> u64 \<Rightarrow> ('c, 'd, 'r) kernel \<Rightarrow> ('c, 'd, 'r) kernel call" where
  "sys_chdir ops path_ptr s =
     (if current_task_idx s < 0 then Returns (-1) s
      else case user_path_64 path_ptr s of
        PathFault a \<Rightarrow> Faults a 0 s
      | PathBad \<Rightarrow> Returns (-1) s
      | PathOk path \<Rightarrow>
          let enter = (\<lambda>s. Returns 0 (upd_cur (\<lambda>t. t\<lparr>ts_cwd := path\<rparr>) s)) in
          if take 1 path \<noteq> ''/'' then Returns (-1) s
          else if length path = 1 then enter s
          else (case kfs_find_file ops path (fs_kfs (k_io s)) of
                  None \<Rightarrow> Stuck
                | Some (found, k) \<Rightarrow>
                    let s1 = s\<lparr>k_io := (k_io s)\<lparr>fs_kfs := k\<rparr>\<rparr> in if found \<noteq> None then enter s1 else Returns (-1) s1))"

definition sys_getcwd :: "u64 \<Rightarrow> u64 \<Rightarrow> ('c, 'd, 'r) kernel \<Rightarrow> ('c, 'd, 'r) kernel call" where
  "sys_getcwd buf room s =
     (if current_task_idx s < 0 then Returns (-1) s
      else let len = length (ts_cwd (cur_task s)) in
        if room > of_nat len \<and> user_ptr_range_valid_64 buf (of_nat len + 1) then
          (case user_store_bytes (active_cr3 s) buf (map byte_of (ts_cwd (cur_task s)) @ [0]) (k_pages s) of
             Inl (a, p) \<Rightarrow> Faults a (if user_byte (active_cr3 s) p a = None then 2 else 3) (s\<lparr>k_pages := p\<rparr>)
           | Inr p \<Rightarrow> Returns (int len) (s\<lparr>k_pages := p\<rparr>))
        else Returns (-1) s)"

definition sys_umask :: "u64 \<Rightarrow> ('c, 'd, 'r) kernel \<Rightarrow> int \<times> ('c, 'd, 'r) kernel" where
  "sys_umask m s =
     (if current_task_idx s < 0 then (-1, s)
      else (uint (file_umask (cur_task s)), upd_cur (\<lambda>t. t\<lparr>file_umask := ucast (m AND 0x1FF)\<rparr>) s))"

section \<open>Exceptions\<close>

text \<open>The bytes of a mapped file that a fault brings in: at most a page, none behind the first 64 kB of the file.\<close>

definition vma_page_bytes :: "'d disk_ops \<Rightarrow> kenv \<Rightarrow> VmaEntry \<Rightarrow> u64 \<Rightarrow> bytes \<Rightarrow> 'd kfs \<Rightarrow> ((nat \<Rightarrow> u8) \<times> bytes \<times> 'd kfs) option" where
  "vma_page_bytes ops env v pva tmp k =
     (if vm_type v = VMA_TYPE_FILE \<and> vm_path v \<noteq> [] then
        let page_off = ucast (pva - vm_start v) + vm_file_offset v; need = page_off + 4096;
            need1 = (if need > MMAP_TMP_SIZE then MMAP_TMP_SIZE else need)
        in case kfs_read_file ops env (Some (vm_path v)) tmp (unat need1) k of
          None \<Rightarrow> None
        | Some ((tot, buf), k1) \<Rightarrow>
            let ncp = (if tot > sint page_off then min (tot - sint page_off) 4096 else 0)
            in Some (\<lambda>b. if int b < ncp then buf ! (unat page_off + b) else 0, buf, k1)
      else Some (\<lambda>_. 0, tmp, k))"

definition demand_page :: "'d disk_ops \<Rightarrow> kenv \<Rightarrow> u64 \<Rightarrow> ('c, 'd, 'r) kernel \<Rightarrow> (bool \<times> ('c, 'd, 'r) kernel) option" where
  "demand_page ops env fault_addr s =
     (case vma_find (vma_list (cur_task s)) fault_addr of
        None \<Rightarrow> Some (False, s)
      | Some v \<Rightarrow>
          let pva = page_down fault_addr in
          (case frame_alloc (k_pages s) of (f, p1) \<Rightarrow>
             let s1 = s\<lparr>k_pages := p1\<rparr> in
             if f = 0 then Some (False, s1)
             else case vma_page_bytes ops env v pva (mmap_file_tmp s1) (fs_kfs (k_io s1)) of
               None \<Rightarrow> None
             | Some (g, tmp, k) \<Rightarrow>
                 let flags = PAGE_PRESENT OR PAGE_USER OR (if vm_prot v AND PROT_WRITE \<noteq> 0 then PAGE_WRITABLE else 0);
                     p2 = paging_map_4k (task_tables s1) pva f flags (p1\<lparr>pg_mem := fill_frame f g (pg_mem p1)\<rparr>)
                 in Some (True, s1\<lparr>k_pages := p2, mmap_file_tmp := tmp, k_io := (k_io s1)\<lparr>fs_kfs := k\<rparr>\<rparr>)))"

text \<open>The end of a process that faults: note that the active tables and the stack of the processor are not switched.\<close>

definition kill_faulting :: "'r sched_ops \<Rightarrow> ('c, 'd, 'r) kernel \<Rightarrow> ('c, 'd, 'r) kernel outcome" where
  "kill_faulting sops s =
     (let s1 = s\<lparr>k_sched := map_option (\<lambda>sch. if si_current_pid sops sch \<noteq> 0 then si_schedule sops (si_kill sops (si_current_pid sops sch) sch) else sch) (k_sched s)\<rparr>
      in if context_switch_enabled s1 \<and> current_task_idx s1 \<ge> 0 then
           let s2 = upd_cur (\<lambda>t. t\<lparr>ts_active := False\<rparr>) s1 in
           case next_active (cur_idx s2) (task_slots s2) of
             Some n \<Rightarrow> Resume (ts_rsp (task_slots s2 ! n)) (s2\<lparr>current_task_idx := int n\<rparr>)
           | None \<Rightarrow> Halt
         else Halt)"

text \<open>
  The handler of exceptions, by vector, error code and code segment of the interrupted code. An exception in user mode comes with the frame
  that the stub has pushed; a fault of the kernel itself has the vector 14 and the segment \<open>0x08\<close>.
\<close>

definition exception_handler :: "'r sched_ops \<Rightarrow> 'd disk_ops \<Rightarrow> kenv \<Rightarrow> u64 \<Rightarrow> u64 \<Rightarrow> (('c, 'd, 'r) kernel \<Rightarrow> u64) \<Rightarrow> u64 \<Rightarrow> ('c, 'd, 'r) kernel
    \<Rightarrow> ('c, 'd, 'r) kernel outcome option" where
  "exception_handler sops ops env vec err cs cr2 s =
     (let (cow, s1) = (if vec = 14 \<and> err AND 2 \<noteq> 0 \<and> current_task_idx s \<ge> 0
                       then case paging_handle_cow_fault (ts_pml4 (cur_task s)) cr2 (k_pages s) of (r, p) \<Rightarrow> (r = 0, s\<lparr>k_pages := p\<rparr>)
                       else (False, s))
      in if cow then Some (Resume 0 s1)
         else if cs s1 AND 3 = 3 then
           (case (if vec = 14 \<and> current_task_idx s1 \<ge> 0 then demand_page ops env cr2 s1 else Some (False, s1)) of
              None \<Rightarrow> None
            | Some (True, s2) \<Rightarrow> Some (Resume 0 s2)
            | Some (False, s2) \<Rightarrow> Some (kill_faulting sops s2))
         else Some Halt)"

definition cpu_exception :: "'r sched_ops \<Rightarrow> 'd disk_ops \<Rightarrow> kenv \<Rightarrow> u64 \<Rightarrow> u64 \<Rightarrow> ('c, 'd, 'r) kernel \<Rightarrow> ('c, 'd, 'r) kernel outcome option" where
  "cpu_exception sops ops env cr2 frame s = exception_handler sops ops env (reg FR_INT_NO frame s) (reg FR_ERROR frame s) (reg FR_CS frame) cr2 s"

text \<open>
  A fault of the kernel in a call: the handler may stop the machine or leave the call for another task. If it resolves the fault, the
  instruction is repeated, which is not followed here (\<open>None\<close>): the reads and stores above have made their faults before.
\<close>

definition kernel_fault :: "'r sched_ops \<Rightarrow> 'd disk_ops \<Rightarrow> kenv \<Rightarrow> u64 \<Rightarrow> u64 \<Rightarrow> ('c, 'd, 'r) kernel \<Rightarrow> ('c, 'd, 'r) kernel outcome option" where
  "kernel_fault sops ops env addr err s =
     (case exception_handler sops ops env 14 err (\<lambda>_. 0x08) addr s of
        Some (Resume sp s1) \<Rightarrow> if sp = 0 then None else Some (Resume sp s1)
      | r \<Rightarrow> r)"

section \<open>Interrupts\<close>

definition ret :: "u64 \<Rightarrow> int \<times> ('c, 'd, 'r) kernel \<Rightarrow> ('c, 'd, 'r) kernel outcome option" where
  "ret frame r = Some (Resume 0 (set_rax (fst r) frame (snd r)))"

definition ret_call :: "'r sched_ops \<Rightarrow> 'd disk_ops \<Rightarrow> kenv \<Rightarrow> u64 \<Rightarrow> ('c, 'd, 'r) kernel call \<Rightarrow> ('c, 'd, 'r) kernel outcome option" where
  "ret_call sops ops env frame c =
     (case c of Returns r s \<Rightarrow> ret frame (r, s) | Faults a e s \<Rightarrow> kernel_fault sops ops env a e s | Stuck \<Rightarrow> None)"

text \<open>
  The process calls of \<open>int 0x80\<close>; the calls on descriptors are those of \<open>Descriptors\<close>. The result is \<open>None\<close> for
  other numbers, and where a call gives no result.
\<close>

definition task_syscall :: "(nat \<Rightarrow> u64) \<Rightarrow> 'r sched_ops \<Rightarrow> 'c nic \<Rightarrow> 'd disk_ops \<Rightarrow> kenv \<Rightarrow> (('c, 'd, 'r) kernel \<Rightarrow> ('c, 'd, 'r) kernel) list
    \<Rightarrow> u64 \<Rightarrow> ('c, 'd, 'r) kernel \<Rightarrow> ('c, 'd, 'r) kernel outcome option" where
  "task_syscall stk sops nic ops env evs frame s =
     (let num = reg FR_RAX frame s; a1 = reg FR_RBX frame s; a2 = reg FR_RCX frame s; a3 = reg FR_RDX frame s in
      if num = 0xF0 then ret frame (0, s)
      else if num = 60 then Some (sys_exit stk sops frame s)
      else if num = 61 then
        (if k_sched s = None then ret frame (-1, s)
         else case waitpid_wait sops a1 (kernel_tick s) evs s of None \<Rightarrow> None | Some r \<Rightarrow> ret frame r)
      else if num = 62 then ret frame (case k_sched s of None \<Rightarrow> 0 | Some sch \<Rightarrow> uint (si_current_pid sops sch), s)
      else if num = 86 then ret frame (0, if current_task_idx s \<ge> 0 then upd_cur (\<lambda>t. t\<lparr>ticks_remaining := 1\<rparr>) s else s)
      else if num = 63 then ret frame (sys_kill sops a1 (ucast a2) s)
      else if num = 73 then ret frame (sys_fork stk sops frame s)
      else if num = 74 then
        (case sys_execve nic ops env frame a1 s of
           Returns r s1 \<Rightarrow> if r < 0 then ret frame (-1, s1) else Some (Resume 0 s1)
         | Faults a e s1 \<Rightarrow> kernel_fault sops ops env a e s1
         | Stuck \<Rightarrow> None)
      else if num = 75 then ret frame (sys_sbrk a1 s)
      else if num = 76 then ret_call sops ops env frame (sys_mmap a1 a2 a3 s)
      else if num = 77 then ret frame (sys_munmap a1 s)
      else if num = 79 then ret frame (sys_setuid (ucast a1) s)
      else if num = 80 then ret frame (sys_setgid (ucast a1) s)
      else if num = 81 then ret frame (if current_task_idx s \<ge> 0 then uint (ts_uid (cur_task s)) else 0, s)
      else if num = 82 then ret frame (if current_task_idx s \<ge> 0 then uint (ts_gid (cur_task s)) else 0, s)
      else if num = 83 then ret_call sops ops env frame (sys_chdir ops a1 s)
      else if num = 84 then ret_call sops ops env frame (sys_getcwd a1 a2 s)
      else if num = 85 then ret frame (sys_umask a1 s)
      else None)"

text \<open>
  The polls of the timer interrupt: the network card with the timers of TCP, and the block cache below the disk interface. \<open>ev\<close> is
  the change of the card since the last interrupt, \<open>dt\<close> what the tick of the cache does to the disk. The AI bridge and the
  console on the serial line have a state of their own, as have the keyboard and the mouse (interrupts 0x21 and 0x2C).
\<close>

definition timer_devices :: "'c nic \<Rightarrow> ('c \<Rightarrow> 'c) \<Rightarrow> ('d \<Rightarrow> 'd) \<Rightarrow> ('c, 'd) fdsys \<Rightarrow> ('c, 'd) fdsys" where
  "timer_devices nic ev dt io = (let k = fs_kfs io in
     io\<lparr>fs_kfs := k\<lparr>k_vfs := (k_vfs k)\<lparr>vfs_disk := dt (vfs_disk (k_vfs k))\<rparr>\<rparr>, fs_net := net_irq nic ev (fs_net io)\<rparr>)"

definition interrupt_dispatch :: "(nat \<Rightarrow> u64) \<Rightarrow> 'r sched_ops \<Rightarrow> 'c nic \<Rightarrow> 'd disk_ops \<Rightarrow> kenv \<Rightarrow> (('c, 'd, 'r) kernel \<Rightarrow> ('c, 'd, 'r) kernel) list
    \<Rightarrow> ('c \<Rightarrow> 'c) \<Rightarrow> ('d \<Rightarrow> 'd) \<Rightarrow> u64 \<Rightarrow> u64 \<Rightarrow> ('c, 'd, 'r) kernel \<Rightarrow> ('c, 'd, 'r) kernel outcome option" where
  "interrupt_dispatch stk sops nic ops env evs ev dt cr2 frame s =
     (let vec = reg FR_INT_NO frame s in
      if vec = 0x20 then Some (timer_preempt stk frame (s\<lparr>kernel_tick := kernel_tick s + 1, k_io := timer_devices nic ev dt (k_io s)\<rparr>))
      else if vec \<ge> 0x21 \<and> vec \<le> 0x2F then Some (Resume 0 s)
      else if vec = 0x80 then task_syscall stk sops nic ops env evs frame s
      else if vec \<le> 19 then cpu_exception sops ops env cr2 frame s
      else Some Halt)"

end
