(* ===== verification/Processes.thy ===== *)
theory Processes
  imports Tasks
begin

text \<open>
  What the process layer promises: every active task runs within a bounded number of timer interrupts, no interrupt
  of an ordinary user creates a task with the user number of the administrator, the regions that a process maps never overlap, and
  what a process sees when a call fails.
\<close>

section \<open>Round robin\<close>

text \<open>The slots from \<open>c\<close> up to, but without, \<open>j\<close> on the ring of eight.\<close>

definition ahead :: "nat \<Rightarrow> nat \<Rightarrow> nat set" where
  "ahead c j = {i. i < MAX_TASKS \<and> (i + 8 - c) mod 8 < (j + 8 - c) mod 8}"

lemma finite_ahead [simp]: "finite (ahead c j)"
  by (simp add: ahead_def)

lemma rr_scan_active:
  assumes "1 \<le> l" "l \<le> k" "ts_active (ts ! ((n + l) mod 8))"
  shows "\<exists>m. 1 \<le> m \<and> m \<le> l \<and> rr_scan k n ts = (n + m) mod 8 \<and> ts_active (ts ! ((n + m) mod 8))"
  using assms
proof (induction k arbitrary: n l)
  case (Suc k)
  let ?n = "(n + 1) mod 8"
  have shift: "(?n + m) mod 8 = (n + Suc m) mod 8" for m by (simp add: mod_simps)
  show ?case
  proof (cases "ts_active (ts ! ?n)")
    case True
    then show ?thesis using Suc.prems(1) by (intro exI [of _ 1]) (simp add: Let_def)
  next
    case False
    then have l: "2 \<le> l" using Suc.prems(1,3) by (cases "l = 1") auto
    then have at: "(?n + (l - 1)) mod 8 = (n + l) mod 8" unfolding shift by simp
    obtain m where m: "1 \<le> m" "m \<le> l - 1" "rr_scan k ?n ts = (?n + m) mod 8" "ts_active (ts ! ((?n + m) mod 8))"
      using Suc.IH [of "l - 1" ?n] l Suc.prems(2,3) unfolding at by fastforce
    then show ?thesis using False l unfolding shift by (intro exI [of _ "Suc m"]) (simp add: Let_def)
  qed
qed simp

lemma ring_dist: "c < 8 \<Longrightarrow> i < 8 \<Longrightarrow> (i + 8 - c) mod 8 = (if c \<le> i then i - c else i + 8 - c)" for c i :: nat
  by (simp add: mod_if)

lemma ring_plus: "c < 8 \<Longrightarrow> m < 8 \<Longrightarrow> (c + m) mod 8 = (if c + m < 8 then c + m else c + m - 8)" for c m :: nat
  by (simp add: mod_if)

lemma ahead_facts:
  assumes "c < 8" "j < 8" "c \<noteq> j"
  shows "c \<in> ahead c j" "j \<notin> ahead c j"
    "1 \<le> m \<Longrightarrow> m \<le> (j + 8 - c) mod 8 \<Longrightarrow> ahead ((c + m) mod 8) j \<subseteq> ahead c j - {c}"
proof -
  show "c \<in> ahead c j" "j \<notin> ahead c j" using assms by (auto simp: ahead_def ring_dist)
  assume m: "1 \<le> m" "m \<le> (j + 8 - c) mod 8"
  then have m8: "m < 8" by (simp add: order_le_less_trans)
  define n where "n = (c + m) mod 8"
  have n: "n < 8" "n = (if c + m < 8 then c + m else c + m - 8)" using ring_plus [OF assms(1) m8] by (simp_all add: n_def)
  show "ahead n j \<subseteq> ahead c j - {c}"
  proof
    fix i assume "i \<in> ahead n j"
    then have i: "i < 8" "(if n \<le> i then i - n else i + 8 - n) < (if n \<le> j then j - n else j + 8 - n)"
      using n(1) assms(2) ring_dist [of n i] by (auto simp: ahead_def ring_dist)
    have "m \<le> (if c \<le> j then j - c else j + 8 - c)" using m(2) assms by (simp add: ring_dist)
    then have "(if c \<le> i then i - c else i + 8 - c) < (if c \<le> j then j - c else j + 8 - c) \<and> i \<noteq> c"
      using i n m(1) assms by (auto split: if_splits)
    then show "i \<in> ahead c j - {c}" using i(1) assms(1,2) by (simp add: ahead_def ring_dist)
  qed
qed

lemma rr_next:
  assumes "c < 8" "j < 8" "c \<noteq> j" "ts_active (ts ! j)"
  shows "rr_scan MAX_TASKS c ts < 8" "rr_scan MAX_TASKS c ts \<noteq> c" "ts_active (ts ! rr_scan MAX_TASKS c ts)"
    "ahead (rr_scan MAX_TASKS c ts) j \<subseteq> ahead c j - {c}"
proof -
  let ?d = "(j + 8 - c) mod 8"
  have d: "1 \<le> ?d" "?d \<le> 8" "(c + ?d) mod 8 = j" using assms(1-3) by (auto simp: ring_dist ring_plus split: if_splits)
  obtain m where m: "1 \<le> m" "m \<le> ?d" "rr_scan MAX_TASKS c ts = (c + m) mod 8" "ts_active (ts ! ((c + m) mod 8))"
    using rr_scan_active [of ?d 8 ts c] d assms(4) by auto
  then show "rr_scan MAX_TASKS c ts < 8" "ts_active (ts ! rr_scan MAX_TASKS c ts)" by simp_all
  show "rr_scan MAX_TASKS c ts \<noteq> c" using m(1-3) assms(1) mod_less_divisor [of 8 "j + 8 - c"] by (auto simp: ring_plus split: if_splits)
  show "ahead (rr_scan MAX_TASKS c ts) j \<subseteq> ahead c j - {c}" using ahead_facts(3) [OF assms(1-3) m(1,2)] m(3) by simp
qed

section \<open>The timer\<close>

lemma upd_task_simps [simp]:
  "task_slots (upd_task i f s) = (task_slots s)[i := f (task_slots s ! i)]" "current_task_idx (upd_task i f s) = current_task_idx s"
  "context_switch_enabled (upd_task i f s) = context_switch_enabled s" "k_pages (upd_task i f s) = k_pages s" "k_io (upd_task i f s) = k_io s"
  "active_cr3 (upd_task i f s) = active_cr3 s" "k_sched (upd_task i f s) = k_sched s" "tss_rsp0 (upd_task i f s) = tss_rsp0 s"
  by (simp_all add: upd_task_def)

lemma on_pages_simps [simp]:
  "task_slots (on_pages f s) = task_slots s" "current_task_idx (on_pages f s) = current_task_idx s" "k_pages (on_pages f s) = f (k_pages s)" "k_io (on_pages f s) = k_io s"
  "active_cr3 (on_pages f s) = active_cr3 s" "k_sched (on_pages f s) = k_sched s"
  by (simp_all add: on_pages_def)

lemma switch_to_simps [simp]:
  "task_slots (switch_to stk n s) = task_slots s" "current_task_idx (switch_to stk n s) = int n" "context_switch_enabled (switch_to stk n s) = context_switch_enabled s"
  "tss_rsp0 (switch_to stk n s) = stk n + TASK_STACK_SIZE" "k_pages (switch_to stk n s) = k_pages s"
  by (simp_all add: switch_to_def task_switch_cr3_def)

text \<open>The table has its eight slots, one of them is current, and preemption is on.\<close>

definition running :: "('c, 'd, 'r) kernel \<Rightarrow> bool" where
  "running s \<longleftrightarrow> length (task_slots s) = MAX_TASKS \<and> 0 \<le> current_task_idx s \<and> cur_idx s < MAX_TASKS \<and> context_switch_enabled s"

text \<open>The processor is on the memory and the kernel stack of slot \<open>j\<close>.\<close>

definition on_task :: "(nat \<Rightarrow> u64) \<Rightarrow> nat \<Rightarrow> ('c, 'd, 'r) kernel \<Rightarrow> bool" where
  "on_task stk j s \<longleftrightarrow> current_task_idx s = int j \<and> tss_rsp0 s = stk j + TASK_STACK_SIZE
     \<and> active_cr3 s = (if ts_pml4 (task_slots s ! j) \<noteq> 0 then ts_pml4 (task_slots s ! j) else kernel_tables s)"

lemma on_task_switch: "on_task stk n (switch_to stk n s)"
  by (simp add: on_task_def switch_to_def task_switch_cr3_def kernel_tables_def)

text \<open>How long a slot keeps the processor, the tasks that come before \<open>j\<close>, and how long they keep it.\<close>

definition slice :: "TaskSlot \<Rightarrow> nat" where
  "slice t = max 1 (unat (ticks_remaining t))"

definition waits_for :: "nat \<Rightarrow> ('c, 'd, 'r) kernel \<Rightarrow> nat set" where
  "waits_for j s = {i \<in> ahead (cur_idx s) j. i = cur_idx s \<or> ts_active (task_slots s ! i)}"

definition delay :: "nat \<Rightarrow> ('c, 'd, 'r) kernel \<Rightarrow> nat" where
  "delay j s = (\<Sum>i \<in> waits_for j s. slice (task_slots s ! i))"

lemma finite_waits_for [simp]: "finite (waits_for j s)"
  by (simp add: waits_for_def)

lemma cur_upd [simp]: "cur_idx (upd_task i f s) = cur_idx s" "cur_task s = task_slots s ! cur_idx s" "upd_cur f s = upd_task (cur_idx s) f s"
  by (simp_all add: cur_idx_def cur_task_def upd_cur_def)

lemma timer_expired:
  assumes "running s" "unat (ticks_remaining (task_slots s ! cur_idx s)) \<le> 1"
  shows "timer_preempt stk frame s =
    (let s2 = upd_task (cur_idx s) (\<lambda>t. t\<lparr>ticks_remaining := ticks_total t, ts_rsp := frame\<rparr>) s; n = rr_scan MAX_TASKS (cur_idx s) (task_slots s2)
     in if n \<noteq> cur_idx s \<and> ts_active (task_slots s2 ! n)
        then Resume (ts_rsp (task_slots s2 ! n)) (switch_to stk n (s2\<lparr>context_switch_count := context_switch_count s2 + 1\<rparr>)) else Resume 0 s2)"
proof -
  let ?r = "ticks_remaining (task_slots s ! cur_idx s)"
  have "?r = 0 \<or> ?r = 1" using assms(2) by unat_arith
  then have r: "(if ?r > 0 then ?r - 1 else ?r) = 0" by auto
  have twice: "upd_task (cur_idx s) g (upd_task (cur_idx s) f s) = upd_task (cur_idx s) (g \<circ> f) s" for f g
    using assms(1) by (simp add: upd_task_def running_def)
  have comp: "(\<lambda>t. t\<lparr>ts_rsp := frame, ticks_remaining := ticks_total t\<rparr>) \<circ> (\<lambda>t. t\<lparr>ticks_remaining := 0\<rparr>) = (\<lambda>t. t\<lparr>ticks_remaining := ticks_total t, ts_rsp := frame\<rparr>)"
    by (rule ext) simp
  show ?thesis using assms(1) unfolding running_def timer_preempt_def cur_upd Let_def r twice comp by simp
qed

lemma active_upd: "ts_active t = ts_active (ts ! c) \<Longrightarrow> ts_active (ts[c := t] ! i) = ts_active (ts ! i)"
  by (cases "c < length ts"; cases "i = c") (simp_all add: list_update_beyond)

lemma timer_step:
  assumes run: "running s" and j: "j < 8" "cur_idx s \<noteq> j" "ts_active (task_slots s ! j)" and t: "timer_preempt stk frame s = Resume r s'"
  shows "r = ts_rsp (task_slots s ! j) \<and> on_task stk j s'
    \<or> running s' \<and> cur_idx s' \<noteq> j \<and> task_slots s' ! j = task_slots s ! j \<and> delay j s' < delay j s"
proof -
  let ?c = "cur_idx s" and ?ts = "task_slots s"
  have c: "?c < 8" "length ?ts = 8" "0 \<le> current_task_idx s" "context_switch_enabled s" using run by (simp_all add: running_def)
  have ac: "?c \<in> waits_for j s" using ahead_facts(1) [OF c(1) j(1,2)] by (simp add: waits_for_def)
  have drop: "(\<Sum>i \<in> A. slice (?ts[?c := t] ! i)) < delay j s" if "A \<subseteq> waits_for j s" "?c \<in> A \<Longrightarrow> slice t < slice (?ts ! ?c)" for A t
  proof -
    have fin: "finite A" using that(1) finite_subset finite_waits_for by blast
    have pos: "0 < slice (?ts ! ?c)" by (simp add: slice_def)
    have rest: "(\<Sum>i \<in> A - {?c}. slice (?ts[?c := t] ! i)) \<le> (\<Sum>i \<in> waits_for j s - {?c}. slice (?ts ! i))"
      by (rule order_trans [OF _ sum_mono2 [of _ "A - {?c}"]]) (use that(1) in \<open>auto simp: nth_list_update intro!: sum_mono\<close>)
    have "(\<Sum>i \<in> A. slice (?ts[?c := t] ! i)) < slice (?ts ! ?c) + (\<Sum>i \<in> A - {?c}. slice (?ts[?c := t] ! i))"
      using that(2) fin pos c(1,2) sum.remove [OF fin, of ?c "\<lambda>i. slice (?ts[?c := t] ! i)"] by (cases "?c \<in> A") auto
    also have "\<dots> \<le> delay j s" using rest sum.remove [OF finite_waits_for ac, of "\<lambda>i. slice (?ts ! i)"] by (simp add: delay_def)
    finally show ?thesis .
  qed
  let ?r = "ticks_remaining (?ts ! ?c)"
  let ?r1 = "if ?r > 0 then ?r - 1 else ?r"
  show ?thesis
  proof (cases "?r1 = 0")
    case False
    let ?t = "(?ts ! ?c)\<lparr>ticks_remaining := ?r1\<rparr>"
    have s': "s' = upd_task ?c (\<lambda>t. t\<lparr>ticks_remaining := ?r1\<rparr>) s" using t False c(3,4) by (simp add: timer_preempt_def Let_def split: if_splits)
    have "1 < ?r" using False by (auto simp: word_gt_0 split: if_splits) unat_arith
    then have "slice ?t < slice (?ts ! ?c)" by (simp add: slice_def) unat_arith
    moreover have "waits_for j s' = waits_for j s" using s' by (simp add: waits_for_def active_upd)
    ultimately have "delay j s' < delay j s" using drop [of "waits_for j s" ?t] s' c(2) by (simp add: delay_def)
    then show ?thesis using s' run j(2) by (simp add: running_def)
  next
    case True
    let ?t = "(?ts ! ?c)\<lparr>ticks_remaining := ticks_total (?ts ! ?c), ts_rsp := frame\<rparr>"
    let ?n = "rr_scan MAX_TASKS ?c (?ts[?c := ?t])"
    have "?r = 0 \<or> ?r = 1" using True by (auto split: if_splits)
    then have r1: "unat ?r \<le> 1" by auto
    have aj: "ts_active (?ts[?c := ?t] ! j)" using j(2,3) by simp
    note n = rr_next [OF c(1) j(1,2) aj]
    have s': "r = ts_rsp (?ts[?c := ?t] ! ?n)" "task_slots s' = ?ts[?c := ?t]" "on_task stk ?n s'" "running s'" 
      using t timer_expired [OF run r1, of stk frame] n(1-3) run on_task_switch by (auto simp: Let_def running_def cur_idx_def [of "switch_to _ _ _"])
    then have cn: "cur_idx s' = ?n" by (simp add: on_task_def cur_idx_def)
    show ?thesis
    proof (cases "?n = j")
      case True
      then show ?thesis using s' j(2) by auto
    next
      case False
      have "waits_for j s' \<subseteq> waits_for j s - {?c}" using n(3,4) s'(2) cn by (auto simp: waits_for_def nth_list_update split: if_splits)
      then have "delay j s' < delay j s" using drop [of "waits_for j s'" ?t] s'(2) by (auto simp: delay_def)
      then show ?thesis using s' cn False j(2) by auto
    qed
  qed
qed

text \<open>Between two interrupts the tasks compute: they change neither the table nor the choice of the current task.\<close>

definition user_work :: "('c, 'd, 'r) kernel \<Rightarrow> ('c, 'd, 'r) kernel \<Rightarrow> bool" where
  "user_work s t \<longleftrightarrow> task_slots t = task_slots s \<and> current_task_idx t = current_task_idx s \<and> context_switch_enabled t = context_switch_enabled s"

lemma user_work_same:
  assumes "user_work s t"
  shows "running t = running s" "cur_idx t = cur_idx s" "delay j t = delay j s" "task_slots t = task_slots s"
  using assms by (simp_all add: user_work_def running_def cur_idx_def delay_def waits_for_def)

lemma timer_interrupt:
  assumes "reg FR_INT_NO frame s = 0x20"
  shows "interrupt_dispatch stk sops nic ops env evs ev dt cr2 frame s = Some (timer_preempt stk frame (s\<lparr>kernel_tick := kernel_tick s + 1, k_io := timer_devices nic ev dt (k_io s)\<rparr>))"
  by (simp add: interrupt_dispatch_def assms)

lemma user_work_tick: "user_work s (t\<lparr>kernel_tick := k, k_io := io\<rparr>) = user_work s t"
  by (simp add: user_work_def)

lemma timer_reaches:
  assumes "running (S n)" "j < 8" "cur_idx (S n) \<noteq> j" "ts_active (task_slots (S n) ! j)"
    and "\<And>n. user_work (S n) (T n)" "\<And>n. timer_preempt stk (f n) (T n) = Resume (r n) (S (Suc n))"
  shows "\<exists>m < delay j (S n). r (n + m) = ts_rsp (task_slots (S n) ! j) \<and> on_task stk j (S (Suc (n + m)))"
  using assms(1,3,4)
proof (induction "delay j (S n)" arbitrary: n rule: less_induct)
  case less
  note u = user_work_same [OF assms(5) [of n]]
  have pos: "0 < delay j (S n)" using ahead_facts(1) [OF _ assms(2) less.prems(2)] less.prems(1)
    by (force simp: delay_def waits_for_def running_def slice_def sum_eq_0_iff intro!: gr0I)
  from timer_step [of "T n" j, OF _ assms(2) _ _ assms(6) [of n]] less.prems
  consider "r n = ts_rsp (task_slots (S n) ! j)" "on_task stk j (S (Suc n))"
    | "running (S (Suc n))" "cur_idx (S (Suc n)) \<noteq> j" "task_slots (S (Suc n)) ! j = task_slots (S n) ! j" "delay j (S (Suc n)) < delay j (S n)"
    unfolding u by blast
  then show ?case
  proof cases
    case 2
    obtain m where "m < delay j (S (Suc n))" "r (Suc n + m) = ts_rsp (task_slots (S (Suc n)) ! j)" "on_task stk j (S (Suc (Suc n + m)))"
      using less.hyps [OF 2(4,1,2)] 2(3) less.prems(3) by auto
    then show ?thesis using 2(3,4) by (intro exI [of _ "Suc m"]) simp
  qed (use pos in auto)
qed

text \<open>
  Property C7: the round robin starves nobody. While the tasks compute and only the timer interrupts them, an active
  task that waits is resumed on its own stack, memory and kernel stack, at the latest when the slices of the current task and of the
  active tasks before it in the ring are over.
\<close>

theorem timer_fair:
  assumes "running (S 0)" "j < 8" "cur_idx (S 0) \<noteq> j" "ts_active (task_slots (S 0) ! j)"
    and "\<And>n. user_work (S n) (T n)" "\<And>n. reg FR_INT_NO (f n) (T n) = 0x20"
    and "\<And>n. interrupt_dispatch stk sops nic ops env evs ev dt cr2 (f n) (T n) = Some (Resume (r n) (S (Suc n)))"
  shows "\<exists>n < delay j (S 0). r n = ts_rsp (task_slots (S 0) ! j) \<and> on_task stk j (S (Suc n))"
proof -
  let ?T = "\<lambda>n. (T n)\<lparr>kernel_tick := kernel_tick (T n) + 1, k_io := timer_devices nic ev dt (k_io (T n))\<rparr>"
  have "timer_preempt stk (f n) (?T n) = Resume (r n) (S (Suc n))" for n
    using assms(7) [of n] timer_interrupt [OF assms(6) [of n]] by simp
  from timer_reaches [OF assms(1-4) _ this] show ?thesis using assms(5) by (simp add: user_work_tick)
qed

subsection \<open>An example\<close>

definition demo_slot :: "bool \<Rightarrow> u16 \<Rightarrow> TaskSlot" where
  "demo_slot b u = \<lparr>ts_rsp = 0x7000, ts_pid = 1, ts_active = b, ticks_remaining = 2, ticks_total = 2, ts_fds = fd_table_init, ppid_slot = 0, ts_brk = 0,
     vma_list = replicate VMA_MAX_PER_TASK \<lparr>vm_start = 0, vm_length = 0, vm_type = VMA_TYPE_NONE, vm_prot = 0, vm_flags = 0, vm_path = [], vm_file_offset = 0\<rparr>,
     mmap_next = 0, ts_pml4 = 0, ts_uid = u, ts_gid = u, file_umask = 0x12, ts_cwd = ''/''\<rparr>"

text \<open>Two tasks of user 7, the first of them current; the frame at address 0 holds the given interrupt and call.\<close>

definition demo_kernel :: "u64 \<Rightarrow> u64 \<Rightarrow> u64 \<Rightarrow> ('c, 'd) fdsys \<Rightarrow> 'r option \<Rightarrow> ('c, 'd, 'r) kernel" where
  "demo_kernel vec num arg io sch =
     \<lparr>task_slots = demo_slot True 7 # demo_slot True 7 # replicate 6 (demo_slot False 0), current_task_idx = 0, context_switch_enabled = True,
      context_switch_count = 0, tss_rsp0 = 0, active_cr3 = 0x1000, kernel_tick = 0,
      k_pages = demo_paging\<lparr>pg_mem := (\<lambda>_. 0)(ent 0 FR_INT_NO := vec, ent 0 FR_RAX := num, ent 0 FR_RBX := arg)\<rparr>, k_io = io, k_sched = sch,
      elf_load_buf = replicate ELF_BUF_SIZE 0, mmap_file_tmp = []\<rparr>"

fun next_state :: "'k outcome option \<Rightarrow> 'k \<Rightarrow> 'k" where
  "next_state (Some (Resume r s)) _ = s"
| "next_state _ s = s"

fun resumed_at :: "'k outcome option \<Rightarrow> u64" where
  "resumed_at (Some (Resume r s)) = r"
| "resumed_at _ = 0"

lemma timer_resumes:
  assumes "reg FR_INT_NO frame s = 0x20"
  obtains r and s' :: "('a, 'b, 'c) kernel" where "interrupt_dispatch stk sops nic ops env evs ev dt cr2 frame s = Some (Resume r s')" "k_pages s' = k_pages s"
proof -
  have "\<exists>r s'. timer_preempt stk frame u = Resume r s' \<and> k_pages s' = k_pages u" for u :: "('a, 'b, 'c) kernel"
    by (simp add: timer_preempt_def Let_def)
  from this [of "s\<lparr>kernel_tick := kernel_tick s + 1, k_io := timer_devices nic ev dt (k_io s)\<rparr>"] show thesis
    using that unfolding timer_interrupt [OF assms] by auto
qed

primrec demo_run :: "(('c, 'd, 'r) kernel \<Rightarrow> ('c, 'd, 'r) kernel outcome option) \<Rightarrow> ('c, 'd) fdsys \<Rightarrow> 'r option \<Rightarrow> nat \<Rightarrow> ('c, 'd, 'r) kernel" where
  "demo_run irq io sch 0 = demo_kernel 0x20 0 0 io sch"
| "demo_run irq io sch (Suc n) = next_state (irq (demo_run irq io sch n)) (demo_run irq io sch n)"

theorem timer_fair_witness:
  "\<forall>io sch sops nic ops env ev dt. let irq = interrupt_dispatch (\<lambda>i. 0x8000) sops nic ops env [] ev dt 0 0 in
     \<exists>n < 2. irq (demo_run irq io sch n) = Some (Resume 0x7000 (demo_run irq io sch (Suc n))) \<and> on_task (\<lambda>i. 0x8000) 1 (demo_run irq io sch (Suc n))"
proof (intro allI)
  fix io :: "('a, 'b) fdsys" and sch :: "'c option" and sops :: "'c sched_ops" and nic :: "'a nic" and ops :: "'b disk_ops" and env ev dt
  let ?irq = "interrupt_dispatch (\<lambda>i. 0x8000) sops nic ops env [] ev dt 0 0"
  let ?S = "demo_run ?irq io sch"
  let ?r = "\<lambda>n. resumed_at (?irq (?S n))"
  have vec: "reg FR_INT_NO 0 (?S n) = 0x20" for n
  proof (induction n)
    case (Suc n)
    obtain r s' where "?irq (?S n) = Some (Resume r s')" "k_pages s' = k_pages (?S n)" by (rule timer_resumes [OF Suc])
    then show ?case using Suc by (simp add: reg_def)
  qed (simp add: reg_def demo_kernel_def ent_def)
  have step: "?irq (?S n) = Some (Resume (?r n) (?S (Suc n)))" for n
  proof -
    obtain r s' where "?irq (?S n) = Some (Resume r s')" "k_pages s' = k_pages (?S n)" by (rule timer_resumes [OF vec])
    then show ?thesis by simp
  qed
  have d: "delay 1 (?S 0) = 2"
  proof -
    have "ahead 0 1 = {0}" by (auto simp: ahead_def)
    then have "waits_for 1 (?S 0) = {0}" by (auto simp: waits_for_def demo_kernel_def cur_idx_def)
    then show ?thesis by (simp add: delay_def demo_kernel_def slice_def demo_slot_def)
  qed
  have r: "running (?S 0)" "cur_idx (?S 0) \<noteq> 1" "ts_active (task_slots (?S 0) ! 1)"
    by (simp_all add: running_def cur_idx_def demo_kernel_def demo_slot_def)
  obtain n where n: "n < delay 1 (?S 0)" "?r n = ts_rsp (task_slots (?S 0) ! 1)" "on_task (\<lambda>i. 0x8000) 1 (?S (Suc n))"
    using timer_fair [where S = ?S and T = ?S and f = "\<lambda>_. 0" and r = ?r and j = 1, OF r(1) _ r(2,3) _ vec step] by (auto simp: user_work_def)
  have "?r n = 0x7000" using n(2) by (simp add: demo_kernel_def demo_slot_def)
  then show "let irq = ?irq in \<exists>n < 2. irq (demo_run irq io sch n) = Some (Resume 0x7000 (demo_run irq io sch (Suc n))) \<and> on_task (\<lambda>i. 0x8000) 1 (demo_run irq io sch (Suc n))"
    using n(1,3) d step [of n] unfolding Let_def by metis
qed

section \<open>Users\<close>

text \<open>The tasks with the rights of the administrator.\<close>

definition root_slots :: "('c, 'd, 'r) kernel \<Rightarrow> nat set" where
  "root_slots s = {i. i < length (task_slots s) \<and> ts_active (task_slots s ! i) \<and> ts_uid (task_slots s ! i) = 0}"

lemma root_slots_cong: "task_slots t = task_slots s \<Longrightarrow> root_slots t = root_slots s"
  by (simp add: root_slots_def)

lemma root_slots_record [simp]:
  "root_slots (s\<lparr>k_pages := p\<rparr>) = root_slots s" "root_slots (s\<lparr>k_io := io\<rparr>) = root_slots s" "root_slots (s\<lparr>k_sched := r\<rparr>) = root_slots s"
  "root_slots (s\<lparr>kernel_tick := tk\<rparr>) = root_slots s" "root_slots (s\<lparr>elf_load_buf := b\<rparr>) = root_slots s" "root_slots (s\<lparr>mmap_file_tmp := b\<rparr>) = root_slots s"
  "root_slots (s\<lparr>context_switch_count := c\<rparr>) = root_slots s" "root_slots (s\<lparr>current_task_idx := j\<rparr>) = root_slots s" "root_slots (s\<lparr>active_cr3 := x\<rparr>) = root_slots s"
  "root_slots (on_pages f s) = root_slots s" "root_slots (switch_to stk n s) = root_slots s" "root_slots (task_switch_cr3 j s) = root_slots s"
  "root_slots (free_user_tables d s) = root_slots s" "root_slots (set_reg k v frame s) = root_slots s" "root_slots (set_rax y frame s) = root_slots s"
  by (simp_all add: root_slots_def free_user_tables_def set_reg_def set_rax_def task_switch_cr3_def)

lemma root_slots_upd:
  assumes "\<And>t. ts_active (f t) \<Longrightarrow> ts_uid (f t) = 0 \<Longrightarrow> ts_active t \<and> ts_uid t = 0"
  shows "root_slots (upd_task i f s) \<subseteq> root_slots s"
  using assms [of "task_slots s ! i"] by (cases "i < length (task_slots s)") (auto simp: root_slots_def nth_list_update list_update_beyond split: if_splits)

lemma root_slots_same [simp]:
  assumes "\<And>t. ts_active (f t) = ts_active t" "\<And>t. ts_uid (f t) = ts_uid t"
  shows "root_slots (upd_task i f s) = root_slots s"
  using assms by (cases "i < length (task_slots s)") (auto simp: root_slots_def nth_list_update list_update_beyond split: if_splits)

text \<open>What every operation of the process layer keeps.\<close>

definition no_new_root :: "('c, 'd, 'r) kernel \<Rightarrow> ('c, 'd, 'r) kernel outcome \<Rightarrow> bool" where
  "no_new_root s r \<longleftrightarrow> (case r of Resume _ s' \<Rightarrow> root_slots s' \<subseteq> root_slots s | Halt \<Rightarrow> True)"

lemma no_new_root_simps [simp]: "no_new_root s (Resume r s') \<longleftrightarrow> root_slots s' \<subseteq> root_slots s" "no_new_root s Halt"
  by (simp_all add: no_new_root_def)

lemma root_timer: "no_new_root s (timer_preempt stk frame s)"
  by (simp add: timer_preempt_def Let_def)

lemma root_exit: "no_new_root s (sys_exit stk sops frame s)"
proof -
  have "root_slots (upd_task i (\<lambda>t. t\<lparr>ts_pml4 := 0, ts_active := False\<rparr>) (s\<lparr>k_sched := r\<rparr>)) \<subseteq> root_slots s" for i r
    by (rule order_trans [OF root_slots_upd]) simp_all
  then show ?thesis by (simp add: sys_exit_def Let_def split: option.split)
qed

lemma root_fault: "no_new_root s (kill_faulting sops s)"
proof -
  have "root_slots (upd_task i (\<lambda>t. t\<lparr>ts_active := False\<rparr>) (s\<lparr>k_sched := r\<rparr>)) \<subseteq> root_slots s" for i r
    by (rule order_trans [OF root_slots_upd]) simp_all
  then show ?thesis by (simp add: kill_faulting_def Let_def split: option.split)
qed

lemma root_kill: "root_slots (snd (sys_kill sops pid sig s)) \<subseteq> root_slots s"
proof -
  have "root_slots (upd_task i (\<lambda>t. t\<lparr>ts_pml4 := 0, ts_active := False\<rparr>) (s\<lparr>k_sched := r\<rparr>)) \<subseteq> root_slots s" for i r
    by (rule order_trans [OF root_slots_upd]) simp_all
  then show ?thesis by (simp add: sys_kill_def Let_def split: option.split prod.split)
qed

lemma root_waitpid:
  assumes "\<And>e u. e \<in> set evs \<Longrightarrow> root_slots (e u) \<subseteq> root_slots u" "waitpid_wait sops pid start evs s = Some (r, s')"
  shows "root_slots s' \<subseteq> root_slots s"
  using assms
proof (induction sops pid start evs s rule: waitpid_wait.induct)
  case (1 sops pid start evs s)
  from "1.prems"(2) consider "s' = s" | sch st e es where "k_sched s = Some sch" "si_info sops pid sch = Some st" "\<not> (st = 5 \<or> st = 6)" "kernel_tick s - start < TIMER_HZ * 30"
      "evs = e # es" "waitpid_wait sops pid start es ((e s)\<lparr>kernel_tick := kernel_tick s + 1\<rparr>) = Some (r, s')"
    by (subst (asm) waitpid_wait.simps) (auto split: if_splits option.splits list.splits)
  then show ?case
  proof cases
    case 2
    have "root_slots s' \<subseteq> root_slots ((e s)\<lparr>kernel_tick := kernel_tick s + 1\<rparr>)"
      using "1.IH" [OF _ 2(1,2) _ 2(5)] 2 "1.prems"(1) by auto
    also have "\<dots> \<subseteq> root_slots s" using "1.prems"(1) [of e s] 2(5) by simp
    finally show ?thesis .
  qed simp
qed

lemma root_child:
  assumes "\<not> ts_active (f (g (task_slots s ! c))) \<or> ts_uid (f (g (task_slots s ! c))) \<noteq> 0"
  shows "root_slots (upd_task c f ((upd_task c g (s\<lparr>k_sched := r\<rparr>))\<lparr>k_pages := p\<rparr>)) \<subseteq> root_slots s"
  using assms by (cases "c < length (task_slots s)") (auto simp: root_slots_def nth_list_update list_update_beyond split: if_splits)

lemma root_fork:
  assumes "ts_uid (task_slots s ! cur_idx s) \<noteq> 0"
  shows "root_slots (snd (sys_fork stk sops frame s)) \<subseteq> root_slots s"
  using assms by (simp add: sys_fork_def Let_def root_child split: option.split prod.split)

text \<open>The state in which a call ends, returning or by a fault.\<close>

definition call_states :: "('c, 'd, 'r) kernel call \<Rightarrow> ('c, 'd, 'r) kernel set" where
  "call_states c = (case c of Returns _ u \<Rightarrow> {u} | Faults _ _ u \<Rightarrow> {u} | Stuck \<Rightarrow> {})"

lemma root_execve:
  assumes "s' \<in> call_states (sys_execve nic ops env frame a s)"
  shows "root_slots s' \<subseteq> root_slots s"
proof -
  have fold: "root_slots (fold (\<lambda>(k, v). set_reg k v frame) kvs u) = root_slots u" for kvs and u :: "('a, 'b, 'c) kernel"
    by (induction kvs arbitrary: u) auto
  have commit: "root_slots (exec_commit nic frame d e u) \<subseteq> R" if "root_slots u \<subseteq> R" for d e R and u :: "('a, 'b, 'c) kernel"
    unfolding exec_commit_def Let_def case_prod_beta fold cur_upd using that by simp
  show ?thesis using assms
    by (auto simp: sys_execve_def Let_def call_states_def split: if_splits user_path.splits option.splits prod.splits load_result.splits dest!: subsetD [OF commit, rotated])
qed

lemma root_memory:
  "root_slots (snd (sys_sbrk n s)) \<subseteq> root_slots s" "root_slots (snd (sys_munmap a s)) \<subseteq> root_slots s" "root_slots (snd (sys_umask m s)) \<subseteq> root_slots s"
  "root_slots (snd (sys_setgid g s)) \<subseteq> root_slots s" "ts_uid (task_slots s ! cur_idx s) \<noteq> 0 \<Longrightarrow> root_slots (snd (sys_setuid v s)) \<subseteq> root_slots s"
  "s' \<in> call_states (sys_mmap n f q s) \<Longrightarrow> root_slots s' \<subseteq> root_slots s" "s' \<in> call_states (sys_chdir ops a s) \<Longrightarrow> root_slots s' \<subseteq> root_slots s"
  "s' \<in> call_states (sys_getcwd a b s) \<Longrightarrow> root_slots s' \<subseteq> root_slots s"
proof -
  show "root_slots (snd (sys_sbrk n s)) \<subseteq> root_slots s"
  proof -
    have "root_slots (snd (if b then (x, s) else if c then (y, u) else if ok then (z, upd_task i (\<lambda>t. t\<lparr>ts_brk := d\<rparr>) (u\<lparr>k_pages := p\<rparr>)) else (w, u\<lparr>k_pages := p\<rparr>))) \<subseteq> root_slots s"
      if "root_slots u \<subseteq> root_slots s" for b c ok i d p u and x y z w :: int
      using that by simp
    moreover have "root_slots (upd_task (cur_idx s) (\<lambda>t. if ts_brk t = 0 then t\<lparr>ts_brk := 0x10100000\<rparr> else t) s) \<subseteq> root_slots s"
      by simp
    ultimately show ?thesis unfolding sys_sbrk_def Let_def case_prod_beta cur_upd by blast
  qed
  show "root_slots (snd (sys_munmap a s)) \<subseteq> root_slots s" by (simp add: sys_munmap_def split: option.split)
  show "root_slots (snd (sys_umask m s)) \<subseteq> root_slots s" by (simp add: sys_umask_def)
  show "root_slots (snd (sys_setgid g s)) \<subseteq> root_slots s" by (simp add: sys_setgid_def)
  show "root_slots (snd (sys_setuid v s)) \<subseteq> root_slots s" if "ts_uid (task_slots s ! cur_idx s) \<noteq> 0"
    using that by (simp add: sys_setuid_def) (auto simp: root_slots_def upd_task_def nth_list_update split: if_splits)
  show "root_slots s' \<subseteq> root_slots s" if "s' \<in> call_states (sys_mmap n f q s)"
    using that by (auto simp: sys_mmap_def Let_def call_states_def split: if_splits option.splits user_path.splits)
  show "root_slots s' \<subseteq> root_slots s" if "s' \<in> call_states (sys_chdir ops a s)"
    using that by (auto simp: sys_chdir_def Let_def call_states_def split: if_splits option.splits user_path.splits)
  show "root_slots s' \<subseteq> root_slots s" if "s' \<in> call_states (sys_getcwd a b s)"
    using that by (auto simp: sys_getcwd_def Let_def call_states_def split: if_splits sum.splits prod.splits)
qed

lemma root_handler:
  assumes "exception_handler sops ops env vec err cs cr2 s = Some r"
  shows "no_new_root s r"
proof -
  define c where "c = (if vec = 14 \<and> err AND 2 \<noteq> 0 \<and> current_task_idx s \<ge> 0
    then case paging_handle_cow_fault (ts_pml4 (cur_task s)) cr2 (k_pages s) of (r, p) \<Rightarrow> (r = 0, s\<lparr>k_pages := p\<rparr>) else (False, s))"
  have c: "root_slots (snd c) = root_slots s" by (simp add: c_def split: prod.split)
  have demand: "root_slots u' = root_slots u" if "demand_page ops env cr2 u = Some (b, u')" for b and u u' :: "('a, 'b, 'c) kernel"
    using that by (auto simp: demand_page_def Let_def split: option.splits prod.splits if_splits)
  have kill: "no_new_root s (kill_faulting sops u)" if "root_slots u = root_slots s" for u
    using root_fault [of u sops] that by (simp add: no_new_root_def split: outcome.splits)
  show ?thesis using assms c demand kill unfolding exception_handler_def Let_def c_def [symmetric]
    by (auto simp: split_beta split: if_splits option.splits bool.splits)
qed

lemma root_exception: "cpu_exception sops ops env cr2 frame s = Some r \<Longrightarrow> no_new_root s r"
  unfolding cpu_exception_def by (rule root_handler)

definition quiet :: "('c, 'd, 'r) kernel \<Rightarrow> ('c, 'd, 'r) kernel outcome option \<Rightarrow> bool" where
  "quiet s x \<longleftrightarrow> (case x of None \<Rightarrow> True | Some r \<Rightarrow> no_new_root s r)"

lemma quiet_simps [simp]:
  "quiet s None" "quiet s (Some r) = no_new_root s r" "quiet s (ret frame x) \<longleftrightarrow> root_slots (snd x) \<subseteq> root_slots s"
  by (simp_all add: quiet_def ret_def)

lemma quiet_fault: "root_slots u \<subseteq> root_slots s \<Longrightarrow> quiet s (kernel_fault sops ops env a e u)"
  using root_handler [of sops ops env 14 e "\<lambda>_. 8" a u]
  by (cases "exception_handler sops ops env 14 e (\<lambda>_. 8) a u") (auto simp: kernel_fault_def no_new_root_def split: outcome.splits)

lemma quiet_call: "(\<And>u. u \<in> call_states c \<Longrightarrow> root_slots u \<subseteq> root_slots s) \<Longrightarrow> quiet s (ret_call sops ops env frame c)"
  by (cases c) (simp_all add: ret_call_def call_states_def quiet_fault)

lemma quiet_if: "quiet s x \<Longrightarrow> quiet s y \<Longrightarrow> quiet s (if b then x else y)"
  by simp

text \<open>
  Property C8: no way up. Whatever interrupt arrives while a task without the rights of the administrator runs (the timer,
  a process call with any arguments, a fault), afterwards no task has these rights that did not have them before; while the call waits
  for a process, this is asked of what the other tasks do meanwhile.
\<close>

theorem no_root_escalation:
  assumes "ts_uid (cur_task s) \<noteq> 0" "\<And>e u. e \<in> set evs \<Longrightarrow> root_slots (e u) \<subseteq> root_slots u"
    and "interrupt_dispatch stk sops nic ops env evs ev dt cr2 frame s = Some (Resume r s')"
  shows "root_slots s' \<subseteq> root_slots s"
proof -
  have uid: "ts_uid (task_slots s ! cur_idx s) \<noteq> 0" using assms(1) by simp
  have wait: "root_slots u \<subseteq> root_slots s" if "waitpid_wait sops pid start evs s = Some (a, u)" for pid start a u
    by (rule root_waitpid [OF _ that]) (rule assms(2))
  have exec: "quiet s (case sys_execve nic ops env frame a s of Returns r u \<Rightarrow> if r < 0 then ret frame (-1, u) else Some (Resume 0 u)
      | Faults b e u \<Rightarrow> kernel_fault sops ops env b e u | Stuck \<Rightarrow> None)" for a
    using root_execve [of _ nic ops env frame a s] by (cases "sys_execve nic ops env frame a s") (simp_all add: call_states_def quiet_fault)
  have "quiet s (task_syscall stk sops nic ops env evs frame s)"
    unfolding task_syscall_def Let_def
    by (intro quiet_if quiet_call exec) (simp_all add: root_exit root_kill root_fork [OF uid] root_memory(1-4) root_memory(5) [OF uid] root_memory(6-8) wait split: option.split)
  moreover have "quiet s (cpu_exception sops ops env cr2 frame s)"
    using root_exception by (cases "cpu_exception sops ops env cr2 frame s") auto
  moreover have "no_new_root s (timer_preempt stk frame (s\<lparr>kernel_tick := kernel_tick s + 1, k_io := timer_devices nic ev dt (k_io s)\<rparr>))"
    using root_timer [of "s\<lparr>kernel_tick := kernel_tick s + 1, k_io := timer_devices nic ev dt (k_io s)\<rparr>" stk frame] by (simp add: no_new_root_def split: outcome.splits)
  ultimately have "quiet s (interrupt_dispatch stk sops nic ops env evs ev dt cr2 frame s)"
    unfolding interrupt_dispatch_def Let_def by (intro quiet_if) simp_all
  then show ?thesis unfolding assms(3) by simp
qed

theorem no_root_escalation_witness:
  "\<forall>io sch stk sops nic ops env ev dt cr2. \<exists>s'. interrupt_dispatch stk sops nic ops env [] ev dt cr2 0 (demo_kernel 0x80 79 0 io sch) = Some (Resume 0 s') \<and> root_slots s' = {}"
proof (intro allI)
  fix io :: "('a, 'b) fdsys" and sch :: "'c option" and stk sops nic ops env ev dt cr2
  let ?s = "demo_kernel 0x80 79 0 io sch"
  have "reg FR_INT_NO 0 ?s = 0x80" "reg FR_RAX 0 ?s = 79" by (simp_all add: reg_def demo_kernel_def ent_def)
  then have "\<exists>s'. interrupt_dispatch stk sops nic ops env [] ev dt cr2 0 ?s = Some (Resume 0 s')"
    by (simp add: interrupt_dispatch_def task_syscall_def Let_def ret_def)
  then obtain s' where s': "interrupt_dispatch stk sops nic ops env [] ev dt cr2 0 ?s = Some (Resume 0 s')" by blast
  have "root_slots ?s = {}" by (auto simp: root_slots_def demo_kernel_def demo_slot_def less_Suc_eq_0_disj nth_Cons')
  then show "\<exists>s'. interrupt_dispatch stk sops nic ops env [] ev dt cr2 0 ?s = Some (Resume 0 s') \<and> root_slots s' = {}"
    using no_root_escalation [OF _ _ s'] s' by (simp add: demo_kernel_def demo_slot_def cur_idx_def)
qed

section \<open>Mapped regions\<close>

text \<open>Where the next region of a process goes, and the addresses of a region as numbers.\<close>

definition mmap_end :: "TaskSlot \<Rightarrow> nat" where
  "mmap_end t = unat (if mmap_next t = 0 then MMAP_BASE_64 else mmap_next t)"

definition region :: "VmaEntry \<Rightarrow> nat set" where
  "region v = (if vm_type v = VMA_TYPE_NONE then {} else {unat (vm_start v)..<unat (vm_start v) + unat (vm_length v)})"

definition vmas_ok :: "TaskSlot \<Rightarrow> bool" where
  "vmas_ok t \<longleftrightarrow> (\<forall>v \<in> set (vma_list t). region v \<subseteq> {unat MMAP_BASE_64..<mmap_end t} \<and> (vm_type v \<noteq> VMA_TYPE_NONE \<longrightarrow> unat (vm_start v) + unat (vm_length v) \<le> mmap_end t))
     \<and> (\<forall>i < length (vma_list t). \<forall>j < length (vma_list t). i \<noteq> j \<longrightarrow> region (vma_list t ! i) \<inter> region (vma_list t ! j) = {})"

lemma in_vma_region: "vmas_ok t \<Longrightarrow> v \<in> set (vma_list t) \<Longrightarrow> in_vma a v \<longleftrightarrow> unat a \<in> region v"
proof -
  assume ok: "vmas_ok t" and v: "v \<in> set (vma_list t)"
  show ?thesis
  proof (cases "vm_type v = VMA_TYPE_NONE")
    case False
    then have "unat (vm_start v) + unat (vm_length v) \<le> mmap_end t" using ok v by (simp add: vmas_ok_def)
    also have "\<dots> < 2 ^ 64" using unsigned_less [of "if mmap_next t = 0 then MMAP_BASE_64 else mmap_next t"] by (simp add: mmap_end_def)
    finally have "unat (vm_start v + vm_length v) = unat (vm_start v) + unat (vm_length v)" by (intro unat_add_lem [THEN iffD1]) simp
    then show ?thesis using False by (simp add: in_vma_def region_def word_le_nat_alt word_less_nat_alt)
  qed (simp add: in_vma_def region_def)
qed

lemma vma_find_unique:
  assumes "vmas_ok t" "i < length (vma_list t)" "unat a \<in> region (vma_list t ! i)"
  shows "vma_find (vma_list t) a = Some (vma_list t ! i)"
proof -
  have iff: "in_vma a (vma_list t ! j) \<longleftrightarrow> j = i" if "j < length (vma_list t)" for j
    using in_vma_region [OF assms(1) nth_mem [OF that], of a] assms that unfolding vmas_ok_def by (metis disjoint_iff)
  then show ?thesis unfolding vma_find_def find_Some_iff using assms(2) by (intro exI [of _ i]) auto
qed

text \<open>The two calls, as a process makes them one after the other.\<close>

datatype mem_call = Mmap u64 u64 u64 | Munmap u64

fun mem_step :: "mem_call \<Rightarrow> ('c, 'd, 'r) kernel \<Rightarrow> ('c, 'd, 'r) kernel option" where
  "mem_step (Mmap n f q) s = (case sys_mmap n f q s of Returns r s' \<Rightarrow> Some s' | Faults _ _ _ \<Rightarrow> None | Stuck \<Rightarrow> None)"
| "mem_step (Munmap a) s = Some (snd (sys_munmap a s))"

fun mem_calls :: "mem_call list \<Rightarrow> ('c, 'd, 'r) kernel \<Rightarrow> ('c, 'd, 'r) kernel option" where
  "mem_calls [] s = Some s"
| "mem_calls (c # cs) s = (case mem_step c s of None \<Rightarrow> None | Some s' \<Rightarrow> mem_calls cs s')"

lemma vmas_upd:
  assumes ok: "vmas_ok t" and i: "i < length (vma_list t)" and v: "region v \<subseteq> {mmap_end t..<mmap_end t'}" "vm_type v \<noteq> VMA_TYPE_NONE \<Longrightarrow> unat (vm_start v) + unat (vm_length v) \<le> mmap_end t'"
    and t': "vma_list t' = (vma_list t)[i := v]" "mmap_end t \<le> mmap_end t'" "unat MMAP_BASE_64 \<le> mmap_end t"
  shows "vmas_ok t'"
proof -
  let ?vs = "vma_list t"
  have old: "region u \<subseteq> {unat MMAP_BASE_64..<mmap_end t}" "vm_type u \<noteq> VMA_TYPE_NONE \<Longrightarrow> unat (vm_start u) + unat (vm_length u) \<le> mmap_end t" if "u \<in> set ?vs" for u
    using ok that by (simp_all add: vmas_ok_def)
  have "region u \<subseteq> {unat MMAP_BASE_64..<mmap_end t'} \<and> (vm_type u \<noteq> VMA_TYPE_NONE \<longrightarrow> unat (vm_start u) + unat (vm_length u) \<le> mmap_end t')" if "u \<in> set (?vs[i := v])" for u
  proof (cases "u = v")
    case False
    then have "u \<in> set ?vs" using that set_update_subset_insert by fastforce
    then show ?thesis using old t'(2) by fastforce
  qed (use v t'(3) in fastforce)
  moreover have "region (?vs[i := v] ! k) \<inter> region (?vs[i := v] ! l) = {}" if "k < length ?vs" "l < length ?vs" "k \<noteq> l" for k l
  proof -
    have "region (?vs ! m) \<inter> region v = {}" if "m < length ?vs" for m using old(1) [OF nth_mem [OF that]] v(1) by fastforce
    then show ?thesis using that ok i by (auto simp: vmas_ok_def nth_list_update Int_commute)
  qed
  ultimately show ?thesis unfolding vmas_ok_def t'(1) by simp
qed

text \<open>The process whose calls are followed: its slot is in the table, and its regions are in order.\<close>

definition mem_ok :: "nat \<Rightarrow> ('c, 'd, 'r) kernel \<Rightarrow> bool" where
  "mem_ok c s \<longleftrightarrow> 0 \<le> current_task_idx s \<and> cur_idx s = c \<and> c < length (task_slots s) \<and> vmas_ok (task_slots s ! c) \<and> unat MMAP_BASE_64 \<le> mmap_end (task_slots s ! c)"

definition the_end :: "nat \<Rightarrow> ('c, 'd, 'r) kernel \<Rightarrow> nat" where
  "the_end c s = mmap_end (task_slots s ! c)"

lemma mmap_step:
  assumes ok: "mem_ok c s" and room: "the_end c s + 2 ^ 24 < 2 ^ 64" and call: "sys_mmap n f q s = Returns r s'"
  shows "s' = s \<and> r = -1 \<or> mem_ok c s' \<and> the_end c s \<le> the_end c s' \<and> the_end c s' \<le> the_end c s + 2 ^ 24
    \<and> (\<exists>i < length (vma_list (task_slots s ! c)). \<exists>v. vma_list (task_slots s' ! c) = (vma_list (task_slots s ! c))[i := v] \<and> vm_type (vma_list (task_slots s ! c) ! i) = VMA_TYPE_NONE
      \<and> (r = -1 \<or> r = int (the_end c s) \<and> region v = {the_end c s..<the_end c s + unat (page_up n)} \<and> vm_prot v = ucast (f AND 0xFF) \<and> unat (vm_start v) = the_end c s))"
proof -
  let ?t = "task_slots s ! c"
  let ?va = "if mmap_next ?t = 0 then MMAP_BASE_64 else mmap_next ?t"
  let ?vs = "vma_list ?t"
  have o: "0 \<le> current_task_idx s" "cur_idx s = c" "c < length (task_slots s)" "vmas_ok ?t" "unat MMAP_BASE_64 \<le> mmap_end ?t" using ok by (simp_all add: mem_ok_def)
  show ?thesis
  proof (cases "s' = s \<and> r = -1")
    case False
    then have len: "page_up n \<noteq> 0" "page_up n \<le> 0x1000000" using call o(1) by (auto simp: sys_mmap_def Let_def split: if_splits)
    obtain i where i: "find_slot (\<lambda>v. vm_type v = VMA_TYPE_NONE) ?vs = Some i"
      using call o(1) len False unfolding sys_mmap_def Let_def cur_upd o(2) by (auto split: option.splits)
    then have il: "i < length ?vs" "vm_type (?vs ! i) = VMA_TYPE_NONE" by (simp_all add: find_slot_Some_iff)
    obtain v where v: "s' = upd_task c (\<lambda>t. t\<lparr>mmap_next := ?va + page_up n, vma_list := (vma_list t)[i := v]\<rparr>) s" "vm_start v = ?va" "vm_length v = page_up n"
      "vm_prot v = ucast (f AND 0xFF)" "r = -1 \<and> vm_type v = VMA_TYPE_NONE \<or> r = uint ?va \<and> vm_type v \<noteq> VMA_TYPE_NONE"
      using call o(1,2) len i unfolding sys_mmap_def Let_def cur_upd by (auto split: if_splits user_path.splits)
    let ?t' = "task_slots s' ! c"
    have t': "?t' = ?t\<lparr>mmap_next := ?va + page_up n, vma_list := ?vs[i := v]\<rparr>" using v(1) o(3) by simp
    have ln: "unat (page_up n) \<le> 2 ^ 24" using len(2) by (simp add: word_le_nat_alt)
    have sum: "unat (?va + page_up n) = unat ?va + unat (page_up n)"
      using room ln by (intro unat_add_lem [THEN iffD1]) (simp add: the_end_def mmap_end_def)
    have "?va + page_up n \<noteq> 0" using sum o(5) by (auto simp: mmap_end_def)
    then have e: "mmap_end ?t' = mmap_end ?t + unat (page_up n)" using sum t' by (simp add: mmap_end_def)
    have reg: "region v = (if vm_type v = VMA_TYPE_NONE then {} else {mmap_end ?t..<mmap_end ?t + unat (page_up n)})"
      using v(2,3) by (simp add: region_def mmap_end_def)
    have "vmas_ok ?t'" by (rule vmas_upd [OF o(4) il(1), of v]) (use reg e v(2,3) o(5) t' in \<open>simp_all add: mmap_end_def split: if_splits\<close>)
    then have "mem_ok c s'" using o v(1) e by (simp add: mem_ok_def cur_idx_def)
    moreover have "the_end c s \<le> the_end c s'" "the_end c s' \<le> the_end c s + 2 ^ 24" using e ln by (simp_all add: the_end_def)
    moreover have "r = -1 \<or> r = int (the_end c s) \<and> region v = {the_end c s..<the_end c s + unat (page_up n)} \<and> vm_prot v = ucast (f AND 0xFF) \<and> unat (vm_start v) = the_end c s"
      using v(2,4,5) reg by (auto simp: the_end_def mmap_end_def)
    moreover have "vma_list ?t' = ?vs[i := v]" using t' by simp
    ultimately show ?thesis using il by blast
  qed simp
qed

lemma munmap_step:
  assumes "mem_ok c s"
  shows "mem_ok c (snd (sys_munmap a s))" "the_end c (snd (sys_munmap a s)) = the_end c s"
proof -
  let ?t = "task_slots s ! c"
  have o: "0 \<le> current_task_idx s" "cur_idx s = c" "c < length (task_slots s)" "vmas_ok ?t" "unat MMAP_BASE_64 \<le> mmap_end ?t" using assms by (simp_all add: mem_ok_def)
  have "vmas_ok (?t\<lparr>vma_list := (vma_list ?t)[i := v\<lparr>vm_type := VMA_TYPE_NONE\<rparr>]\<rparr>)" if "i < length (vma_list ?t)" for i v
    by (rule vmas_upd [OF o(4) that, of "v\<lparr>vm_type := VMA_TYPE_NONE\<rparr>"]) (use o(5) in \<open>simp_all add: region_def mmap_end_def\<close>)
  then show "mem_ok c (snd (sys_munmap a s))" "the_end c (snd (sys_munmap a s)) = the_end c s"
    using o by (auto simp: sys_munmap_def mem_ok_def the_end_def mmap_end_def find_slot_Some_iff cur_idx_def split: option.split)
qed

lemma mem_calls_ok:
  "mem_calls cs s = Some s' \<Longrightarrow> mem_ok c s \<Longrightarrow> the_end c s + (length cs + 1) * 2 ^ 24 < 2 ^ 64 \<Longrightarrow> mem_ok c s' \<and> the_end c s' \<le> the_end c s + length cs * 2 ^ 24"
proof (induction cs arbitrary: s)
  case (Cons d cs)
  obtain u where u: "mem_step d s = Some u" "mem_calls cs u = Some s'" using Cons.prems(1) by (auto split: option.splits)
  have "mem_ok c u \<and> the_end c u \<le> the_end c s + 2 ^ 24"
  proof (cases d)
    case (Mmap n f q)
    then obtain r where "sys_mmap n f q s = Returns r u" using u(1) by (auto split: call.splits)
    from mmap_step [OF Cons.prems(2) _ this] show ?thesis using Cons.prems(2,3) by auto
  next
    case (Munmap a)
    then show ?thesis using munmap_step [OF Cons.prems(2), of a] u(1) by auto
  qed
  then show ?case using Cons.IH [OF u(2)] Cons.prems(3) by auto
qed simp

text \<open>
  Property C21: mapped regions never overlap. However a process maps and unmaps memory, a region that it gets from
  one more call holds exactly the pages that it asked for, a fault there finds the region with the protection of the call, a
  fault elsewhere finds the region it found before, and no address is in two regions. (With 2^39 calls the addresses cannot wrap round.)
\<close>

theorem mmap_regions:
  assumes "0 \<le> current_task_idx s" "cur_idx s < length (task_slots s)" "mmap_next (cur_task s) = 0" "\<And>v. v \<in> set (vma_list (cur_task s)) \<Longrightarrow> vm_type v = VMA_TYPE_NONE"
    and "mem_calls cs s = Some s1" "length cs < 2 ^ 39" "sys_mmap n f q s1 = Returns r s2" "r \<ge> 0"
  shows "(\<forall>a. unat a \<in> {nat r..<nat r + unat (page_up n)} \<longrightarrow>
           (\<exists>v. vma_find (vma_list (cur_task s2)) a = Some v \<and> unat (vm_start v) = nat r \<and> vm_prot v = ucast (f AND 0xFF)))
    \<and> (\<forall>a v. vma_find (vma_list (cur_task s1)) a = Some v \<longrightarrow> vma_find (vma_list (cur_task s2)) a = Some v)
    \<and> (\<forall>a. length (filter (in_vma a) (vma_list (cur_task s2))) \<le> 1)"
proof -
  let ?c = "cur_idx s"
  have start: "mem_ok ?c s" "the_end ?c s = unat MMAP_BASE_64"
    using assms(1-4) by (simp_all add: mem_ok_def vmas_ok_def region_def mmap_end_def the_end_def)
  then have s1: "mem_ok ?c s1" "the_end ?c s1 + 2 ^ 24 < 2 ^ 64" using mem_calls_ok [OF assms(5) start(1)] assms(6) by auto
  let ?v1 = "vma_list (task_slots s1 ! ?c)" and ?v2 = "vma_list (task_slots s2 ! ?c)"
  from mmap_step [OF s1 assms(7)] assms(8) obtain i v where s2: "mem_ok ?c s2" "i < length ?v1" "?v2 = ?v1[i := v]" "vm_type (?v1 ! i) = VMA_TYPE_NONE"
    "r = int (the_end ?c s1)" "region v = {the_end ?c s1..<the_end ?c s1 + unat (page_up n)}" "vm_prot v = ucast (f AND 0xFF)" "unat (vm_start v) = the_end ?c s1"
    by auto
  have cur: "cur_idx s1 = ?c" "cur_idx s2 = ?c" "vmas_ok (task_slots s1 ! ?c)" "vmas_ok (task_slots s2 ! ?c)" using s1(1) s2(1) by (simp_all add: mem_ok_def)
  have "vma_find ?v2 a = Some v" if "unat a \<in> {nat r..<nat r + unat (page_up n)}" for a
    using vma_find_unique [OF cur(4), of i a] s2(2,3,5,6) that by simp
  moreover have "vma_find ?v2 a = Some w" if w: "vma_find ?v1 a = Some w" for a w
  proof -
    obtain k where k: "k < length ?v1" "in_vma a (?v1 ! k)" "w = ?v1 ! k" using w by (auto simp: vma_find_def find_Some_iff)
    then have "k \<noteq> i" using s2(4) by (auto simp: in_vma_def)
    then show ?thesis using vma_find_unique [OF cur(4), of k a] in_vma_region [OF cur(3) nth_mem [OF k(1)]] k s2(3) by simp
  qed
  moreover have "length (filter (in_vma a) ?v2) \<le> 1" for a
  proof -
    have "k = l" if "k < length ?v2" "l < length ?v2" "in_vma a (?v2 ! k)" "in_vma a (?v2 ! l)" for k l
      using that in_vma_region [OF cur(4) nth_mem] cur(4) unfolding vmas_ok_def by (metis disjoint_iff)
    then have "card {k. k < length ?v2 \<and> in_vma a (?v2 ! k)} \<le> 1" by (auto simp: card_le_Suc0_iff_eq)
    then show ?thesis by (simp add: length_filter_conv_card)
  qed
  ultimately show ?thesis using s2(5,7,8) cur(1,2) by auto
qed

theorem mmap_regions_witness:
  "\<forall>io sch. \<exists>s1 s2. mem_calls [Mmap 0x2000 0x1003 0, Munmap 0x20000000] (demo_kernel 0 0 0 io sch) = Some s1 \<and> sys_mmap 1 0x1001 0 s1 = Returns 0x20002000 s2
     \<and> (\<forall>a. unat a \<in> {0x20002000..<0x20003000} \<longrightarrow> (\<exists>v. vma_find (vma_list (cur_task s2)) a = Some v \<and> vm_prot v = 1))"
proof (intro allI)
  fix io :: "('a, 'b) fdsys" and sch :: "'c option"
  let ?s = "demo_kernel 0 0 0 io sch" and ?cs = "[Mmap 0x2000 0x1003 0, Munmap 0x20000000]"
  have p: "page_up 0x2000 = 0x2000" "page_up 1 = 0x1000" by (simp_all add: page_up_def)
  have rep: "replicate VMA_MAX_PER_TASK z = z # replicate 15 z" for z :: VmaEntry by (simp add: numeral_eq_Suc)
  obtain s1 s2 where s: "mem_calls ?cs ?s = Some s1" "sys_mmap 1 0x1001 0 s1 = Returns 0x20002000 s2"
    by (simp add: sys_mmap_def sys_munmap_def p Let_def demo_kernel_def demo_slot_def cur_idx_def find_slot_def upd_task_def rep)
  have "length ?cs < 2 ^ 39" by simp
  from mmap_regions [OF _ _ _ _ s(1) this s(2)]
  have "\<forall>a. unat a \<in> {0x20002000..<0x20003000} \<longrightarrow> (\<exists>v. vma_find (vma_list (cur_task s2)) a = Some v \<and> vm_prot v = 1)"
    by (fastforce simp: demo_kernel_def demo_slot_def cur_idx_def p)
  then show "\<exists>s1 s2. mem_calls ?cs ?s = Some s1 \<and> sys_mmap 1 0x1001 0 s1 = Returns 0x20002000 s2
     \<and> (\<forall>a. unat a \<in> {0x20002000..<0x20003000} \<longrightarrow> (\<exists>v. vma_find (vma_list (cur_task s2)) a = Some v \<and> vm_prot v = 1))"
    using s by blast
qed

section \<open>Errors\<close>

lemma next_active_found:
  assumes "c < 8" "j < 8" "ts_active (ts ! j)"
  obtains k n where "next_active c ts = Some n" "k < 8" "n = (c + 1 + k) mod 8" "ts_active (ts ! n)" "\<And>i. i < k \<Longrightarrow> \<not> ts_active (ts ! ((c + 1 + i) mod 8))"
proof -
  let ?d = "(j + 8 - Suc c) mod 8"
  have j: "(c + 1 + ?d) mod 8 = j" using assms(1,2) by (cases "Suc c \<le> j") (auto simp: mod_if)
  have "next_active c ts \<noteq> None"
  proof
    assume "next_active c ts = None"
    then have "\<not> ts_active (ts ! ((c + 1 + i) mod 8))" if "i < 8" for i using that by (auto simp: next_active_def find_None_iff)
    from this [of ?d] show False using j assms(3) by simp
  qed
  then obtain n where n: "next_active c ts = Some n" by blast
  then obtain k where "k < 8" "n = (c + 1 + k) mod 8" "ts_active (ts ! n)" "\<And>i. i < k \<Longrightarrow> \<not> ts_active (ts ! ((c + 1 + i) mod 8))"
    unfolding next_active_def find_Some_iff by auto
  then show thesis using n that by blast
qed

text \<open>
  Property C27: what a fault of a process does, exactly. When a process reads an address that is in none of its regions, its slot
  is released and the next active task on the ring is resumed at its saved stack pointer; the other slots, memory, files and sockets are as they
  were. The rest is not contained: the scheduler ends the process that it counts as its current one, whoever that is, and the
  tables and the kernel stack of the processor stay those of the dead process, whose frames are not given back.
\<close>

theorem user_fault_exact:
  assumes "running s" "j < 8" "j \<noteq> cur_idx s" "ts_active (task_slots s ! j)"
    and "reg FR_INT_NO frame s = 14" "reg FR_ERROR frame s AND 2 = 0" "reg FR_CS frame s AND 3 = 3" "vma_find (vma_list (cur_task s)) cr2 = None"
  shows "\<exists>k n. n = (cur_idx s + 1 + k) mod 8 \<and> n \<noteq> cur_idx s \<and> ts_active (task_slots s ! n) \<and> (\<forall>i < k. \<not> ts_active (task_slots s ! ((cur_idx s + 1 + i) mod 8)))
    \<and> interrupt_dispatch stk sops nic ops env evs ev dt cr2 frame s = Some (Resume (ts_rsp (task_slots s ! n))
         (s\<lparr>current_task_idx := int n, task_slots := (task_slots s)[cur_idx s := (cur_task s)\<lparr>ts_active := False\<rparr>],
            k_sched := (case k_sched s of None \<Rightarrow> None
              | Some sch \<Rightarrow> let pid = si_current_pid sops sch in Some (if pid = 0 then sch else si_schedule sops (si_kill sops pid sch)))\<rparr>))"
proof -
  let ?c = "cur_idx s"
  let ?ts = "(task_slots s)[?c := (task_slots s ! ?c)\<lparr>ts_active := False\<rparr>]"
  have r: "?c < 8" "0 \<le> current_task_idx s" "context_switch_enabled s" "length (task_slots s) = 8" using assms(1) by (simp_all add: running_def)
  obtain k n where n: "next_active ?c ?ts = Some n" "k < 8" "n = (?c + 1 + k) mod 8" "ts_active (?ts ! n)" "\<And>i. i < k \<Longrightarrow> \<not> ts_active (?ts ! ((?c + 1 + i) mod 8))"
    by (rule next_active_found [OF r(1) assms(2), of ?ts]) (use assms(3,4) in simp_all)
  have nc: "n \<noteq> ?c" using n(4) r(1,4) by auto
  have "\<not> ts_active (task_slots s ! ((?c + 1 + i) mod 8))" if "i < k" for i
  proof -
    have "(?c + 1 + i) mod 8 \<noteq> ?c" using that n(2) r(1) by (auto simp: mod_if)
    then show ?thesis using n(5) [OF that] by simp
  qed
  moreover have e: "interrupt_dispatch stk sops nic ops env evs ev dt cr2 frame s = Some (kill_faulting sops s)"
    using assms(5-8) r(2) by (simp add: interrupt_dispatch_def cpu_exception_def exception_handler_def demand_page_def)
  moreover have "cur_idx (s\<lparr>k_sched := x\<rparr>) = ?c" "cur_idx (s\<lparr>k_sched := x, task_slots := y\<rparr>) = ?c" "cur_idx (s\<lparr>task_slots := y\<rparr>) = ?c" for x y
    by (simp_all add: cur_idx_def)
  ultimately show ?thesis using n nc r
    by (intro exI [of _ k] exI [of _ n]) (cases "k_sched s", simp_all add: kill_faulting_def Let_def upd_task_def)
qed

lemma path_loop_fault:
  assumes "k < n" "\<And>i. i < k \<Longrightarrow> \<exists>b. v (a + of_nat i) = Some b \<and> b \<noteq> 0" "v (a + of_nat k) = None"
  shows "user_path_loop n v a acc = PathFault (a + of_nat k)"
  using assms
proof (induction k arbitrary: n a acc)
  case 0
  then show ?case by (cases n) simp_all
next
  case (Suc k)
  obtain m where n: "n = Suc m" using Suc.prems(1) by (cases n) simp_all
  obtain b where b: "v a = Some b" "b \<noteq> 0" using Suc.prems(2) [of 0] by auto
  have "user_path_loop m v (a + 1) (char_of_byte b # acc) = PathFault (a + 1 + of_nat k)"
  proof (rule Suc.IH)
    show "\<exists>b. v (a + 1 + of_nat i) = Some b \<and> b \<noteq> 0" if "i < k" for i using Suc.prems(2) [of "Suc i"] that by (simp add: ac_simps)
  qed (use Suc.prems(1,3) n in \<open>simp_all add: ac_simps\<close>)
  then show ?case using b by (simp add: n ac_simps)
qed

text \<open>
  Property C35: the kernel does not survive a fault of its own. A process passes the address of a path to \<open>SYS_CHDIR\<close> or \<open>SYS_EXECVE\<close>; if
  reading it meets a page that is not there, before the end of the string and in its first 64 bytes, the exception handler stops the machine,
  wherever the address is. In an anonymous region that the process has mapped and not yet touched, the same address touched by the process
  itself only brings the page in, if a frame is free.
\<close>

theorem bad_pointer_halts:
  assumes "reg FR_INT_NO frame s = 0x80" "reg FR_RAX frame s = 83 \<or> reg FR_RAX frame s = 74" "0 \<le> current_task_idx s"
    and a: "a = reg FR_RBX frame s" "USER_VADDR_MIN_64 \<le> a" "a < USER_VADDR_MAX_64"
    and str: "k < SYS_IO_PATH_MAX" "\<And>i. i < k \<Longrightarrow> \<exists>b. user_byte (active_cr3 s) (k_pages s) (a + of_nat i) = Some b \<and> b \<noteq> 0"
      "user_byte (active_cr3 s) (k_pages s) (a + of_nat k) = None"
  shows "interrupt_dispatch stk sops nic ops env evs ev dt cr2 frame s = Some Halt
    \<and> (\<forall>uframe v. reg FR_INT_NO uframe s = 14 \<and> reg FR_ERROR uframe s AND 2 = 0 \<and> reg FR_CS uframe s AND 3 = 3
         \<and> vma_find (vma_list (cur_task s)) (a + of_nat k) = Some v \<and> vm_type v = VMA_TYPE_ANON \<and> fst (frame_alloc (k_pages s)) \<noteq> 0
         \<longrightarrow> (\<exists>s'. interrupt_dispatch stk sops nic ops env evs ev dt (a + of_nat k) uframe s = Some (Resume 0 s')))"
proof (intro conjI allI impI)
  have "a \<noteq> 0" using a(2) by auto
  moreover have "user_path_loop SYS_IO_PATH_MAX (user_byte (active_cr3 s) (k_pages s)) a [] = PathFault (a + of_nat k)"
    by (rule path_loop_fault) (use str in blast)+
  ultimately have "user_path_64 a s = PathFault (a + of_nat k)"
    using a(2,3) by (simp add: user_path_64_def not_le not_less del: user_path_loop.simps)
  then have "sys_chdir ops a s = Faults (a + of_nat k) 0 s" "sys_execve nic ops env frame a s = Faults (a + of_nat k) 0 s"
    using assms(3) by (simp_all add: sys_chdir_def sys_execve_def)
  then show "interrupt_dispatch stk sops nic ops env evs ev dt cr2 frame s = Some Halt"
    using assms(1,2) by (auto simp: a(1) interrupt_dispatch_def task_syscall_def ret_call_def kernel_fault_def exception_handler_def)
  show "\<exists>s'. interrupt_dispatch stk sops nic ops env evs ev dt (a + of_nat k) uframe s = Some (Resume 0 s')"
    if "reg FR_INT_NO uframe s = 14 \<and> reg FR_ERROR uframe s AND 2 = 0 \<and> reg FR_CS uframe s AND 3 = 3
      \<and> vma_find (vma_list (cur_task s)) (a + of_nat k) = Some v \<and> vm_type v = VMA_TYPE_ANON \<and> fst (frame_alloc (k_pages s)) \<noteq> 0" for uframe v
    using that assms(3) by (simp add: interrupt_dispatch_def cpu_exception_def exception_handler_def demand_page_def vma_page_bytes_def split_beta)
qed

text \<open>A process that has mapped a page at \<open>0x20000000\<close> and not touched it; a frame of a fault there is at \<open>0x2000\<close>.\<close>

definition demo_lazy :: "('c, 'd) fdsys \<Rightarrow> 'r option \<Rightarrow> ('c, 'd, 'r) kernel" where
  "demo_lazy io sch = (demo_kernel 0x80 83 0x20000000 io sch)\<lparr>
     task_slots := [(demo_slot True 7)\<lparr>vma_list := [\<lparr>vm_start = 0x20000000, vm_length = 0x1000, vm_type = VMA_TYPE_ANON, vm_prot = 3, vm_flags = 0x10, vm_path = [], vm_file_offset = 0\<rparr>]\<rparr>],
     k_pages := demo_paging\<lparr>pg_mem := (\<lambda>_. 0)(ent 0 FR_INT_NO := 0x80, ent 0 FR_RAX := 83, ent 0 FR_RBX := 0x20000000, ent 0x2000 FR_INT_NO := 14, ent 0x2000 FR_CS := 0x1B)\<rparr>\<rparr>"

theorem bad_pointer_halts_witness:
  "\<forall>io sch stk sops nic ops env evs ev dt cr2. interrupt_dispatch stk sops nic ops env evs ev dt cr2 0 (demo_lazy io sch) = Some Halt
     \<and> (\<exists>s'. interrupt_dispatch stk sops nic ops env evs ev dt 0x20000000 0x2000 (demo_lazy io sch) = Some (Resume 0 s'))"
proof (intro allI)
  fix io :: "('a, 'b) fdsys" and sch :: "'c option" and stk sops nic ops env evs ev dt cr2
  let ?s = "demo_lazy io sch"
  let ?v = "\<lparr>vm_start = 0x20000000, vm_length = 0x1000, vm_type = VMA_TYPE_ANON, vm_prot = 3, vm_flags = 0x10, vm_path = [], vm_file_offset = 0\<rparr> :: VmaEntry"
  have r: "reg FR_INT_NO 0 ?s = 0x80" "reg FR_RAX 0 ?s = 83" "0x20000000 = reg FR_RBX 0 ?s" "reg FR_INT_NO 0x2000 ?s = 14" "reg FR_ERROR 0x2000 ?s AND 2 = 0" "reg FR_CS 0x2000 ?s AND 3 = 3"
    by (simp_all add: reg_def demo_lazy_def ent_def)
  have none: "user_byte (active_cr3 ?s) (k_pages ?s) (0x20000000 + of_nat 0) = None"
    by (simp add: user_byte_def paging_get_pte_def demo_lazy_def demo_kernel_def ent_def vidx_def)
  have idx: "0 \<le> current_task_idx ?s" by (simp add: demo_lazy_def demo_kernel_def)
  have v: "vma_find (vma_list (cur_task ?s)) (0x20000000 + of_nat 0) = Some ?v" "vm_type ?v = VMA_TYPE_ANON"
    by (simp_all add: demo_lazy_def demo_kernel_def cur_idx_def vma_find_def in_vma_def)
  have f: "fst (frame_alloc (k_pages ?s)) \<noteq> 0"
    by (simp add: demo_lazy_def demo_paging_def frame_alloc_def frame_claim_def Let_def split: option.split)
  from bad_pointer_halts [OF r(1) disjI1 [OF r(2)] idx r(3) _ _ _ _ none, of stk sops nic ops env evs ev dt cr2] r(4-6) v f
  show "interrupt_dispatch stk sops nic ops env evs ev dt cr2 0 ?s = Some Halt
     \<and> (\<exists>s'. interrupt_dispatch stk sops nic ops env evs ev dt 0x20000000 0x2000 ?s = Some (Resume 0 s'))" by simp
qed

theorem user_fault_exact_witness:
  "\<forall>io sch stk sops nic ops env evs ev dt. \<exists>s'. interrupt_dispatch stk sops nic ops env evs ev dt 0x100 0 ((demo_kernel 14 0 0 io sch)\<lparr>k_pages := demo_paging\<lparr>pg_mem := (\<lambda>_. 0)(ent 0 FR_INT_NO := 14, ent 0 FR_CS := 0x1B)\<rparr>\<rparr>) = Some (Resume 0x7000 s')
     \<and> current_task_idx s' = 1 \<and> \<not> ts_active (task_slots s' ! 0) \<and> active_cr3 s' = 0x1000"
proof (intro allI)
  fix io :: "('a, 'b) fdsys" and sch :: "'c option" and stk sops nic ops env evs ev dt
  let ?s = "(demo_kernel 14 0 0 io sch)\<lparr>k_pages := demo_paging\<lparr>pg_mem := (\<lambda>_. 0)(ent 0 FR_INT_NO := 14, ent 0 FR_CS := 0x1B)\<rparr>\<rparr>"
  have r: "reg FR_INT_NO 0 ?s = 14" "reg FR_ERROR 0 ?s AND 2 = 0" "reg FR_CS 0 ?s AND 3 = 3" by (simp_all add: reg_def demo_kernel_def ent_def)
  have slots: "task_slots ?s = demo_slot True 7 # demo_slot True 7 # replicate 6 (demo_slot False 0)" "cur_idx ?s = 0" "active_cr3 ?s = 0x1000" by (simp_all add: demo_kernel_def cur_idx_def)
  have run: "running ?s" by (simp add: running_def demo_kernel_def cur_idx_def)
  have v: "vma_find (vma_list (cur_task ?s)) 0x100 = None" by (simp add: demo_kernel_def demo_slot_def vma_find_def find_None_iff in_vma_def cur_idx_def)
  have j: "1 \<noteq> cur_idx ?s" "ts_active (task_slots ?s ! 1)" unfolding slots by (simp_all add: demo_slot_def)
  obtain k n s' where n: "interrupt_dispatch stk sops nic ops env evs ev dt 0x100 0 ?s = Some (Resume (ts_rsp (task_slots ?s ! n)) s')" "n = (0 + 1 + k) mod 8"
    "\<And>i. i < k \<Longrightarrow> \<not> ts_active (task_slots ?s ! ((0 + 1 + i) mod 8))"
    "current_task_idx s' = int n" "task_slots s' = (task_slots ?s)[0 := (cur_task ?s)\<lparr>ts_active := False\<rparr>]" "active_cr3 s' = active_cr3 ?s"
    using user_fault_exact [OF run _ j r v, of stk sops nic ops env evs ev dt] unfolding slots(2) by force
  have "k = 0" using n(3) [of 0] unfolding slots by (cases k) (auto simp: demo_slot_def)
  then have "n = 1" using n(2) by simp
  then show "\<exists>s'. interrupt_dispatch stk sops nic ops env evs ev dt 0x100 0 ?s = Some (Resume 0x7000 s')
     \<and> current_task_idx s' = 1 \<and> \<not> ts_active (task_slots s' ! 0) \<and> active_cr3 s' = 0x1000"
    using n(1,4,5,6) unfolding slots by (auto simp: demo_slot_def)
qed

end
