(* ===== verification/Exec.thy ===== *)
theory Exec
  imports Space_Lifecycle Processes
begin

text \<open>
  Running a program: what the loader puts into a fresh address space, byte by byte, and what a process is after a
  successful \<open>execve\<close>.
\<close>

unbundle bit_operations_syntax

section \<open>Bytes of the user range\<close>

definition user_addr :: "u64 \<Rightarrow> bool" where
  "user_addr va \<longleftrightarrow> 0x8000000 \<le> va \<and> va < 0x40000000"

definition word_at :: "u64 \<Rightarrow> u64" where
  "word_at va = va AND NOT 7"

lemma unat_masks:
  "unat (a AND 7) = unat a mod 8" "unat (a AND 0xFFF) = unat a mod 4096" "unat (word_at a) = unat a div 8 * 8" for a :: u64
proof -
  have m: "(7 :: u64) = mask 3" "(0xFFF :: u64) = mask 12" by (simp_all add: mask_numeral)
  show "unat (a AND 7) = unat a mod 8" "unat (a AND 0xFFF) = unat a mod 4096"
    unfolding m by (simp_all add: take_bit_eq_mask [symmetric] unsigned_take_bit_eq take_bit_nat_def)
  have "word_at a = push_bit 3 (drop_bit 3 a)" unfolding word_at_def m(1) by (rule bit_word_eqI) (auto simp: bit_simps)
  moreover have "unat a div 8 * 8 < 2 ^ 64" using unsigned_less [of a, where ?'a = nat] by (simp add: order_le_less_trans [of _ "unat a"])
  ultimately show "unat (word_at a) = unat a div 8 * 8" by (simp add: push_bit_eq_mult drop_bit_eq_div unat_word_ariths unat_div_distrib)
qed

lemma word_div:
  fixes n :: nat
  shows "n div 8 * 8 div 4096 = n div 4096" "n div 8 * 8 mod 4096 div 8 = n mod 4096 div 8" "(4096 * q + n) div 8 * 8 = 4096 * q + 8 * (n div 8)"
proof -
  have p: "(4096 :: nat) = 8 * 512" by simp
  show "n div 8 * 8 div 4096 = n div 4096" unfolding p div_mult2_eq by simp
  have "n mod 4096 div 8 = n div 8 mod 512" unfolding p mod_mult2_eq by simp
  moreover have "n div 8 * 8 mod 4096 div 8 = n div 8 mod 512" unfolding p mod_mult2_eq by simp
  ultimately show "n div 8 * 8 mod 4096 div 8 = n mod 4096 div 8" by simp
  show "(4096 * q + n) div 8 * 8 = 4096 * q + 8 * (n div 8)" using div_mult_self3 [of 8 "512 * q" n] by simp
qed

lemma user_addr_word:
  assumes "user_addr va"
  shows "user_va (word_at va)" "vslot (word_at va) = vslot va" "vpage (word_at va) = vpage va" "voff (word_at va) = unat va mod 4096 div 8"
    "vidx 39 (word_at va) = vidx 39 va" "vidx 30 (word_at va) = vidx 30 va" "vidx 21 (word_at va) = vidx 21 va" "vidx 12 (word_at va) = vidx 12 va"
proof -
  have b: "0x8000000 \<le> unat va" "unat va < 0x40000000" using assms by (simp_all add: user_addr_def word_le_nat_alt word_less_nat_alt)
  have d: "unat va div 8 * 8 div 4096 = unat va div 4096" "unat va div 8 * 8 mod 4096 div 8 = unat va mod 4096 div 8"
    by (rule word_div)+
  have e: "unat va div 8 * 8 div (4096 * k) = unat va div (4096 * k)" for k by (simp add: div_mult2_eq d(1))
  show "user_va (word_at va)" using b div_le_mono [OF b(1), of 8] by (simp add: user_va_def word_le_nat_alt word_less_nat_alt unat_masks less_mult_imp_div_less)
  show "vslot (word_at va) = vslot va" "vpage (word_at va) = vpage va" "voff (word_at va) = unat va mod 4096 div 8"
    using e [of 512] d by (simp_all add: vslot_def vpage_def voff_def unat_masks)
  show "vidx 39 (word_at va) = vidx 39 va" "vidx 30 (word_at va) = vidx 30 va" "vidx 21 (word_at va) = vidx 21 va" "vidx 12 (word_at va) = vidx 12 va"
    using e [of 134217728] e [of 262144] e [of 512] d(1) by (simp_all add: vidx_nat unat_masks)
qed

text \<open>The byte at an address is a byte of the word there.\<close>

lemma user_byte_view:
  assumes va: "user_addr va"
  shows "user_byte d s va = map_option (\<lambda>w. word_byte w (unat va mod 8)) (view s d (word_at va))"
proof -
  note w = user_addr_word [OF va]
  have pte: "paging_get_pte d (word_at va) s = paging_get_pte d va s" unfolding paging_get_pte_def w ..
  have "phys_byte (page_frame e + (va AND 0xFFF)) s = word_byte (pg_mem s (ent (page_frame e) (voff (word_at va)))) (unat va mod 8)" for e
  proof -
    let ?f = "page_frame e" and ?o = "unat va mod 4096"
    have "bit ?f n \<Longrightarrow> 12 \<le> n" for n unfolding page_frame_def bit_and_iff bit_masks by simp
    then have "frame_of ?f = ?f" unfolding frame_of_drop by (intro bit_word_eqI) (auto simp: bit_simps)
    then have al: "aligned ?f" using unat_frame_of [of ?f] by (metis aligned_def mod_mult_self2_is_0)
    obtain q where q: "unat ?f = 4096 * q" using al by (auto simp: aligned_def)
    have "unat ?f < 2 ^ 64" using unsigned_less [of ?f, where ?'a = nat] by simp
    then have "q < 2 ^ 52" using q by simp
    moreover have "?o < 4096" by simp
    ultimately have "unat ?f + ?o < 2 ^ 64" using q by simp
    then have a: "unat (?f + (va AND 0xFFF)) = unat ?f + ?o" by (simp add: unat_word_ariths unat_masks)
    have "unat ((?f + (va AND 0xFFF)) AND 7) = unat va mod 8"
      using mod_mult_self4 [of 8 "512 * q" ?o] mod_mod_cancel [of 8 4096 "unat va"] by (simp add: unat_masks a q)
    moreover have "word_at (?f + (va AND 0xFFF)) = ent ?f (voff (word_at va))"
    proof (rule word_unat_eq_iff [THEN iffD2])
      have "(unat ?f + ?o) div 8 * 8 = unat ?f + 8 * (?o div 8)" unfolding q by (rule word_div(3))
      then show "unat (word_at (?f + (va AND 0xFFF))) = unat (ent ?f (voff (word_at va)))"
        using unat_ent [OF al, of "?o div 8"] a w(4) by (simp add: unat_masks)
    qed
    ultimately show ?thesis by (simp add: phys_byte_def word_at_def)
  qed
  then show ?thesis unfolding user_byte_def view_def pte by (simp add: page_frame_def present_def Let_def split: option.split)
qed

lemma word_byte_bytes_word:
  assumes "b < 8"
  shows "word_byte (bytes_word g) b = g b"
proof (rule bit_word_eqI)
  fix n assume n: "n < LENGTH(8)"
  have f: "bit (fold (\<lambda>i w. w OR push_bit (8 * i) (ucast (g i) :: u64)) [0..<k] 0) m \<longleftrightarrow> m < 64 \<and> m < 8 * k \<and> bit (g (m div 8)) (m mod 8)" if "k \<le> 8" for k m
    using that
  proof (induction k)
    case (Suc k)
    have "8 * k \<le> m \<and> m < 64 \<and> bit (g k) (m - 8 * k) \<longleftrightarrow> 8 * k \<le> m \<and> m < 8 * Suc k \<and> m < 64 \<and> bit (g (m div 8)) (m mod 8)"
    proof (cases "8 * k \<le> m \<and> m < 8 * Suc k")
      case True
      then have "m div 8 = k" by (intro div_nat_eqI) simp_all
      then show ?thesis using True by (simp add: minus_mult_div_eq_mod [symmetric])
    next
      case False
      then have "\<not> bit (g k) (m - 8 * k)" if "8 * k \<le> m" using that bit_imp_le_length [of "g k" "m - 8 * k"] by auto
      then show ?thesis using False by auto
    qed
    moreover have "bit (push_bit (8 * k) (ucast (g k) :: u64)) m \<longleftrightarrow> 8 * k \<le> m \<and> m < 64 \<and> bit (g k) (m - 8 * k)"
      by (auto simp: bit_push_bit_iff bit_ucast_iff)
    ultimately show ?case using Suc by (auto simp: bit_or_iff)
  qed simp
  have "(8 * b + n) div 8 = b" "(8 * b + n) mod 8 = n" using n by simp_all
  then show "bit (word_byte (bytes_word g) b) n = bit (g b) n"
    using n assms f [of 8 "8 * b + n"] by (simp add: word_byte_def bytes_word_def bit_ucast_iff bit_drop_bit_eq)
qed

lemma page_va_of:
  assumes "user_va va" "unat va mod 4096 = 0"
  shows "page_va (vslot va) (vpage va) = va"
proof (rule word_unat_eq_iff [THEN iffD2])
  note v = user_vaD [OF assms(1)]
  have b: "vslot va < 512" "vpage va < 512" using v(1,2) by (simp_all add: user_slot_def)
  have u: "unat (of_nat k :: u64) = k" if "k < 512" for k using that by (simp add: unat_of_nat take_bit_nat_eq_self_iff)
  have dis: "push_bit 21 (of_nat (vslot va) :: u64) AND push_bit 12 (of_nat (vpage va)) = 0"
  proof (rule bit_word_eqI)
    fix n
    have "take_bit 9 (of_nat (vpage va) :: u64) = of_nat (vpage va)" using b(2) by (simp add: take_bit_of_nat take_bit_nat_eq_self)
    then have "bit (of_nat (vpage va) :: u64) m \<Longrightarrow> m < 9" for m by (metis bit_take_bit_iff)
    then have "\<not> bit (of_nat (vpage va) :: u64) (n - 12)" if "21 \<le> n" using that by fastforce
    then show "bit (push_bit 21 (of_nat (vslot va) :: u64) AND push_bit 12 (of_nat (vpage va))) n = bit (0 :: u64) n"
      by (auto simp: bit_and_iff bit_push_bit_iff)
  qed
  have "unat (page_va (vslot va) (vpage va)) = vslot va * 2097152 + vpage va * 4096"
    unfolding page_va_def disjunctive_add_eq_or [OF dis, symmetric] using b by (simp add: push_bit_eq_mult unat_word_ariths u)
  also have "\<dots> = unat va"
  proof -
    have "unat va div 4096 = unat va div 2097152 * 512 + unat va div 4096 mod 512"
      using div_mult_mod_eq [of "unat va div 4096" 512] by (simp add: div_mult2_eq [symmetric])
    moreover have "unat va = unat va div 4096 * 4096" using assms(2) div_mult_mod_eq [of "unat va" 4096] by simp
    ultimately show ?thesis unfolding vslot_def vpage_def by linarith
  qed
  finally show "unat (page_va (vslot va) (vpage va)) = unat va" .
qed

section \<open>One page\<close>

lemma fill_frame_ent:
  assumes "aligned f" "i < 512"
  shows "fill_frame f g m (ent f i) = bytes_word (\<lambda>b. g (8 * i + b))"
proof -
  have "ent f i - f = 8 * of_nat i" by (simp add: ent_def)
  moreover have "unat (8 * of_nat i :: u64) = 8 * i" using assms(2) by (simp add: unat_word_ariths unat_of_nat take_bit_nat_eq_self_iff)
  ultimately show ?thesis using frame_of_ent [OF assms] by (simp add: fill_frame_def)
qed

lemma user_entry_frame:
  assumes "aligned f" "unat f < 2 ^ 48"
  shows "page_frame ((f AND PAGE_ADDR_MASK) OR USER_PAGE) = f" "present ((f AND PAGE_ADDR_MASK) OR USER_PAGE)"
proof -
  have f: "f AND PAGE_ADDR_MASK = f" using entry_frame(1) [OF assms, of 0] by simp
  have t: "take_bit 12 (7 :: u64) = 7" by simp
  have seven: "USER_PAGE = (7 :: u64)" by simp
  show "page_frame ((f AND PAGE_ADDR_MASK) OR USER_PAGE) = f" unfolding f seven page_frame_def by (rule entry_frame(1) [OF assms t])
  show "present ((f AND PAGE_ADDR_MASK) OR USER_PAGE)" unfolding f seven present_def page_flag_bits by (simp add: bit_or_iff)
qed

text \<open>A frame that was free holds the bytes \<open>g\<close> now; nothing else changed.\<close>

definition filled :: "paging \<Rightarrow> nat \<Rightarrow> (nat \<Rightarrow> u8) \<Rightarrow> paging \<Rightarrow> bool" where
  "filled s k g s' \<longleftrightarrow> k < 1024 \<and> ref s k = 0 \<and> frames_inv s' \<and> phys_pool_base s' = phys_pool_base s \<and> (\<forall>l < 1024. ref s' l = (if l = k then 1 else ref s l))
     \<and> (\<forall>a. frame_of a \<noteq> fr s k \<longrightarrow> pg_mem s' a = pg_mem s a) \<and> (\<forall>i < 512. pg_mem s' (ent (fr s k) i) = bytes_word (\<lambda>b. g (8 * i + b)))"

lemma filledD:
  assumes "filled s k g s'"
  shows "k < 1024" "ref s k = 0" "frames_inv s'" "phys_pool_base s' = phys_pool_base s" "l < 1024 \<Longrightarrow> ref s' l = (if l = k then 1 else ref s l)"
    "frame_of a \<noteq> fr s k \<Longrightarrow> pg_mem s' a = pg_mem s a" "i < 512 \<Longrightarrow> pg_mem s' (ent (fr s k) i) = bytes_word (\<lambda>b. g (8 * i + b))"
  using assms unfolding filled_def by blast+

lemma new_page_filled:
  assumes inv: "frames_inv s" and room: "free_frames s \<noteq> {}"
  obtains k s' where "map_new_page d va g fl s = (True, paging_map_4k d va (fr s k) fl s')" "filled s k g s'"
proof -
  obtain n where n: "n < 1024" "ref s n = 0" using room by (auto simp: free_frames_def)
  obtain k s1 where k: "frame_alloc s = (fr s k, s1)" "k < 1024" "fr s k \<noteq> 0" "ref s k = 0" "frame_refcount s1 = (frame_refcount s)[k := 1]"
    "phys_pool_base s1 = phys_pool_base s" "pg_mem s1 = zero_frame (fr s k) (pg_mem s)" "frames_inv s1" using frame_alloc_free [OF inv n] by metis
  let ?s' = "s1\<lparr>pg_mem := fill_frame (fr s k) g (pg_mem s1)\<rparr>"
  have b: "base_ok s" "length (frame_refcount s) = 1024" using inv by (simp_all add: frames_inv_def)
  have "frames_inv ?s'" using k(8) by (simp add: frames_inv_def base_ok_def fr_def)
  moreover have "ref ?s' l = (if l = k then 1 else ref s l)" if "l < 1024" for l using that k(2,5) b(2) by (simp add: ref_def nth_list_update)
  moreover have "aligned (fr s k)" using fr_aligned [OF b(1), of k] k(2) by simp
  ultimately have "filled s k g ?s'" using k(2,4,6,7) fill_frame_ent by (simp add: filled_def) (simp add: fill_frame_def zero_frame_def)
  then show thesis using that [of k ?s'] k(1,3) by (simp add: map_new_page_def)
qed

lemma filled_space:
  assumes f: "filled s k g s'" and inv: "frames_inv s" and ok: "space_ok s A"
  shows "\<not> live s (fr s k)" "live s' (fr s k)" "live s h \<Longrightarrow> live s' h" "space_ok s' A" "user_slot i \<Longrightarrow> j < 512 \<Longrightarrow> pte s' A i j = pte s A i j"
    "Suc (card (free_frames s')) = card (free_frames s)"
proof -
  note d = filledD [OF f]
  have fr: "fr s' = fr s" using fr_base [OF d(4)] .
  show dead: "\<not> live s (fr s k)" using live_fr [OF inv d(1)] d(2) by simp
  show "live s' (fr s k)" using live_fr [OF d(3,1)] d(5) [OF d(1)] fr by simp
  show keep: "live s h \<Longrightarrow> live s' h" for h by (rule live_ref_cong [OF d(4)]) (use d(5) in auto)
  have "pg_mem s' (ent h m) = pg_mem s (ent h m)" if "h \<in> tables A" "m < 512" for h m
    using d(6) [of "ent h m"] slot_table_frame(3) [OF inv ok that] dead space_okD(2) [OF ok that(1)] by auto
  from space_cong [OF ok _ this] show "space_ok s' A" "user_slot i \<Longrightarrow> j < 512 \<Longrightarrow> pte s' A i j = pte s A i j" using keep space_okD(2) [OF ok] by blast+
  have "free_frames s' = free_frames s - {k}" using d(1,5) by (auto simp: free_frames_def split: if_splits)
  then show "Suc (card (free_frames s')) = card (free_frames s)" using card_Suc_Diff1 [OF finite_sets(1), of k s] d(1,2) by (simp add: free_frames_def)
qed

text \<open>A page that the loader maps: in a frame that was free, perhaps through a table that was free.\<close>

lemma filled_mapped:
  assumes own: "owns s A" and ij: "user_slot i" "j < 512" and f: "filled s k g s2"
    and pm: "page_mapped s2 A i j ((fr s k AND PAGE_ADDR_MASK) OR USER_PAGE) s' A' t"
  shows "owns s' A'" "\<And>va. user_va va \<Longrightarrow> view s' (sp_d A) va = (if vslot va = i \<and> vpage va = j then Some (bytes_word (\<lambda>b. g (8 * voff va + b))) else view s (sp_d A) va)"
    "\<And>h. live s h \<Longrightarrow> live s' h" "\<And>a. live s (frame_of a) \<Longrightarrow> frame_of a \<notin> tables A \<Longrightarrow> pg_mem s' a = pg_mem s a" "card (free_frames s) \<le> card (free_frames s') + 2"
proof -
  have o: "frames_inv s" "space_ok s A" "inj_on (frame_at s A) (user_pages s A)" "\<And>x. x \<in> user_pages s A \<Longrightarrow> frame_at s A x \<notin> tables A" "\<And>x. x \<in> user_pages s A \<Longrightarrow> live s (frame_at s A x)"
    using own unfolding owns_def by blast+
  note d = filledD [OF f] and fs = filled_space [OF f o(1,2)]
  note q = page_mappedD [OF pm] and pf = page_mapped_frames [OF d(3) pm ij(1)]
  let ?f = "fr s k"
  have al: "aligned ?f" "unat ?f < 2 ^ 48" using live_frame(1,2) [OF d(3) fs(2)] by simp_all
  define v where "v = (?f AND PAGE_ADDR_MASK) OR USER_PAGE"
  note e = user_entry_frame [OF al, folded v_def]
  have tt: "t \<in> tables A \<or> \<not> live s2 t" using pm pf(4) ij(1) by (auto simp: page_mapped_def tables_def)
  have nt: "h \<noteq> t" if "live s2 h" "h \<notin> tables A" for h using that tt by blast
  have fn: "?f \<notin> insert t (tables A)" using fs(1,2) space_okD(2) [OF o(2)] nt by blast
  have pte: "pte s' A' l m = (if l = i \<and> m = j then v else pte s A l m)" if "user_slot l" "m < 512" for l m
    using q(5) [folded v_def] q(6) [OF that] fs(5) [OF that] by auto
  have pages: "user_pages s' A' = insert (i, j) (user_pages s A)" using pte ij e(2) by (auto simp: user_pages_def split: if_splits)
  have at: "frame_at s' A' x = (if x = (i, j) then ?f else frame_at s A x)" if "x \<in> insert (i, j) (user_pages s A)" for x
    using that pte [of "fst x" "snd x"] ij e(1) by (cases x) (auto simp: frame_at_def user_pages_def)
  show live: "\<And>h. live s h \<Longrightarrow> live s' h" using fs(3) pf(3) by blast
  have out: "frame_at s A x \<notin> insert t (tables A)" "frame_at s A x \<noteq> ?f" if "x \<in> user_pages s A" for x using nt [OF fs(3) [OF o(5) [OF that]] o(4) [OF that]] o(4,5) [OF that] fs(1) by auto
  show "owns s' A'"
    unfolding owns_def pages pf(5)
  proof (intro conjI ballI inj_onI)
    show "frame_at s' A' x \<notin> insert t (tables A)" "live s' (frame_at s' A' x)" if "x \<in> insert (i, j) (user_pages s A)" for x
      using at [OF that] that out fn live o(5) pf(3) [OF fs(2)] by (auto split: if_splits)
    show "x = y" if "x \<in> insert (i, j) (user_pages s A)" "y \<in> insert (i, j) (user_pages s A)" "frame_at s' A' x = frame_at s' A' y" for x y
      using that at [OF that(1)] at [OF that(2)] out(2) inj_onD [OF o(3)] by (metis insertE)
  qed (use q(2,3) in simp_all)
  show mem: "pg_mem s' a = pg_mem s a" if "live s (frame_of a)" "frame_of a \<notin> tables A" for a
    using q(7) [of a] d(6) [of a] nt [OF fs(3) [OF that(1)] that(2)] that fs(1) by metis
  have new: "pg_mem s' (ent ?f m) = bytes_word (\<lambda>b. g (8 * m + b))" if "m < 512" for m using q(7) [of "ent ?f m"] frame_of_ent [OF al(1) that] fn d(7) [OF that] by auto
  show "view s' (sp_d A) va = (if vslot va = i \<and> vpage va = j then Some (bytes_word (\<lambda>b. g (8 * voff va + b))) else view s (sp_d A) va)" if va: "user_va va" for va
  proof -
    note w = user_vaD [OF va]
    have "pg_mem s' (ent (frame_at s A (vslot va, vpage va)) (voff va)) = pg_mem s (ent (frame_at s A (vslot va, vpage va)) (voff va))" if "(vslot va, vpage va) \<in> user_pages s A"
      using mem [of "ent (frame_at s A (vslot va, vpage va)) (voff va)"] frame_of_ent [OF live_frame(1) [OF o(1) o(5) [OF that]] w(3)] o(4,5) [OF that] by simp
    then show ?thesis using view_space [OF q(3,2) va] view_space [OF o(1,2) va] pte [OF w(1,2)] e new [OF w(3)] w(1,2) q(1) by (auto simp: Let_def user_pages_def frame_at_def)
  qed
  have "card (free_frames s2) \<le> Suc (card (free_frames s'))"
  proof -
    have "card {l. l < 1024 \<and> t = fr s2 l} \<le> 1" using fr_inj [of s2] d(3) by (auto simp: card_le_Suc0_iff_eq frames_inv_def)
    moreover have "free_frames s2 \<subseteq> free_frames s' \<union> {l. l < 1024 \<and> t = fr s2 l}" unfolding pf(6) by (auto simp: free_frames_def)
    then have "card (free_frames s2) \<le> card (free_frames s' \<union> {l. l < 1024 \<and> t = fr s2 l})" by (rule card_mono [rotated]) (simp add: finite_sets(1))
    moreover note card_Un_le [of "free_frames s'" "{l. l < 1024 \<and> t = fr s2 l}"]
    ultimately show ?thesis by simp
  qed
  then show "card (free_frames s) \<le> card (free_frames s') + 2" using fs(6) by simp
qed

lemma map_new_page_step:
  assumes own: "owns s A" and ij: "user_slot i" "j < 512" and room: "2 \<le> card (free_frames s)"
  obtains s' A' where "map_new_page (sp_d A) (page_va i j) g USER_PAGE s = (True, s')" "owns s' A'" "sp_d A' = sp_d A" "card (free_frames s) \<le> card (free_frames s') + 2"
    "\<And>va. user_va va \<Longrightarrow> view s' (sp_d A) va = (if vslot va = i \<and> vpage va = j then Some (bytes_word (\<lambda>b. g (8 * voff va + b))) else view s (sp_d A) va)"
proof -
  have o: "frames_inv s" "space_ok s A" using own unfolding owns_def by blast+
  have ne: "free_frames s \<noteq> {}" using room by auto
  obtain k s2 where k: "map_new_page (sp_d A) (page_va i j) g USER_PAGE s = (True, paging_map_4k (sp_d A) (page_va i j) (fr s k) USER_PAGE s2)" "filled s k g s2"
    by (rule new_page_filled [OF o(1) ne])
  note fs = filled_space [OF k(2) o]
  have "free_frames s2 \<noteq> {}" using fs(6) room by auto
  then have "\<exists>n < 1024. ref s2 n = 0" by (auto simp: free_frames_def)
  then obtain A' t where pm: "page_mapped s2 A i j ((fr s k AND PAGE_ADDR_MASK) OR USER_PAGE) (paging_map_4k (sp_d A) (page_va i j) (fr s k) USER_PAGE s2) A' t"
    using map_4k_space [OF filledD(3) [OF k(2)] fs(4) ij, of "fr s k" USER_PAGE] by metis
  note m = filled_mapped [OF own ij k(2) pm]
  show thesis using that [OF k(1) m(1) _ m(5,2)] page_mappedD(1) [OF pm] by simp
qed

section \<open>Segments\<close>

lemma page_base: "unat va mod 4096 = 0 \<Longrightarrow> unat va = unat va div 4096 * 4096"
  using div_mult_mod_eq [of "unat va" 4096] by simp

lemma same_page_div:
  assumes "unat va mod 4096 = 0"
  shows "unat a div 4096 = unat va div 4096 \<longleftrightarrow> unat va \<le> unat a \<and> unat a < unat va + 4096"
proof
  assume "unat a div 4096 = unat va div 4096"
  then show "unat va \<le> unat a \<and> unat a < unat va + 4096"
    using page_base [OF assms] div_mult_mod_eq [of "unat a" 4096] mod_less_divisor [of 4096 "unat a"] by linarith
next
  assume r: "unat va \<le> unat a \<and> unat a < unat va + 4096"
  then obtain k where k: "unat a = unat va + k" "k < 4096" by (metis le_iff_add nat_add_left_cancel_less)
  obtain q where "unat va = 4096 * q" using assms by auto
  then show "unat a div 4096 = unat va div 4096" using k by simp
qed

lemma digits: "p < 512 \<Longrightarrow> q < 512 \<Longrightarrow> x * 512 + p = y * 512 + q \<longleftrightarrow> x = y \<and> p = q" for p q x y :: nat
  by (metis add.commute add_diff_cancel_left' div_less div_mult_self3 add_0 zero_neq_numeral)

lemma same_page:
  assumes "unat va mod 4096 = 0"
  shows "vslot a = vslot va \<and> vpage a = vpage va \<longleftrightarrow> unat va \<le> unat a \<and> unat a < unat va + 4096"
proof -
  have d: "unat x div 4096 = vslot x * 512 + vpage x" for x
    using div_mult_mod_eq [of "unat x div 4096" 512] by (simp add: vslot_def vpage_def div_mult2_eq [symmetric])
  have "vpage a < 512" "vpage va < 512" by (simp_all add: vpage_def)
  then have "vslot a = vslot va \<and> vpage a = vpage va \<longleftrightarrow> unat a div 4096 = unat va div 4096" unfolding d using digits by simp
  then show ?thesis using same_page_div [OF assms] by blast
qed

lemma page_offset:
  assumes "user_va a" "unat va mod 4096 = 0" "unat va \<le> unat a" "unat a < unat va + 4096"
  shows "a = va + of_nat (8 * voff a)"
proof (rule word_unat_eq_iff [THEN iffD2])
  have "unat a mod 8 = 0" using assms(1) by (simp add: user_va_def)
  then have e: "unat a mod 4096 = 8 * voff a" using mod_mod_cancel [of 8 4096 "unat a"] div_mult_mod_eq [of "unat a mod 4096" 8] by (simp add: voff_def)
  have "unat a div 4096 = unat va div 4096" using same_page_div [OF assms(2)] assms(3,4) by blast
  then have "unat a = unat va + 8 * voff a" using e page_base [OF assms(2)] div_mult_mod_eq [of "unat a" 4096] by linarith
  then show "unat a = unat (va + of_nat (8 * voff a))" using unsigned_less [of a, where ?'a = nat] by (simp add: unat_word_ariths unat_of_nat take_bit_nat_def)
qed

text \<open>A run of pages: afterwards the words of the run are those of \<open>g\<close>, all others are as before.\<close>

lemma map_new_pages_view:
  assumes "owns s A" "2 * n \<le> card (free_frames s)" "unat va mod 4096 = 0" "0x8000000 \<le> unat va" "unat va + 4096 * n \<le> 0x40000000"
  shows "\<exists>s' A'. map_new_pages n (sp_d A) va g s = (True, s') \<and> owns s' A' \<and> sp_d A' = sp_d A \<and> card (free_frames s) \<le> card (free_frames s') + 2 * n
    \<and> (\<forall>a. user_va a \<longrightarrow> view s' (sp_d A) a = (if unat va \<le> unat a \<and> unat a < unat va + 4096 * n then Some (bytes_word (\<lambda>b. g (a + of_nat b))) else view s (sp_d A) a))"
  using assms
proof (induction n arbitrary: s A va)
  case 0
  then show ?case by auto
next
  case (Suc n)
  have va: "user_va va" using Suc.prems(3-5) mod_mod_cancel [of 8 4096 "unat va"] by (simp add: user_va_def word_le_nat_alt word_less_nat_alt)
  note pv = page_va_of [OF va Suc.prems(3)] and v = user_vaD [OF va]
  have room: "2 \<le> card (free_frames s)" using Suc.prems(2) by simp
  obtain s1 A1 where s1: "map_new_page (sp_d A) (page_va (vslot va) (vpage va)) (\<lambda>b. g (va + of_nat b)) USER_PAGE s = (True, s1)" "owns s1 A1" "sp_d A1 = sp_d A"
    "card (free_frames s) \<le> card (free_frames s1) + 2"
    "\<And>a. user_va a \<Longrightarrow> view s1 (sp_d A) a = (if vslot a = vslot va \<and> vpage a = vpage va then Some (bytes_word (\<lambda>b. g (va + of_nat (8 * voff a + b)))) else view s (sp_d A) a)"
    by (rule map_new_page_step [OF Suc.prems(1) v(1,2) room, where g = "\<lambda>b. g (va + of_nat b)"]) blast
  have nx: "unat (va + 4096) = unat va + 4096" using Suc.prems(5) by (simp add: unat_word_ariths)
  have c: "2 * n \<le> card (free_frames s1)" "unat (va + 4096) mod 4096 = 0" "0x8000000 \<le> unat (va + 4096)" "unat (va + 4096) + 4096 * n \<le> 0x40000000"
    using Suc.prems(2-5) s1(4) nx by simp_all
  obtain s' A' where s': "map_new_pages n (sp_d A) (va + 4096) g s1 = (True, s')" "owns s' A'" "sp_d A' = sp_d A" "card (free_frames s1) \<le> card (free_frames s') + 2 * n"
    "\<And>a. user_va a \<Longrightarrow> view s' (sp_d A) a = (if unat va + 4096 \<le> unat a \<and> unat a < unat va + 4096 + 4096 * n then Some (bytes_word (\<lambda>b. g (a + of_nat b))) else view s1 (sp_d A) a)"
    using Suc.IH [OF s1(2) c] unfolding s1(3) nx by blast
  have "view s' (sp_d A) a = (if unat va \<le> unat a \<and> unat a < unat va + 4096 * Suc n then Some (bytes_word (\<lambda>b. g (a + of_nat b))) else view s (sp_d A) a)" if a: "user_va a" for a
  proof (cases "unat va \<le> unat a \<and> unat a < unat va + 4096")
    case True
    have po: "va + of_nat (8 * voff a) = a" using page_offset [OF a Suc.prems(3)] True by simp
    have "va + of_nat (8 * voff a + b) = a + of_nat b" for b unfolding of_nat_add add.assoc [symmetric] po by (rule refl)
    then have "(\<lambda>b. g (va + of_nat (8 * voff a + b))) = (\<lambda>b. g (a + of_nat b))" by (intro ext) (simp only:)
    then show ?thesis using s'(5) [OF a] s1(5) [OF a] same_page [OF Suc.prems(3), of a] True by simp
  next
    case False
    then show ?thesis using s'(5) [OF a] s1(5) [OF a] same_page [OF Suc.prems(3), of a] by auto
  qed
  then show ?case using s1(1,4) s'(1-4) pv by (intro exI [of _ s'] exI [of _ A']) simp
qed

lemma map_new_pages_bytes:
  assumes "owns s A" "2 * n \<le> card (free_frames s)" "unat va mod 4096 = 0" "0x8000000 \<le> unat va" "unat va + 4096 * n \<le> 0x40000000"
  obtains s' A' where "map_new_pages n (sp_d A) va g s = (True, s')" "owns s' A'" "sp_d A' = sp_d A" "card (free_frames s) \<le> card (free_frames s') + 2 * n"
    "\<And>a. user_addr a \<Longrightarrow> user_byte (sp_d A) s' a = (if unat va \<le> unat a \<and> unat a < unat va + 4096 * n then Some (g a) else user_byte (sp_d A) s a)"
proof -
  obtain s' A' where s': "map_new_pages n (sp_d A) va g s = (True, s')" "owns s' A'" "sp_d A' = sp_d A" "card (free_frames s) \<le> card (free_frames s') + 2 * n"
    "\<And>a. user_va a \<Longrightarrow> view s' (sp_d A) a = (if unat va \<le> unat a \<and> unat a < unat va + 4096 * n then Some (bytes_word (\<lambda>b. g (a + of_nat b))) else view s (sp_d A) a)"
    using map_new_pages_view [OF assms] by blast
  obtain q where q: "unat va = 4096 * q" using assms(3) by auto
  have "user_byte (sp_d A) s' a = (if unat va \<le> unat a \<and> unat a < unat va + 4096 * n then Some (g a) else user_byte (sp_d A) s a)" if a: "user_addr a" for a
  proof -
    have mult: "8 * k \<le> unat a div 8 * 8 \<longleftrightarrow> 8 * k \<le> unat a" for k
      using less_eq_div_iff_mult_less_eq [of 8 k "unat a"] by (simp add: mult.commute)
    have "unat va \<le> unat (word_at a) \<longleftrightarrow> unat va \<le> unat a" "unat (word_at a) < unat va + 4096 * n \<longleftrightarrow> unat a < unat va + 4096 * n"
      using mult [of "512 * q"] mult [of "512 * q + 512 * n"] by (simp_all add: q unat_masks not_le [symmetric])
    moreover have "word_at a + of_nat (unat a mod 8) = a"
      by (rule word_unat_eq_iff [THEN iffD2]) (use unsigned_less [of a, where ?'a = nat] in \<open>simp add: unat_word_ariths unat_of_nat unat_masks take_bit_nat_def\<close>)
    ultimately show ?thesis using s'(5) [OF user_addr_word(1) [OF a]] by (simp add: user_byte_view [OF a] word_byte_bytes_word)
  qed
  then show thesis using that s'(1-4) by blast
qed

text \<open>
  The image of a program: the byte at an address is the one of the last segment whose pages cover the address; a segment
  has the bytes of the file from its offset on, and zeros behind them and around it.
\<close>

definition load_seg :: "Elf64_Phdr \<Rightarrow> bool" where
  "load_seg ph \<longleftrightarrow> p_type ph = 1 \<and> p_memsz ph \<noteq> 0"

definition covers :: "Elf64_Phdr \<Rightarrow> u64 \<Rightarrow> bool" where
  "covers ph a \<longleftrightarrow> load_seg ph \<and> unat (p_vaddr ph) div 4096 \<le> unat a div 4096 \<and> unat a div 4096 \<le> (unat (p_vaddr ph) + unat (p_memsz ph) - 1) div 4096"

definition prescribed :: "bytes \<Rightarrow> nat \<Rightarrow> Elf64_Phdr \<Rightarrow> u64 \<Rightarrow> u8" where
  "prescribed buf file_size ph a =
     (let k = unat a - unat (p_vaddr ph); pos = unat (p_offset ph) + k in
      if unat (p_vaddr ph) \<le> unat a \<and> k < min (unat (p_filesz ph)) (unat (p_memsz ph)) \<and> pos < file_size then buf ! pos else 0)"

definition program_image :: "bytes \<Rightarrow> nat \<Rightarrow> Elf64_Phdr list \<Rightarrow> u64 \<Rightarrow> u8 option \<Rightarrow> u8 option" where
  "program_image buf file_size phs a = fold (\<lambda>ph v. if covers ph a then Some (prescribed buf file_size ph a) else v) phs"

text \<open>A segment in the user range, and the pages it needs.\<close>

definition seg_fits :: "Elf64_Phdr \<Rightarrow> bool" where
  "seg_fits ph \<longleftrightarrow> (load_seg ph \<longrightarrow> 0x8000000 \<le> unat (p_vaddr ph) \<and> unat (p_vaddr ph) + unat (p_memsz ph) \<le> 0x40000000
     \<and> unat (p_offset ph) + unat (p_memsz ph) < 2 ^ 64)"

definition seg_pages :: "Elf64_Phdr \<Rightarrow> nat" where
  "seg_pages ph = (if load_seg ph then pages_between (page_down (p_vaddr ph)) (page_up (p_vaddr ph + p_memsz ph)) else 0)"

lemma seg_range:
  assumes "seg_fits ph" "load_seg ph"
  defines "start \<equiv> page_down (p_vaddr ph)" and "stop \<equiv> page_up (p_vaddr ph + p_memsz ph)"
  shows "unat start mod 4096 = 0" "0x8000000 \<le> unat start" "unat stop \<le> 0x40000000" "unat start + 4096 * seg_pages ph = unat stop"
    "covers ph a \<longleftrightarrow> unat start \<le> unat a \<and> unat a < unat stop"
proof -
  let ?v = "unat (p_vaddr ph)" and ?m = "unat (p_memsz ph)"
  have b: "0x8000000 \<le> ?v" "?v + ?m \<le> 0x40000000" "0 < ?m" using assms(1,2) by (simp_all add: seg_fits_def load_seg_def unat_gt_0)
  have f: "unat start = ?v div 4096 * 4096" unfolding start_def page_down_def frame_of_def [symmetric] by (rule unat_frame_of)
  have "unat (p_vaddr ph + p_memsz ph + 0xFFF) = ?v + ?m + 4095" using b(2) by (simp add: unat_word_ariths)
  then have l: "unat stop = (?v + ?m + 4095) div 4096 * 4096" unfolding stop_def page_up_def frame_of_def [symmetric] unat_frame_of by simp
  show "unat start mod 4096 = 0" using f by simp
  show "0x8000000 \<le> unat start" using div_le_mono [OF b(1), of 4096] f by simp
  have "(?v + ?m + 4095) div 4096 \<le> (0x40000000 + 4095) div 4096" using b(2) by (intro div_le_mono) simp
  then show "unat stop \<le> 0x40000000" using l by simp
  have "?v div 4096 < (?v + ?m + 4095) div 4096"
  proof -
    have "(?v + 4096) div 4096 \<le> (?v + ?m + 4095) div 4096" using b(3) by (intro div_le_mono) simp
    then show ?thesis by simp
  qed
  then have lt: "unat start < unat stop" using f l by simp
  then have "unat (stop - start) = unat stop - unat start" by (simp add: unat_sub word_le_nat_alt)
  then have "seg_pages ph = (unat stop - unat start) div 4096" using lt assms(2) by (simp add: seg_pages_def pages_between_def start_def stop_def word_less_nat_alt)
  also have "\<dots> = (?v + ?m + 4095) div 4096 - ?v div 4096" unfolding f l diff_mult_distrib [symmetric] by simp
  finally show "unat start + 4096 * seg_pages ph = unat stop" using f l lt by (simp add: diff_mult_distrib2)
  obtain n where n: "?m = Suc n" using b(3) gr0_implies_Suc by blast
  have "?v + ?m + 4095 = ?v + n + 4096" using n by simp
  then have "(?v + ?m + 4095) div 4096 = Suc ((?v + ?m - 1) div 4096)" using n by simp
  then have "unat a div 4096 \<le> (?v + ?m - 1) div 4096 \<longleftrightarrow> unat a < unat stop"
    unfolding l less_Suc_eq_le [symmetric] using div_less_iff_less_mult [of 4096 "unat a" "(?v + ?m + 4095) div 4096"] by simp
  moreover have "?v div 4096 \<le> unat a div 4096 \<longleftrightarrow> unat start \<le> unat a" unfolding f by (rule less_eq_div_iff_mult_less_eq) simp
  ultimately show "covers ph a \<longleftrightarrow> unat start \<le> unat a \<and> unat a < unat stop" using assms(2) by (simp only: covers_def simp_thms)
qed

text \<open>The loader computes the prescribed byte with words of 64 bits.\<close>

lemma seg_byte_prescribed:
  assumes "seg_fits ph" "load_seg ph"
  shows "seg_byte buf file_size ph a = prescribed buf (unat file_size) ph a"
proof -
  let ?v = "unat (p_vaddr ph)" and ?m = "unat (p_memsz ph)" and ?o = "unat (p_offset ph)"
  have b: "?v + ?m \<le> 0x40000000" "?o + ?m < 2 ^ 64" using assms by (simp_all add: seg_fits_def)
  have e: "unat (p_vaddr ph + p_memsz ph) = ?v + ?m" using b(1) by (simp add: unat_word_ariths)
  show ?thesis
  proof (cases "?v \<le> unat a \<and> unat a < ?v + ?m")
    case True
    have d: "unat (a - p_vaddr ph) = unat a - ?v" using True by (simp add: unat_sub word_le_nat_alt)
    have "?o + (unat a - ?v) < 2 ^ 64" using True b(2) by linarith
    then have "unat (p_offset ph + (a - p_vaddr ph)) = ?o + (unat a - ?v)" by (simp add: unat_word_ariths d)
    moreover have "unat a - ?v < ?m" using True by linarith
    ultimately show ?thesis using True d e by (simp add: seg_byte_def prescribed_def Let_def word_le_nat_alt word_less_nat_alt not_less not_le)
  next
    case False
    then have "unat a < ?v \<or> ?v + ?m \<le> unat a" by linarith
    then show ?thesis using e by (auto simp: seg_byte_def prescribed_def Let_def word_le_nat_alt word_less_nat_alt)
  qed
qed

lemma load_segments_image:
  assumes "owns s A" "\<forall>l < k. \<exists>ph. phdr_at buf off (i + l) = Some ph \<and> seg_fits ph"
    and "2 * (\<Sum>l < k. seg_pages (the (phdr_at buf off (i + l)))) \<le> card (free_frames s)"
  shows "\<exists>brk' s' A'. load_segments k i off buf file_size (sp_d A) brk s = LoadOk brk' s' \<and> owns s' A' \<and> sp_d A' = sp_d A
    \<and> card (free_frames s) \<le> card (free_frames s') + 2 * (\<Sum>l < k. seg_pages (the (phdr_at buf off (i + l))))
    \<and> (\<forall>a. user_addr a \<longrightarrow> user_byte (sp_d A) s' a = program_image buf (unat file_size) (map (\<lambda>l. the (phdr_at buf off l)) [i..<i + k]) a (user_byte (sp_d A) s a))"
  using assms
proof (induction k arbitrary: i brk s A)
  case 0
  then show ?case by (auto simp: program_image_def)
next
  case (Suc k)
  obtain ph where ph: "phdr_at buf off i = Some ph" "seg_fits ph" using Suc.prems(2) by (metis add.right_neutral zero_less_Suc)
  let ?sum = "\<lambda>i k. \<Sum>l < k. seg_pages (the (phdr_at buf off (i + l)))"
  have sum: "?sum i (Suc k) = seg_pages ph + ?sum (Suc i) k" using ph(1) by (subst sum.lessThan_Suc_shift) simp
  have upt: "[i..<i + Suc k] = i # [Suc i..<Suc i + k]" by (simp add: upt_conv_Cons)
  have rest: "\<forall>l < k. \<exists>ph. phdr_at buf off (Suc i + l) = Some ph \<and> seg_fits ph" using Suc.prems(2) by (metis Suc_less_eq add_Suc_shift)
  have img: "program_image buf (unat file_size) (map (\<lambda>l. the (phdr_at buf off l)) [i..<i + Suc k]) a v
      = program_image buf (unat file_size) (map (\<lambda>l. the (phdr_at buf off l)) [Suc i..<Suc i + k]) a (if covers ph a then Some (prescribed buf (unat file_size) ph a) else v)" for a v
    unfolding upt by (simp add: program_image_def ph(1) del: upt_Suc)
  show ?case
  proof (cases "load_seg ph")
    case False
    then have z: "seg_pages ph = 0" "\<not> covers ph a" for a by (simp_all add: seg_pages_def covers_def)
    have "load_segments (Suc k) i off buf file_size (sp_d A) brk s = load_segments k (Suc i) off buf file_size (sp_d A) brk s"
      using False ph(1) by (simp add: load_seg_def)
    moreover have "2 * ?sum (Suc i) k \<le> card (free_frames s)" using Suc.prems(3) sum z(1) by simp
    ultimately show ?thesis using Suc.IH [OF Suc.prems(1) rest, of brk] sum z unfolding img by simp
  next
    case True
    let ?va = "page_down (p_vaddr ph)" and ?stop = "page_up (p_vaddr ph + p_memsz ph)"
    note r = seg_range [OF ph(2) True]
    have n: "pages_between ?va ?stop = seg_pages ph" using True by (simp add: seg_pages_def)
    have rr: "2 * seg_pages ph \<le> card (free_frames s)" "unat ?va + 4096 * seg_pages ph \<le> 0x40000000" using Suc.prems(3) sum r(3,4) by simp_all
    obtain s1 A1 where s1: "map_new_pages (seg_pages ph) (sp_d A) ?va (seg_byte buf file_size ph) s = (True, s1)" "owns s1 A1" "sp_d A1 = sp_d A"
      "card (free_frames s) \<le> card (free_frames s1) + 2 * seg_pages ph"
      "\<And>a. user_addr a \<Longrightarrow> user_byte (sp_d A) s1 a = (if unat ?va \<le> unat a \<and> unat a < unat ?va + 4096 * seg_pages ph then Some (seg_byte buf file_size ph a) else user_byte (sp_d A) s a)"
      by (rule map_new_pages_bytes [OF Suc.prems(1) rr(1) r(1,2) rr(2), where g = "seg_byte buf file_size ph"]) blast
    let ?brk = "if ?stop > brk then ?stop else brk"
    have step: "load_segments (Suc k) i off buf file_size (sp_d A) brk s = load_segments k (Suc i) off buf file_size (sp_d A) ?brk s1"
      using True ph(1) s1(1) n by (simp add: load_seg_def Let_def)
    have room: "2 * ?sum (Suc i) k \<le> card (free_frames s1)" using Suc.prems(3) sum s1(4) by simp
    have cov: "user_byte (sp_d A) s1 a = (if covers ph a then Some (prescribed buf (unat file_size) ph a) else user_byte (sp_d A) s a)" if "user_addr a" for a
      using s1(5) [OF that] r(4,5) by (simp add: seg_byte_prescribed [OF ph(2) True])
    obtain brk' s' A' where "load_segments k (Suc i) off buf file_size (sp_d A) ?brk s1 = LoadOk brk' s'" "owns s' A'" "sp_d A' = sp_d A"
      "card (free_frames s1) \<le> card (free_frames s') + 2 * ?sum (Suc i) k"
      "\<And>a. user_addr a \<Longrightarrow> user_byte (sp_d A) s' a = program_image buf (unat file_size) (map (\<lambda>l. the (phdr_at buf off l)) [Suc i..<Suc i + k]) a (user_byte (sp_d A) s1 a)"
      using Suc.IH [OF s1(2) rest room, of ?brk] unfolding s1(3) by blast
    then show ?thesis unfolding img step using cov s1(4) sum by (intro exI [of _ brk'] exI [of _ s'] exI [of _ A']) (simp del: upt_Suc)
  qed
qed

section \<open>The new program\<close>

definition program_headers :: "bytes \<Rightarrow> Elf64_Phdr list" where
  "program_headers buf = map (\<lambda>l. the (phdr_at buf (e_phoff (ehdr_of buf)) l)) [0..<unat (e_phnum (ehdr_of buf))]"

text \<open>The memory of a program at its start: the pages of its segments, and 16 kB of zeros for the stack.\<close>

definition program_byte :: "bytes \<Rightarrow> nat \<Rightarrow> u64 \<Rightarrow> u8 option" where
  "program_byte buf file_size a = (if USER_STACK_TOP - USER_STACK_SIZE \<le> a \<and> a < USER_STACK_TOP then Some 0 else program_image buf file_size (program_headers buf) a None)"

text \<open>A file the loader accepts: an executable whose headers are in the buffer and whose segments are in the user range.\<close>

definition program_ok :: "bytes \<Rightarrow> bool" where
  "program_ok buf \<longleftrightarrow> exec_header_ok (ehdr_of buf) \<and> (\<forall>l < unat (e_phnum (ehdr_of buf)). \<exists>ph. phdr_at buf (e_phoff (ehdr_of buf)) l = Some ph \<and> seg_fits ph)"

definition program_pages :: "bytes \<Rightarrow> nat" where
  "program_pages buf = (\<Sum>l < unat (e_phnum (ehdr_of buf)). seg_pages (the (phdr_at buf (e_phoff (ehdr_of buf)) l)))"

text \<open>The pool of frames stays where it is.\<close>

lemma pool_base_same [simp]: "phys_pool_base (snd (frame_alloc s)) = phys_pool_base s" "phys_pool_base (snd (paging_next_level t i f s)) = phys_pool_base s"
  "phys_pool_base (paging_map_4k d va ph f s) = phys_pool_base s" "phys_pool_base (snd (map_new_page d va g fl s)) = phys_pool_base s"
proof -
  show a: "phys_pool_base (snd (frame_alloc s)) = phys_pool_base s" for s
    by (simp add: frame_alloc_def frame_claim_def Let_def split: list.split option.split)
  show b: "phys_pool_base (snd (paging_next_level t i f s)) = phys_pool_base s" for t i f s by (simp add: paging_next_level_def Let_def split_beta a)
  show c: "phys_pool_base (paging_map_4k d va ph f s) = phys_pool_base s" for d va ph f s by (simp add: paging_map_4k_def split_beta b)
  show "phys_pool_base (snd (map_new_page d va g fl s)) = phys_pool_base s" by (simp add: map_new_page_def split_beta a c)
qed

lemma pool_base_pages: "map_new_pages n d va g s = (ok, s') \<Longrightarrow> phys_pool_base s' = phys_pool_base s"
proof (induction n arbitrary: va s)
  case (Suc n)
  obtain b s1 where s1: "map_new_page d va (\<lambda>b. g (va + of_nat b)) USER_PAGE s = (b, s1)" by fastforce
  then have "phys_pool_base s1 = phys_pool_base s" using pool_base_same(4) [of d va "\<lambda>b. g (va + of_nat b)" USER_PAGE s] by simp
  then show ?case using Suc s1 by (auto split: if_splits)
qed simp

lemma pool_base_segments: "load_segments k i off buf file_size d brk s = LoadOk brk' s' \<Longrightarrow> phys_pool_base s' = phys_pool_base s"
  by (induction k i off buf file_size d brk s rule: load_segments.induct) (auto simp: Let_def dest: pool_base_pages split: option.splits if_splits prod.splits)

lemma created_empty:
  assumes "created s B s1"
  shows "owns s1 B" "user_addr a \<Longrightarrow> user_byte (sp_d B) s1 a = None"
proof -
  have c: "frames_inv s1" "space_ok s1 B" "used_slots B = {}" using assms unfolding created_def by blast+
  have e: "pte s1 B i j = 0" if "user_slot i" for i j using c(3) that by (auto simp: pte_def used_slots_def split: option.splits)
  then have "user_pages s1 B = {}" by (auto simp: user_pages_def present_def)
  then show "owns s1 B" using c(1,2) by (simp add: owns_def)
  assume a: "user_addr a"
  note w = user_addr_word(1) [OF a]
  show "user_byte (sp_d B) s1 a = None" unfolding user_byte_view [OF a] view_space [OF c(1,2) w] using e [OF user_vaD(1) [OF w]] by (simp add: present_def)
qed

lemma image_loaded:
  assumes inv: "frames_inv p" and ker: "kernel_ok p kd kp kq" and prog: "program_ok buf" and room: "3 + 2 * program_pages buf + 8 \<le> card (free_frames p)"
  obtains d p1 brk' p2 p3 A where "paging_create_address_space kd p = (d, p1)" "d \<noteq> 0"
    "load_segments (unat (e_phnum (ehdr_of buf))) 0 (e_phoff (ehdr_of buf)) buf file_size d brk p1 = LoadOk brk' p2" "map_stack d p2 = (True, p3)" "owns p3 A" "sp_d A = d"
    "\<And>a. user_addr a \<Longrightarrow> user_byte d p3 a = program_byte buf (unat file_size) a" "phys_pool_base p3 = phys_pool_base p"
proof -
  let ?k = "unat (e_phnum (ehdr_of buf))" and ?off = "e_phoff (ehdr_of buf)"
  have three: "3 \<le> card (free_frames p)" using room by simp
  obtain B p1 where B: "paging_create_address_space kd p = (sp_d B, p1)" "created p B p1" by (rule create_space [OF inv ker three])
  note emp = created_empty [OF B(2)]
  have c: "sp_d B \<noteq> 0" "card (free_frames p) = card (free_frames p1) + 3" using B(2) unfolding created_def by blast+
  have hd: "\<forall>l < ?k. \<exists>ph. phdr_at buf ?off (0 + l) = Some ph \<and> seg_fits ph" using prog by (simp add: program_ok_def)
  have rm: "2 * (\<Sum>l < ?k. seg_pages (the (phdr_at buf ?off (0 + l)))) \<le> card (free_frames p1)" using room c(2) by (simp add: program_pages_def)
  obtain brk' p2 A2 where p2: "load_segments ?k 0 ?off buf file_size (sp_d B) brk p1 = LoadOk brk' p2" "owns p2 A2" "sp_d A2 = sp_d B"
    "card (free_frames p1) \<le> card (free_frames p2) + 2 * (\<Sum>l < ?k. seg_pages (the (phdr_at buf ?off (0 + l))))"
    "\<And>a. user_addr a \<Longrightarrow> user_byte (sp_d B) p2 a = program_image buf (unat file_size) (map (\<lambda>l. the (phdr_at buf ?off l)) [0..<0 + ?k]) a (user_byte (sp_d B) p1 a)"
    using load_segments_image [OF emp(1) hd rm, of file_size brk] by blast
  have top: "USER_STACK_TOP - USER_STACK_SIZE = (0x107FC000 :: u64)" by simp
  have rs: "2 * 4 \<le> card (free_frames p2)" using p2(4) room c(2) by (simp add: program_pages_def)
  obtain p3 A3 where p3: "map_new_pages 4 (sp_d A2) 0x107FC000 (\<lambda>_. 0) p2 = (True, p3)" "owns p3 A3" "sp_d A3 = sp_d A2"
    "\<And>a. user_addr a \<Longrightarrow> user_byte (sp_d A2) p3 a = (if unat (0x107FC000 :: u64) \<le> unat a \<and> unat a < unat (0x107FC000 :: u64) + 4096 * 4 then Some 0 else user_byte (sp_d A2) p2 a)"
    by (rule map_new_pages_bytes [OF p2(2) rs, where va = "0x107FC000" and g = "\<lambda>_. 0"]) simp_all
  have "user_byte (sp_d B) p3 a = program_byte buf (unat file_size) a" if a: "user_addr a" for a
    using p3(4) [OF a] p2(5) [OF a] emp(2) [OF a] unfolding p2(3) program_byte_def program_headers_def top by (simp add: word_le_nat_alt word_less_nat_alt)
  moreover have "phys_pool_base p3 = phys_pool_base p"
    using pool_base_pages [OF p3(1)] pool_base_segments [OF p2(1)] B(2) by (simp add: created_def)
  ultimately show thesis using that [OF B(1) c(1) p2(1) _ p3(2)] p3(1,3) p2(3) unfolding map_stack_def top by simp
qed

text \<open>What the process reads does not depend on memory outside the frames in use.\<close>

lemma user_byte_outside:
  assumes own: "owns p A" and mem: "\<And>a. live p (frame_of a) \<Longrightarrow> pg_mem p' a = pg_mem p a" and a: "user_addr a"
  shows "user_byte (sp_d A) p' a = user_byte (sp_d A) p a"
proof -
  let ?p = "p\<lparr>pg_mem := pg_mem p'\<rparr>"
  have o: "frames_inv p" "space_ok p A" "\<And>x. x \<in> user_pages p A \<Longrightarrow> live p (frame_at p A x)" using own unfolding owns_def by blast+
  have inv: "frames_inv ?p" using o(1) by (simp add: frames_inv_def base_ok_def fr_def)
  have live: "live ?p f = live p f" for f by (simp add: live_def fr_def ref_def)
  have same: "pg_mem ?p (ent f m) = pg_mem p (ent f m)" if "live p f" "m < 512" for f m using mem [of "ent f m"] frame_of_ent [OF live_frame(1) [OF o(1) that(1)] that(2)] that(1) by simp
  have A: "space_ok ?p A" "\<And>i j. user_slot i \<Longrightarrow> j < 512 \<Longrightarrow> pte ?p A i j = pte p A i j"
    using space_cong [OF o(2), of ?p] live space_okD(2) [OF o(2)] same by blast+
  note w = user_addr_word(1) [OF a]
  note v = user_vaD [OF w]
  have "view ?p (sp_d A) (word_at a) = view p (sp_d A) (word_at a)"
    using view_space [OF inv A(1) w] view_space [OF o(1,2) w] A(2) [OF v(1,2)] same [of "frame_at p A (vslot (word_at a), vpage (word_at a))" "voff (word_at a)"]
      o(3) [of "(vslot (word_at a), vpage (word_at a))"] v by (auto simp: Let_def frame_at_def user_pages_def)
  moreover have m: "pg_mem ?p = pg_mem p'" by simp
  have "view ?p d w = view p' d w" for d w unfolding view_def paging_get_pte_def m by (rule refl)
  ultimately show ?thesis by (simp add: user_byte_view [OF a])
qed

lemma pg_mem_free [simp]: "pg_mem (frame_free f p) = pg_mem p"
  by (simp add: frame_free_def freelist_push_def split: option.split)

lemma pg_mem_fold: "(\<And>x p. pg_mem (f x p) = pg_mem p) \<Longrightarrow> pg_mem (fold f xs p) = pg_mem p"
  by (induction xs arbitrary: p) simp_all

lemma pg_mem_free_space [simp]: "pg_mem (paging_free_user_space d p) = pg_mem p"
proof -
  define page where "page = (\<lambda>t j s. let p = pg_mem s (ent t j) in if p AND PAGE_PRESENT \<noteq> 0 then frame_free (p AND PAGE_ADDR_MASK) s else s)"
  define table where "table = (\<lambda>q i s. let e = pg_mem s (ent q i) in if \<not> is_table e then s
    else let t = e AND PAGE_ADDR_MASK; s1 = fold (page t) [0..<512] s in frame_free t s1)"
  have "pg_mem (page t j s) = pg_mem s" for t j s by (simp add: page_def Let_def)
  then have f: "pg_mem (fold (page t) xs s) = pg_mem s" for t xs s by (rule pg_mem_fold)
  have "pg_mem (table q i s) = pg_mem s" for q i s by (simp only: table_def Let_def if_distrib [of pg_mem] pg_mem_free f if_cancel)
  then have g: "pg_mem (fold (table q) xs s) = pg_mem s" for q xs s by (rule pg_mem_fold)
  have e: "paging_free_user_space d p = (if d = 0 \<or> d = kernel_pml4 p then p
    else frame_free d (frame_free (pg_mem p (ent d 0) AND PAGE_ADDR_MASK) (frame_free (user_pd d p) (fold (table (user_pd d p)) [64..<512] p))))"
    unfolding paging_free_user_space_def Let_def table_def page_def by (rule refl)
  show ?thesis unfolding e by (simp only: if_distrib [of pg_mem] pg_mem_free g if_cancel)
qed

lemma set_regs:
  fixes s :: "('c, 'd, 'r) kernel"
  assumes s': "s' = fold (\<lambda>(k, v). set_reg k v frame) kvs s"
  shows "task_slots s' = task_slots s" "active_cr3 s' = active_cr3 s" "current_task_idx s' = current_task_idx s"
    "(\<And>k v. (k, v) \<in> set kvs \<Longrightarrow> a \<noteq> ent frame k) \<Longrightarrow> pg_mem (k_pages s') a = pg_mem (k_pages s) a"
proof -
  show "task_slots s' = task_slots s" "active_cr3 s' = active_cr3 s" "current_task_idx s' = current_task_idx s"
    unfolding s' by (induction kvs arbitrary: s) (auto simp: set_reg_def on_pages_def)
  show "pg_mem (k_pages s') a = pg_mem (k_pages s) a" if "\<And>k v. (k, v) \<in> set kvs \<Longrightarrow> a \<noteq> ent frame k"
    using that unfolding s'
  proof (induction kvs arbitrary: s)
    case (Cons x kvs)
    have "a \<noteq> ent frame (fst x)" using Cons.prems [of "fst x" "snd x"] by simp
    then have "pg_mem (k_pages (set_reg (fst x) (snd x) frame s)) a = pg_mem (k_pages s) a" by (simp add: set_reg_def on_pages_def put_word_def)
    moreover have "\<And>k v. (k, v) \<in> set kvs \<Longrightarrow> a \<noteq> ent frame k" using Cons.prems by (metis list.set_intros(2))
    then have "pg_mem (k_pages (fold (\<lambda>(k, v). set_reg k v frame) kvs (set_reg (fst x) (snd x) frame s))) a = pg_mem (k_pages (set_reg (fst x) (snd x) frame s)) a" by (rule Cons.IH)
    ultimately show ?case by (cases x) simp
  qed simp
qed

text \<open>The state of the process after the switch to the new program.\<close>

lemma exec_commit_state:
  assumes "cur_idx s < length (task_slots s)" "0 \<le> current_task_idx s" "d \<noteq> 0" "s' = exec_commit nic frame d entry s"
  shows "active_cr3 s' = d" "ts_pml4 (cur_task s') = d" "reg FR_RIP frame s' = entry" "reg FR_RSP frame s' = USER_STACK_TOP"
    "(\<And>k. k < 22 \<Longrightarrow> a \<noteq> ent frame k) \<Longrightarrow> pg_mem (k_pages s') a = pg_mem (k_pages s) a"
proof -
  let ?regs = "[(FR_RIP, entry), (FR_RSP, USER_STACK_TOP), (FR_RAX, 0), (FR_RBX, 0), (FR_RCX, 0), (FR_RDX, 0), (FR_RSI, 0), (FR_RDI, 0), (FR_RBP, 0)] :: (nat \<times> u64) list"
  define s1 where "s1 = task_switch_cr3 (current_task_idx s) (upd_task (cur_idx s) (\<lambda>t. t\<lparr>ts_pml4 := d\<rparr>) s)"
  define s2 where "s2 = free_user_tables (ts_pml4 (task_slots s ! cur_idx s)) s1"
  define u where "u = close_fds nic [3..<FD_MAX] (ts_fds (task_slots s2 ! cur_idx s2)) (k_io s2)"
  define s3 where "s3 = upd_task (cur_idx s2) (\<lambda>t. t\<lparr>ts_fds := fst u\<rparr>) (s2\<lparr>k_io := snd u\<rparr>)"
  have idx: "cur_idx (s2\<lparr>k_io := x\<rparr>) = cur_idx s2" for x by (simp add: cur_idx_def)
  have s': "s' = fold (\<lambda>(k, v). set_reg k v frame) ?regs s3"
    unfolding assms(4) exec_commit_def cur_upd Let_def case_prod_beta s1_def [symmetric] s2_def [symmetric] u_def [symmetric] idx s3_def [symmetric] by (rule refl)
  have b: "active_cr3 s2 = d" "task_slots s2 = (task_slots s)[cur_idx s := (task_slots s ! cur_idx s)\<lparr>ts_pml4 := d\<rparr>]" "current_task_idx s2 = current_task_idx s" "pg_mem (k_pages s2) = pg_mem (k_pages s)"
    using assms(1-3) by (simp_all add: s2_def s1_def free_user_tables_def task_switch_cr3_def cur_idx_def)
  note r = set_regs [OF s']
  have c: "cur_idx s2 = cur_idx s" "cur_idx s' = cur_idx s" using b(3) r(3) by (simp_all add: cur_idx_def s3_def)
  show "active_cr3 s' = d" "ts_pml4 (cur_task s') = d" using r(1,2) b(1,2) c assms(1) by (simp_all add: s3_def)
  show "reg FR_RIP frame s' = entry" "reg FR_RSP frame s' = USER_STACK_TOP" unfolding s' by (simp_all add: reg_def set_reg_def ent_def)
  show "pg_mem (k_pages s') a = pg_mem (k_pages s) a" if "\<And>k. k < 22 \<Longrightarrow> a \<noteq> ent frame k"
  proof -
    have "k < 22" if "(k, v) \<in> set ?regs" for k v using that by auto
    then have "pg_mem (k_pages s') a = pg_mem (k_pages s3) a" using that by (intro r(4)) blast
    then show ?thesis using b(4) by (simp add: s3_def)
  qed
qed

text \<open>
  Property C5: \<open>execve\<close> starts the program in the file. For a file with a proper header, its program headers in the buffer and its
  segments in the user range, and with enough free frames, the call succeeds; the process continues at the entry point
  with the new stack, on tables of its own, and every byte it can read in the user range is the one the file prescribes (a later segment
  wins on a page of two, and bytes of a page that belong to no segment are zero).
\<close>

theorem execve_runs_program:
  assumes "reg FR_INT_NO frame s = 0x80" "reg FR_RAX frame s = 74" "0 \<le> current_task_idx s" "cur_idx s < length (task_slots s)"
    and "user_path_64 (reg FR_RBX frame s) s = PathOk path" "kfs_read_file ops env (Some path) (elf_load_buf s) ELF_BUF_SIZE (fs_kfs (k_io s)) = Some ((n, buf), k)" "64 \<le> n"
    and "program_ok buf" "frames_inv (k_pages s)" "kernel_ok (k_pages s) (kernel_tables s) kp kq" "3 + 2 * program_pages buf + 8 \<le> card (free_frames (k_pages s))"
    and "\<And>r l. r < 22 \<Longrightarrow> l < FRAME_POOL_MAX_FRAMES \<Longrightarrow> frame_of (ent frame r) \<noteq> fr (k_pages s) l"
  shows "\<exists>d s'. interrupt_dispatch stk sops nic ops env evs ev dt cr2 frame s = Some (Resume 0 s') \<and> active_cr3 s' = d \<and> ts_pml4 (cur_task s') = d
    \<and> reg FR_RIP frame s' = e_entry (ehdr_of buf) \<and> reg FR_RSP frame s' = USER_STACK_TOP \<and> (\<forall>a. user_addr a \<longrightarrow> user_byte d (k_pages s') a = program_byte buf (unat (of_int n :: u64)) a)"
proof -
  let ?s1 = "s\<lparr>elf_load_buf := buf, k_io := (k_io s)\<lparr>fs_kfs := k\<rparr>\<rparr>" and ?h = "ehdr_of buf"
  obtain d p1 brk' p2 p3 A where p: "paging_create_address_space (kernel_tables s) (k_pages s) = (d, p1)" "d \<noteq> 0"
    "load_segments (unat (e_phnum ?h)) 0 (e_phoff ?h) buf (of_int n) d (ts_brk (task_slots s ! cur_idx s)) p1 = LoadOk brk' p2" "map_stack d p2 = (True, p3)" "owns p3 A" "sp_d A = d"
    "\<And>a. user_addr a \<Longrightarrow> user_byte d p3 a = program_byte buf (unat (of_int n :: u64)) a" and base: "phys_pool_base p3 = phys_pool_base (k_pages s)"
    by (rule image_loaded [OF assms(9,10,8,11), where file_size = "of_int n" and brk = "ts_brk (task_slots s ! cur_idx s)"]) blast
  let ?s2 = "upd_task (cur_idx s) (\<lambda>t. t\<lparr>ts_brk := brk'\<rparr>) (?s1\<lparr>k_pages := p3\<rparr>)"
  let ?s' = "exec_commit nic frame d (e_entry ?h) ?s2"
  have idx: "cur_idx ?s1 = cur_idx s" "cur_idx (?s1\<lparr>k_pages := x\<rparr>) = cur_idx s" "kernel_tables ?s1 = kernel_tables s" for x by (simp_all add: cur_idx_def kernel_tables_def)
  have "sys_execve nic ops env frame (reg FR_RBX frame s) s = Returns 0 ?s'"
    using assms(3,5-8) p(1-4) by (simp add: sys_execve_def Let_def idx program_ok_def del: cur_upd(1))
  then have eq: "interrupt_dispatch stk sops nic ops env evs ev dt cr2 frame s = Some (Resume 0 ?s')" using assms(1,2) by (simp add: interrupt_dispatch_def task_syscall_def)
  have c2: "cur_idx ?s2 < length (task_slots ?s2)" "0 \<le> current_task_idx ?s2" using assms(3,4) idx by simp_all
  note ex = exec_commit_state [OF c2 p(2) refl, where nic = nic and frame = frame and entry = "e_entry ?h"]
  have "pg_mem (k_pages ?s') a = pg_mem p3 a" if "live p3 (frame_of a)" for a
  proof -
    have "a \<noteq> ent frame r" if "r < 22" for r using assms(12) [OF that] \<open>live p3 (frame_of a)\<close> fr_base [OF base] by (auto simp: live_def)
    then show ?thesis using ex(5) [of a] by simp
  qed
  from user_byte_outside [OF p(5) this] p(6,7) have "user_addr a \<Longrightarrow> user_byte d (k_pages ?s') a = program_byte buf (unat (of_int n :: u64)) a" for a by simp
  then show ?thesis using eq ex(1-4) by blast
qed

text \<open>
  A file of 124 bytes: a header, one program header, and four bytes of code for the page at \<open>0x10000000\<close>; a disk that holds it; and a
  process that has its name, a star, in memory.
\<close>

definition demo_elf :: bytes where
  "demo_elf = [0x7F, 0x45, 0x4C, 0x46, 2, 1, 1, 0, 0, 0, 0, 0, 0, 0, 0, 0,  2, 0, 0x3E, 0, 1, 0, 0, 0,  0, 0, 0, 0x10, 0, 0, 0, 0,
     64, 0, 0, 0, 0, 0, 0, 0,  0, 0, 0, 0, 0, 0, 0, 0,  0, 0, 0, 0, 64, 0, 56, 0,  1, 0, 0, 0, 0, 0, 0, 0,
     1, 0, 0, 0, 5, 0, 0, 0,  120, 0, 0, 0, 0, 0, 0, 0,  0, 0, 0, 0x10, 0, 0, 0, 0,  0, 0, 0, 0x10, 0, 0, 0, 0,
     4, 0, 0, 0, 0, 0, 0, 0,  4, 0, 0, 0, 0, 0, 0, 0,  0, 0x10, 0, 0, 0, 0, 0, 0,  0x90, 0x90, 0xEB, 0xFC]"

definition demo_disk :: "'d disk_ops" where
  "demo_disk = \<lparr>disk_read = \<lambda>a n b d. ((0, demo_elf @ replicate 388 0), d), disk_write = \<lambda>a n b d. (0, d)\<rparr>"

definition demo_files :: "('c, 'd) fdsys \<Rightarrow> ('c, 'd) fdsys" where
  "demo_files io = io\<lparr>fs_kfs := (fs_kfs io)\<lparr>g_ops := True, k_vfs := (k_vfs (fs_kfs io))\<lparr>g_vfs_ready := True,
     g_filetable := [\<lparr>fe_filename = ''*'', fe_start_sector = 0, fe_size = 124, fe_type = 1, fe_flags = 0, fe_mode = 0, fe_uid = 0, fe_gid = 0, fe_reserved = []\<rparr>]\<rparr>\<rparr>\<rparr>"

definition demo_exec :: "('c, 'd) fdsys \<Rightarrow> 'r option \<Rightarrow> ('c, 'd, 'r) kernel" where
  "demo_exec io sch = (demo_kernel 0x80 74 0x10000000 (demo_files io) sch)\<lparr>active_cr3 := 0x100000,
     k_pages := demo_life\<lparr>pg_mem := (pg_mem demo_life)(ent 0x1000 FR_INT_NO := 0x80, ent 0x1000 FR_RAX := 74, ent 0x1000 FR_RBX := 0x10000000,
       ent 0x100000 0 := 0x101007, ent 0x101000 0 := 0x102007, ent 0x102000 128 := 0x103007, ent 0x103000 0 := 0x104007, ent 0x104000 0 := 42)\<rparr>\<rparr>"

definition demo_buf :: bytes where
  "demo_buf = (demo_elf @ replicate 388 0) @ replicate 130560 0"

lemma demo_file_read:
  fixes io :: "('c, 'd) fdsys"
  shows "kfs_read_file demo_disk env (Some ''*'') (elf_load_buf (demo_exec io sch)) ELF_BUF_SIZE (fs_kfs (k_io (demo_exec io sch))) = Some ((124, demo_buf), fs_kfs (k_io (demo_exec io sch)))"
proof -
  have len: "length demo_elf = 124" by (simp add: demo_elf_def)
  have "vfs_read_loop demo_disk a 1 0 (replicate 131072 0) d = ((True, demo_buf), d)" for a and d :: 'd
    by (simp add: vfs_read_loop.simps demo_disk_def demo_buf_def blit_def len)
  then have "vfs_read_file demo_disk ''*'' (replicate 131072 0) 131072 (k_vfs (fs_kfs (demo_files io))) = ((124, demo_buf), k_vfs (fs_kfs (demo_files io)))"
    by (simp add: vfs_read_file_def vfs_find_file_def demo_files_def find_slot_def file_named_def vfs_strcmp_def c_strcmp_eq_0)
  moreover have "g_ops (fs_kfs (demo_files io))" by (simp add: demo_files_def)
  moreover have "kfs_mount_subpath ''*'' KFS_MNT_FAT32 = None" "kfs_mount_subpath ''*'' KFS_MNT_EXT2 = None" by (simp_all add: KFS_MNT_FAT32_def KFS_MNT_EXT2_def)
  ultimately show ?thesis by (simp add: kfs_read_file_def demo_exec_def demo_kernel_def on_vfs_def kfs_streq_def)
qed

lemma demo_program: "ehdr_of demo_buf = \<lparr>e_magic = 0x464C457F, e_class = 2, e_data = 1, e_type = 2, e_machine = 0x3E, e_entry = 0x10000000, e_phoff = 64, e_phnum = 1\<rparr>"
  "phdr_at demo_buf 64 0 = Some \<lparr>p_type = 1, p_offset = 120, p_vaddr = 0x10000000, p_filesz = 4, p_memsz = 4\<rparr>"
  "demo_buf ! 122 = 0xEB"
  by (simp_all add: demo_buf_def demo_elf_def ehdr_of_def phdr_at_def phdr_of_def le32_of_def le16_of_def le64_of_def)

lemma demo_exec_pages:
  assumes p_def: "p = k_pages (demo_exec io sch)"
  shows "frames_inv p" "kernel_ok p 0x205000 0x206000 0x207000" "1016 \<le> card (free_frames p)" "user_path_64 0x10000000 (demo_exec io sch) = PathOk ''*''"
    "r < 22 \<Longrightarrow> l < 1024 \<Longrightarrow> frame_of (ent 0x1000 r) \<noteq> fr p l"
proof -
  have e: "fr p = fr demo_life" "ref p = ref demo_life" by (simp_all add: p_def demo_exec_def fun_eq_iff fr_def ref_def)
  have demo_base: "base_ok demo_life" using demo_life_same(1) by (simp add: frames_inv_def)
  from e have l: "live p f = live demo_life f" for f by (simp add: live_def)
  show "frames_inv p" using demo_life_same(1) by (simp add: p_def demo_exec_def frames_inv_def base_ok_def fr_def)
  have "upper p 0x205000 0x206000 0x207000" using demo_may_fork(2) by (simp add: kernel_ok_def upper_def p_def demo_exec_def demo_life_def ent_def)
  then show "kernel_ok p 0x205000 0x206000 0x207000" using demo_may_fork(2) by (simp add: kernel_ok_def l demo_life_def)
  have "{8 :: nat..<1024} \<subseteq> free_frames p" using demo_frames(3) by (auto simp: free_frames_def e demo_life_same)
  then have "card {8 :: nat..<1024} \<le> card (free_frames p)" by (rule card_mono [OF finite_sets(1)])
  then show "1016 \<le> card (free_frames p)" by simp
  have b: "user_byte 0x100000 p 0x10000000 = Some 42" "user_byte 0x100000 p 0x10000001 = Some 0"
    by (simp_all add: user_byte_def paging_get_pte_def p_def demo_exec_def ent_def vidx_def phys_byte_def word_byte_def)
  have star: "char_of_byte 42 = CHR ''*''" by (simp add: char_of_byte_def char_of_def bit_0)
  have "SYS_IO_PATH_MAX = Suc (Suc 62)" by simp
  then have "user_path_loop SYS_IO_PATH_MAX (user_byte 0x100000 p) 0x10000000 [] = PathOk ''*''" using b by (simp only: user_path_loop.simps) (simp add: star)
  moreover have "active_cr3 (demo_exec io sch) = 0x100000" by (simp add: demo_exec_def)
  ultimately show "user_path_64 0x10000000 (demo_exec io sch) = PathOk ''*''" by (simp add: user_path_64_def p_def)
  show "frame_of (ent 0x1000 r) \<noteq> fr p l" if "r < 22" "l < 1024"
  proof -
    have "frame_of (ent 0x1000 r) = 0x1000" using that(1) by (intro frame_of_ent) (simp_all add: aligned_def)
    moreover have "unat (fr p l) = 0x200000 + 4096 * l" using unat_fr [OF demo_base, of l] that(2) e by (simp add: demo_life_def demo_fork_def)
    ultimately show ?thesis by auto
  qed
qed

theorem execve_runs_program_witness:
  "\<forall>io sch stk sops nic env evs ev dt cr2. \<exists>d s'. interrupt_dispatch stk sops nic demo_disk env evs ev dt cr2 0x1000 (demo_exec io sch) = Some (Resume 0 s')
     \<and> active_cr3 s' = d \<and> reg FR_RIP 0x1000 s' = 0x10000000 \<and> user_byte d (k_pages s') 0x10000002 = Some 0xEB"
proof (intro allI)
  fix io :: "('a, 'b) fdsys" and sch :: "'c option" and stk sops nic env evs ev dt cr2
  let ?s = "demo_exec io sch"
  note pg = demo_exec_pages [OF refl, where io = io and sch = sch]
  have k: "kernel_tables ?s = 0x205000" by (simp add: kernel_tables_def demo_exec_def demo_life_def)
  have r: "reg FR_INT_NO 0x1000 ?s = 0x80" "reg FR_RAX 0x1000 ?s = 74" "reg FR_RBX 0x1000 ?s = 0x10000000" by (simp_all add: reg_def demo_exec_def ent_def)
  have idx: "0 \<le> current_task_idx ?s" "cur_idx ?s < length (task_slots ?s)" by (simp_all add: demo_exec_def demo_kernel_def cur_idx_def)
  have prog: "program_ok demo_buf" "program_pages demo_buf = 1"
    by (simp_all add: program_ok_def program_pages_def demo_program exec_header_ok_def seg_fits_def seg_pages_def load_seg_def pages_between_def page_down_def page_up_def)
  have room: "3 + 2 * program_pages demo_buf + 8 \<le> card (free_frames (k_pages ?s))" using pg(3) prog(2) by simp
  obtain d s' where s': "interrupt_dispatch stk sops nic demo_disk env evs ev dt cr2 0x1000 ?s = Some (Resume 0 s')" "active_cr3 s' = d"
    "reg FR_RIP 0x1000 s' = e_entry (ehdr_of demo_buf)" "\<And>a. user_addr a \<Longrightarrow> user_byte d (k_pages s') a = program_byte demo_buf (unat (of_int 124 :: u64)) a"
    using execve_runs_program [OF r(1,2) idx pg(4) [folded r(3)] demo_file_read _ prog(1) pg(1) pg(2) [folded k] room pg(5), where env = env and stk = stk and sops = sops and nic = nic and evs = evs and ev = ev and dt = dt and ?cr2.0 = cr2] by auto
  have "program_byte demo_buf (unat (of_int 124 :: u64)) 0x10000002 = Some 0xEB"
    by (simp add: program_byte_def program_image_def program_headers_def demo_program covers_def load_seg_def prescribed_def)
  then show "\<exists>d s'. interrupt_dispatch stk sops nic demo_disk env evs ev dt cr2 0x1000 ?s = Some (Resume 0 s')
     \<and> active_cr3 s' = d \<and> reg FR_RIP 0x1000 s' = 0x10000000 \<and> user_byte d (k_pages s') 0x10000002 = Some 0xEB"
    using s'(1-3) s'(4) [of "0x10000002"] by (auto simp: user_addr_def demo_program)
qed

end
