(* ===== verification/Ai_Bridge.thy ===== *)
theory Ai_Bridge
  imports Vernis_Prelude
begin

text \<open>
  The bridge to the AI engine over the second serial line (\<open>kernel/drivers/ai_bridge.c\<close>) and the layer
  over the engine inside the kernel (\<open>kernel/drivers/ai_engine.c\<close>). The serial line is a queue of
  received characters and the text sent; the transmitter is taken to drain. Received lines are C
  strings: whatever follows a NUL in a line is never looked at. The engine itself is Rust: its
  functions are parameters, as are the handlers that the kernel registers.
\<close>

section \<open>State\<close>

abbreviation AI_MSG_MAX :: nat where "AI_MSG_MAX \<equiv> 512"
abbreviation AI_RESP_TIMEOUT :: nat where "AI_RESP_TIMEOUT \<equiv> 5000000"

datatype AiBridgeStatus = AI_STATUS_OFFLINE | AI_STATUS_READY | AI_STATUS_BUSY | AI_STATUS_ERROR

fun status_code :: "AiBridgeStatus \<Rightarrow> u32" where
  "status_code AI_STATUS_OFFLINE = 0"
| "status_code AI_STATUS_READY = 1"
| "status_code AI_STATUS_BUSY = 2"
| "status_code AI_STATUS_ERROR = 3"

text \<open>\<open>rx_line\<close> is the received part of the current line, the first \<open>rx_pos\<close> characters of the static array.\<close>

record 'k ai_bridge =
  ai_status :: AiBridgeStatus
  g_com2_hw :: bool
  g_next_seq :: u32
  g_tune_handler :: "(cstring \<Rightarrow> cstring \<Rightarrow> u32 \<Rightarrow> cstring \<Rightarrow> 'k \<Rightarrow> 'k) option"
  g_remediate_handler :: "(cstring \<Rightarrow> cstring \<Rightarrow> cstring \<Rightarrow> 'k \<Rightarrow> 'k) option"
  rx_line :: cstring
  com2_in :: cstring
  com2_out :: cstring

text \<open>\<open>scratch\<close> is what the scratch register of the serial port returns after 0xA5 was written to it.\<close>

definition ai_bridge_init :: "u8 \<Rightarrow> 'k ai_bridge \<Rightarrow> 'k ai_bridge" where
  "ai_bridge_init scratch s =
     (if scratch \<noteq> 0xA5 then s\<lparr>ai_status := AI_STATUS_OFFLINE, g_com2_hw := False\<rparr>
      else s\<lparr>g_com2_hw := True, ai_status := AI_STATUS_READY, g_next_seq := 1\<rparr>)"

definition ai_bridge_status :: "'k ai_bridge \<Rightarrow> AiBridgeStatus" where
  "ai_bridge_status s = ai_status s"

definition ai_bridge_set_status :: "AiBridgeStatus \<Rightarrow> 'k ai_bridge \<Rightarrow> 'k ai_bridge" where
  "ai_bridge_set_status st s = s\<lparr>ai_status := st\<rparr>"

section \<open>Characters and frames\<close>

definition ai_putc :: "char \<Rightarrow> 'k ai_bridge \<Rightarrow> 'k ai_bridge" where
  "ai_putc c s = s\<lparr>com2_out := com2_out s @ [c]\<rparr>"

definition ai_puts :: "cstring \<Rightarrow> 'k ai_bridge \<Rightarrow> 'k ai_bridge" where
  "ai_puts str s = fold ai_putc (cstr str) s"

definition ai_put_dec :: "u32 \<Rightarrow> 'k ai_bridge \<Rightarrow> 'k ai_bridge" where
  "ai_put_dec v s = (if v = 0 then ai_putc (CHR ''0'') s else fold ai_putc (rev (u64_digits 12 (unat v))) s)"

definition ai_getc :: "'k ai_bridge \<Rightarrow> char option \<times> 'k ai_bridge" where
  "ai_getc s = (case com2_in s of [] \<Rightarrow> (None, s) | c # cs \<Rightarrow> (Some c, s\<lparr>com2_in := cs\<rparr>))"

definition ai_send_frame :: "cstring \<Rightarrow> u32 \<Rightarrow> cstring \<Rightarrow> 'k ai_bridge \<Rightarrow> 'k ai_bridge" where
  "ai_send_frame kind seq payload s =
     ai_putc (CHR 0x0A) (ai_puts payload (ai_putc (CHR ''|'') (ai_put_dec seq (ai_putc (CHR ''|'') (ai_puts kind s)))))"

function ai_readline :: "nat \<Rightarrow> 'k ai_bridge \<Rightarrow> (int \<times> cstring) \<times> 'k ai_bridge" where
  "ai_readline max_len s =
     (case ai_getc s of
        (None, s1) \<Rightarrow> ((0, []), s1)
      | (Some c, s1) \<Rightarrow>
          if c = CHR 0x0D then ai_readline max_len s1
          else if c = CHR 0x0A then
            (let n = length (rx_line s1); s2 = s1\<lparr>rx_line := []\<rparr>
             in if n \<ge> max_len then ((-1, []), s2) else ((int n, rx_line s1), s2))
          else ai_readline max_len (if length (rx_line s1) < AI_MSG_MAX - 1 then s1\<lparr>rx_line := rx_line s1 @ [c]\<rparr> else s1))"
  by pat_completeness auto
termination
  by (relation "measure (\<lambda>(max_len, s). length (com2_in s))") (auto simp: ai_getc_def split: list.splits)

declare ai_readline.simps [simp del]

section \<open>Queries\<close>

text \<open>The digits of the sequence field as the loop reads them: \<open>char\<close> is signed, nothing is refused.\<close>

definition seq_value :: "cstring \<Rightarrow> u32" where
  "seq_value digits = foldl (\<lambda>v d. v * 10 + (scast (byte_of d) - 48)) 0 digits"

definition resp_payload :: "u32 \<Rightarrow> cstring \<Rightarrow> cstring option" where
  "resp_payload seq line =
     (let l = cstr line; rest = drop 5 l; field = takeWhile (\<lambda>c. c \<noteq> CHR ''|'') rest
      in if take 5 l \<noteq> ''RESP|'' then None
         else if length field = length rest then None
         else if seq_value field \<noteq> seq then None
         else Some (drop (Suc (length field)) rest))"

text \<open>\<open>arr k\<close> are the characters that arrive before the \<open>k\<close>-th poll.\<close>

fun query_loop :: "(nat \<Rightarrow> cstring) \<Rightarrow> u32 \<Rightarrow> nat \<Rightarrow> nat \<Rightarrow> 'k ai_bridge \<Rightarrow> cstring option \<times> 'k ai_bridge" where
  "query_loop arr seq k 0 s = (None, s)"
| "query_loop arr seq k (Suc spin) s =
     (case ai_readline AI_MSG_MAX (s\<lparr>com2_in := com2_in s @ arr k\<rparr>) of ((n, line), s1) \<Rightarrow>
        if n \<le> 0 then query_loop arr seq (Suc k) spin s1
        else case resp_payload seq line of
          None \<Rightarrow> query_loop arr seq (Suc k) spin s1
        | Some payload \<Rightarrow> (Some payload, s1))"

definition ai_query_sync ::
  "(nat \<Rightarrow> cstring) \<Rightarrow> cstring option \<Rightarrow> cstring option \<Rightarrow> nat \<Rightarrow> 'k ai_bridge \<Rightarrow> (int \<times> cstring option) \<times> 'k ai_bridge" where
  "ai_query_sync arr query resp_buf max_len s =
     (case (query, resp_buf) of
        (Some q, Some buf) \<Rightarrow>
          if \<not> g_com2_hw s \<or> max_len < 2 then ((-1, resp_buf), s)
          else let seq = g_next_seq s;
                   s1 = ai_send_frame ''REQ'' seq q (s\<lparr>g_next_seq := g_next_seq s + 1, ai_status := AI_STATUS_BUSY\<rparr>)
            in (case query_loop arr seq 0 AI_RESP_TIMEOUT s1 of
                  (Some payload, s2) \<Rightarrow>
                    ((int (min (length payload) (max_len - 1)), Some (c_strlcpy buf payload max_len)), s2\<lparr>ai_status := AI_STATUS_READY\<rparr>)
                | (None, s2) \<Rightarrow> ((-1, resp_buf), s2\<lparr>ai_status := AI_STATUS_READY\<rparr>))
      | _ \<Rightarrow> ((-1, resp_buf), s))"

definition ai_send_event :: "cstring \<Rightarrow> cstring option \<Rightarrow> 'k ai_bridge \<Rightarrow> 'k ai_bridge" where
  "ai_send_event event_type data s =
     (if \<not> g_com2_hw s then s
      else ai_putc (CHR 0x0A) (ai_puts (case data of Some d \<Rightarrow> d | None \<Rightarrow> [])
             (ai_putc (CHR ''|'') (ai_puts event_type (ai_puts ''EVT|'' s)))))"

section \<open>Commands from the engine\<close>

definition ai_set_tune_handler ::
  "(cstring \<Rightarrow> cstring \<Rightarrow> u32 \<Rightarrow> cstring \<Rightarrow> 'k \<Rightarrow> 'k) option \<Rightarrow> 'k ai_bridge \<Rightarrow> 'k ai_bridge" where
  "ai_set_tune_handler h s = s\<lparr>g_tune_handler := h\<rparr>"

definition ai_set_remediate_handler ::
  "(cstring \<Rightarrow> cstring \<Rightarrow> cstring \<Rightarrow> 'k \<Rightarrow> 'k) option \<Rightarrow> 'k ai_bridge \<Rightarrow> 'k ai_bridge" where
  "ai_set_remediate_handler h s = s\<lparr>g_remediate_handler := h\<rparr>"

text \<open>One part of an event text; \<open>room\<close> is \<open>max - 1\<close>, which wraps around for a buffer of size zero.\<close>

fun event_part :: "nat \<Rightarrow> bool \<Rightarrow> cstring option \<Rightarrow> cstring \<Rightarrow> cstring" where
  "event_part room bar None acc = acc"
| "event_part room bar (Some p) acc =
     (let acc1 = (if bar \<and> length acc < room then acc @ ''|'' else acc) in acc1 @ take (room - length acc1) (cstr p))"

definition ai_build_event :: "nat \<Rightarrow> cstring option \<Rightarrow> cstring option \<Rightarrow> cstring option \<Rightarrow> cstring" where
  "ai_build_event mx p1 p2 p3 =
     (let room = unat (of_nat mx - 1 :: u64) in event_part room True p3 (event_part room True p2 (event_part room False p1 [])))"

fun parse_dec_loop :: "u32 \<Rightarrow> cstring \<Rightarrow> u32" where
  "parse_dec_loop v [] = v"
| "parse_dec_loop v (c # cs) = (if is_digit c then parse_dec_loop (v * 10 + (of_nat (of_char c) - 48)) cs else v)"

definition ai_parse_dec :: "cstring \<Rightarrow> u32" where
  "ai_parse_dec s = parse_dec_loop 0 s"

text \<open>The token before the first bar, and what follows the bar if there is one.\<close>

definition ai_split :: "cstring \<Rightarrow> cstring \<times> cstring option" where
  "ai_split src = (let tok = takeWhile (\<lambda>c. c \<noteq> CHR ''|'') src
     in if length tok = length src then (src, None) else (tok, Some (drop (Suc (length tok)) src)))"

definition hex_digit :: "char \<Rightarrow> u8 option" where
  "hex_digit c = (let n = of_char c :: nat in
     if 48 \<le> n \<and> n \<le> 57 then Some (of_nat (n - 48))
     else if 97 \<le> n \<and> n \<le> 102 then Some (of_nat (n - 97 + 10))
     else if 65 \<le> n \<and> n \<le> 70 then Some (of_nat (n - 65 + 10)) else None)"

fun hex_decode :: "nat \<Rightarrow> cstring \<Rightarrow> bytes" where
  "hex_decode (Suc room) (h # l # p) =
     (case (hex_digit h, hex_digit l) of
        (Some hi, Some lo) \<Rightarrow> (push_bit 4 hi OR lo) # hex_decode room p
      | _ \<Rightarrow> [])"
| "hex_decode room p = []"

datatype ai_cmd =
    CMD_TUNE cstring cstring u32 cstring
  | CMD_REMEDIATE cstring cstring cstring
  | CMD_POLICY bytes

definition parse_tune :: "cstring \<Rightarrow> ai_cmd option" where
  "parse_tune p =
     (case ai_split p of
        (action, None) \<Rightarrow> None
      | (action, Some p1) \<Rightarrow>
          (case ai_split p1 of
             (target, None) \<Rightarrow> None
           | (target, Some p2) \<Rightarrow>
               let (value_str, rest) = ai_split p2
               in Some (CMD_TUNE action target (ai_parse_dec value_str) (case rest of Some r \<Rightarrow> r | None \<Rightarrow> p2))))"

definition parse_remediate :: "cstring \<Rightarrow> ai_cmd option" where
  "parse_remediate p =
     (case ai_split p of
        (action, None) \<Rightarrow> None
      | (action, Some p1) \<Rightarrow>
          let (target, rest) = ai_split p1 in Some (CMD_REMEDIATE action target (case rest of Some r \<Rightarrow> r | None \<Rightarrow> p1)))"

definition parse_cmd :: "cstring \<Rightarrow> ai_cmd option" where
  "parse_cmd line =
     (let l = cstr line in
      if take 4 l \<noteq> ''CMD|'' then None
      else case ai_split (drop 4 l) of
        (seq, None) \<Rightarrow> None
      | (seq, Some p) \<Rightarrow>
          (case ai_split p of
             (sub, None) \<Rightarrow> None
           | (sub, Some rest) \<Rightarrow>
               if take 4 sub = ''TUNE'' then parse_tune rest
               else if take 4 sub = ''REME'' then parse_remediate rest
               else if take 4 sub = ''POLI'' then Some (CMD_POLICY (hex_decode (AI_MSG_MAX div 2) rest))
               else None))"

text \<open>\<open>load\<close> is \<open>ai_kernel_engine_load_policy\<close> with the length of the blob, on the kernel state.\<close>

definition ai_poll_cmd :: "(bytes \<Rightarrow> 'k \<Rightarrow> 'k) \<Rightarrow> 'k ai_bridge \<Rightarrow> 'k \<Rightarrow> 'k ai_bridge \<times> 'k" where
  "ai_poll_cmd load s k =
     (if \<not> g_com2_hw s then (s, k)
      else case ai_readline AI_MSG_MAX s of ((n, line), s1) \<Rightarrow>
        (s1, if n \<le> 0 then k
             else case parse_cmd line of
               None \<Rightarrow> k
             | Some (CMD_TUNE action target v reason) \<Rightarrow>
                 (case g_tune_handler s1 of Some h \<Rightarrow> h action target v reason k | None \<Rightarrow> k)
             | Some (CMD_REMEDIATE action target param) \<Rightarrow>
                 (case g_remediate_handler s1 of Some h \<Rightarrow> h action target param k | None \<Rightarrow> k)
             | Some (CMD_POLICY blob) \<Rightarrow> if length blob \<ge> 8 then load blob k else k))"

section \<open>System calls\<close>

text \<open>A string in user memory; the search for its NUL wraps around once at most.\<close>

fun mem_cstr :: "nat \<Rightarrow> memory \<Rightarrow> u32 \<Rightarrow> cstring" where
  "mem_cstr 0 mem a = []"
| "mem_cstr (Suc n) mem a = (if mem a = 0 then [] else char_of_byte (mem a) # mem_cstr n mem (a + 1))"

definition user_string :: "memory \<Rightarrow> u32 \<Rightarrow> cstring option" where
  "user_string mem a = (if a = 0 then None else Some (mem_cstr (2 ^ 32) mem a))"

definition ai_syscall ::
  "(nat \<Rightarrow> cstring) \<Rightarrow> memory \<Rightarrow> u32 \<Rightarrow> u32 \<Rightarrow> u32 \<Rightarrow> 'k ai_bridge \<Rightarrow> u32 \<times> memory \<times> 'k ai_bridge" where
  "ai_syscall arr mem num a1 a2 s =
     (if num = 40 then
        (case ai_query_sync arr (user_string mem a1) (if a2 = 0 then None else Some (map char_of_byte (load_bytes mem a2 AI_MSG_MAX)))
                AI_MSG_MAX s of
           ((rc, buf), s1) \<Rightarrow>
             (of_int rc, (case buf of Some b \<Rightarrow> store_bytes mem a2 (map byte_of b) | None \<Rightarrow> mem), s1))
      else if num = 41 then (status_code (ai_status s), mem, s)
      else if num = 42 then
        (0, mem, ai_send_event (case user_string mem a1 of Some t \<Rightarrow> t | None \<Rightarrow> []) (user_string mem a2) s)
      else (-1, mem, s))"

section \<open>The engine inside the kernel\<close>

text \<open>The Rust engine as the C layer calls it.\<close>

record 'e rust_engine =
  engine_new :: "'e option"
  engine_feed_event :: "cstring \<Rightarrow> cstring \<Rightarrow> u64 \<Rightarrow> 'e \<Rightarrow> 'e"
  engine_feed_event_code :: "u8 \<Rightarrow> cstring \<Rightarrow> u64 \<Rightarrow> 'e \<Rightarrow> 'e"
  engine_tick :: "u64 \<Rightarrow> 'e \<Rightarrow> 'e"
  engine_event_count :: "'e \<Rightarrow> u64"
  engine_anomaly_count :: "'e \<Rightarrow> u32"
  engine_active_procs :: "'e \<Rightarrow> u32"
  engine_load_policy :: "bytes \<Rightarrow> nat \<Rightarrow> 'e \<Rightarrow> u32 \<times> 'e"
  engine_policy_version :: "'e \<Rightarrow> u16"
  engine_check_access :: "cstring \<Rightarrow> 'e \<Rightarrow> u8"
  engine_access_rule_count :: "'e \<Rightarrow> u32"

record 'e ai_kernel =
  g_ai_engine :: "'e option"
  g_kernel_scheduler :: bool
  ai_ticks :: u64

datatype sched_cmd = scheduler_set_quantum u32 | scheduler_set_priority u32 u8

definition kernel_ai_tune_cb :: "cstring \<Rightarrow> u32 \<Rightarrow> 'e ai_kernel \<Rightarrow> sched_cmd option" where
  "kernel_ai_tune_cb action v s =
     (if \<not> g_kernel_scheduler s then None
      else if length action \<ge> 13 \<and> action ! 6 = CHR ''Q'' then
        (let v1 = (if v < 1 then 1 else v) in Some (scheduler_set_quantum (if v1 > 200 then 200 else v1)))
      else if length action \<ge> 10 \<and> action ! 6 = CHR ''P'' then Some (scheduler_set_priority 1 (ucast v))
      else None)"

definition kernel_ai_remediate_cb :: "cstring \<Rightarrow> u32 \<Rightarrow> u32 \<Rightarrow> 'e ai_kernel \<Rightarrow> sched_cmd option" where
  "kernel_ai_remediate_cb action pid param s =
     (if \<not> g_kernel_scheduler s then None
      else if length action \<ge> 4 \<and> action ! 0 = CHR ''k'' \<and> action ! 1 = CHR ''i'' then
        (if pid > 0 then Some (scheduler_set_priority pid 0) else None)
      else if length action \<ge> 8 \<and> action ! 0 = CHR ''t'' \<and> action ! 1 = CHR ''h'' then
        (let q = (if param > 0 then param else 25) in Some (scheduler_set_quantum (if q > 200 then 200 else q)))
      else None)"

definition ai_kernel_engine_init :: "'e rust_engine \<Rightarrow> bool \<Rightarrow> 'e ai_kernel \<Rightarrow> 'k ai_bridge \<Rightarrow> 'e ai_kernel \<times> 'k ai_bridge" where
  "ai_kernel_engine_init rust scheduler s br =
     (let s1 = s\<lparr>g_kernel_scheduler := scheduler, ai_ticks := 0, g_ai_engine := engine_new rust\<rparr>
      in if g_ai_engine s1 = None then (s1, br) else (s1, ai_bridge_set_status AI_STATUS_READY br))"

definition with_engine :: "('e \<Rightarrow> 'e) \<Rightarrow> u64 \<Rightarrow> 'e ai_kernel \<Rightarrow> 'e ai_kernel" where
  "with_engine f now s = (case g_ai_engine s of None \<Rightarrow> s | Some e \<Rightarrow> s\<lparr>ai_ticks := now, g_ai_engine := Some (f e)\<rparr>)"

definition ai_kernel_engine_feed :: "'e rust_engine \<Rightarrow> cstring \<Rightarrow> cstring \<Rightarrow> u64 \<Rightarrow> 'e ai_kernel \<Rightarrow> 'e ai_kernel" where
  "ai_kernel_engine_feed rust event_type data now s = with_engine (engine_feed_event rust (cstr event_type) (cstr data) now) now s"

definition ai_kernel_engine_feed_code :: "'e rust_engine \<Rightarrow> u8 \<Rightarrow> cstring \<Rightarrow> u64 \<Rightarrow> 'e ai_kernel \<Rightarrow> 'e ai_kernel" where
  "ai_kernel_engine_feed_code rust code data now s = with_engine (engine_feed_event_code rust code (cstr data) now) now s"

definition ai_kernel_engine_tick :: "'e rust_engine \<Rightarrow> u64 \<Rightarrow> 'e ai_kernel \<Rightarrow> 'e ai_kernel" where
  "ai_kernel_engine_tick rust now s = with_engine (engine_tick rust now) now s"

definition ai_kernel_engine_event_count :: "'e rust_engine \<Rightarrow> 'e ai_kernel \<Rightarrow> u64" where
  "ai_kernel_engine_event_count rust s = (case g_ai_engine s of None \<Rightarrow> 0 | Some e \<Rightarrow> engine_event_count rust e)"

definition ai_kernel_engine_anomaly_count :: "'e rust_engine \<Rightarrow> 'e ai_kernel \<Rightarrow> u32" where
  "ai_kernel_engine_anomaly_count rust s = (case g_ai_engine s of None \<Rightarrow> 0 | Some e \<Rightarrow> engine_anomaly_count rust e)"

definition ai_kernel_engine_active_procs :: "'e rust_engine \<Rightarrow> 'e ai_kernel \<Rightarrow> u32" where
  "ai_kernel_engine_active_procs rust s = (case g_ai_engine s of None \<Rightarrow> 0 | Some e \<Rightarrow> engine_active_procs rust e)"

definition ai_kernel_engine_load_policy :: "'e rust_engine \<Rightarrow> bytes option \<Rightarrow> nat \<Rightarrow> 'e ai_kernel \<Rightarrow> u32 \<times> 'e ai_kernel" where
  "ai_kernel_engine_load_policy rust blob len s =
     (case (g_ai_engine s, blob) of
        (Some e, Some b) \<Rightarrow>
          if len < 8 then (0, s)
          else (case engine_load_policy rust b len e of (r, e1) \<Rightarrow> (r, s\<lparr>g_ai_engine := Some e1\<rparr>))
      | _ \<Rightarrow> (0, s))"

definition ai_kernel_engine_policy_version :: "'e rust_engine \<Rightarrow> 'e ai_kernel \<Rightarrow> u16" where
  "ai_kernel_engine_policy_version rust s = (case g_ai_engine s of None \<Rightarrow> 0 | Some e \<Rightarrow> engine_policy_version rust e)"

definition ai_kernel_engine_check_access :: "'e rust_engine \<Rightarrow> cstring option \<Rightarrow> nat \<Rightarrow> 'e ai_kernel \<Rightarrow> u8" where
  "ai_kernel_engine_check_access rust command len s =
     (case (g_ai_engine s, command) of
        (Some e, Some c) \<Rightarrow> if len = 0 then 255 else engine_check_access rust (take len c) e
      | _ \<Rightarrow> 255)"

definition ai_kernel_engine_access_rule_count :: "'e rust_engine \<Rightarrow> 'e ai_kernel \<Rightarrow> u32" where
  "ai_kernel_engine_access_rule_count rust s = (case g_ai_engine s of None \<Rightarrow> 0 | Some e \<Rightarrow> engine_access_rule_count rust e)"

section \<open>The text that is sent\<close>

definition dec_text :: "u32 \<Rightarrow> cstring" where
  "dec_text v = (if v = 0 then ''0'' else rev (u64_digits 12 (unat v)))"

lemma fold_putc: "fold ai_putc cs s = s\<lparr>com2_out := com2_out s @ cs\<rparr>"
  by (induction cs arbitrary: s) (simp_all add: ai_putc_def)

lemma ai_put_dec_text: "ai_put_dec v s = s\<lparr>com2_out := com2_out s @ dec_text v\<rparr>"
  by (simp add: ai_put_dec_def dec_text_def fold_putc ai_putc_def)

lemma ai_send_frame_text:
  "ai_send_frame kind seq payload s =
     s\<lparr>com2_out := com2_out s @ cstr kind @ ''|'' @ dec_text seq @ ''|'' @ cstr payload @ [CHR 0x0A]\<rparr>"
  by (simp add: ai_send_frame_def ai_puts_def fold_putc ai_put_dec_text ai_putc_def)

section \<open>Numbers and responses\<close>

lemma u64_digits_are: "c \<in> set (u64_digits room v) \<Longrightarrow> is_digit c"
  by (induction room v rule: u64_digits.induct) (auto simp: is_digit_def of_char_digit split: if_splits)

lemma dec_text_digits: "c \<in> set (dec_text v) \<Longrightarrow> is_digit c"
  by (cases "v = 0") (simp add: dec_text_def is_digit_def, simp add: dec_text_def u64_digits_are)

lemma length_dec_text: "length (dec_text v) \<le> 10"
proof -
  have "unat v < 2 ^ 32" using unsigned_less [of v, where ?'a = nat] by simp
  then have "unat v < 10 ^ 10" by simp
  then show ?thesis using length_u64_digits [of "unat v" 10 12] by (simp add: dec_text_def)
qed

lemma dec_value_text: "dec_value (dec_text v) = unat v"
proof -
  have "unat v < 2 ^ 32" using unsigned_less [of v, where ?'a = nat] by simp
  then have "unat v < 10 ^ 12" by simp
  then show ?thesis using dec_value_digits [of "unat v" 12] by (simp add: dec_text_def dec_value_def)
qed

lemma digit_byte: "is_digit d \<Longrightarrow> (scast (byte_of d) - 48 :: u32) = of_nat (of_char d - 48)"
proof -
  assume d: "is_digit d"
  then obtain n where n: "of_char d = n" "48 \<le> n" "n \<le> (57 :: nat)" by (auto simp: is_digit_def)
  have "scast (of_nat n :: u8) = (of_nat n :: u32)"
    using n(3) by (simp add: scast_eq signed_of_nat signed_take_bit_int_eq_self)
  with n show ?thesis by (simp add: byte_of_def of_nat_diff)
qed

lemma seq_value_dec: "(\<And>c. c \<in> set s \<Longrightarrow> is_digit c) \<Longrightarrow> seq_value s = of_nat (dec_value s)"
proof (induction s rule: rev_induct)
  case (snoc d s)
  then have "seq_value s = of_nat (dec_value s)" "is_digit d" by auto
  then show ?case by (simp add: seq_value_def dec_value_snoc digit_byte mult.commute)
qed (simp add: seq_value_def dec_value_def)

lemma not_digit: "\<not> is_digit NUL" "\<not> is_digit (CHR ''|'')" "\<not> is_digit (CHR 0x0A)" "\<not> is_digit (CHR 0x0D)"
  by (simp_all add: is_digit_def)

lemma resp_payload_own:
  assumes "NUL \<notin> set payload"
  shows "resp_payload seq (''RESP|'' @ dec_text seq @ ''|'' @ payload) = Some payload"
proof -
  let ?d = "dec_text seq"
  have no: "NUL \<notin> set ?d" "CHR ''|'' \<notin> set ?d" using dec_text_digits not_digit by metis+
  then have l: "cstr (''RESP|'' @ ?d @ ''|'' @ payload) = ''RESP|'' @ ?d @ ''|'' @ payload"
    using assms by (intro cstr_id) auto
  have "takeWhile (\<lambda>c. c \<noteq> CHR ''|'') (?d @ ''|'' @ payload) = ?d"
    using no(2) by (subst takeWhile_append2) auto
  moreover have "seq_value ?d = seq" using seq_value_dec [of ?d] dec_text_digits by (simp add: dec_value_text)
  ultimately show ?thesis unfolding resp_payload_def l by simp
qed

section \<open>Lines\<close>

definition line_char :: "char \<Rightarrow> bool" where
  "line_char c \<longleftrightarrow> c \<noteq> CHR 0x0D \<and> c \<noteq> CHR 0x0A"

lemma readline_partial:
  assumes "com2_in s = bs" "\<And>c. c \<in> set bs \<Longrightarrow> line_char c" "length (rx_line s) + length bs \<le> 511"
  shows "ai_readline mx s = ((0, []), s\<lparr>com2_in := [], rx_line := rx_line s @ bs\<rparr>)"
  using assms
proof (induction bs arbitrary: s)
  case Nil
  then show ?case by (subst ai_readline.simps) (simp add: ai_getc_def)
next
  case (Cons c bs)
  have c: "c \<noteq> CHR 0x0D" "c \<noteq> CHR 0x0A" using Cons.prems(2) [of c] by (auto simp: line_char_def)
  have "ai_readline mx s = ai_readline mx (s\<lparr>com2_in := bs, rx_line := rx_line s @ [c]\<rparr>)"
    using Cons.prems c by (subst ai_readline.simps) (simp add: ai_getc_def)
  also have "\<dots> = ((0, []), s\<lparr>com2_in := [], rx_line := rx_line s @ c # bs\<rparr>)"
    using Cons.prems by (subst Cons.IH) simp_all
  finally show ?case .
qed

lemma readline_line:
  assumes "com2_in s = bs @ CHR 0x0A # rest" "\<And>c. c \<in> set bs \<Longrightarrow> line_char c"
    "length (rx_line s) + length bs \<le> 511" "length (rx_line s) + length bs < mx"
  shows "ai_readline mx s = ((int (length (rx_line s @ bs)), rx_line s @ bs), s\<lparr>com2_in := rest, rx_line := []\<rparr>)"
  using assms
proof (induction bs arbitrary: s)
  case Nil
  then show ?case by (subst ai_readline.simps) (simp add: ai_getc_def Let_def)
next
  case (Cons c bs)
  have c: "c \<noteq> CHR 0x0D" "c \<noteq> CHR 0x0A" using Cons.prems(2) [of c] by (auto simp: line_char_def)
  have "ai_readline mx s = ai_readline mx (s\<lparr>com2_in := bs @ CHR 0x0A # rest, rx_line := rx_line s @ [c]\<rparr>)"
    using Cons.prems c by (subst ai_readline.simps) (simp add: ai_getc_def)
  also have "\<dots> = ((int (length (rx_line s @ c # bs)), rx_line s @ c # bs), s\<lparr>com2_in := rest, rx_line := []\<rparr>)"
    using Cons.prems by (subst Cons.IH) simp_all
  finally show ?case .
qed

text \<open>A line that arrives in pieces over several polls is put together and answered.\<close>

lemma query_loop_receives:
  assumes "com2_in s = []" "j < spin" "arr (k + j) = last_part @ [CHR 0x0A]"
    "line = rx_line s @ concat (map (\<lambda>i. arr (k + i)) [0..<j]) @ last_part"
    "\<And>c. c \<in> set (concat (map (\<lambda>i. arr (k + i)) [0..<j]) @ last_part) \<Longrightarrow> line_char c"
    "length line \<le> 511" "line \<noteq> []" "resp_payload seq line = Some payload"
  shows "query_loop arr seq k spin s = (Some payload, s\<lparr>com2_in := [], rx_line := []\<rparr>)"
  using assms
proof (induction j arbitrary: k s spin)
  case 0
  obtain n where spin: "spin = Suc n" using 0(2) by (cases spin) auto
  have "ai_readline 512 (s\<lparr>com2_in := com2_in s @ arr k\<rparr>) = ((int (length line), line), s\<lparr>com2_in := [], rx_line := []\<rparr>)"
    using 0 by (subst readline_line [where bs = last_part and rest = "[]"]) auto
  moreover have "0 < length line" using 0 by simp
  ultimately show ?case using 0(8) by (simp add: spin)
next
  case (Suc j)
  obtain n where spin: "spin = Suc n" using Suc.prems(2) by (cases spin) auto
  have parts: "concat (map (\<lambda>i. arr (k + i)) [0..<Suc j]) = arr k @ concat (map (\<lambda>i. arr (Suc k + i)) [0..<j])"
    by (simp add: upt_conv_Cons map_Suc_upt [symmetric] comp_def del: upt_Suc map_Suc_upt)
  note p = Suc.prems [unfolded parts]
  let ?s = "s\<lparr>com2_in := [], rx_line := rx_line s @ arr k\<rparr>"
  have "ai_readline 512 (s\<lparr>com2_in := com2_in s @ arr k\<rparr>) = ((0, []), ?s)"
    using p by (subst readline_partial [where bs = "arr k"]) auto
  then have "query_loop arr seq k spin s = query_loop arr seq (Suc k) n ?s" by (simp add: spin)
  also have "\<dots> = (Some payload, ?s\<lparr>com2_in := [], rx_line := []\<rparr>)"
    using p spin by (intro Suc.IH) auto
  finally show ?case by simp
qed

section \<open>Properties\<close>

text \<open>
  Property: a query is answered. When the peer's response to this query (the line \<open>RESP\<close> with the
  query's own sequence number) arrives within the time-out, in however many pieces, the query returns
  the payload, cut to the caller's buffer; the request was sent with that number, the counter moved on
  and the bridge is ready again.
\<close>

theorem ai_query_answered:
  assumes s: "g_com2_hw s" "rx_line s = []" "com2_in s = []" and len: "2 \<le> max_len"
    and arr: "j < AI_RESP_TIMEOUT" "arr j \<noteq> []"
      "concat (map arr [0..<Suc j]) = ''RESP|'' @ dec_text (g_next_seq s) @ ''|'' @ payload @ [CHR 0x0A]"
    and payload: "\<And>c. c \<in> set payload \<Longrightarrow> c \<noteq> NUL \<and> line_char c" "length payload \<le> 495"
  shows "\<exists>s'. ai_query_sync arr (Some q) (Some buf) max_len s
      = ((int (min (length payload) (max_len - 1)), Some (c_strlcpy buf payload max_len)), s')
    \<and> com2_out s' = com2_out s @ ''REQ|'' @ dec_text (g_next_seq s) @ ''|'' @ cstr q @ [CHR 0x0A]
    \<and> g_next_seq s' = g_next_seq s + 1 \<and> ai_status s' = AI_STATUS_READY"
proof -
  let ?seq = "g_next_seq s" and ?before = "concat (map arr [0..<j])"
  define line where "line = ''RESP|'' @ dec_text ?seq @ ''|'' @ payload"
  define s1 where "s1 = ai_send_frame ''REQ'' ?seq q (s\<lparr>g_next_seq := ?seq + 1, ai_status := AI_STATUS_BUSY\<rparr>)"
  have whole: "?before @ arr j = line @ [CHR 0x0A]" using arr(3) by (simp add: line_def)
  obtain part c where part: "arr j = part @ [c]" using arr(2) by (metis rev_exhaust)
  with whole have c: "c = CHR 0x0A" "line = ?before @ part" by (simp_all flip: append_assoc)
  have clean: "line_char c" if "c \<in> set line" for c
    using that payload(1) dec_text_digits [of c ?seq] not_digit by (auto simp: line_def line_char_def)
  have "query_loop arr ?seq 0 AI_RESP_TIMEOUT s1 = (Some payload, s1\<lparr>com2_in := [], rx_line := []\<rparr>)"
  proof (rule query_loop_receives [where line = line and j = j and last_part = part])
    show "resp_payload ?seq line = Some payload" unfolding line_def using payload(1) by (intro resp_payload_own) blast
    show "line \<noteq> []" by (simp add: line_def)
    show "length line \<le> 511" using payload(2) length_dec_text [of ?seq] by (simp add: line_def)
    show "\<And>c. c \<in> set (concat (map (\<lambda>i. arr (0 + i)) [0..<j]) @ part) \<Longrightarrow> line_char c" using clean c(2) by simp
  qed (use arr(1) part c s in \<open>simp_all add: s1_def ai_send_frame_text\<close>)
  with s(1) len show ?thesis
    by (simp add: ai_query_sync_def Let_def s1_def [symmetric]) (simp add: s1_def ai_send_frame_text cstr_def)
qed

definition idle_bridge :: "unit ai_bridge" where
  "idle_bridge = \<lparr>ai_status = AI_STATUS_READY, g_com2_hw = True, g_next_seq = 12, g_tune_handler = None, g_remediate_handler = None,
     rx_line = [], com2_in = [], com2_out = []\<rparr>"

theorem ai_query_answered_witness:
  "\<exists>s'. ai_query_sync (\<lambda>k. if k = 3 then ''RESP|12|o'' else if k = 5 then ''k'' @ [CHR 0x0A] else []) (Some ''ping'') (Some (replicate 8 NUL)) 8 idle_bridge
     = ((2, Some (''ok'' @ replicate 6 NUL)), s') \<and> com2_out s' = ''REQ|12|ping'' @ [CHR 0x0A]"
proof -
  let ?arr = "\<lambda>k :: nat. if k = 3 then ''RESP|12|o'' else if k = 5 then ''k'' @ [CHR 0x0A] else []"
  have d: "dec_text 12 = ''12''" by code_simp
  have b: "c_strlcpy (replicate 8 NUL) ''ok'' 8 = ''ok'' @ replicate 6 NUL" by code_simp
  have a: "concat (map ?arr [0..<Suc 5]) = ''RESP|'' @ dec_text (g_next_seq idle_bridge) @ ''|'' @ ''ok'' @ [CHR 0x0A]"
    by (simp add: idle_bridge_def d upt_rec)
  have s: "g_com2_hw idle_bridge" "rx_line idle_bridge = []" "com2_in idle_bridge = []" by (simp_all add: idle_bridge_def)
  have "\<And>c. c \<in> set ''ok'' \<Longrightarrow> c \<noteq> NUL \<and> line_char c" by (auto simp: line_char_def)
  from ai_query_answered [OF s _ _ _ a this, of 8 "''ping''" "replicate 8 NUL"] show ?thesis
    by (auto simp: idle_bridge_def d b cstr_def)
qed

text \<open>
  Property: whatever the engine asks for, the kernel sets a scheduling quantum between 1 and 200
  only, never touches the priority of process 0, and does nothing without a scheduler.
\<close>

theorem ai_callbacks_bounded:
  "(case kernel_ai_tune_cb action v s of
      None \<Rightarrow> True
    | Some (scheduler_set_quantum q) \<Rightarrow> g_kernel_scheduler s \<and> 1 \<le> q \<and> q \<le> 200
    | Some (scheduler_set_priority pid p) \<Rightarrow> g_kernel_scheduler s \<and> pid \<noteq> 0)
   \<and> (case kernel_ai_remediate_cb action pid param s of
      None \<Rightarrow> True
    | Some (scheduler_set_quantum q) \<Rightarrow> g_kernel_scheduler s \<and> 1 \<le> q \<and> q \<le> 200
    | Some (scheduler_set_priority pid' p) \<Rightarrow> g_kernel_scheduler s \<and> pid' = pid \<and> pid \<noteq> 0)"
proof -
  have "1 \<le> w" if "w \<noteq> 0" for w :: u32 using that by (metis not_less word_less_1)
  then show ?thesis by (auto simp: kernel_ai_tune_cb_def kernel_ai_remediate_cb_def Let_def not_less)
qed

end
