(* ===== verification/Sandbox.thy ===== *)
theory Sandbox
  imports Ai_Bridge
begin

text \<open>
  Process sandboxing (\<open>kernel/security/sandbox.c\<close>): the system-call filter by capability and process
  type, the pool of security contexts, capabilities and the check of user pointers. Contexts are
  passed by value and returned updated; a denial is reported through the AI bridge.
\<close>

section \<open>Data\<close>

datatype PrivilegeRing = PRIV_RING_KERNEL | PRIV_RING_DRIVER | PRIV_RING_SYSTEM | PRIV_RING_USER

text \<open>An enumeration of C is an integer: \<open>PROC_TYPE_INVALID\<close> stands for the values that have no name.\<close>

datatype ProcessType = PROC_TYPE_KERNEL | PROC_TYPE_SYSTEM | PROC_TYPE_USER | PROC_TYPE_INVALID u32

abbreviation CAP_SERIAL_WRITE :: u64 where "CAP_SERIAL_WRITE \<equiv> 0x1"
abbreviation CAP_SERIAL_READ :: u64 where "CAP_SERIAL_READ \<equiv> 0x2"
abbreviation CAP_ALLOC_MEMORY :: u64 where "CAP_ALLOC_MEMORY \<equiv> 0x10"
abbreviation CAP_MAP_MEMORY :: u64 where "CAP_MAP_MEMORY \<equiv> 0x20"
abbreviation CAP_IPC_SEND :: u64 where "CAP_IPC_SEND \<equiv> 0x1000"
abbreviation CAP_IPC_RECEIVE :: u64 where "CAP_IPC_RECEIVE \<equiv> 0x2000"
abbreviation CAP_MODULE_LOAD :: u64 where "CAP_MODULE_LOAD \<equiv> 0x10000"
abbreviation CAP_MODULE_UNLOAD :: u64 where "CAP_MODULE_UNLOAD \<equiv> 0x20000"
abbreviation CAP_MODULE_EXECUTE :: u64 where "CAP_MODULE_EXECUTE \<equiv> 0x40000"
abbreviation CAP_SYS_DEBUG :: u64 where "CAP_SYS_DEBUG \<equiv> 0x100000"

definition CAP_KERNEL_ALL :: u64 where "CAP_KERNEL_ALL = 0xFFFFFFFFFFFFFFFF"

definition CAP_SYSTEM_DEFAULT :: u64 where
  "CAP_SYSTEM_DEFAULT = CAP_SERIAL_WRITE OR CAP_SERIAL_READ OR CAP_ALLOC_MEMORY OR CAP_MAP_MEMORY
     OR CAP_IPC_SEND OR CAP_IPC_RECEIVE OR CAP_SYS_DEBUG"

definition CAP_USER_DEFAULT :: u64 where
  "CAP_USER_DEFAULT = CAP_SERIAL_WRITE OR CAP_ALLOC_MEMORY OR CAP_IPC_SEND OR CAP_IPC_RECEIVE"

record UserMemoryLayout =
  user_base :: u32
  user_size :: u32
  stack_base :: u32
  stack_size :: u32
  heap_base :: u32
  heap_size :: u32

record SecurityContext =
  sc_pid :: u32
  proc_type :: ProcessType
  runtime_ring :: PrivilegeRing
  capabilities :: u64
  mem_layout :: UserMemoryLayout
  cr3_value :: u32
  max_memory :: u32
  max_open_files :: u32
  max_cpu_time :: u32
  created_at :: u64
  syscalls_made :: u64
  capability_denials :: u64

section \<open>The system-call filter\<close>

definition SYSTEM_ALLOWED_MASK :: u64 where
  "SYSTEM_ALLOWED_MASK = push_bit 0 1 OR push_bit 1 1 OR push_bit 2 1
     OR push_bit 20 1 OR push_bit 21 1 OR push_bit 22 1 OR push_bit 23 1
     OR push_bit 24 1 OR push_bit 25 1 OR push_bit 26 1 OR push_bit 27 1"

definition USER_ALLOWED_MASK :: u64 where
  "USER_ALLOWED_MASK = push_bit 0 1 OR push_bit 1 1 OR push_bit 2 1
     OR push_bit 20 1 OR push_bit 21 1 OR push_bit 22 1"

definition syscall_allowed_by_mask :: "u32 \<Rightarrow> u64 \<Rightarrow> bool" where
  "syscall_allowed_by_mask num m = (if num \<ge> 64 then False else drop_bit (unat num) m AND 1 \<noteq> 0)"

definition sandbox_has_capability :: "SecurityContext option \<Rightarrow> u64 \<Rightarrow> bool" where
  "sandbox_has_capability ctx cap = (case ctx of None \<Rightarrow> False | Some c \<Rightarrow> capabilities c AND cap = cap)"

definition sandbox_notify_deny :: "u32 \<Rightarrow> u32 \<Rightarrow> 'k ai_bridge \<Rightarrow> 'k ai_bridge" where
  "sandbox_notify_deny pid num br =
     (let text = (\<lambda>v. if v = 0 then ''0'' else rev (u64_digits 12 (unat (v :: u32))))
      in ai_send_event ''DENY'' (Some (ai_build_event 48 (Some (text pid)) (Some (text num)) None)) br)"

text \<open>The capability a call needs before the white list is consulted, by the cases of the switch.\<close>

definition syscall_capability :: "u32 \<Rightarrow> u64 option" where
  "syscall_capability num =
     (if num = 20 \<or> num = 21 \<or> num = 22 \<or> num = 26 \<or> num = 27 then Some (CAP_IPC_SEND OR CAP_IPC_RECEIVE)
      else if num = 28 \<or> num = 29 then Some (CAP_MODULE_LOAD OR CAP_MODULE_UNLOAD)
      else if num = 31 then Some CAP_MODULE_EXECUTE
      else None)"

definition sandbox_check_syscall :: "SecurityContext option \<Rightarrow> u32 \<Rightarrow> 'k ai_bridge \<Rightarrow> bool \<times> 'k ai_bridge" where
  "sandbox_check_syscall ctx num br =
     (case ctx of
        None \<Rightarrow> (False, br)
      | Some c \<Rightarrow>
          if proc_type c = PROC_TYPE_KERNEL then (True, br)
          else if (case syscall_capability num of Some cap \<Rightarrow> \<not> sandbox_has_capability ctx cap | None \<Rightarrow> False)
            then (False, sandbox_notify_deny (sc_pid c) num br)
          else if proc_type c = PROC_TYPE_SYSTEM then
            let ok = syscall_allowed_by_mask num SYSTEM_ALLOWED_MASK in (ok, if ok then br else sandbox_notify_deny (sc_pid c) num br)
          else if proc_type c = PROC_TYPE_USER then
            let ok = syscall_allowed_by_mask num USER_ALLOWED_MASK in (ok, if ok then br else sandbox_notify_deny (sc_pid c) num br)
          else (False, sandbox_notify_deny (sc_pid c) num br))"

section \<open>Processes and capabilities\<close>

record sandbox_pool =
  pool :: "SecurityContext list"
  pool_idx :: nat

definition sandbox_create_process :: "ProcessType \<Rightarrow> sandbox_pool \<Rightarrow> nat option \<times> sandbox_pool" where
  "sandbox_create_process type p =
     (if pool_idx p \<ge> 16 then (None, p)
      else let i = pool_idx p;
               c = (pool p ! i)\<lparr>sc_pid := of_nat i, proc_type := type, capability_denials := 0, syscalls_made := 0,
                 capabilities := (if type = PROC_TYPE_KERNEL then CAP_KERNEL_ALL
                    else if type = PROC_TYPE_SYSTEM then CAP_SYSTEM_DEFAULT else CAP_USER_DEFAULT),
                 runtime_ring := (if type = PROC_TYPE_KERNEL then PRIV_RING_KERNEL
                    else if type = PROC_TYPE_SYSTEM then PRIV_RING_SYSTEM else PRIV_RING_USER),
                 max_memory := (if type = PROC_TYPE_USER then 512 * 1024 else 2 * 1024 * 1024),
                 max_open_files := (if type = PROC_TYPE_USER then 32 else 256),
                 max_cpu_time := (if type = PROC_TYPE_USER then 5000 else 0)\<rparr>
        in (Some i, p\<lparr>pool := (pool p)[i := c], pool_idx := i + 1\<rparr>))"

definition sandbox_destroy_process :: "nat option \<Rightarrow> sandbox_pool \<Rightarrow> sandbox_pool" where
  "sandbox_destroy_process ctx p = p"

definition sandbox_grant_capability :: "u64 \<Rightarrow> SecurityContext \<Rightarrow> SecurityContext" where
  "sandbox_grant_capability cap c = c\<lparr>capabilities := capabilities c OR cap\<rparr>"

definition sandbox_revoke_capability :: "u64 \<Rightarrow> SecurityContext \<Rightarrow> SecurityContext" where
  "sandbox_revoke_capability cap c = c\<lparr>capabilities := capabilities c AND NOT cap\<rparr>"

section \<open>Memory\<close>

definition sandbox_setup_user_memory :: "u32 \<Rightarrow> u32 \<Rightarrow> SecurityContext \<Rightarrow> SecurityContext" where
  "sandbox_setup_user_memory base sz c =
     c\<lparr>mem_layout := \<lparr>user_base = base, user_size = sz, stack_base = base + sz - 4096, stack_size = 4096,
        heap_base = base, heap_size = (base + sz - 4096) - base\<rparr>\<rparr>"

definition sandbox_validate_user_pointer :: "SecurityContext option \<Rightarrow> u32 \<Rightarrow> u32 \<Rightarrow> bool" where
  "sandbox_validate_user_pointer ctx addr sz =
     (case ctx of
        None \<Rightarrow> True
      | Some c \<Rightarrow>
          if proc_type c = PROC_TYPE_KERNEL then True
          else let stop = addr + sz in
            \<not> (addr < user_base (mem_layout c) \<or> stop > user_base (mem_layout c) + user_size (mem_layout c)))"

section \<open>The filter against the table of permitted calls\<close>

text \<open>The table of \<open>docs/kernel/SECURITY.md\<close>, which is also that of the comments in the code.\<close>

definition documented_calls :: "ProcessType \<Rightarrow> nat set" where
  "documented_calls type = (case type of
     PROC_TYPE_KERNEL \<Rightarrow> {0..32}
   | PROC_TYPE_SYSTEM \<Rightarrow> {0, 1, 2} \<union> {20..27}
   | PROC_TYPE_USER \<Rightarrow> {0, 1, 2} \<union> {20..22}
   | PROC_TYPE_INVALID _ \<Rightarrow> {})"

text \<open>
  The calls that need both message capabilities, by the names that \<open>include/ipc.h\<close> gives to the numbers: sending, receiving, the creation of
  a mailbox, reading a channel and closing it. Writing to a channel (25) is not among them.
\<close>

definition ipc_calls :: "nat set" where "ipc_calls = {20, 21, 22, 26, 27}"

lemma mask_bits:
  "bit SYSTEM_ALLOWED_MASK n \<longleftrightarrow> n \<in> {0, 1, 2} \<union> {20..27}"
  "bit USER_ALLOWED_MASK n \<longleftrightarrow> n \<in> {0, 1, 2} \<union> {20..22}"
proof -
  have "\<forall>n\<in>set [0..<64]. bit SYSTEM_ALLOWED_MASK n = (n \<le> 2 \<or> 20 \<le> n \<and> n \<le> 27)"
    "\<forall>n\<in>set [0..<64]. bit USER_ALLOWED_MASK n = (n \<le> 2 \<or> 20 \<le> n \<and> n \<le> 22)" by code_simp+
  moreover have "n < 64" if "bit w n" for w :: u64 using bit_imp_le_length [OF that] by simp
  ultimately show "bit SYSTEM_ALLOWED_MASK n \<longleftrightarrow> n \<in> {0, 1, 2} \<union> {20..27}" "bit USER_ALLOWED_MASK n \<longleftrightarrow> n \<in> {0, 1, 2} \<union> {20..22}"
    by (cases "n < 64"; auto)+
qed

lemma syscall_allowed_by_mask_bit:
  "syscall_allowed_by_mask num m \<longleftrightarrow> unat num < 64 \<and> bit m (unat num)"
  by (auto simp: syscall_allowed_by_mask_def word_le_nat_alt not_le and_one_eq odd_iff_mod_2_eq_one [symmetric] bit_iff_odd_drop_bit)

text \<open>What a process other than the kernel's may call: the table of its type, and for the calls on messages both capabilities.\<close>

definition call_permitted :: "SecurityContext \<Rightarrow> nat \<Rightarrow> bool" where
  "call_permitted c n \<longleftrightarrow> n \<in> documented_calls (proc_type c) \<and> (n \<in> ipc_calls \<longrightarrow> bit (capabilities c) 12 \<and> bit (capabilities c) 13)"

lemma ipc_capability: "w AND (CAP_IPC_SEND OR CAP_IPC_RECEIVE) = CAP_IPC_SEND OR CAP_IPC_RECEIVE \<longleftrightarrow> bit w 12 \<and> bit w 13"
proof -
  have "\<forall>n\<in>set [0..<64]. bit (0x3000 :: u64) n = (n = 12 \<or> n = 13)" by code_simp
  then have "bit (0x3000 :: u64) n = (n = 12 \<or> n = 13)" if "n < 64" for n using that by simp
  then have "w AND 0x3000 = 0x3000 \<longleftrightarrow> (\<forall>n<64. n = 12 \<or> n = 13 \<longrightarrow> bit w n)"
    by (auto simp: bit_eq_iff [where a = "w AND v" for v] bit_and_iff)
  also have "\<dots> \<longleftrightarrow> bit w 12 \<and> bit w 13"
  proof
    assume "\<forall>n<64. n = 12 \<or> n = 13 \<longrightarrow> bit w n"
    from spec [OF this, of 12] spec [OF this, of 13] show "bit w 12 \<and> bit w 13" by simp
  qed auto
  finally show ?thesis by simp
qed

lemma unat_cases:
  "num = 20 \<longleftrightarrow> unat num = 20" "num = 21 \<longleftrightarrow> unat num = 21" "num = 22 \<longleftrightarrow> unat num = 22" "num = 26 \<longleftrightarrow> unat num = 26"
  "num = 27 \<longleftrightarrow> unat num = 27" "num = 28 \<longleftrightarrow> unat num = 28" "num = 29 \<longleftrightarrow> unat num = 29" "num = 31 \<longleftrightarrow> unat num = 31"
  for num :: u32
  by (simp_all add: word_unat_eq_iff)

lemma check_syscall_allows:
  assumes "proc_type c \<noteq> PROC_TYPE_KERNEL"
  shows "fst (sandbox_check_syscall (Some c) num br) \<longleftrightarrow> unat num \<in> documented_calls (proc_type c)
    \<and> (case syscall_capability num of Some cap \<Rightarrow> capabilities c AND cap = cap | None \<Rightarrow> True)"
  using assms
  by (cases "proc_type c")
     (auto simp: sandbox_check_syscall_def Let_def sandbox_has_capability_def syscall_allowed_by_mask_bit mask_bits
       documented_calls_def split: option.splits)

section \<open>Properties\<close>

text \<open>
  Property C33: what the filter lets through, exactly. For a process that is not the kernel's, a call passes if and only if it is in the
  documented table of the process type and, for sending, receiving, creating a mailbox, reading and closing a channel, the process holds
  both message capabilities; a process of no known type passes nothing. Whatever is refused is reported once, what passes is not.
  The filter is wider than the documents in two places, and narrower in one: a process of the kernel passes every number and not only 0 to 32;
  a system process writes to a channel (25) with no capability at all; and a refusal for want of a context is not reported.
\<close>

theorem sandbox_filter_exact:
  "(proc_type c \<noteq> PROC_TYPE_KERNEL \<longrightarrow> sandbox_check_syscall (Some c) num br =
       (call_permitted c (unat num), if call_permitted c (unat num) then br else sandbox_notify_deny (sc_pid c) num br))
   \<and> (proc_type c = PROC_TYPE_KERNEL \<longrightarrow> sandbox_check_syscall (Some c) num br = (True, br))
   \<and> (proc_type c = PROC_TYPE_SYSTEM \<longrightarrow> sandbox_check_syscall (Some (c\<lparr>capabilities := 0\<rparr>)) 25 br = (True, br))
   \<and> sandbox_check_syscall None num br = (False, br)"
proof (intro conjI impI)
  assume nk: "proc_type c \<noteq> PROC_TYPE_KERNEL"
  let ?cap = "case syscall_capability num of Some cap \<Rightarrow> capabilities c AND cap = cap | None \<Rightarrow> True"
  have "?cap \<longleftrightarrow> (unat num \<in> ipc_calls \<longrightarrow> bit (capabilities c) 12 \<and> bit (capabilities c) 13)"
    if "unat num \<in> documented_calls (proc_type c)"
    using that nk ipc_capability [of "capabilities c"]
    by (cases "proc_type c") (auto simp: syscall_capability_def unat_cases ipc_calls_def documented_calls_def)
  then have "fst (sandbox_check_syscall (Some c) num br) = call_permitted c (unat num)"
    using check_syscall_allows [OF nk] by (auto simp: call_permitted_def)
  moreover have "snd (sandbox_check_syscall (Some c) num br) =
      (if fst (sandbox_check_syscall (Some c) num br) then br else sandbox_notify_deny (sc_pid c) num br)"
    using nk by (auto simp: sandbox_check_syscall_def Let_def)
  ultimately show "sandbox_check_syscall (Some c) num br =
       (call_permitted c (unat num), if call_permitted c (unat num) then br else sandbox_notify_deny (sc_pid c) num br)" by (simp add: prod_eq_iff)
next
  assume "proc_type c = PROC_TYPE_SYSTEM"
  then show "sandbox_check_syscall (Some (c\<lparr>capabilities := 0\<rparr>)) 25 br = (True, br)"
    by (simp add: sandbox_check_syscall_def syscall_capability_def syscall_allowed_by_mask_bit mask_bits)
qed (simp_all add: sandbox_check_syscall_def)

text \<open>
  Property: for a range that does not run over the end of the address space, the pointer check is
  exact: it accepts the range if and only if it lies inside the region of the process.
\<close>

theorem sandbox_pointer_exact:
  assumes "proc_type c \<noteq> PROC_TYPE_KERNEL" "unat addr + unat sz < 2 ^ 32"
    and "unat (user_base (mem_layout c)) + unat (user_size (mem_layout c)) < 2 ^ 32"
  shows "sandbox_validate_user_pointer (Some c) addr sz \<longleftrightarrow>
    unat (user_base (mem_layout c)) \<le> unat addr
    \<and> unat addr + unat sz \<le> unat (user_base (mem_layout c)) + unat (user_size (mem_layout c))"
proof -
  have "unat (addr + sz) = unat addr + unat sz"
    "unat (user_base (mem_layout c) + user_size (mem_layout c)) = unat (user_base (mem_layout c)) + unat (user_size (mem_layout c))"
    using assms(2,3) by (simp_all add: unat_word_ariths)
  with assms(1) show ?thesis
    by (auto simp: sandbox_validate_user_pointer_def Let_def word_less_nat_alt not_less)
qed

definition demo_ctx :: SecurityContext where
  "demo_ctx = sandbox_setup_user_memory 0x100000 0x80000
     \<lparr>sc_pid = 5, proc_type = PROC_TYPE_USER, runtime_ring = PRIV_RING_USER, capabilities = CAP_USER_DEFAULT,
      mem_layout = \<lparr>user_base = 0, user_size = 0, stack_base = 0, stack_size = 0, heap_base = 0, heap_size = 0\<rparr>,
      cr3_value = 0, max_memory = 0, max_open_files = 32, max_cpu_time = 5000, created_at = 0, syscalls_made = 0, capability_denials = 0\<rparr>"

theorem sandbox_filter_exact_witness:
  "\<forall>br. sandbox_check_syscall (Some demo_ctx) 20 br = (True, br) \<and> sandbox_check_syscall (Some demo_ctx) 25 br = (False, sandbox_notify_deny 5 25 br)"
proof
  fix br :: "'k ai_bridge"
  have "bit CAP_USER_DEFAULT 12" "bit CAP_USER_DEFAULT 13" by code_simp+
  then show "sandbox_check_syscall (Some demo_ctx) 20 br = (True, br) \<and> sandbox_check_syscall (Some demo_ctx) 25 br = (False, sandbox_notify_deny 5 25 br)"
    using sandbox_filter_exact [of demo_ctx 20 br] sandbox_filter_exact [of demo_ctx 25 br]
    by (simp add: call_permitted_def documented_calls_def demo_ctx_def sandbox_setup_user_memory_def)
qed

theorem sandbox_pointer_exact_witness:
  "sandbox_validate_user_pointer (Some demo_ctx) 0x100010 64 \<and> \<not> sandbox_validate_user_pointer (Some demo_ctx) 0x17FFFF 64"
  using sandbox_pointer_exact [of demo_ctx "0x100010" 64] sandbox_pointer_exact [of demo_ctx "0x17FFFF" 64]
  by (simp add: demo_ctx_def sandbox_setup_user_memory_def)

text \<open>
  Property: the end of the range is computed in 32 bits. A range that starts in or above the region of
  the process and is long enough to wrap around to an address below the region's end passes the check,
  although it covers everything from its start to the top of the address space.
\<close>

theorem sandbox_pointer_wraps:
  assumes "proc_type c \<noteq> PROC_TYPE_KERNEL" "user_base (mem_layout c) \<le> addr"
    and wrap: "2 ^ 32 \<le> unat addr + unat sz"
    and "unat addr + unat sz - 2 ^ 32 \<le> unat (user_base (mem_layout c) + user_size (mem_layout c))"
  shows "sandbox_validate_user_pointer (Some c) addr sz"
proof -
  have "unat addr < 2 ^ 32" "unat sz < 2 ^ 32"
    using unsigned_less [of addr, where ?'a = nat] unsigned_less [of sz, where ?'a = nat] by simp_all
  with wrap have "unat (addr + sz) = unat addr + unat sz - 2 ^ 32"
    by (simp add: unat_word_ariths le_mod_geq)
  with assms show ?thesis
    by (simp add: sandbox_validate_user_pointer_def Let_def word_less_nat_alt word_le_nat_alt not_less)
qed

theorem sandbox_pointer_wraps_witness: "sandbox_validate_user_pointer (Some demo_ctx) 0x80000000 0x80000000"
  by (rule sandbox_pointer_wraps) (simp_all add: demo_ctx_def sandbox_setup_user_memory_def word_le_nat_alt)

end
