(* ===== verification/Cli_Text.thy ===== *)
theory Cli_Text
  imports Vernis_Prelude
begin

text \<open>
  The text side of the shell (\<open>kernel/shell/cli.c\<close>): string helpers, number parsers, the console with
  its capture buffer and pipe input, \<open>cli_printf\<close>, the tokenizer of a command and the splitting of a
  line at \<open>;\<close>, \<open>&&\<close> and \<open>||\<close>. The screen is the text written to it. \<open>cli_printf\<close> takes its variable
  arguments as a list; a missing argument, which C leaves undefined, prints nothing.
\<close>

section \<open>Strings and numbers\<close>

definition cli_strcmp :: "cstring \<Rightarrow> cstring \<Rightarrow> int" where
  "cli_strcmp a b = c_strcmp a b"

definition cli_streq :: "cstring \<Rightarrow> cstring \<Rightarrow> bool" where
  "cli_streq a b \<longleftrightarrow> cli_strcmp a b = 0"

text \<open>The copy stores the characters of \<open>src\<close> and a terminator in the last place only.\<close>

definition cli_strcpy :: "cstring \<Rightarrow> cstring \<Rightarrow> nat \<Rightarrow> cstring" where
  "cli_strcpy dst src mx = (let s = take (mx - 1) (cstr src) in (s @ drop (length s) dst)[mx - 1 := NUL])"

fun atoi_loop :: "u32 \<Rightarrow> cstring \<Rightarrow> u32" where
  "atoi_loop v [] = v"
| "atoi_loop v (c # cs) =
     (if is_digit c then atoi_loop (v * 10 + (of_nat (of_char c) - 48)) cs else v)"

definition simple_atoi :: "cstring \<Rightarrow> int" where
  "simple_atoi s = sint (atoi_loop 0 s)"

fun parse_ip_loop :: "u32 list \<Rightarrow> nat \<Rightarrow> cstring \<Rightarrow> (u32 list \<times> nat) option" where
  "parse_ip_loop vals seg [] = Some (vals, seg)"
| "parse_ip_loop vals seg (c # cs) =
     (if is_digit c
      then parse_ip_loop (vals[seg := vals ! seg * 10 + (of_nat (of_char c) - 48)]) seg cs
      else if c = CHR ''.'' then (if seg + 1 > 3 then Some (vals, seg + 1) else parse_ip_loop vals (seg + 1) cs)
      else None)"

text \<open>\<open>None\<close> is the result 0, otherwise the four numbers.\<close>

definition cli_parse_ip :: "cstring \<Rightarrow> u32 list option" where
  "cli_parse_ip s =
     (case parse_ip_loop [0, 0, 0, 0] 0 (cstr s) of
        None \<Rightarrow> None
      | Some (vals, seg) \<Rightarrow> if seg \<noteq> 3 then None else Some vals)"

fun cli_parse_octal_loop :: "u16 \<Rightarrow> cstring \<Rightarrow> u16" where
  "cli_parse_octal_loop v [] = v"
| "cli_parse_octal_loop v (c # cs) =
     (if is_digit c \<and> of_char c \<le> (55 :: nat) then cli_parse_octal_loop (v * 8 + (of_nat (of_char c) - 48)) cs else v)"

definition cli_parse_octal :: "cstring \<Rightarrow> u16" where
  "cli_parse_octal s = cli_parse_octal_loop 0 s"

fun prefix_of :: "cstring \<Rightarrow> cstring \<Rightarrow> bool" where
  "prefix_of [] h = True"
| "prefix_of (n # ns) [] = False"
| "prefix_of (n # ns) (h # hs) = (n = h \<and> prefix_of ns hs)"

fun contains_loop :: "cstring \<Rightarrow> cstring \<Rightarrow> bool" where
  "contains_loop [] needle = False"
| "contains_loop (h # hs) needle = (prefix_of needle (h # hs) \<or> contains_loop hs needle)"

definition cli_str_contains :: "cstring option \<Rightarrow> cstring option \<Rightarrow> bool" where
  "cli_str_contains haystack needle =
     (case (haystack, needle) of
        (Some h, Some n) \<Rightarrow> cstr n = [] \<or> contains_loop (cstr h) (cstr n)
      | _ \<Rightarrow> False)"

section \<open>Console\<close>

abbreviation CLI_PIPE_BUF_SIZE :: nat where "CLI_PIPE_BUF_SIZE \<equiv> 8192"

text \<open>\<open>cap_buf\<close> and \<open>pipe_in\<close> are the filled parts of their buffers.\<close>

record console =
  cap_active :: bool
  cap_echo :: bool
  cap_buf :: cstring
  pipe_in :: cstring
  screen :: cstring

definition cli_capture_begin :: "bool \<Rightarrow> console \<Rightarrow> console" where
  "cli_capture_begin echo c = c\<lparr>cap_active := True, cap_echo := echo, cap_buf := []\<rparr>"

definition cli_capture_end :: "nat \<Rightarrow> console \<Rightarrow> cstring \<times> console" where
  "cli_capture_end mx c =
     (let copy = (if length (cap_buf c) < mx - 1 then length (cap_buf c) else mx - 1)
      in (take copy (cap_buf c), c\<lparr>cap_buf := take copy (cap_buf c), cap_active := False, cap_echo := True\<rparr>))"

definition cli_pipe_set_input :: "cstring \<Rightarrow> console \<Rightarrow> console" where
  "cli_pipe_set_input buf c =
     (if length buf = 0 then c\<lparr>pipe_in := []\<rparr>
      else c\<lparr>pipe_in := take (if length buf \<ge> CLI_PIPE_BUF_SIZE then CLI_PIPE_BUF_SIZE - 1 else length buf) buf\<rparr>)"

definition cli_pipe_clear_input :: "console \<Rightarrow> console" where
  "cli_pipe_clear_input c = c\<lparr>pipe_in := []\<rparr>"

definition cli_pipe_has_input :: "console \<Rightarrow> bool" where
  "cli_pipe_has_input c \<longleftrightarrow> length (pipe_in c) > 0"

definition cli_pipe_copy_input :: "nat \<Rightarrow> console \<Rightarrow> cstring option" where
  "cli_pipe_copy_input mx c =
     (if mx = 0 \<or> \<not> cli_pipe_has_input c then None
      else Some (take (if length (pipe_in c) < mx then length (pipe_in c) else mx) (pipe_in c)))"

definition write_char :: "char \<Rightarrow> console \<Rightarrow> console" where
  "write_char ch c =
     (let c1 = (if cap_active c \<and> length (cap_buf c) < CLI_PIPE_BUF_SIZE - 1 then c\<lparr>cap_buf := cap_buf c @ [ch]\<rparr> else c)
      in if \<not> cap_active c1 \<or> cap_echo c1 then c1\<lparr>screen := screen c1 @ [ch]\<rparr> else c1)"

definition cli_write_raw :: "cstring \<Rightarrow> console \<Rightarrow> console" where
  "cli_write_raw s c = fold write_char (cstr s) c"

definition cli_putchar :: "char \<Rightarrow> console \<Rightarrow> console" where
  "cli_putchar ch c = cli_write_raw [ch] c"

section \<open>Formatted output\<close>

definition uint_text :: "u32 \<Rightarrow> cstring" where
  "uint_text v = (if v = 0 then ''0'' else rev (u64_digits 16 (unat v)))"

definition cli_write_uint_dec :: "u32 \<Rightarrow> console \<Rightarrow> console" where
  "cli_write_uint_dec v c = fold cli_putchar (uint_text v) c"

definition cli_write_int_dec :: "u32 \<Rightarrow> console \<Rightarrow> console" where
  "cli_write_int_dec v c = (if sint v < 0 then cli_write_uint_dec (- v) (cli_write_raw ''-'' c) else cli_write_uint_dec v c)"

definition hex_char :: "u32 \<Rightarrow> char" where
  "hex_char d = (if d < 10 then char_of (48 + unat d) else char_of (65 + unat d - 10))"

definition cli_write_hex32 :: "u32 \<Rightarrow> console \<Rightarrow> console" where
  "cli_write_hex32 v c = cli_write_raw (map (\<lambda>i. hex_char (drop_bit (4 * i) v AND 0x0F)) (rev [0..<8])) c"

definition pad :: "nat \<Rightarrow> console \<Rightarrow> console" where
  "pad n c = fold cli_putchar (replicate n (CHR '' '')) c"

definition cli_print_field_s :: "cstring option \<Rightarrow> nat \<Rightarrow> bool \<Rightarrow> console \<Rightarrow> console" where
  "cli_print_field_s s width left c =
     (let text = cstr (case s of Some t \<Rightarrow> t | None \<Rightarrow> []);
          len = (if length text > width then width else length text);
          c1 = (if \<not> left then pad (width - len) c else c);
          c2 = fold cli_putchar (take len text) c1
      in if left then pad (width - len) c2 else c2)"

text \<open>For the most negative number the negation is that number again and no digit is printed.\<close>

definition int_field :: "u32 \<Rightarrow> cstring" where
  "int_field v = (let neg = sint v < 0; a = (if neg then - v else v)
     in (if neg then ''-'' else []) @ (if a = 0 then ''0'' else if sint a > 0 then rev (u64_digits 12 (unat a)) else []))"

definition cli_print_field_d :: "u32 \<Rightarrow> nat \<Rightarrow> bool \<Rightarrow> console \<Rightarrow> console" where
  "cli_print_field_d v width left c =
     (let text = int_field v;
          c1 = (if \<not> left then pad (width - length text) c else c);
          c2 = fold cli_putchar text c1
      in if left then pad (width - length text) c2 else c2)"

datatype printf_arg = StrArg "cstring option" | IntArg u32

fun print_arg :: "char \<Rightarrow> nat \<Rightarrow> bool \<Rightarrow> printf_arg list \<Rightarrow> console \<Rightarrow> printf_arg list \<times> console" where
  "print_arg conv width left args c =
     (if conv = CHR ''s'' then
        (case args of
           StrArg s # as \<Rightarrow> (as, if width > 0 then cli_print_field_s s width left c
              else (case s of Some t \<Rightarrow> cli_write_raw t c | None \<Rightarrow> c))
         | _ \<Rightarrow> (args, c))
      else if conv = CHR ''d'' \<or> conv = CHR ''u'' then
        (case args of
           IntArg v # as \<Rightarrow> (as, if width > 0 then cli_print_field_d v width left c else cli_write_int_dec v c)
         | _ \<Rightarrow> (args, c))
      else if conv = CHR ''x'' then
        (case args of IntArg v # as \<Rightarrow> (as, cli_write_hex32 v c) | _ \<Rightarrow> (args, c))
      else if conv = CHR ''%'' then (args, cli_putchar (CHR ''%'') c)
      else (args, c))"

fun parse_width :: "nat \<Rightarrow> cstring \<Rightarrow> nat \<times> cstring" where
  "parse_width w [] = (w, [])"
| "parse_width w (c # cs) =
     (if is_digit c then parse_width (w * 10 + (of_char c - 48)) cs else (w, c # cs))"

lemma parse_width_shorter: "length (snd (parse_width w cs)) \<le> length cs"
  by (induction w cs rule: parse_width.induct) auto

lemma length_dropWhile_flags: "length (dropWhile P xs) \<le> length xs"
  by (simp add: length_dropWhile_le)

lemma directive_shorter:
  "length (snd (parse_width 0 (dropWhile P (if b then tl q else q)))) \<le> length q"
  using parse_width_shorter [of 0 "dropWhile P (if b then tl q else q)"] length_dropWhile_le [of P "if b then tl q else q"]
  by (auto split: if_splits)

text \<open>A format that ends inside a directive makes the C loop run behind its terminator; here printing stops.\<close>

function printf_loop :: "cstring \<Rightarrow> printf_arg list \<Rightarrow> console \<Rightarrow> console" where
  "printf_loop [] args c = c"
| "printf_loop (p # ps) args c =
     (if p = CHR ''%'' \<and> ps \<noteq> [] then
        let left = hd ps = CHR ''-'';
            q = dropWhile (\<lambda>x. x = CHR ''+'' \<or> x = CHR '' '') (if left then tl ps else ps);
            r = parse_width 0 q
        in (case snd r of
              [] \<Rightarrow> c
            | conv # rest \<Rightarrow>
                let a = print_arg conv (fst r) left args c in printf_loop rest (fst a) (snd a))
      else if p = CHR 0x0A then printf_loop ps args (cli_putchar (CHR 0x0A) c)
      else if p = CHR 0x09 then printf_loop ps args (cli_write_raw ''    '' c)
      else printf_loop ps args (cli_putchar p c))"
  by pat_completeness auto
termination
proof (relation "measure (\<lambda>(fmt, args, c). length fmt)", goal_cases)
  case (2 p ps args c left q r conv rest a)
  then have "length (conv # rest) \<le> length ps"
    using directive_shorter [of "\<lambda>x. x = CHR ''+'' \<or> x = CHR '' ''" "hd ps = CHR ''-''" ps] by simp
  then show ?case by simp
qed auto

definition cli_printf :: "cstring \<Rightarrow> printf_arg list \<Rightarrow> console \<Rightarrow> console" where
  "cli_printf fmt args c = printf_loop (cstr fmt) args c"

section \<open>Commands\<close>

abbreviation CLI_MAX_INPUT_LEN :: nat where "CLI_MAX_INPUT_LEN \<equiv> 256"
abbreviation CLI_MAX_ARGS :: nat where "CLI_MAX_ARGS \<equiv> 16"

definition CLI_OK :: int where "CLI_OK = 0"
definition CLI_ERR_UNKNOWN_CMD :: int where "CLI_ERR_UNKNOWN_CMD = -1"
definition CLI_ERR_SYNTAX :: int where "CLI_ERR_SYNTAX = -2"
definition CLI_ERR_NO_PERMISSION :: int where "CLI_ERR_NO_PERMISSION = -3"
definition CLI_ERR_EXEC_FAILED :: int where "CLI_ERR_EXEC_FAILED = -4"

text \<open>The strings that the pointers of the structure end up pointing to; \<open>argc\<close> is the length of \<open>argv\<close>.\<close>

record ParsedCommand =
  argv :: "cstring list"
  background :: bool
  input_redirect :: "cstring option"
  output_redirect :: "cstring option"
  pipe_to :: "cstring option"

definition no_command :: ParsedCommand where
  "no_command = \<lparr>argv = [], background = False, input_redirect = None, output_redirect = None, pipe_to = None\<rparr>"

definition blank :: "char \<Rightarrow> bool" where
  "blank c \<longleftrightarrow> c = CHR '' '' \<or> c = CHR 0x09"

definition token_end :: "char \<Rightarrow> bool" where
  "token_end c \<longleftrightarrow> blank c \<or> c = CHR ''&'' \<or> c = CHR ''<'' \<or> c = CHR ''>''"

definition file_word :: "cstring \<Rightarrow> cstring" where
  "file_word p = takeWhile (\<lambda>c. \<not> blank c) (dropWhile (\<lambda>c. c = CHR '' '') p)"

definition after_file_word :: "cstring \<Rightarrow> cstring" where
  "after_file_word p = (let q = dropWhile (\<lambda>c. c = CHR '' '') p in drop (Suc (length (file_word p))) q)"

lemma after_file_word_shorter: "length (after_file_word p) \<le> length p"
  using length_dropWhile_le [of "\<lambda>c. c = CHR '' ''" p] by (simp add: after_file_word_def Let_def)

lemma skipped_shorter: "dropWhile P p \<noteq> [] \<Longrightarrow> length (tl (dropWhile P p)) < length p"
  using length_dropWhile_le [of P p] by (cases "dropWhile P p") auto

function tokenize :: "cstring \<Rightarrow> ParsedCommand \<Rightarrow> ParsedCommand" where
  "tokenize p cmd =
     (if p = [] \<or> length (argv cmd) \<ge> CLI_MAX_ARGS then cmd
      else let q = dropWhile blank p in
        if q = [] then cmd
        else if hd q = CHR ''&'' then tokenize (tl q) (cmd\<lparr>background := True\<rparr>)
        else if hd q = CHR ''<'' then tokenize (after_file_word (tl q)) (cmd\<lparr>input_redirect := Some (file_word (tl q))\<rparr>)
        else if hd q = CHR ''>'' then tokenize (after_file_word (tl q)) (cmd\<lparr>output_redirect := Some (file_word (tl q))\<rparr>)
        else if hd q = CHR ''|'' then cmd\<lparr>pipe_to := Some (dropWhile (\<lambda>c. c = CHR '' '') (tl q))\<rparr>
        else let t = takeWhile (\<lambda>c. \<not> token_end c) q
          in tokenize (drop (Suc (length t)) q) (cmd\<lparr>argv := argv cmd @ [t]\<rparr>))"
  by pat_completeness auto
termination
proof (relation "measure (\<lambda>(p, cmd). length p)", goal_cases)
  case (2 p cmd q)
  then show ?case using skipped_shorter by simp
next
  case (3 p cmd q)
  then show ?case using skipped_shorter [of blank p] after_file_word_shorter [of "tl q"] by simp
next
  case (4 p cmd q)
  then show ?case using skipped_shorter [of blank p] after_file_word_shorter [of "tl q"] by simp
next
  case (5 p cmd q t)
  then have "length (drop (Suc (length t)) q) \<le> length (tl q)" "length (tl q) < length p" using skipped_shorter [of blank p] by simp_all
  then have "length (drop (Suc (length t)) q) < length p" by (rule le_less_trans)
  then show ?case by simp
qed auto

declare tokenize.simps [simp del]

lemma tokenize_stop: "dropWhile blank p = [] \<or> CLI_MAX_ARGS \<le> length (argv cmd) \<Longrightarrow> tokenize p cmd = cmd"
  by (subst tokenize.simps) (auto simp: Let_def)

lemma tokenize_step:
  assumes "dropWhile blank p = c # cs" "length (argv cmd) < CLI_MAX_ARGS"
  shows "tokenize p cmd =
     (if c = CHR ''&'' then tokenize cs (cmd\<lparr>background := True\<rparr>)
      else if c = CHR ''<'' then tokenize (after_file_word cs) (cmd\<lparr>input_redirect := Some (file_word cs)\<rparr>)
      else if c = CHR ''>'' then tokenize (after_file_word cs) (cmd\<lparr>output_redirect := Some (file_word cs)\<rparr>)
      else if c = CHR ''|'' then cmd\<lparr>pipe_to := Some (dropWhile (\<lambda>c. c = CHR '' '') cs)\<rparr>
      else tokenize (drop (Suc (length (takeWhile (\<lambda>c. \<not> token_end c) (c # cs)))) (c # cs))
             (cmd\<lparr>argv := argv cmd @ [takeWhile (\<lambda>c. \<not> token_end c) (c # cs)]\<rparr>))"
proof -
  have "p \<noteq> []" using assms(1) by auto
  then show ?thesis unfolding tokenize.simps [of p cmd] Let_def using assms by (simp del: takeWhile.simps)
qed

text \<open>What a bar leaves for the next command is shorter than what was read.\<close>

lemma tokenize_pipe_shorter:
  "pipe_to cmd = None \<Longrightarrow> pipe_to (tokenize p cmd) = Some r \<Longrightarrow> length r < length p"
proof (induction "length p" arbitrary: p cmd rule: less_induct)
  case less
  show ?case
  proof (cases "dropWhile blank p = [] \<or> CLI_MAX_ARGS \<le> length (argv cmd)")
    case True
    with less.prems show ?thesis by (simp add: tokenize_stop)
  next
    case False
    then obtain c cs where q: "dropWhile blank p = c # cs" and room: "length (argv cmd) < CLI_MAX_ARGS"
      by (cases "dropWhile blank p") auto
    have cs: "length cs < length p" using length_dropWhile_le [of blank p] q by simp
    have sub: "length r < length p" if "length q' \<le> length cs" "pipe_to (tokenize q' cmd') = Some r" "pipe_to cmd' = None" for q' cmd'
      using less.hyps [of q' cmd'] that cs by simp
    have "length (dropWhile (\<lambda>c. c = CHR '' '') cs) \<le> length cs" by (rule length_dropWhile_le)
    with less.prems cs sub after_file_word_shorter [of cs] show ?thesis
      unfolding tokenize_step [OF q room]
      by (auto split: if_splits simp del: takeWhile.simps intro: sub [OF order_refl] sub [of "drop n cs" for n])
  qed
qed

definition cli_parse_command :: "cstring option \<Rightarrow> int \<times> ParsedCommand" where
  "cli_parse_command input =
     (case input of
        None \<Rightarrow> (CLI_ERR_SYNTAX, no_command)
      | Some line \<Rightarrow>
          let cmd = tokenize (take (CLI_MAX_INPUT_LEN - 1) (cstr line)) no_command
          in (if argv cmd = [] then CLI_ERR_SYNTAX else CLI_OK, cmd))"

section \<open>Lines\<close>

abbreviation CLI_MAX_SEGMENTS :: nat where "CLI_MAX_SEGMENTS \<equiv> 16"

datatype CliSep = SEP_NONE | SEP_SEQ | SEP_AND | SEP_OR

definition sep_at :: "cstring \<Rightarrow> CliSep" where
  "sep_at p = (case p of
     [] \<Rightarrow> SEP_NONE
   | c # cs \<Rightarrow> if c = CHR '';'' then SEP_SEQ
       else if c = CHR ''&'' \<and> take 1 cs = ''&'' then SEP_AND
       else if c = CHR ''|'' \<and> take 1 cs = ''|'' then SEP_OR
       else SEP_NONE)"

text \<open>
  \<open>pre\<close> and \<open>acc\<close> are the separator and the text of the segment being read, \<open>n\<close> the number of segments
  so far; past the limit the rest of the line stays in the last segment.
\<close>

function split_loop :: "bool \<Rightarrow> CliSep \<Rightarrow> cstring \<Rightarrow> nat \<Rightarrow> cstring \<Rightarrow> (CliSep \<times> cstring) list" where
  "split_loop in_quote pre acc n [] = [(pre, acc)]"
| "split_loop in_quote pre acc n (c # cs) =
     (if c = CHR 0x22 then split_loop (\<not> in_quote) pre (acc @ [c]) n cs
      else if in_quote then split_loop in_quote pre (acc @ [c]) n cs
      else let sep = sep_at (c # cs) in
        if sep = SEP_NONE then split_loop in_quote pre (acc @ [c]) n cs
        else if n < CLI_MAX_SEGMENTS
          then (pre, acc) # split_loop in_quote sep [] (n + 1) (if sep = SEP_SEQ then cs else tl cs)
        else [(pre, acc @ c # cs)])"
  by pat_completeness auto
termination
  by (relation "measure (\<lambda>(q, pre, acc, n, p). length p)") auto

definition split_line :: "cstring \<Rightarrow> (CliSep \<times> cstring) list" where
  "split_line line = split_loop False SEP_NONE [] 1 (take (CLI_MAX_INPUT_LEN - 1) (cstr line))"

section \<open>Lemmas\<close>

text \<open>A word that the tokenizer takes as it is, and text that the line splitter does not cut.\<close>

definition plain_word :: "cstring \<Rightarrow> bool" where
  "plain_word w \<longleftrightarrow> w \<noteq> [] \<and> NUL \<notin> set w \<and> list_all (\<lambda>c. \<not> token_end c) w \<and> hd w \<noteq> CHR ''|''"

definition join_words :: "cstring list \<Rightarrow> cstring" where
  "join_words ws = concat (map (\<lambda>w. w @ '' '') ws)"

definition plain_text :: "cstring \<Rightarrow> bool" where
  "plain_text t \<longleftrightarrow> list_all (\<lambda>c. c \<noteq> NUL \<and> c \<noteq> CHR 0x22 \<and> c \<noteq> CHR '';'' \<and> c \<noteq> CHR ''&'' \<and> c \<noteq> CHR ''|'') t"

lemma blank_space [simp]: "blank (CHR '' '')" "token_end (CHR '' '')"
  by (simp_all add: blank_def token_end_def)

lemma takeWhile_word: "list_all P w \<Longrightarrow> \<not> P c \<Longrightarrow> takeWhile P (w @ c # rest) = w"
  by (induction w) auto

lemma tokenize_word:
  assumes "plain_word w" "length (argv cmd) < CLI_MAX_ARGS"
  shows "tokenize (w @ '' '' @ rest) cmd = tokenize rest (cmd\<lparr>argv := argv cmd @ [w]\<rparr>)"
proof -
  obtain c cs where w: "w = c # cs" using assms(1) by (cases w) (auto simp: plain_word_def)
  have c: "\<not> token_end c" "c \<noteq> CHR ''|''" using assms(1) by (auto simp: plain_word_def w)
  then have d: "dropWhile blank (w @ '' '' @ rest) = c # cs @ '' '' @ rest" by (simp add: w token_end_def)
  have t: "takeWhile (\<lambda>c. \<not> token_end c) (c # cs @ '' '' @ rest) = w"
    using takeWhile_word [of "\<lambda>c. \<not> token_end c" w "CHR '' ''" rest] assms(1) by (simp add: plain_word_def w del: takeWhile.simps)
  have "drop (Suc (length w)) (c # cs @ '' '' @ rest) = rest" by (simp add: w)
  with c show ?thesis unfolding tokenize_step [OF d assms(2)] t by (auto simp: token_end_def)
qed

lemma tokenize_words:
  "list_all plain_word ws \<Longrightarrow> length (argv cmd) + length ws \<le> CLI_MAX_ARGS \<Longrightarrow>
   tokenize (join_words ws) cmd = cmd\<lparr>argv := argv cmd @ ws\<rparr>"
proof (induction ws arbitrary: cmd)
  case Nil
  then show ?case by (simp add: join_words_def tokenize_stop)
next
  case (Cons w ws)
  then show ?case using tokenize_word [of w cmd "join_words ws"] by (simp add: join_words_def)
qed

lemma split_plain:
  "list_all (\<lambda>c. c \<noteq> CHR 0x22 \<and> c \<noteq> CHR '';'' \<and> c \<noteq> CHR ''&'' \<and> c \<noteq> CHR ''|'') t \<Longrightarrow>
   split_loop False pre acc n (t @ rest) = split_loop False pre (acc @ t) n rest"
  by (induction t arbitrary: acc) (auto simp: sep_at_def Let_def)

end
