(* ===== verification/Logs.thy ===== *)
theory Logs
  imports Ring_Buffers
begin

text \<open>
  The kernel log (\<open>kernel/log/klog.c\<close>) and the audit log of denied commands
  (\<open>kernel/security/auditlog.c\<close>): rings of fixed entries that overwrite their oldest one. Printing is
  modelled by the rows handed to \<open>cli_printf\<close>; what \<open>klog\<close> sends to the serial line is the returned
  text. Both logs are interpreted as a \<open>bounded_log\<close>.
\<close>

section \<open>Kernel log: data\<close>

abbreviation KLOG_TAG_MAX :: nat where "KLOG_TAG_MAX \<equiv> 12"
abbreviation KLOG_MSG_MAX :: nat where "KLOG_MSG_MAX \<equiv> 80"
abbreviation KLOG_RING_SIZE :: nat where "KLOG_RING_SIZE \<equiv> 64"

datatype KlogLevel = KLOG_FATAL | KLOG_ERROR | KLOG_WARN | KLOG_INFO | KLOG_DEBUG | KLOG_TRACE

fun level_value :: "KlogLevel \<Rightarrow> nat" where
  "level_value KLOG_FATAL = 0"
| "level_value KLOG_ERROR = 1"
| "level_value KLOG_WARN = 2"
| "level_value KLOG_INFO = 3"
| "level_value KLOG_DEBUG = 4"
| "level_value KLOG_TRACE = 5"

text \<open>Levels are compared by their value: a lower level is more severe.\<close>

instantiation KlogLevel :: linorder
begin

definition less_eq_KlogLevel :: "KlogLevel \<Rightarrow> KlogLevel \<Rightarrow> bool" where
  "a \<le> b \<longleftrightarrow> level_value a \<le> level_value b"

definition less_KlogLevel :: "KlogLevel \<Rightarrow> KlogLevel \<Rightarrow> bool" where
  "a < b \<longleftrightarrow> level_value a < level_value b"

instance
proof
  fix a b :: KlogLevel
  show "a = b" if "a \<le> b" "b \<le> a"
    using that by (cases a; cases b) (simp_all add: less_eq_KlogLevel_def)
qed (auto simp: less_eq_KlogLevel_def less_KlogLevel_def)

end

record KlogEntry =
  kl_timestamp :: u64
  kl_level :: KlogLevel
  kl_tag :: cstring
  kl_message :: cstring

record klog_state =
  kl_ring :: "KlogEntry list"
  kl_head :: nat
  kl_count :: nat
  kl_total :: u64
  kl_min_level :: KlogLevel

section \<open>Kernel log: operations\<close>

definition klog_strncpy :: "cstring \<Rightarrow> cstring \<Rightarrow> nat \<Rightarrow> cstring" where
  "klog_strncpy dst src n = c_strlcpy dst src n"

definition klog_u64_to_dec :: "u64 \<Rightarrow> nat \<Rightarrow> cstring" where
  "klog_u64_to_dec val bufsz =
     (if bufsz = 0 then [] else if val = 0 then ''0'' else take (bufsz - 1) (rev (u64_digits 20 (unat val))))"

fun klog_level_name :: "KlogLevel \<Rightarrow> cstring" where
  "klog_level_name KLOG_FATAL = ''FATAL''"
| "klog_level_name KLOG_ERROR = ''ERROR''"
| "klog_level_name KLOG_WARN = ''WARN ''"
| "klog_level_name KLOG_INFO = ''INFO ''"
| "klog_level_name KLOG_DEBUG = ''DEBUG''"
| "klog_level_name KLOG_TRACE = ''TRACE''"

fun klog_level_short :: "KlogLevel \<Rightarrow> cstring" where
  "klog_level_short KLOG_FATAL = ''FTL''"
| "klog_level_short KLOG_ERROR = ''ERR''"
| "klog_level_short KLOG_WARN = ''WRN''"
| "klog_level_short KLOG_INFO = ''INF''"
| "klog_level_short KLOG_DEBUG = ''DBG''"
| "klog_level_short KLOG_TRACE = ''TRC''"

definition klog_init :: "klog_state \<Rightarrow> klog_state" where
  "klog_init s = s\<lparr>kl_ring := map (\<lambda>e. e\<lparr>kl_timestamp := 0, kl_level := KLOG_TRACE,
       kl_tag := (kl_tag e)[0 := NUL], kl_message := (kl_message e)[0 := NUL]\<rparr>) (kl_ring s),
     kl_head := 0, kl_count := 0, kl_total := 0, kl_min_level := KLOG_INFO\<rparr>"

text \<open>The entry in its slot: the strings are copied over what the slot held.\<close>

definition klog_fill :: "u64 \<Rightarrow> KlogLevel \<Rightarrow> cstring option \<Rightarrow> cstring option \<Rightarrow> KlogEntry \<Rightarrow> KlogEntry" where
  "klog_fill now level tag msg e = e\<lparr>kl_timestamp := now, kl_level := level,
     kl_tag := klog_strncpy (kl_tag e) (case tag of Some t \<Rightarrow> t | None \<Rightarrow> ''?'') KLOG_TAG_MAX,
     kl_message := klog_strncpy (kl_message e) (case msg of Some m \<Rightarrow> m | None \<Rightarrow> []) KLOG_MSG_MAX\<rparr>"

definition klog :: "u64 \<Rightarrow> KlogLevel \<Rightarrow> cstring option \<Rightarrow> cstring option \<Rightarrow> klog_state \<Rightarrow> cstring \<times> klog_state" where
  "klog now level tag msg s =
     (let entry = klog_fill now level tag msg (kl_ring s ! kl_head s);
          s1 = s\<lparr>kl_ring := (kl_ring s)[kl_head s := entry], kl_head := (kl_head s + 1) mod KLOG_RING_SIZE,
            kl_count := (if kl_count s < KLOG_RING_SIZE then kl_count s + 1 else kl_count s), kl_total := kl_total s + 1\<rparr>
      in (if level \<le> kl_min_level s1
          then ''['' @ klog_u64_to_dec now 20 @ ''][''
            @ klog_level_short level @ ''][''
            @ cstr (kl_tag entry) @ ''] '' @ cstr (kl_message entry) @ [CHR 0x0A]
          else [], s1))"

definition klog_set_level :: "KlogLevel \<Rightarrow> klog_state \<Rightarrow> klog_state" where
  "klog_set_level l s = s\<lparr>kl_min_level := l\<rparr>"

definition klog_get_level :: "klog_state \<Rightarrow> KlogLevel" where
  "klog_get_level s = kl_min_level s"

definition klog_count :: "klog_state \<Rightarrow> nat" where
  "klog_count s = kl_count s"

definition klog_total :: "klog_state \<Rightarrow> u64" where
  "klog_total s = kl_total s"

definition klog_clear :: "klog_state \<Rightarrow> klog_state" where
  "klog_clear s = s\<lparr>kl_head := 0, kl_count := 0\<rparr>"

type_synonym klog_row = "cstring \<times> cstring \<times> cstring \<times> cstring"

definition klog_row :: "KlogEntry \<Rightarrow> klog_row" where
  "klog_row e = (klog_u64_to_dec (kl_timestamp e) 20, klog_level_name (kl_level e), cstr (kl_tag e), cstr (kl_message e))"

text \<open>The rows and the closing line's two numbers; \<open>None\<close> is the line for an empty log.\<close>

definition klog_print_recent :: "nat \<Rightarrow> klog_state \<Rightarrow> (klog_row list \<times> nat \<times> cstring) option" where
  "klog_print_recent count s =
     (let n = (if count = 0 \<or> count > kl_count s then kl_count s else count)
      in if n = 0 then None
         else Some (map (\<lambda>i. klog_row (kl_ring s ! ((kl_head s + KLOG_RING_SIZE - 1 - i) mod KLOG_RING_SIZE))) [0..<n],
           n, klog_u64_to_dec (kl_total s) 20))"

section \<open>Audit log: data and operations\<close>

abbreviation AUDIT_LOG_SIZE :: nat where "AUDIT_LOG_SIZE \<equiv> 32"
abbreviation AUDIT_CMD_MAX :: nat where "AUDIT_CMD_MAX \<equiv> 48"
abbreviation AUDIT_USER_MAX :: nat where "AUDIT_USER_MAX \<equiv> 16"

record AuditEntry =
  ae_timestamp :: u64
  ae_username :: cstring
  ae_command :: cstring
  ae_privilege :: u8
  ae_required :: u8

record auditlog =
  au_log :: "AuditEntry list"
  au_head :: nat
  au_count :: nat
  au_total :: u32

definition str_copy_n :: "cstring \<Rightarrow> cstring \<Rightarrow> nat \<Rightarrow> cstring" where
  "str_copy_n dst src mx = c_strlcpy dst src mx"

definition auditlog_init :: "auditlog \<Rightarrow> auditlog" where
  "auditlog_init s = s\<lparr>au_head := 0, au_count := 0, au_total := 0,
     au_log := map (\<lambda>e. e\<lparr>ae_timestamp := 0, ae_username := (ae_username e)[0 := NUL],
       ae_command := (ae_command e)[0 := NUL], ae_privilege := 0, ae_required := 0\<rparr>) (au_log s)\<rparr>"

definition auditlog_record :: "u64 \<Rightarrow> cstring \<Rightarrow> cstring \<Rightarrow> u8 \<Rightarrow> u8 \<Rightarrow> auditlog \<Rightarrow> auditlog" where
  "auditlog_record timestamp username command priv req s =
     (let e = au_log s ! au_head s;
          e1 = e\<lparr>ae_timestamp := timestamp, ae_username := str_copy_n (ae_username e) username AUDIT_USER_MAX,
            ae_command := str_copy_n (ae_command e) command AUDIT_CMD_MAX, ae_privilege := priv, ae_required := req\<rparr>
      in s\<lparr>au_log := (au_log s)[au_head s := e1], au_head := (au_head s + 1) mod AUDIT_LOG_SIZE,
           au_count := (if au_count s < AUDIT_LOG_SIZE then au_count s + 1 else au_count s), au_total := au_total s + 1\<rparr>)"

definition auditlog_total_count :: "auditlog \<Rightarrow> u32" where "auditlog_total_count s = au_total s"

definition auditlog_current_count :: "auditlog \<Rightarrow> nat" where "auditlog_current_count s = au_count s"

definition priv_name :: "u8 \<Rightarrow> cstring" where
  "priv_name p = (if p = 0 then ''root'' else if p \<le> 50 then ''admin'' else if p \<le> 100 then ''user'' else ''?'')"

definition audit_ticks :: "u64 \<Rightarrow> cstring" where
  "audit_ticks v = (if v = 0 then ''0'' else rev (u64_digits 20 (unat v)))"

type_synonym audit_row = "cstring \<times> cstring \<times> cstring \<times> cstring \<times> cstring"

definition audit_row :: "AuditEntry \<Rightarrow> audit_row" where
  "audit_row e = (audit_ticks (ae_timestamp e), cstr (ae_username e), cstr (ae_command e), priv_name (ae_privilege e), priv_name (ae_required e))"

definition audit_index :: "nat \<Rightarrow> nat \<Rightarrow> nat" where
  "audit_index head i = (if head \<ge> i + 1 then head - i - 1 else AUDIT_LOG_SIZE - (i + 1 - head))"

definition auditlog_print_all :: "auditlog \<Rightarrow> audit_row list" where
  "auditlog_print_all s = map (\<lambda>i. audit_row (au_log s ! audit_index (au_head s) i)) [0..<au_count s]"

section \<open>Well-formed logs and what readers see\<close>

definition klog_ok :: "klog_state \<Rightarrow> bool" where
  "klog_ok s \<longleftrightarrow> length (kl_ring s) = KLOG_RING_SIZE \<and> kl_head s < KLOG_RING_SIZE \<and> kl_count s \<le> KLOG_RING_SIZE
     \<and> list_all (\<lambda>e. length (kl_tag e) = KLOG_TAG_MAX \<and> length (kl_message e) = KLOG_MSG_MAX) (kl_ring s)"

definition audit_ok :: "auditlog \<Rightarrow> bool" where
  "audit_ok s \<longleftrightarrow> length (au_log s) = AUDIT_LOG_SIZE \<and> au_head s < AUDIT_LOG_SIZE \<and> au_count s \<le> AUDIT_LOG_SIZE
     \<and> list_all (\<lambda>e. length (ae_username e) = AUDIT_USER_MAX \<and> length (ae_command e) = AUDIT_CMD_MAX) (au_log s)"

type_synonym klog_call = "u64 \<times> KlogLevel \<times> cstring option \<times> cstring option"

definition klog_shown :: "klog_call \<Rightarrow> klog_row" where
  "klog_shown = (\<lambda>(now, level, tag, msg). (klog_u64_to_dec now 20, klog_level_name level,
     take 11 (cstr (case tag of Some t \<Rightarrow> t | None \<Rightarrow> ''?'')), take 79 (cstr (case msg of Some m \<Rightarrow> m | None \<Rightarrow> []))))"

definition klog_newest :: "klog_state \<Rightarrow> klog_row list" where
  "klog_newest s = map klog_row (ring_newest (kl_head s) (kl_count s) (kl_ring s))"

definition klog_call :: "klog_call \<Rightarrow> klog_state \<Rightarrow> klog_state" where
  "klog_call = (\<lambda>(now, level, tag, msg) s. snd (klog now level tag msg s))"

type_synonym audit_call = "u64 \<times> cstring \<times> cstring \<times> u8 \<times> u8"

definition audit_shown :: "audit_call \<Rightarrow> audit_row" where
  "audit_shown = (\<lambda>(t, user, cmd, p, r). (audit_ticks t, take 15 (cstr user), take 47 (cstr cmd), priv_name p, priv_name r))"

definition audit_newest :: "auditlog \<Rightarrow> audit_row list" where
  "audit_newest s = map audit_row (ring_newest (au_head s) (au_count s) (au_log s))"

definition audit_call :: "audit_call \<Rightarrow> auditlog \<Rightarrow> auditlog" where
  "audit_call = (\<lambda>(t, user, cmd, p, r) s. auditlog_record t user cmd p r s)"

lemma klog_row_fill: "klog_row (klog_fill now level tag msg e) = klog_shown (now, level, tag, msg)"
  by (simp add: klog_row_def klog_fill_def klog_shown_def klog_strncpy_def)

lemma min_Suc_if: "(if c < n then c + 1 else c) = min n (Suc c)" if "c \<le> (n :: nat)"
  using that by (simp add: min_def)

interpretation klog: bounded_log KLOG_RING_SIZE klog_call klog_shown klog_newest klog_ok
proof unfold_locales
  fix l :: klog_state and c :: klog_call
  assume ok: "klog_ok l"
  obtain now level tag msg where c: "c = (now, level, tag, msg)" by (cases c) auto
  let ?e = "klog_fill now level tag msg (kl_ring l ! kl_head l)"
  have l: "kl_head l < length (kl_ring l)" "kl_count l \<le> length (kl_ring l)" "length (kl_ring l) = 64"
    using ok by (simp_all add: klog_ok_def)
  have "ring_newest ((kl_head l + 1) mod 64) (min 64 (Suc (kl_count l))) ((kl_ring l)[kl_head l := ?e])
      = take 64 (?e # ring_newest (kl_head l) (kl_count l) (kl_ring l))"
    using ring_newest_push [OF l(1,2), of ?e] l(3) by simp
  then show "klog_newest (klog_call c l) = take 64 (klog_shown c # klog_newest l)"
    using min_Suc_if [of "kl_count l" 64] l
    by (simp add: klog_newest_def klog_call_def c klog_def Let_def klog_row_fill take_map [symmetric])
  have "length (kl_tag ?e) = 12 \<and> length (kl_message ?e) = 80"
    using ok l(1) by (simp add: klog_ok_def klog_fill_def klog_strncpy_def list_all_length)
  then show "klog_ok (klog_call c l)"
    using ok by (auto simp: klog_ok_def klog_call_def c klog_def Let_def intro!: list_all_update)
qed (simp add: klog_newest_def klog_ok_def)

interpretation audit: bounded_log AUDIT_LOG_SIZE audit_call audit_shown audit_newest audit_ok
proof unfold_locales
  fix l :: auditlog and c :: audit_call
  assume ok: "audit_ok l"
  obtain t user cmd p r where c: "c = (t, user, cmd, p, r)" by (cases c) auto
  define e where "e = au_log l ! au_head l"
  let ?e = "e\<lparr>ae_timestamp := t, ae_username := str_copy_n (ae_username e) user AUDIT_USER_MAX,
            ae_command := str_copy_n (ae_command e) cmd AUDIT_CMD_MAX, ae_privilege := p, ae_required := r\<rparr>"
  have l: "au_head l < length (au_log l)" "au_count l \<le> length (au_log l)" "length (au_log l) = 32"
    using ok by (simp_all add: audit_ok_def)
  have s: "audit_call c l = l\<lparr>au_log := (au_log l)[au_head l := ?e], au_head := (au_head l + 1) mod 32,
      au_count := min 32 (Suc (au_count l)), au_total := au_total l + 1\<rparr>"
    using min_Suc_if [of "au_count l" 32] l by (simp add: audit_call_def c auditlog_record_def e_def Let_def)
  have "ring_newest ((au_head l + 1) mod 32) (min 32 (Suc (au_count l))) ((au_log l)[au_head l := ?e])
      = take 32 (?e # ring_newest (au_head l) (au_count l) (au_log l))"
    using ring_newest_push [OF l(1,2), of ?e] l(3) by simp
  moreover have "audit_row ?e = audit_shown c" by (simp add: audit_row_def audit_shown_def c str_copy_n_def)
  ultimately show "audit_newest (audit_call c l) = take 32 (audit_shown c # audit_newest l)"
    by (simp add: audit_newest_def s take_map [symmetric])
  have "length (ae_username e) = 16 \<and> length (ae_command e) = 48"
    using ok l(1) by (simp add: audit_ok_def e_def list_all_length)
  then show "audit_ok (audit_call c l)"
    using ok by (auto simp: audit_ok_def s str_copy_n_def intro!: list_all_update)
qed (simp add: audit_newest_def audit_ok_def)

lemma klog_init_ok: "klog_ok s \<Longrightarrow> klog_ok (klog_init s) \<and> klog_newest (klog_init s) = []"
  by (simp add: klog_ok_def klog_init_def klog_newest_def list_all_length)

lemma auditlog_init_ok: "audit_ok s \<Longrightarrow> audit_ok (auditlog_init s) \<and> audit_newest (auditlog_init s) = []"
  by (simp add: audit_ok_def auditlog_init_def audit_newest_def list_all_length)

lemma klog_print_newest:
  assumes "klog_ok s"
  shows "klog_print_recent 0 s = (if klog_newest s = [] then None
    else Some (klog_newest s, length (klog_newest s), klog_u64_to_dec (kl_total s) 20))"
  using assms by (auto simp: klog_print_recent_def klog_newest_def ring_newest_def klog_ok_def Let_def)

lemma audit_index_ring:
  assumes "head < 32" "i < 32"
  shows "audit_index head i = (head + 32 - 1 - i) mod 32"
proof -
  have "(head + 31 - i) mod 32 = (if head + 31 - i < 32 then head + 31 - i else head + 31 - i - 32)"
    using assms by (intro mod_below_twice) simp
  with assms show ?thesis by (auto simp: audit_index_def add.commute [of 31])
qed

lemma auditlog_print_newest: "audit_ok s \<Longrightarrow> auditlog_print_all s = audit_newest s"
  by (auto simp: auditlog_print_all_def audit_newest_def ring_newest_def audit_ok_def audit_index_ring)

section \<open>Properties\<close>

text \<open>
  Property: after any sequence of \<open>klog\<close> calls since \<open>klog_init\<close>, the listing of the kernel log shows
  the last 64 of them, newest first, with the tag cut to 11 and the message to 79 characters, a missing
  tag as a question mark; the severity filter never drops an entry from the ring.
\<close>

theorem klog_shows_recent:
  assumes "klog_ok s" "calls \<noteq> []"
  shows "\<exists>total. klog_print_recent 0 (fold klog_call calls (klog_init s))
    = Some (take KLOG_RING_SIZE (rev (map klog_shown calls)), min KLOG_RING_SIZE (length calls), total)"
proof -
  have init: "klog_ok (klog_init s)" "klog_newest (klog_init s) = []" using klog_init_ok [OF assms(1)] by auto
  have "klog_newest (fold klog_call calls (klog_init s)) = take 64 (rev (map klog_shown calls))"
    by (rule klog.newest_from_empty [OF init])
  with assms(2) show ?thesis
    using klog_print_newest [OF klog.invar_fold [OF init(1), of calls]] by (simp add: min.commute)
qed

definition blank_klog :: klog_state where
  "blank_klog = \<lparr>kl_ring = replicate KLOG_RING_SIZE \<lparr>kl_timestamp = 0, kl_level = KLOG_FATAL,
       kl_tag = replicate KLOG_TAG_MAX NUL, kl_message = replicate KLOG_MSG_MAX NUL\<rparr>,
     kl_head = 0, kl_count = 0, kl_total = 0, kl_min_level = KLOG_FATAL\<rparr>"

theorem klog_shows_recent_witness:
  "\<exists>total. klog_print_recent 0 (klog_call (7, KLOG_WARN, Some ''scheduler-core'', None) (klog_call (5, KLOG_DEBUG, None, Some ''up'') (klog_init blank_klog)))
    = Some ([(''7'', ''WARN '', ''scheduler-c'', ''''), (''5'', ''DEBUG'', ''?'', ''up'')], 2, total)"
proof -
  have ok: "klog_ok blank_klog" by (simp add: klog_ok_def blank_klog_def list_all_length)
  have d: "klog_u64_to_dec 7 20 = ''7''" "klog_u64_to_dec 5 20 = ''5''" by code_simp+
  show ?thesis
    using klog_shows_recent [OF ok, of "[(5, KLOG_DEBUG, None, Some ''up''), (7, KLOG_WARN, Some ''scheduler-core'', None)]"]
    by (simp add: klog_shown_def d cstr_def numeral_2_eq_2)
qed

text \<open>
  Property: the audit log lists the last 32 recorded denials, newest first, with names cut to the
  size of their fields, and it counts the denials it holds.
\<close>

theorem auditlog_shows_recent:
  assumes "audit_ok s"
  shows "auditlog_print_all (fold audit_call calls (auditlog_init s)) = take AUDIT_LOG_SIZE (rev (map audit_shown calls))
    \<and> auditlog_current_count (fold audit_call calls (auditlog_init s)) = min AUDIT_LOG_SIZE (length calls)"
proof -
  have init: "audit_ok (auditlog_init s)" "audit_newest (auditlog_init s) = []" using auditlog_init_ok [OF assms] by auto
  let ?s = "fold audit_call calls (auditlog_init s)"
  have n: "audit_newest ?s = take 32 (rev (map audit_shown calls))"
    by (rule audit.newest_from_empty [OF init])
  have "au_count ?s = length (audit_newest ?s)" by (simp add: audit_newest_def)
  then show ?thesis
    using n auditlog_print_newest [OF audit.invar_fold [OF init(1), of calls]]
    by (simp add: auditlog_current_count_def min.commute)
qed

definition blank_audit :: auditlog where
  "blank_audit = \<lparr>au_log = replicate AUDIT_LOG_SIZE \<lparr>ae_timestamp = 0, ae_username = replicate AUDIT_USER_MAX NUL,
       ae_command = replicate AUDIT_CMD_MAX NUL, ae_privilege = 0, ae_required = 0\<rparr>,
     au_head = 0, au_count = 0, au_total = 0\<rparr>"

theorem auditlog_shows_recent_witness:
  "auditlog_print_all (audit_call (9, ''bob'', ''shutdown'', 100, 0) (auditlog_init blank_audit)) = [(''9'', ''bob'', ''shutdown'', ''user'', ''root'')]"
proof -
  have ok: "audit_ok blank_audit" by (simp add: audit_ok_def blank_audit_def list_all_length)
  have d: "audit_ticks 9 = ''9''" by code_simp
  show ?thesis
    using auditlog_shows_recent [OF ok, of "[(9, ''bob'', ''shutdown'', 100, 0)]"]
    by (simp add: audit_shown_def d cstr_def priv_name_def)
qed

end
