(* ===== verification/Policy.thy ===== *)
theory Policy
  imports Ai_Bridge
begin

text \<open>
  The command policy (\<open>kernel/security/policy_enforce.c\<close>) and its loader
  (\<open>kernel/security/policy_loader.c\<close>): access rules live in the Rust engine and are asked for by a
  prefix of the command; the loader reads the policy from a fixed place of the boot disk and computes
  its size from the section headers. The sector driver of the loader is a parameter.
\<close>

section \<open>Enforcement\<close>

definition policy_map_privilege :: "u8 \<Rightarrow> u8" where
  "policy_map_privilege p = (if p = 0 then 0 else if p = 1 then 50 else if p = 2 then 100 else 0)"

fun scan_word :: "cstring \<Rightarrow> nat \<Rightarrow> nat" where
  "scan_word [] i = i"
| "scan_word (c # cs) i = (if c = CHR '' '' then i else scan_word cs (Suc i))"

definition policy_check_command :: "'e rust_engine \<Rightarrow> cstring option \<Rightarrow> u8 \<Rightarrow> 'e ai_kernel \<Rightarrow> bool" where
  "policy_check_command rust command privilege k =
     (case command of
        None \<Rightarrow> False
      | Some c \<Rightarrow>
          let cmd = cstr c; len = length cmd in
          if len = 0 then False
          else let cmd_len = scan_word cmd 0;
                   full_cmd_len = (if cmd_len < len then scan_word (drop (cmd_len + 1) cmd) (cmd_len + 1) else cmd_len);
                   required = ai_kernel_engine_check_access rust (Some cmd) full_cmd_len k;
                   required' = (if required = 255 \<and> full_cmd_len \<noteq> cmd_len
                     then ai_kernel_engine_check_access rust (Some cmd) cmd_len k else required)
            in if required' = 255 then True else privilege \<le> policy_map_privilege required')"

section \<open>Loading\<close>

abbreviation POLICY_SECTOR :: u32 where "POLICY_SECTOR \<equiv> 4096"
abbreviation POLICY_MAX_SECTORS :: u8 where "POLICY_MAX_SECTORS \<equiv> 4"
abbreviation POLICY_BUF_SIZE :: nat where "POLICY_BUF_SIZE \<equiv> 2048"

text \<open>One section header is eight bytes; the sum \<open>8 + data_size\<close> is computed in 32 bits.\<close>

fun policy_blob_size :: "bytes \<Rightarrow> nat \<Rightarrow> nat \<Rightarrow> nat" where
  "policy_blob_size buf 0 offset = offset"
| "policy_blob_size buf (Suc n) offset =
     (if offset + 8 > POLICY_BUF_SIZE then offset
      else policy_blob_size buf n (offset + unat (8 + le32_of (drop (offset + 4) buf))))"

definition policy_load_from_disk ::
  "'e rust_engine \<Rightarrow> (u32 \<Rightarrow> u8 \<Rightarrow> bytes \<Rightarrow> int \<times> bytes) \<Rightarrow> bytes \<Rightarrow> 'e ai_kernel \<Rightarrow> bytes \<times> 'e ai_kernel" where
  "policy_load_from_disk rust ata_read policy_buf k =
     (case ata_read POLICY_SECTOR POLICY_MAX_SECTORS policy_buf of
        (rc, buf) \<Rightarrow>
          if rc < 0 then (buf, k)
          else if take 4 buf \<noteq> map byte_of ''VPOL'' then (buf, k)
          else let sections = unat (le16_of (drop 6 buf));
                   offset = policy_blob_size buf sections 8
            in (buf, snd (ai_kernel_engine_load_policy rust (Some buf) offset k)))"

section \<open>Words of a command\<close>

definition word :: "cstring \<Rightarrow> bool" where
  "word w \<longleftrightarrow> CHR '' '' \<notin> set w \<and> NUL \<notin> set w"

lemma scan_word_end: "CHR '' '' \<notin> set w \<Longrightarrow> scan_word w i = i + length w"
  by (induction w arbitrary: i) auto

lemma scan_word_space: "CHR '' '' \<notin> set w \<Longrightarrow> scan_word (w @ CHR '' '' # rest) i = i + length w"
  by (induction w arbitrary: i) auto

text \<open>The rule for a command, as the engine answers for it; 255 stands for no rule.\<close>

definition rule_for :: "'e rust_engine \<Rightarrow> 'e \<Rightarrow> cstring \<Rightarrow> u8" where
  "rule_for rust e w = (if w = [] then 255 else engine_check_access rust w e)"

definition rule_allows :: "u8 \<Rightarrow> u8 \<Rightarrow> bool" where
  "rule_allows privilege r \<longleftrightarrow> r = 255 \<or> privilege \<le> policy_map_privilege r"

lemma check_access_prefix:
  "g_ai_engine k = Some e \<Longrightarrow> ai_kernel_engine_check_access rust (Some (w @ rest)) (length w) k = rule_for rust e w"
  by (simp add: ai_kernel_engine_check_access_def rule_for_def)

lemma check_words:
  assumes e: "g_ai_engine k = Some e" and w: "word w1" "word w2" "w1 \<noteq> []"
    and rest: "rest = [] \<or> (\<exists>r. rest = CHR '' '' # r \<and> NUL \<notin> set r)"
  shows "policy_check_command rust (Some (w1 @ '' '' @ w2 @ rest)) p k \<longleftrightarrow>
      rule_allows p (if rule_for rust e (w1 @ '' '' @ w2) \<noteq> 255 then rule_for rust e (w1 @ '' '' @ w2) else rule_for rust e w1)"
    and "policy_check_command rust (Some w1) p k \<longleftrightarrow> rule_allows p (rule_for rust e w1)"
proof -
  let ?c = "w1 @ '' '' @ w2 @ rest"
  have c: "cstr ?c = ?c" using w rest by (intro cstr_id) (auto simp: word_def)
  have l1: "scan_word ?c 0 = length w1" using w scan_word_space [of w1 "w2 @ rest" 0] by (simp add: word_def)
  have l2: "scan_word (w2 @ rest) (Suc (length w1)) = Suc (length w1) + length w2"
    using w rest scan_word_end [of w2] scan_word_space [of w2] by (auto simp: word_def)
  have a1: "ai_kernel_engine_check_access rust (Some ?c) (length w1) k = rule_for rust e w1"
    using check_access_prefix [OF e, of rust w1] by simp
  have a2: "ai_kernel_engine_check_access rust (Some ?c) (Suc (length w1) + length w2) k = rule_for rust e (w1 @ '' '' @ w2)"
    using check_access_prefix [OF e, of rust "w1 @ '' '' @ w2" rest] by simp
  show "policy_check_command rust (Some ?c) p k \<longleftrightarrow>
      rule_allows p (if rule_for rust e (w1 @ '' '' @ w2) \<noteq> 255 then rule_for rust e (w1 @ '' '' @ w2) else rule_for rust e w1)"
    unfolding policy_check_command_def option.case c Let_def l1
    using l2 a1 a2 w(3) by (simp add: rule_allows_def)
  have s: "cstr w1 = w1" "scan_word w1 0 = length w1" using w by (auto simp: word_def cstr_id scan_word_end)
  show "policy_check_command rust (Some w1) p k \<longleftrightarrow> rule_allows p (rule_for rust e w1)"
    unfolding policy_check_command_def option.case s Let_def
    using check_access_prefix [OF e, of rust w1 "[]"] w(3) by (simp add: rule_allows_def)
qed

section \<open>Properties\<close>

text \<open>
  Property: a command of at least two words is judged by the rule for its first two words if there is
  one and by the rule for its first word otherwise; a command of one word by the rule for that word. No
  rule means allowed; a rule means the session's level must not be above the rule's.
\<close>

theorem policy_check_words:
  assumes "g_ai_engine k = Some e" "word w1" "word w2" "w1 \<noteq> []"
    and "rest = [] \<or> (\<exists>r. rest = CHR '' '' # r \<and> NUL \<notin> set r)"
  shows "(policy_check_command rust (Some (w1 @ '' '' @ w2 @ rest)) p k \<longleftrightarrow>
      rule_allows p (if rule_for rust e (w1 @ '' '' @ w2) \<noteq> 255 then rule_for rust e (w1 @ '' '' @ w2) else rule_for rust e w1))
    \<and> (policy_check_command rust (Some w1) p k \<longleftrightarrow> rule_allows p (rule_for rust e w1))"
  using check_words [OF assms] by blast

definition demo_rust :: "unit rust_engine" where
  "demo_rust = \<lparr>engine_new = Some (), engine_feed_event = (\<lambda>a b c e. e), engine_feed_event_code = (\<lambda>a b c e. e), engine_tick = (\<lambda>a e. e),
     engine_event_count = (\<lambda>e. 0), engine_anomaly_count = (\<lambda>e. 0), engine_active_procs = (\<lambda>e. 0), engine_load_policy = (\<lambda>b n e. (0, e)),
     engine_policy_version = (\<lambda>e. 1), engine_check_access = (\<lambda>w e. if w = ''policy reload'' then 0 else 255), engine_access_rule_count = (\<lambda>e. 1)\<rparr>"

definition demo_engine :: "unit ai_kernel" where
  "demo_engine = \<lparr>g_ai_engine = Some (), g_kernel_scheduler = True, ai_ticks = 0\<rparr>"

theorem policy_check_words_witness:
  "\<not> policy_check_command demo_rust (Some ''policy reload now'') 100 demo_engine \<and> policy_check_command demo_rust (Some ''policy'') 100 demo_engine"
proof -
  have e: "g_ai_engine demo_engine = Some ()" by (simp add: demo_engine_def)
  have w: "word ''policy''" "word ''reload''" "''policy'' \<noteq> []" "'' now'' = [] \<or> (\<exists>r. '' now'' = CHR '' '' # r \<and> NUL \<notin> set r)"
    by (simp_all add: word_def)
  from policy_check_words [OF e w, of demo_rust 100] show ?thesis
    by (simp add: rule_for_def rule_allows_def demo_rust_def policy_map_privilege_def)
qed

text \<open>
  Property: a second blank between the two words takes a command out of the reach of its two-word
  rule: the policy then sees only the first word.
\<close>

theorem policy_double_space_bypass:
  assumes e: "g_ai_engine k = Some e" and w: "word w1" "w1 \<noteq> []" "NUL \<notin> set rest"
    and "rule_for rust e (w1 @ '' '') = 255" "rule_for rust e w1 = 255"
  shows "policy_check_command rust (Some (w1 @ ''  '' @ rest)) p k"
  using check_words(1) [OF e w(1) _ w(2), of "[]" "CHR '' '' # rest" rust p] assms
  by (simp add: word_def rule_allows_def)

theorem policy_double_space_bypass_witness: "policy_check_command demo_rust (Some ''policy  reload'') 100 demo_engine"
  using policy_double_space_bypass [of demo_engine "()" "''policy''" "''reload''" demo_rust 100]
  by (simp add: demo_engine_def word_def rule_for_def demo_rust_def)

end
