(* ===== verification/Cli_Exec.thy ===== *)
theory Cli_Exec
  imports Cli_Text Logs Policy Userdb
begin

text \<open>
  The executing side of the shell (\<open>kernel/shell/cli.c\<close>): sessions, the privilege and policy gate in
  front of every built-in command with its audit trail, pipes, line processing, and the commands that
  change who the session is (\<open>login\<close>, \<open>su\<close>, \<open>logout\<close>). The other built-in commands are the handlers of a
  table, a parameter; a handler that waits for input for ever returns \<open>None\<close>. Session and command
  pointers are never null where these functions are called.
\<close>

section \<open>Sessions\<close>

abbreviation CLI_MAX_SESSIONS :: nat where "CLI_MAX_SESSIONS \<equiv> 8"
abbreviation CLI_HISTORY_SIZE :: nat where "CLI_HISTORY_SIZE \<equiv> 50"
abbreviation CLI_PRIV_ROOT :: u32 where "CLI_PRIV_ROOT \<equiv> 0"
abbreviation CLI_PRIV_ADMIN :: u32 where "CLI_PRIV_ADMIN \<equiv> 50"
abbreviation CLI_PRIV_USER :: u32 where "CLI_PRIV_USER \<equiv> 100"

record CliSession =
  session_id :: u32
  cs_uid :: u32
  cs_username :: cstring
  cs_privilege :: u32
  current_pid :: u32
  session_created :: u64
  commands_executed :: u64
  is_active :: bool

text \<open>The static pool is part of the shell; \<open>sessions[i]\<close> points to its \<open>i\<close>-th element.\<close>

record CliShell =
  cli_pool :: "CliSession list"
  session_count :: nat
  next_session_id :: u32
  cli_history :: "cstring list"
  history_index :: nat
  is_interactive :: bool

definition blank_session :: CliSession where
  "blank_session = \<lparr>session_id = 0, cs_uid = 0, cs_username = replicate 32 NUL, cs_privilege = 0, current_pid = 0,
     session_created = 0, commands_executed = 0, is_active = False\<rparr>"

definition cli_shell_init :: "CliShell option \<Rightarrow> CliSession list \<Rightarrow> CliShell" where
  "cli_shell_init g pool = (case g of
     Some sh \<Rightarrow> sh
   | None \<Rightarrow> \<lparr>cli_pool = pool, session_count = 0, next_session_id = 1,
       cli_history = replicate CLI_HISTORY_SIZE (replicate CLI_MAX_INPUT_LEN NUL), history_index = 0, is_interactive = True\<rparr>)"

definition cli_session_create :: "cstring option \<Rightarrow> u32 \<Rightarrow> CliShell \<Rightarrow> nat option \<times> CliShell" where
  "cli_session_create username priv sh =
     (if session_count sh \<ge> CLI_MAX_SESSIONS then (None, sh)
      else let i = session_count sh;
               s = blank_session\<lparr>session_id := next_session_id sh, cs_uid := of_nat i, cs_privilege := priv, is_active := True,
                 cs_username := cli_strcpy (replicate 32 NUL) (case username of Some u \<Rightarrow> u | None \<Rightarrow> ''user'') 32\<rparr>
        in (Some i, sh\<lparr>cli_pool := (cli_pool sh)[i := s], session_count := i + 1, next_session_id := next_session_id sh + 1\<rparr>))"

definition cli_session_destroy :: "CliSession \<Rightarrow> CliSession" where
  "cli_session_destroy s = s\<lparr>is_active := False\<rparr>"

definition cli_shell_get_active_session :: "CliShell \<Rightarrow> CliSession option" where
  "cli_shell_get_active_session sh = (if session_count sh = 0 then None else Some (cli_pool sh ! 0))"

definition cli_history_push :: "cstring \<Rightarrow> CliShell \<Rightarrow> CliShell" where
  "cli_history_push line sh =
     (if cstr line = [] then sh
      else let slot = history_index sh mod CLI_HISTORY_SIZE
        in sh\<lparr>cli_history := (cli_history sh)[slot := cli_strcpy (cli_history sh ! slot) line CLI_MAX_INPUT_LEN],
              history_index := history_index sh + 1\<rparr>)"

section \<open>Execution\<close>

text \<open>What a command can reach; \<open>keys\<close> are the characters typed and not yet read, \<open>'k\<close> the rest of the kernel.\<close>

record ('e, 'k) shell_state =
  sh_con :: console
  sh_klog :: klog_state
  sh_audit :: auditlog
  sh_ai :: "'e ai_kernel"
  sh_users :: userdb
  sh_ticks :: u32
  sh_ps_live :: bool
  keys :: cstring
  sh_kernel :: 'k

type_synonym ('e, 'k) cli_result = "(int \<times> CliSession \<times> ('e, 'k) shell_state) option"
type_synonym ('e, 'k) handler = "CliSession \<Rightarrow> ParsedCommand \<Rightarrow> ('e, 'k) shell_state \<Rightarrow> ('e, 'k) cli_result"

record ('e, 'k) CliBuiltinCommand =
  bc_name :: cstring
  bc_handler :: "('e, 'k) handler"
  bc_min_privilege :: u32

definition cli_find_builtin :: "('e, 'k) CliBuiltinCommand list \<Rightarrow> cstring \<Rightarrow> ('e, 'k) CliBuiltinCommand option" where
  "cli_find_builtin table name = find (\<lambda>b. cli_strcmp (bc_name b) name = 0) table"

definition say :: "cstring \<Rightarrow> printf_arg list \<Rightarrow> ('e, 'k) shell_state \<Rightarrow> ('e, 'k) shell_state" where
  "say fmt args w = w\<lparr>sh_con := cli_printf fmt args (sh_con w)\<rparr>"

text \<open>The record of a denial: message, event, audit entry, log line.\<close>

definition cli_deny ::
  "'e rust_engine \<Rightarrow> cstring \<Rightarrow> printf_arg list \<Rightarrow> cstring \<Rightarrow> CliSession \<Rightarrow> cstring \<Rightarrow> u8 \<Rightarrow> ('e, 'k) shell_state \<Rightarrow> ('e, 'k) shell_state" where
  "cli_deny rust fmt args tag session name req w =
     (let w1 = say fmt args w; now = ucast (sh_ticks w) :: u64
      in w1\<lparr>sh_ai := ai_kernel_engine_feed rust ''DENY'' name now (sh_ai w1),
            sh_audit := auditlog_record now (cs_username session) name (ucast (cs_privilege session)) req (sh_audit w1),
            sh_klog := snd (klog now KLOG_WARN (Some tag) (Some name) (sh_klog w1))\<rparr>)"

definition cli_execute_single_command ::
  "'e rust_engine \<Rightarrow> ('e, 'k) CliBuiltinCommand list \<Rightarrow> ('e, 'k) handler" where
  "cli_execute_single_command rust table session cmd w =
     (if argv cmd = [] then Some (CLI_ERR_SYNTAX, session, w)
      else let name = hd (argv cmd) in
        case cli_find_builtin table name of
          None \<Rightarrow> Some (CLI_ERR_UNKNOWN_CMD, session, say (''Unknown command: %s'' @ [CHR 0x0A]) [StrArg (Some name)] w)
        | Some b \<Rightarrow>
            if cs_privilege session > bc_min_privilege b then
              Some (CLI_ERR_NO_PERMISSION, session,
                cli_deny rust (''Permission denied: '' @ [CHR 0x27] @ ''%s'' @ [CHR 0x27] @ '' requires higher privilege'' @ [CHR 0x0A])
                  [StrArg (Some name)] ''cli'' session name (ucast (bc_min_privilege b)) w)
            else if \<not> policy_check_command rust (Some name) (ucast (cs_privilege session)) (sh_ai w) then
              Some (CLI_ERR_NO_PERMISSION, session,
                cli_deny rust (''Policy denied: '' @ [CHR 0x27] @ ''%s'' @ [CHR 0x27] @ '' not allowed for %s'' @ [CHR 0x0A])
                  [StrArg (Some name), StrArg (Some (cs_username session))] ''policy'' session name 0 w)
            else bc_handler b (session\<lparr>commands_executed := commands_executed session + 1\<rparr>) cmd
                   (w\<lparr>sh_klog := snd (klog (ucast (sh_ticks w)) KLOG_DEBUG (Some ''cli'') (Some name) (sh_klog w))\<rparr>))"

definition cli_command_pipe_safe :: "cstring \<Rightarrow> bool" where
  "cli_command_pipe_safe name \<longleftrightarrow> \<not> (\<exists>n\<in>set [''ps'', ''shutdown'', ''restart'', ''clear'', ''login'', ''su'', ''logout'', ''exec'']. cli_streq name n)"

lemma parse_pipe_shorter:
  assumes "cli_parse_command (Some p) = (rc, cmd)" "pipe_to cmd = Some r"
  shows "length r < length p"
proof -
  have "length r < length (take 255 (cstr p))"
    using assms tokenize_pipe_shorter [of no_command "take 255 (cstr p)" r]
    by (auto simp: cli_parse_command_def Let_def no_command_def)
  also have "\<dots> \<le> length p" using length_cstr_le [of p] by simp
  finally show ?thesis .
qed

text \<open>
  The left side of a bar: \<open>Inl\<close> when the pipeline ends here, otherwise the command behind the bar and the
  state in which it runs, with what the left side printed as its input.
\<close>

definition pipe_left :: "'e rust_engine \<Rightarrow> ('e, 'k) CliBuiltinCommand list \<Rightarrow> CliSession \<Rightarrow> ParsedCommand \<Rightarrow> cstring \<Rightarrow> ('e, 'k) shell_state
    \<Rightarrow> ('e, 'k) cli_result + (ParsedCommand \<times> CliSession \<times> ('e, 'k) shell_state)" where
  "pipe_left rust table session cmd p w =
     (if \<not> cli_command_pipe_safe (hd (argv cmd)) then
        Inl (Some (CLI_ERR_EXEC_FAILED, session, say (''pipe: command '' @ [CHR 0x27] @ ''%s'' @ [CHR 0x27] @ '' cannot be piped'' @ [CHR 0x0A])
          [StrArg (Some (hd (argv cmd)))] w))
      else case cli_parse_command (Some p) of (parse_result, next_cmd) \<Rightarrow>
        if parse_result \<noteq> CLI_OK then
          Inl (Some (parse_result, session, say (''pipe: invalid command after '' @ [CHR 0x27] @ ''|'' @ [CHR 0x27] @ [CHR 0x0A]) [] w))
        else case cli_execute_single_command rust table session cmd (w\<lparr>sh_con := cli_capture_begin False (sh_con w)\<rparr>) of
          None \<Rightarrow> Inl None
        | Some (left_rc, session1, w1) \<Rightarrow>
            (case cli_capture_end CLI_PIPE_BUF_SIZE (sh_con w1) of (captured, con) \<Rightarrow>
               if left_rc \<noteq> CLI_OK then
                 Inl (Some (left_rc, session1, (if captured \<noteq> [] then say ''%s'' [StrArg (Some captured)] else id) (w1\<lparr>sh_con := con\<rparr>)))
               else Inr (next_cmd, session1, w1\<lparr>sh_con := cli_pipe_set_input captured con\<rparr>)))"

lemma pipe_left_shorter:
  assumes "pipe_left rust table session cmd p w = Inr (next_cmd, s, w')" "pipe_to next_cmd = Some r"
  shows "length r < length p"
  using assms parse_pipe_shorter [of p _ next_cmd r]
  by (auto simp: pipe_left_def Let_def split: if_splits option.splits prod.splits)

function cli_execute_command :: "'e rust_engine \<Rightarrow> ('e, 'k) CliBuiltinCommand list \<Rightarrow> ('e, 'k) handler" where
  "cli_execute_command rust table session cmd w =
     (if argv cmd = [] then Some (CLI_ERR_SYNTAX, session, w)
      else case pipe_to cmd of
        None \<Rightarrow> cli_execute_single_command rust table session cmd w
      | Some p \<Rightarrow>
          if p = [] then cli_execute_single_command rust table session cmd w
          else case pipe_left rust table session cmd p w of
            Inl result \<Rightarrow> result
          | Inr (next_cmd, session1, w1) \<Rightarrow>
              (case cli_execute_command rust table session1 next_cmd w1 of
                 None \<Rightarrow> None
               | Some (rc, session2, w2) \<Rightarrow> Some (rc, session2, w2\<lparr>sh_con := cli_pipe_clear_input (sh_con w2)\<rparr>)))"
  by pat_completeness auto
termination
proof (relation "measure (\<lambda>(rust, table, session, cmd, w). case pipe_to cmd of Some p \<Rightarrow> Suc (length p) | None \<Rightarrow> 0)", goal_cases)
  case prems: (2 rust table session cmd w p _ next_cmd)
  then show ?case using pipe_left_shorter [of rust table session cmd p w next_cmd]
    by (cases "pipe_to next_cmd") (auto split: option.split)
qed auto

declare cli_execute_command.simps [simp del]

definition cli_process_single :: "'e rust_engine \<Rightarrow> ('e, 'k) CliBuiltinCommand list \<Rightarrow> CliSession \<Rightarrow> cstring \<Rightarrow> ('e, 'k) shell_state \<Rightarrow> ('e, 'k) cli_result" where
  "cli_process_single rust table session seg w =
     (case cli_parse_command (Some seg) of (parse_result, cmd) \<Rightarrow>
        if parse_result \<noteq> CLI_OK then Some (parse_result, session, say (''Syntax error'' @ [CHR 0x0A]) [] w)
        else cli_execute_command rust table session cmd w)"

text \<open>The loop over the segments; \<open>first\<close> holds for the segment that nothing precedes.\<close>

fun run_segments :: "'e rust_engine \<Rightarrow> ('e, 'k) CliBuiltinCommand list \<Rightarrow> bool \<Rightarrow> int \<Rightarrow> (CliSep \<times> cstring) list
    \<Rightarrow> CliSession \<Rightarrow> ('e, 'k) shell_state \<Rightarrow> ('e, 'k) cli_result" where
  "run_segments rust table first status [] session w = Some (status, session, w)"
| "run_segments rust table first status ((sep, text) # segs) session w =
     (let seg = dropWhile blank text in
      if seg = [] then run_segments rust table False status segs session w
      else if \<not> first \<and> (sep = SEP_AND \<and> status \<noteq> CLI_OK \<or> sep = SEP_OR \<and> status = CLI_OK)
        then run_segments rust table False status segs session w
      else case cli_process_single rust table session seg w of
        None \<Rightarrow> None
      | Some (status1, session1, w1) \<Rightarrow> run_segments rust table False status1 segs session1 w1)"

definition cli_process_line :: "'e rust_engine \<Rightarrow> ('e, 'k) CliBuiltinCommand list \<Rightarrow> CliSession \<Rightarrow> cstring \<Rightarrow> ('e, 'k) shell_state \<Rightarrow> ('e, 'k) cli_result" where
  "cli_process_line rust table session line w =
     (let p = dropWhile blank (cstr line) in
      if sh_ps_live w \<and> (p = ''q'' \<or> p = ''Q'')
      then Some (CLI_OK, session, say (''Exited ps realtime mode.'' @ [CHR 0x0A]) [] (w\<lparr>sh_ps_live := False\<rparr>))
      else run_segments rust table True CLI_OK (split_line line) session w)"

section \<open>Changing the user\<close>

text \<open>Reading a password: at most \<open>room\<close> characters; \<open>None\<close> while the typed characters do not end it.\<close>

fun cli_read_password :: "nat \<Rightarrow> cstring \<Rightarrow> cstring \<Rightarrow> console \<Rightarrow> (cstring \<times> cstring \<times> console) option" where
  "cli_read_password room pw [] con = (if length pw < room then None else Some (pw, [], con))"
| "cli_read_password room pw (c # cs) con =
     (if \<not> length pw < room then Some (pw, c # cs, con)
      else if c = CHR 0x0A \<or> c = CHR 0x0D then Some (pw, cs, cli_printf [CHR 0x0A] [] con)
      else if c = CHR 0x08 \<or> c = CHR 0x7F then
        (if pw \<noteq> [] then cli_read_password room (butlast pw) cs (cli_printf [CHR 0x08, CHR '' '', CHR 0x08] [] con)
         else cli_read_password room pw cs con)
      else if sint (byte_of c) < 0x20 then cli_read_password room pw cs con
      else cli_read_password room (pw @ [c]) cs (cli_printf ''*'' [] con))"

definition ask_password :: "('e, 'k) shell_state \<Rightarrow> (cstring \<times> ('e, 'k) shell_state) option" where
  "ask_password w =
     (let w1 = say ''Password: '' [] w in
      case cli_read_password 63 [] (keys w1) (sh_con w1) of
        None \<Rightarrow> None
      | Some (pw, rest, con) \<Rightarrow> Some (pw, w1\<lparr>keys := rest, sh_con := con\<rparr>))"

definition switch_user :: "cstring \<Rightarrow> UserRecord \<Rightarrow> CliSession \<Rightarrow> ('e, 'k) shell_state \<Rightarrow> CliSession" where
  "switch_user name user session w =
     (let uid = userdb_find_uid (Some name) (sh_users w)
      in session\<lparr>cs_username := cli_strcpy (cs_username session) name 32, cs_privilege := ucast (ur_privilege user),
           cs_uid := (if uid \<ge> 0 then of_int uid else cs_uid session)\<rparr>)"

definition cli_cmd_login :: "'e rust_engine \<Rightarrow> ('e, 'k) handler" where
  "cli_cmd_login rust session cmd w =
     (if length (argv cmd) < 2 then Some (CLI_OK, session, say (''Usage: login <username>'' @ [CHR 0x0A]) [] w)
      else let name = argv cmd ! 1 in
        case userdb_find_user name (sh_users w) of
          None \<Rightarrow> Some (CLI_OK, session, say (''Unknown user: %s'' @ [CHR 0x0A]) [StrArg (Some name)] w)
        | Some user \<Rightarrow>
            if ur_flags user AND USER_FLAG_ACTIVE = 0 then Some (CLI_OK, session, say (''Account disabled'' @ [CHR 0x0A]) [] w)
            else if ur_flags user AND USER_FLAG_LOCKED \<noteq> 0 then Some (CLI_OK, session, say (''Account locked'' @ [CHR 0x0A]) [] w)
            else if ur_flags user AND USER_FLAG_NO_PASSWORD = 0 then
              (case ask_password w of
                 None \<Rightarrow> None
               | Some (pw, w1) \<Rightarrow>
                   if pw = [] then Some (CLI_OK, session, say (''Login cancelled'' @ [CHR 0x0A]) [] w1)
                   else if userdb_authenticate name (Some pw) (sh_users w1) < 0 then
                     Some (CLI_OK, session, (say (''Authentication failed'' @ [CHR 0x0A]) [] w1)
                       \<lparr>sh_ai := ai_kernel_engine_feed rust ''DENY'' name (ucast (sh_ticks w1)) (sh_ai w1)\<rparr>)
                   else Some (CLI_OK, switch_user name user session w1, say (''Logged in as %s'' @ [CHR 0x0A]) [StrArg (Some name)] w1))
            else Some (CLI_OK, switch_user name user session w, say (''Logged in as %s'' @ [CHR 0x0A]) [StrArg (Some name)] w))"

text \<open>The arguments behind the first, joined by blanks in a buffer of 256 characters.\<close>

fun join_loop :: "cstring list \<Rightarrow> bool \<Rightarrow> cstring \<Rightarrow> cstring" where
  "join_loop [] first acc = acc"
| "join_loop (a # as) first acc =
     (if length acc < CLI_MAX_INPUT_LEN - 1 then
        let acc1 = (if \<not> first then acc @ '' '' else acc)
        in join_loop as False (acc1 @ take (CLI_MAX_INPUT_LEN - 1 - length acc1) a)
      else acc)"

definition as_root :: "CliSession \<Rightarrow> CliSession" where
  "as_root s = s\<lparr>cs_privilege := CLI_PRIV_ROOT, cs_uid := 0, cs_username := cli_strcpy (cs_username s) ''root'' 32\<rparr>"

text \<open>
  \<open>exec\<close> is \<open>cli_execute_command\<close>, called back; \<open>stack\<close> is what the buffer of the saved name holds before.
\<close>

definition su_run :: "cstring \<Rightarrow> ('e, 'k) handler \<Rightarrow> ('e, 'k) handler" where
  "su_run stack exec session cmd w =
     (let saved_name = cli_strcpy stack (cs_username session) 32;
          sub = cli_parse_command (Some (join_loop (tl (argv cmd)) True []))
      in map_option (\<lambda>(rc, s1, w1). (rc, s1\<lparr>cs_privilege := cs_privilege session, cs_uid := cs_uid session,
             cs_username := cli_strcpy (cs_username s1) saved_name 32\<rparr>, w1))
         (if fst sub = CLI_OK then exec (as_root session) (snd sub) w else Some (CLI_OK, as_root session, w)))"

definition cli_cmd_su :: "'e rust_engine \<Rightarrow> cstring \<Rightarrow> ('e, 'k) handler \<Rightarrow> ('e, 'k) handler" where
  "cli_cmd_su rust stack exec session cmd w =
     (if length (argv cmd) < 2 then
        Some (CLI_OK, session, say (''  Run a command with root privileges'' @ [CHR 0x0A]) [] (say (''Usage: su <command> [args...]'' @ [CHR 0x0A]) [] w))
      else if cs_privilege session = CLI_PRIV_ROOT then
        (case cli_parse_command (Some (join_loop (tl (argv cmd)) True [])) of (rc, sub) \<Rightarrow>
           if rc \<noteq> CLI_OK then Some (rc, session, w) else exec session sub w)
      else case userdb_find_user ''root'' (sh_users w) of
        None \<Rightarrow> Some (CLI_OK, session, say (''Authentication failed'' @ [CHR 0x0A]) [] w)
      | Some root \<Rightarrow>
          if ur_flags root AND USER_FLAG_ACTIVE = 0 then Some (CLI_OK, session, say (''Authentication failed'' @ [CHR 0x0A]) [] w)
          else if ur_flags root AND USER_FLAG_NO_PASSWORD = 0 then
            (case ask_password w of
               None \<Rightarrow> None
             | Some (pw, w1) \<Rightarrow>
                 if pw = [] then Some (CLI_OK, session, say (''Cancelled'' @ [CHR 0x0A]) [] w1)
                 else if userdb_authenticate ''root'' (Some pw) (sh_users w1) < 0 then
                   Some (CLI_OK, session, (say (''Authentication failed'' @ [CHR 0x0A]) [] w1)
                     \<lparr>sh_ai := ai_kernel_engine_feed rust ''DENY'' ''su'' (ucast (sh_ticks w1)) (sh_ai w1)\<rparr>)
                 else su_run stack exec session cmd w1)
          else su_run stack exec session cmd w)"

definition cli_cmd_logout :: "('e, 'k) handler" where
  "cli_cmd_logout session cmd w =
     (if cs_privilege session = CLI_PRIV_ROOT
         \<and> (case userdb_find_user ''root'' (sh_users w) of Some r \<Rightarrow> ur_flags r AND USER_FLAG_NO_PASSWORD \<noteq> 0 | None \<Rightarrow> False)
      then Some (CLI_OK, session, say (''Already at default root session'' @ [CHR 0x0A]) [] w)
      else Some (CLI_OK, session\<lparr>cs_username := cli_strcpy (cs_username session) ''root'' 32, cs_privilege := CLI_PRIV_ROOT\<rparr>,
             say (''Logged out '' @ [CHR 0xE2, CHR 0x80, CHR 0x94] @ '' returned to root'' @ [CHR 0x0A]) [] w))"

section \<open>Lemmas\<close>

text \<open>
  The gate, written down apart from the code that asks it: the command of a row is closed to a session whose
  privilege number is above the row's, or whose command word the policy denies. In a guarded table every
  handler is replaced, on exactly the calls that should not happen, by an arbitrary other one.
\<close>

definition gate_closed :: "'e rust_engine \<Rightarrow> u32 \<Rightarrow> cstring \<Rightarrow> CliSession \<Rightarrow> ('e, 'k) shell_state \<Rightarrow> bool" where
  "gate_closed rust priv name s w \<longleftrightarrow>
     unat (cs_privilege s) > unat priv \<or> \<not> policy_check_command rust (Some name) (ucast (cs_privilege s)) (sh_ai w)"

definition guarded :: "'e rust_engine \<Rightarrow> ('e, 'k) handler \<Rightarrow> ('e, 'k) CliBuiltinCommand \<Rightarrow> ('e, 'k) CliBuiltinCommand" where
  "guarded rust g b = b\<lparr>bc_handler := \<lambda>s cmd w.
     if gate_closed rust (bc_min_privilege b) (hd (argv cmd)) s w then g s cmd w else bc_handler b s cmd w\<rparr>"

lemma find_guarded: "cli_find_builtin (map (guarded rust g) t) name = map_option (guarded rust g) (cli_find_builtin t name)"
  by (induction t) (simp_all add: cli_find_builtin_def guarded_def)

lemma single_guarded: "cli_execute_single_command rust (map (guarded rust g) t) = cli_execute_single_command rust t"
  by (intro ext)
     (simp add: cli_execute_single_command_def find_guarded guarded_def gate_closed_def word_less_nat_alt Let_def split: option.split)

lemma execute_guarded: "cli_execute_command rust (map (guarded rust g) t) s cmd w = cli_execute_command rust t s cmd w"
proof (induction rust t s cmd w rule: cli_execute_command.induct)
  case (1 rust t s cmd w)
  have left: "pipe_left rust (map (guarded rust g) t) = pipe_left rust t" by (intro ext) (unfold pipe_left_def single_guarded, rule refl)
  show ?case
    using 1 by (subst (1 2) cli_execute_command.simps) (auto simp: single_guarded left split: option.split sum.split)
qed

lemma segments_guarded: "run_segments rust (map (guarded rust g) t) first rc segs s w = run_segments rust t first rc segs s w"
proof (induction segs arbitrary: first rc s w)
  case (Cons seg segs)
  obtain sep tx where seg: "seg = (sep, tx)" by (cases seg)
  have single: "cli_process_single rust (map (guarded rust g) t) = cli_process_single rust t"
    by (intro ext) (unfold cli_process_single_def execute_guarded, rule refl)
  show ?case unfolding seg run_segments.simps single Cons.IH ..
qed simp

lemma process_line_guarded: "cli_process_line rust (map (guarded rust g) t) s line w = cli_process_line rust t s line w"
  unfolding cli_process_line_def segments_guarded ..

lemma parse_words:
  assumes "list_all plain_word ws" "ws \<noteq> []" "length ws \<le> CLI_MAX_ARGS" "length (join_words ws) < CLI_MAX_INPUT_LEN"
  shows "cli_parse_command (Some (join_words ws)) = (CLI_OK, no_command\<lparr>argv := ws\<rparr>)"
proof -
  have "NUL \<notin> set (join_words ws)" using assms(1) by (auto simp: join_words_def plain_word_def list_all_iff)
  then have "take 255 (cstr (join_words ws)) = join_words ws" using assms(4) by (simp add: cstr_id)
  then show ?thesis
    using tokenize_words [OF assms(1), of no_command] assms(2,3) by (simp add: cli_parse_command_def Let_def no_command_def)
qed

text \<open>The text between two commands.\<close>

definition sep_text :: "CliSep \<Rightarrow> cstring" where
  "sep_text sep = (case sep of SEP_SEQ \<Rightarrow> '';'' | SEP_AND \<Rightarrow> ''&&'' | SEP_OR \<Rightarrow> ''||'' | SEP_NONE \<Rightarrow> [])"

lemma plain_split:
  assumes "plain_text t"
  shows "split_loop False pre acc n (t @ rest) = split_loop False pre (acc @ t) n rest" "NUL \<notin> set t"
proof -
  have "list_all (\<lambda>c. c \<noteq> CHR 0x22 \<and> c \<noteq> CHR '';'' \<and> c \<noteq> CHR ''&'' \<and> c \<noteq> CHR ''|'') t"
    using assms unfolding plain_text_def by (rule list.pred_mono_strong) simp
  then show "split_loop False pre acc n (t @ rest) = split_loop False pre (acc @ t) n rest" by (rule split_plain)
  show "NUL \<notin> set t" using assms by (auto simp: plain_text_def list_all_iff)
qed

lemma split_two:
  assumes "plain_text a" "plain_text b" "sep \<noteq> SEP_NONE" "length (a @ sep_text sep @ b) \<le> 255"
  shows "split_line (a @ sep_text sep @ b) = [(SEP_NONE, a), (sep, b)]"
proof -
  have nul: "NUL \<notin> set (a @ sep_text sep @ b)"
    using plain_split(2) [OF assms(1)] plain_split(2) [OF assms(2)] by (cases sep) (auto simp: sep_text_def)
  have cut: "split_loop False SEP_NONE a 1 (sep_text sep @ b) = (SEP_NONE, a) # split_loop False sep [] 2 b"
    using assms(3) by (cases sep) (auto simp: sep_text_def sep_at_def Let_def numeral_2_eq_2)
  have "split_loop False SEP_NONE [] 1 (a @ sep_text sep @ b) = [(SEP_NONE, a), (sep, b)]"
    using plain_split(1) [OF assms(2), of sep "[]" 2 "[]"] cut by (simp add: plain_split(1) [OF assms(1)])
  then show ?thesis using assms(4) by (simp add: split_line_def cstr_id [OF nul])
qed

lemma two_commands:
  assumes "plain_text a" "plain_text b" "dropWhile blank a \<noteq> []" "dropWhile blank b \<noteq> []" "sep \<noteq> SEP_NONE"
    and "length (a @ sep_text sep @ b) < CLI_MAX_INPUT_LEN" "\<not> sh_ps_live w"
  shows "cli_process_line rust table s (a @ sep_text sep @ b) w =
    (case cli_process_single rust table s (dropWhile blank a) w of
       None \<Rightarrow> None
     | Some (rc, s1, w1) \<Rightarrow>
         if sep = SEP_AND \<and> rc \<noteq> CLI_OK \<or> sep = SEP_OR \<and> rc = CLI_OK then Some (rc, s1, w1)
         else cli_process_single rust table s1 (dropWhile blank b) w1)"
proof -
  have "length (a @ sep_text sep @ b) \<le> 255" using assms(6) by simp
  from split_two [OF assms(1,2,5) this] assms(3,4,7) show ?thesis
    by (auto simp: cli_process_line_def Let_def split: option.split)
qed

lemma one_command:
  assumes "plain_text a" "dropWhile blank a \<noteq> []" "length a < CLI_MAX_INPUT_LEN" "\<not> sh_ps_live w"
  shows "cli_process_line rust table s a w = cli_process_single rust table s (dropWhile blank a) w"
proof -
  have "split_loop False SEP_NONE [] 1 a = [(SEP_NONE, a)]" using plain_split(1) [OF assms(1), of SEP_NONE "[]" 1 "[]"] by simp
  then have "split_line a = [(SEP_NONE, a)]" using assms(3) by (simp add: split_line_def cstr_id [OF plain_split(2) [OF assms(1)]])
  then show ?thesis using assms(2,4) by (auto simp: cli_process_line_def Let_def split: option.split)
qed

text \<open>A line of plain words runs its handler, if the gate is open.\<close>

lemma process_words:
  assumes "list_all plain_word (name # args)" "length args < 16" "length (join_words (name # args)) < CLI_MAX_INPUT_LEN"
    and "cli_find_builtin table name = Some b" "cs_privilege s \<le> bc_min_privilege b"
    and "policy_check_command rust (Some name) (ucast (cs_privilege s)) (sh_ai w)"
  shows "cli_process_single rust table s (join_words (name # args)) w = bc_handler b (s\<lparr>commands_executed := commands_executed s + 1\<rparr>)
    (no_command\<lparr>argv := name # args\<rparr>) (w\<lparr>sh_klog := snd (klog (ucast (sh_ticks w)) KLOG_DEBUG (Some ''cli'') (Some name) (sh_klog w))\<rparr>)"
  using parse_words [OF assms(1) _ _ assms(3)] assms(2,4,6) leD [OF assms(5)]
  by (simp add: cli_process_single_def cli_execute_command.simps no_command_def cli_execute_single_command_def)

lemma deny_audited:
  assumes "audit_ok (sh_audit w)"
  shows "hd (auditlog_print_all (sh_audit (cli_deny rust fmt args tag s name req w)))
    = audit_shown (ucast (sh_ticks w), cs_username s, name, ucast (cs_privilege s), req)"
proof -
  let ?c = "(ucast (sh_ticks w), cs_username s, name, ucast (cs_privilege s), req)"
  have "sh_audit (cli_deny rust fmt args tag s name req w) = audit_call ?c (sh_audit w)"
    by (simp add: cli_deny_def Let_def say_def audit_call_def)
  with audit.newest_record [OF assms, of ?c] auditlog_print_newest [OF audit.invar_record [OF assms, of ?c]] show ?thesis by simp
qed


lemma su_run_restores:
  "su_run stack exec s cmd w = Some (rc, s', w') \<Longrightarrow> cs_privilege s' = cs_privilege s \<and> cs_uid s' = cs_uid s"
  by (auto simp: su_run_def Let_def)

section \<open>Properties\<close>

definition demo_command :: "cstring \<Rightarrow> u32 \<Rightarrow> (unit, nat) handler \<Rightarrow> (unit, nat) CliBuiltinCommand" where
  "demo_command name priv h = \<lparr>bc_name = name, bc_handler = h, bc_min_privilege = priv\<rparr>"

definition count_up :: "(unit, nat) handler" where
  "count_up s cmd w = Some (CLI_OK, s, w\<lparr>sh_kernel := sh_kernel w + 1\<rparr>)"

definition guest :: CliSession where
  "guest = blank_session\<lparr>cs_uid := 3, cs_privilege := 100, cs_username := cli_strcpy (replicate 32 NUL) ''bob'' 32\<rparr>"

text \<open>
  Property: a command that the table closes to the session, or that the policy denies, is not run:
  the result is the permission error, the session is the same, so are the users, the typed characters and
  the rest of the kernel, and the newest entry of the audit listing is this denial: who, which command,
  with which privilege.
\<close>

theorem cli_denial_is_audited:
  assumes "argv cmd = name # args" "cli_find_builtin table name = Some b" "audit_ok (sh_audit w)"
    and "bc_min_privilege b < cs_privilege s \<or> \<not> policy_check_command rust (Some name) (ucast (cs_privilege s)) (sh_ai w)"
  shows "\<exists>w' req. cli_execute_single_command rust table s cmd w = Some (CLI_ERR_NO_PERMISSION, s, w')
    \<and> sh_kernel w' = sh_kernel w \<and> sh_users w' = sh_users w \<and> keys w' = keys w
    \<and> hd (auditlog_print_all (sh_audit w')) = audit_shown (ucast (sh_ticks w), cs_username s, name, ucast (cs_privilege s), req)"
proof -
  have "\<exists>fmt as tag req. cli_execute_single_command rust table s cmd w
      = Some (CLI_ERR_NO_PERMISSION, s, cli_deny rust fmt as tag s name req w)"
    using assms by (auto simp: cli_execute_single_command_def Let_def)
  then obtain fmt as tag req where "cli_execute_single_command rust table s cmd w
      = Some (CLI_ERR_NO_PERMISSION, s, cli_deny rust fmt as tag s name req w)" by blast
  with deny_audited [OF assms(3)] show ?thesis by (auto simp: cli_deny_def Let_def say_def)
qed

definition demo_shell :: "(unit, nat) shell_state" where
  "demo_shell = \<lparr>sh_con = \<lparr>cap_active = False, cap_echo = True, cap_buf = [], pipe_in = [], screen = []\<rparr>, sh_klog = blank_klog,
     sh_audit = blank_audit, sh_ai = demo_engine, sh_users = \<lparr>g_users = [], g_user_count = 0, g_userdb_ready = False\<rparr>,
     sh_ticks = 9, sh_ps_live = False, keys = [], sh_kernel = 0\<rparr>"

theorem cli_denial_is_audited_witness:
  "\<exists>w'. cli_execute_single_command demo_rust [demo_command ''halt'' 0 count_up] guest (no_command\<lparr>argv := [''halt'']\<rparr>) demo_shell
     = Some (CLI_ERR_NO_PERMISSION, guest, w') \<and> sh_kernel w' = 0 \<and> fst (snd (hd (auditlog_print_all (sh_audit w')))) = ''bob''"
proof -
  let ?t = "[demo_command ''halt'' 0 count_up]" and ?c = "no_command\<lparr>argv := [''halt'']\<rparr>"
  have f: "argv ?c = ''halt'' # []" "cli_find_builtin ?t ''halt'' = Some (demo_command ''halt'' 0 count_up)"
    by (simp_all add: cli_find_builtin_def cli_strcmp_def c_strcmp_eq_0 demo_command_def)
  have ok: "audit_ok (sh_audit demo_shell)" by (simp add: demo_shell_def audit_ok_def blank_audit_def list_all_length)
  have "cstr (cs_username guest) = ''bob''" by code_simp
  then show ?thesis
    using cli_denial_is_audited [OF f ok, of guest demo_rust]
    by (auto simp: demo_command_def guest_def audit_shown_def demo_shell_def)
qed

text \<open>
  Property: words reach a command unchanged. A line of at most 16 words, each followed by a blank and
  none with a character that ends a token, is parsed into exactly these words as arguments, with no
  redirection, pipe or background flag, if it fits the buffer of 255 characters.
\<close>

theorem cli_parse_words_roundtrip:
  assumes "list_all plain_word ws" "ws \<noteq> []" "length ws \<le> CLI_MAX_ARGS" "length (join_words ws) < CLI_MAX_INPUT_LEN"
  shows "cli_parse_command (Some (join_words ws)) = (CLI_OK, no_command\<lparr>argv := ws\<rparr>)"
  by (rule parse_words [OF assms])

theorem cli_parse_words_roundtrip_witness:
  "cli_parse_command (Some ''write /f a=b '') = (CLI_OK, no_command\<lparr>argv := [''write'', ''/f'', ''a=b'']\<rparr>)"
  using cli_parse_words_roundtrip [of "[''write'', ''/f'', ''a=b'']"] by (simp add: plain_word_def token_end_def blank_def join_words_def)

text \<open>
  Property: a line of two commands does what its separator says. \<open>a;b\<close> runs both, \<open>a&&b\<close> runs the
  second only if the first returned success, \<open>a||b\<close> only if it failed; the second runs in the session and
  state the first left, and the line returns the status of the last command that ran.
\<close>

theorem cli_two_commands:
  assumes "plain_text a" "plain_text b" "dropWhile blank a \<noteq> []" "dropWhile blank b \<noteq> []" "sep \<noteq> SEP_NONE"
    and "length (a @ sep_text sep @ b) < CLI_MAX_INPUT_LEN" "\<not> sh_ps_live w"
  shows "cli_process_line rust table s (a @ sep_text sep @ b) w =
    (case cli_process_single rust table s (dropWhile blank a) w of
       None \<Rightarrow> None
     | Some (rc, s1, w1) \<Rightarrow>
         if sep = SEP_AND \<and> rc \<noteq> CLI_OK \<or> sep = SEP_OR \<and> rc = CLI_OK then Some (rc, s1, w1)
         else cli_process_single rust table s1 (dropWhile blank b) w1)"
  by (rule two_commands [OF assms])

theorem cli_two_commands_witness:
  "cli_process_line demo_rust [demo_command ''tick'' 100 count_up] guest ''nop || tick'' demo_shell
     = (case cli_process_single demo_rust [demo_command ''tick'' 100 count_up] guest ''nop '' demo_shell of
          None \<Rightarrow> None
        | Some (rc, s1, w1) \<Rightarrow> if rc = CLI_OK then Some (rc, s1, w1)
            else cli_process_single demo_rust [demo_command ''tick'' 100 count_up] s1 ''tick'' w1)"
proof -
  have "plain_text ''nop ''" "plain_text '' tick''" "\<not> sh_ps_live demo_shell" by (simp_all add: plain_text_def demo_shell_def)
  moreover have d: "dropWhile blank ''nop '' = ''nop ''" "dropWhile blank '' tick'' = ''tick''" by (simp_all add: blank_def)
  ultimately show ?thesis
    using cli_two_commands [of "''nop ''" "'' tick''" SEP_OR demo_shell demo_rust "[demo_command ''tick'' 100 count_up]" guest]
    by (simp add: sep_text_def d blank_def split: option.split)
qed

text \<open>
  Property C34: \<open>su\<close> gives root only for one command and only to whom the database allows it. For a session
  that is not root, the privilege and the user id after \<open>su\<close> are those before it, whatever the command did
  to the session; and unless root is an active account without password, or the password typed
  authenticates as root, the result does not depend on what the command would have done: it is not run.
\<close>

theorem cli_su_confined:
  assumes "cs_privilege s \<noteq> CLI_PRIV_ROOT"
  shows "(\<forall>rc s' w'. cli_cmd_su rust stack exec s cmd w = Some (rc, s', w') \<longrightarrow> cs_privilege s' = cs_privilege s \<and> cs_uid s' = cs_uid s)
    \<and> (\<not> (\<exists>root. userdb_find_user ''root'' (sh_users w) = Some root \<and> ur_flags root AND USER_FLAG_ACTIVE \<noteq> 0
          \<and> (ur_flags root AND USER_FLAG_NO_PASSWORD \<noteq> 0
             \<or> (\<exists>pw w1. ask_password w = Some (pw, w1) \<and> pw \<noteq> [] \<and> userdb_authenticate ''root'' (Some pw) (sh_users w1) \<ge> 0)))
       \<longrightarrow> cli_cmd_su rust stack exec s cmd w = cli_cmd_su rust stack exec' s cmd w)"
  using assms su_run_restores [of stack exec s cmd]
  by (auto simp: cli_cmd_su_def split: option.split prod.split if_splits)

theorem cli_su_confined_witness:
  "cli_cmd_su demo_rust [] (\<lambda>s cmd w. None) guest (no_command\<lparr>argv := [''su'', ''halt'']\<rparr>) demo_shell
     = cli_cmd_su demo_rust [] count_up guest (no_command\<lparr>argv := [''su'', ''halt'']\<rparr>) demo_shell"
proof -
  have g: "cs_privilege guest \<noteq> CLI_PRIV_ROOT" by (simp add: guest_def)
  have "userdb_find_user ''root'' (sh_users demo_shell) = None" by (simp add: demo_shell_def userdb_find_user_def)
  then show ?thesis by (intro conjunct2 [OF cli_su_confined [OF g], THEN mp]) simp
qed

text \<open>
  Property: \<open>logout\<close> is a way to root. The table opens \<open>logout\<close> to every user and its handler asks for
  no password: from any session the policy lets run it, the session's privilege is root afterwards, while
  its user id is still that of the user.
\<close>

theorem cli_logout_gives_root:
  assumes "cli_find_builtin table ''logout'' = Some b" "bc_handler b = cli_cmd_logout" "bc_min_privilege b = CLI_PRIV_USER"
    and "cs_privilege s \<le> CLI_PRIV_USER" "policy_check_command rust (Some ''logout'') (ucast (cs_privilege s)) (sh_ai w)"
    and "argv cmd = [''logout'']"
  shows "\<exists>s' w'. cli_execute_single_command rust table s cmd w = Some (CLI_OK, s', w')
    \<and> cs_privilege s' = CLI_PRIV_ROOT \<and> cs_uid s' = cs_uid s"
  using assms by (auto simp: cli_execute_single_command_def cli_cmd_logout_def Let_def)

theorem cli_logout_gives_root_witness:
  "\<exists>s' w'. cli_execute_single_command demo_rust [demo_command ''logout'' 100 cli_cmd_logout] guest (no_command\<lparr>argv := [''logout'']\<rparr>) demo_shell
     = Some (CLI_OK, s', w') \<and> cs_privilege s' = 0 \<and> cs_uid s' = 3"
proof -
  have p: "policy_check_command demo_rust (Some ''logout'') (ucast (cs_privilege guest)) (sh_ai demo_shell)" by code_simp
  show ?thesis
    using cli_logout_gives_root [of "[demo_command ''logout'' 100 cli_cmd_logout]" "demo_command ''logout'' 100 cli_cmd_logout" guest demo_rust demo_shell
      "no_command\<lparr>argv := [''logout'']\<rparr>"] p
    by (simp add: cli_find_builtin_def cli_strcmp_def c_strcmp_eq_0 demo_command_def guest_def)
qed

end
