(* ===== verification/Ipc.thy ===== *)
theory Ipc
  imports Ring_Buffers
begin

text \<open>
  The kernel IPC subsystem, \<open>src/kernel/ipc/ipc.c\<close> with \<open>src/include/ipc.h\<close>: per-process mailboxes
  (message queues found through a PID cache), byte-stream channels, path-named local sockets on top
  of channels, and the dispatcher of the system calls 20 to 27, which reads and writes messages in
  user memory. The globals of the file are the record \<open>ipc_state\<close>; every function takes and
  returns it. Internal searches return \<open>nat option\<close> for the index or -1 of the C code; the public
  API returns the C result code.

  Buffers that the caller passes are assumed to hold the bytes that the length argument announces.
\<close>

section \<open>Data\<close>

abbreviation IPC_MAX_QUEUES :: nat where "IPC_MAX_QUEUES \<equiv> 16"
abbreviation IPC_QUEUE_DEPTH :: nat where "IPC_QUEUE_DEPTH \<equiv> 16"
abbreviation IPC_MSG_PAYLOAD :: nat where "IPC_MSG_PAYLOAD \<equiv> 48"
abbreviation IPC_MAX_CHANNELS :: nat where "IPC_MAX_CHANNELS \<equiv> 8"
abbreviation IPC_CHAN_BUF_SIZE :: nat where "IPC_CHAN_BUF_SIZE \<equiv> 512"
abbreviation IPC_MAX_USOCKETS :: nat where "IPC_MAX_USOCKETS \<equiv> 8"
abbreviation IPC_USOCK_PATH_MAX :: nat where "IPC_USOCK_PATH_MAX \<equiv> 32"
abbreviation IPC_PID_CACHE_SIZE :: nat where "IPC_PID_CACHE_SIZE \<equiv> 256"

definition IPC_OK :: int where "IPC_OK = 0"
definition IPC_ERR_FULL :: int where "IPC_ERR_FULL = -1"
definition IPC_ERR_EMPTY :: int where "IPC_ERR_EMPTY = -2"
definition IPC_ERR_INVAL :: int where "IPC_ERR_INVAL = -3"
definition IPC_ERR_NOSLOT :: int where "IPC_ERR_NOSLOT = -4"

lemmas ipc_codes = IPC_OK_def IPC_ERR_FULL_def IPC_ERR_EMPTY_def IPC_ERR_INVAL_def IPC_ERR_NOSLOT_def

record IpcMessage =
  m_src_pid :: u32
  m_dst_pid :: u32
  m_type :: u32
  m_len :: u32
  m_data :: bytes

record IpcQueue =
  q_owner_pid :: u32
  q_head :: nat
  q_tail :: nat
  q_count :: nat
  q_msgs :: "IpcMessage list"

record IpcChannel =
  ch_owner_pid :: u32
  ch_peer_pid :: u32
  ch_buf :: bytes
  ch_head :: nat
  ch_tail :: nat
  ch_count :: nat
  ch_closed :: bool

record IpcStats =
  queues_active :: u32
  channels_active :: u32
  messages_sent :: u32
  messages_dropped :: u32

record IpcUnixSocket =
  us_used :: bool
  us_cid :: u32
  us_owner_pid :: u32
  us_path :: "char list"

record ipc_state =
  g_queues :: "IpcQueue list"
  g_channels :: "IpcChannel list"
  g_stats :: IpcStats
  g_usocks :: "IpcUnixSocket list"
  g_pid_to_qid :: "int list"

text \<open>The all-zero values that \<open>ipc_memset(..., 0, sizeof ...)\<close> leaves.\<close>

definition zero_message :: IpcMessage where
  "zero_message = \<lparr>m_src_pid = 0, m_dst_pid = 0, m_type = 0, m_len = 0,
     m_data = replicate IPC_MSG_PAYLOAD 0\<rparr>"

definition zero_queue :: IpcQueue where
  "zero_queue = \<lparr>q_owner_pid = 0, q_head = 0, q_tail = 0, q_count = 0,
     q_msgs = replicate IPC_QUEUE_DEPTH zero_message\<rparr>"

definition zero_channel :: IpcChannel where
  "zero_channel = \<lparr>ch_owner_pid = 0, ch_peer_pid = 0, ch_buf = replicate IPC_CHAN_BUF_SIZE 0,
     ch_head = 0, ch_tail = 0, ch_count = 0, ch_closed = False\<rparr>"

definition zero_usock :: IpcUnixSocket where
  "zero_usock = \<lparr>us_used = False, us_cid = 0, us_owner_pid = 0,
     us_path = replicate IPC_USOCK_PATH_MAX NUL\<rparr>"

section \<open>Operations\<close>

definition ipc_strcmp :: "char list \<Rightarrow> char list \<Rightarrow> int" where
  "ipc_strcmp = c_strcmp"

definition ipc_strncpy :: "char list \<Rightarrow> char list \<Rightarrow> nat \<Rightarrow> char list" where
  "ipc_strncpy = c_strlcpy"

definition usock_find_by_path :: "cstring \<Rightarrow> ipc_state \<Rightarrow> nat option" where
  "usock_find_by_path path s =
     (if cstr path = [] then None
      else find_slot (\<lambda>u. us_used u \<and> ipc_strcmp (us_path u) path = 0) (g_usocks s))"

definition ipc_init :: ipc_state where
  "ipc_init = \<lparr>g_queues = replicate IPC_MAX_QUEUES zero_queue,
     g_channels = replicate IPC_MAX_CHANNELS zero_channel,
     g_stats = \<lparr>queues_active = 0, channels_active = 0, messages_sent = 0, messages_dropped = 0\<rparr>,
     g_usocks = replicate IPC_MAX_USOCKETS zero_usock,
     g_pid_to_qid = replicate IPC_PID_CACHE_SIZE (-1)\<rparr>"

definition ipc_get_stats :: "ipc_state \<Rightarrow> IpcStats" where
  "ipc_get_stats s = g_stats s"

definition queue_find_by_pid :: "u32 \<Rightarrow> ipc_state \<Rightarrow> nat option \<times> ipc_state" where
  "queue_find_by_pid pid s =
     (let qid = g_pid_to_qid s ! unat pid in
      if unat pid < IPC_PID_CACHE_SIZE \<and> 0 \<le> qid \<and> qid < int IPC_MAX_QUEUES
         \<and> q_owner_pid (g_queues s ! nat qid) = pid
      then (Some (nat qid), s)
      else case find_slot (\<lambda>q. q_owner_pid q = pid) (g_queues s) of
             None \<Rightarrow> (None, s)
           | Some i \<Rightarrow>
               (Some i, if unat pid < IPC_PID_CACHE_SIZE
                        then s\<lparr>g_pid_to_qid := (g_pid_to_qid s)[unat pid := int i]\<rparr> else s))"

definition ipc_queue_create :: "u32 \<Rightarrow> ipc_state \<Rightarrow> int \<times> ipc_state" where
  "ipc_queue_create pid s =
     (if pid = 0 then (IPC_ERR_INVAL, s)
      else case queue_find_by_pid pid s of
        (Some existing, s1) \<Rightarrow> (int existing, s1)
      | (None, s1) \<Rightarrow>
          (case find_slot (\<lambda>q. q_owner_pid q = 0) (g_queues s1) of
             None \<Rightarrow> (IPC_ERR_NOSLOT, s1)
           | Some i \<Rightarrow>
               (int i, s1\<lparr>g_queues := (g_queues s1)[i := zero_queue\<lparr>q_owner_pid := pid\<rparr>],
                  g_pid_to_qid := (if unat pid < IPC_PID_CACHE_SIZE
                     then (g_pid_to_qid s1)[unat pid := int i] else g_pid_to_qid s1),
                  g_stats := (g_stats s1)\<lparr>queues_active := queues_active (g_stats s1) + 1\<rparr>\<rparr>)))"

definition ipc_queue_destroy :: "u32 \<Rightarrow> ipc_state \<Rightarrow> ipc_state" where
  "ipc_queue_destroy qid s =
     (if unat qid \<ge> IPC_MAX_QUEUES then s
      else let pid = q_owner_pid (g_queues s ! unat qid) in
        if pid \<noteq> 0 then
          s\<lparr>g_pid_to_qid := (if unat pid < IPC_PID_CACHE_SIZE
               then (g_pid_to_qid s)[unat pid := -1] else g_pid_to_qid s),
            g_queues := (g_queues s)[unat qid := zero_queue],
            g_stats := (if queues_active (g_stats s) \<noteq> 0
               then (g_stats s)\<lparr>queues_active := queues_active (g_stats s) - 1\<rparr> else g_stats s)\<rparr>
        else s)"

text \<open>The slot write and the pointer moves of \<open>ipc_send\<close> and \<open>ipc_recv\<close> on one queue.\<close>

definition queue_put :: "IpcMessage \<Rightarrow> IpcQueue \<Rightarrow> IpcQueue" where
  "queue_put m q = q\<lparr>q_msgs := (q_msgs q)[q_tail q := m],
     q_tail := (q_tail q + 1) mod IPC_QUEUE_DEPTH, q_count := q_count q + 1\<rparr>"

definition queue_front :: "IpcQueue \<Rightarrow> IpcMessage" where
  "queue_front q = q_msgs q ! q_head q"

definition queue_take :: "IpcQueue \<Rightarrow> IpcQueue" where
  "queue_take q = q\<lparr>q_head := (q_head q + 1) mod IPC_QUEUE_DEPTH, q_count := q_count q - 1\<rparr>"

definition make_message :: "u32 \<Rightarrow> u32 \<Rightarrow> u32 \<Rightarrow> bytes \<Rightarrow> u32 \<Rightarrow> IpcMessage" where
  "make_message src dst ty data len =
     (let n = min (unat len) IPC_MSG_PAYLOAD; d = take n data
      in \<lparr>m_src_pid = src, m_dst_pid = dst, m_type = ty, m_len = of_nat n,
          m_data = d @ replicate (IPC_MSG_PAYLOAD - length d) 0\<rparr>)"

definition drop_message :: "ipc_state \<Rightarrow> ipc_state" where
  "drop_message s = s\<lparr>g_stats := (g_stats s)\<lparr>messages_dropped := messages_dropped (g_stats s) + 1\<rparr>\<rparr>"

definition enqueue_message :: "nat \<Rightarrow> IpcMessage \<Rightarrow> ipc_state \<Rightarrow> ipc_state" where
  "enqueue_message i m s = s\<lparr>g_queues := (g_queues s)[i := queue_put m (g_queues s ! i)],
     g_stats := (g_stats s)\<lparr>messages_sent := messages_sent (g_stats s) + 1\<rparr>\<rparr>"

definition ipc_send :: "u32 \<Rightarrow> u32 \<Rightarrow> u32 \<Rightarrow> bytes option \<Rightarrow> u32 \<Rightarrow> ipc_state \<Rightarrow> int \<times> ipc_state" where
  "ipc_send src_pid dst_pid ty data len s =
     (if dst_pid = 0 \<or> data = None then (IPC_ERR_INVAL, s)
      else
        let (found, s1) = queue_find_by_pid dst_pid s;
            (qid, s2) = (case found of Some i \<Rightarrow> (int i, s1) | None \<Rightarrow> ipc_queue_create dst_pid s1)
        in if qid < 0 then (IPC_ERR_NOSLOT, drop_message s2)
           else if q_count (g_queues s2 ! nat qid) \<ge> IPC_QUEUE_DEPTH
           then (IPC_ERR_FULL, drop_message s2)
           else (IPC_OK, enqueue_message (nat qid) (make_message src_pid dst_pid ty (the data) len) s2))"

text \<open>\<open>ipc_recv\<close> also returns the message it copied to \<open>out\<close>; \<open>out_valid\<close> is \<open>out != NULL\<close>.\<close>

definition ipc_recv :: "u32 \<Rightarrow> bool \<Rightarrow> ipc_state \<Rightarrow> (int \<times> IpcMessage option) \<times> ipc_state" where
  "ipc_recv qid out_valid s =
     (if unat qid \<ge> IPC_MAX_QUEUES \<or> \<not> out_valid then ((IPC_ERR_INVAL, None), s)
      else let q = g_queues s ! unat qid in
        if q_owner_pid q = 0 then ((IPC_ERR_INVAL, None), s)
        else if q_count q = 0 then ((IPC_ERR_EMPTY, None), s)
        else ((IPC_OK, Some (queue_front q)),
              s\<lparr>g_queues := (g_queues s)[unat qid := queue_take q]\<rparr>))"

definition ipc_queue_count :: "u32 \<Rightarrow> ipc_state \<Rightarrow> int" where
  "ipc_queue_count qid s =
     (if unat qid \<ge> IPC_MAX_QUEUES then IPC_ERR_INVAL
      else if q_owner_pid (g_queues s ! unat qid) = 0 then IPC_ERR_INVAL
      else int (q_count (g_queues s ! unat qid)))"

subsection \<open>Channels\<close>

definition ipc_channel_create :: "u32 \<Rightarrow> u32 \<Rightarrow> ipc_state \<Rightarrow> int \<times> ipc_state" where
  "ipc_channel_create owner peer s =
     (if owner = 0 then (IPC_ERR_INVAL, s)
      else case find_slot (\<lambda>c. ch_owner_pid c = 0) (g_channels s) of
        None \<Rightarrow> (IPC_ERR_NOSLOT, s)
      | Some i \<Rightarrow>
          (int i, s\<lparr>g_channels := (g_channels s)[i := zero_channel\<lparr>ch_owner_pid := owner, ch_peer_pid := peer\<rparr>],
             g_stats := (g_stats s)\<lparr>channels_active := channels_active (g_stats s) + 1\<rparr>\<rparr>))"

definition chan_put :: "u8 \<Rightarrow> IpcChannel \<Rightarrow> IpcChannel" where
  "chan_put b ch = ch\<lparr>ch_buf := (ch_buf ch)[ch_tail ch := b],
     ch_tail := (ch_tail ch + 1) mod IPC_CHAN_BUF_SIZE, ch_count := ch_count ch + 1\<rparr>"

definition chan_front :: "IpcChannel \<Rightarrow> u8" where
  "chan_front ch = ch_buf ch ! ch_head ch"

definition chan_take :: "IpcChannel \<Rightarrow> IpcChannel" where
  "chan_take ch = ch\<lparr>ch_head := (ch_head ch + 1) mod IPC_CHAN_BUF_SIZE, ch_count := ch_count ch - 1\<rparr>"

fun channel_write_loop :: "bytes \<Rightarrow> IpcChannel \<Rightarrow> nat \<times> IpcChannel" where
  "channel_write_loop [] ch = (0, ch)"
| "channel_write_loop (b # bs) ch =
     (if ch_count ch \<ge> IPC_CHAN_BUF_SIZE then (0, ch)
      else let (n, ch') = channel_write_loop bs (chan_put b ch) in (Suc n, ch'))"

definition ipc_channel_write :: "u32 \<Rightarrow> bytes option \<Rightarrow> u32 \<Rightarrow> ipc_state \<Rightarrow> int \<times> ipc_state" where
  "ipc_channel_write cid buf len s =
     (if unat cid \<ge> IPC_MAX_CHANNELS \<or> buf = None \<or> len = 0 then (IPC_ERR_INVAL, s)
      else let ch = g_channels s ! unat cid in
        if ch_owner_pid ch = 0 \<or> ch_closed ch then (IPC_ERR_INVAL, s)
        else let (written, ch') = channel_write_loop (take (unat len) (the buf)) ch
          in (if written \<noteq> 0 then int written else IPC_ERR_FULL,
              s\<lparr>g_channels := (g_channels s)[unat cid := ch']\<rparr>))"

fun channel_read_loop :: "nat \<Rightarrow> IpcChannel \<Rightarrow> bytes \<times> IpcChannel" where
  "channel_read_loop 0 ch = ([], ch)"
| "channel_read_loop (Suc n) ch =
     (if ch_count ch = 0 then ([], ch)
      else let (bs, ch') = channel_read_loop n (chan_take ch) in (chan_front ch # bs, ch'))"

text \<open>\<open>ipc_channel_read\<close> returns its code and the bytes stored through \<open>buf\<close>.\<close>

definition ipc_channel_read :: "u32 \<Rightarrow> bool \<Rightarrow> u32 \<Rightarrow> ipc_state \<Rightarrow> (int \<times> bytes) \<times> ipc_state" where
  "ipc_channel_read cid buf_valid max_len s =
     (if unat cid \<ge> IPC_MAX_CHANNELS \<or> \<not> buf_valid \<or> max_len = 0 then ((IPC_ERR_INVAL, []), s)
      else let ch = g_channels s ! unat cid in
        if ch_owner_pid ch = 0 then ((IPC_ERR_INVAL, []), s)
        else if ch_count ch = 0 then ((IPC_ERR_EMPTY, []), s)
        else let (bs, ch') = channel_read_loop (unat max_len) ch
          in ((int (length bs), bs), s\<lparr>g_channels := (g_channels s)[unat cid := ch']\<rparr>))"

definition ipc_channel_close :: "u32 \<Rightarrow> ipc_state \<Rightarrow> ipc_state" where
  "ipc_channel_close cid s =
     (if unat cid \<ge> IPC_MAX_CHANNELS then s
      else if ch_owner_pid (g_channels s ! unat cid) \<noteq> 0 then
        s\<lparr>g_channels := (g_channels s)[unat cid := (g_channels s ! unat cid)\<lparr>ch_closed := True\<rparr>],
          g_stats := (if channels_active (g_stats s) \<noteq> 0
             then (g_stats s)\<lparr>channels_active := channels_active (g_stats s) - 1\<rparr> else g_stats s)\<rparr>
      else s)"

subsection \<open>Local sockets\<close>

definition ipc_usock_bind :: "cstring option \<Rightarrow> u32 \<Rightarrow> ipc_state \<Rightarrow> int \<times> ipc_state" where
  "ipc_usock_bind path owner s =
     (if path = None \<or> cstr (the path) = [] \<or> owner = 0 then (IPC_ERR_INVAL, s)
      else if usock_find_by_path (the path) s \<noteq> None then (IPC_ERR_INVAL, s)
      else let (cid, s1) = ipc_channel_create owner 0 s in
        if cid < 0 then (cid, s1)
        else case find_slot (\<lambda>u. \<not> us_used u) (g_usocks s1) of
          None \<Rightarrow> (IPC_ERR_NOSLOT, ipc_channel_close (of_int cid) s1)
        | Some i \<Rightarrow>
            (IPC_OK, s1\<lparr>g_usocks := (g_usocks s1)[i := \<lparr>us_used = True, us_cid = of_int cid,
               us_owner_pid = owner,
               us_path = ipc_strncpy (us_path (g_usocks s1 ! i)) (the path) IPC_USOCK_PATH_MAX\<rparr>]\<rparr>))"

definition ipc_usock_connect :: "cstring option \<Rightarrow> u32 \<Rightarrow> ipc_state \<Rightarrow> int \<times> ipc_state" where
  "ipc_usock_connect path peer s =
     (case Option.bind path (\<lambda>p. usock_find_by_path p s) of
        None \<Rightarrow> (IPC_ERR_INVAL, s)
      | Some sid \<Rightarrow>
          let cid = us_cid (g_usocks s ! sid) in
          if unat cid \<ge> IPC_MAX_CHANNELS \<or> ch_owner_pid (g_channels s ! unat cid) = 0
          then (IPC_ERR_INVAL, s)
          else (int (unat cid), s\<lparr>g_channels := (g_channels s)[unat cid :=
                  (g_channels s ! unat cid)\<lparr>ch_peer_pid := peer\<rparr>]\<rparr>))"

definition ipc_usock_send :: "cstring option \<Rightarrow> bytes option \<Rightarrow> u32 \<Rightarrow> ipc_state \<Rightarrow> int \<times> ipc_state" where
  "ipc_usock_send path buf len s =
     (case Option.bind path (\<lambda>p. usock_find_by_path p s) of
        None \<Rightarrow> (IPC_ERR_INVAL, s)
      | Some sid \<Rightarrow> ipc_channel_write (us_cid (g_usocks s ! sid)) buf len s)"

definition ipc_usock_recv :: "cstring option \<Rightarrow> bool \<Rightarrow> u32 \<Rightarrow> ipc_state \<Rightarrow> (int \<times> bytes) \<times> ipc_state" where
  "ipc_usock_recv path buf_valid max_len s =
     (case Option.bind path (\<lambda>p. usock_find_by_path p s) of
        None \<Rightarrow> ((IPC_ERR_INVAL, []), s)
      | Some sid \<Rightarrow> ipc_channel_read (us_cid (g_usocks s ! sid)) buf_valid max_len s)"

definition ipc_usock_close :: "cstring option \<Rightarrow> ipc_state \<Rightarrow> int \<times> ipc_state" where
  "ipc_usock_close path s =
     (case Option.bind path (\<lambda>p. usock_find_by_path p s) of
        None \<Rightarrow> (IPC_ERR_INVAL, s)
      | Some sid \<Rightarrow>
          let s1 = ipc_channel_close (us_cid (g_usocks s ! sid)) s
          in (IPC_OK, s1\<lparr>g_usocks := (g_usocks s1)[sid := zero_usock]\<rparr>))"

section \<open>The system call dispatcher\<close>

text \<open>
  A message in user memory is the packed struct \<open>IpcMessage\<close>: four little-endian words and the
  payload. A null pointer is the address 0.
\<close>

definition encode_message :: "IpcMessage \<Rightarrow> bytes" where
  "encode_message m = le32_bytes (m_src_pid m) @ le32_bytes (m_dst_pid m) @ le32_bytes (m_type m)
     @ le32_bytes (m_len m) @ m_data m"

definition decode_message :: "bytes \<Rightarrow> IpcMessage" where
  "decode_message b = \<lparr>m_src_pid = le32_of b, m_dst_pid = le32_of (drop 4 b),
     m_type = le32_of (drop 8 b), m_len = le32_of (drop 12 b), m_data = take IPC_MSG_PAYLOAD (drop 16 b)\<rparr>"

definition ipc_syscall ::
  "u32 \<Rightarrow> u32 \<Rightarrow> u32 \<Rightarrow> u32 \<Rightarrow> memory \<Rightarrow> ipc_state \<Rightarrow> int \<times> memory \<times> ipc_state" where
  "ipc_syscall num a1 a2 a3 mem s =
     (if num = 20 then
        (if a2 = 0 then (IPC_ERR_INVAL, mem, s)
         else let m = decode_message (load_bytes mem a2 64);
                  (r, s') = ipc_send (m_src_pid m) a1 (m_type m) (Some (m_data m)) (m_len m) s
              in (r, mem, s'))
      else if num = 21 then
        (if a2 = 0 then (IPC_ERR_INVAL, mem, s)
         else let ((r, out), s') = ipc_recv a1 True s
              in (r, case out of None \<Rightarrow> mem | Some m \<Rightarrow> store_bytes mem a2 (encode_message m), s'))
      else if num = 22 then
        (let (r, s') = ipc_queue_create a1 s in (r, mem, s'))
      else if num = 23 then (IPC_OK, mem, ipc_queue_destroy a1 s)
      else if num = 24 then
        (let (r, s') = ipc_channel_create a1 a2 s in (r, mem, s'))
      else if num = 25 then
        (if a2 = 0 \<or> a3 = 0 then (IPC_ERR_INVAL, mem, s)
         else let (r, s') = ipc_channel_write a1 (Some (load_bytes mem a2 (unat a3))) a3 s in (r, mem, s'))
      else if num = 26 then
        (if a2 = 0 \<or> a3 = 0 then (IPC_ERR_INVAL, mem, s)
         else let ((r, bs), s') = ipc_channel_read a1 True a3 s in (r, store_bytes mem a2 bs, s'))
      else if num = 27 then (IPC_OK, mem, ipc_channel_close a1 s)
      else (IPC_ERR_INVAL, mem, s))"

section \<open>Rings of messages and bytes\<close>

definition msg_ok :: "IpcMessage \<Rightarrow> bool" where
  "msg_ok m \<longleftrightarrow> length (m_data m) = IPC_MSG_PAYLOAD \<and> unat (m_len m) \<le> IPC_MSG_PAYLOAD"

definition queue_inv :: "IpcQueue \<Rightarrow> bool" where
  "queue_inv q \<longleftrightarrow> length (q_msgs q) = IPC_QUEUE_DEPTH \<and> q_head q < IPC_QUEUE_DEPTH
     \<and> q_count q \<le> IPC_QUEUE_DEPTH \<and> q_tail q = (q_head q + q_count q) mod IPC_QUEUE_DEPTH"

definition queue_contents :: "IpcQueue \<Rightarrow> IpcMessage list" where
  "queue_contents q = ring_contents (q_head q) (q_count q) (q_msgs q)"

definition chan_inv :: "IpcChannel \<Rightarrow> bool" where
  "chan_inv ch \<longleftrightarrow> length (ch_buf ch) = IPC_CHAN_BUF_SIZE \<and> ch_head ch < IPC_CHAN_BUF_SIZE
     \<and> ch_count ch \<le> IPC_CHAN_BUF_SIZE \<and> ch_tail ch = (ch_head ch + ch_count ch) mod IPC_CHAN_BUF_SIZE"

definition chan_contents :: "IpcChannel \<Rightarrow> bytes" where
  "chan_contents ch = ring_contents (ch_head ch) (ch_count ch) (ch_buf ch)"

lemma length_queue_contents [simp]: "length (queue_contents q) = q_count q"
  by (simp add: queue_contents_def)

lemma length_chan_contents [simp]: "length (chan_contents ch) = ch_count ch"
  by (simp add: chan_contents_def)

lemma queue_contents_Nil: "queue_contents q = [] \<longleftrightarrow> q_count q = 0"
  by (metis length_queue_contents length_0_conv)

lemma chan_contents_Nil: "chan_contents ch = [] \<longleftrightarrow> ch_count ch = 0"
  by (metis length_chan_contents length_0_conv)

interpretation mbox: bounded_fifo IPC_QUEUE_DEPTH queue_put queue_front queue_take queue_contents queue_inv
proof unfold_locales
  fix q m
  assume inv: "queue_inv q"
  then have len: "length (q_msgs q) = 16" and tail: "q_tail q = (q_head q + q_count q) mod 16"
    and head: "q_head q < 16" by (simp_all add: queue_inv_def)
  show "length (queue_contents q) \<le> 16" using inv by (simp add: queue_inv_def)
  {
    assume "length (queue_contents q) < 16"
    then show "queue_contents (queue_put m q) = queue_contents q @ [m]" "queue_inv (queue_put m q)"
      using inv ring_contents_push [of "q_count q" "q_msgs q" "q_head q" m]
      by (auto simp: queue_contents_def queue_put_def queue_inv_def len tail mod_Suc_eq)
  }
  assume "queue_contents q \<noteq> []"
  then have "0 < q_count q" by (simp add: queue_contents_Nil)
  then show "queue_front q = hd (queue_contents q)" "queue_contents (queue_take q) = tl (queue_contents q)"
    using ring_contents_head [of "q_count q" "q_head q" "q_msgs q"] head
      ring_contents_pop [of "q_head q" "q_msgs q" "q_count q"]
    by (simp_all add: queue_front_def queue_contents_def queue_take_def len)
  show "queue_inv (queue_take q)"
    using inv \<open>0 < q_count q\<close> by (auto simp: queue_inv_def queue_take_def ring_tail_pop)
qed

interpretation chan: bounded_fifo IPC_CHAN_BUF_SIZE chan_put chan_front chan_take chan_contents chan_inv
proof unfold_locales
  fix ch b
  assume inv: "chan_inv ch"
  then have len: "length (ch_buf ch) = 512" and tail: "ch_tail ch = (ch_head ch + ch_count ch) mod 512"
    and head: "ch_head ch < 512" by (simp_all add: chan_inv_def)
  show "length (chan_contents ch) \<le> 512" using inv by (simp add: chan_inv_def)
  {
    assume "length (chan_contents ch) < 512"
    then show "chan_contents (chan_put b ch) = chan_contents ch @ [b]" "chan_inv (chan_put b ch)"
      using inv ring_contents_push [of "ch_count ch" "ch_buf ch" "ch_head ch" b]
      by (auto simp: chan_contents_def chan_put_def chan_inv_def len tail mod_Suc_eq)
  }
  assume "chan_contents ch \<noteq> []"
  then have "0 < ch_count ch" by (simp add: chan_contents_Nil)
  then show "chan_front ch = hd (chan_contents ch)" "chan_contents (chan_take ch) = tl (chan_contents ch)"
    using ring_contents_head [of "ch_count ch" "ch_head ch" "ch_buf ch"] head
      ring_contents_pop [of "ch_head ch" "ch_buf ch" "ch_count ch"]
    by (simp_all add: chan_front_def chan_contents_def chan_take_def len)
  show "chan_inv (chan_take ch)"
    using inv \<open>0 < ch_count ch\<close> by (auto simp: chan_inv_def chan_take_def ring_tail_pop)
qed

lemma channel_write_loop_eq: "channel_write_loop bs ch = chan.write_loop bs ch"
  by (induction bs arbitrary: ch) simp_all

lemma channel_read_loop_eq: "channel_read_loop n ch = chan.read_loop n ch"
  by (induction n arbitrary: ch) (simp_all add: chan_contents_Nil)

section \<open>Well-formed IPC states\<close>

definition usock_ok :: "IpcUnixSocket \<Rightarrow> bool" where
  "usock_ok u \<longleftrightarrow> length (us_path u) = IPC_USOCK_PATH_MAX \<and> NUL \<in> set (us_path u)
     \<and> unat (us_cid u) < IPC_MAX_CHANNELS"

text \<open>
  Who owns the mailboxes, slot by slot; 0 is a free slot. The PID cache never holds a wrong queue:
  an entry is -1 or the queue that the PID owns.
\<close>

definition queue_owners :: "ipc_state \<Rightarrow> u32 list" where
  "queue_owners s = map q_owner_pid (g_queues s)"

definition owners_distinct :: "u32 list \<Rightarrow> bool" where
  "owners_distinct os \<longleftrightarrow> (\<forall>i < length os. \<forall>j < length os. os ! i = os ! j \<and> os ! i \<noteq> 0 \<longrightarrow> i = j)"

definition cache_entry_ok :: "u32 list \<Rightarrow> nat \<Rightarrow> int \<Rightarrow> bool" where
  "cache_entry_ok os p c \<longleftrightarrow> c = -1 \<or> (0 \<le> c \<and> c < int (length os) \<and> p \<noteq> 0 \<and> os ! nat c = of_nat p)"

definition cache_ok :: "int list \<Rightarrow> u32 list \<Rightarrow> bool" where
  "cache_ok cache os \<longleftrightarrow> length cache = IPC_PID_CACHE_SIZE \<and>
     (\<forall>p < IPC_PID_CACHE_SIZE. cache_entry_ok os p (cache ! p))"

definition used_count :: "u32 list \<Rightarrow> nat" where
  "used_count os = length (filter (\<lambda>p. p \<noteq> 0) os)"

definition tables_ok :: "ipc_state \<Rightarrow> bool" where
  "tables_ok s \<longleftrightarrow> length (g_queues s) = IPC_MAX_QUEUES \<and> length (g_channels s) = IPC_MAX_CHANNELS
     \<and> length (g_usocks s) = IPC_MAX_USOCKETS
     \<and> list_all (\<lambda>q. queue_inv q \<and> list_all msg_ok (q_msgs q)) (g_queues s)
     \<and> list_all chan_inv (g_channels s) \<and> list_all usock_ok (g_usocks s)"

definition ipc_inv :: "ipc_state \<Rightarrow> bool" where
  "ipc_inv s \<longleftrightarrow> tables_ok s \<and> owners_distinct (queue_owners s)
     \<and> cache_ok (g_pid_to_qid s) (queue_owners s)
     \<and> queues_active (g_stats s) = of_nat (used_count (queue_owners s))"

lemma zero_objects_ok [simp]:
  "queue_inv zero_queue" "queue_inv (zero_queue\<lparr>q_owner_pid := p\<rparr>)"
  "chan_inv zero_channel" "chan_inv (zero_channel\<lparr>ch_owner_pid := a, ch_peer_pid := b\<rparr>)"
  "usock_ok zero_usock" "list_all msg_ok (q_msgs zero_queue)" "q_owner_pid zero_queue = 0"
  "queue_contents (zero_queue\<lparr>q_owner_pid := p\<rparr>) = []"
  by (simp_all add: queue_inv_def zero_queue_def chan_inv_def zero_channel_def usock_ok_def
      zero_usock_def msg_ok_def zero_message_def list_all_iff queue_contents_def)

lemma ipc_init_inv: "ipc_inv ipc_init"
proof -
  have "queue_owners ipc_init = replicate 16 0" by (simp add: queue_owners_def ipc_init_def)
  then show ?thesis
    by (simp add: ipc_inv_def tables_ok_def ipc_init_def list_all_length owners_distinct_def cache_ok_def
        cache_entry_ok_def used_count_def) (simp add: list_all_length [symmetric])
qed

lemma tables_okD:
  assumes "tables_ok s"
  shows "length (g_queues s) = 16" "length (g_channels s) = 8" "length (g_usocks s) = 8"
    and "i < 16 \<Longrightarrow> queue_inv (g_queues s ! i)" "i < 16 \<Longrightarrow> list_all msg_ok (q_msgs (g_queues s ! i))"
    and "i < 8 \<Longrightarrow> chan_inv (g_channels s ! i)" "i < 8 \<Longrightarrow> usock_ok (g_usocks s ! i)"
  using assms by (auto simp: tables_ok_def list_all_length)

text \<open>How the ownership facts react to an update of one slot and of one cache entry.\<close>

lemma find_owner: "find_slot (\<lambda>q. q_owner_pid q = pid) (g_queues s) = find_slot (\<lambda>p. p = pid) (queue_owners s)"
proof -
  have "find_slot_from n (\<lambda>q. q_owner_pid q = pid) qs = find_slot_from n (\<lambda>p. p = pid) (map q_owner_pid qs)" for n qs
    by (induction qs arbitrary: n) auto
  then show ?thesis by (simp add: find_slot_def queue_owners_def)
qed

lemma find_unique_owner:
  "owners_distinct os \<Longrightarrow> i < length os \<Longrightarrow> os ! i = pid \<Longrightarrow> pid \<noteq> 0 \<Longrightarrow> find_slot (\<lambda>p. p = pid) os = Some i"
  by (rule find_slot_unique) (auto simp: owners_distinct_def)

lemma owners_distinct_set:
  assumes "owners_distinct os" "pid = 0 \<or> pid \<notin> set os"
  shows "owners_distinct (os[i := pid])"
proof (cases "i < length os")
  case True
  with assms show ?thesis by (auto simp: owners_distinct_def nth_list_update)
next
  case False
  with assms show ?thesis by (simp add: list_update_beyond)
qed

lemma cache_ok_set:
  assumes "cache_ok cache os" "cache_entry_ok os k c"
  shows "cache_ok (cache[k := c]) os"
  using assms by (cases "k < length cache") (auto simp: cache_ok_def nth_list_update)

lemma cache_entry_owner:
  "i < length os \<Longrightarrow> os ! i = pid \<Longrightarrow> pid \<noteq> 0 \<Longrightarrow> cache_entry_ok os (unat pid) (int i)"
  by (auto simp: cache_entry_ok_def unat_0_iff)

lemma pid_word_eq_0: "p < IPC_PID_CACHE_SIZE \<Longrightarrow> (of_nat p :: u32) = 0 \<longleftrightarrow> p = 0"
  by (auto simp: word_of_nat_eq_0_iff dest: dvd_imp_le)

lemma cache_ok_claim:
  assumes "cache_ok cache os" "i < length os" "os ! i = 0"
  shows "cache_ok cache (os[i := pid])"
proof -
  have "cache_entry_ok (os[i := pid]) p c" if "cache_entry_ok os p c" "p < 256" for p c
    using that assms(2,3) by (cases "nat c = i") (auto simp: cache_entry_ok_def pid_word_eq_0)
  with assms(1) show ?thesis by (simp add: cache_ok_def)
qed

lemma cache_ok_release:
  assumes "cache_ok cache os" "owners_distinct os" "i < length os" "os ! i = pid" "pid \<noteq> 0"
  shows "cache_ok (if unat pid < IPC_PID_CACHE_SIZE then cache[unat pid := -1] else cache) (os[i := 0])"
proof -
  have "cache_entry_ok (os[i := 0]) p (cache ! p)" if "p < 256" "p \<noteq> unat pid" for p
  proof (cases "nat (cache ! p) = i \<and> cache ! p \<noteq> -1")
    case True
    with assms(1,4) that(1) have "pid = of_nat p" by (auto simp: cache_ok_def cache_entry_ok_def)
    with that show ?thesis by (simp add: unat_of_nat)
  next
    case False
    with assms(1) that(1) show ?thesis by (auto simp: cache_ok_def cache_entry_ok_def)
  qed
  with assms(1) show ?thesis by (auto simp: cache_ok_def nth_list_update cache_entry_ok_def)
qed

lemma used_count_set:
  assumes "i < length os"
  shows "used_count (os[i := pid]) =
    used_count os - (if os ! i \<noteq> 0 then 1 else 0) + (if pid \<noteq> 0 then 1 else 0)"
  using card_slots_update [OF assms, of "\<lambda>p. p \<noteq> 0" pid]
  by (simp add: used_count_def length_filter_conv_card)

subsection \<open>The PID cache\<close>

lemma queue_find_eq_scan:
  assumes "owners_distinct (queue_owners s)" "length (g_queues s) = 16" and pid: "pid \<noteq> 0"
  shows "fst (queue_find_by_pid pid s) = find_slot (\<lambda>p. p = pid) (queue_owners s)"
proof -
  let ?qid = "g_pid_to_qid s ! unat pid"
  show ?thesis
  proof (cases "unat pid < 256 \<and> 0 \<le> ?qid \<and> ?qid < 16 \<and> q_owner_pid (g_queues s ! nat ?qid) = pid")
    case True
    then have "find_slot (\<lambda>p. p = pid) (queue_owners s) = Some (nat ?qid)"
      using assms by (intro find_unique_owner) (auto simp: queue_owners_def)
    with True show ?thesis by (simp add: queue_find_by_pid_def)
  next
    case False
    then show ?thesis by (auto simp: queue_find_by_pid_def Let_def find_owner split: option.splits)
  qed
qed

text \<open>The search changes nothing but the cache, and keeps the invariant.\<close>

lemma queue_find_frame [simp]:
  "g_queues (snd (queue_find_by_pid pid s)) = g_queues s"
  "g_channels (snd (queue_find_by_pid pid s)) = g_channels s"
  "g_stats (snd (queue_find_by_pid pid s)) = g_stats s"
  "g_usocks (snd (queue_find_by_pid pid s)) = g_usocks s"
  "queue_owners (snd (queue_find_by_pid pid s)) = queue_owners s"
  "tables_ok (snd (queue_find_by_pid pid s)) = tables_ok s"
  by (simp_all add: queue_find_by_pid_def Let_def queue_owners_def tables_ok_def split: option.splits)

lemma queue_find_inv:
  assumes "ipc_inv s" "pid \<noteq> 0"
  shows "ipc_inv (snd (queue_find_by_pid pid s))"
proof -
  have "cache_ok (g_pid_to_qid (snd (queue_find_by_pid pid s))) (queue_owners s)"
  proof (cases "find_slot (\<lambda>p. p = pid) (queue_owners s)")
    case (Some i)
    note find_slot_SomeD [OF Some]
    with assms have "cache_ok ((g_pid_to_qid s)[unat pid := int i]) (queue_owners s)"
      by (intro cache_ok_set cache_entry_owner) (auto simp: ipc_inv_def)
    with assms Some show ?thesis by (simp add: queue_find_by_pid_def Let_def find_owner ipc_inv_def)
  qed (use assms in \<open>simp add: queue_find_by_pid_def Let_def find_owner ipc_inv_def\<close>)
  with assms show ?thesis by (simp add: ipc_inv_def)
qed

section \<open>Mailboxes as a map from PIDs to message sequences\<close>

definition mailbox :: "ipc_state \<Rightarrow> u32 \<Rightarrow> IpcMessage list option" where
  "mailbox s pid = (if pid = 0 then None
     else map_option (\<lambda>i. queue_contents (g_queues s ! i)) (find_slot (\<lambda>p. p = pid) (queue_owners s)))"

definition owns :: "ipc_state \<Rightarrow> nat \<Rightarrow> u32 \<Rightarrow> bool" where
  "owns s i pid \<longleftrightarrow> i < length (g_queues s) \<and> q_owner_pid (g_queues s ! i) = pid \<and> pid \<noteq> 0"

lemma mailbox_cong: "g_queues s = g_queues s' \<Longrightarrow> mailbox s = mailbox s'"
  by (rule ext) (simp add: mailbox_def queue_owners_def)

lemma mailbox_frame [simp]:
  "mailbox (s\<lparr>g_stats := x\<rparr>) = mailbox s" "mailbox (s\<lparr>g_pid_to_qid := c\<rparr>) = mailbox s"
  "mailbox (s\<lparr>g_channels := cs\<rparr>) = mailbox s" "mailbox (s\<lparr>g_usocks := us\<rparr>) = mailbox s"
  "mailbox (snd (queue_find_by_pid pid s)) = mailbox s" "mailbox (drop_message s) = mailbox s"
  by (rule mailbox_cong, simp add: drop_message_def)+

lemma queue_owners_update: "queue_owners (s\<lparr>g_queues := (g_queues s)[i := q]\<rparr>) = (queue_owners s)[i := q_owner_pid q]"
  by (simp add: queue_owners_def map_update)

lemma owns_find:
  "owners_distinct (queue_owners s) \<Longrightarrow> owns s i pid \<Longrightarrow> find_slot (\<lambda>p. p = pid) (queue_owners s) = Some i"
  by (rule find_unique_owner) (auto simp: owns_def queue_owners_def)

lemma mailbox_owns:
  "owners_distinct (queue_owners s) \<Longrightarrow> owns s i pid \<Longrightarrow> mailbox s pid = Some (queue_contents (g_queues s ! i))"
  using owns_find [of s i pid] by (simp add: mailbox_def owns_def)

lemma mailbox_SomeD:
  "mailbox s pid = Some ms \<Longrightarrow> \<exists>i. owns s i pid \<and> queue_contents (g_queues s ! i) = ms"
  by (auto simp: mailbox_def owns_def queue_owners_def find_slot_Some_iff split: if_splits)

lemma mailbox_None_iff: "mailbox s pid = None \<longleftrightarrow> pid = 0 \<or> pid \<notin> set (queue_owners s)"
  by (auto simp: mailbox_def find_slot_None_iff)

lemma mailbox_set:
  assumes dist: "owners_distinct (queue_owners s)" and own: "owns s i pid" and q: "q_owner_pid q = pid"
  shows "mailbox (s\<lparr>g_queues := (g_queues s)[i := q]\<rparr>) = (mailbox s)(pid \<mapsto> queue_contents q)"
proof
  fix p
  have os: "(queue_owners s)[i := pid] = queue_owners s"
    using own by (auto simp: owns_def queue_owners_def intro: nth_equalityI simp: nth_list_update)
  have i: "i < length (g_queues s)" using own by (simp add: owns_def)
  show "mailbox (s\<lparr>g_queues := (g_queues s)[i := q]\<rparr>) p = ((mailbox s)(pid \<mapsto> queue_contents q)) p"
  proof (cases "p = pid")
    case True
    with own i show ?thesis by (simp add: mailbox_def queue_owners_update q os owns_find [OF dist own] owns_def)
  next
    case False
    then have "j \<noteq> i" if "find_slot (\<lambda>p'. p' = p) (queue_owners s) = Some j" for j
      using own find_slot_SomeD [OF that] by (auto simp: owns_def queue_owners_def)
    with False show ?thesis by (auto simp: mailbox_def queue_owners_update q os map_option_case split: option.splits)
  qed
qed

lemma find_slot_other_update:
  assumes "i < length os" "os ! i \<noteq> p" "x \<noteq> p"
  shows "find_slot (\<lambda>p'. p' = p) (os[i := x]) = find_slot (\<lambda>p'. p' = p) os"
proof (cases "find_slot (\<lambda>p'. p' = p) os")
  case None
  then have "find_slot (\<lambda>p'. p' = p) (os[i := x]) = None"
    using assms(3) by (auto simp: find_slot_None_iff dest!: set_update_subset_insert [THEN subsetD])
  with None show ?thesis by simp
next
  case (Some j)
  then have "find_slot (\<lambda>p'. p' = p) (os[i := x]) = Some j"
    using assms by (auto simp: find_slot_Some_iff nth_list_update)
  with Some show ?thesis by simp
qed

lemma mailbox_claim:
  assumes "owners_distinct (queue_owners s)" "i < length (g_queues s)" "q_owner_pid (g_queues s ! i) = 0"
    and "pid \<noteq> 0" "mailbox s pid = None" "q_owner_pid q = pid"
  shows "mailbox (s\<lparr>g_queues := (g_queues s)[i := q]\<rparr>) = (mailbox s)(pid \<mapsto> queue_contents q)"
proof
  fix p
  have i: "i < length (queue_owners s)" "queue_owners s ! i = 0" using assms(2,3) by (simp_all add: queue_owners_def)
  have fresh: "pid \<notin> set (queue_owners s)" using assms(4,5) by (simp add: mailbox_None_iff)
  have new: "find_slot (\<lambda>p. p = pid) ((queue_owners s)[i := pid]) = Some i"
    using assms(1,4) fresh i by (intro find_unique_owner owners_distinct_set) auto
  show "mailbox (s\<lparr>g_queues := (g_queues s)[i := q]\<rparr>) p = ((mailbox s)(pid \<mapsto> queue_contents q)) p"
  proof (cases "p = pid \<or> p = 0")
    case True
    with assms(2,4,6) new show ?thesis by (auto simp: mailbox_def queue_owners_update)
  next
    case False
    then have "j \<noteq> i" if "find_slot (\<lambda>p'. p' = p) (queue_owners s) = Some j" for j
      using i(2) find_slot_SomeD [OF that] by auto
    with False i show ?thesis
      by (auto simp: mailbox_def queue_owners_update assms(6) find_slot_other_update map_option_case
          split: option.splits)
  qed
qed

lemma mailbox_release:
  assumes "owners_distinct (queue_owners s)" "owns s i pid" "q_owner_pid q = 0"
  shows "mailbox (s\<lparr>g_queues := (g_queues s)[i := q]\<rparr>) = (mailbox s)(pid := None)"
proof
  fix p
  have i: "i < length (queue_owners s)" "queue_owners s ! i = pid" "pid \<noteq> 0"
    using assms(2) by (simp_all add: queue_owners_def owns_def)
  have gone: "pid \<notin> set ((queue_owners s)[i := 0])"
    using assms(1) i by (auto simp: in_set_conv_nth owners_distinct_def nth_list_update)
  show "mailbox (s\<lparr>g_queues := (g_queues s)[i := q]\<rparr>) p = ((mailbox s)(pid := None)) p"
  proof (cases "p = pid \<or> p = 0")
    case True
    with assms(3) gone show ?thesis by (auto simp: mailbox_def queue_owners_update find_slot_None_iff)
  next
    case False
    then have "j \<noteq> i" if "find_slot (\<lambda>p'. p' = p) (queue_owners s) = Some j" for j
      using i(2) find_slot_SomeD [OF that] by auto
    with False i show ?thesis
      by (auto simp: mailbox_def queue_owners_update assms(3) find_slot_other_update map_option_case
          split: option.splits)
  qed
qed

lemma card_dom_mailbox:
  assumes "owners_distinct (queue_owners s)"
  shows "card (dom (mailbox s)) = used_count (queue_owners s)"
proof -
  let ?os = "queue_owners s" and ?I = "{i. i < length (queue_owners s) \<and> queue_owners s ! i \<noteq> 0}"
  have "dom (mailbox s) = (!) ?os ` ?I"
    using mailbox_None_iff [of s] by (auto simp: dom_def in_set_conv_nth image_iff)
  moreover have "inj_on ((!) ?os) ?I" using assms by (auto simp: inj_on_def owners_distinct_def)
  ultimately show ?thesis by (simp add: card_image used_count_def length_filter_conv_card)
qed

subsection \<open>Creating and destroying mailboxes\<close>

lemma free_slot_iff: "find_slot (\<lambda>q. q_owner_pid q = 0) (g_queues s) = None \<longleftrightarrow>
    used_count (queue_owners s) = length (g_queues s)"
proof -
  have "find_slot (\<lambda>p. p = 0) (queue_owners s) = None \<longleftrightarrow> filter (\<lambda>p. p \<noteq> 0) (queue_owners s) = queue_owners s"
    by (auto simp: find_slot_None_iff filter_id_conv)
  also have "\<dots> \<longleftrightarrow> length (filter (\<lambda>p. p \<noteq> 0) (queue_owners s)) = length (queue_owners s)"
    by (metis length_filter_less filter_id_conv less_irrefl)
  finally show ?thesis by (simp add: find_owner used_count_def queue_owners_def)
qed

lemma used_count_le: "used_count (queue_owners s) \<le> length (g_queues s)"
  by (simp add: used_count_def queue_owners_def)

lemma set_queue_inv:
  assumes "ipc_inv s" "owns s i pid" "q_owner_pid q = pid" "queue_inv q" "list_all msg_ok (q_msgs q)"
  shows "ipc_inv (s\<lparr>g_queues := (g_queues s)[i := q]\<rparr>)"
proof -
  have "(queue_owners s)[i := pid] = queue_owners s"
    using assms(2) by (auto simp: owns_def queue_owners_def intro: nth_equalityI simp: nth_list_update)
  with assms show ?thesis
    by (auto simp: ipc_inv_def tables_ok_def queue_owners_update intro: list_all_update)
qed

lemma claim_slot_inv:
  assumes inv: "ipc_inv s" and i: "i < length (g_queues s)" "q_owner_pid (g_queues s ! i) = 0"
    and pid: "pid \<noteq> 0" "mailbox s pid = None"
  shows "ipc_inv (s\<lparr>g_queues := (g_queues s)[i := zero_queue\<lparr>q_owner_pid := pid\<rparr>],
      g_pid_to_qid := (if unat pid < IPC_PID_CACHE_SIZE
        then (g_pid_to_qid s)[unat pid := int i] else g_pid_to_qid s),
      g_stats := (g_stats s)\<lparr>queues_active := queues_active (g_stats s) + 1\<rparr>\<rparr>)"
    (is "ipc_inv ?s")
proof -
  have os: "queue_owners ?s = (queue_owners s)[i := pid]"
    by (simp add: queue_owners_def map_update)
  have i': "i < length (queue_owners s)" "queue_owners s ! i = 0"
    using i by (simp_all add: queue_owners_def)
  have "tables_ok ?s" using inv by (auto simp: ipc_inv_def tables_ok_def intro: list_all_update)
  moreover have "owners_distinct (queue_owners ?s)"
    using inv pid unfolding os by (intro owners_distinct_set) (auto simp: ipc_inv_def mailbox_None_iff)
  moreover have "cache_ok (g_pid_to_qid ?s) (queue_owners ?s)"
  proof -
    have "cache_ok (g_pid_to_qid s) (queue_owners ?s)"
      using inv i' unfolding os by (intro cache_ok_claim) (auto simp: ipc_inv_def)
    moreover have "cache_entry_ok (queue_owners ?s) (unat pid) (int i)"
      using i' pid unfolding os by (intro cache_entry_owner) auto
    ultimately show ?thesis by (auto intro: cache_ok_set)
  qed
  moreover have "queues_active (g_stats ?s) = of_nat (used_count (queue_owners ?s))"
    using inv i' pid unfolding os by (simp add: used_count_set ipc_inv_def)
  ultimately show ?thesis by (simp add: ipc_inv_def)
qed

text \<open>
  What \<open>ipc_queue_create\<close> and the search in front of it promise: the mailbox exists afterwards at
  the returned index, or there was no free slot.
\<close>

definition mailbox_ready :: "ipc_state \<Rightarrow> u32 \<Rightarrow> int \<Rightarrow> ipc_state \<Rightarrow> bool" where
  "mailbox_ready s pid r s' \<longleftrightarrow> ipc_inv s' \<and>
     (if mailbox s pid \<noteq> None \<or> used_count (queue_owners s) < IPC_MAX_QUEUES
      then 0 \<le> r \<and> owns s' (nat r) pid
        \<and> mailbox s' = (mailbox s)(pid \<mapsto> case mailbox s pid of Some ms \<Rightarrow> ms | None \<Rightarrow> [])
      else r = IPC_ERR_NOSLOT \<and> mailbox s' = mailbox s)"

lemma queue_find_facts:
  assumes inv: "ipc_inv s" and pid: "pid \<noteq> 0" and f: "queue_find_by_pid pid s = (f, s1)"
  shows "g_queues s1 = g_queues s" "queue_owners s1 = queue_owners s" "mailbox s1 = mailbox s" "ipc_inv s1"
    and "f = find_slot (\<lambda>p. p = pid) (queue_owners s)"
  using queue_find_frame [of pid s] mailbox_frame(5) [of pid s] queue_find_inv [OF inv pid] f
    queue_find_eq_scan [of s pid] inv pid by (simp_all add: ipc_inv_def tables_ok_def)

lemma queue_found_ready:
  assumes inv: "ipc_inv s" and pid: "pid \<noteq> 0" and f: "queue_find_by_pid pid s = (Some i, s1)"
  shows "mailbox_ready s pid (int i) s1"
proof -
  note s1 = queue_find_facts [OF inv pid f]
  have own: "owns s i pid"
    using s1(5) pid find_slot_SomeD [of "\<lambda>p. p = pid" "queue_owners s" i]
    by (simp add: owns_def queue_owners_def)
  then have "mailbox s pid = Some (queue_contents (g_queues s ! i))"
    using inv by (intro mailbox_owns) (simp_all add: ipc_inv_def)
  with own show ?thesis using s1 by (auto simp: mailbox_ready_def owns_def)
qed

lemma queue_create_fresh:
  assumes inv: "ipc_inv s" and pid: "pid \<noteq> 0" and f: "queue_find_by_pid pid s = (None, s1)"
    and res: "ipc_queue_create pid s = (r, s')"
  shows "mailbox_ready s pid r s'"
proof -
  note s1 = queue_find_facts [OF inv pid f]
  have dist: "owners_distinct (queue_owners s)" and len: "length (g_queues s) = 16"
    using inv by (simp_all add: ipc_inv_def tables_ok_def)
  have fresh: "mailbox s pid = None" using s1(5) pid by (simp add: mailbox_def)
  show ?thesis
  proof (cases "find_slot (\<lambda>q. q_owner_pid q = 0) (g_queues s)")
    case None
    with res f pid s1 have "r = IPC_ERR_NOSLOT" "s' = s1" by (simp_all add: ipc_queue_create_def)
    moreover have "used_count (queue_owners s) = 16" using None free_slot_iff [of s] len by simp
    ultimately show ?thesis using fresh s1 by (simp add: mailbox_ready_def)
  next
    case (Some i)
    note i = find_slot_SomeD [OF Some]
    have free: "used_count (queue_owners s) < 16"
      using Some free_slot_iff [of s] used_count_le [of s] len by fastforce
    from res f pid s1 Some have r: "r = int i"
      and s': "s' = s1\<lparr>g_queues := (g_queues s1)[i := zero_queue\<lparr>q_owner_pid := pid\<rparr>],
          g_pid_to_qid := (if unat pid < IPC_PID_CACHE_SIZE
            then (g_pid_to_qid s1)[unat pid := int i] else g_pid_to_qid s1),
          g_stats := (g_stats s1)\<lparr>queues_active := queues_active (g_stats s1) + 1\<rparr>\<rparr>"
      by (simp_all add: ipc_queue_create_def)
    have "ipc_inv s'" unfolding s' using i fresh pid s1 by (intro claim_slot_inv) auto
    moreover have "mailbox s' = (mailbox s)(pid \<mapsto> [])"
    proof -
      have "mailbox s' = mailbox (s1\<lparr>g_queues := (g_queues s1)[i := zero_queue\<lparr>q_owner_pid := pid\<rparr>]\<rparr>)"
        by (rule mailbox_cong) (simp add: s')
      also have "\<dots> = (mailbox s1)(pid \<mapsto> [])"
        using mailbox_claim [of s1 i pid "zero_queue\<lparr>q_owner_pid := pid\<rparr>"] i fresh pid s1 dist by simp
      finally show ?thesis using s1 by simp
    qed
    moreover have "owns s' i pid" using i pid s1 by (simp add: owns_def s')
    ultimately show ?thesis using fresh free r by (simp add: mailbox_ready_def)
  qed
qed

lemma ipc_queue_create_ready:
  assumes "ipc_inv s" "pid \<noteq> 0" "ipc_queue_create pid s = (r, s')"
  shows "mailbox_ready s pid r s'"
proof (cases "queue_find_by_pid pid s")
  case (Pair f s1)
  with assms show ?thesis
  proof (cases f)
    case (Some i)
    with Pair assms have "r = int i" "s' = s1" by (simp_all add: ipc_queue_create_def)
    with queue_found_ready [OF assms(1,2)] Pair Some show ?thesis by simp
  qed (auto intro: queue_create_fresh)
qed

lemma ipc_queue_create_inv: "ipc_inv s \<Longrightarrow> ipc_inv (snd (ipc_queue_create pid s))"
  using ipc_queue_create_ready [of s pid]
  by (cases "pid = 0"; cases "ipc_queue_create pid s") (auto simp: mailbox_ready_def ipc_queue_create_def)

lemma ipc_queue_destroy_inv:
  assumes inv: "ipc_inv s"
  shows "ipc_inv (ipc_queue_destroy qid s)"
proof (cases "unat qid < 16 \<and> q_owner_pid (g_queues s ! unat qid) \<noteq> 0")
  case False
  with inv show ?thesis by (auto simp: ipc_queue_destroy_def Let_def)
next
  case True
  let ?i = "unat qid" and ?pid = "q_owner_pid (g_queues s ! unat qid)" and ?s = "ipc_queue_destroy qid s"
  have t: "tables_ok s" and dist: "owners_distinct (queue_owners s)" using inv by (simp_all add: ipc_inv_def)
  have i: "?i < length (queue_owners s)" "queue_owners s ! ?i = ?pid"
    using True tables_okD(1) [OF t] by (simp_all add: queue_owners_def)
  have os: "queue_owners ?s = (queue_owners s)[?i := 0]"
    using True by (simp add: ipc_queue_destroy_def Let_def queue_owners_def map_update)
  have pos: "0 < used_count (queue_owners s)"
    using i True by (auto simp: used_count_def filter_empty_conv) (metis nth_mem)
  have "used_count (queue_owners s) \<le> 16" using used_count_le [of s] tables_okD(1) [OF t] by simp
  then have act: "queues_active (g_stats s) \<noteq> 0"
    using inv pos by (auto simp: ipc_inv_def word_of_nat_eq_0_iff dest: dvd_imp_le)
  have "tables_ok ?s"
    using t True by (auto simp: tables_ok_def ipc_queue_destroy_def Let_def intro: list_all_update)
  moreover have "cache_ok (g_pid_to_qid ?s) (queue_owners ?s)"
    using cache_ok_release [OF _ dist i(1,2)] inv True unfolding os
    by (simp add: ipc_inv_def ipc_queue_destroy_def Let_def)
  moreover have "owners_distinct (queue_owners ?s)" unfolding os using dist by (simp add: owners_distinct_set)
  moreover have "queues_active (g_stats ?s) = of_nat (used_count (queue_owners ?s))"
    using inv True act pos i unfolding os
    by (simp add: used_count_set ipc_inv_def ipc_queue_destroy_def Let_def of_nat_diff)
  ultimately show ?thesis by (simp add: ipc_inv_def)
qed

lemma ipc_queue_destroy_mailbox:
  assumes "ipc_inv s" "owns s (unat qid) pid"
  shows "mailbox (ipc_queue_destroy qid s) = (mailbox s)(pid := None)"
proof -
  have "unat qid < 16" "q_owner_pid (g_queues s ! unat qid) \<noteq> 0"
    using assms by (auto simp: owns_def ipc_inv_def tables_ok_def)
  then have "mailbox (ipc_queue_destroy qid s) = mailbox (s\<lparr>g_queues := (g_queues s)[unat qid := zero_queue]\<rparr>)"
    by (intro mailbox_cong) (simp add: ipc_queue_destroy_def Let_def)
  also have "\<dots> = (mailbox s)(pid := None)"
    using assms by (intro mailbox_release) (simp_all add: ipc_inv_def)
  finally show ?thesis .
qed

section \<open>Sending and receiving\<close>

text \<open>
  The abstract mailbox service: a partial map from PIDs to sequences of at most 16 messages, with at
  most 16 mailboxes. Sending creates the mailbox on demand.
\<close>

definition mb_send :: "u32 \<Rightarrow> IpcMessage \<Rightarrow> (u32 \<rightharpoonup> IpcMessage list) \<Rightarrow> int \<times> (u32 \<rightharpoonup> IpcMessage list)" where
  "mb_send dst m M =
     (case M dst of
        None \<Rightarrow> if card (dom M) < IPC_MAX_QUEUES then (IPC_OK, M(dst \<mapsto> [m])) else (IPC_ERR_NOSLOT, M)
      | Some ms \<Rightarrow> if length ms < IPC_QUEUE_DEPTH then (IPC_OK, M(dst \<mapsto> ms @ [m])) else (IPC_ERR_FULL, M))"

definition mb_recv :: "u32 \<Rightarrow> (u32 \<rightharpoonup> IpcMessage list) \<Rightarrow> (int \<times> IpcMessage option) \<times> (u32 \<rightharpoonup> IpcMessage list)" where
  "mb_recv pid M =
     (case M pid of
        None \<Rightarrow> ((IPC_ERR_INVAL, None), M)
      | Some [] \<Rightarrow> ((IPC_ERR_EMPTY, None), M)
      | Some (m # ms) \<Rightarrow> ((IPC_OK, Some m), M(pid \<mapsto> ms)))"

text \<open>
  A letter: the message that the service promises to carry, field by field. The payload is a fixed array, its first bytes are the
  sender's, at most as many as fit, and the others are zero.
\<close>

definition letter :: "u32 \<Rightarrow> u32 \<Rightarrow> u32 \<Rightarrow> bytes \<Rightarrow> u32 \<Rightarrow> IpcMessage" where
  "letter src dst ty data len = \<lparr>m_src_pid = src, m_dst_pid = dst, m_type = ty, m_len = min len 48,
     m_data = map (\<lambda>i. if i < unat len then data ! i else 0) [0..<IPC_MSG_PAYLOAD]\<rparr>"

lemma make_message_letter:
  assumes "min (unat len) IPC_MSG_PAYLOAD \<le> length data"
  shows "make_message src dst ty data len = letter src dst ty data len"
proof -
  let ?n = "min (unat len) 48"
  have "take ?n data @ replicate (48 - ?n) 0 = map (\<lambda>i. if i < unat len then data ! i else 0) [0..<48]"
    using assms by (intro nth_equalityI) (auto simp: nth_append)
  moreover have "of_nat ?n = min len 48" by (cases "len \<le> 48") (auto simp: min_def word_le_nat_alt)
  moreover have "min (length data) ?n = ?n" using assms by simp
  ultimately show ?thesis by (simp add: make_message_def letter_def Let_def)
qed

lemma make_message_ok: "msg_ok (make_message src dst ty data len)"
  by (auto simp: msg_ok_def make_message_def Let_def unat_of_nat)

lemma queue_put_facts [simp]:
  "q_owner_pid (queue_put m q) = q_owner_pid q" "q_owner_pid (queue_take q) = q_owner_pid q"
  "q_msgs (queue_take q) = q_msgs q" "q_msgs (queue_put m q) = (q_msgs q)[q_tail q := m]"
  by (simp_all add: queue_put_def queue_take_def)

lemma ipc_send_ready:
  assumes inv: "ipc_inv s" and dst: "dst \<noteq> 0"
  obtains r s2 where "mailbox_ready s dst r s2"
    and "ipc_send src dst ty (Some data) len s =
      (if r < 0 then (IPC_ERR_NOSLOT, drop_message s2)
       else if q_count (g_queues s2 ! nat r) \<ge> IPC_QUEUE_DEPTH then (IPC_ERR_FULL, drop_message s2)
       else (IPC_OK, enqueue_message (nat r) (make_message src dst ty data len) s2))"
proof (cases "queue_find_by_pid dst s")
  case (Pair f s1)
  show ?thesis
  proof (cases f)
    case (Some i)
    with Pair have "mailbox_ready s dst (int i) s1" by (intro queue_found_ready inv dst) simp
    with Pair Some dst show ?thesis by (intro that [of "int i" s1]) (simp_all add: ipc_send_def Let_def)
  next
    case None
    note s1 = queue_find_facts [OF inv dst Pair]
    obtain r s2 where c: "ipc_queue_create dst s1 = (r, s2)" by (cases "ipc_queue_create dst s1")
    then have "mailbox_ready s1 dst r s2" by (intro ipc_queue_create_ready s1 dst)
    then have "mailbox_ready s dst r s2" using s1 by (simp add: mailbox_ready_def)
    with Pair None dst c show ?thesis by (intro that [of r s2]) (simp_all add: ipc_send_def Let_def)
  qed
qed

lemma drop_message_inv [simp]: "ipc_inv (drop_message s) = ipc_inv s"
  by (simp add: ipc_inv_def drop_message_def tables_ok_def queue_owners_def)

lemma set_stats_inv: "ipc_inv s \<Longrightarrow> queues_active x = queues_active (g_stats s) \<Longrightarrow> ipc_inv (s\<lparr>g_stats := x\<rparr>)"
  by (simp add: ipc_inv_def tables_ok_def queue_owners_def)

lemma enqueue_message_correct:
  assumes inv: "ipc_inv s" and own: "owns s i dst" and room: "q_count (g_queues s ! i) < IPC_QUEUE_DEPTH"
    and m: "msg_ok m"
  shows "ipc_inv (enqueue_message i m s)"
    and "mailbox (enqueue_message i m s) = (mailbox s)(dst \<mapsto> queue_contents (g_queues s ! i) @ [m])"
proof -
  let ?q = "g_queues s ! i"
  let ?s = "s\<lparr>g_queues := (g_queues s)[i := queue_put m ?q]\<rparr>"
  have q: "queue_inv ?q" "list_all msg_ok (q_msgs ?q)"
    using inv own tables_okD(1) [of s] tables_okD(4,5) [of s i] by (simp_all add: ipc_inv_def owns_def)
  then have put: "queue_contents (queue_put m ?q) = queue_contents ?q @ [m]" "queue_inv (queue_put m ?q)"
    using room by (simp_all add: mbox.contents_push mbox.invar_push)
  have s: "enqueue_message i m s =
      ?s\<lparr>g_stats := (g_stats s)\<lparr>messages_sent := messages_sent (g_stats s) + 1\<rparr>\<rparr>"
    by (simp add: enqueue_message_def)
  have "ipc_inv ?s" using inv own q put m
    by (intro set_queue_inv) (auto simp: owns_def intro: list_all_update)
  then show "ipc_inv (enqueue_message i m s)" unfolding s by (intro set_stats_inv) simp_all
  show "mailbox (enqueue_message i m s) = (mailbox s)(dst \<mapsto> queue_contents ?q @ [m])"
    using mailbox_set [of s i dst "queue_put m ?q"] inv own put
    unfolding s by (simp add: ipc_inv_def owns_def)
qed

lemma ipc_send_correct:
  assumes inv: "ipc_inv s" and dst: "dst \<noteq> 0"
    and res: "ipc_send src dst ty (Some data) len s = (r, s')"
  shows "ipc_inv s' \<and> (r, mailbox s') = mb_send dst (make_message src dst ty data len) (mailbox s)"
proof -
  let ?m = "make_message src dst ty data len"
  obtain qid s2 where ready: "mailbox_ready s dst qid s2" and send: "ipc_send src dst ty (Some data) len s =
      (if qid < 0 then (IPC_ERR_NOSLOT, drop_message s2)
       else if q_count (g_queues s2 ! nat qid) \<ge> 16 then (IPC_ERR_FULL, drop_message s2)
       else (IPC_OK, enqueue_message (nat qid) ?m s2))"
    by (rule ipc_send_ready [OF inv dst])
  have inv2: "ipc_inv s2" using ready by (simp add: mailbox_ready_def)
  have card: "card (dom (mailbox s)) = used_count (queue_owners s)"
    using inv by (intro card_dom_mailbox) (simp add: ipc_inv_def)
  show ?thesis
  proof (cases "mailbox s dst \<noteq> None \<or> used_count (queue_owners s) < 16")
    case False
    with ready have "qid = IPC_ERR_NOSLOT" "mailbox s2 = mailbox s" by (simp_all add: mailbox_ready_def)
    with send res False inv2 card show ?thesis by (auto simp: ipc_codes mb_send_def)
  next
    case True
    define ms where "ms = (case mailbox s dst of Some ms \<Rightarrow> ms | None \<Rightarrow> [])"
    have own: "0 \<le> qid" "owns s2 (nat qid) dst" and mb2: "mailbox s2 = (mailbox s)(dst \<mapsto> ms)"
      using ready True by (simp_all add: mailbox_ready_def ms_def)
    have "mailbox s2 dst = Some (queue_contents (g_queues s2 ! nat qid))"
      using inv2 own by (intro mailbox_owns) (simp_all add: ipc_inv_def)
    then have ms: "queue_contents (g_queues s2 ! nat qid) = ms" using mb2 by simp
    have len: "length ms = q_count (g_queues s2 ! nat qid)" using ms by (metis length_queue_contents)
    note enq = enqueue_message_correct [OF inv2 own(2) _ make_message_ok, of src dst ty data len, unfolded ms]
    show ?thesis using send res own enq mb2 len True card inv2
      by (cases "mailbox s dst") (auto simp: mb_send_def ms_def split: if_splits)
  qed
qed

lemma ipc_send_inv: "ipc_inv s \<Longrightarrow> ipc_inv (snd (ipc_send src dst ty data len s))"
proof (cases "dst = 0 \<or> data = None")
  case False
  then obtain d where "data = Some d" by auto
  moreover assume "ipc_inv s"
  ultimately show ?thesis
    using False ipc_send_correct [of s dst src ty d len] by (cases "ipc_send src dst ty data len s") auto
qed (simp add: ipc_send_def)

lemma ipc_recv_correct:
  assumes inv: "ipc_inv s" and own: "owns s (unat qid) pid" and res: "ipc_recv qid True s = (r, s')"
  shows "ipc_inv s' \<and> (r, mailbox s') = mb_recv pid (mailbox s)"
proof -
  let ?q = "g_queues s ! unat qid"
  have lt: "unat qid < 16" and pid: "q_owner_pid ?q = pid" "pid \<noteq> 0"
    using inv own by (auto simp: owns_def ipc_inv_def tables_ok_def)
  have q: "queue_inv ?q" "list_all msg_ok (q_msgs ?q)"
    using inv lt tables_okD(4,5) [of s "unat qid"] by (simp_all add: ipc_inv_def)
  have mb: "mailbox s pid = Some (queue_contents ?q)"
    using inv own by (intro mailbox_owns) (simp_all add: ipc_inv_def)
  show ?thesis
  proof (cases "queue_contents ?q")
    case Nil
    with res lt pid inv mb show ?thesis
      by (auto simp: ipc_recv_def Let_def mb_recv_def queue_contents_Nil)
  next
    case (Cons m ms)
    then have ne: "q_count ?q \<noteq> 0" by (metis queue_contents_Nil list.distinct(1))
    with Cons q have t: "queue_front ?q = m" "queue_contents (queue_take ?q) = ms" "queue_inv (queue_take ?q)"
      by (simp_all add: mbox.front_contents mbox.contents_pop mbox.invar_pop)
    let ?s = "s\<lparr>g_queues := (g_queues s)[unat qid := queue_take ?q]\<rparr>"
    have "ipc_inv ?s" using inv own q t pid by (intro set_queue_inv) auto
    moreover have "mailbox ?s = (mailbox s)(pid \<mapsto> ms)"
      using mailbox_set [of s "unat qid" pid "queue_take ?q"] inv own t pid by (simp add: ipc_inv_def)
    ultimately show ?thesis using res lt pid ne t mb Cons
      by (auto simp: ipc_recv_def Let_def mb_recv_def)
  qed
qed

lemma ipc_recv_inv:
  assumes "ipc_inv s"
  shows "ipc_inv (snd (ipc_recv qid v s))"
proof (cases "v \<and> unat qid < 16 \<and> q_owner_pid (g_queues s ! unat qid) \<noteq> 0")
  case True
  then have "owns s (unat qid) (q_owner_pid (g_queues s ! unat qid))"
    using assms by (simp add: owns_def ipc_inv_def tables_ok_def)
  with True assms ipc_recv_correct [of s qid] show ?thesis by (cases "ipc_recv qid True s") auto
next
  case False
  with assms show ?thesis by (auto simp: ipc_recv_def Let_def)
qed

section \<open>Channels and local sockets\<close>

lemma channel_set_inv: "ipc_inv s \<Longrightarrow> chan_inv ch \<Longrightarrow> ipc_inv (s\<lparr>g_channels := (g_channels s)[i := ch]\<rparr>)"
  by (auto simp: ipc_inv_def tables_ok_def queue_owners_def intro: list_all_update)

lemma usock_set_inv: "ipc_inv s \<Longrightarrow> usock_ok u \<Longrightarrow> ipc_inv (s\<lparr>g_usocks := (g_usocks s)[i := u]\<rparr>)"
  by (auto simp: ipc_inv_def tables_ok_def queue_owners_def intro: list_all_update)

lemma chan_inv_flags [simp]:
  "chan_inv (ch\<lparr>ch_closed := b\<rparr>) = chan_inv ch" "chan_inv (ch\<lparr>ch_peer_pid := p\<rparr>) = chan_inv ch"
  "chan_inv (ch\<lparr>ch_owner_pid := p\<rparr>) = chan_inv ch"
  "chan_contents (ch\<lparr>ch_closed := b\<rparr>) = chan_contents ch"
  by (simp_all add: chan_inv_def chan_contents_def)

lemma ipc_channel_create_inv:
  assumes "ipc_inv s"
  shows "ipc_inv (snd (ipc_channel_create owner peer s))"
proof (cases "owner = 0 \<or> find_slot (\<lambda>c. ch_owner_pid c = 0) (g_channels s) = None")
  case False
  then obtain i where i: "find_slot (\<lambda>c. ch_owner_pid c = 0) (g_channels s) = Some i" by auto
  let ?s = "s\<lparr>g_channels := (g_channels s)[i := zero_channel\<lparr>ch_owner_pid := owner, ch_peer_pid := peer\<rparr>]\<rparr>"
  have "ipc_inv ?s" using assms by (intro channel_set_inv) simp_all
  then have "ipc_inv (?s\<lparr>g_stats := (g_stats s)\<lparr>channels_active := channels_active (g_stats s) + 1\<rparr>\<rparr>)"
    by (intro set_stats_inv) simp_all
  with False i show ?thesis by (simp add: ipc_channel_create_def)
next
  case True
  with assms show ?thesis by (auto simp: ipc_channel_create_def)
qed

lemma ipc_channel_close_inv:
  assumes "ipc_inv s"
  shows "ipc_inv (ipc_channel_close cid s)"
proof (cases "unat cid < 8 \<and> ch_owner_pid (g_channels s ! unat cid) \<noteq> 0")
  case True
  let ?s = "s\<lparr>g_channels := (g_channels s)[unat cid := (g_channels s ! unat cid)\<lparr>ch_closed := True\<rparr>]\<rparr>"
  have "chan_inv (g_channels s ! unat cid)"
    using assms True by (intro tables_okD(6)) (simp_all add: ipc_inv_def)
  then have "ipc_inv ?s" using assms by (intro channel_set_inv) simp_all
  then have "ipc_inv (?s\<lparr>g_stats := x\<rparr>)" if "queues_active x = queues_active (g_stats s)" for x
    using that by (intro set_stats_inv) simp_all
  with True show ?thesis by (simp add: ipc_channel_close_def)
qed (use assms in \<open>auto simp: ipc_channel_close_def\<close>)

lemma chan_loops_owner [simp]:
  "ch_owner_pid (snd (channel_write_loop bs ch)) = ch_owner_pid ch"
  "ch_owner_pid (snd (channel_read_loop n ch)) = ch_owner_pid ch"
proof -
  show "ch_owner_pid (snd (channel_write_loop bs ch)) = ch_owner_pid ch"
    by (induction bs arbitrary: ch) (auto simp: chan_put_def split_beta Let_def)
  show "ch_owner_pid (snd (channel_read_loop n ch)) = ch_owner_pid ch"
    by (induction n arbitrary: ch) (auto simp: chan_take_def split_beta Let_def)
qed

lemma channel_write_effect:
  assumes inv: "ipc_inv s" and cid: "unat cid < 8" and len: "len \<noteq> 0"
    and ch: "ch = g_channels s ! unat cid" "ch_owner_pid ch \<noteq> 0" "\<not> ch_closed ch"
  shows "\<exists>ch'. ipc_channel_write cid (Some data) len s =
      (let n = min (length (take (unat len) data)) (IPC_CHAN_BUF_SIZE - ch_count ch)
       in (if n = 0 then IPC_ERR_FULL else int n, s\<lparr>g_channels := (g_channels s)[unat cid := ch']\<rparr>))
    \<and> chan_contents ch' = chan_contents ch @ take (IPC_CHAN_BUF_SIZE - ch_count ch) (take (unat len) data)
    \<and> chan_inv ch' \<and> ch_owner_pid ch' = ch_owner_pid ch"
proof -
  have ci: "chan_inv ch" using inv cid ch tables_okD(6) [of s "unat cid"] by (simp add: ipc_inv_def)
  define xs where "xs = take (unat len) data"
  obtain n ch' where w: "channel_write_loop xs ch = (n, ch')" by (cases "channel_write_loop xs ch")
  have n: "n = min (length xs) (512 - ch_count ch)" and
    c': "chan_contents ch' = chan_contents ch @ take (512 - ch_count ch) xs" "chan_inv ch'"
    using chan.write_loop_correct [OF ci, of xs] w by (simp_all add: channel_write_loop_eq)
  have own: "ch_owner_pid ch' = ch_owner_pid ch" using chan_loops_owner(1) [of xs ch] w by simp
  have "ipc_channel_write cid (Some data) len s =
      (if n = 0 then IPC_ERR_FULL else int n, s\<lparr>g_channels := (g_channels s)[unat cid := ch']\<rparr>)"
    using cid len ch w by (simp add: ipc_channel_write_def xs_def [symmetric])
  with c' own show ?thesis unfolding xs_def [symmetric] Let_def n by blast
qed

lemma channel_read_effect:
  assumes inv: "ipc_inv s" and cid: "unat cid < 8" and len: "max_len \<noteq> 0"
    and ch: "ch = g_channels s ! unat cid" "ch_owner_pid ch \<noteq> 0" "ch_count ch \<noteq> 0"
  shows "\<exists>ch'. ipc_channel_read cid True max_len s =
      (let bs = take (unat max_len) (chan_contents ch)
       in ((int (length bs), bs), s\<lparr>g_channels := (g_channels s)[unat cid := ch']\<rparr>))
    \<and> chan_contents ch' = drop (unat max_len) (chan_contents ch) \<and> chan_inv ch'"
proof -
  have "chan_inv ch" using inv cid ch tables_okD(6) [of s "unat cid"] by (simp add: ipc_inv_def)
  from chan.read_loop_correct [OF this, of "unat max_len"] show ?thesis
    using cid len ch by (intro exI [of _ "snd (channel_read_loop (unat max_len) ch)"])
      (auto simp: ipc_channel_read_def Let_def channel_read_loop_eq split_beta)
qed

lemma ipc_channel_write_inv:
  assumes "ipc_inv s"
  shows "ipc_inv (snd (ipc_channel_write cid buf len s))"
proof (cases "unat cid < 8 \<and> buf \<noteq> None \<and> len \<noteq> 0 \<and> ch_owner_pid (g_channels s ! unat cid) \<noteq> 0
    \<and> \<not> ch_closed (g_channels s ! unat cid)")
  case True
  then obtain d where "buf = Some d" by auto
  with True assms channel_write_effect [OF assms, of cid len _ d] show ?thesis
    by (auto simp: Let_def intro: channel_set_inv)
qed (use assms in \<open>auto simp: ipc_channel_write_def Let_def\<close>)

lemma ipc_channel_read_inv:
  assumes "ipc_inv s"
  shows "ipc_inv (snd (ipc_channel_read cid v max_len s))"
proof (cases "unat cid < 8 \<and> v \<and> max_len \<noteq> 0 \<and> ch_owner_pid (g_channels s ! unat cid) \<noteq> 0
    \<and> ch_count (g_channels s ! unat cid) \<noteq> 0")
  case True
  with assms channel_read_effect [OF assms, of cid max_len] show ?thesis
    by (auto simp: Let_def intro: channel_set_inv)
qed (use assms in \<open>auto simp: ipc_channel_read_def Let_def\<close>)

lemma ipc_channel_create_result:
  assumes "ipc_inv s" "ipc_channel_create owner peer s = (cid, s')" "0 \<le> cid"
  shows "\<exists>k < IPC_MAX_CHANNELS. cid = int k"
proof (cases "owner = 0")
  case False
  show ?thesis
  proof (cases "find_slot (\<lambda>c. ch_owner_pid c = 0) (g_channels s)")
    case (Some i)
    with find_slot_SomeD(1) [OF Some] assms False show ?thesis
      by (auto simp: ipc_channel_create_def ipc_inv_def tables_ok_def)
  qed (use assms False in \<open>simp add: ipc_channel_create_def ipc_codes\<close>)
qed (use assms in \<open>simp add: ipc_channel_create_def ipc_codes\<close>)

lemma ipc_usock_bind_inv:
  assumes inv: "ipc_inv s"
  shows "ipc_inv (snd (ipc_usock_bind path owner s))"
proof -
  obtain cid s1 where c: "ipc_channel_create owner 0 s = (cid, s1)" by (cases "ipc_channel_create owner 0 s")
  have inv1: "ipc_inv s1" using ipc_channel_create_inv [OF inv, of owner 0] c by simp
  have "usock_ok \<lparr>us_used = True, us_cid = of_int cid, us_owner_pid = owner,
      us_path = c_strlcpy (us_path (g_usocks s1 ! i)) p 32\<rparr>" if cid: "0 \<le> cid" and i: "i < 8" for i p
  proof -
    obtain k where "k < 8" "cid = int k" using ipc_channel_create_result [OF inv c cid] by auto
    then have "unat (of_int cid :: u32) < 8" by (simp add: unat_of_nat)
    moreover have "usock_ok (g_usocks s1 ! i)"
      using inv1 i by (intro tables_okD(7)) (simp_all add: ipc_inv_def)
    ultimately show ?thesis by (simp add: usock_ok_def)
  qed
  moreover have "length (g_usocks s1) = 8" using inv1 by (simp add: ipc_inv_def tables_ok_def)
  ultimately show ?thesis
    using inv inv1 c by (auto simp: ipc_usock_bind_def Let_def ipc_strncpy_def split: option.splits
        intro!: usock_set_inv ipc_channel_close_inv dest: find_slot_SomeD(1))
qed

lemma ipc_usock_connect_inv:
  assumes inv: "ipc_inv s"
  shows "ipc_inv (snd (ipc_usock_connect path peer s))"
proof -
  have "ipc_inv (s\<lparr>g_channels := (g_channels s)[i := (g_channels s ! i)\<lparr>ch_peer_pid := peer\<rparr>]\<rparr>)" if "i < 8" for i
  proof -
    have "chan_inv (g_channels s ! i)" using inv that by (intro tables_okD(6)) (simp_all add: ipc_inv_def)
    with inv show ?thesis by (intro channel_set_inv) simp_all
  qed
  with inv show ?thesis by (auto simp: ipc_usock_connect_def Let_def split: option.splits)
qed

lemma ipc_usock_close_inv: "ipc_inv s \<Longrightarrow> ipc_inv (snd (ipc_usock_close path s))"
  by (auto simp: ipc_usock_close_def Let_def split: option.splits
      intro!: usock_set_inv ipc_channel_close_inv)

lemma ipc_usock_send_inv: "ipc_inv s \<Longrightarrow> ipc_inv (snd (ipc_usock_send path buf len s))"
  by (auto simp: ipc_usock_send_def split: option.splits intro: ipc_channel_write_inv)

lemma ipc_usock_recv_inv: "ipc_inv s \<Longrightarrow> ipc_inv (snd (ipc_usock_recv path v n s))"
  by (auto simp: ipc_usock_recv_def split: option.splits intro: ipc_channel_read_inv)

lemmas ipc_op_inv = ipc_queue_create_inv ipc_queue_destroy_inv ipc_send_inv ipc_recv_inv
  ipc_channel_create_inv ipc_channel_write_inv ipc_channel_read_inv ipc_channel_close_inv
  ipc_usock_bind_inv ipc_usock_connect_inv ipc_usock_send_inv ipc_usock_recv_inv ipc_usock_close_inv

lemma ipc_syscall_inv: "ipc_inv s \<Longrightarrow> ipc_inv (snd (snd (ipc_syscall num a1 a2 a3 mem s)))"
  by (auto simp: ipc_syscall_def Let_def split_beta intro: ipc_op_inv)

section \<open>The subsystem as a transition system\<close>

text \<open>
  One transition per entry point, with any arguments: system calls from user processes, and the
  kernel's own use of the API (the shell's socket commands, process teardown).
\<close>

inductive ipc_step :: "ipc_state \<Rightarrow> ipc_state \<Rightarrow> bool" where
  syscall: "ipc_step s (snd (snd (ipc_syscall num a1 a2 a3 mem s)))"
| create: "ipc_step s (snd (ipc_queue_create pid s))"
| destroy: "ipc_step s (ipc_queue_destroy qid s)"
| send: "ipc_step s (snd (ipc_send src dst ty data len s))"
| recv: "ipc_step s (snd (ipc_recv qid v s))"
| chan_create: "ipc_step s (snd (ipc_channel_create owner peer s))"
| chan_write: "ipc_step s (snd (ipc_channel_write cid buf len s))"
| chan_read: "ipc_step s (snd (ipc_channel_read cid v n s))"
| chan_close: "ipc_step s (ipc_channel_close cid s)"
| usock_bind: "ipc_step s (snd (ipc_usock_bind path owner s))"
| usock_connect: "ipc_step s (snd (ipc_usock_connect path peer s))"
| usock_send: "ipc_step s (snd (ipc_usock_send path buf len s))"
| usock_recv: "ipc_step s (snd (ipc_usock_recv path v n s))"
| usock_close: "ipc_step s (snd (ipc_usock_close path s))"

inductive ipc_reachable :: "ipc_state \<Rightarrow> bool" where
  start: "ipc_reachable ipc_init"
| step: "ipc_reachable s \<Longrightarrow> ipc_step s s' \<Longrightarrow> ipc_reachable s'"

lemma ipc_step_inv: "ipc_step s s' \<Longrightarrow> ipc_inv s \<Longrightarrow> ipc_inv s'"
  by (induction rule: ipc_step.induct) (auto intro: ipc_op_inv ipc_syscall_inv)

lemma ipc_reachable_ipc_inv: "ipc_reachable s \<Longrightarrow> ipc_inv s"
  by (induction rule: ipc_reachable.induct) (auto intro: ipc_init_inv ipc_step_inv)

section \<open>Messages in user memory\<close>

lemma drop_encodings [byte_simps]:
  "drop 4 (le32_bytes v @ bs) = bs" "drop 8 (le32_bytes v @ bs) = drop 4 bs"
  "drop 12 (le32_bytes v @ bs) = drop 8 bs" "drop 16 (le32_bytes v @ bs) = drop 12 bs"
  by simp_all

lemma length_encode_message: "msg_ok m \<Longrightarrow> length (encode_message m) = 64"
  by (simp add: encode_message_def msg_ok_def)

lemma decode_encode_message: "msg_ok m \<Longrightarrow> decode_message (encode_message m) = m"
  by (simp add: encode_message_def decode_message_def msg_ok_def byte_simps)

text \<open>
  The 64 bytes that the receiver of a message to \<open>dst\<close> finds, given the 64 bytes \<open>b\<close> of the sender: sender and type as they are, the
  destination of the call, the length cut to 48, and as many bytes of the payload, zeros behind them.
\<close>

definition arrives :: "u32 \<Rightarrow> bytes \<Rightarrow> bytes" where
  "arrives dst b = (let len = le32_of (drop 12 b) in
     take 4 b @ le32_bytes dst @ take 4 (drop 8 b) @ le32_bytes (min len 48) @ map (\<lambda>i. if i < unat len then b ! (16 + i) else 0) [0..<48])"

lemma le32_bytes_of:
  assumes "4 \<le> length b"
  shows "le32_bytes (le32_of b) = take 4 b"
proof -
  obtain x y z w r where b: "b = x # y # z # w # r" using assms by (auto simp: numeral_eq_Suc Suc_le_length_iff)
  have "\<not> bit v n" if "8 \<le> n" for v :: u8 and n using that bit_imp_le_length [of v n] by auto
  then show ?thesis unfolding b le32_bytes_def le32_of_def by (auto simp: bit_eq_iff bit_simps)
qed

lemma syscall_send:
  "num = 20 \<Longrightarrow> a \<noteq> 0 \<Longrightarrow> m = decode_message (load_bytes mem a 64) \<Longrightarrow>
   ipc_syscall num dst a n mem s =
     (let (r, s') = ipc_send (m_src_pid m) dst (m_type m) (Some (m_data m)) (m_len m) s in (r, mem, s'))"
  by (simp add: ipc_syscall_def Let_def)

lemma arrives_letter:
  assumes "length b = 64" "m = decode_message b"
  shows "encode_message (letter (m_src_pid m) dst (m_type m) (m_data m) (m_len m)) = arrives dst b"
proof -
  have "le32_bytes (le32_of b) = take 4 b" "le32_bytes (le32_of (drop 8 b)) = take 4 (drop 8 b)" using assms(1) by (simp_all add: le32_bytes_of)
  moreover have "map (\<lambda>i. if i < k then take 48 (drop 16 b) ! i else 0) [0..<48] = map (\<lambda>i. if i < k then b ! (16 + i) else 0) [0..<48]" for k
    using assms(1) by (intro map_cong) auto
  ultimately show ?thesis by (simp add: encode_message_def letter_def assms(2) decode_message_def arrives_def Let_def del: upt_Suc)
qed

lemma syscall_recv:
  "num = 21 \<Longrightarrow> a \<noteq> 0 \<Longrightarrow> ipc_syscall num qid a n mem s =
     (let ((r, out), s') = ipc_recv qid True s
      in (r, case out of None \<Rightarrow> mem | Some m \<Rightarrow> store_bytes mem a (encode_message m), s'))"
  by (simp add: ipc_syscall_def)

lemma mailbox_init: "mailbox ipc_init = Map.empty"
  by (rule ext) (auto simp: mailbox_None_iff ipc_init_def queue_owners_def zero_queue_def)

text \<open>The first mailbox of a fresh system is slot 0.\<close>

lemma init_find: "queue_find_by_pid pid ipc_init = (find_slot (\<lambda>q. q_owner_pid q = pid) (g_queues ipc_init), ipc_init)"
  if "pid \<noteq> 0"
proof -
  have "find_slot (\<lambda>q. q_owner_pid q = pid) (g_queues ipc_init) = None"
    using that by (simp add: find_slot_None_iff ipc_init_def zero_queue_def)
  moreover have "g_pid_to_qid ipc_init ! unat pid = -1" if "unat pid < 256"
    using that by (simp add: ipc_init_def)
  ultimately show ?thesis by (auto simp: queue_find_by_pid_def Let_def)
qed

lemma init_send_owns:
  assumes "dst \<noteq> 0"
  shows "owns (snd (ipc_send src dst ty (Some d) len ipc_init)) 0 dst"
proof -
  have none: "find_slot (\<lambda>q. q_owner_pid q = dst) (g_queues ipc_init) = None"
    using assms by (simp add: find_slot_None_iff ipc_init_def zero_queue_def)
  have "find_slot (\<lambda>q. q_owner_pid q = 0) (g_queues ipc_init) = Some 0"
    by (simp add: find_slot_Some_iff ipc_init_def zero_queue_def)
  moreover have "length (g_queues ipc_init) = 16" by (simp add: ipc_init_def)
  ultimately show ?thesis using assms
    by (simp add: ipc_send_def init_find none ipc_queue_create_def owns_def enqueue_message_def zero_queue_def
        queue_put_def)
qed

lemma init_send_mailbox:
  assumes "dst \<noteq> 0"
  shows "mailbox (snd (ipc_send src dst ty (Some d) len ipc_init)) = [dst \<mapsto> [make_message src dst ty d len]]"
  using ipc_send_correct [OF ipc_init_inv assms, of src ty d len]
  by (cases "ipc_send src dst ty (Some d) len ipc_init") (simp add: mailbox_init mb_send_def)

section \<open>Channel slots\<close>

definition chan_used :: "ipc_state \<Rightarrow> nat set" where
  "chan_used s = {i. i < length (g_channels s) \<and> ch_owner_pid (g_channels s ! i) \<noteq> 0}"

lemma chan_used_set:
  "ch_owner_pid ch \<noteq> 0 \<or> ch_owner_pid (g_channels s ! i) = 0 \<Longrightarrow>
   chan_used s \<subseteq> chan_used (s\<lparr>g_channels := (g_channels s)[i := ch]\<rparr>)"
  by (auto simp: chan_used_def nth_update_if)

lemma chan_used_cong: "g_channels s = g_channels s' \<Longrightarrow> chan_used s = chan_used s'"
  by (simp add: chan_used_def)

lemma queue_ops_channels:
  "g_channels (snd (ipc_queue_create pid s)) = g_channels s"
  "g_channels (ipc_queue_destroy qid s) = g_channels s"
  "g_channels (snd (ipc_send src dst ty data len s)) = g_channels s"
  "g_channels (snd (ipc_recv qid v s)) = g_channels s"
proof -
  have find: "g_channels s1 = g_channels s0" if "queue_find_by_pid p s0 = (f, s1)" for p s0 f s1
    using queue_find_frame(2) [of p s0] that by simp
  have create: "g_channels (snd (ipc_queue_create p s0)) = g_channels s0" for p s0
    by (auto simp: ipc_queue_create_def split: prod.splits option.splits dest: find)
  then show "g_channels (snd (ipc_queue_create pid s)) = g_channels s" .
  have create': "g_channels s1 = g_channels s0" if "ipc_queue_create p s0 = (r, s1)" for p s0 r s1
    using create [of p s0] that by simp
  show "g_channels (snd (ipc_send src dst ty data len s)) = g_channels s"
    by (auto simp: ipc_send_def Let_def drop_message_def enqueue_message_def
        split: prod.splits option.splits if_splits dest!: find create')
qed (simp_all add: ipc_queue_destroy_def ipc_recv_def Let_def)

lemma chan_op_used:
  "chan_used s \<subseteq> chan_used (snd (ipc_channel_create owner peer s))"
  "chan_used s \<subseteq> chan_used (snd (ipc_channel_write cid buf len s))"
  "chan_used s \<subseteq> chan_used (snd (ipc_channel_read cid v n s))"
  "chan_used s \<subseteq> chan_used (ipc_channel_close cid s)"
  by (auto simp: ipc_channel_create_def ipc_channel_write_def ipc_channel_read_def ipc_channel_close_def
      chan_used_def nth_update_if Let_def split_beta find_slot_Some_iff split: option.splits)

lemma usock_op_used:
  "chan_used s \<subseteq> chan_used (snd (ipc_usock_bind path owner s))"
  "chan_used s \<subseteq> chan_used (snd (ipc_usock_connect path peer s))"
  "chan_used s \<subseteq> chan_used (snd (ipc_usock_send path buf len s))"
  "chan_used s \<subseteq> chan_used (snd (ipc_usock_recv path v n s))"
  "chan_used s \<subseteq> chan_used (snd (ipc_usock_close path s))"
proof -
  have frame: "chan_used (s'\<lparr>g_usocks := us\<rparr>) = chan_used s'" for s' us by (simp add: chan_used_def)
  obtain cid s1 where c: "ipc_channel_create owner 0 s = (cid, s1)" by (cases "ipc_channel_create owner 0 s")
  then have "chan_used s \<subseteq> chan_used s1" using chan_op_used(1) [of s owner 0] by simp
  then have "chan_used s \<subseteq> chan_used (ipc_channel_close c' s1)" for c' using chan_op_used(4) [of s1 c'] by blast
  with \<open>chan_used s \<subseteq> chan_used s1\<close> c show "chan_used s \<subseteq> chan_used (snd (ipc_usock_bind path owner s))"
    by (simp add: ipc_usock_bind_def Let_def frame split: option.splits)
  show "chan_used s \<subseteq> chan_used (snd (ipc_usock_connect path peer s))"
    by (simp add: ipc_usock_connect_def Let_def chan_used_set split: option.splits)
qed (simp_all add: ipc_usock_send_def ipc_usock_recv_def ipc_usock_close_def Let_def chan_op_used
      chan_used_cong [of "s'\<lparr>g_usocks := us\<rparr>" s' for s' us] split: option.splits)

lemmas ipc_op_used = chan_op_used usock_op_used

lemma ipc_syscall_used: "chan_used s \<subseteq> chan_used (snd (snd (ipc_syscall num a1 a2 a3 mem s)))"
  using chan_op_used [THEN subsetD]
  by (auto simp: ipc_syscall_def Let_def split_beta chan_used_cong [OF queue_ops_channels(1)]
     chan_used_cong [OF queue_ops_channels(2)] chan_used_cong [OF queue_ops_channels(3)]
     chan_used_cong [OF queue_ops_channels(4)])

lemma ipc_step_used: "ipc_step s s' \<Longrightarrow> chan_used s \<subseteq> chan_used s'"
  by (induction rule: ipc_step.induct)
    (simp_all only: ipc_op_used ipc_syscall_used queue_ops_channels [THEN chan_used_cong] order_refl)

section \<open>Properties\<close>

text \<open>
  Property C12: every state that the IPC subsystem reaches from \<open>ipc_init\<close>, by system calls with any
  arguments and any user memory and by the kernel-internal API, is well formed: ring indices and
  counts stay in range, no two mailboxes share an owner, every PID cache entry is absent or the
  owner's queue, and \<open>queues_active\<close> counts the mailboxes.
\<close>

theorem ipc_reachable_inv: "ipc_reachable s \<Longrightarrow> ipc_inv s"
  by (rule ipc_reachable_ipc_inv)

theorem ipc_reachable_inv_witness:
  "ipc_inv (snd (ipc_channel_create 3 4 (snd (ipc_send 1 2 7 (Some [65, 66]) 2 ipc_init))))"
  by (rule ipc_reachable_inv [OF ipc_reachable.step [OF ipc_reachable.step
      [OF ipc_reachable.start ipc_step.send] ipc_step.chan_create]])

text \<open>
  Property C9: \<open>ipc_send\<close> implements the abstract mailbox service on every branch: it appends the letter (sender, destination,
  type, length cut to 48, the bytes of the sender and zeros behind them) behind the queued ones, creating the mailbox if a slot is
  free; it reports a full mailbox or a full table, and touches no other mailbox. Without data it is rejected, and so is the destination 0,
  which the comment at \<open>dst_pid\<close> in \<open>include/ipc.h\<close> calls a broadcast: the code has none.
\<close>

theorem ipc_send_refines:
  assumes "ipc_inv s" "\<forall>d. data = Some d \<longrightarrow> min (unat len) IPC_MSG_PAYLOAD \<le> length d"
  shows "(fst (ipc_send src dst ty data len s), mailbox (snd (ipc_send src dst ty data len s))) =
    (if dst = 0 \<or> data = None then (IPC_ERR_INVAL, mailbox s)
     else mb_send dst (letter src dst ty (the data) len) (mailbox s))"
proof (cases "dst = 0 \<or> data = None")
  case False
  then obtain d where "data = Some d" by auto
  with False assms ipc_send_correct [of s dst src ty d len] make_message_letter [of len d] show ?thesis
    by (cases "ipc_send src dst ty data len s") auto
qed (auto simp: ipc_send_def)

theorem ipc_send_refines_witness:
  "fst (ipc_send 1 2 7 (Some [65]) 1 ipc_init) = IPC_OK
   \<and> mailbox (snd (ipc_send 1 2 7 (Some [65]) 1 ipc_init)) 2
     = Some [\<lparr>m_src_pid = 1, m_dst_pid = 2, m_type = 7, m_len = 1, m_data = 65 # replicate 47 0\<rparr>]"
proof -
  have "letter 1 2 7 [65] 1 = \<lparr>m_src_pid = 1, m_dst_pid = 2, m_type = 7, m_len = 1, m_data = 65 # replicate 47 0\<rparr>" by code_simp
  then show ?thesis
    using ipc_send_refines [OF ipc_init_inv, of "Some [65]" 1 1 2 7] by (simp add: mailbox_init mb_send_def)
qed

text \<open>
  Property C10: \<open>ipc_recv\<close> on a process's queue implements the abstract mailbox service: it delivers the
  oldest message of that mailbox and removes it, or reports that the mailbox is empty with the code \<open>-2\<close> of \<open>include/ipc.h\<close>
  (\<open>docs/kernel/IPC.md\<close> says \<open>-1\<close>, which is the code of a full mailbox), and leaves every other mailbox as it was.
\<close>

theorem ipc_recv_refines:
  assumes "ipc_inv s" "owns s (unat qid) pid"
  shows "(fst (ipc_recv qid True s), mailbox (snd (ipc_recv qid True s))) = mb_recv pid (mailbox s)"
  using ipc_recv_correct [OF assms] by (cases "ipc_recv qid True s") auto

theorem ipc_recv_refines_witness:
  "fst (ipc_recv 0 True (snd (ipc_send 1 5 7 (Some [65]) 1 ipc_init)))
     = (IPC_OK, Some \<lparr>m_src_pid = 1, m_dst_pid = 5, m_type = 7, m_len = 1, m_data = 65 # replicate 47 0\<rparr>)"
proof -
  let ?s = "snd (ipc_send 1 5 7 (Some [65]) 1 ipc_init)"
  have "owns ?s (unat (0 :: u32)) 5" "mailbox ?s 5 = Some [make_message 1 5 7 [65] 1]"
    using init_send_owns [of 5] init_send_mailbox [of 5] by simp_all
  moreover have "make_message 1 5 7 [65] 1 = \<lparr>m_src_pid = 1, m_dst_pid = 5, m_type = 7, m_len = 1, m_data = 65 # replicate 47 0\<rparr>" by code_simp
  ultimately show ?thesis using ipc_recv_refines [OF ipc_send_inv [OF ipc_init_inv], of 1 5 7 "Some [65]" 1 0 5] by (simp add: mb_recv_def)
qed

text \<open>
  Property: the PID cache in front of the queue table is only an optimisation: the lookup
  returns the first queue that the linear scan finds, whatever the cache contains, as long as no
  two queues share an owner.
\<close>

theorem pid_cache_transparent:
  assumes "ipc_inv s" "pid \<noteq> 0"
  shows "fst (queue_find_by_pid pid s) = find_slot (\<lambda>q. q_owner_pid q = pid) (g_queues s)
    \<and> g_queues (snd (queue_find_by_pid pid s)) = g_queues s"
  using assms queue_find_eq_scan [of s pid] by (simp add: ipc_inv_def tables_ok_def find_owner)

theorem pid_cache_transparent_witness:
  "fst (queue_find_by_pid 9 ipc_init) = find_slot (\<lambda>q. q_owner_pid q = 9) (g_queues ipc_init)"
  using pid_cache_transparent [OF ipc_init_inv, of 9] by simp

text \<open>
  Property: a channel is a byte stream. A write accepts as many bytes as the 512-byte buffer has room
  for (and says how many, or that it is full); a later read returns the oldest bytes in the order
  they were written.
\<close>

theorem ipc_channel_stream:
  assumes inv: "ipc_inv s" and ch: "unat cid < IPC_MAX_CHANNELS" "ch = g_channels s ! unat cid"
      "ch_owner_pid ch \<noteq> 0" "\<not> ch_closed ch"
    and len: "len \<noteq> 0" "unat len \<le> length data" and n: "n \<noteq> 0"
    and acc: "accepted = take (IPC_CHAN_BUF_SIZE - ch_count ch) (take (unat len) data)"
    and wr: "ipc_channel_write cid (Some data) len s = (r, s')"
  shows "r = (if accepted = [] then IPC_ERR_FULL else int (length accepted))
    \<and> fst (ipc_channel_read cid True n s') = (let bs = take (unat n) (chan_contents ch @ accepted)
        in if bs = [] then (IPC_ERR_EMPTY, []) else (int (length bs), bs))"
proof -
  obtain ch' where w: "(r, s') = (let k = min (length (take (unat len) data)) (512 - ch_count ch)
        in (if k = 0 then IPC_ERR_FULL else int k, s\<lparr>g_channels := (g_channels s)[unat cid := ch']\<rparr>))"
    and c': "chan_contents ch' = chan_contents ch @ accepted" "ch_owner_pid ch' = ch_owner_pid ch"
    using channel_write_effect [OF inv ch(1) len(1) ch(2-4), of data] wr acc by auto
  have nth: "g_channels s' ! unat cid = ch'" using w inv ch(1) by (auto simp: Let_def ipc_inv_def tables_ok_def)
  then have own: "ch_owner_pid (g_channels s' ! unat cid) \<noteq> 0" using ch c' by simp
  have inv': "ipc_inv s'" using ipc_channel_write_inv [OF inv, of cid "Some data" len] wr by simp
  have "fst (ipc_channel_read cid True n s') = (let bs = take (unat n) (chan_contents ch')
        in if bs = [] then (IPC_ERR_EMPTY, []) else (int (length bs), bs))"
  proof (cases "ch_count ch' = 0")
    case True
    with own nth ch(1) n show ?thesis by (simp add: ipc_channel_read_def chan_contents_Nil)
  next
    case False
    then have "take (unat n) (chan_contents ch') \<noteq> []" using n by (simp add: chan_contents_Nil unat_eq_zero)
    with False own nth channel_read_effect [OF inv' ch(1) n nth [symmetric]] show ?thesis
      by (auto simp: Let_def)
  qed
  moreover have "r = (if accepted = [] then IPC_ERR_FULL else int (length accepted))"
    using w acc by (auto simp: Let_def min_def split: if_splits)
  ultimately show ?thesis using c' by simp
qed

theorem ipc_channel_stream_witness:
  "fst (ipc_channel_read 0 True 2 (snd (ipc_channel_write 0 (Some [7, 8, 9]) 3
     (snd (ipc_channel_create 1 2 ipc_init))))) = (2, [7, 8])"
proof -
  let ?s = "snd (ipc_channel_create 1 2 ipc_init)"
  have "find_slot (\<lambda>c. ch_owner_pid c = 0) (g_channels ipc_init) = Some 0"
    by (simp add: find_slot_Some_iff ipc_init_def zero_channel_def)
  then have "g_channels ?s ! 0 = zero_channel\<lparr>ch_owner_pid := 1, ch_peer_pid := 2\<rparr>"
    by (simp add: ipc_channel_create_def ipc_init_def)
  moreover have "ipc_inv ?s" by (intro ipc_channel_create_inv ipc_init_inv)
  ultimately show ?thesis
    using ipc_channel_stream [of ?s 0 _ 3 "[7, 8, 9]" 2 "[7, 8, 9]"
        "fst (ipc_channel_write 0 (Some [7, 8, 9]) 3 ?s)" "snd (ipc_channel_write 0 (Some [7, 8, 9]) 3 ?s)"]
    by (simp add: zero_channel_def chan_contents_def)
qed

text \<open>
  Property C36: a message sent with system call 20 from user memory and received with system call 21
  arrives byte for byte in the receiver's memory: sender and type as they were, the destination of the call, the length cut to 48,
  that many bytes of the payload, and zeros behind them, when the destination's mailbox was empty or absent and a slot was free;
  the mailbox is empty again afterwards.
\<close>

theorem ipc_syscall_roundtrip:
  assumes inv: "ipc_inv s" and dst: "dst \<noteq> 0" "mailbox s dst = Some [] \<or> mailbox s dst = None \<and> card (dom (mailbox s)) < 16"
    and a: "a \<noteq> 0" and b: "b \<noteq> 0"
    and send: "ipc_syscall 20 dst a x mem s = (r, mem1, s1)"
    and qid: "owns s1 (unat qid) dst"
    and recv: "ipc_syscall 21 qid b y mem1 s1 = (r', mem2, s2)"
  shows "r = IPC_OK \<and> r' = IPC_OK \<and> load_bytes mem2 b 64 = arrives dst (load_bytes mem a 64)
    \<and> mailbox s2 = (mailbox s)(dst \<mapsto> [])"
proof -
  define m where "m = decode_message (load_bytes mem a 64)"
  let ?l = "make_message (m_src_pid m) dst (m_type m) (m_data m) (m_len m)"
  have len: "length (load_bytes mem a 64) = 64" by simp
  have snd: "ipc_send (m_src_pid m) dst (m_type m) (Some (m_data m)) (m_len m) s = (r, s1)" "mem1 = mem"
    using send syscall_send [of 20, OF refl a m_def, of dst x s] by (auto simp: split_beta)
  have s1: "ipc_inv s1" "(r, mailbox s1) = (IPC_OK, (mailbox s)(dst \<mapsto> [?l]))"
    using ipc_send_correct [OF inv dst(1) snd(1)] dst(2) by (auto simp: mb_send_def)
  obtain out where rcv: "ipc_recv qid True s1 = ((r', out), s2)"
      "mem2 = (case out of None \<Rightarrow> mem1 | Some m \<Rightarrow> store_bytes mem1 b (encode_message m))"
    using recv syscall_recv [of 21, OF refl b, of qid y mem1 s1] by (cases "ipc_recv qid True s1") auto
  have "r' = IPC_OK" "out = Some ?l" "mailbox s2 = (mailbox s)(dst \<mapsto> [])"
    using ipc_recv_correct [OF s1(1) qid rcv(1)] s1(2) by (simp_all add: mb_recv_def)
  moreover have "length (encode_message ?l) = 64" by (simp add: length_encode_message make_message_ok)
  moreover have "length (m_data m) = 48" by (simp add: m_def decode_message_def)
  then have "encode_message ?l = arrives dst (load_bytes mem a 64)"
    using make_message_letter [of "m_len m" "m_data m"] arrives_letter [OF len m_def] by simp
  ultimately show ?thesis using rcv s1 load_store_bytes [of "encode_message ?l" mem1 b] by simp
qed

theorem ipc_syscall_roundtrip_witness:
  "\<exists>s1 mem2 s2. let mem = store_bytes (\<lambda>_. 0) 4096 ([1, 0, 0, 0, 9, 9, 9, 9, 7, 0, 0, 0, 2, 0, 0, 0, 65, 66, 67] @ replicate 45 1) in
     ipc_syscall 21 0 8192 0 mem s1 = (IPC_OK, mem2, s2)
     \<and> load_bytes mem2 8192 64 = [1, 0, 0, 0, 5, 0, 0, 0, 7, 0, 0, 0, 2, 0, 0, 0, 65, 66] @ replicate 46 0"
proof -
  let ?b = "[1, 0, 0, 0, 9, 9, 9, 9, 7, 0, 0, 0, 2, 0, 0, 0, 65, 66, 67] @ replicate 45 (1 :: u8)"
  let ?mem = "store_bytes (\<lambda>_. 0) 4096 ?b"
  have ld: "load_bytes ?mem 4096 64 = ?b" using load_store_bytes [of ?b "\<lambda>_. 0" 4096] by simp
  have arr: "arrives 5 ?b = [1, 0, 0, 0, 5, 0, 0, 0, 7, 0, 0, 0, 2, 0, 0, 0, 65, 66] @ replicate 46 0" by code_simp
  define m where "m = decode_message (load_bytes ?mem 4096 64)"
  obtain r s1 where c: "ipc_syscall 20 5 4096 0 ?mem ipc_init = (r, ?mem, s1)"
      "s1 = snd (ipc_send (m_src_pid m) 5 (m_type m) (Some (m_data m)) (m_len m) ipc_init)"
    using syscall_send [of 20 4096 m ?mem 5 0 ipc_init, OF refl _ m_def] by (auto simp: split_beta Let_def)
  obtain r' mem2 s2 where rv: "ipc_syscall 21 0 8192 0 ?mem s1 = (r', mem2, s2)" by (cases "ipc_syscall 21 0 8192 0 ?mem s1")
  have "r' = IPC_OK \<and> load_bytes mem2 8192 64 = arrives 5 (load_bytes ?mem 4096 64)"
    using ipc_syscall_roundtrip [OF ipc_init_inv _ _ _ _ c(1) _ rv] c(2) init_send_owns [of 5] by (auto simp: mailbox_init)
  then show ?thesis using rv unfolding ld arr Let_def by blast
qed

text \<open>
  Property: no operation ever frees a channel slot: \<open>ipc_channel_close\<close> only marks the channel
  closed and keeps its owner, and \<open>ipc_channel_create\<close> looks for a slot with no owner. So the set of
  used slots only grows, and once eight channels (or sockets) have been created, every further creation
  fails with \<open>IPC_ERR_NOSLOT\<close>, however many have been closed since.
\<close>

theorem ipc_channel_slots_leak:
  assumes "ipc_inv s" "ipc_step\<^sup>*\<^sup>* s s'" "chan_used s = {..<IPC_MAX_CHANNELS}" "owner \<noteq> 0"
  shows "ipc_channel_create owner peer s' = (IPC_ERR_NOSLOT, s')"
proof -
  have "ipc_inv s'" and used: "chan_used s \<subseteq> chan_used s'"
    using assms(2,1) by (induction rule: rtranclp_induct) (auto intro: ipc_step_inv dest: ipc_step_used)
  then have "length (g_channels s') = 8" by (simp add: ipc_inv_def tables_ok_def)
  then have "find_slot (\<lambda>c. ch_owner_pid c = 0) (g_channels s') = None"
    using used assms(3) by (force simp: find_slot_None_iff chan_used_def in_set_conv_nth)
  then show ?thesis using assms(4) by (simp add: ipc_channel_create_def)
qed

definition full_channels :: ipc_state where
  "full_channels = ipc_init\<lparr>g_channels := replicate IPC_MAX_CHANNELS (zero_channel\<lparr>ch_owner_pid := 1, ch_peer_pid := 2\<rparr>)\<rparr>"

theorem ipc_channel_slots_leak_witness:
  "fst (ipc_channel_create 1 2 (ipc_channel_close 4 (ipc_channel_close 3 full_channels))) = IPC_ERR_NOSLOT"
proof -
  have inv: "ipc_inv full_channels"
    using ipc_init_inv
    by (simp add: full_channels_def ipc_inv_def tables_ok_def queue_owners_def list_all_iff)
  have "chan_used full_channels = {..<8}" by (auto simp: chan_used_def full_channels_def)
  moreover have "ipc_step\<^sup>*\<^sup>* full_channels (ipc_channel_close 4 (ipc_channel_close 3 full_channels))"
    by (rule rtranclp.rtrancl_into_rtrancl [OF r_into_rtranclp]) (rule ipc_step.chan_close)+
  ultimately show ?thesis using ipc_channel_slots_leak [OF inv] by simp
qed

end
