(* ===== verification/Cli_Commands.thy ===== *)
theory Cli_Commands
  imports Cli_Exec Ipc Bcache "HOL-Library.Sublist"
begin

text \<open>
  Built-in commands of the shell (\<open>kernel/shell/cli.c\<close>): the command table, the text commands, the file
  commands over the kernel's file layer, the volume commands and the local-socket commands. A command
  that does not return, because a FAT chain is circular, or that stores behind a buffer, gives \<open>None\<close>.
\<close>

section \<open>The table\<close>

definition BUILTIN_COMMANDS :: "(cstring \<times> u32) list" where
  "BUILTIN_COMMANDS =
     [(''help'', CLI_PRIV_USER), (''clear'', CLI_PRIV_USER), (''info'', CLI_PRIV_USER), (''exit'', CLI_PRIV_USER),
      (''whoami'', CLI_PRIV_USER), (''ver'', CLI_PRIV_USER), (''ps'', CLI_PRIV_USER), (''echo'', CLI_PRIV_USER),
      (''shutdown'', CLI_PRIV_ROOT), (''restart'', CLI_PRIV_ROOT), (''ai'', CLI_PRIV_ADMIN), (''policy'', CLI_PRIV_ROOT),
      (''login'', CLI_PRIV_USER), (''su'', CLI_PRIV_USER), (''logout'', CLI_PRIV_USER), (''users'', CLI_PRIV_ADMIN),
      (''test'', CLI_PRIV_ROOT), (''auditlog'', CLI_PRIV_ADMIN), (''log'', CLI_PRIV_ADMIN), (''ls'', CLI_PRIV_USER),
      (''cat'', CLI_PRIV_USER), (''write'', CLI_PRIV_USER), (''append'', CLI_PRIV_USER), (''rm'', CLI_PRIV_ADMIN),
      (''mkdir'', CLI_PRIV_USER), (''exec'', CLI_PRIV_USER), (''date'', CLI_PRIV_USER), (''uptime'', CLI_PRIV_USER),
      (''lspci'', CLI_PRIV_USER), (''ahci'', CLI_PRIV_USER), (''nvme'', CLI_PRIV_USER), (''ping'', CLI_PRIV_USER),
      (''kill'', CLI_PRIV_USER), (''grep'', CLI_PRIV_USER), (''wc'', CLI_PRIV_USER), (''usockbind'', CLI_PRIV_ADMIN),
      (''usocksend'', CLI_PRIV_USER), (''usockrecv'', CLI_PRIV_USER), (''usockclose'', CLI_PRIV_ADMIN),
      (''dlopen'', CLI_PRIV_ADMIN), (''dlsym'', CLI_PRIV_USER), (''dlcall'', CLI_PRIV_USER), (''dlclose'', CLI_PRIV_ADMIN),
      (''dllist'', CLI_PRIV_USER), (''chmod'', CLI_PRIV_USER), (''chown'', CLI_PRIV_ROOT), (''sync'', CLI_PRIV_USER),
      (''tcphandshake'', CLI_PRIV_USER), (''tcpaccept'', CLI_PRIV_USER), (''fatmount'', CLI_PRIV_USER), (''fatls'', CLI_PRIV_USER),
      (''fatcat'', CLI_PRIV_USER), (''ext2mount'', CLI_PRIV_USER), (''ext2ls'', CLI_PRIV_USER), (''ext2cat'', CLI_PRIV_USER),
      (''tcpstat'', CLI_PRIV_USER), (''tcpsend'', CLI_PRIV_USER), (''tcprecv'', CLI_PRIV_USER), (''tcpclose'', CLI_PRIV_USER),
      (''winmove'', CLI_PRIV_USER), (''udpbind'', CLI_PRIV_USER), (''udpsend'', CLI_PRIV_USER), (''udprecv'', CLI_PRIV_USER),
      (''udpclose'', CLI_PRIV_USER), (''dhcp'', CLI_PRIV_USER), (''nslookup'', CLI_PRIV_USER), (''perf'', CLI_PRIV_USER),
      (''console'', CLI_PRIV_USER), (''slots'', CLI_PRIV_USER)]"

text \<open>The table with its handlers; \<open>impl\<close> gives the handler of a name.\<close>

definition builtin_table :: "(cstring \<Rightarrow> ('e, 'k) handler) \<Rightarrow> ('e, 'k) CliBuiltinCommand list" where
  "builtin_table impl = map (\<lambda>(name, priv). \<lparr>bc_name = name, bc_handler = impl name, bc_min_privilege = priv\<rparr>) BUILTIN_COMMANDS"

section \<open>State\<close>

record 'd os =
  os_kfs :: "'d kfs"
  os_ipc :: ipc_state

text \<open>
  What the commands take from below: the disk, the values of the pseudo files, and what a local array of
  \<open>n\<close> bytes holds before it is written.
\<close>

record 'd machine =
  mc_ops :: "'d disk_ops"
  mc_env :: kenv
  mc_stack :: "nat \<Rightarrow> bytes"

abbreviation NL :: cstring where "NL \<equiv> [CHR 0x0A]"

abbreviation str_arg :: "cstring \<Rightarrow> printf_arg" where "str_arg s \<equiv> StrArg (Some s)"

definition with_kfs :: "('e, 'd os) shell_state \<Rightarrow> 'd kfs \<Rightarrow> ('e, 'd os) shell_state" where
  "with_kfs w k = w\<lparr>sh_kernel := (sh_kernel w)\<lparr>os_kfs := k\<rparr>\<rparr>"

definition with_ipc :: "('e, 'd os) shell_state \<Rightarrow> ipc_state \<Rightarrow> ('e, 'd os) shell_state" where
  "with_ipc w i = w\<lparr>sh_kernel := (sh_kernel w)\<lparr>os_ipc := i\<rparr>\<rparr>"

definition text_of :: "bytes \<Rightarrow> cstring" where
  "text_of b = map char_of_byte b"

section \<open>Text commands\<close>

definition cli_cmd_whoami :: "('e, 'k) handler" where
  "cli_cmd_whoami session cmd w =
     (let role = (if cs_privilege session = CLI_PRIV_ADMIN then ''admin'' else if cs_privilege session = CLI_PRIV_USER then ''user'' else ''root'')
      in Some (CLI_OK, session, say (''%s (privilege: %s)'' @ NL) [str_arg (cs_username session), str_arg role] w))"

definition print_pipe_input :: "('e, 'k) shell_state \<Rightarrow> ('e, 'k) shell_state" where
  "print_pipe_input w =
     (let w1 = say ''%s'' [str_arg (pipe_in (sh_con w))] w
      in if pipe_in (sh_con w) = [] \<or> last (pipe_in (sh_con w)) \<noteq> CHR 0x0A then say NL [] w1 else w1)"

fun echo_loop :: "bool \<Rightarrow> cstring list \<Rightarrow> ('e, 'k) shell_state \<Rightarrow> ('e, 'k) shell_state" where
  "echo_loop first [] w = w"
| "echo_loop first (a # as) w =
     echo_loop False as (say ''%s'' [str_arg a] (if first then w else w\<lparr>sh_con := cli_putchar (CHR '' '') (sh_con w)\<rparr>))"

definition cli_cmd_echo :: "('e, 'k) handler" where
  "cli_cmd_echo session cmd w =
     (if length (argv cmd) = 1 \<and> cli_pipe_has_input (sh_con w) then Some (CLI_OK, session, print_pipe_input w)
      else Some (CLI_OK, session, say NL [] (echo_loop True (tl (argv cmd)) w)))"

definition cli_read_text_source ::
  "'d machine \<Rightarrow> ParsedCommand \<Rightarrow> nat \<Rightarrow> nat \<Rightarrow> cstring \<Rightarrow> ('e, 'd os) shell_state \<Rightarrow> (bytes option \<times> ('e, 'd os) shell_state) option" where
  "cli_read_text_source m cmd arg_index mx usage w =
     (if length (argv cmd) > arg_index then
        (case kfs_read_file (mc_ops m) (mc_env m) (Some (argv cmd ! arg_index)) (mc_stack m mx) (mx - 1) (os_kfs (sh_kernel w)) of
           None \<Rightarrow> None
         | Some ((n, buf), k) \<Rightarrow>
             if n < 0 then Some (None, say (''%s: %s: not found'' @ NL) [str_arg (hd (argv cmd)), str_arg (argv cmd ! arg_index)] (with_kfs w k))
             else Some (Some (take (nat n) buf), with_kfs w k))
      else if cli_pipe_has_input (sh_con w) then
        (case cli_pipe_copy_input (mx - 1) (sh_con w) of
           None \<Rightarrow> Some (None, w)
         | Some s \<Rightarrow> Some (Some (map byte_of s), w))
      else Some (None, say (''Usage: %s'' @ NL) [str_arg usage] w))"

text \<open>\<open>line\<close> is the filled part of the line buffer of 512 bytes.\<close>

fun grep_loop :: "cstring \<Rightarrow> cstring \<Rightarrow> nat \<Rightarrow> cstring \<Rightarrow> ('e, 'k) shell_state \<Rightarrow> nat \<times> ('e, 'k) shell_state" where
  "grep_loop pattern line matches [] w = (matches, w)"
| "grep_loop pattern line matches (c # cs) w =
     (if c = CHR 0x0D then grep_loop pattern line matches cs w
      else if c = CHR 0x0A \<or> length line \<ge> 512 - 1 then
        (if cli_str_contains (Some line) (Some pattern)
         then grep_loop pattern [] (matches + 1) cs (say (''%s'' @ NL) [str_arg line] w)
         else grep_loop pattern [] matches cs w)
      else grep_loop pattern (line @ [c]) matches cs w)"

definition cli_cmd_grep :: "'d machine \<Rightarrow> ('e, 'd os) handler" where
  "cli_cmd_grep m session cmd w =
     (if length (argv cmd) < 2 then Some (1, session, say (''Usage: grep <pattern> [path]'' @ NL) [] w)
      else case cli_read_text_source m cmd 2 4096 ''grep <pattern> [path]'' w of
        None \<Rightarrow> None
      | Some (None, w1) \<Rightarrow> Some (1, session, w1)
      | Some (Some buf, w1) \<Rightarrow>
          (case grep_loop (argv cmd ! 1) [] 0 (text_of buf @ NL) w1 of
             (matches, w2) \<Rightarrow> Some (if matches > 0 then CLI_OK else 1, session, w2)))"

definition wc_space :: "char \<Rightarrow> bool" where
  "wc_space c \<longleftrightarrow> c = CHR '' '' \<or> c = CHR 0x09 \<or> c = CHR 0x0A \<or> c = CHR 0x0D"

fun wc_loop :: "nat \<Rightarrow> nat \<Rightarrow> bool \<Rightarrow> cstring \<Rightarrow> nat \<times> nat" where
  "wc_loop lines words in_word [] = (lines, words)"
| "wc_loop lines words in_word (c # cs) =
     (let lines' = (if c = CHR 0x0A then lines + 1 else lines) in
      if wc_space c then wc_loop lines' words False cs
      else if \<not> in_word then wc_loop lines' (words + 1) True cs
      else wc_loop lines' words in_word cs)"

definition cli_cmd_wc :: "'d machine \<Rightarrow> ('e, 'd os) handler" where
  "cli_cmd_wc m session cmd w =
     (case cli_read_text_source m cmd 1 4096 ''wc [path]'' w of
        None \<Rightarrow> None
      | Some (None, w1) \<Rightarrow> Some (1, session, w1)
      | Some (Some buf, w1) \<Rightarrow>
          (case wc_loop 0 0 False (text_of buf) of
             (lines, words) \<Rightarrow> Some (CLI_OK, session, say (''%d %d %d'' @ NL)
               [IntArg (of_nat lines), IntArg (of_nat words), IntArg (of_nat (length buf))] w1)))"

section \<open>File commands\<close>

text \<open>\<open>cli_join_args\<close>, from argument \<open>start\<close> on, in a buffer of \<open>mx\<close> characters.\<close>

fun join_args_loop :: "nat \<Rightarrow> bool \<Rightarrow> cstring list \<Rightarrow> cstring \<Rightarrow> cstring" where
  "join_args_loop mx first [] acc = acc"
| "join_args_loop mx first (a # as) acc =
     (if length acc < mx - 1 then
        let acc1 = (if \<not> first \<and> length acc < mx - 1 then acc @ '' '' else acc)
        in join_args_loop mx False as (acc1 @ take (mx - 1 - length acc1) a)
      else acc)"

definition cli_join_args :: "ParsedCommand \<Rightarrow> nat \<Rightarrow> nat \<Rightarrow> cstring" where
  "cli_join_args cmd start mx = join_args_loop mx True (drop start (argv cmd)) []"

definition uid16 :: "CliSession \<Rightarrow> u16" where
  "uid16 s = ucast (cs_uid s)"

fun base_name :: "cstring \<Rightarrow> cstring \<Rightarrow> cstring" where
  "base_name nm [] = nm"
| "base_name nm (c # cs) = base_name (if c = CHR ''/'' then cs else nm) cs"

definition perm_text :: "VfsFileEntry \<Rightarrow> cstring" where
  "perm_text e = (let m = fe_mode e; flag = (\<lambda>mk ch. if m AND mk \<noteq> 0 then ch else CHR ''-'')
     in [if fe_type e = VFS_TYPE_DIRECTORY then CHR ''d'' else CHR ''-'',
         flag 256 (CHR ''r''), flag 128 (CHR ''w''), flag 64 (CHR ''x''),
         flag 32 (CHR ''r''), flag 16 (CHR ''w''), flag 8 (CHR ''x''),
         flag 4 (CHR ''r''), flag 2 (CHR ''w''), flag 1 (CHR ''x'')])"

definition ls_entry :: "bool \<Rightarrow> cstring \<Rightarrow> VfsFileEntry option \<Rightarrow> ('e, 'k) shell_state \<Rightarrow> ('e, 'k) shell_state" where
  "ls_entry long_fmt path e w =
     (let nm = base_name path path in
      case e of
        None \<Rightarrow> w
      | Some e \<Rightarrow>
          if long_fmt then say (''  %s %3u %3u %6u %s'' @ NL)
            [str_arg (perm_text e), IntArg (ucast (fe_uid e)), IntArg (ucast (fe_gid e)), IntArg (fe_size e), str_arg nm] w
          else if fe_type e = VFS_TYPE_DIRECTORY then say (''  [dir] %s'' @ NL) [str_arg nm] w
          else say (''  [file] %-20s %u B'' @ NL) [str_arg nm, IntArg (fe_size e)] w)"

fun ls_loop :: "'d machine \<Rightarrow> bool \<Rightarrow> cstring list \<Rightarrow> ('e, 'd os) shell_state \<Rightarrow> ('e, 'd os) shell_state option" where
  "ls_loop m long_fmt [] w = Some w"
| "ls_loop m long_fmt (path # paths) w =
     (case kfs_find_file (mc_ops m) path (os_kfs (sh_kernel w)) of
        None \<Rightarrow> None
      | Some (e, k) \<Rightarrow> ls_loop m long_fmt paths (ls_entry long_fmt path e (with_kfs w k)))"

definition ls_path :: "cstring list \<Rightarrow> cstring" where
  "ls_path as = fold (\<lambda>a path. if cli_streq a ''-l'' then path else a) as ''/''"

definition cli_cmd_ls :: "'d machine \<Rightarrow> ('e, 'd os) handler" where
  "cli_cmd_ls m session cmd w =
     (let long_fmt = list_ex (\<lambda>a. cli_streq a ''-l'') (tl (argv cmd)); path = ls_path (tl (argv cmd)) in
      case kfs_list_dir (mc_ops m) (Some path) (int VFS_MAX_FILES) (os_kfs (sh_kernel w)) of
        None \<Rightarrow> None
      | Some ((count, entries), k) \<Rightarrow>
          if count < 0 then Some (1, session, say (''ls: VernisFS not ready'' @ NL) [] (with_kfs w k))
          else case ls_loop m long_fmt entries (say (''%s'' @ NL) [str_arg path] (with_kfs w k)) of
            None \<Rightarrow> None
          | Some w1 \<Rightarrow> Some (CLI_OK, session, if count = 0 then say (''  (empty)'' @ NL) [] w1 else w1))"

definition cli_cmd_cat :: "'d machine \<Rightarrow> ('e, 'd os) handler" where
  "cli_cmd_cat m session cmd w =
     (if length (argv cmd) < 2 \<and> \<not> cli_pipe_has_input (sh_con w) then Some (1, session, say (''Usage: cat <path>'' @ NL) [] w)
      else if length (argv cmd) < 2 then Some (CLI_OK, session, print_pipe_input w)
      else let path = argv cmd ! 1 in
        case kfs_check_perm (mc_ops m) (Some path) (uid16 session) (CHR ''r'') (os_kfs (sh_kernel w)) of
          None \<Rightarrow> None
        | Some (perm, k) \<Rightarrow>
            if perm < 0 then Some (1, session, say (''cat: %s: permission denied'' @ NL) [str_arg path] (with_kfs w k))
            else case kfs_read_file (mc_ops m) (mc_env m) (Some path) (mc_stack m 512) (512 - 1) k of
              None \<Rightarrow> None
            | Some ((n, buf), k1) \<Rightarrow>
                if n < 0 then Some (1, session, say (''cat: %s: not found'' @ NL) [str_arg path] (with_kfs w k1))
                else Some (CLI_OK, session, say (''%s'' @ NL) [str_arg (text_of (take (nat n) buf))] (with_kfs w k1)))"

text \<open>
  The permission check that \<open>write\<close> and \<open>append\<close> share: \<open>Inl\<close> is the end of the command.
\<close>

definition check_writable :: "'d machine \<Rightarrow> cstring \<Rightarrow> CliSession \<Rightarrow> cstring \<Rightarrow> ('e, 'd os) shell_state
    \<Rightarrow> ('e, 'd os) cli_result + ('e, 'd os) shell_state" where
  "check_writable m verb session path w =
     (case kfs_find_file (mc_ops m) path (os_kfs (sh_kernel w)) of
        None \<Rightarrow> Inl None
      | Some (None, k) \<Rightarrow> Inr (with_kfs w k)
      | Some (Some e, k) \<Rightarrow>
          (case kfs_check_perm (mc_ops m) (Some path) (uid16 session) (CHR ''w'') k of
             None \<Rightarrow> Inl None
           | Some (perm, k1) \<Rightarrow>
               if perm < 0 then Inl (Some (1, session, say (verb @ '': %s: permission denied'' @ NL) [str_arg path] (with_kfs w k1)))
               else Inr (with_kfs w k1)))"

definition content_of :: "ParsedCommand \<Rightarrow> ('e, 'k) shell_state \<Rightarrow> bytes option" where
  "content_of cmd w =
     (if length (argv cmd) = 2 \<and> cli_pipe_has_input (sh_con w) then Some (map byte_of (pipe_in (sh_con w)))
      else if length (argv cmd) < 3 then None
      else Some (map byte_of (cli_join_args cmd 2 256)))"

definition cli_cmd_write :: "'d machine \<Rightarrow> ('e, 'd os) handler" where
  "cli_cmd_write m session cmd w =
     (let usage = ''Usage: write <path> <content...>'' @ NL in
      if length (argv cmd) < 2 then Some (1, session, say usage [] w)
      else case check_writable m ''write'' session (argv cmd ! 1) w of
        Inl result \<Rightarrow> result
      | Inr w1 \<Rightarrow>
          (case content_of cmd w1 of
             None \<Rightarrow> Some (1, session, say usage [] w1)
           | Some data \<Rightarrow>
               (case kfs_write_file (mc_ops m) (Some (argv cmd ! 1)) data (length data) (os_kfs (sh_kernel w1)) of
                  (n, k) \<Rightarrow>
                    if n < 0 then Some (1, session, say (''write: failed'' @ NL) [] (with_kfs w1 k))
                    else Some (CLI_OK, session, say (''Wrote %d bytes -> %s'' @ NL) [IntArg (of_int n), str_arg (argv cmd ! 1)] (with_kfs w1 k)))))"

definition cli_cmd_append :: "'d machine \<Rightarrow> bytes \<Rightarrow> ('e, 'd os) handler" where
  "cli_cmd_append m tmp session cmd w =
     (let usage = ''Usage: append <path> <content...>'' @ NL in
      if length (argv cmd) < 2 then Some (1, session, say usage [] w)
      else case check_writable m ''append'' session (argv cmd ! 1) w of
        Inl result \<Rightarrow> result
      | Inr w1 \<Rightarrow>
          (case content_of cmd w1 of
             None \<Rightarrow> Some (1, session, say usage [] w1)
           | Some data \<Rightarrow>
               (case kfs_append_file (mc_ops m) tmp (Some (argv cmd ! 1)) data (length data) (os_kfs (sh_kernel w1)) of
                  (None, k) \<Rightarrow> None
                | (Some n, k) \<Rightarrow>
                    if n < 0 then Some (1, session, say (''append: failed'' @ NL) [] (with_kfs w1 k))
                    else Some (CLI_OK, session, say (''File %s now %d bytes'' @ NL) [str_arg (argv cmd ! 1), IntArg (of_int n)] (with_kfs w1 k)))))"

definition cli_cmd_rm :: "'d machine \<Rightarrow> ('e, 'd os) handler" where
  "cli_cmd_rm m session cmd w =
     (if length (argv cmd) < 2 then Some (1, session, say (''Usage: rm <path>'' @ NL) [] w)
      else let path = argv cmd ! 1 in
        case kfs_check_perm (mc_ops m) (Some path) (uid16 session) (CHR ''w'') (os_kfs (sh_kernel w)) of
          None \<Rightarrow> None
        | Some (perm, k) \<Rightarrow>
            if perm < 0 then Some (1, session, say (''rm: %s: permission denied'' @ NL) [str_arg path] (with_kfs w k))
            else (case kfs_delete_file (mc_ops m) path k of
                (rc, k1) \<Rightarrow>
                  if rc < 0 then Some (1, session, say (''rm: %s: not found'' @ NL) [str_arg path] (with_kfs w k1))
                  else Some (CLI_OK, session, say (''Removed %s'' @ NL) [str_arg path] (with_kfs w k1))))"

definition cli_cmd_mkdir :: "'d machine \<Rightarrow> ('e, 'd os) handler" where
  "cli_cmd_mkdir m session cmd w =
     (if length (argv cmd) < 2 then Some (1, session, say (''Usage: mkdir <path>'' @ NL) [] w)
      else case kfs_mkdir (mc_ops m) (argv cmd ! 1) (os_kfs (sh_kernel w)) of
        (rc, k) \<Rightarrow>
          if rc < 0 then Some (1, session, say (''mkdir: failed (full or already exists)'' @ NL) [] (with_kfs w k))
          else Some (CLI_OK, session, say (''Created %s'' @ NL) [str_arg (argv cmd ! 1)] (with_kfs w k)))"

definition cli_cmd_chmod :: "'d machine \<Rightarrow> ('e, 'd os) handler" where
  "cli_cmd_chmod m session cmd w =
     (if length (argv cmd) < 3 then
        Some (1, session, say (''  e.g. chmod 755 /bin/hello64'' @ NL) [] (say (''Usage: chmod <mode> <path>'' @ NL) [] w))
      else let path = argv cmd ! 2 in
        case kfs_find_file (mc_ops m) path (os_kfs (sh_kernel w)) of
          None \<Rightarrow> None
        | Some (None, k) \<Rightarrow> Some (1, session, say (''chmod: %s: not found'' @ NL) [str_arg path] (with_kfs w k))
        | Some (Some e, k) \<Rightarrow>
            if cs_uid session \<noteq> 0 \<and> cs_uid session \<noteq> ucast (fe_uid e) then
              Some (1, session, say (''chmod: permission denied'' @ NL) [] (with_kfs w k))
            else let mode = cli_parse_octal (cstr (argv cmd ! 1)) in
              if mode > 511 then Some (1, session, say (''chmod: invalid mode'' @ NL) [] (with_kfs w k))
              else (case kfs_chmod (mc_ops m) (Some path) mode k of
                  (rc, k1) \<Rightarrow>
                    if rc < 0 then Some (1, session, say (''chmod: failed'' @ NL) [] (with_kfs w k1))
                    else Some (CLI_OK, session, say (''Mode of %s set to %c%c%c'' @ NL)
                      [str_arg path, IntArg (48 + ucast (drop_bit 6 mode AND 7)), IntArg (48 + ucast (drop_bit 3 mode AND 7)),
                       IntArg (48 + ucast (mode AND 7))] (with_kfs w k1))))"

fun digits16 :: "u16 \<Rightarrow> cstring \<Rightarrow> u16 \<times> cstring" where
  "digits16 v [] = (v, [])"
| "digits16 v (c # cs) = (if is_digit c then digits16 (v * 10 + (of_nat (of_char c) - 48)) cs else (v, c # cs))"

definition parse_owner :: "cstring \<Rightarrow> u16 \<Rightarrow> u16 \<times> u16" where
  "parse_owner s gid =
     (case digits16 0 s of (uid, rest) \<Rightarrow>
        (case rest of
           [] \<Rightarrow> (uid, gid)
         | c # cs \<Rightarrow> if c = CHR '':'' then (uid, fst (digits16 0 cs)) else (uid, gid)))"

definition cli_cmd_chown :: "'d machine \<Rightarrow> ('e, 'd os) handler" where
  "cli_cmd_chown m session cmd w =
     (if length (argv cmd) < 3 then Some (1, session, say (''Usage: chown <uid>[:<gid>] <path>'' @ NL) [] w)
      else if cs_uid session \<noteq> 0 then Some (1, session, say (''chown: permission denied (root only)'' @ NL) [] w)
      else let path = argv cmd ! 2 in
        case kfs_find_file (mc_ops m) path (os_kfs (sh_kernel w)) of
          None \<Rightarrow> None
        | Some (None, k) \<Rightarrow> Some (1, session, say (''chown: %s: not found'' @ NL) [str_arg path] (with_kfs w k))
        | Some (Some e, k) \<Rightarrow>
            (case parse_owner (cstr (argv cmd ! 1)) (fe_gid e) of (uid, gid) \<Rightarrow>
               (case kfs_chown (mc_ops m) (Some path) uid gid k of
                  (rc, k1) \<Rightarrow>
                    if rc < 0 then Some (1, session, say (''chown: failed'' @ NL) [] (with_kfs w k1))
                    else Some (CLI_OK, session, say (''Owner of %s set to %u:%u'' @ NL)
                      [str_arg path, IntArg (ucast uid), IntArg (ucast gid)] (with_kfs w k1)))))"

text \<open>The block cache is the disk of the file layer.\<close>

definition cli_cmd_sync :: "'d disk_ops \<Rightarrow> ('e, ('d bcache) os) handler" where
  "cli_cmd_sync disk session cmd w =
     (let k = os_kfs (sh_kernel w); before = bcache_get_stats (vfs_disk (k_vfs k)) in
      case bcache_sync disk (vfs_disk (k_vfs k)) of
        (rc, c) \<Rightarrow>
          let w1 = with_kfs w (k\<lparr>k_vfs := (k_vfs k)\<lparr>vfs_disk := c\<rparr>\<rparr>); after = bcache_get_stats c in
          if rc < 0 then Some (1, session, say (''sync: error flushing cache'' @ NL) [] w1)
          else Some (CLI_OK, session, say (''  cache stats: hits=%u misses=%u writebacks=%u evictions=%u'' @ NL)
            [IntArg (hits after), IntArg (misses after), IntArg (writebacks after), IntArg (evictions after)]
            (say (''sync: %u blocks written back'' @ NL) [IntArg (writebacks after - writebacks before)] w1)))"

section \<open>Volumes\<close>

definition volume_lba :: "u32 \<Rightarrow> ParsedCommand \<Rightarrow> u32" where
  "volume_lba lba0 cmd = (if length (argv cmd) \<ge> 2 then of_int (simple_atoi (cstr (argv cmd ! 1))) else lba0)"

definition path_or_root :: "ParsedCommand \<Rightarrow> cstring" where
  "path_or_root cmd = (if length (argv cmd) \<ge> 2 then argv cmd ! 1 else ''/'')"

definition cli_cmd_fatmount :: "'d machine \<Rightarrow> ('e, 'd os) handler" where
  "cli_cmd_fatmount m session cmd w =
     (let lba = volume_lba 8192 cmd in
      case on_fat (\<lambda>g. Some (fat32_mount (mc_ops m) lba g)) (os_kfs (sh_kernel w)) of
        None \<Rightarrow> None
      | Some (rc, k) \<Rightarrow>
          if rc < 0 then Some (1, session, say (''fatmount: no FAT32 volume at sector %u'' @ NL) [IntArg lba] (with_kfs w k))
          else Some (0, session, say (''FAT32 volume mounted (sector %u)'' @ NL) [IntArg lba] (with_kfs w k)))"

definition print_dir_entry :: "list_cb \<Rightarrow> ('e, 'k) shell_state \<Rightarrow> ('e, 'k) shell_state" where
  "print_dir_entry call w = (case call of (name, sz, is_dir) \<Rightarrow>
     if is_dir then say (''  %s/'' @ NL) [str_arg name] w else say (''  %s  %u bytes'' @ NL) [str_arg name, IntArg sz] w)"

definition cli_cmd_fatls :: "'d machine \<Rightarrow> ('e, 'd os) handler" where
  "cli_cmd_fatls m session cmd w =
     (let path = path_or_root cmd in
      if \<not> fat32_mounted (k_fat (os_kfs (sh_kernel w))) then Some (1, session, say (''fatls: not mounted (run fatmount)'' @ NL) [] w)
      else case on_fat (fat32_list (mc_ops m) path) (os_kfs (sh_kernel w)) of
        None \<Rightarrow> None
      | Some ((n, calls), k) \<Rightarrow>
          let w1 = fold print_dir_entry calls (with_kfs w k) in
          if n < 0 then Some (1, session, say (''fatls: no such directory: %s'' @ NL) [str_arg path] w1)
          else Some (0, session, say (''%d entries'' @ NL) [IntArg (of_int n)] w1))"

definition print_file :: "int \<Rightarrow> bytes \<Rightarrow> ('e, 'k) shell_state \<Rightarrow> ('e, 'k) shell_state" where
  "print_file n buf w =
     (let w1 = say ''%s'' [str_arg (text_of (take (nat n) buf))] w
      in if n > 0 \<and> buf ! (nat n - 1) \<noteq> 10 then say NL [] w1 else w1)"

text \<open>\<open>buf\<close> is the static buffer of the command, 4096 bytes.\<close>

definition cli_cmd_fatcat :: "'d machine \<Rightarrow> bytes \<Rightarrow> ('e, 'd os) handler" where
  "cli_cmd_fatcat m buf session cmd w =
     (if length (argv cmd) < 2 then Some (1, session, say (''Usage: fatcat <path>'' @ NL) [] w)
      else if \<not> fat32_mounted (k_fat (os_kfs (sh_kernel w))) then Some (1, session, say (''fatcat: not mounted (run fatmount)'' @ NL) [] w)
      else case on_fat (fat32_read (mc_ops m) (argv cmd ! 1) buf 4095) (os_kfs (sh_kernel w)) of
        None \<Rightarrow> None
      | Some ((n, buf1), k) \<Rightarrow>
          if n < 0 then Some (1, session, say (''fatcat: no such file: %s'' @ NL) [str_arg (argv cmd ! 1)] (with_kfs w k))
          else Some (0, session, print_file n buf1 (with_kfs w k)))"

definition cli_cmd_ext2mount :: "'d machine \<Rightarrow> ('e, 'd os) handler" where
  "cli_cmd_ext2mount m session cmd w =
     (let lba = volume_lba 81920 cmd in
      case on_ext2 (ext2_mount (mc_ops m) lba) (os_kfs (sh_kernel w)) of
        (rc, k) \<Rightarrow>
          if rc < 0 then Some (1, session, say (''ext2mount: no ext2 volume at sector %u'' @ NL) [IntArg lba] (with_kfs w k))
          else Some (0, session, say (''ext2 volume mounted (sector %u)'' @ NL) [IntArg lba] (with_kfs w k)))"

definition cli_cmd_ext2ls :: "'d machine \<Rightarrow> ('e, 'd os) handler" where
  "cli_cmd_ext2ls m session cmd w =
     (let path = path_or_root cmd in
      if \<not> ext2_mounted (k_ext2 (os_kfs (sh_kernel w))) then Some (1, session, say (''ext2ls: not mounted (run ext2mount)'' @ NL) [] w)
      else case on_ext2 (ext2_list (mc_ops m) path) (os_kfs (sh_kernel w)) of
        ((n, calls), k) \<Rightarrow>
          let w1 = fold print_dir_entry calls (with_kfs w k) in
          if n < 0 then Some (1, session, say (''ext2ls: no such directory: %s'' @ NL) [str_arg path] w1)
          else Some (0, session, say (''%d entries'' @ NL) [IntArg (of_int n)] w1))"

definition cli_cmd_ext2cat :: "'d machine \<Rightarrow> bytes \<Rightarrow> ('e, 'd os) handler" where
  "cli_cmd_ext2cat m buf session cmd w =
     (if length (argv cmd) < 2 then Some (1, session, say (''Usage: ext2cat <path>'' @ NL) [] w)
      else if \<not> ext2_mounted (k_ext2 (os_kfs (sh_kernel w))) then Some (1, session, say (''ext2cat: not mounted (run ext2mount)'' @ NL) [] w)
      else case on_ext2 (ext2_read (mc_ops m) (argv cmd ! 1) buf 4095) (os_kfs (sh_kernel w)) of
        ((n, buf1), k) \<Rightarrow>
          if n < 0 then Some (1, session, say (''ext2cat: no such file: %s'' @ NL) [str_arg (argv cmd ! 1)] (with_kfs w k))
          else Some (0, session, print_file n buf1 (with_kfs w k)))"

section \<open>Local sockets\<close>

definition cli_session_pid_hint :: "CliSession \<Rightarrow> u32" where
  "cli_session_pid_hint session = (if current_pid session \<noteq> 0 then current_pid session else cs_uid session + 1)"

definition cli_cmd_usockbind :: "('e, 'd os) handler" where
  "cli_cmd_usockbind session cmd w =
     (if length (argv cmd) < 2 then Some (1, session, say (''Usage: usockbind <path> [owner_pid]'' @ NL) [] w)
      else let owner0 = (if length (argv cmd) \<ge> 3 then of_int (simple_atoi (cstr (argv cmd ! 2))) else cli_session_pid_hint session);
               owner = (if owner0 = 0 then 1 else owner0)
        in case ipc_usock_bind (Some (argv cmd ! 1)) owner (os_ipc (sh_kernel w)) of
          (rc, i) \<Rightarrow>
            if rc < 0 then Some (1, session, say (''usockbind: failed (%d)'' @ NL) [IntArg (of_int rc)] (with_ipc w i))
            else Some (CLI_OK, session, say (''unix socket bound: %s (owner=%d)'' @ NL) [str_arg (argv cmd ! 1), IntArg owner] (with_ipc w i)))"

definition cli_cmd_usocksend :: "('e, 'd os) handler" where
  "cli_cmd_usocksend session cmd w =
     (let usage = ''Usage: usocksend <path> <data...>'' @ NL in
      if length (argv cmd) < 2 then Some (1, session, say usage [] w)
      else case (if length (argv cmd) \<ge> 3 then Some (cli_join_args cmd 2 256)
                 else if cli_pipe_has_input (sh_con w) then Some (pipe_in (sh_con w)) else None) of
        None \<Rightarrow> Some (1, session, say usage [] w)
      | Some data \<Rightarrow>
          (case ipc_usock_send (Some (argv cmd ! 1)) (Some (map byte_of data)) (of_nat (length data)) (os_ipc (sh_kernel w)) of
             (rc, i) \<Rightarrow>
               if rc < 0 then Some (1, session, say (''usocksend: failed (%d)'' @ NL) [IntArg (of_int rc)] (with_ipc w i))
               else Some (CLI_OK, session, say (''usocksend: wrote %d bytes to %s'' @ NL) [IntArg (of_int rc), str_arg (argv cmd ! 1)] (with_ipc w i))))"

definition cli_cmd_usockrecv :: "('e, 'd os) handler" where
  "cli_cmd_usockrecv session cmd w =
     (if length (argv cmd) < 2 then Some (1, session, say (''Usage: usockrecv <path> [max_bytes]'' @ NL) [] w)
      else let mx = (if length (argv cmd) \<ge> 3 then
                 let v = simple_atoi (cstr (argv cmd ! 2)); v1 = (if v < 1 then 1 else v) in if v1 > 1024 then 1024 else v1
               else 255)
        in case ipc_usock_recv (Some (argv cmd ! 1)) True (of_int mx) (os_ipc (sh_kernel w)) of
          ((rc, data), i) \<Rightarrow>
            if rc < 0 then Some (1, session, say (''usockrecv: failed (%d)'' @ NL) [IntArg (of_int rc)] (with_ipc w i))
            else if rc = 0 then Some (CLI_OK, session, say (''usockrecv: empty'' @ NL) [] (with_ipc w i))
            else Some (CLI_OK, session, say (''%s'' @ NL) [str_arg (text_of (take (nat rc) data))] (with_ipc w i)))"

definition cli_cmd_usockclose :: "('e, 'd os) handler" where
  "cli_cmd_usockclose session cmd w =
     (if length (argv cmd) < 2 then Some (1, session, say (''Usage: usockclose <path>'' @ NL) [] w)
      else case ipc_usock_close (Some (argv cmd ! 1)) (os_ipc (sh_kernel w)) of
        (rc, i) \<Rightarrow>
          if rc < 0 then Some (1, session, say (''usockclose: failed (%d)'' @ NL) [IntArg (of_int rc)] (with_ipc w i))
          else Some (CLI_OK, session, say (''unix socket closed: %s'' @ NL) [str_arg (argv cmd ! 1)] (with_ipc w i)))"

section \<open>Output of the console\<close>

text \<open>Without capture everything that is written appears on the screen.\<close>

definition on_screen :: "cstring \<Rightarrow> ('e, 'k) shell_state \<Rightarrow> ('e, 'k) shell_state" where
  "on_screen t w = w\<lparr>sh_con := (sh_con w)\<lparr>screen := screen (sh_con w) @ t\<rparr>\<rparr>"

lemma write_chars: "\<not> cap_active c \<Longrightarrow> fold write_char t c = c\<lparr>screen := screen c @ t\<rparr>"
  by (induction t arbitrary: c) (simp_all add: write_char_def)

lemma write_raw_screen: "\<not> cap_active c \<Longrightarrow> cli_write_raw t c = c\<lparr>screen := screen c @ cstr t\<rparr>"
  by (simp add: cli_write_raw_def write_chars)

lemma putchar_screen: "\<not> cap_active c \<Longrightarrow> ch \<noteq> NUL \<Longrightarrow> cli_putchar ch c = c\<lparr>screen := screen c @ [ch]\<rparr>"
  by (simp add: cli_putchar_def write_raw_screen cstr_def)

lemma say_line: "\<not> cap_active (sh_con w) \<Longrightarrow> say (''%s'' @ NL) [str_arg t] w = on_screen (cstr t @ NL) w"
  by (simp add: say_def on_screen_def cli_printf_def cstr_def is_digit_def write_raw_screen putchar_screen)

section \<open>Searching\<close>

text \<open>Lines as \<open>grep\<close> reads them, each with its line feed.\<close>

definition unlines :: "cstring list \<Rightarrow> cstring" where
  "unlines ls = concat (map (\<lambda>l. l @ NL) ls)"

definition grep_line :: "cstring \<Rightarrow> bool" where
  "grep_line l \<longleftrightarrow> length l < 512 \<and> list_all (\<lambda>c. c \<noteq> CHR 0x0A \<and> c \<noteq> CHR 0x0D \<and> c \<noteq> NUL) l"

lemma prefix_of_iff: "prefix_of n h \<longleftrightarrow> prefix n h"
  by (induction n h rule: prefix_of.induct) auto

lemma contains_loop_iff: "n \<noteq> [] \<Longrightarrow> contains_loop h n \<longleftrightarrow> sublist n h"
  by (induction h) (auto simp: prefix_of_iff sublist_Cons_right)

lemma cli_str_contains_iff: "cli_str_contains (Some h) (Some n) \<longleftrightarrow> sublist (cstr n) (cstr h)"
  by (cases "cstr n = []") (simp_all add: cli_str_contains_def contains_loop_iff)

lemma on_screen_simps [simp]:
  "on_screen [] w = w" "on_screen b (on_screen a w) = on_screen (a @ b) w" "cap_active (sh_con (on_screen a w)) = cap_active (sh_con w)"
  by (simp_all add: on_screen_def)

lemma grep_loop_fill:
  "list_all (\<lambda>c. c \<noteq> CHR 0x0A \<and> c \<noteq> CHR 0x0D \<and> c \<noteq> NUL) l \<Longrightarrow> length line + length l < 512 \<Longrightarrow>
   grep_loop p line k (l @ rest) w = grep_loop p (line @ l) k rest w"
  by (induction l arbitrary: line) auto

lemma grep_loop_lines:
  "list_all grep_line ls \<Longrightarrow> \<not> cap_active (sh_con w) \<Longrightarrow> NUL \<notin> set p \<Longrightarrow>
   grep_loop p [] k (unlines ls) w = (k + length (filter (sublist p) ls), on_screen (unlines (filter (sublist p) ls)) w)"
proof (induction ls arbitrary: k w)
  case (Cons l ls)
  have l: "grep_line l" "cstr l = l" using Cons.prems(1) by (auto simp: grep_line_def list_all_iff intro!: cstr_id)
  then have "grep_loop p [] k (unlines (l # ls)) w = grep_loop p l k (NL @ unlines ls) w"
    using grep_loop_fill [of l "[]" p k "NL @ unlines ls" w] by (simp add: grep_line_def unlines_def)
  with Cons l show ?case by (auto simp: cli_str_contains_iff cstr_id say_line [unfolded append_Cons append_Nil] unlines_def)
qed (simp add: unlines_def)

lemma grep_result:
  assumes "argv cmd = g # p # args" "NUL \<notin> set p" "cli_read_text_source m cmd 2 4096 ''grep <pattern> [path]'' w = Some (Some buf, w1)"
    and "text_of buf @ NL = unlines ls" "list_all grep_line ls" "\<not> cap_active (sh_con w1)"
  shows "cli_cmd_grep m s cmd w =
    Some (if filter (sublist p) ls = [] then 1 else CLI_OK, s, on_screen (unlines (filter (sublist p) ls)) w1)"
  using assms grep_loop_lines [OF assms(5,6,2), of 0] by (auto simp: cli_cmd_grep_def)

section \<open>Writing and showing a file\<close>

lemma text_of_bytes: "text_of (map byte_of t) = t"
  by (simp add: text_of_def comp_def)

lemma join_args_bounded: "length acc \<le> mx - 1 \<Longrightarrow> length (join_args_loop mx first as acc) \<le> mx - 1"
  by (induction mx first as acc rule: join_args_loop.induct) (auto simp: Let_def)

lemma with_kfs_simps [simp]:
  "os_kfs (sh_kernel (with_kfs w k)) = k" "sh_con (with_kfs w k) = sh_con w" "with_kfs (with_kfs w k) k' = with_kfs w k'"
  "sh_ai (with_kfs w k) = sh_ai w"
  by (simp_all add: with_kfs_def)

lemma say_frame [simp]: "sh_kernel (say fmt args w) = sh_kernel w" "sh_ai (say fmt args w) = sh_ai w" "sh_ps_live (say fmt args w) = sh_ps_live w"
  by (simp_all add: say_def)

text \<open>Printing only ever adds to the screen, and switches no capture on.\<close>

definition prints :: "console \<Rightarrow> console \<Rightarrow> bool" where
  "prints c c' \<longleftrightarrow> cap_active c' = cap_active c \<and> (\<exists>t. screen c' = screen c @ t)"

lemma prints_refl [simp]: "prints c c"
  by (simp add: prints_def)

lemma prints_trans: "prints a b \<Longrightarrow> prints b c \<Longrightarrow> prints a c"
  by (auto simp: prints_def)

lemma prints_fold: "(\<And>x c. prints c (f x c)) \<Longrightarrow> prints c (fold f xs c)"
  by (induction xs arbitrary: c) (auto intro: prints_trans)

lemma prints_basic [simp]: "prints c (write_char ch c)" "prints c (cli_write_raw t c)" "prints c (cli_putchar ch c)" "prints c (pad n c)"
proof -
  show w: "prints c (write_char ch c)" for ch c by (auto simp: write_char_def prints_def Let_def)
  show r: "prints c (cli_write_raw t c)" for t c unfolding cli_write_raw_def by (rule prints_fold) (rule w)
  show p: "prints c (cli_putchar ch c)" for ch c unfolding cli_putchar_def by (rule r)
  show "prints c (pad n c)" unfolding pad_def by (rule prints_fold) (rule p)
qed

lemma prints_puts [simp]: "prints c (fold cli_putchar t c)"
  by (rule prints_fold) simp

lemma prints_fields [simp]:
  "prints c (cli_print_field_s s n left c)" "prints c (cli_print_field_d v n left c)" "prints c (cli_write_int_dec v c)" "prints c (cli_write_hex32 v c)"
  by (auto simp: cli_print_field_s_def cli_print_field_d_def cli_write_int_dec_def cli_write_uint_dec_def cli_write_hex32_def Let_def
    intro: prints_trans prints_basic prints_puts)

lemma prints_arg: "prints c (snd (print_arg conv width left args c))"
  by (auto split: list.splits printf_arg.splits option.splits)

lemma prints_printf: "prints c (printf_loop fmt args c)"
proof (induction fmt args c rule: printf_loop.induct)
  case (2 p ps args c)
  let ?left = "hd ps = CHR ''-''"
  let ?r = "parse_width 0 (dropWhile (\<lambda>x. x = CHR ''+'' \<or> x = CHR '' '') (if ?left then tl ps else ps))"
  consider (directive) "p = CHR ''%'' \<and> ps \<noteq> []" | (newline) "\<not> (p = CHR ''%'' \<and> ps \<noteq> [])" "p = CHR 0x0A"
    | (tab) "\<not> (p = CHR ''%'' \<and> ps \<noteq> [])" "p \<noteq> CHR 0x0A" "p = CHR 0x09"
    | (plain) "\<not> (p = CHR ''%'' \<and> ps \<noteq> [])" "p \<noteq> CHR 0x0A" "p \<noteq> CHR 0x09" by blast
  then show ?case
  proof cases
    case directive
    show ?thesis
    proof (cases "snd ?r")
      case Nil
      with directive show ?thesis by (simp add: Let_def)
    next
      case (Cons conv rest)
      have "printf_loop (p # ps) args c = (let a = print_arg conv (fst ?r) ?left args c in printf_loop rest (fst a) (snd a))"
        using directive Cons by (simp add: Let_def del: print_arg.simps)
      then show ?thesis using prints_trans [OF prints_arg "2.IH"(1) [OF directive refl refl refl Cons refl]] by (simp add: Let_def)
    qed
  next
    case newline
    from prints_trans [OF prints_basic(3) "2.IH"(2) [OF newline]] newline show ?thesis by simp
  next
    case tab
    from prints_trans [OF prints_basic(2) "2.IH"(3) [OF tab]] tab show ?thesis by simp
  next
    case plain
    from prints_trans [OF prints_basic(3) "2.IH"(4) [OF plain]] plain show ?thesis by auto
  qed
qed simp

lemma prints_say: "prints (sh_con w) (sh_con (say fmt args w))"
  by (simp add: say_def cli_printf_def prints_printf)


lemma say_line' [simp]: "\<not> cap_active (sh_con w) \<Longrightarrow> say ''%s\<newline>'' [str_arg t] w = on_screen (cstr t @ NL) w"
  using say_line [of w t] by simp

lemma default_mode_readable:
  assumes "kfs_find_file ops path k = Some (Some e, k)" "fe_mode e = VFS_MODE_DEFAULT_FILE" "fe_uid e = 0" "fe_gid e = 0"
  shows "kfs_check_perm ops (Some path) uid (CHR ''r'') k = Some (0, k)"
proof -
  have "(420 :: u16) AND 7 AND 4 \<noteq> 0" by code_simp
  with assms show ?thesis by (simp add: kfs_check_perm_def perm_result_def Let_def)
qed

text \<open>
  On a disk without faults a new file that \<open>write\<close> has stored is what \<open>cat\<close> shows, for any user.
\<close>

lemma write_then_cat:
  assumes dev: "flawless_device (mc_ops m) dinv view" and inv: "dinv (vfs_disk (k_vfs (os_kfs (sh_kernel w))))"
    and fs: "vfs_wf (k_vfs (os_kfs (sh_kernel w)))" "vfs_layout (k_vfs (os_kfs (sh_kernel w)))"
      "g_vfs_ready (k_vfs (os_kfs (sh_kernel w)))" "g_ops (os_kfs (sh_kernel w))"
    and fresh: "vfs_find_file path (k_vfs (os_kfs (sh_kernel w))) = None"
    and slot: "find_slot (\<lambda>e. fe_type e = VFS_TYPE_EMPTY) (g_filetable (k_vfs (os_kfs (sh_kernel w)))) \<noteq> None"
    and path: "\<not> kfs_read_only path" "length (cstr path) < VFS_MAX_FILENAME"
    and cmd: "argv cmd = v # path # a # as" "argv cmd' = [v', path]" "NUL \<notin> set (cli_join_args cmd 2 256)"
    and stack: "length (mc_stack m 512) = 512" and shown: "\<not> cap_active (sh_con w)"
  shows "\<exists>w1. cli_cmd_write m s cmd w = Some (CLI_OK, s, w1) \<and> prints (sh_con w) (sh_con w1) \<and> sh_ai w1 = sh_ai w
    \<and> (\<forall>s' kl. \<exists>w2. cli_cmd_cat m s' cmd' (w1\<lparr>sh_klog := kl\<rparr>) = Some (CLI_OK, s', w2)
       \<and> screen (sh_con w2) = screen (sh_con w1) @ cli_join_args cmd 2 256 @ NL)"
proof -
  let ?k = "os_kfs (sh_kernel w)" and ?t = "cli_join_args cmd 2 256"
  let ?data = "map byte_of ?t"
  have bd: "block_device (mc_ops m) dinv view" using dev by (simp add: flawless_device_def reliable_device_def)
  have len: "length ?t \<le> 255" unfolding cli_join_args_def using join_args_bounded [of "[]" 256] by simp
  then have sect: "sectors_for (length ?t) \<le> 1" by (simp add: sectors_for_def)
  have room: "length ?t \<le> 511" "sectors_for (length ?t) \<le> 255" "sectors_for (length ?t) * SECTOR_SIZE \<le> length (mc_stack m 512)"
    "length ?t < 2 ^ 31" using len sect stack by simp_all
  have slot': "vfs_find_file path (k_vfs ?k) \<noteq> None \<or> find_slot (\<lambda>e. fe_type e = VFS_TYPE_EMPTY) (g_filetable (k_vfs ?k)) \<noteq> None" using slot by simp
  obtain k1 buf k2 where k1: "kfs_write_file (mc_ops m) (Some path) ?data (length ?t) ?k = (int (length ?t), k1)"
    and k2: "kfs_read_file (mc_ops m) (mc_env m) (Some path) (mc_stack m 512) 511 k1 = Some ((int (length ?t), buf), k2)"
    and buf: "take (length ?t) buf = ?data"
    using plain_file_roundtrip [OF dev inv fs slot' path, of "length ?t" ?data 511 "mc_stack m 512" "mc_env m"] room by auto
  obtain e where e: "kfs_find_file (mc_ops m) path k1 = Some (Some e, k1)" "fe_mode e = VFS_MODE_DEFAULT_FILE" "fe_uid e = 0" "fe_gid e = 0"
    using plain_new_file [OF bd inv fs(1) fresh path _ room(4) k1] by auto
  have absent: "kfs_find_file (mc_ops m) path ?k = Some (None, ?k)" using fresh by (simp add: plain_paths(3) [OF path(1)])
  define w1 where "w1 = say (''Wrote %d bytes -> %s'' @ NL) [IntArg (of_int (int (length ?t))), str_arg path] (with_kfs w k1)"
  have "with_kfs w ?k = w" by (simp add: with_kfs_def)
  then have wr: "cli_cmd_write m s cmd w = Some (CLI_OK, s, w1)"
    using absent k1 cmd(1) by (simp add: cli_cmd_write_def check_writable_def content_of_def w1_def Let_def)
  have pr: "prints (sh_con w) (sh_con w1)" using prints_say [of "with_kfs w k1"] by (simp add: w1_def)
  have "\<exists>w2. cli_cmd_cat m s' cmd' (w1\<lparr>sh_klog := kl\<rparr>) = Some (CLI_OK, s', w2) \<and> screen (sh_con w2) = screen (sh_con w1) @ ?t @ NL" for s' kl
  proof -
    have "os_kfs (sh_kernel (w1\<lparr>sh_klog := kl\<rparr>)) = k1" "\<not> cap_active (sh_con (w1\<lparr>sh_klog := kl\<rparr>))"
      using pr shown by (simp_all add: w1_def prints_def)
    then show ?thesis
      using default_mode_readable [OF e] k2 buf cmd(2,3) by (simp add: cli_cmd_cat_def text_of_bytes on_screen_def cstr_id)
  qed
  moreover have "sh_ai w1 = sh_ai w" by (simp add: w1_def)
  ultimately show ?thesis using wr pr by blast
qed


lemma builtin_write: "cli_find_builtin (builtin_table impl) ''write'' = Some \<lparr>bc_name = ''write'', bc_handler = impl ''write'', bc_min_privilege = CLI_PRIV_USER\<rparr>"
  and builtin_cat: "cli_find_builtin (builtin_table impl) ''cat'' = Some \<lparr>bc_name = ''cat'', bc_handler = impl ''cat'', bc_min_privilege = CLI_PRIV_USER\<rparr>"
  by (simp_all add: cli_find_builtin_def builtin_table_def BUILTIN_COMMANDS_def cli_strcmp_def c_strcmp_eq_0 cstr_def)

lemma builtin_names: "distinct (map fst BUILTIN_COMMANDS)" "list_all (\<lambda>(name, priv). plain_word name) BUILTIN_COMMANDS"
  by code_simp+

text \<open>Every row of the table is found under its name.\<close>

lemma builtin_row:
  assumes "(name, priv) \<in> set BUILTIN_COMMANDS"
  shows "plain_word name" "cli_find_builtin (builtin_table impl) name = Some \<lparr>bc_name = name, bc_handler = impl name, bc_min_privilege = priv\<rparr>"
proof -
  show "plain_word name" using builtin_names(2) assms by (auto simp: list_all_iff)
  have "find (\<lambda>b. cli_strcmp (bc_name b) name = 0) (map (\<lambda>(n, p). \<lparr>bc_name = n, bc_handler = impl n, bc_min_privilege = p\<rparr>) rows)
      = Some \<lparr>bc_name = name, bc_handler = impl name, bc_min_privilege = priv\<rparr>"
    if "distinct (map fst rows)" "list_all (\<lambda>(n, p). plain_word n) rows" "(name, priv) \<in> set rows" for rows
    using that by (induction rows) (force simp: cli_strcmp_def c_strcmp_eq_0 cstr_id plain_word_def list_all_iff)+
  then show "cli_find_builtin (builtin_table impl) name = Some \<lparr>bc_name = name, bc_handler = impl name, bc_min_privilege = priv\<rparr>"
    using builtin_names assms by (simp add: cli_find_builtin_def builtin_table_def)
qed

section \<open>Properties\<close>

text \<open>
  Property C23: the gate of the shipped command table mediates completely and exactly. First, whatever a line holds (pipes,
  sequences, \<open>&&\<close>, \<open>||\<close>, and a command run back by \<open>su\<close>), no handler is entered while its row is closed to the session at that
  moment: replacing every handler on those calls by anything else changes nothing. The privilege is the one the session has when the command starts,
  which \<open>login\<close>, \<open>su\<close> and \<open>logout\<close>, open to every user, change. Second, a line that is one command of the table runs its handler with the
  words of the line when the row is open; when it is closed, the answer is the permission error, session, users, keys and the rest of the
  kernel stay as they were, and the newest entry of the audit listing is this denial.
\<close>

theorem shell_gate_exact:
  assumes "(name, priv) \<in> set BUILTIN_COMMANDS" "list_all plain_word args" "length args < 16" "plain_text (join_words (name # args))"
    and "length (join_words (name # args)) < CLI_MAX_INPUT_LEN" "\<not> sh_ps_live w" "audit_ok (sh_audit w)"
  shows "cli_process_line rust (map (guarded rust g) (builtin_table impl)) session line v = cli_process_line rust (builtin_table impl) session line v
    \<and> cli_cmd_su rust stack (cli_execute_command rust (map (guarded rust g) (builtin_table impl))) session cmd v
        = cli_cmd_su rust stack (cli_execute_command rust (builtin_table impl)) session cmd v
    \<and> (if gate_closed rust priv name s w
       then \<exists>w' req. cli_process_line rust (builtin_table impl) s (join_words (name # args)) w = Some (CLI_ERR_NO_PERMISSION, s, w')
         \<and> sh_kernel w' = sh_kernel w \<and> sh_users w' = sh_users w \<and> keys w' = keys w
         \<and> hd (auditlog_print_all (sh_audit w')) = audit_shown (ucast (sh_ticks w), cs_username s, name, ucast (cs_privilege s), req)
       else \<exists>kl. cli_process_line rust (builtin_table impl) s (join_words (name # args)) w
         = impl name (s\<lparr>commands_executed := commands_executed s + 1\<rparr>) (no_command\<lparr>argv := name # args\<rparr>) (w\<lparr>sh_klog := kl\<rparr>))"
proof (intro conjI)
  let ?t = "builtin_table impl" and ?line = "join_words (name # args)"
  show "cli_process_line rust (map (guarded rust g) ?t) session line v = cli_process_line rust ?t session line v" by (rule process_line_guarded)
  have "cli_execute_command rust (map (guarded rust g) ?t) = cli_execute_command rust ?t" by (intro ext) (rule execute_guarded)
  then show "cli_cmd_su rust stack (cli_execute_command rust (map (guarded rust g) ?t)) session cmd v = cli_cmd_su rust stack (cli_execute_command rust ?t) session cmd v"
    by simp
  note row = builtin_row [OF assms(1)]
  have words: "list_all plain_word (name # args)" using row(1) assms(2) by simp
  have d: "dropWhile blank ?line = ?line" using row(1) by (cases name) (auto simp: join_words_def plain_word_def token_end_def blank_def)
  have one: "cli_process_line rust ?t s ?line w = cli_process_single rust ?t s ?line w"
    using one_command [OF assms(4) _ assms(5,6)] row(1) unfolding d by (simp add: join_words_def plain_word_def)
  have single: "cli_process_line rust ?t s ?line w = cli_execute_single_command rust ?t s (no_command\<lparr>argv := name # args\<rparr>) w"
    using parse_words [OF words _ _ assms(5)] assms(3) unfolding one
    by (simp add: cli_process_single_def cli_execute_command.simps no_command_def)
  show "if gate_closed rust priv name s w
       then \<exists>w' req. cli_process_line rust ?t s ?line w = Some (CLI_ERR_NO_PERMISSION, s, w')
         \<and> sh_kernel w' = sh_kernel w \<and> sh_users w' = sh_users w \<and> keys w' = keys w
         \<and> hd (auditlog_print_all (sh_audit w')) = audit_shown (ucast (sh_ticks w), cs_username s, name, ucast (cs_privilege s), req)
       else \<exists>kl. cli_process_line rust ?t s ?line w
         = impl name (s\<lparr>commands_executed := commands_executed s + 1\<rparr>) (no_command\<lparr>argv := name # args\<rparr>) (w\<lparr>sh_klog := kl\<rparr>)"
  proof (cases "gate_closed rust priv name s w")
    case True
    then have "\<exists>fmt as tag req. cli_process_line rust ?t s ?line w = Some (CLI_ERR_NO_PERMISSION, s, cli_deny rust fmt as tag s name req w)"
      by (auto simp: single cli_execute_single_command_def row(2) gate_closed_def word_less_nat_alt Let_def)
    then obtain fmt as tag req where "cli_process_line rust ?t s ?line w = Some (CLI_ERR_NO_PERMISSION, s, cli_deny rust fmt as tag s name req w)" by blast
    with True deny_audited [OF assms(7)] show ?thesis by (auto simp: cli_deny_def Let_def say_def)
  next
    case False
    then show ?thesis by (auto simp: single cli_execute_single_command_def row(2) gate_closed_def word_less_nat_alt Let_def)
  qed
qed

text \<open>
  Property: \<open>grep\<close> is the filter of its input. For a text, from a file or a pipe, whose lines are shorter
  than 512 characters and free of carriage returns, it prints exactly the lines that contain the pattern
  as a contiguous part, in their order, and succeeds exactly if there is one.
\<close>

theorem cli_grep_filters:
  assumes "argv cmd = g # p # args" "NUL \<notin> set p" "cli_read_text_source m cmd 2 4096 ''grep <pattern> [path]'' w = Some (Some buf, w1)"
    and "text_of buf @ NL = unlines ls" "list_all grep_line ls" "\<not> cap_active (sh_con w1)"
  shows "cli_cmd_grep m s cmd w =
    Some (if filter (sublist p) ls = [] then 1 else CLI_OK, s, on_screen (unlines (filter (sublist p) ls)) w1)"
  by (rule grep_result [OF assms])


definition os_shell :: "'d os \<Rightarrow> cstring \<Rightarrow> (unit, 'd os) shell_state" where
  "os_shell k input = \<lparr>sh_con = \<lparr>cap_active = False, cap_echo = True, cap_buf = [], pipe_in = input, screen = []\<rparr>, sh_klog = blank_klog,
     sh_audit = blank_audit, sh_ai = demo_engine, sh_users = \<lparr>g_users = [], g_user_count = 0, g_userdb_ready = False\<rparr>,
     sh_ticks = 9, sh_ps_live = False, keys = [], sh_kernel = k\<rparr>"

theorem shell_gate_exact_witness:
  "\<forall>impl k. (\<exists>w'. cli_process_line demo_rust (builtin_table impl) guest ''chown 0 /f '' (os_shell k []) = Some (CLI_ERR_NO_PERMISSION, guest, w')
      \<and> sh_kernel w' = k \<and> fst (snd (hd (auditlog_print_all (sh_audit w')))) = ''bob'')
    \<and> (\<exists>kl. cli_process_line demo_rust (builtin_table impl) guest ''cat /f '' (os_shell k [])
        = impl ''cat'' (guest\<lparr>commands_executed := 1\<rparr>) (no_command\<lparr>argv := [''cat'', ''/f'']\<rparr>) ((os_shell k [])\<lparr>sh_klog := kl\<rparr>))"
proof (intro allI conjI)
  fix impl :: "cstring \<Rightarrow> (unit, 'd os) handler" and k :: "'d os"
  let ?w = "os_shell k []"
  have ok: "\<not> sh_ps_live ?w" "audit_ok (sh_audit ?w)" by (simp_all add: os_shell_def audit_ok_def blank_audit_def list_all_length)
  have lines: "join_words [''chown'', ''0'', ''/f''] = ''chown 0 /f ''" "join_words [''cat'', ''/f''] = ''cat /f ''" by (simp_all add: join_words_def)
  have rows: "(''chown'', 0) \<in> set BUILTIN_COMMANDS" "(''cat'', 100) \<in> set BUILTIN_COMMANDS" by (simp_all add: BUILTIN_COMMANDS_def)
  have closed: "gate_closed demo_rust 0 ''chown'' guest ?w" by (simp add: gate_closed_def guest_def)
  have "policy_check_command demo_rust (Some ''cat'') 100 demo_engine" by code_simp
  then have opened: "\<not> gate_closed demo_rust 100 ''cat'' guest ?w" by (simp add: gate_closed_def guest_def os_shell_def)
  have bob: "cstr (cs_username guest) = ''bob''" by code_simp
  show "\<exists>w'. cli_process_line demo_rust (builtin_table impl) guest ''chown 0 /f '' ?w = Some (CLI_ERR_NO_PERMISSION, guest, w')
      \<and> sh_kernel w' = k \<and> fst (snd (hd (auditlog_print_all (sh_audit w')))) = ''bob''"
    using shell_gate_exact [OF rows(1) _ _ _ _ ok, of "[''0'', ''/f'']" demo_rust "\<lambda>s cmd w. None" impl guest "[]" ?w "[]" no_command guest] closed bob
    by (auto simp: lines plain_word_def token_end_def blank_def plain_text_def os_shell_def audit_shown_def)
  show "\<exists>kl. cli_process_line demo_rust (builtin_table impl) guest ''cat /f '' ?w
        = impl ''cat'' (guest\<lparr>commands_executed := 1\<rparr>) (no_command\<lparr>argv := [''cat'', ''/f'']\<rparr>) (?w\<lparr>sh_klog := kl\<rparr>)"
    using shell_gate_exact [OF rows(2) _ _ _ _ ok, of "[''/f'']" demo_rust "\<lambda>s cmd w. None" impl guest "[]" ?w "[]" no_command guest] opened
    by (auto simp: lines plain_word_def token_end_def blank_def plain_text_def guest_def blank_session_def)
qed

theorem cli_grep_filters_witness:
  "\<forall>m k. cli_cmd_grep m guest (no_command\<lparr>argv := [''grep'', ''ab'']\<rparr>) (os_shell k (''xaby'' @ NL @ ''b'' @ NL @ ''ab''))
     = Some (CLI_OK, guest, on_screen (''xaby'' @ NL @ ''ab'' @ NL) (os_shell k (''xaby'' @ NL @ ''b'' @ NL @ ''ab'')))"
proof (intro allI)
  fix m :: "'d machine" and k :: "'d os"
  let ?c = "no_command\<lparr>argv := [''grep'', ''ab'']\<rparr>" and ?t = "''xaby'' @ NL @ ''b'' @ NL @ ''ab''"
  have src: "cli_read_text_source m ?c 2 4096 ''grep <pattern> [path]'' (os_shell k ?t) = Some (Some (map byte_of ?t), os_shell k ?t)"
    by (simp add: cli_read_text_source_def os_shell_def cli_pipe_has_input_def cli_pipe_copy_input_def)
  have ls: "text_of (map byte_of ?t) @ NL = unlines [''xaby'', ''b'', ''ab'']" "list_all grep_line [''xaby'', ''b'', ''ab'']"
    unfolding text_of_bytes by (simp_all add: unlines_def grep_line_def)
  have con: "\<not> cap_active (sh_con (os_shell k ?t))" by (simp add: os_shell_def)
  have f: "filter (sublist ''ab'') [''xaby'', ''b'', ''ab''] = [''xaby'', ''ab'']" by (simp add: sublist_Cons_right)
  show "cli_cmd_grep m guest ?c (os_shell k ?t) = Some (CLI_OK, guest, on_screen (''xaby'' @ NL @ ''ab'' @ NL) (os_shell k ?t))"
    using cli_grep_filters [OF _ _ src ls con, of "''grep''" "''ab''" "[]" guest] unfolding f by (simp add: unlines_def)
qed

text \<open>
  Property: \<open>grep\<close> shows what \<open>cat\<close> denies. If the mode of a file refuses reading to the session's user,
  \<open>cat\<close> fails; \<open>grep\<close> on the same file asks for no permission and prints its matching lines.
\<close>

theorem cli_grep_ignores_permissions:
  assumes "kfs_check_perm (mc_ops m) (Some path) (uid16 s) (CHR ''r'') (os_kfs (sh_kernel w)) = Some (perm, k)" "perm < 0"
    and "kfs_read_file (mc_ops m) (mc_env m) (Some path) (mc_stack m 4096) 4095 (os_kfs (sh_kernel w)) = Some ((n, buf), k1)" "0 \<le> n"
    and "text_of (take (nat n) buf) @ NL = unlines ls" "list_all grep_line ls" "NUL \<notin> set p" "\<not> cap_active (sh_con w)"
  shows "\<exists>w1. cli_cmd_cat m s (no_command\<lparr>argv := [''cat'', path]\<rparr>) w = Some (1, s, w1)
    \<and> cli_cmd_grep m s (no_command\<lparr>argv := [''grep'', p, path]\<rparr>) w =
        Some (if filter (sublist p) ls = [] then 1 else CLI_OK, s, on_screen (unlines (filter (sublist p) ls)) (with_kfs w k1))"
proof -
  have src: "cli_read_text_source m (no_command\<lparr>argv := [''grep'', p, path]\<rparr>) 2 4096 ''grep <pattern> [path]'' w
      = Some (Some (take (nat n) buf), with_kfs w k1)"
    using assms(3,4) by (simp add: cli_read_text_source_def)
  have "cli_cmd_cat m s (no_command\<lparr>argv := [''cat'', path]\<rparr>) w
      = Some (1, s, say (''cat: %s: permission denied'' @ NL) [str_arg path] (with_kfs w k))"
    using assms(1,2) by (simp add: cli_cmd_cat_def)
  with grep_result [OF _ assms(7) src assms(5,6), of "''grep''" "[path]" s] assms(8) show ?thesis by simp
qed


definition secret_entry :: VfsFileEntry where
  "secret_entry = empty_entry\<lparr>fe_filename := ''/f'' @ replicate 30 NUL, fe_type := VFS_TYPE_REGULAR, fe_mode := 384, fe_uid := 5, fe_gid := 7, fe_size := 2\<rparr>"

theorem cli_grep_ignores_permissions_witness:
  "\<forall>env ipc. \<exists>k1 w1. let m = \<lparr>mc_ops = ram_ops, mc_env = env, mc_stack = (\<lambda>n. replicate n 0)\<rparr>;
       w = os_shell \<lparr>os_kfs = one_file_kfs secret_entry (map byte_of ''pw''), os_ipc = ipc\<rparr> []
     in cli_cmd_cat m guest (no_command\<lparr>argv := [''cat'', ''/f'']\<rparr>) w = Some (1, guest, w1)
       \<and> cli_cmd_grep m guest (no_command\<lparr>argv := [''grep'', ''p'', ''/f'']\<rparr>) w = Some (CLI_OK, guest, on_screen (''pw'' @ NL) (with_kfs w k1))"
proof (intro allI)
  fix env ipc
  define m where "m = \<lparr>mc_ops = ram_ops, mc_env = env, mc_stack = (\<lambda>n. replicate n (0 :: u8))\<rparr>"
  define w where "w = os_shell \<lparr>os_kfs = one_file_kfs secret_entry (map byte_of ''pw''), os_ipc = ipc\<rparr> []"
  let ?k = "one_file_kfs secret_entry (map byte_of ''pw'')"
  have named: "file_named ''/f'' secret_entry" by code_simp
  have e: "unat (fe_size secret_entry) = length (map byte_of ''pw'')" "fe_start_sector secret_entry = 0"
    by (simp_all add: secret_entry_def empty_entry_def)
  obtain buf k1 where rd: "kfs_read_file ram_ops env (Some ''/f'') (replicate 4096 0) 4095 ?k = Some ((2, buf), k1)"
    and buf: "take 2 buf = map byte_of ''pw''"
    by (rule one_file_read [OF demo_plain named e, of 4095 "replicate 4096 0" env]) (simp_all add: numeral_2_eq_2)
  have denied: "perm_result secret_entry 3 (CHR ''r'') = -1" by (simp add: perm_result_def secret_entry_def)
  have perm: "kfs_check_perm ram_ops (Some ''/f'') (uid16 guest) (CHR ''r'') ?k = Some (-1, ?k)"
    using one_file_found(2) [OF demo_plain named, of ram_ops "map byte_of ''pw''"] denied by (simp add: kfs_check_perm_def uid16_def guest_def)
  have con: "\<not> cap_active (sh_con w)" "os_kfs (sh_kernel w) = ?k" by (simp_all add: w_def os_shell_def)
  have tx: "text_of (take (nat 2) buf) @ NL = unlines [''pw'']" "list_all grep_line [''pw'']" "NUL \<notin> set ''p''"
    by (simp_all add: buf text_of_def unlines_def grep_line_def)
  have f: "filter (sublist ''p'') [''pw''] = [''pw'']" by (simp add: sublist_Cons_right)
  have "\<exists>w1. cli_cmd_cat m guest (no_command\<lparr>argv := [''cat'', ''/f'']\<rparr>) w = Some (1, guest, w1)
      \<and> cli_cmd_grep m guest (no_command\<lparr>argv := [''grep'', ''p'', ''/f'']\<rparr>) w = Some (CLI_OK, guest, on_screen (''pw'' @ NL) (with_kfs w k1))"
    using cli_grep_ignores_permissions [of m "''/f''" guest w "-1" ?k 2 buf k1, OF _ _ _ _ tx con(1)] perm rd
    unfolding f con(2) by (simp add: m_def unlines_def)
  then show "\<exists>k1 w1. let m = \<lparr>mc_ops = ram_ops, mc_env = env, mc_stack = (\<lambda>n. replicate n 0)\<rparr>;
       w = os_shell \<lparr>os_kfs = one_file_kfs secret_entry (map byte_of ''pw''), os_ipc = ipc\<rparr> []
     in cli_cmd_cat m guest (no_command\<lparr>argv := [''cat'', ''/f'']\<rparr>) w = Some (1, guest, w1)
       \<and> cli_cmd_grep m guest (no_command\<lparr>argv := [''grep'', ''p'', ''/f'']\<rparr>) w = Some (CLI_OK, guest, on_screen (''pw'' @ NL) (with_kfs w k1))"
    unfolding Let_def m_def w_def by blast
qed

end
