(* ===== verification/Cli_Edit.thy ===== *)
theory Cli_Edit
  imports Cli_Exec
begin

text \<open>
  The line editor of the shell (\<open>cli_readline\<close> in \<open>kernel/shell/cli.c\<close>): a character array with a length
  and a cursor, edited by key codes, with the history on the arrow keys; and the loop of the shell. It
  refines an editor that keeps the text before and behind the cursor. Waiting for a key is the end of the
  list of keys (\<open>None\<close>); redrawing, which only touches the screen, is not part of the state.
\<close>

section \<open>Keys\<close>

abbreviation KEY_UP :: u8 where "KEY_UP \<equiv> 0x80"
abbreviation KEY_DOWN :: u8 where "KEY_DOWN \<equiv> 0x81"
abbreviation KEY_LEFT :: u8 where "KEY_LEFT \<equiv> 0x82"
abbreviation KEY_RIGHT :: u8 where "KEY_RIGHT \<equiv> 0x83"
abbreviation KEY_DEL :: u8 where "KEY_DEL \<equiv> 0x84"
abbreviation KEY_HOME :: u8 where "KEY_HOME \<equiv> 0x85"
abbreviation KEY_END :: u8 where "KEY_END \<equiv> 0x86"

definition enter_key :: "u8 \<Rightarrow> bool" where
  "enter_key uc \<longleftrightarrow> uc = 0x0A \<or> uc = 0x0D"

definition erase_key :: "u8 \<Rightarrow> bool" where
  "erase_key uc \<longleftrightarrow> uc = 0x08 \<or> uc = 0x7F"

section \<open>The array editor\<close>

record line_ed =
  ed_line :: cstring
  ed_len :: nat
  ed_cur :: nat
  hist_off :: nat

text \<open>The two loops that move characters by one place.\<close>

definition shift_left :: "nat \<Rightarrow> nat \<Rightarrow> cstring \<Rightarrow> cstring" where
  "shift_left i n l = fold (\<lambda>k l. l[k := l ! (k + 1)]) [i..<n] l"

definition shift_right :: "nat \<Rightarrow> nat \<Rightarrow> cstring \<Rightarrow> cstring" where
  "shift_right i n l = fold (\<lambda>k l. l[k := l ! (k - 1)]) (rev [Suc i..<Suc n]) l"

definition ed_remove :: "nat \<Rightarrow> line_ed \<Rightarrow> line_ed" where
  "ed_remove i st = st\<lparr>ed_line := (shift_left i (ed_len st - 1) (ed_line st))[ed_len st - 1 := NUL], ed_len := ed_len st - 1\<rparr>"

definition ed_backspace :: "line_ed \<Rightarrow> line_ed" where
  "ed_backspace st = (if ed_cur st > 0 then (ed_remove (ed_cur st - 1) st)\<lparr>ed_cur := ed_cur st - 1\<rparr> else st)"

definition ed_delete :: "line_ed \<Rightarrow> line_ed" where
  "ed_delete st = (if ed_cur st < ed_len st then ed_remove (ed_cur st) st else st)"

definition hist_slot :: "CliShell \<Rightarrow> nat \<Rightarrow> nat" where
  "hist_slot sh off = (history_index sh + CLI_HISTORY_SIZE * 2 - off) mod CLI_HISTORY_SIZE"

definition ed_load :: "nat \<Rightarrow> cstring \<Rightarrow> line_ed \<Rightarrow> line_ed" where
  "ed_load mx h st =
     (let t = take (mx - 1) (cstr h)
      in st\<lparr>ed_line := (t @ drop (length t) (ed_line st))[length t := NUL], ed_len := length t, ed_cur := length t\<rparr>)"

definition ed_up :: "nat \<Rightarrow> CliShell \<Rightarrow> line_ed \<Rightarrow> line_ed" where
  "ed_up mx sh st =
     (let hist_count = (if history_index sh < CLI_HISTORY_SIZE then history_index sh else CLI_HISTORY_SIZE)
      in if hist_off st < hist_count
         then ed_load mx (cli_history sh ! hist_slot sh (hist_off st + 1)) (st\<lparr>hist_off := hist_off st + 1\<rparr>)
         else st)"

definition ed_down :: "nat \<Rightarrow> CliShell \<Rightarrow> line_ed \<Rightarrow> line_ed" where
  "ed_down mx sh st =
     (if hist_off st > 1 then ed_load mx (cli_history sh ! hist_slot sh (hist_off st - 1)) (st\<lparr>hist_off := hist_off st - 1\<rparr>)
      else if hist_off st = 1 then st\<lparr>hist_off := 0, ed_len := 0, ed_cur := 0, ed_line := (ed_line st)[0 := NUL]\<rparr>
      else st)"

definition ed_insert :: "nat \<Rightarrow> u8 \<Rightarrow> line_ed \<Rightarrow> line_ed" where
  "ed_insert mx uc st =
     (if uc \<ge> 32 \<and> uc < 127 \<and> ed_len st < mx - 1 then
        st\<lparr>ed_line := ((shift_right (ed_cur st) (ed_len st) (ed_line st))[ed_cur st := char_of_byte uc])[ed_len st + 1 := NUL],
           ed_len := ed_len st + 1, ed_cur := ed_cur st + 1\<rparr>
      else st)"

definition ed_key :: "nat \<Rightarrow> CliShell option \<Rightarrow> u8 \<Rightarrow> line_ed \<Rightarrow> line_ed" where
  "ed_key mx g_shell uc st =
     (if erase_key uc then ed_backspace st
      else if uc = KEY_DEL then ed_delete st
      else if uc = KEY_LEFT then (if ed_cur st > 0 then st\<lparr>ed_cur := ed_cur st - 1\<rparr> else st)
      else if uc = KEY_RIGHT then (if ed_cur st < ed_len st then st\<lparr>ed_cur := ed_cur st + 1\<rparr> else st)
      else if uc = KEY_HOME then st\<lparr>ed_cur := 0\<rparr>
      else if uc = KEY_END then st\<lparr>ed_cur := ed_len st\<rparr>
      else if uc = KEY_UP \<and> g_shell \<noteq> None then ed_up mx (the g_shell) st
      else if uc = KEY_DOWN \<and> g_shell \<noteq> None then ed_down mx (the g_shell) st
      else ed_insert mx uc st)"

text \<open>The result, the buffer and the keys not read.\<close>

fun readline_loop :: "nat \<Rightarrow> CliShell option \<Rightarrow> cstring \<Rightarrow> u8 list \<Rightarrow> line_ed \<Rightarrow> (nat \<times> cstring \<times> u8 list) option" where
  "readline_loop mx g_shell buf [] st = None"
| "readline_loop mx g_shell buf (uc # ks) st =
     (if enter_key uc then Some (ed_len st, cli_strcpy buf (ed_line st) mx, ks)
      else readline_loop mx g_shell buf ks (ed_key mx g_shell uc st))"

definition empty_ed :: line_ed where
  "empty_ed = \<lparr>ed_line = replicate CLI_MAX_INPUT_LEN NUL, ed_len = 0, ed_cur = 0, hist_off = 0\<rparr>"

definition cli_readline :: "nat \<Rightarrow> CliShell option \<Rightarrow> cstring \<Rightarrow> u8 list \<Rightarrow> (nat \<times> cstring \<times> u8 list) option" where
  "cli_readline mx g_shell buf ks = (if mx < 2 then Some (0, buf, ks) else readline_loop mx g_shell buf ks empty_ed)"

definition cli_print_prompt :: "CliSession \<Rightarrow> ('e, 'k) shell_state \<Rightarrow> ('e, 'k) shell_state" where
  "cli_print_prompt session w = say ''%s@vernisOS:%s> '' [StrArg (Some (cs_username session)), StrArg (Some ''/'')] w"

section \<open>The shell loop\<close>

text \<open>One turn: prompt, line, history, execution; \<open>None\<close> if the keys end before the line does.\<close>

definition shell_turn :: "'e rust_engine \<Rightarrow> ('e, 'k) CliBuiltinCommand list \<Rightarrow> CliShell \<Rightarrow> CliSession \<Rightarrow> ('e, 'k) shell_state
    \<Rightarrow> (CliShell \<times> CliSession \<times> ('e, 'k) shell_state) option" where
  "shell_turn rust table sh session w =
     (let w1 = cli_print_prompt session w in
      case cli_readline CLI_MAX_INPUT_LEN (Some sh) (replicate CLI_MAX_INPUT_LEN NUL) (map byte_of (keys w1)) of
        None \<Rightarrow> None
      | Some (read_len, input_buf, rest) \<Rightarrow>
          let w2 = w1\<lparr>keys := map char_of_byte rest, sh_con := cli_putchar (CHR 0x0A) (sh_con w1)\<rparr> in
          if read_len = 0 then Some (sh, session, w2)
          else let sh1 = cli_history_push input_buf sh in
            case cli_process_line rust table session input_buf w2 of
              None \<Rightarrow> None
            | Some (rc, session1, w3) \<Rightarrow> Some (sh1, session1, w3))"

partial_function (option) shell_rounds :: "'e rust_engine \<Rightarrow> ('e, 'k) CliBuiltinCommand list \<Rightarrow> CliShell \<Rightarrow> CliSession \<Rightarrow> ('e, 'k) shell_state
    \<Rightarrow> (CliShell \<times> CliSession \<times> ('e, 'k) shell_state) option" where
  "shell_rounds rust table sh session w =
     (if \<not> is_active session then Some (sh, session, w)
      else Option.bind (shell_turn rust table sh session w) (\<lambda>(sh1, session1, w1). shell_rounds rust table sh1 session1 w1))"

definition cli_shell_loop :: "'e rust_engine \<Rightarrow> ('e, 'k) CliBuiltinCommand list \<Rightarrow> CliShell \<Rightarrow> CliSession \<Rightarrow> ('e, 'k) shell_state
    \<Rightarrow> (CliShell \<times> CliSession \<times> ('e, 'k) shell_state) option" where
  "cli_shell_loop rust table sh session w =
     (let nl = [CHR 0x0A]; q = [CHR 0x27] in
      shell_rounds rust table sh session
        (say nl [] (say (''Type '' @ q @ ''help'' @ q @ '' for command list'' @ nl) [] (say (''Welcome to VernisOS Shell!'' @ nl) [] (say nl [] w)))))"

section \<open>The ideal editor\<close>

text \<open>Text before the cursor, text behind it, and the position in the history.\<close>

type_synonym zipper = "cstring \<times> cstring \<times> nat"

definition z_insert :: "nat \<Rightarrow> u8 \<Rightarrow> zipper \<Rightarrow> zipper" where
  "z_insert mx uc z = (case z of (l, r, off) \<Rightarrow>
     if uc \<ge> 32 \<and> uc < 127 \<and> length l + length r < mx - 1 then (l @ [char_of_byte uc], r, off) else (l, r, off))"

definition z_up :: "nat \<Rightarrow> CliShell \<Rightarrow> zipper \<Rightarrow> zipper" where
  "z_up mx sh z = (case z of (l, r, off) \<Rightarrow>
     if off < min (history_index sh) CLI_HISTORY_SIZE
     then (take (mx - 1) (cstr (cli_history sh ! hist_slot sh (off + 1))), [], off + 1) else (l, r, off))"

definition z_down :: "nat \<Rightarrow> CliShell \<Rightarrow> zipper \<Rightarrow> zipper" where
  "z_down mx sh z = (case z of (l, r, off) \<Rightarrow>
     if off > 1 then (take (mx - 1) (cstr (cli_history sh ! hist_slot sh (off - 1))), [], off - 1)
     else if off = 1 then ([], [], 0) else (l, r, off))"

definition z_key :: "nat \<Rightarrow> CliShell option \<Rightarrow> u8 \<Rightarrow> zipper \<Rightarrow> zipper" where
  "z_key mx g_shell uc z = (case z of (l, r, off) \<Rightarrow>
     if erase_key uc then (butlast l, r, off)
     else if uc = KEY_DEL then (l, tl r, off)
     else if uc = KEY_LEFT then (if l = [] then z else (butlast l, last l # r, off))
     else if uc = KEY_RIGHT then (if r = [] then z else (l @ [hd r], tl r, off))
     else if uc = KEY_HOME then ([], l @ r, off)
     else if uc = KEY_END then (l @ r, [], off)
     else if uc = KEY_UP \<and> g_shell \<noteq> None then z_up mx (the g_shell) z
     else if uc = KEY_DOWN \<and> g_shell \<noteq> None then z_down mx (the g_shell) z
     else z_insert mx uc z)"

definition zip_of :: "line_ed \<Rightarrow> zipper" where
  "zip_of st = (take (ed_cur st) (ed_line st), drop (ed_cur st) (take (ed_len st) (ed_line st)), hist_off st)"

definition ed_ok :: "nat \<Rightarrow> line_ed \<Rightarrow> bool" where
  "ed_ok mx st \<longleftrightarrow> length (ed_line st) = CLI_MAX_INPUT_LEN \<and> mx \<le> CLI_MAX_INPUT_LEN \<and> ed_cur st \<le> ed_len st \<and> ed_len st < mx
     \<and> ed_line st ! ed_len st = NUL \<and> NUL \<notin> set (take (ed_len st) (ed_line st))"

section \<open>Lemmas\<close>

lemma take_front: "take (length xs) (xs @ ys) = xs"
  by simp

lemma fold_update_length: "length (fold (\<lambda>k l. l[k := f k l]) ks l) = length l"
  by (induction ks arbitrary: l) simp_all

lemma length_shift [simp]: "length (shift_left i n l) = length l" "length (shift_right i n l) = length l"
  unfolding shift_left_def shift_right_def by (rule fold_update_length)+

lemma shift_left_eq:
  "i \<le> n \<Longrightarrow> n < length l \<Longrightarrow> shift_left i n l = take i l @ take (n - i) (drop (Suc i) l) @ drop n l"
proof (induction "n - i" arbitrary: i l)
  case 0
  then show ?case by (simp add: shift_left_def)
next
  case (Suc k)
  then have "[i..<n] = i # [Suc i..<n]" by (simp add: upt_rec)
  then have "shift_left i n l = shift_left (Suc i) n (l[i := l ! Suc i])" by (simp add: shift_left_def)
  also have "\<dots> = take (Suc i) (l[i := l ! Suc i]) @ take (n - Suc i) (drop (Suc (Suc i)) l) @ drop n l"
    using Suc by simp
  also have "take (Suc i) (l[i := l ! Suc i]) = take i l @ [l ! Suc i]"
    using Suc by (simp add: take_Suc_conv_app_nth)
  also have "(take i l @ [l ! Suc i]) @ take (n - Suc i) (drop (Suc (Suc i)) l) @ drop n l = take i l @ take (n - i) (drop (Suc i) l) @ drop n l"
    using Suc by (simp add: Cons_nth_drop_Suc [symmetric] Suc_diff_Suc [symmetric])
  finally show ?case .
qed

lemma shift_right_eq:
  "i \<le> n \<Longrightarrow> n < length l \<Longrightarrow> shift_right i n l = take (Suc i) l @ take (n - i) (drop i l) @ drop (Suc n) l"
proof (induction "n - i" arbitrary: n l)
  case 0
  then show ?case by (simp add: shift_right_def append_take_drop_id)
next
  case (Suc k)
  then obtain m where m: "n = Suc m" "i \<le> m" "k = m - i" by (cases n) auto
  have "shift_right i n l = shift_right i m (l[n := l ! m])" using m by (simp add: shift_right_def)
  also have "\<dots> = take (Suc i) l @ take (m - i) (drop i l) @ drop (Suc m) (l[n := l ! m])"
    using Suc m by (simp add: take_drop)
  also have "drop (Suc m) (l[n := l ! m]) = l ! m # drop (Suc n) l"
    using Suc.prems m(1) by (simp add: Cons_nth_drop_Suc [symmetric])
  also have "take (m - i) (drop i l) @ l ! m # drop (Suc n) l = take (n - i) (drop i l) @ drop (Suc n) l"
    using Suc.prems m by (simp add: Suc_diff_le take_Suc_conv_app_nth)
  finally show ?case by simp
qed


abbreviation ed_text :: "line_ed \<Rightarrow> cstring" where
  "ed_text st \<equiv> take (ed_len st) (ed_line st)"

lemma zip_of_text: "ed_ok mx st \<Longrightarrow> zip_of st = (take (ed_cur st) (ed_text st), drop (ed_cur st) (ed_text st), hist_off st)"
  by (simp add: zip_of_def ed_ok_def min_def)

text \<open>A state whose line holds a text and its terminator is well formed.\<close>

lemma ed_okI:
  assumes "length (ed_line st) = CLI_MAX_INPUT_LEN" "mx \<le> CLI_MAX_INPUT_LEN" "ed_cur st \<le> ed_len st" "ed_len st < mx"
    and "ed_line st = t @ NUL # rest" "length t = ed_len st" "NUL \<notin> set t"
  shows "ed_ok mx st" "ed_text st = t"
  using assms by (auto simp: ed_ok_def nth_append)

lemma ed_okE:
  assumes "ed_ok mx st"
  obtains t rest where "ed_line st = t @ NUL # rest" "length t = ed_len st" "NUL \<notin> set t"
    "length t + length rest = 255" "mx \<le> 256" "ed_cur st \<le> length t" "length t < mx"
proof -
  let ?t = "ed_text st" and ?r = "drop (Suc (ed_len st)) (ed_line st)"
  have n: "ed_len st < length (ed_line st)" using assms by (simp add: ed_ok_def)
  have "ed_line st = ?t @ NUL # ?r" using assms id_take_nth_drop [OF n] by (simp add: ed_ok_def)
  moreover have "length ?t = ed_len st" using n by simp
  ultimately show ?thesis using that [of ?t ?r] assms by (simp add: ed_ok_def)
qed

lemma ed_remove_eq:
  assumes ok: "ed_ok mx st" and i: "i < ed_len st"
  shows "\<exists>rest. ed_line (ed_remove i st) = (take i (ed_text st) @ drop (Suc i) (ed_text st)) @ NUL # rest"
    and "length (ed_line (ed_remove i st)) = 256"
proof -
  obtain t rest where t: "ed_line st = t @ NUL # rest" "length t = ed_len st" using ok by (rule ed_okE)
  have tx: "ed_text st = t" using t by simp
  obtain a c b where abc: "t = a @ c # b" "length a = i" using i t(2) id_take_nth_drop [of i t] by (metis length_take min.absorb4)
  have n: "ed_len st = Suc (i + length b)" using abc t(2) by simp
  have "shift_left i (ed_len st - 1) (ed_line st) = a @ b @ drop (i + length b) (ed_line st)"
    using shift_left_eq [of i "ed_len st - 1" "ed_line st"] n t(1) abc by simp
  also have "drop (i + length b) (ed_line st) = last (c # b) # NUL # rest"
    using abc by (cases b rule: rev_cases) (simp_all add: t(1))
  finally have "ed_line (ed_remove i st) = (a @ b) @ NUL # NUL # rest"
    using n abc(2) by (simp add: ed_remove_def list_update_append)
  then show "\<exists>rest. ed_line (ed_remove i st) = (take i (ed_text st) @ drop (Suc i) (ed_text st)) @ NUL # rest"
    using abc by (auto simp: tx)
  show "length (ed_line (ed_remove i st)) = 256" using ok by (simp add: ed_remove_def ed_ok_def)
qed


lemma ed_insert_eq:
  assumes ok: "ed_ok mx st" and fits: "uc \<ge> 32 \<and> uc < 127 \<and> ed_len st < mx - 1"
  shows "\<exists>rest. ed_line (ed_insert mx uc st) = (take (ed_cur st) (ed_text st) @ char_of_byte uc # drop (ed_cur st) (ed_text st)) @ NUL # rest"
    and "length (ed_line (ed_insert mx uc st)) = 256"
proof -
  obtain t rest where t: "ed_line st = t @ NUL # rest" "length t = ed_len st" "ed_cur st \<le> length t" "length t + length rest = 255" "mx \<le> 256"
    using ok by (rule ed_okE)
  have tx: "ed_text st = t" using t by simp
  obtain a b where ab: "t = a @ b" "length a = ed_cur st" using t(3) by (metis append_take_drop_id length_take min.absorb2)
  have n: "ed_len st = ed_cur st + length b" using ab t(2) by simp
  obtain r rest' where rest: "rest = r # rest'" using fits t(2,4,5) by (cases rest) auto
  have "shift_right (ed_cur st) (ed_len st) (ed_line st) = take (Suc (ed_cur st)) (ed_line st) @ b @ rest"
    using shift_right_eq [of "ed_cur st" "ed_len st" "ed_line st"] n t(1) ab by simp
  also have "take (Suc (ed_cur st)) (ed_line st) = a @ [hd (b @ [NUL])]"
    using ab by (cases b) (simp_all add: t(1))
  finally have "ed_line (ed_insert mx uc st) = (a @ char_of_byte uc # b) @ NUL # rest'"
    using n ab(2) fits by (simp add: ed_insert_def list_update_append rest)
  then show "\<exists>rest. ed_line (ed_insert mx uc st) = (take (ed_cur st) (ed_text st) @ char_of_byte uc # drop (ed_cur st) (ed_text st)) @ NUL # rest"
    using ab by (auto simp: tx)
  show "length (ed_line (ed_insert mx uc st)) = 256" using ok by (simp add: ed_insert_def ed_ok_def)
qed

lemma ed_load_ok:
  assumes "ed_ok mx st"
  shows "ed_ok mx (ed_load mx h st)" "zip_of (ed_load mx h st) = (take (mx - 1) (cstr h), [], hist_off st)"
proof -
  let ?t = "take (mx - 1) (cstr h)"
  have l: "length (ed_line st) = 256" "mx \<le> 256" "0 < mx" using assms by (auto simp: ed_ok_def)
  have len: "length ?t < mx" "length ?t < length (ed_line st)" using l by (auto simp: min_def)
  then have "drop (length ?t) (ed_line st) \<noteq> []" by (simp only: drop_eq_Nil not_le)
  then obtain c rest where d: "drop (length ?t) (ed_line st) = c # rest" by (cases "drop (length ?t) (ed_line st)") auto
  have line: "ed_line (ed_load mx h st) = ?t @ NUL # rest"
    unfolding ed_load_def Let_def d by (simp add: list_update_append)
  have n: "ed_len (ed_load mx h st) = length ?t" "ed_cur (ed_load mx h st) = length ?t" "hist_off (ed_load mx h st) = hist_off st"
    by (simp_all add: ed_load_def Let_def)
  have "length (?t @ NUL # rest) = 256" using d l(1) len(2) by (metis append_take_drop_id length_append length_Cons length_drop add_diff_inverse_nat less_not_sym)
  then show ok: "ed_ok mx (ed_load mx h st)"
    by (intro ed_okI(1) [of _ mx ?t rest]) (use n line l len no_NUL_take_cstr [of "mx - 1" h] in auto)
  have tx: "ed_text (ed_load mx h st) = ?t" unfolding n line by (rule take_front)
  show "zip_of (ed_load mx h st) = (?t, [], hist_off st)"
    unfolding zip_of_text [OF ok] tx unfolding n by (simp only: take_all drop_all order_refl)
qed


lemma ed_remove_ok:
  assumes ok: "ed_ok mx st" and i: "i < ed_len st" and c: "c < ed_len st"
  defines "st' \<equiv> (ed_remove i st)\<lparr>ed_cur := c\<rparr>" and "t' \<equiv> take i (ed_text st) @ drop (Suc i) (ed_text st)"
  shows "ed_ok mx st'" "zip_of st' = (take c t', drop c t', hist_off st)"
proof -
  obtain rest where line: "ed_line st' = t' @ NUL # rest" using ed_remove_eq(1) [OF ok i] by (auto simp: st'_def t'_def)
  have l: "length (ed_line st) = 256" "mx \<le> 256" "ed_len st < mx" "NUL \<notin> set (ed_text st)" using ok by (auto simp: ed_ok_def)
  have n: "ed_len st' = ed_len st - 1" "length t' = ed_len st - 1" "ed_cur st' = c" "hist_off st' = hist_off st"
    using l i by (simp_all add: st'_def t'_def ed_remove_def)
  have "NUL \<notin> set t'" using l(4) set_take_subset [of i "ed_text st"] set_drop_subset [of "Suc i" "ed_text st"] unfolding t'_def set_append by blast
  then show ok': "ed_ok mx st'"
    by (intro ed_okI(1) [OF _ _ _ _ line]) (use n l c ed_remove_eq(2) [OF ok i] in \<open>simp_all add: st'_def\<close>)
  have "ed_text st' = t'" using n line by simp
  then show "zip_of st' = (take c t', drop c t', hist_off st)" unfolding zip_of_text [OF ok'] n by simp
qed

lemma ed_insert_ok:
  assumes ok: "ed_ok mx st"
  shows "ed_ok mx (ed_insert mx uc st)" "zip_of (ed_insert mx uc st) = z_insert mx uc (zip_of st)"
proof -
  have l: "length (ed_line st) = 256" "mx \<le> 256" "ed_len st < mx" "NUL \<notin> set (ed_text st)" "ed_cur st \<le> ed_len st" using ok by (auto simp: ed_ok_def)
  have "ed_ok mx (ed_insert mx uc st) \<and> zip_of (ed_insert mx uc st) = z_insert mx uc (zip_of st)"
  proof (cases "uc \<ge> 32 \<and> uc < 127 \<and> ed_len st < mx - 1")
    case True
    let ?st = "ed_insert mx uc st"
    let ?t = "take (ed_cur st) (ed_text st) @ char_of_byte uc # drop (ed_cur st) (ed_text st)"
    obtain rest where line: "ed_line ?st = ?t @ NUL # rest" using ed_insert_eq(1) [OF ok True] by blast
    have n: "ed_len ?st = ed_len st + 1" "length ?t = ed_len st + 1" "ed_cur ?st = ed_cur st + 1" "hist_off ?st = hist_off st"
      using l True by (simp_all add: ed_insert_def)
    have "Suc (ed_len st) < mx" using True by arith
    have "byte_of NUL = 0" "uc \<noteq> 0" using True by (code_simp, auto)
    then have "char_of_byte uc \<noteq> NUL" using byte_of_char_of_byte [of uc] by metis
    then have "NUL \<notin> set ?t"
      using l(4) set_take_subset [of "ed_cur st" "ed_text st"] set_drop_subset [of "ed_cur st" "ed_text st"]
      unfolding set_append list.set(2) by (metis UnE insertE subsetD)
    then have ok': "ed_ok mx ?st"
      by (intro ed_okI(1) [OF _ _ _ _ line]) (use n l \<open>Suc (ed_len st) < mx\<close> ed_insert_eq(2) [OF ok True] in simp_all)
    have "ed_len ?st = length ?t" by (simp only: n)
    then have "ed_text ?st = ?t" unfolding line by (simp only: take_front)
    then have "zip_of ?st = (take (ed_cur st + 1) ?t, drop (ed_cur st + 1) ?t, hist_off st)" unfolding zip_of_text [OF ok'] n by simp
    then show ?thesis using ok' True l by (simp add: zip_of_text [OF ok] z_insert_def min_def)
  next
    case False
    then show ?thesis using ok l by (auto simp: ed_insert_def z_insert_def zip_of_text [OF ok])
  qed
  then show "ed_ok mx (ed_insert mx uc st)" "zip_of (ed_insert mx uc st) = z_insert mx uc (zip_of st)" by auto
qed


lemma ed_key_refines:
  assumes ok: "ed_ok mx st"
  shows "ed_ok mx (ed_key mx g uc st)" "zip_of (ed_key mx g uc st) = z_key mx g uc (zip_of st)"
proof -
  let ?t = "ed_text st" and ?c = "ed_cur st" and ?n = "ed_len st"
  define t where "t = ?t"
  have l: "length t = ?n" "?c \<le> ?n" "?n < mx" using ok by (auto simp: ed_ok_def t_def)
  have z: "zip_of st = (take ?c t, drop ?c t, hist_off st)" using zip_of_text [OF ok] by (simp add: t_def)
  have move: "ed_ok mx (st\<lparr>ed_cur := c\<rparr>) \<and> zip_of (st\<lparr>ed_cur := c\<rparr>) = (take c t, drop c t, hist_off st)" if "c \<le> ?n" for c
  proof -
    have ok': "ed_ok mx (st\<lparr>ed_cur := c\<rparr>)" using ok that by (simp add: ed_ok_def)
    from zip_of_text [OF this] ok' show ?thesis by (simp add: t_def)
  qed
  have bsp: "ed_ok mx (ed_backspace st) \<and> zip_of (ed_backspace st) = (butlast (take ?c t), drop ?c t, hist_off st)"
  proof (cases "?c > 0")
    case True
    then show ?thesis using ed_remove_ok [OF ok, of "?c - 1" "?c - 1"] l
      by (simp add: ed_backspace_def t_def [symmetric] butlast_take min_def)
  qed (use ok z in \<open>simp add: ed_backspace_def\<close>)
  have del: "ed_ok mx (ed_delete st) \<and> zip_of (ed_delete st) = (take ?c t, tl (drop ?c t), hist_off st)"
  proof (cases "?c < ?n")
    case True
    have "(ed_remove ?c st)\<lparr>ed_cur := ?c\<rparr> = ed_remove ?c st" by (simp add: ed_remove_def)
    with True show ?thesis using ed_remove_ok [OF ok, of "?c" "?c"] l
      by (simp add: ed_delete_def t_def [symmetric] drop_Suc tl_drop)
  qed (use ok z l in \<open>simp add: ed_delete_def\<close>)
  have up: "ed_ok mx (ed_up mx sh st) \<and> zip_of (ed_up mx sh st) = z_up mx sh (zip_of st)" for sh
  proof (cases "hist_off st < min (history_index sh) 50")
    case True
    have "ed_ok mx (st\<lparr>hist_off := hist_off st + 1\<rparr>)" using ok by (simp add: ed_ok_def)
    from ed_load_ok [OF this, of "cli_history sh ! hist_slot sh (hist_off st + 1)"] True z show ?thesis
      by (simp add: ed_up_def z_up_def)
  qed (use ok z in \<open>auto simp: ed_up_def z_up_def\<close>)
  have down: "ed_ok mx (ed_down mx sh st) \<and> zip_of (ed_down mx sh st) = z_down mx sh (zip_of st)" for sh
  proof -
    have ok1: "ed_ok mx (st\<lparr>hist_off := hist_off st - 1\<rparr>)" using ok by (simp add: ed_ok_def)
    have ok2: "ed_ok mx (st\<lparr>hist_off := 0, ed_len := 0, ed_cur := 0, ed_line := (ed_line st)[0 := NUL]\<rparr>)" using ok by (simp add: ed_ok_def)
    from ed_load_ok [OF ok1, of "cli_history sh ! hist_slot sh (hist_off st - 1)"] ok ok2 z show ?thesis
      by (simp add: ed_down_def z_down_def zip_of_def)
  qed
  note ins = ed_insert_ok [OF ok, of uc]
  have "ed_ok mx (ed_key mx g uc st) \<and> zip_of (ed_key mx g uc st) = z_key mx g uc (zip_of st)"
  proof -
    consider "erase_key uc" | "uc = KEY_DEL" | "uc = KEY_LEFT" | "uc = KEY_RIGHT" | "uc = KEY_HOME" | "uc = KEY_END" | "uc = KEY_UP" | "uc = KEY_DOWN"
      | (other) "\<not> erase_key uc" "uc \<noteq> KEY_DEL" "uc \<noteq> KEY_LEFT" "uc \<noteq> KEY_RIGHT" "uc \<noteq> KEY_HOME" "uc \<noteq> KEY_END" "uc \<noteq> KEY_UP" "uc \<noteq> KEY_DOWN"
      by blast
    then show ?thesis
    proof cases
      case 1 with bsp z show ?thesis by (simp add: ed_key_def z_key_def)
    next
      case 2 with del z show ?thesis by (simp add: ed_key_def z_key_def erase_key_def)
    next
      case 3
      show ?thesis
      proof (cases ?c)
        case 0
        with 3 z ok show ?thesis by (simp add: ed_key_def z_key_def erase_key_def)
      next
        case (Suc k)
        then have "drop k t = t ! k # drop (Suc k) t" "take (Suc k) t = take k t @ [t ! k]"
          using l by (simp_all add: Cons_nth_drop_Suc take_Suc_conv_app_nth)
        with 3 Suc move [of k] z l show ?thesis by (simp add: ed_key_def z_key_def erase_key_def)
      qed
    next
      case 4
      with move [of "?c + 1"] z ok l show ?thesis
        by (cases "?c < ?n") (auto simp: ed_key_def z_key_def erase_key_def take_Suc_conv_app_nth hd_drop_conv_nth drop_Suc tl_drop)
    next
      case 5 with move [of 0] z show ?thesis by (simp add: ed_key_def z_key_def erase_key_def)
    next
      case 6 with move [of ?n] z l show ?thesis by (simp add: ed_key_def z_key_def erase_key_def)
    next
      case 7 with up ins z show ?thesis by (simp add: ed_key_def z_key_def erase_key_def)
    next
      case 8 with down ins z show ?thesis by (simp add: ed_key_def z_key_def erase_key_def)
    next
      case other with ins z show ?thesis by (simp add: ed_key_def z_key_def)
    qed
  qed
  then show "ed_ok mx (ed_key mx g uc st)" "zip_of (ed_key mx g uc st) = z_key mx g uc (zip_of st)" by auto
qed


lemma empty_ed_ok: "1 < mx \<Longrightarrow> mx \<le> 256 \<Longrightarrow> ed_ok mx empty_ed" "zip_of empty_ed = ([], [], 0)"
  by (simp_all add: ed_ok_def empty_ed_def zip_of_def)

lemma readline_keys:
  "ed_ok mx st \<Longrightarrow> list_all (\<lambda>k. \<not> enter_key k) ks \<Longrightarrow>
   \<exists>st'. readline_loop mx g buf (ks @ rest) st = readline_loop mx g buf rest st' \<and> ed_ok mx st' \<and> zip_of st' = fold (z_key mx g) ks (zip_of st)"
proof (induction ks arbitrary: st)
  case (Cons k ks)
  from Cons.IH [of "ed_key mx g k st"] Cons.prems ed_key_refines [OF Cons.prems(1), of g k] show ?case by simp
qed auto

lemma cstr_copy_cleared: "0 < n \<Longrightarrow> cstr (cli_strcpy (replicate n NUL) src n) = take (n - 1) (cstr src)"
proof -
  assume "0 < n"
  define s where "s = take (n - 1) (cstr src)"
  have len: "length s \<le> n - 1" by (simp add: s_def)
  then obtain k where k: "n = length s + Suc k" using \<open>0 < n\<close> by (metis Suc_pred' add_Suc_right le_add_diff_inverse)
  have "(s @ replicate (Suc k) NUL)[n - 1 := NUL] = s @ replicate (Suc k) NUL"
    by (simp add: k list_update_append list_update_same_conv nth_Cons' del: replicate_Suc)
  moreover have "drop (length s) (replicate n NUL) = replicate (Suc k) NUL" unfolding k drop_replicate add_diff_cancel_left' ..
  moreover have "cstr (s @ replicate (Suc k) NUL) = s" by (simp add: cstr_append_NUL no_NUL_take_cstr s_def)
  ultimately show ?thesis unfolding cli_strcpy_def Let_def s_def [symmetric] by simp
qed

section \<open>Properties\<close>

text \<open>
  Property: the line editor is an ideal editor. For any keys without Enter, followed by Enter, the
  array editor with its shifting loops returns exactly the text that an editor on the two texts before
  and behind the cursor holds after the same keys: its length, and in the cleared buffer of the caller its
  characters; the text always fits the buffer with its terminator.
\<close>

theorem cli_readline_refines:
  assumes "1 < mx" "mx \<le> CLI_MAX_INPUT_LEN" "list_all (\<lambda>k. \<not> enter_key k) ks" "enter_key e"
    and "fold (z_key mx g) ks ([], [], 0) = (l, r, off)"
  shows "\<exists>buf. cli_readline mx g (replicate mx NUL) (ks @ e # rest) = Some (length (l @ r), buf, rest)
    \<and> cstr buf = l @ r \<and> length (l @ r) < mx"
proof -
  obtain st where st: "readline_loop mx g (replicate mx NUL) (ks @ e # rest) empty_ed = readline_loop mx g (replicate mx NUL) (e # rest) st"
    "ed_ok mx st" "zip_of st = fold (z_key mx g) ks (zip_of empty_ed)"
    using readline_keys [OF empty_ed_ok(1) [OF assms(1,2)] assms(3)] by blast
  obtain t tail where t: "ed_line st = t @ NUL # tail" "length t = ed_len st" "NUL \<notin> set t" "length t < mx" "ed_cur st \<le> length t"
    using st(2) by (rule ed_okE)
  have "l @ r = t" using st(3) zip_of_text [OF st(2)] assms(5) t(1,2) by (auto simp: empty_ed_ok(2))
  moreover have "cstr (cli_strcpy (replicate mx NUL) (ed_line st) mx) = t"
    using cstr_copy_cleared [of mx "ed_line st"] assms(1) t(1,3,4) by (simp add: cstr_append_NUL)
  ultimately show ?thesis using st(1) assms(1,4) t(2,4) by (auto simp: cli_readline_def)
qed

theorem cli_readline_refines_witness:
  "\<exists>buf. cli_readline 256 None (replicate 256 NUL) [0x61, 0x63, KEY_LEFT, 0x62, KEY_END, 0x64, 0x08, 0x0A] = Some (3, buf, []) \<and> cstr buf = ''abc''"
proof -
  have "list_all (\<lambda>k. \<not> enter_key k) [0x61, 0x63, KEY_LEFT, 0x62, KEY_END, 0x64, 0x08]" "enter_key 0x0A"
    "fold (z_key 256 None) [0x61, 0x63, KEY_LEFT, 0x62, KEY_END, 0x64, 0x08] ([], [], 0) = (''abc'', [], 0)" by code_simp+
  from cli_readline_refines [OF _ _ this, of "[]"] show ?thesis by (simp add: numeral_3_eq_3)
qed

end
