(* ===== verification/Spec2Isabelle.thy ===== *)
theory Spec2Isabelle
  imports Exec Sandbox Cli_Commands Cli_Edit
begin

text \<open>
  A verification library for the C kernel of VernisOS: its services, file systems, network stack, security
  checks and shell, as functions on explicit states, with the theorems that make them correct.

  \<^bold>\<open>How the system is put together.\<close> The shell (\<open>kernel/shell/cli.c\<close>) reads a line, splits it, checks every
  command against the privilege of the session and the policy engine, records refusals in the audit log and
  runs the handler of the command. The file commands call the kernel's file layer (\<open>kernel/fs/vfs.c\<close>), which
  routes a path to a pseudo file, a mounted FAT32 or ext2 volume, or VernisFS; all of them read and write
  sectors through two function pointers, and these point to the block cache, which sits on an ATA, AHCI or
  NVMe disk. The user database and the policy are files and sectors read the same way; passwords are
  compared by SHA-256. Processes talk through mailboxes, channels and local sockets by system calls, behind a
  sandbox that filters calls and checks pointers. Below, \<open>kernel/arch/x86_64/kernel_x64.c\<close> handles every interrupt: the
  timer switches between tasks, \<open>int 0x80\<close> creates, loads, ends and identifies processes and maps memory, a fault is
  resolved by copy on write or demand paging or ends the process; each process has page tables of its own over one pool of
  frames with reference counts, and descriptors for files, pipes, the terminal and sockets. A frame of the network card passes the
  Ethernet, ARP and IP layer; TCP turns segments into byte streams, UDP carries datagrams and
  the clients that lease an address and resolve names. The AI engine, in
  Rust, and the AI service, at the other end of a serial line, receive events; their replies come back through
  the bridge.

  \<^bold>\<open>Theories\<close>, each with the file of \<open>src/\<close> it models:
  \<^item> \<open>Vernis_Prelude\<close>: machine words, C strings, byte encodings, the shared lemma collections.
  \<^item> \<open>Ring_Buffers\<close>: rings as lists, and the locales \<open>bounded_fifo\<close> and \<open>bounded_log\<close>, the contracts of a queue
    that refuses and of a log that forgets; interpreted in \<open>Ipc\<close>, \<open>Udp\<close>, \<open>Descriptors\<close> and \<open>Logs\<close>.
  \<^item> \<open>Ipc\<close> (\<open>kernel/ipc/ipc.c\<close>): mailboxes, channels, local sockets, system calls 20 to 27; refinement of an
    abstract mailbox service, well-formedness of every reachable state.
  \<^item> \<open>Block_Device\<close> (\<open>kernel/fs/vernisfs.c\<close>, the disk pointers): the locales \<open>block_device\<close>, \<open>reliable_device\<close> and
    \<open>flawless_device\<close>, each a stronger promise of a disk.
  \<^item> \<open>Bcache\<close> (\<open>kernel/fs/bcache.c\<close>): the block cache; it keeps each of the three promises of the disk below it.
  \<^item> \<open>Vernisfs\<close> (\<open>kernel/fs/vernisfs.c\<close>): superblock, file table and file operations over any disk of the locale.
  \<^item> \<open>Fat32\<close>, \<open>Ext2\<close> (\<open>kernel/fs/fat32.c\<close>, \<open>kernel/fs/ext2.c\<close>): the read-only volumes.
  \<^item> \<open>Kfs\<close> (\<open>kernel/fs/vfs.c\<close>): choice of the disk, mounts, pseudo files, permissions.
  \<^item> \<open>Tcp\<close> (\<open>kernel/net/tcp.c\<close>): handshake, window, retransmission, reassembly, checksum.
  \<^item> \<open>Udp\<close> (\<open>kernel/net/udp.c\<close>): sockets with bounded queues, the DHCP and DNS clients on them.
  \<^item> \<open>Net\<close> (\<open>kernel_x64.c\<close>): Ethernet frames, the ARP cache, IP and the dispatch to TCP, UDP and ICMP, between two kernels.
  \<^item> \<open>Descriptors\<close> (\<open>kernel_x64.c\<close>): descriptor tables, pipes, the terminal, the calls on files and sockets.
  \<^item> \<open>Paging\<close> (\<open>kernel_x64.c\<close>): the pool of frames and its free list, four-level page tables as words of physical memory, copy on
    write, creation, copy and release of address spaces. \<open>Address_Space\<close> relates the words to an abstract space (tables, pages and
    their frames), \<open>Isolation\<close> shows that two processes after a fork are two private memories, \<open>Space_Lifecycle\<close> that every frame is
    accounted for from creation to exit.
  \<^item> \<open>Tasks\<close> (\<open>kernel_x64.c\<close>): the table of tasks, preemption, process calls, the ELF loader, mapped regions, faults, and
    \<open>interrupt_dispatch\<close> over them. \<open>Processes\<close> has the properties of scheduling, identity, regions and faults, \<open>Exec\<close> what memory
    holds after a program is loaded.
  \<^item> \<open>Sha256\<close>, \<open>Userdb\<close>, \<open>Sandbox\<close>, \<open>Policy\<close> (\<open>kernel/security/\<close>): digests, accounts, system-call filter and
    pointer check, command policy and its loader.
  \<^item> \<open>Logs\<close> (\<open>kernel/log/klog.c\<close>, \<open>kernel/security/auditlog.c\<close>): the two logs.
  \<^item> \<open>Ai_Bridge\<close> (\<open>kernel/drivers/ai_bridge.c\<close>, \<open>kernel/drivers/ai_engine.c\<close>): framed messages over the serial line, the
    calls into the engine and its callbacks.
  \<^item> \<open>Cli_Text\<close>, \<open>Cli_Exec\<close>, \<open>Cli_Edit\<close>, \<open>Cli_Commands\<close> (\<open>kernel/shell/cli.c\<close>): strings, formatted output and the
    parser; sessions, the gate, pipes, lines and user switching; the line editor and the loop; the command
    table and the commands on text, files, volumes and sockets.
  \<^item> this theory: the properties that need several parts at once.

  \<^bold>\<open>How the model corresponds to the code.\<close> A structure is a record, the static variables of a file are the
  state its functions take and return, a pointer that may be null is an option, a fixed array is a list of its
  length. Integers keep their width (\<open>32 word\<close> and so on) where the code computes with them. Error codes are the
  values the code returns. Names of definitions are those of the code; helpers stand for a loop or a branch of
  the function whose lines they translate. Memory outside a buffer is not modelled: where the code stores
  behind a buffer, the operation says so in its result.

  \<^bold>\<open>Bounds and fuel.\<close> Every function is total except two kinds. Walks along a FAT chain and the rounds of the
  shell are partial functions to an option: a circular chain does not end, and the shell waits for keys. Reading a
  FAT file that was found returns on every chain, circular ones included, and so does reading an ext2 file; looking up a name in a circular
  directory need not end. The polling loop of the bridge takes the number of polls the
  code allows as its bound, and a C string in user memory is followed over at most the 32-bit address space. A handler that polls
  a device takes the list of what the device delivers, one list for each interrupt, and gives \<open>None\<close> where the list is too short.

  \<^bold>\<open>Parameters.\<close> What is not C code of this kernel is an argument: the disk drivers behind the disk interface, the
  Rust engine (\<open>rust_engine\<close>), the serial port, the scheduler (\<open>sched_ops\<close>), the network card (\<open>nic\<close>) and what it
  delivers at a timer interrupt, the work of the disk then, the contents of fresh stack memory. The
  properties that rely on a disk name the locale of its promise and are shown to be satisfiable on a RAM disk.

  \<^bold>\<open>What the theorems show.\<close> Refinement of abstract services (mailboxes, channels, cache, logs, line editor);
  round trips (files through every layer, metadata, messages, segments, names); invariants of all reachable
  states (IPC, TCP, UDP, mapped regions); safety (other files untouched, streams in order, permissions, the documented calls
  of the filter, complete mediation by the gate of the shipped command table, \<open>su\<close>, memory of
  processes private, frames neither lost nor shared, no way to user 0); functional correctness of the loader;
  termination and liveness (file reads end on every FAT chain, handshakes complete, queries are answered, every task gets its turn);
  errors (what a fault changes, and that the scheduler and the loaded page tables are not part of what it puts right); and the exact
  behaviour where the code does something it should not: a failed write-back loses data, growing a file
  overwrites its neighbour, reads store behind the buffer, a mode of zero opens a file, long ranges wrap around
  the pointer check, kernel processes pass the filter with every number, \<open>logout\<close> gives root, \<open>grep\<close> ignores permissions, a bad pointer in a system call stops the machine, a
  pipe shows bytes of its last user.

  \<^bold>\<open>Not modelled.\<close> Of the 64-bit architecture layer, the descriptor tables of the processor, ports, keyboard and mouse, screen,
  serial lines and boot; its 32-bit twin (\<open>kernel/arch/x86/\<close>). \<open>interrupt_dispatch\<close> has the process calls: the calls on
  descriptors and IPC are functions of \<open>Descriptors\<close> and \<open>Ipc\<close> and are not dispatched there, where their numbers give \<open>None\<close>, and messages and AI events of the handlers are
  left out. Modules and libraries (\<open>kernel/module/\<close>) run code of others in kernel mode. The shell commands for hardware,
  network and diagnostics print state of these parts. ACPI walks firmware tables, the self-test only prints, the
  shims are memory copies, the user library is inline assembly; the Rust core, the Python service and the boot
  loader are not C.
\<close>

section \<open>Files through the cache\<close>

text \<open>
  Property C3: the whole storage stack stores files. On a disk without faults behind the block cache,
  a write of a plain path through the kernel's file layer returns its length, and a read of the same
  path into a large enough buffer then returns exactly the bytes written; it does not matter what the
  cache held and what it evicted on the way.
\<close>

theorem kfs_file_roundtrip:
  assumes "flawless_device disk dinv contents" "bcache_inv dinv contents (vfs_disk (k_vfs s))"
    and "vfs_wf (k_vfs s)" "vfs_layout (k_vfs s)" "g_vfs_ready (k_vfs s)" "g_ops s"
    and "vfs_find_file path (k_vfs s) \<noteq> None \<or> find_slot (\<lambda>e. fe_type e = VFS_TYPE_EMPTY) (g_filetable (k_vfs s)) \<noteq> None"
    and "\<not> kfs_read_only path" "length (cstr path) < VFS_MAX_FILENAME"
    and "len \<le> length data" "sectors_for len \<le> 255" "len \<le> max_len" "sectors_for len * SECTOR_SIZE \<le> length buf"
  shows "\<exists>s1 buf' s2. kfs_write_file (bcache_ops disk) (Some path) data len s = (int len, s1)
    \<and> kfs_read_file (bcache_ops disk) env (Some path) buf max_len s1 = Some ((int len, buf'), s2)
    \<and> take len buf' = take len data"
  by (rule plain_file_roundtrip [OF flawless_device.cached_flawless [OF assms(1)] assms(2-)])

definition cached_vfs :: "medium bcache vfs" where
  "cached_vfs = \<lparr>g_superblock = g_superblock fresh_vfs, g_filetable = g_filetable fresh_vfs, g_vfs_ready = True,
     vfs_disk = bcache_init (\<lambda>x. replicate 512 0)\<rparr>"

definition cached_kfs :: "medium bcache fat32 \<Rightarrow> medium bcache ext2 \<Rightarrow> medium bcache kfs" where
  "cached_kfs fat ext = \<lparr>g_backend = KFS_BACKEND_NVME, g_ops = True, k_vfs = cached_vfs, k_fat = fat, k_ext2 = ext,
     g_kfs_mount_scratch = empty_entry\<rparr>"

lemma cached_kfs_facts:
  "bcache_inv ram_inv (\<lambda>v. v) (vfs_disk (k_vfs (cached_kfs fat ext)))"
  "vfs_wf (k_vfs (cached_kfs fat ext))" "vfs_layout (k_vfs (cached_kfs fat ext))" "g_vfs_ready (k_vfs (cached_kfs fat ext))" "g_ops (cached_kfs fat ext)"
  "vfs_find_file path (k_vfs (cached_kfs fat ext)) = None"
  "find_slot (\<lambda>e. fe_type e = VFS_TYPE_EMPTY) (g_filetable (k_vfs (cached_kfs fat ext))) \<noteq> None"
proof -
  have "ram_inv (\<lambda>x. replicate 512 0)" by (simp add: ram_inv_def)
  then show "bcache_inv ram_inv (\<lambda>v. v) (vfs_disk (k_vfs (cached_kfs fat ext)))"
    by (simp add: cached_kfs_def cached_vfs_def bcache_init_inv(1))
  show "vfs_wf (k_vfs (cached_kfs fat ext))" "vfs_layout (k_vfs (cached_kfs fat ext))" "g_vfs_ready (k_vfs (cached_kfs fat ext))" "g_ops (cached_kfs fat ext)"
    using fresh_vfs_facts(1,2) by (simp_all add: cached_kfs_def cached_vfs_def vfs_wf_def vfs_layout_def)
  have "find_slot (\<lambda>e. fe_type e = VFS_TYPE_EMPTY) (g_filetable (k_vfs (cached_kfs fat ext))) = Some 0"
    by (simp add: find_slot_Some_iff cached_kfs_def cached_vfs_def fresh_vfs_def empty_entry_def)
  then show "find_slot (\<lambda>e. fe_type e = VFS_TYPE_EMPTY) (g_filetable (k_vfs (cached_kfs fat ext))) \<noteq> None" by simp
  have "find_slot (file_named path) (g_filetable (k_vfs (cached_kfs fat ext))) = None"
    unfolding find_slot_None_iff by (simp add: cached_kfs_def cached_vfs_def fresh_vfs_def file_named_def empty_entry_def)
  then show "vfs_find_file path (k_vfs (cached_kfs fat ext)) = None" by (simp add: vfs_find_file_def)
qed

theorem kfs_file_roundtrip_witness:
  "\<forall>fat ext env. \<exists>s1 buf' s2. kfs_write_file (bcache_ops ram_ops) (Some ''/f'') [4, 5, 6] 3 (cached_kfs fat ext) = (3, s1)
    \<and> kfs_read_file (bcache_ops ram_ops) env (Some ''/f'') (replicate 512 7) 512 s1 = Some ((3, buf'), s2)
    \<and> take 3 buf' = [4, 5, 6]"
proof (intro allI)
  fix fat ext env
  let ?s = "cached_kfs fat ext"
  note f = cached_kfs_facts [where fat = fat and ext = ext]
  have slot: "vfs_find_file ''/f'' (k_vfs ?s) \<noteq> None \<or> find_slot (\<lambda>e. fe_type e = VFS_TYPE_EMPTY) (g_filetable (k_vfs ?s)) \<noteq> None"
    using f(7) by simp
  have "length (cstr ''/f'') < VFS_MAX_FILENAME" "3 \<le> length [4, 5, 6 :: u8]" "sectors_for 3 \<le> 255" "(3 :: nat) \<le> 512"
    "sectors_for 3 * SECTOR_SIZE \<le> length (replicate 512 (7 :: u8))" by (simp_all add: cstr_def sectors_for_def)
  from kfs_file_roundtrip [OF ram.flawless_device_axioms f(1-5) slot demo_plain this, of env]
  show "\<exists>s1 buf' s2. kfs_write_file (bcache_ops ram_ops) (Some ''/f'') [4, 5, 6] 3 ?s = (3, s1)
    \<and> kfs_read_file (bcache_ops ram_ops) env (Some ''/f'') (replicate 512 7) 512 s1 = Some ((3, buf'), s2)
    \<and> take 3 buf' = [4, 5, 6]" by simp
qed

section \<open>Files through the shell\<close>

lemma join_args_all:
  "length (acc @ concat (map ((#) (CHR '' '')) as)) \<le> mx - 1 \<Longrightarrow>
   join_args_loop mx False as acc = acc @ concat (map ((#) (CHR '' '')) as)"
  by (induction as arbitrary: acc) (auto simp: Let_def)

lemma join_words_length: "length (join_words (w # ws)) = Suc (length (w @ concat (map ((#) (CHR '' '')) ws)))"
  by (induction ws arbitrary: w) (auto simp: join_words_def)

lemma join_args_words:
  assumes "argv cmd = v # path # a # as" "length (join_words (argv cmd)) < CLI_MAX_INPUT_LEN"
  shows "cli_join_args cmd 2 256 = a @ concat (map ((#) (CHR '' '')) as)"
proof -
  have "length (join_words (a # as)) < 256" using assms by (simp add: join_words_def)
  then have "length (a @ concat (map ((#) (CHR '' '')) as)) \<le> 255" unfolding join_words_length by simp
  then show ?thesis using join_args_all [of a as 256] assms(1) by (simp add: cli_join_args_def Let_def)
qed

text \<open>
  Property C1: what a user writes at the prompt, the same user can show. On a disk without faults behind
  the block cache, the line \<open>write path words; cat path\<close>, typed by any user the policy lets run the two
  commands, for a path that is not taken, succeeds and ends with exactly the words, separated by blanks,
  on the screen: parsing, the gate, the permission check of the new file, the file layer, VernisFS and the
  cache work together.
\<close>

theorem shell_write_then_cat:
  assumes dev: "flawless_device disk dinv contents" "mc_ops m = bcache_ops disk" "bcache_inv dinv contents (vfs_disk (k_vfs (os_kfs (sh_kernel w))))"
    and fs: "vfs_wf (k_vfs (os_kfs (sh_kernel w)))" "vfs_layout (k_vfs (os_kfs (sh_kernel w)))"
      "g_vfs_ready (k_vfs (os_kfs (sh_kernel w)))" "g_ops (os_kfs (sh_kernel w))"
    and slot: "vfs_find_file path (k_vfs (os_kfs (sh_kernel w))) = None"
      "find_slot (\<lambda>e. fe_type e = VFS_TYPE_EMPTY) (g_filetable (k_vfs (os_kfs (sh_kernel w)))) \<noteq> None"
    and path: "\<not> kfs_read_only path" "length (cstr path) < VFS_MAX_FILENAME"
    and impl: "impl ''write'' = cli_cmd_write m" "impl ''cat'' = cli_cmd_cat m" "length (mc_stack m 512) = 512"
    and gate: "cs_privilege s \<le> CLI_PRIV_USER" "policy_check_command rust (Some ''write'') (ucast (cs_privilege s)) (sh_ai w)"
      "policy_check_command rust (Some ''cat'') (ucast (cs_privilege s)) (sh_ai w)"
    and line: "list_all plain_word (path # a # as)" "plain_text (join_words (''write'' # path # a # as))" "length as < 14"
      "length (join_words (''write'' # path # a # as) @ '';'' @ join_words [''cat'', path]) < CLI_MAX_INPUT_LEN"
    and shell: "\<not> cap_active (sh_con w)" "\<not> sh_ps_live w"
  shows "\<exists>s' w' msg. cli_process_line rust (builtin_table impl) s (join_words (''write'' # path # a # as) @ '';'' @ join_words [''cat'', path]) w
      = Some (CLI_OK, s', w') \<and> screen (sh_con w') = screen (sh_con w) @ msg @ (a @ concat (map ((#) (CHR '' '')) as)) @ [CHR 0x0A]"
proof -
  let ?A = "join_words (''write'' # path # a # as)" and ?B = "join_words [''cat'', path]" and ?t = "builtin_table impl"
  let ?cw = "no_command\<lparr>argv := ''write'' # path # a # as\<rparr>" and ?cc = "no_command\<lparr>argv := [''cat'', path]\<rparr>"
  let ?s1 = "s\<lparr>commands_executed := commands_executed s + 1\<rparr>"
  define w0 where "w0 = w\<lparr>sh_klog := snd (klog (ucast (sh_ticks w)) KLOG_DEBUG (Some ''cli'') (Some ''write'') (sh_klog w))\<rparr>"
  have w0: "sh_kernel w0 = sh_kernel w" "sh_con w0 = sh_con w" "sh_ai w0 = sh_ai w" by (simp_all add: w0_def)
  have lens: "length ?A < 256" "length ?B < 256" using line(4) by simp_all
  have words: "list_all plain_word (''write'' # path # a # as)" "list_all plain_word [''cat'', path]"
    using line(1) by (simp_all add: plain_word_def token_end_def blank_def)
  have B: "plain_text ?B" using line(2) by (simp add: plain_text_def join_words_def)
  have drop: "dropWhile blank ?A = ?A" "dropWhile blank ?B = ?B" "?A \<noteq> []" "?B \<noteq> []" by (simp_all add: join_words_def blank_def)
  have content: "cli_join_args ?cw 2 256 = a @ concat (map ((#) (CHR '' '')) as)" using join_args_words [of ?cw "''write''" path a as] lens(1) by simp
  have nul: "NUL \<notin> set (cli_join_args ?cw 2 256)" using line(1) by (auto simp: content plain_word_def list_all_iff)
  have pre: "bcache_inv dinv contents (vfs_disk (k_vfs (os_kfs (sh_kernel w0))))"
    "vfs_wf (k_vfs (os_kfs (sh_kernel w0)))" "vfs_layout (k_vfs (os_kfs (sh_kernel w0)))"
    "g_vfs_ready (k_vfs (os_kfs (sh_kernel w0)))" "g_ops (os_kfs (sh_kernel w0))" "vfs_find_file path (k_vfs (os_kfs (sh_kernel w0))) = None"
    "find_slot (\<lambda>e. fe_type e = VFS_TYPE_EMPTY) (g_filetable (k_vfs (os_kfs (sh_kernel w0)))) \<noteq> None"
    and con: "\<not> cap_active (sh_con w0)"
    unfolding w0 by (fact dev(3) fs slot shell(1))+
  have cmds: "argv ?cw = ''write'' # path # a # as" "argv ?cc = [''cat'', path]" by simp_all
  note fdev = flawless_device.cached_flawless [OF dev(1), folded dev(2)]
  obtain w1 where w1: "cli_cmd_write m ?s1 ?cw w0 = Some (CLI_OK, ?s1, w1)" "prints (sh_con w0) (sh_con w1)" "sh_ai w1 = sh_ai w0"
    and cat: "\<forall>s' kl. \<exists>w2. cli_cmd_cat m s' ?cc (w1\<lparr>sh_klog := kl\<rparr>) = Some (CLI_OK, s', w2)
       \<and> screen (sh_con w2) = screen (sh_con w1) @ cli_join_args ?cw 2 256 @ [CHR 0x0A]"
    using write_then_cat [OF fdev pre path cmds nul impl(3) con] by blast
  have one: "cli_process_single rust ?t s ?A w = Some (CLI_OK, ?s1, w1)"
    using process_words [OF words(1) _ lens(1) builtin_write [of impl], of s rust w] gate(1,2) line(3) w1(1) impl(1) by (simp add: w0_def)
  let ?v = "w1\<lparr>sh_klog := snd (klog (ucast (sh_ticks w1)) KLOG_DEBUG (Some ''cli'') (Some ''cat'') (sh_klog w1))\<rparr>"
  have run: "cli_process_single rust ?t ?s1 ?B w1 = cli_cmd_cat m (s\<lparr>commands_executed := commands_executed s + 1 + 1\<rparr>) ?cc ?v"
    using process_words [OF words(2) _ lens(2) builtin_cat [of impl], of ?s1 rust w1] gate(1,3) impl(2) w1(3) w0(3) by simp
  obtain s' w2 where two: "cli_process_single rust ?t ?s1 ?B w1 = Some (CLI_OK, s', w2)"
    "screen (sh_con w2) = screen (sh_con w1) @ cli_join_args ?cw 2 256 @ [CHR 0x0A]"
    unfolding run using cat by blast
  have "cli_process_line rust ?t s (?A @ sep_text SEP_SEQ @ ?B) w = Some (CLI_OK, s', w2)"
    using two_commands [OF line(2) B, of SEP_SEQ w rust ?t s] drop line(4) shell(2) one two(1) by (simp add: sep_text_def)
  with two(2) w1(2) show ?thesis unfolding content w0 by (auto simp: sep_text_def prints_def)
qed

definition demo_impl :: "'d machine \<Rightarrow> cstring \<Rightarrow> (unit, 'd os) handler" where
  "demo_impl m name = (if name = ''write'' then cli_cmd_write m else cli_cmd_cat m)"

theorem shell_write_then_cat_witness:
  "\<forall>fat ext ipc env. \<exists>s' w' msg.
     cli_process_line demo_rust (builtin_table (demo_impl \<lparr>mc_ops = bcache_ops ram_ops, mc_env = env, mc_stack = (\<lambda>n. replicate n 0)\<rparr>))
       guest ''write /f hello world ;cat /f '' (os_shell \<lparr>os_kfs = cached_kfs fat ext, os_ipc = ipc\<rparr> []) = Some (CLI_OK, s', w')
     \<and> screen (sh_con w') = msg @ ''hello world'' @ [CHR 0x0A]"
proof (intro allI)
  fix fat ext ipc env
  define m where "m = \<lparr>mc_ops = bcache_ops ram_ops, mc_env = env, mc_stack = (\<lambda>n. replicate n (0 :: u8))\<rparr>"
  define w where "w = os_shell \<lparr>os_kfs = cached_kfs fat ext, os_ipc = ipc\<rparr> []"
  have k: "os_kfs (sh_kernel w) = cached_kfs fat ext" "\<not> cap_active (sh_con w)" "\<not> sh_ps_live w" "sh_ai w = demo_engine" "screen (sh_con w) = []"
    by (simp_all add: w_def os_shell_def)
  have m: "mc_ops m = bcache_ops ram_ops" "length (mc_stack m 512) = 512" by (simp_all add: m_def)
  have impl: "demo_impl m ''write'' = cli_cmd_write m" "demo_impl m ''cat'' = cli_cmd_cat m" by (simp_all add: demo_impl_def)
  have gate: "cs_privilege guest \<le> CLI_PRIV_USER" "policy_check_command demo_rust (Some ''write'') (ucast (cs_privilege guest)) demo_engine"
    "policy_check_command demo_rust (Some ''cat'') (ucast (cs_privilege guest)) demo_engine" by code_simp+
  have line: "list_all plain_word [''/f'', ''hello'', ''world'']" "plain_text (join_words [''write'', ''/f'', ''hello'', ''world''])"
    by code_simp+
  have len: "length (cstr ''/f'') < VFS_MAX_FILENAME" "length [''world''] < 14"
    "length (join_words [''write'', ''/f'', ''hello'', ''world''] @ '';'' @ join_words [''cat'', ''/f'']) < CLI_MAX_INPUT_LEN"
    by (simp_all add: cstr_def join_words_def)
  have tx: "join_words [''write'', ''/f'', ''hello'', ''world''] @ '';'' @ join_words [''cat'', ''/f''] = ''write /f hello world ;cat /f ''"
    by (simp add: join_words_def)
  note f = cached_kfs_facts [where fat = fat and ext = ext]
  have "\<exists>s' w' msg. cli_process_line demo_rust (builtin_table (demo_impl m)) guest ''write /f hello world ;cat /f '' w = Some (CLI_OK, s', w')
     \<and> screen (sh_con w') = msg @ ''hello world'' @ [CHR 0x0A]"
    using shell_write_then_cat [OF ram.flawless_device_axioms m(1) f [folded k(1)] demo_plain len(1) impl m(2) gate [folded k(4)] line len(2,3) k(2,3)]
    unfolding tx k(5) by simp
  then show "\<exists>s' w' msg.
     cli_process_line demo_rust (builtin_table (demo_impl \<lparr>mc_ops = bcache_ops ram_ops, mc_env = env, mc_stack = (\<lambda>n. replicate n 0)\<rparr>))
       guest ''write /f hello world ;cat /f '' (os_shell \<lparr>os_kfs = cached_kfs fat ext, os_ipc = ipc\<rparr> []) = Some (CLI_OK, s', w')
     \<and> screen (sh_con w') = msg @ ''hello world'' @ [CHR 0x0A]" unfolding m_def w_def .
qed

end
